(* ===== verification/Prelude.thy ===== *)
theory Prelude
  imports Main "HOL-Library.Monad_Syntax" "HOL-Library.Multiset" "HOL-Library.Word"
begin

section \<open>Shared vocabulary\<close>

text \<open>
  What every component theory uses: undefined behaviour as the value \<open>None\<close>, indexed
  access to a C++ vector, the truncation of a value to a C++ \<open>int\<close>, and the generic
  facts on lists and option-valued computations the component proofs share.

  Conventions of the whole development:
  \<^item> A C++ expression whose evaluation is undefined (a null or dangling pointer that is
    dereferenced, an index outside a vector, \<open>front\<close> of an empty container) makes the
    modelled operation return \<open>None\<close>. A theorem of the form "the operation returns
    \<open>Some\<close> result and ..." therefore also says that no undefined behaviour is reached.
  \<^item> A signed \<open>int\<close> is an \<open>int\<close>: its overflow is undefined in C++, so the value
    is the mathematical one. Where the code relies on an unsigned wrap-around or on a
    narrowing conversion, the wrap-around is written out.
  \<^item> A pointer is an address or \<open>None\<close> (the null pointer).
\<close>

named_theorems ub_simps \<open>unfolding of checked accesses\<close>

type_synonym addr = nat
type_synonym ptr = "addr option"

subsection \<open>Checked accesses\<close>

definition vget :: "'a list \<Rightarrow> nat \<Rightarrow> 'a option" where
  "vget xs i = (if i < length xs then Some (xs ! i) else None)"

definition vset :: "'a list \<Rightarrow> nat \<Rightarrow> 'a \<Rightarrow> 'a list option" where
  "vset xs i v = (if i < length xs then Some (xs[i := v]) else None)"

lemma vget_eq_Some [simp]: "vget xs i = Some x \<longleftrightarrow> i < length xs \<and> x = xs ! i"
  by (auto simp: vget_def)

lemma vget_in [ub_simps]: "i < length xs \<Longrightarrow> vget xs i = Some (xs ! i)"
  by (simp add: vget_def)

lemma vget_out [ub_simps]: "length xs \<le> i \<Longrightarrow> vget xs i = None"
  by (simp add: vget_def)

lemma vset_eq_Some [simp]: "vset xs i v = Some ys \<longleftrightarrow> i < length xs \<and> ys = xs[i := v]"
  by (auto simp: vset_def)

lemma vset_in [ub_simps]: "i < length xs \<Longrightarrow> vset xs i v = Some (xs[i := v])"
  by (simp add: vset_def)

lemma vset_out [ub_simps]: "length xs \<le> i \<Longrightarrow> vset xs i v = None"
  by (simp add: vset_def)

subsection \<open>Option-valued computations\<close>

lemma bind_eq_Some [simp]:
  "Option.bind m f = Some y \<longleftrightarrow> (\<exists>x. m = Some x \<and> f x = Some y)"
  by (cases m) auto

lemma case_option_ptr [simp]:
  "(case p of None \<Rightarrow> Some a | Some x \<Rightarrow> Some (f x)) = Some (case p of None \<Rightarrow> a | Some x \<Rightarrow> f x)"
  by (cases p) auto

subsection \<open>Narrowing to a 32-bit signed integer\<close>

definition to_int32 :: "int \<Rightarrow> int" where
  "to_int32 x = (x + 2 ^ 31) mod 2 ^ 32 - 2 ^ 31"

lemma to_int32_id [simp]: "- (2 ^ 31) \<le> x \<Longrightarrow> x < 2 ^ 31 \<Longrightarrow> to_int32 x = x"
  by (simp add: to_int32_def)

lemma to_int32_range: "- (2 ^ 31) \<le> to_int32 x \<and> to_int32 x < 2 ^ 31"
proof -
  have "0 \<le> (x + 2 ^ 31) mod 2 ^ 32" and "(x + 2 ^ 31) mod 2 ^ 32 < (2 ^ 32 :: int)"
    by simp_all
  then show ?thesis by (simp add: to_int32_def)
qed

definition to_u64 :: "int \<Rightarrow> int" where
  "to_u64 x = x mod 2 ^ 64"

lemma to_u64_id [simp]: "0 \<le> x \<Longrightarrow> x < 2 ^ 64 \<Longrightarrow> to_u64 x = x"
  by (simp add: to_u64_def)

text \<open>The C++ remainder takes the sign of the dividend; a zero divisor is undefined.\<close>

definition crem :: "int \<Rightarrow> int \<Rightarrow> int option" where
  "crem a b = (if b = 0 then None else Some (sgn a * (\<bar>a\<bar> mod \<bar>b\<bar>)))"

lemma crem_pos [simp]: "0 \<le> a \<Longrightarrow> 0 < b \<Longrightarrow> crem a b = Some (a mod b)"
  by (cases "a = 0") (auto simp: crem_def)

text \<open>Division of signed integers truncates towards zero; the divisors of the program are constants.\<close>

definition cdiv :: "int \<Rightarrow> int \<Rightarrow> int" where
  "cdiv a b = sgn a * sgn b * (\<bar>a\<bar> div \<bar>b\<bar>)"

lemma cdiv_nonneg: "0 \<le> a \<Longrightarrow> 0 < b \<Longrightarrow> cdiv a b = a div b"
  by (auto simp: cdiv_def sgn_if)

subsection \<open>The pollfd of poll.h\<close>

record pollfd =
  fd :: int
  pevents :: "16 word"   \<comment> \<open>the field \<open>events\<close>\<close>
  revents :: "16 word"

subsection \<open>Lists\<close>

definition last_opt :: "'a list \<Rightarrow> 'a option" where
  "last_opt xs = (if xs = [] then None else Some (last xs))"

definition hd_opt :: "'a list \<Rightarrow> 'a option" where
  "hd_opt xs = (case xs of [] \<Rightarrow> None | x # _ \<Rightarrow> Some x)"

lemma last_opt_simps [simp]:
  "last_opt [] = None" "last_opt (xs @ [x]) = Some x" "last_opt [x] = Some x"
  "last_opt (x # y # ys) = last_opt (y # ys)"
  by (simp_all add: last_opt_def)

lemma hd_opt_simps [simp]: "hd_opt [] = None" "hd_opt (x # xs) = Some x"
  by (simp_all add: hd_opt_def)

lemma last_opt_eq_None [simp]: "last_opt xs = None \<longleftrightarrow> xs = []"
  by (simp add: last_opt_def)

lemma hd_opt_eq_None [simp]: "hd_opt xs = None \<longleftrightarrow> xs = []"
  by (simp add: hd_opt_def split: list.split)

lemma last_opt_append [simp]: "ys \<noteq> [] \<Longrightarrow> last_opt (xs @ ys) = last_opt ys"
  by (simp add: last_opt_def)

lemma hd_opt_append [simp]: "xs \<noteq> [] \<Longrightarrow> hd_opt (xs @ ys) = hd_opt xs"
  by (simp add: hd_opt_def split: list.split)

lemma last_opt_in_set: "last_opt xs = Some x \<Longrightarrow> x \<in> set xs"
  by (auto simp: last_opt_def split: if_splits)

lemma hd_opt_in_set: "hd_opt xs = Some x \<Longrightarrow> x \<in> set xs"
  by (auto simp: hd_opt_def split: list.splits)

end
