(* ===== verification/Link.thy ===== *)
theory Link
  imports Prelude
begin

section \<open>Intrusive doubly linked lists (libco/co_routine.h)\<close>

text \<open>
  The templates \<open>RemoveFromLink\<close>, \<open>TailAdd\<close>, \<open>HeadPop\<close> and \<open>LinkAppend\<close> of
  co_routine.h work on a list header (\<open>Link\<close>, with \<open>head\<close> and \<open>tail\<close>) and on items
  that carry their own \<open>prev\<close>, \<open>next\<close> and \<open>link\<close> pointers. They are modelled on an
  explicit store of items and headers, in the order of the source's assignments, with
  every dereference checked. The record \<open>node\<close> holds the three pointers the templates
  touch; \<open>timeout_item_t\<close> and \<open>co_cond_item_t\<close> extend it, so one definition stands for
  both instantiations of each template.

  The abstraction \<open>absl s L\<close> relates a store to a map from headers to lists of items.
  Each operation is proved to act on the map as a list operation, to reach no undefined
  behaviour, and to leave the payload of every item alone. The locale \<open>intrusive_lists\<close>
  states this contract; its clients are the timing wheel and the condition variables.
\<close>

subsection \<open>The store\<close>

record node =
  prev :: ptr
  nxt :: ptr
  owner :: ptr    \<comment> \<open>the field \<open>link\<close> of the source: the list the item is on\<close>

record link =
  head :: ptr
  tail :: ptr

record 'i lstore =
  items :: "addr \<rightharpoonup> 'i"
  links :: "addr \<rightharpoonup> link"

definition upd_item :: "'i lstore \<Rightarrow> addr \<Rightarrow> ('i \<Rightarrow> 'i) \<Rightarrow> 'i lstore option" where
  "upd_item s i f = (case items s i of None \<Rightarrow> None
     | Some it \<Rightarrow> Some (s\<lparr>items := (items s)(i \<mapsto> f it)\<rparr>))"

definition upd_link :: "'i lstore \<Rightarrow> addr \<Rightarrow> (link \<Rightarrow> link) \<Rightarrow> 'i lstore option" where
  "upd_link s l f = (case links s l of None \<Rightarrow> None
     | Some k \<Rightarrow> Some (s\<lparr>links := (links s)(l \<mapsto> f k)\<rparr>))"

subsection \<open>The operations\<close>

definition RemoveFromLink :: "'z node_scheme lstore \<Rightarrow> addr \<Rightarrow> 'z node_scheme lstore option" where
  "RemoveFromLink s i = do {
     it \<leftarrow> items s i;
     case owner it of
       None \<Rightarrow> Some s
     | Some l \<Rightarrow> do {
         k \<leftarrow> links s l;
         s1 \<leftarrow> (if head k = Some i
                then do {
                  s' \<leftarrow> upd_link s l (\<lambda>k. k\<lparr>head := nxt it\<rparr>);
                  case nxt it of None \<Rightarrow> Some s'
                  | Some h \<Rightarrow> upd_item s' h (\<lambda>n. n\<lparr>prev := None\<rparr>) }
                else (case prev it of None \<Rightarrow> Some s
                  | Some p \<Rightarrow> upd_item s p (\<lambda>n. n\<lparr>nxt := nxt it\<rparr>)));
         k1 \<leftarrow> links s1 l;
         it1 \<leftarrow> items s1 i;
         s2 \<leftarrow> (if tail k1 = Some i
                then do {
                  s' \<leftarrow> upd_link s1 l (\<lambda>k. k\<lparr>tail := prev it1\<rparr>);
                  case prev it1 of None \<Rightarrow> Some s'
                  | Some t \<Rightarrow> upd_item s' t (\<lambda>n. n\<lparr>nxt := None\<rparr>) }
                else (case nxt it1 of None \<Rightarrow> None
                  | Some n \<Rightarrow> upd_item s1 n (\<lambda>n. n\<lparr>prev := prev it1\<rparr>)));
         s3 \<leftarrow> upd_item s2 i (\<lambda>n. n\<lparr>prev := None, nxt := None\<rparr>);
         upd_item s3 i (\<lambda>n. n\<lparr>owner := None\<rparr>) } }"

definition TailAdd :: "'z node_scheme lstore \<Rightarrow> addr \<Rightarrow> addr \<Rightarrow> 'z node_scheme lstore option" where
  "TailAdd s l i = do {
     it \<leftarrow> items s i;
     if owner it \<noteq> None then Some s
     else do {
       s1 \<leftarrow> upd_item s i (\<lambda>n. n\<lparr>owner := Some l\<rparr>);
       k \<leftarrow> links s1 l;
       case tail k of
         Some t \<Rightarrow> do {
           s2 \<leftarrow> upd_item s1 t (\<lambda>n. n\<lparr>nxt := Some i\<rparr>);
           s3 \<leftarrow> upd_item s2 i (\<lambda>n. n\<lparr>nxt := None\<rparr>);
           s4 \<leftarrow> upd_item s3 i (\<lambda>n. n\<lparr>prev := Some t\<rparr>);
           upd_link s4 l (\<lambda>k. k\<lparr>tail := Some i\<rparr>) }
       | None \<Rightarrow> do {
           s2 \<leftarrow> upd_link s1 l (\<lambda>k. k\<lparr>head := Some i, tail := Some i\<rparr>);
           upd_item s2 i (\<lambda>n. n\<lparr>nxt := None, prev := None\<rparr>) } } }"

definition HeadPop :: "'z node_scheme lstore \<Rightarrow> addr \<Rightarrow> 'z node_scheme lstore option" where
  "HeadPop s l = do {
     k \<leftarrow> links s l;
     case head k of
       None \<Rightarrow> Some s
     | Some h \<Rightarrow> do {
         s1 \<leftarrow> (if head k = tail k
                then upd_link s l (\<lambda>k. k\<lparr>head := None, tail := None\<rparr>)
                else do { it \<leftarrow> items s h; upd_link s l (\<lambda>k. k\<lparr>head := nxt it\<rparr>) });
         s2 \<leftarrow> upd_item s1 h (\<lambda>n. n\<lparr>prev := None, nxt := None\<rparr>);
         s3 \<leftarrow> upd_item s2 h (\<lambda>n. n\<lparr>owner := None\<rparr>);
         k3 \<leftarrow> links s3 l;
         case head k3 of None \<Rightarrow> Some s3
         | Some h' \<Rightarrow> upd_item s3 h' (\<lambda>n. n\<lparr>prev := None\<rparr>) } }"

text \<open>
  The loop of \<open>LinkAppend\<close> that sets the \<open>link\<close> field of every item from the head on.
  It follows \<open>next\<close> pointers, so on a cyclic list it would not return.
\<close>

partial_function (option) relink ::
    "'z node_scheme lstore \<Rightarrow> ptr \<Rightarrow> addr \<Rightarrow> 'z node_scheme lstore option" where
  "relink s p l = (case p of
      None \<Rightarrow> Some s
    | Some a \<Rightarrow> do {
        s1 \<leftarrow> upd_item s a (\<lambda>n. n\<lparr>owner := Some l\<rparr>);
        it \<leftarrow> items s1 a;
        relink s1 (nxt it) l })"

definition LinkAppend :: "'z node_scheme lstore \<Rightarrow> addr \<Rightarrow> addr \<Rightarrow> 'z node_scheme lstore option" where
  "LinkAppend s lhs rhs = do {
     kr \<leftarrow> links s rhs;
     case head kr of
       None \<Rightarrow> Some s
     | Some h \<Rightarrow> do {
         s1 \<leftarrow> relink s (Some h) lhs;
         kl \<leftarrow> links s1 lhs;
         s2 \<leftarrow> (case tail kl of
             Some t \<Rightarrow> do {
               s' \<leftarrow> upd_item s1 t (\<lambda>n. n\<lparr>nxt := Some h\<rparr>);
               s'' \<leftarrow> upd_item s' h (\<lambda>n. n\<lparr>prev := Some t\<rparr>);
               upd_link s'' lhs (\<lambda>k. k\<lparr>tail := tail kr\<rparr>) }
           | None \<Rightarrow> upd_link s1 lhs (\<lambda>k. k\<lparr>head := head kr, tail := tail kr\<rparr>));
         upd_link s2 rhs (\<lambda>k. k\<lparr>head := None, tail := None\<rparr>) } }"

lemma upd_item_eq_Some [simp]:
  "upd_item s i f = Some s' \<longleftrightarrow>
   (\<exists>it. items s i = Some it \<and> s' = s\<lparr>items := (items s)(i \<mapsto> f it)\<rparr>)"
  by (auto simp: upd_item_def split: option.splits)

lemma upd_link_eq_Some [simp]:
  "upd_link s l f = Some s' \<longleftrightarrow>
   (\<exists>k. links s l = Some k \<and> s' = s\<lparr>links := (links s)(l \<mapsto> f k)\<rparr>)"
  by (auto simp: upd_link_def split: option.splits)

lemma upd_item_Some [ub_simps]:
  "items s i = Some it \<Longrightarrow> upd_item s i f = Some (s\<lparr>items := (items s)(i \<mapsto> f it)\<rparr>)"
  by simp

lemma upd_link_Some [ub_simps]:
  "links s l = Some k \<Longrightarrow> upd_link s l f = Some (s\<lparr>links := (links s)(l \<mapsto> f k)\<rparr>)"
  by simp

subsection \<open>The abstraction\<close>

definition first_or :: "'a list \<Rightarrow> 'a option \<Rightarrow> 'a option" where
  "first_or xs d = (case xs of [] \<Rightarrow> d | x # _ \<Rightarrow> Some x)"

definition final_or :: "'a list \<Rightarrow> 'a option \<Rightarrow> 'a option" where
  "final_or xs d = (if xs = [] then d else Some (last xs))"

lemma first_or_simps [simp]:
  "first_or [] d = d" "first_or (x # xs) d = Some x" "first_or xs None = hd_opt xs"
  by (simp_all add: first_or_def hd_opt_def)

lemma final_or_simps [simp]:
  "final_or [] d = d" "final_or (xs @ [x]) d = Some x" "final_or [x] d = Some x"
  "final_or xs None = last_opt xs"
  by (simp_all add: final_or_def last_opt_def)

lemma first_or_append [simp]: "first_or (xs @ ys) d = first_or xs (first_or ys d)"
  by (cases xs) simp_all

lemma final_or_Cons [simp]: "final_or (x # xs) d = final_or xs (Some x)"
  by (simp add: final_or_def)

lemma final_or_append [simp]: "final_or (xs @ ys) d = final_or ys (final_or xs d)"
  by (simp add: final_or_def)

text \<open>
  A segment: the items of a list, in order, between a predecessor and a successor, each
  one pointing to its neighbours and to the header that owns it.
\<close>

primrec dseg :: "(addr \<rightharpoonup> 'z node_scheme) \<Rightarrow> addr \<Rightarrow> ptr \<Rightarrow> addr list \<Rightarrow> ptr \<Rightarrow> bool" where
  "dseg its l p [] n \<longleftrightarrow> True"
| "dseg its l p (x # xs) n \<longleftrightarrow>
     (\<exists>it. its x = Some it \<and> owner it = Some l \<and> prev it = p \<and> nxt it = first_or xs n) \<and>
     dseg its l (Some x) xs n"

lemma dseg_append:
  "dseg its l p (xs @ ys) n \<longleftrightarrow>
   dseg its l p xs (first_or ys n) \<and> dseg its l (final_or xs p) ys n"
  by (induction xs arbitrary: p) auto

lemma dseg_cong:
  "(\<And>x. x \<in> set xs \<Longrightarrow> its x = its' x) \<Longrightarrow> dseg its l p xs n = dseg its' l p xs n"
  by (induction xs arbitrary: p) auto

lemma dseg_upd [simp]: "a \<notin> set xs \<Longrightarrow> dseg (its(a \<mapsto> v)) l p xs n = dseg its l p xs n"
  by (rule dseg_cong) auto

lemma dseg_member:
  "dseg its l p xs n \<Longrightarrow> x \<in> set xs \<Longrightarrow> \<exists>it. its x = Some it \<and> owner it = Some l"
  by (induction xs arbitrary: p) auto

definition absl :: "'z node_scheme lstore \<Rightarrow> (addr \<rightharpoonup> addr list) \<Rightarrow> bool" where
  "absl s L \<longleftrightarrow>
     dom (links s) = dom L \<and>
     (\<forall>l xs. L l = Some xs \<longrightarrow>
        links s l = Some \<lparr>head = hd_opt xs, tail = last_opt xs\<rparr> \<and>
        distinct xs \<and> dseg (items s) l None xs None) \<and>
     (\<forall>i it l. items s i = Some it \<longrightarrow> owner it = Some l \<longrightarrow>
        (\<exists>xs. L l = Some xs \<and> i \<in> set xs))"

text \<open>The payload: what an item carries beside its three list pointers.\<close>

definition payload :: "'z node_scheme lstore \<Rightarrow> addr \<Rightarrow> 'z option" where
  "payload s i = map_option node.more (items s i)"

text \<open>An item that exists and is on no list.\<close>

definition detached :: "'z node_scheme lstore \<Rightarrow> addr \<Rightarrow> bool" where
  "detached s i \<longleftrightarrow> (\<exists>it. items s i = Some it \<and> owner it = None)"

lemma abslD:
  assumes "absl s L" and "L l = Some xs"
  shows absl_links: "links s l = Some \<lparr>head = hd_opt xs, tail = last_opt xs\<rparr>"
    and absl_distinct: "distinct xs"
    and absl_dseg: "dseg (items s) l None xs None"
  using assms by (auto simp: absl_def)

lemma absl_dom: "absl s L \<Longrightarrow> dom (links s) = dom L"
  by (simp add: absl_def)

lemma absl_owner:
  "absl s L \<Longrightarrow> items s i = Some it \<Longrightarrow> owner it = Some l \<Longrightarrow> \<exists>xs. L l = Some xs \<and> i \<in> set xs"
  by (simp add: absl_def)

lemma absl_member:
  "absl s L \<Longrightarrow> L l = Some xs \<Longrightarrow> x \<in> set xs \<Longrightarrow> \<exists>it. items s x = Some it \<and> owner it = Some l"
  using absl_dseg dseg_member by metis

lemma absl_disjoint:
  assumes "absl s L" and "L l = Some xs" and "L l' = Some ys" and "x \<in> set xs" and "x \<in> set ys"
  shows "l = l'"
  using absl_member [OF assms(1,2,4)] absl_member [OF assms(1,3,5)] by auto

lemma absl_detached:
  "absl s L \<Longrightarrow> detached s i \<Longrightarrow> L l = Some xs \<Longrightarrow> i \<notin> set xs"
  by (metis absl_member detached_def option.distinct(1) option.inject)

text \<open>
  The introduction rule the operation proofs use: only list \<open>l\<close> changes, the items of
  the other lists are untouched, and an item is owned by \<open>l\<close> only if it is on it.
\<close>

lemma absl_updI:
  assumes abs: "absl s L" and l: "l \<in> dom L"
    and lk: "links t = (links s)(l \<mapsto> \<lparr>head = hd_opt ys, tail = last_opt ys\<rparr>)"
    and d: "distinct ys" and seg: "dseg (items t) l None ys None"
    and frame: "\<And>l' xs x. l' \<noteq> l \<Longrightarrow> L l' = Some xs \<Longrightarrow> x \<in> set xs \<Longrightarrow> items t x = items s x"
    and own: "\<And>x it. items t x = Some it \<Longrightarrow> owner it = Some l \<Longrightarrow> x \<in> set ys"
    and other: "\<And>x it l'. items t x = Some it \<Longrightarrow> owner it = Some l' \<Longrightarrow> l' \<noteq> l \<Longrightarrow>
                  \<exists>it'. items s x = Some it' \<and> owner it' = Some l'"
  shows "absl t (L(l \<mapsto> ys))"
proof -
  have "dom (links t) = dom (L(l \<mapsto> ys))"
    using absl_dom [OF abs] lk by simp
  moreover have "links t l' = Some \<lparr>head = hd_opt xs, tail = last_opt xs\<rparr> \<and>
      distinct xs \<and> dseg (items t) l' None xs None"
    if "(L(l \<mapsto> ys)) l' = Some xs" for l' xs
  proof (cases "l' = l")
    case True
    with that lk d seg show ?thesis by auto
  next
    case False
    with that have L: "L l' = Some xs" by simp
    with False lk have "links t l' = Some \<lparr>head = hd_opt xs, tail = last_opt xs\<rparr>"
      using absl_links [OF abs L] by simp
    moreover have "dseg (items t) l' None xs None = dseg (items s) l' None xs None"
      using frame [OF False L] by (rule dseg_cong)
    ultimately show ?thesis
      using absl_dseg [OF abs L] absl_distinct [OF abs L] by simp
  qed
  moreover have "\<exists>xs. (L(l \<mapsto> ys)) l' = Some xs \<and> x \<in> set xs"
    if x: "items t x = Some it" "owner it = Some l'" for x it l'
  proof (cases "l' = l")
    case True
    with own x show ?thesis by simp
  next
    case False
    with other x absl_owner [OF abs] show ?thesis by fastforce
  qed
  ultimately show ?thesis unfolding absl_def by blast
qed

subsection \<open>The operations implement list operations\<close>


lemma detached_iff:
  assumes "absl s L"
  shows "detached s i \<longleftrightarrow> payload s i \<noteq> None \<and> (\<forall>l xs. L l = Some xs \<longrightarrow> i \<notin> set xs)"
proof
  assume "detached s i"
  then show "payload s i \<noteq> None \<and> (\<forall>l xs. L l = Some xs \<longrightarrow> i \<notin> set xs)"
    using absl_detached [OF assms] by (auto simp: detached_def payload_def)
next
  assume R: "payload s i \<noteq> None \<and> (\<forall>l xs. L l = Some xs \<longrightarrow> i \<notin> set xs)"
  then obtain it where it: "items s i = Some it" by (auto simp: payload_def)
  have "owner it = None"
  proof (cases "owner it")
    case (Some l)
    with R show ?thesis using absl_owner [OF assms it] by blast
  qed
  with it show "detached s i" by (auto simp: detached_def)
qed

lemma TailAdd_attached:
  "items s i = Some it \<Longrightarrow> owner it \<noteq> None \<Longrightarrow> TailAdd s l i = Some s"
  by (simp add: TailAdd_def)

lemma TailAdd_refines:
  assumes abs: "absl s L" and l: "L l = Some xs" and i: "detached s i"
  shows "\<exists>s'. TailAdd s l i = Some s' \<and> absl s' (L(l \<mapsto> xs @ [i])) \<and> payload s' = payload s"
proof -
  obtain it where it: "items s i = Some it" "owner it = None"
    using i by (auto simp: detached_def)
  have ni: "i \<notin> set ys" if "L l' = Some ys" for l' ys
    using absl_detached [OF abs i that] .
  have k: "links s l = Some \<lparr>head = hd_opt xs, tail = last_opt xs\<rparr>"
    by (rule absl_links [OF abs l])
  show ?thesis
  proof (cases xs rule: rev_cases)
    case Nil
    let ?t = "s\<lparr>items := (items s)(i \<mapsto> it\<lparr>owner := Some l, nxt := None, prev := None\<rparr>),
                links := (links s)(l \<mapsto> \<lparr>head = Some i, tail = Some i\<rparr>)\<rparr>"
    have "TailAdd s l i = Some ?t"
      using it k Nil by (simp add: TailAdd_def ub_simps)
    moreover have "absl ?t (L(l \<mapsto> [i]))"
      by (rule absl_updI [OF abs]) (use l Nil ni absl_owner [OF abs] in \<open>fastforce split: if_splits\<close>)+
    moreover have "payload ?t = payload s"
      by (rule ext) (simp add: payload_def it)
    ultimately show ?thesis using Nil by auto
  next
    case (snoc ys a)
    obtain ia where ia: "items s a = Some ia" "owner ia = Some l"
      using absl_member [OF abs l, of a] snoc by auto
    have ne: "a \<noteq> i" using ni [OF l] snoc by auto
    let ?t = "s\<lparr>items := (items s)(a \<mapsto> ia\<lparr>nxt := Some i\<rparr>,
                   i \<mapsto> it\<lparr>owner := Some l, nxt := None, prev := Some a\<rparr>),
                links := (links s)(l \<mapsto> \<lparr>head = hd_opt xs, tail = Some i\<rparr>)\<rparr>"
    have eq: "TailAdd s l i = Some ?t"
      using it k snoc ia ne by (simp add: TailAdd_def ub_simps fun_upd_twist)
    have seg: "dseg (items s) l None (ys @ [a]) None" and d: "distinct (ys @ [a])"
      using absl_dseg [OF abs l] absl_distinct [OF abs l] snoc by simp_all
    have "absl ?t (L(l \<mapsto> xs @ [i]))"
    proof (rule absl_updI [OF abs])
      show "l \<in> dom L" using l by blast
      show "links ?t = (links s)(l \<mapsto> \<lparr>head = hd_opt (xs @ [i]), tail = last_opt (xs @ [i])\<rparr>)"
        using snoc by (cases ys) (simp_all add: last_opt_def)
      show "distinct (xs @ [i])" using d ni [OF l] snoc by simp
      show "dseg (items ?t) l None (xs @ [i]) None"
        using seg ia d ne ni [OF l] snoc by (auto simp: dseg_append)
    next
      fix l' zs x assume "l' \<noteq> l" and z: "L l' = Some zs" "x \<in> set zs"
      then have "x \<noteq> a" using absl_disjoint [OF abs l z(1)] snoc by auto
      with z ni show "items ?t x = items s x" by auto
    next
      fix x jt assume "items ?t x = Some jt" "owner jt = Some l"
      then show "x \<in> set (xs @ [i])"
        using absl_owner [OF abs] l snoc by (fastforce split: if_splits)
    next
      fix x jt l' assume "items ?t x = Some jt" "owner jt = Some l'" "l' \<noteq> l"
      then show "\<exists>it'. items s x = Some it' \<and> owner it' = Some l'"
        using ia by (auto split: if_splits)
    qed
    moreover have "payload ?t = payload s"
      using it ia ne by (auto simp: payload_def fun_eq_iff)
    ultimately show ?thesis using eq by blast
  qed
qed

lemma HeadPop_empty: "absl s L \<Longrightarrow> L l = Some [] \<Longrightarrow> HeadPop s l = Some s"
  using absl_links by (fastforce simp: HeadPop_def)

lemma HeadPop_refines:
  assumes abs: "absl s L" and l: "L l = Some xs"
  shows "\<exists>s'. HeadPop s l = Some s' \<and> absl s' (L(l \<mapsto> tl xs)) \<and> payload s' = payload s"
proof (cases xs)
  case Nil
  with l have "L(l \<mapsto> tl xs) = L" by auto
  with HeadPop_empty abs l Nil show ?thesis by auto
next
  case (Cons a as)
  have k: "links s l = Some \<lparr>head = hd_opt xs, tail = last_opt xs\<rparr>"
    by (rule absl_links [OF abs l])
  have seg: "dseg (items s) l None (a # as) None" and d: "distinct (a # as)"
    using absl_dseg [OF abs l] absl_distinct [OF abs l] Cons by simp_all
  then obtain ia where ia: "items s a = Some ia" "owner ia = Some l" "nxt ia = hd_opt as"
    and segs: "dseg (items s) l (Some a) as None"
    by auto
  have out: "x \<noteq> y" if "L l' = Some zs" "x \<in> set zs" "l' \<noteq> l" "y \<in> set xs" for l' zs x y
    using absl_disjoint [OF abs l that(1)] that by auto
  show ?thesis
  proof (cases as)
    case Nil
    let ?t = "s\<lparr>items := (items s)(a \<mapsto> ia\<lparr>prev := None, nxt := None, owner := None\<rparr>),
                links := (links s)(l \<mapsto> \<lparr>head = None, tail = None\<rparr>)\<rparr>"
    have eq: "HeadPop s l = Some ?t"
      using k Cons Nil ia by (simp add: HeadPop_def ub_simps)
    have "absl ?t (L(l \<mapsto> []))"
      by (rule absl_updI [OF abs])
        (use l Cons Nil out absl_owner [OF abs] in \<open>fastforce split: if_splits\<close>)+
    moreover have "payload ?t = payload s"
      by (rule ext) (simp add: payload_def ia)
    ultimately show ?thesis using eq Cons Nil by auto
  next
    case (Cons b bs)
    obtain ib where ib: "items s b = Some ib" "owner ib = Some l" "nxt ib = hd_opt bs"
      and segb: "dseg (items s) l (Some b) bs None"
      using segs Cons by auto
    have ab: "a \<noteq> b" "a \<notin> set bs" "b \<notin> set bs" "distinct bs" using d Cons by auto
    have la: "last_opt xs \<noteq> Some a"
      using d \<open>xs = a # as\<close> Cons by (auto simp: last_opt_def)
    let ?t = "s\<lparr>items := (items s)(a \<mapsto> ia\<lparr>prev := None, nxt := None, owner := None\<rparr>,
                   b \<mapsto> ib\<lparr>prev := None\<rparr>),
                links := (links s)(l \<mapsto> \<lparr>head = Some b, tail = last_opt xs\<rparr>)\<rparr>"
    have eq: "HeadPop s l = Some ?t"
      using k \<open>xs = a # as\<close> Cons ia ib la ab by (simp add: HeadPop_def ub_simps)
    have "absl ?t (L(l \<mapsto> b # bs))"
    proof (rule absl_updI [OF abs])
      show "l \<in> dom L" using l by blast
      show "links ?t = (links s)(l \<mapsto> \<lparr>head = hd_opt (b # bs), tail = last_opt (b # bs)\<rparr>)"
        using \<open>xs = a # as\<close> Cons by (simp add: last_opt_def)
      show "distinct (b # bs)" using ab by simp
      show "dseg (items ?t) l None (b # bs) None" using segb ib ab by simp
    next
      fix l' zs x assume "l' \<noteq> l" and "L l' = Some zs" "x \<in> set zs"
      with out \<open>xs = a # as\<close> Cons show "items ?t x = items s x" by auto
    next
      fix x jt assume "items ?t x = Some jt" "owner jt = Some l"
      then show "x \<in> set (b # bs)"
        using absl_owner [OF abs] l \<open>xs = a # as\<close> Cons by (fastforce split: if_splits)
    next
      fix x jt l' assume "items ?t x = Some jt" "owner jt = Some l'" "l' \<noteq> l"
      then show "\<exists>it'. items s x = Some it' \<and> owner it' = Some l'"
        using ib by (auto split: if_splits)
    qed
    moreover have "payload ?t = payload s"
      using ia ib ab by (auto simp: payload_def fun_eq_iff)
    ultimately show ?thesis using eq \<open>xs = a # as\<close> Cons by auto
  qed
qed


lemma dseg_set_nxt:
  "dseg its l q (ys @ [p]) m \<Longrightarrow> p \<notin> set ys \<Longrightarrow> its p = Some ip \<Longrightarrow>
   dseg (its(p \<mapsto> ip\<lparr>nxt := n\<rparr>)) l q (ys @ [p]) n"
  by (auto simp: dseg_append)

lemma dseg_set_prev:
  "dseg its l q (b # zs) m \<Longrightarrow> b \<notin> set zs \<Longrightarrow> its b = Some ib \<Longrightarrow>
   dseg (its(b \<mapsto> ib\<lparr>prev := q'\<rparr>)) l q' (b # zs) m"
  by auto

lemma upd_links_same: "links s = m \<Longrightarrow> s\<lparr>items := its, links := m\<rparr> = s\<lparr>items := its\<rparr>"
  by simp

lemma RemoveFromLink_detached:
  "detached s i \<Longrightarrow> RemoveFromLink s i = Some s"
  by (auto simp: RemoveFromLink_def detached_def)

lemma RemoveFromLink_refines:
  assumes abs: "absl s L" and l: "L l = Some xs" and i: "i \<in> set xs"
  shows "\<exists>s'. RemoveFromLink s i = Some s' \<and> absl s' (L(l \<mapsto> remove1 i xs)) \<and> payload s' = payload s"
proof -
  obtain ys zs where xs: "xs = ys @ i # zs" using i by (auto simp: in_set_conv_decomp)
  have d: "distinct (ys @ i # zs)" using absl_distinct [OF abs l] xs by simp
  have k: "links s l = Some \<lparr>head = hd_opt xs, tail = last_opt xs\<rparr>"
    by (rule absl_links [OF abs l])
  have seg: "dseg (items s) l None ys (Some i)" "dseg (items s) l (Some i) zs None"
    and "dseg (items s) l (last_opt ys) [i] (hd_opt zs)"
    using absl_dseg [OF abs l] xs by (simp_all add: dseg_append)
  then obtain it where it: "items s i = Some it" "owner it = Some l"
      "prev it = last_opt ys" "nxt it = hd_opt zs"
    by auto
  have rm: "remove1 i xs = ys @ zs" using xs d by (simp add: remove1_append)
  have out: "x \<noteq> y" if "L l' = Some ws" "x \<in> set ws" "l' \<noteq> l" "y \<in> set xs" for l' ws x y
    using absl_disjoint [OF abs l that(1)] that by auto
  have mem: "\<exists>jt. items s x = Some jt \<and> owner jt = Some l" if "x \<in> set xs" for x
    using absl_member [OF abs l that] .
  define its where "its = (\<lambda>x. if x = i then Some (it\<lparr>prev := None, nxt := None, owner := None\<rparr>)
    else if last_opt ys = Some x then map_option (\<lambda>n. n\<lparr>nxt := hd_opt zs\<rparr>) (items s x)
    else if hd_opt zs = Some x then map_option (\<lambda>n. n\<lparr>prev := last_opt ys\<rparr>) (items s x)
    else items s x)"
  let ?t = "s\<lparr>items := its,
              links := (links s)(l \<mapsto> \<lparr>head = hd_opt (ys @ zs), tail = last_opt (ys @ zs)\<rparr>)\<rparr>"
  let ?i = "it\<lparr>prev := None, nxt := None, owner := None\<rparr>"
  have eq: "RemoveFromLink s i = Some ?t"
  proof (cases ys rule: rev_cases)
    case Nil
    then show ?thesis
    proof (cases zs)
      case Nil
      have "its = (items s)(i \<mapsto> ?i)"
        using \<open>ys = []\<close> Nil by (intro ext) (simp add: its_def)
      with \<open>ys = []\<close> Nil xs k it show ?thesis
        by (simp add: RemoveFromLink_def ub_simps)
    next
      case (Cons b bs)
      obtain ib where ib: "items s b = Some ib" using mem [of b] xs Cons by auto
      have "its = (items s)(b \<mapsto> ib\<lparr>prev := None\<rparr>, i \<mapsto> ?i)"
        using \<open>ys = []\<close> Cons ib by (intro ext) (simp add: its_def)
      moreover have "last_opt (b # bs) \<noteq> Some i" "b \<noteq> i"
        using d Cons by (auto dest: last_opt_in_set)
      ultimately show ?thesis
        using \<open>ys = []\<close> Cons xs k it ib by (simp add: RemoveFromLink_def ub_simps)
    qed
  next
    case (snoc as a)
    obtain ia where ia: "items s a = Some ia" using mem [of a] xs snoc by auto
    have hd: "hd_opt xs \<noteq> Some i" "hd_opt xs = hd_opt (ys @ zs)"
      using xs snoc d by (cases as; simp)+
    show ?thesis
    proof (cases zs)
      case Nil
      have "its = (items s)(a \<mapsto> ia\<lparr>nxt := None\<rparr>, i \<mapsto> ?i)"
        using snoc Nil ia by (intro ext) (simp add: its_def)
      with ia hd snoc xs k it d Nil show ?thesis
        by (simp add: RemoveFromLink_def ub_simps)
    next
      case (Cons b bs)
      obtain ib where ib: "items s b = Some ib" using mem [of b] xs Cons by auto
      have tl: "last_opt xs = last_opt (ys @ zs)" "last_opt xs \<noteq> Some i"
        using xs Cons d by (auto simp: last_opt_def)
      have "its = (items s)(a \<mapsto> ia\<lparr>nxt := Some b\<rparr>, b \<mapsto> ib\<lparr>prev := Some a\<rparr>, i \<mapsto> ?i)"
        using snoc Cons ia ib d by (intro ext) (auto simp: its_def)
      moreover have "a \<noteq> i" "b \<noteq> i" "a \<noteq> b" using d snoc Cons by auto
      moreover have "links s = (links s)(l \<mapsto> \<lparr>head = hd_opt (ys @ zs), tail = last_opt (ys @ zs)\<rparr>)"
        using k hd tl by (intro ext) simp
      ultimately show ?thesis
        using ia ib hd tl k it snoc Cons
        by (simp add: RemoveFromLink_def ub_simps upd_links_same)
    qed
  qed
  have segy: "dseg its l None ys (hd_opt zs)"
  proof (cases ys rule: rev_cases)
    case (snoc as a)
    obtain ia where ia: "items s a = Some ia" using mem [of a] xs snoc by auto
    have "dseg ((items s)(a \<mapsto> ia\<lparr>nxt := hd_opt zs\<rparr>)) l None (as @ [a]) (hd_opt zs)"
      using seg(1) d snoc ia by (intro dseg_set_nxt) auto
    moreover have "dseg its l None (as @ [a]) (hd_opt zs) =
        dseg ((items s)(a \<mapsto> ia\<lparr>nxt := hd_opt zs\<rparr>)) l None (as @ [a]) (hd_opt zs)"
      using d snoc ia by (intro dseg_cong) (auto simp: its_def dest: hd_opt_in_set)
    ultimately show ?thesis using snoc by simp
  qed simp
  have segz: "dseg its l (last_opt ys) zs None"
  proof (cases zs)
    case (Cons b bs)
    obtain ib where ib: "items s b = Some ib" using mem [of b] xs Cons by auto
    have "dseg ((items s)(b \<mapsto> ib\<lparr>prev := last_opt ys\<rparr>)) l (last_opt ys) (b # bs) None"
      using seg(2) d Cons ib by (intro dseg_set_prev) auto
    moreover have "dseg its l (last_opt ys) (b # bs) None =
        dseg ((items s)(b \<mapsto> ib\<lparr>prev := last_opt ys\<rparr>)) l (last_opt ys) (b # bs) None"
      using d Cons ib by (intro dseg_cong) (auto simp: its_def dest: last_opt_in_set)
    ultimately show ?thesis using Cons by simp
  qed simp
  have "absl ?t (L(l \<mapsto> ys @ zs))"
  proof (rule absl_updI [OF abs])
    show "l \<in> dom L" using l by blast
    show "distinct (ys @ zs)" using d by simp
    show "dseg (items ?t) l None (ys @ zs) None" using segy segz by (simp add: dseg_append)
  next
    fix l' ws x assume "l' \<noteq> l" and w: "L l' = Some ws" "x \<in> set ws"
    then have "x \<notin> set xs" using out by blast
    then show "items ?t x = items s x"
      using xs by (auto simp: its_def dest: last_opt_in_set hd_opt_in_set)
  next
    fix x jt assume j: "items ?t x = Some jt" "owner jt = Some l"
    then have "x \<noteq> i" by (auto simp: its_def)
    moreover have "\<exists>jt'. items s x = Some jt' \<and> owner jt' = Some l"
      using j by (auto simp: its_def split: if_splits)
    ultimately show "x \<in> set (ys @ zs)"
      using absl_owner [OF abs] l xs by fastforce
  next
    fix x jt l' assume "items ?t x = Some jt" "owner jt = Some l'" "l' \<noteq> l"
    then show "\<exists>it'. items s x = Some it' \<and> owner it' = Some l'"
      by (auto simp: its_def split: if_splits)
  qed simp
  moreover have "payload ?t = payload s"
    using it by (auto simp: payload_def its_def fun_eq_iff map_option.compositionality comp_def
        intro!: option.map_cong0)
  ultimately show ?thesis using eq rm by auto
qed


declare relink.simps [simp del]

lemma relink_segment:
  "dseg (items s) l p ys None \<Longrightarrow> distinct ys \<Longrightarrow>
   relink s (hd_opt ys) l' = Some (s\<lparr>items := (\<lambda>x. if x \<in> set ys
      then map_option (\<lambda>n. n\<lparr>owner := Some l'\<rparr>) (items s x) else items s x)\<rparr>)"
proof (induction ys arbitrary: s p)
  case Nil
  then show ?case by (simp add: relink.simps)
next
  case (Cons a ys)
  obtain ia where ia: "items s a = Some ia" "nxt ia = hd_opt ys"
    using Cons.prems by auto
  let ?s = "s\<lparr>items := (items s)(a \<mapsto> ia\<lparr>owner := Some l'\<rparr>)\<rparr>"
  have seg: "dseg (items ?s) l (Some a) ys None" using Cons.prems by simp
  have "relink ?s (hd_opt ys) l' = Some (?s\<lparr>items := (\<lambda>x. if x \<in> set ys
      then map_option (\<lambda>n. n\<lparr>owner := Some l'\<rparr>) (items ?s x) else items ?s x)\<rparr>)"
    by (rule Cons.IH [OF seg]) (use Cons.prems in simp)
  moreover have "relink s (hd_opt (a # ys)) l' = relink ?s (hd_opt ys) l'"
    using ia by (subst relink.simps) (simp add: ub_simps)
  moreover have "(\<lambda>x. if x \<in> set ys then map_option (\<lambda>n. n\<lparr>owner := Some l'\<rparr>) (items ?s x) else items ?s x) =
     (\<lambda>x. if x \<in> set (a # ys) then map_option (\<lambda>n. n\<lparr>owner := Some l'\<rparr>) (items s x) else items s x)"
    using Cons.prems ia by (intro ext) auto
  ultimately show ?case by simp
qed

lemma dseg_reown:
  "dseg its l p ys n \<Longrightarrow> (\<And>x. x \<in> set ys \<Longrightarrow> its' x = map_option (\<lambda>n. n\<lparr>owner := Some l'\<rparr>) (its x)) \<Longrightarrow>
   dseg its' l' p ys n"
  by (induction ys arbitrary: p) auto

lemma LinkAppend_empty: "absl s L \<Longrightarrow> L rhs = Some [] \<Longrightarrow> LinkAppend s lhs rhs = Some s"
  using absl_links by (fastforce simp: LinkAppend_def)

lemma LinkAppend_refines:
  assumes abs: "absl s L" and l: "L lhs = Some xs" and r: "L rhs = Some ys" and ne: "lhs \<noteq> rhs"
  shows "\<exists>s'. LinkAppend s lhs rhs = Some s' \<and> absl s' (L(lhs \<mapsto> xs @ ys, rhs \<mapsto> [])) \<and>
              payload s' = payload s"
proof (cases ys)
  case Nil
  then have "L(lhs \<mapsto> xs @ ys, rhs \<mapsto> []) = L" using l r by auto
  with Nil r abs show ?thesis by (simp add: LinkAppend_empty)
next
  case (Cons h hs)
  have kl: "links s lhs = Some \<lparr>head = hd_opt xs, tail = last_opt xs\<rparr>"
    and kr: "links s rhs = Some \<lparr>head = hd_opt ys, tail = last_opt ys\<rparr>"
    using absl_links [OF abs l] absl_links [OF abs r] by simp_all
  have dx: "distinct xs" "distinct ys" and dj: "set xs \<inter> set ys = {}"
    using absl_distinct [OF abs l] absl_distinct [OF abs r] absl_disjoint [OF abs l r] ne by auto
  have sx: "dseg (items s) lhs None xs None" and sy: "dseg (items s) rhs None ys None"
    using absl_dseg [OF abs l] absl_dseg [OF abs r] by simp_all
  obtain ih where ih: "items s h = Some ih" "prev ih = None" "owner ih = Some rhs"
    using sy Cons by auto
  define its1 where "its1 = (\<lambda>x. if x \<in> set ys
      then map_option (\<lambda>n. n\<lparr>owner := Some lhs\<rparr>) (items s x) else items s x)"
  have rl: "relink s (Some h) lhs = Some (s\<lparr>items := its1\<rparr>)"
    using relink_segment [OF sy dx(2), of lhs] Cons by (simp add: its1_def)
  have s1x: "dseg its1 lhs None xs None"
    using sx dj by (subst dseg_cong [where its' = "items s"]) (auto simp: its1_def)
  have s1y: "dseg its1 lhs None ys None"
    using dseg_reown [OF sy, of its1 lhs] by (simp add: its1_def)
  have h1: "its1 h = Some (ih\<lparr>owner := Some lhs\<rparr>)" using ih Cons by (simp add: its1_def)
  define its2 where "its2 = (case last_opt xs of None \<Rightarrow> its1
     | Some t \<Rightarrow> (\<lambda>x. if x = t then map_option (\<lambda>n. n\<lparr>nxt := Some h\<rparr>) (its1 x)
                 else if x = h then map_option (\<lambda>n. n\<lparr>prev := Some t\<rparr>) (its1 x) else its1 x))"
  let ?t = "s\<lparr>items := its2, links := (links s)(lhs \<mapsto> \<lparr>head = hd_opt (xs @ ys), tail = last_opt ys\<rparr>,
                rhs \<mapsto> \<lparr>head = None, tail = None\<rparr>)\<rparr>"
  have eq: "LinkAppend s lhs rhs = Some ?t \<and> dseg its2 lhs None (xs @ ys) None"
  proof (cases xs rule: rev_cases)
    case Nil
    then show ?thesis
      using Cons kl kr rl ne s1y by (simp add: LinkAppend_def ub_simps its2_def fun_upd_twist)
  next
    case (snoc as t)
    obtain jt where jt: "its1 t = Some jt" using s1x snoc by (auto simp: dseg_append)
    have th: "t \<noteq> h" "t \<notin> set as" "t \<notin> set hs" "h \<notin> set as" "h \<notin> set hs"
      using dj dx snoc Cons by auto
    have i2: "its2 = its1(t \<mapsto> jt\<lparr>nxt := Some h\<rparr>, h \<mapsto> ih\<lparr>owner := Some lhs, prev := Some t\<rparr>)"
      using snoc jt h1 th by (intro ext) (simp add: its2_def)
    have hx: "hd_opt xs = hd_opt (xs @ ys)" using snoc by (cases as) auto
    have "LinkAppend s lhs rhs = Some ?t"
      using Cons kl kr rl ne jt h1 th i2 hx snoc
      by (simp add: LinkAppend_def ub_simps fun_upd_twist)
    moreover have "dseg its2 lhs None (xs @ ys) None"
      using s1x s1y jt h1 th i2 snoc Cons by (auto simp: dseg_append)
    ultimately show ?thesis by simp
  qed
  have own2: "\<exists>jt'. items s x = Some jt' \<and> owner jt = (if x \<in> set ys then Some lhs else owner jt')
      \<and> node.more jt = node.more jt'" if "its2 x = Some jt" for x jt
    using that by (auto simp: its2_def its1_def split: option.splits if_splits)
  have fr: "its2 x = items s x" if "x \<notin> set xs" "x \<notin> set ys" for x
    using that Cons by (auto simp: its2_def its1_def split: option.split dest: last_opt_in_set)
  have "absl ?t (L(lhs \<mapsto> xs @ ys, rhs \<mapsto> []))"
    unfolding absl_def
  proof (intro conjI allI impI)
    show "dom (links ?t) = dom (L(lhs \<mapsto> xs @ ys, rhs \<mapsto> []))"
      using absl_dom [OF abs] by simp
  next
    fix l' zs assume L': "(L(lhs \<mapsto> xs @ ys, rhs \<mapsto> [])) l' = Some zs"
    have other: "dseg its2 l' None zs None" if "l' \<noteq> lhs" "l' \<noteq> rhs"
    proof -
      have z: "L l' = Some zs" using L' that by simp
      have "dseg its2 l' None zs None = dseg (items s) l' None zs None"
        using absl_disjoint [OF abs z l] absl_disjoint [OF abs z r] that
        by (intro dseg_cong fr) auto
      then show ?thesis using absl_dseg [OF abs z] by simp
    qed
    show "links ?t l' = Some \<lparr>head = hd_opt zs, tail = last_opt zs\<rparr>"
      using L' ne Cons absl_links [OF abs] by (auto split: if_splits)
    show "distinct zs"
      using L' dx dj absl_distinct [OF abs] by (auto split: if_splits)
    show "dseg (items ?t) l' None zs None"
      using L' eq other by (auto split: if_splits)
  next
    fix x jt l' assume x: "items ?t x = Some jt" "owner jt = Some l'"
    then obtain jt' where jt': "items s x = Some jt'"
        "owner jt = (if x \<in> set ys then Some lhs else owner jt')"
      using own2 by fastforce
    show "\<exists>zs. (L(lhs \<mapsto> xs @ ys, rhs \<mapsto> [])) l' = Some zs \<and> x \<in> set zs"
    proof (cases "x \<in> set ys")
      case True
      with x jt' ne show ?thesis by auto
    next
      case False
      then obtain zs where "L l' = Some zs" "x \<in> set zs" using x jt' absl_owner [OF abs jt'(1)] by auto
      with False l r show ?thesis by auto
    qed
  qed
  moreover have "payload ?t = payload s"
  proof (rule ext)
    fix x
    show "payload ?t x = payload s x"
      using ih by (auto simp: payload_def its2_def its1_def map_option.compositionality comp_def
          split: option.split intro!: option.map_cong0)
  qed
  ultimately show ?thesis using eq by blast
qed

text \<open>What moving an item to the end of list \<open>l\<close> does to the lists.\<close>

definition move_spec :: "(addr \<rightharpoonup> addr list) \<Rightarrow> addr \<Rightarrow> addr \<Rightarrow> addr \<rightharpoonup> addr list" where
  "move_spec L l i = (\<lambda>k. map_option (\<lambda>xs. removeAll i xs @ (if k = l then [i] else [])) (L k))"

subsection \<open>The contract\<close>

text \<open>
  What a client of the lists may rely on: \<open>R\<close> relates the store to the lists, \<open>data\<close>
  is what the items carry. Every operation returns (no undefined behaviour), acts on the
  lists as stated and keeps the data.
\<close>

locale intrusive_lists =
  fixes R :: "'s \<Rightarrow> (addr \<rightharpoonup> addr list) \<Rightarrow> bool"
    and idle :: "'s \<Rightarrow> addr \<Rightarrow> bool"
    and data :: "'s \<Rightarrow> addr \<Rightarrow> 'p option"
    and tail_add :: "'s \<Rightarrow> addr \<Rightarrow> addr \<Rightarrow> 's option"
    and head_pop :: "'s \<Rightarrow> addr \<Rightarrow> 's option"
    and unlink :: "'s \<Rightarrow> addr \<Rightarrow> 's option"
    and append_all :: "'s \<Rightarrow> addr \<Rightarrow> addr \<Rightarrow> 's option"
  assumes idle_iff:
      "R s L \<Longrightarrow> idle s i \<longleftrightarrow> data s i \<noteq> None \<and> (\<forall>l xs. L l = Some xs \<longrightarrow> i \<notin> set xs)"
    and disjoint: "R s L \<Longrightarrow> L l = Some xs \<Longrightarrow> L l' = Some ys \<Longrightarrow> x \<in> set xs \<Longrightarrow> x \<in> set ys \<Longrightarrow> l = l'"
    and dist: "R s L \<Longrightarrow> L l = Some xs \<Longrightarrow> distinct xs"
    and stored: "R s L \<Longrightarrow> L l = Some xs \<Longrightarrow> x \<in> set xs \<Longrightarrow> data s x \<noteq> None"
    and tail_add: "R s L \<Longrightarrow> L l = Some xs \<Longrightarrow> idle s i \<Longrightarrow>
      \<exists>s'. tail_add s l i = Some s' \<and> R s' (L(l \<mapsto> xs @ [i])) \<and> data s' = data s"
    and head_pop: "R s L \<Longrightarrow> L l = Some xs \<Longrightarrow>
      \<exists>s'. head_pop s l = Some s' \<and> R s' (L(l \<mapsto> tl xs)) \<and> data s' = data s"
    and unlink: "R s L \<Longrightarrow> L l = Some xs \<Longrightarrow> i \<in> set xs \<Longrightarrow>
      \<exists>s'. unlink s i = Some s' \<and> R s' (L(l \<mapsto> remove1 i xs)) \<and> data s' = data s"
    and unlink_idle: "idle s i \<Longrightarrow> unlink s i = Some s"
    and append_all: "R s L \<Longrightarrow> L lhs = Some xs \<Longrightarrow> L rhs = Some ys \<Longrightarrow> lhs \<noteq> rhs \<Longrightarrow>
      \<exists>s'. append_all s lhs rhs = Some s' \<and> R s' (L(lhs \<mapsto> xs @ ys, rhs \<mapsto> [])) \<and> data s' = data s"
begin

text \<open>An item the store holds is on one list, or idle.\<close>

lemma on_list_or_idle:
  assumes "R s L" and "data s i \<noteq> None" and "\<not> idle s i"
  obtains k xs where "L k = Some xs" and "i \<in> set xs"
  using assms idle_iff by metis

text \<open>
  Moving an item, wherever it is, to the end of a list: \<open>unlink\<close> and then \<open>tail_add\<close>,
  as \<open>CoCondSignal\<close> and \<open>OnPollPrepare\<close> do.
\<close>

lemma move:
  assumes R: "R s L" and l: "L l = Some xs" and i: "data s i \<noteq> None"
  shows "\<exists>s'. do { s1 \<leftarrow> unlink s i; tail_add s1 l i } = Some s' \<and>
              R s' (move_spec L l i) \<and> data s' = data s"
proof (cases "idle s i")
  case True
  then have "i \<notin> set ys" if "L k = Some ys" for ys k using that R idle_iff by blast
  have "move_spec L l i = L(l \<mapsto> xs @ [i])"
  proof (rule ext)
    fix k
    show "move_spec L l i k = (L(l \<mapsto> xs @ [i])) k"
      using l \<open>\<And>ys k. L k = Some ys \<Longrightarrow> i \<notin> set ys\<close> by (cases "L k") (auto simp: move_spec_def)
  qed
  with True tail_add [OF R l True] unlink_idle show ?thesis by auto
next
  case False
  then obtain k ys where k: "L k = Some ys" "i \<in> set ys"
    using on_list_or_idle [OF R i] by blast
  have only: "i \<notin> set zs" if "L k' = Some zs" "k' \<noteq> k" for k' zs
    using disjoint [OF R k(1) that(1) k(2)] that(2) by blast
  obtain s1 where s1: "unlink s i = Some s1" "R s1 (L(k \<mapsto> remove1 i ys))" "data s1 = data s"
    using unlink [OF R k] by blast
  have rm: "remove1 i ys = removeAll i ys"
    using dist [OF R k(1)] by (simp add: distinct_remove1_removeAll)
  have "idle s1 i"
    using idle_iff [OF s1(2)] only rm i s1(3) by (auto split: if_splits)
  moreover obtain zs where zs: "(L(k \<mapsto> remove1 i ys)) l = Some zs"
    using l by (cases "k = l") auto
  ultimately obtain s2 where s2: "tail_add s1 l i = Some s2"
      "R s2 (L(k \<mapsto> remove1 i ys, l \<mapsto> zs @ [i]))" "data s2 = data s1"
    using tail_add [OF s1(2)] by blast
  have "move_spec L l i = L(k \<mapsto> remove1 i ys, l \<mapsto> zs @ [i])"
  proof (rule ext)
    fix j
    show "move_spec L l i j = (L(k \<mapsto> remove1 i ys, l \<mapsto> zs @ [i])) j"
      using k zs rm only [of j] by (cases "L j") (auto simp: move_spec_def removeAll_id split: if_splits)
  qed
  with s1 s2 show ?thesis by auto
qed

text \<open>Appending a sequence of lists, one after the other, to a target.\<close>

fun append_lists :: "'s \<Rightarrow> addr \<Rightarrow> addr list \<Rightarrow> 's option" where
  "append_lists s l [] = Some s"
| "append_lists s l (k # ks) = do { s1 \<leftarrow> append_all s l k; append_lists s1 l ks }"

lemma append_lists_refines:
  assumes "R s L" and "L l = Some xs" and "l \<notin> set ks" and "distinct ks" and "set ks \<subseteq> dom L"
  shows "\<exists>s'. append_lists s l ks = Some s' \<and> data s' = data s \<and>
     R s' (\<lambda>j. if j = l then Some (xs @ concat (map (\<lambda>k. the (L k)) ks))
               else if j \<in> set ks then Some [] else L j)"
  using assms
proof (induction ks arbitrary: s L xs)
  case Nil
  have "(\<lambda>j. if j = l then Some (xs @ concat (map (\<lambda>k. the (L k)) []))
             else if j \<in> set [] then Some [] else L j) = L"
    using Nil.prems by (intro ext) simp
  then show ?case using Nil.prems(1) by simp
next
  case (Cons k ks)
  then obtain ys where ys: "L k = Some ys" by auto
  have ne: "l \<noteq> k" using Cons.prems by auto
  obtain s1 where s1: "append_all s l k = Some s1" "R s1 (L(l \<mapsto> xs @ ys, k \<mapsto> []))" "data s1 = data s"
    using append_all [OF Cons.prems(1,2) ys ne] by blast
  let ?L = "L(l \<mapsto> xs @ ys, k \<mapsto> [])"
  have dom: "set ks \<subseteq> dom ?L" using Cons.prems by auto
  obtain s2 where s2: "append_lists s1 l ks = Some s2" "data s2 = data s1"
     "R s2 (\<lambda>j. if j = l then Some ((xs @ ys) @ concat (map (\<lambda>k. the (?L k)) ks))
               else if j \<in> set ks then Some [] else ?L j)"
    using Cons.IH [OF s1(2), of "xs @ ys", OF _ _ _ dom] Cons.prems ne by auto
  have mp: "map (\<lambda>k. the (?L k)) ks = map (\<lambda>k. the (L k)) ks"
    using Cons.prems by auto
  have "(\<lambda>j. if j = l then Some ((xs @ ys) @ concat (map (\<lambda>k. the (?L k)) ks))
               else if j \<in> set ks then Some [] else ?L j) =
     (\<lambda>j. if j = l then Some (xs @ concat (map (\<lambda>k. the (L k)) (k # ks)))
               else if j \<in> set (k # ks) then Some [] else L j)"
    unfolding mp using ys ne by (intro ext) auto
  with s1 s2 show ?case by simp
qed

end

interpretation lk: intrusive_lists absl detached payload TailAdd HeadPop RemoveFromLink LinkAppend
  by unfold_locales
    (auto simp: detached_iff RemoveFromLink_detached absl_distinct payload_def
      intro: absl_disjoint TailAdd_refines HeadPop_refines RemoveFromLink_refines LinkAppend_refines
      dest: absl_member)

text \<open>A small store: three items on the list 10 and one on the list 20.\<close>

definition sample_store :: "node lstore" where
  "sample_store = \<lparr>items = [1 \<mapsto> \<lparr>prev = None, nxt = Some 2, owner = Some 10\<rparr>,
                           2 \<mapsto> \<lparr>prev = Some 1, nxt = Some 3, owner = Some 10\<rparr>,
                           3 \<mapsto> \<lparr>prev = Some 2, nxt = None, owner = Some 10\<rparr>,
                           4 \<mapsto> \<lparr>prev = None, nxt = None, owner = Some 20\<rparr>],
                   links = [10 \<mapsto> \<lparr>head = Some 1, tail = Some 3\<rparr>,
                            20 \<mapsto> \<lparr>head = Some 4, tail = Some 4\<rparr>]\<rparr>"

lemma sample_store_absl: "absl sample_store [10 \<mapsto> [1, 2, 3], 20 \<mapsto> [4]]"
  by (auto simp: absl_def sample_store_def last_opt_def split: if_splits)

text \<open>
  C3: RemoveFromLink unlinks exactly the given item. Whatever its position (head, tail,
  middle, only item), on a well-formed store it dereferences no null or dangling pointer,
  and afterwards the store is well formed again with the item removed from its list, every
  other list and every item's payload unchanged.
\<close>

theorem RemoveFromLink_correct:
  assumes "absl s L" and "L l = Some xs" and "i \<in> set xs"
  shows "\<exists>s'. RemoveFromLink s i = Some s' \<and> absl s' (L(l \<mapsto> remove1 i xs)) \<and> payload s' = payload s"
  using assms by (rule lk.unlink)

theorem RemoveFromLink_correct_witness:
  "\<exists>s'. RemoveFromLink sample_store 2 = Some s' \<and>
        absl s' [10 \<mapsto> [1, 3], 20 \<mapsto> [4]] \<and> payload s' = payload sample_store"
  using RemoveFromLink_correct [OF sample_store_absl, of 10 "[1, 2, 3]" 2]
  by (simp add: fun_upd_twist)

text \<open>
  LinkAppend splices one list behind another. For two different headers it walks and
  re-owns every item of the right list, joins the two chains and empties the right header;
  the result is well formed, the left list is the concatenation, and no pointer that is
  not there is dereferenced.
\<close>

theorem LinkAppend_correct:
  assumes "absl s L" and "L lhs = Some xs" and "L rhs = Some ys" and "lhs \<noteq> rhs"
  shows "\<exists>s'. LinkAppend s lhs rhs = Some s' \<and> absl s' (L(lhs \<mapsto> xs @ ys, rhs \<mapsto> [])) \<and>
              payload s' = payload s"
  using assms by (rule lk.append_all)

theorem LinkAppend_correct_witness:
  "\<exists>s'. LinkAppend sample_store 10 20 = Some s' \<and>
        absl s' [10 \<mapsto> [1, 2, 3, 4], 20 \<mapsto> []] \<and> payload s' = payload sample_store"
  using LinkAppend_correct [OF sample_store_absl, of 10 "[1, 2, 3]" 20 "[4]"]
  by (simp add: fun_upd_twist)

end
