(* ===== verification/Wheel.thy ===== *)
theory Wheel
  imports Link
begin

section \<open>The timing wheel (libco/co_routine.h, co_routine.cpp)\<close>

text \<open>
  \<open>timing_wheel_t\<close> is an array of list headers, one per millisecond; \<open>start\<close> is the time
  of the slot at \<open>start_idx\<close>. \<open>TimerItemAdd\<close> files an item under its expiry time,
  \<open>TimeoutLinkAllTake\<close> collects the slots that have come due. Times are \<open>unsigned long
  long\<close>, the number of slots to take is an \<open>int\<close> to which their difference is narrowed.

  The invariant \<open>wheel_ok\<close> says that no item sits in a slot later than its expiry. The
  two properties are that adding an item keeps it, and that a tick moves every item that
  is due to the target list, whatever the state of the wheel.
\<close>

subsection \<open>Data\<close>

datatype prepare_fn = OnPollPrepare_pfn
datatype process_fn = OnProcessEvent_pfn

record timeout_item = node +
  expire_time :: nat
  prepare_pfn :: "prepare_fn option"
  process_pfn :: "process_fn option"
  args :: ptr
  is_timeout :: bool

type_synonym 'z tstore = "'z timeout_item_scheme lstore"

record timing_wheel =
  slot_base :: addr     \<comment> \<open>\<open>link\<close>: the array of \<open>slot_size\<close> headers\<close>
  slot_size :: int
  start :: nat
  start_idx :: int

definition TimeoutRemoveFromLink :: "'z tstore \<Rightarrow> addr \<Rightarrow> 'z tstore option" where
  "TimeoutRemoveFromLink s i = RemoveFromLink s i"

definition TimeoutLinkTailAdd :: "'z tstore \<Rightarrow> addr \<Rightarrow> addr \<Rightarrow> 'z tstore option" where
  "TimeoutLinkTailAdd s l i = TailAdd s l i"

definition TimeoutLinkHeadPop :: "'z tstore \<Rightarrow> addr \<Rightarrow> 'z tstore option" where
  "TimeoutLinkHeadPop s l = HeadPop s l"

definition TimeoutLinkAppend :: "'z tstore \<Rightarrow> addr \<Rightarrow> addr \<Rightarrow> 'z tstore option" where
  "TimeoutLinkAppend s lhs rhs = LinkAppend s lhs rhs"

subsection \<open>Operations\<close>

text \<open>The pointer \<open>timer->link + idx\<close>: outside the array it must not be used.\<close>

definition slot_ptr :: "timing_wheel \<Rightarrow> int \<Rightarrow> addr option" where
  "slot_ptr w idx = (if 0 \<le> idx \<and> idx < slot_size w then Some (slot_base w + nat idx) else None)"

text \<open>\<open>if (timer->start == 0)\<close>: the first use sets the origin.\<close>

definition set_origin :: "timing_wheel \<Rightarrow> nat \<Rightarrow> timing_wheel" where
  "set_origin w now = (if start w = 0 then w\<lparr>start := now, start_idx := 0\<rparr> else w)"

text \<open>
  The result carries the source's return code: 0, or the line number of the failing
  \<open>return __LINE__\<close>.
\<close>

definition TimerItemAdd ::
    "'z tstore \<Rightarrow> timing_wheel \<Rightarrow> addr \<Rightarrow> nat \<Rightarrow> (nat \<times> 'z tstore \<times> timing_wheel) option" where
  "TimerItemAdd s w i now = do {
     let w = set_origin w now;
     if now < start w then Some (331, s, w)
     else do {
       it \<leftarrow> items s i;
       if expire_time it < now then Some (332, s, w)
       else do {
         let diff = to_u64 (int (expire_time it) - int (start w));
         let diff = (if diff \<ge> to_u64 (slot_size w) then slot_size w - 1 else diff);
         idx \<leftarrow> crem (to_u64 (to_u64 (start_idx w) + diff)) (to_u64 (slot_size w));
         l \<leftarrow> slot_ptr w idx;
         s' \<leftarrow> TimeoutLinkTailAdd s l i;
         Some (0, s', w) } } }"

function take_slots :: "'z tstore \<Rightarrow> timing_wheel \<Rightarrow> addr \<Rightarrow> int \<Rightarrow> int \<Rightarrow> 'z tstore option" where
  "take_slots s w l i cnt =
     (if i < cnt then do {
        r \<leftarrow> crem (start_idx w + i) (slot_size w);
        k \<leftarrow> slot_ptr w (to_int32 r);
        s1 \<leftarrow> TimeoutLinkAppend s l k;
        take_slots s1 w l (i + 1) cnt }
      else Some s)"
  by pat_completeness auto
termination
  by (relation "measure (\<lambda>(s, w, l, i, cnt). nat (cnt - i))") auto

declare take_slots.simps [simp del]

definition TimeoutLinkAllTake ::
    "'z tstore \<Rightarrow> timing_wheel \<Rightarrow> nat \<Rightarrow> addr \<Rightarrow> ('z tstore \<times> timing_wheel) option" where
  "TimeoutLinkAllTake s w now l = do {
     let w = set_origin w now;
     if now < start w then Some (s, w)
     else do {
       let cnt = to_int32 (to_u64 (int now - int (start w) + 1));
       let cnt = (if cnt > slot_size w then slot_size w else cnt);
       s' \<leftarrow> take_slots s w l 0 cnt;
       Some (s', w\<lparr>start := now, start_idx := start_idx w + (cnt - 1)\<rparr>) } }"

text \<open>\<open>TimerAlloc\<close>: a zeroed array of headers at \<open>base\<close>, the origin at the current time.\<close>

definition TimerAlloc :: "'z tstore \<Rightarrow> addr \<Rightarrow> nat \<Rightarrow> nat \<Rightarrow> 'z tstore \<times> timing_wheel" where
  "TimerAlloc s base n now =
     (s\<lparr>links := (\<lambda>k. if base \<le> k \<and> k < base + n then Some \<lparr>head = None, tail = None\<rparr> else links s k)\<rparr>,
      \<lparr>slot_base = base, slot_size = int n, start = now, start_idx = 0\<rparr>)"

subsection \<open>The slots of a wheel\<close>

text \<open>The header of the slot that is \<open>d\<close> milliseconds after \<open>start\<close>.\<close>

definition slot_at :: "timing_wheel \<Rightarrow> nat \<Rightarrow> addr" where
  "slot_at w d = slot_base w + nat ((start_idx w + int d) mod slot_size w)"

definition expire :: "'z tstore \<Rightarrow> addr \<Rightarrow> nat" where
  "expire s i = (case items s i of None \<Rightarrow> 0 | Some it \<Rightarrow> expire_time it)"

text \<open>The headers of the array, and the items of the wheel, whatever their slot.\<close>

definition slot_set :: "timing_wheel \<Rightarrow> addr set" where
  "slot_set w = {slot_base w ..< slot_base w + nat (slot_size w)}"

definition on_wheel :: "timing_wheel \<Rightarrow> (addr \<rightharpoonup> addr list) \<Rightarrow> addr \<Rightarrow> bool" where
  "on_wheel w L i \<longleftrightarrow> (\<exists>k xs. k \<in> slot_set w \<and> L k = Some xs \<and> i \<in> set xs)"

text \<open>
  The invariant. The array exists; a wheel that has no origin yet is empty; an item in the
  slot \<open>d\<close> milliseconds after \<open>start\<close> expires at that time or later, so the slot is
  taken no later than the item expires.
\<close>

definition wheel_ok :: "'z tstore \<Rightarrow> timing_wheel \<Rightarrow> (addr \<rightharpoonup> addr list) \<Rightarrow> bool" where
  "wheel_ok s w L \<longleftrightarrow> 0 < slot_size w \<and> slot_size w < 2 ^ 31 \<and> 0 \<le> start_idx w \<and>
     slot_set w \<subseteq> dom L \<and>
     (start w = 0 \<longrightarrow> (\<forall>i. \<not> on_wheel w L i)) \<and>
     (\<forall>d xs i. int d < slot_size w \<longrightarrow> L (slot_at w d) = Some xs \<longrightarrow> i \<in> set xs \<longrightarrow>
        start w + d \<le> expire s i)"

lemma slot_at_in: "0 < slot_size w \<Longrightarrow> slot_at w d \<in> slot_set w"
  by (auto simp: slot_at_def slot_set_def nat_less_iff)

lemma slot_at_cover:
  assumes pos: "0 < slot_size w" and k: "k \<in> slot_set w"
  shows "\<exists>d. int d < slot_size w \<and> slot_at w d = k"
proof -
  obtain j where j: "k = slot_base w + j" "int j < slot_size w"
    using k pos by (auto simp: slot_set_def nat_less_iff dest!: le_Suc_ex)
  let ?d = "nat ((int j - start_idx w) mod slot_size w)"
  have d: "int ?d = (int j - start_idx w) mod slot_size w" using pos by simp
  then have "(start_idx w + int ?d) mod slot_size w = int j mod slot_size w"
    by (simp add: mod_add_right_eq)
  then have "slot_at w ?d = k" using j by (simp add: slot_at_def)
  moreover have "int ?d < slot_size w" using pos d by simp
  ultimately show ?thesis by blast
qed

lemma slot_at_add:
  assumes "0 < slot_size w"
  shows "slot_at (w\<lparr>start := n, start_idx := start_idx w + int k\<rparr>) d = slot_at w (k + d)"
  by (simp add: slot_at_def algebra_simps)

lemma slot_at_inj:
  assumes "0 < slot_size w" and "int d < slot_size w" and "int e < slot_size w"
    and "slot_at w d = slot_at w e"
  shows "d = e"
proof -
  have "(start_idx w + int d) mod slot_size w = (start_idx w + int e) mod slot_size w"
    using assms by (simp add: slot_at_def eq_nat_nat_iff)
  then have "slot_size w dvd int d - int e"
    by (simp add: mod_eq_dvd_iff)
  moreover have "\<bar>int d - int e\<bar> < slot_size w" using assms by linarith
  ultimately have "int d - int e = 0"
    using dvd_imp_le_int [of "int d - int e" "slot_size w"] assms(1) by linarith
  then show ?thesis by simp
qed

lemma slot_at_wrap:
  assumes "0 < slot_size w" and "slot_size w \<le> int d"
  shows "slot_at w d = slot_at w (d - nat (slot_size w))"
proof -
  have "nat (slot_size w) \<le> d" using assms by linarith
  then have "int (d - nat (slot_size w)) = int d - slot_size w"
    using assms by (simp add: of_nat_diff)
  then have "start_idx w + int d = start_idx w + int (d - nat (slot_size w)) + slot_size w"
    by simp
  then have "(start_idx w + int d) mod slot_size w =
      (start_idx w + int (d - nat (slot_size w))) mod slot_size w"
    by (simp only: mod_add_self2)
  then show ?thesis by (simp only: slot_at_def)
qed

subsection \<open>Adding and taking\<close>

lemma more_fields:
  fixes a b :: "'z timeout_item_scheme"
  assumes "node.more a = node.more b"
  shows "expire_time a = expire_time b" and "process_pfn a = process_pfn b"
    and "is_timeout a = is_timeout b" and "args a = args b"
  using assms by (cases a; cases b; simp)+

lemma expire_payload:
  fixes s s' :: "'z tstore"
  assumes "payload s' = payload s"
  shows "expire s' = expire s"
proof (rule ext)
  fix x
  have "map_option node.more (items s' x) = map_option node.more (items s x)"
    using fun_cong [OF assms, of x] by (simp add: payload_def)
  then show "expire s' x = expire s x"
    by (auto simp: expire_def dest: more_fields split: option.splits)
qed

lemma set_origin_slots [simp]:
  "slot_size (set_origin w now) = slot_size w" "slot_set (set_origin w now) = slot_set w"
  "on_wheel (set_origin w now) = on_wheel w"
  by (simp_all add: set_origin_def slot_set_def on_wheel_def fun_eq_iff)

lemma set_origin_ok:
  assumes ok: "wheel_ok s w L"
  shows "wheel_ok s (set_origin w now) L"
proof (cases "start w = 0")
  case False
  with ok show ?thesis by (simp add: set_origin_def)
next
  case True
  then have emp: "\<not> on_wheel w L i" for i using ok by (simp add: wheel_ok_def)
  have pos: "0 < slot_size w" using ok by (simp add: wheel_ok_def)
  have "i \<notin> set xs" if "L (slot_at (set_origin w now) d) = Some xs" for d xs i
    using emp that slot_at_in [of "set_origin w now" d] pos by (auto simp: on_wheel_def)
  moreover have "start_idx (set_origin w now) = 0" using True by (simp add: set_origin_def)
  ultimately show ?thesis using ok emp unfolding wheel_ok_def by simp
qed

lemma set_origin_start [simp]: "start w \<noteq> 0 \<Longrightarrow> set_origin w now = w"
  by (simp add: set_origin_def)

lemma set_origin_le: "start w \<le> now \<Longrightarrow> start (set_origin w now) \<le> now"
  by (simp add: set_origin_def)

lemma add_slot_lookup:
  assumes "wheel_ok s w L" and "int d < slot_size w" and "d = min D (nat (slot_size w) - 1)"
    and "start_idx w + slot_size w < 2 ^ 64" and "int D < 2 ^ 64"
  shows "do { idx \<leftarrow> crem (to_u64 (to_u64 (start_idx w) +
              (if to_u64 (int D) \<ge> to_u64 (slot_size w) then slot_size w - 1 else to_u64 (int D))))
              (to_u64 (slot_size w)); slot_ptr w idx } = Some (slot_at w d)"
proof -
  have pos: "0 < slot_size w" "slot_size w < 2 ^ 31" "0 \<le> start_idx w" using assms by (auto simp: wheel_ok_def)
  have "(if to_u64 (int D) \<ge> to_u64 (slot_size w) then slot_size w - 1 else to_u64 (int D)) = int d"
    using pos assms by auto
  with pos assms show ?thesis
    by (simp add: slot_ptr_def slot_at_def)
qed

lemma wheel_okD:
  assumes "wheel_ok s w L"
  shows "0 < slot_size w" "slot_size w < 2 ^ 31" "0 \<le> start_idx w"
    "slot_set w \<subseteq> dom L"
    "\<And>d xs i. int d < slot_size w \<Longrightarrow> L (slot_at w d) = Some xs \<Longrightarrow> i \<in> set xs \<Longrightarrow> start w + d \<le> expire s i"
  using assms by (simp_all add: wheel_ok_def)

lemma expire_stored: "0 < expire s i \<Longrightarrow> \<exists>it. items s i = Some it \<and> expire_time it = expire s i"
  by (simp add: expire_def split: option.splits)

lemma TimerItemAdd_ok:
  assumes ok: "wheel_ok s w L" and abs: "absl s L" and i: "detached s i"
    and t: "start w \<le> now" "now \<le> expire s i" "0 < now"
    and b: "start_idx w + slot_size w < 2 ^ 64" "expire s i < 2 ^ 64"
  shows "\<exists>s' d xs. TimerItemAdd s w i now = Some (0, s', set_origin w now) \<and>
     d = min (expire s i - start (set_origin w now)) (nat (slot_size w) - 1) \<and>
     L (slot_at (set_origin w now) d) = Some xs \<and>
     absl s' (L(slot_at (set_origin w now) d \<mapsto> xs @ [i])) \<and>
     wheel_ok s' (set_origin w now) (L(slot_at (set_origin w now) d \<mapsto> xs @ [i])) \<and>
     payload s' = payload s"
proof -
  define w1 where "w1 = set_origin w now"
  have ok1: "wheel_ok s w1 L" using set_origin_ok [OF ok] by (simp add: w1_def)
  note W = wheel_okD [OF ok1]
  have st: "start w1 \<le> now" "start w1 \<noteq> 0" "start_idx w1 + slot_size w1 < 2 ^ 64"
    using t b W(2) by (auto simp: w1_def set_origin_def)
  obtain it where it: "items s i = Some it" "expire_time it = expire s i"
    using expire_stored [of s i] t by auto
  define d where "d = min (expire s i - start w1) (nat (slot_size w1) - 1)"
  have dlt: "int d < slot_size w1" using W(1) by (auto simp: d_def)
  then obtain xs where xs: "L (slot_at w1 d) = Some xs"
    using W(4) slot_at_in [OF W(1)] by blast
  let ?L = "L(slot_at w1 d \<mapsto> xs @ [i])"
  obtain s' where s': "TailAdd s (slot_at w1 d) i = Some s'" "absl s' ?L" "payload s' = payload s"
    using lk.tail_add [OF abs xs i] by blast
  have "int (expire s i) - int (start w1) = int (expire s i - start w1)"
    using st t by simp
  then have "TimerItemAdd s w i now = Some (0, s', w1)"
    using st t it s' add_slot_lookup [OF ok1 dlt d_def st(3)] b
    unfolding TimerItemAdd_def w1_def [symmetric]
    by (simp add: Let_def TimeoutLinkTailAdd_def del: crem_pos) fastforce
  moreover have "wheel_ok s' w1 ?L"
    unfolding wheel_ok_def
  proof (intro conjI allI impI)
    fix e ys j assume e: "int e < slot_size w1" "?L (slot_at w1 e) = Some ys" "j \<in> set ys"
    have ex: "expire s' = expire s" using s'(3) by (rule expire_payload)
    show "start w1 + e \<le> expire s' j"
    proof (cases "slot_at w1 e = slot_at w1 d")
      case True
      then have "e = d" using slot_at_inj [OF W(1) e(1) dlt] by simp
      moreover have "start w1 + d \<le> expire s i" using st t by (simp add: d_def)
      ultimately show ?thesis using e xs W(5) [OF dlt xs] ex by auto
    next
      case False
      then show ?thesis using e W(5) ex by auto
    qed
  next
    show "slot_set w1 \<subseteq> dom ?L" using W(4) by auto
  next
    fix j assume "start w1 = 0" then show "\<not> on_wheel w1 ?L j" using st by simp
  qed (use W in simp_all)
  ultimately show ?thesis
    using s' xs d_def by (auto simp: w1_def)
qed

lemma take_slots_eq:
  fixes s :: "'z tstore"
  assumes "0 < slot_size w" "slot_size w < 2 ^ 31" "0 \<le> start_idx w"
  shows "take_slots s w l (int i) (int n) = lk.append_lists s l (map (slot_at w) [i..<n])"
proof (induction "n - i" arbitrary: i s)
  case 0
  then show ?case by (simp add: take_slots.simps)
next
  case (Suc k)
  then have lt: "i < n" by simp
  have IH: "take_slots s w l (int i + 1) (int n) =
      lk.append_lists s l (map (slot_at w) [Suc i..<n])" for s :: "'z tstore"
    using Suc.hyps(1) [of "Suc i" s] Suc.hyps(2) by (simp add: add.commute)
  let ?r = "(start_idx w + int i) mod slot_size w"
  have r: "0 \<le> ?r" "?r < slot_size w" using assms by simp_all
  then have "to_int32 ?r = ?r" using assms by (intro to_int32_id) linarith+
  with r have "slot_ptr w (to_int32 ?r) = Some (slot_at w i)"
    by (simp add: slot_ptr_def slot_at_def)
  moreover have "crem (start_idx w + int i) (slot_size w) = Some ?r"
    using assms by simp
  moreover have "[i..<n] = i # [Suc i..<n]" using lt by (simp add: upt_conv_Cons)
  ultimately show ?case
    using lt IH by (subst take_slots.simps) (simp add: TimeoutLinkAppend_def)
qed

lemma wheel_after_take:
  fixes s :: "'z tstore"
  assumes W: "0 < slot_size w" "slot_size w < 2 ^ 31" "0 \<le> start_idx w" "slot_set w \<subseteq> dom L"
    and late: "\<And>d xs i. int d < slot_size w \<Longrightarrow> L (slot_at w d) = Some xs \<Longrightarrow> i \<in> set xs \<Longrightarrow>
                 start w + d \<le> expire s i"
    and t: "start w \<le> now" "0 < now"
    and c: "c = min (now - start w + 1) (nat (slot_size w))"
    and L': "L' = (\<lambda>j. if j = l then Some zs else if j \<in> slot_at w ` {..<c} then Some [] else L j)"
    and l: "l \<notin> slot_set w"
    and w': "w' = w\<lparr>start := now, start_idx := start_idx w + int (c - 1)\<rparr>"
  shows "wheel_ok s w' L'" and "\<And>i. on_wheel w' L' i \<Longrightarrow> now < expire s i"
proof -
  have c1: "1 \<le> c" "int c \<le> slot_size w" using c t W(1) by auto
  have slot': "slot_at w' d = slot_at w (c - 1 + d)" for d
    using slot_at_add [OF W(1)] w' by simp
  have eqs: "slot_size w' = slot_size w" "slot_set w' = slot_set w" "start w' = now"
    using w' by (simp_all add: slot_set_def)
  have taken: "L' (slot_at w e) = Some []" if "e < c" for e
    using that l slot_at_in [OF W(1), of e] L' by auto
  have rest: "0 < d \<and> now + d \<le> expire s i"
    if d: "int d < slot_size w" and x: "L' (slot_at w' d) = Some xs" "i \<in> set xs" for d xs i
  proof -
    let ?e = "c - 1 + d"
    have "\<not> slot_size w \<le> int ?e"
    proof
      assume A: "slot_size w \<le> int ?e"
      then have "slot_at w ?e = slot_at w (?e - nat (slot_size w))" by (rule slot_at_wrap [OF W(1)])
      moreover have "?e - nat (slot_size w) < c" using d c1 W(1) A by linarith
      ultimately show False using x taken slot' by (metis empty_iff list.set(1) option.inject)
    qed
    then have e: "int ?e < slot_size w" by simp
    have nc: "\<not> ?e < c" using x taken slot' by (metis empty_iff list.set(1) option.inject)
    have "slot_at w ?e \<notin> slot_at w ` {..<c}"
    proof
      assume "slot_at w ?e \<in> slot_at w ` {..<c}"
      then obtain f where f: "f < c" "slot_at w ?e = slot_at w f" by auto
      then have "?e = f" using slot_at_inj [OF W(1) e _ f(2)] c1 by simp
      with f nc show False by simp
    qed
    moreover have "slot_at w ?e \<noteq> l" using slot_at_in [OF W(1), of ?e] l by metis
    ultimately have "L (slot_at w ?e) = Some xs" using x L' slot' by simp
    then have "start w + ?e \<le> expire s i" using late [OF e] x by simp
    moreover have "c = now - start w + 1"
    proof -
      have "c \<noteq> nat (slot_size w)" using nc e c1 W(1) by linarith
      with c show ?thesis by (simp add: min_def split: if_splits)
    qed
    ultimately show ?thesis using t nc c1 by simp
  qed
  show "wheel_ok s w' L'"
    unfolding wheel_ok_def eqs
  proof (intro conjI allI impI)
    show "slot_set w \<subseteq> dom L'" using W(4) L' by auto
    show "0 \<le> start_idx w'" using W(3) w' by simp
    fix d xs i assume "int d < slot_size w" "L' (slot_at w' d) = Some xs" "i \<in> set xs"
    with rest show "now + d \<le> expire s i" by blast
  next
    fix i assume "now = 0" then show "\<not> on_wheel w' L' i" using t by simp
  qed (use W in simp_all)
  fix i assume "on_wheel w' L' i"
  then obtain k xs where k: "k \<in> slot_set w'" "L' k = Some xs" "i \<in> set xs"
    by (auto simp: on_wheel_def)
  then obtain d where d: "int d < slot_size w" "slot_at w' d = k"
    using slot_at_cover [of w' k] eqs W(1) by auto
  with rest [of d xs i] k show "now < expire s i" by auto
qed

lemma TimeoutLinkAllTake_ok:
  assumes ok: "wheel_ok s w L" and abs: "absl s L" and l: "L l = Some xs" "l \<notin> slot_set w"
    and t: "start w \<le> now" "0 < now" "now - start w + 1 < 2 ^ 31"
  shows "\<exists>s' w' L' ts. TimeoutLinkAllTake s w now l = Some (s', w') \<and>
     absl s' L' \<and> wheel_ok s' w' L' \<and> payload s' = payload s \<and> start w' = now \<and>
     slot_set w' = slot_set w \<and> L' l = Some (xs @ ts) \<and>
     (\<forall>i. on_wheel w L i \<longleftrightarrow> i \<in> set ts \<or> on_wheel w' L' i) \<and>
     (\<forall>i. on_wheel w' L' i \<longrightarrow> now < expire s i) \<and>
     (\<forall>k. k \<noteq> l \<longrightarrow> k \<notin> slot_set w \<longrightarrow> L' k = L k)"
proof -
  define w1 where "w1 = set_origin w now"
  have ok1: "wheel_ok s w1 L" using set_origin_ok [OF ok] by (simp add: w1_def)
  note W = wheel_okD [OF ok1]
  have ss: "slot_set w1 = slot_set w" "slot_size w1 = slot_size w" and ow: "on_wheel w1 = on_wheel w"
    by (simp_all add: w1_def)
  have st: "start w1 \<le> now" "now - start w1 + 1 < 2 ^ 31"
    using t by (auto simp: w1_def set_origin_def)
  define c where "c = min (now - start w1 + 1) (nat (slot_size w1))"
  have c1: "1 \<le> c" "int c \<le> slot_size w1" using c_def W(1) by auto
  define z where "z = to_int32 (to_u64 (int now - int (start w1) + 1))"
  have "int (now - start w1 + 1) < 2 ^ 31" using st(2) by (metis of_nat_less_iff of_nat_numeral of_nat_power)
  then have "z = int (now - start w1 + 1)"
    using st(1) by (simp add: z_def of_nat_diff)
  then have cnt: "(if z > slot_size w1 then slot_size w1 else z) = int c"
    using W(1) by (auto simp: c_def)
  let ?ks = "map (slot_at w1) [0..<c]"
  have "inj_on (slot_at w1) {0..<c}"
    by (rule inj_onI, rule slot_at_inj [OF W(1)]) (use c1 in auto)
  then have dks: "distinct ?ks" by (simp add: distinct_map)
  have sub: "set ?ks \<subseteq> slot_set w1" using slot_at_in [OF W(1)] by auto
  then have nl: "l \<notin> set ?ks" and dom: "set ?ks \<subseteq> dom L" using l ss W(4) by auto
  define ts where "ts = concat (map (\<lambda>k. the (L k)) ?ks)"
  define L' where "L' = (\<lambda>j. if j = l then Some (xs @ ts) else if j \<in> slot_at w1 ` {..<c} then Some [] else L j)"
  have "L' = (\<lambda>j. if j = l then Some (xs @ concat (map (\<lambda>k. the (L k)) ?ks))
                 else if j \<in> set ?ks then Some [] else L j)"
    unfolding L'_def ts_def by (simp only: set_map set_upt lessThan_atLeast0)
  then obtain s' where s': "lk.append_lists s l ?ks = Some s'" "payload s' = payload s" "absl s' L'"
    using lk.append_lists_refines [OF abs l(1) nl dks dom] by metis
  define w' where "w' = w1\<lparr>start := now, start_idx := start_idx w1 + int (c - 1)\<rparr>"
  have "take_slots s w1 l 0 (int c) = Some s'"
    using take_slots_eq [OF W(1-3), of s l 0 c] s' by simp
  then have eq: "TimeoutLinkAllTake s w now l = Some (s', w')"
    using st c1
    unfolding TimeoutLinkAllTake_def Let_def w1_def [symmetric] z_def [symmetric] cnt w'_def
    by (simp add: of_nat_diff)
  have ok': "wheel_ok s w' L'" and after: "\<And>i. on_wheel w' L' i \<Longrightarrow> now < expire s i"
    using wheel_after_take [OF W st(1) t(2) c_def L'_def _ w'_def] l ss by simp_all
  have "wheel_ok s' w' L'" using ok' expire_payload [OF s'(2)] by (simp add: wheel_ok_def)
  moreover have "on_wheel w L i \<longleftrightarrow> i \<in> set ts \<or> on_wheel w' L' i" for i
  proof -
    have "slot_set w' = slot_set w1" by (simp add: w'_def slot_set_def)
    then have ow': "on_wheel w' L' i \<longleftrightarrow> (\<exists>k ys. k \<in> slot_set w1 \<and> L' k = Some ys \<and> i \<in> set ys)"
      by (simp add: on_wheel_def)
    have sl: "slot_at w1 ` {..<c} = set ?ks" by (simp only: set_map set_upt lessThan_atLeast0)
    have look: "L' k = (if k \<in> set ?ks then Some [] else L k)" if "k \<in> slot_set w1" for k
      using that l ss sl by (auto simp: L'_def)
    have "on_wheel w' L' i \<longleftrightarrow> (\<exists>k ys. k \<in> slot_set w1 \<and> k \<notin> set ?ks \<and> L k = Some ys \<and> i \<in> set ys)"
      unfolding ow' using look by (metis empty_iff empty_set option.inject)
    moreover have "i \<in> set ts \<longleftrightarrow> (\<exists>k ys. k \<in> set ?ks \<and> L k = Some ys \<and> i \<in> set ys)"
    proof -
      have "i \<in> set ts \<longleftrightarrow> (\<exists>k\<in>set ?ks. i \<in> set (the (L k)))" by (simp add: ts_def)
      also have "\<dots> \<longleftrightarrow> (\<exists>k ys. k \<in> set ?ks \<and> L k = Some ys \<and> i \<in> set ys)"
        using dom by (metis domD option.sel subsetD)
      finally show ?thesis .
    qed
    ultimately show ?thesis using sub unfolding ow [symmetric] on_wheel_def by blast
  qed
  moreover have "L' k = L k" if "k \<noteq> l" "k \<notin> slot_set w" for k
  proof -
    have "k \<notin> slot_at w1 ` {..<c}" using that slot_at_in [OF W(1)] ss by auto
    with that show ?thesis by (simp add: L'_def)
  qed
  moreover have "L' l = Some (xs @ ts)" by (simp add: L'_def)
  moreover have "start w' = now" "slot_set w' = slot_set w"
    using ss by (simp_all add: w'_def slot_set_def)
  ultimately show ?thesis using eq s' after by blast
qed


text \<open>A wheel of four slots at 100..103 with one item on it, and one more item to add.\<close>

definition sample_item :: "nat \<Rightarrow> ptr \<Rightarrow> timeout_item" where
  "sample_item t l = \<lparr>prev = None, nxt = None, owner = l, expire_time = t, prepare_pfn = None,
     process_pfn = Some OnProcessEvent_pfn, args = Some 7, is_timeout = False\<rparr>"

definition sample_wheel :: "timing_wheel" where
  "sample_wheel = \<lparr>slot_base = 100, slot_size = 4, start = 1000, start_idx = 0\<rparr>"

definition sample_timers :: "timeout_item lstore" where
  "sample_timers = \<lparr>items = [1 \<mapsto> sample_item 1002 (Some 102), 2 \<mapsto> sample_item 1009 None],
     links = [100 \<mapsto> \<lparr>head = None, tail = None\<rparr>, 101 \<mapsto> \<lparr>head = None, tail = None\<rparr>,
              102 \<mapsto> \<lparr>head = Some 1, tail = Some 1\<rparr>, 103 \<mapsto> \<lparr>head = None, tail = None\<rparr>,
              200 \<mapsto> \<lparr>head = None, tail = None\<rparr>]\<rparr>"

abbreviation sample_lists :: "addr \<rightharpoonup> addr list" where
  "sample_lists \<equiv> [100 \<mapsto> [], 101 \<mapsto> [], 102 \<mapsto> [1], 103 \<mapsto> [], 200 \<mapsto> []]"

lemma sample_timers_absl: "absl sample_timers sample_lists"
  by (auto simp: absl_def sample_timers_def sample_item_def split: if_splits)

lemma sample_wheel_slot: "int d < 4 \<Longrightarrow> slot_at sample_wheel d = 100 + d"
  by (simp add: slot_at_def sample_wheel_def)

lemma sample_wheel_ok: "wheel_ok sample_timers sample_wheel sample_lists"
proof -
  have sub: "slot_set sample_wheel \<subseteq> dom sample_lists"
    by (auto simp: slot_set_def sample_wheel_def)
  have w: "start sample_wheel = 1000" "slot_size sample_wheel = 4" "start_idx sample_wheel = 0"
    by (simp_all add: sample_wheel_def)
  have "start sample_wheel + d \<le> expire sample_timers i"
    if d: "int d < 4" and L: "sample_lists (slot_at sample_wheel d) = Some xs" and i: "i \<in> set xs" for d xs i
  proof -
    have "sample_lists (100 + d) = Some xs" using L by (simp only: sample_wheel_slot [OF d])
    then have "d = 2 \<and> i = 1" using i d by (auto split: if_splits)
    then show ?thesis by (simp add: w expire_def sample_timers_def sample_item_def)
  qed
  then show ?thesis using sub w by (simp add: wheel_ok_def)
qed

text \<open>
  C4: TimerItemAdd files an item in time. For a well-formed wheel, an item that is on no
  list and a time between the wheel's origin and the item's expiry, the call returns 0
  without undefined behaviour, the item is appended to the slot of its expiry (the last
  slot when the expiry is further away than the wheel is long), and the wheel stays well
  formed: every item sits in a slot that is taken no later than it expires.
\<close>

theorem TimerItemAdd_correct:
  assumes "wheel_ok s w L" and "absl s L" and "detached s i"
    and "start w \<le> now" and "now \<le> expire s i" and "0 < now"
    and "start_idx w + slot_size w < 2 ^ 64" and "expire s i < 2 ^ 64"
  shows "\<exists>s' d xs. TimerItemAdd s w i now = Some (0, s', set_origin w now) \<and>
     d = min (expire s i - start (set_origin w now)) (nat (slot_size w) - 1) \<and>
     L (slot_at (set_origin w now) d) = Some xs \<and>
     absl s' (L(slot_at (set_origin w now) d \<mapsto> xs @ [i])) \<and>
     wheel_ok s' (set_origin w now) (L(slot_at (set_origin w now) d \<mapsto> xs @ [i])) \<and>
     payload s' = payload s"
  using assms by (rule TimerItemAdd_ok)

theorem TimerItemAdd_correct_witness:
  "\<exists>s'. TimerItemAdd sample_timers sample_wheel 2 1001 = Some (0, s', sample_wheel) \<and>
        absl s' (sample_lists(103 \<mapsto> [2])) \<and> wheel_ok s' sample_wheel (sample_lists(103 \<mapsto> [2]))"
proof -
  have o: "set_origin sample_wheel 1001 = sample_wheel" by (simp add: set_origin_def sample_wheel_def)
  have f: "expire sample_timers 2 = 1009" "detached sample_timers 2" "start sample_wheel = 1000"
    "slot_size sample_wheel = 4" "start_idx sample_wheel = 0"
    by (simp_all add: expire_def sample_timers_def sample_item_def detached_def sample_wheel_def)
  have sl: "slot_at sample_wheel 3 = 103" by (simp add: sample_wheel_slot)
  show ?thesis
    using TimerItemAdd_correct [OF sample_wheel_ok sample_timers_absl, of 2 1001]
    by (auto simp: f o sl)
qed

text \<open>
  C2: a tick of the wheel is complete. For any time from the wheel's origin on that is less
  than 2^31 ms past it, TimeoutLinkAllTake reaches no undefined behaviour, moves items from
  the wheel to the end of the target list and to nowhere else, and afterwards every item
  still on the wheel expires strictly later than the time of the tick; the wheel is well
  formed with that time as its new origin. No timer is ever taken too late.
\<close>

theorem TimeoutLinkAllTake_correct:
  assumes "wheel_ok s w L" and "absl s L" and "L l = Some xs" and "l \<notin> slot_set w"
    and "start w \<le> now" and "0 < now" and "now - start w + 1 < 2 ^ 31"
  shows "\<exists>s' w' L' ts. TimeoutLinkAllTake s w now l = Some (s', w') \<and>
     absl s' L' \<and> wheel_ok s' w' L' \<and> payload s' = payload s \<and> start w' = now \<and>
     slot_set w' = slot_set w \<and> L' l = Some (xs @ ts) \<and>
     (\<forall>i. on_wheel w L i \<longleftrightarrow> i \<in> set ts \<or> on_wheel w' L' i) \<and>
     (\<forall>i. on_wheel w' L' i \<longrightarrow> now < expire s i) \<and>
     (\<forall>k. k \<noteq> l \<longrightarrow> k \<notin> slot_set w \<longrightarrow> L' k = L k)"
  using assms by (rule TimeoutLinkAllTake_ok)

theorem TimeoutLinkAllTake_correct_witness:
  "\<exists>s' w' L' ts. TimeoutLinkAllTake sample_timers sample_wheel 1002 200 = Some (s', w') \<and>
     L' 200 = Some ts \<and> absl s' L' \<and> 1 \<in> set ts"
proof -
  have w: "200 \<notin> slot_set sample_wheel" "start sample_wheel = 1000"
    by (simp_all add: slot_set_def sample_wheel_def)
  have e: "expire sample_timers 1 = 1002"
    by (simp add: expire_def sample_timers_def sample_item_def)
  have o: "on_wheel sample_wheel sample_lists 1"
    by (simp add: on_wheel_def slot_set_def sample_wheel_def) (rule exI [of _ 102], simp)
  obtain s' w' L' ts where t: "TimeoutLinkAllTake sample_timers sample_wheel 1002 200 = Some (s', w')"
      "absl s' L'" "L' 200 = Some ([] @ ts)"
      "\<forall>i. on_wheel sample_wheel sample_lists i \<longleftrightarrow> i \<in> set ts \<or> on_wheel w' L' i"
      "\<forall>i. on_wheel w' L' i \<longrightarrow> 1002 < expire sample_timers i"
    using TimeoutLinkAllTake_correct [OF sample_wheel_ok sample_timers_absl, of 200 "[]" 1002] w
    by auto
  then have "1 \<in> set ts" using o e by (metis less_irrefl)
  with t show ?thesis by auto
qed

text \<open>
  C38: a long stall breaks the wheel, whatever its size and position. The number of elapsed
  slots is narrowed to an int. When 2^31 - 1 to 2^32 - 2 ms have passed since the last tick it
  becomes negative: the tick succeeds, but takes no slot although time moves to now, and moves
  start_idx back by 2^32 minus the elapsed time instead of forward. When that makes it
  negative (a wheel that has advanced less than that since it was made) and no multiple of the
  wheel's size, every next tick computes an index outside the slot array.
\<close>

theorem TimeoutLinkAllTake_stall:
  assumes "0 < slot_size w" "slot_size w < 2 ^ 31" and "0 < start w" and "2 ^ 31 \<le> elapsed + 1" and "elapsed + 1 < 2 ^ 32"
  shows "\<exists>w'. TimeoutLinkAllTake s w (start w + elapsed) l = Some (s, w') \<and>
     start w' = start w + elapsed \<and> start_idx w' = start_idx w - (2 ^ 32 - int elapsed) \<and>
     (start_idx w < 2 ^ 32 - int elapsed \<longrightarrow> \<not> slot_size w dvd start_idx w' \<longrightarrow>
        (\<forall>d. d + 1 < 2 ^ 31 \<longrightarrow> TimeoutLinkAllTake s w' (start w' + d) l = None))"
proof -
  define w' where "w' = w\<lparr>start := start w + elapsed, start_idx := start_idx w - (2 ^ 32 - int elapsed)\<rparr>"
  have "int (2 ^ 31) \<le> int (elapsed + 1)" "int (elapsed + 1) < int (2 ^ 32)"
    using assms(4,5) by (simp_all only: of_nat_le_iff of_nat_less_iff)
  then have e: "2 ^ 31 \<le> int elapsed + 1" "int elapsed + 1 < 2 ^ 32" by simp_all
  have "to_int32 (int elapsed + 1) = int elapsed + 1 - 2 ^ 32"
  proof -
    have "(int elapsed + 1 + 2 ^ 31) mod 2 ^ 32 = (int elapsed + 1 + 2 ^ 31 - 2 ^ 32) mod 2 ^ 32"
      by (rule minus_mod_self2 [symmetric])
    also have "\<dots> = int elapsed + 1 + 2 ^ 31 - 2 ^ 32" using e by (intro mod_pos_pos_trivial) simp_all
    finally show ?thesis by (simp add: to_int32_def)
  qed
  then have c: "to_int32 (to_u64 (int (start w + elapsed) - int (start w) + 1)) = int elapsed + 1 - 2 ^ 32"
    using e by simp
  have "\<not> int elapsed + 1 - 2 ^ 32 > slot_size w" using assms(1) e by linarith
  then have stall: "TimeoutLinkAllTake s w (start w + elapsed) l = Some (s, w')"
    using assms(3) e c unfolding TimeoutLinkAllTake_def Let_def
    by (simp add: set_origin_def take_slots.simps w'_def algebra_simps)
  have next_tick: "TimeoutLinkAllTake s w' (start w' + d) l = None"
    if neg: "start_idx w < 2 ^ 32 - int elapsed" and nd: "\<not> slot_size w dvd start_idx w'" and d: "d + 1 < 2 ^ 31" for d
  proof -
    let ?k = "start_idx w'"
    have k: "?k < 0" using neg by (simp add: w'_def)
    have "\<bar>?k\<bar> mod \<bar>slot_size w\<bar> \<noteq> 0" using nd by (simp add: dvd_eq_mod_eq_0 [symmetric])
    then have "0 < \<bar>?k\<bar> mod \<bar>slot_size w\<bar>" using assms(1) by (simp add: order.not_eq_order_implies_strict)
    moreover have "\<bar>?k\<bar> mod \<bar>slot_size w\<bar> < slot_size w" using assms(1) by simp
    ultimately have "\<exists>j. crem ?k (slot_size w) = Some j \<and> j < 0 \<and> - slot_size w < j" using k assms(1) by (simp add: crem_def)
    then obtain j where j: "crem ?k (slot_size w) = Some j" "j < 0" "- slot_size w < j" by blast
    moreover from this have "to_int32 j = j" using assms(2) by (intro to_int32_id) simp_all
    ultimately have neg_idx: "to_int32 j < 0" by simp
    have "int (d + 1) < int (2 ^ 31)" using d by (simp only: of_nat_less_iff)
    then have id: "int d + 1 < 2 ^ 31" by simp
    have "start w' \<noteq> 0" "slot_size w' = slot_size w" using assms(3) by (simp_all add: w'_def)
    then show ?thesis
      using assms(1) j(1) neg_idx id unfolding TimeoutLinkAllTake_def Let_def
      by (simp add: set_origin_def take_slots.simps [of _ _ _ 0] slot_ptr_def)
  qed
  show ?thesis using stall next_tick by (intro exI [of _ w']) (simp add: w'_def)
qed

theorem TimeoutLinkAllTake_stall_witness:
  "\<exists>w'. TimeoutLinkAllTake sample_timers \<lparr>slot_base = 100, slot_size = 60000, start = 5, start_idx = 700\<rparr>
      (5 + 2 ^ 31) 200 = Some (sample_timers, w') \<and> TimeoutLinkAllTake sample_timers w' (start w' + 1) 200 = None"
proof -
  let ?w = "\<lparr>slot_base = 100, slot_size = 60000, start = 5, start_idx = 700\<rparr>"
  obtain w' where "TimeoutLinkAllTake sample_timers ?w (5 + 2 ^ 31) 200 = Some (sample_timers, w')"
     "start_idx w' = 700 - (2 ^ 32 - 2 ^ 31)"
     "\<forall>d. d + 1 < 2 ^ 31 \<longrightarrow> TimeoutLinkAllTake sample_timers w' (start w' + d) 200 = None"
    using TimeoutLinkAllTake_stall [of ?w "2 ^ 31" sample_timers 200] by auto
  moreover from this(3) have "TimeoutLinkAllTake sample_timers w' (start w' + 1) 200 = None" by (rule allE [of _ 1]) simp
  ultimately show ?thesis by (intro exI [of _ w']) simp
qed

end
