(* ===== verification/EventLoop.thy ===== *)
theory EventLoop
  imports Wheel
begin

unbundle bit_operations_syntax

section \<open>Event loop, poll and condition variables (libco/co_routine.cpp)\<close>

text \<open>
  One thread's \<open>co_epoll_t\<close>: the timing wheel, the active and the timeout list, the
  \<open>co_poll_t\<close> and \<open>co_poll_item_t\<close> objects that waiting coroutines have registered, and
  the condition variables. The system calls are parameters: what \<open>epoll_wait\<close> reports
  is a list of events, \<open>epoll_ctl\<close> answers by a function, the clock is an argument.
  Resuming a coroutine runs user code until it yields; it is the parameter \<open>resume\<close>.

  A function that calls \<open>CoYield\<close> in its middle is modelled by two definitions, the part
  before the switch and the part after it (\<open>CoPoll_begin\<close> and \<open>CoPoll_end\<close>,
  \<open>CoCondTimewait_begin\<close> and \<open>CoCondTimewait_end\<close>).
\<close>

subsection \<open>poll and epoll event masks\<close>

text \<open>The constants of Linux: the two families agree on the bits the code names.\<close>

definition PollEvent2Epoll :: "16 word \<Rightarrow> 32 word" where
  "PollEvent2Epoll events = (
     let e = 0;
         e = (if events AND 0x001 \<noteq> 0 then e OR 0x001 else e);
         e = (if events AND 0x004 \<noteq> 0 then e OR 0x004 else e);
         e = (if events AND 0x010 \<noteq> 0 then e OR 0x010 else e);
         e = (if events AND 0x008 \<noteq> 0 then e OR 0x008 else e);
         e = (if events AND 0x040 \<noteq> 0 then e OR 0x040 else e);
         e = (if events AND 0x100 \<noteq> 0 then e OR 0x100 else e) in e)"

definition EpollEvent2Poll :: "32 word \<Rightarrow> 16 word" where
  "EpollEvent2Poll events = (
     let e = 0;
         e = (if events AND 0x001 \<noteq> 0 then e OR 0x001 else e);
         e = (if events AND 0x004 \<noteq> 0 then e OR 0x004 else e);
         e = (if events AND 0x010 \<noteq> 0 then e OR 0x010 else e);
         e = (if events AND 0x008 \<noteq> 0 then e OR 0x008 else e);
         e = (if events AND 0x040 \<noteq> 0 then e OR 0x040 else e);
         e = (if events AND 0x100 \<noteq> 0 then e OR 0x100 else e) in e)"

subsection \<open>State\<close>

text \<open>
  \<open>pollfd\<close>, which the hooked calls use as well, is in the prelude.
  \<open>co_poll_t\<close> and \<open>co_poll_item_t\<close> derive from \<open>timeout_item_t\<close>: the base part of the
  object at an address is in the store of timers, the rest here. \<open>co_cond_item_t\<close> contains
  a \<open>timeout_item_t\<close>, at the address \<open>timeout\<close>.
\<close>

record co_poll =
  fds :: addr
  nfds :: nat
  poll_items :: addr
  all_event_detach :: int
  raise_cnt :: int

record co_poll_item =
  self :: addr
  poll :: addr
  event :: "32 word"

record cond_item = node +
  timeout :: addr

record co_epoll =
  timers :: "timeout_item lstore"
  timer :: timing_wheel
  timeout_list :: addr
  active_list :: addr
  polls :: "addr \<rightharpoonup> co_poll"
  pitems :: "addr \<rightharpoonup> co_poll_item"
  pollfds :: "addr \<rightharpoonup> pollfd"
  conds :: "cond_item lstore"
  interest :: "int \<rightharpoonup> addr \<times> 32 word"   \<comment> \<open>the kernel's interest list of \<open>epoll_fd\<close>\<close>

definition upd_timer :: "co_epoll \<Rightarrow> addr \<Rightarrow> (timeout_item \<Rightarrow> timeout_item) \<Rightarrow> co_epoll option" where
  "upd_timer st i f = do { t \<leftarrow> upd_item (timers st) i f; Some (st\<lparr>timers := t\<rparr>) }"

subsection \<open>The event loop\<close>

definition OnPollPrepare :: "co_epoll \<Rightarrow> addr \<Rightarrow> 32 word \<Rightarrow> addr \<Rightarrow> co_epoll option" where
  "OnPollPrepare st p ev active = do {
     pi \<leftarrow> pitems st p;
     pf \<leftarrow> pollfds st (self pi);
     let st = st\<lparr>pollfds := (pollfds st)(self pi \<mapsto> pf\<lparr>revents := EpollEvent2Poll ev\<rparr>)\<rparr>;
     c \<leftarrow> polls st (poll pi);
     let st = st\<lparr>polls := (polls st)(poll pi \<mapsto> c\<lparr>raise_cnt := raise_cnt c + 1\<rparr>)\<rparr>;
     if all_event_detach c = 0 then do {
       let st = st\<lparr>polls := (polls st)(poll pi \<mapsto>
                  c\<lparr>raise_cnt := raise_cnt c + 1, all_event_detach := 1\<rparr>)\<rparr>;
       t1 \<leftarrow> TimeoutRemoveFromLink (timers st) (poll pi);
       t2 \<leftarrow> TimeoutLinkTailAdd t1 active (poll pi);
       Some (st\<lparr>timers := t2\<rparr>) }
     else Some st }"

text \<open>The loop over the results of \<open>epoll_wait\<close>: pairs of \<open>data.ptr\<close> and \<open>events\<close>.\<close>

fun prepare_events :: "co_epoll \<Rightarrow> (addr \<times> 32 word) list \<Rightarrow> co_epoll option" where
  "prepare_events st [] = Some st"
| "prepare_events st ((p, ev) # es) = do {
     it \<leftarrow> items (timers st) p;
     st1 \<leftarrow> (case prepare_pfn it of
         Some OnPollPrepare_pfn \<Rightarrow> OnPollPrepare st p ev (active_list st)
       | None \<Rightarrow> do { t \<leftarrow> TimeoutLinkTailAdd (timers st) (active_list st) p;
                      Some (st\<lparr>timers := t\<rparr>) });
     prepare_events st1 es }"

text \<open>\<open>while (head) \<lbrace> head->is_timeout = true; head = head->next; \<rbrace>\<close>\<close>

partial_function (option) mark_timeouts :: "timeout_item lstore \<Rightarrow> ptr \<Rightarrow> timeout_item lstore option" where
  "mark_timeouts s p = (case p of
      None \<Rightarrow> Some s
    | Some a \<Rightarrow> do {
        s1 \<leftarrow> upd_item s a (\<lambda>n. n\<lparr>is_timeout := True\<rparr>);
        it \<leftarrow> items s1 a;
        mark_timeouts s1 (nxt it) })"

text \<open>The first half of an iteration, up to the append to the active list.\<close>

definition collect :: "co_epoll \<Rightarrow> (addr \<times> 32 word) list \<Rightarrow> nat \<Rightarrow> co_epoll option" where
  "collect st evs now = do {
     t0 \<leftarrow> upd_link (timers st) (timeout_list st) (\<lambda>k. \<lparr>head = None, tail = None\<rparr>);
     st1 \<leftarrow> prepare_events (st\<lparr>timers := t0\<rparr>) evs;
     (t1, w) \<leftarrow> TimeoutLinkAllTake (timers st1) (timer st1) now (timeout_list st1);
     k \<leftarrow> links t1 (timeout_list st1);
     t2 \<leftarrow> mark_timeouts t1 (head k);
     t3 \<leftarrow> TimeoutLinkAppend t2 (active_list st1) (timeout_list st1);
     Some (st1\<lparr>timers := t3, timer := w\<rparr>) }"

text \<open>
  One round of \<open>while (head)\<close> without the call of \<open>process_pfn\<close>: \<open>True\<close> when the item
  is to be processed, \<open>False\<close> when it went back to the wheel.
\<close>

definition dispatch_one :: "co_epoll \<Rightarrow> addr \<Rightarrow> nat \<Rightarrow> (bool \<times> co_epoll) option" where
  "dispatch_one st h now = do {
     t1 \<leftarrow> TimeoutLinkHeadPop (timers st) (active_list st);
     it \<leftarrow> items t1 h;
     if is_timeout it \<and> now < expire_time it then do {
       (ret, t2, w) \<leftarrow> TimerItemAdd t1 (timer st) h now;
       if ret = 0 then do {
         t3 \<leftarrow> upd_item t2 h (\<lambda>n. n\<lparr>is_timeout := False\<rparr>);
         Some (False, st\<lparr>timers := t3, timer := w\<rparr>) }
       else Some (True, st\<lparr>timers := t2, timer := w\<rparr>) }
     else Some (True, st\<lparr>timers := t1\<rparr>) }"

text \<open>\<open>head->process_pfn(head)\<close>; the only such function is \<open>OnProcessEvent\<close>.\<close>

definition OnProcessEvent :: "(ptr \<Rightarrow> co_epoll \<Rightarrow> co_epoll option) \<Rightarrow> co_epoll \<Rightarrow> addr \<Rightarrow> co_epoll option" where
  "OnProcessEvent resume st h = do { it \<leftarrow> items (timers st) h; resume (args it) st }"

definition process_item :: "(ptr \<Rightarrow> co_epoll \<Rightarrow> co_epoll option) \<Rightarrow> co_epoll \<Rightarrow> addr \<Rightarrow> co_epoll option" where
  "process_item resume st h = do {
     it \<leftarrow> items (timers st) h;
     case process_pfn it of
       None \<Rightarrow> Some st
     | Some OnProcessEvent_pfn \<Rightarrow> OnProcessEvent resume st h }"

text \<open>
  The loop over the active list. Beside the state it returns the items it processed, in
  order. Coroutines may put new items on the list while it runs, so it need not return.
\<close>

partial_function (option) dispatch ::
    "(ptr \<Rightarrow> co_epoll \<Rightarrow> co_epoll option) \<Rightarrow> co_epoll \<Rightarrow> nat \<Rightarrow> (addr list \<times> co_epoll) option" where
  "dispatch resume st now = do {
     k \<leftarrow> links (timers st) (active_list st);
     case head k of
       None \<Rightarrow> Some ([], st)
     | Some h \<Rightarrow> do {
         (run, st1) \<leftarrow> dispatch_one st h now;
         if run then do {
           st2 \<leftarrow> process_item resume st1 h;
           (hs, st3) \<leftarrow> dispatch resume st2 now;
           Some (h # hs, st3) }
         else dispatch resume st1 now } }"

definition CoEventloop_iteration ::
    "(ptr \<Rightarrow> co_epoll \<Rightarrow> co_epoll option) \<Rightarrow> co_epoll \<Rightarrow> (addr \<times> 32 word) list \<Rightarrow> nat \<Rightarrow>
     (addr list \<times> co_epoll) option" where
  "CoEventloop_iteration resume st evs now = do { st1 \<leftarrow> collect st evs now; dispatch resume st1 now }"

subsection \<open>CoPoll\<close>

datatype poll_result =
    CallPoll int       \<comment> \<open>\<open>return pollfunc(fds, nfds, timeout)\<close>\<close>
  | PollYield          \<comment> \<open>the coroutine waits\<close>
  | PollError          \<comment> \<open>\<open>errno = EINVAL\<close>, nothing to wait for\<close>

definition INT_MAX :: int where "INT_MAX = 2 ^ 31 - 1"

text \<open>
  The loop that registers the descriptors. \<open>ctl\<close> is the answer of \<open>epoll_ctl(ADD)\<close>: an
  errno or success. \<open>None\<close> in the first component: the single descriptor is refused with
  EPERM and there is a \<open>poll\<close> to fall back to.
\<close>

definition EPERM :: int where "EPERM = 1"

definition zero_item :: timeout_item where
  "zero_item = \<lparr>prev = None, nxt = None, owner = None, expire_time = 0, prepare_pfn = None,
     process_pfn = None, args = None, is_timeout = False\<rparr>"

fun register_fds :: "(int \<Rightarrow> int option) \<Rightarrow> bool \<Rightarrow> addr \<Rightarrow> addr \<Rightarrow> addr \<Rightarrow> nat \<Rightarrow>
    co_epoll \<Rightarrow> nat \<Rightarrow> pollfd list \<Rightarrow> bool \<times> co_epoll" where
  "register_fds ctl fallback p f q n st i [] = (True, st)"
| "register_fds ctl fallback p f q n st i (x # xs) = (
     let st = st\<lparr>
          timers := (timers st)\<lparr>items := (items (timers st))
             (q + i \<mapsto> zero_item\<lparr>prepare_pfn := Some OnPollPrepare_pfn\<rparr>)\<rparr>,
          pitems := (pitems st)(q + i \<mapsto> \<lparr>self = f + i, poll = p, event = 0\<rparr>)\<rparr> in
     if fd x > -1 then
       let ev = PollEvent2Epoll (pevents x);
           st = st\<lparr>pitems := (pitems st)(q + i \<mapsto> \<lparr>self = f + i, poll = p, event = ev\<rparr>)\<rparr> in
       case ctl (fd x) of
         None \<Rightarrow> register_fds ctl fallback p f q n
                   (st\<lparr>interest := (interest st)(fd x \<mapsto> (q + i, ev))\<rparr>) (i + 1) xs
       | Some e \<Rightarrow> if e = EPERM \<and> n = 1 \<and> fallback then (False, st)
                   else register_fds ctl fallback p f q n st (i + 1) xs
     else register_fds ctl fallback p f q n st (i + 1) xs)"

text \<open>Freeing the \<open>co_poll_t\<close> at \<open>p\<close> with its arrays at \<open>f\<close> and \<open>q\<close>.\<close>

definition free_poll :: "co_epoll \<Rightarrow> addr \<Rightarrow> addr \<Rightarrow> addr \<Rightarrow> nat \<Rightarrow> co_epoll" where
  "free_poll st p f q n = st\<lparr>
     timers := (timers st)\<lparr>items := (\<lambda>a. if a = p \<or> (q \<le> a \<and> a < q + n) then None else items (timers st) a)\<rparr>,
     pitems := (\<lambda>a. if q \<le> a \<and> a < q + n then None else pitems st a),
     pollfds := (\<lambda>a. if f \<le> a \<and> a < f + n then None else pollfds st a),
     polls := (polls st)(p := None)\<rparr>"

definition CoPoll_begin :: "(int \<Rightarrow> int option) \<Rightarrow> bool \<Rightarrow> ptr \<Rightarrow> addr \<Rightarrow> addr \<Rightarrow> addr \<Rightarrow>
    co_epoll \<Rightarrow> pollfd list \<Rightarrow> int \<Rightarrow> nat \<Rightarrow> (poll_result \<times> co_epoll) option" where
  "CoPoll_begin ctl fallback co p f q st xs ms now =
     (if ms = 0 then Some (CallPoll ms, st)
      else let ms = (if ms < 0 then INT_MAX else ms);
           n = length xs;
           st1 = st\<lparr>
             timers := (timers st)\<lparr>items := (items (timers st))
                (p \<mapsto> zero_item\<lparr>process_pfn := Some OnProcessEvent_pfn, args := co\<rparr>)\<rparr>,
             polls := (polls st)(p \<mapsto> \<lparr>fds = f, nfds = n, poll_items = q, all_event_detach = 0, raise_cnt = 0\<rparr>),
             pollfds := (\<lambda>a. if f \<le> a \<and> a < f + n then Some \<lparr>fd = 0, pevents = 0, revents = 0\<rparr> else pollfds st a)\<rparr> in
        (case register_fds ctl fallback p f q n st1 0 xs of
          (False, st2) \<Rightarrow> Some (CallPoll ms, free_poll st2 p f q n)
        | (True, st2) \<Rightarrow> do {
            st3 \<leftarrow> upd_timer st2 p (\<lambda>n. n\<lparr>expire_time := now + nat ms\<rparr>);
            (ret, t, w) \<leftarrow> TimerItemAdd (timers st3) (timer st3) p now;
            Some (if ret = 0 then PollYield else PollError, st3\<lparr>timers := t, timer := w\<rparr>) }))"

text \<open>What \<open>CoPoll\<close> does when the coroutine runs again.\<close>

fun deregister_fds :: "co_epoll \<Rightarrow> addr \<Rightarrow> pollfd list \<Rightarrow> (pollfd list \<times> co_epoll) option" where
  "deregister_fds st f [] = Some ([], st)"
| "deregister_fds st f (x # xs) = do {
     pf \<leftarrow> pollfds st f;
     let st = (if fd x > -1 then st\<lparr>interest := (interest st)(fd x := None)\<rparr> else st);
     (ys, st') \<leftarrow> deregister_fds st (f + 1) xs;
     Some (x\<lparr>revents := revents pf\<rparr> # ys, st') }"

definition CoPoll_end :: "co_epoll \<Rightarrow> addr \<Rightarrow> pollfd list \<Rightarrow> bool \<Rightarrow> (int \<times> pollfd list \<times> co_epoll) option" where
  "CoPoll_end st p xs yielded = do {
     c \<leftarrow> polls st p;
     let raised = (if yielded then raise_cnt c else - 1);
     t \<leftarrow> TimeoutRemoveFromLink (timers st) p;
     (ys, st') \<leftarrow> deregister_fds (st\<lparr>timers := t\<rparr>) (fds c) xs;
     Some (raised, ys, free_poll st' p (fds c) (poll_items c) (nfds c)) }"

subsection \<open>Condition variables\<close>

definition cond_wake :: "co_epoll \<Rightarrow> addr \<Rightarrow> addr \<Rightarrow> co_epoll option" where
  "cond_wake st c i = do {
     cs \<leftarrow> HeadPop (conds st) c;
     it \<leftarrow> items cs i;
     t1 \<leftarrow> RemoveFromLink (timers st) (timeout it);
     t2 \<leftarrow> TailAdd t1 (active_list st) (timeout it);
     Some (st\<lparr>conds := cs, timers := t2\<rparr>) }"

definition CoCondSignal :: "co_epoll \<Rightarrow> addr \<Rightarrow> co_epoll option" where
  "CoCondSignal st c = do {
     k \<leftarrow> links (conds st) c;
     case head k of None \<Rightarrow> Some st | Some i \<Rightarrow> cond_wake st c i }"

partial_function (option) CoCondBroadcast :: "co_epoll \<Rightarrow> addr \<Rightarrow> co_epoll option" where
  "CoCondBroadcast st c = do {
     k \<leftarrow> links (conds st) c;
     case head k of None \<Rightarrow> Some st
     | Some i \<Rightarrow> do { st1 \<leftarrow> cond_wake st c i; CoCondBroadcast st1 c } }"

text \<open>
  \<open>i\<close> is the address of the new \<open>co_cond_item_t\<close>, \<open>j\<close> that of its \<open>timeout\<close> field. The
  first component is the return code: 0 means that the coroutine waits.
\<close>

definition CoCondTimewait_begin :: "ptr \<Rightarrow> addr \<Rightarrow> addr \<Rightarrow> co_epoll \<Rightarrow> addr \<Rightarrow> int \<Rightarrow> nat \<Rightarrow>
    (nat \<times> co_epoll) option" where
  "CoCondTimewait_begin co i j st c ms now = do {
     let free = (\<lambda>s. s\<lparr>conds := (conds s)\<lparr>items := (items (conds s))(i := None)\<rparr>,
                       timers := (timers s)\<lparr>items := (items (timers s))(j := None)\<rparr>\<rparr>);
     let st = st\<lparr>
       conds := (conds st)\<lparr>items := (items (conds st))
          (i \<mapsto> \<lparr>prev = None, nxt = None, owner = None, timeout = j\<rparr>)\<rparr>,
       timers := (timers st)\<lparr>items := (items (timers st))
          (j \<mapsto> zero_item\<lparr>args := co, process_pfn := Some OnProcessEvent_pfn\<rparr>)\<rparr>\<rparr>;
     (ret, st) \<leftarrow> (if ms > 0 then do {
         st1 \<leftarrow> upd_timer st j (\<lambda>n. n\<lparr>expire_time := now + nat ms\<rparr>);
         (ret, t, w) \<leftarrow> TimerItemAdd (timers st1) (timer st1) j now;
         Some (ret, st1\<lparr>timers := t, timer := w\<rparr>) }
       else Some (0, st));
     if ret \<noteq> 0 then Some (ret, free st)
     else do {
       cs \<leftarrow> TailAdd (conds st) c i;
       Some (0, st\<lparr>conds := cs\<rparr>) } }"

definition CoCondTimewait_end :: "co_epoll \<Rightarrow> addr \<Rightarrow> addr \<Rightarrow> co_epoll option" where
  "CoCondTimewait_end st i j = do {
     cs \<leftarrow> RemoveFromLink (conds st) i;
     Some (st\<lparr>conds := cs\<lparr>items := (items cs)(i := None)\<rparr>,
              timers := (timers st)\<lparr>items := (items (timers st))(j := None)\<rparr>\<rparr>) }"

subsection \<open>Facts on the event masks\<close>

lemma or_flag_bit:
  fixes e :: "'a::len word" and x :: "'b::len word"
  assumes "c = 2 ^ k" and "d = 2 ^ k" and "k < LENGTH('a)"
  shows "bit (if e AND c \<noteq> 0 then x OR d else x) n \<longleftrightarrow>
         bit x n \<or> (n = k \<and> k < LENGTH('b) \<and> bit e k)"
proof -
  have "e AND c \<noteq> 0 \<longleftrightarrow> bit e k"
    using assms by (simp add: and_exp_eq_0_iff_not_bit)
  then show ?thesis using assms by (auto simp: bit_or_iff bit_exp_iff dest: bit_imp_le_length)
qed

lemmas or_flags =
  or_flag_bit [of 1 0 1] or_flag_bit [of 4 2 4] or_flag_bit [of 16 4 16]
  or_flag_bit [of 8 3 8] or_flag_bit [of 64 6 64] or_flag_bit [of 256 8 256]

lemma PollEvent2Epoll_bit:
  "bit (PollEvent2Epoll e) n \<longleftrightarrow> n \<in> {0, 2, 3, 4, 6, 8} \<and> bit e n"
  unfolding PollEvent2Epoll_def Let_def by (auto simp: or_flags)

lemma EpollEvent2Poll_bit:
  "bit (EpollEvent2Poll e) n \<longleftrightarrow> n \<in> {0, 2, 3, 4, 6, 8} \<and> bit e n"
  unfolding EpollEvent2Poll_def Let_def by (auto simp: or_flags)

lemma mask_bit: "bit (0x15D :: 'a::len word) n \<longleftrightarrow> n < LENGTH('a) \<and> n \<in> {0, 2, 3, 4, 6, 8}"
proof -
  have "(0x15D :: 'a word) = 2 ^ 0 OR 2 ^ 2 OR 2 ^ 3 OR 2 ^ 4 OR 2 ^ 6 OR 2 ^ 8"
    by simp
  then have "bit (0x15D :: 'a word) n = bit (2 ^ 0 OR 2 ^ 2 OR 2 ^ 3 OR 2 ^ 4 OR 2 ^ 6 OR 2 ^ 8 :: 'a word) n"
    by (rule arg_cong)
  also have "\<dots> \<longleftrightarrow> n < LENGTH('a) \<and> n \<in> {0, 2, 3, 4, 6, 8}"
    unfolding bit_or_iff bit_exp_iff possible_bit_word by blast
  finally show ?thesis .
qed

subsection \<open>Facts on the timer store\<close>

lemma payload_item:
  fixes s s' :: "timeout_item lstore"
  assumes "payload s' x = payload s x" and "items s x = Some a"
  shows "\<exists>b. items s' x = Some b \<and> expire_time b = expire_time a \<and> is_timeout b = is_timeout a \<and>
             process_pfn b = process_pfn a \<and> prepare_pfn b = prepare_pfn a \<and> args b = args a"
proof -
  have "map_option node.more (items s' x) = Some (node.more a)"
    using assms by (simp add: payload_def)
  then obtain b where "items s' x = Some b" "node.more b = node.more a" by auto
  then show ?thesis by (cases a; cases b) simp
qed

lemma dseg_ptrs:
  assumes "dseg its l p xs n"
    and "\<And>x a. its x = Some a \<Longrightarrow> \<exists>b. its' x = Some b \<and> prev b = prev a \<and> nxt b = nxt a \<and> owner b = owner a"
  shows "dseg its' l p xs n"
  using assms(1) by (induction xs arbitrary: p) (auto dest: assms(2))

text \<open>Updates that leave the three pointers of every item alone.\<close>

definition same_ptrs :: "'z node_scheme lstore \<Rightarrow> 'z node_scheme lstore \<Rightarrow> bool" where
  "same_ptrs s t \<longleftrightarrow> links t = links s \<and>
     (\<forall>x. rel_option (\<lambda>a b. prev b = prev a \<and> nxt b = nxt a \<and> owner b = owner a) (items s x) (items t x))"

lemma absl_ptrs:
  assumes a: "absl s L" and t: "same_ptrs s t"
  shows "absl t L"
proof -
  have rel: "rel_option (\<lambda>a b. prev b = prev a \<and> nxt b = nxt a \<and> owner b = owner a) (items s x) (items t x)" for x
    using t by (simp add: same_ptrs_def)
  have fw: "\<exists>b. items t x = Some b \<and> prev b = prev a \<and> nxt b = nxt a \<and> owner b = owner a"
    if "items s x = Some a" for x a
    using rel [of x] that by (cases "items t x") simp_all
  have bw: "\<exists>a. items s x = Some a \<and> owner b = owner a" if "items t x = Some b" for x b
    using rel [of x] that by (cases "items s x") simp_all
  show ?thesis
    unfolding absl_def
  proof (intro conjI allI impI)
    show "dom (links t) = dom L" using a t by (simp add: absl_dom same_ptrs_def)
  next
    fix l xs assume L: "L l = Some xs"
    show "links t l = Some \<lparr>head = hd_opt xs, tail = last_opt xs\<rparr>"
      using absl_links [OF a L] t by (simp add: same_ptrs_def)
    show "distinct xs" using absl_distinct [OF a L] .
    show "dseg (items t) l None xs None" using dseg_ptrs [OF absl_dseg [OF a L] fw] .
  next
    fix i it l assume "items t i = Some it" "owner it = Some l"
    then show "\<exists>xs. L l = Some xs \<and> i \<in> set xs" using bw absl_owner [OF a] by metis
  qed
qed

lemma wheel_ok_sub:
  assumes ok: "wheel_ok s w L" and e: "\<And>i. on_wheel w L' i \<Longrightarrow> expire s' i = expire s i"
    and sub: "\<And>k. k \<in> slot_set w \<Longrightarrow> \<exists>ys. L' k = Some ys \<and> set ys \<subseteq> set (the (L k))"
  shows "wheel_ok s' w L'"
proof -
  note W = wheel_okD [OF ok]
  have L: "\<exists>xs. L k = Some xs \<and> set ys \<subseteq> set xs" if "k \<in> slot_set w" "L' k = Some ys" for k ys
    using sub [OF that(1)] that W(4) by fastforce
  have ow: "on_wheel w L i" if "on_wheel w L' i" for i
    using that L unfolding on_wheel_def by blast
  have "start w + d \<le> expire s' i"
    if d: "int d < slot_size w" "L' (slot_at w d) = Some ys" "i \<in> set ys" for d ys i
  proof -
    have k: "slot_at w d \<in> slot_set w" using slot_at_in [OF W(1)] .
    then obtain xs where "L (slot_at w d) = Some xs" "i \<in> set xs" using L d by blast
    then have "start w + d \<le> expire s i" using ok d by (auto simp: wheel_ok_def)
    moreover have "on_wheel w L' i" using k d by (auto simp: on_wheel_def)
    ultimately show ?thesis using e by simp
  qed
  moreover have "slot_set w \<subseteq> dom L'" using sub by blast
  ultimately show ?thesis using ok ow by (auto simp: wheel_ok_def)
qed

subsection \<open>The invariant of the lists\<close>

definition lists_ok :: "timeout_item lstore \<Rightarrow> timing_wheel \<Rightarrow> addr \<Rightarrow> addr \<Rightarrow>
    (addr \<rightharpoonup> addr list) \<Rightarrow> bool" where
  "lists_ok t w a l L \<longleftrightarrow> absl t L \<and> wheel_ok t w L \<and> a \<in> dom L \<and> L l = Some [] \<and>
     a \<notin> slot_set w \<and> l \<notin> slot_set w \<and> a \<noteq> l \<and> start_idx w \<le> int (start w) \<and>
     (\<forall>i. expire t i < 2 ^ 64)"

lemma lists_okD:
  assumes "lists_ok t w a l L"
  shows "absl t L" "wheel_ok t w L" "a \<in> dom L" "L l = Some []" "a \<notin> slot_set w" "l \<notin> slot_set w"
    "a \<noteq> l" "start_idx w \<le> int (start w)" "expire t i < 2 ^ 64"
  using assms by (auto simp: lists_ok_def)

lemma move_spec_simps:
  "L k = Some xs \<Longrightarrow> move_spec L l i k = Some (removeAll i xs @ (if k = l then [i] else []))"
  "L k = None \<Longrightarrow> move_spec L l i k = None"
  by (simp_all add: move_spec_def)

lemma lists_move:
  assumes ok: "lists_ok t w a l L" and i: "items t i \<noteq> None"
  shows "\<exists>t'. do { t1 \<leftarrow> RemoveFromLink t i; TailAdd t1 a i } = Some t' \<and>
     lists_ok t' w a l (move_spec L a i) \<and> payload t' = payload t"
proof -
  note D = lists_okD [OF ok]
  obtain xs where xs: "L a = Some xs" using D(3) by auto
  have "payload t i \<noteq> None" using i by (simp add: payload_def)
  from lk.move [OF D(1) xs this] obtain t' where
    t': "do { t1 \<leftarrow> RemoveFromLink t i; TailAdd t1 a i } = Some t'"
      "absl t' (move_spec L a i)" "payload t' = payload t" by blast
  have e: "expire t' = expire t" using expire_payload [OF t'(3)] .
  have "wheel_ok t' w (move_spec L a i)"
  proof (rule wheel_ok_sub [OF D(2)])
    fix k assume "k \<in> slot_set w"
    with D(5) wheel_okD(4) [OF D(2)] obtain ys where "L k = Some ys" "k \<noteq> a" by blast
    then show "\<exists>ys. move_spec L a i k = Some ys \<and> set ys \<subseteq> set (the (L k))"
      by (auto simp: move_spec_simps)
  qed (simp add: e)
  with t' D e xs have "lists_ok t' w a l (move_spec L a i)"
    unfolding lists_ok_def by (auto simp: move_spec_simps)
  with t' show ?thesis by blast
qed

lemma lists_ok_ptrs:
  assumes ok: "lists_ok t w a l L" and s: "same_ptrs t t'"
    and e: "\<And>i. on_wheel w L i \<Longrightarrow> expire t' i = expire t i" and b: "\<And>i. expire t' i < 2 ^ 64"
  shows "lists_ok t' w a l L"
proof -
  note D = lists_okD [OF ok]
  have "wheel_ok t' w L"
    by (rule wheel_ok_sub [OF D(2) e]) (use wheel_okD(4) [OF D(2)] in auto)
  with D b show ?thesis using absl_ptrs [OF D(1) s] by (simp add: lists_ok_def)
qed

text \<open>Taking the head of the active list.\<close>

lemma lists_pop:
  assumes ok: "lists_ok t w a l L" and h: "L a = Some (h # xs)"
  shows "\<exists>t'. HeadPop t a = Some t' \<and> lists_ok t' w a l (L(a \<mapsto> xs)) \<and> detached t' h \<and> payload t' = payload t"
proof -
  note D = lists_okD [OF ok]
  from lk.head_pop [OF D(1) h] obtain t' where
    t': "HeadPop t a = Some t'" "absl t' (L(a \<mapsto> xs))" "payload t' = payload t" by auto
  have e: "expire t' = expire t" using expire_payload [OF t'(3)] .
  have "wheel_ok t' w (L(a \<mapsto> xs))"
    by (rule wheel_ok_sub [OF D(2)]) (use e wheel_okD(4) [OF D(2)] D(5) in auto)
  with t' D e have "lists_ok t' w a l (L(a \<mapsto> xs))" by (auto simp: lists_ok_def)
  moreover have "detached t' h"
  proof -
    have "h \<notin> set xs" using absl_distinct [OF D(1) h] by simp
    moreover have "h \<notin> set ys" if "L k = Some ys" "k \<noteq> a" for k ys
      using absl_disjoint [OF D(1) h that(1)] that(2) by auto
    moreover have "payload t h \<noteq> None" using lk.stored [OF D(1) h] by simp
    ultimately show ?thesis using lk.idle_iff [OF t'(2)] t'(3) by auto
  qed
  ultimately show ?thesis using t' by blast
qed

text \<open>Filing an item that is on no list.\<close>

lemma lists_file:
  assumes ok: "lists_ok t w a l L" and d: "detached t i" and w: "0 < start w" "start w \<le> now"
    and e: "now \<le> expire t i" and now: "now < 2 ^ 62"
  shows "\<exists>t' k ys. TimerItemAdd t w i now = Some (0, t', w) \<and> k \<in> slot_set w \<and> L k = Some ys \<and>
     lists_ok t' w a l (L(k \<mapsto> ys @ [i])) \<and> payload t' = payload t"
proof -
  note D = lists_okD [OF ok]
  note W = wheel_okD [OF D(2)]
  have bnd: "start_idx w + slot_size w < 2 ^ 64"
  proof -
    have "start w < 2 ^ 62" using w(2) now by linarith
    then have "int (start w) < 2 ^ 62" by (metis of_nat_less_iff of_nat_numeral of_nat_power)
    with D(8) W(2) show ?thesis by simp
  qed
  have so: "set_origin w now = w" using w(1) by simp
  obtain t' j ys where t': "TimerItemAdd t w i now = Some (0, t', w)" "L (slot_at w j) = Some ys"
      "absl t' (L(slot_at w j \<mapsto> ys @ [i]))" "wheel_ok t' w (L(slot_at w j \<mapsto> ys @ [i]))"
      "payload t' = payload t"
    using TimerItemAdd_ok [OF D(2) D(1) d w(2) e _ bnd D(9)] w so by auto
  have k: "slot_at w j \<in> slot_set w" using slot_at_in [OF W(1)] .
  have "expire t' = expire t" using expire_payload [OF t'(5)] .
  with t' D k have "lists_ok t' w a l (L(slot_at w j \<mapsto> ys @ [i]))"
    by (auto simp: lists_ok_def)
  with t' k show ?thesis by blast
qed

subsection \<open>The invariant of the loop\<close>

text \<open>
  Every pointer the loop follows leads somewhere: from a poll item to its result field and
  its \<open>co_poll_t\<close>, from the kernel's interest list to a poll item, from a \<open>co_cond_item_t\<close>
  to its timer.
\<close>

definition refs_ok :: "co_epoll \<Rightarrow> bool" where
  "refs_ok st \<longleftrightarrow>
     (\<forall>p. polls st p \<noteq> None \<longrightarrow> items (timers st) p \<noteq> None) \<and>
     (\<forall>q pi. pitems st q = Some pi \<longrightarrow> pollfds st (self pi) \<noteq> None \<and> polls st (poll pi) \<noteq> None \<and>
        (\<exists>it. items (timers st) q = Some it \<and> prepare_pfn it = Some OnPollPrepare_pfn)) \<and>
     (\<forall>x q ev. interest st x = Some (q, ev) \<longrightarrow> pitems st q \<noteq> None) \<and>
     (\<forall>i it. items (conds st) i = Some it \<longrightarrow> items (timers st) (timeout it) \<noteq> None)"

lemma refs_okD:
  assumes "refs_ok st"
  shows "polls st p = Some c \<Longrightarrow> \<exists>it. items (timers st) p = Some it"
    and "pitems st q = Some pi \<Longrightarrow> \<exists>pf. pollfds st (self pi) = Some pf"
    and "pitems st q = Some pi \<Longrightarrow> \<exists>c. polls st (poll pi) = Some c"
    and "pitems st q = Some pi \<Longrightarrow> \<exists>it. items (timers st) q = Some it \<and> prepare_pfn it = Some OnPollPrepare_pfn"
    and "interest st x = Some (q, ev) \<Longrightarrow> \<exists>pi. pitems st q = Some pi"
    and "items (conds st) i = Some it \<Longrightarrow> \<exists>n. items (timers st) (timeout it) = Some n"
  using assms unfolding refs_ok_def by blast+

definition loop_ok :: "co_epoll \<Rightarrow> (addr \<rightharpoonup> addr list) \<Rightarrow> bool" where
  "loop_ok st L \<longleftrightarrow> lists_ok (timers st) (timer st) (active_list st) (timeout_list st) L \<and>
     refs_ok st \<and> (\<exists>C. absl (conds st) C)"

lemma payload_None: "payload s' x = payload s x \<Longrightarrow> items s' x = None \<longleftrightarrow> items s x = None"
  by (simp add: payload_def map_option_case split: option.splits)

lemma payload_prepare:
  fixes s s' :: "timeout_item lstore"
  assumes "payload s' = payload s"
  shows "rel_option (\<lambda>a b. prepare_pfn b = prepare_pfn a) (items s x) (items s' x)"
proof (cases "items s x")
  case None
  then show ?thesis using payload_None [OF fun_cong [OF assms, of x]] by simp
next
  case (Some a)
  then show ?thesis using payload_item [OF fun_cong [OF assms, of x] Some] by auto
qed

lemma cond_payload:
  fixes s s' :: "cond_item lstore"
  assumes "payload s' x = payload s x" and "items s x = Some a"
  shows "\<exists>b. items s' x = Some b \<and> timeout b = timeout a"
proof -
  have "map_option node.more (items s' x) = Some (node.more a)"
    using assms by (simp add: payload_def)
  then obtain b where "items s' x = Some b" "node.more b = node.more a" by auto
  then show ?thesis by (cases a; cases b) simp
qed

lemma refs_ok_timers:
  assumes r: "refs_ok st"
    and p: "\<And>x. rel_option (\<lambda>a b. prepare_pfn b = prepare_pfn a) (items (timers st) x) (items (timers st') x)"
    and same: "pitems st' = pitems st" "interest st' = interest st"
      "payload (conds st') = payload (conds st)"
      "dom (polls st') = dom (polls st)" "dom (pollfds st') = dom (pollfds st)"
  shows "refs_ok st'"
proof -
  have n: "items (timers st') x = None \<longleftrightarrow> items (timers st) x = None" for x
    using p [of x] by (auto elim: option.rel_cases)
  have q: "\<exists>b. items (timers st') x = Some b \<and> prepare_pfn b = prepare_pfn a"
    if "items (timers st) x = Some a" for x a
    using p [of x] that by (auto elim: option.rel_cases)
  have po: "polls st' x = None \<longleftrightarrow> polls st x = None" "pollfds st' x = None \<longleftrightarrow> pollfds st x = None" for x
    using same(4,5) by (metis domIff)+
  have cd: "\<exists>a. items (conds st) x = Some a \<and> timeout a = timeout b" if "items (conds st') x = Some b" for x b
    using cond_payload [OF fun_cong [OF same(3), of x, symmetric] that] by blast
  show ?thesis
    unfolding refs_ok_def n po same(1,2)
  proof (intro conjI allI impI)
    fix y pi assume pi: "pitems st y = Some pi"
    show "pollfds st (self pi) \<noteq> None" "polls st (poll pi) \<noteq> None"
      using refs_okD(2,3) [OF r pi] by auto
    show "\<exists>it. items (timers st') y = Some it \<and> prepare_pfn it = Some OnPollPrepare_pfn"
      using refs_okD(4) [OF r pi] q by metis
  next
    fix i b assume "items (conds st') i = Some b"
    then show "items (timers st) (timeout b) \<noteq> None" using cd refs_okD(6) [OF r] by fastforce
  qed (use r [unfolded refs_ok_def] in blast)+
qed

subsection \<open>Events\<close>

lemma OnPollPrepare_ok:
  assumes ok: "loop_ok st L" and pi: "pitems st q = Some pi" and c: "polls st (poll pi) = Some c"
  shows "\<exists>st' pf. OnPollPrepare st q ev (active_list st) = Some st' \<and>
     loop_ok st' (if all_event_detach c = 0 then move_spec L (active_list st) (poll pi) else L) \<and>
     payload (timers st') = payload (timers st) \<and>
     polls st' = (polls st)(poll pi \<mapsto> c\<lparr>raise_cnt := raise_cnt c + 1,
        all_event_detach := (if all_event_detach c = 0 then 1 else all_event_detach c)\<rparr>) \<and>
     pollfds st (self pi) = Some pf \<and>
     pollfds st' = (pollfds st)(self pi \<mapsto> pf\<lparr>revents := EpollEvent2Poll ev\<rparr>) \<and>
     timer st' = timer st \<and> active_list st' = active_list st \<and> timeout_list st' = timeout_list st \<and>
     pitems st' = pitems st \<and> interest st' = interest st \<and> conds st' = conds st"
proof -
  have r: "refs_ok st" using ok by (simp add: loop_ok_def)
  obtain pf where pf: "pollfds st (self pi) = Some pf" using refs_okD(2) [OF r pi] by blast
  have l: "lists_ok (timers st) (timer st) (active_list st) (timeout_list st) L"
    using ok by (simp add: loop_ok_def)
  let ?c = "c\<lparr>raise_cnt := raise_cnt c + 1\<rparr>"
  show ?thesis
  proof (cases "all_event_detach c = 0")
    case False
    let ?st = "st\<lparr>pollfds := (pollfds st)(self pi \<mapsto> pf\<lparr>revents := EpollEvent2Poll ev\<rparr>),
                  polls := (polls st)(poll pi \<mapsto> ?c)\<rparr>"
    have "refs_ok ?st"
      by (rule refs_ok_timers [OF r]) (use c pf in \<open>auto intro!: option.rel_refl\<close>)
    then have "loop_ok ?st L" using ok by (simp add: loop_ok_def)
    moreover have "OnPollPrepare st q ev (active_list st) = Some ?st"
      using pi pf c False by (simp add: OnPollPrepare_def)
    ultimately show ?thesis using False pf by simp
  next
    case True
    obtain n where n: "items (timers st) (poll pi) = Some n" using refs_okD(1) [OF r c] by blast
    then obtain t' where t': "do { t1 \<leftarrow> RemoveFromLink (timers st) (poll pi); TailAdd t1 (active_list st) (poll pi) } = Some t'"
        "lists_ok t' (timer st) (active_list st) (timeout_list st) (move_spec L (active_list st) (poll pi))"
        "payload t' = payload (timers st)"
      using lists_move [OF l, of "poll pi"] by auto
    let ?st = "st\<lparr>pollfds := (pollfds st)(self pi \<mapsto> pf\<lparr>revents := EpollEvent2Poll ev\<rparr>),
                  polls := (polls st)(poll pi \<mapsto> ?c\<lparr>all_event_detach := 1\<rparr>), timers := t'\<rparr>"
    have "refs_ok ?st"
      by (rule refs_ok_timers [OF r]) (use c pf payload_prepare [OF t'(3)] in auto)
    then have "loop_ok ?st (move_spec L (active_list st) (poll pi))"
      using ok t'(2) by (simp add: loop_ok_def)
    moreover have "OnPollPrepare st q ev (active_list st) = Some ?st"
      using pi pf c True t'(1)
      by (auto simp: OnPollPrepare_def TimeoutRemoveFromLink_def TimeoutLinkTailAdd_def)
    ultimately show ?thesis using True pf t'(3) by simp
  qed
qed

text \<open>The polls that a batch of events wakes: those not detached by an earlier event.\<close>

definition woken :: "co_epoll \<Rightarrow> (addr \<times> 32 word) list \<Rightarrow> addr set" where
  "woken st evs = {p. \<exists>q ev pi c. (q, ev) \<in> set evs \<and> pitems st q = Some pi \<and> poll pi = p \<and>
     polls st p = Some c \<and> all_event_detach c = 0}"

lemma prepare_events_ok:
  assumes "loop_ok st L" and "\<forall>(q, ev) \<in> set evs. pitems st q \<noteq> None"
  shows "\<exists>st' L'. prepare_events st evs = Some st' \<and> loop_ok st' L' \<and>
     payload (timers st') = payload (timers st) \<and>
     timer st' = timer st \<and> active_list st' = active_list st \<and> timeout_list st' = timeout_list st \<and>
     set (the (L' (active_list st))) = set (the (L (active_list st))) \<union> woken st evs \<and>
     (\<forall>k. k \<noteq> active_list st \<longrightarrow> L' k = map_option (filter (\<lambda>i. i \<notin> woken st evs)) (L k))"
  using assms
proof (induction evs arbitrary: st L)
  case Nil
  have "woken st [] = {}" by (simp add: woken_def)
  then show ?case using Nil.prems(1) by (intro exI [of _ st] exI [of _ L]) (simp add: option.map_ident)
next
  case (Cons e es)
  obtain q ev where e: "e = (q, ev)" by force
  obtain pi where pi: "pitems st q = Some pi" using Cons.prems(2) e by auto
  have r: "refs_ok st" using Cons.prems(1) by (simp add: loop_ok_def)
  obtain it where it: "items (timers st) q = Some it" "prepare_pfn it = Some OnPollPrepare_pfn"
    using refs_okD(4) [OF r pi] by blast
  obtain c where c: "polls st (poll pi) = Some c" using refs_okD(3) [OF r pi] by blast
  define L1 where "L1 = (if all_event_detach c = 0 then move_spec L (active_list st) (poll pi) else L)"
  obtain st1 where st1: "OnPollPrepare st q ev (active_list st) = Some st1" "loop_ok st1 L1"
      "payload (timers st1) = payload (timers st)"
      "polls st1 = (polls st)(poll pi \<mapsto> c\<lparr>raise_cnt := raise_cnt c + 1,
        all_event_detach := (if all_event_detach c = 0 then 1 else all_event_detach c)\<rparr>)"
      "timer st1 = timer st" "active_list st1 = active_list st" "timeout_list st1 = timeout_list st"
      "pitems st1 = pitems st"
    using OnPollPrepare_ok [OF Cons.prems(1) pi c, of ev] unfolding L1_def by metis
  have w: "woken st (e # es) = woken st1 es \<union> (if all_event_detach c = 0 then {poll pi} else {})"
    using pi c st1(4,8) unfolding woken_def e by (auto split: if_splits) 
  have "\<forall>(q, ev) \<in> set es. pitems st1 q \<noteq> None" using Cons.prems(2) st1(8) by simp
  from Cons.IH [OF st1(2) this] obtain st' L' where
    R: "prepare_events st1 es = Some st'" "loop_ok st' L'" "payload (timers st') = payload (timers st1)"
     "timer st' = timer st1" "active_list st' = active_list st1" "timeout_list st' = timeout_list st1"
     "set (the (L' (active_list st1))) = set (the (L1 (active_list st1))) \<union> woken st1 es"
     "\<And>k. k \<noteq> active_list st1 \<Longrightarrow> L' k = map_option (filter (\<lambda>i. i \<notin> woken st1 es)) (L1 k)"
    by blast
  obtain xs where xs: "L (active_list st) = Some xs"
    using Cons.prems(1) by (auto simp: loop_ok_def lists_ok_def)
  have a: "set (the (L1 (active_list st))) = set xs \<union> (if all_event_detach c = 0 then {poll pi} else {})"
    using xs by (auto simp: L1_def move_spec_simps)
  have b: "L' k = map_option (filter (\<lambda>i. i \<notin> woken st (e # es))) (L k)" if "k \<noteq> active_list st" for k
    using R(8) [of k] that st1(6) w
    by (cases "L k") (auto simp: L1_def move_spec_simps removeAll_filter_not_eq intro!: filter_cong)
  have "prepare_events st (e # es) = Some st'"
    using it st1(1) R(1) by (simp add: e)
  then show ?case using R a b xs st1 w by auto
qed

subsection \<open>Marking the timed-out items\<close>

lemma mark_timeouts_segment:
  assumes "dseg (items s) l p ys None" and "distinct ys"
  shows "mark_timeouts s (hd_opt ys) = Some (s\<lparr>items := (\<lambda>x. if x \<in> set ys
      then map_option (\<lambda>n. n\<lparr>is_timeout := True\<rparr>) (items s x) else items s x)\<rparr>)"
  using assms
proof (induction ys arbitrary: p s)
  case Nil
  then show ?case by (simp add: mark_timeouts.simps)
next
  case (Cons y ys)
  obtain it where it: "items s y = Some it" "nxt it = hd_opt ys" using Cons.prems by auto
  let ?s = "s\<lparr>items := (items s)(y \<mapsto> it\<lparr>is_timeout := True\<rparr>)\<rparr>"
  have "dseg (items ?s) l (Some y) ys None" using Cons.prems by simp
  from Cons.IH [OF this] Cons.prems it show ?case
    by (subst mark_timeouts.simps) (auto simp: ub_simps fun_eq_iff)
qed

lemma mark_timeouts_ptrs:
  "same_ptrs s (s\<lparr>items := (\<lambda>x. if x \<in> A
      then map_option (\<lambda>n. n\<lparr>is_timeout := True\<rparr>) (items s x) else items s x)\<rparr>)"
  unfolding same_ptrs_def by (auto simp: option.rel_map intro!: option.rel_refl_strong)


lemma TimeoutLinkAllTake_idx:
  assumes "TimeoutLinkAllTake s w now l = Some (s', w')" and "start w \<le> now"
    and "now - start w + 1 < 2 ^ 31" and "start_idx w \<le> int (start w)" and "0 < now"
  shows "start_idx w' \<le> int (start w')"
proof -
  define w1 where "w1 = set_origin w now"
  have w1: "start w1 \<le> now" "now - start w1 + 1 < 2 ^ 31" "start_idx w1 \<le> int (start w1)"
    using assms by (auto simp: w1_def set_origin_def)
  define z where "z = to_int32 (to_u64 (int now - int (start w1) + 1))"
  have "int (now - start w1 + 1) < 2 ^ 31" using w1(2) by (metis of_nat_less_iff of_nat_numeral of_nat_power)
  then have z: "z = int now - int (start w1) + 1"
    using w1(1) by (simp add: z_def)
  have "start w' = now \<and> start_idx w' = start_idx w1 + ((if z > slot_size w1 then slot_size w1 else z) - 1)"
    using assms(1) w1(1)
    unfolding TimeoutLinkAllTake_def Let_def w1_def [symmetric] z_def [symmetric] by auto
  then show ?thesis using z w1(3) by (auto split: if_splits)
qed

text \<open>The state after the first half of an iteration.\<close>

lemma collect_ok:
  assumes ok: "loop_ok st L" and ev: "\<forall>(q, ev) \<in> set evs. pitems st q \<noteq> None"
    and xs: "L (active_list st) = Some xs"
    and t: "start (timer st) \<le> now" "0 < now" "now - start (timer st) + 1 < 2 ^ 31"
  shows "\<exists>st' L' zs ts. collect st evs now = Some st' \<and> loop_ok st' L' \<and>
     active_list st' = active_list st \<and> start (timer st') = now \<and>
     L' (active_list st) = Some (zs @ ts) \<and> set zs = set xs \<union> woken st evs \<and>
     (\<forall>i. on_wheel (timer st) L i \<and> i \<notin> woken st evs \<longleftrightarrow> i \<in> set ts \<or> on_wheel (timer st') L' i) \<and>
     (\<forall>i. on_wheel (timer st') L' i \<longrightarrow> now < expire (timers st) i) \<and>
     (\<forall>i it. items (timers st) i = Some it \<longrightarrow> (\<exists>it'. items (timers st') i = Some it' \<and>
        expire_time it' = expire_time it \<and> is_timeout it' = (i \<in> set ts \<or> is_timeout it)))"
proof -
  let ?a = "active_list st" and ?l = "timeout_list st"
  have l: "lists_ok (timers st) (timer st) ?a ?l L" using ok by (simp add: loop_ok_def)
  note D = lists_okD [OF l]
  have kl: "links (timers st) ?l = Some \<lparr>head = None, tail = None\<rparr>" using absl_links [OF D(1,4)] by simp
  then have t0: "upd_link (timers st) ?l (\<lambda>k. \<lparr>head = None, tail = None\<rparr>) = Some (timers st)"
    by (simp add: fun_upd_idem)
  obtain st1 L1 where P: "prepare_events st evs = Some st1" "loop_ok st1 L1"
     "payload (timers st1) = payload (timers st)" "timer st1 = timer st"
     "active_list st1 = ?a" "timeout_list st1 = ?l"
     "set (the (L1 ?a)) = set (the (L ?a)) \<union> woken st evs"
     "\<And>k. k \<noteq> ?a \<Longrightarrow> L1 k = map_option (filter (\<lambda>i. i \<notin> woken st evs)) (L k)"
    using prepare_events_ok [OF ok ev] by blast
  have l1: "lists_ok (timers st1) (timer st) ?a ?l L1" and r1: "refs_ok st1"
    using P(2,4-6) by (simp_all add: loop_ok_def)
  note D1 = lists_okD [OF l1]
  obtain zs where zs: "L1 ?a = Some zs" "set zs = set xs \<union> woken st evs"
    using D1(3) P(7) xs by auto
  obtain t1 w L2 ts where A: "TimeoutLinkAllTake (timers st1) (timer st) now ?l = Some (t1, w)"
     "absl t1 L2" "wheel_ok t1 w L2" "payload t1 = payload (timers st1)" "start w = now"
     "slot_set w = slot_set (timer st)" "L2 ?l = Some ts"
     "\<And>i. on_wheel (timer st) L1 i \<longleftrightarrow> i \<in> set ts \<or> on_wheel w L2 i"
     "\<And>i. on_wheel w L2 i \<Longrightarrow> now < expire (timers st1) i"
     "\<And>k. k \<noteq> ?l \<Longrightarrow> k \<notin> slot_set (timer st) \<Longrightarrow> L2 k = L1 k"
    using TimeoutLinkAllTake_ok [OF D1(2,1,4,6) t] by auto
  have idx: "start_idx w \<le> int (start w)"
    using TimeoutLinkAllTake_idx [OF A(1) t(1,3) D(8) t(2)] .
  have La: "L2 ?a = Some zs" using A(10) D1(5,7) zs by simp
  define f where "f = (\<lambda>x. if x \<in> set ts then map_option (\<lambda>n. n\<lparr>is_timeout := True\<rparr>) (items t1 x) else items t1 x)"
  have mk: "mark_timeouts t1 (hd_opt ts) = Some (t1\<lparr>items := f\<rparr>)"
    using mark_timeouts_segment [OF absl_dseg [OF A(2,7)] absl_distinct [OF A(2,7)]] by (simp add: f_def)
  have ab2: "absl (t1\<lparr>items := f\<rparr>) L2"
    using absl_ptrs [OF A(2) mark_timeouts_ptrs] by (simp add: f_def)
  have "expire (t1\<lparr>items := f\<rparr>) = expire t1"
    by (auto simp: expire_def f_def fun_eq_iff split: option.splits)
  then have ef: "expire (t1\<lparr>items := f\<rparr>) = expire (timers st)"
    using expire_payload [OF A(4)] expire_payload [OF P(3)] by simp
  obtain t3 where T: "LinkAppend (t1\<lparr>items := f\<rparr>) ?a ?l = Some t3" "absl t3 (L2(?a \<mapsto> zs @ ts, ?l \<mapsto> []))"
      "payload t3 = payload (t1\<lparr>items := f\<rparr>)"
    using lk.append_all [OF ab2 La A(7) D(7)] by blast
  let ?L = "L2(?a \<mapsto> zs @ ts, ?l \<mapsto> [])"
  let ?st = "st1\<lparr>timers := t3, timer := w\<rparr>"
  have co: "collect st evs now = Some ?st"
    using t0 P(1,4,5,6) A(1) absl_links [OF A(2,7)] mk T(1)
    by (auto simp: collect_def TimeoutLinkAppend_def)
  have e3: "expire t3 = expire (timers st)" using expire_payload [OF T(3)] ef by simp
  have sl: "?L k = L2 k" if "k \<in> slot_set w" for k using that A(6) D(5,6) by auto
  have ow: "on_wheel w ?L = on_wheel w L2" using sl unfolding on_wheel_def by fastforce
  have "wheel_ok t3 w ?L"
    by (rule wheel_ok_sub [OF A(3)])
      (use e3 sl wheel_okD(4) [OF A(3)] expire_payload [OF A(4)] expire_payload [OF P(3)] in auto)
  then have lo: "lists_ok t3 w ?a ?l ?L"
    using T(2) D idx e3 A(6) by (auto simp: lists_ok_def)
  have rel: "rel_option (\<lambda>a b. prepare_pfn b = prepare_pfn a) (items (timers st1) x) (items t3 x)" for x
  proof -
    have "rel_option (\<lambda>a b. prepare_pfn b = prepare_pfn a) (items t1 x) (f x)"
      by (cases "items t1 x") (auto simp: f_def)
    with payload_prepare [OF A(4), of x] payload_prepare [OF T(3), of x]
    show ?thesis by (auto elim!: option.rel_cases)
  qed
  have "refs_ok ?st" by (rule refs_ok_timers [OF r1]) (use rel in auto)
  then have "loop_ok ?st ?L" using lo P(2,5,6) by (simp add: loop_ok_def)
  moreover have "on_wheel (timer st) L i \<and> i \<notin> woken st evs \<longleftrightarrow> i \<in> set ts \<or> on_wheel w ?L i" for i
  proof -
    have "on_wheel (timer st) L1 i \<longleftrightarrow> on_wheel (timer st) L i \<and> i \<notin> woken st evs"
    proof -
      have "(\<exists>ys. L1 k = Some ys \<and> i \<in> set ys) \<longleftrightarrow> (\<exists>ys. L k = Some ys \<and> i \<in> set ys) \<and> i \<notin> woken st evs"
        if "k \<in> slot_set (timer st)" for k
      proof -
        have "k \<noteq> ?a" using that D(5) by auto
        from P(8) [OF this] show ?thesis by (cases "L k") auto
      qed
      then show ?thesis unfolding on_wheel_def by blast
    qed
    then show ?thesis using A(8) ow by simp
  qed
  moreover have "now < expire (timers st) i" if "on_wheel w ?L i" for i
    using A(9) that ow expire_payload [OF P(3)] by simp
  moreover have "\<exists>it'. items t3 i = Some it' \<and> expire_time it' = expire_time it \<and>
        is_timeout it' = (i \<in> set ts \<or> is_timeout it)" if i0: "items (timers st) i = Some it" for i it
  proof -
    obtain i1 where i1: "items (timers st1) i = Some i1" "expire_time i1 = expire_time it" "is_timeout i1 = is_timeout it"
      using payload_item [OF fun_cong [OF P(3)] i0] by blast
    obtain i2 where i2: "items t1 i = Some i2" "expire_time i2 = expire_time i1" "is_timeout i2 = is_timeout i1"
      using payload_item [OF fun_cong [OF A(4)] i1(1)] by blast
    have "f i = Some (if i \<in> set ts then i2\<lparr>is_timeout := True\<rparr> else i2)" using i2 by (simp add: f_def)
    from payload_item [OF fun_cong [OF T(3), of i], simplified, OF this] show ?thesis
      using i1 i2 by (cases "i \<in> set ts") auto
  qed
  moreover have "?L ?a = Some (zs @ ts)" using D(7) by simp
  ultimately show ?thesis
    using co zs(2) A(5) P(5) by (intro exI [of _ ?st] exI [of _ ?L] exI [of _ zs] exI [of _ ts]) simp
qed


subsection \<open>The loop over the active list\<close>

lemma same_ptrs_upd:
  assumes "items s h = Some it" and "prev (g it) = prev it" and "nxt (g it) = nxt it" and "owner (g it) = owner it"
  shows "same_ptrs s (s\<lparr>items := (items s)(h \<mapsto> g it)\<rparr>)"
  using assms by (auto simp: same_ptrs_def intro!: option.rel_refl)

definition ready :: "timeout_item lstore \<Rightarrow> nat \<Rightarrow> addr \<Rightarrow> bool" where
  "ready t now i \<longleftrightarrow> (\<forall>it. items t i = Some it \<longrightarrow> \<not> (is_timeout it \<and> now < expire_time it))"

lemma loop_ok_active:
  assumes "loop_ok st L" and "L (active_list st) = Some xs"
  shows "links (timers st) (active_list st) = Some \<lparr>head = hd_opt xs, tail = last_opt xs\<rparr>" "distinct xs"
proof -
  have "absl (timers st) L" using assms(1) by (simp add: loop_ok_def lists_ok_def)
  from absl_links [OF this assms(2)] absl_distinct [OF this assms(2)]
  show "links (timers st) (active_list st) = Some \<lparr>head = hd_opt xs, tail = last_opt xs\<rparr>" "distinct xs" .
qed

text \<open>One round: an item that is ready is taken off the list, another goes back to the wheel.\<close>

lemma dispatch_one_ok:
  assumes ok: "loop_ok st L" and h: "L (active_list st) = Some (h # xs)"
    and w: "0 < start (timer st)" "start (timer st) \<le> now" "now < 2 ^ 62"
  shows "\<exists>st' L'. dispatch_one st h now = Some (ready (timers st) now h, st') \<and>
     loop_ok st' L' \<and> L' (active_list st) = Some xs \<and>
     timer st' = timer st \<and> active_list st' = active_list st \<and> timeout_list st' = timeout_list st \<and>
     (\<forall>i. i \<noteq> h \<longrightarrow> payload (timers st') i = payload (timers st) i) \<and>
     (\<exists>it. items (timers st') h = Some it) \<and>
     (on_wheel (timer st) L' h \<longleftrightarrow> \<not> ready (timers st) now h)"
proof -
  let ?a = "active_list st" and ?l = "timeout_list st"
  have l: "lists_ok (timers st) (timer st) ?a ?l L" and r: "refs_ok st" using ok by (simp_all add: loop_ok_def)
  obtain t1 where t1: "HeadPop (timers st) ?a = Some t1" "lists_ok t1 (timer st) ?a ?l (L(?a \<mapsto> xs))"
      "detached t1 h" "payload t1 = payload (timers st)"
    using lists_pop [OF l h] by blast
  note D = lists_okD [OF t1(2)]
  obtain it where it: "items t1 h = Some it" using t1(3) by (auto simp: detached_def)
  have rd: "ready (timers st) now h \<longleftrightarrow> \<not> (is_timeout it \<and> now < expire_time it)"
    using payload_item [OF fun_cong [OF t1(4), of h, symmetric] it] by (auto simp: ready_def)
  show ?thesis
  proof (cases "ready (timers st) now h")
    case True
    let ?st = "st\<lparr>timers := t1\<rparr>"
    have "refs_ok ?st" by (rule refs_ok_timers [OF r]) (use payload_prepare [OF t1(4)] in auto)
    then have "loop_ok ?st (L(?a \<mapsto> xs))" using t1(2) ok by (simp add: loop_ok_def)
    moreover have "dispatch_one st h now = Some (True, ?st)"
      using t1(1) it True rd by (cases "is_timeout it") (simp_all add: dispatch_one_def TimeoutLinkHeadPop_def)
    moreover have "\<not> on_wheel (timer st) (L(?a \<mapsto> xs)) h"
      using absl_detached [OF D(1) t1(3)] by (auto simp: on_wheel_def)
    ultimately show ?thesis using True it t1(4) by auto
  next
    case False
    then have nr: "is_timeout it" "now < expire_time it" using rd by auto
    have ex: "expire t1 h = expire_time it" using it by (simp add: expire_def)
    obtain t2 k ys where t2: "TimerItemAdd t1 (timer st) h now = Some (0, t2, timer st)"
        "k \<in> slot_set (timer st)" "(L(?a \<mapsto> xs)) k = Some ys"
        "lists_ok t2 (timer st) ?a ?l (L(?a \<mapsto> xs, k \<mapsto> ys @ [h]))" "payload t2 = payload t1"
      using lists_file [OF t1(2,3) w(1,2) _ w(3)] ex nr(2) by auto
    obtain i2 where i2: "items t2 h = Some i2" "expire_time i2 = expire_time it" "prepare_pfn i2 = prepare_pfn it"
      using payload_item [OF fun_cong [OF t2(5)] it] by blast
    let ?t = "t2\<lparr>items := (items t2)(h \<mapsto> i2\<lparr>is_timeout := False\<rparr>)\<rparr>"
    let ?st = "st\<lparr>timers := ?t, timer := timer st\<rparr>"
    have e: "expire ?t = expire t2" using i2(1) by (auto simp: expire_def)
    have "lists_ok ?t (timer st) ?a ?l (L(?a \<mapsto> xs, k \<mapsto> ys @ [h]))"
    proof (rule lists_ok_ptrs [OF t2(4)])
      show "same_ptrs t2 ?t" using i2(1) by (intro same_ptrs_upd) auto
      show "expire ?t i < 2 ^ 64" for i using lists_okD(9) [OF t2(4)] e by simp
    qed (simp add: e)
    moreover have "refs_ok ?st"
    proof (rule refs_ok_timers [OF r])
      fix x
      have "payload t2 = payload (timers st)" using t2(5) t1(4) by simp
      from payload_prepare [OF this, of x]
      show "rel_option (\<lambda>a b. prepare_pfn b = prepare_pfn a) (items (timers st) x) (items (timers ?st) x)"
        using i2(1) by (cases "x = h") (auto elim: option.rel_cases)
    qed simp_all
    ultimately have "loop_ok ?st (L(?a \<mapsto> xs, k \<mapsto> ys @ [h]))" using ok by (simp add: loop_ok_def)
    moreover have "dispatch_one st h now = Some (False, ?st)"
      using t1(1) it nr t2(1) i2(1) by (simp add: dispatch_one_def TimeoutLinkHeadPop_def ub_simps)
    moreover have "on_wheel (timer st) (L(?a \<mapsto> xs, k \<mapsto> ys @ [h])) h"
      using t2(2) unfolding on_wheel_def by (intro exI [of _ k] exI [of _ "ys @ [h]"]) simp
    moreover have "k \<noteq> ?a" using t2(2) D(5) by auto
    moreover have "payload ?t i = payload (timers st) i" if "i \<noteq> h" for i
      using fun_cong [OF t2(5), of i] fun_cong [OF t1(4), of i] that by (simp add: payload_def)
    ultimately show ?thesis using False
      by (intro exI [of _ ?st] exI [of _ "L(?a \<mapsto> xs, k \<mapsto> ys @ [h])"]) simp
  qed
qed

text \<open>
  What the loop needs of a coroutine's body: run from a well-formed state until it yields,
  it leaves a well-formed state, the origin of the wheel and the rest of the active list
  with the items on it as they were. Bodies that wait with \<open>CoPoll\<close> or
  \<open>CoCondTimewait\<close> are of this kind; one that signals a condition variable is not.
\<close>

definition parks :: "(ptr \<Rightarrow> co_epoll \<Rightarrow> co_epoll option) \<Rightarrow> bool" where
  "parks resume \<longleftrightarrow> (\<forall>co st L. loop_ok st L \<longrightarrow> (\<exists>st' L'. resume co st = Some st' \<and> loop_ok st' L' \<and>
     start (timer st') = start (timer st) \<and> active_list st' = active_list st \<and>
     L' (active_list st) = L (active_list st) \<and>
     (\<forall>i \<in> set (the (L (active_list st))). payload (timers st') i = payload (timers st) i)))"

lemma ready_payload: "payload t' i = payload t i \<Longrightarrow> ready t' now i = ready t now i"
proof -
  assume p: "payload t' i = payload t i"
  show ?thesis
    using payload_item [OF p] payload_None [OF p]
    by (cases "items t i") (auto simp: ready_def)
qed

lemma dispatch_ok:
  assumes "loop_ok st L" and "L (active_list st) = Some xs" and "parks resume"
    and "0 < start (timer st)" and "start (timer st) \<le> now" and "now < 2 ^ 62"
  shows "\<exists>st' L'. dispatch resume st now = Some (filter (ready (timers st) now) xs, st') \<and>
     loop_ok st' L' \<and> active_list st' = active_list st \<and> L' (active_list st) = Some [] \<and>
     start (timer st') = start (timer st)"
  using assms
proof (induction xs arbitrary: st L)
  case Nil
  have "links (timers st) (active_list st) = Some \<lparr>head = None, tail = None\<rparr>"
    using loop_ok_active [OF Nil.prems(1,2)] by simp
  then show ?case using Nil.prems by (subst dispatch.simps) auto
next
  case (Cons h xs)
  let ?a = "active_list st"
  have kl: "links (timers st) ?a = Some \<lparr>head = Some h, tail = last_opt (h # xs)\<rparr>"
    and dist: "distinct (h # xs)"
    using loop_ok_active [OF Cons.prems(1,2)] by simp_all
  obtain st1 L1 where s1: "dispatch_one st h now = Some (ready (timers st) now h, st1)"
     "loop_ok st1 L1" "L1 ?a = Some xs" "timer st1 = timer st" "active_list st1 = ?a"
     "\<And>i. i \<noteq> h \<Longrightarrow> payload (timers st1) i = payload (timers st) i"
     "\<exists>it. items (timers st1) h = Some it"
    using dispatch_one_ok [OF Cons.prems(1,2,4,5,6)] by blast
  have f1: "filter (ready (timers st1) now) xs = filter (ready (timers st) now) xs"
  proof (intro filter_cong ready_payload refl)
    fix x assume "x \<in> set xs"
    then show "payload (timers st1) x = payload (timers st) x" using dist by (intro s1(6)) auto
  qed
  show ?case
  proof (cases "ready (timers st) now h")
    case False
    have "dispatch resume st now = dispatch resume st1 now"
      using kl s1(1) False by (subst dispatch.simps) simp
    with Cons.IH [OF s1(2)] s1 Cons.prems False f1 show ?thesis by auto
  next
    case True
    obtain it where it: "items (timers st1) h = Some it" using s1(7) by blast
    obtain st2 L2 where s2: "process_item resume st1 h = Some st2" "loop_ok st2 L2"
       "start (timer st2) = start (timer st1)" "active_list st2 = ?a" "L2 ?a = Some xs"
       "\<And>i. i \<in> set xs \<Longrightarrow> payload (timers st2) i = payload (timers st1) i"
    proof (cases "process_pfn it")
      case None
      with it s1 that [of st1 L1] show ?thesis by (simp add: process_item_def)
    next
      case (Some fn)
      obtain st2 L2 where "resume (args it) st1 = Some st2" "loop_ok st2 L2"
         "start (timer st2) = start (timer st1)" "active_list st2 = active_list st1"
         "L2 (active_list st1) = L1 (active_list st1)"
         "\<And>i. i \<in> set (the (L1 (active_list st1))) \<Longrightarrow> payload (timers st2) i = payload (timers st1) i"
        using Cons.prems(3) s1(2) unfolding parks_def by metis
      moreover obtain "fn = OnProcessEvent_pfn" by (cases fn)
      ultimately show ?thesis using that [of st2 L2] it Some s1(3,5)
        by (simp add: process_item_def OnProcessEvent_def)
    qed
    have "filter (ready (timers st2) now) xs = filter (ready (timers st1) now) xs"
      using s2(6) by (auto intro!: filter_cong ready_payload)
    moreover obtain st3 L3 where "dispatch resume st2 now = Some (filter (ready (timers st2) now) xs, st3)"
       "loop_ok st3 L3" "active_list st3 = ?a" "L3 ?a = Some []" "start (timer st3) = start (timer st2)"
      using Cons.IH [OF s2(2)] s1(4) s2(3,4,5) Cons.prems by auto
    ultimately show ?thesis using kl s1(1,4) s2(1,3) True f1
      by (subst dispatch.simps) auto
  qed
qed

subsection \<open>Condition variables\<close>

lemma cond_wake_ok:
  assumes ok: "loop_ok st L" and C: "absl (conds st) C" and c: "C c = Some (i # is)"
    and it: "items (conds st) i = Some it"
  shows "\<exists>st'. cond_wake st c i = Some st' \<and> loop_ok st' (move_spec L (active_list st) (timeout it)) \<and>
     absl (conds st') (C(c \<mapsto> is)) \<and> payload (conds st') = payload (conds st) \<and>
     payload (timers st') = payload (timers st) \<and> active_list st' = active_list st"
proof -
  have l: "lists_ok (timers st) (timer st) (active_list st) (timeout_list st) L" and r: "refs_ok st"
    using ok by (simp_all add: loop_ok_def)
  obtain cs where cs: "HeadPop (conds st) c = Some cs" "absl cs (C(c \<mapsto> is))" "payload cs = payload (conds st)"
    using lk.head_pop [OF C c] by auto
  obtain it' where it': "items cs i = Some it'" "timeout it' = timeout it"
    using cond_payload [OF fun_cong [OF cs(3)] it] by blast
  obtain n where n: "items (timers st) (timeout it) = Some n" using refs_okD(6) [OF r it] by blast
  obtain t2 where t2: "do { t1 \<leftarrow> RemoveFromLink (timers st) (timeout it); TailAdd t1 (active_list st) (timeout it) } = Some t2"
      "lists_ok t2 (timer st) (active_list st) (timeout_list st) (move_spec L (active_list st) (timeout it))"
      "payload t2 = payload (timers st)"
    using lists_move [OF l, of "timeout it"] n by auto
  let ?st = "st\<lparr>conds := cs, timers := t2\<rparr>"
  have "refs_ok ?st"
    by (rule refs_ok_timers [OF r]) (use payload_prepare [OF t2(3)] cs(3) in auto)
  then have "loop_ok ?st (move_spec L (active_list st) (timeout it))"
    using t2(2) cs(2) by (auto simp: loop_ok_def)
  moreover have "cond_wake st c i = Some ?st"
    using cs(1) it' t2(1) by (auto simp: cond_wake_def)
  ultimately show ?thesis using cs t2 by auto
qed

lemma CoCondSignal_ok:
  assumes ok: "loop_ok st L" and C: "absl (conds st) C" and c: "C c = Some is"
  shows "case is of
     [] \<Rightarrow> CoCondSignal st c = Some st
   | i # js \<Rightarrow> \<exists>it st'. items (conds st) i = Some it \<and> CoCondSignal st c = Some st' \<and>
       loop_ok st' (move_spec L (active_list st) (timeout it)) \<and> absl (conds st') (C(c \<mapsto> js)) \<and>
       payload (conds st') = payload (conds st) \<and> payload (timers st') = payload (timers st)"
proof (cases "is")
  case Nil
  then show ?thesis using absl_links [OF C c] by (simp add: CoCondSignal_def)
next
  case (Cons i js)
  obtain it where it: "items (conds st) i = Some it"
    using absl_member [OF C c, of i] Cons by auto
  then show ?thesis
    using Cons absl_links [OF C c] cond_wake_ok [OF ok C _ it, of c js] c by (auto simp: CoCondSignal_def)
qed

text \<open>The timers of a list of waiters.\<close>

definition waiter_timer :: "co_epoll \<Rightarrow> addr \<Rightarrow> addr" where
  "waiter_timer st i = (case items (conds st) i of None \<Rightarrow> 0 | Some it \<Rightarrow> timeout it)"

lemma waiter_timer_payload: "payload (conds st') = payload (conds st) \<Longrightarrow> waiter_timer st' = waiter_timer st"
proof
  fix i assume p: "payload (conds st') = payload (conds st)"
  show "waiter_timer st' i = waiter_timer st i"
    using cond_payload [OF fun_cong [OF p, of i]] payload_None [OF fun_cong [OF p, of i]]
    by (cases "items (conds st) i") (auto simp: waiter_timer_def)
qed

definition move_all :: "(addr \<rightharpoonup> addr list) \<Rightarrow> addr \<Rightarrow> addr list \<Rightarrow> addr \<rightharpoonup> addr list" where
  "move_all L a js = fold (\<lambda>j L. move_spec L a j) js L"

lemma move_all_eq:
  "distinct js \<Longrightarrow> move_all L a js k =
     map_option (\<lambda>xs. filter (\<lambda>x. x \<notin> set js) xs @ (if k = a then js else [])) (L k)"
proof (induction js arbitrary: L)
  case Nil
  then show ?case by (cases "L k") (simp_all add: move_all_def)
next
  case (Cons j js)
  have "move_all L a (j # js) k = move_all (move_spec L a j) a js k" by (simp add: move_all_def)
  also have "\<dots> = map_option (\<lambda>xs. filter (\<lambda>x. x \<notin> set js) xs @ (if k = a then js else [])) (move_spec L a j k)"
    using Cons by simp
  also have "\<dots> = map_option (\<lambda>xs. filter (\<lambda>x. x \<notin> set (j # js)) xs @ (if k = a then j # js else [])) (L k)"
    using Cons.prems by (cases "L k") (auto simp: move_spec_def removeAll_filter_not_eq intro!: filter_cong)
  finally show ?case .
qed

lemma CoCondBroadcast_ok:
  assumes "loop_ok st L" and "absl (conds st) C" and "C c = Some is"
  shows "\<exists>st'. CoCondBroadcast st c = Some st' \<and>
     loop_ok st' (move_all L (active_list st) (map (waiter_timer st) is)) \<and>
     absl (conds st') (C(c \<mapsto> [])) \<and> payload (timers st') = payload (timers st)"
  using assms
proof (induction "is" arbitrary: st L C)
  case Nil
  then show ?case using absl_links [OF Nil.prems(2,3)]
    by (subst CoCondBroadcast.simps) (auto simp: move_all_def map_upd_triv)
next
  case (Cons i js)
  obtain it where it: "items (conds st) i = Some it"
    using absl_member [OF Cons.prems(2,3), of i] by auto
  obtain st1 where s: "cond_wake st c i = Some st1" "loop_ok st1 (move_spec L (active_list st) (timeout it))"
     "absl (conds st1) (C(c \<mapsto> js))" "payload (conds st1) = payload (conds st)"
     "payload (timers st1) = payload (timers st)" "active_list st1 = active_list st"
    using cond_wake_ok [OF Cons.prems it] by blast
  have "(C(c \<mapsto> js)) c = Some js" by simp
  from Cons.IH [OF s(2,3) this] obtain st' where
    "CoCondBroadcast st1 c = Some st'"
    "loop_ok st' (move_all (move_spec L (active_list st) (timeout it)) (active_list st) (map (waiter_timer st) js))"
    "absl (conds st') (C(c \<mapsto> []))" "payload (timers st') = payload (timers st)"
    unfolding s(5,6) waiter_timer_payload [OF s(4)] fun_upd_upd by blast
  moreover have "waiter_timer st i = timeout it" using it by (simp add: waiter_timer_def)
  ultimately show ?case using absl_links [OF Cons.prems(2,3)] s(1)
    by (subst CoCondBroadcast.simps) (simp add: move_all_def)
qed

subsection \<open>Waiting for descriptors\<close>

lemma lists_ok_new:
  assumes ok: "lists_ok t w a l L" and lk: "links t' = links t"
    and old: "\<And>i it. items t i = Some it \<Longrightarrow> items t' i = Some it"
    and new: "\<And>i it. items t' i = Some it \<Longrightarrow> items t i = None \<Longrightarrow> owner it = None \<and> expire_time it < 2 ^ 64"
  shows "lists_ok t' w a l L"
proof -
  note D = lists_okD [OF ok]
  have "absl t' L"
    unfolding absl_def
  proof (intro conjI allI impI)
    show "dom (links t') = dom L" using absl_dom [OF D(1)] lk by simp
  next
    fix k xs assume L: "L k = Some xs"
    show "links t' k = Some \<lparr>head = hd_opt xs, tail = last_opt xs\<rparr>"
      using absl_links [OF D(1) L] lk by simp
    show "distinct xs" using absl_distinct [OF D(1) L] .
    have "dseg (items t') k None xs None = dseg (items t) k None xs None"
      using absl_member [OF D(1) L] old by (intro dseg_cong) fastforce
    then show "dseg (items t') k None xs None" using absl_dseg [OF D(1) L] by simp
  next
    fix i it k assume "items t' i = Some it" "owner it = Some k"
    then have "items t i = Some it" using old new by (cases "items t i") auto
    then show "\<exists>xs. L k = Some xs \<and> i \<in> set xs"
      using absl_owner [OF D(1)] \<open>owner it = Some k\<close> by blast
  qed
  moreover have "wheel_ok t' w L"
  proof (rule wheel_ok_sub [OF D(2)])
    fix i assume "on_wheel w L i"
    then obtain k xs where "L k = Some xs" "i \<in> set xs" by (auto simp: on_wheel_def)
    then obtain it where "items t i = Some it" using absl_member [OF D(1)] by blast
    then show "expire t' i = expire t i" using old by (simp add: expire_def)
  qed (use wheel_okD(4) [OF D(2)] in auto)
  moreover have "expire t' i < 2 ^ 64" for i
    using D(9) [of i] old [of i] new [of i] by (cases "items t i"; cases "items t' i") (auto simp: expire_def)
  ultimately show ?thesis using ok by (auto simp: lists_ok_def)
qed

text \<open>Addresses at which \<open>calloc\<close> may put a \<open>co_poll_t\<close> and its two arrays.\<close>

definition fresh_poll :: "co_epoll \<Rightarrow> addr \<Rightarrow> addr \<Rightarrow> addr \<Rightarrow> nat \<Rightarrow> bool" where
  "fresh_poll st p f q n \<longleftrightarrow> p \<notin> {q..<q + n} \<and> polls st p = None \<and> items (timers st) p = None \<and>
     (\<forall>a \<in> {q..<q + n}. items (timers st) a = None \<and> pitems st a = None) \<and>
     (\<forall>a \<in> {f..<f + n}. pollfds st a = None)"

lemma register_fds_frame:
  assumes "register_fds ctl fb p f q n st i xs = (b, st')"
  shows "links (timers st') = links (timers st) \<and> timer st' = timer st \<and> active_list st' = active_list st \<and>
     timeout_list st' = timeout_list st \<and> polls st' = polls st \<and> pollfds st' = pollfds st \<and> conds st' = conds st"
  using assms
proof (induction xs arbitrary: st i)
  case (Cons x xs)
  then show ?case by (force simp: Let_def split: if_splits option.splits)
qed simp

text \<open>
  The mask of the poll item of a descriptor, and whether its registration is asked for and
  accepted. Negative descriptors are ignored, as \<open>poll\<close> does.
\<close>

definition item_mask :: "pollfd \<Rightarrow> 32 word" where
  "item_mask x = (if fd x > -1 then PollEvent2Epoll (pevents x) else 0)"

definition registers :: "(int \<Rightarrow> int option) \<Rightarrow> pollfd \<Rightarrow> bool" where
  "registers ctl x \<longleftrightarrow> fd x > -1 \<and> ctl (fd x) = None"

lemma register_fds_items:
  assumes "register_fds ctl fb p f q n st i xs = (True, st')"
  shows "items (timers st') = (\<lambda>a. if q + i \<le> a \<and> a < q + i + length xs
            then Some (zero_item\<lparr>prepare_pfn := Some OnPollPrepare_pfn\<rparr>) else items (timers st) a) \<and>
     (\<forall>a. a < q + i \<or> q + i + length xs \<le> a \<longrightarrow> pitems st' a = pitems st a) \<and>
     (\<forall>j < length xs. pitems st' (q + i + j) = Some \<lparr>self = f + i + j, poll = p, event = item_mask (xs ! j)\<rparr>) \<and>
     (\<forall>x. interest st' x = interest st x \<or> (\<exists>j ev. j < length xs \<and> interest st' x = Some (q + i + j, ev)))"
  using assms
proof (induction xs arbitrary: st i)
  case Nil
  then show ?case by (auto simp: fun_eq_iff)
next
  case (Cons x xs)
  let ?t = "(timers st)\<lparr>items := (items (timers st))(q + i \<mapsto> zero_item\<lparr>prepare_pfn := Some OnPollPrepare_pfn\<rparr>)\<rparr>"
  obtain st1 where r: "register_fds ctl fb p f q n st1 (i + 1) xs = (True, st')"
    and s1: "timers st1 = ?t" "pitems st1 = (pitems st)(q + i \<mapsto> \<lparr>self = f + i, poll = p, event = item_mask x\<rparr>)"
      "\<And>y. interest st1 y = interest st y \<or> (\<exists>ev. interest st1 y = Some (q + i, ev))"
    using Cons.prems by (auto simp: Let_def item_mask_def split: if_splits option.splits)
  note IH = Cons.IH [OF r]
  have 1: "items (timers st') = (\<lambda>a. if q + i \<le> a \<and> a < q + i + length (x # xs)
            then Some (zero_item\<lparr>prepare_pfn := Some OnPollPrepare_pfn\<rparr>) else items (timers st) a)"
    using IH s1(1) by (auto simp: fun_eq_iff)
  have 2: "pitems st' a = pitems st a" if "a < q + i \<or> q + i + length (x # xs) \<le> a" for a
    using IH s1(2) that by auto
  have 3: "pitems st' (q + i + j) = Some \<lparr>self = f + i + j, poll = p, event = item_mask ((x # xs) ! j)\<rparr>"
    if "j < length (x # xs)" for j
  proof (cases j)
    case 0
    then show ?thesis using IH s1(2) by auto
  next
    case (Suc k)
    then have "k < length xs" using that by simp
    then have "pitems st' (q + (i + 1) + k) = Some \<lparr>self = f + (i + 1) + k, poll = p, event = item_mask (xs ! k)\<rparr>"
      using IH by blast
    then show ?thesis using Suc by (simp add: add.assoc)
  qed
  have 4: "interest st' y = interest st y \<or> (\<exists>j ev. j < length (x # xs) \<and> interest st' y = Some (q + i + j, ev))" for y
  proof -
    consider "interest st' y = interest st1 y"
      | j ev where "j < length xs" "interest st' y = Some (q + (i + 1) + j, ev)" using IH by blast
    then show ?thesis
    proof cases
      case 1
      then show ?thesis using s1(3) [of y] by (metis add.right_neutral length_greater_0_conv list.distinct(1))
    next
      case 2
      then show ?thesis by (intro disjI2 exI [of _ "Suc j"]) auto
    qed
  qed
  show ?case using 1 2 3 4 by blast
qed

text \<open>
  The interest list after the loop: an accepted descriptor is registered with its last item
  and mask, and every other registration is left alone.
\<close>

lemma register_fds_interest:
  assumes "register_fds ctl fb p f q n st i xs = (True, st')"
  shows "(\<forall>d. (\<forall>x \<in> set xs. registers ctl x \<longrightarrow> fd x \<noteq> d) \<longrightarrow> interest st' d = interest st d) \<and>
     (\<forall>j < length xs. registers ctl (xs ! j) \<longrightarrow> (\<forall>k < length xs. j < k \<longrightarrow> fd (xs ! k) \<noteq> fd (xs ! j)) \<longrightarrow>
        interest st' (fd (xs ! j)) = Some (q + i + j, PollEvent2Epoll (pevents (xs ! j))))"
  using assms
proof (induction xs arbitrary: st i)
  case (Cons x xs)
  obtain st1 where r: "register_fds ctl fb p f q n st1 (i + 1) xs = (True, st')"
    and s1: "interest st1 = (if registers ctl x then (interest st)(fd x \<mapsto> (q + i, PollEvent2Epoll (pevents x))) else interest st)"
    using Cons.prems by (auto simp: Let_def registers_def split: if_splits option.splits)
  note IH = Cons.IH [OF r]
  have other: "interest st' d = interest st d" if "\<forall>y \<in> set (x # xs). registers ctl y \<longrightarrow> fd y \<noteq> d" for d
    using IH s1 that by (auto split: if_split)
  have one: "interest st' (fd ((x # xs) ! j)) = Some (q + i + j, PollEvent2Epoll (pevents ((x # xs) ! j)))"
    if j: "j < length (x # xs)" and reg: "registers ctl ((x # xs) ! j)"
      and last: "\<forall>k < length (x # xs). j < k \<longrightarrow> fd ((x # xs) ! k) \<noteq> fd ((x # xs) ! j)" for j
  proof (cases j)
    case 0
    have "fd y \<noteq> fd x" if "y \<in> set xs" for y
    proof -
      obtain k where "k < length xs" "xs ! k = y" using \<open>y \<in> set xs\<close> by (auto simp: in_set_conv_nth)
      then show ?thesis using last 0 by (auto dest: spec [of _ "Suc k"])
    qed
    then have "interest st' (fd x) = interest st1 (fd x)" using IH by auto
    then show ?thesis using s1 reg 0 by simp
  next
    case (Suc j')
    have "fd (xs ! k) \<noteq> fd (xs ! j')" if "k < length xs" "j' < k" for k
      using last Suc that by (auto dest: spec [of _ "Suc k"])
    then have "interest st' (fd (xs ! j')) = Some (q + (i + 1) + j', PollEvent2Epoll (pevents (xs ! j')))"
      using IH j reg Suc by auto
    then show ?thesis using Suc by simp
  qed
  show ?case using other one by blast
qed simp

text \<open>A poll that is refused leaves no trace: the objects are freed again.\<close>

lemma register_fds_refused:
  assumes "register_fds ctl fb p f q n st i xs = (False, st')"
  shows "n = 1 \<and> (\<exists>x \<in> set xs. ctl (fd x) = Some EPERM)"
  using assms
proof (induction xs arbitrary: st i)
  case (Cons x xs)
  then show ?case by (fastforce simp: Let_def split: if_splits option.splits)
qed simp

lemma CoPoll_refused:
  assumes fr: "fresh_poll st p f q (length xs)" and ms: "ms \<noteq> 0"
    and st1: "st1 = st\<lparr>
             timers := (timers st)\<lparr>items := (items (timers st))
                (p \<mapsto> zero_item\<lparr>process_pfn := Some OnProcessEvent_pfn, args := co\<rparr>)\<rparr>,
             polls := (polls st)(p \<mapsto> c),
             pollfds := (\<lambda>a. if f \<le> a \<and> a < f + length xs then Some z else pollfds st a)\<rparr>"
    and r: "register_fds ctl fb p f q (length xs) st1 0 xs = (False, st2)"
  shows "free_poll st2 p f q (length xs) = st"
proof -
  obtain x where xs: "xs = [x]" using register_fds_refused [OF r] by (auto simp: length_Suc_conv)
  obtain ev where "st2 = st1\<lparr>
          timers := (timers st1)\<lparr>items := (items (timers st1))
             (q \<mapsto> zero_item\<lparr>prepare_pfn := Some OnPollPrepare_pfn\<rparr>)\<rparr>,
          pitems := (pitems st1)(q \<mapsto> \<lparr>self = f, poll = p, event = ev\<rparr>)\<rparr>"
    using r xs by (auto simp: Let_def split: if_splits option.splits)
  then have "free_poll st2 p f q 1 = st"
    using fr xs
    by (intro co_epoll.equality lstore.equality)
      (auto simp: st1 free_poll_def fresh_poll_def fun_eq_iff le_less_Suc_eq intro!: lstore.equality)
  with xs show ?thesis by simp
qed

text \<open>Entering \<open>CoPoll\<close>: either \<open>poll\<close> is called instead, or the coroutine waits.\<close>

lemma CoPoll_begin_ok:
  assumes ok: "loop_ok st L" and fr: "fresh_poll st p f q (length xs)" and ms: "ms \<noteq> 0" "ms < 2 ^ 31"
    and w: "0 < start (timer st)" "start (timer st) \<le> now" "now < 2 ^ 62"
    and m: "m = nat (if ms < 0 then INT_MAX else ms)"
  shows "(length xs = 1 \<and> fb \<and> CoPoll_begin ctl fb co p f q st xs ms now = Some (CallPoll (int m), st)) \<or>
    (\<exists>st' k ys. CoPoll_begin ctl fb co p f q st xs ms now = Some (PollYield, st') \<and>
       k \<in> slot_set (timer st) \<and> L k = Some ys \<and> loop_ok st' (L(k \<mapsto> ys @ [p])) \<and>
       expire (timers st') p = now + m \<and> timer st' = timer st \<and>
       active_list st' = active_list st \<and>
       polls st' = (polls st)(p \<mapsto> \<lparr>fds = f, nfds = length xs, poll_items = q, all_event_detach = 0, raise_cnt = 0\<rparr>) \<and>
       (\<forall>j < length xs. pitems st' (q + j) = Some \<lparr>self = f + j, poll = p, event = item_mask (xs ! j)\<rparr>) \<and>
       (\<forall>j < length xs. registers ctl (xs ! j) \<and> (\<forall>k < length xs. j < k \<longrightarrow> fd (xs ! k) \<noteq> fd (xs ! j)) \<longrightarrow>
          interest st' (fd (xs ! j)) = Some (q + j, PollEvent2Epoll (pevents (xs ! j)))) \<and>
       (\<forall>d. (\<forall>x \<in> set xs. registers ctl x \<longrightarrow> fd x \<noteq> d) \<longrightarrow> interest st' d = interest st d) \<and>
       (\<forall>i. items (timers st) i \<noteq> None \<longrightarrow> payload (timers st') i = payload (timers st) i))"
proof -
  let ?n = "length xs"
  let ?ms = "if ms < 0 then INT_MAX else ms"
  let ?c = "\<lparr>fds = f, nfds = ?n, poll_items = q, all_event_detach = 0, raise_cnt = 0\<rparr>"
  let ?z = "\<lparr>fd = 0, pevents = 0, revents = 0\<rparr>"
  define st1 where "st1 = st\<lparr>
             timers := (timers st)\<lparr>items := (items (timers st))
                (p \<mapsto> zero_item\<lparr>process_pfn := Some OnProcessEvent_pfn, args := co\<rparr>)\<rparr>,
             polls := (polls st)(p \<mapsto> ?c),
             pollfds := (\<lambda>a. if f \<le> a \<and> a < f + ?n then Some ?z else pollfds st a)\<rparr>"
  have im: "int m = ?ms" using m ms by (auto simp: INT_MAX_def)
  have mb: "m < 2 ^ 31" using m ms by (auto simp: INT_MAX_def)
  have unf: "CoPoll_begin ctl fb co p f q st xs ms now =
     (case register_fds ctl fb p f q ?n st1 0 xs of
          (False, st2) \<Rightarrow> Some (CallPoll (int m), free_poll st2 p f q ?n)
        | (True, st2) \<Rightarrow> do {
            st3 \<leftarrow> upd_timer st2 p (\<lambda>n. n\<lparr>expire_time := now + m\<rparr>);
            (ret, t, w) \<leftarrow> TimerItemAdd (timers st3) (timer st3) p now;
            Some (if ret = 0 then PollYield else PollError, st3\<lparr>timers := t, timer := w\<rparr>) })"
    unfolding CoPoll_begin_def Let_def st1_def [symmetric] im m [symmetric] using ms by simp
  obtain b st2 where r: "register_fds ctl fb p f q ?n st1 0 xs = (b, st2)" by force
  show ?thesis
  proof (cases b)
    case False
    then have "free_poll st2 p f q ?n = st" using CoPoll_refused [OF fr ms(1) st1_def] r by simp
    moreover have "fb" if "register_fds ctl fb p f q ?n st1 0 xs = (False, st2)"
      using that register_fds_refused [OF that]
      by (auto simp: length_Suc_conv Let_def split: if_splits option.splits)
    ultimately show ?thesis using unf r False register_fds_refused [of ctl fb p f q ?n st1 0 xs st2] by simp
  next
    case True
    have fm: "links (timers st2) = links (timers st)" "timer st2 = timer st" "active_list st2 = active_list st"
       "timeout_list st2 = timeout_list st" "polls st2 = (polls st)(p \<mapsto> ?c)" "pollfds st2 = pollfds st1"
       "conds st2 = conds st"
      using register_fds_frame [OF r] by (simp_all add: st1_def)
    have it2: "items (timers st2) = (\<lambda>a. if q \<le> a \<and> a < q + ?n
            then Some (zero_item\<lparr>prepare_pfn := Some OnPollPrepare_pfn\<rparr>)
            else if a = p then Some (zero_item\<lparr>process_pfn := Some OnProcessEvent_pfn, args := co\<rparr>)
            else items (timers st) a)"
      and pi_old: "\<And>a. a < q \<or> q + ?n \<le> a \<Longrightarrow> pitems st2 a = pitems st a"
      and pi_new: "\<And>j. j < ?n \<Longrightarrow> pitems st2 (q + j) = Some \<lparr>self = f + j, poll = p, event = item_mask (xs ! j)\<rparr>"
      and int2: "\<And>x. interest st2 x = interest st x \<or> (\<exists>j ev. j < ?n \<and> interest st2 x = Some (q + j, ev))"
      using register_fds_items [of ctl fb p f q ?n st1 0 xs st2] r True by (auto simp: st1_def fun_eq_iff)
    have int3: "\<forall>j < ?n. registers ctl (xs ! j) \<and> (\<forall>k < ?n. j < k \<longrightarrow> fd (xs ! k) \<noteq> fd (xs ! j)) \<longrightarrow>
          interest st2 (fd (xs ! j)) = Some (q + j, PollEvent2Epoll (pevents (xs ! j)))"
      "\<forall>d. (\<forall>x \<in> set xs. registers ctl x \<longrightarrow> fd x \<noteq> d) \<longrightarrow> interest st2 d = interest st d"
      using register_fds_interest [of ctl fb p f q ?n st1 0 xs st2] r True by (auto simp: st1_def)
    have pq: "p \<notin> {q..<q + ?n}" using fr by (simp add: fresh_poll_def)
    let ?ip = "zero_item\<lparr>process_pfn := Some OnProcessEvent_pfn, args := co, expire_time := now + m\<rparr>"
    define t3 where "t3 = (timers st2)\<lparr>items := (items (timers st2))(p \<mapsto> ?ip)\<rparr>"
    have up: "upd_timer st2 p (\<lambda>n. n\<lparr>expire_time := now + m\<rparr>) = Some (st2\<lparr>timers := t3\<rparr>)"
    proof -
      have "items (timers st2) p = Some (zero_item\<lparr>process_pfn := Some OnProcessEvent_pfn, args := co\<rparr>)"
        using it2 pq by auto
      then show ?thesis by (simp add: upd_timer_def ub_simps t3_def)
    qed
    have l: "lists_ok (timers st) (timer st) (active_list st) (timeout_list st) L" and rf: "refs_ok st"
      using ok by (simp_all add: loop_ok_def)
    have old: "items t3 i = Some it" if "items (timers st) i = Some it" for i it
      using that it2 fr by (auto simp: t3_def fresh_poll_def)
    have new: "owner it = None \<and> expire_time it < 2 ^ 64"
      if "items t3 i = Some it" "items (timers st) i = None" for i it
      using that it2 w(3) mb by (auto simp: t3_def zero_item_def split: if_splits)
    have l3: "lists_ok t3 (timer st) (active_list st) (timeout_list st) L"
      by (rule lists_ok_new [OF l]) (use fm(1) old new in \<open>auto simp: t3_def\<close>)
    have ex: "expire t3 p = now + m" by (simp add: t3_def expire_def)
    have det: "detached t3 p" by (simp add: t3_def detached_def zero_item_def)
    obtain t4 k ys where t4: "TimerItemAdd t3 (timer st) p now = Some (0, t4, timer st)"
        "k \<in> slot_set (timer st)" "L k = Some ys"
        "lists_ok t4 (timer st) (active_list st) (timeout_list st) (L(k \<mapsto> ys @ [p]))"
        "payload t4 = payload t3"
      using lists_file [OF l3 det w(1,2) _ w(3)] ex by auto
    let ?st = "st2\<lparr>timers := t4, timer := timer st\<rparr>"
    have st3: "\<exists>a. items t3 i = Some a" if "items (timers st) i \<noteq> None \<or> i = p \<or> i \<in> {q..<q + ?n}" for i
      using that old it2 by (auto simp: t3_def)
    have dom4: "items t4 i \<noteq> None" if "items (timers st) i \<noteq> None \<or> i = p \<or> i \<in> {q..<q + ?n}" for i
      using st3 [OF that] payload_None [OF fun_cong [OF t4(5), of i]] by auto
    have "refs_ok ?st"
      unfolding refs_ok_def
    proof (intro conjI allI impI)
      fix y assume "polls ?st y \<noteq> None"
      then show "items (timers ?st) y \<noteq> None"
        using refs_okD(1) [OF rf, of y] dom4 [of y] fm(5) by (auto split: if_splits)
    next
      fix y pi assume pi: "pitems ?st y = Some pi"
      have A: "pollfds st2 (self pi) \<noteq> None \<and> polls st2 (poll pi) \<noteq> None \<and>
          (\<exists>it. items t3 y = Some it \<and> prepare_pfn it = Some OnPollPrepare_pfn)"
      proof (cases "y \<in> {q..<q + ?n}")
        case True
        then obtain j where j: "y = q + j" "j < ?n" using le_Suc_ex by (auto dest!: le_Suc_ex)
        with pi_new [OF j(2)] pi fm(5,6) it2 pq True show ?thesis
          by (auto simp: st1_def t3_def)
      next
        case False
        then have "pitems st y = Some pi" using pi pi_old [of y] by auto
        from refs_okD(2,3,4) [OF rf this] show ?thesis
          using fm(5,6) old by (fastforce simp: st1_def)
      qed
      show "pollfds ?st (self pi) \<noteq> None" "polls ?st (poll pi) \<noteq> None" using A by simp_all
      show "\<exists>it. items (timers ?st) y = Some it \<and> prepare_pfn it = Some OnPollPrepare_pfn"
        using A payload_item [OF fun_cong [OF t4(5), of y]] by fastforce
    next
      fix x y ev assume i: "interest ?st x = Some (y, ev)"
      show "pitems ?st y \<noteq> None"
      proof (cases "interest st2 x = interest st x")
        case True
        then obtain pi where pi: "pitems st y = Some pi" using refs_okD(5) [OF rf] i by fastforce
        then have "y \<notin> {q..<q + ?n}" using fr by (auto simp: fresh_poll_def)
        then show ?thesis using pi_old [of y] pi by auto
      next
        case False
        then obtain j where "j < ?n" "y = q + j" using int2 [of x] i by auto
        then show ?thesis using pi_new by fastforce
      qed
    next
      fix i it assume "items (conds ?st) i = Some it"
      then show "items (timers ?st) (timeout it) \<noteq> None"
        using refs_okD(6) [OF rf] fm(7) dom4 by fastforce
    qed
    then have "loop_ok ?st (L(k \<mapsto> ys @ [p]))" using t4(4) fm ok by (simp add: loop_ok_def)
    moreover have "CoPoll_begin ctl fb co p f q st xs ms now = Some (PollYield, ?st)"
      using unf r True up t4(1) fm(2) by simp
    moreover have "expire t4 p = now + m" using expire_payload [OF t4(5)] ex by simp
    moreover have "payload t4 i = payload (timers st) i" if "items (timers st) i \<noteq> None" for i
      using that old t4(5) by (auto simp: payload_def fun_eq_iff)
    moreover have "timer ?st = timer st" "active_list ?st = active_list st" "polls ?st = (polls st)(p \<mapsto> ?c)"
      using fm(2,3,5) by simp_all
    moreover have "\<forall>j < ?n. pitems ?st (q + j) = Some \<lparr>self = f + j, poll = p, event = item_mask (xs ! j)\<rparr>"
      using pi_new by simp
    moreover have "\<forall>j < ?n. registers ctl (xs ! j) \<and> (\<forall>k < ?n. j < k \<longrightarrow> fd (xs ! k) \<noteq> fd (xs ! j)) \<longrightarrow>
          interest ?st (fd (xs ! j)) = Some (q + j, PollEvent2Epoll (pevents (xs ! j)))"
      "\<forall>d. (\<forall>x \<in> set xs. registers ctl x \<longrightarrow> fd x \<noteq> d) \<longrightarrow> interest ?st d = interest st d"
      using int3 by simp_all
    ultimately show ?thesis using t4(2,3) by (intro disjI2 exI [of _ ?st] exI [of _ k] exI [of _ ys]) simp
  qed
qed

lemma lists_unlink:
  assumes ok: "lists_ok t w a l L" and i: "items t i \<noteq> None"
  shows "\<exists>t'. RemoveFromLink t i = Some t' \<and>
     lists_ok t' w a l (\<lambda>k. map_option (removeAll i) (L k)) \<and> payload t' = payload t \<and> detached t' i"
proof -
  note D = lists_okD [OF ok]
  let ?L = "\<lambda>k. map_option (removeAll i) (L k)"
  have pi: "payload t i \<noteq> None" using i by (simp add: payload_def)
  have "\<exists>t'. RemoveFromLink t i = Some t' \<and> absl t' ?L \<and> payload t' = payload t"
  proof (cases "detached t i")
    case True
    then have "i \<notin> set xs" if "L k = Some xs" for k xs using absl_detached [OF D(1)] that by blast
    then have "?L k = L k" for k by (cases "L k") simp_all
    then have "?L = L" by blast
    then show ?thesis using lk.unlink_idle [OF True] D(1) by simp
  next
    case False
    then obtain k xs where k: "L k = Some xs" "i \<in> set xs"
      using lk.on_list_or_idle [OF D(1) pi] by blast
    have "?L j = (L(k \<mapsto> remove1 i xs)) j" for j
    proof (cases "j = k")
      case True
      then show ?thesis using k absl_distinct [OF D(1) k(1)] by (simp add: distinct_remove1_removeAll)
    next
      case False
      then have "i \<notin> set ys" if "L j = Some ys" for ys using absl_disjoint [OF D(1) k(1) that k(2)] by auto
      then show ?thesis using False by (cases "L j") auto
    qed
    then have "?L = L(k \<mapsto> remove1 i xs)" by blast
    then show ?thesis using lk.unlink [OF D(1) k] by simp
  qed
  then obtain t' where t': "RemoveFromLink t i = Some t'" "absl t' ?L" "payload t' = payload t" by blast
  have "expire t' = expire t" using expire_payload [OF t'(3)] .
  moreover have "wheel_ok t' w ?L"
  proof (rule wheel_ok_sub [OF D(2)])
    fix k assume "k \<in> slot_set w"
    then obtain ys where "L k = Some ys" using wheel_okD(4) [OF D(2)] by blast
    then show "\<exists>ys. ?L k = Some ys \<and> set ys \<subseteq> set (the (L k))" by auto
  qed (simp add: calculation)
  moreover have "detached t' i" using lk.idle_iff [OF t'(2)] t'(3) pi by auto
  ultimately show ?thesis using t' D by (auto simp: lists_ok_def)
qed

lemma lists_ok_free:
  assumes ok: "lists_ok t w a l L" and lk: "links t' = links t"
    and it: "\<And>i. items t' i = (if i \<in> F then None else items t i)"
    and free: "\<And>i. i \<in> F \<Longrightarrow> detached t i"
  shows "lists_ok t' w a l L"
proof -
  note D = lists_okD [OF ok]
  have on: "x \<notin> F" if "L k = Some xs" "x \<in> set xs" for k xs x
    using absl_detached [OF D(1) free that(1)] that(2) by blast
  have "absl t' L"
    unfolding absl_def
  proof (intro conjI allI impI)
    show "dom (links t') = dom L" using absl_dom [OF D(1)] lk by simp
  next
    fix k xs assume L: "L k = Some xs"
    show "links t' k = Some \<lparr>head = hd_opt xs, tail = last_opt xs\<rparr>"
      using absl_links [OF D(1) L] lk by simp
    show "distinct xs" using absl_distinct [OF D(1) L] .
    have "dseg (items t') k None xs None = dseg (items t) k None xs None"
      using on [OF L] it by (intro dseg_cong) simp
    then show "dseg (items t') k None xs None" using absl_dseg [OF D(1) L] by simp
  next
    fix i n k assume "items t' i = Some n" "owner n = Some k"
    then show "\<exists>xs. L k = Some xs \<and> i \<in> set xs"
      using absl_owner [OF D(1)] it by (auto split: if_splits)
  qed
  moreover have "wheel_ok t' w L"
  proof (rule wheel_ok_sub [OF D(2)])
    fix i assume "on_wheel w L i"
    then have "i \<notin> F" using on by (auto simp: on_wheel_def)
    then show "expire t' i = expire t i" using it by (simp add: expire_def)
  qed (use wheel_okD(4) [OF D(2)] in auto)
  moreover have "expire t' i < 2 ^ 64" for i
    using D(9) [of i] it [of i] by (cases "i \<in> F") (auto simp: expire_def)
  ultimately show ?thesis using ok by (auto simp: lists_ok_def)
qed

lemma deregister_fds_ok:
  assumes "\<And>j. j < length xs \<Longrightarrow> pollfds st (f + j) \<noteq> None"
  shows "\<exists>ys. deregister_fds st f xs = Some (ys, st\<lparr>interest :=
      (\<lambda>x. if x > -1 \<and> x \<in> fd ` set xs then None else interest st x)\<rparr>) \<and>
    length ys = length xs \<and> (\<forall>j < length xs. \<exists>pf. pollfds st (f + j) = Some pf \<and>
      ys ! j = (xs ! j)\<lparr>revents := revents pf\<rparr>)"
  using assms
proof (induction xs arbitrary: st f)
  case Nil
  then show ?case by simp
next
  case (Cons x xs)
  obtain pf where pf: "pollfds st f = Some pf" using Cons.prems [of 0] by auto
  let ?st = "if fd x > -1 then st\<lparr>interest := (interest st)(fd x := None)\<rparr> else st"
  have "pollfds ?st (Suc f + j) \<noteq> None" if "j < length xs" for j
    using Cons.prems [of "Suc j"] that by simp
  from Cons.IH [OF this] obtain ys where ys: "deregister_fds ?st (Suc f) xs = Some (ys, ?st\<lparr>interest :=
      (\<lambda>x. if x > -1 \<and> x \<in> fd ` set xs then None else interest ?st x)\<rparr>)"
    "length ys = length xs" "\<And>j. j < length xs \<Longrightarrow> \<exists>pf. pollfds ?st (Suc f + j) = Some pf \<and>
      ys ! j = (xs ! j)\<lparr>revents := revents pf\<rparr>" by blast
  have "?st\<lparr>interest := (\<lambda>x. if x > -1 \<and> x \<in> fd ` set xs then None else interest ?st x)\<rparr> =
     st\<lparr>interest := (\<lambda>y. if y > -1 \<and> y \<in> fd ` set (x # xs) then None else interest st y)\<rparr>"
    by (intro co_epoll.equality) (auto simp: fun_eq_iff)
  then have "deregister_fds st f (x # xs) = Some (x\<lparr>revents := revents pf\<rparr> # ys,
     st\<lparr>interest := (\<lambda>y. if y > -1 \<and> y \<in> fd ` set (x # xs) then None else interest st y)\<rparr>)"
    using pf ys(1) by (simp add: Let_def)
  moreover have "\<exists>pf'. pollfds st (f + j) = Some pf' \<and>
      (x\<lparr>revents := revents pf\<rparr> # ys) ! j = ((x # xs) ! j)\<lparr>revents := revents pf'\<rparr>"
    if "j < length (x # xs)" for j
    using that pf ys(3) [of "j - 1"] by (cases j) (auto split: if_splits)
  ultimately show ?case using ys(2) by auto
qed

text \<open>A coroutine that waits in \<open>CoPoll\<close>: the \<open>co_poll_t\<close> at \<open>p\<close> and its arrays.\<close>

definition poll_waiting :: "co_epoll \<Rightarrow> addr \<Rightarrow> co_poll \<Rightarrow> pollfd list \<Rightarrow> bool" where
  "poll_waiting st p c xs \<longleftrightarrow> (let Q = {poll_items c..<poll_items c + length xs} in
     polls st p = Some c \<and> nfds c = length xs \<and> p \<notin> Q \<and>
     (\<forall>j < length xs. pollfds st (fds c + j) \<noteq> None) \<and>
     (\<forall>y pi. pitems st y = Some pi \<longrightarrow> y \<notin> Q \<longrightarrow>
        poll pi \<noteq> p \<and> y \<noteq> p \<and> self pi \<notin> {fds c..<fds c + length xs}) \<and>
     (\<forall>y \<in> Q. detached (timers st) y \<and> polls st y = None) \<and>
     (\<forall>x y ev. interest st x = Some (y, ev) \<longrightarrow> y \<in> Q \<longrightarrow> x > -1 \<and> x \<in> fd ` set xs) \<and>
     (\<forall>i it. items (conds st) i = Some it \<longrightarrow> timeout it \<noteq> p \<and> timeout it \<notin> Q))"

lemma CoPoll_end_ok:
  assumes ok: "loop_ok st L" and pw: "poll_waiting st p c xs"
  shows "\<exists>ys st'. CoPoll_end st p xs yielded = Some (if yielded then raise_cnt c else - 1, ys, st') \<and>
     loop_ok st' (\<lambda>k. map_option (removeAll p) (L k)) \<and> polls st' = (polls st)(p := None) \<and>
     length ys = length xs \<and>
     (\<forall>j < length xs. \<exists>pf. pollfds st (fds c + j) = Some pf \<and> ys ! j = (xs ! j)\<lparr>revents := revents pf\<rparr>) \<and>
     interest st' = (\<lambda>x. if x > -1 \<and> x \<in> fd ` set xs then None else interest st x)"
proof -
  let ?n = "length xs" and ?q = "poll_items c" and ?f = "fds c"
  let ?Q = "{?q..<?q + ?n}"
  have P: "polls st p = Some c" "nfds c = ?n" "p \<notin> ?Q"
     "\<And>j. j < ?n \<Longrightarrow> pollfds st (?f + j) \<noteq> None"
     "\<And>y pi. pitems st y = Some pi \<Longrightarrow> y \<notin> ?Q \<Longrightarrow> poll pi \<noteq> p \<and> y \<noteq> p \<and> self pi \<notin> {?f..<?f + ?n}"
     "\<And>y. y \<in> ?Q \<Longrightarrow> detached (timers st) y" "\<And>y. y \<in> ?Q \<Longrightarrow> polls st y = None"
     "\<And>x y ev. interest st x = Some (y, ev) \<Longrightarrow> y \<in> ?Q \<Longrightarrow> x > -1 \<and> x \<in> fd ` set xs"
     "\<And>i it. items (conds st) i = Some it \<Longrightarrow> timeout it \<noteq> p \<and> timeout it \<notin> ?Q"
    using pw by (simp_all add: poll_waiting_def Let_def)
  have l: "lists_ok (timers st) (timer st) (active_list st) (timeout_list st) L" and rf: "refs_ok st"
    using ok by (simp_all add: loop_ok_def)
  let ?L = "\<lambda>k. map_option (removeAll p) (L k)"
  have np: "items (timers st) p \<noteq> None" using refs_okD(1) [OF rf P(1)] by auto
  obtain t where t: "RemoveFromLink (timers st) p = Some t"
      "lists_ok t (timer st) (active_list st) (timeout_list st) ?L"
      "payload t = payload (timers st)" "detached t p"
    using lists_unlink [OF l np] by blast
  have dq: "detached t y" if "y \<in> ?Q" for y
  proof -
    note D = lists_okD [OF l] and D' = lists_okD [OF t(2)]
    have "detached (timers st) y" using P(6) that .
    then show ?thesis
      using lk.idle_iff [OF D(1), of y] lk.idle_iff [OF D'(1), of y] t(3) by fastforce
  qed
  let ?i = "\<lambda>x. if x > -1 \<and> x \<in> fd ` set xs then None else interest st x"
  have "pollfds (st\<lparr>timers := t\<rparr>) (?f + j) \<noteq> None" if "j < ?n" for j using P(4) [OF that] by simp
  from deregister_fds_ok [where st = "st\<lparr>timers := t\<rparr>" and xs = xs, OF this] obtain ys where
    y: "deregister_fds (st\<lparr>timers := t\<rparr>) ?f xs = Some (ys, st\<lparr>timers := t\<rparr>\<lparr>interest :=
          (\<lambda>x. if x > -1 \<and> x \<in> fd ` set xs then None else interest (st\<lparr>timers := t\<rparr>) x)\<rparr>)"
      "length ys = ?n"
      "\<forall>j < ?n. \<exists>pf. pollfds (st\<lparr>timers := t\<rparr>) (?f + j) = Some pf \<and> ys ! j = (xs ! j)\<lparr>revents := revents pf\<rparr>"
    by blast
  have ys: "deregister_fds (st\<lparr>timers := t\<rparr>) ?f xs = Some (ys, st\<lparr>timers := t, interest := ?i\<rparr>)"
      "length ys = ?n" "\<forall>j < ?n. \<exists>pf. pollfds st (?f + j) = Some pf \<and> ys ! j = (xs ! j)\<lparr>revents := revents pf\<rparr>"
  proof -
    have sel: "interest (st\<lparr>timers := t\<rparr>) = interest st" "pollfds (st\<lparr>timers := t\<rparr>) = pollfds st" by simp_all
    show "deregister_fds (st\<lparr>timers := t\<rparr>) ?f xs = Some (ys, st\<lparr>timers := t, interest := ?i\<rparr>)"
      "length ys = ?n" "\<forall>j < ?n. \<exists>pf. pollfds st (?f + j) = Some pf \<and> ys ! j = (xs ! j)\<lparr>revents := revents pf\<rparr>"
      by (fact y [unfolded sel])+
  qed
  let ?st = "free_poll (st\<lparr>timers := t, interest := ?i\<rparr>) p ?f ?q ?n"
  have "lists_ok (timers ?st) (timer st) (active_list st) (timeout_list st) ?L"
    by (rule lists_ok_free [OF t(2), where F = "insert p ?Q"])
      (use t(4) dq in \<open>auto simp: free_poll_def\<close>)
  moreover have "refs_ok ?st"
    unfolding refs_ok_def
  proof (intro conjI allI impI)
    fix y assume y: "polls ?st y \<noteq> None"
    then have "y \<noteq> p" "y \<notin> ?Q" "polls st y \<noteq> None" using P(7) [of y]
      by (auto simp: free_poll_def split: if_splits)
    then show "items (timers ?st) y \<noteq> None"
      using refs_okD(1) [OF rf, of y] payload_None [OF fun_cong [OF t(3), of y]] by (auto simp: free_poll_def)
  next
    fix y pi assume "pitems ?st y = Some pi"
    then have y: "y \<notin> ?Q" "pitems st y = Some pi" by (auto simp: free_poll_def split: if_splits)
    note F = P(5) [OF y(2,1)]
    show "pollfds ?st (self pi) \<noteq> None" "polls ?st (poll pi) \<noteq> None"
      using refs_okD(2,3) [OF rf y(2)] F by (auto simp: free_poll_def)
    show "\<exists>it. items (timers ?st) y = Some it \<and> prepare_pfn it = Some OnPollPrepare_pfn"
      using refs_okD(4) [OF rf y(2)] F y(1) payload_item [OF fun_cong [OF t(3), of y]]
      by (fastforce simp: free_poll_def)
  next
    fix x y ev assume "interest ?st x = Some (y, ev)"
    then have i: "interest st x = Some (y, ev)" "\<not> (x > -1 \<and> x \<in> fd ` set xs)"
      by (auto simp: free_poll_def split: if_splits)
    then have "y \<notin> ?Q" using P(8) by blast
    then show "pitems ?st y \<noteq> None" using refs_okD(5) [OF rf i(1)] by (auto simp: free_poll_def)
  next
    fix i it assume it: "items (conds ?st) i = Some it"
    then have it': "items (conds st) i = Some it" by (simp add: free_poll_def)
    show "items (timers ?st) (timeout it) \<noteq> None"
      using refs_okD(6) [OF rf it'] P(9) [OF it'] payload_None [OF fun_cong [OF t(3), of "timeout it"]]
      by (auto simp: free_poll_def)
  qed
  ultimately have "loop_ok ?st ?L" using ok by (auto simp: loop_ok_def free_poll_def)
  moreover have "CoPoll_end st p xs yielded = Some (if yielded then raise_cnt c else - 1, ys, ?st)"
    using P(1,2) t(1) ys(1) by (simp add: CoPoll_end_def TimeoutRemoveFromLink_def)
  moreover have "polls ?st = (polls st)(p := None)" "interest ?st = ?i" by (simp_all add: free_poll_def)
  ultimately show ?thesis using ys(2,3) by blast
qed

subsection \<open>The properties of the loop\<close>

text \<open>
  A loop with two waiters: the poll 1 for descriptor 7, due at time 1002, and the waiter 10
  of the condition variable 400, whose timer is 11.
\<close>

definition sample_loop :: co_epoll where
  "sample_loop = \<lparr>
     timers = \<lparr>items = [1 \<mapsto> sample_item 1002 (Some 102),
                       5 \<mapsto> zero_item\<lparr>prepare_pfn := Some OnPollPrepare_pfn\<rparr>,
                       11 \<mapsto> zero_item\<lparr>process_pfn := Some OnProcessEvent_pfn, args := Some 8\<rparr>],
       links = [100 \<mapsto> \<lparr>head = None, tail = None\<rparr>, 101 \<mapsto> \<lparr>head = None, tail = None\<rparr>,
                102 \<mapsto> \<lparr>head = Some 1, tail = Some 1\<rparr>, 103 \<mapsto> \<lparr>head = None, tail = None\<rparr>,
                200 \<mapsto> \<lparr>head = None, tail = None\<rparr>, 300 \<mapsto> \<lparr>head = None, tail = None\<rparr>]\<rparr>,
     timer = sample_wheel, timeout_list = 200, active_list = 300,
     polls = [1 \<mapsto> \<lparr>fds = 50, nfds = 1, poll_items = 5, all_event_detach = 0, raise_cnt = 0\<rparr>],
     pitems = [5 \<mapsto> \<lparr>self = 50, poll = 1, event = 1\<rparr>],
     pollfds = [50 \<mapsto> \<lparr>fd = 0, pevents = 0, revents = 0\<rparr>],
     conds = \<lparr>items = [10 \<mapsto> \<lparr>prev = None, nxt = None, owner = Some 400, timeout = 11\<rparr>],
              links = [400 \<mapsto> \<lparr>head = Some 10, tail = Some 10\<rparr>]\<rparr>,
     interest = [7 \<mapsto> (5, 1)]\<rparr>"

abbreviation sample_loop_lists :: "addr \<rightharpoonup> addr list" where
  "sample_loop_lists \<equiv> [100 \<mapsto> [], 101 \<mapsto> [], 102 \<mapsto> [1], 103 \<mapsto> [], 200 \<mapsto> [], 300 \<mapsto> []]"

lemmas sample_loop_simps = sample_loop_def sample_item_def zero_item_def sample_wheel_def

lemma sample_conds_absl: "absl (conds sample_loop) [400 \<mapsto> [10]]"
  by (auto simp: absl_def sample_loop_simps split: if_splits)

lemma sample_loop_lists_ok:
  "lists_ok (timers sample_loop) (timer sample_loop) 300 200 sample_loop_lists"
proof -
  have a: "absl (timers sample_loop) sample_loop_lists"
    by (auto simp: absl_def sample_loop_simps split: if_splits)
  have w: "timer sample_loop = sample_wheel" by (simp add: sample_loop_def)
  have f: "start sample_wheel = 1000" "slot_size sample_wheel = 4" "start_idx sample_wheel = 0"
    "slot_set sample_wheel = {100..<104}"
    by (simp_all add: sample_wheel_def slot_set_def)
  have e: "expire (timers sample_loop) i = (if i = 1 then 1002 else 0)" for i
    by (simp add: expire_def sample_loop_simps)
  have "start sample_wheel + d \<le> expire (timers sample_loop) i"
    if d: "int d < 4" and L: "sample_loop_lists (slot_at sample_wheel d) = Some xs" and i: "i \<in> set xs" for d xs i
  proof -
    have "sample_loop_lists (100 + d) = Some xs" using L by (simp only: sample_wheel_slot [OF d])
    then have "d = 2 \<and> i = 1" using i d by (auto split: if_splits)
    then show ?thesis by (simp add: f e)
  qed
  then have "wheel_ok (timers sample_loop) sample_wheel sample_loop_lists"
    unfolding wheel_ok_def f by auto
  then show ?thesis using a by (simp add: lists_ok_def w f e)
qed

lemma sample_loop_ok: "loop_ok sample_loop sample_loop_lists"
proof -
  have "refs_ok sample_loop" by (auto simp: refs_ok_def sample_loop_simps split: if_splits)
  moreover have "active_list sample_loop = 300" "timeout_list sample_loop = 200"
    by (simp_all add: sample_loop_def)
  ultimately show ?thesis using sample_loop_lists_ok sample_conds_absl by (auto simp: loop_ok_def)
qed

text \<open>
  C1: an iteration of the event loop wakes the right waiters. From a well-formed state,
  with coroutine bodies that run until they wait again, the iteration returns with the
  state well formed and the active list empty; no item is processed twice; every timer
  that is due is processed, and every poll that received an event, unless it carries the
  mark of an earlier timeout; and nothing is processed before its time that was neither
  on the active list nor woken by an event.
\<close>

theorem CoEventloop_iteration_correct:
  assumes "loop_ok st L" and "\<forall>(q, ev) \<in> set evs. pitems st q \<noteq> None"
    and "L (active_list st) = Some xs" and "parks resume"
    and "start (timer st) \<le> now" and "0 < now" and "now - start (timer st) + 1 < 2 ^ 31" and "now < 2 ^ 62"
  shows "\<exists>hs st' L'. CoEventloop_iteration resume st evs now = Some (hs, st') \<and> loop_ok st' L' \<and>
     L' (active_list st) = Some [] \<and> distinct hs \<and>
     (\<forall>i. on_wheel (timer st) L i \<and> expire (timers st) i \<le> now \<longrightarrow> i \<in> set hs) \<and>
     (\<forall>i \<in> woken st evs. (\<forall>it. items (timers st) i = Some it \<longrightarrow> \<not> is_timeout it \<or> expire_time it \<le> now) \<longrightarrow>
        i \<in> set hs) \<and>
     (\<forall>i \<in> set hs. i \<in> set xs \<or> i \<in> woken st evs \<or>
        (on_wheel (timer st) L i \<and> expire (timers st) i \<le> now))"
proof -
  obtain st1 L1 zs ts where c: "collect st evs now = Some st1" "loop_ok st1 L1"
     "active_list st1 = active_list st" "start (timer st1) = now"
     "L1 (active_list st) = Some (zs @ ts)" "set zs = set xs \<union> woken st evs"
     "\<And>i. on_wheel (timer st) L i \<and> i \<notin> woken st evs \<longleftrightarrow> i \<in> set ts \<or> on_wheel (timer st1) L1 i"
     "\<And>i. on_wheel (timer st1) L1 i \<Longrightarrow> now < expire (timers st) i"
     "\<And>i it. items (timers st) i = Some it \<Longrightarrow> \<exists>it'. items (timers st1) i = Some it' \<and>
        expire_time it' = expire_time it \<and> is_timeout it' = (i \<in> set ts \<or> is_timeout it)"
    using collect_ok [OF assms(1-3,5-7)] by blast
  obtain st2 L2 where d: "dispatch resume st1 now = Some (filter (ready (timers st1) now) (zs @ ts), st2)"
     "loop_ok st2 L2" "L2 (active_list st) = Some []"
    using dispatch_ok [OF c(2), of "zs @ ts" resume now] c assms(4,6,8) by auto
  have dist: "distinct (zs @ ts)" using loop_ok_active(2) [OF c(2)] c(3,5) by simp
  have stored: "\<exists>it. items (timers st) i = Some it" if "on_wheel (timer st) L i" for i
  proof -
    have "absl (timers st) L" using assms(1) by (simp add: loop_ok_def lists_ok_def)
    then show ?thesis using that absl_member by (fastforce simp: on_wheel_def)
  qed
  have rd: "ready (timers st1) now i \<longleftrightarrow> (i \<notin> set ts \<and> \<not> is_timeout it) \<or> expire_time it \<le> now"
    if "items (timers st) i = Some it" for i it
    using c(9) [OF that] by (auto simp: ready_def)
  show ?thesis
  proof (intro exI conjI)
    show "CoEventloop_iteration resume st evs now = Some (filter (ready (timers st1) now) (zs @ ts), st2)"
      using c(1) d(1) by (simp add: CoEventloop_iteration_def)
    show "loop_ok st2 L2" "L2 (active_list st) = Some []" using d by simp_all
    show "distinct (filter (ready (timers st1) now) (zs @ ts))" by (rule distinct_filter [OF dist])
    show "\<forall>i. on_wheel (timer st) L i \<and> expire (timers st) i \<le> now \<longrightarrow>
        i \<in> set (filter (ready (timers st1) now) (zs @ ts))"
    proof (intro allI impI)
      fix i assume i: "on_wheel (timer st) L i \<and> expire (timers st) i \<le> now"
      then obtain it where it: "items (timers st) i = Some it" using stored by blast
      then have "expire_time it \<le> now" using i by (simp add: expire_def)
      moreover have "i \<in> set (zs @ ts)" using i c(6) c(7,8) [of i] by auto
      ultimately show "i \<in> set (filter (ready (timers st1) now) (zs @ ts))" using rd [OF it] by simp
    qed
    show "\<forall>i \<in> woken st evs. (\<forall>it. items (timers st) i = Some it \<longrightarrow> \<not> is_timeout it \<or> expire_time it \<le> now) \<longrightarrow>
        i \<in> set (filter (ready (timers st1) now) (zs @ ts))"
    proof (intro ballI impI)
      fix i assume w: "i \<in> woken st evs"
        "\<forall>it. items (timers st) i = Some it \<longrightarrow> \<not> is_timeout it \<or> expire_time it \<le> now"
      have "refs_ok st" using assms(1) by (simp add: loop_ok_def)
      then obtain it where it: "items (timers st) i = Some it"
        using w(1) refs_okD(1) [of st i] unfolding woken_def by blast
      have "i \<in> set zs" using w(1) c(6) by simp
      moreover from this have "i \<notin> set ts" using dist by auto
      ultimately show "i \<in> set (filter (ready (timers st1) now) (zs @ ts))"
        using rd [OF it] w(2) it by simp
    qed
    show "\<forall>i \<in> set (filter (ready (timers st1) now) (zs @ ts)). i \<in> set xs \<or> i \<in> woken st evs \<or>
        (on_wheel (timer st) L i \<and> expire (timers st) i \<le> now)"
    proof
      fix i assume i: "i \<in> set (filter (ready (timers st1) now) (zs @ ts))"
      show "i \<in> set xs \<or> i \<in> woken st evs \<or> (on_wheel (timer st) L i \<and> expire (timers st) i \<le> now)"
      proof (cases "i \<in> set zs")
        case False
        then have t: "i \<in> set ts" "on_wheel (timer st) L i" using i c(7) [of i] by auto
        obtain it where it: "items (timers st) i = Some it" using stored [OF t(2)] by blast
        then have "expire_time it \<le> now" using rd [OF it] i t(1) by auto
        then show ?thesis using t(2) it by (simp add: expire_def)
      qed (use c(6) in auto)
    qed
  qed
qed


lemma parks_idle: "parks (\<lambda>co st. Some st)"
  by (auto simp: parks_def)

theorem CoEventloop_iteration_correct_witness:
  "\<exists>hs st'. CoEventloop_iteration (\<lambda>co st. Some st) sample_loop [(5, 1)] 1001 = Some (hs, st') \<and> 1 \<in> set hs"
proof -
  have f: "start (timer sample_loop) = 1000" "active_list sample_loop = 300"
    "woken sample_loop [(5, 1)] = {1}"
    by (auto simp: sample_loop_def sample_wheel_def woken_def)
  have "\<forall>(q, ev) \<in> set [(5, 1 :: 32 word)]. pitems sample_loop q \<noteq> None" by (simp add: sample_loop_def)
  moreover have "sample_loop_lists (active_list sample_loop) = Some []" by (simp add: f)
  moreover have "\<forall>it. items (timers sample_loop) 1 = Some it \<longrightarrow> \<not> is_timeout it \<or> expire_time it \<le> 1001"
    by (simp add: sample_loop_def sample_item_def)
  ultimately show ?thesis
    using CoEventloop_iteration_correct [OF sample_loop_ok _ _ parks_idle, of "[(5, 1)]" "[]" 1001] f
    by auto
qed

text \<open>
  The event masks survive the way through epoll. Translating a requested mask to epoll
  and back gives the same mask restricted to the six events the code names; the other bits
  (POLLPRI among them) are lost, and nothing is added.
\<close>

theorem EventMask_roundtrip: "EpollEvent2Poll (PollEvent2Epoll e) = e AND 0x15D"
  by (rule bit_word_eqI) (unfold EpollEvent2Poll_bit PollEvent2Epoll_bit bit_and_iff mask_bit, blast)

text \<open>
  C17: CoCondBroadcast wakes every waiter once, in order. It returns, the condition's
  waiting list is empty afterwards, and the timers of the waiters, wherever they were
  (on the wheel, on the active list or on no list), are at the end of the active list in
  the order in which the waiters arrived, and on no other list.
\<close>

theorem CoCondBroadcast_correct:
  assumes "loop_ok st L" and "absl (conds st) C" and "C c = Some ws" and "L (active_list st) = Some xs"
    and "distinct (map (waiter_timer st) ws)"
  shows "\<exists>st' L'. CoCondBroadcast st c = Some st' \<and> loop_ok st' L' \<and> absl (conds st') (C(c \<mapsto> [])) \<and>
     L' (active_list st) = Some (filter (\<lambda>i. i \<notin> waiter_timer st ` set ws) xs @ map (waiter_timer st) ws) \<and>
     (\<forall>k. k \<noteq> active_list st \<longrightarrow>
        L' k = map_option (filter (\<lambda>i. i \<notin> waiter_timer st ` set ws)) (L k))"
  using CoCondBroadcast_ok [OF assms(1-3)] assms(4)
  by (fastforce simp: move_all_eq [OF assms(5)])

theorem CoCondBroadcast_correct_witness:
  "\<exists>st'. CoCondBroadcast sample_loop 400 = Some st' \<and> absl (conds st') [400 \<mapsto> []]"
proof -
  have "[400 \<mapsto> [10 :: addr]] 400 = Some [10]" by simp
  moreover have "sample_loop_lists (active_list sample_loop) = Some []" by (simp add: sample_loop_def)
  ultimately show ?thesis
    using CoCondBroadcast_correct [OF sample_loop_ok sample_conds_absl, of 400 "[10]" "[]"]
    by (simp add: waiter_timer_def) blast
qed

text \<open>
  C20: entering CoPoll is safe and files the deadline. Given fresh memory, CoPoll either
  falls back to \<open>poll\<close> on a single descriptor that epoll refuses, and then leaves the loop
  exactly as it was, or it files the new poll object on the wheel with the expiry
  \<open>now + timeout\<close> (a negative timeout counts as INT_MAX). Then the item of every descriptor
  points to its copy of the descriptor, to the poll object and has the requested events as
  its mask; every descriptor that \<open>epoll_ctl\<close> accepts is on the interest list with that
  item (the last one, if it is given twice) and that mask, and no other descriptor's
  registration changes. The state stays well formed and no other item's data changes.
\<close>

theorem CoPoll_begin_correct:
  assumes "loop_ok st L" and "fresh_poll st p f q (length xs)" and "ms \<noteq> 0" and "ms < 2 ^ 31"
    and "0 < start (timer st)" and "start (timer st) \<le> now" and "now < 2 ^ 62"
  shows "(length xs = 1 \<and> fb \<and>
       CoPoll_begin ctl fb co p f q st xs ms now = Some (CallPoll (if ms < 0 then INT_MAX else ms), st)) \<or>
    (\<exists>st' k ys. CoPoll_begin ctl fb co p f q st xs ms now = Some (PollYield, st') \<and>
       k \<in> slot_set (timer st) \<and> L k = Some ys \<and> loop_ok st' (L(k \<mapsto> ys @ [p])) \<and>
       expire (timers st') p = now + nat (if ms < 0 then INT_MAX else ms) \<and>
       (\<forall>j < length xs. pitems st' (q + j) = Some \<lparr>self = f + j, poll = p, event = item_mask (xs ! j)\<rparr>) \<and>
       (\<forall>j < length xs. registers ctl (xs ! j) \<and> (\<forall>k < length xs. j < k \<longrightarrow> fd (xs ! k) \<noteq> fd (xs ! j)) \<longrightarrow>
          interest st' (fd (xs ! j)) = Some (q + j, PollEvent2Epoll (pevents (xs ! j)))) \<and>
       (\<forall>d. (\<forall>x \<in> set xs. registers ctl x \<longrightarrow> fd x \<noteq> d) \<longrightarrow> interest st' d = interest st d) \<and>
       (\<forall>i. items (timers st) i \<noteq> None \<longrightarrow> payload (timers st') i = payload (timers st) i))"
proof -
  have i: "int (nat (if ms < 0 then INT_MAX else ms)) = (if ms < 0 then INT_MAX else ms)"
    using assms(3) by (simp add: INT_MAX_def)
  from CoPoll_begin_ok [OF assms refl, of fb ctl co] show ?thesis unfolding i by blast
qed

theorem CoPoll_begin_correct_witness:
  "\<exists>st'. CoPoll_begin (\<lambda>_. None) False (Some 9) 600 610 620 sample_loop [\<lparr>fd = 3, pevents = 1, revents = 0\<rparr>] 50 1001
     = Some (PollYield, st') \<and> expire (timers st') 600 = 1051 \<and> interest st' 3 = Some (620, 1) \<and>
     interest st' 7 = Some (5, 1)"
proof -
  have "fresh_poll sample_loop 600 610 620 (length [\<lparr>fd = 3, pevents = 1, revents = 0\<rparr>])"
    by (simp add: fresh_poll_def sample_loop_def)
  moreover have "0 < start (timer sample_loop)" "start (timer sample_loop) \<le> 1001"
    by (simp_all add: sample_loop_def sample_wheel_def)
  ultimately show ?thesis
    using CoPoll_begin_correct [OF sample_loop_ok, where p = 600 and f = 610 and q = 620 and
        xs = "[\<lparr>fd = 3, pevents = 1, revents = 0\<rparr>]" and ms = 50 and now = 1001 and fb = False and
        ctl = "\<lambda>_. None" and co = "Some 9"]
    by (auto simp: registers_def PollEvent2Epoll_def sample_loop_def)
qed

text \<open>
  C22: leaving CoPoll leaves nothing dangling. When the waiting coroutine runs again, CoPoll
  takes its object off every list, copies the reported events to the caller's array in
  order, deletes its descriptors from the interest list, and frees its objects; no list,
  interest entry or condition of the remaining state refers to the freed memory. The
  deletion is by descriptor: it also removes the registration that another coroutine
  holds for the same descriptor.
\<close>

theorem CoPoll_end_correct:
  assumes "loop_ok st L" and "poll_waiting st p c xs"
  shows "\<exists>ys st'. CoPoll_end st p xs yielded = Some (if yielded then raise_cnt c else - 1, ys, st') \<and>
     loop_ok st' (\<lambda>k. map_option (removeAll p) (L k)) \<and> polls st' = (polls st)(p := None) \<and>
     length ys = length xs \<and>
     (\<forall>j < length xs. \<exists>pf. pollfds st (fds c + j) = Some pf \<and> ys ! j = (xs ! j)\<lparr>revents := revents pf\<rparr>) \<and>
     interest st' = (\<lambda>x. if x > -1 \<and> x \<in> fd ` set xs then None else interest st x)"
  using assms by (rule CoPoll_end_ok)

theorem CoPoll_end_correct_witness:
  "\<exists>ys st'. CoPoll_end sample_loop 1 [\<lparr>fd = 7, pevents = 1, revents = 0\<rparr>] True = Some (0, ys, st') \<and>
     interest st' 7 = None"
proof -
  have "poll_waiting sample_loop 1 \<lparr>fds = 50, nfds = 1, poll_items = 5, all_event_detach = 0, raise_cnt = 0\<rparr>
      [\<lparr>fd = 7, pevents = 1, revents = 0\<rparr>]"
    by (auto simp: poll_waiting_def sample_loop_simps detached_def split: if_splits)
  from CoPoll_end_correct [OF sample_loop_ok this, of True] show ?thesis by auto
qed

end
