(* ===== verification/Coroutine.thy ===== *)
theory Coroutine
  imports Prelude
begin

unbundle bit_operations_syntax

section \<open>Coroutines and shared stacks (libco/co_routine.cpp)\<close>

text \<open>
  One thread's \<open>co_env_t\<close>: the stack of running coroutines, the coroutine objects and the
  stack memories. A stack memory holds its bytes, \<open>stack_bp\<close> is the end of the buffer and
  \<open>stack_sp\<close> an offset into it, so that the live part of a suspended coroutine's stack is
  the buffer from \<open>stack_sp\<close> on. The address of the local variable \<open>sp\<close> in \<open>CoSwap\<close> is
  a parameter.

  \<open>co_ctx_swap\<close> is assembly and not in this file: control passes to the other coroutine,
  which either starts \<open>CoFunc\<close> or returns from its own \<open>co_ctx_swap\<close> and runs the second
  half of the \<open>CoSwap\<close> it had called. \<open>CoSwap\<close> is therefore split in two, and \<open>switch_to\<close>
  puts the two halves together in the order in which they run, with the change of context
  (\<open>running\<close>) between them.
\<close>

subsection \<open>State\<close>

record stack_mem =
  occupy_co :: ptr
  stack_size :: int
  stack_buffer :: "nat list"

record share_stack =
  alloc_idx :: nat
  sh_stack_size :: int
  count :: int
  stack_array :: "addr list"

record coroutine =
  pfn :: ptr
  args :: ptr
  started :: bool
  ended :: bool
  is_main :: bool
  enable_sys_hook :: bool
  is_share_stack :: bool
  stack_mem :: addr
  ss_size :: int
  stack_sp :: nat
  save_size :: nat
  save_buffer :: "nat list option"

record co_env =
  call_stack :: "ptr list"     \<comment> \<open>128 entries\<close>
  call_stack_size :: int
  pending_co :: ptr
  env_occupy_co :: ptr
  cos :: "addr \<rightharpoonup> coroutine"
  stacks :: "addr \<rightharpoonup> stack_mem"
  shares :: "addr \<rightharpoonup> share_stack"
  running :: addr              \<comment> \<open>the coroutine whose context the processor holds\<close>

definition upd_co :: "co_env \<Rightarrow> addr \<Rightarrow> (coroutine \<Rightarrow> coroutine) \<Rightarrow> co_env option" where
  "upd_co e c f = do { x \<leftarrow> cos e c; Some (e\<lparr>cos := (cos e)(c \<mapsto> f x)\<rparr>) }"

definition upd_stack :: "co_env \<Rightarrow> addr \<Rightarrow> (stack_mem \<Rightarrow> stack_mem) \<Rightarrow> co_env option" where
  "upd_stack e k f = do { x \<leftarrow> stacks e k; Some (e\<lparr>stacks := (stacks e)(k \<mapsto> f x)\<rparr>) }"

text \<open>An access to \<open>call_stack\<close>: outside the array it is undefined.\<close>

definition stack_get :: "co_env \<Rightarrow> int \<Rightarrow> addr option" where
  "stack_get e i = (if 0 \<le> i then do { p \<leftarrow> vget (call_stack e) (nat i); p } else None)"

subsection \<open>Stack memory\<close>

text \<open>\<open>StackMemAlloc\<close>: the bytes of the new buffer are whatever \<open>malloc\<close> returns.\<close>

definition StackMemAlloc :: "co_env \<Rightarrow> addr \<Rightarrow> nat list \<Rightarrow> int \<Rightarrow> co_env" where
  "StackMemAlloc e a bytes n =
     e\<lparr>stacks := (stacks e)(a \<mapsto> \<lparr>occupy_co = None, stack_size = n, stack_buffer = bytes\<rparr>)\<rparr>"

text \<open>\<open>alloc_idx\<close> is unsigned, so \<open>count\<close> is converted to unsigned for the remainder.\<close>

definition StackMemGet :: "co_env \<Rightarrow> ptr \<Rightarrow> (ptr \<times> co_env) option" where
  "StackMemGet e p = (case p of
      None \<Rightarrow> Some (None, e)
    | Some s \<Rightarrow> do {
        sh \<leftarrow> shares e s;
        let u = nat (count sh mod 2 ^ 32);
        if u = 0 then None
        else do {
          k \<leftarrow> vget (stack_array sh) (alloc_idx sh mod u);
          Some (Some k, e\<lparr>shares := (shares e)(s \<mapsto> sh\<lparr>alloc_idx := (alloc_idx sh + 1) mod 2 ^ 32\<rparr>)\<rparr>) } })"

fun alloc_stacks :: "co_env \<Rightarrow> (addr \<times> nat list) list \<Rightarrow> int \<Rightarrow> co_env" where
  "alloc_stacks e [] n = e"
| "alloc_stacks e ((a, bytes) # xs) n = alloc_stacks (StackMemAlloc e a bytes n) xs n"

text \<open>\<open>xs\<close>: the address and the bytes of each new stack; its length is \<open>count\<close>.\<close>

definition ShareStackAlloc :: "co_env \<Rightarrow> addr \<Rightarrow> (addr \<times> nat list) list \<Rightarrow> int \<Rightarrow> co_env" where
  "ShareStackAlloc e s xs n =
     (alloc_stacks e xs n)\<lparr>shares := (shares e)(s \<mapsto>
        \<lparr>alloc_idx = 0, sh_stack_size = n, count = int (length xs), stack_array = map fst xs\<rparr>)\<rparr>"

definition StackBufferSave :: "co_env \<Rightarrow> addr \<Rightarrow> co_env option" where
  "StackBufferSave e c = do {
     co \<leftarrow> cos e c;
     k \<leftarrow> stacks e (stack_mem co);
     if stack_sp co \<le> length (stack_buffer k) then
       upd_co e c (\<lambda>x. x\<lparr>save_size := length (stack_buffer k) - stack_sp co,
                         save_buffer := Some (drop (stack_sp co) (stack_buffer k))\<rparr>)
     else None }"

subsection \<open>Switching\<close>

definition CoSwap_out :: "co_env \<Rightarrow> addr \<Rightarrow> nat \<Rightarrow> addr \<Rightarrow> co_env option" where
  "CoSwap_out e cur sp pending = do {
     e1 \<leftarrow> upd_co e cur (\<lambda>x. x\<lparr>stack_sp := sp\<rparr>);
     p \<leftarrow> cos e1 pending;
     if \<not> is_share_stack p then Some (e1\<lparr>pending_co := None, env_occupy_co := None\<rparr>)
     else do {
       let e2 = e1\<lparr>pending_co := Some pending\<rparr>;
       k \<leftarrow> stacks e2 (stack_mem p);
       let occupy = occupy_co k;
       e3 \<leftarrow> upd_stack e2 (stack_mem p) (\<lambda>x. x\<lparr>occupy_co := Some pending\<rparr>);
       let e4 = e3\<lparr>env_occupy_co := occupy\<rparr>;
       (case occupy of
          None \<Rightarrow> Some e4
        | Some o1 \<Rightarrow> if o1 \<noteq> pending then StackBufferSave e4 o1 else Some e4) } }"

text \<open>\<open>memcpy(stack_sp, save_buffer, save_size)\<close> into the buffer of a stack.\<close>

definition overlay :: "nat list \<Rightarrow> nat \<Rightarrow> nat list \<Rightarrow> nat list option" where
  "overlay buf sp bytes = (if sp + length bytes \<le> length buf
     then Some (take sp buf @ bytes @ drop (sp + length bytes) buf) else None)"

definition CoSwap_in :: "co_env \<Rightarrow> co_env option" where
  "CoSwap_in e = (case (env_occupy_co e, pending_co e) of
      (Some occ, Some pend) \<Rightarrow>
        if occ \<noteq> pend then do {
          p \<leftarrow> cos e pend;
          case save_buffer p of
            Some bytes \<Rightarrow>
              if save_size p > 0 then do {
                k \<leftarrow> stacks e (stack_mem p);
                buf \<leftarrow> overlay (stack_buffer k) (stack_sp p) (take (save_size p) bytes);
                upd_stack e (stack_mem p) (\<lambda>x. x\<lparr>stack_buffer := buf\<rparr>) }
              else Some e
          | None \<Rightarrow> Some e }
        else Some e
    | _ \<Rightarrow> Some e)"

definition switch_to :: "co_env \<Rightarrow> addr \<Rightarrow> nat \<Rightarrow> addr \<Rightarrow> bool \<Rightarrow> co_env option" where
  "switch_to e cur sp pending fresh = do {
     e1 \<leftarrow> CoSwap_out e cur sp pending;
     let e2 = e1\<lparr>running := pending\<rparr>;
     if fresh then Some e2 else CoSwap_in e2 }"

subsection \<open>Operations\<close>

definition CoSelf :: "co_env \<Rightarrow> addr option" where
  "CoSelf e = stack_get e (call_stack_size e - 1)"

definition CoResume :: "co_env \<Rightarrow> addr \<Rightarrow> nat \<Rightarrow> co_env option" where
  "CoResume e c sp = do {
     co \<leftarrow> cos e c;
     cur \<leftarrow> stack_get e (call_stack_size e - 1);
     e1 \<leftarrow> upd_co e c (\<lambda>x. x\<lparr>started := True\<rparr>);
     cs \<leftarrow> (if 0 \<le> call_stack_size e1 then vset (call_stack e1) (nat (call_stack_size e1)) (Some c) else None);
     let e2 = e1\<lparr>call_stack := cs, call_stack_size := call_stack_size e1 + 1\<rparr>;
     switch_to e2 cur sp c (\<not> started co) }"

definition CoYield :: "co_env \<Rightarrow> nat \<Rightarrow> co_env option" where
  "CoYield e sp = do {
     prev \<leftarrow> stack_get e (call_stack_size e - 2);
     cur \<leftarrow> stack_get e (call_stack_size e - 1);
     let e1 = e\<lparr>call_stack_size := call_stack_size e - 1\<rparr>;
     switch_to e1 cur sp prev False }"

text \<open>\<open>CoFunc\<close> after the body has returned: the coroutine ends by yielding.\<close>

definition CoFunc_end :: "co_env \<Rightarrow> addr \<Rightarrow> nat \<Rightarrow> co_env option" where
  "CoFunc_end e c sp = do { e1 \<leftarrow> upd_co e c (\<lambda>x. x\<lparr>ended := True\<rparr>); CoYield e1 sp }"

definition CoFree :: "co_env \<Rightarrow> addr \<Rightarrow> co_env option" where
  "CoFree e c = do {
     co \<leftarrow> cos e c;
     e1 \<leftarrow> (if \<not> is_share_stack co
            then do { k \<leftarrow> stacks e (stack_mem co); Some (e\<lparr>stacks := (stacks e)(stack_mem co := None)\<rparr>) }
            else do {
              k \<leftarrow> stacks e (stack_mem co);
              if occupy_co k = Some c then upd_stack e (stack_mem co) (\<lambda>x. x\<lparr>occupy_co := None\<rparr>)
              else Some e });
     Some (e1\<lparr>cos := (cos e1)(c := None)\<rparr>) }"

definition CoReset :: "co_env \<Rightarrow> addr \<Rightarrow> co_env option" where
  "CoReset e c = do {
     co \<leftarrow> cos e c;
     if \<not> started co \<or> is_main co then Some e
     else do {
       e1 \<leftarrow> upd_co e c (\<lambda>x. x\<lparr>started := False, ended := False\<rparr>);
       e2 \<leftarrow> (if save_buffer co \<noteq> None
              then upd_co e1 c (\<lambda>x. x\<lparr>save_buffer := None, save_size := 0\<rparr>) else Some e1);
       k \<leftarrow> stacks e2 (stack_mem co);
       if occupy_co k = Some c then upd_stack e2 (stack_mem co) (\<lambda>x. x\<lparr>occupy_co := None\<rparr>)
       else Some e2 } }"

text \<open>
  The size of a new stack: the default when it is not positive, at most 8 MB, rounded up
  to a multiple of 4 kB.
\<close>

definition round_stack_size :: "int \<Rightarrow> int" where
  "round_stack_size n = (
     let n = (if n \<le> 0 then 128 * 1024 else if n > 8 * 1024 * 1024 then 8 * 1024 * 1024 else n) in
     if n AND 0xFFF \<noteq> 0 then (n AND NOT 0xFFF) + 0x1000 else n)"

text \<open>
  \<open>attr\<close>: the requested size and the shared stack; without one the constructor's default
  128 kB applies. \<open>c\<close>, \<open>a\<close>, \<open>bytes\<close>: what the allocator returns. The fields of the new
  object that the function does not assign are zero from \<open>calloc\<close>.
\<close>

definition CoCreate :: "co_env \<Rightarrow> addr \<Rightarrow> addr \<Rightarrow> nat list \<Rightarrow> (int \<times> ptr) option \<Rightarrow> ptr \<Rightarrow> ptr \<Rightarrow> co_env option" where
  "CoCreate e c a bytes attr f x = do {
     let (n, sh) = (case attr of None \<Rightarrow> (128 * 1024, None) | Some p \<Rightarrow> p);
     let n = round_stack_size n;
     (k, n, e1) \<leftarrow> (case sh of
         Some s \<Rightarrow> do { (k, e1) \<leftarrow> StackMemGet e (Some s); k' \<leftarrow> k; so \<leftarrow> shares e1 s; Some (k', sh_stack_size so, e1) }
       | None \<Rightarrow> Some (a, n, StackMemAlloc e a bytes n));
     Some (e1\<lparr>cos := (cos e1)(c \<mapsto> \<lparr>pfn = f, args = x, started = False, ended = False,
        is_main = False, enable_sys_hook = False, is_share_stack = (sh \<noteq> None), stack_mem = k,
        ss_size = n, stack_sp = 0, save_size = 0, save_buffer = None\<rparr>)\<rparr>) }"

text \<open>\<open>CurrThreadEnvInit\<close>: the main coroutine at \<open>c\<close> is alone on the call stack.\<close>

definition CurrThreadEnvInit :: "addr \<Rightarrow> addr \<Rightarrow> nat list \<Rightarrow> co_env option" where
  "CurrThreadEnvInit c a bytes = do {
     let e = \<lparr>call_stack = replicate 128 None, call_stack_size = 0, pending_co = None,
              env_occupy_co = None, cos = Map.empty, stacks = Map.empty, shares = Map.empty, running = c\<rparr>;
     e1 \<leftarrow> CoCreate e c a bytes None None None;
     e2 \<leftarrow> upd_co e1 c (\<lambda>x. x\<lparr>is_main := True\<rparr>);
     let e3 = e2\<lparr>pending_co := None, env_occupy_co := None\<rparr>;
     cs \<leftarrow> vset (call_stack e3) (nat (call_stack_size e3)) (Some c);
     Some (e3\<lparr>call_stack := cs, call_stack_size := call_stack_size e3 + 1\<rparr>) }"

subsection \<open>Facts\<close>

lemma upd_co_eq_Some [simp]:
  "upd_co e c f = Some e' \<longleftrightarrow> (\<exists>x. cos e c = Some x \<and> e' = e\<lparr>cos := (cos e)(c \<mapsto> f x)\<rparr>)"
  by (auto simp: upd_co_def)

lemma upd_stack_eq_Some [simp]:
  "upd_stack e k f = Some e' \<longleftrightarrow> (\<exists>x. stacks e k = Some x \<and> e' = e\<lparr>stacks := (stacks e)(k \<mapsto> f x)\<rparr>)"
  by (auto simp: upd_stack_def)

lemma upd_co_Some [ub_simps]: "cos e c = Some x \<Longrightarrow> upd_co e c f = Some (e\<lparr>cos := (cos e)(c \<mapsto> f x)\<rparr>)"
  by simp

lemma upd_stack_Some [ub_simps]:
  "stacks e k = Some x \<Longrightarrow> upd_stack e k f = Some (e\<lparr>stacks := (stacks e)(k \<mapsto> f x)\<rparr>)"
  by simp

lemma and_fff: "n AND 0xFFF = n mod (0x1000 :: int)"
proof -
  have "n AND mask 12 = n mod 2 ^ 12" by (simp only: take_bit_eq_mask [symmetric] take_bit_eq_mod)
  then show ?thesis by (simp add: mask_eq_exp_minus_1)
qed

lemma and_not_split: "(n AND m) + (n AND NOT m) = (n :: int)"
proof -
  have "(n AND m) + (n AND NOT m) = (n AND m) OR (n AND NOT m)"
    by (rule disjunctive_add_eq_or) (auto simp: bit_eq_iff bit_and_iff bit_not_iff)
  also have "\<dots> = n" by (auto simp: bit_eq_iff bit_and_iff bit_or_iff bit_not_iff)
  finally show ?thesis .
qed

lemma and_not_fff: "n AND NOT 0xFFF = n - n mod (0x1000 :: int)"
  using and_not_split [of n "0xFFF"] by (simp only: and_fff)

lemma round_stack_size_eq:
  "round_stack_size n = (let m = (if n \<le> 0 then 128 * 1024 else if n > 8 * 1024 * 1024 then 8 * 1024 * 1024 else n)
     in if m mod 0x1000 = 0 then m else m - m mod 0x1000 + 0x1000)"
  by (simp only: round_stack_size_def and_fff and_not_fff Let_def) simp

text \<open>
  The live bytes of a suspended coroutine on a shared stack are in place while it still
  occupies the stack, and in its save buffer otherwise.
\<close>

definition parked :: "co_env \<Rightarrow> addr \<Rightarrow> nat list \<Rightarrow> bool" where
  "parked e c bytes \<longleftrightarrow> (\<exists>co k. cos e c = Some co \<and> is_share_stack co \<and> stacks e (stack_mem co) = Some k \<and>
     occupy_co k \<noteq> None \<and> stack_sp co + length bytes = length (stack_buffer k) \<and>
     (if occupy_co k = Some c then drop (stack_sp co) (stack_buffer k) = bytes
      else save_buffer co = Some bytes \<and> save_size co = length bytes))"

text \<open>
  \<open>F\<close> gives the bytes of every suspended coroutine on a shared stack. The running one, if
  it has a shared stack, occupies it; an occupant is a coroutine on that stack.
\<close>

definition frames_ok :: "co_env \<Rightarrow> (addr \<rightharpoonup> nat list) \<Rightarrow> addr \<Rightarrow> bool" where
  "frames_ok e F r \<longleftrightarrow> (\<forall>c bytes. F c = Some bytes \<longrightarrow> parked e c bytes) \<and> F r = None \<and>
     (\<exists>co. cos e r = Some co \<and> (is_share_stack co \<longrightarrow>
        (\<exists>k. stacks e (stack_mem co) = Some k \<and> occupy_co k = Some r))) \<and>
     (\<forall>a k c. stacks e a = Some k \<longrightarrow> occupy_co k = Some c \<longrightarrow>
        (\<exists>co. cos e c = Some co \<and> is_share_stack co \<and> stack_mem co = a \<and> (c = r \<or> F c \<noteq> None)))"

text \<open>The bytes of the stack that the running coroutine sees from \<open>sp\<close> on.\<close>

definition live :: "co_env \<Rightarrow> addr \<Rightarrow> nat \<Rightarrow> nat list" where
  "live e c sp = (case cos e c of None \<Rightarrow> [] | Some co \<Rightarrow>
     (case stacks e (stack_mem co) of None \<Rightarrow> [] | Some k \<Rightarrow> drop sp (stack_buffer k)))"

definition shares_stack :: "co_env \<Rightarrow> addr \<Rightarrow> bool" where
  "shares_stack e c \<longleftrightarrow> (\<exists>co. cos e c = Some co \<and> is_share_stack co)"

text \<open>
  The first half of a switch: the running coroutine becomes suspended, the one that is
  switched to occupies its stack, and whoever occupied it before has been saved.
\<close>

lemma CoSwap_out_occupied:
  assumes ok: "frames_ok e F r" and pr: "p \<noteq> r"
    and P: "cos e p = Some pc" "is_share_stack pc" "stacks e (stack_mem pc) = Some k" and O: "occupy_co k = Some oc"
    and sp: "shares_stack e r \<Longrightarrow> sp + n = length (live e r 0)"
  shows "\<exists>e'. CoSwap_out e r sp p = Some e' \<and> cos e' p = Some pc \<and>
     pending_co e' = Some p \<and> env_occupy_co e' = Some oc \<and> (shares_stack e' r \<longleftrightarrow> shares_stack e r) \<and>
     (\<forall>c b. c \<noteq> p \<longrightarrow> (F(r := (if shares_stack e r then Some (live e r sp) else None))) c = Some b \<longrightarrow> parked e' c b) \<and>
     stacks e' (stack_mem pc) = Some (k\<lparr>occupy_co := Some p\<rparr>) \<and>
     (\<forall>a k c. stacks e' a = Some k \<longrightarrow> occupy_co k = Some c \<longrightarrow>
        (\<exists>co. cos e' c = Some co \<and> is_share_stack co \<and> stack_mem co = a \<and> (c = p \<or> c = r \<or> F c \<noteq> None)))"
proof -
  obtain rc where R: "cos e r = Some rc"
     "is_share_stack rc \<Longrightarrow> \<exists>k. stacks e (stack_mem rc) = Some k \<and> occupy_co k = Some r"
    using ok unfolding frames_ok_def by blast
  obtain oo where OO: "cos e oc = Some oo" "is_share_stack oo" "stack_mem oo = stack_mem pc"
      "oc = r \<or> F oc \<noteq> None"
    using ok P(3) O unfolding frames_ok_def by blast
  have par: "parked e c b" if "F c = Some b" for c b using ok that by (simp add: frames_ok_def)
  have occ: "\<exists>co. cos e c = Some co \<and> is_share_stack co \<and> stack_mem co = a \<and> (c = r \<or> F c \<noteq> None)"
    if "stacks e a = Some k" "occupy_co k = Some c" for a k c
    using ok that unfolding frames_ok_def by blast
  define cs1 where "cs1 = (cos e)(r \<mapsto> rc\<lparr>stack_sp := sp\<rparr>)"
  define st1 where "st1 = (stacks e)(stack_mem pc \<mapsto> k\<lparr>occupy_co := Some p\<rparr>)"
  have kstk: "stack_sp o1 \<le> length (stack_buffer k)"
    if "cs1 oc = Some o1" for o1
  proof (cases "oc = r")
    case True
    then have "o1 = rc\<lparr>stack_sp := sp\<rparr>" "oo = rc" using that OO(1) R(1) by (simp_all add: cs1_def)
    moreover have "length (live e r 0) = length (stack_buffer k)"
      using True OO R(1) P(3) by (simp add: live_def)
    moreover have "shares_stack e r" using True OO by (auto simp: shares_stack_def)
    ultimately show ?thesis using sp by simp
  next
    case False
    then obtain b where "parked e oc b" using OO(4) par by auto
    then show ?thesis using that False OO P(3) by (auto simp: parked_def cs1_def)
  qed
  obtain o1 where o1: "cs1 oc = Some o1" "is_share_stack o1" "stack_mem o1 = stack_mem pc"
    using OO(1-3) R(1) by (cases "oc = r") (auto simp: cs1_def)
  define cs2 where "cs2 = (if oc = p then cs1 else
      cs1(oc \<mapsto> o1\<lparr>save_size := length (stack_buffer k) - stack_sp o1,
                  save_buffer := Some (drop (stack_sp o1) (stack_buffer k))\<rparr>))"
  let ?e = "e\<lparr>cos := cs2, stacks := st1, pending_co := Some p, env_occupy_co := Some oc\<rparr>"
  have cp: "cs1 p = Some pc" using P(1) pr by (simp add: cs1_def)
  have cp2: "cs2 p = Some pc" using cp by (simp add: cs2_def)
  have "CoSwap_out e r sp p = Some ?e"
  proof -
    have "upd_co e r (\<lambda>x. x\<lparr>stack_sp := sp\<rparr>) = Some (e\<lparr>cos := cs1\<rparr>)" using R(1) by (simp add: cs1_def)
    moreover have "StackBufferSave (e\<lparr>cos := cs1, pending_co := Some p, stacks := st1, env_occupy_co := Some oc\<rparr>) oc = Some ?e"
      if "oc \<noteq> p"
      using that o1 kstk [OF o1(1)] by (simp add: StackBufferSave_def st1_def cs2_def upd_co_def)
    moreover have "upd_stack (e\<lparr>cos := cs1, pending_co := Some p\<rparr>) (stack_mem pc) (\<lambda>x. x\<lparr>occupy_co := Some p\<rparr>) =
        Some (e\<lparr>cos := cs1, pending_co := Some p, stacks := st1\<rparr>)"
      using P(3) by (simp add: st1_def upd_stack_def)
    ultimately show ?thesis
      using cp P(2,3) O
      by (cases "oc = p") (simp_all add: CoSwap_out_def cs2_def Let_def del: bind_eq_Some upd_co_eq_Some upd_stack_eq_Some)
  qed
  moreover have "parked ?e c b"
    if c: "c \<noteq> p" "(F(r := (if shares_stack e r then Some (live e r sp) else None))) c = Some b" for c b
  proof (cases "c = r")
    case True
    then have sh: "shares_stack e r" and b: "b = live e r sp" using c by (auto split: if_splits)
    then have shr: "is_share_stack rc" using R(1) by (simp add: shares_stack_def)
    obtain kr where kr: "stacks e (stack_mem rc) = Some kr" "occupy_co kr = Some r" using R(2) [OF shr] by blast
    have bl: "b = drop sp (stack_buffer kr)" "sp + n = length (stack_buffer kr)"
      using b kr R(1) sp [OF sh] by (auto simp: live_def)
    show ?thesis
    proof (cases "stack_mem rc = stack_mem pc")
      case True
      then have "kr = k" "oc = r" using kr P(3) O by auto
      then have "o1 = rc\<lparr>stack_sp := sp\<rparr>" using o1(1) by (simp add: cs1_def)
      then show ?thesis using \<open>c = r\<close> True pr shr bl \<open>kr = k\<close> \<open>oc = r\<close>
        by (auto simp: parked_def cs2_def st1_def)
    next
      case False
      then have "oc \<noteq> r" using OO R(1) by auto
      then have "cs2 r = Some (rc\<lparr>stack_sp := sp\<rparr>)" by (simp add: cs2_def cs1_def)
      then show ?thesis using \<open>c = r\<close> False shr bl kr by (auto simp: parked_def st1_def)
    qed
  next
    case False
    then have "parked e c b" using c par by simp
    then obtain cc kc where C: "cos e c = Some cc" "is_share_stack cc" "stacks e (stack_mem cc) = Some kc"
      "occupy_co kc \<noteq> None" "stack_sp cc + length b = length (stack_buffer kc)"
      "if occupy_co kc = Some c then drop (stack_sp cc) (stack_buffer kc) = b
       else save_buffer cc = Some b \<and> save_size cc = length b" unfolding parked_def by blast
    have c1: "cs1 c = Some cc" using C(1) False by (simp add: cs1_def)
    show ?thesis
    proof (cases "stack_mem cc = stack_mem pc")
      case True
      then have kk: "kc = k" using C(3) P(3) by simp
      show ?thesis
      proof (cases "c = oc")
        case True
        then have "o1 = cc" using o1(1) c1 by simp
        moreover from this have "cs2 c = Some (cc\<lparr>save_size := length (stack_buffer k) - stack_sp cc,
            save_buffer := Some (drop (stack_sp cc) (stack_buffer k))\<rparr>)"
          using True c(1) by (simp add: cs2_def)
        ultimately show ?thesis using True \<open>stack_mem cc = stack_mem pc\<close> kk C c(1) O
          by (auto simp: parked_def st1_def)
      next
        case False
        then have "cs2 c = Some cc" using c1 by (simp add: cs2_def)
        then show ?thesis using False \<open>stack_mem cc = stack_mem pc\<close> kk C c(1) O
          by (auto simp: parked_def st1_def)
      qed
    next
      case False
      then have "c \<noteq> oc" using OO C by auto
      then have "cs2 c = Some cc" using c1 by (simp add: cs2_def)
      then show ?thesis using False C by (auto simp: parked_def st1_def)
    qed
  qed
  moreover have "\<exists>co. cs2 c = Some co \<and> is_share_stack co \<and> stack_mem co = a \<and> (c = p \<or> c = r \<or> F c \<noteq> None)"
    if kc: "st1 a = Some k'" "occupy_co k' = Some c" for a k' c
  proof (cases "a = stack_mem pc")
    case True
    then have "k' = k\<lparr>occupy_co := Some p\<rparr>" using that(1) by (simp add: st1_def)
    then have "c = p" using that(2) by simp
    then show ?thesis using True cp2 P(2) by simp
  next
    case False
    then obtain co where "cos e c = Some co" "is_share_stack co" "stack_mem co = a" "c = r \<or> F c \<noteq> None"
      using occ [of a k' c] kc by (auto simp: st1_def)
    then show ?thesis using R(1) False OO(1,3) by (auto simp: cs2_def cs1_def)
  qed
  moreover have "st1 (stack_mem pc) = Some (k\<lparr>occupy_co := Some p\<rparr>)" by (simp add: st1_def)
  moreover have "shares_stack ?e r \<longleftrightarrow> shares_stack e r"
    using R(1) o1(1) by (auto simp: shares_stack_def cs2_def cs1_def split: if_splits)
  ultimately show ?thesis using cp2 by (intro exI [of _ ?e]) simp
qed

lemma CoSwap_out_ok:
  assumes ok: "frames_ok e F r" and p: "F p = Some bytes"
    and sp: "shares_stack e r \<Longrightarrow> sp + n = length (live e r 0)"
  shows "\<exists>e' co. CoSwap_out e r sp p = Some e' \<and> cos e' p = Some co \<and> is_share_stack co \<and>
     pending_co e' = Some p \<and> (shares_stack e' r \<longleftrightarrow> shares_stack e r) \<and>
     (\<forall>c b. c \<noteq> p \<longrightarrow> (F(r := (if shares_stack e r then Some (live e r sp) else None))) c = Some b \<longrightarrow> parked e' c b) \<and>
     (\<exists>k. stacks e' (stack_mem co) = Some k \<and> occupy_co k = Some p \<and>
        stack_sp co + length bytes = length (stack_buffer k) \<and>
        (if env_occupy_co e' = Some p then drop (stack_sp co) (stack_buffer k) = bytes
         else env_occupy_co e' \<noteq> None \<and> save_buffer co = Some bytes \<and> save_size co = length bytes)) \<and>
     (\<forall>a k c. stacks e' a = Some k \<longrightarrow> occupy_co k = Some c \<longrightarrow>
        (\<exists>co. cos e' c = Some co \<and> is_share_stack co \<and> stack_mem co = a \<and> (c = p \<or> c = r \<or> F c \<noteq> None)))"
proof -
  have pr: "p \<noteq> r" using ok p by (auto simp: frames_ok_def)
  have "parked e p bytes" using ok p by (simp add: frames_ok_def)
  then obtain pc k where P: "cos e p = Some pc" "is_share_stack pc" "stacks e (stack_mem pc) = Some k"
     "occupy_co k \<noteq> None" "stack_sp pc + length bytes = length (stack_buffer k)"
     "if occupy_co k = Some p then drop (stack_sp pc) (stack_buffer k) = bytes
      else save_buffer pc = Some bytes \<and> save_size pc = length bytes"
    unfolding parked_def by blast
  obtain oc where O: "occupy_co k = Some oc" using P(4) by blast
  show ?thesis
    using CoSwap_out_occupied [OF ok pr P(1-3) O sp] P(2,5,6) O by fastforce
qed

text \<open>The first half when nobody occupies the stack, as for the first coroutine on it.\<close>

lemma CoSwap_out_free:
  assumes ok: "frames_ok e F r" and pr: "p \<noteq> r"
    and P: "cos e p = Some pc" "is_share_stack pc" "stacks e (stack_mem pc) = Some k" "occupy_co k = None"
    and sp: "shares_stack e r \<Longrightarrow> sp + n = length (live e r 0)"
  shows "\<exists>e'. CoSwap_out e r sp p = Some e' \<and> cos e' p = Some pc \<and> (shares_stack e' r \<longleftrightarrow> shares_stack e r) \<and>
     (\<forall>c b. c \<noteq> p \<longrightarrow> (F(r := (if shares_stack e r then Some (live e r sp) else None))) c = Some b \<longrightarrow> parked e' c b) \<and>
     stacks e' (stack_mem pc) = Some (k\<lparr>occupy_co := Some p\<rparr>) \<and>
     (\<forall>a k c. stacks e' a = Some k \<longrightarrow> occupy_co k = Some c \<longrightarrow>
        (\<exists>co. cos e' c = Some co \<and> is_share_stack co \<and> stack_mem co = a \<and> (c = p \<or> c = r \<or> F c \<noteq> None)))"
proof -
  obtain rc where R: "cos e r = Some rc"
     "is_share_stack rc \<Longrightarrow> \<exists>k. stacks e (stack_mem rc) = Some k \<and> occupy_co k = Some r"
    using ok unfolding frames_ok_def by blast
  let ?st = "(stacks e)(stack_mem pc \<mapsto> k\<lparr>occupy_co := Some p\<rparr>)"
  let ?cs = "(cos e)(r \<mapsto> rc\<lparr>stack_sp := sp\<rparr>)"
  let ?e = "e\<lparr>cos := ?cs, stacks := ?st, pending_co := Some p, env_occupy_co := None\<rparr>"
  have "CoSwap_out e r sp p = Some ?e"
    using R(1) P pr by (simp add: CoSwap_out_def upd_co_def upd_stack_def Let_def)
  moreover have "parked ?e c b"
    if c: "c \<noteq> p" "(F(r := (if shares_stack e r then Some (live e r sp) else None))) c = Some b" for c b
  proof (cases "c = r")
    case True
    then have sh: "shares_stack e r" and b: "b = live e r sp" using c by (auto split: if_splits)
    then have shr: "is_share_stack rc" using R(1) by (simp add: shares_stack_def)
    obtain kr where kr: "stacks e (stack_mem rc) = Some kr" "occupy_co kr = Some r" using R(2) [OF shr] by blast
    then have "stack_mem rc \<noteq> stack_mem pc" using P(3,4) by auto
    moreover have "b = drop sp (stack_buffer kr)" "sp + n = length (stack_buffer kr)"
      using b kr R(1) sp [OF sh] by (auto simp: live_def)
    ultimately show ?thesis using True shr kr by (auto simp: parked_def)
  next
    case False
    then have "parked e c b" using c ok by (simp add: frames_ok_def)
    then obtain cc kc where C: "cos e c = Some cc" "is_share_stack cc" "stacks e (stack_mem cc) = Some kc"
      "occupy_co kc \<noteq> None" "stack_sp cc + length b = length (stack_buffer kc)"
      "if occupy_co kc = Some c then drop (stack_sp cc) (stack_buffer kc) = b
       else save_buffer cc = Some b \<and> save_size cc = length b" unfolding parked_def by blast
    then have "stack_mem cc \<noteq> stack_mem pc" using P(3,4) by auto
    then show ?thesis using False C by (auto simp: parked_def)
  qed
  moreover have "\<exists>co. ?cs c = Some co \<and> is_share_stack co \<and> stack_mem co = a \<and> (c = p \<or> c = r \<or> F c \<noteq> None)"
    if kc: "?st a = Some k'" "occupy_co k' = Some c" for a k' c
  proof (cases "a = stack_mem pc")
    case True
    then have "c = p" using kc by auto
    then show ?thesis using True P pr by simp
  next
    case False
    then have "\<exists>co. cos e c = Some co \<and> is_share_stack co \<and> stack_mem co = a \<and> (c = r \<or> F c \<noteq> None)"
      using kc ok unfolding frames_ok_def by auto
    then show ?thesis using R(1) by auto
  qed
  moreover have "shares_stack ?e r \<longleftrightarrow> shares_stack e r" using R(1) by (simp add: shares_stack_def)
  ultimately show ?thesis using P(1) pr by (intro exI [of _ ?e]) simp
qed

lemma running_irrelevant [simp]:
  "frames_ok (e\<lparr>running := p\<rparr>) F r = frames_ok e F r" "live (e\<lparr>running := p\<rparr>) c sp = live e c sp"
  "shares_stack (e\<lparr>running := p\<rparr>) c = shares_stack e c"
  by (auto simp: frames_ok_def parked_def live_def shares_stack_def split: option.splits)

lemma CoSwap_in_running: "CoSwap_in (e\<lparr>running := p\<rparr>) = map_option (\<lambda>e. e\<lparr>running := p\<rparr>) (CoSwap_in e)"
  unfolding CoSwap_in_def upd_stack_def
  by (simp split: option.split bind_split)

text \<open>The whole switch: the coroutine that continues finds its stack as it left it.\<close>

lemma switch_to_ok:
  assumes ok: "frames_ok e F r" and p: "F p = Some bytes"
    and sp: "shares_stack e r \<Longrightarrow> sp + n = length (live e r 0)"
  shows "\<exists>e' co. switch_to e r sp p False = Some e' \<and> cos e' p = Some co \<and>
     live e' p (stack_sp co) = bytes \<and>
     frames_ok e' (F(r := (if shares_stack e r then Some (live e r sp) else None), p := None)) p"
proof -
  let ?F = "F(r := (if shares_stack e r then Some (live e r sp) else None))"
  obtain e1 co where o: "CoSwap_out e r sp p = Some e1" "cos e1 p = Some co" "is_share_stack co"
     "pending_co e1 = Some p" and sh: "shares_stack e1 r \<longleftrightarrow> shares_stack e r" and o5: "\<And>c b. c \<noteq> p \<Longrightarrow> ?F c = Some b \<Longrightarrow> parked e1 c b"
     and o6: "\<And>a k c. stacks e1 a = Some k \<Longrightarrow> occupy_co k = Some c \<Longrightarrow>
        (\<exists>co. cos e1 c = Some co \<and> is_share_stack co \<and> stack_mem co = a \<and> (c = p \<or> c = r \<or> F c \<noteq> None))"
     and K: "\<exists>k. stacks e1 (stack_mem co) = Some k \<and> occupy_co k = Some p \<and>
        stack_sp co + length bytes = length (stack_buffer k) \<and>
        (if env_occupy_co e1 = Some p then drop (stack_sp co) (stack_buffer k) = bytes
         else env_occupy_co e1 \<noteq> None \<and> save_buffer co = Some bytes \<and> save_size co = length bytes)"
    using CoSwap_out_ok [OF ok p sp] by blast
  obtain k where k: "stacks e1 (stack_mem co) = Some k" "occupy_co k = Some p"
      "stack_sp co + length bytes = length (stack_buffer k)"
      "if env_occupy_co e1 = Some p then drop (stack_sp co) (stack_buffer k) = bytes
         else env_occupy_co e1 \<noteq> None \<and> save_buffer co = Some bytes \<and> save_size co = length bytes"
    using K by blast
  define buf where "buf = (if env_occupy_co e1 = Some p then stack_buffer k else take (stack_sp co) (stack_buffer k) @ bytes)"
  define e2 where "e2 = e1\<lparr>stacks := (stacks e1)(stack_mem co \<mapsto> k\<lparr>stack_buffer := buf\<rparr>)\<rparr>"
  have len: "length buf = length (stack_buffer k)" and dr: "drop (stack_sp co) buf = bytes"
    using k(3,4) by (auto simp: buf_def)
  have rr: "\<exists>rc. cos e r = Some rc" and pr: "p \<noteq> r" using ok p unfolding frames_ok_def by auto
  have in1: "CoSwap_in e1 = Some (if env_occupy_co e1 = Some p \<or> bytes = [] then e1 else e2)"
    using k o(2,4) by (cases "env_occupy_co e1 = Some p")
      (auto simp: CoSwap_in_def e2_def buf_def overlay_def upd_stack_def split: option.splits)
  have same: "env_occupy_co e1 = Some p \<or> bytes = [] \<Longrightarrow> e2 = e1"
  proof -
    assume "env_occupy_co e1 = Some p \<or> bytes = []"
    then have "buf = stack_buffer k" using k(3) by (auto simp: buf_def)
    then show ?thesis using k(1) by (intro co_env.equality) (simp_all add: e2_def fun_upd_idem)
  qed
  have sw: "switch_to e r sp p False = Some (e2\<lparr>running := p\<rparr>)"
    using o(1) in1 same by (auto simp: switch_to_def CoSwap_in_running)
  have lv: "live e2 p (stack_sp co) = bytes" using o(2) dr by (simp add: live_def e2_def)
  have c2: "cos e2 = cos e1" by (simp add: e2_def)
  have k2: "stacks e2 a = Some k' \<Longrightarrow> \<exists>k0. stacks e1 a = Some k0 \<and> occupy_co k' = occupy_co k0" for a k'
    using k(1) by (auto simp: e2_def split: if_splits)
  have pk: "parked e2 c b" if c: "c \<noteq> p" "?F c = Some b" for c b
  proof -
    obtain cc kc where C: "cos e1 c = Some cc" "is_share_stack cc" "stacks e1 (stack_mem cc) = Some kc"
      "occupy_co kc \<noteq> None" "stack_sp cc + length b = length (stack_buffer kc)"
      "if occupy_co kc = Some c then drop (stack_sp cc) (stack_buffer kc) = b
       else save_buffer cc = Some b \<and> save_size cc = length b"
      using o5 [OF c] unfolding parked_def by blast
    show ?thesis
    proof (cases "stack_mem cc = stack_mem co")
      case True
      then have "kc = k" using C(3) k(1) by simp
      then show ?thesis using C k(2) c(1) True len by (auto simp: parked_def e2_def)
    next
      case False
      then show ?thesis using C by (auto simp: parked_def e2_def)
    qed
  qed
  have "frames_ok e2 (?F(p := None)) p"
    unfolding frames_ok_def
  proof (intro conjI allI impI)
    fix c b assume "(?F(p := None)) c = Some b"
    then show "parked e2 c b" using pk [of c b] by (auto split: if_splits)
  next
    show "\<exists>co. cos e2 p = Some co \<and> (is_share_stack co \<longrightarrow> (\<exists>k. stacks e2 (stack_mem co) = Some k \<and> occupy_co k = Some p))"
      using o(2) k(2) by (simp add: e2_def)
  next
    fix a k' c assume a: "stacks e2 a = Some k'" "occupy_co k' = Some c"
    then obtain k0 where "stacks e1 a = Some k0" "occupy_co k0 = Some c" using k2 by force
    then obtain cc where C: "cos e1 c = Some cc" "is_share_stack cc" "stack_mem cc = a" "c = p \<or> c = r \<or> F c \<noteq> None"
      using o6 by blast
    have "c = p \<or> (?F(p := None)) c \<noteq> None"
    proof (cases "c = r")
      case True
      then have "shares_stack e1 r" using C by (auto simp: shares_stack_def)
      then show ?thesis using True pr sh by simp
    qed (use C(4) in auto)
    then show "\<exists>co. cos e2 c = Some co \<and> is_share_stack co \<and> stack_mem co = a \<and> (c = p \<or> (?F(p := None)) c \<noteq> None)"
      using C c2 by auto
  qed simp
  then show ?thesis using sw lv o(2) c2 by (intro exI [of _ "e2\<lparr>running := p\<rparr>"] exI [of _ co]) simp
qed

text \<open>A coroutine that starts on a shared stack: there is nothing to restore.\<close>

lemma switch_to_fresh:
  assumes ok: "frames_ok e F r" and pr: "p \<noteq> r" and F: "F p = None"
    and P: "cos e p = Some pc" "is_share_stack pc" "stacks e (stack_mem pc) = Some k"
    and sp: "shares_stack e r \<Longrightarrow> sp + n = length (live e r 0)"
  shows "\<exists>e'. switch_to e r sp p True = Some e' \<and>
     frames_ok e' (F(r := (if shares_stack e r then Some (live e r sp) else None))) p"
proof -
  let ?F = "F(r := (if shares_stack e r then Some (live e r sp) else None))"
  obtain e' where e': "CoSwap_out e r sp p = Some e'" "cos e' p = Some pc"
     "\<And>c b. c \<noteq> p \<Longrightarrow> ?F c = Some b \<Longrightarrow> parked e' c b"
     "stacks e' (stack_mem pc) = Some (k\<lparr>occupy_co := Some p\<rparr>)"
     "\<And>a k c. stacks e' a = Some k \<Longrightarrow> occupy_co k = Some c \<Longrightarrow>
        \<exists>co. cos e' c = Some co \<and> is_share_stack co \<and> stack_mem co = a \<and> (c = p \<or> c = r \<or> F c \<noteq> None)"
    and sh: "shares_stack e' r \<Longrightarrow> shares_stack e r"
  proof (cases "occupy_co k")
    case None
    obtain e' where e': "CoSwap_out e r sp p = Some e'" "cos e' p = Some pc"
     "\<forall>c b. c \<noteq> p \<longrightarrow> ?F c = Some b \<longrightarrow> parked e' c b"
     "stacks e' (stack_mem pc) = Some (k\<lparr>occupy_co := Some p\<rparr>)"
     "\<forall>a k c. stacks e' a = Some k \<longrightarrow> occupy_co k = Some c \<longrightarrow>
        (\<exists>co. cos e' c = Some co \<and> is_share_stack co \<and> stack_mem co = a \<and> (c = p \<or> c = r \<or> F c \<noteq> None))"
      "shares_stack e' r \<longrightarrow> shares_stack e r"
      using CoSwap_out_free [OF ok pr P None sp] by blast
    show ?thesis by (rule that [of e']) (use e' in blast)+
  next
    case (Some oc)
    obtain e' where e': "CoSwap_out e r sp p = Some e'" "cos e' p = Some pc"
     "\<forall>c b. c \<noteq> p \<longrightarrow> ?F c = Some b \<longrightarrow> parked e' c b"
     "stacks e' (stack_mem pc) = Some (k\<lparr>occupy_co := Some p\<rparr>)"
     "\<forall>a k c. stacks e' a = Some k \<longrightarrow> occupy_co k = Some c \<longrightarrow>
        (\<exists>co. cos e' c = Some co \<and> is_share_stack co \<and> stack_mem co = a \<and> (c = p \<or> c = r \<or> F c \<noteq> None))"
      "shares_stack e' r \<longrightarrow> shares_stack e r"
      using CoSwap_out_occupied [OF ok pr P Some sp] by blast
    show ?thesis by (rule that [of e']) (use e' in blast)+
  qed
  have "frames_ok e' ?F p"
    unfolding frames_ok_def
  proof (intro conjI allI impI)
    fix c b assume "?F c = Some b"
    moreover from this have "c \<noteq> p" using pr F by auto
    ultimately show "parked e' c b" using e'(3) by blast
  next
    show "?F p = None" using pr F by simp
    show "\<exists>co. cos e' p = Some co \<and> (is_share_stack co \<longrightarrow> (\<exists>k. stacks e' (stack_mem co) = Some k \<and> occupy_co k = Some p))"
      using e'(2,4) by simp
  next
    fix a k' c assume "stacks e' a = Some k'" "occupy_co k' = Some c"
    from e'(5) [OF this] obtain cc where C: "cos e' c = Some cc" "is_share_stack cc" "stack_mem cc = a"
      "c = p \<or> c = r \<or> F c \<noteq> None" by blast
    then have "c = p \<or> ?F c \<noteq> None" using sh by (auto simp: shares_stack_def)
    then show "\<exists>co. cos e' c = Some co \<and> is_share_stack co \<and> stack_mem co = a \<and> (c = p \<or> ?F c \<noteq> None)"
      using C by blast
  qed
  then show ?thesis using e'(1) by (simp add: switch_to_def)
qed

text \<open>A switch to a coroutine with a stack of its own, such as the main coroutine.\<close>

lemma switch_to_private:
  assumes ok: "frames_ok e F r" and pr: "p \<noteq> r" and P: "cos e p = Some pc" "\<not> is_share_stack pc"
    and sp: "shares_stack e r \<Longrightarrow> sp + n = length (live e r 0)"
  shows "\<exists>e'. switch_to e r sp p b = Some e' \<and>
     frames_ok e' (F(r := (if shares_stack e r then Some (live e r sp) else None))) p"
proof -
  let ?F = "F(r := (if shares_stack e r then Some (live e r sp) else None))"
  obtain rc where R: "cos e r = Some rc"
     "is_share_stack rc \<Longrightarrow> \<exists>k. stacks e (stack_mem rc) = Some k \<and> occupy_co k = Some r"
    using ok unfolding frames_ok_def by blast
  let ?e = "e\<lparr>cos := (cos e)(r \<mapsto> rc\<lparr>stack_sp := sp\<rparr>), pending_co := None, env_occupy_co := None\<rparr>"
  have "CoSwap_out e r sp p = Some ?e" using R(1) P pr by (simp add: CoSwap_out_def upd_co_def)
  moreover have "CoSwap_in (?e\<lparr>running := p\<rparr>) = Some (?e\<lparr>running := p\<rparr>)" by (simp add: CoSwap_in_def)
  ultimately have sw: "switch_to e r sp p b = Some (?e\<lparr>running := p\<rparr>)" by (simp add: switch_to_def Let_def)
  have "frames_ok ?e ?F p"
    unfolding frames_ok_def
  proof (intro conjI allI impI)
    fix c b assume c: "?F c = Some b"
    show "parked ?e c b"
    proof (cases "c = r")
      case True
      then have sh: "shares_stack e r" and b: "b = live e r sp" using c by (auto split: if_splits)
      then have shr: "is_share_stack rc" using R(1) by (simp add: shares_stack_def)
      then obtain kr where kr: "stacks e (stack_mem rc) = Some kr" "occupy_co kr = Some r" using R(2) by blast
      then have "b = drop sp (stack_buffer kr)" "sp + n = length (stack_buffer kr)"
        using b R(1) sp [OF sh] by (auto simp: live_def)
      then show ?thesis using True shr kr by (auto simp: parked_def)
    next
      case False
      then have "parked e c b" using c ok by (simp add: frames_ok_def)
      then show ?thesis using False by (simp add: parked_def)
    qed
  next
    have "F p = None"
    proof (cases "F p")
      case (Some b)
      then have "parked e p b" using ok by (simp add: frames_ok_def)
      then show ?thesis using P by (simp add: parked_def)
    qed simp
    then show "?F p = None" using pr by simp
    show "\<exists>co. cos ?e p = Some co \<and> (is_share_stack co \<longrightarrow> (\<exists>k. stacks ?e (stack_mem co) = Some k \<and> occupy_co k = Some p))"
      using P pr by simp
  next
    fix a k c assume "stacks ?e a = Some k" "occupy_co k = Some c"
    then have "stacks e a = Some k" "occupy_co k = Some c" by simp_all
    then obtain cc where C: "cos e c = Some cc" "is_share_stack cc" "stack_mem cc = a" "c = r \<or> F c \<noteq> None"
      using ok unfolding frames_ok_def by blast
    then have "?F c \<noteq> None" by (auto simp: shares_stack_def)
    then show "\<exists>co. cos ?e c = Some co \<and> is_share_stack co \<and> stack_mem co = a \<and> (c = p \<or> ?F c \<noteq> None)"
      using C R(1) by auto
  qed
  then show ?thesis using sw by (intro exI [of _ "?e\<lparr>running := p\<rparr>"]) simp
qed

text \<open>
  What a switch does not touch, and what the running coroutine may do in between: it only
  writes to the stack it occupies.
\<close>

lemma frames_ok_run:
  assumes ok: "frames_ok e F r" and co: "cos e r = Some co" and k: "stacks e (stack_mem co) = Some k"
    and sh: "is_share_stack co" and len: "length buf = length (stack_buffer k)"
  shows "frames_ok (e\<lparr>stacks := (stacks e)(stack_mem co \<mapsto> k\<lparr>stack_buffer := buf\<rparr>)\<rparr>) F r"
proof -
  let ?e = "e\<lparr>stacks := (stacks e)(stack_mem co \<mapsto> k\<lparr>stack_buffer := buf\<rparr>)\<rparr>"
  have occ: "occupy_co k = Some r" using ok co k sh unfolding frames_ok_def by auto
  have F: "F r = None" using ok by (simp add: frames_ok_def)
  have pk: "parked ?e c b" if "F c = Some b" for c b
  proof -
    have "c \<noteq> r" using that F by auto
    have "parked e c b" using ok that by (simp add: frames_ok_def)
    then obtain cc kc where C: "cos e c = Some cc" "is_share_stack cc" "stacks e (stack_mem cc) = Some kc"
      "occupy_co kc \<noteq> None" "stack_sp cc + length b = length (stack_buffer kc)"
      "if occupy_co kc = Some c then drop (stack_sp cc) (stack_buffer kc) = b
       else save_buffer cc = Some b \<and> save_size cc = length b" unfolding parked_def by blast
    show ?thesis
    proof (cases "stack_mem cc = stack_mem co")
      case True
      then have "kc = k" using C(3) k by simp
      then show ?thesis using C True occ \<open>c \<noteq> r\<close> len by (auto simp: parked_def)
    qed (use C in \<open>auto simp: parked_def\<close>)
  qed
  have "\<exists>co. cos ?e c = Some co \<and> is_share_stack co \<and> stack_mem co = a \<and> (c = r \<or> F c \<noteq> None)"
    if kc: "stacks ?e a = Some k'" "occupy_co k' = Some c" for a k' c
  proof -
    obtain k0 where "stacks e a = Some k0" "occupy_co k0 = Some c"
      using kc k by (auto split: if_splits)
    then show ?thesis using ok unfolding frames_ok_def by simp
  qed
  then show ?thesis
    using pk F co occ k unfolding frames_ok_def by auto
qed

subsection \<open>The call stack\<close>

lemma StackBufferSave_frame:
  assumes "StackBufferSave e c = Some e'"
  shows "call_stack e' = call_stack e \<and> call_stack_size e' = call_stack_size e \<and> running e' = running e"
proof -
  obtain co k where "cos e c = Some co" "stacks e (stack_mem co) = Some k"
    using assms by (auto simp: StackBufferSave_def)
  with assms show ?thesis by (simp add: StackBufferSave_def split: if_splits)
qed

lemma CoSwap_out_frame:
  assumes "CoSwap_out e r sp p = Some e'"
  shows "call_stack e' = call_stack e \<and> call_stack_size e' = call_stack_size e \<and> running e' = running e"
proof -
  obtain rc where r: "cos e r = Some rc" using assms by (auto simp: CoSwap_out_def)
  define e1 where "e1 = e\<lparr>cos := (cos e)(r \<mapsto> rc\<lparr>stack_sp := sp\<rparr>)\<rparr>"
  have e1: "upd_co e r (\<lambda>x. x\<lparr>stack_sp := sp\<rparr>) = Some e1" using r by (simp add: e1_def)
  obtain pc where pc: "cos e1 p = Some pc" using assms e1 by (auto simp: CoSwap_out_def)
  show ?thesis
  proof (cases "is_share_stack pc")
    case False
    then have "e' = e1\<lparr>pending_co := None, env_occupy_co := None\<rparr>"
      using assms e1 pc by (simp add: CoSwap_out_def del: upd_co_eq_Some bind_eq_Some)
    then show ?thesis by (simp add: e1_def)
  next
    case True
    then obtain k where k: "stacks e1 (stack_mem pc) = Some k"
      using assms e1 pc by (auto simp: CoSwap_out_def Let_def)
    define e4 where "e4 = e1\<lparr>pending_co := Some p, stacks := (stacks (e1\<lparr>pending_co := Some p\<rparr>))(stack_mem pc \<mapsto> k\<lparr>occupy_co := Some p\<rparr>),
        env_occupy_co := occupy_co k\<rparr>"
    have "(case occupy_co k of None \<Rightarrow> Some e4 | Some o1 \<Rightarrow> if o1 \<noteq> p then StackBufferSave e4 o1 else Some e4) = Some e'"
      unfolding e4_def using assms e1 pc True k
      by (simp add: CoSwap_out_def Let_def upd_stack_def del: bind_eq_Some upd_stack_eq_Some upd_co_eq_Some)
    then have "call_stack e' = call_stack e4 \<and> call_stack_size e' = call_stack_size e4 \<and> running e' = running e4"
      by (auto split: option.splits if_splits dest: StackBufferSave_frame)
    then show ?thesis by (simp add: e4_def e1_def)
  qed
qed

lemma CoSwap_in_frame:
  "CoSwap_in e = Some e' \<Longrightarrow> call_stack e' = call_stack e \<and> call_stack_size e' = call_stack_size e \<and> running e' = running e"
  by (auto simp: CoSwap_in_def split: if_splits option.splits)

lemma switch_to_frame:
  assumes "switch_to e r sp p b = Some e'"
  shows "call_stack e' = call_stack e \<and> call_stack_size e' = call_stack_size e \<and> running e' = p"
proof -
  obtain e1 where e1: "CoSwap_out e r sp p = Some e1" using assms by (auto simp: switch_to_def)
  then have "if b then e' = e1\<lparr>running := p\<rparr> else CoSwap_in (e1\<lparr>running := p\<rparr>) = Some e'"
    using assms by (simp add: switch_to_def Let_def split: if_splits)
  then show ?thesis using CoSwap_out_frame [OF e1] CoSwap_in_frame [of "e1\<lparr>running := p\<rparr>" e'] by (cases b) simp_all
qed

subsection \<open>Resume and yield\<close>

text \<open>The bytes of the suspended coroutines when \<open>r\<close> stops at \<open>sp\<close> and \<open>p\<close> continues.\<close>

definition handed_over :: "co_env \<Rightarrow> (addr \<rightharpoonup> nat list) \<Rightarrow> addr \<Rightarrow> nat \<Rightarrow> addr \<Rightarrow> addr \<rightharpoonup> nat list" where
  "handed_over e F r sp p = F(r := (if shares_stack e r then Some (live e r sp) else None), p := None)"

text \<open>
  A coroutine that can be continued: it has its own stack, or it is suspended on a shared one, or
  it starts on a shared stack.
\<close>

definition continuable :: "co_env \<Rightarrow> (addr \<rightharpoonup> nat list) \<Rightarrow> addr \<Rightarrow> bool \<Rightarrow> bool" where
  "continuable e F p fresh \<longleftrightarrow> (\<exists>pc. cos e p = Some pc \<and> (is_share_stack pc \<longrightarrow>
     (if fresh then F p = None \<and> stacks e (stack_mem pc) \<noteq> None else F p \<noteq> None)))"

lemma switch_to_continuable:
  assumes ok: "frames_ok e F r" and pr: "p \<noteq> r" and c: "continuable e F p fresh"
    and sp: "shares_stack e r \<Longrightarrow> sp + n = length (live e r 0)"
  shows "\<exists>e' pc. switch_to e r sp p fresh = Some e' \<and> frames_ok e' (handed_over e F r sp p) p \<and>
     cos e' p = Some pc \<and> (\<forall>b. F p = Some b \<longrightarrow> live e' p (stack_sp pc) = b)"
proof -
  obtain pc where P: "cos e p = Some pc" "is_share_stack pc \<Longrightarrow>
      if fresh then F p = None \<and> stacks e (stack_mem pc) \<noteq> None else F p \<noteq> None"
    using c unfolding continuable_def by blast
  have there: "\<exists>pc. cos e' p = Some pc" if "frames_ok e' G p" for e' G using that by (auto simp: frames_ok_def)
  show ?thesis
  proof (cases "is_share_stack pc")
    case False
    have none: "F p = None"
    proof (cases "F p")
      case (Some b)
      then have "parked e p b" using ok by (simp add: frames_ok_def)
      then show ?thesis using P False by (simp add: parked_def)
    qed simp
    then have "handed_over e F r sp p = F(r := (if shares_stack e r then Some (live e r sp) else None))"
      using pr by (simp add: handed_over_def fun_eq_iff)
    then show ?thesis using switch_to_private [OF ok pr P(1) False sp, of fresh] none there by fastforce
  next
    case sh: True
    show ?thesis
    proof (cases fresh)
      case True
      then have none: "F p = None" and "stacks e (stack_mem pc) \<noteq> None" using P(2) [OF sh] by simp_all
      then obtain k where k: "stacks e (stack_mem pc) = Some k" by blast
      have "handed_over e F r sp p = F(r := (if shares_stack e r then Some (live e r sp) else None))"
        using pr none by (simp add: handed_over_def fun_eq_iff)
      then show ?thesis using switch_to_fresh [OF ok pr none P(1) sh k sp] True none there by fastforce
    next
      case False
      then obtain b where b: "F p = Some b" using P(2) [OF sh] by auto
      show ?thesis using switch_to_ok [OF ok b sp] False b unfolding handed_over_def by fastforce
    qed
  qed
qed

lemma started_irrelevant:
  fixes cs k
  assumes "cos e c = Some co"
  defines "e' \<equiv> e\<lparr>cos := (cos e)(c \<mapsto> co\<lparr>started := True\<rparr>), call_stack := cs, call_stack_size := k\<rparr>"
  shows "frames_ok e' F r = frames_ok e F r" and "live e' a sp = live e a sp" and "shares_stack e' a = shares_stack e a"
proof -
  have p: "parked e' a b = parked e a b" for a b using assms by (auto simp: parked_def)
  have x: "(\<exists>co. cos e' a = Some co \<and> P (is_share_stack co) (stack_mem co)) \<longleftrightarrow>
      (\<exists>co. cos e a = Some co \<and> P (is_share_stack co) (stack_mem co))" for P a
    using assms by auto
  show "shares_stack e' a = shares_stack e a" using x [of a "\<lambda>b m. b"] by (simp add: shares_stack_def)
  have "(\<exists>co. cos e' r = Some co \<and> (is_share_stack co \<longrightarrow> (\<exists>k. stacks e (stack_mem co) = Some k \<and> occupy_co k = Some r))) \<longleftrightarrow>
      (\<exists>co. cos e r = Some co \<and> (is_share_stack co \<longrightarrow> (\<exists>k. stacks e (stack_mem co) = Some k \<and> occupy_co k = Some r)))"
    using x [of r "\<lambda>b m. b \<longrightarrow> (\<exists>k. stacks e m = Some k \<and> occupy_co k = Some r)"] .
  moreover have "(\<exists>co. cos e' a = Some co \<and> is_share_stack co \<and> stack_mem co = m \<and> Q) \<longleftrightarrow>
      (\<exists>co. cos e a = Some co \<and> is_share_stack co \<and> stack_mem co = m \<and> Q)" for a m Q
    using x [of a "\<lambda>b m'. b \<and> m' = m \<and> Q"] .
  moreover have "stacks e' = stacks e" by (simp add: e'_def)
  ultimately show "frames_ok e' F r = frames_ok e F r" unfolding frames_ok_def p by simp
  show "live e' a sp = live e a sp" using assms by (auto simp: live_def split: option.splits)
qed

lemma CoSelf_get: "CoSelf e = Some r \<longleftrightarrow> 0 < call_stack_size e \<and>
    nat (call_stack_size e - 1) < length (call_stack e) \<and> call_stack e ! nat (call_stack_size e - 1) = Some r"
  by (auto simp: CoSelf_def stack_get_def)

lemma CoResume_ok:
  assumes ok: "frames_ok e F r" and self: "CoSelf e = Some r" and room: "call_stack_size e < int (length (call_stack e))"
    and c: "c \<noteq> r" "cos e c = Some co" "continuable e F c (\<not> started co)"
    and sp: "shares_stack e r \<Longrightarrow> sp + n = length (live e r 0)"
  shows "\<exists>e1 co'. CoResume e c sp = Some e1 \<and> running e1 = c \<and> CoSelf e1 = Some c \<and>
     call_stack_size e1 = call_stack_size e + 1 \<and> call_stack e1 = (call_stack e)[nat (call_stack_size e) := Some c] \<and>
     frames_ok e1 (handed_over e F r sp c) c \<and> cos e1 c = Some co' \<and>
     (\<forall>b. F c = Some b \<longrightarrow> live e1 c (stack_sp co') = b)"
proof -
  have pos: "0 < call_stack_size e" using self by (simp add: CoSelf_get)
  let ?e = "e\<lparr>cos := (cos e)(c \<mapsto> co\<lparr>started := True\<rparr>),
      call_stack := (call_stack e)[nat (call_stack_size e) := Some c], call_stack_size := call_stack_size e + 1\<rparr>"
  note same = started_irrelevant [OF c(2), where cs = "(call_stack e)[nat (call_stack_size e) := Some c]" and k = "call_stack_size e + 1"]
  have c': "continuable ?e F c (\<not> started co)" using c(2,3) by (simp add: continuable_def)
  have h: "handed_over ?e F r sp c = handed_over e F r sp c" by (simp add: handed_over_def same)
  obtain e1 pc where e1: "switch_to ?e r sp c (\<not> started co) = Some e1" "frames_ok e1 (handed_over e F r sp c) c"
     "cos e1 c = Some pc" "\<forall>b. F c = Some b \<longrightarrow> live e1 c (stack_sp pc) = b"
    using switch_to_continuable [of ?e F r c "\<not> started co" sp n] ok c(1) c' sp unfolding same h by blast
  have get: "stack_get e (call_stack_size e - 1) = Some r" using self by (simp add: CoSelf_def)
  have n: "nat (call_stack_size e) < length (call_stack e)" using room pos by linarith
  have "CoResume e c sp = Some e1"
    using c(2) get pos n e1(1) by (simp add: CoResume_def upd_co_def vset_in del: vset_eq_Some)
  moreover note switch_to_frame [OF e1(1)]
  moreover have "CoSelf e1 = Some c" using calculation pos n by (simp add: CoSelf_get)
  ultimately show ?thesis using e1(2-4) by auto
qed

lemma CoYield_ok:
  assumes ok: "frames_ok e F c" and size: "2 \<le> call_stack_size e" "nat (call_stack_size e - 1) < length (call_stack e)"
    and top: "call_stack e ! nat (call_stack_size e - 1) = Some c" "call_stack e ! nat (call_stack_size e - 2) = Some r"
    and r: "r \<noteq> c" "continuable e F r False" and sp: "shares_stack e c \<Longrightarrow> sp + n = length (live e c 0)"
  shows "\<exists>e1 rc. CoYield e sp = Some e1 \<and> running e1 = r \<and> CoSelf e1 = Some r \<and>
     call_stack_size e1 = call_stack_size e - 1 \<and> call_stack e1 = call_stack e \<and>
     frames_ok e1 (handed_over e F c sp r) r \<and> cos e1 r = Some rc \<and>
     (\<forall>b. F r = Some b \<longrightarrow> live e1 r (stack_sp rc) = b)"
proof -
  let ?e = "e\<lparr>call_stack_size := call_stack_size e - 1\<rparr>"
  have same: "frames_ok ?e F c" "continuable ?e F r False" "live ?e a i = live e a i" "shares_stack ?e a = shares_stack e a" for a i
    using ok r(2) by (auto simp: frames_ok_def parked_def continuable_def live_def shares_stack_def split: option.splits)
  have h: "handed_over ?e F c sp r = handed_over e F c sp r" by (simp add: handed_over_def same)
  obtain e1 rc where e1: "switch_to ?e c sp r False = Some e1" "frames_ok e1 (handed_over e F c sp r) r"
     "cos e1 r = Some rc" "\<forall>b. F r = Some b \<longrightarrow> live e1 r (stack_sp rc) = b"
    using switch_to_continuable [of ?e F c r False sp n] same r(1) sp unfolding h same(3,4) by blast
  have "stack_get e (call_stack_size e - 2) = Some r" "stack_get e (call_stack_size e - 1) = Some c"
    using size top by (auto simp: stack_get_def)
  then have "CoYield e sp = Some e1" using e1(1) by (simp add: CoYield_def)
  moreover note switch_to_frame [OF e1(1)]
  moreover have "CoSelf e1 = Some r" using calculation size top by (simp add: CoSelf_get)
  ultimately show ?thesis using e1(2-4) by auto
qed

text \<open>A sample: two coroutines 1 and 2 on the shared stack 50, the main coroutine 9 runs.\<close>

definition sample_co :: "addr \<Rightarrow> bool \<Rightarrow> nat list option \<Rightarrow> coroutine" where
  "sample_co k sh sv = \<lparr>pfn = None, args = None, started = True, ended = False, is_main = False,
     enable_sys_hook = False, is_share_stack = sh, stack_mem = k, ss_size = 4, stack_sp = 2,
     save_size = (case sv of None \<Rightarrow> 0 | Some b \<Rightarrow> length b), save_buffer = sv\<rparr>"

definition sample_env :: co_env where
  "sample_env = \<lparr>call_stack = Some 9 # replicate 127 None, call_stack_size = 1, pending_co = None,
     env_occupy_co = None,
     cos = [9 \<mapsto> sample_co 40 False None, 1 \<mapsto> sample_co 50 True (Some [7, 7]), 2 \<mapsto> sample_co 50 True None],
     stacks = [40 \<mapsto> \<lparr>occupy_co = None, stack_size = 4, stack_buffer = [0, 0, 0, 0]\<rparr>,
               50 \<mapsto> \<lparr>occupy_co = Some 2, stack_size = 4, stack_buffer = [0, 0, 8, 8]\<rparr>],
     shares = Map.empty, running = 9\<rparr>"

abbreviation sample_frames :: "addr \<rightharpoonup> nat list" where
  "sample_frames \<equiv> [1 \<mapsto> [7, 7], 2 \<mapsto> [8, 8]]"

lemma sample_frames_ok: "frames_ok sample_env sample_frames 9"
  by (auto simp: frames_ok_def parked_def sample_env_def sample_co_def split: if_splits)

text \<open>
  C5: shared stacks keep every coroutine's frames. If each suspended coroutine on a shared
  stack has its live bytes either in place (while it occupies the stack) or in its save
  buffer, then a switch to one of them reaches no undefined behaviour, the coroutine that
  continues finds exactly its own bytes at its stack pointer, and the same holds again for
  all the others and for the one that was switched away, whose bytes are the live part of
  the stack at the switch.
\<close>

theorem switch_to_correct:
  assumes "frames_ok e F r" and "F p = Some bytes"
    and "shares_stack e r \<Longrightarrow> sp + n = length (live e r 0)"
  shows "\<exists>e' co. switch_to e r sp p False = Some e' \<and> cos e' p = Some co \<and>
     live e' p (stack_sp co) = bytes \<and>
     frames_ok e' (F(r := (if shares_stack e r then Some (live e r sp) else None), p := None)) p"
  using assms by (rule switch_to_ok)

theorem switch_to_correct_witness:
  "\<exists>e' co. switch_to sample_env 9 3 1 False = Some e' \<and> cos e' 1 = Some co \<and> live e' 1 (stack_sp co) = [7, 7]"
proof -
  have "\<not> shares_stack sample_env 9" by (simp add: shares_stack_def sample_env_def sample_co_def)
  then show ?thesis
    using switch_to_correct [OF sample_frames_ok, of 1 "[7, 7]" 3 0] by auto
qed

text \<open>
  C39: freeing the occupant of a shared stack loses the other coroutines' frames. After
  CoFree of the coroutine that occupies the stack, the stack has no occupant, and a switch
  to another coroutine of that stack skips the restore: it continues on the bytes that the
  freed coroutine left, whatever its own save buffer holds.
\<close>

theorem CoFree_loses_frames:
  assumes "cos e d = Some dc" and "is_share_stack dc" and "stacks e (stack_mem dc) = Some k"
    and "occupy_co k = Some d" and "cos e p = Some pc" and "is_share_stack pc"
    and "stack_mem pc = stack_mem dc" and "p \<noteq> d" and "cos e r = Some rc" and "r \<noteq> p" and "r \<noteq> d"
  shows "\<exists>e1 e2. CoFree e d = Some e1 \<and> switch_to e1 r sp p False = Some e2 \<and>
     stacks e2 (stack_mem pc) = Some (k\<lparr>occupy_co := Some p\<rparr>)"
  using assms
  by (auto simp: CoFree_def switch_to_def CoSwap_out_def CoSwap_in_def Let_def)

theorem CoFree_loses_frames_witness:
  "\<exists>e1 e2. CoFree sample_env 2 = Some e1 \<and> switch_to e1 9 3 1 False = Some e2 \<and>
     stacks e2 50 = Some \<lparr>occupy_co = Some 1, stack_size = 4, stack_buffer = [0, 0, 8, 8]\<rparr>"
  using CoFree_loses_frames [of sample_env 2 "sample_co 50 True None"
      "\<lparr>occupy_co = Some 2, stack_size = 4, stack_buffer = [0, 0, 8, 8]\<rparr>" 1
      "sample_co 50 True (Some [7, 7])" 9 "sample_co 40 False None" 3]
  by (simp add: sample_env_def sample_co_def)

text \<open>
  \<open>e'\<close> is a state in which the coroutine on top of the call stack of \<open>e\<close> runs again, after
  whatever it did, resumes of other coroutines included: the call stack is as it was, and \<open>r\<close>,
  which waits below it, is suspended with the bytes \<open>F r\<close>, or has a stack of its own.
\<close>

definition runs_on :: "co_env \<Rightarrow> (addr \<rightharpoonup> nat list) \<Rightarrow> addr \<Rightarrow> addr \<Rightarrow> co_env \<Rightarrow> (addr \<rightharpoonup> nat list) \<Rightarrow> bool" where
  "runs_on e F c r e' F' \<longleftrightarrow> frames_ok e' F' c \<and> call_stack_size e' = call_stack_size e \<and>
     take (nat (call_stack_size e)) (call_stack e') = take (nat (call_stack_size e)) (call_stack e) \<and>
     F' r = F r \<and> (F r = None \<longrightarrow> (\<exists>rc. cos e' r = Some rc \<and> \<not> is_share_stack rc))"

text \<open>
  C27: resume and yield nest, and hand over control and frames. With room on the call stack, a
  resume of a coroutine \<open>c\<close> that can be continued (on its own stack, suspended on a shared one,
  or starting on a shared one) reaches no undefined behaviour: \<open>c\<close> runs, on top of the call
  stack, and finds its bytes if it was suspended. In any later state in which \<open>c\<close> runs again at
  that depth, a yield gives control to the coroutine that resumed it and to no other, at the
  call stack's old depth, and that coroutine finds the bytes it left; \<open>c\<close> is parked with its
  own bytes.
\<close>

theorem CoResume_CoYield:
  assumes "frames_ok e F r" and "CoSelf e = Some r" and "call_stack_size e < int (length (call_stack e))"
    and "c \<noteq> r" and "cos e c = Some co" and "continuable e F c (\<not> started co)"
    and "shares_stack e r \<Longrightarrow> sp + n = length (live e r 0)"
  shows "\<exists>e1 co'. CoResume e c sp = Some e1 \<and> running e1 = c \<and> CoSelf e1 = Some c \<and>
     call_stack_size e1 = call_stack_size e + 1 \<and> frames_ok e1 (handed_over e F r sp c) c \<and>
     cos e1 c = Some co' \<and> (\<forall>b. F c = Some b \<longrightarrow> live e1 c (stack_sp co') = b) \<and>
     (\<forall>e' F' sp' n'. runs_on e1 (handed_over e F r sp c) c r e' F' \<longrightarrow>
        (shares_stack e' c \<longrightarrow> sp' + n' = length (live e' c 0)) \<longrightarrow>
        (\<exists>e2 rc. CoYield e' sp' = Some e2 \<and> running e2 = r \<and> CoSelf e2 = Some r \<and>
           call_stack_size e2 = call_stack_size e \<and> frames_ok e2 (handed_over e' F' c sp' r) r \<and>
           cos e2 r = Some rc \<and> (shares_stack e r \<longrightarrow> live e2 r (stack_sp rc) = live e r sp)))"
proof -
  obtain e1 co' where e1: "CoResume e c sp = Some e1" "running e1 = c" "CoSelf e1 = Some c"
     "call_stack_size e1 = call_stack_size e + 1" "call_stack e1 = (call_stack e)[nat (call_stack_size e) := Some c]"
     "frames_ok e1 (handed_over e F r sp c) c" "cos e1 c = Some co'" "\<forall>b. F c = Some b \<longrightarrow> live e1 c (stack_sp co') = b"
    using CoResume_ok [OF assms] by blast
  have pos: "0 < call_stack_size e" and rr: "call_stack e ! nat (call_stack_size e - 1) = Some r"
    using assms(2) by (auto simp: CoSelf_get)
  have Fr: "handed_over e F r sp c r = (if shares_stack e r then Some (live e r sp) else None)"
    using assms(4) by (simp add: handed_over_def)
  have "\<exists>e2 rc. CoYield e' sp' = Some e2 \<and> running e2 = r \<and> CoSelf e2 = Some r \<and>
           call_stack_size e2 = call_stack_size e \<and> frames_ok e2 (handed_over e' F' c sp' r) r \<and>
           cos e2 r = Some rc \<and> (shares_stack e r \<longrightarrow> live e2 r (stack_sp rc) = live e r sp)"
    if run: "runs_on e1 (handed_over e F r sp c) c r e' F'"
      and sp: "shares_stack e' c \<longrightarrow> sp' + n' = length (live e' c 0)" for e' F' sp' n'
  proof -
    let ?k = "nat (call_stack_size e)"
    have k: "?k < length (call_stack e)" "nat (call_stack_size e + 1) = Suc ?k" using assms(3) pos by linarith+
    have t: "take (Suc ?k) (call_stack e') = take (Suc ?k) ((call_stack e)[?k := Some c])"
      and size: "call_stack_size e' = call_stack_size e + 1" and fr: "frames_ok e' F' c"
      and F': "F' r = handed_over e F r sp c r"
        "handed_over e F r sp c r = None \<longrightarrow> (\<exists>rc. cos e' r = Some rc \<and> \<not> is_share_stack rc)"
      using run e1(4,5) k(2) unfolding runs_on_def by simp_all
    have len: "?k < length (call_stack e')" using arg_cong [OF t, of length] k(1) by simp
    have nth: "call_stack e' ! i = (call_stack e)[?k := Some c] ! i" if "i \<le> ?k" for i
      using arg_cong [OF t, of "\<lambda>xs. xs ! i"] that len k(1) by simp
    have top: "call_stack e' ! nat (call_stack_size e' - 1) = Some c" using nth [of ?k] k(1) size by simp
    have below: "call_stack e' ! nat (call_stack_size e' - 2) = Some r"
    proof -
      have "nat (call_stack_size e' - 2) = ?k - 1" "?k - 1 \<noteq> ?k" "nat (call_stack_size e - 1) = ?k - 1"
        using size pos by linarith+
      then show ?thesis using nth [of "?k - 1"] rr by simp
    qed
    have cont: "continuable e' F' r False"
    proof (cases "F' r")
      case None
      then show ?thesis using F' by (auto simp: continuable_def)
    next
      case (Some b)
      then have "parked e' r b" using fr by (simp add: frames_ok_def)
      then show ?thesis using Some by (auto simp: parked_def continuable_def)
    qed
    obtain e2 rc where "CoYield e' sp' = Some e2" "running e2 = r" "CoSelf e2 = Some r"
        "call_stack_size e2 = call_stack_size e' - 1" "frames_ok e2 (handed_over e' F' c sp' r) r" "cos e2 r = Some rc"
        "\<forall>b. F' r = Some b \<longrightarrow> live e2 r (stack_sp rc) = b"
      using CoYield_ok [OF fr _ _ top below assms(4) [symmetric] cont, of sp' n'] sp size pos len by auto
    then show ?thesis using F'(1) Fr size by auto
  qed
  then show ?thesis using e1 by blast
qed

theorem CoResume_CoYield_witness:
  "\<exists>e1 e2. CoResume sample_env 1 3 = Some e1 \<and> running e1 = 1 \<and> CoYield e1 0 = Some e2 \<and> running e2 = 9"
proof -
  have s: "CoSelf sample_env = Some 9" "call_stack_size sample_env < int (length (call_stack sample_env))"
    "cos sample_env 1 = Some (sample_co 50 True (Some [7, 7]))"
    "continuable sample_env sample_frames 1 (\<not> started (sample_co 50 True (Some [7, 7])))" "\<not> shares_stack sample_env 9"
    by (simp_all add: sample_env_def CoSelf_def stack_get_def continuable_def sample_co_def shares_stack_def)
  have one: "(1::addr) \<noteq> 9" by simp
  let ?G = "handed_over sample_env sample_frames 9 3 1"
  obtain e1 where e1: "CoResume sample_env 1 3 = Some e1" "running e1 = 1" "frames_ok e1 ?G 1"
    and later: "\<And>e' F' sp' n'. runs_on e1 ?G 1 9 e' F' \<Longrightarrow> (shares_stack e' 1 \<longrightarrow> sp' + n' = length (live e' 1 0)) \<Longrightarrow>
        \<exists>e2. CoYield e' sp' = Some e2 \<and> running e2 = 9"
    using CoResume_CoYield [OF sample_frames_ok s(1,2) one s(3,4), of 3 0] s(5) by blast
  have "\<exists>e1 rc. CoResume sample_env 1 3 = Some e1 \<and> cos e1 9 = Some rc \<and> \<not> is_share_stack rc"
    by (simp add: CoResume_def stack_get_def vget_def vset_def upd_co_def upd_stack_def sample_env_def sample_co_def
        switch_to_def CoSwap_out_def CoSwap_in_def StackBufferSave_def overlay_def Let_def numeral_2_eq_2)
  then have "\<exists>rc. cos e1 9 = Some rc \<and> \<not> is_share_stack rc" using e1(1) by simp
  then have "runs_on e1 ?G 1 9 e1 ?G"
    using e1(3) by (simp add: runs_on_def)
  from later [OF this, of 0 "length (live e1 1 0)"] show ?thesis using e1(1,2) by auto
qed

text \<open>The 128 entries are not checked: with a full call stack, a resume writes outside the array.\<close>

lemma CoResume_full:
  assumes "call_stack_size e = int (length (call_stack e))"
  shows "CoResume e c sp = None"
proof (cases "cos e c")
  case (Some co)
  then show ?thesis
    using assms by (cases "stack_get e (call_stack_size e - 1)") (simp_all add: CoResume_def upd_co_def vset_out)
qed (simp add: CoResume_def)

text \<open>
  The stack size of a new coroutine. Whatever size is asked for, the stack is a
  positive multiple of 4 kB of at most 8 MB; a request within the limits is met and
  exceeded by less than one page.
\<close>

theorem round_stack_size_bounds:
  "0 < round_stack_size n \<and> round_stack_size n mod 4096 = 0 \<and> round_stack_size n \<le> 8 * 1024 * 1024 \<and>
   (0 < n \<longrightarrow> n \<le> 8 * 1024 * 1024 \<longrightarrow> n \<le> round_stack_size n \<and> round_stack_size n < n + 4096)"
proof -
  define m where "m = (if n \<le> 0 then 128 * 1024 else if n > 8 * 1024 * 1024 then 8 * 1024 * 1024 else n)"
  have m: "0 < m" "m \<le> 8 * 1024 * 1024" by (auto simp: m_def)
  have r: "round_stack_size n = (if m mod 4096 = 0 then m else m - m mod 4096 + 4096)"
    by (simp add: round_stack_size_eq Let_def m_def)
  have d: "m = 4096 * (m div 4096) + m mod 4096" "0 \<le> m mod 4096" "m mod 4096 < 4096" by simp_all
  have "round_stack_size n mod 4096 = 0" by (simp add: r minus_mod_eq_mult_div)
  moreover have "m \<le> round_stack_size n" "round_stack_size n < m + 4096" using r d(2,3) by auto
  moreover have "round_stack_size n \<le> 8 * 1024 * 1024"
  proof (cases "m mod 4096 = 0")
    case True
    then show ?thesis using r m(2) by simp
  next
    case False
    then have "m div 4096 < 2048" using d(1,2) m(2) by linarith
    moreover have "round_stack_size n = 4096 * (m div 4096) + 4096"
      using r False by (simp add: minus_mod_eq_mult_div)
    ultimately show ?thesis by linarith
  qed
  ultimately show ?thesis using m by (auto simp: m_def split: if_splits)
qed

theorem round_stack_size_bounds_witness:
  "5000 \<le> round_stack_size 5000 \<and> round_stack_size 5000 < 9096"
  using round_stack_size_bounds [of 5000] by simp

end
