(* ===== verification/Hook.thy ===== *)
theory Hook
  imports Prelude "HOL-Library.List_Lexorder" "HOL-Library.Char_ord"
begin

unbundle bit_operations_syntax

section \<open>Hooked system calls (libco/co_hook.cpp)\<close>

text \<open>
  The wrappers that replace the system calls of a coroutine. The original calls, found by
  \<open>dlsym\<close>, are the functions of the record \<open>sys\<close> over a world \<open>'w\<close>; each returns a result,
  the new \<open>errno\<close> and the new world. The hooked \<open>poll\<close> that the other wrappers call
  suspends the coroutine (see EventLoop), so for them it is the field \<open>hook_poll\<close>, and
  the \<open>CoPoll\<close> that \<open>poll\<close> itself calls is the field \<open>co_poll_call\<close>.

  \<open>va_start\<close> and \<open>va_end\<close> are not modelled; an optional argument is an \<open>int option\<close>. A
  \<open>timeval\<close> is a pair of seconds and microseconds, a \<open>sockaddr\<close> its 16 bytes.
\<close>

subsection \<open>State\<close>

type_synonym 'w outcome = "int \<times> int \<times> 'w"

record socket_info =
  flag :: int
  dest :: "nat list"
  domain :: int
  read_timeout :: "int \<times> int"
  write_timeout :: "int \<times> int"

record env_t =
  name :: string
  env_value :: "string option"

record 'w sys =
  sys_poll :: "pollfd list \<Rightarrow> int \<Rightarrow> 'w \<Rightarrow> int \<times> pollfd list \<times> 'w"
  co_poll_call :: "pollfd list \<Rightarrow> int \<Rightarrow> 'w \<Rightarrow> int \<times> pollfd list \<times> 'w"
  hook_poll :: "pollfd \<Rightarrow> int \<Rightarrow> 'w \<Rightarrow> int \<times> pollfd \<times> 'w"
  sys_fcntl :: "int \<Rightarrow> int \<Rightarrow> int option \<Rightarrow> 'w \<Rightarrow> 'w outcome"
  sys_socket :: "int \<Rightarrow> int \<Rightarrow> int \<Rightarrow> 'w \<Rightarrow> 'w outcome"
  sys_setsockopt :: "int \<Rightarrow> int \<Rightarrow> int \<Rightarrow> (int \<times> int) \<Rightarrow> 'w \<Rightarrow> 'w outcome"
  sys_bind :: "int \<Rightarrow> nat list \<Rightarrow> 'w \<Rightarrow> 'w outcome"
  sys_listen :: "int \<Rightarrow> int \<Rightarrow> 'w \<Rightarrow> 'w outcome"
  sys_accept4 :: "int \<Rightarrow> int \<Rightarrow> 'w \<Rightarrow> 'w outcome"
  sys_close :: "int \<Rightarrow> 'w \<Rightarrow> 'w outcome"
  sys_connect :: "int \<Rightarrow> nat list \<Rightarrow> 'w \<Rightarrow> 'w outcome"
  sys_getsockopt_error :: "int \<Rightarrow> 'w \<Rightarrow> int \<times> int \<times> int \<times> 'w"   \<comment> \<open>result, SO_ERROR value, errno\<close>
  sys_read :: "int \<Rightarrow> nat \<Rightarrow> 'w \<Rightarrow> 'w outcome"
  sys_write :: "int \<Rightarrow> nat list \<Rightarrow> 'w \<Rightarrow> 'w outcome"
  sys_sendto :: "int \<Rightarrow> nat list \<Rightarrow> int \<Rightarrow> 'w \<Rightarrow> 'w outcome"
  sys_recvfrom :: "int \<Rightarrow> nat \<Rightarrow> int \<Rightarrow> 'w \<Rightarrow> 'w outcome"
  sys_setenv :: "string \<Rightarrow> string option \<Rightarrow> bool \<Rightarrow> 'w \<Rightarrow> 'w outcome"
  sys_unsetenv :: "string \<Rightarrow> 'w \<Rightarrow> 'w outcome"
  sys_getenv :: "string \<Rightarrow> 'w \<Rightarrow> string option"

record 'w hook =
  sys_hook :: bool                          \<comment> \<open>\<open>CoSelf()->enable_sys_hook\<close>\<close>
  pv_env :: "env_t list option"             \<comment> \<open>\<open>CoSelf()->pv_env\<close>\<close>
  env_list :: "env_t list option"           \<comment> \<open>\<open>g_env_list\<close>, \<open>None\<close> when \<open>data\<close> is null\<close>
  infos :: "int \<rightharpoonup> socket_info"              \<comment> \<open>\<open>g_socket_info\<close>, for 0 to 102399\<close>
  errno :: int
  world :: 'w

definition call :: "('w \<Rightarrow> 'w outcome) \<Rightarrow> 'w hook \<Rightarrow> int \<times> 'w hook" where
  "call f st = (let (r, e, w) = f (world st) in (r, st\<lparr>errno := e, world := w\<rparr>))"

definition CoEnableHook :: "'w hook \<Rightarrow> 'w hook" where
  "CoEnableHook st = st\<lparr>sys_hook := True\<rparr>"

subsection \<open>poll\<close>

text \<open>
  The loop that merges entries with the same descriptor: the merged array so far and the
  map from descriptors to its indices.
\<close>

fun merge_fds :: "pollfd list \<Rightarrow> (int \<rightharpoonup> nat) \<Rightarrow> pollfd list \<Rightarrow> (pollfd list \<times> (int \<rightharpoonup> nat)) option" where
  "merge_fds acc m [] = Some (acc, m)"
| "merge_fds acc m (x # xs) = (case m (fd x) of
      None \<Rightarrow> merge_fds (acc @ [x]) (m(fd x \<mapsto> length acc)) xs
    | Some i \<Rightarrow> do {
        y \<leftarrow> vget acc i;
        acc' \<leftarrow> vset acc i (y\<lparr>pevents := pevents y OR pevents x\<rparr>);
        merge_fds acc' m xs })"

fun spread_revents :: "pollfd list \<Rightarrow> (int \<rightharpoonup> nat) \<Rightarrow> pollfd list \<Rightarrow> pollfd list option" where
  "spread_revents mg m [] = Some []"
| "spread_revents mg m (x # xs) = do {
     x' \<leftarrow> (case m (fd x) of
         None \<Rightarrow> Some x
       | Some i \<Rightarrow> do { y \<leftarrow> vget mg i; Some (x\<lparr>revents := revents y AND pevents x\<rparr>) });
     ys \<leftarrow> spread_revents mg m xs;
     Some (x' # ys) }"

definition poll_hook :: "'w sys \<Rightarrow> 'w hook \<Rightarrow> pollfd list \<Rightarrow> int \<Rightarrow> (int \<times> pollfd list \<times> 'w hook) option" where
  "poll_hook s st xs timeout =
     (if \<not> sys_hook st \<or> timeout = 0 then
        (let (r, ys, w) = sys_poll s xs timeout (world st) in Some (r, ys, st\<lparr>world := w\<rparr>))
      else do {
        (mg, m) \<leftarrow> (if length xs > 1 then merge_fds [] Map.empty xs else Some ([], Map.empty));
        if length mg = length xs \<or> length xs = 1 then
          (let (r, ys, w) = co_poll_call s xs timeout (world st) in Some (r, ys, st\<lparr>world := w\<rparr>))
        else
          (let (r, mg', w) = co_poll_call s mg timeout (world st) in
           if r > 0 then do {
             ys \<leftarrow> spread_revents mg' m xs;
             Some (r, ys, st\<lparr>world := w\<rparr>) }
           else Some (r, xs, st\<lparr>world := w\<rparr>)) })"

subsection \<open>Environment variables\<close>

definition SetEnvList :: "'w hook \<Rightarrow> string option list \<Rightarrow> 'w hook" where
  "SetEnvList st names = (if env_list st \<noteq> None then st
     else let es = map (\<lambda>n. \<lparr>name = n, env_value = None\<rparr>)
                (filter (\<lambda>n. n \<noteq> []) (List.map_filter id names));
              es = (if length es > 1 then sort_key name es else es) in
          st\<lparr>env_list := Some es\<rparr>)"

definition DupEnvList :: "env_t list \<Rightarrow> env_t list" where
  "DupEnvList es = es"

text \<open>\<open>bsearch\<close> with \<open>EnvComp\<close>: the half-open interval that is left to search.\<close>

function env_bsearch :: "string \<Rightarrow> env_t list \<Rightarrow> nat \<Rightarrow> nat \<Rightarrow> nat option" where
  "env_bsearch n es l u =
     (if l < u \<and> u \<le> length es then
        let i = (l + u) div 2 in
        if n < name (es ! i) then env_bsearch n es l i
        else if name (es ! i) < n then env_bsearch n es (i + 1) u
        else Some i
      else None)"
  by pat_completeness auto
termination
  by (relation "measure (\<lambda>(n, es, l, u). u - l)") auto

declare env_bsearch.simps [simp del]

text \<open>The coroutine's own list, copied from the global one at its first use.\<close>

definition own_env :: "'w hook \<Rightarrow> (env_t list \<times> 'w hook) option" where
  "own_env st = (if sys_hook st then
      (case env_list st of
         None \<Rightarrow> None
       | Some g \<Rightarrow> (case pv_env st of
            Some es \<Rightarrow> Some (es, st)
          | None \<Rightarrow> Some (DupEnvList g, st\<lparr>pv_env := Some (DupEnvList g)\<rparr>)))
      else None)"

definition setenv :: "'w sys \<Rightarrow> 'w hook \<Rightarrow> string \<Rightarrow> string option \<Rightarrow> bool \<Rightarrow> int \<times> 'w hook" where
  "setenv s st n v overwrite = (case own_env st of
      None \<Rightarrow> call (sys_setenv s n v overwrite) st
    | Some (es, st1) \<Rightarrow> (case env_bsearch n es 0 (length es) of
          Some i \<Rightarrow> (0, if overwrite \<or> env_value (es ! i) = None
             then st1\<lparr>pv_env := Some (es[i := (es ! i)\<lparr>env_value := v\<rparr>])\<rparr> else st1)
        | None \<Rightarrow> call (sys_setenv s n v overwrite) st1))"

definition unsetenv :: "'w sys \<Rightarrow> 'w hook \<Rightarrow> string \<Rightarrow> int \<times> 'w hook" where
  "unsetenv s st n = (case own_env st of
      None \<Rightarrow> call (sys_unsetenv s n) st
    | Some (es, st1) \<Rightarrow> (case env_bsearch n es 0 (length es) of
          Some i \<Rightarrow> (0, if env_value (es ! i) \<noteq> None
             then st1\<lparr>pv_env := Some (es[i := (es ! i)\<lparr>env_value := None\<rparr>])\<rparr> else st1)
        | None \<Rightarrow> call (sys_unsetenv s n) st1))"

definition getenv :: "'w sys \<Rightarrow> 'w hook \<Rightarrow> string \<Rightarrow> string option \<times> 'w hook" where
  "getenv s st n = (case own_env st of
      None \<Rightarrow> (sys_getenv s n (world st), st)
    | Some (es, st1) \<Rightarrow> (case env_bsearch n es 0 (length es) of
          Some i \<Rightarrow> (env_value (es ! i), st1)
        | None \<Rightarrow> (sys_getenv s n (world st1), st1)))"

subsection \<open>The socket table\<close>

definition in_table :: "int \<Rightarrow> bool" where
  "in_table x \<longleftrightarrow> x > -1 \<and> x < 102400"

definition SocketInfoAlloc :: "'w hook \<Rightarrow> int \<Rightarrow> bool \<times> 'w hook" where
  "SocketInfoAlloc st x = (if in_table x
     then (True, st\<lparr>infos := (infos st)(x \<mapsto> \<lparr>flag = 0, dest = replicate 16 0, domain = 0,
             read_timeout = (1, 0), write_timeout = (1, 0)\<rparr>)\<rparr>)
     else (False, st))"

definition SocketInfoGet :: "'w hook \<Rightarrow> int \<Rightarrow> socket_info option" where
  "SocketInfoGet st x = (if in_table x then infos st x else None)"

definition SocketInfoFree :: "'w hook \<Rightarrow> int \<Rightarrow> 'w hook" where
  "SocketInfoFree st x = (if in_table x then st\<lparr>infos := (infos st)(x := None)\<rparr> else st)"

definition upd_info :: "'w hook \<Rightarrow> int \<Rightarrow> (socket_info \<Rightarrow> socket_info) \<Rightarrow> 'w hook" where
  "upd_info st x f = st\<lparr>infos := (infos st)(x := map_option f (infos st x))\<rparr>"

subsection \<open>fcntl\<close>

definition O_NONBLOCK :: int where "O_NONBLOCK = 2048"
definition F_GETFL :: int where "F_GETFL = 3"
definition F_SETFL :: int where "F_SETFL = 4"

text \<open>
  The C expression \<open>!info->flag & O_NONBLOCK\<close> negates \<open>flag\<close> first. The groups of
  commands are those of the switch: an \<open>int\<close> argument, none, a pointer (passed through).
  235 is the source line that \<open>return __LINE__\<close> yields for a negative descriptor.
\<close>

definition fcntl :: "'w sys \<Rightarrow> 'w hook \<Rightarrow> int \<Rightarrow> int \<Rightarrow> int option \<Rightarrow> int \<times> 'w hook" where
  "fcntl s st x cmd arg = (if x < 0 then (235, st)
     else let info = SocketInfoGet st x in
       if cmd \<in> {0, 1030, 2, 8} then call (sys_fcntl s x cmd arg) st
       else if cmd \<in> {1, 9} then call (sys_fcntl s x cmd None) st
       else if cmd = F_GETFL then
         (let (ret, st1) = call (sys_fcntl s x cmd None) st in
          case info of
            Some i \<Rightarrow> (if (if flag i = 0 then 1 else 0) AND O_NONBLOCK \<noteq> 0
                       then ret AND NOT O_NONBLOCK else ret, st1)
          | None \<Rightarrow> (ret, st1))
       else if cmd = F_SETFL then
         (let param = (case arg of None \<Rightarrow> 0 | Some a \<Rightarrow> a);
              param = (if sys_hook st \<and> info \<noteq> None then param OR O_NONBLOCK else param);
              (ret, st1) = call (sys_fcntl s x cmd (Some param)) st in
          (ret, if info \<noteq> None \<and> ret = 0 then upd_info st1 x (\<lambda>i. i\<lparr>flag := param\<rparr>) else st1))
       else if cmd \<in> {5, 6, 7} then call (sys_fcntl s x cmd arg) st
       else (- 1, st))"

subsection \<open>Sockets\<close>

text \<open>A descriptor beyond the table makes \<open>SocketInfoAlloc\<close> return a null pointer that is used.\<close>

definition socket :: "'w sys \<Rightarrow> 'w hook \<Rightarrow> int \<Rightarrow> int \<Rightarrow> int \<Rightarrow> (int \<times> 'w hook) option" where
  "socket s st dm type proto = (
     let (x, st1) = call (sys_socket s dm type proto) st in
     if \<not> sys_hook st1 \<or> x < 0 then Some (x, st1)
     else let (ok, st2) = SocketInfoAlloc st1 x in
       if \<not> ok then None
       else let st3 = upd_info st2 x (\<lambda>i. i\<lparr>domain := dm\<rparr>);
                (fl, st4) = call (sys_fcntl s x F_GETFL (Some 0)) st3;
                (r, st5) = fcntl s st4 x F_SETFL (Some fl) in
            Some (x, st5))"

definition SOL_SOCKET :: int where "SOL_SOCKET = 1"
definition SO_RCVTIMEO :: int where "SO_RCVTIMEO = 20"
definition SO_SNDTIMEO :: int where "SO_SNDTIMEO = 21"

definition setsockopt :: "'w sys \<Rightarrow> 'w hook \<Rightarrow> int \<Rightarrow> int \<Rightarrow> int \<Rightarrow> int \<times> int \<Rightarrow> int \<times> 'w hook" where
  "setsockopt s st x level optname tv =
     (if \<not> sys_hook st then call (sys_setsockopt s x level optname tv) st
      else let st1 = (if SocketInfoGet st x \<noteq> None \<and> level = SOL_SOCKET then
                 (if optname = SO_RCVTIMEO then upd_info st x (\<lambda>i. i\<lparr>read_timeout := tv\<rparr>)
                  else if optname = SO_SNDTIMEO then upd_info st x (\<lambda>i. i\<lparr>write_timeout := tv\<rparr>)
                  else st) else st) in
           call (sys_setsockopt s x level optname tv) st1)"

text \<open>\<open>memcpy(&info->dest, addr, addrlen)\<close>: \<open>dest\<close> has 16 bytes.\<close>

definition copy_dest :: "'w hook \<Rightarrow> int \<Rightarrow> nat list \<Rightarrow> 'w hook option" where
  "copy_dest st x addr = (if length addr \<le> 16
     then Some (upd_info st x (\<lambda>i. i\<lparr>dest := addr @ drop (length addr) (dest i)\<rparr>)) else None)"

definition bind_hook :: "'w sys \<Rightarrow> 'w hook \<Rightarrow> int \<Rightarrow> nat list \<Rightarrow> (int \<times> 'w hook) option" where
  "bind_hook s st x addr =
     (if \<not> sys_hook st then Some (call (sys_bind s x addr) st)
      else do {
        st1 \<leftarrow> (if SocketInfoGet st x \<noteq> None then copy_dest st x addr else Some st);
        Some (call (sys_bind s x addr) st1) })"

definition listen :: "'w sys \<Rightarrow> 'w hook \<Rightarrow> int \<Rightarrow> int \<Rightarrow> int \<times> 'w hook" where
  "listen s st x backlog = call (sys_listen s x backlog) st"

definition accept4 :: "'w sys \<Rightarrow> 'w hook \<Rightarrow> int \<Rightarrow> int \<Rightarrow> int \<times> 'w hook" where
  "accept4 s st x flags = (
     let (y, st1) = call (sys_accept4 s x flags) st in
     (y, if sys_hook st1 \<and> y \<ge> 0 then snd (SocketInfoAlloc st1 y) else st1))"

definition close :: "'w sys \<Rightarrow> 'w hook \<Rightarrow> int \<Rightarrow> int \<times> 'w hook" where
  "close s st x = (if \<not> sys_hook st then call (sys_close s x) st
     else call (sys_close s x) (SocketInfoFree st x))"

definition poll_one :: "'w sys \<Rightarrow> 'w hook \<Rightarrow> pollfd \<Rightarrow> int \<Rightarrow> int \<times> pollfd \<times> 'w hook" where
  "poll_one s st p timeout = (let (r, p', w) = hook_poll s p timeout (world st) in (r, p', st\<lparr>world := w\<rparr>))"

partial_function (option) connect_wait :: "'w sys \<Rightarrow> 'w hook \<Rightarrow> pollfd \<Rightarrow> (pollfd \<times> 'w hook) option" where
  "connect_wait s st p = (
     let (r, p', st1) = poll_one s st p 10000 in
     if r = 1 then Some (p', st1) else connect_wait s st1 p')"

definition EINPROGRESS :: int where "EINPROGRESS = 115"
definition ETIMEDOUT :: int where "ETIMEDOUT = 110"
definition EAGAIN :: int where "EAGAIN = 11"

definition connect_hook :: "'w sys \<Rightarrow> 'w hook \<Rightarrow> int \<Rightarrow> nat list \<Rightarrow> (int \<times> 'w hook) option" where
  "connect_hook s st x addr = (
     let (ret, st1) = call (sys_connect s x addr) st in
     if \<not> sys_hook st1 then Some (ret, st1)
     else case SocketInfoGet st1 x of
       None \<Rightarrow> Some (ret, st1)
     | Some info \<Rightarrow> do {
         st2 \<leftarrow> copy_dest st1 x addr;
         if flag info AND O_NONBLOCK \<noteq> 0 then Some (ret, st2)
         else if \<not> (ret < 0 \<and> errno st2 = EINPROGRESS) then Some (ret, st2)
         else do {
           (p, st3) \<leftarrow> connect_wait s st2 \<lparr>fd = x, pevents = 4 OR 8 OR 16, revents = 0\<rparr>;
           if revents p AND 4 \<noteq> 0 then
             (let (r, err, e, w) = sys_getsockopt_error s x (world st3);
                  st4 = st3\<lparr>errno := e, world := w\<rparr> in
              if r < 0 then Some (r, st4)
              else if err \<noteq> 0 then Some (- 1, st4\<lparr>errno := err\<rparr>)
              else Some (0, st4\<lparr>errno := 0\<rparr>))
           else Some (ret, st3\<lparr>errno := ETIMEDOUT\<rparr>) } })"

subsection \<open>Reading and writing\<close>

definition tv_ms :: "int \<times> int \<Rightarrow> int" where
  "tv_ms tv = fst tv * 1000 + snd tv div 1000"

text \<open>A descriptor whose calls are passed through: no table entry, or marked non-blocking.\<close>

definition pass_through :: "'w hook \<Rightarrow> int \<Rightarrow> bool" where
  "pass_through st x \<longleftrightarrow> (case SocketInfoGet st x of None \<Rightarrow> True | Some i \<Rightarrow> flag i AND O_NONBLOCK \<noteq> 0)"

definition read_hook :: "'w sys \<Rightarrow> 'w hook \<Rightarrow> int \<Rightarrow> nat \<Rightarrow> int \<times> 'w hook" where
  "read_hook s st x cnt =
     (if \<not> sys_hook st \<or> pass_through st x then call (sys_read s x cnt) st
      else let (r, p, st1) = poll_one s st \<lparr>fd = x, pevents = 1 OR 8 OR 16, revents = 0\<rparr>
                 (tv_ms (read_timeout (the (SocketInfoGet st x)))) in
           call (sys_read s x cnt) st1)"

function write_loop :: "'w sys \<Rightarrow> 'w hook \<Rightarrow> int \<Rightarrow> nat list \<Rightarrow> int \<Rightarrow> nat \<Rightarrow> int \<Rightarrow> int \<times> nat \<times> 'w hook" where
  "write_loop s st x buf timeout len ret =
     (if len < length buf then
        let (r, p, st1) = poll_one s st \<lparr>fd = x, pevents = 1 OR 8 OR 16, revents = 0\<rparr> timeout;
            (ret', st2) = call (sys_write s x (drop len buf)) st1 in
        if ret' \<le> 0 then (ret', len, st2)
        else write_loop s st2 x buf timeout (len + nat ret') ret'
      else (ret, len, st))"
  by pat_completeness auto
termination
  by (relation "measure (\<lambda>(s, st, x, buf, timeout, len, ret). length buf - len)") auto

declare write_loop.simps [simp del]

definition write_hook :: "'w sys \<Rightarrow> 'w hook \<Rightarrow> int \<Rightarrow> nat list \<Rightarrow> int \<times> 'w hook" where
  "write_hook s st x buf =
     (if \<not> sys_hook st \<or> pass_through st x then call (sys_write s x buf) st
      else let timeout = tv_ms (write_timeout (the (SocketInfoGet st x)));
               (ret, st1) = call (sys_write s x buf) st in
           if ret = 0 then (0, st1)
           else let len = (if ret > 0 then nat ret else 0);
                    (ret', len', st2) = write_loop s st1 x buf timeout len ret in
                if ret' \<le> 0 \<and> len' = 0 then (ret', st2) else (int len', st2))"

definition sendto_hook :: "'w sys \<Rightarrow> 'w hook \<Rightarrow> int \<Rightarrow> nat list \<Rightarrow> int \<Rightarrow> int \<times> 'w hook" where
  "sendto_hook s st x buf flags = (
     let (ret, st1) = call (sys_sendto s x buf flags) st in
     if \<not> sys_hook st1 \<or> pass_through st1 x then (ret, st1)
     else if ret < 0 \<and> errno st1 = EAGAIN then
       (let (r, p, st2) = poll_one s st1 \<lparr>fd = x, pevents = 4 OR 8 OR 16, revents = 0\<rparr>
              (tv_ms (write_timeout (the (SocketInfoGet st1 x)))) in
        call (sys_sendto s x buf flags) st2)
     else (ret, st1))"

definition recvfrom_hook :: "'w sys \<Rightarrow> 'w hook \<Rightarrow> int \<Rightarrow> nat \<Rightarrow> int \<Rightarrow> int \<times> 'w hook" where
  "recvfrom_hook s st x len flags =
     (if \<not> sys_hook st \<or> pass_through st x then call (sys_recvfrom s x len flags) st
      else let (r, p, st1) = poll_one s st \<lparr>fd = x, pevents = 4 OR 8 OR 16, revents = 0\<rparr>
                 (tv_ms (write_timeout (the (SocketInfoGet st x)))) in
           call (sys_recvfrom s x len flags) st1)"

subsection \<open>Merging descriptors\<close>

text \<open>All events that a list of entries asks for on one descriptor.\<close>

definition asked :: "pollfd list \<Rightarrow> int \<Rightarrow> 16 word" where
  "asked xs x = foldr (\<lambda>p e. pevents p OR e) (filter (\<lambda>p. fd p = x) xs) 0"

lemma asked_simps [simp]:
  "asked [] x = 0"
  "asked (p # ps) x = (if fd p = x then pevents p OR asked ps x else asked ps x)"
  by (simp_all add: asked_def)

lemma asked_append: "asked (xs @ ys) x = asked xs x OR asked ys x"
  by (induction xs) (simp_all add: or.assoc)

lemma asked_upd:
  "i < length acc \<Longrightarrow> fd (acc ! i) = x \<Longrightarrow> distinct (map fd acc) \<Longrightarrow>
   asked (acc[i := (acc ! i)\<lparr>pevents := pevents (acc ! i) OR e\<rparr>]) y = (if y = x then asked acc y OR e else asked acc y)"
proof (induction acc arbitrary: i)
  case (Cons p acc)
  have z: "asked acc (fd p) = 0"
  proof -
    have "filter (\<lambda>q. fd q = fd p) acc = []" using Cons.prems(3) by (auto simp: filter_empty_conv image_iff)
    then show ?thesis by (simp add: asked_def)
  qed
  show ?case
  proof (cases i)
    case 0
    then show ?thesis using Cons.prems z by (auto simp: or.assoc)
  next
    case (Suc j)
    have "fd p \<noteq> x" using Cons.prems Suc by auto
    then show ?thesis using Cons Suc by (auto simp: or.assoc)
  qed
qed simp

text \<open>The map and the merged array agree, and no descriptor occurs twice.\<close>

definition merge_ok :: "pollfd list \<Rightarrow> (int \<rightharpoonup> nat) \<Rightarrow> bool" where
  "merge_ok acc m \<longleftrightarrow> distinct (map fd acc) \<and> (\<forall>x i. m x = Some i \<longleftrightarrow> i < length acc \<and> fd (acc ! i) = x)"

lemma merge_ok_empty: "merge_ok [] Map.empty"
  by (simp add: merge_ok_def)

lemma merge_ok_snoc:
  assumes "merge_ok acc m" and "m (fd x) = None"
  shows "merge_ok (acc @ [x]) (m(fd x \<mapsto> length acc))"
proof -
  have nf: "fd (acc ! i) \<noteq> fd x" if "i < length acc" for i
    using assms that by (metis merge_ok_def option.distinct(1))
  then have "fd x \<notin> fd ` set acc" by (metis image_iff in_set_conv_nth)
  then show ?thesis using assms nf
    by (auto simp: merge_ok_def nth_append less_Suc_eq split: if_splits)
qed

lemma merge_ok_upd:
  assumes "merge_ok acc m" and "i < length acc"
  shows "merge_ok (acc[i := (acc ! i)\<lparr>pevents := e\<rparr>]) m"
proof -
  have "map fd (acc[i := (acc ! i)\<lparr>pevents := e\<rparr>]) = map fd acc"
    using assms(2) by (simp add: map_update list_update_same_conv)
  moreover from this have "fd (acc[i := (acc ! i)\<lparr>pevents := e\<rparr>] ! j) = fd (acc ! j)" if "j < length acc" for j
    using that by (metis length_list_update nth_map)
  ultimately show ?thesis using assms unfolding merge_ok_def by auto
qed

lemma merge_fds_ok:
  assumes "merge_ok acc m"
  shows "\<exists>mg m'. merge_fds acc m xs = Some (mg, m') \<and> merge_ok mg m' \<and>
     fd ` set mg = fd ` set acc \<union> fd ` set xs \<and> (\<forall>x. asked mg x = asked acc x OR asked xs x) \<and>
     length mg \<le> length acc + length xs \<and>
     (length mg = length acc + length xs \<longleftrightarrow> distinct (map fd xs) \<and> fd ` set acc \<inter> fd ` set xs = {})"
  using assms
proof (induction xs arbitrary: acc m)
  case Nil
  then show ?case by simp
next
  case (Cons x xs)
  show ?case
  proof (cases "m (fd x)")
    case None
    have nf: "fd x \<notin> fd ` set acc"
      using Cons.prems None unfolding merge_ok_def by (metis image_iff in_set_conv_nth option.distinct(1))
    obtain mg m' where R: "merge_fds (acc @ [x]) (m(fd x \<mapsto> length acc)) xs = Some (mg, m')" "merge_ok mg m'"
      "fd ` set mg = fd ` set (acc @ [x]) \<union> fd ` set xs" "\<forall>y. asked mg y = asked (acc @ [x]) y OR asked xs y"
      "length mg \<le> length (acc @ [x]) + length xs"
      "length mg = length (acc @ [x]) + length xs \<longleftrightarrow> distinct (map fd xs) \<and> fd ` set (acc @ [x]) \<inter> fd ` set xs = {}"
      using Cons.IH [OF merge_ok_snoc [OF Cons.prems None]] by (elim exE conjE)
    have "asked mg y = asked acc y OR asked (x # xs) y" for y
      using R(4) [rule_format, of y] by (simp add: asked_append or.assoc)
    moreover have "fd ` set mg = fd ` set acc \<union> fd ` set (x # xs)" using R(3) by auto
    moreover have "length mg = length acc + length (x # xs) \<longleftrightarrow>
        distinct (map fd (x # xs)) \<and> fd ` set acc \<inter> fd ` set (x # xs) = {}"
      using R(6) nf by auto
    ultimately show ?thesis using None R(1,2,5) by simp
  next
    case (Some i)
    then have i: "i < length acc" "fd (acc ! i) = fd x" and d: "distinct (map fd acc)"
      using Cons.prems by (auto simp: merge_ok_def)
    let ?acc = "acc[i := (acc ! i)\<lparr>pevents := pevents (acc ! i) OR pevents x\<rparr>]"
    have same: "map fd ?acc = map fd acc" using i(1) by (simp add: map_update list_update_same_conv)
    obtain mg m' where R: "merge_fds ?acc m xs = Some (mg, m')" "merge_ok mg m'"
      "fd ` set mg = fd ` set ?acc \<union> fd ` set xs" "\<forall>y. asked mg y = asked ?acc y OR asked xs y"
      "length mg \<le> length ?acc + length xs"
      using Cons.IH [OF merge_ok_upd [OF Cons.prems i(1), of "pevents (acc ! i) OR pevents x"]]
      by (elim exE conjE)
    have fx: "fd x \<in> fd ` set acc" using i by (metis image_eqI nth_mem)
    have fs: "fd ` set ?acc = fd ` set acc" using same by (metis list.set_map)
    have "\<forall>y. asked mg y = asked acc y OR asked (x # xs) y"
      using R(4) asked_upd [OF i d] by (simp add: or.assoc)
    moreover have "merge_fds acc m (x # xs) = Some (mg, m')" using R(1) Some i by (simp add: ub_simps)
    ultimately show ?thesis using R(2,3,5) fx fs by auto
  qed
qed

lemma spread_revents_ok:
  assumes "\<And>x i. m x = Some i \<Longrightarrow> i < length mg"
  shows "spread_revents mg m xs = Some (map (\<lambda>x. case m (fd x) of None \<Rightarrow> x
       | Some i \<Rightarrow> x\<lparr>revents := revents (mg ! i) AND pevents x\<rparr>) xs)"
  using assms by (induction xs) (auto simp: ub_simps split: option.split)

subsection \<open>Environment\<close>

lemma env_bsearch_Some:
  "env_bsearch n es l u = Some i \<Longrightarrow> l \<le> i \<and> i < u \<and> u \<le> length es \<and> name (es ! i) = n"
proof (induction n es l u rule: env_bsearch.induct)
  case (1 n es l u)
  show ?case
  proof (cases "l < u \<and> u \<le> length es")
    case True
    let ?i = "(l + u) div 2"
    have b: "l \<le> ?i" "?i < u" using True by auto
    show ?thesis
      using "1.prems" "1.IH"(1)[OF True refl] "1.IH"(2)[OF True refl] True b
      by (subst (asm) env_bsearch.simps) (auto simp: Let_def split: if_splits)
  next
    case False
    then show ?thesis using "1.prems" by (subst (asm) env_bsearch.simps) auto
  qed
qed

lemma env_bsearch_None:
  assumes "env_bsearch n es l u = None" and "sorted (map name es)" and "u \<le> length es" and "l \<le> j" and "j < u"
  shows "name (es ! j) \<noteq> n"
  using assms
proof (induction n es l u rule: env_bsearch.induct)
  case (1 n es l u)
  let ?i = "(l + u) div 2"
  have T: "l < u \<and> u \<le> length es" and b: "l \<le> ?i" "?i < u" using 1 by auto
  have mono: "name (es ! a) \<le> name (es ! c)" if "a \<le> c" "c < length es" for a c
    using sorted_nth_mono [OF 1(4), of a c] that by simp
  have e: "(if n < name (es ! ?i) then env_bsearch n es l ?i
        else if name (es ! ?i) < n then env_bsearch n es (?i + 1) u else Some ?i) = None"
    using 1(3) T by (subst (asm) env_bsearch.simps) (simp add: Let_def)
  consider "n < name (es ! ?i)" | "name (es ! ?i) < n" "\<not> n < name (es ! ?i)" using e by (auto split: if_splits)
  then show ?case
  proof cases
    case 1
    show ?thesis
    proof (cases "j < ?i")
      case True
      then show ?thesis
        using "1.IH"(1)[OF T refl 1] e 1 \<open>sorted (map name es)\<close> b T \<open>l \<le> j\<close> by simp
    next
      case False
      then show ?thesis using mono [of ?i j] 1 \<open>j < u\<close> T by auto
    qed
  next
    case 2
    show ?thesis
    proof (cases "?i < j")
      case True
      then show ?thesis
        using "1.IH"(2)[OF T refl 2(2,1)] e 2 \<open>sorted (map name es)\<close> b T \<open>j < u\<close> by simp
    next
      case False
      then show ?thesis using mono [of j ?i] 2 b T by auto
    qed
  qed
qed

lemma env_bsearch_iff:
  assumes "sorted (map name es)" and "distinct (map name es)"
  shows "env_bsearch n es 0 (length es) = Some i \<longleftrightarrow> i < length es \<and> name (es ! i) = n"
proof
  assume "env_bsearch n es 0 (length es) = Some i"
  then show "i < length es \<and> name (es ! i) = n" using env_bsearch_Some by blast
next
  assume R: "i < length es \<and> name (es ! i) = n"
  then obtain j where j: "env_bsearch n es 0 (length es) = Some j"
    using env_bsearch_None [OF _ assms(1) le_refl, of n 0 i] by (cases "env_bsearch n es 0 (length es)") auto
  then have "j < length es" "name (es ! j) = n" using env_bsearch_Some by blast+
  then have "j = i" using R assms(2) by (metis distinct_conv_nth length_map nth_map)
  with j show "env_bsearch n es 0 (length es) = Some i" by simp
qed

text \<open>A list that \<open>bsearch\<close> can work on: the invariant \<open>SetEnvList\<close> establishes.\<close>

definition env_ok :: "env_t list \<Rightarrow> bool" where
  "env_ok es \<longleftrightarrow> sorted (map name es) \<and> distinct (map name es)"

lemma env_ok_upd: "env_ok es \<Longrightarrow> i < length es \<Longrightarrow> env_ok (es[i := (es ! i)\<lparr>env_value := v\<rparr>])"
proof -
  assume "env_ok es" "i < length es"
  moreover from this have "map name (es[i := (es ! i)\<lparr>env_value := v\<rparr>]) = map name es"
    by (simp add: map_update list_update_same_conv)
  ultimately show ?thesis by (simp add: env_ok_def)
qed

definition own_list :: "'w hook \<Rightarrow> env_t list" where
  "own_list st = (case pv_env st of Some es \<Rightarrow> es | None \<Rightarrow> (case env_list st of Some g \<Rightarrow> g | None \<Rightarrow> []))"

lemma own_env_hooked:
  assumes "sys_hook st" and "env_list st \<noteq> None"
  shows "\<exists>st1. own_env st = Some (own_list st, st1) \<and> own_list st1 = own_list st \<and> pv_env st1 = Some (own_list st) \<and>
     sys_hook st1 \<and> env_list st1 = env_list st"
  using assms by (auto simp: own_env_def own_list_def DupEnvList_def split: option.splits)

lemma getenv_own:
  assumes "sys_hook st" and "env_list st \<noteq> None" and "env_ok (own_list st)"
    and "i < length (own_list st)" and "name (own_list st ! i) = n"
  shows "fst (getenv s st n) = env_value (own_list st ! i)"
proof -
  obtain st1 where "own_env st = Some (own_list st, st1)" using own_env_hooked [OF assms(1,2)] by blast
  moreover have "env_bsearch n (own_list st) 0 (length (own_list st)) = Some i"
    using env_bsearch_iff assms(3-5) by (auto simp: env_ok_def)
  ultimately show ?thesis by (simp add: getenv_def)
qed

lemma setenv_own:
  assumes "sys_hook st" and "env_list st \<noteq> None" and "env_ok (own_list st)"
    and "i < length (own_list st)" and "name (own_list st ! i) = n"
  shows "\<exists>st'. setenv s st n v True = (0, st') \<and> sys_hook st' \<and> env_list st' = env_list st \<and>
     own_list st' = (own_list st)[i := (own_list st ! i)\<lparr>env_value := v\<rparr>]"
proof -
  obtain st1 where o: "own_env st = Some (own_list st, st1)" "sys_hook st1" "env_list st1 = env_list st"
    using own_env_hooked [OF assms(1,2)] by blast
  moreover have "env_bsearch n (own_list st) 0 (length (own_list st)) = Some i"
    using env_bsearch_iff assms(3-5) by (auto simp: env_ok_def)
  ultimately show ?thesis by (auto simp: setenv_def own_list_def)
qed


subsection \<open>Writing\<close>

text \<open>
  What \<open>write\<close> is documented to do: it accepts at most the given bytes, appends the
  accepted ones to what the descriptor has received, and nothing when it fails. Waiting
  sends nothing.
\<close>

definition write_contract :: "'w sys \<Rightarrow> ('w \<Rightarrow> int \<Rightarrow> nat list) \<Rightarrow> bool" where
  "write_contract s out \<longleftrightarrow>
     (\<forall>x bs w r e w'. sys_write s x bs w = (r, e, w') \<longrightarrow>
        r \<le> int (length bs) \<and> out w' x = out w x @ take (nat r) bs) \<and>
     (\<forall>p t w r p' w'. hook_poll s p t w = (r, p', w') \<longrightarrow> (\<forall>x. out w' x = out w x))"

lemma poll_one_out:
  assumes "write_contract s out" and "poll_one s st p t = (r, p', st')"
  shows "out (world st') x = out (world st) x"
  using assms by (auto simp: write_contract_def poll_one_def split: prod.splits)

lemma call_write_out:
  assumes "write_contract s out" and "call (sys_write s x bs) st = (r, st')"
  shows "r \<le> int (length bs) \<and> out (world st') x = out (world st) x @ take (nat r) bs"
  using assms by (auto simp: write_contract_def call_def split: prod.splits)

lemma write_loop_ok:
  assumes "write_contract s out" and "write_loop s st x buf t len ret = (r, l, st')" and "len \<le> length buf"
  shows "len \<le> l \<and> l \<le> length buf \<and> out (world st') x = out (world st) x @ drop len (take l buf) \<and>
    (l < length buf \<longrightarrow> r \<le> 0) \<and> (len < l \<or> len = l)"
  using assms
proof (induction s st x buf t len ret rule: write_loop.induct)
  case (1 s st x buf t len ret)
  show ?case
  proof (cases "len < length buf")
    case False
    then show ?thesis using 1(3,4) by (simp add: write_loop.simps)
  next
    case True
    obtain q p st1 where p: "poll_one s st \<lparr>fd = x, pevents = 1 OR 8 OR 16, revents = 0\<rparr> t = (q, p, st1)"
      using prod_cases3 by blast
    obtain r2 st2 where w: "call (sys_write s x (drop len buf)) st1 = (r2, st2)" by force
    have o: "r2 \<le> int (length buf - len)" "out (world st2) x = out (world st) x @ take (nat r2) (drop len buf)"
      using call_write_out [OF 1(2) w] poll_one_out [OF 1(2) p, of x] by simp_all
    have u: "write_loop s st x buf t len ret =
        (if r2 \<le> 0 then (r2, len, st2) else write_loop s st2 x buf t (len + nat r2) r2)"
      using True p w by (subst write_loop.simps) (simp add: Let_def)
    show ?thesis
    proof (cases "r2 \<le> 0")
      case True
      then show ?thesis using u 1(3,4) o by simp
    next
      case False
      have eq: "write_loop s st2 x buf t (len + nat r2) r2 = (r, l, st')" using u 1(3) False by simp
      have le: "len + nat r2 \<le> length buf" using o(1) False 1(4) by linarith
      have IH: "len + nat r2 \<le> l \<and> l \<le> length buf \<and>
          out (world st') x = out (world st2) x @ drop (len + nat r2) (take l buf) \<and> (l < length buf \<longrightarrow> r \<le> 0) \<and>
          (len + nat r2 < l \<or> len + nat r2 = l)"
        using 1(1)[OF True refl, of q "(p, st1)" p st1 "(r2, st2)" r2 st2] p w False eq le 1(2) by simp
      have "take (nat r2) (drop len buf) @ drop (len + nat r2) (take l buf) = drop len (take l buf)"
      proof -
        have "drop len (take l buf) = take (l - len) (drop len buf)" by (simp add: drop_take)
        also have "\<dots> = take (nat r2) (drop len buf) @ take (l - len - nat r2) (drop (nat r2) (drop len buf))"
          using IH take_add [of "nat r2" "l - len - nat r2" "drop len buf"] by simp
        also have "take (l - len - nat r2) (drop (nat r2) (drop len buf)) = drop (len + nat r2) (take l buf)"
          by (simp add: drop_take add.commute diff_diff_add)
        finally show ?thesis by simp
      qed
      then show ?thesis using IH o(2) by auto
    qed
  qed
qed

lemma write_hook_ok:
  assumes w: "write_contract s out" and r: "write_hook s st x buf = (r, st')"
  shows "r \<le> int (length buf) \<and> out (world st') x = out (world st) x @ take (nat r) buf"
proof (cases "\<not> sys_hook st \<or> pass_through st x")
  case True
  then show ?thesis using r call_write_out [OF w] by (auto simp: write_hook_def)
next
  case False
  obtain r1 st1 where c: "call (sys_write s x buf) st = (r1, st1)" by force
  have o: "r1 \<le> int (length buf)" "out (world st1) x = out (world st) x @ take (nat r1) buf"
    using call_write_out [OF w c] by simp_all
  let ?t = "tv_ms (write_timeout (the (SocketInfoGet st x)))"
  show ?thesis
  proof (cases "r1 = 0")
    case True
    then show ?thesis using r c False o by (simp add: write_hook_def Let_def)
  next
    case nz: False
    let ?len = "if r1 > 0 then nat r1 else 0"
    obtain r2 l st2 where l: "write_loop s st1 x buf ?t ?len r1 = (r2, l, st2)" using prod_cases3 by blast
    have "?len \<le> length buf" using o(1) by auto
    note L = write_loop_ok [OF w l this]
    have "take (nat r1) buf @ drop ?len (take l buf) = take l buf"
    proof -
      have "take (nat r1) buf = take ?len (take l buf)" using L by (auto simp: min_absorb1)
      then show ?thesis by (metis append_take_drop_id)
    qed
    moreover have "(r, st') = (if r2 \<le> 0 \<and> l = 0 then (r2, st2) else (int l, st2))"
      using r c False nz l by (simp add: write_hook_def Let_def)
    ultimately show ?thesis using L o by (auto split: if_splits)
  qed
qed


lemma asked_distinct: "distinct (map fd mg) \<Longrightarrow> p \<in> set mg \<Longrightarrow> asked mg (fd p) = pevents p"
proof (induction mg)
  case (Cons q mg)
  have z: "asked mg x = 0" if "x \<notin> fd ` set mg" for x
  proof -
    have "filter (\<lambda>q. fd q = x) mg = []" using that by (auto simp: filter_empty_conv)
    then show ?thesis by (simp add: asked_def)
  qed
  show ?case
  proof (cases "p = q")
    case True
    then show ?thesis using Cons.prems z by simp
  next
    case False
    then have "fd q \<noteq> fd p" using Cons.prems by (metis distinct.simps(2) image_eqI list.set_map list.simps(9) set_ConsD)
    then show ?thesis using Cons False by simp
  qed
qed simp

lemma or_and_absorb: "(a OR b) AND b = (b :: int)"
  by (auto simp: bit_eq_iff bit_and_iff bit_or_iff)

subsection \<open>A descriptor in use\<close>

text \<open>The calls of a coroutine that are hooked and concern descriptors.\<close>

datatype hook_call =
    Socket int int int
  | Fcntl int int "int option"
  | Setsockopt int int int "int \<times> int"
  | Bind int "nat list"
  | Listen int int
  | Accept4 int int
  | Close int
  | Connect int "nat list"
  | Read int nat
  | Write int "nat list"
  | Sendto int "nat list" int
  | Recvfrom int nat int

fun perform :: "'w sys \<Rightarrow> hook_call \<Rightarrow> 'w hook \<Rightarrow> (int \<times> 'w hook) option" where
  "perform s (Socket dm type proto) st = socket s st dm type proto"
| "perform s (Fcntl y cmd arg) st = Some (fcntl s st y cmd arg)"
| "perform s (Setsockopt y level optname tv) st = Some (setsockopt s st y level optname tv)"
| "perform s (Bind y addr) st = bind_hook s st y addr"
| "perform s (Listen y backlog) st = Some (listen s st y backlog)"
| "perform s (Accept4 y flags) st = Some (accept4 s st y flags)"
| "perform s (Close y) st = Some (close s st y)"
| "perform s (Connect y addr) st = connect_hook s st y addr"
| "perform s (Read y cnt) st = Some (read_hook s st y cnt)"
| "perform s (Write y buf) st = Some (write_hook s st y buf)"
| "perform s (Sendto y buf flags) st = Some (sendto_hook s st y buf flags)"
| "perform s (Recvfrom y cnt flags) st = Some (recvfrom_hook s st y cnt flags)"

definition opens :: "hook_call \<Rightarrow> bool" where
  "opens c \<longleftrightarrow> (\<exists>dm type proto. c = Socket dm type proto) \<or> (\<exists>y flags. c = Accept4 y flags)"

text \<open>
  The states after calls of hooked coroutines, on any descriptors, that do not close \<open>x\<close>;
  no call hands out \<open>x\<close> anew. In between the world, \<open>errno\<close> and the environment of the
  running coroutine change in any way.
\<close>

inductive while_open :: "'w sys \<Rightarrow> int \<Rightarrow> 'w hook \<Rightarrow> 'w hook \<Rightarrow> bool" for s x st where
  opened: "while_open s x st st"
| call: "while_open s x st st1 \<Longrightarrow> perform s c st1 = Some (r, st2) \<Longrightarrow> c \<noteq> Close x \<Longrightarrow> (opens c \<Longrightarrow> r \<noteq> x) \<Longrightarrow>
    while_open s x st st2"
| other: "while_open s x st st1 \<Longrightarrow> while_open s x st (st1\<lparr>world := w, errno := e, pv_env := es\<rparr>)"

definition marked :: "'w hook \<Rightarrow> int \<Rightarrow> bool" where
  "marked st x \<longleftrightarrow> in_table x \<and> (\<exists>i. infos st x = Some i \<and> flag i AND O_NONBLOCK \<noteq> 0)"

lemma call_frame [simp]: "infos (snd (call f st)) = infos st" "sys_hook (snd (call f st)) = sys_hook st"
  by (simp_all add: call_def split: prod.split)

lemma call_keeps: "call f st = (r, st') \<Longrightarrow> infos st' = infos st \<and> sys_hook st' = sys_hook st"
  by (auto simp: call_def split: prod.splits)

lemma poll_one_keeps: "poll_one s st p t = (r, p', st') \<Longrightarrow> infos st' = infos st \<and> sys_hook st' = sys_hook st"
  by (auto simp: poll_one_def split: prod.splits)

lemma marked_pass: "marked st x \<Longrightarrow> pass_through st x"
  by (auto simp: marked_def pass_through_def SocketInfoGet_def)

lemma marked_cong: "infos st' x = infos st x \<Longrightarrow> marked st' x = marked st x"
  by (simp add: marked_def)

lemma or_nonblock: "(p OR O_NONBLOCK) AND O_NONBLOCK \<noteq> 0"
  by (simp only: or_and_absorb) (simp add: O_NONBLOCK_def)

lemma infos_upd: "infos (upd_info st y f) x = (if x = y then map_option f (infos st y) else infos st x)"
  "sys_hook (upd_info st y f) = sys_hook st"
  by (simp_all add: upd_info_def)

lemma marked_upd: "(\<And>i. flag (f i) = flag i) \<Longrightarrow> marked (upd_info st y f) x = marked st x"
  by (auto simp: marked_def infos_upd)

lemma fcntl_keeps:
  assumes "fcntl s st y cmd arg = (r, st')" and "sys_hook st"
  shows "sys_hook st' \<and> (marked st x \<longrightarrow> marked st' x) \<and> (x \<noteq> y \<longrightarrow> infos st' x = infos st x)"
proof -
  let ?p = "(case arg of None \<Rightarrow> 0 | Some a \<Rightarrow> a)"
  consider "y < 0" | "0 \<le> y" "cmd = F_SETFL" | "0 \<le> y" "cmd \<noteq> F_SETFL" by linarith
  then show ?thesis
  proof cases
    case 2
    let ?q = "if sys_hook st \<and> SocketInfoGet st y \<noteq> None then ?p OR O_NONBLOCK else ?p"
    obtain ret st1 where c: "call (sys_fcntl s y cmd (Some ?q)) st = (ret, st1)" by force
    have st': "st' = (if SocketInfoGet st y \<noteq> None \<and> ret = 0 then upd_info st1 y (\<lambda>i. i\<lparr>flag := ?q\<rparr>) else st1)"
      using assms(1) 2 c by (auto simp: fcntl_def F_SETFL_def F_GETFL_def Let_def)
    have k: "infos st1 = infos st" "sys_hook st1 = sys_hook st" using call_keeps [OF c] by simp_all
    have "marked st' x" if "marked st x"
    proof (cases "x = y \<and> SocketInfoGet st y \<noteq> None \<and> ret = 0")
      case True
      then have "infos st' x = map_option (\<lambda>i. i\<lparr>flag := ?p OR O_NONBLOCK\<rparr>) (infos st x)"
        using st' k assms(2) by (simp add: infos_upd)
      then show ?thesis using that or_nonblock by (auto simp: marked_def)
    next
      case False
      then have "infos st' x = infos st x" using st' k by (auto simp: infos_upd)
      then show ?thesis using that by (simp add: marked_def)
    qed
    then show ?thesis using st' k assms(2) by (auto simp: infos_upd)
  next
    case 3
    then have "\<exists>a. st' = st \<or> st' = snd (call (sys_fcntl s y cmd a) st)"
      using assms(1) by (auto simp: fcntl_def Let_def split: if_splits prod.splits option.splits)
        (metis snd_conv)+
    then show ?thesis using assms(2) marked_cong [of st' x st] by auto
  qed (use assms in \<open>simp add: fcntl_def\<close>)
qed

lemma bind_keeps: "bind_hook s st y addr = Some (r, st') \<Longrightarrow> sys_hook st \<Longrightarrow> sys_hook st' \<and> (marked st x \<longrightarrow> marked st' x)"
  by (auto simp: bind_hook_def copy_dest_def marked_def infos_upd dest!: call_keeps split: if_splits bind_splits)

lemma setsockopt_keeps:
  assumes "setsockopt s st y level optname tv = (r, st')" and "sys_hook st"
  shows "sys_hook st' \<and> (marked st x \<longrightarrow> marked st' x)"
proof -
  let ?f = "\<lambda>i. if optname = SO_RCVTIMEO then i\<lparr>read_timeout := tv\<rparr> else i\<lparr>write_timeout := tv\<rparr>"
  have "call (sys_setsockopt s y level optname tv)
      (if SocketInfoGet st y \<noteq> None \<and> level = SOL_SOCKET \<and> optname \<in> {SO_RCVTIMEO, SO_SNDTIMEO} then upd_info st y ?f else st) = (r, st')"
    using assms by (cases "optname = SO_RCVTIMEO"; cases "optname = SO_SNDTIMEO") (auto simp: setsockopt_def Let_def split: if_splits)
  moreover have "marked (upd_info st y ?f) x = marked st x" by (rule marked_upd) simp
  ultimately show ?thesis using assms(2) marked_cong [of st' x "upd_info st y ?f"] marked_cong [of st' x st]
    by (auto simp: infos_upd(2) dest!: call_keeps split: if_splits)
qed

lemma alloc_keeps: "SocketInfoAlloc st y = (ok, st') \<Longrightarrow> sys_hook st' = sys_hook st \<and> (x \<noteq> y \<longrightarrow> infos st' x = infos st x)"
  by (auto simp: SocketInfoAlloc_def split: if_splits)

lemma accept4_keeps:
  assumes "accept4 s st y flags = (r, st')" and "sys_hook st" and "r \<noteq> x"
  shows "sys_hook st' \<and> (marked st x \<longrightarrow> marked st' x)"
proof -
  obtain st1 where c: "call (sys_accept4 s y flags) st = (r, st1)" "st' = st1 \<or> st' = snd (SocketInfoAlloc st1 r)"
    using assms(1) by (auto simp: accept4_def Let_def split: prod.splits if_splits)
  then have "sys_hook st' = sys_hook st \<and> infos st' x = infos st x"
    using call_keeps [OF c(1)] alloc_keeps [of st1 r "fst (SocketInfoAlloc st1 r)" "snd (SocketInfoAlloc st1 r)" x] assms(3) by auto
  then show ?thesis using assms(2) by (simp add: marked_def)
qed

text \<open>The steps of a successful \<open>socket\<close>.\<close>

lemma socket_steps:
  assumes "socket s st dm type proto = Some (y, st')" and "sys_hook st" and "0 \<le> y"
  obtains st1 st2 fl st4 where "call (sys_socket s dm type proto) st = (y, st1)" "SocketInfoAlloc st1 y = (True, st2)"
    "call (sys_fcntl s y F_GETFL (Some 0)) (upd_info st2 y (\<lambda>i. i\<lparr>domain := dm\<rparr>)) = (fl, st4)"
    "st' = snd (fcntl s st4 y F_SETFL (Some fl))"
proof -
  obtain st1 where c1: "call (sys_socket s dm type proto) st = (y, st1)"
    using assms(1) by (cases "call (sys_socket s dm type proto) st")
      (auto simp: socket_def Let_def split: if_splits prod.splits)
  obtain ok st2 where a: "SocketInfoAlloc st1 y = (ok, st2)" by force
  obtain fl st4 where f: "call (sys_fcntl s y F_GETFL (Some 0)) (upd_info st2 y (\<lambda>i. i\<lparr>domain := dm\<rparr>)) = (fl, st4)" by force
  have h1: "sys_hook st1" using call_keeps [OF c1] assms(2) by simp
  have "ok" using assms(1,3) c1 h1 a by (auto simp: socket_def Let_def split: if_splits prod.splits)
  moreover from this have "st' = snd (fcntl s st4 y F_SETFL (Some fl))"
    using assms(1,3) c1 h1 a f by (auto simp: socket_def Let_def split: prod.splits)
  ultimately show ?thesis using that [of st1 st2 fl st4] c1 a f by simp
qed

lemma socket_keeps:
  assumes "socket s st dm type proto = Some (y, st')" and "sys_hook st" and "y \<noteq> x"
  shows "sys_hook st' \<and> (marked st x \<longrightarrow> marked st' x)"
proof (cases "0 \<le> y")
  case True
  obtain st1 st2 fl st4 where S: "call (sys_socket s dm type proto) st = (y, st1)" "SocketInfoAlloc st1 y = (True, st2)"
      "call (sys_fcntl s y F_GETFL (Some 0)) (upd_info st2 y (\<lambda>i. i\<lparr>domain := dm\<rparr>)) = (fl, st4)"
      "st' = snd (fcntl s st4 y F_SETFL (Some fl))"
    using socket_steps [OF assms(1,2) True] .
  have k: "sys_hook st4 \<and> infos st4 x = infos st x"
    using call_keeps [OF S(1)] alloc_keeps [OF S(2), of x] call_keeps [OF S(3)] assms(2,3) by (simp add: infos_upd)
  obtain r where "fcntl s st4 y F_SETFL (Some fl) = (r, st')" using S(4) by (metis prod.collapse)
  then show ?thesis using fcntl_keeps [of s st4 y F_SETFL "Some fl" r st' x] k marked_cong [of st4 x st] by auto
next
  case False
  then have "call (sys_socket s dm type proto) st = (y, st')"
    using assms(1) by (auto simp: socket_def Let_def split: if_splits prod.splits)
  then show ?thesis using call_keeps assms(2) by (metis marked_cong)
qed

lemma connect_wait_keeps:
  assumes "connect_wait s st p = Some (p', st')"
  shows "infos st' = infos st \<and> sys_hook st' = sys_hook st"
proof -
  have "infos (snd q) = infos st \<and> sys_hook (snd q) = sys_hook st" if "connect_wait s st p = Some q" for q
    by (rule connect_wait.raw_induct [OF _ that])
      (auto split: prod.splits if_splits dest!: poll_one_keeps)
  from this [OF assms] show ?thesis by simp
qed

lemma connect_keeps:
  assumes "connect_hook s st y addr = Some (r, st')" and "sys_hook st"
  shows "sys_hook st' \<and> (marked st x \<longrightarrow> marked st' x)"
proof -
  obtain ret st1 where c: "call (sys_connect s y addr) st = (ret, st1)" by force
  note k = call_keeps [OF c]
  have cd: "sys_hook st2 = sys_hook st1 \<and> marked st2 x = marked st1 x" if "copy_dest st1 y addr = Some st2" for st2
    using that by (auto simp: copy_dest_def marked_upd infos_upd split: if_splits)
  have m1: "marked st1 x = marked st x" "sys_hook st1" using marked_cong [of st1 x st] k assms(2) by simp_all
  show ?thesis
  proof (cases "SocketInfoGet st1 y")
    case (Some i)
    then obtain st2 where c2: "copy_dest st1 y addr = Some st2"
      using assms(1) c m1(2) by (auto simp: connect_hook_def split: bind_splits)
    show ?thesis
    proof (cases "flag i AND O_NONBLOCK \<noteq> 0 \<or> \<not> (ret < 0 \<and> errno st2 = EINPROGRESS)")
      case True
      then have "st' = st2" using assms(1) c c2 m1(2) Some by (auto simp: connect_hook_def split: if_splits)
      then show ?thesis using cd [OF c2] m1 by simp
    next
      case False
      then obtain p st3 where w: "connect_wait s st2 \<lparr>fd = y, pevents = 4 OR 8 OR 16, revents = 0\<rparr> = Some (p, st3)"
        using assms(1) c c2 m1(2) Some by (auto simp: connect_hook_def split: bind_splits)
      have "infos st' = infos st3 \<and> sys_hook st' = sys_hook st3"
        using assms(1) c c2 m1(2) Some False w by (auto simp: connect_hook_def Let_def split: if_splits prod.splits)
      then show ?thesis using cd [OF c2] m1 connect_wait_keeps [OF w] marked_cong [of st' x st2] by simp
    qed
  qed (use assms(1) c m1 in \<open>simp add: connect_hook_def\<close>)
qed

lemma write_loop_keeps:
  "write_loop s st y buf timeout len ret = (r, l, st') \<Longrightarrow> infos st' = infos st \<and> sys_hook st' = sys_hook st"
proof (induction s st y buf timeout len ret rule: write_loop.induct)
  case (1 s st y buf timeout len ret)
  show ?case
  proof (cases "len < length buf")
    case True
    obtain r1 p st1 where p: "poll_one s st \<lparr>fd = y, pevents = 1 OR 8 OR 16, revents = 0\<rparr> timeout = (r1, p, st1)" by (metis prod_cases3)
    obtain ret' st2 where c: "call (sys_write s y (drop len buf)) st1 = (ret', st2)" by force
    show ?thesis
      using 1 True p c poll_one_keeps [OF p] call_keeps [OF c]
      by (auto simp: write_loop.simps [of s st] split: if_splits)
  qed (use 1(2) in \<open>simp add: write_loop.simps\<close>)
qed

lemma io_keeps:
  "read_hook s st y cnt = (r, st') \<Longrightarrow> infos st' = infos st \<and> sys_hook st' = sys_hook st"
  "write_hook s st y buf = (r, st') \<Longrightarrow> infos st' = infos st \<and> sys_hook st' = sys_hook st"
  "sendto_hook s st y buf fl = (r, st') \<Longrightarrow> infos st' = infos st \<and> sys_hook st' = sys_hook st"
  "recvfrom_hook s st y cnt fl = (r, st') \<Longrightarrow> infos st' = infos st \<and> sys_hook st' = sys_hook st"
  by (auto simp: read_hook_def write_hook_def sendto_hook_def recvfrom_hook_def Let_def split: if_splits prod.splits
      dest!: call_keeps poll_one_keeps write_loop_keeps)

lemma close_keeps:
  assumes "close s st y = (r, st')" and "sys_hook st" and "y \<noteq> x"
  shows "sys_hook st' \<and> (marked st x \<longrightarrow> marked st' x)"
  using assms by (auto simp: close_def SocketInfoFree_def marked_def dest!: call_keeps split: if_splits)

lemma same_marked: "infos st' = infos st \<and> sys_hook st' = sys_hook st \<Longrightarrow> sys_hook st \<Longrightarrow> sys_hook st' \<and> (marked st x \<longrightarrow> marked st' x)"
  by (simp add: marked_def)

lemma perform_keeps:
  assumes "perform s c st = Some (r, st')" and "sys_hook st" and "c \<noteq> Close x" and "opens c \<Longrightarrow> r \<noteq> x"
  shows "sys_hook st' \<and> (marked st x \<longrightarrow> marked st' x)"
proof (cases c)
  case (Socket a b d)
  then show ?thesis using assms socket_keeps [of s st a b d r st' x] by (simp add: opens_def)
next
  case (Fcntl y cmd arg)
  then show ?thesis using assms fcntl_keeps [of s st y cmd arg r st' x] by (simp)
next
  case (Setsockopt y l n t)
  then show ?thesis using assms setsockopt_keeps [of s st y l n t r st' x] by (simp)
next
  case (Bind y a)
  then show ?thesis using assms bind_keeps [of s st y a r st' x] by (simp)
next
  case (Listen y b)
  then show ?thesis using assms same_marked [OF call_keeps [of "sys_listen s y b" st r st'], of x] by (simp add: listen_def)
next
  case (Accept4 y f)
  then show ?thesis using assms accept4_keeps [of s st y f r st' x] by (simp add: opens_def)
next
  case (Close y)
  then show ?thesis using assms close_keeps [of s st y r st' x] by (simp)
next
  case (Connect y a)
  then show ?thesis using assms connect_keeps [of s st y a r st' x] by (simp)
next
  case (Read y n)
  then show ?thesis using assms same_marked [OF io_keeps(1) [of s st y n r st'], of x] by (simp)
next
  case (Write y b)
  then show ?thesis using assms same_marked [OF io_keeps(2) [of s st y b r st'], of x] by (simp)
next
  case (Sendto y b f)
  then show ?thesis using assms same_marked [OF io_keeps(3) [of s st y b f r st'], of x] by (simp)
next
  case (Recvfrom y n f)
  then show ?thesis using assms same_marked [OF io_keeps(4) [of s st y n f r st'], of x] by (simp)
qed

lemma while_open_marked: "while_open s x st st' \<Longrightarrow> sys_hook st \<Longrightarrow> marked st x \<Longrightarrow> sys_hook st' \<and> marked st' x"
proof (induction rule: while_open.induct)
  case (call st1 c r st2)
  then show ?case using perform_keeps [of s c st1 r st2 x] by blast
qed (simp_all add: marked_def)

text \<open>
  The kernel accepts the flags that a hooked \<open>socket\<close> sets on its new descriptor \<open>x\<close>: the
  call \<open>F_SETFL\<close> that it makes, with the flags it has read and O_NONBLOCK, returns 0.
\<close>

definition flags_set :: "'w sys \<Rightarrow> 'w hook \<Rightarrow> int \<Rightarrow> int \<Rightarrow> int \<Rightarrow> int \<Rightarrow> bool" where
  "flags_set s st dm type proto x = (
     let st1 = snd (call (sys_socket s dm type proto) st);
         (fl, e, w) = sys_fcntl s x F_GETFL (Some 0) (world st1) in
     fst (sys_fcntl s x F_SETFL (Some (fl OR O_NONBLOCK)) w) = 0)"

lemma socket_marks:
  assumes "sys_hook st" and "socket s st dm type proto = Some (x, st')" and "0 \<le> x"
  shows "sys_hook st' \<and> (if flags_set s st dm type proto x then marked st' x else \<not> pass_through st' x)"
proof -
  obtain st1 st2 fl st4 where S: "call (sys_socket s dm type proto) st = (x, st1)" "SocketInfoAlloc st1 x = (True, st2)"
      "call (sys_fcntl s x F_GETFL (Some 0)) (upd_info st2 x (\<lambda>i. i\<lparr>domain := dm\<rparr>)) = (fl, st4)"
      "st' = snd (fcntl s st4 x F_SETFL (Some fl))"
    using socket_steps [OF assms(2,1,3)] .
  obtain i where t: "in_table x" and i: "infos st4 x = Some i" "flag i = 0" and h: "sys_hook st4"
    using S(2) call_keeps [OF S(1)] call_keeps [OF S(3)] assms(1)
    by (auto simp: SocketInfoAlloc_def infos_upd split: if_splits)
  obtain r5 st5 where c5: "call (sys_fcntl s x F_SETFL (Some (fl OR O_NONBLOCK))) st4 = (r5, st5)" by force
  note k5 = call_keeps [OF c5]
  have g: "SocketInfoGet st4 x = Some i" using t i by (simp add: SocketInfoGet_def)
  have st': "st' = (if r5 = 0 then upd_info st5 x (\<lambda>i. i\<lparr>flag := fl OR O_NONBLOCK\<rparr>) else st5)"
    using S(4) c5 g h assms(3) by (simp add: fcntl_def F_SETFL_def F_GETFL_def Let_def)
  have "flags_set s st dm type proto x \<longleftrightarrow> r5 = 0"
  proof -
    have "world (upd_info st2 x (\<lambda>i. i\<lparr>domain := dm\<rparr>)) = world st1"
      using S(2) by (auto simp: SocketInfoAlloc_def upd_info_def split: if_splits)
    then show ?thesis using S(1,3) c5
      by (auto simp: flags_set_def call_def split: prod.splits)
  qed
  moreover have "marked st' x" if "r5 = 0"
    using st' that k5 i(1) t or_nonblock by (simp add: marked_def infos_upd)
  moreover have "\<not> pass_through st' x" if "r5 \<noteq> 0"
    using st' that k5 i t by (simp add: pass_through_def SocketInfoGet_def)
  moreover have "sys_hook st'" using st' k5 h by (simp add: infos_upd)
  ultimately show ?thesis by simp
qed

lemma marked_passes:
  assumes "sys_hook st" and "marked st x"
  shows "read_hook s st x cnt = call (sys_read s x cnt) st" "write_hook s st x buf = call (sys_write s x buf) st"
    "sendto_hook s st x buf fl = call (sys_sendto s x buf fl) st"
    "recvfrom_hook s st x cnt fl = call (sys_recvfrom s x cnt fl) st"
    "length addr \<le> 16 \<Longrightarrow> \<exists>st3. connect_hook s st x addr = Some (fst (call (sys_connect s x addr) st), st3) \<and>
       world st3 = world (snd (call (sys_connect s x addr) st))"
proof -
  have p: "pass_through st x" using marked_pass [OF assms(2)] .
  then show "read_hook s st x cnt = call (sys_read s x cnt) st" "write_hook s st x buf = call (sys_write s x buf) st"
      "recvfrom_hook s st x cnt fl = call (sys_recvfrom s x cnt fl) st"
    by (simp_all add: read_hook_def write_hook_def recvfrom_hook_def)
  obtain r st1 where c: "call (sys_sendto s x buf fl) st = (r, st1)" by force
  have "pass_through st1 x" using marked_pass marked_cong [of st1 x st] call_keeps [OF c] assms(2) by simp
  then show "sendto_hook s st x buf fl = call (sys_sendto s x buf fl) st" using c by (simp add: sendto_hook_def)
  assume l: "length addr \<le> 16"
  obtain r' st2 where c': "call (sys_connect s x addr) st = (r', st2)" by force
  obtain i where "SocketInfoGet st2 x = Some i" "flag i AND O_NONBLOCK \<noteq> 0" "sys_hook st2"
    using assms call_keeps [OF c'] by (auto simp: marked_def SocketInfoGet_def)
  then show "\<exists>st3. connect_hook s st x addr = Some (fst (call (sys_connect s x addr) st), st3) \<and>
       world st3 = world (snd (call (sys_connect s x addr) st))"
    using c' l by (simp add: connect_hook_def copy_dest_def upd_info_def)
qed

subsection \<open>The properties\<close>

text \<open>A world for the examples: what each descriptor received, and calls that always succeed.\<close>

definition sample_sys :: "(int \<Rightarrow> nat list) sys" where
  "sample_sys = \<lparr>
     sys_poll = (\<lambda>xs t w. (0, xs, w)), co_poll_call = (\<lambda>xs t w. (1, map (\<lambda>p. p\<lparr>revents := 5\<rparr>) xs, w)),
     hook_poll = (\<lambda>p t w. (1, p, w)), sys_fcntl = (\<lambda>x c a w. (0, 0, w)), sys_socket = (\<lambda>d t p w. (3, 0, w)),
     sys_setsockopt = (\<lambda>x l n v w. (0, 0, w)), sys_bind = (\<lambda>x a w. (0, 0, w)),
     sys_listen = (\<lambda>x b w. (0, 0, w)), sys_accept4 = (\<lambda>x f w. (4, 0, w)), sys_close = (\<lambda>x w. (0, 0, w)),
     sys_connect = (\<lambda>x a w. (0, 0, w)), sys_getsockopt_error = (\<lambda>x w. (0, 0, 0, w)),
     sys_read = (\<lambda>x n w. (0, 0, w)),
     sys_write = (\<lambda>x bs w. (int (min 2 (length bs)), 0, w(x := w x @ take 2 bs))),
     sys_sendto = (\<lambda>x bs f w. (0, 0, w)), sys_recvfrom = (\<lambda>x n f w. (0, 0, w)),
     sys_setenv = (\<lambda>n v b w. (0, 0, w)), sys_unsetenv = (\<lambda>n w. (0, 0, w)), sys_getenv = (\<lambda>n w. None)\<rparr>"

definition sample_hook :: "(int \<Rightarrow> nat list) hook" where
  "sample_hook = \<lparr>sys_hook = True, pv_env = None,
     env_list = Some [\<lparr>name = ''A'', env_value = None\<rparr>, \<lparr>name = ''B'', env_value = None\<rparr>],
     infos = Map.empty, errno = 0, world = (\<lambda>_. [])\<rparr>"

lemma sample_write_contract: "write_contract sample_sys (\<lambda>w. w)"
  by (auto simp: write_contract_def sample_sys_def min_def)

text \<open>
  C8: a hooked write is a write. Whatever the underlying calls do within their contract,
  short writes and failures included, the wrapper returns, and what the descriptor has
  received afterwards is exactly the first \<open>r\<close> bytes of the buffer more than before,
  where \<open>r\<close> is the wrapper's result; nothing is sent twice, left out or reordered, and a
  negative result means that nothing was sent.
\<close>

theorem write_hook_correct:
  assumes "write_contract s out" and "write_hook s st x buf = (r, st')"
  shows "r \<le> int (length buf) \<and> out (world st') x = out (world st) x @ take (nat r) buf"
  using assms by (rule write_hook_ok)

text \<open>The descriptor 3 is in the table and blocking; each call to \<open>write\<close> takes two bytes at most.\<close>

definition blocking_hook :: "(int \<Rightarrow> nat list) hook" where
  "blocking_hook = sample_hook\<lparr>infos := [3 \<mapsto> \<lparr>flag = 0, dest = replicate 16 0, domain = 2,
     read_timeout = (1, 0), write_timeout = (1, 0)\<rparr>]\<rparr>"

theorem write_hook_correct_witness:
  "\<not> pass_through blocking_hook 3 \<and>
   (\<exists>st'. write_hook sample_sys blocking_hook 3 [1, 2, 3] = (3, st') \<and> world st' 3 = [1, 2, 3])"
proof -
  have b: "sys_hook blocking_hook" "\<not> pass_through blocking_hook 3"
    by (simp_all add: blocking_hook_def sample_hook_def pass_through_def SocketInfoGet_def in_table_def)
  have "\<exists>st'. write_hook sample_sys blocking_hook 3 [1, 2, 3] = (3, st')"
    using b by (simp add: write_hook_def write_loop.simps call_def poll_one_def sample_sys_def Let_def)
  then obtain st' where w: "write_hook sample_sys blocking_hook 3 [1, 2, 3] = (3, st')" by blast
  show ?thesis using write_hook_correct [OF sample_write_contract w] b w
    by (simp add: blocking_hook_def sample_hook_def)
qed

text \<open>
  C40: a hooked socket never waits as long as hooked coroutines use it. \<open>fcntl(F_SETFL)\<close>
  stores the flags with O_NONBLOCK already added, so a socket that is opened through the hook
  is marked non-blocking, unless the system refuses to set its flags. The mark survives every
  sequence of wrapper calls by coroutines with the hook, F_SETFL without O_NONBLOCK included,
  until the descriptor is closed or handed out anew, and with it read, write, sendto, recvfrom
  and connect pass straight through to the system call and never suspend the coroutine.
\<close>

theorem hooked_socket_never_waits:
  assumes "sys_hook st" and "socket s st dm type proto = Some (x, st')" and "0 \<le> x"
  shows "(pass_through st' x \<longleftrightarrow> flags_set s st dm type proto x) \<and>
    (flags_set s st dm type proto x \<longrightarrow> (\<forall>st''. while_open s x st' st'' \<longrightarrow>
       read_hook s st'' x cnt = call (sys_read s x cnt) st'' \<and>
       write_hook s st'' x buf = call (sys_write s x buf) st'' \<and>
       sendto_hook s st'' x buf fl = call (sys_sendto s x buf fl) st'' \<and>
       recvfrom_hook s st'' x cnt fl = call (sys_recvfrom s x cnt fl) st'' \<and>
       (length addr \<le> 16 \<longrightarrow> (\<exists>st3. connect_hook s st'' x addr = Some (fst (call (sys_connect s x addr) st''), st3) \<and>
          world st3 = world (snd (call (sys_connect s x addr) st''))))))"
proof -
  have m: "sys_hook st' \<and> (if flags_set s st dm type proto x then marked st' x else \<not> pass_through st' x)"
    by (rule socket_marks [OF assms])
  have "read_hook s st'' x cnt = call (sys_read s x cnt) st'' \<and>
       write_hook s st'' x buf = call (sys_write s x buf) st'' \<and>
       sendto_hook s st'' x buf fl = call (sys_sendto s x buf fl) st'' \<and>
       recvfrom_hook s st'' x cnt fl = call (sys_recvfrom s x cnt fl) st'' \<and>
       (length addr \<le> 16 \<longrightarrow> (\<exists>st3. connect_hook s st'' x addr = Some (fst (call (sys_connect s x addr) st''), st3) \<and>
          world st3 = world (snd (call (sys_connect s x addr) st''))))"
    if "while_open s x st' st''" "flags_set s st dm type proto x" for st''
  proof -
    have "sys_hook st''" "marked st'' x" using while_open_marked [OF that(1)] m that(2) by auto
    then show ?thesis using marked_passes [of st'' x] by simp
  qed
  then show ?thesis using m marked_pass by (auto split: if_splits)
qed

theorem hooked_socket_never_waits_witness:
  "\<exists>st' st''. socket sample_sys sample_hook 2 1 0 = Some (3, st') \<and> while_open sample_sys 3 st' st'' \<and>
     st'' = snd (fcntl sample_sys st' 3 F_SETFL (Some 0)) \<and> read_hook sample_sys st'' 3 8 = call (sys_read sample_sys 3 8) st''"
proof -
  have "\<exists>st'. socket sample_sys sample_hook 2 1 0 = Some (3, st')"
    by (simp add: socket_def sample_sys_def sample_hook_def call_def SocketInfoAlloc_def in_table_def Let_def
        split: prod.split)
  then obtain st' where st': "socket sample_sys sample_hook 2 1 0 = Some (3, st')" by blast
  let ?st = "snd (fcntl sample_sys st' 3 F_SETFL (Some 0))"
  have "perform sample_sys (Fcntl 3 F_SETFL (Some 0)) st' = Some (fst (fcntl sample_sys st' 3 F_SETFL (Some 0)), ?st)" by simp
  then have w: "while_open sample_sys 3 st' ?st"
    by (rule while_open.call [OF while_open.opened]) (simp_all add: opens_def)
  have "flags_set sample_sys sample_hook 2 1 0 3" "sys_hook sample_hook"
    by (simp_all add: flags_set_def sample_sys_def sample_hook_def call_def)
  then show ?thesis using hooked_socket_never_waits [of sample_hook sample_sys 2 1 0 3 st'] st' w by auto
qed

text \<open>
  \<open>fcntl(F_GETFL)\<close> never hides O_NONBLOCK. The mask that should hide the flag the hook
  has set is never applied, because the condition negates the flags before it tests the
  bit: the wrapper returns what the system call returns.
\<close>

theorem fcntl_getfl_unmasked:
  assumes "0 \<le> x"
  shows "fcntl s st x F_GETFL arg = call (sys_fcntl s x F_GETFL None) st"
  using assms
  by (auto simp: fcntl_def F_GETFL_def O_NONBLOCK_def Let_def split: option.split prod.split)

theorem fcntl_getfl_unmasked_witness:
  "fcntl sample_sys sample_hook 3 F_GETFL None = call (sys_fcntl sample_sys 3 F_GETFL None) sample_hook"
  by (rule fcntl_getfl_unmasked) simp

text \<open>
  C30: the hooked \<open>poll\<close> merges and distributes. With several entries that name the same
  descriptor, the call below gets every descriptor once, with the events of all its
  entries together, and fewer entries than the caller's; on success each of the caller's
  entries gets the events reported for its descriptor that it asked for itself.
\<close>

theorem poll_merge_correct:
  assumes "sys_hook st" and "timeout \<noteq> 0" and "\<not> distinct (map fd xs)"
    and "\<And>mg w. co_poll_call s mg timeout w = (r w mg, map (\<lambda>p. p\<lparr>revents := rv w mg p\<rparr>) mg, w' w mg)"
  shows "\<exists>mg ys. poll_hook s st xs timeout = Some (r (world st) mg, ys, st\<lparr>world := w' (world st) mg\<rparr>) \<and>
    distinct (map fd mg) \<and> fd ` set mg = fd ` set xs \<and> length mg < length xs \<and>
    (\<forall>p \<in> set mg. pevents p = asked xs (fd p)) \<and>
    (r (world st) mg > 0 \<longrightarrow> length ys = length xs \<and> (\<forall>k < length xs. \<exists>p \<in> set mg. fd p = fd (xs ! k) \<and>
       ys ! k = (xs ! k)\<lparr>revents := rv (world st) mg p AND pevents (xs ! k)\<rparr>)) \<and>
    (r (world st) mg \<le> 0 \<longrightarrow> ys = xs)"
proof -
  obtain mg m where M: "merge_fds [] Map.empty xs = Some (mg, m)" "merge_ok mg m"
     "fd ` set mg = fd ` set xs" "\<And>x. asked mg x = asked xs x" "length mg \<le> length xs"
     "length mg = length xs \<longleftrightarrow> distinct (map fd xs)"
    using merge_fds_ok [OF merge_ok_empty, of xs] by auto
  have lt: "length mg < length xs" using M(5,6) assms(3) by auto
  have len: "length xs > 1"
  proof (rule ccontr)
    assume "\<not> length xs > 1"
    then have "xs = [] \<or> (\<exists>a. xs = [a])" by (cases xs rule: list.exhaust; cases "tl xs") auto
    then show False using assms(3) by auto
  qed
  let ?w = "world st"
  let ?mg = "map (\<lambda>p. p\<lparr>revents := rv ?w mg p\<rparr>) mg"
  have ix: "i < length ?mg" if "m x = Some i" for x i using M(2) that by (simp add: merge_ok_def)
  have spread: "spread_revents ?mg m xs = Some (map (\<lambda>x. case m (fd x) of None \<Rightarrow> x
       | Some i \<Rightarrow> x\<lparr>revents := revents (?mg ! i) AND pevents x\<rparr>) xs)" (is "_ = Some ?ys")
    using spread_revents_ok [of m ?mg xs] ix by blast
  have ys: "\<exists>p \<in> set mg. fd p = fd (xs ! k) \<and> ?ys ! k = (xs ! k)\<lparr>revents := rv ?w mg p AND pevents (xs ! k)\<rparr>"
    if k: "k < length xs" for k
  proof -
    have "fd (xs ! k) \<in> fd ` set mg" using M(3) k by auto
    then obtain i where i: "i < length mg" "fd (mg ! i) = fd (xs ! k)" by (metis image_iff in_set_conv_nth)
    then have "m (fd (xs ! k)) = Some i" using M(2) by (simp add: merge_ok_def)
    then show ?thesis using i k by (intro bexI [of _ "mg ! i"]) auto
  qed
  have "poll_hook s st xs timeout = Some (r ?w mg, if r ?w mg > 0 then ?ys else xs, st\<lparr>world := w' ?w mg\<rparr>)"
    using assms(1,2) M(1) len lt spread by (simp add: poll_hook_def assms(4))
  moreover have "distinct (map fd mg)" using M(2) by (simp add: merge_ok_def)
  ultimately show ?thesis using lt M(3,4) ys asked_distinct [of mg]
    by (intro exI [of _ mg] exI [of _ "if r ?w mg > 0 then ?ys else xs"]) auto
qed

theorem poll_merge_correct_witness:
  "\<exists>ys. poll_hook sample_sys sample_hook
      [\<lparr>fd = 7, pevents = 1, revents = 0\<rparr>, \<lparr>fd = 7, pevents = 4, revents = 0\<rparr>] 10 =
      Some (1, ys, sample_hook) \<and> length ys = 2"
proof -
  let ?xs = "[\<lparr>fd = 7, pevents = 1, revents = 0\<rparr>, \<lparr>fd = 7, pevents = 4, revents = 0\<rparr>] :: pollfd list"
  have h: "sys_hook sample_hook" "(10 :: int) \<noteq> 0" "\<not> distinct (map fd ?xs)"
    by (simp_all add: sample_hook_def)
  have c: "co_poll_call sample_sys mg 10 w = ((\<lambda>w mg. 1) w mg, map (\<lambda>p. p\<lparr>revents := (\<lambda>w mg p. 5) w mg p\<rparr>) mg, (\<lambda>w mg. w) w mg)"
    for mg w by (simp add: sample_sys_def)
  show ?thesis using poll_merge_correct [OF h c]
  proof (elim exE conjE)
    fix mg ys
    assume p: "poll_hook sample_sys sample_hook ?xs 10 = Some (1, ys, sample_hook\<lparr>world := world sample_hook\<rparr>)"
      and f: "fd ` set mg = fd ` set ?xs" and l: "length mg < length ?xs"
      and y: "(0 :: int) < 1 \<longrightarrow> length ys = length ?xs \<and> (\<forall>k < length ?xs. \<exists>p \<in> set mg. fd p = fd (?xs ! k) \<and>
         ys ! k = (?xs ! k)\<lparr>revents := 5 AND pevents (?xs ! k)\<rparr>)"
    have "length ys = 2" using y by simp
    then show ?thesis using p by auto
  qed
qed

text \<open>
  Hooked environment variables are private to the coroutine. For a name of the list
  given to SetEnvList, a value set through the hook is the value read back, and no other
  listed variable changes; the list stays sorted and free of duplicates, which the binary
  search relies on.
\<close>

theorem setenv_getenv:
  assumes "sys_hook st" and "env_list st \<noteq> None" and "env_ok (own_list st)"
    and "n \<in> name ` set (own_list st)" and "k \<in> name ` set (own_list st)"
  shows "\<exists>st'. setenv s st n v True = (0, st') \<and> env_ok (own_list st') \<and>
     fst (getenv s st' k) = (if k = n then v else fst (getenv s st k))"
proof -
  obtain i where i: "i < length (own_list st)" "name (own_list st ! i) = n"
    using assms(4) by (metis image_iff in_set_conv_nth)
  obtain j where j: "j < length (own_list st)" "name (own_list st ! j) = k"
    using assms(5) by (metis image_iff in_set_conv_nth)
  obtain st' where st': "setenv s st n v True = (0, st')" "sys_hook st'" "env_list st' = env_list st"
      "own_list st' = (own_list st)[i := (own_list st ! i)\<lparr>env_value := v\<rparr>]"
    using setenv_own [OF assms(1-3) i] by blast
  have ok: "env_ok (own_list st')" using env_ok_upd [OF assms(3) i(1)] st'(4) by simp
  have j': "j < length (own_list st')" "name (own_list st' ! j) = k"
    using j i st'(4) by (auto simp: nth_list_update)
  have "fst (getenv s st' k) = env_value (own_list st' ! j)"
    using getenv_own [OF st'(2) _ ok j'] assms(2) st'(3) by simp
  moreover have "fst (getenv s st k) = env_value (own_list st ! j)"
    using getenv_own [OF assms(1-3) j] .
  moreover have "j = i \<longleftrightarrow> k = n"
    using assms(3) i j nth_eq_iff_index_eq [of "map name (own_list st)" i j] by (auto simp: env_ok_def)
  moreover have "env_value (own_list st' ! j) = (if j = i then v else env_value (own_list st ! j))"
    using st'(4) i(1) by simp
  ultimately have "fst (getenv s st' k) = (if k = n then v else fst (getenv s st k))" by simp
  then show ?thesis using st'(1) ok by blast
qed

theorem setenv_getenv_witness:
  "\<exists>st'. setenv sample_sys sample_hook ''B'' (Some ''1'') True = (0, st') \<and>
     fst (getenv sample_sys st' ''B'') = Some ''1''"
proof -
  have "own_list sample_hook = [\<lparr>name = ''A'', env_value = None\<rparr>, \<lparr>name = ''B'', env_value = None\<rparr>]"
    by (simp add: own_list_def sample_hook_def)
  moreover have "env_ok [\<lparr>name = ''A'', env_value = None\<rparr>, \<lparr>name = ''B'', env_value = None\<rparr>]"
    by (simp add: env_ok_def less_eq_char_def)
  moreover have "sys_hook sample_hook" "env_list sample_hook \<noteq> None" by (simp_all add: sample_hook_def)
  ultimately show ?thesis
    using setenv_getenv [of sample_hook "''B''" "''B''" sample_sys "Some ''1''"] by auto
qed

end
