(* ===== verification/UnionFind.thy ===== *)
theory UnionFind
  imports Prelude
begin

section \<open>Disjoint sets (misc/struct/disjoint_set.cpp, struct/DisjointSetUnion.cc)\<close>

text \<open>
  Two implementations of disjoint sets in parent arrays with path compression, one that
  links by rank and one that links the first root below the second. \<open>Find\<close> and \<open>find\<close>
  follow parent pointers without a bound, so they are partial functions; on a
  well-formed array (\<open>forest\<close>: every node reaches a root) they return.

  Both are shown to implement the same contract, the locale \<open>union_find\<close>: a state stands
  for an equivalence relation, and \<open>link\<close> joins two classes. Its clients are the two
  implementations of Kruskal's algorithm.
\<close>

subsection \<open>Equivalence relations\<close>

definition join :: "(nat \<Rightarrow> nat \<Rightarrow> bool) \<Rightarrow> nat \<Rightarrow> nat \<Rightarrow> nat \<Rightarrow> nat \<Rightarrow> bool" where
  "join R a b = (\<lambda>x y. R x y \<or> (R x a \<and> R b y) \<or> (R x b \<and> R a y))"

lemma equivp_classes:
  fixes R :: "'a \<Rightarrow> 'a \<Rightarrow> bool"
  assumes "equivp R"
  obtains f :: "'a \<Rightarrow> 'a \<Rightarrow> bool" where "R = (\<lambda>x y. f x = f y)"
  using assms that [of R] unfolding equivp_def fun_eq_iff by blast

lemma equivp_kernel: "equivp (\<lambda>x y. f x = f y)"
  by (rule equivpI; rule reflpI sympI transpI) auto

lemma join_kernel:
  "join (\<lambda>x y. f x = f y) a b = (\<lambda>x y. (if f x = f a then f b else f x) = (if f y = f a then f b else f y))"
  unfolding join_def by (intro ext) auto

lemma join_equivp: "equivp R \<Longrightarrow> equivp (join R a b)"
  by (erule equivp_classes) (simp only: join_kernel equivp_kernel [of "\<lambda>x. if f x = f a then f b else f x" for f])

lemma join_absorb:
  assumes "equivp R" and "R a b"
  shows "join R a b = R"
proof -
  obtain f :: "nat \<Rightarrow> nat \<Rightarrow> bool" where R: "R = (\<lambda>x y. f x = f y)" using equivp_classes [OF assms(1)] .
  show ?thesis using assms(2) unfolding R join_def by (intro ext) auto
qed

lemma join_upper: "R x y \<Longrightarrow> join R a b x y"
  by (simp add: join_def)

lemma join_in: "equivp R \<Longrightarrow> join R a b a b"
  by (simp add: join_def equivp_reflp)

lemma join_least:
  assumes "equivp S" and "\<And>x y. R x y \<Longrightarrow> S x y" and "S a b" and "join R a b x y"
  shows "S x y"
  using assms(4) unfolding join_def
  by (meson assms(1-3) equivp_symp equivp_transp)

lemma join_commute:
  assumes "equivp R"
  shows "join (join R a b) c d = join (join R c d) a b"
proof -
  have le: "join (join R c d) a b x y" if "join (join R a b) c d x y" for a b c d x y
  proof (rule join_least [OF _ _ _ that])
    show e: "equivp (join (join R c d) a b)" using assms by (intro join_equivp)
    show "join (join R c d) a b c d" by (rule join_upper, rule join_in [OF assms])
    fix u v assume u: "join R a b u v"
    show "join (join R c d) a b u v"
      by (rule join_least [OF e _ _ u]) (auto intro: join_upper join_in join_equivp assms)
  qed
  show ?thesis by (intro ext iffI) (fact le)+
qed

lemma join_swap: "equivp R \<Longrightarrow> join R a b = join R b a"
  by (auto simp: join_def fun_eq_iff)

lemma join_exchange:
  assumes "equivp R" and "join R a b u v" and "\<not> R u v"
  shows "join R u v = join R a b"
proof -
  obtain f :: "nat \<Rightarrow> nat \<Rightarrow> bool" where R: "R = (\<lambda>x y. f x = f y)" using equivp_classes [OF assms(1)] .
  show ?thesis using assms(2,3) unfolding R join_def by (intro ext) auto
qed

subsection \<open>Parent arrays\<close>

inductive rep :: "nat list \<Rightarrow> nat \<Rightarrow> nat \<Rightarrow> bool" for p where
  root: "x < length p \<Longrightarrow> p ! x = x \<Longrightarrow> rep p x x"
| step: "x < length p \<Longrightarrow> p ! x \<noteq> x \<Longrightarrow> rep p (p ! x) r \<Longrightarrow> rep p x r"

lemma rep_root: "rep p x r \<Longrightarrow> r < length p \<and> p ! r = r"
  by (induction rule: rep.induct) auto

lemma rep_det: "rep p x r \<Longrightarrow> rep p x s \<Longrightarrow> r = s"
proof (induction arbitrary: s rule: rep.induct)
  case (root x)
  from root(3) show ?case by cases (use root in auto)
next
  case (step x r)
  have "rep p (p ! x) s" using step(5,2) by (cases rule: rep.cases) simp_all
  then show ?case by (rule step(4))
qed

lemma rep_lt: "rep p x r \<Longrightarrow> x < length p"
  by (cases rule: rep.cases) auto

text \<open>Well-formed: from every node the parents lead to a root.\<close>

definition forest :: "nat list \<Rightarrow> bool" where
  "forest p \<longleftrightarrow> (\<forall>x < length p. \<exists>r. rep p x r)"

lemma forest_upt: "forest [0..<n]"
  unfolding forest_def
proof (intro allI impI exI)
  fix x assume "x < length [0..<n]"
  then show "rep [0..<n] x x" by (intro rep.root) auto
qed

lemma rep_upt: "rep [0..<n] x r \<longleftrightarrow> x < n \<and> r = x"
proof
  assume R: "rep [0..<n] x r"
  then have x: "x < n" using rep_lt by fastforce
  then have "rep [0..<n] x x" by (intro rep.root) auto
  then show "x < n \<and> r = x" using rep_det [OF R] x by simp
next
  assume "x < n \<and> r = x"
  then show "rep [0..<n] x r" by (auto intro!: rep.root)
qed

lemma rep_compress_forward:
  assumes x: "rep p x r" and y: "rep p y s"
  shows "rep (p[x := r]) y s"
  using y
proof (induction rule: rep.induct)
  case (root y)
  have "rep p y y" using root by (rule rep.root)
  then have "y = x \<Longrightarrow> r = y" using rep_det [OF x] by simp
  then have "p[x := r] ! y = y" using root by (cases "y = x") auto
  then show ?case using root by (intro rep.root) auto
next
  case (step y s)
  show ?case
  proof (cases "y = x")
    case True
    have "rep p y s" using step(1-3) by (rule rep.step)
    then have s: "s = r" using rep_det [OF x] True by simp
    have "r \<noteq> x" using rep_root [OF x] step True by auto
    then have "rep (p[x := r]) r r" using rep_root [OF x] by (intro rep.root) auto
    then have "rep (p[x := r]) x r" using \<open>r \<noteq> x\<close> rep_lt [OF x] by - (rule rep.step, auto)
    then show ?thesis using True s by simp
  next
    case False
    then show ?thesis using step by - (rule rep.step, auto)
  qed
qed

lemma rep_compress:
  assumes f: "forest p" and x: "rep p x r"
  shows "rep (p[x := r]) y s \<longleftrightarrow> rep p y s"
proof
  assume "rep p y s"
  then show "rep (p[x := r]) y s" using rep_compress_forward [OF x] by blast
next
  assume y: "rep (p[x := r]) y s"
  then have "y < length p" using rep_lt by fastforce
  then obtain s' where s': "rep p y s'" using f by (auto simp: forest_def)
  with rep_compress_forward [OF x s'] y show "rep p y s" using rep_det by metis
qed

lemma forest_compress: "forest p \<Longrightarrow> rep p x r \<Longrightarrow> forest (p[x := r])"
  by (simp add: forest_def rep_compress) 

text \<open>Linking one root below another.\<close>

lemma rep_link_forward:
  assumes a: "rep p a a" and b: "rep p b b" and ab: "a \<noteq> b" and y: "rep p y s"
  shows "rep (p[a := b]) y (if s = a then b else s)"
proof -
  have la: "a < length p" and lb: "b < length p" and rb: "p ! b = b" using rep_root a b by auto
  have bb: "rep (p[a := b]) b b" using lb rb ab by (intro rep.root) auto
  then have ra: "rep (p[a := b]) a b" using la ab by - (rule rep.step, auto)
  show ?thesis
    using y
  proof (induction rule: rep.induct)
    case (root y)
    show ?case
    proof (cases "y = a")
      case True
      then show ?thesis using ra by simp
    next
      case False
      then show ?thesis using root by (auto intro: rep.root)
    qed
  next
    case (step y s)
    have "y \<noteq> a" using step(2) rep_root [OF a] by auto
    then show ?case using step by - (rule rep.step, auto)
  qed
qed

lemma rep_link:
  assumes f: "forest p" and a: "rep p a a" and b: "rep p b b" and ab: "a \<noteq> b"
  shows "rep (p[a := b]) y s \<longleftrightarrow> (\<exists>s'. rep p y s' \<and> s = (if s' = a then b else s'))"
proof
  assume y: "rep (p[a := b]) y s"
  then have "y < length p" using rep_lt by fastforce
  then obtain s' where s': "rep p y s'" using f by (auto simp: forest_def)
  with rep_link_forward [OF a b ab s'] y show "\<exists>s'. rep p y s' \<and> s = (if s' = a then b else s')"
    using rep_det by metis
next
  assume "\<exists>s'. rep p y s' \<and> s = (if s' = a then b else s')"
  then show "rep (p[a := b]) y s" using rep_link_forward [OF a b ab] by blast
qed

lemma forest_link:
  assumes "forest p" and "rep p a a" and "rep p b b" and "a \<noteq> b"
  shows "forest (p[a := b])"
  using assms rep_link_forward [OF assms(2-4)] unfolding forest_def by (metis length_list_update)

text \<open>The relation a parent array stands for; indices outside the array are alone.\<close>

definition same :: "nat list \<Rightarrow> nat \<Rightarrow> nat \<Rightarrow> bool" where
  "same p x y \<longleftrightarrow> x = y \<or> (\<exists>r. rep p x r \<and> rep p y r)"

lemma same_equivp: "equivp (same p)"
  by (rule equivpI; rule reflpI sympI transpI) (auto simp: same_def dest: rep_det)

lemma same_upt: "same [0..<n] = (=)"
  by (auto simp: same_def rep_upt fun_eq_iff)

lemma same_rep: "rep p x r \<Longrightarrow> rep p y s \<Longrightarrow> same p x y \<longleftrightarrow> r = s"
  by (auto simp: same_def dest: rep_det)

lemma same_link:
  assumes f: "forest p" and a: "rep p x a" and b: "rep p y b" and ab: "a \<noteq> b"
  shows "same (p[a := b]) = join (same p) x y"
proof (intro ext)
  fix u v
  have ra: "rep p a a" and rb: "rep p b b" using rep_root a b by (auto intro: rep.root)
  note L = rep_link [OF f ra rb ab]
  have nx: "x < length p" "y < length p" using rep_lt a b by auto
  show "same (p[a := b]) u v = join (same p) x y u v"
  proof (cases "u < length p \<and> v < length p")
    case True
    then obtain s t where st: "rep p u s" "rep p v t" using f unfolding forest_def by blast
    have "same (p[a := b]) u v \<longleftrightarrow> (if s = a then b else s) = (if t = a then b else t)"
      using same_rep [of "p[a := b]" u _ v] L st by blast
    moreover have "same p u x \<longleftrightarrow> s = a" "same p u y \<longleftrightarrow> s = b" "same p x v \<longleftrightarrow> t = a" "same p y v \<longleftrightarrow> t = b"
      "same p u v \<longleftrightarrow> s = t"
      using same_rep st a b by (metis)+
    ultimately show ?thesis using ab unfolding join_def by auto
  next
    case False
    have o: "\<And>w r. \<not> w < length p \<Longrightarrow> \<not> rep p w r" using rep_lt by blast
    have o': "\<And>w r. \<not> w < length p \<Longrightarrow> \<not> rep (p[a := b]) w r" using rep_lt by fastforce
    from False consider "\<not> u < length p" | "\<not> v < length p" by blast
    then show ?thesis
    proof cases
      case 1
      then show ?thesis using o o' nx by (auto simp: join_def same_def)
    next
      case 2
      then show ?thesis using o o' nx by (auto simp: join_def same_def)
    qed
  qed
qed

subsection \<open>The operations\<close>

record disjoint_set =
  parent :: "nat list"
  rank :: "int list"
  edges :: int

definition vresize :: "'a list \<Rightarrow> nat \<Rightarrow> 'a \<Rightarrow> 'a list" where
  "vresize xs n d = take n xs @ replicate (n - length xs) d"

definition MakeSet :: "disjoint_set \<Rightarrow> nat \<Rightarrow> disjoint_set option" where
  "MakeSet d node = do {
     let d = (if length (parent d) \<le> node
              then d\<lparr>parent := vresize (parent d) (node + 1) 0, rank := vresize (rank d) (node + 1) 0\<rparr> else d);
     p \<leftarrow> vset (parent d) node node;
     r \<leftarrow> vset (rank d) node 0;
     Some (d\<lparr>parent := p, rank := r\<rparr>) }"

text \<open>\<open>if (parent[x] == x) return x; return parent[x] = Find(parent[x]);\<close>\<close>

partial_function (option) find_compress :: "nat list \<Rightarrow> nat \<Rightarrow> (nat \<times> nat list) option" where
  "find_compress p x = do {
     y \<leftarrow> vget p x;
     if y = x then Some (x, p)
     else do { (r, p1) \<leftarrow> find_compress p y; p2 \<leftarrow> vset p1 x r; Some (r, p2) } }"

definition Find :: "disjoint_set \<Rightarrow> nat \<Rightarrow> (nat \<times> disjoint_set) option" where
  "Find d x = do { (r, p) \<leftarrow> find_compress (parent d) x; Some (r, d\<lparr>parent := p\<rparr>) }"

definition Merge :: "disjoint_set \<Rightarrow> nat \<Rightarrow> nat \<Rightarrow> (bool \<times> disjoint_set) option" where
  "Merge d x y = do {
     (x_root, d) \<leftarrow> Find d x;
     (y_root, d) \<leftarrow> Find d y;
     if x_root = y_root then Some (False, d)
     else do {
       x_rank \<leftarrow> vget (rank d) x_root;
       y_rank \<leftarrow> vget (rank d) y_root;
       let (large, small) = (if x_rank < y_rank then (y_root, x_root) else (x_root, y_root));
       p \<leftarrow> vset (parent d) small large;
       k \<leftarrow> vget (rank d) large;
       r \<leftarrow> vset (rank d) large (k + 1);
       Some (True, d\<lparr>parent := p, rank := r, edges := edges d + 1\<rparr>) } }"

text \<open>The class \<open>DSU\<close>: its nodes and the number of merges.\<close>

record dsu =
  dsu_nodes :: "nat list"
  dsu_edges :: int

definition DSU :: "nat \<Rightarrow> dsu" where
  "DSU n = \<lparr>dsu_nodes = [0..<n + 1], dsu_edges = 0\<rparr>"

definition dsu_find :: "dsu \<Rightarrow> nat \<Rightarrow> (nat \<times> dsu) option" where
  "dsu_find d x = do { (r, p) \<leftarrow> find_compress (dsu_nodes d) x; Some (r, d\<lparr>dsu_nodes := p\<rparr>) }"

definition dsu_merge :: "dsu \<Rightarrow> nat \<Rightarrow> nat \<Rightarrow> (int \<times> dsu) option" where
  "dsu_merge d x y = do {
     (rx, d) \<leftarrow> dsu_find d x;
     (ry, d) \<leftarrow> dsu_find d y;
     if rx = ry then Some (1, d)
     else do {
       p \<leftarrow> vset (dsu_nodes d) rx ry;
       Some (0, d\<lparr>dsu_nodes := p, dsu_edges := dsu_edges d + 1\<rparr>) } }"

text \<open>The lambda in \<open>kruskal\<close>: \<open>x == p[x] ? x : p[x] = find(p[p[x]])\<close>.\<close>

partial_function (option) find_halve :: "nat list \<Rightarrow> nat \<Rightarrow> (nat \<times> nat list) option" where
  "find_halve p x = do {
     y \<leftarrow> vget p x;
     if x = y then Some (x, p)
     else do { z \<leftarrow> vget p y; (r, p1) \<leftarrow> find_halve p z; p2 \<leftarrow> vset p1 x r; Some (r, p2) } }"

subsection \<open>Finding\<close>

lemma find_compress_ok:
  assumes "forest p" and "rep p x r"
  shows "\<exists>p'. find_compress p x = Some (r, p') \<and> forest p' \<and> length p' = length p \<and> rep p' = rep p"
  using assms(2)
proof (induction rule: rep.induct)
  case (root x)
  then show ?case using assms(1) by (subst find_compress.simps) auto
next
  case (step x r)
  then obtain p' where p': "find_compress p (p ! x) = Some (r, p')" "forest p'" "length p' = length p" "rep p' = rep p"
    by blast
  have "rep p' x r" using rep.step [OF step(1-3)] p'(4) by simp
  then have "rep (p'[x := r]) = rep p'" "forest (p'[x := r])"
    using rep_compress [OF p'(2)] forest_compress [OF p'(2)] by (auto simp: fun_eq_iff)
  then show ?case using p' step(1,2) by (subst find_compress.simps) (auto simp: ub_simps)
qed

lemma rep_par: "rep p x r \<Longrightarrow> rep p (p ! x) r"
  by (cases rule: rep.cases) (auto intro: rep.root)

lemma find_halve_ok:
  assumes "forest p"
  shows "rep p x r \<Longrightarrow> (\<exists>p'. find_halve p x = Some (r, p') \<and> forest p' \<and> length p' = length p \<and> rep p' = rep p) \<and>
     (\<exists>p'. find_halve p (p ! x) = Some (r, p') \<and> forest p' \<and> length p' = length p \<and> rep p' = rep p)"
proof (induction rule: rep.induct)
  case (root x)
  then show ?case using assms by (subst (1 2) find_halve.simps) auto
next
  case (step x r)
  then obtain p' where p': "find_halve p (p ! (p ! x)) = Some (r, p')" "forest p'" "length p' = length p" "rep p' = rep p"
    by blast
  have "rep p' x r" using rep.step [OF step(1-3)] p'(4) by simp
  then have "rep (p'[x := r]) = rep p'" "forest (p'[x := r])"
    using rep_compress [OF p'(2)] forest_compress [OF p'(2)] by (auto simp: fun_eq_iff)
  moreover have "p ! x < length p" using rep_lt [OF step(3)] .
  ultimately have "\<exists>p'. find_halve p x = Some (r, p') \<and> forest p' \<and> length p' = length p \<and> rep p' = rep p"
    using p' step(1,2) by (subst find_halve.simps) (auto simp: ub_simps)
  then show ?case using step(4) by blast
qed

subsection \<open>The contract\<close>

text \<open>
  \<open>inv s n\<close>: the state is well formed and has the nodes below \<open>n\<close>; \<open>rel s\<close> is the
  relation it stands for; \<open>repr s x r\<close>: \<open>r\<close> is the representative of \<open>x\<close>. \<open>link\<close> is
  called with two nodes and their different representatives.
\<close>

locale union_find =
  fixes inv :: "'s \<Rightarrow> nat \<Rightarrow> bool"
    and rel :: "'s \<Rightarrow> nat \<Rightarrow> nat \<Rightarrow> bool"
    and repr :: "'s \<Rightarrow> nat \<Rightarrow> nat \<Rightarrow> bool"
    and find :: "'s \<Rightarrow> nat \<Rightarrow> (nat \<times> 's) option"
    and link :: "'s \<Rightarrow> nat \<Rightarrow> nat \<Rightarrow> nat \<Rightarrow> nat \<Rightarrow> 's option"
  assumes equiv: "equivp (rel s)"
    and find: "inv s n \<Longrightarrow> x < n \<Longrightarrow>
      \<exists>r s'. find s x = Some (r, s') \<and> inv s' n \<and> rel s' = rel s \<and> repr s' = repr s \<and> repr s x r"
    and repr: "repr s x r \<Longrightarrow> repr s y q \<Longrightarrow> rel s x y \<longleftrightarrow> r = q"
    and link: "inv s n \<Longrightarrow> x < n \<Longrightarrow> y < n \<Longrightarrow> repr s x r \<Longrightarrow> repr s y q \<Longrightarrow> r \<noteq> q \<Longrightarrow>
      \<exists>s'. link s x y r q = Some s' \<and> inv s' n \<and> rel s' = join (rel s) x y"
begin

text \<open>Two finds, as every client does before it links.\<close>

lemma find_both:
  assumes "inv s n" and "x < n" and "y < n"
  shows "\<exists>r s1 q s2. find s x = Some (r, s1) \<and> find s1 y = Some (q, s2) \<and> inv s2 n \<and> rel s2 = rel s \<and>
     repr s2 x r \<and> repr s2 y q \<and> (r = q \<longleftrightarrow> rel s x y)"
proof -
  obtain r s1 where 1: "find s x = Some (r, s1)" "inv s1 n" "rel s1 = rel s" "repr s1 = repr s" "repr s x r"
    using find [OF assms(1,2)] by blast
  obtain q s2 where 2: "find s1 y = Some (q, s2)" "inv s2 n" "rel s2 = rel s1" "repr s2 = repr s1" "repr s1 y q"
    using find [OF 1(2) assms(3)] by blast
  show ?thesis using 1 2 repr [of s x r y q] by auto
qed

end

text \<open>The array of \<open>DisjointSet\<close> with its ranks.\<close>

definition ds_inv :: "disjoint_set \<Rightarrow> nat \<Rightarrow> bool" where
  "ds_inv d n \<longleftrightarrow> forest (parent d) \<and> length (parent d) = n \<and> length (rank d) = n"

definition ds_link :: "disjoint_set \<Rightarrow> nat \<Rightarrow> nat \<Rightarrow> nat \<Rightarrow> nat \<Rightarrow> disjoint_set option" where
  "ds_link d u v pu pv = map_option snd (Merge d u v)"

lemma Find_ok:
  assumes "ds_inv d n" and "x < n"
  shows "\<exists>r d'. Find d x = Some (r, d') \<and> ds_inv d' n \<and> same (parent d') = same (parent d) \<and>
     rep (parent d') = rep (parent d) \<and> rep (parent d) x r \<and> rank d' = rank d \<and> edges d' = edges d"
proof -
  obtain r where r: "rep (parent d) x r" using assms by (auto simp: ds_inv_def forest_def)
  then obtain p' where "find_compress (parent d) x = Some (r, p')" "forest p'" "length p' = length (parent d)"
      "rep p' = rep (parent d)"
    using find_compress_ok assms(1) unfolding ds_inv_def by blast
  then show ?thesis using r assms by (auto simp: Find_def ds_inv_def same_def fun_eq_iff)
qed

lemma Merge_ok:
  assumes "ds_inv d n" and "x < n" and "y < n"
  shows "\<exists>d'. Merge d x y = Some (\<not> same (parent d) x y, d') \<and> ds_inv d' n \<and>
     same (parent d') = join (same (parent d)) x y \<and>
     edges d' = (if same (parent d) x y then edges d else edges d + 1)"
proof -
  obtain r d1 where 1: "Find d x = Some (r, d1)" "ds_inv d1 n" "same (parent d1) = same (parent d)"
      "rep (parent d1) = rep (parent d)" "rep (parent d) x r" "edges d1 = edges d"
    using Find_ok [OF assms(1,2)] by blast
  obtain q d2 where 2: "Find d1 y = Some (q, d2)" "ds_inv d2 n" "same (parent d2) = same (parent d1)"
      "rep (parent d2) = rep (parent d1)" "rep (parent d1) y q" "edges d2 = edges d1"
    using Find_ok [OF 1(2) assms(3)] by blast
  have s: "same (parent d) x y \<longleftrightarrow> r = q" using same_rep 1(4,5) 2(5) by metis
  show ?thesis
  proof (cases "r = q")
    case True
    then show ?thesis using 1 2 s join_absorb [OF same_equivp] by (auto simp: Merge_def)
  next
    case False
    have rx: "rep (parent d2) x r" "rep (parent d2) y q" using 1 2 by simp_all
    have rr: "rep (parent d2) r r" "rep (parent d2) q q" "r < n" "q < n"
      using rep_root [OF rx(1)] rep_root [OF rx(2)] 2(2) by (auto simp: ds_inv_def intro: rep.root)
    have f: "forest (parent d2)" "length (parent d2) = n" "length (rank d2) = n" using 2(2) by (auto simp: ds_inv_def)
    define a where "a = (if rank d2 ! r < rank d2 ! q then r else q)"
    define b where "b = (if rank d2 ! r < rank d2 ! q then q else r)"
    let ?d = "d2\<lparr>parent := (parent d2)[a := b], rank := (rank d2)[b := rank d2 ! b + 1], edges := edges d2 + 1\<rparr>"
    have "Merge d x y = Some (True, ?d)"
      using 1(1) 2(1) False rr f by (simp add: Merge_def ub_simps a_def b_def)
    moreover have "ds_inv ?d n"
      using forest_link [OF f(1)] rr f False by (auto simp: ds_inv_def a_def b_def)
    moreover have "same ((parent d2)[a := b]) = join (same (parent d2)) x y"
      using same_link [OF f(1) rx] same_link [OF f(1) rx(2,1)] False join_swap [OF same_equivp]
      by (auto simp: a_def b_def)
    ultimately show ?thesis using False s 1 2 by auto
  qed
qed

interpretation ds: union_find ds_inv "\<lambda>d. same (parent d)" "\<lambda>d. rep (parent d)" Find ds_link
proof unfold_locales
  show "equivp (same (parent s))" for s by (rule same_equivp)
next
  fix s :: disjoint_set and n x
  assume "ds_inv s n" "x < n"
  then show "\<exists>r s'. Find s x = Some (r, s') \<and> ds_inv s' n \<and> same (parent s') = same (parent s) \<and>
      rep (parent s') = rep (parent s) \<and> rep (parent s) x r"
    using Find_ok by blast
next
  show "rep (parent s) x r \<Longrightarrow> rep (parent s) y q \<Longrightarrow> same (parent s) x y \<longleftrightarrow> r = q" for s x r y q
    by (rule same_rep)
next
  fix s :: disjoint_set and n x y r q
  assume "ds_inv s n" "x < n" "y < n" "rep (parent s) x r" "rep (parent s) y q" "r \<noteq> q"
  then show "\<exists>s'. ds_link s x y r q = Some s' \<and> ds_inv s' n \<and> same (parent s') = join (same (parent s)) x y"
    using Merge_ok [of s n x y] by (auto simp: ds_link_def)
qed

text \<open>The array of \<open>kruskal\<close>, with \<open>p[ru] = rv\<close> as its link.\<close>

definition arr_link :: "nat list \<Rightarrow> nat \<Rightarrow> nat \<Rightarrow> nat \<Rightarrow> nat \<Rightarrow> nat list option" where
  "arr_link p u v ru rv = vset p ru rv"

interpretation arr: union_find "\<lambda>p n. forest p \<and> length p = n" same rep find_halve arr_link
proof unfold_locales
  show "equivp (same s)" for s by (rule same_equivp)
next
  fix p :: "nat list" and n x
  assume p: "forest p \<and> length p = n" "x < n"
  then obtain r where "rep p x r" unfolding forest_def by blast
  with find_halve_ok [of p x r] p(1)
  show "\<exists>r s'. find_halve p x = Some (r, s') \<and> (forest s' \<and> length s' = n) \<and> same s' = same p \<and> rep s' = rep p \<and> rep p x r"
    by (auto simp: same_def fun_eq_iff)
next
  show "rep s x r \<Longrightarrow> rep s y q \<Longrightarrow> same s x y \<longleftrightarrow> r = q" for s x r y q
    by (rule same_rep)
next
  fix p :: "nat list" and n x y r q
  assume a: "forest p \<and> length p = n" "rep p x r" "rep p y q" "r \<noteq> q"
  have "rep p r r" "rep p q q" "r < length p" using rep_root a(2,3) by (auto intro: rep.root)
  then show "\<exists>s'. arr_link p x y r q = Some s' \<and> (forest s' \<and> length s' = n) \<and> same s' = join (same p) x y"
    using a same_link [of p x r y q] forest_link [of p r q] by (auto simp: arr_link_def ub_simps)
qed

text \<open>The class \<open>DSU\<close> implements the contract as well.\<close>

definition dsu_link :: "dsu \<Rightarrow> nat \<Rightarrow> nat \<Rightarrow> nat \<Rightarrow> nat \<Rightarrow> dsu option" where
  "dsu_link d x y rx ry = map_option snd (dsu_merge d x y)"

lemma dsu_find_ok:
  assumes "forest (dsu_nodes d)" and "x < length (dsu_nodes d)"
  shows "\<exists>r d'. dsu_find d x = Some (r, d') \<and> forest (dsu_nodes d') \<and> length (dsu_nodes d') = length (dsu_nodes d) \<and>
     rep (dsu_nodes d') = rep (dsu_nodes d) \<and> rep (dsu_nodes d) x r \<and> dsu_edges d' = dsu_edges d"
proof -
  obtain r where r: "rep (dsu_nodes d) x r" using assms unfolding forest_def by blast
  then show ?thesis using find_compress_ok [OF assms(1) r] by (auto simp: dsu_find_def)
qed

lemma dsu_merge_ok:
  assumes "forest (dsu_nodes d)" and "x < length (dsu_nodes d)" and "y < length (dsu_nodes d)"
  shows "\<exists>d'. dsu_merge d x y = Some (if same (dsu_nodes d) x y then 1 else 0, d') \<and> forest (dsu_nodes d') \<and>
     length (dsu_nodes d') = length (dsu_nodes d) \<and> same (dsu_nodes d') = join (same (dsu_nodes d)) x y \<and>
     dsu_edges d' = (if same (dsu_nodes d) x y then dsu_edges d else dsu_edges d + 1)"
proof -
  obtain r d1 where 1: "dsu_find d x = Some (r, d1)" "forest (dsu_nodes d1)" "length (dsu_nodes d1) = length (dsu_nodes d)"
      "rep (dsu_nodes d1) = rep (dsu_nodes d)" "rep (dsu_nodes d) x r" "dsu_edges d1 = dsu_edges d"
    using dsu_find_ok [OF assms(1,2)] by blast
  obtain q d2 where 2: "dsu_find d1 y = Some (q, d2)" "forest (dsu_nodes d2)" "length (dsu_nodes d2) = length (dsu_nodes d1)"
      "rep (dsu_nodes d2) = rep (dsu_nodes d1)" "rep (dsu_nodes d1) y q" "dsu_edges d2 = dsu_edges d1"
  proof -
    have "y < length (dsu_nodes d1)" using assms(3) 1(3) by simp
    from dsu_find_ok [OF 1(2) this] that show ?thesis by blast
  qed
  have sm: "same (dsu_nodes d2) = same (dsu_nodes d)" using 1(4) 2(4) by (simp add: same_def fun_eq_iff)
  have s: "same (dsu_nodes d) x y \<longleftrightarrow> r = q" using same_rep 1(4,5) 2(5) by metis
  show ?thesis
  proof (cases "r = q")
    case True
    then show ?thesis using 1 2 s sm join_absorb [OF same_equivp] by (auto simp: dsu_merge_def)
  next
    case False
    have rx: "rep (dsu_nodes d2) x r" "rep (dsu_nodes d2) y q" using 1 2 by simp_all
    have rr: "rep (dsu_nodes d2) r r" "rep (dsu_nodes d2) q q" "r < length (dsu_nodes d2)"
      using rep_root [OF rx(1)] rep_root [OF rx(2)] by (auto intro: rep.root)
    let ?d = "d2\<lparr>dsu_nodes := (dsu_nodes d2)[r := q], dsu_edges := dsu_edges d2 + 1\<rparr>"
    have "dsu_merge d x y = Some (0, ?d)" using 1(1) 2(1) False rr by (simp add: dsu_merge_def ub_simps)
    moreover have "forest (dsu_nodes ?d)" "same (dsu_nodes ?d) = join (same (dsu_nodes d)) x y"
      using forest_link [OF 2(2) rr(1,2) False] same_link [OF 2(2) rx False] sm by simp_all
    ultimately show ?thesis using False s 1 2 by simp
  qed
qed

interpretation dsu: union_find "\<lambda>d n. forest (dsu_nodes d) \<and> length (dsu_nodes d) = n"
  "\<lambda>d. same (dsu_nodes d)" "\<lambda>d. rep (dsu_nodes d)" dsu_find dsu_link
proof unfold_locales
  show "equivp (same (dsu_nodes s))" for s by (rule same_equivp)
next
  fix s :: dsu and n x
  assume a: "forest (dsu_nodes s) \<and> length (dsu_nodes s) = n" "x < n"
  then show "\<exists>r s'. dsu_find s x = Some (r, s') \<and> (forest (dsu_nodes s') \<and> length (dsu_nodes s') = n) \<and>
      same (dsu_nodes s') = same (dsu_nodes s) \<and> rep (dsu_nodes s') = rep (dsu_nodes s) \<and> rep (dsu_nodes s) x r"
    using dsu_find_ok [of s x] by (auto simp: same_def fun_eq_iff)
next
  show "rep (dsu_nodes s) x r \<Longrightarrow> rep (dsu_nodes s) y q \<Longrightarrow> same (dsu_nodes s) x y \<longleftrightarrow> r = q" for s x r y q
    by (rule same_rep)
next
  fix s :: dsu and n x y r q
  assume a: "forest (dsu_nodes s) \<and> length (dsu_nodes s) = n" "x < n" "y < n"
  then show "\<exists>s'. dsu_link s x y r q = Some s' \<and> (forest (dsu_nodes s') \<and> length (dsu_nodes s') = n) \<and>
      same (dsu_nodes s') = join (same (dsu_nodes s)) x y"
    using dsu_merge_ok [of s x y] by (auto simp: dsu_link_def)
qed


subsection \<open>The property\<close>

definition sample_ds :: disjoint_set where
  "sample_ds = \<lparr>parent = [0, 0, 2, 2], rank = [1, 0, 1, 0], edges = 2\<rparr>"

lemma sample_ds_inv: "ds_inv sample_ds 4"
proof -
  let ?p = "[0, 0, 2, 2] :: nat list"
  have r: "rep ?p 0 0" "rep ?p 2 2" by (auto intro!: rep.root)
  have "rep ?p 1 0" by (rule rep.step) (use r in simp_all)
  moreover have "rep ?p 3 2" by (rule rep.step) (use r in \<open>simp_all add: numeral_3_eq_3\<close>)
  ultimately have "\<exists>q. rep ?p x q" if "x < 4" for x
    using r that by (auto simp: less_Suc_eq numeral_nat)
  then show ?thesis by (simp add: ds_inv_def forest_def sample_ds_def)
qed

text \<open>
  C6: Merge joins exactly two classes. On a well-formed structure Find and Merge reach no
  undefined behaviour and return: the result says whether the nodes were in different
  classes, the new relation is the old one with the two classes joined and nothing else,
  path compression and linking by rank notwithstanding, and \<open>edges\<close> counts the joins.
\<close>

theorem DisjointSet_Merge_correct:
  assumes "ds_inv d n" and "x < n" and "y < n"
  shows "\<exists>d'. Merge d x y = Some (\<not> same (parent d) x y, d') \<and> ds_inv d' n \<and>
     same (parent d') = join (same (parent d)) x y \<and>
     edges d' = (if same (parent d) x y then edges d else edges d + 1)"
  using assms by (rule Merge_ok)

theorem DisjointSet_Merge_correct_witness:
  "\<exists>d'. Merge sample_ds 1 3 = Some (\<not> same (parent sample_ds) 1 3, d') \<and> same (parent d') 1 3"
  using DisjointSet_Merge_correct [OF sample_ds_inv, of 1 3] join_in [OF same_equivp, of "parent sample_ds" 1 3] by auto

end
