(* ===== verification/Graph.thy ===== *)
theory Graph
  imports UnionFind "HOL-Library.Product_Lexorder"
begin

section \<open>Graphs (misc/struct/graph.cpp, struct/minmumSpanningTree.cc, struct/topologicalSorting.cc)\<close>

text \<open>
  Weighted undirected graphs with Kruskal's and Prim's algorithms, each written twice in
  the repository, and the topological sort of an adjacency matrix. An edge is a triple of
  two nodes and a weight. \<open>std::sort\<close> by weight leaves the order of equal weights open;
  the model takes the stable one. \<open>std::priority_queue\<close> is a list whose \<open>top\<close> is the
  first entry of least weight; \<open>top\<close> of an empty queue is undefined.

  Kruskal's loop is proved minimal once, in the context of \<open>union_find\<close>, for every
  implementation of disjoint sets that satisfies the contract.
\<close>

subsection \<open>The graph\<close>

type_synonym edge = "nat \<times> nat \<times> int"

definition weight :: "edge \<Rightarrow> int" where
  "weight e = snd (snd e)"

record graph =
  nodes_num :: nat
  edge_list :: "edge list"
  adjacency_list :: "(nat \<times> int) list list"
  adjacency_matrix :: "int list list"

fun add_edges :: "(nat \<times> int) list list \<Rightarrow> int list list \<Rightarrow> edge list \<Rightarrow>
    ((nat \<times> int) list list \<times> int list list) option" where
  "add_edges al am [] = Some (al, am)"
| "add_edges al am ((u, v, w) # es) = do {
     lv \<leftarrow> vget al v;
     al \<leftarrow> vset al v (lv @ [(u, w)]);
     lu \<leftarrow> vget al u;
     al \<leftarrow> vset al u (lu @ [(v, w)]);
     rv \<leftarrow> vget am v;
     rv \<leftarrow> vset rv u w;
     am \<leftarrow> vset am v rv;
     ru \<leftarrow> vget am u;
     ru \<leftarrow> vset ru v w;
     am \<leftarrow> vset am u ru;
     add_edges al am es }"

definition mk_graph :: "edge list \<Rightarrow> nat \<Rightarrow> graph option" where
  "mk_graph es n = do {
     (al, am) \<leftarrow> add_edges (replicate n []) (replicate n (replicate n 0)) es;
     Some \<lparr>nodes_num = n, edge_list = es, adjacency_list = al, adjacency_matrix = am\<rparr> }"

subsection \<open>Kruskal\<close>

text \<open>The loop over the sorted edges, which both implementations share.\<close>

fun kruskal_loop :: "('s \<Rightarrow> nat \<Rightarrow> (nat \<times> 's) option) \<Rightarrow>
    ('s \<Rightarrow> nat \<Rightarrow> nat \<Rightarrow> nat \<Rightarrow> nat \<Rightarrow> 's option) \<Rightarrow> 's \<Rightarrow> edge list \<Rightarrow> int \<Rightarrow> int option" where
  "kruskal_loop fnd link s [] cost = Some cost"
| "kruskal_loop fnd link s ((u, v, w) # es) cost = do {
     (pu, s) \<leftarrow> fnd s u;
     (pv, s) \<leftarrow> fnd s v;
     if pu = pv then kruskal_loop fnd link s es cost
     else do {
       s \<leftarrow> link s u v pu pv;
       kruskal_loop fnd link s es (cost + w) } }"

fun make_sets :: "disjoint_set \<Rightarrow> nat list \<Rightarrow> disjoint_set option" where
  "make_sets d [] = Some d"
| "make_sets d (i # is) = do { d \<leftarrow> MakeSet d i; make_sets d is }"

definition MinSpanningTreeKruskal :: "graph \<Rightarrow> int option" where
  "MinSpanningTreeKruskal g = do {
     d \<leftarrow> make_sets \<lparr>parent = [], rank = [], edges = 0\<rparr> [0..<nodes_num g];
     kruskal_loop Find ds_link d (sort_key weight (edge_list g)) 0 }"

definition kruskal :: "edge list \<Rightarrow> nat \<Rightarrow> int option" where
  "kruskal es n = (
     let q = sort (map (\<lambda>(u, v, w). (w, u, v)) es) in
     kruskal_loop find_halve arr_link [0..<n] (map (\<lambda>(w, u, v). (u, v, w)) q) 0)"

subsection \<open>Prim\<close>

text \<open>\<open>top\<close> and \<open>pop\<close> of the priority queue: an entry is a node and a weight.\<close>

fun pq_min :: "(nat \<times> int) list \<Rightarrow> (nat \<times> int) option" where
  "pq_min [] = None"
| "pq_min (x # xs) = (case pq_min xs of None \<Rightarrow> Some x
     | Some y \<Rightarrow> Some (if snd x \<le> snd y then x else y))"

definition pq_pop :: "(nat \<times> int) list \<Rightarrow> ((nat \<times> int) \<times> (nat \<times> int) list) option" where
  "pq_pop q = (case pq_min q of None \<Rightarrow> None | Some x \<Rightarrow> Some (x, remove1 x q))"

text \<open>Pushing the neighbours that are not marked yet.\<close>

fun push_adjacent :: "nat list \<Rightarrow> (nat \<times> int) list \<Rightarrow> (nat \<times> int) list \<Rightarrow> (nat \<times> int) list option" where
  "push_adjacent seen q [] = Some q"
| "push_adjacent seen q (p # ps) = do {
     c \<leftarrow> vget seen (fst p);
     push_adjacent seen (if c \<noteq> 0 then q else q @ [p]) ps }"

text \<open>\<open>Graph::MinSpanningTreePrim\<close>: one pop in each of \<open>k\<close> iterations.\<close>

fun prim_pops :: "(nat \<times> int) list list \<Rightarrow> nat \<Rightarrow> nat list \<Rightarrow> (nat \<times> int) list \<Rightarrow> int \<Rightarrow> int option" where
  "prim_pops al 0 connected q cost = Some cost"
| "prim_pops al (Suc k) connected q cost = do {
     ((v, w), q) \<leftarrow> pq_pop q;
     c \<leftarrow> vget connected v;
     connected \<leftarrow> vset connected v (c + 1);
     if c \<noteq> 0 then prim_pops al k connected q cost
     else do {
       ns \<leftarrow> vget al v;
       q \<leftarrow> push_adjacent connected q ns;
       prim_pops al k connected q (cost + w) } }"

definition MinSpanningTreePrim :: "graph \<Rightarrow> int option" where
  "MinSpanningTreePrim g =
     prim_pops (adjacency_list g) (nodes_num g) (replicate (nodes_num g) 0) [(0, 0)] 0"

text \<open>\<open>prim\<close>: the inner loop pops until it finds a node that is not in the tree.\<close>

lemma pq_min_in: "pq_min q = Some x \<Longrightarrow> x \<in> set q"
  by (induction q arbitrary: x) (auto split: option.splits if_splits)

lemma pq_pop_length: "pq_pop q = Some (x, q') \<Longrightarrow> length q' < length q"
  by (auto simp: pq_pop_def length_remove1 split: option.splits dest!: pq_min_in intro!: diff_less length_pos_if_in_set)

function prim_next :: "nat list \<Rightarrow> (nat \<times> int) list \<Rightarrow> (nat \<times> int \<times> nat list \<times> (nat \<times> int) list) option" where
  "prim_next seen q = (case pq_pop q of
      None \<Rightarrow> None
    | Some ((v, w), q') \<Rightarrow> do {
        c \<leftarrow> vget seen v;
        seen \<leftarrow> vset seen v (c + 1);
        if c \<noteq> 0 then prim_next seen q' else Some (v, w, seen, q') })"
  by pat_completeness auto
termination
  by (relation "measure (\<lambda>(seen, q). length q)") (auto dest: pq_pop_length)

declare prim_next.simps [simp del]

fun prim_loop :: "(nat \<times> int) list list \<Rightarrow> nat \<Rightarrow> nat list \<Rightarrow> (nat \<times> int) list \<Rightarrow> int \<Rightarrow> int option" where
  "prim_loop g 0 seen q cost = Some cost"
| "prim_loop g (Suc k) seen q cost = do {
     (v, w, seen, q) \<leftarrow> prim_next seen q;
     ns \<leftarrow> vget g v;
     q \<leftarrow> push_adjacent seen q ns;
     prim_loop g k seen q (cost + w) }"

definition prim :: "(nat \<times> int) list list \<Rightarrow> nat \<Rightarrow> int option" where
  "prim g n = prim_loop g n (replicate n 0) [(0, 0)] 0"

subsection \<open>Topological sort\<close>

text \<open>\<open>inDegree[j]\<close>: the double loop over the matrix.\<close>

definition in_degrees :: "int list list \<Rightarrow> nat list" where
  "in_degrees M = map (\<lambda>j. length (filter (\<lambda>i. M ! i ! j > 0) [0..<length M])) [0..<length M]"

text \<open>The inner loop for one vertex: decrement, and push what becomes free.\<close>

fun relax :: "int list \<Rightarrow> nat list \<Rightarrow> int list \<Rightarrow> nat list \<Rightarrow> nat \<Rightarrow> int list \<times> nat list \<times> nat" where
  "relax row [] deg q num = (deg, q, num)"
| "relax row (i # is) deg q num =
     (if row ! i > 0 then
        let d = deg ! i - 1 in
        if d = 0 then relax row is (deg[i := d]) (q @ [i]) (num + 1)
        else relax row is (deg[i := d]) q num
      else relax row is deg q num)"

text \<open>
  The queue loop with fuel. Every vertex is pushed at most once, so fuel for one round
  more than there are vertices is enough. The result is the order and whether the message
  "has Cycle" is printed.
\<close>

fun top_loop :: "nat \<Rightarrow> int list list \<Rightarrow> int list \<Rightarrow> nat list \<Rightarrow> nat list \<Rightarrow> nat \<Rightarrow> (nat list \<times> bool) option" where
  "top_loop 0 M deg q res num = None"
| "top_loop (Suc k) M deg [] res num = Some (res, num \<noteq> length M)"
| "top_loop (Suc k) M deg (v # q) res num = (
     let (deg', q', num') = relax (M ! v) [0..<length M] deg q num in
     top_loop k M deg' q' (res @ [v]) num')"

definition square :: "int list list \<Rightarrow> bool" where
  "square M \<longleftrightarrow> (\<forall>row \<in> set M. length row = length M)"

text \<open>The assertion reads row 0; a ragged matrix is read outside a row.\<close>

definition topSort :: "int list list \<Rightarrow> (nat list \<times> bool) option" where
  "topSort M = (
     if M = [] \<or> \<not> square M then None else
     let deg = map int (in_degrees M);
         q = filter (\<lambda>i. deg ! i = 0) [0..<length M] in
     top_loop (length M + 1) M deg q [] (length q))"

subsection \<open>Connection by edges\<close>

text \<open>\<open>conn R es\<close>: what is connected by the edges when \<open>R\<close> is connected already.\<close>

fun conn :: "(nat \<Rightarrow> nat \<Rightarrow> bool) \<Rightarrow> edge list \<Rightarrow> nat \<Rightarrow> nat \<Rightarrow> bool" where
  "conn R [] = R"
| "conn R ((u, v, w) # es) = conn (join R u v) es"

text \<open>No edge connects nodes that the edges before it connect: the edges are a forest.\<close>

fun indep :: "(nat \<Rightarrow> nat \<Rightarrow> bool) \<Rightarrow> edge list \<Rightarrow> bool" where
  "indep R [] = True"
| "indep R ((u, v, w) # es) = (\<not> R u v \<and> indep (join R u v) es)"

definition spanning :: "(nat \<Rightarrow> nat \<Rightarrow> bool) \<Rightarrow> edge list \<Rightarrow> edge list \<Rightarrow> bool" where
  "spanning R es T \<longleftrightarrow> mset T \<subseteq># mset es \<and> indep R T \<and> conn R T = conn R es"

definition total_weight :: "edge list \<Rightarrow> int" where
  "total_weight es = sum_list (map weight es)"

definition linked :: "edge list \<Rightarrow> nat \<Rightarrow> nat \<Rightarrow> bool" where
  "linked es x y \<longleftrightarrow> (\<exists>e \<in> set es. (fst e = x \<and> fst (snd e) = y) \<or> (fst e = y \<and> fst (snd e) = x))"

lemma conn_equivp: "equivp R \<Longrightarrow> equivp (conn R es)"
  by (induction R es rule: conn.induct) (auto intro: join_equivp)

lemma conn_upper: "R x y \<Longrightarrow> conn R es x y"
  by (induction R es rule: conn.induct) (auto intro: join_upper)

lemma conn_edge: "equivp R \<Longrightarrow> (u, v, w) \<in> set es \<Longrightarrow> conn R es u v"
  by (induction R es rule: conn.induct) (auto intro: conn_upper join_in join_equivp)

lemma conn_least:
  assumes "equivp S" and "\<And>x y. R x y \<Longrightarrow> S x y" and "\<And>u v w. (u, v, w) \<in> set es \<Longrightarrow> S u v"
  shows "conn R es x y \<Longrightarrow> S x y"
  using assms(2,3)
proof (induction R es rule: conn.induct)
  case (2 R u v w es)
  show ?case
  proof (rule 2(1))
    show "conn (join R u v) es x y" using 2(2) by simp
    show "S a b" if "join R u v a b" for a b
      using assms(1) 2(3) _ that by (rule join_least) (use 2(4) in auto)
    show "S a b" if "(a, b, c) \<in> set es" for a b c using that by (intro 2(4)) auto
  qed
qed simp

lemma conn_cong:
  assumes "equivp R" and "set es = set fs"
  shows "conn R es = conn R fs"
proof -
  have "conn R es x y \<Longrightarrow> conn R fs x y" if "set es \<subseteq> set fs" for es fs x y
    by (rule conn_least [of "conn R fs" R es])
      (use that in \<open>auto intro: conn_equivp assms(1) conn_upper conn_edge\<close>)
  then show ?thesis using assms(2) by (intro ext) blast
qed

lemma conn_reach: "conn (=) es = (linked es)\<^sup>*\<^sup>*"
proof (intro ext iffI)
  fix x y
  have sym: "symp (linked es)" by (rule sympI) (auto simp: linked_def)
  have "equivp (linked es)\<^sup>*\<^sup>*"
    by (intro equivpI reflpI transpI symp_rtranclp [OF sym]) auto
  then show "conn (=) es x y \<Longrightarrow> (linked es)\<^sup>*\<^sup>* x y"
    proof (rule conn_least [of _ "(=)" es])
    show "(linked es)\<^sup>*\<^sup>* u v" if "(u, v, w) \<in> set es" for u v w
      using that by (intro r_into_rtranclp) (force simp: linked_def)
  qed simp_all
  have E: "equivp (conn (=) es)" by (rule conn_equivp) (rule identity_equivp)
  assume "(linked es)\<^sup>*\<^sup>* x y"
  then show "conn (=) es x y"
  proof induction
    case base
    show ?case using E by (rule equivp_reflp)
  next
    case (step y z)
    then obtain w where "(y, z, w) \<in> set es \<or> (z, y, w) \<in> set es" unfolding linked_def by (metis prod.collapse)
    then have "conn (=) es y z" using conn_edge [OF identity_equivp] equivp_symp [OF E] by blast
    with step show ?case using equivp_transp [OF E] by blast
  qed
qed

subsection \<open>Exchange\<close>

lemma conn_front:
  assumes "equivp R" and "(u, v, w) \<in> set T"
  shows "conn (join R u v) (remove1 (u, v, w) T) = conn R T"
proof -
  have "set ((u, v, w) # remove1 (u, v, w) T) = set T"
    using assms(2) by (metis mset_remove1 set_mset_mset insert_DiffM mset.simps(2) set_mset_add_mset_insert list.set(2))
  then have "conn R ((u, v, w) # remove1 (u, v, w) T) = conn R T" by (rule conn_cong [OF assms(1)])
  then show ?thesis by simp
qed

lemma indep_swap:
  assumes "equivp R" and "\<not> R a b" and "\<not> join R a b u v"
  shows "\<not> R u v" and "\<not> join R u v a b"
proof -
  show 1: "\<not> R u v" using assms(3) join_upper by blast
  show "\<not> join R u v a b"
    using join_exchange [OF assms(1), of u v a b] assms(2,3) join_in [OF assms(1), of u v] by auto
qed

lemma indep_front:
  "equivp R \<Longrightarrow> indep R T \<Longrightarrow> (u, v, w) \<in> set T \<Longrightarrow> \<not> R u v \<and> indep (join R u v) (remove1 (u, v, w) T)"
proof (induction R T rule: indep.induct)
  case (2 R a b c T)
  show ?case
  proof (cases "(a, b, c) = (u, v, w)")
    case True
    then show ?thesis using 2(3) by simp
  next
    case False
    then have "\<not> join R a b u v \<and> indep (join (join R a b) u v) (remove1 (u, v, w) T)"
      using 2 by (auto intro: join_equivp)
    then show ?thesis using 2(2,3) False indep_swap [OF 2(2), of a b u v] join_commute [OF 2(2), of a b u v] by auto
  qed
qed simp

lemma exchange:
  assumes "equivp R" and "indep R T" and "conn R T u v" and "\<not> R u v"
  shows "\<exists>f \<in> set T. conn (join R u v) (remove1 f T) = conn R T \<and> indep (join R u v) (remove1 f T)"
  using assms
proof (induction R T rule: indep.induct)
  case (2 R a b c T)
  show ?case
  proof (cases "join R a b u v")
    case True
    then have "join R u v = join R a b" using 2 by (intro join_exchange)
    then show ?thesis using 2(3) by (intro bexI [of _ "(a, b, c)"]) auto
  next
    case False
    then obtain f where f: "f \<in> set T" "conn (join (join R a b) u v) (remove1 f T) = conn (join R a b) T"
      "indep (join (join R a b) u v) (remove1 f T)"
      using 2 join_equivp by fastforce
    have ab: "\<not> R a b" using 2(3) by simp
    have c: "join (join R a b) u v = join (join R u v) a b" by (rule join_commute [OF 2(2)])
    show ?thesis
    proof (cases "f = (a, b, c)")
      case True
      have "conn (join R a b) T a b" using join_in [OF 2(2)] by (rule conn_upper)
      have "indep (join R a b) T" using 2(3) by simp
      then have "\<not> join R a b a b" using f(1) True indep_front [of "join R a b" T a b c] join_equivp [OF 2(2)] by auto
      then show ?thesis using join_in [OF 2(2)] by blast
    next
      case False
      then show ?thesis using f c indep_swap(2) [OF 2(2) ab \<open>\<not> join R a b u v\<close>] by (intro bexI [of _ f]) auto
    qed
  qed
qed simp

subsection \<open>Kruskal's choice is minimal\<close>

text \<open>What the loop computes, over the relation itself.\<close>

fun greedy :: "(nat \<Rightarrow> nat \<Rightarrow> bool) \<Rightarrow> edge list \<Rightarrow> edge list" where
  "greedy R [] = []"
| "greedy R ((u, v, w) # es) = (if R u v then greedy R es else (u, v, w) # greedy (join R u v) es)"

lemma greedy_spanning: "equivp R \<Longrightarrow> spanning R es (greedy R es)"
  unfolding spanning_def
proof (induction R es rule: greedy.induct)
  case (2 R u v w es)
  show ?case
  proof (cases "R u v")
    case True
    then have "join R u v = R" using 2(3) by (intro join_absorb)
    then show ?thesis using 2(1) [OF True 2(3)] True by (auto intro: subset_mset.order_trans)
  next
    case False
    then show ?thesis using 2(2) [OF False join_equivp [OF 2(3)]] by auto
  qed
qed simp

lemma subset_mset_remove:
  assumes "mset T \<subseteq># mset (e # es)" and "f \<in> set T" and "e \<in> set T \<Longrightarrow> f = e"
  shows "mset (remove1 f T) \<subseteq># mset es"
proof (cases "e \<in> set T")
  case True
  then show ?thesis using assms by (simp add: subset_eq_diff_conv)
next
  case False
  then have "mset T \<subseteq># mset es"
    using assms(1) by (metis mset.simps(2) add_mset_add_single diff_single_trivial set_mset_mset subset_eq_diff_conv)
  then show ?thesis by (metis mset_remove1 diff_subset_eq_self subset_mset.order_trans)
qed

lemma total_weight_remove: "f \<in> set T \<Longrightarrow> total_weight T = weight f + total_weight (remove1 f T)"
  by (auto simp: total_weight_def sum_list_map_remove1)

lemma greedy_minimal:
  "equivp R \<Longrightarrow> sorted (map weight es) \<Longrightarrow> spanning R es T \<Longrightarrow> total_weight (greedy R es) \<le> total_weight T"
proof (induction R es arbitrary: T rule: greedy.induct)
  case (1 R)
  then show ?case by (simp add: spanning_def)
next
  case (2 R u v w es)
  let ?e = "(u, v, w)"
  have T: "mset T \<subseteq># mset (?e # es)" "indep R T" "conn R T = conn (join R u v) es"
    using 2(5) by (auto simp: spanning_def)
  show ?case
  proof (cases "R u v")
    case True
    then have n: "?e \<notin> set T" using indep_front [OF 2(3) T(2)] by blast
    then have "mset T \<subseteq># mset es"
      using T(1) by (metis mset.simps(2) add_mset_add_single diff_single_trivial set_mset_mset subset_eq_diff_conv)
    then have "spanning R es T" using T True join_absorb [OF 2(3)] by (simp add: spanning_def)
    then show ?thesis using 2(1) [OF True 2(3)] 2(4) True by simp
  next
    case False
    have J: "equivp (join R u v)" using 2(3) by (rule join_equivp)
    have "conn R T u v" unfolding T(3) by (rule conn_upper) (rule join_in [OF 2(3)])
    then obtain f where f: "f \<in> set T" "conn (join R u v) (remove1 f T) = conn R T"
      "indep (join R u v) (remove1 f T)" "?e \<in> set T \<Longrightarrow> f = ?e"
      using exchange [OF 2(3) T(2) _ False] indep_front [OF 2(3) T(2)] conn_front [OF 2(3)] by metis
    have "mset (remove1 f T) \<subseteq># mset es" using T(1) f(1,4) by (rule subset_mset_remove)
    then have "spanning (join R u v) es (remove1 f T)" using f T by (simp add: spanning_def)
    then have le: "total_weight (greedy (join R u v) es) \<le> total_weight (remove1 f T)"
      using 2(2) [OF False J] 2(4) by simp
    have "f \<in> set (?e # es)" using f(1) T(1) by (meson mset_subset_eqD set_mset_mset in_multiset_in_set)
    then have "weight ?e \<le> weight f" using 2(4) by auto
    then show ?thesis using le False total_weight_remove [OF f(1)] by (simp add: total_weight_def)
  qed
qed

lemma spanning_perm: "equivp R \<Longrightarrow> mset es = mset fs \<Longrightarrow> spanning R es T = spanning R fs T"
  unfolding spanning_def using conn_cong [of R es fs] mset_eq_setD by metis

context union_find
begin

lemma kruskal_loop_greedy:
  "inv s n \<Longrightarrow> \<forall>(u, v, w) \<in> set es. u < n \<and> v < n \<Longrightarrow>
   kruskal_loop find link s es c = Some (c + total_weight (greedy (rel s) es))"
proof (induction es arbitrary: s c)
  case Nil
  then show ?case by (simp add: total_weight_def)
next
  case (Cons e es)
  obtain u v w where e: "e = (u, v, w)" by (cases e)
  have uv: "u < n" "v < n" "\<forall>(u, v, w) \<in> set es. u < n \<and> v < n" using Cons(3) e by auto
  obtain r s1 q s2 where f: "find s u = Some (r, s1)" "find s1 v = Some (q, s2)" "inv s2 n" "rel s2 = rel s"
    "repr s2 u r" "repr s2 v q" "r = q \<longleftrightarrow> rel s u v"
    using find_both [OF Cons(2) uv(1,2)] by blast
  show ?case
  proof (cases "r = q")
    case True
    then show ?thesis using f Cons(1) [OF f(3) uv(3)] e by simp
  next
    case False
    obtain s3 where s3: "link s2 u v r q = Some s3" "inv s3 n" "rel s3 = join (rel s2) u v"
      using link [OF f(3) uv(1,2) f(5,6) False] by blast
    show ?thesis using Cons(1) [OF s3(2) uv(3)] f s3 False e by (simp add: total_weight_def weight_def)
  qed
qed

text \<open>The cost is that of a spanning forest, and no spanning forest is lighter.\<close>

lemma kruskal_loop_minimal:
  assumes "inv s n" and "\<forall>(u, v, w) \<in> set es. u < n \<and> v < n" and "mset fs = mset es" and "sorted (map weight fs)"
    and "rel s = (=)"
  shows "\<exists>c. kruskal_loop find link s fs 0 = Some c \<and> (\<exists>T. spanning (=) es T \<and> c = total_weight T) \<and>
     (\<forall>T. spanning (=) es T \<longrightarrow> c \<le> total_weight T)"
proof -
  have "\<forall>(u, v, w) \<in> set fs. u < n \<and> v < n" using assms(2,3) mset_eq_setD by metis
  then have "kruskal_loop find link s fs 0 = Some (total_weight (greedy (=) fs))"
    using kruskal_loop_greedy [OF assms(1), of fs 0] assms(5) by simp
  moreover have "spanning (=) fs = spanning (=) es" using spanning_perm [OF identity_equivp assms(3)] by (intro ext)
  ultimately show ?thesis
    using greedy_spanning [OF identity_equivp, of fs] greedy_minimal [OF identity_equivp assms(4)] by auto
qed

end

subsection \<open>The two programs\<close>

lemma MakeSet_next:
  assumes "parent d = [0..<n]" and "rank d = replicate n 0" and "edges d = 0"
  shows "MakeSet d n = Some \<lparr>parent = [0..<Suc n], rank = replicate (Suc n) 0, edges = 0\<rparr>"
  using assms
  by (cases d) (auto simp: MakeSet_def vresize_def ub_simps list_update_append nth_append simp flip: replicate_append_same)

lemma make_sets_append: "make_sets d (xs @ ys) = Option.bind (make_sets d xs) (\<lambda>d. make_sets d ys)"
  by (induction xs arbitrary: d) (auto simp del: bind_eq_Some split: Option.bind_splits)

lemma make_sets_upt:
  "make_sets \<lparr>parent = [], rank = [], edges = 0\<rparr> [0..<n] = Some \<lparr>parent = [0..<n], rank = replicate n 0, edges = 0\<rparr>"
  by (induction n) (auto simp: make_sets_append MakeSet_next simp del: upt.upt_Suc simp: upt_Suc_append)

definition in_range :: "edge list \<Rightarrow> nat \<Rightarrow> bool" where
  "in_range es n \<longleftrightarrow> (\<forall>(u, v, w) \<in> set es. u < n \<and> v < n)"

lemma sort_by_weight: "sorted (map fst (sort (qs :: (int \<times> nat \<times> nat) list)))"
proof -
  have "sorted (map fst qs)" if "sorted qs" for qs :: "(int \<times> nat \<times> nat) list"
    using that by (induction qs) (auto simp: less_eq_prod_def less_imp_le)
  then show ?thesis by simp
qed

text \<open>A graph for the witnesses: a square with a diagonal.\<close>

definition sample_edges :: "edge list" where
  "sample_edges = [(0, 1, 1), (0, 2, 3), (1, 2, 2), (2, 3, 5)]"

text \<open>
  C9: MinSpanningTreeKruskal computes the weight of a minimum spanning forest. When every
  edge joins nodes of the graph it reaches no undefined behaviour, its result is the weight
  of a set of edges that contains no cycle and connects what the graph connects, and no
  other such set is lighter, for negative weights as well.
\<close>

theorem MinSpanningTreeKruskal_minimal:
  assumes "in_range (edge_list g) (nodes_num g)"
  shows "\<exists>c. MinSpanningTreeKruskal g = Some c \<and> (\<exists>T. spanning (=) (edge_list g) T \<and> c = total_weight T) \<and>
     (\<forall>T. spanning (=) (edge_list g) T \<longrightarrow> c \<le> total_weight T)"
proof -
  let ?d = "\<lparr>parent = [0..<nodes_num g], rank = replicate (nodes_num g) 0, edges = 0\<rparr>"
  have "ds_inv ?d (nodes_num g)" by (simp add: ds_inv_def forest_upt)
  from ds.kruskal_loop_minimal [OF this, of "edge_list g" "sort_key weight (edge_list g)"] assms
  show ?thesis by (simp add: MinSpanningTreeKruskal_def make_sets_upt same_upt in_range_def)
qed

theorem MinSpanningTreeKruskal_minimal_witness:
  "\<exists>c. MinSpanningTreeKruskal \<lparr>nodes_num = 4, edge_list = sample_edges, adjacency_list = [], adjacency_matrix = []\<rparr> = Some c \<and>
     c \<le> total_weight [(0, 1, 1), (0, 2, 3), (2, 3, 5)]"
proof -
  let ?g = "\<lparr>nodes_num = 4, edge_list = sample_edges, adjacency_list = [], adjacency_matrix = []\<rparr>"
  have "spanning (=) sample_edges [(0, 1, 1), (0, 2, 3), (2, 3, 5)]"
    by (auto simp: spanning_def sample_edges_def join_def fun_eq_iff)
  then show ?thesis
    using MinSpanningTreeKruskal_minimal [of ?g] by (fastforce simp: in_range_def sample_edges_def)
qed

text \<open>
  Kruskal computes the weight of a minimum spanning forest, with its own disjoint sets
  (path halving, no ranks) and its own order of the edges.
\<close>

theorem kruskal_minimal:
  assumes "in_range es n"
  shows "\<exists>c. kruskal es n = Some c \<and> (\<exists>T. spanning (=) es T \<and> c = total_weight T) \<and>
     (\<forall>T. spanning (=) es T \<longrightarrow> c \<le> total_weight T)"
proof -
  let ?fs = "map (\<lambda>(w, u, v). (u, v, w)) (sort (map (\<lambda>(u, v, w). (w, u, v)) es))"
  have i: "forest [0..<n] \<and> length [0..<n] = n" by (simp add: forest_upt)
  have m: "mset ?fs = mset es" by (simp add: multiset.map_comp comp_def case_prod_beta)
  have s: "sorted (map weight ?fs)" using sort_by_weight by (simp add: comp_def weight_def case_prod_beta)
  show ?thesis
    using arr.kruskal_loop_minimal [OF i _ m s] assms by (simp add: kruskal_def same_upt in_range_def Let_def)
qed

theorem kruskal_minimal_witness:
  "\<exists>c. kruskal sample_edges 4 = Some c \<and> c \<le> total_weight [(0, 1, 1), (1, 2, 2), (2, 3, 5)]"
proof -
  have "spanning (=) sample_edges [(0, 1, 1), (1, 2, 2), (2, 3, 5)]"
    by (auto simp: spanning_def sample_edges_def join_def fun_eq_iff)
  then show ?thesis using kruskal_minimal [of sample_edges 4] by (fastforce simp: in_range_def sample_edges_def)
qed

text \<open>
  \<open>Graph::MinSpanningTreePrim\<close> counts the pops of nodes that are connected already as
  iterations, so it can stop before the tree spans the graph.
\<close>

lemma MinSpanningTreePrim_stops_early:
  "Option.bind (mk_graph sample_edges 4) MinSpanningTreePrim = Some 3"
  "Option.bind (mk_graph sample_edges 4) (\<lambda>g. prim (adjacency_list g) 4) = Some 8"
  by code_simp+

subsection \<open>Topological sort\<close>

definition edge_rel :: "int list list \<Rightarrow> (nat \<times> nat) set" where
  "edge_rel M = {(i, j). i < length M \<and> j < length M \<and> M ! i ! j > 0}"

lemma relax_result:
  assumes "distinct is" and "\<forall>i \<in> set is. i < length deg"
  shows "relax row is deg q num = (let fs = filter (\<lambda>i. row ! i > 0 \<and> deg ! i = 1) is in
     (map (\<lambda>j. if j \<in> set is \<and> row ! j > 0 then deg ! j - 1 else deg ! j) [0..<length deg], q @ fs, num + length fs))"
  using assms
proof (induction row "is" deg q num rule: relax.induct)
  case (1 row deg q num)
  then show ?case by (simp add: map_nth)
next
  case (2 row i "is" deg q num)
  show ?case
  proof (cases "row ! i > 0")
    case True
    have [simp]: "map (\<lambda>j. if j \<in> set is \<and> row ! j > 0 then deg[i := d] ! j - 1 else deg[i := d] ! j) [0..<length deg] =
       map (\<lambda>j. if j \<in> set (i # is) \<and> row ! j > 0 then deg ! j - 1 else deg ! j) [0..<length deg]"
      if "d = deg ! i - 1" for d
      using 2(4,5) True that by (intro map_cong) (auto simp: nth_list_update)
    have [simp]: "filter (\<lambda>j. row ! j > 0 \<and> deg[i := d] ! j = 1) is = filter (\<lambda>j. row ! j > 0 \<and> deg ! j = 1) is" for d
      using 2(4,5) by (intro filter_cong) (auto simp: nth_list_update)
    show ?thesis using 2 True by (auto simp: Let_def)
  next
    case False
    have "map (\<lambda>j. if j \<in> set is \<and> row ! j > 0 then deg ! j - 1 else deg ! j) [0..<length deg] =
       map (\<lambda>j. if j \<in> set (i # is) \<and> row ! j > 0 then deg ! j - 1 else deg ! j) [0..<length deg]"
      using False by (intro map_cong) auto
    then show ?thesis using 2(3-5) False by (simp add: Let_def)
  qed
qed

text \<open>
  The queue loop: the processed and the queued vertices are those without an unprocessed
  predecessor, and every predecessor stands before.
\<close>

definition top_inv :: "int list list \<Rightarrow> int list \<Rightarrow> nat list \<Rightarrow> nat list \<Rightarrow> bool" where
  "top_inv M deg q res \<longleftrightarrow> distinct (res @ q) \<and> length deg = length M \<and>
     (\<forall>j < length M. deg ! j = int (card {i. (i, j) \<in> edge_rel M \<and> i \<notin> set res})) \<and>
     set (res @ q) = {j. j < length M \<and> deg ! j = 0} \<and>
     (\<forall>k < length (res @ q). \<forall>i. (i, (res @ q) ! k) \<in> edge_rel M \<longrightarrow> i \<in> set (take k (res @ q)))"

lemma edge_rel_finite [simp]: "finite {i. (i, j) \<in> edge_rel M \<and> P i}"
  by (rule finite_subset [of _ "{..<length M}"]) (auto simp: edge_rel_def)

lemma edge_rel_finite_all: "finite (edge_rel M)"
  by (rule finite_subset [of _ "{..<length M} \<times> {..<length M}"]) (auto simp: edge_rel_def)

lemma top_inv_step:
  assumes I: "top_inv M deg (v # q) res"
    and R: "relax (M ! v) [0..<length M] deg q num = (deg', q', num')"
  shows "top_inv M deg' q' (res @ [v]) \<and> num' + length q = num + length q'"
proof -
  let ?n = "length M"
  define fs where "fs = filter (\<lambda>i. M ! v ! i > 0 \<and> deg ! i = 1) [0..<?n]"
  have len: "length deg = ?n" and dist: "distinct (res @ v # q)"
    and deg: "\<And>j. j < ?n \<Longrightarrow> deg ! j = int (card {i. (i, j) \<in> edge_rel M \<and> i \<notin> set res})"
    and S: "set (res @ v # q) = {j. j < ?n \<and> deg ! j = 0}"
    and ord: "\<And>k i. k < length (res @ v # q) \<Longrightarrow> (i, (res @ v # q) ! k) \<in> edge_rel M \<Longrightarrow> i \<in> set (take k (res @ v # q))"
    using I by (auto simp: top_inv_def)
  have v: "v < ?n" "v \<notin> set res" using S dist by auto
  have r: "deg' = map (\<lambda>j. if j < ?n \<and> M ! v ! j > 0 then deg ! j - 1 else deg ! j) [0..<?n]" "q' = q @ fs"
    "num' = num + length fs"
    using R relax_result [of "[0..<?n]" deg "M ! v" q num] len by (auto simp: fs_def Let_def)
  have deg': "deg' ! j = int (card {i. (i, j) \<in> edge_rel M \<and> i \<notin> set (res @ [v])})" if j: "j < ?n" for j
  proof (cases "(v, j) \<in> edge_rel M")
    case True
    have "{i. (i, j) \<in> edge_rel M \<and> i \<notin> set res} = insert v {i. (i, j) \<in> edge_rel M \<and> i \<notin> set (res @ [v])}"
      using True v by auto
    then have "card {i. (i, j) \<in> edge_rel M \<and> i \<notin> set res} = Suc (card {i. (i, j) \<in> edge_rel M \<and> i \<notin> set (res @ [v])})"
      by (simp add: card_insert_if)
    moreover have "M ! v ! j > 0" using True by (simp add: edge_rel_def)
    ultimately show ?thesis using deg [OF j] j by (simp add: r)
  next
    case False
    then have "{i. (i, j) \<in> edge_rel M \<and> i \<notin> set res} = {i. (i, j) \<in> edge_rel M \<and> i \<notin> set (res @ [v])}" by auto
    moreover have "\<not> M ! v ! j > 0" using False v j by (simp add: edge_rel_def)
    ultimately show ?thesis using deg [OF j] j by (simp add: r)
  qed
  have old: "deg ! j = 1" if "j < ?n" "M ! v ! j > 0" "deg' ! j = 0" for j using that by (simp add: r)
  have notv: "\<not> M ! v ! j > 0" if "j \<in> set (res @ v # q)" for j
  proof
    assume a: "M ! v ! j > 0"
    have "j < ?n" "deg ! j = 0" using that S by auto
    then have "card {i. (i, j) \<in> edge_rel M \<and> i \<notin> set res} = 0" using deg by simp
    moreover have "v \<in> {i. (i, j) \<in> edge_rel M \<and> i \<notin> set res}" using a v \<open>j < ?n\<close> by (simp add: edge_rel_def)
    ultimately show False by (metis card_0_eq edge_rel_finite empty_iff)
  qed
  have S': "set (res @ v # q) \<union> set fs = {j. j < ?n \<and> deg' ! j = 0}"
  proof (rule set_eqI)
    fix j
    obtain A where A: "A = set (res @ v # q)" by blast
    have 1: "j \<in> A \<longleftrightarrow> j < ?n \<and> deg ! j = 0" unfolding A S by simp
    have 2: "j \<in> set fs \<longleftrightarrow> j < ?n \<and> M ! v ! j > 0 \<and> deg ! j = 1" by (auto simp: fs_def)
    have 3: "j < ?n \<Longrightarrow> deg' ! j = (if M ! v ! j > 0 then deg ! j - 1 else deg ! j)" by (simp add: r)
    have "j \<in> A \<union> set fs \<longleftrightarrow> j < ?n \<and> deg' ! j = 0"
      using notv [of j] unfolding A [symmetric] Un_iff 1 2 by (cases "M ! v ! j > 0") (auto simp: 3)
    then show "j \<in> set (res @ v # q) \<union> set fs \<longleftrightarrow> j \<in> {j. j < ?n \<and> deg' ! j = 0}" by (simp only: A mem_Collect_eq)
  qed
  have d': "distinct (res @ v # q @ fs)"
    using dist notv by (auto simp: fs_def)
  have o': "i \<in> set (take k (res @ v # q @ fs))"
    if k: "k < length (res @ v # q @ fs)" and e: "(i, (res @ v # q @ fs) ! k) \<in> edge_rel M" for k i
  proof (cases "k < length (res @ v # q)")
    case True
    then have "(res @ v # q @ fs) ! k = (res @ v # q) ! k" by (metis append.assoc append_Cons nth_append)
    then have "i \<in> set (take k (res @ v # q))" using ord [OF True] e by simp
    moreover have "take k ((res @ v # q) @ fs) = take k (res @ v # q)" using True by (subst take_append) simp
    ultimately show ?thesis by simp
  next
    case False
    let ?j = "(res @ v # q @ fs) ! k"
    have "?j = fs ! (k - length (res @ v # q))" using False by (metis append.assoc append_Cons nth_append)
    then have "?j \<in> set fs" using k False by auto
    then have j: "?j < ?n" "deg' ! ?j = 0" by (auto simp: fs_def r)
    have "card {i. (i, ?j) \<in> edge_rel M \<and> i \<notin> set (res @ [v])} = 0" using deg' [OF j(1)] unfolding j(2) by linarith
    then have "{i. (i, ?j) \<in> edge_rel M \<and> i \<notin> set (res @ [v])} = {}" by (rule iffD1 [OF card_0_eq [OF edge_rel_finite]])
    then have "i \<in> set (res @ [v])" using e by blast
    moreover have "set (res @ [v]) \<subseteq> set (take k (res @ v # q @ fs))" using False by (cases "k - length res") auto
    ultimately show ?thesis by blast
  qed
  show ?thesis using d' S' o' deg' by (auto simp: top_inv_def r)
qed

lemma top_loop_result:
  assumes "top_inv M deg q res" and "length M < k + length res" and "num = length (res @ q)"
  shows "\<exists>res' deg'. top_loop k M deg q res num = Some (res', length res' \<noteq> length M) \<and> top_inv M deg' [] res'"
  using assms
proof (induction k M deg q res num rule: top_loop.induct)
  case (1 M deg q res num)
  then have "length res \<le> card {..<length M}"
    using distinct_card [of res] card_mono [of "{..<length M}" "set res"] by (auto simp: top_inv_def subset_iff)
  then show ?case using 1 by simp
next
  case (2 k M deg res num)
  then show ?case by auto
next
  case (3 k M deg v q res num)
  obtain deg' q' num' where r: "relax (M ! v) [0..<length M] deg q num = (deg', q', num')"
    by (metis prod_cases3)
  from top_inv_step [OF 3(2) this] 3(1) [OF refl r [symmetric] refl] 3(3,4) r
  show ?case by (auto simp: Let_def)
qed

lemma top_inv_start:
  assumes "deg = map int (in_degrees M)" and "q = filter (\<lambda>i. deg ! i = 0) [0..<length M]"
  shows "top_inv M deg q []"
proof -
  have l: "length deg = length M" by (simp add: assms(1) in_degrees_def)
  have deg: "deg ! j = int (card {i. (i, j) \<in> edge_rel M})" if j: "j < length M" for j
  proof -
    have "deg ! j = int (length (filter (\<lambda>i. M ! i ! j > 0) [0..<length M]))" using j by (simp add: assms(1) in_degrees_def)
    also have "length (filter (\<lambda>i. M ! i ! j > 0) [0..<length M]) = card (set (filter (\<lambda>i. M ! i ! j > 0) [0..<length M]))"
      by (intro distinct_card [symmetric] distinct_filter) simp
    also have "set (filter (\<lambda>i. M ! i ! j > 0) [0..<length M]) = {i. (i, j) \<in> edge_rel M}" using j by (auto simp: edge_rel_def)
    finally show ?thesis .
  qed
  have z: "(i, q ! k) \<notin> edge_rel M" if "k < length q" for k i
  proof
    assume e: "(i, q ! k) \<in> edge_rel M"
    have "q ! k \<in> set q" using that by simp
    then have "q ! k < length M" "deg ! (q ! k) = 0" by (auto simp: assms(2))
    then have "card {i. (i, q ! k) \<in> edge_rel M} = 0" using deg by simp
    then have "{i. (i, q ! k) \<in> edge_rel M} = {}" using edge_rel_finite [where P = "\<lambda>_. True"] by simp
    then show False using e by blast
  qed
  show ?thesis unfolding top_inv_def using l deg z by (auto simp: assms(2))
qed

lemma acyclic_ordered:
  assumes "distinct xs" and "\<And>k i. k < length xs \<Longrightarrow> (i, xs ! k) \<in> r \<Longrightarrow> i \<in> set (take k xs)"
    and "\<And>i j. (i, j) \<in> r \<Longrightarrow> j \<in> set xs"
  shows "acyclic r"
proof -
  define f where "f x = - int (THE k. k < length xs \<and> xs ! k = x)" for x
  have f: "f (xs ! k) = - int k" if "k < length xs" for k
    unfolding f_def by (rule arg_cong [of _ k "\<lambda>k. - int k"], rule the_equality) (use that assms(1) in \<open>auto simp: nth_eq_iff_index_eq\<close>)
  show ?thesis
  proof (rule acyclicI_order [of _ f])
    fix i j assume r: "(i, j) \<in> r"
    obtain k where k: "k < length xs" "j = xs ! k" using assms(3) [OF r] by (auto simp: in_set_conv_nth)
    then obtain l where l: "l < k" "i = xs ! l" using assms(2) [of k i] r by (auto simp: in_set_conv_nth)
    then show "f j < f i" using f [of k] f [of l] k by simp
  qed
qed

lemma wf_minimal:
  fixes r :: "('a \<times> 'a) set"
  assumes "wf r" and "u \<in> U"
  shows "\<exists>z \<in> U. \<forall>y. (y, z) \<in> r \<longrightarrow> y \<notin> U"
  using assms(1) [unfolded wf_eq_minimal, rule_format, of u U] assms(2) by blast

lemma top_inv_end:
  assumes "top_inv M deg [] res"
  shows "length res \<noteq> length M \<longleftrightarrow> \<not> acyclic (edge_rel M)" and "length res = length M \<Longrightarrow> set res = {..<length M}"
proof -
  have T: "\<forall>j < length M. deg ! j = int (card {i. (i, j) \<in> edge_rel M \<and> i \<notin> set res})"
    "set res = {j. j < length M \<and> deg ! j = 0}"
    using assms unfolding top_inv_def append_Nil2 by - (elim conjE, assumption)+
  have d: "distinct res" "set res \<subseteq> {..<length M}" using assms by (auto simp: top_inv_def)
  show all: "set res = {..<length M}" if "length res = length M"
    by (rule card_subset_eq) (use d that in \<open>auto simp: distinct_card\<close>)
  have "acyclic (edge_rel M)" if n: "length res = length M"
  proof (rule acyclic_ordered [OF d(1)])
    show "(i, res ! k) \<in> edge_rel M \<Longrightarrow> i \<in> set (take k res)" if "k < length res" for k i
      using assms that by (simp add: top_inv_def)
    show "(i, j) \<in> edge_rel M \<Longrightarrow> j \<in> set res" for i j
      unfolding all [OF n] by (simp add: edge_rel_def)
  qed
  moreover have "\<not> acyclic (edge_rel M)" if n: "length res \<noteq> length M"
  proof
    assume "acyclic (edge_rel M)"
    then have w: "wf (edge_rel M)" using edge_rel_finite_all by (rule finite_acyclic_wf [rotated])
    have "set res \<noteq> {..<length M}" using n distinct_card [OF d(1)] card_lessThan [of "length M"] by metis
    then obtain u where "u \<in> {..<length M} - set res" using d(2) by blast
    from wf_minimal [OF w this] have "\<exists>z \<in> {..<length M} - set res. \<forall>y. (y, z) \<in> edge_rel M \<longrightarrow> y \<notin> {..<length M} - set res" .
    then obtain z where z: "z \<in> {..<length M} - set res" "\<forall>y. (y, z) \<in> edge_rel M \<longrightarrow> y \<notin> {..<length M} - set res"
      by blast
    then have "{i. (i, z) \<in> edge_rel M \<and> i \<notin> set res} = {}" by (auto simp: edge_rel_def)
    then have c: "card {i. (i, z) \<in> edge_rel M \<and> i \<notin> set res} = 0" by (simp only: card.empty)
    have "deg ! z = int (card {i. (i, z) \<in> edge_rel M \<and> i \<notin> set res})" using T(1) z(1) by blast
    then have "deg ! z = 0" unfolding c by simp
    then have "z \<in> set res" using T(2) z(1) by blast
    then show False using z(1) by simp
  qed
  ultimately show "length res \<noteq> length M \<longleftrightarrow> \<not> acyclic (edge_rel M)" by blast
qed

text \<open>
  C34: topSort sorts, or finds a cycle. It returns a list of different vertices in which
  every vertex stands after all its predecessors; it reports a cycle exactly when the
  graph has one, and otherwise the list holds every vertex.
\<close>

theorem topSort_correct:
  assumes "M \<noteq> []" and "square M"
  shows "\<exists>res c. topSort M = Some (res, c) \<and> distinct res \<and> set res \<subseteq> {..<length M} \<and>
     (\<forall>k < length res. \<forall>i. (i, res ! k) \<in> edge_rel M \<longrightarrow> i \<in> set (take k res)) \<and>
     (c \<longleftrightarrow> \<not> acyclic (edge_rel M)) \<and> (\<not> c \<longrightarrow> set res = {..<length M})"
proof -
  define deg where "deg = map int (in_degrees M)"
  define q where "q = filter (\<lambda>i. deg ! i = 0) [0..<length M]"
  have "top_inv M deg q []" using deg_def q_def by (rule top_inv_start)
  from top_loop_result [OF this, of "length M + 1" "length q"]
  obtain res deg' where r: "top_loop (length M + 1) M deg q [] (length q) = Some (res, length res \<noteq> length M)" "top_inv M deg' [] res"
    by auto
  have "topSort M = Some (res, length res \<noteq> length M)"
    using r(1) assms by (simp add: topSort_def deg_def q_def Let_def)
  moreover have "distinct res" "set res \<subseteq> {..<length M}" "\<forall>k < length res. \<forall>i. (i, res ! k) \<in> edge_rel M \<longrightarrow> i \<in> set (take k res)"
    using r(2) by (auto simp: top_inv_def)
  ultimately show ?thesis using top_inv_end [OF r(2)] by blast
qed

theorem topSort_correct_witness:
  "topSort [[0, 1, 1], [0, 0, 0], [0, 1, 0]] = Some ([0, 2, 1], False) \<and>
   acyclic (edge_rel [[0, 1, 1], [0, 0, 0], [0, 1, 0]])"
proof -
  have t: "topSort [[0, 1, 1], [0, 0, 0], [0, 1, 0]] = Some ([0, 2, 1], False)" by code_simp
  then show ?thesis using topSort_correct [of "[[0, 1, 1], [0, 0, 0], [0, 1, 0]]"] by (auto simp: square_def)
qed

end
