(* ===== verification/CircularBuffer.thy ===== *)
theory CircularBuffer
  imports Prelude
begin

section \<open>The ring buffer (utils/CircularBuffer.h)\<close>

text \<open>
  \<open>CircularBuffer<T, A>\<close>: an array of raw slots in which at most \<open>capacity\<close> elements are
  alive at a time; a push into a full buffer overwrites the oldest one. A slot is
  \<open>None\<close> while no object lives in it, so that reading or destroying a dead object,
  which is undefined, makes an operation return \<open>None\<close>. The operations are shown to
  implement a bounded queue, a list of which a full push drops the first element.
\<close>

subsection \<open>The class\<close>

record 'a cbuf =
  capacity :: nat
  array :: "'a option list"
  head :: nat
  tail :: nat
  contents_size :: nat

definition CircularBuffer :: "nat \<Rightarrow> 'a cbuf" where
  "CircularBuffer cap =
     \<lparr>capacity = cap, array = replicate cap None, head = 1, tail = 0, contents_size = 0\<rparr>"

definition cb_empty :: "'a cbuf \<Rightarrow> bool" where
  "cb_empty b \<longleftrightarrow> contents_size b = 0"

definition cb_full :: "'a cbuf \<Rightarrow> bool" where
  "cb_full b \<longleftrightarrow> contents_size b = capacity b"

text \<open>The counters are \<open>size_t\<close>.\<close>

definition increment_head :: "'a cbuf \<Rightarrow> 'a cbuf" where
  "increment_head b = b\<lparr>contents_size := (contents_size b + (2 ^ 64 - 1)) mod 2 ^ 64,
     head := (if head b + 1 = capacity b then 0 else head b + 1)\<rparr>"

definition increment_tail :: "'a cbuf \<Rightarrow> 'a cbuf" where
  "increment_tail b = b\<lparr>contents_size := (contents_size b + 1) mod 2 ^ 64,
     tail := (if tail b + 1 = capacity b then 0 else tail b + 1)\<rparr>"

text \<open>Reading the object in a slot.\<close>

definition live :: "'a cbuf \<Rightarrow> nat \<Rightarrow> 'a option" where
  "live b i = do { s \<leftarrow> vget (array b) i; s }"

definition destroy :: "'a cbuf \<Rightarrow> nat \<Rightarrow> 'a cbuf option" where
  "destroy b i = do { _ \<leftarrow> live b i; Some (b\<lparr>array := (array b)[i := None]\<rparr>) }"

definition push_back :: "'a cbuf \<Rightarrow> 'a \<Rightarrow> 'a cbuf option" where
  "push_back b item = (
     let nxt = (if tail b + 1 = capacity b then 0 else tail b + 1) in
     if contents_size b = capacity b
     then do {
       _ \<leftarrow> live b nxt;
       Some (increment_tail (increment_head (b\<lparr>array := (array b)[nxt := Some item]\<rparr>))) }
     else do {
       a \<leftarrow> vset (array b) nxt (Some item);
       Some (increment_tail (b\<lparr>array := a\<rparr>)) })"

definition pop_front :: "'a cbuf \<Rightarrow> 'a cbuf option" where
  "pop_front b = (let pos = head b in destroy (increment_head b) pos)"

fun clear_slots :: "'a cbuf \<Rightarrow> nat list \<Rightarrow> 'a cbuf option" where
  "clear_slots b [] = Some b"
| "clear_slots b (n # ns) = do { b \<leftarrow> destroy b ((n + head b) mod capacity b); clear_slots b ns }"

definition cb_clear :: "'a cbuf \<Rightarrow> 'a cbuf option" where
  "cb_clear b = do {
     b \<leftarrow> clear_slots b [0..<contents_size b];
     Some (b\<lparr>head := 1, tail := 0, contents_size := 0\<rparr>) }"

definition cb_front :: "'a cbuf \<Rightarrow> 'a option" where
  "cb_front b = live b (head b)"

definition cb_back :: "'a cbuf \<Rightarrow> 'a option" where
  "cb_back b = live b (tail b)"

definition cb_nth :: "'a cbuf \<Rightarrow> nat \<Rightarrow> 'a option" where
  "cb_nth b n = (if capacity b = 0 then None else live b ((n + head b) mod capacity b))"

subsection \<open>Iterators\<close>

text \<open>
  An iterator is a buffer, which it only reads, and a position of type \<open>size_t\<close>. Two
  iterators are compared only when they are of one buffer.
\<close>

record 'a iterator_ty =
  buf :: "'a cbuf"
  pos :: nat

definition it_begin :: "'a cbuf \<Rightarrow> 'a iterator_ty" where
  "it_begin b = \<lparr>buf = b, pos = 0\<rparr>"

definition it_end :: "'a cbuf \<Rightarrow> 'a iterator_ty" where
  "it_end b = \<lparr>buf = b, pos = contents_size b\<rparr>"

definition it_eq :: "'a iterator_ty \<Rightarrow> 'a iterator_ty \<Rightarrow> bool" where
  "it_eq i j \<longleftrightarrow> pos i = pos j"

definition it_incr :: "'a iterator_ty \<Rightarrow> 'a iterator_ty" where
  "it_incr i = i\<lparr>pos := (pos i + 1) mod 2 ^ 64\<rparr>"

definition it_post_incr :: "'a iterator_ty \<Rightarrow> 'a iterator_ty \<times> 'a iterator_ty" where
  "it_post_incr i = (let tmp = i in (tmp, it_incr i))"

definition it_decr :: "'a iterator_ty \<Rightarrow> 'a iterator_ty" where
  "it_decr i = i\<lparr>pos := (pos i + (2 ^ 64 - 1)) mod 2 ^ 64\<rparr>"

definition it_post_decr :: "'a iterator_ty \<Rightarrow> 'a iterator_ty \<times> 'a iterator_ty" where
  "it_post_decr i = (let tmp = i in (tmp, it_decr i))"

text \<open>The difference of the positions as a signed 64-bit value.\<close>

definition it_minus :: "'a iterator_ty \<Rightarrow> 'a iterator_ty \<Rightarrow> int" where
  "it_minus i j = (int (pos i) - int (pos j) + 2 ^ 63) mod 2 ^ 64 - 2 ^ 63"

definition it_deref :: "'a iterator_ty \<Rightarrow> 'a option" where
  "it_deref i = cb_nth (buf i) (pos i)"

text \<open>The loop of the copy constructor, which ends only if the end is reached.\<close>

partial_function (option) copy_loop :: "'a iterator_ty \<Rightarrow> 'a iterator_ty \<Rightarrow> 'a cbuf \<Rightarrow> 'a cbuf option" where
  "copy_loop it e b = (
     if it_eq it e then Some b
     else do { x \<leftarrow> it_deref it; b \<leftarrow> push_back b x; copy_loop (it_incr it) e b })"

definition cb_copy :: "'a cbuf \<Rightarrow> 'a cbuf option" where
  "cb_copy that = copy_loop (it_begin that) (it_end that) (CircularBuffer (capacity that))"

text \<open>\<open>while (begin != end) push_back(*begin++)\<close>\<close>

partial_function (option) range_loop :: "'a iterator_ty \<Rightarrow> 'a iterator_ty \<Rightarrow> 'a cbuf \<Rightarrow> 'a cbuf option" where
  "range_loop it e b = (
     if it_eq it e then Some b
     else do { (tmp, it) \<leftarrow> Some (it_post_incr it); x \<leftarrow> it_deref tmp; b \<leftarrow> push_back b x; range_loop it e b })"

definition cb_range :: "'a iterator_ty \<Rightarrow> 'a iterator_ty \<Rightarrow> 'a cbuf option" where
  "cb_range b e = (if it_minus e b < 0 then None else range_loop b e (CircularBuffer (nat (it_minus e b))))"

subsection \<open>The bounded queue it implements\<close>

definition cb_inv :: "'a cbuf \<Rightarrow> bool" where
  "cb_inv b \<longleftrightarrow> 2 \<le> capacity b \<and> capacity b < 2 ^ 63 \<and> length (array b) = capacity b \<and>
     head b < capacity b \<and> tail b < capacity b \<and> contents_size b \<le> capacity b \<and>
     (tail b + 1) mod capacity b = (head b + contents_size b) mod capacity b \<and>
     (\<forall>i < contents_size b. array b ! ((head b + i) mod capacity b) \<noteq> None)"

definition contents :: "'a cbuf \<Rightarrow> 'a list" where
  "contents b = map (\<lambda>i. the (array b ! ((head b + i) mod capacity b))) [0..<contents_size b]"

definition bounded_push :: "nat \<Rightarrow> 'a list \<Rightarrow> 'a \<Rightarrow> 'a list" where
  "bounded_push cap xs x = (if length xs = cap then tl xs else xs) @ [x]"

lemma length_contents [simp]: "length (contents b) = contents_size b"
  by (simp add: contents_def)

lemma wrap: "h < c \<Longrightarrow> i \<le> c \<Longrightarrow> (h + i) mod c = (if h + i < c then h + i else h + i - c)" for h i c :: nat
  by (auto simp: le_mod_geq mod_if)

lemma wrap_next: "h < c \<Longrightarrow> (if h + 1 = c then 0 else h + 1) = (h + 1) mod c" for h c :: nat
  by (auto simp: mod_if)

lemma contents_nth: "i < contents_size b \<Longrightarrow> contents b ! i = the (array b ! ((head b + i) mod capacity b))"
  by (simp add: contents_def)

lemma contents_eqI:
  assumes "contents_size b = length xs"
    and "\<And>i. i < length xs \<Longrightarrow> array b ! ((head b + i) mod capacity b) = Some (xs ! i)"
  shows "contents b = xs"
  using assms by (intro nth_equalityI) (auto simp: contents_nth)

lemma slot_of:
  assumes "cb_inv b" and "i < contents_size b"
  shows "array b ! ((head b + i) mod capacity b) = Some (contents b ! i)"
  using assms by (auto simp: cb_inv_def contents_nth)

lemma increment_head_pos:
  assumes "0 < contents_size b" and "contents_size b < 2 ^ 64"
  shows "increment_head b = b\<lparr>contents_size := contents_size b - 1, head := (if head b + 1 = capacity b then 0 else head b + 1)\<rparr>"
proof -
  have "contents_size b + (2 ^ 64 - 1) = (contents_size b - 1) + 2 ^ 64" using assms(1) by simp
  then show ?thesis using assms(2) by (simp only: increment_head_def mod_add_self2) simp
qed

lemma increment_tail_lt:
  "contents_size b + 1 < 2 ^ 64 \<Longrightarrow>
   increment_tail b = b\<lparr>contents_size := contents_size b + 1, tail := (if tail b + 1 = capacity b then 0 else tail b + 1)\<rparr>"
  by (simp add: increment_tail_def)

lemma CircularBuffer_inv: "2 \<le> cap \<Longrightarrow> cap < 2 ^ 63 \<Longrightarrow> cb_inv (CircularBuffer cap :: 'a cbuf) \<and> contents (CircularBuffer cap :: 'a cbuf) = []"
  by (simp add: CircularBuffer_def cb_inv_def contents_def)

lemma cb_nth_contents:
  assumes "cb_inv b" and "n < contents_size b"
  shows "cb_nth b n = Some (contents b ! n)"
proof -
  have "(n + head b) mod capacity b < length (array b)" using assms by (simp add: cb_inv_def)
  then show ?thesis
    using slot_of [OF assms] assms(1) by (auto simp: cb_nth_def live_def ub_simps cb_inv_def add.commute)
qed

lemma front_contents: "cb_inv b \<Longrightarrow> contents b \<noteq> [] \<Longrightarrow> cb_front b = Some (hd (contents b))"
  using slot_of [of b 0] length_greater_0_conv [of "contents b"]
  by (auto simp: cb_front_def live_def cb_inv_def hd_conv_nth ub_simps)

lemma back_contents:
  assumes "cb_inv b" and "contents b \<noteq> []"
  shows "cb_back b = Some (last (contents b))"
proof -
  have n: "contents_size b > 0" using assms(2) by (metis length_contents length_greater_0_conv)
  have "tail b = (head b + (contents_size b - 1)) mod capacity b"
    using assms(1) n wrap [of "tail b" "capacity b" 1] wrap [of "head b" "capacity b" "contents_size b"]
      wrap [of "head b" "capacity b" "contents_size b - 1"]
    by (auto simp: cb_inv_def split: if_splits)
  then show ?thesis
    using slot_of [OF assms(1), of "contents_size b - 1"] n assms
    by (auto simp: cb_back_def live_def ub_simps cb_inv_def last_conv_nth)
qed

lemma push_back_ok:
  assumes I: "cb_inv b"
  shows "\<exists>b'. push_back b x = Some b' \<and> cb_inv b' \<and> capacity b' = capacity b \<and>
     contents b' = bounded_push (capacity b) (contents b) x"
proof -
  let ?c = "capacity b" and ?h = "head b" and ?n = "contents_size b"
  define nxt where "nxt = (if tail b + 1 = ?c then 0 else tail b + 1)"
  have c: "2 \<le> ?c" "?c < 2 ^ 63" "length (array b) = ?c" "?h < ?c" "tail b < ?c" "?n \<le> ?c" using I by (auto simp: cb_inv_def)
  have nx: "nxt = (?h + ?n) mod ?c" "nxt < ?c"
    using I wrap_next [of "tail b" ?c] c by (auto simp: nxt_def cb_inv_def)
  show ?thesis
  proof (cases "?n = ?c")
    case True
    have nh: "nxt = ?h" using nx(1) True wrap [of ?h ?c ?c] c by simp
    define b' where "b' = b\<lparr>array := (array b)[nxt := Some x], head := (?h + 1) mod ?c, tail := nxt\<rparr>"
    have "array b ! ?h \<noteq> None" using slot_of [OF I, of 0] c True by simp
    then have l: "live b nxt \<noteq> None" using nh c by (simp add: live_def ub_simps)
    define b0 where "b0 = b\<lparr>array := (array b)[nxt := Some x]\<rparr>"
    have b0: "contents_size b0 = ?c" "capacity b0 = ?c" "head b0 = ?h" "tail b0 = tail b" by (simp_all add: b0_def True)
    have "increment_head b0 = b0\<lparr>contents_size := ?c - 1, head := (?h + 1) mod ?c\<rparr>"
      using increment_head_pos [of b0] c(1,2) wrap_next [OF c(4)] unfolding b0 by simp
    moreover have "contents_size (b0\<lparr>contents_size := ?c - 1, head := (?h + 1) mod ?c\<rparr>) + 1 < 2 ^ 64" using c(1,2) by simp
    note increment_tail_lt [OF this]
    ultimately have "increment_tail (increment_head b0) = b'"
      using True c(1) b0 by (intro cbuf.equality) (simp_all add: b'_def b0_def nxt_def)
    then have p: "push_back b x = Some b'"
      using True l unfolding push_back_def nxt_def [symmetric] Let_def by (auto simp: b0_def simp del: bind_eq_Some)
    have a: "array b' ! ((head b' + i) mod capacity b') = Some (bounded_push ?c (contents b) x ! i)" if i: "i < ?c" for i
    proof -
      have m: "((?h + 1) mod ?c + i) mod ?c = (?h + (i + 1)) mod ?c" by (simp add: mod_simps add.assoc)
      show ?thesis
      proof (cases "i + 1 = ?c")
        case True': True
        then have "\<not> i < ?c - Suc 0" by simp
        then show ?thesis using True' m nh c True wrap [of ?h ?c ?c]
          by (simp add: b'_def bounded_push_def nth_append)
      next
        case False
        then have i1: "i + 1 < ?c" "i < ?c - Suc 0" using i by simp_all
        then have "(?h + (i + 1)) mod ?c \<noteq> nxt" using nh c wrap [of ?h ?c "i + 1"] by (auto split: if_splits)
        then show ?thesis using m slot_of [OF I, of "i + 1"] i1 True
          by (simp add: b'_def bounded_push_def nth_append nth_tl)
      qed
    qed
    have sz: "length (bounded_push ?c (contents b) x) = ?c" "contents_size b' = ?c" "capacity b' = ?c"
      using True c by (auto simp: bounded_push_def b'_def)
    have "(nxt + 1) mod ?c = ((?h + 1) mod ?c + ?c) mod ?c" using nh by (simp add: mod_simps)
    then have "cb_inv b'" using c a sz nx(2) by (simp add: cb_inv_def b'_def)
    moreover have "contents b' = bounded_push ?c (contents b) x" using a sz by (intro contents_eqI) auto
    ultimately show ?thesis using p sz by blast
  next
    case False
    define b' where "b' = b\<lparr>array := (array b)[nxt := Some x], tail := nxt, contents_size := ?n + 1\<rparr>"
    have "?n + 1 < 2 ^ 64" using c False by simp
    then have "increment_tail (b\<lparr>array := (array b)[nxt := Some x]\<rparr>) = b'"
      using increment_tail_lt [of "b\<lparr>array := (array b)[nxt := Some x]\<rparr>"]
      by (intro cbuf.equality) (simp_all add: b'_def nxt_def)
    then have p: "push_back b x = Some b'"
      using False c nx(2) unfolding push_back_def nxt_def [symmetric] Let_def by (simp add: ub_simps del: bind_eq_Some)
    have a: "array b' ! ((head b' + i) mod capacity b') = Some (bounded_push ?c (contents b) x ! i)" if i: "i < ?n + 1" for i
    proof (cases "i = ?n")
      case True
      then show ?thesis using nx c False by (simp add: b'_def bounded_push_def nth_append)
    next
      case F: False
      then have "(?h + i) mod ?c \<noteq> nxt" using i nx c False wrap [of ?h ?c i] wrap [of ?h ?c ?n] by (auto split: if_splits)
      then show ?thesis using F i slot_of [OF I, of i] False by (simp add: b'_def bounded_push_def nth_append)
    qed
    have sz: "length (bounded_push ?c (contents b) x) = ?n + 1" "contents_size b' = ?n + 1" "capacity b' = ?c"
      using False by (auto simp: bounded_push_def b'_def)
    have "(nxt + 1) mod ?c = (?h + (?n + 1)) mod ?c" using nx by (simp add: mod_simps)
    then have "cb_inv b'" using c a sz nx(2) False by (simp add: cb_inv_def b'_def)
    moreover have "contents b' = bounded_push ?c (contents b) x" using a sz by (intro contents_eqI) auto
    ultimately show ?thesis using p sz by blast
  qed
qed

lemma pop_front_ok:
  assumes I: "cb_inv b" and n: "contents b \<noteq> []"
  shows "\<exists>b'. pop_front b = Some b' \<and> cb_inv b' \<and> capacity b' = capacity b \<and> contents b' = tl (contents b)"
proof -
  let ?c = "capacity b" and ?h = "head b" and ?n = "contents_size b"
  have c: "2 \<le> ?c" "?c < 2 ^ 63" "length (array b) = ?c" "?h < ?c" "tail b < ?c" "?n \<le> ?c"
    "(tail b + 1) mod ?c = (?h + ?n) mod ?c" using I by (auto simp: cb_inv_def)
  have n: "0 < ?n" using n by (metis length_contents length_greater_0_conv)
  define b' where "b' = b\<lparr>array := (array b)[?h := None], contents_size := ?n - 1, head := (?h + 1) mod ?c\<rparr>"
  have "increment_head b = b\<lparr>contents_size := ?n - 1, head := (?h + 1) mod ?c\<rparr>"
    using increment_head_pos [OF n] c wrap_next [OF c(4)] by simp
  moreover have "array b ! ?h = Some (contents b ! 0)" using slot_of [OF I n] c by simp
  ultimately have p: "pop_front b = Some b'"
    using c by (simp add: pop_front_def Let_def destroy_def live_def ub_simps b'_def)
  have a: "array b' ! ((head b' + i) mod capacity b') = Some (tl (contents b) ! i)" if i: "i < ?n - 1" for i
  proof -
    have m: "((?h + 1) mod ?c + i) mod ?c = (?h + (i + 1)) mod ?c" by (simp add: mod_simps add.assoc)
    have "(?h + (i + 1)) mod ?c \<noteq> ?h" using i c wrap [of ?h ?c "i + 1"] by (auto split: if_splits)
    then show ?thesis using m slot_of [OF I, of "i + 1"] i by (simp add: b'_def nth_tl)
  qed
  have "((?h + 1) mod ?c + (?n - 1)) mod ?c = (?h + ?n) mod ?c" using n by (cases ?n) (simp_all add: mod_simps)
  then have "cb_inv b'" using c a n by (simp add: cb_inv_def b'_def)
  moreover have "contents b' = tl (contents b)" using a by (intro contents_eqI) (auto simp: b'_def)
  ultimately show ?thesis using p by (auto simp: b'_def)
qed

lemma clear_slots_ok:
  assumes "distinct (map (\<lambda>n. (n + head b) mod capacity b) ns)"
    and "\<forall>n \<in> set ns. live b ((n + head b) mod capacity b) \<noteq> None"
  shows "\<exists>a. clear_slots b ns = Some (b\<lparr>array := a\<rparr>) \<and> length a = length (array b)"
  using assms
proof (induction ns arbitrary: b)
  case Nil
  show ?case by (auto intro!: exI [of _ "array b"])
next
  case (Cons n ns)
  let ?i = "(n + head b) mod capacity b"
  let ?b = "b\<lparr>array := (array b)[?i := None]\<rparr>"
  have "live ?b ((m + head b) mod capacity b) = live b ((m + head b) mod capacity b)" if "m \<in> set ns" for m
  proof -
    have "(m + head b) mod capacity b \<noteq> ?i" using Cons(2) that by (auto simp: image_iff)
    then show ?thesis by (simp add: live_def vget_def)
  qed
  then obtain a where "clear_slots ?b ns = Some (?b\<lparr>array := a\<rparr>)" "length a = length (array b)"
    using Cons(1) [of ?b] Cons(2,3) by auto
  moreover have "destroy b ?i = Some ?b" using Cons(3) by (auto simp: destroy_def)
  ultimately show ?case by auto
qed

lemma cb_clear_ok:
  assumes I: "cb_inv b"
  shows "\<exists>b'. cb_clear b = Some b' \<and> cb_inv b' \<and> capacity b' = capacity b \<and> contents b' = []"
proof -
  have c: "2 \<le> capacity b" "capacity b < 2 ^ 63" "length (array b) = capacity b" "head b < capacity b" "contents_size b \<le> capacity b"
    using I by (auto simp: cb_inv_def)
  have "distinct (map (\<lambda>n. (n + head b) mod capacity b) [0..<contents_size b])"
    using c by (auto simp: distinct_map inj_on_def mod_if split: if_splits)
  moreover have "\<forall>n \<in> set [0..<contents_size b]. live b ((n + head b) mod capacity b) \<noteq> None"
    using slot_of [OF I] c by (auto simp: live_def vget_def add.commute)
  ultimately obtain a where "clear_slots b [0..<contents_size b] = Some (b\<lparr>array := a\<rparr>)" "length a = length (array b)"
    using clear_slots_ok by blast
  then show ?thesis using c by (simp add: cb_clear_def cb_inv_def contents_def)
qed

subsection \<open>Copies\<close>

lemma copy_loop_ok:
  assumes "cb_inv that" and "p \<le> q" and "q \<le> contents_size that"
    and "cb_inv b" and "length (contents b) + (q - p) \<le> capacity b"
  shows "\<exists>b'. copy_loop \<lparr>buf = that, pos = p\<rparr> \<lparr>buf = that, pos = q\<rparr> b = Some b' \<and>
     range_loop \<lparr>buf = that, pos = p\<rparr> \<lparr>buf = that, pos = q\<rparr> b = Some b' \<and>
     cb_inv b' \<and> capacity b' = capacity b \<and> contents b' = contents b @ map ((!) (contents that)) [p..<q]"
  using assms(2-5)
proof (induction "q - p" arbitrary: p b)
  case 0
  then show ?case by (subst copy_loop.simps, subst range_loop.simps) (simp add: it_eq_def)
next
  case (Suc n)
  let ?x = "contents that ! p"
  have p: "p < q" "p < contents_size that" using Suc(2-4) by simp_all
  have "p + 1 < 2 ^ 64" using p(2) assms(1) by (auto simp: cb_inv_def)
  then have i: "it_incr \<lparr>buf = that, pos = p\<rparr> = \<lparr>buf = that, pos = Suc p\<rparr>" by (simp add: it_incr_def)
  have d: "it_deref \<lparr>buf = that, pos = p\<rparr> = Some ?x" using cb_nth_contents [OF assms(1) p(2)] by (simp add: it_deref_def)
  obtain b1 where b1: "push_back b ?x = Some b1" "cb_inv b1" "capacity b1 = capacity b"
    "contents b1 = bounded_push (capacity b) (contents b) ?x"
    using push_back_ok [OF Suc(5)] by blast
  have "length (contents b) \<noteq> capacity b" using Suc(2,6) by simp
  then have c1: "contents b1 = contents b @ [?x]" using b1(4) by (simp add: bounded_push_def)
  have "length (contents b1) + (q - Suc p) \<le> capacity b1"
    using Suc(2,6) p unfolding c1 b1(3) by simp
  moreover have "n = q - Suc p" "Suc p \<le> q" using Suc(2) p by simp_all
  ultimately obtain b' where b':
    "copy_loop \<lparr>buf = that, pos = Suc p\<rparr> \<lparr>buf = that, pos = q\<rparr> b1 = Some b'"
    "range_loop \<lparr>buf = that, pos = Suc p\<rparr> \<lparr>buf = that, pos = q\<rparr> b1 = Some b'"
    "cb_inv b'" "capacity b' = capacity b1" "contents b' = contents b1 @ map ((!) (contents that)) [Suc p..<q]"
    using Suc(1) [of "Suc p" b1] Suc(4) b1(2) by blast
  have "[p..<q] = p # [Suc p..<q]" using p(1) by (rule upt_conv_Cons)
  then show ?case using b' b1 c1 d i p(1)
    by (subst copy_loop.simps, subst range_loop.simps) (simp add: it_eq_def it_post_incr_def)
qed

lemma cb_copy_ok:
  fixes b :: "'a cbuf"
  assumes "cb_inv b"
  shows "\<exists>b'. cb_copy b = Some b' \<and> cb_inv b' \<and> capacity b' = capacity b \<and> contents b' = contents b"
proof -
  let ?b = "CircularBuffer (capacity b) :: 'a cbuf"
  have c: "2 \<le> capacity b" "capacity b < 2 ^ 63" "contents_size b \<le> capacity b" using assms by (auto simp: cb_inv_def)
  have "map ((!) (contents b)) [0..<contents_size b] = contents b" by (metis length_contents map_nth)
  moreover have "capacity ?b = capacity b" "contents_size ?b = 0" by (simp_all add: CircularBuffer_def)
  ultimately show ?thesis
    using copy_loop_ok [OF assms, of 0 "contents_size b" ?b] CircularBuffer_inv [OF c(1,2), where 'a = 'a] c(3)
    unfolding cb_copy_def it_begin_def it_end_def by auto
qed

text \<open>The constructor from a range holds the elements of the range and is full.\<close>

lemma cb_range_ok:
  fixes b :: "'a cbuf"
  assumes "cb_inv b" and "p + 2 \<le> q" and "q \<le> contents_size b"
  shows "\<exists>b'. cb_range \<lparr>buf = b, pos = p\<rparr> \<lparr>buf = b, pos = q\<rparr> = Some b' \<and> cb_inv b' \<and> cb_full b' \<and>
     contents b' = take (q - p) (drop p (contents b))"
proof -
  let ?b = "CircularBuffer (q - p) :: 'a cbuf"
  have c: "contents_size b \<le> capacity b" "capacity b < 2 ^ 63" using assms(1) by (auto simp: cb_inv_def)
  then have q: "q < 2 ^ 63" using assms(3) by simp
  then have "it_minus \<lparr>buf = b, pos = q\<rparr> \<lparr>buf = b, pos = p\<rparr> = int (q - p)"
    using assms(2) by (simp add: it_minus_def of_nat_diff)
  then have cr: "cb_range \<lparr>buf = b, pos = p\<rparr> \<lparr>buf = b, pos = q\<rparr> = range_loop \<lparr>buf = b, pos = p\<rparr> \<lparr>buf = b, pos = q\<rparr> ?b"
    by (simp add: cb_range_def)
  have i: "cb_inv ?b \<and> contents ?b = []" using assms(2) q by (intro CircularBuffer_inv) auto
  have s: "capacity ?b = q - p" "contents_size ?b = 0" by (simp_all add: CircularBuffer_def)
  obtain b' where b': "range_loop \<lparr>buf = b, pos = p\<rparr> \<lparr>buf = b, pos = q\<rparr> ?b = Some b'" "cb_inv b'" "capacity b' = q - p"
    "contents b' = map ((!) (contents b)) [p..<q]"
    using copy_loop_ok [OF assms(1), of p q ?b] assms(2,3) i s by auto
  have "contents b' = take (q - p) (drop p (contents b))"
    unfolding b'(4) using assms(2,3) by (intro nth_equalityI) auto
  moreover have "length (contents b') = q - p" unfolding b'(4) by simp
  then have "contents_size b' = q - p" by (simp only: length_contents)
  ultimately show ?thesis using cr b' by (simp add: cb_full_def)
qed

text \<open>
  With the default capacity of 1 the index of the head starts outside the array, where
  \<open>front\<close> and \<open>pop_front\<close> access it.
\<close>

lemma CircularBuffer_capacity_1:
  "Option.bind (push_back (CircularBuffer 1) x) cb_front = None"
  "Option.bind (push_back (CircularBuffer 1) x) pop_front = None"
  "Option.bind (push_back (CircularBuffer 1) x) cb_back = Some x"
  by (simp_all add: CircularBuffer_def push_back_def increment_tail_def increment_head_def cb_front_def cb_back_def
      pop_front_def destroy_def live_def vget_def vset_def)

subsection \<open>The property\<close>

text \<open>
  C21: CircularBuffer implements a bounded queue. With a capacity of at least 2, no
  operation on a buffer reaches a dead object or leaves the array: push_back appends and
  drops the oldest element of a full buffer, pop_front drops the oldest, front, back and
  operator[] read the first, the last and the n-th element, clear empties, and a copy holds
  the same elements.
\<close>

theorem CircularBuffer_refines_bounded_queue:
  assumes "cb_inv b"
  shows "\<exists>b1 b2 b3. push_back b x = Some b1 \<and> cb_inv b1 \<and> contents b1 = bounded_push (capacity b) (contents b) x \<and>
     cb_clear b = Some b2 \<and> cb_inv b2 \<and> contents b2 = [] \<and>
     cb_copy b = Some b3 \<and> cb_inv b3 \<and> contents b3 = contents b \<and>
     (contents b \<noteq> [] \<longrightarrow> cb_front b = Some (hd (contents b)) \<and> cb_back b = Some (last (contents b)) \<and>
        (\<exists>b4. pop_front b = Some b4 \<and> cb_inv b4 \<and> contents b4 = tl (contents b))) \<and>
     (\<forall>n < contents_size b. cb_nth b n = Some (contents b ! n))"
  using push_back_ok [OF assms, of x] cb_clear_ok [OF assms] cb_copy_ok [OF assms] front_contents [OF assms]
    back_contents [OF assms] pop_front_ok [OF assms] cb_nth_contents [OF assms]
  by blast

theorem CircularBuffer_refines_bounded_queue_witness:
  "\<exists>b1. push_back (CircularBuffer 3) (7 :: int) = Some b1 \<and> contents b1 = [7]"
proof -
  let ?b = "CircularBuffer 3 :: int cbuf"
  have "cb_inv ?b" "contents ?b = []" using CircularBuffer_inv [of 3, where 'a = int] by simp_all
  then show ?thesis using CircularBuffer_refines_bounded_queue [of ?b 7]
    by (auto simp: bounded_push_def CircularBuffer_def)
qed

end
