(* ===== verification/MinHeap.thy ===== *)
theory MinHeap
  imports Prelude
begin

section \<open>Binary heaps (misc/struct/min_heap.h, struct/minHeap.cc)\<close>

text \<open>
  Two classes \<open>MinHeap\<close> that keep a vector in heap order. They differ in the empty case
  (\<open>Peek\<close> and \<open>Pop\<close> of the first return 0, the second reads outside the vector) and
  in the comparison of \<open>HeapifyUp\<close>. Both are shown to satisfy one contract, the locale
  \<open>priority_queue\<close>, whose client empties a queue and obtains a sorted list.
\<close>

subsection \<open>misc/struct/min_heap.h\<close>

definition vswap :: "'a list \<Rightarrow> nat \<Rightarrow> nat \<Rightarrow> 'a list" where
  "vswap xs i j = xs[i := xs ! j, j := xs ! i]"

lemma length_vswap [simp]: "length (vswap xs i j) = length xs"
  by (simp add: vswap_def)

lemma mset_vswap [simp]: "i < length xs \<Longrightarrow> j < length xs \<Longrightarrow> mset (vswap xs i j) = mset xs"
  by (simp add: vswap_def mset_swap)

lemma vswap_nth: "i < length xs \<Longrightarrow> j < length xs \<Longrightarrow>
    vswap xs i j ! k = (if k = j then xs ! i else if k = i then xs ! j else xs ! k)"
  by (auto simp: vswap_def nth_list_update)

type_synonym heap = "int list"

function HeapifyUp :: "heap \<Rightarrow> nat \<Rightarrow> heap option" where
  "HeapifyUp data index =
     (if index = 0 then Some data
      else do {
        let parent_index = (index - 1) div 2;
        a \<leftarrow> vget data parent_index;
        b \<leftarrow> vget data index;
        if a \<le> b then Some data
        else HeapifyUp (vswap data parent_index index) parent_index })"
  by pat_completeness auto
termination by (relation "measure snd") auto

function HeapifyDown :: "heap \<Rightarrow> nat \<Rightarrow> heap option" where
  "HeapifyDown data index =
     (let left = index * 2 + 1; right = index * 2 + 2 in
      if length data \<le> left then Some data
      else do {
        let m = (if right < length data \<and> data ! right < data ! left then right else left);
        a \<leftarrow> vget data index;
        b \<leftarrow> vget data m;
        if a \<le> b then Some data else HeapifyDown (vswap data index m) m })"
  by pat_completeness auto
termination by (relation "measure (\<lambda>(data, index). length data - index)") (auto simp: Let_def split: if_splits)

declare HeapifyUp.simps [simp del] HeapifyDown.simps [simp del]

fun heapify_all :: "heap \<Rightarrow> nat list \<Rightarrow> heap option" where
  "heapify_all data [] = Some data"
| "heapify_all data (i # is) = do { data \<leftarrow> HeapifyDown data i; heapify_all data is }"

definition MinHeap :: "int list \<Rightarrow> heap option" where
  "MinHeap data = heapify_all data (rev [0..<length data])"

definition Peek :: "heap \<Rightarrow> int" where
  "Peek data = (if data \<noteq> [] then data ! 0 else 0)"

definition Pop :: "heap \<Rightarrow> (int \<times> heap) option" where
  "Pop data =
     (if data = [] then Some (0, data)
      else do {
        let minimum = data ! 0;
        data \<leftarrow> HeapifyDown (butlast (vswap data (length data - 1) 0)) 0;
        Some (minimum, data) })"

definition Push :: "heap \<Rightarrow> int \<Rightarrow> heap option" where
  "Push data value = (let data = data @ [value] in HeapifyUp data (length data - 1))"

subsection \<open>struct/minHeap.cc\<close>

function heapifyUp :: "heap \<Rightarrow> nat \<Rightarrow> heap option" where
  "heapifyUp data index =
     (if index = 0 then Some data
      else do {
        let indexParent = (index - 1) div 2;
        a \<leftarrow> vget data indexParent;
        b \<leftarrow> vget data index;
        if a < b then Some data
        else heapifyUp (vswap data index indexParent) indexParent })"
  by pat_completeness auto
termination by (relation "measure snd") auto

function heapifyDown :: "heap \<Rightarrow> nat \<Rightarrow> heap option" where
  "heapifyDown data index =
     (let left = index * 2 + 1; right = index * 2 + 2 in
      if left \<ge> length data then Some data
      else do {
        let minChild = (if right < length data \<and> data ! right < data ! left then right else left);
        a \<leftarrow> vget data index;
        b \<leftarrow> vget data minChild;
        if a \<le> b then Some data else heapifyDown (vswap data index minChild) minChild })"
  by pat_completeness auto
termination by (relation "measure (\<lambda>(data, index). length data - index)") (auto simp: Let_def split: if_splits)

declare heapifyUp.simps [simp del] heapifyDown.simps [simp del]

fun heap_init_loop :: "heap \<Rightarrow> nat list \<Rightarrow> heap option" where
  "heap_init_loop data [] = Some data"
| "heap_init_loop data (i # is) = do { data \<leftarrow> heapifyDown data i; heap_init_loop data is }"

definition heap_init :: "int list \<Rightarrow> heap option" where
  "heap_init data = heap_init_loop data (rev [0..<length data])"

definition peek :: "heap \<Rightarrow> int option" where
  "peek data = vget data 0"

definition heap_pop :: "heap \<Rightarrow> (int \<times> heap) option" where
  "heap_pop data = do {
     minimum \<leftarrow> vget data 0;
     data \<leftarrow> heapifyDown (butlast (vswap data (length data - 1) 0)) 0;
     Some (minimum, data) }"

definition heap_push :: "heap \<Rightarrow> int \<Rightarrow> heap option" where
  "heap_push data key = (let data = data @ [key] in heapifyUp data (length data - 1))"

text \<open>\<open>main\<close>: \<open>while (heap.size()) { cout << heap.peek(); heap.pop(); }\<close>\<close>

partial_function (option) drain :: "('s \<Rightarrow> nat) \<Rightarrow> ('s \<Rightarrow> int option) \<Rightarrow> ('s \<Rightarrow> (int \<times> 's) option) \<Rightarrow> 's \<Rightarrow> int list option" where
  "drain size_of peek_of pop_of s = (
     if size_of s = 0 then Some []
     else do {
       x \<leftarrow> peek_of s;
       (m, s) \<leftarrow> pop_of s;
       out \<leftarrow> drain size_of peek_of pop_of s;
       Some (x # out) })"

definition heap_main :: "int list \<Rightarrow> int list option" where
  "heap_main nums = do { heap \<leftarrow> heap_init nums; drain length peek heap_pop heap }"

subsection \<open>Heap order\<close>

definition heap_from :: "nat \<Rightarrow> heap \<Rightarrow> bool" where
  "heap_from k xs \<longleftrightarrow> (\<forall>j < length xs. 0 < j \<longrightarrow> k \<le> (j - 1) div 2 \<longrightarrow> xs ! ((j - 1) div 2) \<le> xs ! j)"

text \<open>Only the node \<open>i\<close> may be larger than its children.\<close>

definition down_inv :: "nat \<Rightarrow> nat \<Rightarrow> heap \<Rightarrow> bool" where
  "down_inv k i xs \<longleftrightarrow>
     (\<forall>j < length xs. 0 < j \<longrightarrow> k \<le> (j - 1) div 2 \<longrightarrow> (j - 1) div 2 \<noteq> i \<longrightarrow> xs ! ((j - 1) div 2) \<le> xs ! j) \<and>
     (\<forall>j < length xs. 0 < j \<longrightarrow> (j - 1) div 2 = i \<longrightarrow> 0 < i \<longrightarrow> k \<le> (i - 1) div 2 \<longrightarrow> xs ! ((i - 1) div 2) \<le> xs ! j)"

text \<open>Only the node \<open>i\<close> may be smaller than its parent.\<close>

definition up_inv :: "nat \<Rightarrow> heap \<Rightarrow> bool" where
  "up_inv i xs \<longleftrightarrow>
     (\<forall>j < length xs. 0 < j \<longrightarrow> j \<noteq> i \<longrightarrow> xs ! ((j - 1) div 2) \<le> xs ! j) \<and>
     (\<forall>j < length xs. 0 < j \<longrightarrow> (j - 1) div 2 = i \<longrightarrow> 0 < i \<longrightarrow> xs ! ((i - 1) div 2) \<le> xs ! j)"

lemma child_iff: "0 < j \<Longrightarrow> (j - 1) div 2 = i \<longleftrightarrow> j = i * 2 + 1 \<or> j = i * 2 + 2" for i j :: nat
  by presburger

lemma down_inv_step:
  assumes "down_inv k i xs" and "i * 2 + 1 < length xs" and "k \<le> i"
    and m: "m = (if i * 2 + 2 < length xs \<and> xs ! (i * 2 + 2) < xs ! (i * 2 + 1) then i * 2 + 2 else i * 2 + 1)"
    and lt: "\<not> xs ! i \<le> xs ! m"
  shows "down_inv k m (vswap xs i m)"
proof -
  have i: "i < length xs" "m < length xs" "m = i * 2 + 1 \<or> m = i * 2 + 2" "i < m" "0 < m" "(m - 1) div 2 = i"
    using assms(2) m by (auto split: if_splits)
  have le: "xs ! m \<le> xs ! j" if "j < length xs" "0 < j" "(j - 1) div 2 = i" for j
    using that m child_iff [of j i] by (auto split: if_splits)
  have old: "xs ! ((j - 1) div 2) \<le> xs ! j" if "j < length xs" "0 < j" "k \<le> (j - 1) div 2" "(j - 1) div 2 \<noteq> i" for j
    using assms(1) that unfolding down_inv_def by blast
  have gp: "xs ! ((i - 1) div 2) \<le> xs ! j" if "j < length xs" "0 < j" "(j - 1) div 2 = i" "0 < i" "k \<le> (i - 1) div 2" for j
    using assms(1) that unfolding down_inv_def by blast
  note sw = vswap_nth [OF i(1,2)]
  have par: "(j - 1) div 2 < j" if "0 < j" for j :: nat using that by simp
  have 1: "vswap xs i m ! ((j - 1) div 2) \<le> vswap xs i m ! j"
    if j: "j < length xs" "0 < j" "k \<le> (j - 1) div 2" "(j - 1) div 2 \<noteq> m" for j
  proof (cases "(j - 1) div 2 = i")
    case True
    then show ?thesis using le [OF j(1,2) True] lt i(4) by (cases "j = m") (auto simp: sw)
  next
    case False
    then have jm: "j \<noteq> m" using i(6) by auto
    show ?thesis
    proof (cases "j = i")
      case True
      then have "xs ! ((i - 1) div 2) \<le> xs ! m" using gp [OF i(2,5,6)] j by simp
      then show ?thesis using True False j(4) i(4) by (simp add: sw)
    next
      case F: False
      then show ?thesis using old [OF j(1-3) False] False jm j(4) by (simp add: sw)
    qed
  qed
  have 2: "vswap xs i m ! ((m - 1) div 2) \<le> vswap xs i m ! j"
    if j: "j < length xs" "0 < j" "(j - 1) div 2 = m" for j
  proof -
    have "j \<noteq> i" "j \<noteq> m" "m \<noteq> i" using par [OF j(2)] j(3) i(4) by auto
    moreover have "xs ! ((j - 1) div 2) \<le> xs ! j" using old [OF j(1,2)] j(3) assms(3) i(4) by simp
    ultimately show ?thesis unfolding i(6) using j(3) i(4) by (simp add: sw)
  qed
  show ?thesis unfolding down_inv_def length_vswap using 1 2 by blast
qed

lemma HeapifyDown_ok:
  assumes "down_inv k i xs" and "k \<le> i"
  shows "\<exists>ys. HeapifyDown xs i = Some ys \<and> heap_from k ys \<and> mset ys = mset xs"
  using assms
proof (induction xs i rule: HeapifyDown.induct)
  case (1 xs i)
  let ?m = "if i * 2 + 2 < length xs \<and> xs ! (i * 2 + 2) < xs ! (i * 2 + 1) then i * 2 + 2 else i * 2 + 1"
  show ?case
  proof (cases "length xs \<le> i * 2 + 1")
    case True
    have "(j - 1) div 2 \<noteq> i" if "j < length xs" "0 < j" for j using that True child_iff [of j i] by auto
    then have "heap_from k xs" using 1(2) unfolding down_inv_def heap_from_def by blast
    then show ?thesis using True by (subst HeapifyDown.simps) simp
  next
    case False
    define m where "m = ?m"
    have im: "i < length xs" "m < length xs" "i < m" using False by (auto simp: m_def)
    have eq: "HeapifyDown xs i = (if xs ! i \<le> xs ! m then Some xs else HeapifyDown (vswap xs i m) m)"
      using False im unfolding HeapifyDown.simps [of xs i] Let_def m_def [symmetric] by (simp add: ub_simps del: bind_eq_Some)
    show ?thesis
    proof (cases "xs ! i \<le> xs ! m")
      case True
      have "xs ! i \<le> xs ! j" if "j < length xs" "0 < j" "(j - 1) div 2 = i" for j
        using that True child_iff [of j i] by (auto simp: m_def split: if_splits)
      then have "heap_from k xs" using 1(2) unfolding down_inv_def heap_from_def by metis
      then show ?thesis using eq True by simp
    next
      case F: False
      have "down_inv k m (vswap xs i m)" using 1(2) _ 1(3) m_def F by (rule down_inv_step) (use False in simp)
      then have "\<exists>ys. HeapifyDown (vswap xs i m) m = Some ys \<and> heap_from k ys \<and> mset ys = mset (vswap xs i m)"
        using 1(1) [OF refl refl _ m_def] False im F 1(3) by simp
      then show ?thesis using eq F im by simp
    qed
  qed
qed

lemma up_inv_step:
  assumes "up_inv i xs" and "0 < i" and "i < length xs" and p: "p = (i - 1) div 2" and le: "xs ! i \<le> xs ! p"
  shows "up_inv p (vswap xs p i)"
proof -
  have i: "p < i" "p < length xs" using assms(2,3) p by auto
  note sw = vswap_nth [OF i(2) assms(3)]
  have old: "xs ! ((j - 1) div 2) \<le> xs ! j" if "j < length xs" "0 < j" "j \<noteq> i" for j
    using assms(1) that unfolding up_inv_def by blast
  have gc: "xs ! p \<le> xs ! j" if "j < length xs" "0 < j" "(j - 1) div 2 = i" for j
    using assms(1,2) that p unfolding up_inv_def by blast
  have 1: "vswap xs p i ! ((j - 1) div 2) \<le> vswap xs p i ! j" if j: "j < length xs" "0 < j" "j \<noteq> p" for j
  proof (cases "j = i")
    case True
    then have "(j - 1) div 2 = p" using p by simp
    then show ?thesis using True le i(1) by (simp add: sw)
  next
    case False
    have np: "(j - 1) div 2 \<noteq> j" using j(2) by auto
    consider "(j - 1) div 2 = i" | "(j - 1) div 2 = p" | "(j - 1) div 2 \<noteq> i" "(j - 1) div 2 \<noteq> p" by blast
    then show ?thesis
    proof cases
      case 1
      then show ?thesis using gc [OF j(1,2) 1] False j(3) by (simp add: sw)
    next
      case 2
      then have "xs ! p \<le> xs ! j" using old [OF j(1,2) False] by simp
      then show ?thesis using 2 le False j(3) i(1) by (simp add: sw)
    next
      case 3
      then show ?thesis using old [OF j(1,2) False] False j(3) by (simp add: sw)
    qed
  qed
  have 2: "vswap xs p i ! ((p - 1) div 2) \<le> vswap xs p i ! j" if j: "j < length xs" "0 < j" "(j - 1) div 2 = p" "0 < p" for j
  proof -
    have a: "xs ! ((p - 1) div 2) \<le> xs ! p" using old [OF i(2) j(4)] i(1) by simp
    have "(p - 1) div 2 \<noteq> p" "(p - 1) div 2 \<noteq> i" using j(4) i(1) by auto
    moreover have "xs ! ((p - 1) div 2) \<le> xs ! j" if "j \<noteq> i" using old [OF j(1,2) that] j(3) a by simp
    moreover have "j \<noteq> p" using j(2,3) by auto
    ultimately show ?thesis using a by (simp add: sw)
  qed
  show ?thesis unfolding up_inv_def length_vswap using 1 2 by blast
qed

lemma HeapifyUp_ok:
  "up_inv i xs \<Longrightarrow> i < length xs \<Longrightarrow> \<exists>ys. HeapifyUp xs i = Some ys \<and> heap_from 0 ys \<and> mset ys = mset xs"
proof (induction xs i rule: HeapifyUp.induct)
  case (1 xs i)
  define p where "p = (i - 1) div 2"
  show ?case
  proof (cases "i = 0 \<or> xs ! p \<le> xs ! i")
    case True
    then have "heap_from 0 xs" using 1(2) unfolding up_inv_def heap_from_def p_def by (metis less_irrefl)
    moreover have "HeapifyUp xs i = Some xs"
      using True 1(3) by (subst HeapifyUp.simps) (auto simp: p_def ub_simps)
    ultimately show ?thesis by simp
  next
    case False
    have p: "p < i" "p < length xs" using False 1(3) by (auto simp: p_def)
    have "up_inv p (vswap xs p i)" using 1(2) _ 1(3) p_def by (rule up_inv_step) (use False in auto)
    then have "\<exists>ys. HeapifyUp (vswap xs p i) p = Some ys \<and> heap_from 0 ys \<and> mset ys = mset (vswap xs p i)"
      using 1(1) [OF _ p_def] False p 1(3) by simp
    moreover have "HeapifyUp xs i = HeapifyUp (vswap xs p i) p"
      using False 1(3) p unfolding HeapifyUp.simps [of xs i] Let_def p_def [symmetric]
      by (simp add: ub_simps del: bind_eq_Some)
    ultimately show ?thesis using p 1(3) by simp
  qed
qed

lemma heapifyDown_eq: "heapifyDown = HeapifyDown"
proof (intro ext)
  fix xs i
  show "heapifyDown xs i = HeapifyDown xs i"
  proof (induction xs i rule: heapifyDown.induct)
    case (1 xs i)
    define m where "m = (if i * 2 + 2 < length xs \<and> xs ! (i * 2 + 2) < xs ! (i * 2 + 1) then i * 2 + 2 else i * 2 + 1)"
    show ?case
    proof (cases "length xs \<le> i * 2 + 1")
      case True
      then show ?thesis by (subst heapifyDown.simps, subst HeapifyDown.simps) simp
    next
      case False
      have im: "i < length xs" "m < length xs" using False by (auto simp: m_def)
      have "heapifyDown (vswap xs i m) m = HeapifyDown (vswap xs i m) m" if "\<not> xs ! i \<le> xs ! m"
        using 1 [OF refl refl _ m_def] False im that by simp
      then show ?thesis using False im
        unfolding HeapifyDown.simps [of xs i] heapifyDown.simps [of xs i] Let_def m_def [symmetric]
        by (simp add: ub_simps del: bind_eq_Some)
    qed
  qed
qed

lemma heap_init_eq: "heap_init = MinHeap"
proof -
  have "heap_init_loop d is = heapify_all d is" for d "is"
    by (induction d "is" rule: heap_init_loop.induct) (simp_all add: heapifyDown_eq cong: Option.bind_cong)
  then show ?thesis by (simp add: heap_init_def MinHeap_def fun_eq_iff)
qed

lemma heapifyUp_ok:
  "up_inv i xs \<Longrightarrow> i < length xs \<Longrightarrow> \<exists>ys. heapifyUp xs i = Some ys \<and> heap_from 0 ys \<and> mset ys = mset xs"
proof (induction xs i rule: heapifyUp.induct)
  case (1 xs i)
  define p where "p = (i - 1) div 2"
  have sw: "vswap xs i p = vswap xs p i" if "p < i" using that by (auto simp: vswap_def list_update_swap)
  show ?case
  proof (cases "i = 0 \<or> xs ! p < xs ! i")
    case True
    then have "heap_from 0 xs" using 1(2) unfolding up_inv_def heap_from_def p_def by (metis less_irrefl less_imp_le)
    moreover have "heapifyUp xs i = Some xs"
      using True 1(3) by (subst heapifyUp.simps) (auto simp: p_def ub_simps)
    ultimately show ?thesis by simp
  next
    case False
    have p: "p < i" "p < length xs" using False 1(3) by (auto simp: p_def)
    have "up_inv p (vswap xs i p)" unfolding sw [OF p(1)]
      using 1(2) _ 1(3) p_def by (rule up_inv_step) (use False in auto)
    then have "\<exists>ys. heapifyUp (vswap xs i p) p = Some ys \<and> heap_from 0 ys \<and> mset ys = mset (vswap xs i p)"
      using 1(1) [OF _ p_def] False p 1(3) by simp
    moreover have "heapifyUp xs i = heapifyUp (vswap xs i p) p"
      using False 1(3) p unfolding heapifyUp.simps [of xs i] Let_def p_def [symmetric]
      by (simp add: ub_simps del: bind_eq_Some)
    ultimately show ?thesis using p 1(3) by simp
  qed
qed

lemma MinHeap_ok: "\<exists>ys. MinHeap xs = Some ys \<and> heap_from 0 ys \<and> mset ys = mset xs"
proof -
  have "heap_from n xs \<Longrightarrow> \<exists>ys. heapify_all xs (rev [0..<n]) = Some ys \<and> heap_from 0 ys \<and> mset ys = mset xs" for n xs
  proof (induction n arbitrary: xs)
    case (Suc n)
    have "down_inv n n xs" using Suc(2) unfolding heap_from_def down_inv_def
      by (auto simp: le_less_Suc_eq le_Suc_eq)
    then obtain ys where ys: "HeapifyDown xs n = Some ys" "heap_from n ys" "mset ys = mset xs" using HeapifyDown_ok by blast
    then show ?case using Suc(1) [OF ys(2)] by auto
  qed auto
  moreover have "heap_from (length xs) xs" by (auto simp: heap_from_def)
  ultimately show ?thesis by (simp add: MinHeap_def)
qed

lemma heap_root:
  assumes "heap_from 0 xs" and "j < length xs"
  shows "xs ! 0 \<le> xs ! j"
  using assms(2)
proof (induction j rule: less_induct)
  case (less j)
  show ?case
  proof (cases "j = 0")
    case False
    then have "(j - 1) div 2 < j" by simp
    moreover have "xs ! ((j - 1) div 2) \<le> xs ! j" using assms(1) less(2) False by (simp add: heap_from_def)
    ultimately show ?thesis using less by force
  qed simp
qed

lemma pop_ok:
  assumes "heap_from 0 xs" and "xs \<noteq> []"
  shows "\<exists>ys. HeapifyDown (butlast (vswap xs (length xs - 1) 0)) 0 = Some ys \<and> heap_from 0 ys \<and>
     mset ys = mset xs - {#xs ! 0#}"
proof -
  let ?z = "vswap xs (length xs - 1) 0"
  have n: "length xs - 1 < length xs" "0 < length xs" using assms(2) by auto
  have nth: "butlast ?z ! j = xs ! j" if "j < length xs - 1" "0 < j" for j
    using that n by (simp add: nth_butlast vswap_nth)
  have "down_inv 0 0 (butlast ?z)"
    unfolding down_inv_def
  proof (intro conjI allI impI)
    fix j assume j: "j < length (butlast ?z)" "0 < j" "(j - 1) div 2 \<noteq> 0"
    then have "(j - 1) div 2 < length xs - 1" "0 < (j - 1) div 2" "j < length xs - 1" by auto
    moreover have "xs ! ((j - 1) div 2) \<le> xs ! j" using assms(1) j by (simp add: heap_from_def)
    ultimately show "butlast ?z ! ((j - 1) div 2) \<le> butlast ?z ! j" using nth j(2) by simp
  qed simp
  then obtain ys where ys: "HeapifyDown (butlast ?z) 0 = Some ys" "heap_from 0 ys" "mset ys = mset (butlast ?z)"
    using HeapifyDown_ok by blast
  have "?z \<noteq> []" using assms(2) by (metis length_vswap length_0_conv)
  then have "butlast ?z @ [?z ! (length xs - 1)] = ?z" by (metis append_butlast_last_id last_conv_nth length_vswap)
  moreover have "?z ! (length xs - 1) = xs ! 0" using n by (cases "length xs - 1 = 0") (simp_all add: vswap_nth)
  ultimately have "mset (butlast ?z) + {#xs ! 0#} = mset ?z" by (metis mset_append mset_single_iff_right)
  then have "mset (butlast ?z) = mset xs - {#xs ! 0#}" using n by (metis add_diff_cancel_right' mset_vswap)
  then show ?thesis using ys by simp
qed

lemma up_inv_last:
  assumes "heap_from 0 xs"
  shows "up_inv (length xs) (xs @ [x])"
  unfolding up_inv_def
proof (intro conjI allI impI)
  fix j assume "j < length (xs @ [x])" "0 < j" "j \<noteq> length xs"
  then show "(xs @ [x]) ! ((j - 1) div 2) \<le> (xs @ [x]) ! j" using assms by (auto simp: heap_from_def nth_append)
next
  fix j assume "j < length (xs @ [x])" "0 < j" "(j - 1) div 2 = length xs"
  then show "(xs @ [x]) ! ((length xs - 1) div 2) \<le> (xs @ [x]) ! j" by simp
qed

subsection \<open>The contract\<close>

locale priority_queue =
  fixes inv :: "'s \<Rightarrow> bool"
    and elems :: "'s \<Rightarrow> int multiset"
    and size_of :: "'s \<Rightarrow> nat"
    and peek_of :: "'s \<Rightarrow> int option"
    and pop_of :: "'s \<Rightarrow> (int \<times> 's) option"
    and push_of :: "'s \<Rightarrow> int \<Rightarrow> 's option"
  assumes size_of: "size_of s = size (elems s)"
    and peek_of: "inv s \<Longrightarrow> elems s \<noteq> {#} \<Longrightarrow> peek_of s = Some (Min_mset (elems s))"
    and pop_of: "inv s \<Longrightarrow> elems s \<noteq> {#} \<Longrightarrow>
      \<exists>s'. pop_of s = Some (Min_mset (elems s), s') \<and> inv s' \<and> elems s' = elems s - {#Min_mset (elems s)#}"
    and push_of: "inv s \<Longrightarrow> \<exists>s'. push_of s x = Some s' \<and> inv s' \<and> elems s' = add_mset x (elems s)"
begin

text \<open>Emptying a queue returns, and yields its elements in order.\<close>

lemma drain_sorts: "inv s \<Longrightarrow> drain size_of peek_of pop_of s = Some (sorted_list_of_multiset (elems s))"
proof (induction "size (elems s)" arbitrary: s)
  case 0
  then show ?case by (subst drain.simps) (simp add: size_of)
next
  case (Suc n)
  then have ne: "elems s \<noteq> {#}" by auto
  let ?m = "Min_mset (elems s)"
  obtain s' where s': "pop_of s = Some (?m, s')" "inv s'" "elems s' = elems s - {#?m#}" using pop_of [OF Suc(3) ne] by blast
  have m: "?m \<in># elems s" using ne by simp
  have "drain size_of peek_of pop_of s' = Some (sorted_list_of_multiset (elems s'))"
    using Suc(1) [OF _ s'(2)] Suc(2) s'(3) m by (simp add: size_Diff_singleton)
  moreover have "sorted_list_of_multiset (elems s) = ?m # sorted_list_of_multiset (elems s')"
  proof -
    have "mset (?m # sorted_list_of_multiset (elems s')) = elems s" using m s'(3) by simp
    moreover have "sorted (?m # sorted_list_of_multiset (elems s'))"
      using s'(3) by (auto dest: in_diffD)
    ultimately show ?thesis by (metis sorted_list_of_multiset_mset sorted_sort_id)
  qed
  ultimately show ?case using peek_of [OF Suc(3) ne] s'(1) ne by (subst drain.simps) (simp add: size_of)
qed

end

lemma heap_Min:
  assumes "heap_from 0 xs" and "xs \<noteq> []"
  shows "Min_mset (mset xs) = xs ! 0"
proof (rule Min_eqI)
  show "finite (set_mset (mset xs))" by simp
  show "xs ! 0 \<in># mset xs" using assms(2) by simp
  show "xs ! 0 \<le> y" if "y \<in># mset xs" for y using that heap_root [OF assms(1)] by (auto simp: in_set_conv_nth)
qed

text \<open>The first class: \<open>Peek\<close> is total, the contract speaks of non-empty queues.\<close>

interpretation min_heap: priority_queue "heap_from 0" mset length "\<lambda>s. Some (Peek s)" Pop Push
proof unfold_locales
  fix s :: heap assume s: "heap_from 0 s" "mset s \<noteq> {#}"
  then have s': "heap_from 0 s" "s \<noteq> []" by auto
  show "Some (Peek s) = Some (Min_mset (mset s))" using heap_Min [OF s'] s' by (simp add: Peek_def)
  show "\<exists>s'. Pop s = Some (Min_mset (mset s), s') \<and> heap_from 0 s' \<and> mset s' = mset s - {#Min_mset (mset s)#}"
    using pop_ok [OF s'] heap_Min [OF s'] s' by (auto simp: Pop_def)
next
  show "\<exists>s'. Push s x = Some s' \<and> heap_from 0 s' \<and> mset s' = add_mset x (mset s)" if "heap_from 0 s" for s x
    using HeapifyUp_ok [OF up_inv_last [OF that], of x] by (auto simp: Push_def)
qed simp

interpretation min_heap2: priority_queue "heap_from 0" mset length peek heap_pop heap_push
proof unfold_locales
  fix s :: heap assume s: "heap_from 0 s" "mset s \<noteq> {#}"
  then have s': "heap_from 0 s" "s \<noteq> []" by auto
  show "peek s = Some (Min_mset (mset s))" using heap_Min [OF s'] s' by (simp add: peek_def ub_simps)
  show "\<exists>s'. heap_pop s = Some (Min_mset (mset s), s') \<and> heap_from 0 s' \<and> mset s' = mset s - {#Min_mset (mset s)#}"
    using pop_ok [OF s'] heap_Min [OF s'] s' by (auto simp: heap_pop_def heapifyDown_eq)
next
  show "\<exists>s'. heap_push s x = Some s' \<and> heap_from 0 s' \<and> mset s' = add_mset x (mset s)" if "heap_from 0 s" for s x
    using heapifyUp_ok [OF up_inv_last [OF that], of x] by (auto simp: heap_push_def)
qed simp

subsection \<open>Properties\<close>

text \<open>
  C10: MinHeap is a priority queue. On a vector in heap order, Push and Pop keep the order
  and lose or invent no element, Peek and Pop return the least element (0 when there is
  none), and the constructor puts any vector in heap order.
\<close>

theorem MinHeap_correct:
  "(\<exists>ys. MinHeap xs = Some ys \<and> heap_from 0 ys \<and> mset ys = mset xs) \<and>
   (heap_from 0 h \<longrightarrow>
      (\<exists>h'. Push h x = Some h' \<and> heap_from 0 h' \<and> mset h' = add_mset x (mset h)) \<and>
      (if h = [] then Peek h = 0 \<and> Pop h = Some (0, h)
       else Peek h = Min (set h) \<and>
         (\<exists>h'. Pop h = Some (Min (set h), h') \<and> heap_from 0 h' \<and> mset h' = mset h - {#Min (set h)#})))"
  using MinHeap_ok [of xs] min_heap.push_of [of h x] min_heap.peek_of [of h] min_heap.pop_of [of h]
  by (auto simp: Peek_def Pop_def)

theorem MinHeap_correct_witness:
  "heap_from 0 [1, 4, 2] \<and> (\<exists>h'. Pop [1, 4, 2] = Some (1, h') \<and> mset h' = {#2, 4#})"
proof -
  have h: "heap_from 0 [1, 4, 2]" by (auto simp: heap_from_def less_Suc_eq numeral_3_eq_3)
  then show ?thesis using MinHeap_correct [of "[]" "[1, 4, 2]" 0] by (auto simp: Min_insert)
qed

text \<open>
  The program in struct/minHeap.cc prints its numbers in ascending order, whatever
  they are, and ends.
\<close>

theorem heap_main_sorts: "heap_main nums = Some (sort nums)"
  using MinHeap_ok [of nums] min_heap2.drain_sorts by (auto simp: heap_main_def heap_init_eq simp flip: sorted_list_of_multiset_mset)

end
