(* ===== verification/LinkedList.thy ===== *)
theory LinkedList
  imports Prelude
begin

section \<open>Singly linked lists (misc/struct/list.h, leetcode/list)\<close>

text \<open>
  The nodes live in a store from addresses to nodes; dereferencing a null or dangling
  pointer makes an operation return \<open>None\<close>. The loops follow pointers without a bound,
  so they are partial functions, and each theorem says that they return. A node
  \<open>ListNode dummy\<close> on the stack, which the code uses as the place before the head, is a
  place of its own (\<open>None\<close>, as opposed to the node at an address) with its own \<open>next\<close>.

  A store holds a list when following the pointers from the head meets given addresses
  and then the null pointer (\<open>lseg\<close>).
\<close>

record list_node =
  val :: int
  nxt :: ptr

type_synonym store = "addr \<rightharpoonup> list_node"

definition load :: "store \<Rightarrow> ptr \<Rightarrow> list_node option" where
  "load h p = do { a \<leftarrow> p; h a }"

definition load_next :: "store \<Rightarrow> ptr \<Rightarrow> ptr option" where
  "load_next h p = do { n \<leftarrow> load h p; Some (nxt n) }"

definition set_next :: "store \<Rightarrow> ptr \<Rightarrow> ptr \<Rightarrow> store option" where
  "set_next h p q = do { a \<leftarrow> p; n \<leftarrow> h a; Some (h(a \<mapsto> n\<lparr>nxt := q\<rparr>)) }"

lemma load_next_simps [simp]:
  "h a = Some n \<Longrightarrow> load_next h (Some a) = Some (nxt n)"
  "load_next h None = None"
  by (simp_all add: load_next_def load_def)

lemma load_simps [simp]: "h a = Some n \<Longrightarrow> load h (Some a) = Some n" "load h None = None"
  by (simp_all add: load_def)

lemma set_next_simp [simp]: "h a = Some n \<Longrightarrow> set_next h (Some a) q = Some (h(a \<mapsto> n\<lparr>nxt := q\<rparr>))"
  by (simp add: set_next_def)

subsection \<open>Lists in the store\<close>

fun lseg :: "store \<Rightarrow> ptr \<Rightarrow> addr list \<Rightarrow> ptr \<Rightarrow> bool" where
  "lseg h p [] q \<longleftrightarrow> p = q"
| "lseg h p (a # as) q \<longleftrightarrow> p = Some a \<and> (\<exists>n. h a = Some n \<and> lseg h (nxt n) as q)"

abbreviation is_list :: "store \<Rightarrow> ptr \<Rightarrow> addr list \<Rightarrow> bool" where
  "is_list h p as \<equiv> lseg h p as None"

definition vals :: "store \<Rightarrow> addr list \<Rightarrow> int list" where
  "vals h as = map (\<lambda>a. val (the (h a))) as"

lemma lseg_append: "lseg h p (as @ bs) q \<longleftrightarrow> (\<exists>r. lseg h p as r \<and> lseg h r bs q)"
  by (induction as arbitrary: p) auto

lemma lseg_dom: "lseg h p as q \<Longrightarrow> set as \<subseteq> dom h"
  by (induction as arbitrary: p) auto

lemma lseg_cong: "(\<And>a. a \<in> set as \<Longrightarrow> h' a = h a) \<Longrightarrow> lseg h' p as q = lseg h p as q"
  by (induction as arbitrary: p) auto

lemma lseg_upd [simp]: "a \<notin> set as \<Longrightarrow> lseg (h(a \<mapsto> n)) p as q = lseg h p as q"
  by (rule lseg_cong) auto

lemma is_list_unique: "is_list h p as \<Longrightarrow> is_list h p bs \<Longrightarrow> as = bs"
proof (induction as arbitrary: p bs)
  case Nil
  then show ?case by (cases bs) auto
next
  case (Cons a as)
  then show ?case by (cases bs) auto
qed

lemma is_list_distinct: "is_list h p as \<Longrightarrow> distinct as"
proof (induction as arbitrary: p)
  case (Cons a as)
  then obtain n where n: "p = Some a" "h a = Some n" "is_list h (nxt n) as" by auto
  have "a \<notin> set as"
  proof
    assume "a \<in> set as"
    then obtain xs ys where s: "as = xs @ a # ys" by (auto dest: split_list)
    then have "is_list h (Some a) (a # ys)" using n(3) by (auto simp: lseg_append)
    moreover have "is_list h (Some a) (a # as)" using n by auto
    ultimately have "a # ys = a # as" by (rule is_list_unique)
    then show False using s by simp
  qed
  then show ?case using Cons n by auto
qed simp

lemma vals_simps [simp]: "vals h [] = []" "vals h (a # as) = val (the (h a)) # vals h as" "vals h (as @ bs) = vals h as @ vals h bs"
  by (simp_all add: vals_def)

text \<open>What an operation may do to the nodes \<open>A\<close>: change links, never a value.\<close>

definition relinked :: "addr set \<Rightarrow> store \<Rightarrow> store \<Rightarrow> bool" where
  "relinked A h h' \<longleftrightarrow> dom h' = dom h \<and> (\<forall>a. a \<notin> A \<longrightarrow> h' a = h a) \<and> (\<forall>a. map_option val (h' a) = map_option val (h a))"

lemma relinked_refl [simp]: "relinked A h h"
  by (simp add: relinked_def)

lemma relinked_trans: "relinked A h h1 \<Longrightarrow> relinked A h1 h2 \<Longrightarrow> relinked A h h2"
  by (simp add: relinked_def)

lemma relinked_mono: "relinked A h h' \<Longrightarrow> A \<subseteq> B \<Longrightarrow> relinked B h h'"
  by (auto simp: relinked_def)

lemma relinked_upd: "h a = Some n \<Longrightarrow> a \<in> A \<Longrightarrow> relinked A h (h(a \<mapsto> n\<lparr>nxt := q\<rparr>))"
  by (auto simp: relinked_def)

lemma relinked_val: "relinked A h h' \<Longrightarrow> val (the (h' a)) = val (the (h a))"
  unfolding relinked_def by (metis domIff map_option_is_None option.map_sel)

lemma relinked_vals: "relinked A h h' \<Longrightarrow> vals h' as = vals h as"
  by (simp add: vals_def relinked_val)

lemma relinked_lseg: "relinked A h h' \<Longrightarrow> A \<inter> set as = {} \<Longrightarrow> lseg h' p as q = lseg h p as q"
  by (rule lseg_cong) (auto simp: relinked_def)

subsection \<open>Building and printing\<close>

text \<open>
  The constructor from a vector allocates the nodes from the last to the first;
  \<open>fresh\<close> is the address the next \<open>new\<close> returns, addresses above it are free.
\<close>

fun List_loop :: "int list \<Rightarrow> store \<Rightarrow> addr \<Rightarrow> ptr \<Rightarrow> store \<times> addr \<times> ptr" where
  "List_loop [] h fresh head = (h, fresh, head)"
| "List_loop (v # vs) h fresh head = List_loop vs (h(fresh \<mapsto> \<lparr>val = v, nxt = head\<rparr>)) (fresh + 1) (Some fresh)"

definition List :: "int list \<Rightarrow> store \<Rightarrow> addr \<Rightarrow> store \<times> addr \<times> ptr" where
  "List vec h fresh = List_loop (rev vec) h fresh None"

lemma List_loop_ok:
  "(\<And>a. fresh \<le> a \<Longrightarrow> h a = None) \<Longrightarrow> is_list h head as \<Longrightarrow> List_loop vs h fresh head = (h', fresh', head') \<Longrightarrow>
   \<exists>bs. is_list h' head' bs \<and> vals h' bs = rev vs @ vals h as \<and> (\<forall>a. fresh' \<le> a \<longrightarrow> h' a = None)"
proof (induction vs h fresh head arbitrary: as rule: List_loop.induct)
  case (1 h fresh head)
  then show ?case by auto
next
  case (2 v vs h fresh head)
  have f: "fresh \<notin> set as" using lseg_dom [OF 2(3)] 2(2) by force
  let ?h = "h(fresh \<mapsto> \<lparr>val = v, nxt = head\<rparr>)"
  have l: "is_list ?h (Some fresh) (fresh # as)" using f 2(3) by auto
  have vl: "vals ?h as = vals h as" using f by (auto simp: vals_def)
  have hv: "val (the (?h fresh)) = v" by simp
  have fr: "?h a = None" if "fresh + 1 \<le> a" for a using 2(2) that by simp
  show ?case using 2(1) [OF fr l] 2(4) vl hv by (auto simp del: fun_upd_apply)
qed

lemma List_ok:
  assumes "\<And>a. fresh \<le> a \<Longrightarrow> h a = None" and "List vec h fresh = (h', fresh', head')"
  shows "\<exists>as. is_list h' head' as \<and> vals h' as = vec"
  using List_loop_ok [where fresh = fresh and h = h and as = "[]" and head = None and vs = "rev vec", OF assms(1)] assms(2) by (auto simp: List_def)

partial_function (option) print_loop :: "store \<Rightarrow> ptr \<Rightarrow> int list option" where
  "print_loop h node =
     (if node = None then Some []
      else do { n \<leftarrow> load h node; out \<leftarrow> print_loop h (nxt n); Some (val n # out) })"

lemma print_loop_ok: "is_list h p as \<Longrightarrow> print_loop h p = Some (vals h as)"
  by (induction as arbitrary: p) (subst print_loop.simps, auto)+

subsection \<open>Cycles\<close>

partial_function (option) has_cycle_loop :: "store \<Rightarrow> ptr \<Rightarrow> ptr \<Rightarrow> bool option" where
  "has_cycle_loop h slow fast = do {
     go \<leftarrow> (if fast = None then Some False
            else do { f1 \<leftarrow> load_next h fast;
              if f1 = None then Some False else do { f2 \<leftarrow> load_next h f1; Some (f2 \<noteq> None) } });
     if \<not> go then Some False
     else if slow = fast then Some True
     else do { slow \<leftarrow> load_next h slow; f1 \<leftarrow> load_next h fast; f2 \<leftarrow> load_next h f1; has_cycle_loop h slow f2 } }"

definition HasCycle :: "store \<Rightarrow> ptr \<Rightarrow> bool option" where
  "HasCycle h head = (
     if head = None then Some False
     else do { fast \<leftarrow> load_next h head; has_cycle_loop h head fast })"

text \<open>\<open>leetcode/list/hasCycle.cc\<close> tests only \<open>p2\<close> before it reads \<open>p2->next->next\<close>.\<close>

partial_function (option) hasCycle_loop :: "store \<Rightarrow> ptr \<Rightarrow> ptr \<Rightarrow> bool option" where
  "hasCycle_loop h p1 p2 =
     (if p2 = None then Some False
      else if p1 = p2 then Some True
      else do { p1 \<leftarrow> load_next h p1; q \<leftarrow> load_next h p2; p2 \<leftarrow> load_next h q; hasCycle_loop h p1 p2 })"

definition hasCycle :: "store \<Rightarrow> ptr \<Rightarrow> bool option" where
  "hasCycle h head = do { p2 \<leftarrow> load_next h head; hasCycle_loop h head p2 }"

definition Print :: "store \<Rightarrow> ptr \<Rightarrow> int list option" where
  "Print h head = do { c \<leftarrow> HasCycle h head; if c then Some [] else print_loop h head }"

text \<open>Following the pointers; null is followed by null.\<close>

definition follow :: "store \<Rightarrow> ptr \<Rightarrow> ptr" where
  "follow h p = (case p of None \<Rightarrow> None | Some a \<Rightarrow> (case h a of None \<Rightarrow> None | Some n \<Rightarrow> nxt n))"

definition walk :: "store \<Rightarrow> ptr \<Rightarrow> nat \<Rightarrow> ptr" where
  "walk h p i = (follow h ^^ i) p"

definition closed_from :: "store \<Rightarrow> ptr \<Rightarrow> bool" where
  "closed_from h p \<longleftrightarrow> (\<forall>i a. walk h p i = Some a \<longrightarrow> a \<in> dom h)"

lemma walk_Suc: "walk h p (Suc i) = follow h (walk h p i)"
  by (simp add: walk_def)

lemma walk_0: "walk h p 0 = p"
  by (simp add: walk_def)

lemma walk_add: "walk h p (i + j) = walk h (walk h p i) j"
  by (simp add: walk_def add.commute [of i] funpow_add)

lemma walk_None: "walk h None i = None"
  by (induction i) (auto simp: walk_def follow_def)

lemma walk_ends: "walk h p i = None \<Longrightarrow> i \<le> j \<Longrightarrow> walk h p j = None"
  by (metis walk_add walk_None le_add_diff_inverse)

lemma walk_before: "walk h p j \<noteq> None \<Longrightarrow> i \<le> j \<Longrightarrow> walk h p i \<noteq> None"
  using walk_ends by metis

lemma closed_load:
  assumes "closed_from h p" and "walk h p i \<noteq> None"
  shows "load_next h (walk h p i) = Some (walk h p (Suc i))"
proof -
  obtain a where a: "walk h p i = Some a" using assms(2) by auto
  then obtain n where "h a = Some n" using assms(1) unfolding closed_from_def by blast
  then show ?thesis using a by (simp add: walk_Suc follow_def)
qed

lemma has_cycle_loop_step:
  assumes "closed_from h p"
  shows "has_cycle_loop h (walk h p t) (walk h p (2 * t + 1)) =
    (if walk h p (2 * t + 3) = None then Some False
     else if walk h p t = walk h p (2 * t + 1) then Some True
     else has_cycle_loop h (walk h p (t + 1)) (walk h p (2 * (t + 1) + 1)))"
proof -
  note L = closed_load [OF assms]
  have n: "2 * t + 3 = Suc (Suc (2 * t + 1))" "2 * (t + 1) + 1 = Suc (Suc (2 * t + 1))" "t + 1 = Suc t" by simp_all
  note E = walk_ends [of h p]
  show ?thesis
  proof (cases "walk h p (2 * t + 3) = None")
    case True
    then show ?thesis unfolding n
      by (subst has_cycle_loop.simps) (use L [of "2 * t + 1"] L [of "Suc (2 * t + 1)"] in \<open>auto simp del: bind_eq_Some\<close>)
  next
    case False
    have ne: "walk h p t \<noteq> None" "walk h p (2 * t + 1) \<noteq> None" "walk h p (Suc (2 * t + 1)) \<noteq> None"
      by (rule walk_before [OF False], simp)+
    then obtain a b c d where "walk h p t = Some a" "walk h p (2 * t + 1) = Some b" "walk h p (Suc (2 * t + 1)) = Some c"
      "walk h p (Suc (Suc (2 * t + 1))) = Some d"
      using False unfolding n by auto
    then show ?thesis using L [OF ne(1)] L [OF ne(2)] L [OF ne(3)] unfolding n
      by (subst has_cycle_loop.simps) (simp del: bind_eq_Some)
  qed
qed

text \<open>A walk that never ends in a finite store is periodic.\<close>

lemma walk_meets:
  assumes "closed_from h p" and "finite (dom h)" and "\<forall>i. walk h p i \<noteq> None"
  shows "\<exists>t. walk h p t = walk h p (2 * t + 1)"
proof -
  have "range (walk h p) \<subseteq> Some ` dom h"
  proof (rule image_subsetI)
    fix i
    obtain a where a: "walk h p i = Some a" using assms(3) by auto
    then have "a \<in> dom h" using assms(1) unfolding closed_from_def by blast
    then show "walk h p i \<in> Some ` dom h" using a by simp
  qed
  then have "finite (range (walk h p))" using assms(2) finite_subset by blast
  then have "\<not> inj (walk h p)" using finite_imageD infinite_UNIV_nat by blast
  then obtain i j where "i \<noteq> j" "walk h p i = walk h p j" by (auto simp: inj_def)
  then obtain i j where ij: "i < j" "walk h p i = walk h p j" by (metis linorder_neqE_nat)
  define l where "l = j - i"
  have per: "walk h p (k + l) = walk h p k" if "i \<le> k" for k
  proof -
    have "k + l = j + (k - i)" using ij(1) that by (simp add: l_def)
    then have "walk h p (k + l) = walk h (walk h p j) (k - i)" by (simp only: walk_add)
    also have "\<dots> = walk h p (i + (k - i))" by (simp only: ij(2) [symmetric] walk_add)
    finally show ?thesis using that by simp
  qed
  have pers: "walk h p (k + m * l) = walk h p k" if "i \<le> k" for k m
  proof (induction m)
    case (Suc m)
    have "walk h p (k + Suc m * l) = walk h p ((k + m * l) + l)" by (simp add: ac_simps)
    then show ?case using Suc per [of "k + m * l"] that by simp
  qed simp
  have l: "1 \<le> l" using ij(1) by (simp add: l_def)
  define q where "q = (i + 1) * l"
  have "(i + 1) * 1 \<le> q" unfolding q_def using l by (rule mult_le_mono2)
  then have "i + 1 \<le> q" by simp
  then have t: "i \<le> q - 1" "2 * (q - 1) + 1 = (q - 1) + q" by arith+
  show ?thesis using pers [OF t(1), of "i + 1"] t(2) unfolding q_def [symmetric] by metis
qed

lemma walk_equal_not_ends:
  assumes "walk h p i = walk h p j" and "i < j" and "walk h p n = None" and "walk h p i \<noteq> None"
  shows False
proof -
  have m: "walk h p (i + m * (j - i)) = walk h p i" for m
  proof (induction m)
    case (Suc m)
    have "i + Suc m * (j - i) = (i + m * (j - i)) + (j - i)" by simp
    then have "walk h p (i + Suc m * (j - i)) = walk h (walk h p i) (j - i)" using Suc by (simp only: walk_add)
    also have "\<dots> = walk h p j" using assms(2) by (simp flip: walk_add)
    finally show ?case using assms(1) by simp
  qed simp
  have "n \<le> i + n * (j - i)" using assms(2) by (cases "j - i") auto
  then show False using m [of n] walk_ends [OF assms(3)] assms(4) by simp
qed

lemma has_cycle_loop_ok:
  assumes "closed_from h p" and "finite (dom h)"
  shows "has_cycle_loop h (walk h p 0) (walk h p 1) = Some (\<forall>i. walk h p i \<noteq> None)"
proof (cases "\<forall>i. walk h p i \<noteq> None")
  case True
  then obtain T where T: "walk h p T = walk h p (2 * T + 1)" using walk_meets assms by blast
  have "has_cycle_loop h (walk h p t) (walk h p (2 * t + 1)) = Some True" if "t \<le> T" for t
    using that
  proof (induction "T - t" arbitrary: t)
    case 0
    then show ?case using has_cycle_loop_step [OF assms(1), of t] T True by simp
  next
    case (Suc n)
    have "has_cycle_loop h (walk h p (t + 1)) (walk h p (2 * (t + 1) + 1)) = Some True" using Suc by (intro Suc(1)) simp_all
    then show ?case using has_cycle_loop_step [OF assms(1), of t] True by simp
  qed
  from this [of 0] show ?thesis using True by simp
next
  case False
  then obtain N where N: "walk h p N = None" by blast
  have "has_cycle_loop h (walk h p t) (walk h p (2 * t + 1)) = Some False" for t
  proof (induction "N - t" arbitrary: t)
    case 0
    then show ?case using has_cycle_loop_step [OF assms(1), of t] walk_ends [OF N, of "2 * t + 3"] by simp
  next
    case (Suc n)
    have IH: "has_cycle_loop h (walk h p (t + 1)) (walk h p (2 * (t + 1) + 1)) = Some False" using Suc(2) by (intro Suc(1)) simp
    show ?case
    proof (cases "walk h p (2 * t + 3) = None")
      case False
      then have "walk h p t \<noteq> None" by (rule walk_before) simp
      then have "walk h p t \<noteq> walk h p (2 * t + 1)" using walk_equal_not_ends [of h p t "2 * t + 1" N] N by auto
      then show ?thesis using has_cycle_loop_step [OF assms(1), of t] False IH by simp
    qed (use has_cycle_loop_step [OF assms(1), of t] in simp)
  qed
  from this [of 0] show ?thesis using False by simp
qed

lemma HasCycle_ok:
  assumes "closed_from h head" and "finite (dom h)"
  shows "HasCycle h head = Some (\<forall>i. walk h head i \<noteq> None)"
proof (cases "head = None")
  case True
  then show ?thesis by (auto simp: HasCycle_def walk_None)
next
  case False
  then show ?thesis
    using closed_load [OF assms(1), of 0] has_cycle_loop_ok [OF assms] unfolding HasCycle_def
    by (simp add: walk_0 del: not_None_eq)
qed

lemma is_list_walk: "is_list h p as \<Longrightarrow> walk h p i = (if i < length as then Some (as ! i) else None)"
proof (induction as arbitrary: p i)
  case Nil
  then show ?case by (simp add: walk_None)
next
  case (Cons a as)
  then obtain n where n: "p = Some a" "h a = Some n" "is_list h (nxt n) as" by auto
  show ?case
  proof (cases i)
    case 0
    then show ?thesis using n by (simp add: walk_0)
  next
    case (Suc j)
    have "walk h p (1 + j) = walk h (nxt n) j" unfolding walk_add using n by (simp add: walk_def follow_def)
    then show ?thesis using Suc Cons(1) [OF n(3)] by simp
  qed
qed

lemma is_list_closed: "is_list h p as \<Longrightarrow> closed_from h p"
  using lseg_dom [of h p as None] by (force simp: closed_from_def is_list_walk split: if_splits)

lemma Print_ok:
  assumes "is_list h head as" and "finite (dom h)"
  shows "Print h head = Some (vals h as)"
proof -
  have "walk h head (length as) = None" using is_list_walk [OF assms(1)] by simp
  then have "HasCycle h head = Some False" using HasCycle_ok [OF is_list_closed [OF assms(1)] assms(2)] by auto
  then show ?thesis using print_loop_ok [OF assms(1)] by (simp add: Print_def)
qed

text \<open>The other version reads through a null pointer on a list with an even number of nodes.\<close>

lemma hasCycle_even: "hasCycle [1 \<mapsto> \<lparr>val = 7, nxt = Some 2\<rparr>, 2 \<mapsto> \<lparr>val = 8, nxt = None\<rparr>] (Some 1) = None"
  by (simp add: hasCycle_def hasCycle_loop.simps)

subsection \<open>Reversal\<close>

partial_function (option) reverse_loop :: "store \<Rightarrow> ptr \<Rightarrow> ptr \<Rightarrow> (store \<times> ptr) option" where
  "reverse_loop h prev cur =
     (if cur = None then Some (h, prev)
      else do { nx \<leftarrow> load_next h cur; h \<leftarrow> set_next h cur prev; reverse_loop h cur nx })"

definition Reverse :: "store \<Rightarrow> ptr \<Rightarrow> (store \<times> ptr) option" where
  "Reverse h head = reverse_loop h None head"

lemma reverse_loop_ok:
  "is_list h cur as \<Longrightarrow> is_list h prev bs \<Longrightarrow> set as \<inter> set bs = {} \<Longrightarrow>
   \<exists>h' p'. reverse_loop h prev cur = Some (h', p') \<and> is_list h' p' (rev as @ bs) \<and> relinked (set as) h h'"
proof (induction as arbitrary: h prev cur bs)
  case Nil
  then show ?case by (subst reverse_loop.simps) auto
next
  case (Cons a as)
  then obtain n where n: "cur = Some a" "h a = Some n" "is_list h (nxt n) as" by auto
  have d: "a \<notin> set as" using is_list_distinct [OF Cons(2)] by simp
  let ?h = "h(a \<mapsto> n\<lparr>nxt := prev\<rparr>)"
  have "is_list ?h (nxt n) as" "is_list ?h (Some a) (a # bs)" using n d Cons(3,4) by (auto simp del: fun_upd_apply) simp
  moreover have "set as \<inter> set (a # bs) = {}" using Cons(4) d by auto
  ultimately obtain h' p' where h': "reverse_loop ?h (Some a) (nxt n) = Some (h', p')"
    "is_list h' p' (rev as @ a # bs)" "relinked (set as) ?h h'" using Cons(1) by blast
  have "relinked (set (a # as)) h h'"
    by (rule relinked_trans [OF relinked_upd [where h = h and a = a, OF n(2)] relinked_mono [OF h'(3)]]) auto
  then show ?case using h' n by (subst reverse_loop.simps) auto
qed

subsection \<open>Merging\<close>

text \<open>
  A place is \<open>None\<close> for the node \<open>dummy\<close> on the stack, whose \<open>next\<close> is kept beside
  the store, or the address of a node.
\<close>

fun place_set :: "store \<Rightarrow> ptr \<Rightarrow> addr option \<Rightarrow> ptr \<Rightarrow> (store \<times> ptr) option" where
  "place_set h d None q = Some (h, q)"
| "place_set h d (Some a) q = do { h \<leftarrow> set_next h (Some a) q; Some (h, d) }"

fun place_next :: "store \<Rightarrow> ptr \<Rightarrow> addr option \<Rightarrow> ptr option" where
  "place_next h d None = Some d"
| "place_next h d (Some a) = load_next h (Some a)"

partial_function (option) merge_loop :: "store \<Rightarrow> ptr \<Rightarrow> addr option \<Rightarrow> ptr \<Rightarrow> ptr \<Rightarrow> (store \<times> ptr \<times> addr option \<times> ptr \<times> ptr) option" where
  "merge_loop h d p lhs rhs =
     (if lhs = None \<or> rhs = None then Some (h, d, p, lhs, rhs)
      else do {
        l \<leftarrow> load h lhs; r \<leftarrow> load h rhs;
        if val l < val r
        then do { (h, d) \<leftarrow> place_set h d p lhs; q \<leftarrow> load_next h lhs; merge_loop h d lhs q rhs }
        else do { (h, d) \<leftarrow> place_set h d p rhs; q \<leftarrow> load_next h rhs; merge_loop h d rhs lhs q } })"

text \<open>\<open>while (p->next) p = p->next;\<close>\<close>

partial_function (option) to_tail :: "store \<Rightarrow> ptr \<Rightarrow> addr option \<Rightarrow> addr option option" where
  "to_tail h d p = do { q \<leftarrow> place_next h d p; if q = None then Some p else to_tail h d q }"

text \<open>The result is the head and the last place of the merged list.\<close>

definition Merge_lists :: "store \<Rightarrow> ptr \<Rightarrow> ptr \<Rightarrow> (store \<times> ptr \<times> addr option) option" where
  "Merge_lists h lhs rhs = do {
     (h, d, p, lhs, rhs) \<leftarrow> merge_loop h None None lhs rhs;
     (h, d) \<leftarrow> place_set h d p (if lhs \<noteq> None then lhs else rhs);
     p \<leftarrow> to_tail h d p;
     Some (h, d, p) }"

text \<open>The merge of the addresses by the values of their nodes.\<close>

fun amerge :: "(addr \<Rightarrow> int) \<Rightarrow> addr list \<Rightarrow> addr list \<Rightarrow> addr list" where
  "amerge v [] bs = bs"
| "amerge v as [] = as"
| "amerge v (a # as) (b # bs) = (if v a < v b then a # amerge v as (b # bs) else b # amerge v (a # as) bs)"

lemma amerge_Nil2 [simp]: "amerge v as [] = as"
  by (cases as) auto

lemma mset_amerge [simp]: "mset (amerge v as bs) = mset as + mset bs"
  by (induction v as bs rule: amerge.induct) auto

lemma set_amerge [simp]: "set (amerge v as bs) = set as \<union> set bs"
  by (induction v as bs rule: amerge.induct) auto

lemma sorted_amerge: "sorted (map v as) \<Longrightarrow> sorted (map v bs) \<Longrightarrow> sorted (map v (amerge v as bs))"
  by (induction v as bs rule: amerge.induct) (auto simp: less_imp_le not_less intro: order_trans)

lemma amerge_cong: "(\<And>a. v a = w a) \<Longrightarrow> amerge v as bs = amerge w as bs"
  by (induction v as bs rule: amerge.induct) auto

text \<open>The list that starts at a place.\<close>

definition place_list :: "store \<Rightarrow> ptr \<Rightarrow> addr option \<Rightarrow> addr list \<Rightarrow> bool" where
  "place_list h d p as \<longleftrightarrow> (\<exists>q. place_next h d p = Some q \<and> is_list h q as)"

definition place_addr :: "addr option \<Rightarrow> addr set" where
  "place_addr p = (case p of None \<Rightarrow> {} | Some a \<Rightarrow> {a})"

definition node_val :: "store \<Rightarrow> addr \<Rightarrow> int" where
  "node_val h a = val (the (h a))"

lemma relinked_node_val: "relinked A h h' \<Longrightarrow> node_val h' = node_val h"
  by (simp add: node_val_def relinked_val fun_eq_iff)

lemma vals_node_val: "vals h as = map (node_val h) as"
  by (simp add: vals_def node_val_def)

lemma place_set_ok:
  assumes "place_addr p \<subseteq> dom h"
  shows "\<exists>h' d'. place_set h d p q = Some (h', d') \<and> place_next h' d' p = Some q \<and> relinked (place_addr p) h h' \<and>
     (p \<noteq> None \<longrightarrow> d' = d)"
proof (cases p)
  case None
  then show ?thesis by simp
next
  case (Some a)
  then obtain n where "h a = Some n" using assms by (auto simp: place_addr_def)
  then show ?thesis using Some by (auto simp: place_addr_def intro: relinked_upd)
qed

lemma relinked_dom: "relinked A h h' \<Longrightarrow> dom h' = dom h"
  by (simp add: relinked_def)

lemma relinked_outside: "relinked A h h' \<Longrightarrow> a \<notin> A \<Longrightarrow> h' a = h a"
  by (simp add: relinked_def)

definition tail_place :: "addr option \<Rightarrow> addr list \<Rightarrow> addr option" where
  "tail_place p as = (if as = [] then p else Some (last as))"

lemma to_tail_ok: "place_list h d p as \<Longrightarrow> to_tail h d p = Some (tail_place p as)"
proof (induction as arbitrary: p)
  case Nil
  then show ?case by (subst to_tail.simps) (auto simp: place_list_def tail_place_def)
next
  case (Cons a as)
  then have n: "place_next h d p = Some (Some a)" "place_list h d (Some a) as" by (auto simp: place_list_def)
  then have "to_tail h d (Some a) = Some (tail_place (Some a) as)" using Cons(1) by blast
  then show ?case using n by (subst to_tail.simps) (simp add: tail_place_def)
qed

text \<open>The loop and the assignment that follows it.\<close>

lemma merge_loop_ok:
  assumes "is_list h lhs A" and "is_list h rhs B" and "set A \<inter> set B = {}"
    and "place_addr p \<subseteq> dom h" and "place_addr p \<inter> (set A \<union> set B) = {}" and "node_val h = v"
  shows "\<exists>h1 d1 p1 l1 r1 h2 d2. merge_loop h d p lhs rhs = Some (h1, d1, p1, l1, r1) \<and>
     place_set h1 d1 p1 (if l1 \<noteq> None then l1 else r1) = Some (h2, d2) \<and>
     place_list h2 d2 p (amerge v A B) \<and> relinked (place_addr p \<union> set A \<union> set B) h h2 \<and> (p \<noteq> None \<longrightarrow> d2 = d) \<and>
     to_tail h2 d2 p1 = Some (tail_place p (amerge v A B))"
  using assms
proof (induction v A B arbitrary: h d p lhs rhs rule: amerge.induct)
  case (1 v B)
  obtain h' d' where h': "place_set h d p rhs = Some (h', d')" "place_next h' d' p = Some rhs" "relinked (place_addr p) h h'"
    "p \<noteq> None \<longrightarrow> d' = d" using place_set_ok [OF 1(4)] by blast
  have "is_list h' rhs B" using relinked_lseg [OF h'(3)] 1(2,5) by simp
  then have l: "place_list h' d' p B" using h'(2) by (auto simp: place_list_def)
  have m: "merge_loop h d p lhs rhs = Some (h, d, p, None, rhs)" using 1(1) by (subst merge_loop.simps) simp
  show ?case using m h' l to_tail_ok [OF l] relinked_mono [OF h'(3)] by auto
next
  case (2 v a as)
  obtain h' d' where h': "place_set h d p lhs = Some (h', d')" "place_next h' d' p = Some lhs" "relinked (place_addr p) h h'"
    "p \<noteq> None \<longrightarrow> d' = d" using place_set_ok [OF 2(4)] by blast
  have "is_list h' lhs (a # as)" using relinked_lseg [OF h'(3)] 2(1,5) by blast
  then have l: "place_list h' d' p (a # as)" using h'(2) by (auto simp: place_list_def)
  have m: "merge_loop h d p lhs rhs = Some (h, d, p, lhs, None)" using 2(2) by (subst merge_loop.simps) simp
  have "lhs \<noteq> None" using 2(1) by auto
  moreover have "relinked (place_addr p \<union> set (a # as) \<union> set []) h h'" by (rule relinked_mono [OF h'(3)]) auto
  ultimately show ?case using m h' l to_tail_ok [OF l] by auto
next
  case (3 v a as b bs)
  obtain n where n: "lhs = Some a" "h a = Some n" "is_list h (nxt n) as" using 3(3) by auto
  obtain m where m: "rhs = Some b" "h b = Some m" "is_list h (nxt m) bs" using 3(4) by auto
  have v: "val n = v a" "val m = v b" using n(2) m(2) 3(8) by (auto simp: node_val_def)
  have da: "a \<notin> set as" "b \<notin> set bs" using is_list_distinct [OF 3(3)] is_list_distinct [OF 3(4)] by auto
  define c where "c = (if v a < v b then a else b)"
  define q where "q = (if v a < v b then nxt n else nxt m)"
  define A where "A = (if v a < v b then as else a # as)"
  define B where "B = (if v a < v b then b # bs else bs)"
  obtain h' d' where h': "place_set h d p (Some c) = Some (h', d')" "place_next h' d' p = Some (Some c)"
    "relinked (place_addr p) h h'" "p \<noteq> None \<longrightarrow> d' = d" using place_set_ok [OF 3(6)] by blast
  have cp: "c \<notin> place_addr p" using 3(7) by (auto simp: c_def)
  have q: "load_next h' (Some c) = Some q"
    using relinked_outside [OF h'(3) cp] n(2) m(2) by (simp add: c_def q_def load_next_def load_def)
  define l where "l = (if v a < v b then q else lhs)"
  define r where "r = (if v a < v b then rhs else q)"
  have ll: "is_list h' l A" "is_list h' r B"
    using relinked_lseg [OF h'(3)] relinked_outside [OF h'(3), of a] relinked_outside [OF h'(3), of b] 3(3,4,7) n m
    by (auto simp: l_def r_def A_def B_def q_def split: if_splits)
  have side: "set A \<inter> set B = {}" "place_addr (Some c) \<subseteq> dom h'" "place_addr (Some c) \<inter> (set A \<union> set B) = {}"
    using 3(5) da relinked_dom [OF h'(3)] n(2) m(2) by (auto simp: A_def B_def c_def place_addr_def)
  have nv: "node_val h' = v" using relinked_node_val [OF h'(3)] 3(8) by simp
  have AB: "amerge v (a # as) (b # bs) = c # amerge v A B" "set (a # as) \<union> set (b # bs) = insert c (set A \<union> set B)"
    by (auto simp: c_def A_def B_def)
  have step: "merge_loop h d p lhs rhs = merge_loop h' d' (Some c) l r"
  proof (cases "v a < v b")
    case True
    then show ?thesis using n m v h'(1) q by (subst merge_loop.simps) (simp add: c_def l_def r_def del: bind_eq_Some)
  next
    case False
    then show ?thesis using n m v h'(1) q by (subst merge_loop.simps) (simp add: c_def l_def r_def del: bind_eq_Some)
  qed
  have IH: "\<exists>h1 d1 p1 l1 r1 h2 d2. merge_loop h' d' (Some c) l r = Some (h1, d1, p1, l1, r1) \<and>
     place_set h1 d1 p1 (if l1 \<noteq> None then l1 else r1) = Some (h2, d2) \<and>
     place_list h2 d2 (Some c) (amerge v A B) \<and> relinked (place_addr (Some c) \<union> set A \<union> set B) h' h2 \<and>
     (Some c \<noteq> None \<longrightarrow> d2 = d') \<and> to_tail h2 d2 p1 = Some (tail_place (Some c) (amerge v A B))"
  proof (cases "v a < v b")
    case True
    then have AA: "A = as" "B = b # bs" by (simp_all add: A_def B_def)
    show ?thesis unfolding AA by (rule 3(1) [OF True ll [unfolded AA] side [unfolded AA] nv])
  next
    case False
    then have AA: "A = a # as" "B = bs" by (simp_all add: A_def B_def)
    show ?thesis unfolding AA by (rule 3(2) [OF False ll [unfolded AA] side [unfolded AA] nv])
  qed
  then obtain h1 d1 p1 l1 r1 h2 d2 where R: "merge_loop h' d' (Some c) l r = Some (h1, d1, p1, l1, r1)"
    "place_set h1 d1 p1 (if l1 \<noteq> None then l1 else r1) = Some (h2, d2)"
    "place_list h2 d2 (Some c) (amerge v A B)" "relinked (place_addr (Some c) \<union> set A \<union> set B) h' h2"
    "d2 = d'" "to_tail h2 d2 p1 = Some (tail_place (Some c) (amerge v A B))" by blast
  have out: "place_addr p \<inter> (place_addr (Some c) \<union> set A \<union> set B) = {}" using 3(7) AB(2) by (auto simp: place_addr_def)
  have pn: "place_next h2 d2 p = Some (Some c)"
  proof (cases p)
    case None
    then show ?thesis using h'(2) R(5) by simp
  next
    case (Some e)
    then have "h2 e = h' e" using relinked_outside [OF R(4)] out by (auto simp: place_addr_def)
    then show ?thesis using h'(2) Some by (simp add: load_next_def load_def)
  qed
  obtain q2 where q2: "load_next h2 (Some c) = Some q2" "is_list h2 q2 (amerge v A B)" using R(3) by (auto simp: place_list_def)
  then have "is_list h2 (Some c) (c # amerge v A B)" by (auto simp: load_next_def load_def)
  then have "place_list h2 d2 p (c # amerge v A B)" using pn by (auto simp: place_list_def)
  moreover have "relinked (place_addr p \<union> set (a # as) \<union> set (b # bs)) h h2"
    by (rule relinked_trans [OF relinked_mono [OF h'(3)] relinked_mono [OF R(4)]]) (use AB(2) in \<open>auto simp: place_addr_def\<close>)
  moreover have "tail_place (Some c) (amerge v A B) = tail_place p (c # amerge v A B)" by (simp add: tail_place_def)
  ultimately show ?case using step R(1,2,5,6) h'(4) unfolding AB(1) by auto
qed

lemma Merge_lists_ok:
  assumes "is_list h lhs A" and "is_list h rhs B" and "set A \<inter> set B = {}"
  shows "\<exists>h' head. Merge_lists h lhs rhs = Some (h', head, tail_place None (amerge (node_val h) A B)) \<and>
     is_list h' head (amerge (node_val h) A B) \<and> relinked (set A \<union> set B) h h'"
proof -
  obtain h1 d1 p1 l1 r1 h2 d2 where R: "merge_loop h None None lhs rhs = Some (h1, d1, p1, l1, r1)"
     "place_set h1 d1 p1 (if l1 \<noteq> None then l1 else r1) = Some (h2, d2)"
     "place_list h2 d2 None (amerge (node_val h) A B)" "relinked (place_addr None \<union> set A \<union> set B) h h2"
     "to_tail h2 d2 p1 = Some (tail_place None (amerge (node_val h) A B))"
    using merge_loop_ok [OF assms, of None "node_val h" None] by (auto simp: place_addr_def)
  then show ?thesis by (auto simp: Merge_lists_def place_list_def place_addr_def simp del: bind_eq_Some)
qed

subsection \<open>Merge_lists sort, top down\<close>

partial_function (option) find_mid :: "store \<Rightarrow> ptr \<Rightarrow> ptr \<Rightarrow> ptr option" where
  "find_mid h slow fast = do {
     go \<leftarrow> (if fast = None then Some False else do { f1 \<leftarrow> load_next h fast; Some (f1 \<noteq> None) });
     if \<not> go then Some slow
     else do { slow \<leftarrow> load_next h slow; f1 \<leftarrow> load_next h fast; fast \<leftarrow> load_next h f1; find_mid h slow fast } }"

text \<open>The lambda \<open>sort\<close>. C++ leaves the order of the two recursive calls open; the
  model takes the left one first.\<close>

partial_function (option) sort_top_down :: "store \<Rightarrow> ptr \<Rightarrow> (store \<times> ptr) option" where
  "sort_top_down h node = do {
     short \<leftarrow> (if node = None then Some True else do { q \<leftarrow> load_next h node; Some (q = None) });
     if short then Some (h, node)
     else do {
       fast \<leftarrow> load_next h node;
       slow \<leftarrow> find_mid h node fast;
       mid \<leftarrow> load_next h slow;
       h \<leftarrow> set_next h slow None;
       (h, l) \<leftarrow> sort_top_down h node;
       (h, r) \<leftarrow> sort_top_down h mid;
       (h, m, t) \<leftarrow> Merge_lists h l r;
       Some (h, m) } }"

definition MergeSortTopDown :: "store \<Rightarrow> ptr \<Rightarrow> (store \<times> ptr) option" where
  "MergeSortTopDown h head = sort_top_down h head"

lemma find_mid_ok:
  assumes "is_list h p as" and "t \<le> (length as - 1) div 2" and "as \<noteq> []"
  shows "find_mid h (walk h p t) (walk h p (2 * t + 1)) = Some (Some (as ! ((length as - 1) div 2)))"
  using assms(2)
proof (induction "length as - t" arbitrary: t rule: less_induct)
  case less
  note W = is_list_walk [OF assms(1)]
  note L = closed_load [OF is_list_closed [OF assms(1)]]
  show ?case
  proof (cases "2 * t + 2 < length as")
    case True
    have ne: "walk h p t \<noteq> None" "walk h p (2 * t + 1) \<noteq> None" "walk h p (Suc (2 * t + 1)) \<noteq> None"
      using True W by auto
    then obtain a b c where abc: "walk h p t = Some a" "walk h p (2 * t + 1) = Some b" "walk h p (Suc (2 * t + 1)) = Some c" by auto
    have "find_mid h (walk h p t) (walk h p (2 * t + 1)) = find_mid h (walk h p (Suc t)) (walk h p (2 * Suc t + 1))"
      using L [OF ne(1)] L [OF ne(2)] L [OF ne(3)] abc
      by (subst find_mid.simps) (simp del: bind_eq_Some)
    moreover have "length as - Suc t < length as - t" "Suc t \<le> (length as - 1) div 2" using True by auto
    ultimately show ?thesis using less(1) [of "Suc t"] by simp
  next
    case False
    have t: "t = (length as - 1) div 2" "t < length as" using False less(2) assms(3) by (cases as; auto)+
    have "find_mid h (walk h p t) (walk h p (2 * t + 1)) = Some (walk h p t)"
    proof (cases "walk h p (2 * t + 1)")
      case (Some b)
      then have "load_next h (walk h p (2 * t + 1)) = Some None" using L [of "2 * t + 1"] W [of "2 * t + 2"] False by simp
      then show ?thesis using Some by (subst find_mid.simps) (simp del: bind_eq_Some)
    qed (subst find_mid.simps, simp)
    then show ?thesis using t W [of t] by simp
  qed
qed

text \<open>Cutting a list behind a node.\<close>

lemma cut_ok:
  assumes "is_list h p (xs @ a # ys)"
  shows "\<exists>q h'. load_next h (Some a) = Some q \<and> set_next h (Some a) None = Some h' \<and>
    is_list h' p (xs @ [a]) \<and> is_list h' q ys \<and> relinked {a} h h'"
proof -
  have d: "distinct (xs @ a # ys)" using assms by (rule is_list_distinct)
  obtain n where n: "lseg h p xs (Some a)" "h a = Some n" "is_list h (nxt n) ys" using assms by (auto simp: lseg_append)
  let ?h = "h(a \<mapsto> n\<lparr>nxt := None\<rparr>)"
  have "lseg ?h p xs (Some a)" "is_list ?h (nxt n) ys" using n d by (simp_all del: fun_upd_apply)
  moreover from this have "is_list ?h p (xs @ [a])" by (auto simp: lseg_append)
  ultimately show ?thesis using n relinked_upd [where h = h and a = a and A = "{a}", OF n(2)] by auto
qed

definition sorted_list :: "store \<Rightarrow> ptr \<Rightarrow> addr list \<Rightarrow> bool" where
  "sorted_list h p as \<longleftrightarrow> is_list h p as \<and> sorted (vals h as)"

lemma sort_top_down_ok:
  "is_list h p as \<Longrightarrow> \<exists>h' p' bs. sort_top_down h p = Some (h', p') \<and> sorted_list h' p' bs \<and> mset bs = mset as \<and>
     relinked (set as) h h'"
proof (induction "length as" arbitrary: h p as rule: less_induct)
  case less
  show ?case
  proof (cases "length as < 2")
    case True
    then consider "as = []" | a where "as = [a]" by (cases as; cases "tl as") auto
    then have "sort_top_down h p = Some (h, p)"
    proof cases
      case 1
      then show ?thesis using less(2) by (subst sort_top_down.simps) auto
    next
      case 2
      then show ?thesis using less(2) by (subst sort_top_down.simps) auto
    qed
    moreover have "sorted (vals h as)" using True by (cases as; cases "tl as") auto
    ultimately show ?thesis using less(2) by (auto simp: sorted_list_def)
  next
    case False
    define k where "k = (length as - 1) div 2"
    define xs where "xs = take k as"
    define a where "a = as ! k"
    define ys where "ys = drop (Suc k) as"
    have k: "Suc k < length as" using False by (auto simp: k_def)
    then have as: "as = xs @ a # ys" by (simp add: xs_def a_def ys_def id_take_nth_drop)
    have len: "length (xs @ [a]) < length as" "length ys < length as" using k by (auto simp: xs_def ys_def)
    note W = is_list_walk [OF less(2)]
    have p: "walk h p 0 = p" "p \<noteq> None" using W [of 0] False by (auto simp: walk_0)
    have "load_next h p = Some (walk h p 1)" using closed_load [OF is_list_closed [OF less(2)], of 0] p by simp
    moreover have "walk h p 1 \<noteq> None" using W [of 1] False by simp
    moreover have "find_mid h p (walk h p 1) = Some (Some a)"
      using find_mid_ok [OF less(2), of 0] less(2) k p by (cases as) (auto simp: a_def k_def)
    moreover obtain q h1 where c: "load_next h (Some a) = Some q" "set_next h (Some a) None = Some h1"
      "is_list h1 p (xs @ [a])" "is_list h1 q ys" "relinked {a} h h1" using cut_ok less(2) unfolding as by blast
    moreover obtain h2 l A where s2: "sort_top_down h1 p = Some (h2, l)" "sorted_list h2 l A" "mset A = mset (xs @ [a])"
      "relinked (set (xs @ [a])) h1 h2" using less(1) [OF len(1) c(3)] by blast
    moreover have dis: "set (xs @ [a]) \<inter> set ys = {}" using is_list_distinct [OF less(2)] unfolding as by auto
    then have "is_list h2 q ys" using relinked_lseg [OF s2(4)] c(4) by simp
    from less(1) [OF len(2) this]
    obtain h3 r B where s3: "sort_top_down h2 q = Some (h3, r)" "sorted_list h3 r B" "mset B = mset ys"
      "relinked (set ys) h2 h3" by blast
    have sets: "set A = set (xs @ [a])" "set B = set ys" using s2(3) s3(3) by (metis mset_eq_setD)+
    have AB: "set A \<inter> set B = {}" using dis sets by simp
    have "set ys \<inter> set A = {}" using dis sets by auto
    then have "is_list h3 l A" using relinked_lseg [OF s3(4)] s2(2) by (simp add: sorted_list_def)
    moreover have "is_list h3 r B" using s3(2) by (simp add: sorted_list_def)
    ultimately obtain h4 m where M: "Merge_lists h3 l r = Some (h4, m, tail_place None (amerge (node_val h3) A B))"
      "is_list h4 m (amerge (node_val h3) A B)" "relinked (set A \<union> set B) h3 h4" using Merge_lists_ok AB by blast
    have nv: "node_val h4 = node_val h3" "node_val h3 = node_val h2"
      using relinked_node_val M(3) s3(4) by blast+
    have "sorted (vals h4 (amerge (node_val h3) A B))"
      using s2(2) s3(2) nv by (auto simp: sorted_list_def vals_node_val intro: sorted_amerge)
    moreover have "sort_top_down h p = Some (h4, m)"
      using p(2) \<open>load_next h p = _\<close> \<open>walk h p 1 \<noteq> None\<close> \<open>find_mid h p _ = _\<close> c(1,2) s2(1) s3(1) M(1)
      by (subst sort_top_down.simps) (simp del: bind_eq_Some not_None_eq)
    moreover have "mset (amerge (node_val h3) A B) = mset as" using s2(3) s3(3) by (simp add: as)
    moreover have "relinked (set as) h h4"
      by (rule relinked_trans [OF relinked_mono [OF c(5)] relinked_trans [OF relinked_mono [OF s2(4)]
            relinked_trans [OF relinked_mono [OF s3(4)] relinked_mono [OF M(3)]]]])
        (auto simp: as sets)
    ultimately show ?thesis using M(2) by (auto simp: sorted_list_def)
  qed
qed

subsection \<open>Merge_lists sort, bottom up\<close>

text \<open>\<open>while (--n && node) node = node->next;\<close>\<close>

partial_function (option) split_loop :: "store \<Rightarrow> ptr \<Rightarrow> int \<Rightarrow> ptr option" where
  "split_loop h node n =
     (let n = n - 1 in
      if n \<noteq> 0 \<and> node \<noteq> None then do { q \<leftarrow> load_next h node; split_loop h q n } else Some node)"

definition split_list_at :: "store \<Rightarrow> ptr \<Rightarrow> int \<Rightarrow> (store \<times> ptr) option" where
  "split_list_at h node n = do {
     node \<leftarrow> split_loop h node n;
     rest \<leftarrow> (if node \<noteq> None then load_next h node else Some None);
     h \<leftarrow> (if node \<noteq> None then set_next h node None else Some h);
     Some (h, rest) }"

partial_function (option) len_loop :: "store \<Rightarrow> ptr \<Rightarrow> int \<Rightarrow> int option" where
  "len_loop h node len = do { q \<leftarrow> load_next h node; if q \<noteq> None then len_loop h q (len + 1) else Some len }"

partial_function (option) bottom_up_pass :: "store \<Rightarrow> ptr \<Rightarrow> addr option \<Rightarrow> ptr \<Rightarrow> int \<Rightarrow> (store \<times> ptr) option" where
  "bottom_up_pass h d tail node n =
     (if node = None then Some (h, d)
      else do {
        (h, r) \<leftarrow> split_list_at h node n;
        (h, rest) \<leftarrow> split_list_at h r n;
        (h, m, t) \<leftarrow> Merge_lists h node r;
        (h, d) \<leftarrow> place_set h d tail m;
        bottom_up_pass h d t rest n })"

partial_function (option) bottom_up_loop :: "store \<Rightarrow> ptr \<Rightarrow> int \<Rightarrow> int \<Rightarrow> (store \<times> ptr) option" where
  "bottom_up_loop h d n len =
     (if n < len then do { (h, d) \<leftarrow> bottom_up_pass h d None d n; bottom_up_loop h d (n * 2) len } else Some (h, d))"

definition MergeSortBottomUp :: "store \<Rightarrow> ptr \<Rightarrow> (store \<times> ptr) option" where
  "MergeSortBottomUp h head = (
     if head = None then Some (h, head)
     else do {
       q \<leftarrow> load_next h head;
       if q = None then Some (h, head)
       else do { len \<leftarrow> len_loop h head 1; bottom_up_loop h head 1 len } })"

text \<open>What a pass does to the addresses.\<close>

function pass :: "(addr \<Rightarrow> int) \<Rightarrow> nat \<Rightarrow> addr list \<Rightarrow> addr list" where
  "pass v n as = (if as = [] \<or> n = 0 then []
     else amerge v (take n as) (take n (drop n as)) @ pass v n (drop (2 * n) as))"
  by pat_completeness auto
termination by (relation "measure (\<lambda>(v, n, as). length as)") auto

declare pass.simps [simp del]

definition chunks :: "(addr \<Rightarrow> int) \<Rightarrow> nat \<Rightarrow> addr list \<Rightarrow> bool" where
  "chunks v n as \<longleftrightarrow> (\<forall>k. sorted (map v (take n (drop (k * n) as))))"

lemma take_take_drop: "take n as @ take n (drop n as) @ drop (2 * n) as = as"
  by (metis append_take_drop_id drop_drop mult_2)

lemma mset_pass: "0 < n \<Longrightarrow> mset (pass v n as) = mset as"
proof (induction v n as rule: pass.induct)
  case (1 v n as)
  show ?case
  proof (cases "as = []")
    case False
    have "mset as = mset (take n as) + (mset (take n (drop n as)) + mset (drop (2 * n) as))"
      by (metis take_take_drop mset_append)
    then show ?thesis using 1 False by (subst pass.simps) simp
  qed (subst pass.simps, simp)
qed

lemma chunks_drop: "chunks v n as \<Longrightarrow> chunks v n (drop (m * n) as)"
  unfolding chunks_def by (metis drop_drop add_mult_distrib)

lemma chunks_pass: "0 < n \<Longrightarrow> chunks v n as \<Longrightarrow> chunks v (2 * n) (pass v n as)"
proof (induction v n as rule: pass.induct)
  case (1 v n as)
  show ?case
  proof (cases "as = []")
    case True
    then show ?thesis by (subst pass.simps) (simp add: chunks_def)
  next
    case False
    let ?M = "amerge v (take n as) (take n (drop n as))"
    let ?R = "pass v n (drop (2 * n) as)"
    have R: "chunks v (2 * n) ?R" using 1 False chunks_drop [OF 1(3), of 2] by simp
    have "sorted (map v (take n as))" "sorted (map v (take n (drop n as)))"
      using 1(3) unfolding chunks_def by (metis drop0 mult_0, metis mult_1)
    then have M: "sorted (map v ?M)" by (rule sorted_amerge)
    have "length ?M = length (take n as) + length (take n (drop n as))" by (metis mset_amerge size_mset size_union)
    then have lM: "length ?M = min (2 * n) (length as)" by auto
    have eq: "pass v n as = ?M @ ?R" using False 1(2) by (subst pass.simps) simp
    have "sorted (map v (take (2 * n) (drop (k * (2 * n)) (?M @ ?R))))" for k
    proof (cases "length as \<le> 2 * n")
      case True
      then have "?R = []" by (subst pass.simps) simp
      moreover have "sorted (map v (take a (drop b ?M)))" for a b
        using sorted_wrt_take [OF sorted_wrt_drop [OF M]] by (simp add: take_map drop_map)
      ultimately show ?thesis by simp
    next
      case False
      then have l: "length ?M = 2 * n" using lM by simp
      show ?thesis
      proof (cases k)
        case 0
        then show ?thesis using M l by simp
      next
        case (Suc j)
        then have "drop (k * (2 * n)) (?M @ ?R) = drop (j * (2 * n)) ?R" using l by simp
        then show ?thesis using R by (simp add: chunks_def)
      qed
    qed
    then show ?thesis by (simp add: eq chunks_def)
  qed
qed

lemma split_loop_ok:
  "is_list h p as \<Longrightarrow> 0 < n \<Longrightarrow>
   split_loop h p (int n) = Some (if n \<le> length as then Some (as ! (n - 1)) else None)"
proof (induction n arbitrary: p as)
  case (Suc n)
  show ?case
  proof (cases as)
    case Nil
    then show ?thesis using Suc(2) by (subst split_loop.simps) simp
  next
    case (Cons a bs)
    then obtain m where m: "p = Some a" "h a = Some m" "is_list h (nxt m) bs" using Suc(2) by auto
    show ?thesis
    proof (cases "n = 0")
      case True
      then show ?thesis using m Cons by (subst split_loop.simps) simp
    next
      case False
      then show ?thesis using Suc(1) [OF m(3)] m Cons by (subst split_loop.simps) (simp add: nth_Cons')
    qed
  qed
qed simp

lemma split_list_at_ok:
  assumes "is_list h p as" and "0 < n"
  shows "\<exists>h' q. split_list_at h p (int n) = Some (h', q) \<and> is_list h' p (take n as) \<and> is_list h' q (drop n as) \<and>
     relinked (set (take n as)) h h'"
proof (cases "n \<le> length as")
  case True
  define xs where "xs = take (n - 1) as"
  define a where "a = as ! (n - 1)"
  have as: "as = xs @ a # drop n as" "take n as = xs @ [a]"
    using id_take_nth_drop [of "n - 1" as] take_Suc_conv_app_nth [of "n - 1" as] True assms(2) by (auto simp: xs_def a_def)
  have "is_list h p (xs @ a # drop n as)" using assms(1) as(1) by simp
  then obtain q h' where c: "load_next h (Some a) = Some q" "set_next h (Some a) None = Some h'" "is_list h' p (xs @ [a])"
    "is_list h' q (drop n as)" "relinked {a} h h'" using cut_ok by blast
  moreover have "split_loop h p (int n) = Some (Some a)" using split_loop_ok [OF assms] True by (simp add: a_def)
  moreover have "relinked (set (take n as)) h h'" using as(2) by (intro relinked_mono [OF c(5)]) simp
  ultimately show ?thesis unfolding as(2) by (auto simp: split_list_at_def simp del: bind_eq_Some)
next
  case False
  then show ?thesis using split_loop_ok [OF assms] assms(1) by (simp add: split_list_at_def)
qed

lemma len_loop_ok: "is_list h (Some a) (a # as) \<Longrightarrow> len_loop h (Some a) n = Some (n + int (length as))"
proof (induction as arbitrary: a n)
  case Nil
  then show ?case by (subst len_loop.simps) auto
next
  case (Cons b as)
  then obtain m where m: "h a = Some m" "nxt m = Some b" "is_list h (Some b) (b # as)" by auto
  then show ?case using Cons(1) [OF m(3)] by (subst len_loop.simps) (simp del: lseg.simps)
qed

lemma is_list_join:
  assumes "is_list h m M" and "M \<noteq> []" and "place_list h' d' (Some (last M)) R" and "relinked A h h'"
    and "A \<inter> set (butlast M) = {}"
  shows "is_list h' m (M @ R)"
proof -
  have M: "M = butlast M @ [last M]" using assms(2) by simp
  then have "lseg h m (butlast M) (Some (last M))" using assms(1) by (metis lseg_append lseg.simps(2))
  then have 1: "lseg h' m (butlast M) (Some (last M))" using relinked_lseg [OF assms(4,5)] by simp
  obtain q where q: "load_next h' (Some (last M)) = Some q" "is_list h' q R" using assms(3) by (auto simp: place_list_def)
  then have "is_list h' (Some (last M)) (last M # R)" by (auto simp: load_next_def load_def)
  with 1 have "is_list h' m (butlast M @ last M # R)" by (auto simp: lseg_append)
  then show ?thesis using M by (metis append.assoc append_Cons append_Nil)
qed

lemma bottom_up_pass_ok:
  assumes "is_list h node as" and "0 < n" and "node_val h = v"
    and "place_addr p \<subseteq> dom h" and "place_addr p \<inter> set as = {}"
    and "as = [] \<Longrightarrow> place_list h d p []"
  shows "\<exists>h' d'. bottom_up_pass h d p node (int n) = Some (h', d') \<and> place_list h' d' p (pass v n as) \<and>
     relinked (place_addr p \<union> set as) h h' \<and> (p \<noteq> None \<longrightarrow> d' = d)"
  using assms
proof (induction "length as" arbitrary: h d p node as rule: less_induct)
  case less
  show ?case
  proof (cases "as = []")
    case True
    then have "bottom_up_pass h d p node (int n) = Some (h, d)" using less(2) by (subst bottom_up_pass.simps) simp
    then show ?thesis using less(7) True by (auto simp: pass.simps)
  next
    case False
    define L where "L = take n as"
    define K where "K = drop n as"
    define R where "R = take n K"
    define Z where "Z = drop (2 * n) as"
    have as: "as = L @ R @ Z" "K = R @ Z" by (simp_all add: L_def R_def Z_def K_def take_take_drop) (metis append_take_drop_id drop_drop mult_2)
    have dis: "distinct (L @ R @ Z)" using is_list_distinct [OF less(2)] as by simp
    have Lne: "L \<noteq> []" using False less(3) by (simp add: L_def)
    have node: "node \<noteq> None" using less(2) False by (cases as) auto
    obtain h1 r where 1: "split_list_at h node (int n) = Some (h1, r)" "is_list h1 node L" "is_list h1 r K" "relinked (set L) h h1"
      using split_list_at_ok [OF less(2,3)] unfolding L_def K_def by blast
    obtain h2 z where 2: "split_list_at h1 r (int n) = Some (h2, z)" "is_list h2 r R" "is_list h2 z (drop n K)" "relinked (set R) h1 h2"
      using split_list_at_ok [OF 1(3) less(3)] unfolding R_def by blast
    have Z: "drop n K = Z" by (simp add: K_def Z_def mult_2)
    have "set R \<inter> set L = {}" using dis by auto
    then have l2: "is_list h2 node L" using relinked_lseg [OF 2(4)] 1(2) by simp
    define M where "M = amerge v L R"
    have nv: "node_val h2 = v" using relinked_node_val [OF 1(4)] relinked_node_val [OF 2(4)] less(4) by simp
    obtain h3 m where 3: "Merge_lists h2 node r = Some (h3, m, tail_place None M)" "is_list h3 m M" "relinked (set L \<union> set R) h2 h3"
      using Merge_lists_ok [OF l2 2(2)] dis nv unfolding M_def by auto
    have sM: "set M = set L \<union> set R" by (simp add: M_def)
    have Mne: "M \<noteq> []" using sM Lne by auto
    have dM: "distinct M" using is_list_distinct [OF 3(2)] .
    have "(set L \<union> set R) \<inter> set Z = {}" using dis by auto
    then have z3: "is_list h3 z Z" using relinked_lseg [OF 3(3)] 2(3) Z by simp
    have "dom h3 = dom h" using relinked_dom 1(4) 2(4) 3(3) by metis
    then have "place_addr p \<subseteq> dom h3" using less(5) by simp
    from place_set_ok [OF this, of d m] obtain h4 d4 where 4: "place_set h3 d p m = Some (h4, d4)" "place_next h4 d4 p = Some m"
      "relinked (place_addr p) h3 h4" "p \<noteq> None \<longrightarrow> d4 = d" by blast
    have pd: "place_addr p \<inter> (set M \<union> set Z) = {}" using less(6) as sM by auto
    have l4: "is_list h4 m M" "is_list h4 z Z" using relinked_lseg [OF 4(3)] pd 3(2) z3 by (auto simp: Int_Un_distrib)
    define t where "t = last M"
    have tM: "t \<in> set M" using Mne by (simp add: t_def)
    have nv4: "node_val h4 = v" using relinked_node_val [OF 3(3)] relinked_node_val [OF 4(3)] nv by simp
    have "M = butlast M @ [t]" using Mne by (simp add: t_def)
    then have "is_list h4 m (butlast M @ [t])" using l4(1) by simp
    then obtain nt where nt: "h4 t = Some nt" "nxt nt = None" by (auto simp: lseg_append)
    have IH: "\<exists>h' d'. bottom_up_pass h4 d4 (Some t) z (int n) = Some (h', d') \<and> place_list h' d' (Some t) (pass v n Z) \<and>
      relinked (place_addr (Some t) \<union> set Z) h4 h' \<and> (Some t \<noteq> None \<longrightarrow> d' = d4)"
    proof (rule less(1) [OF _ l4(2) less(3) nv4])
      show "length Z < length as" using False less(3) by (simp add: Z_def)
      show "place_addr (Some t) \<subseteq> dom h4" using nt by (auto simp: place_addr_def)
      show "place_addr (Some t) \<inter> set Z = {}" using tM sM dis by (auto simp: place_addr_def)
      show "place_list h4 d4 (Some t) []" using nt by (simp add: place_list_def)
    qed
    then obtain h5 where 5: "bottom_up_pass h4 d4 (Some t) z (int n) = Some (h5, d4)" "place_list h5 d4 (Some t) (pass v n Z)"
      "relinked (insert t (set Z)) h4 h5" by (auto simp: place_addr_def)
    have bt: "t \<notin> set (butlast M)" using dM Mne unfolding t_def
      by (metis append_butlast_last_id distinct.simps(2) distinct1_rotate rotate1.simps(2) not_distinct_conv_prefix)
    have "set (butlast M) \<subseteq> set L \<union> set R" using sM by (metis in_set_butlastD subsetI)
    then have "insert t (set Z) \<inter> set (butlast M) = {}" using bt dis by auto
    from is_list_join [OF l4(1) Mne 5(2) [unfolded t_def] 5(3) this] have j: "is_list h5 m (M @ pass v n Z)" .
    have "place_next h5 d4 p = place_next h4 d4 p"
    proof (cases p)
      case (Some e)
      then have "e \<notin> insert t (set Z)" using pd tM by (auto simp: place_addr_def)
      then have "h5 e = h4 e" using relinked_outside [OF 5(3)] by blast
      then show ?thesis using Some by (simp add: load_next_def load_def)
    qed simp
    then have "place_list h5 d4 p (M @ pass v n Z)" using 4(2) j by (auto simp: place_list_def)
    moreover have "pass v n as = M @ pass v n Z" using False less(3) by (subst pass.simps) (simp add: M_def L_def R_def K_def Z_def)
    moreover have "bottom_up_pass h d p node (int n) = Some (h5, d4)"
      using node 1(1) 2(1) 3(1) 4(1) 5(1) Mne by (subst bottom_up_pass.simps) (simp add: tail_place_def t_def del: bind_eq_Some not_None_eq)
    moreover have "relinked (place_addr p \<union> set as) h h5"
      by (rule relinked_trans [OF relinked_mono [OF 1(4)] relinked_trans [OF relinked_mono [OF 2(4)] relinked_trans
            [OF relinked_mono [OF 3(3)] relinked_trans [OF relinked_mono [OF 4(3)] relinked_mono [OF 5(3)]]]]])
        (use tM sM in \<open>auto simp: as(1)\<close>)
    ultimately show ?thesis using 4(4) by auto
  qed
qed

lemma bottom_up_loop_ok:
  assumes "is_list h d as" and "0 < n" and "chunks (node_val h) n as" and "int (length as) = len"
  shows "\<exists>h' d' bs. bottom_up_loop h d (int n) len = Some (h', d') \<and> sorted_list h' d' bs \<and> mset bs = mset as \<and>
     relinked (set as) h h'"
  using assms
proof (induction "length as - n" arbitrary: h d as n rule: less_induct)
  case less
  show ?case
  proof (cases "n < length as")
    case True
    then have "as \<noteq> []" by auto
    then obtain h1 d1 where 1: "bottom_up_pass h d None d (int n) = Some (h1, d1)" "is_list h1 d1 (pass (node_val h) n as)"
      "relinked (set as) h h1"
      using bottom_up_pass_ok [OF less(2,3), of "node_val h" None d] True by (auto simp: place_addr_def place_list_def)
    have m: "mset (pass (node_val h) n as) = mset as" "length (pass (node_val h) n as) = length as"
      using mset_pass [OF less(3)] by (metis, metis size_mset)
    have c: "chunks (node_val h1) (2 * n) (pass (node_val h) n as)"
      using chunks_pass [OF less(3,4)] relinked_node_val [OF 1(3)] by simp
    have "length (pass (node_val h) n as) - 2 * n < length as - n" using True m(2) less(3) by simp
    from less(1) [OF this 1(2) _ c] obtain h' d' bs where
      "bottom_up_loop h1 d1 (int (2 * n)) len = Some (h', d')" "sorted_list h' d' bs" "mset bs = mset as"
      "relinked (set (pass (node_val h) n as)) h1 h'"
      using m less(3,5) by auto
    moreover from this have "relinked (set as) h h'"
      using relinked_trans [OF 1(3)] mset_eq_setD [OF m(1)] by simp
    moreover have "bottom_up_loop h d (int n) len = bottom_up_loop h1 d1 (int (2 * n)) len"
      using True less(5) 1(1) by (subst bottom_up_loop.simps) (simp add: mult.commute)
    ultimately show ?thesis by auto
  next
    case False
    have "sorted (map (node_val h) (take n (drop (0 * n) as)))" using less(4) unfolding chunks_def by blast
    then have "sorted (vals h as)" using False by (simp add: vals_node_val)
    moreover have "bottom_up_loop h d (int n) len = Some (h, d)" using False less(5) by (subst bottom_up_loop.simps) simp
    ultimately show ?thesis using less(2) by (auto simp: sorted_list_def)
  qed
qed

lemma MergeSortBottomUp_ok:
  assumes "is_list h p as"
  shows "\<exists>h' p' bs. MergeSortBottomUp h p = Some (h', p') \<and> sorted_list h' p' bs \<and> mset bs = mset as \<and> relinked (set as) h h'"
proof (cases "length as < 2")
  case True
  then consider "as = []" | a where "as = [a]" by (cases as; cases "tl as") auto
  then have "MergeSortBottomUp h p = Some (h, p) \<and> sorted (vals h as)"
    by cases (use assms in \<open>auto simp: MergeSortBottomUp_def\<close>)
  then show ?thesis using assms by (auto simp: sorted_list_def)
next
  case False
  then obtain a b bs where as: "as = a # b # bs" by (cases as; cases "tl as") auto
  then obtain n where n: "p = Some a" "h a = Some n" "nxt n = Some b" using assms by auto
  have "len_loop h (Some a) 1 = Some (int (length as))" using len_loop_ok [of h a "b # bs" 1] assms n(1) as by (simp del: lseg.simps)
  then have "MergeSortBottomUp h p = bottom_up_loop h p 1 (int (length as))" using n by (simp add: MergeSortBottomUp_def)
  moreover have "chunks (node_val h) 1 as" unfolding chunks_def
  proof
    show "sorted (map (node_val h) (take 1 (drop (k * 1) as)))" for k by (cases "drop (k * 1) as") auto
  qed
  ultimately show ?thesis using bottom_up_loop_ok [OF assms, of 1] by simp
qed

subsection \<open>Insertion sort\<close>

text \<open>\<open>while (prev->next && prev->next->value < cur->next->value) prev = prev->next;\<close>\<close>

partial_function (option) find_prev :: "store \<Rightarrow> ptr \<Rightarrow> addr option \<Rightarrow> ptr \<Rightarrow> addr option option" where
  "find_prev h d prev cur = do {
     q \<leftarrow> place_next h d prev;
     if q = None then Some prev
     else do {
       nq \<leftarrow> load h q;
       c \<leftarrow> load_next h cur;
       nc \<leftarrow> load h c;
       if val nq < val nc then find_prev h d q cur else Some prev } }"

partial_function (option) insertion_loop :: "store \<Rightarrow> ptr \<Rightarrow> ptr \<Rightarrow> (store \<times> ptr) option" where
  "insertion_loop h d cur =
     (if cur = None then Some (h, d)
      else do {
        q \<leftarrow> load_next h cur;
        less \<leftarrow> (if q = None then Some False else do { nq \<leftarrow> load h q; nc \<leftarrow> load h cur; Some (val nq < val nc) });
        if less
        then do {
          prev \<leftarrow> find_prev h d None cur;
          tmp \<leftarrow> place_next h d prev;
          c1 \<leftarrow> load_next h cur;
          (h, d) \<leftarrow> place_set h d prev c1;
          c2 \<leftarrow> load_next h cur;
          c3 \<leftarrow> load_next h c2;
          h \<leftarrow> set_next h cur c3;
          pn \<leftarrow> place_next h d prev;
          h \<leftarrow> set_next h pn tmp;
          insertion_loop h d cur }
        else insertion_loop h d q })"

definition InsertionSort :: "store \<Rightarrow> ptr \<Rightarrow> (store \<times> ptr) option" where
  "InsertionSort h head = insertion_loop h head head"

lemma find_prev_ok:
  assumes "load_next h cur = Some (Some r)" and "h r = Some n"
  shows "place_list h d p (X @ y # Z) \<Longrightarrow> (\<forall>x \<in> set X. node_val h x < val n) \<Longrightarrow> val n \<le> node_val h y \<Longrightarrow>
    find_prev h d p cur = Some (tail_place p X)"
proof (induction X arbitrary: p)
  case Nil
  then obtain m where "place_next h d p = Some (Some y)" "h y = Some m" by (auto simp: place_list_def)
  then show ?case using Nil(3) assms by (subst find_prev.simps) (auto simp: tail_place_def node_val_def)
next
  case (Cons x X)
  then obtain m where m: "place_next h d p = Some (Some x)" "h x = Some m" "place_list h d (Some x) (X @ y # Z)"
    by (auto simp: place_list_def)
  have "find_prev h d (Some x) cur = Some (tail_place (Some x) X)" using Cons(1) [OF m(3)] Cons(3,4) by simp
  then show ?case using m Cons(3) assms by (subst find_prev.simps) (auto simp: tail_place_def node_val_def)
qed

text \<open>The four assignments move the node \<open>r\<close> behind the last node of \<open>X\<close>.\<close>

lemma move_ok:
  assumes "is_list h d (X @ Y @ c # r # Z)"
  shows "\<exists>tmp h1 d1 c3 h2 h3. place_next h d (tail_place None X) = Some tmp \<and> load_next h (Some c) = Some (Some r) \<and>
     place_set h d (tail_place None X) (Some r) = Some (h1, d1) \<and> load_next h1 (Some c) = Some (Some r) \<and>
     load_next h1 (Some r) = Some c3 \<and> set_next h1 (Some c) c3 = Some h2 \<and>
     place_next h2 d1 (tail_place None X) = Some (Some r) \<and> set_next h2 (Some r) tmp = Some h3 \<and>
     is_list h3 d1 (X @ r # Y @ c # Z) \<and> relinked (set X \<union> {c, r}) h h3"
proof -
  have dis: "distinct (X @ Y @ c # r # Z)" using assms by (rule is_list_distinct)
  obtain tmp where t: "lseg h d X tmp" "lseg h tmp Y (Some c)" "is_list h (Some c) (c # r # Z)"
    using assms by (auto simp: lseg_append)
  obtain nc nr where n: "h c = Some nc" "nxt nc = Some r" "h r = Some nr" "is_list h (nxt nr) Z" using t(3) by auto
  have cr: "c \<noteq> r" using dis by auto
  show ?thesis
  proof (cases X rule: rev_cases)
    case Nil
    let ?h2 = "h(c \<mapsto> nc\<lparr>nxt := nxt nr\<rparr>)"
    let ?h3 = "?h2(r \<mapsto> nr\<lparr>nxt := tmp\<rparr>)"
    have d: "d = tmp" using t(1) Nil by simp
    have l: "lseg ?h3 tmp Y (Some c)" "is_list ?h3 (nxt nr) Z" using t(2) n(4) dis by (simp_all del: fun_upd_apply)
    have "is_list ?h3 (Some c) (c # Z)" using l(2) cr by simp
    then have "is_list ?h3 tmp (Y @ c # Z)" using l(1) by (auto simp: lseg_append)
    then have L: "is_list ?h3 (Some r) (r # Y @ c # Z)" by simp
    have "relinked {c, r} h ?h2" by (rule relinked_upd) (use n in auto)
    moreover have "relinked {c, r} ?h2 ?h3" by (rule relinked_upd) (use n cr in auto)
    ultimately have "relinked {c, r} h ?h3" by (rule relinked_trans)
    then show ?thesis using Nil d n cr L by (simp add: tail_place_def del: lseg.simps)
  next
    case (snoc X' a)
    obtain na where a: "lseg h d X' (Some a)" "h a = Some na" "nxt na = tmp" using t(1) snoc by (auto simp: lseg_append)
    have ne: "a \<noteq> c" "a \<noteq> r" using dis snoc by auto
    let ?h1 = "h(a \<mapsto> na\<lparr>nxt := Some r\<rparr>)"
    let ?h2 = "?h1(c \<mapsto> nc\<lparr>nxt := nxt nr\<rparr>)"
    let ?h3 = "?h2(r \<mapsto> nr\<lparr>nxt := tmp\<rparr>)"
    have l: "lseg ?h3 d X' (Some a)" "lseg ?h3 tmp Y (Some c)" "is_list ?h3 (nxt nr) Z"
      using a(1) t(2) n(4) dis snoc by (simp_all del: fun_upd_apply)
    have "is_list ?h3 (Some c) (c # Z)" using l(3) cr by simp
    then have "is_list ?h3 tmp (Y @ c # Z)" using l(2) by (auto simp: lseg_append)
    then have "is_list ?h3 (Some r) (r # Y @ c # Z)" by simp
    then have "is_list ?h3 (Some a) (a # r # Y @ c # Z)" using ne by simp
    then have L: "is_list ?h3 d (X @ r # Y @ c # Z)" using l(1) snoc by (auto simp: lseg_append simp del: lseg.simps(2))
    have "relinked (set X \<union> {c, r}) h ?h1" by (rule relinked_upd) (use a snoc in auto)
    moreover have "relinked (set X \<union> {c, r}) ?h1 ?h2" by (rule relinked_upd) (use n ne in auto)
    moreover have "relinked (set X \<union> {c, r}) ?h2 ?h3" by (rule relinked_upd) (use n ne cr in auto)
    ultimately have "relinked (set X \<union> {c, r}) h ?h3" using relinked_trans by blast
    then show ?thesis using snoc a n ne cr L by (simp add: tail_place_def del: lseg.simps)
  qed
qed

lemma sorted_split_at:
  assumes "sorted (map v (P @ [c]))" and "x < (v c :: int)"
  shows "\<exists>X Y. P = X @ Y \<and> (\<forall>a \<in> set X. v a < x) \<and> (\<forall>a \<in> set (Y @ [c]). x \<le> v a)"
  using assms(1)
proof (induction P)
  case Nil
  then show ?case using assms(2) by auto
next
  case (Cons a P)
  show ?case
  proof (cases "v a < x")
    case True
    obtain X Y where "P = X @ Y" "\<forall>a \<in> set X. v a < x" "\<forall>a \<in> set (Y @ [c]). x \<le> v a" using Cons by auto
    then show ?thesis using True by (intro exI [of _ "a # X"] exI [of _ Y]) auto
  next
    case False
    then show ?thesis using Cons(2) by (intro exI [of _ "[]"] exI [of _ "a # P"]) auto
  qed
qed

lemma insertion_loop_ok:
  "is_list h d (P @ c # R) \<Longrightarrow> sorted (vals h (P @ [c])) \<Longrightarrow>
   \<exists>h' d' bs. insertion_loop h d (Some c) = Some (h', d') \<and> sorted_list h' d' bs \<and> mset bs = mset (P @ c # R) \<and>
     relinked (set (P @ c # R)) h h'"
proof (induction R arbitrary: h d P c)
  case Nil
  then obtain n where n: "h c = Some n" "nxt n = None" by (auto simp: lseg_append)
  have "insertion_loop h d None = Some (h, d)" by (subst insertion_loop.simps) simp
  then have "insertion_loop h d (Some c) = Some (h, d)" using n by (subst insertion_loop.simps) simp
  then show ?case using Nil by (auto simp: sorted_list_def)
next
  case (Cons r R)
  obtain nc nr where n: "h c = Some nc" "nxt nc = Some r" "h r = Some nr" using Cons(2) by (auto simp: lseg_append)
  show ?case
  proof (cases "val nr < val nc")
    case True
    have "sorted (map (node_val h) (P @ [c]))" using Cons(3) by (simp add: vals_node_val)
    from sorted_split_at [OF this, of "val nr"] obtain X Y where XY: "P = X @ Y" "\<forall>a \<in> set X. node_val h a < val nr"
      "\<forall>a \<in> set (Y @ [c]). val nr \<le> node_val h a"
      using True n(1) by (auto simp: node_val_def)
    obtain y Z where yZ: "Y @ c # r # R = y # Z" "val nr \<le> node_val h y" using XY(3) by (cases Y) auto
    have L: "is_list h d (X @ Y @ c # r # R)" using Cons(2) XY(1) by simp
    then have "place_list h d None (X @ y # Z)" using yZ(1) by (simp add: place_list_def)
    then have fp: "find_prev h d None (Some c) = Some (tail_place None X)"
      using find_prev_ok [of h "Some c" r nr] n XY(2) yZ(2) by simp
    from move_ok [OF L] obtain tmp h1 d1 c3 h2 h3 where M: "place_next h d (tail_place None X) = Some tmp"
     "place_set h d (tail_place None X) (Some r) = Some (h1, d1)" "load_next h1 (Some c) = Some (Some r)"
     "load_next h1 (Some r) = Some c3" "set_next h1 (Some c) c3 = Some h2"
     "place_next h2 d1 (tail_place None X) = Some (Some r)" "set_next h2 (Some r) tmp = Some h3"
     "is_list h3 d1 ((X @ r # Y) @ c # R)" "relinked (set X \<union> {c, r}) h h3" by auto
    have step: "insertion_loop h d (Some c) = insertion_loop h3 d1 (Some c)"
      using n True fp M by (subst insertion_loop.simps) (simp del: bind_eq_Some)
    have "sorted (vals h ((X @ r # Y) @ [c]))"
      using Cons(3) XY n(3) by (auto simp: vals_node_val sorted_append node_val_def less_imp_le)
    then have S: "sorted (vals h3 ((X @ r # Y) @ [c]))" by (simp only: relinked_vals [OF M(9)])
    obtain h' d' bs where "insertion_loop h3 d1 (Some c) = Some (h', d')" "sorted_list h' d' bs"
      "mset bs = mset ((X @ r # Y) @ c # R)" "relinked (set ((X @ r # Y) @ c # R)) h3 h'"
      using Cons(1) [OF M(8) S] by blast
    moreover from this have "relinked (set (P @ c # r # R)) h h'"
      by (intro relinked_trans [OF relinked_mono [OF M(9)] relinked_mono]) (auto simp: XY(1))
    ultimately show ?thesis using step XY(1) by auto
  next
    case False
    have "sorted (vals h ((P @ [c]) @ [r]))"
      using Cons(3) False n by (auto simp: vals_node_val sorted_append node_val_def intro: order_trans)
    from Cons(1) [of h d "P @ [c]" r, OF _ this] Cons(2)
    have "\<exists>h' d' bs. insertion_loop h d (Some r) = Some (h', d') \<and> sorted_list h' d' bs \<and>
        mset bs = mset (P @ c # r # R) \<and> relinked (set (P @ c # r # R)) h h'" by simp
    moreover have "insertion_loop h d (Some c) = insertion_loop h d (Some r)"
      using n False by (subst insertion_loop.simps) simp
    ultimately show ?thesis by simp
  qed
qed

lemma InsertionSort_ok:
  assumes "is_list h p as"
  shows "\<exists>h' p' bs. InsertionSort h p = Some (h', p') \<and> sorted_list h' p' bs \<and> mset bs = mset as \<and> relinked (set as) h h'"
proof (cases as)
  case Nil
  then have "InsertionSort h p = Some (h, p)" using assms by (simp add: InsertionSort_def) (subst insertion_loop.simps, simp)
  then show ?thesis using assms Nil by (auto simp: sorted_list_def)
next
  case (Cons a bs)
  then have "p = Some a" using assms by simp
  then show ?thesis using insertion_loop_ok [of h p "[]" a bs] assms Cons by (simp add: InsertionSort_def del: lseg.simps)
qed

subsection \<open>Properties\<close>

definition sample_store :: store where
  "sample_store = [1 \<mapsto> \<lparr>val = 7, nxt = Some 2\<rparr>, 2 \<mapsto> \<lparr>val = 3, nxt = Some 3\<rparr>, 3 \<mapsto> \<lparr>val = 5, nxt = None\<rparr>]"

lemma sample_store_list: "is_list sample_store (Some 1) [1, 2, 3]"
  by (simp add: sample_store_def)

text \<open>
  C18: HasCycle returns on every list, and says whether the list is cyclic: in a finite
  store in which every pointer that can be reached from the head is null or valid, the
  result is true exactly when following the pointers from the head never ends.
\<close>

theorem HasCycle_correct:
  assumes "closed_from h head" and "finite (dom h)"
  shows "HasCycle h head = Some (\<forall>i. walk h head i \<noteq> None)"
  using assms by (rule HasCycle_ok)

theorem HasCycle_correct_witness: "HasCycle sample_store (Some 1) = Some False"
proof -
  have "walk sample_store (Some 1) 3 = None" using is_list_walk [OF sample_store_list] by simp
  moreover have "finite (dom sample_store)" by (simp add: sample_store_def)
  ultimately show ?thesis using HasCycle_correct [OF is_list_closed [OF sample_store_list]] by auto
qed

text \<open>
  C12: The three sorts of a list sort it in place. On every list of the store each returns,
  dereferences no null or dangling pointer, and leaves a list of the same nodes in
  ascending order of their values; no value and no node outside the list is changed.
\<close>

theorem List_sorts_correct:
  assumes "is_list h head as"
  shows "\<forall>sort \<in> {InsertionSort, MergeSortTopDown, MergeSortBottomUp}. \<exists>h' head' bs.
    sort h head = Some (h', head') \<and> is_list h' head' bs \<and> mset bs = mset as \<and> sorted (vals h' bs) \<and> relinked (set as) h h'"
  using InsertionSort_ok [OF assms] sort_top_down_ok [OF assms] MergeSortBottomUp_ok [OF assms]
  by (simp add: sorted_list_def MergeSortTopDown_def) blast

theorem List_sorts_correct_witness:
  "\<exists>h' head' bs. MergeSortBottomUp sample_store (Some 1) = Some (h', head') \<and> is_list h' head' bs \<and> mset bs = {#1, 2, 3#} \<and>
     sorted (vals h' bs)"
  using bspec [OF List_sorts_correct [OF sample_store_list], of MergeSortBottomUp] by auto

text \<open>
  Reverse returns and reverses the list in place, leaving the nodes outside it alone.
\<close>

theorem Reverse_correct:
  assumes "is_list h head as"
  shows "\<exists>h' head'. Reverse h head = Some (h', head') \<and> is_list h' head' (rev as) \<and> relinked (set as) h h'"
  using reverse_loop_ok [OF assms, of None "[]"] by (simp add: Reverse_def)

theorem Reverse_correct_witness:
  "\<exists>h' head'. Reverse sample_store (Some 1) = Some (h', head') \<and> is_list h' head' [3, 2, 1]"
  using Reverse_correct [OF sample_store_list] by auto

end
