(* ===== verification/LeetLists.thy ===== *)
theory LeetLists
  imports LinkedList
begin

section \<open>List exercises (leetcode/list)\<close>

text \<open>
  The exercises on singly linked lists, over the store and the lemmas of LinkedList. Where
  an exercise repeats a loop of misc/struct/list.h statement by statement, its definition
  uses that loop.
\<close>

definition reverse :: "store \<Rightarrow> ptr \<Rightarrow> (store \<times> ptr) option" where
  "reverse h head = reverse_loop h None head"

definition insertionSort :: "store \<Rightarrow> ptr \<Rightarrow> (store \<times> ptr) option" where
  "insertionSort h head = (let d = head; cur = head in insertion_loop h d cur)"

definition mergeSortBottomUp :: "store \<Rightarrow> ptr \<Rightarrow> (store \<times> ptr) option" where
  "mergeSortBottomUp h head = (
     if head = None then Some (h, head)
     else do {
       q \<leftarrow> load_next h head;
       if q = None then Some (h, head)
       else do { len \<leftarrow> len_loop h head 1; bottom_up_loop h head 1 len } })"

definition mergeTwoList :: "store \<Rightarrow> ptr \<Rightarrow> ptr \<Rightarrow> (store \<times> ptr) option" where
  "mergeTwoList h l1 l2 = do {
     (h, d, tail, l1, l2) \<leftarrow> merge_loop h None None l1 l2;
     place_set h d tail (if l1 \<noteq> None then l1 else l2) }"

partial_function (option) swap_loop :: "store \<Rightarrow> ptr \<Rightarrow> addr option \<Rightarrow> (store \<times> ptr) option" where
  "swap_loop h d p = do {
     n1 \<leftarrow> place_next h d p;
     n2 \<leftarrow> (if n1 = None then Some None else load_next h n1);
     if n1 = None \<or> n2 = None then Some (h, d)
     else do {
       x \<leftarrow> load_next h n2;
       h \<leftarrow> set_next h n1 x;
       h \<leftarrow> set_next h n2 n1;
       (h, d) \<leftarrow> place_set h d p n2;
       swap_loop h d n1 } }"

definition swapPairs :: "store \<Rightarrow> ptr \<Rightarrow> (store \<times> ptr) option" where
  "swapPairs h head = (
     if head = None then Some (h, head)
     else do { q \<leftarrow> load_next h head; if q = None then Some (h, head) else swap_loop h head None })"

text \<open>\<open>removeNthFromEnd\<close>: \<open>pp\<close> is the address of \<open>head\<close> or of a node's \<open>next\<close>.\<close>

primrec advance :: "nat \<Rightarrow> store \<Rightarrow> ptr \<Rightarrow> ptr option" where
  "advance 0 h p = Some p"
| "advance (Suc i) h p = do { p \<leftarrow> load_next h p; advance i h p }"

partial_function (option) remove_loop :: "store \<Rightarrow> ptr \<Rightarrow> addr option \<Rightarrow> ptr \<Rightarrow> (addr option) option" where
  "remove_loop h head pp p = do {
     q \<leftarrow> load_next h p;
     if q \<noteq> None then do { r \<leftarrow> place_next h head pp; remove_loop h head r q } else Some pp }"

definition removeNthFromEnd :: "store \<Rightarrow> ptr \<Rightarrow> int \<Rightarrow> (store \<times> ptr) option" where
  "removeNthFromEnd h head n = do {
     p \<leftarrow> advance (nat (n - 1)) h head;
     pp \<leftarrow> remove_loop h head None p;
     x \<leftarrow> place_next h head pp;
     y \<leftarrow> load_next h x;
     place_set h head pp y }"

text \<open>The constructor of \<open>ListNode\<close> from a vector: the node itself holds the first number.\<close>

fun node_loop :: "int list \<Rightarrow> store \<Rightarrow> addr \<Rightarrow> ptr \<Rightarrow> store \<times> addr \<times> ptr" where
  "node_loop [] h fresh head = (h, fresh, head)"
| "node_loop (v # vs) h fresh head = node_loop vs (h(fresh \<mapsto> \<lparr>val = v, nxt = head\<rparr>)) (fresh + 1) (Some fresh)"

definition ListNode :: "int list \<Rightarrow> addr \<Rightarrow> store \<Rightarrow> addr \<Rightarrow> store \<times> addr" where
  "ListNode nums this h fresh = (
     let (h, fresh, head) = node_loop (rev (tl nums)) h fresh None in
     (h(this \<mapsto> \<lparr>val = (if length nums > 0 then nums ! 0 else 0), nxt = head\<rparr>), fresh))"

definition cycle_check :: "store \<Rightarrow> addr \<Rightarrow> bool option" where
  "cycle_check h this = do { p2 \<leftarrow> load_next h (Some this); has_cycle_loop h (Some this) p2 }"

definition list_print :: "store \<Rightarrow> addr \<Rightarrow> int list option" where
  "list_print h this = do { c \<leftarrow> cycle_check h this; if c then Some [] else print_loop h (Some this) }"

subsection \<open>What they compute\<close>

lemma reverse_ok: "reverse = Reverse"
  by (simp add: reverse_def Reverse_def fun_eq_iff)

lemma insertionSort_ok: "insertionSort = InsertionSort"
  by (simp add: insertionSort_def InsertionSort_def fun_eq_iff)

lemma mergeSortBottomUp_ok: "mergeSortBottomUp = MergeSortBottomUp"
  by (simp add: mergeSortBottomUp_def MergeSortBottomUp_def fun_eq_iff)

lemma cycle_check_ok: "cycle_check h this = HasCycle h (Some this)"
  by (simp add: cycle_check_def HasCycle_def)

lemma list_print_ok: "list_print h this = Print h (Some this)"
  by (simp add: list_print_def Print_def cycle_check_ok)

lemma node_loop_eq: "node_loop vs h fresh head = List_loop vs h fresh head"
  by (induction vs h fresh head rule: node_loop.induct) (auto simp del: fun_upd_apply)

lemma List_loop_keeps: "this < fresh \<Longrightarrow> List_loop vs h fresh head = (h', fresh', head') \<Longrightarrow> h' this = h this"
  by (induction vs h fresh head rule: List_loop.induct) auto

lemma List_loop_addrs:
  "is_list h head as \<Longrightarrow> fresh \<notin> set as \<Longrightarrow> this < fresh \<Longrightarrow> this \<notin> set as \<Longrightarrow> \<forall>a. fresh \<le> a \<longrightarrow> h a = None \<Longrightarrow>
   List_loop vs h fresh head = (h', fresh', head') \<Longrightarrow> \<exists>bs. is_list h' head' bs \<and> this \<notin> set bs \<and> vals h' bs = rev vs @ vals h as"
proof (induction vs h fresh head arbitrary: as rule: List_loop.induct)
  case (1 h fresh head)
  then show ?case by auto
next
  case (2 v vs h fresh head)
  let ?h = "h(fresh \<mapsto> \<lparr>val = v, nxt = head\<rparr>)"
  have l: "is_list ?h (Some fresh) (fresh # as)" using 2(2,3) by auto
  have f: "\<forall>a. fresh + 1 \<le> a \<longrightarrow> ?h a = None" using 2(6) by auto
  have n: "fresh + 1 \<notin> set (fresh # as)" using lseg_dom [OF 2(2)] 2(6) by force
  have vl: "vals ?h (fresh # as) = v # vals h as" using 2(3) by (auto simp: vals_def)
  have "\<exists>bs. is_list h' head' bs \<and> this \<notin> set bs \<and> vals h' bs = rev vs @ vals ?h (fresh # as)"
    by (rule 2(1) [OF l n _ _ f]) (use 2(4,5,7) in \<open>auto simp del: fun_upd_apply\<close>)
  then show ?case unfolding vl by simp
qed

lemma ListNode_ok:
  assumes "\<forall>a. fresh \<le> a \<longrightarrow> h a = None" and "this < fresh" and "nums \<noteq> []" and "ListNode nums this h fresh = (h', fresh')"
  shows "\<exists>as. is_list h' (Some this) as \<and> vals h' as = nums"
proof -
  obtain h1 f1 head where l: "List_loop (rev (tl nums)) h fresh None = (h1, f1, head)" by (metis prod_cases3)
  obtain as where as: "is_list h1 head as" "this \<notin> set as" "vals h1 as = tl nums"
    using List_loop_addrs [OF _ _ assms(2) _ assms(1) l, of "[]"] by auto
  let ?h = "h1(this \<mapsto> \<lparr>val = hd nums, nxt = head\<rparr>)"
  have "h' = ?h" using assms(3,4) l by (cases nums) (auto simp: ListNode_def node_loop_eq)
  moreover have "is_list ?h (Some this) (this # as)" "vals ?h (this # as) = nums"
    using as assms(3) by (cases nums; auto simp: vals_def)+
  ultimately show ?thesis by blast
qed

lemma mergeTwoList_ok:
  assumes "is_list h l1 A" and "is_list h l2 B" and "set A \<inter> set B = {}" and "sorted (vals h A)" and "sorted (vals h B)"
  shows "\<exists>h' head as. mergeTwoList h l1 l2 = Some (h', head) \<and> sorted_list h' head as \<and> mset as = mset A + mset B \<and>
     relinked (set A \<union> set B) h h'"
proof -
  obtain h1 d1 p1 r1 r2 h2 d2 where R: "merge_loop h None None l1 l2 = Some (h1, d1, p1, r1, r2)"
     "place_set h1 d1 p1 (if r1 \<noteq> None then r1 else r2) = Some (h2, d2)"
     "place_list h2 d2 None (amerge (node_val h) A B)" "relinked (place_addr None \<union> set A \<union> set B) h h2"
    using merge_loop_ok [OF assms(1-3), of None "node_val h" None] by (auto simp: place_addr_def)
  have "sorted (vals h2 (amerge (node_val h) A B))"
    using assms(4,5) relinked_node_val [OF R(4)] by (simp add: vals_node_val sorted_amerge)
  then show ?thesis using R by (auto simp: mergeTwoList_def place_list_def place_addr_def sorted_list_def simp del: bind_eq_Some)
qed

fun swap_pairs :: "'a list \<Rightarrow> 'a list" where
  "swap_pairs (a # b # xs) = b # a # swap_pairs xs"
| "swap_pairs [] = []"
| "swap_pairs [a] = [a]"

lemma set_swap_pairs [simp]: "set (swap_pairs xs) = set xs"
  by (induction xs rule: swap_pairs.induct) auto

lemma swap_loop_ok:
  "place_list h d p as \<Longrightarrow> place_addr p \<subseteq> dom h \<Longrightarrow> place_addr p \<inter> set as = {} \<Longrightarrow>
   \<exists>h' d'. swap_loop h d p = Some (h', d') \<and> place_list h' d' p (swap_pairs as) \<and> relinked (place_addr p \<union> set as) h h' \<and>
     (p \<noteq> None \<longrightarrow> d' = d)"
proof (induction as arbitrary: h d p rule: swap_pairs.induct)
  case (1 a b xs)
  obtain na nb where n: "place_next h d p = Some (Some a)" "h a = Some na" "nxt na = Some b" "h b = Some nb" "is_list h (nxt nb) xs"
    using 1(2) by (auto simp: place_list_def)
  have "is_list h (Some a) (a # b # xs)" using n by simp
  then have dis: "a \<noteq> b" "a \<notin> set xs" "b \<notin> set xs" using is_list_distinct by fastforce+
  let ?h1 = "h(a \<mapsto> na\<lparr>nxt := nxt nb\<rparr>)"
  let ?h2 = "?h1(b \<mapsto> nb\<lparr>nxt := Some a\<rparr>)"
  have r: "relinked {a, b} h ?h1" "relinked {a, b} ?h1 ?h2"
    by (rule relinked_upd; use n dis in auto)+
  then have r2: "relinked {a, b} h ?h2" by (rule relinked_trans)
  have "place_addr p \<subseteq> dom ?h2" using 1(3) by auto
  from place_set_ok [OF this, of d "Some b"] obtain h3 d3 where 3: "place_set ?h2 d p (Some b) = Some (h3, d3)"
    "place_next h3 d3 p = Some (Some b)" "relinked (place_addr p) ?h2 h3" "p \<noteq> None \<longrightarrow> d3 = d" by blast
  have pa: "a \<notin> place_addr p" "b \<notin> place_addr p" "place_addr p \<inter> set xs = {}" using 1(4) by auto
  have ha: "h3 a = ?h2 a" "h3 b = ?h2 b" using relinked_outside [OF 3(3)] pa by blast+
  have "is_list ?h2 (nxt nb) xs" using n(5) dis by (simp del: fun_upd_apply)
  then have l3: "is_list h3 (nxt nb) xs" using relinked_lseg [OF 3(3) pa(3)] by simp
  have "\<exists>h' d'. swap_loop h3 d3 (Some a) = Some (h', d') \<and> place_list h' d' (Some a) (swap_pairs xs) \<and>
      relinked (place_addr (Some a) \<union> set xs) h3 h' \<and> (Some a \<noteq> None \<longrightarrow> d' = d3)"
  proof (rule 1(1))
    show "place_list h3 d3 (Some a) xs" using ha(1) dis l3 by (simp add: place_list_def load_next_def load_def)
    show "place_addr (Some a) \<subseteq> dom h3" using ha(1) dis by (auto simp: place_addr_def)
  qed (use dis in \<open>auto simp: place_addr_def\<close>)
  then obtain h4 where 4: "swap_loop h3 d3 (Some a) = Some (h4, d3)" "place_list h4 d3 (Some a) (swap_pairs xs)"
    "relinked (insert a (set xs)) h3 h4" by (auto simp: place_addr_def)
  have "place_next h4 d3 p = Some (Some b)"
  proof (cases p)
    case (Some e)
    then have "h4 e = h3 e" using relinked_outside [OF 4(3)] pa by (auto simp: place_addr_def)
    then show ?thesis using 3(2) Some by (simp add: load_next_def load_def)
  qed (use 3(2) in simp)
  moreover have "h4 b = Some (nb\<lparr>nxt := Some a\<rparr>)" using relinked_outside [OF 4(3), of b] ha(2) dis by simp
  ultimately have "place_list h4 d3 p (b # a # swap_pairs xs)"
    using 4(2) by (auto simp: place_list_def load_next_def load_def)
  moreover have "relinked (place_addr p \<union> set (a # b # xs)) h h4"
    by (rule relinked_trans [OF relinked_mono [OF r2] relinked_trans [OF relinked_mono [OF 3(3)] relinked_mono [OF 4(3)]]]) auto
  moreover have "swap_loop h d p = Some (h4, d3)"
    using n dis 3(1) 4(1) by (subst swap_loop.simps) (simp del: bind_eq_Some)
  ultimately show ?case using 3(4) by auto
next
  case (2 h d p)
  then show ?case by (subst swap_loop.simps) (auto simp: place_list_def)
next
  case (3 a h d p)
  then obtain n where n: "place_next h d p = Some (Some a)" "h a = Some n" "nxt n = None" by (auto simp: place_list_def)
  have "swap_loop h d p = Some (h, d)" using n by (subst swap_loop.simps) (simp del: bind_eq_Some)
  then show ?case using 3(1) by simp
qed

lemma swapPairs_ok:
  assumes "is_list h head as"
  shows "\<exists>h' head'. swapPairs h head = Some (h', head') \<and> is_list h' head' (swap_pairs as) \<and> relinked (set as) h h'"
proof (cases as rule: swap_pairs.cases)
  case (1 a b xs)
  then obtain n where n: "head = Some a" "h a = Some n" "nxt n = Some b" using assms by auto
  have "place_list h head None as" using assms by (simp add: place_list_def)
  then obtain h' d' where "swap_loop h head None = Some (h', d')" "place_list h' d' None (swap_pairs as)" "relinked (set as) h h'"
    using swap_loop_ok [of h head None as] by (auto simp: place_addr_def)
  then show ?thesis using n by (simp add: swapPairs_def place_list_def)
qed (use assms in \<open>auto simp: swapPairs_def simp del: bind_eq_Some\<close>)

lemma advance_walk: "is_list h p as \<Longrightarrow> i \<le> length as \<Longrightarrow> advance i h p = Some (walk h p i)"
proof (induction i arbitrary: p as)
  case (Suc i)
  then obtain a bs where as: "as = a # bs" by (cases as) auto
  then obtain n where n: "p = Some a" "h a = Some n" "is_list h (nxt n) bs" using Suc(2) by auto
  have "walk h p (1 + i) = walk h (nxt n) i" unfolding walk_add using n by (simp add: walk_def follow_def)
  then show ?case using Suc(1) [OF n(3)] Suc(3) n as by simp
qed (simp add: walk_0)

lemma remove_loop_ok:
  "place_list h d pp (X @ Y) \<Longrightarrow> is_list h p B \<Longrightarrow> length B = Suc (length X) \<Longrightarrow>
    remove_loop h d pp p = Some (tail_place pp X)"
proof (induction X arbitrary: pp p B)
  case Nil
  then obtain b where "B = [b]" by (cases B) auto
  then show ?case using Nil by (subst remove_loop.simps) (auto simp: tail_place_def)
next
  case (Cons x X)
  then obtain b c B' where B: "B = b # c # B'" by (cases B; cases "tl B") auto
  then obtain nb where b: "p = Some b" "h b = Some nb" "nxt nb = Some c" "is_list h (Some c) (c # B')" using Cons(3) by auto
  have x: "place_next h d pp = Some (Some x)" "place_list h d (Some x) (X @ Y)" using Cons(2) by (auto simp: place_list_def)
  have "remove_loop h d (Some x) (Some c) = Some (tail_place (Some x) X)" using Cons(1) [OF x(2) b(4)] Cons(4) B by simp
  then show ?case using b x by (subst remove_loop.simps) (simp add: tail_place_def)
qed

lemma removeNthFromEnd_ok:
  assumes "is_list h head (X @ x # Y)" and "n = int (Suc (length Y))"
  shows "\<exists>h' head'. removeNthFromEnd h head n = Some (h', head') \<and> is_list h' head' (X @ Y)"
proof -
  let ?as = "X @ x # Y"
  have dis: "distinct ?as" using assms(1) by (rule is_list_distinct)
  have adv: "advance (nat (n - 1)) h head = Some (walk h head (length Y))" using advance_walk [OF assms(1), of "length Y"] assms(2) by simp
  have "\<exists>q. lseg h head (take (length Y) ?as) q \<and> is_list h q (drop (length Y) ?as)"
    using assms(1) by (metis append_take_drop_id lseg_append)
  then obtain q where q: "is_list h q (drop (length Y) ?as)" "lseg h head (take (length Y) ?as) q" by blast
  have "q = Some (?as ! length Y)" using q(1) by (simp add: Cons_nth_drop_Suc [symmetric] del: drop_append)
  then have wq: "walk h head (length Y) = q" using is_list_walk [OF assms(1)] by simp
  have "place_list h head None (X @ x # Y)" using assms(1) by (simp add: place_list_def)
  from remove_loop_ok [OF this q(1)] have rl: "remove_loop h head None q = Some (tail_place None X)" by simp
  obtain r nx where r: "lseg h head X (Some x)" "h x = Some nx" "is_list h (nxt nx) Y" using assms(1) by (auto simp: lseg_append)
  show ?thesis
  proof (cases X rule: rev_cases)
    case Nil
    then show ?thesis using adv wq rl r by (simp add: removeNthFromEnd_def tail_place_def)
  next
    case (snoc X' a)
    then obtain na where a: "lseg h head X' (Some a)" "h a = Some na" "nxt na = Some x" using r(1) by (auto simp: lseg_append)
    let ?h = "h(a \<mapsto> na\<lparr>nxt := nxt nx\<rparr>)"
    have "lseg ?h head X' (Some a)" "is_list ?h (nxt nx) Y" using a(1) r(3) dis snoc by (simp_all del: fun_upd_apply)
    then have "is_list ?h head (X' @ a # Y)" by (auto simp: lseg_append)
    then show ?thesis using adv wq rl r a snoc by (simp add: removeNthFromEnd_def tail_place_def)
  qed
qed

end
