(* ===== verification/Fenwick.thy ===== *)
theory Fenwick
  imports Prelude
begin

section \<open>Fenwick trees (misc/struct/fenwick_tree.h, struct/fenwickTree.cc, leetcode/other/CreateSortedArrayInstructions.cc)\<close>

text \<open>
  A vector \<open>sums_\<close> whose entry at \<open>i\<close> holds the sum of the values at the positions
  \<open>i - lowbit i + 1 .. i\<close>. The loops walk along \<open>i + lowbit i\<close> and \<open>i - lowbit i\<close>;
  at position 0 the first one stands still, so an update there does not return.

  \<open>lowbit\<close> takes an \<open>int\<close>. The \<open>size_t\<close> positions of the header are converted for it only
  while they are inside the vector; the model takes vectors of at most 2^31 entries, where the
  conversion keeps the value.
\<close>

unbundle bit_operations_syntax

subsection \<open>The tree\<close>

definition lowbit :: "int \<Rightarrow> int" where
  "lowbit x = x AND (- x)"

definition FenwickTree :: "nat \<Rightarrow> int list" where
  "FenwickTree n = replicate (n + 1) 0"

partial_function (option) Update :: "int list \<Rightarrow> nat \<Rightarrow> int \<Rightarrow> int list option" where
  "Update sums i delta =
     (if i < length sums
      then do {
        x \<leftarrow> vget sums i;
        sums \<leftarrow> vset sums i (x + delta);
        Update sums (i + nat (lowbit (int i))) delta }
      else Some sums)"

partial_function (option) Query_loop :: "int list \<Rightarrow> nat \<Rightarrow> int \<Rightarrow> int option" where
  "Query_loop sums i acc =
     (if 0 < i then do { x \<leftarrow> vget sums i; Query_loop sums (i - nat (lowbit (int i))) (acc + x) } else Some acc)"

definition Query :: "int list \<Rightarrow> nat \<Rightarrow> int option" where
  "Query sums i = Query_loop sums i 0"

text \<open>
  The other two classes index with an \<open>int\<close>, which the comparison with \<open>sums_.size()\<close>
  converts to an unsigned type: a negative index ends the update at once.
\<close>

partial_function (option) update :: "int list \<Rightarrow> int \<Rightarrow> int \<Rightarrow> int list option" where
  "update sums i delta =
     (if 0 \<le> i \<and> i < int (length sums)
      then do {
        x \<leftarrow> vget sums (nat i);
        sums \<leftarrow> vset sums (nat i) (x + delta);
        update sums (i + lowbit i) delta }
      else Some sums)"

partial_function (option) query_loop :: "int list \<Rightarrow> int \<Rightarrow> int \<Rightarrow> int option" where
  "query_loop sums i acc =
     (if i > 0 then do { x \<leftarrow> vget sums (nat i); query_loop sums (i - lowbit i) (acc + x) } else Some acc)"

definition query :: "int list \<Rightarrow> int \<Rightarrow> int option" where
  "query sums i = query_loop sums i 0"

text \<open>\<open>createSortedArray\<close>, whose result is reduced modulo \<open>(int)(1e9 + 7)\<close>.\<close>

fun sorted_array_loop :: "int list \<Rightarrow> int \<Rightarrow> int list \<Rightarrow> int \<Rightarrow> int option" where
  "sorted_array_loop tree i [] res = Some res"
| "sorted_array_loop tree i (v # vs) res = do {
     lt \<leftarrow> query tree (v - 1);
     q \<leftarrow> query tree v;
     let gt = i - q;
     tree \<leftarrow> update tree v 1;
     sorted_array_loop tree (i + 1) vs (res + min lt gt) }"

definition createSortedArray :: "int list \<Rightarrow> int option" where
  "createSortedArray instructions = do {
     res \<leftarrow> sorted_array_loop (FenwickTree 100000) 0 instructions 0;
     crem res 1000000007 }"

subsection \<open>The lowest bit\<close>

lemma lowbit_double: "lowbit (2 * x) = 2 * lowbit x"
proof -
  have "(2 * x) div 2 = x" "(- (2 * x)) div 2 = - x" by simp_all
  then show ?thesis unfolding lowbit_def by (subst and_int_rec) (simp only:, simp)
qed

lemma lowbit_odd: "odd x \<Longrightarrow> lowbit x = 1"
proof -
  assume x: "odd x"
  then have "(- x) div 2 = NOT (x div 2)" by (simp add: not_int_def) presburger
  then show "lowbit x = 1" using x unfolding lowbit_def by (subst and_int_rec) simp
qed

lemma lowbit_power: "lowbit (2 ^ k * (2 * q + 1)) = 2 ^ k"
proof (induction k)
  case 0
  show ?case using lowbit_odd [of "2 * q + 1"] by simp
next
  case (Suc k)
  have "(2 :: int) ^ Suc k * (2 * q + 1) = 2 * (2 ^ k * (2 * q + 1))" by simp
  then show ?case using Suc by (simp only: lowbit_double) simp
qed

lemma odd_part: "0 < n \<Longrightarrow> \<exists>k q. n = 2 ^ k * (2 * q + 1)" for n :: nat
proof (induction n rule: less_induct)
  case (less n)
  show ?case
  proof (cases "even n")
    case True
    then obtain m where m: "n = 2 * m" by blast
    then have "0 < m" "m < n" using less(2) by auto
    then obtain k q where "m = 2 ^ k * (2 * q + 1)" using less(1) by blast
    then have "n = 2 ^ Suc k * (2 * q + 1)" using m by simp
    then show ?thesis by blast
  next
    case False
    then obtain q where "n = 2 * q + 1" by (rule oddE)
    then show ?thesis by (intro exI [of _ 0] exI [of _ q]) simp
  qed
qed

definition lb :: "nat \<Rightarrow> nat" where
  "lb i = nat (lowbit (int i))"

lemma int_power_odd: "int (2 ^ k * (2 * q + 1)) = 2 ^ k * (2 * int q + 1)"
  by (simp only: of_nat_mult of_nat_power of_nat_add of_nat_numeral of_nat_1)

lemma lb_power: "lb (2 ^ k * (2 * q + 1)) = 2 ^ k"
  unfolding lb_def int_power_odd lowbit_power by (simp add: nat_power_eq)

lemma lb_cases:
  assumes "0 < i"
  obtains k q where "i = 2 ^ k * (2 * q + 1)" and "lb i = 2 ^ k"
  using odd_part [OF assms] lb_power by blast

lemma lowbit_int: "0 < i \<Longrightarrow> lowbit (int i) = int (lb i)"
proof -
  assume "0 < i"
  then obtain k q where "i = 2 ^ k * (2 * q + 1)" "lb i = 2 ^ k" by (rule lb_cases)
  then show ?thesis by (simp only: int_power_odd lowbit_power of_nat_power of_nat_numeral)
qed

lemma lb_pos: "0 < i \<Longrightarrow> 0 < lb i"
  by (metis lb_cases zero_less_numeral zero_less_power)

lemma lb_le: "0 < i \<Longrightarrow> lb i \<le> i"
  by (elim lb_cases) simp

text \<open>The entry at \<open>j\<close> covers the position \<open>i\<close>.\<close>

definition covers :: "nat \<Rightarrow> nat \<Rightarrow> bool" where
  "covers j i \<longleftrightarrow> j - lb j < i \<and> i \<le> j"

lemma multiple_between: "m dvd a \<Longrightarrow> m dvd b \<Longrightarrow> a < b \<Longrightarrow> a + m \<le> b" for a b m :: nat
proof -
  assume "m dvd a" "m dvd b" "a < b"
  then have "m dvd b - a" "0 < b - a" by (auto intro: dvd_diff_nat)
  then have "m \<le> b - a" by (rule dvd_imp_le)
  then show ?thesis using \<open>a < b\<close> by simp
qed

text \<open>The walk of \<open>Update\<close> visits exactly the entries that cover its start.\<close>

lemma covers_next:
  assumes i: "0 < i" and j: "0 < j" and ne: "j \<noteq> i"
  shows "covers j i \<longleftrightarrow> covers j (i + lb i)"
proof -
  obtain k p where k: "i = 2 ^ k * (2 * p + 1)" "lb i = 2 ^ k" by (rule lb_cases [OF i])
  obtain m q where m: "j = 2 ^ m * (2 * q + 1)" "lb j = 2 ^ m" by (rule lb_cases [OF j])
  define r where "r = j - 2 ^ m"
  have r: "r = 2 ^ Suc m * q" "j = r + 2 ^ m" by (simp_all add: r_def m(1) algebra_simps)
  have "2 ^ Suc m dvd r" using r(1) by simp
  have ndi: "\<not> 2 ^ Suc k dvd i"
  proof
    assume "2 ^ Suc k dvd i"
    then have "2 ^ k * 2 dvd 2 ^ k * (2 * p + 1)" unfolding k(1) by (simp only: power_Suc2)
    then have "2 dvd 2 * p + 1" by (subst (asm) dvd_times_left_cancel_iff) simp_all
    then show False by simp
  qed
  show ?thesis
  proof
    assume c: "covers j i"
    then have l: "r < i" "i < j" using ne by (auto simp: covers_def m(2) r_def)
    have "k < m"
    proof (rule ccontr)
      assume "\<not> k < m"
      then have "2 ^ m dvd i" unfolding k(1) by (intro dvd_mult2 le_imp_power_dvd) simp
      moreover have "2 ^ m dvd r" using r(1) by simp
      ultimately have "r + 2 ^ m \<le> i" using multiple_between l(1) by blast
      then show False using l(2) r(2) by simp
    qed
    then have "2 ^ k dvd j" unfolding m(1) by (intro dvd_mult2 le_imp_power_dvd) simp
    moreover have "2 ^ k dvd i" unfolding k(1) by simp
    ultimately have "i + 2 ^ k \<le> j" using multiple_between l(2) by blast
    then show "covers j (i + lb i)" using l(1) by (simp add: covers_def m(2) k(2) r_def)
  next
    assume c: "covers j (i + lb i)"
    then have l: "r < i + 2 ^ k" "i + 2 ^ k \<le> j" by (simp_all add: covers_def m(2) k(2) r_def)
    have "r < i"
    proof (rule ccontr)
      assume "\<not> r < i"
      then have ir: "i \<le> r" by simp
      show False
      proof (cases "k \<le> m")
        case True
        then have d: "2 ^ Suc k dvd r" unfolding r(1) by (intro dvd_mult2 le_imp_power_dvd) simp
        then have "2 ^ k dvd r" by (metis dvd_trans le_imp_power_dvd lessI less_imp_le)
        moreover have "2 ^ k dvd i" unfolding k(1) by simp
        ultimately have "i = r" using multiple_between [of "2 ^ k" i r] ir l(1) by fastforce
        then show False using d ndi by simp
      next
        case False
        then have "(2 :: nat) ^ Suc m dvd 2 ^ k" by (intro le_imp_power_dvd) simp
        then have "2 ^ Suc m dvd i + 2 ^ k" unfolding k(1) by (intro dvd_add dvd_mult2) simp_all
        moreover have "2 ^ Suc m dvd r" using r(1) by simp
        ultimately have "r + 2 ^ Suc m \<le> i + 2 ^ k" using multiple_between l(1) by blast
        moreover have "(0 :: nat) < 2 ^ m" by simp
        ultimately show False using l(2) r(2) by simp
      qed
    qed
    then show "covers j i" using l(2) by (simp add: covers_def m(2) r_def)
  qed
qed

subsection \<open>What the tree stands for\<close>

text \<open>\<open>a\<close> gives the value at each position from 1.\<close>

definition fenwick :: "int list \<Rightarrow> (nat \<Rightarrow> int) \<Rightarrow> bool" where
  "fenwick sums a \<longleftrightarrow> (\<forall>j. 0 < j \<longrightarrow> j < length sums \<longrightarrow> sums ! j = (\<Sum>k \<in> {j - lb j<..j}. a k))"

lemma FenwickTree_ok: "fenwick (FenwickTree n) (\<lambda>_. 0)"
  by (simp add: fenwick_def FenwickTree_def)

lemma Update_entries:
  "0 < i \<Longrightarrow> \<exists>sums'. Update sums i delta = Some sums' \<and> length sums' = length sums \<and>
     (\<forall>j. 0 < j \<longrightarrow> j < length sums \<longrightarrow> sums' ! j = sums ! j + (if covers j i then delta else 0))"
proof (induction "length sums - i" arbitrary: i sums rule: less_induct)
  case less
  show ?case
  proof (cases "i < length sums")
    case True
    let ?s = "sums[i := sums ! i + delta]"
    have p: "0 < lb i" using lb_pos [OF less(2)] .
    then have "length ?s - (i + lb i) < length sums - i" using True by simp
    from less(1) [OF this] less(2) obtain sums' where s: "Update ?s (i + lb i) delta = Some sums'" "length sums' = length sums"
      "\<And>j. 0 < j \<Longrightarrow> j < length sums \<Longrightarrow> sums' ! j = ?s ! j + (if covers j (i + lb i) then delta else 0)"
      by auto
    have "sums' ! j = sums ! j + (if covers j i then delta else 0)" if j: "0 < j" "j < length sums" for j
    proof (cases "j = i")
      case True
      have "\<not> covers i (i + lb i)" "covers i i" using p less(2) lb_le by (auto simp: covers_def)
      then show ?thesis using s(3) [OF j] True j by simp
    next
      case False
      then show ?thesis using s(3) [OF j] covers_next [OF less(2) j(1) False] by simp
    qed
    moreover have "Update sums i delta = Update ?s (i + lb i) delta"
      using True by (subst Update.simps) (simp add: ub_simps lb_def)
    ultimately show ?thesis using s by auto
  next
    case False
    then have "\<not> covers j i" if "j < length sums" for j using that by (simp add: covers_def)
    moreover have "Update sums i delta = Some sums" using False by (subst Update.simps) simp
    ultimately show ?thesis by simp
  qed
qed

lemma Update_ok:
  assumes "fenwick sums a" and "0 < i"
  shows "\<exists>sums'. Update sums i delta = Some sums' \<and> length sums' = length sums \<and> fenwick sums' (a(i := a i + delta))"
proof -
  obtain sums' where s: "Update sums i delta = Some sums'" "length sums' = length sums"
    "\<And>j. 0 < j \<Longrightarrow> j < length sums \<Longrightarrow> sums' ! j = sums ! j + (if covers j i then delta else 0)"
    using Update_entries [OF assms(2)] by blast
  have "(\<Sum>k \<in> A. (a(i := a i + delta)) k) = (\<Sum>k \<in> A. a k) + (if i \<in> A then delta else 0)" if "finite A" for A
    using that by (induction A) auto
  then have "fenwick sums' (a(i := a i + delta))"
    using assms(1) s unfolding fenwick_def by (simp add: covers_def del: fun_upd_apply)
  then show ?thesis using s by blast
qed

lemma Query_loop_ok:
  assumes "fenwick sums a"
  shows "i < length sums \<Longrightarrow> Query_loop sums i s = Some (s + (\<Sum>k \<in> {0<..i}. a k))"
proof (induction i arbitrary: s rule: less_induct)
  case (less i)
  show ?case
  proof (cases "0 < i")
    case True
    have p: "0 < lb i" "lb i \<le> i" using lb_pos lb_le True by blast+
    have "{0<..i} = {0<..i - lb i} \<union> {i - lb i<..i}" by auto
    then have "(\<Sum>k \<in> {0<..i}. a k) = (\<Sum>k \<in> {0<..i - lb i}. a k) + (\<Sum>k \<in> {i - lb i<..i}. a k)"
      by (simp only:) (rule sum.union_disjoint, auto)
    also have "(\<Sum>k \<in> {i - lb i<..i}. a k) = sums ! i" using assms True less(2) by (simp add: fenwick_def)
    finally have e: "(\<Sum>k \<in> {0<..i}. a k) = (\<Sum>k \<in> {0<..i - lb i}. a k) + sums ! i" .
    have "Query_loop sums (i - lb i) (s + sums ! i) = Some (s + sums ! i + (\<Sum>k \<in> {0<..i - lb i}. a k))"
      using less p True by simp
    then show ?thesis using True less(2) e by (subst Query_loop.simps) (simp add: ub_simps lb_def)
  qed (subst Query_loop.simps, simp)
qed

text \<open>The version with signed indices agrees where they are positive.\<close>

lemma update_eq: "0 < i \<Longrightarrow> update sums (int i) delta = Update sums i delta"
proof (induction "length sums - i" arbitrary: i sums rule: less_induct)
  case less
  show ?case
  proof (cases "i < length sums")
    case True
    have l: "length (sums[i := x]) - (i + lb i) < length sums - i" for x using True lb_pos [OF less(2)] by simp
    have "update (sums[i := x]) (int (i + lb i)) delta = Update (sums[i := x]) (i + lb i) delta" for x
      by (rule less(1) [OF l]) (use less(2) in simp)
    then show ?thesis using True less(2) lowbit_int [OF less(2)]
      by (subst update.simps, subst Update.simps) (simp add: ub_simps)
  next
    case False
    then show ?thesis by (subst update.simps, subst Update.simps) simp
  qed
qed

lemma query_loop_eq: "query_loop sums (int i) s = Query_loop sums i s"
proof (induction i arbitrary: s rule: less_induct)
  case (less i)
  show ?case
  proof (cases "0 < i")
    case True
    then have "query_loop sums (int (i - lb i)) t = Query_loop sums (i - lb i) t" for t using less lb_pos [OF True] by simp
    then show ?thesis using True lowbit_int [OF True] lb_le [OF True]
      by (subst query_loop.simps, subst Query_loop.simps) (simp add: of_nat_diff cong: Option.bind_cong)
  next
    case False
    then show ?thesis by (subst query_loop.simps, subst Query_loop.simps) simp
  qed
qed

lemma update_ok:
  assumes "fenwick sums a" and "0 < i"
  shows "\<exists>sums'. update sums (int i) delta = Some sums' \<and> length sums' = length sums \<and> fenwick sums' (a(i := a i + delta))"
  using Update_ok [OF assms] update_eq [OF assms(2)] by simp

lemma query_ok: "fenwick sums a \<Longrightarrow> i < length sums \<Longrightarrow> query sums (int i) = Some (\<Sum>k \<in> {0<..i}. a k)"
  using Query_loop_ok [of sums a i 0] by (simp add: query_def query_loop_eq)

text \<open>An update at position 0 walks on the spot: it does not return.\<close>

lemma Update_returns_from: "Update sums i delta = Some r \<Longrightarrow> sums \<noteq> [] \<longrightarrow> i \<noteq> 0"
proof (rule Update.raw_induct [where P = "\<lambda>sums i delta r. sums \<noteq> [] \<longrightarrow> i \<noteq> 0"])
  fix f :: "int list \<Rightarrow> nat \<Rightarrow> int \<Rightarrow> int list option" and sums i delta r
  assume IH: "\<And>sums i delta r. f sums i delta = Some r \<Longrightarrow> sums \<noteq> [] \<longrightarrow> i \<noteq> 0"
    and eq: "(if i < length sums
      then do {
        x \<leftarrow> vget sums i;
        sums \<leftarrow> vset sums i (x + delta);
        f sums (i + nat (lowbit (int i))) delta }
      else Some sums) = Some r"
  show "sums \<noteq> [] \<longrightarrow> i \<noteq> 0"
  proof (intro impI notI)
    assume "sums \<noteq> []" "i = 0"
    then have "f (sums[0 := sums ! 0 + delta]) 0 delta = Some r" using eq by (simp add: ub_simps lowbit_def)
    from IH [OF this] show False using \<open>sums \<noteq> []\<close> by simp
  qed
qed

lemma Update_0_diverges: "sums \<noteq> [] \<Longrightarrow> Update sums 0 delta = None"
  using Update_returns_from [of sums 0 delta] by (cases "Update sums 0 delta") auto

subsection \<open>createSortedArray\<close>

text \<open>The cost of inserting each number into the sorted list of those before it.\<close>

fun insertion_cost :: "int list \<Rightarrow> int list \<Rightarrow> int" where
  "insertion_cost ws [] = 0"
| "insertion_cost ws (v # vs) =
     int (min (length (filter (\<lambda>w. w < v) ws)) (length (filter (\<lambda>w. v < w) ws))) + insertion_cost (ws @ [v]) vs"

lemma sum_counts:
  "\<forall>w \<in> set ws. 0 < w \<Longrightarrow>
   (\<Sum>k \<in> {0<..n}. int (count_list ws (int k))) = int (length (filter (\<lambda>w. w \<le> int n) ws))"
proof (induction ws)
  case (Cons w ws)
  have "int (count_list (w # ws) (int k)) = int (count_list ws (int k)) + (if nat w = k then 1 else 0)" for k
    using Cons(2) by auto
  then have "(\<Sum>k \<in> {0<..n}. int (count_list (w # ws) (int k))) =
      (\<Sum>k \<in> {0<..n}. int (count_list ws (int k))) + (\<Sum>k \<in> {0<..n}. if nat w = k then 1 else 0)"
    by (simp only: sum.distrib)
  also have "(\<Sum>k \<in> {0<..n}. if nat w = k then 1 else (0 :: int)) = (if w \<le> int n then 1 else 0)"
    using Cons(2) by (subst sum.delta') auto
  finally show ?case using Cons by simp
qed simp

lemma sorted_array_loop_ok:
  assumes "fenwick tree (\<lambda>k. int (count_list ws (int k)))" and "length tree = 100001"
    and "\<forall>w \<in> set (ws @ vs). 0 < w \<and> w \<le> 100000"
  shows "sorted_array_loop tree (int (length ws)) vs res = Some (res + insertion_cost ws vs)"
  using assms
proof (induction vs arbitrary: tree ws res)
  case (Cons v vs)
  have v: "0 < v" "v \<le> 100000" "\<forall>w \<in> set ws. 0 < w" using Cons(4) by auto
  obtain n where n: "v = int (Suc n)" using v(1) by (metis gr0_implies_Suc pos_int_cases)
  have nl: "Suc n < length tree" using Cons(3) v(2) n by simp
  have le: "query tree (int m) = Some (int (length (filter (\<lambda>w. w \<le> int m) ws)))" if "m < length tree" for m
    using query_ok [OF Cons(2) that] sum_counts [OF v(3)] by simp
  have lt: "filter (\<lambda>w. w \<le> int n) ws = filter (\<lambda>w. w < v) ws" unfolding n by (rule filter_cong) auto
  have gt: "int (length ws) - int (length (filter (\<lambda>w. w \<le> v) ws)) = int (length (filter (\<lambda>w. v < w) ws))"
    using sum_length_filter_compl [of "\<lambda>w. w \<le> v" ws] by (simp add: not_le)
  obtain tree' where t: "update tree v 1 = Some tree'" "length tree' = 100001"
    "fenwick tree' ((\<lambda>k. int (count_list ws (int k)))(Suc n := int (count_list ws (int (Suc n))) + 1))"
    using update_ok [OF Cons(2), of "Suc n" 1] Cons(3) unfolding n by auto
  have "(\<lambda>k. int (count_list ws (int k)))(Suc n := int (count_list ws (int (Suc n))) + 1) = (\<lambda>k. int (count_list (ws @ [v]) (int k)))"
    unfolding n by (rule ext) auto
  then have f: "fenwick tree' (\<lambda>k. int (count_list (ws @ [v]) (int k)))" using t(3) by simp
  have "sorted_array_loop tree' (int (length (ws @ [v]))) vs r = Some (r + insertion_cost (ws @ [v]) vs)" for r
    using Cons(1) [OF f t(2)] Cons(4) by auto
  moreover have "query tree (v - 1) = Some (int (length (filter (\<lambda>w. w < v) ws)))"
    using le [of n] nl lt by (simp add: n)
  moreover have "query tree v = Some (int (length (filter (\<lambda>w. w \<le> v) ws)))" using le [of "Suc n"] nl by (simp add: n)
  ultimately show ?case using t(1) gt by (simp add: algebra_simps)
qed simp

lemma insertion_cost_nonneg: "0 \<le> insertion_cost ws vs"
  by (induction ws vs rule: insertion_cost.induct) auto

text \<open>
  CreateSortedArray computes the total cost of the insertions: for each number the
  lesser of how many earlier ones are smaller and how many are greater, summed and reduced
  modulo 1000000007. Every walk through the Fenwick tree ends and stays inside it.
\<close>

theorem createSortedArray_correct:
  assumes "\<forall>v \<in> set instructions. 0 < v \<and> v \<le> 100000"
  shows "createSortedArray instructions = Some (insertion_cost [] instructions mod 1000000007)"
proof -
  have "fenwick (FenwickTree 100000) (\<lambda>k. int (count_list [] (int k)))" using FenwickTree_ok by simp
  moreover have "length (FenwickTree 100000) = 100001" by (simp add: FenwickTree_def)
  ultimately have "sorted_array_loop (FenwickTree 100000) 0 instructions 0 = Some (insertion_cost [] instructions)"
    using sorted_array_loop_ok [of "FenwickTree 100000" "[]" instructions 0] assms by simp
  then show ?thesis by (simp add: createSortedArray_def insertion_cost_nonneg)
qed

theorem createSortedArray_correct_witness: "createSortedArray [1, 5, 6, 2] = Some 1"
  using createSortedArray_correct [of "[1, 5, 6, 2]"] by simp

text \<open>
  C23: both Fenwick trees answer prefix sums. On a tree that stands for the values \<open>a\<close>, Query
  and query at a position inside the tree return the sum of the values up to there, and Update
  and update at a positive position return the same tree, which stands for the values with
  \<open>delta\<close> added at that position and nothing else changed. With the signed index of the second
  class, a query at 0 or below returns 0 and an update below 0 changes nothing.
\<close>

theorem Fenwick_correct:
  assumes "fenwick sums a" and "i < length sums" and "0 < j"
  shows "Query sums i = Some (\<Sum>k \<in> {0<..i}. a k) \<and> query sums (int i) = Some (\<Sum>k \<in> {0<..i}. a k) \<and>
    (\<exists>sums'. Update sums j delta = Some sums' \<and> update sums (int j) delta = Some sums' \<and>
       length sums' = length sums \<and> fenwick sums' (a(j := a j + delta)) \<and>
       Query sums' i = Some (\<Sum>k \<in> {0<..i}. (a(j := a j + delta)) k) \<and>
       query sums' (int i) = Some (\<Sum>k \<in> {0<..i}. (a(j := a j + delta)) k)) \<and>
    (\<forall>z. (z \<le> 0 \<longrightarrow> query sums z = Some 0) \<and> (z < 0 \<longrightarrow> update sums z delta = Some sums))"
proof -
  obtain sums' where s: "Update sums j delta = Some sums'" "length sums' = length sums" "fenwick sums' (a(j := a j + delta))"
    using Update_ok [OF assms(1,3)] by blast
  have q: "Query t i = Some (\<Sum>k \<in> {0<..i}. b k)" "query t (int i) = Some (\<Sum>k \<in> {0<..i}. b k)"
    if "fenwick t b" "length t = length sums" for t b
    using Query_loop_ok [OF that(1), of i 0] query_ok [OF that(1), of i] that(2) assms(2) by (simp_all add: Query_def)
  have "query sums z = Some 0" if "z \<le> 0" for z
    using that by (simp add: query_def query_loop.simps)
  moreover have "update sums z delta = Some sums" if "z < 0" for z
    using that by (subst update.simps) simp
  ultimately show ?thesis
    using s q [OF assms(1)] q [OF s(3,2)] update_eq [OF assms(3), of sums delta] by (simp del: fun_upd_apply)
qed

theorem Fenwick_correct_witness:
  "\<exists>sums'. Update (FenwickTree 5) 3 7 = Some sums' \<and> Query sums' 4 = Some 7 \<and>
     update (FenwickTree 5) 3 7 = Some sums' \<and> query sums' 4 = Some 7"
proof -
  have "{0<..4} = {1, 2, 3, 4 :: nat}" by auto
  then show ?thesis
    using Fenwick_correct [OF FenwickTree_ok, of 4 5 3 7] by (auto simp: FenwickTree_def)
qed

end
