(* ===== verification/Cache.thy ===== *)
theory Cache
  imports Prelude
begin

section \<open>The LRU cache (leetcode/other/leastRecentlyUsed.cc)\<close>

text \<open>
  \<open>LRUCache\<close> keeps its entries in a \<open>std::list\<close>, most recently used first, and a hash
  map from keys to iterators into that list. An iterator stays valid while its node is in
  the list, wherever it is spliced to, so a node has an identity here. The class is shown
  to refine a bounded association list.
\<close>

record lru_node =
  ident :: nat
  first :: int
  second :: int

record lru =
  capacity :: int
  cache :: "lru_node list"
  index :: "int \<rightharpoonup> nat"
  next_ident :: nat

definition LRUCache :: "int \<Rightarrow> lru" where
  "LRUCache cap = \<lparr>capacity = cap, cache = [], index = Map.empty, next_ident = 0\<rparr>"

definition deref :: "lru \<Rightarrow> nat \<Rightarrow> lru_node option" where
  "deref c i = List.find (\<lambda>n. ident n = i) (cache c)"

text \<open>\<open>cache_.splice(cache_.begin(), cache_, it)\<close>\<close>

definition splice_front :: "lru \<Rightarrow> nat \<Rightarrow> lru option" where
  "splice_front c i = do {
     n \<leftarrow> deref c i;
     Some (c\<lparr>cache := n # filter (\<lambda>m. ident m \<noteq> i) (cache c)\<rparr>) }"

definition set_second :: "lru \<Rightarrow> nat \<Rightarrow> int \<Rightarrow> lru option" where
  "set_second c i v = do {
     _ \<leftarrow> deref c i;
     Some (c\<lparr>cache := map (\<lambda>n. if ident n = i then n\<lparr>second := v\<rparr> else n) (cache c)\<rparr>) }"

definition get :: "lru \<Rightarrow> int \<Rightarrow> (int \<times> lru) option" where
  "get c key = (case index c key of
     None \<Rightarrow> Some (- 1, c)
   | Some it \<Rightarrow> do {
       c \<leftarrow> splice_front c it;
       n \<leftarrow> deref c it;
       Some (second n, c) })"

definition put :: "lru \<Rightarrow> int \<Rightarrow> int \<Rightarrow> lru option" where
  "put c key value = (case index c key of
     Some it \<Rightarrow> do {
       c \<leftarrow> set_second c it value;
       splice_front c it }
   | None \<Rightarrow> do {
       c \<leftarrow> (if int (length (cache c)) = capacity c
            then do {
              n \<leftarrow> last_opt (cache c);
              Some (c\<lparr>index := (index c)(first n := None), cache := butlast (cache c)\<rparr>) }
            else Some c);
       Some (c\<lparr>cache := \<lparr>ident = next_ident c, first = key, second = value\<rparr> # cache c,
         index := (index c)(key \<mapsto> next_ident c), next_ident := next_ident c + 1\<rparr>) })"

subsection \<open>The abstract cache\<close>

text \<open>Keys and values, most recently used first; every key occurs once.\<close>

definition touch :: "(int \<times> int) list \<Rightarrow> int \<Rightarrow> int \<Rightarrow> (int \<times> int) list" where
  "touch xs k v = (k, v) # filter (\<lambda>p. fst p \<noteq> k) xs"

definition abs_get :: "(int \<times> int) list \<Rightarrow> int \<Rightarrow> int \<times> (int \<times> int) list" where
  "abs_get xs k = (case map_of xs k of None \<Rightarrow> (- 1, xs) | Some v \<Rightarrow> (v, touch xs k v))"

definition abs_put :: "nat \<Rightarrow> (int \<times> int) list \<Rightarrow> int \<Rightarrow> int \<Rightarrow> (int \<times> int) list" where
  "abs_put cap xs k v = (case map_of xs k of
     Some _ \<Rightarrow> touch xs k v
   | None \<Rightarrow> (k, v) # (if length xs = cap then butlast xs else xs))"

definition entries :: "lru \<Rightarrow> (int \<times> int) list" where
  "entries c = map (\<lambda>n. (first n, second n)) (cache c)"

definition lru_ok :: "lru \<Rightarrow> bool" where
  "lru_ok c \<longleftrightarrow> 0 < capacity c \<and> int (length (cache c)) \<le> capacity c \<and>
     distinct (map ident (cache c)) \<and> distinct (map first (cache c)) \<and>
     (\<forall>n \<in> set (cache c). ident n < next_ident c) \<and>
     (\<forall>k i. index c k = Some i \<longleftrightarrow> (\<exists>n \<in> set (cache c). first n = k \<and> ident n = i))"

lemma index_iff: "lru_ok c \<Longrightarrow> index c k = Some i \<longleftrightarrow> (\<exists>n \<in> set (cache c). first n = k \<and> ident n = i)"
  by (simp add: lru_ok_def)

lemma index_None: "lru_ok c \<Longrightarrow> index c k = None \<longleftrightarrow> k \<notin> first ` set (cache c)"
  using index_iff [of c k] by (cases "index c k") (auto simp: image_iff)

lemma index_Some:
  assumes "lru_ok c" and "index c k = Some i"
  obtains xs n ys where "cache c = xs @ n # ys" and "first n = k" and "ident n = i"
  using assms index_iff by (metis split_list)

lemma apart: "distinct (map f (xs @ n # ys)) \<Longrightarrow> m \<in> set xs \<union> set ys \<Longrightarrow> f m \<noteq> f n"
  by (auto simp: image_iff)

lemma filter_other:
  assumes "distinct (map f (xs @ n # ys))"
  shows "filter (\<lambda>m. f m \<noteq> f n) xs = xs" and "filter (\<lambda>m. f m \<noteq> f n) ys = ys"
  using apart [OF assms] by (auto intro!: filter_True)

lemma find_key:
  assumes "distinct (map f (xs @ n # ys))"
  shows "List.find (\<lambda>m. f m = f n) (xs @ n # ys) = Some n"
  using assms by (induction xs) (auto simp: image_iff)

lemma map_of_key:
  assumes "distinct (map first (xs @ n # ys))"
  shows "map_of (map (\<lambda>m. (first m, second m)) (xs @ n # ys)) (first n) = Some (second n)"
  using assms by (induction xs) (auto simp: image_iff)

lemma LRUCache_ok: "0 < cap \<Longrightarrow> lru_ok (LRUCache cap)"
  by (simp add: lru_ok_def LRUCache_def)

text \<open>Moving the node of a key to the front.\<close>

lemma splice_ok:
  assumes "lru_ok c" and "cache c = xs @ n # ys"
  shows "\<exists>c'. splice_front c (ident n) = Some c' \<and> cache c' = n # xs @ ys \<and> lru_ok c' \<and> capacity c' = capacity c \<and>
     deref c' (ident n) = Some n \<and> entries c' = touch (entries c) (first n) (second n) \<and> map_of (entries c) (first n) = Some (second n)"
proof -
  have d: "distinct (map ident (xs @ n # ys))" "distinct (map first (xs @ n # ys))" using assms by (auto simp: lru_ok_def)
  have f: "filter (\<lambda>p. fst p \<noteq> first n) (entries c) = map (\<lambda>m. (first m, second m)) (xs @ ys)"
    using filter_other [OF d(2)] assms(2) by (simp add: entries_def filter_map comp_def)
  define c' where "c' = c\<lparr>cache := n # xs @ ys\<rparr>"
  have "splice_front c (ident n) = Some c'" using find_key [OF d(1)] filter_other [OF d(1)] assms(2)
    by (simp add: splice_front_def deref_def c'_def)
  moreover have "lru_ok c'"
    unfolding lru_ok_def
  proof (intro conjI allI)
    show "index c' j = Some i \<longleftrightarrow> (\<exists>m \<in> set (cache c'). first m = j \<and> ident m = i)" for j i
      using index_iff [OF assms(1), of j i] assms(2) by (auto simp: c'_def)
  qed (use assms d in \<open>auto simp: lru_ok_def c'_def\<close>)
  moreover have "map_of (entries c) (first n) = Some (second n)" using map_of_key [OF d(2)] assms(2) by (simp add: entries_def)
  ultimately show ?thesis using f by (simp add: c'_def deref_def entries_def touch_def)
qed

lemma get_ok:
  assumes "lru_ok c"
  shows "\<exists>c'. get c k = Some (fst (abs_get (entries c) k), c') \<and> lru_ok c' \<and> capacity c' = capacity c \<and>
     entries c' = snd (abs_get (entries c) k)"
proof (cases "index c k")
  case None
  then have "map_of (entries c) k = None"
    using index_None [OF assms] by (auto simp: map_of_eq_None_iff entries_def image_iff)
  then show ?thesis using None assms by (simp add: get_def abs_get_def)
next
  case (Some i)
  then obtain xs n ys where n: "cache c = xs @ n # ys" "first n = k" "ident n = i" using index_Some assms by blast
  from splice_ok [OF assms n(1)] show ?thesis using Some n(2,3) by (auto simp: get_def abs_get_def)
qed

lemma set_second_ok:
  assumes "lru_ok c" and "cache c = xs @ n # ys"
  shows "\<exists>c'. set_second c (ident n) v = Some c' \<and> lru_ok c' \<and> capacity c' = capacity c \<and>
     cache c' = xs @ n\<lparr>second := v\<rparr> # ys \<and> touch (entries c') (first n) v = touch (entries c) (first n) v"
proof -
  let ?n = "n\<lparr>second := v\<rparr>"
  have d: "distinct (map ident (xs @ n # ys))" "distinct (map first (xs @ n # ys))" using assms by (auto simp: lru_ok_def)
  have m: "map (\<lambda>m. if ident m = ident n then m\<lparr>second := v\<rparr> else m) (xs @ n # ys) = xs @ ?n # ys"
    using apart [OF d(1)] by (auto intro!: map_idI)
  define c' where "c' = c\<lparr>cache := xs @ ?n # ys\<rparr>"
  have "set_second c (ident n) v = Some c'" using find_key [OF d(1)] m assms(2) by (simp add: set_second_def deref_def c'_def)
  moreover have "lru_ok c'"
    unfolding lru_ok_def
  proof (intro conjI allI)
    show "index c' j = Some i \<longleftrightarrow> (\<exists>m \<in> set (cache c'). first m = j \<and> ident m = i)" for j i
      using index_iff [OF assms(1), of j i] assms(2) by (simp add: c'_def)
  qed (use assms d in \<open>auto simp: lru_ok_def c'_def\<close>)
  moreover have "touch (entries c') (first n) v = touch (entries c) (first n) v"
    by (simp add: touch_def entries_def c'_def assms(2))
  ultimately show ?thesis by (simp add: c'_def)
qed

lemma put_ok:
  assumes "lru_ok c"
  shows "\<exists>c'. put c k v = Some c' \<and> lru_ok c' \<and> capacity c' = capacity c \<and>
     entries c' = abs_put (nat (capacity c)) (entries c) k v"
proof (cases "index c k")
  case (Some i)
  then obtain xs n ys where n: "cache c = xs @ n # ys" "first n = k" "ident n = i" using index_Some assms by blast
  obtain c1 where c1: "set_second c (ident n) v = Some c1" "lru_ok c1" "capacity c1 = capacity c"
    "cache c1 = xs @ n\<lparr>second := v\<rparr> # ys" "touch (entries c1) (first n) v = touch (entries c) (first n) v"
    using set_second_ok [OF assms n(1)] by blast
  obtain c2 where "splice_front c1 (ident n) = Some c2" "lru_ok c2" "capacity c2 = capacity c1"
    "entries c2 = touch (entries c1) (first n) v" using splice_ok [OF c1(2,4)] by auto
  moreover have "map_of (entries c) k \<noteq> None" using splice_ok [OF assms n(1)] n(2) by auto
  ultimately show ?thesis using Some n(2,3) c1 by (auto simp: put_def abs_put_def)
next
  case None
  then have fresh: "k \<notin> first ` set (cache c)" using index_None [OF assms] by simp
  then have m: "map_of (entries c) k = None" by (auto simp: map_of_eq_None_iff entries_def image_iff)
  define c1 where "c1 = (if int (length (cache c)) = capacity c
    then c\<lparr>index := (index c)(first (last (cache c)) := None), cache := butlast (cache c)\<rparr> else c)"
  have ne: "cache c \<noteq> []" if "int (length (cache c)) = capacity c" using that assms by (auto simp: lru_ok_def)
  have c1: "capacity c1 = capacity c" "next_ident c1 = next_ident c" "int (length (cache c1)) < capacity c"
    "distinct (map ident (cache c1))" "distinct (map first (cache c1))" "set (cache c1) \<subseteq> set (cache c)"
    using assms ne by (auto simp: c1_def lru_ok_def map_butlast distinct_butlast dest: in_set_butlastD)
  have ix: "index c1 j = Some i \<longleftrightarrow> (\<exists>n \<in> set (cache c1). first n = j \<and> ident n = i)" for j i
  proof (cases "int (length (cache c)) = capacity c")
    case True
    have "cache c = butlast (cache c) @ [last (cache c)]" using ne [OF True] by simp
    moreover have "distinct (map first (cache c))" using assms by (simp add: lru_ok_def)
    ultimately have "first n \<noteq> first (last (cache c))" if "n \<in> set (butlast (cache c))" for n
      using apart [of first "butlast (cache c)" "last (cache c)" "[]" n] that by simp
    moreover have "set (cache c) = insert (last (cache c)) (set (butlast (cache c)))"
      using ne [OF True] by (metis append_butlast_last_id set_append Un_insert_right list.set sup_bot_right)
    ultimately show ?thesis using True index_iff [OF assms, of j i] by (auto simp: c1_def)
  next
    case False
    then show ?thesis using index_iff [OF assms] by (simp add: c1_def)
  qed
  define c2 where "c2 = c1\<lparr>cache := \<lparr>ident = next_ident c, first = k, second = v\<rparr> # cache c1,
    index := (index c1)(k \<mapsto> next_ident c), next_ident := next_ident c + 1\<rparr>"
  have p: "put c k v = Some c2"
    using None ne by (auto simp: put_def c1_def c2_def last_opt_def)
  have idl: "\<forall>n \<in> set (cache c1). ident n < next_ident c" using assms c1(6) by (auto simp: lru_ok_def)
  have fk: "k \<notin> first ` set (cache c1)" using fresh c1(6) by auto
  have "lru_ok c2"
    unfolding lru_ok_def
  proof (intro conjI allI)
    show "0 < capacity c2" using assms c1 by (simp add: c2_def lru_ok_def)
    show "int (length (cache c2)) \<le> capacity c2" using c1 by (simp add: c2_def)
    show "distinct (map ident (cache c2))" using c1(4) idl by (auto simp: c2_def)
    show "distinct (map first (cache c2))" using c1(5) fk by (auto simp: c2_def)
    show "\<forall>n \<in> set (cache c2). ident n < next_ident c2" using idl by (auto simp: c2_def)
    show "index c2 j = Some i \<longleftrightarrow> (\<exists>n \<in> set (cache c2). first n = j \<and> ident n = i)" for j i
      using ix [of j i] fk by (auto simp: c2_def image_iff)
  qed
  moreover have "entries c2 = abs_put (nat (capacity c)) (entries c) k v"
  proof -
    have "length (entries c) = nat (capacity c) \<longleftrightarrow> int (length (cache c)) = capacity c"
      using assms by (auto simp: entries_def lru_ok_def)
    then show ?thesis using m by (simp add: abs_put_def c2_def entries_def c1_def map_butlast)
  qed
  ultimately show ?thesis using p c1(1) by (simp add: c2_def)
qed

subsection \<open>The property\<close>

text \<open>
  C28: LRUCache implements a least recently used cache: get returns the value last put for
  a key that is still held and -1 otherwise and makes the key the most recent; put stores
  the value, makes its key the most recent, and at capacity evicts exactly the least recent
  key. Map and list stay consistent and no iterator dangles.
\<close>

theorem LRUCache_refines:
  assumes "lru_ok c"
  shows "(\<exists>c1. get c k = Some (fst (abs_get (entries c) k), c1) \<and> lru_ok c1 \<and> entries c1 = snd (abs_get (entries c) k)) \<and>
    (\<exists>c2. put c k v = Some c2 \<and> lru_ok c2 \<and> entries c2 = abs_put (nat (capacity c)) (entries c) k v)"
  using get_ok [OF assms] put_ok [OF assms] by blast

theorem LRUCache_refines_witness:
  "\<exists>c2. put (LRUCache 2) 5 7 = Some c2 \<and> entries c2 = [(5, 7)]"
  using LRUCache_refines [OF LRUCache_ok, of 2 5 7] by (auto simp: LRUCache_def abs_put_def entries_def)

end
