(* ===== verification/Sorting.thy ===== *)
theory Sorting
  imports MinHeap
begin

section \<open>Sorting vectors (leetcode/divideANDconquer/sortArray.cc)\<close>

text \<open>
  The sorts of a \<open>vector<int>\<close>, with every access checked against its bounds. Indices
  are \<open>int\<close>s where the code lets them become -1. The loops whose end depends on the
  data (the scans of Hoare's partition) are partial functions; the theorems say that they
  return. All are compared with the sorted permutation \<open>sort\<close> of the library.
\<close>

definition iget :: "'a list \<Rightarrow> int \<Rightarrow> 'a option" where
  "iget xs i = (if 0 \<le> i then vget xs (nat i) else None)"

definition iset :: "'a list \<Rightarrow> int \<Rightarrow> 'a \<Rightarrow> 'a list option" where
  "iset xs i x = (if 0 \<le> i then vset xs (nat i) x else None)"

definition iswap :: "'a list \<Rightarrow> int \<Rightarrow> int \<Rightarrow> 'a list option" where
  "iswap xs i j = do { a \<leftarrow> iget xs i; b \<leftarrow> iget xs j; xs \<leftarrow> iset xs i b; iset xs j a }"

lemma iget_in: "0 \<le> i \<Longrightarrow> i < int (length xs) \<Longrightarrow> iget xs i = Some (xs ! nat i)"
  by (simp add: iget_def vget_def nat_less_iff)

lemma iset_in: "0 \<le> i \<Longrightarrow> i < int (length xs) \<Longrightarrow> iset xs i x = Some (xs[nat i := x])"
  by (simp add: iset_def vset_def nat_less_iff)

lemma iswap_in:
  "0 \<le> i \<Longrightarrow> i < int (length xs) \<Longrightarrow> 0 \<le> j \<Longrightarrow> j < int (length xs) \<Longrightarrow>
   iswap xs i j = Some (xs[nat i := xs ! nat j, nat j := xs ! nat i])"
  by (simp add: iswap_def iget_in iset_in del: bind_eq_Some)

subsection \<open>Insertion sort\<close>

text \<open>The inner loop with \<open>k = j + 1\<close>.\<close>

primrec shift :: "nat \<Rightarrow> int list \<Rightarrow> int \<Rightarrow> int list option" where
  "shift 0 nums tmp = vset nums 0 tmp"
| "shift (Suc j) nums tmp = do {
     x \<leftarrow> vget nums j;
     if tmp < x then do { nums \<leftarrow> vset nums (Suc j) x; shift j nums tmp }
     else vset nums (Suc j) tmp }"

fun insertion_from :: "int list \<Rightarrow> nat list \<Rightarrow> int list option" where
  "insertion_from nums [] = Some nums"
| "insertion_from nums (i # is) = do {
     tmp \<leftarrow> vget nums i;
     nums \<leftarrow> shift i nums tmp;
     insertion_from nums is }"

definition insertion_sort :: "int list \<Rightarrow> int list option" where
  "insertion_sort nums = (if length nums \<le> 1 then Some nums else insertion_from nums [1..<length nums])"

lemma sort_cong: "mset xs = mset ys \<Longrightarrow> sort xs = sort ys"
  by (metis mset_sort properties_for_sort sorted_sort)

lemma shift_ok:
  "\<exists>C D. A = C @ D \<and> shift (length A) (A @ z # B) tmp = Some (C @ tmp # D @ B) \<and> (\<forall>d \<in> set D. tmp < d) \<and>
     (C \<noteq> [] \<longrightarrow> last C \<le> tmp)"
proof (induction A arbitrary: z B rule: rev_induct)
  case Nil
  then show ?case by (simp add: ub_simps)
next
  case (snoc a A)
  show ?case
  proof (cases "tmp < a")
    case True
    obtain C D where CD: "A = C @ D" "shift (length A) (A @ a # a # B) tmp = Some (C @ tmp # D @ a # B)"
      "\<forall>d \<in> set D. tmp < d" "C \<noteq> [] \<longrightarrow> last C \<le> tmp" using snoc by blast
    have "shift (length (A @ [a])) ((A @ [a]) @ z # B) tmp = shift (length A) (A @ a # a # B) tmp"
      using True by (simp add: ub_simps nth_append list_update_append)
    then show ?thesis using CD True by (intro exI [of _ C] exI [of _ "D @ [a]"]) auto
  next
    case False
    then show ?thesis
      by (intro exI [of _ "A @ [a]"] exI [of _ "[]"]) (simp add: ub_simps nth_append list_update_append)
  qed
qed

lemma insertion_from_ok:
  "sorted A \<Longrightarrow> insertion_from (A @ B) [length A..<length A + length B] = Some (sort (A @ B))"
proof (induction B arbitrary: A)
  case Nil
  then show ?case by (simp add: sorted_sort_id)
next
  case (Cons b B)
  obtain C D where CD: "A = C @ D" "shift (length A) (A @ b # B) b = Some (C @ b # D @ B)" "\<forall>d \<in> set D. b < d"
    "C \<noteq> [] \<longrightarrow> last C \<le> b" using shift_ok by blast
  have "\<forall>c \<in> set C. c \<le> b"
  proof (cases "C = []")
    case False
    then have "C = butlast C @ [last C]" by simp
    moreover have "sorted C" using Cons(2) CD(1) by (simp add: sorted_append)
    ultimately have "c \<le> last C" if "c \<in> set C" for c
      using that by (metis Un_iff sorted_append list.set_intros(1) set_append set_ConsD in_set_conv_decomp order_refl empty_iff list.set(1))
    then show ?thesis using CD(4) False order_trans by blast
  qed simp
  then have s: "sorted (C @ b # D)" using Cons(2) CD(1,3) by (auto simp: sorted_append less_imp_le)
  have u: "[length A..<length A + length (b # B)] = length A # [length (C @ b # D)..<length (C @ b # D) + length B]"
    by (simp add: CD(1) upt_rec [of "length C + length D"] Suc_le_eq)
  have "sort ((C @ b # D) @ B) = sort (A @ b # B)" unfolding CD(1) by (rule sort_cong) simp
  then show ?case unfolding u using Cons(1) [OF s] CD(2) by (simp add: ub_simps nth_append)
qed

lemma insertion_sort_ok: "insertion_sort nums = Some (sort nums)"
proof (cases nums)
  case (Cons a B)
  have u: "[1..<length nums] = [length [a]..<length [a] + length B]" using Cons by simp
  have "insertion_from ([a] @ B) [length [a]..<length [a] + length B] = Some (sort ([a] @ B))"
    by (rule insertion_from_ok) simp
  then have "insertion_from nums [1..<length nums] = Some (sort nums)" unfolding u using Cons by simp
  moreover have "sort nums = nums" if "length nums \<le> 1" using that Cons by (cases B) auto
  ultimately show ?thesis by (simp add: insertion_sort_def)
qed (simp add: insertion_sort_def)

subsection \<open>Quick sort\<close>

partial_function (option) scan_up :: "int list \<Rightarrow> int \<Rightarrow> int \<Rightarrow> int option" where
  "scan_up nums l p = do { x \<leftarrow> iget nums l; if x < p then scan_up nums (l + 1) p else Some l }"

partial_function (option) scan_down :: "int list \<Rightarrow> int \<Rightarrow> int \<Rightarrow> int option" where
  "scan_down nums r p = do { x \<leftarrow> iget nums r; if x > p then scan_down nums (r - 1) p else Some r }"

partial_function (option) hoare_loop :: "int list \<Rightarrow> int \<Rightarrow> int \<Rightarrow> int \<Rightarrow> (int list \<times> int \<times> int) option" where
  "hoare_loop nums l r p =
     (if l \<le> r
      then do {
        l \<leftarrow> scan_up nums l p;
        r \<leftarrow> scan_down nums r p;
        if l \<le> r then do { nums \<leftarrow> iswap nums l r; hoare_loop nums (l + 1) (r - 1) p }
        else hoare_loop nums l r p }
      else Some (nums, l, r))"

partial_function (option) quick :: "int list \<Rightarrow> int \<Rightarrow> int \<Rightarrow> int list option" where
  "quick nums l r =
     (if l \<ge> r then Some nums
      else do {
        p \<leftarrow> iget nums (l + (r - l) div 2);
        (nums, l', r') \<leftarrow> hoare_loop nums l r p;
        nums \<leftarrow> quick nums l r';
        quick nums l' r })"

definition quickSort :: "int list \<Rightarrow> int list option" where
  "quickSort nums = quick nums 0 (int (length nums) - 1)"

text \<open>
  \<open>parallelQuickSort\<close> sorts the two parts of a long range in two threads. They touch
  disjoint ranges of the vector, so the model runs one after the other.
\<close>

definition psort :: "int list \<Rightarrow> int \<Rightarrow> int \<Rightarrow> int list option" where
  "psort nums l r =
     (if l \<ge> r then Some nums
      else if r - l < 1000 then quick nums l r
      else do {
        pivot \<leftarrow> iget nums (l + (r - l) div 2);
        (nums, l', r') \<leftarrow> hoare_loop nums l r pivot;
        nums \<leftarrow> quick nums l r';
        quick nums l' r })"

definition parallelQuickSort :: "int list \<Rightarrow> int list option" where
  "parallelQuickSort nums = psort nums 0 (int (length nums) - 1)"

text \<open>Changing only the entries from \<open>b\<close> to \<open>e\<close>.\<close>

definition range_perm :: "int \<Rightarrow> int \<Rightarrow> int list \<Rightarrow> int list \<Rightarrow> bool" where
  "range_perm b e xs ys \<longleftrightarrow> mset ys = mset xs \<and> (\<forall>i < length xs. int i < b \<or> e < int i \<longrightarrow> ys ! i = xs ! i)"

definition in_range_all :: "int \<Rightarrow> int \<Rightarrow> (int \<Rightarrow> bool) \<Rightarrow> int list \<Rightarrow> bool" where
  "in_range_all b e P xs \<longleftrightarrow> (\<forall>i. b \<le> i \<longrightarrow> i \<le> e \<longrightarrow> P (xs ! nat i))"

definition sorted_range :: "int \<Rightarrow> int \<Rightarrow> int list \<Rightarrow> bool" where
  "sorted_range b e xs \<longleftrightarrow> (\<forall>i j. b \<le> i \<longrightarrow> i < j \<longrightarrow> j \<le> e \<longrightarrow> xs ! nat i \<le> xs ! nat j)"

lemma range_perm_refl [simp]: "range_perm b e xs xs"
  by (simp add: range_perm_def)

lemma range_perm_length: "range_perm b e xs ys \<Longrightarrow> length ys = length xs"
  unfolding range_perm_def by (metis size_mset)

lemma range_perm_trans: "range_perm b e xs ys \<Longrightarrow> range_perm b e ys zs \<Longrightarrow> range_perm b e xs zs"
  using range_perm_length [of b e xs ys] by (simp add: range_perm_def)

lemma range_perm_mono: "range_perm b e xs ys \<Longrightarrow> b' \<le> b \<Longrightarrow> e \<le> e' \<Longrightarrow> range_perm b' e' xs ys"
  by (simp add: range_perm_def)

lemma range_perm_outside: "range_perm b e xs ys \<Longrightarrow> 0 \<le> i \<Longrightarrow> i < int (length xs) \<Longrightarrow> i < b \<or> e < i \<Longrightarrow> ys ! nat i = xs ! nat i"
  unfolding range_perm_def by (metis int_nat_eq nat_less_iff)

text \<open>What holds of all entries of the range still does.\<close>

lemma range_perm_all:
  assumes "range_perm b e xs ys" and "in_range_all b e P xs" and "0 \<le> b" and "e < int (length xs)"
  shows "in_range_all b e P ys"
  unfolding in_range_all_def
proof (intro allI impI, rule ccontr)
  fix i assume i: "b \<le> i" "i \<le> e" "\<not> P (ys ! nat i)"
  let ?X = "{j. j < length xs \<and> \<not> P (xs ! j)}" and ?Y = "{j. j < length xs \<and> \<not> P (ys ! j)}"
  have l: "length ys = length xs" using assms(1) by (rule range_perm_length)
  have "j \<in> ?Y" if "j \<in> ?X" for j
  proof -
    have "int j < b \<or> e < int j"
      using assms(2) that unfolding in_range_all_def by (metis (mono_tags, lifting) mem_Collect_eq nat_int not_le)
    then show ?thesis using assms(1) that by (auto simp: range_perm_def)
  qed
  moreover have "nat i \<in> ?Y" "nat i \<notin> ?X" using i assms(2-4) by (auto simp: in_range_all_def)
  ultimately have "?X \<subset> ?Y" by blast
  then have "card ?X < card ?Y" by (rule psubset_card_mono [rotated]) simp
  moreover have "card ?X = size (filter_mset (\<lambda>x. \<not> P x) (mset xs))" "card ?Y = size (filter_mset (\<lambda>x. \<not> P x) (mset ys))"
    using l by (simp_all add: length_filter_conv_card flip: mset_filter)
  ultimately show False using assms(1) by (simp add: range_perm_def)
qed

lemma iswap_range_perm:
  assumes "0 \<le> b" "b \<le> i" "i \<le> e" "b \<le> j" "j \<le> e" "e < int (length xs)"
  shows "\<exists>ys. iswap xs i j = Some ys \<and> range_perm b e xs ys \<and> ys ! nat i = xs ! nat j \<and> ys ! nat j = xs ! nat i \<and>
    (\<forall>k. 0 \<le> k \<longrightarrow> k < int (length xs) \<longrightarrow> k \<noteq> i \<longrightarrow> k \<noteq> j \<longrightarrow> ys ! nat k = xs ! nat k)"
proof -
  let ?ys = "xs[nat i := xs ! nat j, nat j := xs ! nat i]"
  have l: "nat i < length xs" "nat j < length xs" using assms by auto
  have "iswap xs i j = Some ?ys" using assms by (simp add: iswap_in)
  moreover have "range_perm b e xs ?ys"
    using l assms by (auto simp: range_perm_def mset_swap nth_list_update)
  moreover have "?ys ! nat i = xs ! nat j" "?ys ! nat j = xs ! nat i" using l by (auto simp: nth_list_update)
  moreover have "?ys ! nat k = xs ! nat k" if "0 \<le> k" "k \<noteq> i" "k \<noteq> j" for k
    using that assms by (auto simp: nth_list_update eq_nat_nat_iff)
  ultimately show ?thesis by blast
qed

lemma scan_up_ok:
  assumes "0 \<le> l" and "l \<le> k" and "k < int (length xs)" and "p \<le> xs ! nat k"
  shows "\<exists>l'. scan_up xs l p = Some l' \<and> l \<le> l' \<and> l' \<le> k \<and> p \<le> xs ! nat l' \<and> in_range_all l (l' - 1) (\<lambda>x. x < p) xs"
  using assms(1,2)
proof (induction "nat (k - l)" arbitrary: l rule: less_induct)
  case less
  have g: "iget xs l = Some (xs ! nat l)" using less(2,3) assms(3) by (simp add: iget_in)
  show ?case
  proof (cases "xs ! nat l < p")
    case True
    then have "l \<noteq> k" using assms(4) by auto
    then have "nat (k - (l + 1)) < nat (k - l)" "0 \<le> l + 1" "l + 1 \<le> k" using less(2,3) by auto
    from less(1) [OF this] obtain l' where l': "scan_up xs (l + 1) p = Some l'" "l + 1 \<le> l'" "l' \<le> k" "p \<le> xs ! nat l'"
      "in_range_all (l + 1) (l' - 1) (\<lambda>x. x < p) xs" by blast
    have "in_range_all l (l' - 1) (\<lambda>x. x < p) xs"
      unfolding in_range_all_def
    proof (intro allI impI)
      fix i assume "l \<le> i" "i \<le> l' - 1"
      then show "xs ! nat i < p" using l'(5) True by (cases "i = l") (auto simp: in_range_all_def)
    qed
    then show ?thesis using l' True g by (subst scan_up.simps) simp
  next
    case False
    then show ?thesis using g less(3) by (subst scan_up.simps) (simp add: in_range_all_def)
  qed
qed

lemma scan_down_ok:
  assumes "0 \<le> k" and "k \<le> r" and "r < int (length xs)" and "xs ! nat k \<le> p"
  shows "\<exists>r'. scan_down xs r p = Some r' \<and> k \<le> r' \<and> r' \<le> r \<and> xs ! nat r' \<le> p \<and> in_range_all (r' + 1) r (\<lambda>x. p < x) xs"
  using assms(2,3)
proof (induction "nat (r - k)" arbitrary: r rule: less_induct)
  case less
  have g: "iget xs r = Some (xs ! nat r)" using less(2,3) assms(1) by (simp add: iget_in)
  show ?case
  proof (cases "xs ! nat r > p")
    case True
    then have "r \<noteq> k" using assms(4) by auto
    then have "nat (r - 1 - k) < nat (r - k)" "k \<le> r - 1" "r - 1 < int (length xs)" using less(2,3) by auto
    from less(1) [OF this] obtain r' where r': "scan_down xs (r - 1) p = Some r'" "k \<le> r'" "r' \<le> r - 1" "xs ! nat r' \<le> p"
      "in_range_all (r' + 1) (r - 1) (\<lambda>x. p < x) xs" by blast
    have "in_range_all (r' + 1) r (\<lambda>x. p < x) xs"
      unfolding in_range_all_def
    proof (intro allI impI)
      fix i assume "r' + 1 \<le> i" "i \<le> r"
      then show "p < xs ! nat i" using r'(5) True by (cases "i = r") (auto simp: in_range_all_def)
    qed
    then show ?thesis using r' True g by (subst scan_down.simps) simp
  next
    case False
    then show ?thesis using g less(2) by (subst scan_down.simps) (simp add: in_range_all_def)
  qed
qed

lemma in_range_all_split: "in_range_all b m P xs \<Longrightarrow> in_range_all (m + 1) e P xs \<Longrightarrow> in_range_all b e P xs"
  unfolding in_range_all_def by (metis not_le zless_imp_add1_zle)

lemma hoare_loop_ok:
  assumes "0 \<le> b" and "b \<le> l" and "l \<le> e + 1" and "b - 1 \<le> r" and "r \<le> e" and "e < int (length xs)"
    and "in_range_all b (l - 1) (\<lambda>x. x \<le> p) xs" and "in_range_all (r + 1) e (\<lambda>x. p \<le> x) xs"
    and "l \<le> r \<Longrightarrow> \<exists>k. l \<le> k \<and> k \<le> e \<and> p \<le> xs ! nat k" and "l \<le> r \<Longrightarrow> \<exists>k. b \<le> k \<and> k \<le> r \<and> xs ! nat k \<le> p"
  shows "\<exists>ys l' r'. hoare_loop xs l r p = Some (ys, l', r') \<and> r' < l' \<and> l \<le> l' \<and> r' \<le> r \<and> l' \<le> e + 1 \<and> b - 1 \<le> r' \<and>
     range_perm b e xs ys \<and> in_range_all b (l' - 1) (\<lambda>x. x \<le> p) ys \<and> in_range_all (r' + 1) e (\<lambda>x. p \<le> x) ys \<and>
     ((\<exists>m. l \<le> m \<and> m \<le> r \<and> xs ! nat m = p) \<longrightarrow> l < l' \<and> r' < r)"
  using assms
proof (induction "nat (r - l + 1)" arbitrary: xs l r rule: less_induct)
  case less
  show ?case
  proof (cases "l \<le> r")
    case False
    have "hoare_loop xs l r p = Some (xs, l, r)" using False by (subst hoare_loop.simps) simp
    then show ?thesis using less(2-9) False by auto
  next
    case True
    obtain k where k: "l \<le> k" "k \<le> e" "p \<le> xs ! nat k" using less(10) True by blast
    obtain k' where k': "b \<le> k'" "k' \<le> r" "xs ! nat k' \<le> p" using less(11) True by blast
    have "0 \<le> l" "k < int (length xs)" "0 \<le> k'" "r < int (length xs)" using less(2,3,6,7) k k' by simp_all
    then obtain l1 r1 where L: "scan_up xs l p = Some l1" "l \<le> l1" "l1 \<le> k" "p \<le> xs ! nat l1" "in_range_all l (l1 - 1) (\<lambda>x. x < p) xs"
      and R: "scan_down xs r p = Some r1" "k' \<le> r1" "r1 \<le> r" "xs ! nat r1 \<le> p" "in_range_all (r1 + 1) r (\<lambda>x. p < x) xs"
      using scan_up_ok [of l k xs p] scan_down_ok [of k' r xs p] k k' by metis
    have "in_range_all l (l1 - 1) (\<lambda>x. x \<le> p) xs" "in_range_all (r1 + 1) r (\<lambda>x. p \<le> x) xs"
      using L(5) R(5) by (auto simp: in_range_all_def less_imp_le)
    note LR = this
    have lo: "in_range_all b (l1 - 1) (\<lambda>x. x \<le> p) xs"
      using in_range_all_split [of b "l - 1" _ xs "l1 - 1"] less(8) LR(1) by simp
    have hi: "in_range_all (r1 + 1) e (\<lambda>x. p \<le> x) xs"
      using in_range_all_split [of "r1 + 1" r _ xs e] less(9) LR(2) by blast
    have mid: "l1 \<le> m \<and> m \<le> r1" if "l \<le> m" "m \<le> r" "xs ! nat m = p" for m
      using L(5) R(5) that unfolding in_range_all_def by (metis add1_zle_eq diff_add_cancel less_irrefl not_le zle_diff1_eq)
    show ?thesis
    proof (cases "l1 \<le> r1")
      case sw: True
      have bnd: "0 \<le> b" "b \<le> l1" "l1 \<le> e" "b \<le> r1" "r1 \<le> e" "e < int (length xs)" using less(2-7) L(2) R(3) sw by simp_all
      obtain ys where ys: "iswap xs l1 r1 = Some ys" "range_perm b e xs ys" "ys ! nat l1 = xs ! nat r1" "ys ! nat r1 = xs ! nat l1"
        "\<And>k. 0 \<le> k \<Longrightarrow> k < int (length xs) \<Longrightarrow> k \<noteq> l1 \<Longrightarrow> k \<noteq> r1 \<Longrightarrow> ys ! nat k = xs ! nat k"
        using iswap_range_perm [OF bnd] by blast
      have len: "length ys = length xs" using ys(2) by (rule range_perm_length)
      have lo': "in_range_all b (l1 + 1 - 1) (\<lambda>x. x \<le> p) ys"
        unfolding in_range_all_def
      proof (intro allI impI)
        fix i assume i: "b \<le> i" "i \<le> l1 + 1 - 1"
        then show "ys ! nat i \<le> p"
          using lo ys(3,5) R(4) bnd sw by (cases "i = l1") (auto simp: in_range_all_def)
      qed
      have hi': "in_range_all (r1 - 1 + 1) e (\<lambda>x. p \<le> x) ys"
        unfolding in_range_all_def
      proof (intro allI impI)
        fix i assume i: "r1 - 1 + 1 \<le> i" "i \<le> e"
        then show "p \<le> ys ! nat i"
          using hi ys(4,5) L(4) bnd sw by (cases "i = r1") (auto simp: in_range_all_def)
      qed
      have "\<exists>zs l' r'. hoare_loop ys (l1 + 1) (r1 - 1) p = Some (zs, l', r') \<and> r' < l' \<and> l1 + 1 \<le> l' \<and> r' \<le> r1 - 1 \<and>
        l' \<le> e + 1 \<and> b - 1 \<le> r' \<and> range_perm b e ys zs \<and> in_range_all b (l' - 1) (\<lambda>x. x \<le> p) zs \<and>
        in_range_all (r' + 1) e (\<lambda>x. p \<le> x) zs \<and>
        ((\<exists>m. l1 + 1 \<le> m \<and> m \<le> r1 - 1 \<and> ys ! nat m = p) \<longrightarrow> l1 + 1 < l' \<and> r' < r1 - 1)"
      proof (rule less(1) [OF _ less(2) _ _ _ _ _ lo' hi'])
        show "nat (r1 - 1 - (l1 + 1) + 1) < nat (r - l + 1)" using L(2) R(3) True sw by linarith
        show "\<exists>k. l1 + 1 \<le> k \<and> k \<le> e \<and> p \<le> ys ! nat k" if "l1 + 1 \<le> r1 - 1"
          using that ys(4) L(4) bnd by (intro exI [of _ r1]) auto
        show "\<exists>k. b \<le> k \<and> k \<le> r1 - 1 \<and> ys ! nat k \<le> p" if "l1 + 1 \<le> r1 - 1"
          using that ys(3) R(4) bnd by (intro exI [of _ l1]) auto
      qed (use bnd len sw in auto)
      then obtain zs l' r' where Z: "hoare_loop ys (l1 + 1) (r1 - 1) p = Some (zs, l', r')" "r' < l'" "l1 + 1 \<le> l'" "r' \<le> r1 - 1"
        "l' \<le> e + 1" "b - 1 \<le> r'" "range_perm b e ys zs" "in_range_all b (l' - 1) (\<lambda>x. x \<le> p) zs"
        "in_range_all (r' + 1) e (\<lambda>x. p \<le> x) zs" by blast
      have "hoare_loop xs l r p = Some (zs, l', r')"
        using True L(1) R(1) sw ys(1) Z(1) by (subst hoare_loop.simps) (simp del: bind_eq_Some)
      then show ?thesis using Z L(2) R(3) range_perm_trans [OF ys(2) Z(7)] by auto
    next
      case nsw: False
      then have "hoare_loop xs l1 r1 p = Some (xs, l1, r1)" by (subst hoare_loop.simps) simp
      then have "hoare_loop xs l r p = Some (xs, l1, r1)"
        using True L(1) R(1) nsw by (subst hoare_loop.simps) (simp del: bind_eq_Some)
      then show ?thesis using nsw L(2,3) R(2,3) k k' lo hi mid by fastforce
    qed
  qed
qed

lemma quick_ok:
  "0 \<le> l \<Longrightarrow> r < int (length xs) \<Longrightarrow>
   \<exists>ys. quick xs l r = Some ys \<and> range_perm l r xs ys \<and> sorted_range l r ys"
proof (induction "nat (r - l)" arbitrary: xs l r rule: less_induct)
  case less
  show ?case
  proof (cases "l \<ge> r")
    case True
    then have "quick xs l r = Some xs" by (subst quick.simps) simp
    then show ?thesis using True by (auto simp: sorted_range_def)
  next
    case False
    define m where "m = l + (r - l) div 2"
    define p where "p = xs ! nat m"
    have m: "l \<le> m" "m \<le> r" using False by (auto simp: m_def)
    have g: "iget xs m = Some p" using m less(2,3) by (simp add: iget_in p_def)
    have "l \<le> r" using False by simp
    have ex: "\<exists>k. l \<le> k \<and> k \<le> r \<and> p \<le> xs ! nat k" "\<exists>k. l \<le> k \<and> k \<le> r \<and> xs ! nat k \<le> p"
      using m by (auto simp: p_def)
    have em: "in_range_all l (l - 1) P xs" "in_range_all (r + 1) r P xs" for P by (auto simp: in_range_all_def)
    obtain ys l' r' where H: "hoare_loop xs l r p = Some (ys, l', r')" "r' < l'" "l \<le> l'" "r' \<le> r" "l' \<le> r + 1" "l - 1 \<le> r'"
      "range_perm l r xs ys" "in_range_all l (l' - 1) (\<lambda>x. x \<le> p) ys" "in_range_all (r' + 1) r (\<lambda>x. p \<le> x) ys"
      "l < l' \<and> r' < r"
      using hoare_loop_ok [of l l r r xs p, OF less(2) _ _ _ _ less(3) em ex] \<open>l \<le> r\<close> m p_def by fastforce
    have len: "length ys = length xs" using H(7) by (rule range_perm_length)
    have "nat (r' - l) < nat (r - l)" "r' < int (length ys)" using H(6,10) less(3) False len by auto
    from less(1) [OF this(1) less(2) this(2)] obtain zs where Z: "quick ys l r' = Some zs" "range_perm l r' ys zs" "sorted_range l r' zs"
      by blast
    have lz: "length zs = length xs" using range_perm_length [OF Z(2)] len by simp
    have "nat (r - l') < nat (r - l)" "0 \<le> l'" "r < int (length zs)" using H(3,10) less(2,3) False lz by auto
    from less(1) [OF this] obtain ws where W: "quick zs l' r = Some ws" "range_perm l' r zs ws" "sorted_range l' r ws" by blast
    have lw: "length ws = length xs" using range_perm_length [OF W(2)] lz by simp
    have q: "quick xs l r = Some ws"
      using False g H(1) Z(1) W(1) unfolding m_def by (subst quick.simps) (simp del: bind_eq_Some)
    have rp: "range_perm l r xs ws"
      using range_perm_trans [OF H(7) range_perm_trans [OF range_perm_mono [OF Z(2)] range_perm_mono [OF W(2)]]] H(3,4) by simp
    have zlo: "in_range_all l r' (\<lambda>x. x \<le> p) zs"
    proof (rule range_perm_all [OF Z(2)])
      show "in_range_all l r' (\<lambda>x. x \<le> p) ys" using H(2,8) by (auto simp: in_range_all_def)
    qed (use less(2) H(4) less(3) len in auto)
    have zhi: "zs ! nat i = ys ! nat i" if "r' < i" "i \<le> r" for i
      by (rule range_perm_outside [OF Z(2)]) (use that H(6) less(2,3) len in auto)
    have zmid: "zs ! nat i = p" if "r' < i" "i < l'" for i
    proof -
      have "i \<le> r" "l \<le> i" using that H(5,6) by auto
      then have "ys ! nat i \<le> p" "p \<le> ys ! nat i" using H(8,9) that by (auto simp: in_range_all_def)
      then show ?thesis using zhi that \<open>i \<le> r\<close> by simp
    qed
    have whi: "in_range_all l' r (\<lambda>x. p \<le> x) ws"
    proof (rule range_perm_all [OF W(2)])
      show "in_range_all l' r (\<lambda>x. p \<le> x) zs" using H(2,9) zhi by (auto simp: in_range_all_def)
    qed (use less(2,3) H(3) lz in auto)
    have wlo: "ws ! nat i = zs ! nat i" if "l \<le> i" "i < l'" for i
      by (rule range_perm_outside [OF W(2)]) (use that H(5) less(2,3) lz in auto)
    have "sorted_range l r ws"
      unfolding sorted_range_def
    proof (intro allI impI)
      fix i j assume ij: "l \<le> i" "i < j" "j \<le> r"
      consider "j < l'" "j \<le> r'" | "j < l'" "r' < j" | "l' \<le> j" "i < l'" | "l' \<le> i" by linarith
      then show "ws ! nat i \<le> ws ! nat j"
      proof cases
        case 1
        then show ?thesis using Z(3) ij wlo by (simp add: sorted_range_def)
      next
        case 2
        then have "zs ! nat i \<le> p" using zlo zmid [of i] ij by (cases "i \<le> r'") (auto simp: in_range_all_def)
        then show ?thesis using 2 ij wlo zmid by simp
      next
        case 3
        then have "zs ! nat i \<le> p" using zlo zmid [of i] ij by (cases "i \<le> r'") (auto simp: in_range_all_def)
        moreover have "p \<le> ws ! nat j" using whi 3 ij by (simp add: in_range_all_def)
        ultimately show ?thesis using 3 ij wlo [of i] by simp
      next
        case 4
        then show ?thesis using W(3) ij by (simp add: sorted_range_def)
      qed
    qed
    then show ?thesis using q rp by blast
  qed
qed

lemma sorted_range_all: "sorted_range 0 (int (length xs) - 1) xs \<Longrightarrow> sorted xs"
  unfolding sorted_range_def sorted_iff_nth_mono_less by (metis nat_int of_nat_0_le_iff of_nat_less_iff zle_diff1_eq)

lemma quickSort_ok: "quickSort nums = Some (sort nums)"
proof -
  obtain ys where "quick nums 0 (int (length nums) - 1) = Some ys" "range_perm 0 (int (length nums) - 1) nums ys"
    "sorted_range 0 (int (length nums) - 1) ys" using quick_ok [of 0 "int (length nums) - 1" nums] by auto
  then show ?thesis using sorted_range_all [of ys] range_perm_length
    by (metis quickSort_def range_perm_def properties_for_sort)
qed

text \<open>The threads change nothing about the result.\<close>

lemma psort_eq: "psort nums l r = quick nums l r"
  by (cases "l \<ge> r"; cases "r - l < 1000") (subst quick.simps, simp add: psort_def)+

lemma parallelQuickSort_ok: "parallelQuickSort nums = Some (sort nums)"
  using quickSort_ok by (simp add: parallelQuickSort_def quickSort_def psort_eq)

subsection \<open>Merge sort\<close>

partial_function (option) vec_merge ::
    "int list \<Rightarrow> int list \<Rightarrow> nat \<Rightarrow> nat \<Rightarrow> nat \<Rightarrow> nat \<Rightarrow> nat \<Rightarrow> (int list \<times> nat) option" where
  "vec_merge nums t i1 m i2 r index =
     (if i1 < m \<or> i2 < r
      then do {
        c \<leftarrow> (if i2 = r then Some True
             else if i1 < m then do { a \<leftarrow> vget nums i1; b \<leftarrow> vget nums i2; Some (a < b) } else Some False);
        if c then do { x \<leftarrow> vget nums i1; t \<leftarrow> vset t index x; vec_merge nums t (i1 + 1) m i2 r (index + 1) }
        else do { x \<leftarrow> vget nums i2; t \<leftarrow> vset t index x; vec_merge nums t i1 m (i2 + 1) r (index + 1) } }
      else Some (t, index))"

text \<open>\<open>std::copy(begin(t), begin(t) + index, begin(nums) + l)\<close>\<close>

definition copy_back :: "int list \<Rightarrow> int list \<Rightarrow> nat \<Rightarrow> nat \<Rightarrow> int list option" where
  "copy_back nums t l index = (if index \<le> length t \<and> l + index \<le> length nums
     then Some (take l nums @ take index t @ drop (l + index) nums) else None)"

partial_function (option) merge_rec :: "int list \<Rightarrow> int list \<Rightarrow> nat \<Rightarrow> nat \<Rightarrow> (int list \<times> int list) option" where
  "merge_rec nums t l r =
     (if l + 1 \<ge> r then Some (nums, t)
      else do {
        let m = l + (r - l) div 2;
        (nums, t) \<leftarrow> merge_rec nums t l m;
        (nums, t) \<leftarrow> merge_rec nums t m r;
        (t, index) \<leftarrow> vec_merge nums t l m m r 0;
        nums \<leftarrow> copy_back nums t l index;
        Some (nums, t) })"

definition mergeSort :: "int list \<Rightarrow> int list option" where
  "mergeSort nums = do {
     (nums, t) \<leftarrow> merge_rec nums (replicate (length nums) 0) 0 (length nums);
     Some nums }"

fun imerge :: "int list \<Rightarrow> int list \<Rightarrow> int list" where
  "imerge [] bs = bs"
| "imerge as [] = as"
| "imerge (a # as) (b # bs) = (if a < b then a # imerge as (b # bs) else b # imerge (a # as) bs)"

lemma imerge_Nil2 [simp]: "imerge as [] = as"
  by (cases as) auto

lemma mset_imerge [simp]: "mset (imerge as bs) = mset as + mset bs"
  by (induction as bs rule: imerge.induct) auto

lemma set_imerge [simp]: "set (imerge as bs) = set as \<union> set bs"
  by (induction as bs rule: imerge.induct) auto

lemma sorted_imerge: "sorted as \<Longrightarrow> sorted bs \<Longrightarrow> sorted (imerge as bs)"
  by (induction as bs rule: imerge.induct) (auto simp: less_imp_le not_less intro: order_trans)

lemma length_imerge [simp]: "length (imerge as bs) = length as + length bs"
  by (metis mset_imerge size_mset size_union)

definition vslice :: "nat \<Rightarrow> nat \<Rightarrow> 'a list \<Rightarrow> 'a list" where
  "vslice i j xs = take (j - i) (drop i xs)"

lemma vslice_Cons: "i < j \<Longrightarrow> j \<le> length xs \<Longrightarrow> vslice i j xs = xs ! i # vslice (Suc i) j xs"
  unfolding vslice_def by (metis Cons_nth_drop_Suc Suc_diff_Suc less_le_trans take_Suc_Cons)

lemma vslice_Nil [simp]: "j \<le> i \<Longrightarrow> vslice i j xs = []"
  by (simp add: vslice_def)

lemma length_vslice [simp]: "j \<le> length xs \<Longrightarrow> length (vslice i j xs) = j - i"
  by (simp add: vslice_def)

lemma vec_merge_ok:
  "i1 \<le> m \<Longrightarrow> m \<le> length nums \<Longrightarrow> i2 \<le> r \<Longrightarrow> r \<le> length nums \<Longrightarrow> index + (m - i1) + (r - i2) \<le> length t \<Longrightarrow>
   \<exists>t'. vec_merge nums t i1 m i2 r index = Some (t', index + (m - i1) + (r - i2)) \<and> length t' = length t \<and>
     take (index + (m - i1) + (r - i2)) t' = take index t @ imerge (vslice i1 m nums) (vslice i2 r nums)"
proof (induction "(m - i1) + (r - i2)" arbitrary: t i1 i2 index rule: less_induct)
  case less
  note side = less(2-6)
  have one: "\<exists>t'. vec_merge nums (t[index := x]) j1 m j2 r (index + 1) = Some (t', index + (m - i1) + (r - i2)) \<and>
      length t' = length t \<and>
      take (index + (m - i1) + (r - i2)) t' = take index t @ x # imerge (vslice j1 m nums) (vslice j2 r nums)"
    if j: "(j1 = Suc i1 \<and> j2 = i2 \<and> i1 < m) \<or> (j1 = i1 \<and> j2 = Suc i2 \<and> i2 < r)" for x j1 j2
  proof -
    have n: "(m - j1) + (r - j2) < (m - i1) + (r - i2)" "j1 \<le> m" "j2 \<le> r"
      "index + 1 + (m - j1) + (r - j2) = index + (m - i1) + (r - i2)" "index < length t" using j side by auto
    have "index + 1 + (m - j1) + (r - j2) \<le> length (t[index := x])" using n(4) side by simp
    from less(1) [OF n(1,2) side(2) n(3) side(4) this] obtain t' where
      t': "vec_merge nums (t[index := x]) j1 m j2 r (index + 1) = Some (t', index + (m - i1) + (r - i2))"
        "length t' = length t"
        "take (index + (m - i1) + (r - i2)) t' = take (index + 1) (t[index := x]) @ imerge (vslice j1 m nums) (vslice j2 r nums)"
      unfolding n(4) by auto
    have "take (index + 1) (t[index := x]) = take index t @ [x]"
      using n(5) by (simp add: take_Suc_conv_app_nth)
    then show ?thesis using t' by simp
  qed
  show ?case
  proof (cases "i1 < m")
    case i1: True
    show ?thesis
    proof (cases "i2 < r")
      case i2: True
      show ?thesis
      proof (cases "nums ! i1 < nums ! i2")
        case True
        then show ?thesis using one [of "Suc i1" i2 "nums ! i1"] i1 i2 side
          by (subst vec_merge.simps) (simp add: vslice_Cons ub_simps del: bind_eq_Some)
      next
        case False
        then show ?thesis using one [of i1 "Suc i2" "nums ! i2"] i1 i2 side
          by (subst vec_merge.simps) (simp add: vslice_Cons ub_simps del: bind_eq_Some)
      qed
    next
      case False
      then show ?thesis using one [of "Suc i1" i2 "nums ! i1"] i1 side
        by (subst vec_merge.simps) (simp add: vslice_Cons ub_simps del: bind_eq_Some)
    qed
  next
    case i1: False
    show ?thesis
    proof (cases "i2 < r")
      case True
      then show ?thesis using one [of i1 "Suc i2" "nums ! i2"] i1 side
        by (subst vec_merge.simps) (simp add: vslice_Cons ub_simps del: bind_eq_Some)
    next
      case False
      then show ?thesis using i1 side by (subst vec_merge.simps) simp
    qed
  qed
qed

lemma merge_rec_ok:
  "l \<le> r \<Longrightarrow> r \<le> length nums \<Longrightarrow> length t = length nums \<Longrightarrow>
   \<exists>t'. merge_rec nums t l r = Some (take l nums @ sort (vslice l r nums) @ drop r nums, t') \<and> length t' = length nums"
proof (induction "r - l" arbitrary: nums t l r rule: less_induct)
  case less
  show ?case
  proof (cases "l + 1 \<ge> r")
    case True
    then have "vslice l r nums = [] \<or> (\<exists>x. vslice l r nums = [x])"
      using less(2,3) by (cases "l = r") (auto simp: vslice_Cons)
    then have "sort (vslice l r nums) = vslice l r nums" by auto
    moreover have "take l nums @ vslice l r nums @ drop r nums = nums"
      using less(2) by (simp add: vslice_def) (metis append_take_drop_id drop_drop le_add_diff_inverse add.commute)
    ultimately show ?thesis using True less(4) by (subst merge_rec.simps) simp
  next
    case False
    define m where "m = l + (r - l) div 2"
    have m: "l < m" "m < r" "m \<le> length nums" using False less(3) by (auto simp: m_def)
    let ?A = "sort (vslice l m nums)" and ?B = "sort (vslice m r nums)"
    obtain t1 where 1: "merge_rec nums t l m = Some (take l nums @ ?A @ drop m nums, t1)" "length t1 = length nums"
    proof -
      have "m - l < r - l" "l \<le> m" using m by auto
      from less(1) [OF this m(3) less(4)] show ?thesis using that by blast
    qed
    let ?n1 = "take l nums @ ?A @ drop m nums"
    have l1: "length ?n1 = length nums" using m by simp
    have s1: "vslice m r ?n1 = vslice m r nums" "take m ?n1 = take l nums @ ?A" "drop r ?n1 = drop r nums"
      using m by (simp_all add: vslice_def)
    obtain t2 where 2: "merge_rec ?n1 t1 m r = Some (take l nums @ ?A @ ?B @ drop r nums, t2)" "length t2 = length nums"
    proof -
      have "r - m < r - l" "m \<le> r" "r \<le> length ?n1" "length t1 = length ?n1" using m l1 less(3) 1(2) by auto
      from less(1) [OF this] show ?thesis unfolding s1 append_assoc l1 using that by blast
    qed
    let ?n2 = "take l nums @ ?A @ ?B @ drop r nums"
    have l2: "length ?n2 = length nums" using m less(3) by simp
    have s2: "vslice l m ?n2 = ?A" "vslice m r ?n2 = ?B" "take l ?n2 = take l nums" "drop r ?n2 = drop r nums"
      using m less(3) by (simp_all add: vslice_def)
    have "0 + (m - l) + (r - m) \<le> length t2" using m less(3) 2(2) by simp
    from vec_merge_ok [OF _ _ _ _ this, of ?n2] obtain t3 where
      3: "vec_merge ?n2 t2 l m m r 0 = Some (t3, (m - l) + (r - m))" "length t3 = length nums"
      "take ((m - l) + (r - m)) t3 = imerge ?A ?B"
      using m less(3) l2 s2 2(2) by auto
    have ix: "(m - l) + (r - m) = r - l" "l + (r - l) = r" using m by simp_all
    have "copy_back ?n2 t3 l (r - l) = Some (take l nums @ imerge ?A ?B @ drop r nums)"
      using 3(2,3) l2 s2(3,4) less(2,3) unfolding ix by (simp add: copy_back_def)
    moreover have "imerge ?A ?B = sort (vslice l r nums)"
    proof -
      have "vslice l r nums = vslice l m nums @ vslice m r nums"
        using m unfolding vslice_def by (metis ix(1) drop_drop le_add_diff_inverse2 less_imp_le take_add)
      then show ?thesis by (intro properties_for_sort [symmetric]) (simp_all add: sorted_imerge)
    qed
    ultimately show ?thesis
      using False 1(1) 2(1) 3(1,2) unfolding ix m_def [symmetric]
      by (subst merge_rec.simps) (simp add: m_def [symmetric] del: bind_eq_Some)
  qed
qed

lemma mergeSort_ok: "mergeSort nums = Some (sort nums)"
  using merge_rec_ok [of 0 "length nums" nums "replicate (length nums) 0"]
  by (auto simp: mergeSort_def vslice_def)

subsection \<open>Counting sort\<close>

text \<open>
  \<open>r - l + 1\<close> is computed in \<open>int\<close>: a range of more than \<open>INT_MAX\<close> values is
  undefined, as is the minimum of an empty vector.
\<close>

fun count_loop :: "int list \<Rightarrow> nat list \<Rightarrow> int \<Rightarrow> nat list option" where
  "count_loop [] cnt l = Some cnt"
| "count_loop (n # ns) cnt l = do {
     c \<leftarrow> iget cnt (n - l);
     cnt \<leftarrow> iset cnt (n - l) (c + 1);
     count_loop ns cnt l }"

fun put_run :: "nat \<Rightarrow> int \<Rightarrow> int list \<Rightarrow> nat \<Rightarrow> (int list \<times> nat) option" where
  "put_run 0 v nums index = Some (nums, index)"
| "put_run (Suc c) v nums index = do { nums \<leftarrow> vset nums index v; put_run c v nums (index + 1) }"

fun put_loop :: "nat list \<Rightarrow> int \<Rightarrow> int list \<Rightarrow> nat \<Rightarrow> int list option" where
  "put_loop [] v nums index = Some nums"
| "put_loop (c # cs) v nums index = do {
     (nums, index) \<leftarrow> put_run c v nums index;
     put_loop cs (v + 1) nums index }"

definition countingSort :: "int list \<Rightarrow> int list option" where
  "countingSort nums =
     (if nums = [] then None
      else let l = Min (set nums); r = Max (set nums) in
        if r - l + 1 \<ge> 2 ^ 31 then None
        else do {
          cnt \<leftarrow> count_loop nums (replicate (nat (r - l + 1)) 0) l;
          put_loop cnt l nums 0 })"

lemma count_loop_ok:
  "\<forall>n \<in> set ns. l \<le> n \<and> n - l < int (length cnt) \<Longrightarrow>
   \<exists>cnt'. count_loop ns cnt l = Some cnt' \<and> length cnt' = length cnt \<and>
     (\<forall>i < length cnt. cnt' ! i = cnt ! i + count_list ns (l + int i))"
proof (induction ns arbitrary: cnt)
  case (Cons n ns)
  let ?c = "cnt[nat (n - l) := cnt ! nat (n - l) + 1]"
  have n: "0 \<le> n - l" "n - l < int (length cnt)" using Cons(2) by auto
  have "\<forall>m \<in> set ns. l \<le> m \<and> m - l < int (length ?c)" using Cons(2) by simp
  from Cons(1) [OF this] obtain c' where c': "count_loop ns ?c l = Some c'" "length c' = length cnt"
    "\<forall>i < length cnt. c' ! i = ?c ! i + count_list ns (l + int i)" by auto
  have "?c ! i + count_list ns (l + int i) = cnt ! i + count_list (n # ns) (l + int i)" if "i < length cnt" for i
    using n that by (auto simp: nth_list_update)
  then show ?case using c' n by (simp add: iget_in iset_in)
qed simp

lemma put_run_ok:
  "index + c \<le> length nums \<Longrightarrow>
   put_run c v nums index = Some (take index nums @ replicate c v @ drop (index + c) nums, index + c)"
proof (induction c arbitrary: nums index)
  case (Suc c)
  then have "index < length nums" by simp
  then show ?case using Suc
    by (simp add: ub_simps take_Suc_conv_app_nth replicate_append_same [symmetric] take_update_cancel drop_update_cancel)
qed simp

lemma put_loop_ok:
  "index + sum_list cs \<le> length nums \<Longrightarrow>
   put_loop cs v nums index = Some (take index nums @ concat (map (\<lambda>i. replicate (cs ! i) (v + int i)) [0..<length cs])
     @ drop (index + sum_list cs) nums)"
proof (induction cs arbitrary: v nums index)
  case (Cons c cs)
  have u: "[0..<length (c # cs)] = 0 # map Suc [0..<length cs]" by (simp add: upt_conv_Cons map_Suc_upt del: upt_Suc)
  have runs: "concat (map (\<lambda>i. replicate ((c # cs) ! i) (v + int i)) [0..<length (c # cs)]) =
      replicate c v @ concat (map (\<lambda>i. replicate (cs ! i) (v + 1 + int i)) [0..<length cs])"
    unfolding u by (simp add: comp_def algebra_simps)
  let ?n = "take index nums @ replicate c v @ drop (index + c) nums"
  have "length ?n = length nums" "take (index + c) ?n = take index nums @ replicate c v"
    "drop (index + c + sum_list cs) ?n = drop (index + c + sum_list cs) nums" using Cons(2) by (simp_all add: ac_simps)
  moreover have "put_run c v nums index = Some (?n, index + c)" using Cons(2) by (intro put_run_ok) simp
  moreover have "put_loop cs (v + 1) ?n (index + c) = Some (take (index + c) ?n @
      concat (map (\<lambda>i. replicate (cs ! i) (v + 1 + int i)) [0..<length cs]) @ drop (index + c + sum_list cs) ?n)"
    by (rule Cons(1)) (use Cons(2) calculation(1) in simp)
  ultimately show ?case unfolding runs by (simp add: add.assoc)
qed simp

lemma sorted_runs: "sorted (concat (map (\<lambda>i. replicate (f i) (v + int i)) [0..<n]))"
  by (induction n) (auto simp: sorted_append)

lemma count_runs:
  "count (mset (concat (map (\<lambda>i. replicate (f i) (v + int i)) [0..<n]))) x =
     (if v \<le> x \<and> x < v + int n then f (nat (x - v)) else 0)"
  by (induction n) auto

lemma countingSort_ok:
  assumes "nums \<noteq> []" and "Max (set nums) - Min (set nums) + 1 < 2 ^ 31"
  shows "countingSort nums = Some (sort nums)"
proof -
  let ?l = "Min (set nums)" and ?r = "Max (set nums)"
  let ?n = "nat (?r - ?l + 1)"
  have lr: "?l \<le> x" "x \<le> ?r" if "x \<in> set nums" for x using that by auto
  have "?l \<le> ?r" using assms(1) by (metis lr list.set_sel(1) order_trans)
  then have n: "int ?n = ?r - ?l + 1" by simp
  have "\<forall>x \<in> set nums. ?l \<le> x \<and> x - ?l < int (length (replicate ?n (0::nat)))"
    
  proof (intro ballI conjI)
    fix x assume "x \<in> set nums"
    then show "?l \<le> x" "x - ?l < int (length (replicate ?n (0::nat)))" using lr [of x] \<open>?l \<le> ?r\<close> by simp_all
  qed
  from count_loop_ok [OF this] obtain cs where cs: "count_loop nums (replicate ?n 0) ?l = Some cs" "length cs = ?n"
    "\<forall>i < ?n. cs ! i = count_list nums (?l + int i)" by auto
  let ?out = "concat (map (\<lambda>i. replicate (cs ! i) (?l + int i)) [0..<length cs])"
  have "mset ?out = mset nums"
  proof (rule multiset_eqI)
    fix x
    show "count (mset ?out) x = count (mset nums) x"
    proof (cases "x \<in> set nums")
      case True
      then have "nat (x - ?l) < ?n" "?l \<le> x" "x < ?l + int ?n" using lr [OF True] \<open>?l \<le> ?r\<close> by simp_all
      then have "count (mset ?out) x = count_list nums x" using cs(2,3) unfolding count_runs by simp
      then show ?thesis by (simp only: count_mset)
    next
      case False
      have "cs ! nat (x - ?l) = 0" if "?l \<le> x" "x < ?l + int ?n"
      proof -
        have "nat (x - ?l) < ?n" using that n by auto
        then have "cs ! nat (x - ?l) = count_list nums (?l + int (nat (x - ?l)))" using cs(3) by blast
        then show ?thesis using that False by (simp add: count_list_0_iff)
      qed
      then have "count (mset ?out) x = 0" using cs(2) unfolding count_runs by simp
      moreover have "count (mset nums) x = 0" using False by (simp add: not_in_iff [symmetric])
      ultimately show ?thesis by (simp only:)
    qed
  qed
  moreover have "sorted ?out" by (rule sorted_runs)
  ultimately have out: "?out = sort nums" by (metis properties_for_sort)
  have "sum_list cs = length ?out"
    by (simp add: length_concat comp_def map_nth)
  also have "\<dots> = length nums" using out by simp
  finally have "put_loop cs ?l nums 0 = Some ?out" using put_loop_ok [of 0 cs nums ?l] by simp
  then have "put_loop cs ?l nums 0 = Some (sort nums)" using out by simp
  moreover have "\<not> 2 ^ 31 \<le> ?r - ?l + 1" using assms(2) by linarith
  ultimately show ?thesis
    by (simp only: countingSort_def Let_def assms(1) cs(1) Option.bind_lunit if_False)
qed

subsection \<open>Heap sort\<close>

text \<open>
  \<open>heapSort2\<close> keeps a heap with the greatest element on top in the entries up to
  \<open>e\<close>, which is -1 for the empty vector.
\<close>

partial_function (option) heapify :: "int list \<Rightarrow> int \<Rightarrow> int \<Rightarrow> int list option" where
  "heapify nums i e =
     (if i \<le> e
      then do {
        let l = 2 * i + 1;
        let r = 2 * i + 2;
        let j = i;
        j \<leftarrow> (if l \<le> e then do { a \<leftarrow> iget nums l; b \<leftarrow> iget nums j; Some (if a > b then l else j) } else Some j);
        j \<leftarrow> (if r \<le> e then do { a \<leftarrow> iget nums r; b \<leftarrow> iget nums j; Some (if a > b then r else j) } else Some j);
        if j = i then Some nums
        else do { nums \<leftarrow> iswap nums i j; heapify nums j e } }
      else Some nums)"

fun heapify_each :: "int list \<Rightarrow> int list \<Rightarrow> int \<Rightarrow> int list option" where
  "heapify_each nums [] e = Some nums"
| "heapify_each nums (i # is) e = do { nums \<leftarrow> heapify nums i e; heapify_each nums is e }"

fun extract_loop :: "int list \<Rightarrow> int list \<Rightarrow> int list option" where
  "extract_loop nums [] = Some nums"
| "extract_loop nums (i # is) = do {
     nums \<leftarrow> iswap nums 0 i;
     nums \<leftarrow> heapify nums 0 (i - 1);
     extract_loop nums is }"

definition heapSort2 :: "int list \<Rightarrow> int list option" where
  "heapSort2 nums = do {
     let n = int (length nums);
     nums \<leftarrow> heapify_each nums (rev [0..n div 2]) (n - 1);
     extract_loop nums (rev [1..n - 1]) }"

text \<open>
  The entries below \<open>m\<close>, negated, are a heap with the least element on top:
  \<open>heapify\<close> is the mirror image of \<open>HeapifyDown\<close> of the binary heaps.
\<close>

definition mirror :: "nat \<Rightarrow> int list \<Rightarrow> int list" where
  "mirror m nums = map uminus (take m nums)"

lemma length_mirror [simp]: "m \<le> length nums \<Longrightarrow> length (mirror m nums) = m"
  by (simp add: mirror_def)

lemma mirror_nth: "m \<le> length nums \<Longrightarrow> k < m \<Longrightarrow> mirror m nums ! k = - (nums ! k)"
  by (simp add: mirror_def)

lemma heapify_mirror:
  assumes "m \<le> length nums"
  shows "heapify nums (int i) (int m - 1) =
    map_option (\<lambda>h. map uminus h @ drop m nums) (HeapifyDown (mirror m nums) i)"
  using assms
proof (induction "m - i" arbitrary: nums i rule: less_induct)
  case less
  note m = less(2)
  have same: "map uminus (mirror m nums) @ drop m nums = nums" for nums :: "int list"
    by (simp add: mirror_def comp_def)
  have l: "2 * int i + 1 = int (2 * i + 1)" "2 * int i + 2 = int (2 * i + 2)" by simp_all
  have g: "iget nums (int k) = Some (nums ! k)" if "k < m" for k using that m by (simp add: iget_in)
  have le: "int k \<le> int m - 1 \<longleftrightarrow> k < m" for k by linarith
  have step: "(do { nums \<leftarrow> iswap nums (int i) (int k); heapify nums (int k) (int m - 1) }) =
      map_option (\<lambda>h. map uminus h @ drop m nums) (HeapifyDown (vswap (mirror m nums) i k) k)" if "i < k" "k < m" for k
  proof -
    let ?n = "nums[i := nums ! k, k := nums ! i]"
    have sw: "iswap nums (int i) (int k) = Some ?n" using that m by (simp add: iswap_in)
    have "mirror m ?n = vswap (mirror m nums) i k"
      using that m by (intro nth_equalityI) (simp_all add: mirror_nth vswap_nth nth_list_update)
    moreover have "drop m ?n = drop m nums" using that by simp
    moreover have "m - k < m - i" "m \<le> length ?n" using that m by simp_all
    ultimately show ?thesis using less(1) [of k ?n] sw by simp
  qed
  show ?case
  proof (cases "m \<le> i * 2 + 1")
    case True
    then have "HeapifyDown (mirror m nums) i = Some (mirror m nums)" using m by (subst HeapifyDown.simps) simp
    moreover have "heapify nums (int i) (int m - 1) = Some nums"
      using True by (subst heapify.simps) (simp add: Let_def)
    ultimately show ?thesis by (simp add: same)
  next
    case False
    define k where "k = (if i * 2 + 2 < m \<and> mirror m nums ! (i * 2 + 2) < mirror m nums ! (i * 2 + 1) then i * 2 + 2 else i * 2 + 1)"
    have ik: "i < k" "k < m" "i < m" using False by (auto simp: k_def)
    have d: "HeapifyDown (mirror m nums) i = (if mirror m nums ! i \<le> mirror m nums ! k then Some (mirror m nums)
        else HeapifyDown (vswap (mirror m nums) i k) k)"
      using False ik m unfolding HeapifyDown.simps [of "mirror m nums" i] Let_def length_mirror [OF m] k_def [symmetric]
      by (simp add: ub_simps del: bind_eq_Some)
    have "heapify nums (int i) (int m - 1) = (if nums ! k \<le> nums ! i then Some nums
        else do { nums \<leftarrow> iswap nums (int i) (int k); heapify nums (int k) (int m - 1) })"
    proof -
      let ?l = "i * 2 + 1" and ?r = "i * 2 + 2"
      let ?j1 = "if nums ! ?l > nums ! i then ?l else i"
      let ?j2 = "if ?r < m then if nums ! ?r > nums ! ?j1 then ?r else ?j1 else ?j1"
      have "heapify nums (int i) (int m - 1) = (if ?j2 = i then Some nums
          else do { nums \<leftarrow> iswap nums (int i) (int ?j2); heapify nums (int ?j2) (int m - 1) })"
        using False ik(3) unfolding heapify.simps [of nums "int i"] Let_def l le
        by (simp add: g mult.commute del: bind_eq_Some of_nat_add of_nat_mult of_nat_Suc)
      moreover have "?j2 = (if nums ! k \<le> nums ! i then i else k)"
        using False m unfolding k_def by (auto simp: mirror_nth)
      ultimately show ?thesis using ik(1) by simp
    qed
    then show ?thesis using d step [OF ik(1,2)] ik m by (simp add: mirror_nth same)
  qed
qed

lemma heapify_each_ok:
  "heap_from k (mirror (length nums) nums) \<Longrightarrow>
   \<exists>ys. heapify_each nums (rev (map int [0..<k])) (int (length nums) - 1) = Some ys \<and> mset ys = mset nums \<and>
     heap_from 0 (mirror (length nums) ys)"
proof (induction k arbitrary: nums)
  case (Suc k)
  let ?m = "mirror (length nums) nums"
  have "down_inv k k ?m" using Suc(2) unfolding heap_from_def down_inv_def
    by (auto simp: le_less_Suc_eq le_Suc_eq)
  then obtain h where h: "HeapifyDown ?m k = Some h" "heap_from k h" "mset h = mset ?m" using HeapifyDown_ok by blast
  let ?n = "map uminus h"
  have l: "length h = length nums" using h(3) by (metis length_mirror order_refl size_mset)
  have "mirror (length ?n) ?n = h" using l by (simp add: mirror_def comp_def)
  moreover have "mset ?n = mset nums"
  proof -
    have "mset ?n = image_mset uminus (mset ?m)" using h(3) by simp
    then show ?thesis by (simp add: mirror_def image_mset.compositionality comp_def)
  qed
  moreover have "heapify nums (int k) (int (length nums) - 1) = Some ?n" using h(1) by (simp add: heapify_mirror)
  ultimately show ?case using Suc(1) [of ?n] h(2) l by auto
qed simp

lemma extract_loop_ok:
  "i < length nums \<Longrightarrow> heap_from 0 (mirror (i + 1) nums) \<Longrightarrow> sorted (drop (i + 1) nums) \<Longrightarrow>
   (\<forall>x \<in> set (take (i + 1) nums). \<forall>y \<in> set (drop (i + 1) nums). x \<le> y) \<Longrightarrow>
   extract_loop nums (rev [1..int i]) = Some (sort nums)"
proof (induction i arbitrary: nums)
  case 0
  then obtain x xs where "nums = x # xs" by (cases nums) auto
  then have "sorted nums" using 0 by simp
  then show ?case by (simp add: sorted_sort_id)
next
  case (Suc i)
  let ?m = "mirror (Suc i + 1) nums" and ?n = "nums[0 := nums ! Suc i, Suc i := nums ! 0]"
  have lm: "length ?m = i + 2" "?m \<noteq> []" using Suc(2) by (auto simp: mirror_def)
  have "1 \<le> int (Suc i)" by simp
  from upto_rec2 [OF this] have r: "rev [1..int (Suc i)] = int (Suc i) # rev [1..int i]" by simp
  have sw: "iswap nums 0 (int (Suc i)) = Some ?n"
    
  proof -
    have "0 < length nums" using Suc(2) by linarith
    then show ?thesis using Suc(2) iswap_in [of 0 nums "int (Suc i)"] by (simp del: of_nat_Suc length_greater_0_conv)
  qed
  have mir: "mirror (Suc i) ?n = butlast (vswap ?m (length ?m - 1) 0)"
  proof (intro nth_equalityI)
    have "nums \<noteq> []" using Suc(2) by auto
    fix j assume "j < length (mirror (Suc i) ?n)"
    then have "j < Suc i" using Suc(2) by simp
    then show "mirror (Suc i) ?n ! j = butlast (vswap ?m (length ?m - 1) 0) ! j"
      using Suc(2) lm \<open>nums \<noteq> []\<close> by (simp add: mirror_nth nth_butlast vswap_nth nth_list_update)
  qed (use Suc(2) lm in simp)
  from pop_ok [OF Suc(3) lm(2)] obtain h where h: "HeapifyDown (mirror (Suc i) ?n) 0 = Some h" "heap_from 0 h"
    "mset h = mset ?m - {#?m ! 0#}" unfolding mir by blast
  have "size (mset h) = i + 1" using h(3) lm by (simp add: size_Diff_singleton)
  then have lh: "length h = i + 1" by simp
  let ?z = "map uminus h @ drop (Suc i) ?n"
  have hy: "heapify ?n 0 (int i) = Some ?z"
    using heapify_mirror [of "Suc i" ?n 0] Suc(2) h(1) by simp
  have d: "drop (Suc i) ?n = nums ! 0 # drop (Suc i + 1) nums"
    using Suc(2) by (simp add: Cons_nth_drop_Suc [symmetric, of "Suc i"] nth_list_update drop_update_cancel)
  have m0: "?m ! 0 = - (nums ! 0)" using Suc(2) by (simp add: mirror_nth)
  have "mset (map uminus h) = image_mset uminus (mset ?m - {#?m ! 0#})" using h(3) by simp
  also have "\<dots> = mset (take (i + 2) nums) - {#nums ! 0#}"
    using lm by (subst image_mset_Diff) (simp_all add: m0, simp_all add: mirror_def image_mset.compositionality comp_def nth_mem_mset)
  finally have mh: "mset (map uminus h) = mset (take (i + 2) nums) - {#nums ! 0#}" .
  have mem: "nums ! 0 \<in># mset (take (i + 2) nums)" using Suc(2) by (cases nums) auto
  have mz: "mset ?z = mset nums"
  proof -
    have "mset ?z = mset (take (i + 2) nums) + mset (drop (i + 2) nums)" using mem unfolding d mset_append mh by simp
    also have "\<dots> = mset nums" by (metis append_take_drop_id mset_append)
    finally show ?thesis .
  qed
  have sub: "x \<in> set (take (i + 2) nums)" if "x \<in> set (map uminus h)" for x
    using that mh by (metis in_diffD set_mset_mset)
  have top: "x \<le> nums ! 0" if x: "x \<in> set (take (i + 2) nums)" for x
  proof -
    obtain j where j: "j < i + 2" "x = nums ! j" using x by (auto simp: in_set_conv_nth)
    have "?m ! 0 \<le> ?m ! j" using Suc(3) by (rule heap_root) (use lm j in simp)
    then show ?thesis using j Suc(2) by (simp add: mirror_nth)
  qed
  have "extract_loop ?z (rev [1..int i]) = Some (sort ?z)"
  proof (rule Suc(1))
    show "i < length ?z" using lh by simp
    have "mirror (i + 1) ?z = h" using lh by (simp add: mirror_def comp_def)
    then show "heap_from 0 (mirror (i + 1) ?z)" using h(2) by simp
    have dz: "drop (i + 1) ?z = nums ! 0 # drop (Suc i + 1) nums" and tz: "take (i + 1) ?z = map uminus h" using lh d by simp_all
    have "nums ! 0 \<in> set (take (i + 2) nums)" using mem by simp
    then show "sorted (drop (i + 1) ?z)" unfolding dz using Suc(4,5) by simp
    show "\<forall>x \<in> set (take (i + 1) ?z). \<forall>y \<in> set (drop (i + 1) ?z). x \<le> y"
      unfolding dz tz using sub top Suc(5) by auto
  qed
  then show ?case unfolding r using sw hy sort_cong [OF mz] by simp
qed

lemma heapSort2_ok: "heapSort2 nums = Some (sort nums)"
proof (cases "nums = []")
  case True
  have "heapify [] 0 (-1) = Some []" by (subst heapify.simps) simp
  then show ?thesis using True by (simp add: heapSort2_def Let_def)
next
  case False
  let ?n = "length nums"
  have e: "[0..int ?n div 2] = map int [0..<?n div 2 + 1]"
    by (rule nth_equalityI) (simp_all add: nth_upto zdiv_int del: upt_Suc)
  have "heap_from (?n div 2 + 1) (mirror ?n nums)" unfolding heap_from_def by auto
  from heapify_each_ok [OF this] obtain ys where ys:
    "heapify_each nums (rev [0..int ?n div 2]) (int ?n - 1) = Some ys" "mset ys = mset nums" "heap_from 0 (mirror ?n ys)"
    unfolding e by blast
  have l: "length ys = ?n" using ys(2) by (metis size_mset)
  have "extract_loop ys (rev [1..int (?n - 1)]) = Some (sort ys)"
    using False l ys(3) by (intro extract_loop_ok) (simp_all add: Suc_diff_1 [symmetric])
  moreover have "int (?n - 1) = int ?n - 1" using False by (cases nums) simp_all
  ultimately show ?thesis using ys(1) sort_cong [OF ys(2)] by (simp add: heapSort2_def Let_def)
qed

subsection \<open>All of them\<close>

text \<open>
  C13: all sorts of \<open>sortArray.cc\<close> return, never leave the vector, and compute the same
  function, the sorted permutation. Counting sort does so for a vector that is not empty and
  whose values span less than \<open>INT_MAX\<close>; it is undefined on the others.
\<close>

theorem vector_sorts_agree:
  "insertion_sort nums = Some (sort nums) \<and> quickSort nums = Some (sort nums) \<and>
   parallelQuickSort nums = Some (sort nums) \<and> heapSort2 nums = Some (sort nums) \<and>
   mergeSort nums = Some (sort nums) \<and>
   countingSort nums = (if nums \<noteq> [] \<and> Max (set nums) - Min (set nums) + 1 < 2 ^ 31 then Some (sort nums) else None)"
proof -
  let ?fits = "nums \<noteq> [] \<and> Max (set nums) - Min (set nums) + 1 < 2 ^ 31"
  have "countingSort nums = (if ?fits then Some (sort nums) else None)"
  proof (cases ?fits)
    case True
    then show ?thesis by (simp only: countingSort_ok if_True simp_thms)
  next
    case False
    then show ?thesis 
    proof (cases "nums = []")
      case F: False
      then have "2 ^ 31 \<le> Max (set nums) - Min (set nums) + 1" using False by linarith
      then show ?thesis using F False by (simp only: countingSort_def Let_def if_True if_False)
    qed (simp add: countingSort_def)
  qed
  then show ?thesis using insertion_sort_ok quickSort_ok parallelQuickSort_ok heapSort2_ok mergeSort_ok by blast
qed

end
