(* ===== verification/Trees.thy ===== *)
theory Trees
  imports Prelude "HOL-Library.Tree" "HOL-Library.Product_Lexorder"
begin

section \<open>Binary trees (leetcode/tree, leetcode/BST)\<close>

text \<open>
  A pointer to a \<open>TreeNode\<close> that is only read is a value of the library's trees: the
  null pointer is \<open>Leaf\<close>, a node has a left subtree, a value and a right subtree. The
  library gives the reference definitions (\<open>inorder\<close>, \<open>preorder\<close>,
  \<open>postorder\<close>, \<open>mirror\<close>, \<open>height\<close>). A local function that captures a
  variable by reference takes it as an argument and returns it.
\<close>

type_synonym TreeNode = "int tree"

subsection \<open>Recursive and iterative traversals\<close>

fun recursive_helper :: "TreeNode \<Rightarrow> int list \<Rightarrow> int list" where
  "recursive_helper Leaf nodes = nodes"
| "recursive_helper (Node l v r) nodes = recursive_helper r (recursive_helper l nodes @ [v])"

definition inorderTraversal_recursive :: "TreeNode \<Rightarrow> int list" where
  "inorderTraversal_recursive root = recursive_helper root []"

fun push_left :: "TreeNode \<Rightarrow> TreeNode list \<Rightarrow> TreeNode list" where
  "push_left Leaf stk = stk"
| "push_left (Node l v r) stk = push_left l (Node l v r # stk)"

partial_function (option) inorder_loop :: "TreeNode \<Rightarrow> TreeNode list \<Rightarrow> int list \<Rightarrow> int list option" where
  "inorder_loop root stk nodes = (case push_left root stk of
     [] \<Rightarrow> Some nodes
   | node # stk \<Rightarrow> (case node of
       Leaf \<Rightarrow> None
     | Node l v r \<Rightarrow> inorder_loop r stk (nodes @ [v])))"

definition inorderTraversal_iterative :: "TreeNode \<Rightarrow> int list option" where
  "inorderTraversal_iterative root = inorder_loop root [] []"

fun preorder_rec :: "TreeNode \<Rightarrow> int list \<Rightarrow> int list" where
  "preorder_rec Leaf nodes = nodes"
| "preorder_rec (Node l v r) nodes = preorder_rec r (preorder_rec l (nodes @ [v]))"

definition preorderTraversal_recursive :: "TreeNode \<Rightarrow> int list" where
  "preorderTraversal_recursive root = preorder_rec root []"

definition push_child :: "TreeNode \<Rightarrow> TreeNode list \<Rightarrow> TreeNode list" where
  "push_child t stk = (if t = Leaf then stk else t # stk)"

partial_function (option) preorder_loop :: "TreeNode list \<Rightarrow> int list \<Rightarrow> int list option" where
  "preorder_loop stk nodes = (case stk of
     [] \<Rightarrow> Some nodes
   | node # stk \<Rightarrow> (case node of
       Leaf \<Rightarrow> None
     | Node l v r \<Rightarrow> preorder_loop (push_child l (push_child r stk)) (nodes @ [v])))"

definition preorderTraversal_iterative :: "TreeNode \<Rightarrow> int list option" where
  "preorderTraversal_iterative root = preorder_loop (push_child root []) []"

fun postorder_rec :: "TreeNode \<Rightarrow> int list \<Rightarrow> int list" where
  "postorder_rec Leaf nodes = nodes"
| "postorder_rec (Node l v r) nodes = postorder_rec r (postorder_rec l nodes) @ [v]"

definition postorderTraversal_recursive :: "TreeNode \<Rightarrow> int list" where
  "postorderTraversal_recursive root = postorder_rec root []"

partial_function (option) postorder_loop :: "TreeNode list \<Rightarrow> int list \<Rightarrow> int list option" where
  "postorder_loop stk dq = (case stk of
     [] \<Rightarrow> Some dq
   | node # stk \<Rightarrow> (case node of
       Leaf \<Rightarrow> None
     | Node l v r \<Rightarrow> postorder_loop (push_child r (push_child l stk)) (v # dq)))"

definition postorderTraversal_iterative :: "TreeNode \<Rightarrow> int list option" where
  "postorderTraversal_iterative root = postorder_loop (push_child root []) []"

text \<open>\<open>BST/validateBST.cc\<close> repeats the iterative traversal.\<close>

partial_function (option) inorderTraversal_loop :: "TreeNode \<Rightarrow> TreeNode list \<Rightarrow> int list \<Rightarrow> int list option" where
  "inorderTraversal_loop root stk res = (case push_left root stk of
     [] \<Rightarrow> Some res
   | node # stk \<Rightarrow> (case node of
       Leaf \<Rightarrow> None
     | Node l v r \<Rightarrow> inorderTraversal_loop r stk (res @ [v])))"

definition inorderTraversal :: "TreeNode \<Rightarrow> int list option" where
  "inorderTraversal root = inorderTraversal_loop root [] []"

definition isValidBST :: "TreeNode \<Rightarrow> bool option" where
  "isValidBST root = do { res \<leftarrow> inorderTraversal root; Some (sorted res) }"

lemma recursive_helper_eq: "recursive_helper t nodes = nodes @ inorder t"
  by (induction t arbitrary: nodes) auto

lemma preorder_rec_eq: "preorder_rec t nodes = nodes @ preorder t"
  by (induction t arbitrary: nodes) auto

lemma postorder_rec_eq: "postorder_rec t nodes = nodes @ postorder t"
  by (induction t arbitrary: nodes) auto

lemma inorder_loop_step:
  "inorder_loop t stk nodes = inorder_loop Leaf stk (nodes @ inorder t)"
proof (induction t arbitrary: stk nodes)
  case (Node l v r)
  have "inorder_loop (Node l v r) stk nodes = inorder_loop l (Node l v r # stk) nodes"
    by (subst (1 2) inorder_loop.simps) simp
  also have "\<dots> = inorder_loop Leaf (Node l v r # stk) (nodes @ inorder l)" by (rule Node(1))
  also have "\<dots> = inorder_loop r stk (nodes @ inorder l @ [v])" by (subst inorder_loop.simps) simp
  also have "\<dots> = inorder_loop Leaf stk ((nodes @ inorder l @ [v]) @ inorder r)" by (rule Node(2))
  finally show ?case by simp
qed simp

lemma inorder_loop_end: "inorder_loop Leaf [] nodes = Some nodes"
  by (subst inorder_loop.simps) simp

lemma inorderTraversal_loop_eq: "inorderTraversal_loop = inorder_loop"
proof (intro ext)
  fix t stk nodes
  show "inorderTraversal_loop t stk nodes = inorder_loop t stk nodes"
  proof -
    have step: "inorderTraversal_loop t stk nodes = inorderTraversal_loop Leaf stk (nodes @ inorder t)" for t stk nodes
    proof (induction t arbitrary: stk nodes)
      case (Node l v r)
      have "inorderTraversal_loop (Node l v r) stk nodes = inorderTraversal_loop l (Node l v r # stk) nodes"
        by (subst (1 2) inorderTraversal_loop.simps) simp
      also have "\<dots> = inorderTraversal_loop Leaf (Node l v r # stk) (nodes @ inorder l)" by (rule Node(1))
      also have "\<dots> = inorderTraversal_loop r stk (nodes @ inorder l @ [v])"
        by (subst inorderTraversal_loop.simps) simp
      also have "\<dots> = inorderTraversal_loop Leaf stk ((nodes @ inorder l @ [v]) @ inorder r)" by (rule Node(2))
      finally show ?case by simp
    qed simp
    have "inorderTraversal_loop Leaf stk nodes = inorder_loop Leaf stk nodes" for nodes
    proof (induction stk arbitrary: nodes)
      case Nil
      then show ?case by (subst inorderTraversal_loop.simps, subst inorder_loop.simps) simp
    next
      case (Cons t stk)
      show ?case
      proof (cases t)
        case Leaf
        then show ?thesis by (subst inorderTraversal_loop.simps, subst inorder_loop.simps) simp
      next
        case (Node l v r)
        then show ?thesis using Cons step [of r] inorder_loop_step [of r]
          by (subst inorderTraversal_loop.simps, subst inorder_loop.simps) simp
      qed
    qed
    then show ?thesis using step inorder_loop_step by metis
  qed
qed

definition stack_size :: "TreeNode list \<Rightarrow> nat" where
  "stack_size stk = sum_list (map size stk)"

lemma stack_size_simps [simp]:
  "stack_size [] = 0" "stack_size (t # stk) = size t + stack_size stk" "stack_size (push_child t stk) = size t + stack_size stk"
  by (simp_all add: stack_size_def push_child_def)

lemma Leaf_in_push [simp]: "Leaf \<in> set (push_child t stk) \<longleftrightarrow> Leaf \<in> set stk"
  by (auto simp: push_child_def)

lemma concat_push [simp]: "f Leaf = [] \<Longrightarrow> concat (map f (push_child t stk)) = f t @ concat (map f stk)"
  by (auto simp: push_child_def)

lemma concat_rev_push [simp]:
  "f Leaf = [] \<Longrightarrow> concat (map f (rev (push_child t stk))) = concat (map f (rev stk)) @ f t"
  by (auto simp: push_child_def)

lemma preorder_loop_ok:
  "Leaf \<notin> set stk \<Longrightarrow> preorder_loop stk nodes = Some (nodes @ concat (map preorder stk))"
proof (induction "stack_size stk" arbitrary: stk nodes rule: less_induct)
  case less
  show ?case
  proof (cases stk)
    case Nil
    then show ?thesis by (subst preorder_loop.simps) simp
  next
    case (Cons t rest)
    then obtain l v r where t: "t = Node l v r" using less(2) by (cases t) auto
    have "preorder_loop (push_child l (push_child r rest)) (nodes @ [v]) =
        Some ((nodes @ [v]) @ concat (map preorder (push_child l (push_child r rest))))"
      using less(2) by (intro less(1)) (simp_all add: Cons t)
    then show ?thesis by (subst preorder_loop.simps) (simp add: Cons t)
  qed
qed

lemma postorder_loop_ok:
  "Leaf \<notin> set stk \<Longrightarrow> postorder_loop stk dq = Some (concat (map postorder (rev stk)) @ dq)"
proof (induction "stack_size stk" arbitrary: stk dq rule: less_induct)
  case less
  show ?case
  proof (cases stk)
    case Nil
    then show ?thesis by (subst postorder_loop.simps) simp
  next
    case (Cons t rest)
    then obtain l v r where t: "t = Node l v r" using less(2) by (cases t) auto
    have "postorder_loop (push_child r (push_child l rest)) (v # dq) =
        Some (concat (map postorder (rev (push_child r (push_child l rest)))) @ v # dq)"
      using less(2) by (intro less(1)) (simp_all add: Cons t)
    then show ?thesis by (subst postorder_loop.simps) (simp add: Cons t)
  qed
qed

text \<open>
  The recursive and the iterative version of each of the three traversals compute the
  same list, the one of the reference definition, and the stack never holds a null pointer.
\<close>

theorem traversals_agree:
  "inorderTraversal_recursive t = inorder t \<and> inorderTraversal_iterative t = Some (inorder t) \<and>
   inorderTraversal t = Some (inorder t) \<and>
   preorderTraversal_recursive t = preorder t \<and> preorderTraversal_iterative t = Some (preorder t) \<and>
   postorderTraversal_recursive t = postorder t \<and> postorderTraversal_iterative t = Some (postorder t)"
  unfolding inorderTraversal_recursive_def inorderTraversal_iterative_def inorderTraversal_def
    preorderTraversal_recursive_def preorderTraversal_iterative_def postorderTraversal_recursive_def
    postorderTraversal_iterative_def recursive_helper_eq preorder_rec_eq postorder_rec_eq
    inorderTraversal_loop_eq inorder_loop_step [of t] inorder_loop_end
  by (simp add: preorder_loop_ok postorder_loop_ok)

lemma isValidBST_iff: "isValidBST t = Some (sorted (inorder t))"
  by (simp add: isValidBST_def inorderTraversal_def inorderTraversal_loop_eq inorder_loop_step [of t] inorder_loop_end)

text \<open>Equal values are let through, also to the left of a node.\<close>

lemma isValidBST_duplicates: "isValidBST (Node (Node Leaf 1 Leaf) 1 Leaf) = Some True"
  by (simp add: isValidBST_iff)

subsection \<open>Level order\<close>

function level_pass :: "TreeNode list \<Rightarrow> TreeNode list \<Rightarrow> int list \<Rightarrow> (int list \<times> TreeNode list) option" where
  "level_pass cur_level next_level vec =
     (if cur_level = [] then Some (vec, next_level)
      else case last cur_level of
        Leaf \<Rightarrow> None
      | Node l v r \<Rightarrow>
          let next_level = (if r \<noteq> Leaf then next_level @ [r] else next_level);
              next_level = (if l \<noteq> Leaf then next_level @ [l] else next_level)
          in level_pass (butlast cur_level) next_level (vec @ [v]))"
  by pat_completeness auto
termination by (relation "measure (\<lambda>(c, _). length c)") auto

declare level_pass.simps [simp del]

partial_function (option) levels_loop :: "TreeNode list \<Rightarrow> int list list \<Rightarrow> int list list option" where
  "levels_loop cur_level res = do {
     (vec, next_level) \<leftarrow> level_pass cur_level [] [];
     let res = res @ [vec];
     if next_level = [] then Some res else levels_loop next_level res }"

definition levelOrderTraversal :: "TreeNode \<Rightarrow> int list list option" where
  "levelOrderTraversal root = (if root = Leaf then Some [] else levels_loop [root] [])"

text \<open>The values at depth \<open>d\<close>, from left to right.\<close>

fun at_depth :: "nat \<Rightarrow> TreeNode \<Rightarrow> int list" where
  "at_depth d Leaf = []"
| "at_depth 0 (Node l v r) = [v]"
| "at_depth (Suc d) (Node l v r) = at_depth d l @ at_depth d r"

definition kids :: "TreeNode \<Rightarrow> TreeNode list" where
  "kids t = (case t of Leaf \<Rightarrow> [] | Node l v r \<Rightarrow> (if r = Leaf then [] else [r]) @ (if l = Leaf then [] else [l]))"

lemma kids_simps [simp]:
  "kids Leaf = []" "kids (Node l v r) = (if r = Leaf then [] else [r]) @ (if l = Leaf then [] else [l])"
  by (simp_all add: kids_def)

lemma level_pass_ok:
  "Leaf \<notin> set cur \<Longrightarrow>
   level_pass cur nxt vec = Some (vec @ concat (map (at_depth 0) (rev cur)), nxt @ concat (map kids (rev cur)))"
proof (induction cur arbitrary: nxt vec rule: rev_induct)
  case Nil
  then show ?case by (subst level_pass.simps) simp
next
  case (snoc t cur)
  then obtain l v r where "t = Node l v r" by (cases t) auto
  then show ?case using snoc by (subst level_pass.simps) (simp add: Let_def)
qed

definition depth_mset :: "nat \<Rightarrow> TreeNode list \<Rightarrow> int multiset" where
  "depth_mset d ts = (\<Sum>t \<in># mset ts. mset (at_depth d t))"

lemma depth_mset_simps [simp]:
  "depth_mset d [] = {#}" "depth_mset d (t # ts) = mset (at_depth d t) + depth_mset d ts"
  "depth_mset d (ts @ us) = depth_mset d ts + depth_mset d us" "depth_mset d (rev ts) = depth_mset d ts"
  by (simp_all add: depth_mset_def)

lemma depth_mset_kids: "depth_mset d (kids t) = mset (at_depth (Suc d) t)"
  by (cases t) auto

lemma depth_mset_next: "depth_mset d (concat (map kids ts)) = depth_mset (Suc d) ts"
  by (induction ts) (simp_all add: depth_mset_kids)

lemma kids_not_Leaf: "Leaf \<notin> set (kids t)"
  by (cases t) auto

fun max_height :: "TreeNode list \<Rightarrow> nat" where
  "max_height [] = 0"
| "max_height (t # ts) = max (height t) (max_height ts)"

lemma max_height_append [simp]: "max_height (ts @ us) = max (max_height ts) (max_height us)"
  by (induction ts) (simp_all add: max.assoc)

lemma max_height_rev [simp]: "max_height (rev ts) = max_height ts"
  by (induction ts) (simp_all add: max.commute)

lemma height_kids: "t \<noteq> Leaf \<Longrightarrow> height t = Suc (max_height (kids t))"
  by (cases t) auto

lemma max_height_next: "Leaf \<notin> set ts \<Longrightarrow> ts \<noteq> [] \<Longrightarrow> max_height ts = Suc (max_height (concat (map kids ts)))"
proof (induction ts)
  case (Cons t ts)
  then have "height t = Suc (max_height (kids t))" using height_kids by auto
  then show ?case using Cons by (cases "ts = []") simp_all
qed simp

lemma levels_loop_ok:
  "Leaf \<notin> set cur \<Longrightarrow> cur \<noteq> [] \<Longrightarrow>
   \<exists>ls. levels_loop cur res = Some (res @ ls) \<and> length ls = max_height cur \<and>
     (\<forall>d < max_height cur. mset (ls ! d) = depth_mset d cur)"
proof (induction "max_height cur" arbitrary: cur res)
  case 0
  then show ?case using max_height_next by force
next
  case (Suc h)
  let ?vec = "concat (map (at_depth 0) (rev cur))" and ?next = "concat (map kids (rev cur))"
  have m: "max_height ?next = h"
    using max_height_next [of "rev cur"] Suc(2-4) by simp
  have vec: "mset ?vec = depth_mset 0 cur" by (induction cur) (simp_all add: add.commute)
  have eq: "levels_loop cur res = (if ?next = [] then Some (res @ [?vec]) else levels_loop ?next (res @ [?vec]))"
    by (subst levels_loop.simps) (simp add: level_pass_ok [OF Suc(3)] Let_def)
  show ?case
  proof (cases "?next = []")
    case True
    then have "h = 0" using m by (metis max_height.simps(1))
    then have "max_height cur = 1" using Suc(2) by simp
    then show ?thesis using eq True vec by (intro exI [of _ "[?vec]"]) (simp del: concat_eq_Nil_conv)
  next
    case False
    have "Leaf \<notin> set ?next" using kids_not_Leaf by auto
    from Suc(1) [OF m [symmetric] this False, of "res @ [?vec]"] obtain ls where
      ls: "levels_loop ?next (res @ [?vec]) = Some ((res @ [?vec]) @ ls)" "length ls = h"
        "\<forall>d < h. mset (ls ! d) = depth_mset d ?next" unfolding m by blast
    have "mset ((?vec # ls) ! d) = depth_mset d cur" if "d < Suc h" for d
    proof (cases d)
      case 0
      then show ?thesis using vec by simp
    next
      case (Suc e)
      then have "mset ((?vec # ls) ! d) = depth_mset e ?next" using ls(3) that by simp
      then show ?thesis using depth_mset_next [of e "rev cur"] Suc by simp
    qed
    then show ?thesis using eq False ls(1,2) Suc(2) by (intro exI [of _ "?vec # ls"]) (simp del: concat_eq_Nil_conv)
  qed
qed

lemma levelOrderTraversal_ok:
  "\<exists>ls. levelOrderTraversal t = Some ls \<and> length ls = height t \<and> (\<forall>d < height t. mset (ls ! d) = mset (at_depth d t))"
proof (cases "t = Leaf")
  case False
  then show ?thesis using levels_loop_ok [of "[t]" "[]"] by (simp add: levelOrderTraversal_def)
qed (simp add: levelOrderTraversal_def)

text \<open>From the third level on the values are not in order from left to right.\<close>

lemma levelOrderTraversal_order:
  "levelOrderTraversal (Node (Node (Node Leaf 4 Leaf) 2 (Node Leaf 5 Leaf)) 1 (Node (Node Leaf 6 Leaf) 3 (Node Leaf 7 Leaf)))
   = Some [[1], [2, 3], [6, 7, 4, 5]]"
  by (simp add: levelOrderTraversal_def levels_loop.simps level_pass.simps Let_def)

subsection \<open>Tests of a tree\<close>

text \<open>
  \<open>height\<close> inside \<open>isBalanced\<close> returns the height and the captured flag
  \<open>balanced\<close>. The only call of it is commented out.
\<close>

fun height_flag :: "TreeNode \<Rightarrow> bool \<Rightarrow> int \<times> bool" where
  "height_flag Leaf balanced = (0, balanced)"
| "height_flag (Node l v r) balanced =
     (let (left_height, balanced) = height_flag l balanced in
      if \<not> balanced then (- 1, balanced)
      else let (right_height, balanced) = height_flag r balanced in
        if \<bar>left_height - right_height\<bar> > 1 then (- 1, False)
        else (max left_height right_height + 1, balanced))"

definition isBalanced :: "TreeNode \<Rightarrow> bool" where
  "isBalanced root = (let balanced = True in balanced)"

fun balanced_tree :: "TreeNode \<Rightarrow> bool" where
  "balanced_tree Leaf = True"
| "balanced_tree (Node l v r) \<longleftrightarrow> balanced_tree l \<and> balanced_tree r \<and> \<bar>int (height l) - int (height r)\<bar> \<le> 1"

text \<open>The local function computes what the exercise asks for, but its result is not used.\<close>

lemma height_flag_ok:
  "snd (height_flag t True) = balanced_tree t \<and> (balanced_tree t \<longrightarrow> fst (height_flag t True) = int (height t))"
proof (induction t)
  case (Node l v r)
  obtain a b where l: "height_flag l True = (a, b)" by fastforce
  obtain c d where r: "height_flag r True = (c, d)" by fastforce
  show ?case using Node l r by (cases b; cases d) (auto simp: Let_def max_def)
qed simp

lemma isBalanced_constant: "isBalanced t" and isBalanced_wrong: "\<exists>t. isBalanced t \<and> \<not> balanced_tree t"
proof -
  show *: "isBalanced t" for t by (simp add: isBalanced_def)
  have "\<not> balanced_tree (Node Leaf 1 (Node Leaf 2 (Node Leaf 3 Leaf)))" by simp
  with * show "\<exists>t. isBalanced t \<and> \<not> balanced_tree t" by blast
qed

fun isMirror :: "TreeNode \<Rightarrow> TreeNode \<Rightarrow> bool" where
  "isMirror Leaf Leaf = True"
| "isMirror Leaf (Node l2 v2 r2) = False"
| "isMirror (Node l1 v1 r1) Leaf = False"
| "isMirror (Node l1 v1 r1) (Node l2 v2 r2) = (v1 = v2 \<and> isMirror l1 r2 \<and> isMirror r1 l2)"

definition isSymmetricTree :: "TreeNode \<Rightarrow> bool" where
  "isSymmetricTree root = isMirror root root"

lemma isMirror_iff: "isMirror s t \<longleftrightarrow> mirror s = t"
  by (induction s t rule: isMirror.induct) auto

lemma isSymmetricTree_iff: "isSymmetricTree t \<longleftrightarrow> mirror t = t"
  by (simp add: isSymmetricTree_def isMirror_iff)

fun isSameTree :: "TreeNode \<Rightarrow> TreeNode \<Rightarrow> bool" where
  "isSameTree Leaf Leaf = True"
| "isSameTree Leaf (Node l2 v2 r2) = False"
| "isSameTree (Node l1 v1 r1) Leaf = False"
| "isSameTree (Node l1 v1 r1) (Node l2 v2 r2) =
     (if v1 \<noteq> v2 then False else isSameTree l1 l2 \<and> isSameTree r1 r2)"

lemma isSameTree_iff: "isSameTree s t \<longleftrightarrow> s = t"
  by (induction s t rule: isSameTree.induct) auto

subsection \<open>Sums along paths\<close>

text \<open>The values on the paths from the root to the leaves.\<close>

fun paths :: "TreeNode \<Rightarrow> int list list" where
  "paths Leaf = []"
| "paths (Node l v r) = (if l = Leaf \<and> r = Leaf then [[v]] else map ((#) v) (paths l @ paths r))"

fun hasPathSum :: "TreeNode \<Rightarrow> int \<Rightarrow> bool" where
  "hasPathSum Leaf s = False"
| "hasPathSum (Node l v r) s =
     (if l = Leaf \<and> r = Leaf then s = v else hasPathSum l (s - v) \<or> hasPathSum r (s - v))"

lemma hasPathSum_iff: "hasPathSum t s \<longleftrightarrow> (\<exists>p \<in> set (paths t). sum_list p = s)"
proof (induction t arbitrary: s)
  case (Node l v r)
  have e: "v + x = s \<longleftrightarrow> x = s - v" for x by auto
  show ?case
  proof (cases "l = Leaf \<and> r = Leaf")
    case False
    then have "paths (Node l v r) = map ((#) v) (paths l @ paths r)" by auto
    then have "(\<exists>p \<in> set (paths (Node l v r)). sum_list p = s) \<longleftrightarrow>
        (\<exists>p \<in> set (paths l) \<union> set (paths r). sum_list p = s - v)" by (simp add: e bex_Un del: paths.simps)
    moreover have "hasPathSum (Node l v r) s = (hasPathSum l (s - v) \<or> hasPathSum r (s - v))" using False by auto
    ultimately show ?thesis by (simp only: Node bex_Un)
  qed auto
qed simp

fun sum_numbers :: "TreeNode \<Rightarrow> int \<Rightarrow> int \<Rightarrow> int" where
  "sum_numbers Leaf num result = result"
| "sum_numbers (Node l v r) num result =
     (let num = num * 10 + v in
      if l \<noteq> Leaf \<or> r \<noteq> Leaf then sum_numbers r num (sum_numbers l num result)
      else result + num)"

definition sumNumbers :: "TreeNode \<Rightarrow> int" where
  "sumNumbers root = sum_numbers root 0 0"

lemma sum_numbers_ok:
  "sum_numbers t num result = result + (\<Sum>p \<leftarrow> paths t. foldl (\<lambda>n d. n * 10 + d) num p)"
  by (induction t arbitrary: num result) (auto simp: Let_def comp_def)

lemma sumNumbers_ok: "sumNumbers t = (\<Sum>p \<leftarrow> paths t. foldl (\<lambda>n d. n * 10 + d) 0 p)"
  by (simp add: sumNumbers_def sum_numbers_ok)

text \<open>\<open>maxPathSum\<close> calls itself where it means to call the local function \<open>maxSum\<close>.\<close>

fun maxPathSum :: "TreeNode \<Rightarrow> int" where
  "maxPathSum Leaf = 0"
| "maxPathSum (Node left_child v right_child) =
     (let l = max 0 (maxPathSum left_child);
          r = max 0 (maxPathSum right_child);
          s = l + r + v
      in max (- (2 ^ 31)) s)"

text \<open>
  So it adds up sums of paths that do not meet: on the tree below the best path is 5, 0, 4
  with the sum 9, but the result is 12.
\<close>

lemma maxPathSum_wrong: "maxPathSum (Node (Node (Node Leaf 3 Leaf) 0 (Node Leaf 4 Leaf)) 5 Leaf) = 12"
  by simp

subsection \<open>Aggregates\<close>

text \<open>\<open>res[0]\<close> and \<open>res[1]\<close> of \<open>robHelper\<close> are a pair.\<close>

fun robHelper :: "TreeNode \<Rightarrow> int \<times> int" where
  "robHelper Leaf = (0, 0)"
| "robHelper (Node l v r) =
     (let lhs = robHelper l; rhs = robHelper r in
      (max (fst lhs) (snd lhs) + max (fst rhs) (snd rhs), v + fst lhs + fst rhs))"

definition rob :: "TreeNode \<Rightarrow> int" where
  "rob root = (let res = robHelper root in max (fst res) (snd res))"

text \<open>The sums that can be had without taking a node and one of its children.\<close>

inductive loot :: "TreeNode \<Rightarrow> bool \<Rightarrow> int \<Rightarrow> bool" where
  loot_Leaf: "loot Leaf False 0"
| loot_skip: "loot l a x \<Longrightarrow> loot r b y \<Longrightarrow> loot (Node l v r) False (x + y)"
| loot_take: "loot l False x \<Longrightarrow> loot r False y \<Longrightarrow> loot (Node l v r) True (v + x + y)"

lemma robHelper_reached:
  "loot t False (fst (robHelper t)) \<and> (t \<noteq> Leaf \<longrightarrow> loot t True (snd (robHelper t)))"
proof (induction t)
  case (Node l v r)
  have best: "\<exists>a. loot t a (max (fst (robHelper t)) (snd (robHelper t)))"
    if "loot t False (fst (robHelper t)) \<and> (t \<noteq> Leaf \<longrightarrow> loot t True (snd (robHelper t)))" for t
    using that by (cases "t = Leaf") (auto simp: max_def)
  obtain a b where "loot l a (max (fst (robHelper l)) (snd (robHelper l)))"
    "loot r b (max (fst (robHelper r)) (snd (robHelper r)))" using best Node by blast
  then show ?case using loot_take [of l _ r _ v] Node by (auto simp: Let_def intro: loot_skip)
qed (simp add: loot_Leaf)

lemma robHelper_max: "loot t b x \<Longrightarrow> x \<le> (if b then snd (robHelper t) else fst (robHelper t))"
  by (induction rule: loot.induct) (auto simp: Let_def split: if_splits)

lemma rob_ok: "(\<exists>b. loot t b (rob t)) \<and> (\<forall>b x. loot t b x \<longrightarrow> x \<le> rob t)"
proof
  show "\<exists>b. loot t b (rob t)"
    using robHelper_reached [of t] by (cases "t = Leaf") (auto simp: rob_def Let_def max_def)
  show "\<forall>b x. loot t b x \<longrightarrow> x \<le> rob t"
  proof (intro allI impI)
    fix b x assume "loot t b x"
    from robHelper_max [OF this] show "x \<le> rob t" by (cases b) (simp_all add: rob_def Let_def)
  qed
qed

fun deepest_dfs :: "TreeNode \<Rightarrow> int \<Rightarrow> int \<times> int \<Rightarrow> int \<times> int" where
  "deepest_dfs Leaf d (s, max_depth) = (s, max_depth)"
| "deepest_dfs (Node l v r) d (s, max_depth) =
     (let (s, max_depth) = (if d > max_depth then (0, d) else (s, max_depth));
          s = (if d = max_depth then s + v else s)
      in deepest_dfs r (d + 1) (deepest_dfs l (d + 1) (s, max_depth)))"

definition deepestLeavesSum :: "TreeNode \<Rightarrow> int" where
  "deepestLeavesSum root = fst (deepest_dfs root 0 (0, 0))"

text \<open>The sum of the values at depth \<open>k\<close>, and the state after the visit of a subtree at depth \<open>d\<close>.\<close>

definition depth_sum :: "TreeNode \<Rightarrow> int \<Rightarrow> int" where
  "depth_sum t k = (if 0 \<le> k then sum_list (at_depth (nat k) t) else 0)"

lemma at_depth_height: "height t \<le> d \<Longrightarrow> at_depth d t = []"
  by (induction d t rule: at_depth.induct) auto

lemma depth_sum_deep: "int (height t) \<le> k \<Longrightarrow> depth_sum t k = 0"
  by (simp add: depth_sum_def at_depth_height)

lemma depth_sum_Node: "0 \<le> k \<Longrightarrow>
    depth_sum (Node l v r) k = (if k = 0 then v else depth_sum l (k - 1) + depth_sum r (k - 1))"
  by (cases "nat k") (auto simp: depth_sum_def nat_diff_distrib')

lemma deepest_dfs_ok:
  "0 \<le> d \<Longrightarrow> d \<le> m + 1 \<Longrightarrow>
   deepest_dfs t d (s, m) =
     (let b = max m (d + int (height t) - 1) in ((if b = m then s else 0) + depth_sum t (b - d), b))"
proof (induction t arbitrary: d s m)
  case Leaf
  then show ?case by (simp add: depth_sum_def)
next
  case (Node l v r)
  define m1 where "m1 = max m d"
  define s1 where "s1 = (if m1 = m then s else 0) + (if m1 = d then v else 0)"
  define b1 where "b1 = max m1 (d + int (height l))"
  define s2 where "s2 = (if b1 = m1 then s1 else 0) + depth_sum l (b1 - (d + 1))"
  define b2 where "b2 = max b1 (d + int (height r))"
  have "deepest_dfs (Node l v r) d (s, m) = deepest_dfs r (d + 1) (deepest_dfs l (d + 1) (s1, m1))"
    using Node(3,4) by (auto simp: s1_def m1_def Let_def max_def)
  also have "deepest_dfs l (d + 1) (s1, m1) = (s2, b1)"
    using Node(1) [of "d + 1" m1 s1] Node(3) by (simp add: s2_def b1_def m1_def Let_def)
  also have "deepest_dfs r (d + 1) (s2, b1) = ((if b2 = b1 then s2 else 0) + depth_sum r (b2 - (d + 1)), b2)"
    using Node(2) [of "d + 1" b1 s2] Node(3) by (simp add: b1_def b2_def m1_def Let_def)
  finally have eq: "deepest_dfs (Node l v r) d (s, m) = ((if b2 = b1 then s2 else 0) + depth_sum r (b2 - (d + 1)), b2)" .
  have b: "max m (d + int (height (Node l v r)) - 1) = b2" by (simp add: b2_def b1_def m1_def)
  have l: "(if b2 = b1 then depth_sum l (b1 - (d + 1)) else 0) = depth_sum l (b2 - (d + 1))"
  proof (cases "b2 = b1")
    case False
    then have "int (height l) \<le> b2 - (d + 1)" by (simp add: b2_def b1_def)
    then show ?thesis using False by (simp add: depth_sum_deep)
  qed simp
  have "0 \<le> b2 - d" by (simp add: b2_def b1_def m1_def)
  from depth_sum_Node [OF this, of l v r]
  have n: "depth_sum (Node l v r) (b2 - d) = (if b2 = d then v else depth_sum l (b2 - (d + 1)) + depth_sum r (b2 - (d + 1)))"
    by (simp add: algebra_simps)
  have z: "depth_sum l (b2 - (d + 1)) = 0" "depth_sum r (b2 - (d + 1)) = 0" if "b2 = d"
    using that by (simp_all add: depth_sum_def)
  have s: "(if b2 = b1 \<and> b1 = m1 then s1 else 0) = (if b2 = m then s else 0) + (if b2 = d then v else 0)"
    using Node(4) by (auto simp: s1_def b2_def b1_def m1_def max_def)
  show ?case unfolding eq b Let_def using l n z s by (auto simp: s2_def split: if_splits)
qed

lemma deepestLeavesSum_ok: "deepestLeavesSum t = sum_list (at_depth (height t - 1) t)"
proof (cases t)
  case (Node l v r)
  have "max 0 (0 + int (height t) - 1) = int (height t - 1)" using Node by simp
  then show ?thesis using deepest_dfs_ok [of 0 0 t 0] by (simp add: deepestLeavesSum_def Let_def depth_sum_def)
qed (simp add: deepestLeavesSum_def)

text \<open>
  \<open>findFrequentTreeSum\<close>: \<open>mp\<close> counts the sums of the subtrees. The order in which an
  \<open>unordered_map\<close> is traversed is not specified; the model keeps the order of insertion and
  the lemma speaks of the set of results. \<open>max_element\<close> of the empty map is
  \<open>end()\<close>, which must not be read.
\<close>

fun increment :: "(int \<times> int) list \<Rightarrow> int \<Rightarrow> (int \<times> int) list" where
  "increment [] k = [(k, 1)]"
| "increment ((k', n) # mp) k = (if k' = k then (k', n + 1) # mp else (k', n) # increment mp k)"

fun sums_traverse :: "TreeNode \<Rightarrow> (int \<times> int) list \<Rightarrow> int \<times> (int \<times> int) list" where
  "sums_traverse Leaf mp = (0, mp)"
| "sums_traverse (Node l v r) mp =
     (let value = v;
          (a, mp) = sums_traverse l mp; value = value + a;
          (b, mp) = sums_traverse r mp; value = value + b
      in (value, increment mp value))"

definition findFrequentTreeSum :: "TreeNode \<Rightarrow> int list option" where
  "findFrequentTreeSum root =
     (let mp = snd (sums_traverse root []) in
      if mp = [] then None
      else let frequence = Max (snd ` set mp) in
        Some (map fst (filter (\<lambda>p. snd p = frequence) mp)))"

fun tree_sum :: "TreeNode \<Rightarrow> int" where
  "tree_sum Leaf = 0"
| "tree_sum (Node l v r) = v + tree_sum l + tree_sum r"

fun subtree_sums :: "TreeNode \<Rightarrow> int list" where
  "subtree_sums Leaf = []"
| "subtree_sums (Node l v r) = subtree_sums l @ subtree_sums r @ [tree_sum (Node l v r)]"

definition counts_of :: "(int \<times> int) list \<Rightarrow> int list \<Rightarrow> bool" where
  "counts_of mp xs \<longleftrightarrow> distinct (map fst mp) \<and> fst ` set mp = set xs \<and> (\<forall>(k, n) \<in> set mp. n = int (count_list xs k))"

lemma increment_keys: "fst ` set (increment mp k) = insert k (fst ` set mp)"
  by (induction mp k rule: increment.induct) auto

lemma increment_ok: "counts_of mp xs \<Longrightarrow> counts_of (increment mp k) (xs @ [k])"
proof -
  assume c: "counts_of mp xs"
  have d: "distinct (map fst mp) \<Longrightarrow> distinct (map fst (increment mp k))" for mp
    by (induction mp k rule: increment.induct) (use increment_keys in \<open>fastforce+\<close>)
  have n: "distinct (map fst mp) \<Longrightarrow> (j, n) \<in> set (increment mp k) \<Longrightarrow>
      (j \<noteq> k \<and> (j, n) \<in> set mp) \<or> (j = k \<and> (k, n - 1) \<in> set mp) \<or> (j = k \<and> n = 1 \<and> k \<notin> fst ` set mp)" for j n mp
    by (induction mp k rule: increment.induct) (auto split: if_splits simp: image_iff)
  have "n = int (count_list (xs @ [k]) j)" if jn: "(j, n) \<in> set (increment mp k)" for j n
  proof -
    have "distinct (map fst mp)" using c by (simp add: counts_of_def)
    from n [OF this jn] show ?thesis using c by (auto simp: counts_of_def count_list_0_iff)
  qed
  then show ?thesis using c d increment_keys by (auto simp: counts_of_def)
qed

lemma sums_traverse_ok:
  "counts_of mp xs \<Longrightarrow>
   fst (sums_traverse t mp) = tree_sum t \<and> counts_of (snd (sums_traverse t mp)) (xs @ subtree_sums t)"
proof (induction t arbitrary: mp xs)
  case (Node l v r)
  obtain a m1 where 1: "sums_traverse l mp = (a, m1)" by fastforce
  obtain b m2 where 2: "sums_traverse r m1 = (b, m2)" by fastforce
  have l: "a = tree_sum l" "counts_of m1 (xs @ subtree_sums l)" using Node(1) [OF Node(3)] 1 by auto
  have r: "b = tree_sum r" "counts_of m2 ((xs @ subtree_sums l) @ subtree_sums r)" using Node(2) [OF l(2)] 2 by auto
  then show ?case using increment_ok [OF r(2), of "v + a + b"] 1 2 l(1) by (simp add: Let_def)
qed simp

lemma findFrequentTreeSum_ok:
  assumes "t \<noteq> Leaf"
  shows "\<exists>res. findFrequentTreeSum t = Some res \<and> distinct res \<and>
    set res = {s \<in> set (subtree_sums t). \<forall>s' \<in> set (subtree_sums t).
      count_list (subtree_sums t) s' \<le> count_list (subtree_sums t) s}"
proof -
  let ?mp = "snd (sums_traverse t [])" and ?c = "count_list (subtree_sums t)"
  have c: "counts_of ?mp (subtree_sums t)" using sums_traverse_ok [of "[]" "[]" t] by (simp add: counts_of_def)
  have mp: "set ?mp = (\<lambda>k. (k, int (?c k))) ` set (subtree_sums t)"
    using c unfolding counts_of_def by (force simp: image_iff)
  have "subtree_sums t \<noteq> []" using assms by (cases t) auto
  then have ne: "?mp \<noteq> []" using mp by (metis image_is_empty set_empty)
  have f: "snd ` set ?mp = (\<lambda>k. int (?c k)) ` set (subtree_sums t)" by (simp add: mp image_image)
  let ?F = "Max (snd ` set ?mp)" and ?res = "map fst (filter (\<lambda>p. snd p = Max (snd ` set ?mp)) ?mp)"
  have "findFrequentTreeSum t = Some ?res" using ne by (simp add: findFrequentTreeSum_def Let_def)
  moreover have "distinct ?res"
    using c by (simp add: counts_of_def distinct_map_filter)
  moreover have "set ?res = {s \<in> set (subtree_sums t). int (?c s) = ?F}"
    by (simp add: mp) (auto simp: image_iff)
  moreover have "int (?c s) = ?F \<longleftrightarrow> (\<forall>s' \<in> set (subtree_sums t). ?c s' \<le> ?c s)" if "s \<in> set (subtree_sums t)" for s
  proof -
    have "?F = int (?c s) \<longleftrightarrow> int (?c s) \<in> snd ` set ?mp \<and> (\<forall>x \<in> snd ` set ?mp. x \<le> int (?c s))"
      using ne by (intro Max_eq_iff) auto
    then show ?thesis using that unfolding f by auto
  qed
  ultimately show ?thesis by (intro exI [of _ ?res]) auto
qed

lemma findFrequentTreeSum_empty: "findFrequentTreeSum Leaf = None"
  by (simp add: findFrequentTreeSum_def)

subsection \<open>Pairs of leaves\<close>

fun pairs_inner :: "int list \<Rightarrow> int list \<Rightarrow> nat \<Rightarrow> nat list \<Rightarrow> int \<Rightarrow> int option" where
  "pairs_inner l r i [] res = Some res"
| "pairs_inner l r i (j # js) res = do { a \<leftarrow> vget l i; b \<leftarrow> vget r j; pairs_inner l r i js (res + a * b) }"

fun pairs_outer :: "int list \<Rightarrow> int list \<Rightarrow> nat \<Rightarrow> nat list \<Rightarrow> int \<Rightarrow> int option" where
  "pairs_outer l r distance [] res = Some res"
| "pairs_outer l r distance (i # is) res = do {
     res \<leftarrow> pairs_inner l r i [0..<distance - 1 - i] res;
     pairs_outer l r distance is res }"

fun shift_depths :: "int list \<Rightarrow> int list \<Rightarrow> nat list \<Rightarrow> int list \<Rightarrow> int list option" where
  "shift_depths l r [] f = Some f"
| "shift_depths l r (i # is) f = do {
     a \<leftarrow> vget l i; b \<leftarrow> vget r i;
     f \<leftarrow> vset f (i + 1) (a + b);
     shift_depths l r is f }"

fun pairs_dfs :: "nat \<Rightarrow> TreeNode \<Rightarrow> int \<Rightarrow> (int list \<times> int) option" where
  "pairs_dfs distance Leaf res = Some (replicate (distance + 1) 0, res)"
| "pairs_dfs distance (Node lc v rc) res =
     (let f = replicate (distance + 1) 0 in
      if lc = Leaf \<and> rc = Leaf then do { f \<leftarrow> vset f 0 1; Some (f, res) }
      else do {
        (l, res) \<leftarrow> pairs_dfs distance lc res;
        (r, res) \<leftarrow> pairs_dfs distance rc res;
        res \<leftarrow> pairs_outer l r distance [0..<distance] res;
        f \<leftarrow> shift_depths l r [0..<distance] f;
        Some (f, res) })"

definition countPairs2 :: "TreeNode \<Rightarrow> nat \<Rightarrow> int option" where
  "countPairs2 root distance = do { (_, res) \<leftarrow> pairs_dfs distance root 0; Some res }"

text \<open>The depths of the leaves, and the pairs of leaves whose distance is at most \<open>d\<close>.\<close>

fun leaf_depths :: "TreeNode \<Rightarrow> nat list" where
  "leaf_depths Leaf = []"
| "leaf_depths (Node l v r) = (if l = Leaf \<and> r = Leaf then [0] else map Suc (leaf_depths l @ leaf_depths r))"

fun good_pairs :: "nat \<Rightarrow> TreeNode \<Rightarrow> int" where
  "good_pairs d Leaf = 0"
| "good_pairs d (Node l v r) = good_pairs d l + good_pairs d r +
     (\<Sum>a \<leftarrow> leaf_depths l. \<Sum>b \<leftarrow> leaf_depths r. if Suc a + Suc b \<le> d then 1 else 0)"

lemma sum_by_count:
  "\<forall>a \<ge> d. g a = 0 \<Longrightarrow> (\<Sum>a \<leftarrow> xs. g a) = (\<Sum>i < d. int (count_list xs i) * g i)" for d :: nat and g :: "nat \<Rightarrow> int"
proof (induction xs)
  case (Cons a xs)
  have "(\<Sum>i < d. int (count_list (a # xs) i) * g i) =
      (\<Sum>i < d. (if i = a then g i else 0) + int (count_list xs i) * g i)"
    by (rule sum.cong) (auto simp: algebra_simps)
  also have "\<dots> = (\<Sum>i < d. if i = a then g i else 0) + (\<Sum>i < d. int (count_list xs i) * g i)" by (rule sum.distrib)
  also have "(\<Sum>i < d. if i = a then g i else 0) = g a" using Cons(2) by simp
  finally show ?case using Cons by simp
qed simp

lemma pairs_inner_ok:
  "i < length l \<Longrightarrow> n \<le> length r \<Longrightarrow> pairs_inner l r i [k..<n] res = Some (res + l ! i * (\<Sum>j = k..<n. r ! j))"
proof (induction "n - k" arbitrary: k res)
  case (Suc m)
  then have "[k..<n] = k # [Suc k..<n]" "(\<Sum>j = k..<n. r ! j) = r ! k + (\<Sum>j = Suc k..<n. r ! j)"
    by (simp_all add: upt_conv_Cons sum.atLeast_Suc_lessThan)
  moreover have "m = n - Suc k" using Suc(2) by simp
  ultimately show ?case using Suc by (simp add: ub_simps algebra_simps)
qed simp

lemma pairs_outer_ok:
  "length l = d + 1 \<Longrightarrow> length r = d + 1 \<Longrightarrow>
   pairs_outer l r d [k..<d] res = Some (res + (\<Sum>i = k..<d. l ! i * (\<Sum>j = 0..<d - 1 - i. r ! j)))"
proof (induction "d - k" arbitrary: k res)
  case (Suc m)
  let ?g = "\<lambda>i. l ! i * (\<Sum>j = 0..<d - 1 - i. r ! j)"
  have "[k..<d] = k # [Suc k..<d]" "(\<Sum>i = k..<d. ?g i) = ?g k + (\<Sum>i = Suc k..<d. ?g i)"
    using Suc(2) by (simp_all add: upt_conv_Cons sum.atLeast_Suc_lessThan)
  moreover have "pairs_inner l r k [0..<d - 1 - k] res = Some (res + ?g k)"
    using Suc(2-4) by (intro pairs_inner_ok) simp_all
  moreover have "m = d - Suc k" using Suc(2) by simp
  ultimately show ?case using Suc by (simp add: algebra_simps)
qed simp

lemma shift_depths_ok:
  "length l = d + 1 \<Longrightarrow> length r = d + 1 \<Longrightarrow> length f = d + 1 \<Longrightarrow> k \<le> d \<Longrightarrow>
   shift_depths l r [k..<d] f = Some (take (k + 1) f @ map (\<lambda>i. l ! i + r ! i) [k..<d])"
proof (induction "d - k" arbitrary: k f)
  case (Suc m)
  have "[k..<d] = k # [Suc k..<d]" "m = d - Suc k" "k < d" using Suc(2) by (simp_all add: upt_conv_Cons)
  then show ?case using Suc by (simp add: ub_simps take_Suc_conv_app_nth)
qed simp

lemma pairs_dfs_ok:
  "pairs_dfs d t res = Some (map (\<lambda>i. int (count_list (leaf_depths t) i)) [0..<d + 1], res + good_pairs d t)"
proof (induction t arbitrary: res)
  case Leaf
  show ?case by (simp add: map_replicate_const del: upt_Suc)
next
  case (Node lc v rc)
  let ?c = "\<lambda>t i. int (count_list (leaf_depths t) i)"
  show ?case
  proof (cases "lc = Leaf \<and> rc = Leaf")
    case True
    have "(replicate (d + 1) 0)[0 := 1] = map (\<lambda>i. if i = 0 then 1 else 0 :: int) [0..<d + 1]"
      by (intro nth_equalityI) (auto simp: nth_list_update simp del: upt_Suc)
    moreover have "?c (Node lc v rc) i = (if i = 0 then 1 else 0)" for i using True by simp
    ultimately have f: "(replicate (d + 1) 0)[0 := 1] = map (?c (Node lc v rc)) [0..<d + 1]" by (simp only:)
    have "pairs_dfs d (Node lc v rc) res = Some ((replicate (d + 1) 0)[0 := 1], res)"
      using True by (simp add: ub_simps)
    moreover have "good_pairs d (Node lc v rc) = 0" using True by simp
    ultimately show ?thesis unfolding f by simp
  next
    case False
    let ?l = "map (?c lc) [0..<d + 1]" and ?r = "map (?c rc) [0..<d + 1]"
    let ?p = "\<Sum>a \<leftarrow> leaf_depths lc. \<Sum>b \<leftarrow> leaf_depths rc. if Suc a + Suc b \<le> d then 1 else 0"
    have inner: "(\<Sum>b \<leftarrow> leaf_depths rc. if Suc a + Suc b \<le> d then 1 else 0) = (\<Sum>j = 0..<d - 1 - a. ?c rc j)" for a
    proof -
      have "(\<Sum>b \<leftarrow> leaf_depths rc. if Suc a + Suc b \<le> d then 1 else 0) =
          (\<Sum>j < d - 1 - a. ?c rc j * (if Suc a + Suc j \<le> d then 1 else 0))"
        by (rule sum_by_count) auto
      also have "\<dots> = (\<Sum>j < d - 1 - a. ?c rc j)" by (rule sum.cong) auto
      finally show ?thesis by (simp add: atLeast0LessThan)
    qed
    have "?p = (\<Sum>i < d. ?c lc i * (\<Sum>j = 0..<d - 1 - i. ?c rc j))"
      unfolding inner by (rule sum_by_count) simp
    also have "\<dots> = (\<Sum>i = 0..<d. ?l ! i * (\<Sum>j = 0..<d - 1 - i. ?r ! j))"
      unfolding atLeast0LessThan by (intro sum.cong refl arg_cong2 [where f = "(*)"]) (auto simp del: upt_Suc)
    finally have p: "?p = \<dots>" .
    have o: "pairs_outer ?l ?r d [0..<d] res' = Some (res' + ?p)" for res'
      unfolding p by (rule pairs_outer_ok) simp_all
    have "take (0 + 1) (replicate (d + 1) 0) = [0 :: int]" by simp
    then have "shift_depths ?l ?r [0..<d] (replicate (d + 1) 0) = Some (0 # map (\<lambda>i. ?l ! i + ?r ! i) [0..<d])"
      using shift_depths_ok [of ?l d ?r "replicate (d + 1) 0" 0] by simp
    moreover have "0 # map (\<lambda>i. ?l ! i + ?r ! i) [0..<d] = map (?c (Node lc v rc)) [0..<d + 1]"
    proof -
      have u: "[0..<d + 1] = 0 # map Suc [0..<d]" by (simp add: upt_conv_Cons map_Suc_upt del: upt_Suc)
      have z: "count_list (map Suc xs) 0 = 0" "count_list (map Suc xs) (Suc i) = count_list xs i" for xs i
        by (induction xs) auto
      have "map (?c (Node lc v rc)) [0..<d + 1] = 0 # map (\<lambda>i. ?c lc i + ?c rc i) [0..<d]"
        unfolding u using False by (auto simp: z comp_def)
      moreover have "map (\<lambda>i. ?l ! i + ?r ! i) [0..<d] = map (\<lambda>i. ?c lc i + ?c rc i) [0..<d]"
        by (auto simp del: upt_Suc)
      ultimately show ?thesis by simp
    qed
    ultimately have sh: "shift_depths ?l ?r [0..<d] (replicate (d + 1) 0) = Some (map (?c (Node lc v rc)) [0..<d + 1])" by simp
    have n: "(lc = Leaf \<and> rc = Leaf) = False" using False by simp
    show ?thesis
      by (simp only: pairs_dfs.simps Let_def n if_False Node Option.bind_lunit prod.case o sh good_pairs.simps add.assoc)
  qed
qed

lemma countPairs2_ok: "countPairs2 t d = Some (good_pairs d t)"
  by (simp add: countPairs2_def pairs_dfs_ok)

subsection \<open>Cameras\<close>

datatype State = NONE | COVERED | CAMERA

fun camera_dfs :: "TreeNode \<Rightarrow> int \<Rightarrow> State \<times> int" where
  "camera_dfs Leaf res = (COVERED, res)"
| "camera_dfs (Node left_child v right_child) res =
     (let (l, res) = camera_dfs left_child res;
          (r, res) = camera_dfs right_child res
      in if l = NONE \<or> r = NONE then (CAMERA, res + 1)
         else if l = CAMERA \<or> r = CAMERA then (COVERED, res)
         else (NONE, res))"

definition minCameraCover :: "TreeNode \<Rightarrow> int" where
  "minCameraCover root = (let (s, res) = camera_dfs root 0 in if s = NONE then res + 1 else res)"

text \<open>
  \<open>placement t s n\<close>: \<open>n\<close> cameras can be put on nodes of \<open>t\<close> so that every
  node, the root possibly excepted, has a camera or a neighbour with one, and the root is in the
  state \<open>s\<close>.
\<close>

inductive placement :: "TreeNode \<Rightarrow> State \<Rightarrow> int \<Rightarrow> bool" where
  placement_Leaf: "placement Leaf COVERED 0"
| placement_camera: "placement l a x \<Longrightarrow> placement r b y \<Longrightarrow> placement (Node l v r) CAMERA (x + y + 1)"
| placement_none: "placement l a x \<Longrightarrow> placement r b y \<Longrightarrow> a \<noteq> NONE \<Longrightarrow> b \<noteq> NONE \<Longrightarrow>
    placement (Node l v r) (if a = CAMERA \<or> b = CAMERA then COVERED else NONE) (x + y)"

definition covers_tree :: "TreeNode \<Rightarrow> int \<Rightarrow> bool" where
  "covers_tree t n \<longleftrightarrow> (\<exists>s. placement t s n \<and> s \<noteq> NONE)"

fun rank_of :: "State \<Rightarrow> nat" where
  "rank_of NONE = 0"
| "rank_of COVERED = 1"
| "rank_of CAMERA = 2"

lemma camera_dfs_res: "camera_dfs t res = (fst (camera_dfs t 0), snd (camera_dfs t 0) + res)"
proof (induction t arbitrary: res)
  case (Node l v r)
  obtain a x where l: "camera_dfs l 0 = (a, x)" by fastforce
  obtain b y where r: "camera_dfs r 0 = (b, y)" by fastforce
  have "camera_dfs l k = (a, x + k)" "camera_dfs r k = (b, y + k)" for k
    using Node(1) [of k] Node(2) [of k] l r by simp_all
  then show ?case by simp
qed simp

lemma camera_placement: "placement t (fst (camera_dfs t 0)) (snd (camera_dfs t 0))"
proof (induction t)
  case (Node l v r)
  obtain a x where l: "camera_dfs l 0 = (a, x)" by fastforce
  obtain b y where r: "camera_dfs r 0 = (b, y)" by fastforce
  have r': "camera_dfs r x = (b, y + x)" using camera_dfs_res [of r x] r by simp
  have "placement l a x" "placement r b y" using Node l r by simp_all
  then show ?case
    using l r' placement_camera [of l a x r b y v] placement_none [of l a x r b y v]
    by (auto simp: ac_simps split: if_splits)
qed (simp add: placement_Leaf)

text \<open>The greedy placement uses the fewest cameras and, among those, covers the most.\<close>

lemma camera_best:
  "placement t s n \<Longrightarrow>
   snd (camera_dfs t 0) \<le> n \<and> (snd (camera_dfs t 0) = n \<longrightarrow> rank_of s \<le> rank_of (fst (camera_dfs t 0)))"
proof (induction rule: placement.induct)
  case (placement_camera l a x r b y v)
  obtain p i where l: "camera_dfs l 0 = (p, i)" by fastforce
  obtain q j where r: "camera_dfs r 0 = (q, j)" by fastforce
  have r': "camera_dfs r i = (q, j + i)" using camera_dfs_res [of r i] r by simp
  show ?case using placement_camera.IH l r r' by (auto simp: Let_def)
next
  case (placement_none l a x r b y v)
  obtain p i where l: "camera_dfs l 0 = (p, i)" by fastforce
  obtain q j where r: "camera_dfs r 0 = (q, j)" by fastforce
  have r': "camera_dfs r i = (q, j + i)" using camera_dfs_res [of r i] r by simp
  have IH: "i \<le> x" "i = x \<longrightarrow> rank_of a \<le> rank_of p" "j \<le> y" "j = y \<longrightarrow> rank_of b \<le> rank_of q"
    using placement_none.IH l r by simp_all
  show ?case
    using IH placement_none.hyps l r r' by (cases a; cases b; cases p; cases q) (auto simp: Let_def)
qed simp

text \<open>
  C31: \<open>minCameraCover\<close> returns the least number of cameras with which every node of the
  tree has a camera on itself, its parent or a child.
\<close>

theorem minCameraCover_optimal:
  "covers_tree t (minCameraCover t) \<and> (\<forall>n. covers_tree t n \<longrightarrow> minCameraCover t \<le> n)"
proof -
  obtain s k where g: "camera_dfs t 0 = (s, k)" by fastforce
  have p: "placement t s k" using camera_placement [of t] g by simp
  have res: "minCameraCover t = (if s = NONE then k + 1 else k)" by (simp add: minCameraCover_def g)
  have "covers_tree t (minCameraCover t)"
  proof (cases "s = NONE")
    case True
    with p have "placement t CAMERA (k + 1)"
    proof (cases rule: placement.cases)
      case (placement_none l a x r b y v)
      then show ?thesis using placement_camera [of l a x r b y v] by simp
    qed (use True in auto)
    then show ?thesis using True by (auto simp: covers_tree_def res)
  next
    case False
    then show ?thesis using p by (auto simp: covers_tree_def res)
  qed
  moreover have "minCameraCover t \<le> n" if c: "covers_tree t n" for n
  proof -
    obtain s' where "placement t s' n" "s' \<noteq> NONE" using c by (auto simp: covers_tree_def)
    then show ?thesis using camera_best [of t s' n] g by (cases s') (auto simp: res)
  qed
  ultimately show ?thesis by blast
qed

theorem minCameraCover_optimal_witness:
  "minCameraCover (Node (Node (Node Leaf 1 Leaf) 1 (Node Leaf 1 Leaf)) 1 Leaf) \<le> 1"
proof -
  let ?leaf = "Node Leaf 1 Leaf :: TreeNode"
  have leaf: "placement ?leaf NONE 0" using placement_none [OF placement_Leaf placement_Leaf, of 1] by simp
  have "placement (Node ?leaf 1 ?leaf) CAMERA 1" using placement_camera [OF leaf leaf, of 1] by simp
  from placement_none [OF this placement_Leaf, of 1]
  have "covers_tree (Node (Node ?leaf 1 ?leaf) 1 Leaf) 1" by (auto simp: covers_tree_def)
  then show ?thesis using minCameraCover_optimal by blast
qed

subsection \<open>Vertical order\<close>

text \<open>
  \<open>h\<close> maps a position to a set of values: it is the set of its entries, and the order of the
  \<open>map\<close> and the \<open>set\<close>s is the lexicographic one.
\<close>

record vertical =
  min_x :: int
  max_x :: int
  vh :: "((int \<times> int) \<times> int) set"

fun vertical_traverse :: "TreeNode \<Rightarrow> int \<Rightarrow> int \<Rightarrow> vertical \<Rightarrow> vertical" where
  "vertical_traverse Leaf x y s = s"
| "vertical_traverse (Node l v r) x y s =
     (let s = \<lparr>min_x = min (min_x s) x, max_x = max (max_x s) x, vh = insert ((x, y), v) (vh s)\<rparr>;
          s = vertical_traverse l (x - 1) (y + 1) s
      in vertical_traverse r (x + 1) (y + 1) s)"

fun columns_loop :: "((int \<times> int) \<times> int) list \<Rightarrow> int \<Rightarrow> int list list \<Rightarrow> int list list option" where
  "columns_loop [] mx res = Some res"
| "columns_loop (((x, y), v) # ms) mx res = do {
     (if x - mx < 0 then None else Some ());
     col \<leftarrow> vget res (nat (x - mx));
     res \<leftarrow> vset res (nat (x - mx)) (col @ [v]);
     columns_loop ms mx res }"

definition verticalTraversal :: "TreeNode \<Rightarrow> int list list option" where
  "verticalTraversal root =
     (if root = Leaf then Some []
      else let s = vertical_traverse root 0 0 \<lparr>min_x = 2 ^ 31 - 1, max_x = - (2 ^ 31), vh = {}\<rparr> in
        columns_loop (sorted_list_of_set (vh s)) (min_x s) (replicate (nat (max_x s - min_x s + 1)) []))"

fun positions :: "TreeNode \<Rightarrow> int \<Rightarrow> int \<Rightarrow> ((int \<times> int) \<times> int) set" where
  "positions Leaf x y = {}"
| "positions (Node l v r) x y = insert ((x, y), v) (positions l (x - 1) (y + 1) \<union> positions r (x + 1) (y + 1))"

lemma finite_positions: "finite (positions t x y)"
  by (induction t arbitrary: x y) auto

lemma vertical_traverse_vh: "vh (vertical_traverse t x y s) = vh s \<union> positions t x y"
  by (induction t arbitrary: x y s) (auto simp: Let_def)

lemma vertical_traverse_bounds:
  "min_x (vertical_traverse t x y s) \<le> min_x s \<and> max_x s \<le> max_x (vertical_traverse t x y s) \<and>
   (\<forall>((x', y'), v) \<in> positions t x y. min_x (vertical_traverse t x y s) \<le> x' \<and> x' \<le> max_x (vertical_traverse t x y s))"
proof (induction t arbitrary: x y s)
  case (Node l v r)
  define s1 where "s1 = \<lparr>min_x = min (min_x s) x, max_x = max (max_x s) x, vh = insert ((x, y), v) (vh s)\<rparr>"
  define s2 where "s2 = vertical_traverse l (x - 1) (y + 1) s1"
  define s3 where "s3 = vertical_traverse r (x + 1) (y + 1) s2"
  have e: "vertical_traverse (Node l v r) x y s = s3" by (simp add: s3_def s2_def s1_def Let_def)
  have 1: "min_x s1 \<le> min_x s" "max_x s \<le> max_x s1" "min_x s1 \<le> x" "x \<le> max_x s1" by (simp_all add: s1_def)
  have 2: "min_x s2 \<le> min_x s1" "max_x s1 \<le> max_x s2"
    "\<forall>((x', y'), v) \<in> positions l (x - 1) (y + 1). min_x s2 \<le> x' \<and> x' \<le> max_x s2"
    using Node(1) [of "x - 1" "y + 1" s1] unfolding s2_def by blast+
  have 3: "min_x s3 \<le> min_x s2" "max_x s2 \<le> max_x s3"
    "\<forall>((x', y'), v) \<in> positions r (x + 1) (y + 1). min_x s3 \<le> x' \<and> x' \<le> max_x s3"
    using Node(2) [of "x + 1" "y + 1" s2] unfolding s3_def by blast+
  show ?case unfolding e using 1 2 3 by fastforce
qed simp

lemma columns_loop_ok:
  "\<forall>((x, y), v) \<in> set ms. mx \<le> x \<and> x < mx + int (length res) \<Longrightarrow>
   \<exists>out. columns_loop ms mx res = Some out \<and> length out = length res \<and>
     (\<forall>c < length res. out ! c = res ! c @ map snd (filter (\<lambda>m. fst (fst m) = mx + int c) ms))"
proof (induction ms arbitrary: res)
  case (Cons m ms)
  obtain x y v where m: "m = ((x, y), v)" by (metis surj_pair)
  let ?i = "nat (x - mx)" and ?res = "res[nat (x - mx) := res ! nat (x - mx) @ [v]]"
  have i: "?i < length res" "mx \<le> x" using Cons(2) m by auto
  have "\<forall>((x, y), v) \<in> set ms. mx \<le> x \<and> x < mx + int (length ?res)" using Cons(2) by simp
  from Cons(1) [OF this] obtain out where out: "columns_loop ms mx ?res = Some out" "length out = length res"
    "\<forall>c < length res. out ! c = ?res ! c @ map snd (filter (\<lambda>m. fst (fst m) = mx + int c) ms)" by auto
  have "?res ! c @ map snd (filter (\<lambda>m. fst (fst m) = mx + int c) ms) =
      res ! c @ map snd (filter (\<lambda>m. fst (fst m) = mx + int c) (m # ms))" if "c < length res" for c
    using that i m by (auto simp: nth_list_update)
  then show ?case using out m i by (simp add: ub_simps)
qed simp

text \<open>Column \<open>c\<close> holds the values at \<open>x = min_x + c\<close>, by depth and then by value.\<close>

lemma verticalTraversal_ok:
  assumes "t \<noteq> Leaf"
  shows "\<exists>out mn. verticalTraversal t = Some out \<and> (\<forall>((x, y), v) \<in> positions t 0 0. mn \<le> x \<and> x < mn + int (length out)) \<and>
    (\<forall>c < length out. out ! c =
       map snd (filter (\<lambda>m. fst (fst m) = mn + int c) (sorted_list_of_set (positions t 0 0))))"
proof -
  define s where "s = vertical_traverse t 0 0 \<lparr>min_x = 2 ^ 31 - 1, max_x = - (2 ^ 31), vh = {}\<rparr>"
  let ?k = "nat (max_x s - min_x s + 1)"
  have h: "vh s = positions t 0 0" by (simp add: s_def vertical_traverse_vh)
  have b: "\<forall>((x, y), v) \<in> positions t 0 0. min_x s \<le> x \<and> x \<le> max_x s"
    unfolding s_def using vertical_traverse_bounds by blast
  obtain v where "((0, 0), v) \<in> positions t 0 0" using assms by (cases t) auto
  then have "min_x s \<le> max_x s" using b by fastforce
  then have k: "int ?k = max_x s - min_x s + 1" by simp
  have b': "\<forall>((x, y), v) \<in> positions t 0 0. min_x s \<le> x \<and> x < min_x s + int ?k"
    unfolding k using b by fastforce
  have "\<forall>((x, y), v) \<in> set (sorted_list_of_set (positions t 0 0)). min_x s \<le> x \<and>
      x < min_x s + int (length (replicate ?k ([] :: int list)))"
    using b' finite_positions by simp
  from columns_loop_ok [OF this] obtain out where out:
    "columns_loop (sorted_list_of_set (positions t 0 0)) (min_x s) (replicate ?k []) = Some out" "length out = ?k"
    "\<forall>c < ?k. out ! c = map snd (filter (\<lambda>m. fst (fst m) = min_x s + int c) (sorted_list_of_set (positions t 0 0)))"
    by auto
  have "verticalTraversal t = Some out" 
    by (simp only: verticalTraversal_def Let_def assms if_False s_def [symmetric] h out(1))
  then show ?thesis using out(2,3) b' by (intro exI [of _ out] exI [of _ "min_x s"]) simp
qed

text \<open>Two nodes at one position with one value are reported once: the inner \<open>set\<close> merges them.\<close>

lemma verticalTraversal_merges:
  "verticalTraversal (Node (Node Leaf 2 (Node Leaf 5 Leaf)) 1 (Node (Node Leaf 5 Leaf) 3 Leaf)) = Some [[2], [1, 5], [3]]"
  by (simp add: verticalTraversal_def Let_def min_def max_def sorted_list_of_set_insert_remove insert_Diff_if numeral_eq_Suc vget_def vset_def
      less_prod_def less_eq_prod_def)

end
