(* ===== verification/Serialize.thy ===== *)
theory Serialize
  imports Trees
begin

unbundle bit_operations_syntax

section \<open>Serialization of trees (leetcode/tree/serialize.cc)\<close>

text \<open>
  Both formats are modelled down to the characters: decimal numbers, white space and
  \<open>#\<close> for the first, status bytes and little-endian four-byte integers for the second.
  The exceptions of \<open>stoi\<close> are values; reading a variable that a failed \<open>read\<close> left
  uninitialised is \<open>None\<close>.
\<close>

subsection \<open>Decimal numbers\<close>

definition digit :: "nat \<Rightarrow> char" where
  "digit d = char_of (48 + d)"

definition digit_value :: "char \<Rightarrow> nat" where
  "digit_value c = of_char c - 48"

definition is_digit :: "char \<Rightarrow> bool" where
  "is_digit c \<longleftrightarrow> 48 \<le> (of_char c :: nat) \<and> (of_char c :: nat) \<le> 57"

definition is_space :: "char \<Rightarrow> bool" where
  "is_space c \<longleftrightarrow> (of_char c :: nat) = 32 \<or> (9 \<le> (of_char c :: nat) \<and> (of_char c :: nat) \<le> 13)"

fun show_nat :: "nat \<Rightarrow> string" where
  "show_nat n = (if n < 10 then [digit n] else show_nat (n div 10) @ [digit (n mod 10)])"

declare show_nat.simps [simp del]

definition show_int :: "int \<Rightarrow> string" where
  "show_int i = (if i < 0 then CHR ''-'' # show_nat (nat (- i)) else show_nat (nat i))"

datatype stoi_error = invalid_argument | out_of_range

definition read_nat :: "string \<Rightarrow> nat" where
  "read_nat ds = foldl (\<lambda>n c. 10 * n + digit_value c) 0 ds"

definition stoi :: "string \<Rightarrow> stoi_error + int" where
  "stoi str =
     (let str = dropWhile is_space str;
          (neg, str) = (case str of
             [] \<Rightarrow> (False, [])
           | c # cs \<Rightarrow> if c = CHR ''-'' then (True, cs) else if c = CHR ''+'' then (False, cs) else (False, c # cs));
          ds = takeWhile is_digit str
      in if ds = [] then Inl invalid_argument
         else let v = (if neg then - int (read_nat ds) else int (read_nat ds)) in
           if v < - (2 ^ 31) \<or> 2 ^ 31 \<le> v then Inl out_of_range else Inr v)"

definition next_token :: "string \<Rightarrow> string \<times> string" where
  "next_token s = (let s = dropWhile is_space s in
     (takeWhile (\<lambda>c. \<not> is_space c) s, dropWhile (\<lambda>c. \<not> is_space c) s))"

subsection \<open>The class \<open>ASCII\<close>\<close>

fun serializeHelper :: "TreeNode \<Rightarrow> string \<Rightarrow> string" where
  "serializeHelper Leaf out = out @ ''# ''"
| "serializeHelper (Node l v r) out =
     (let out = out @ show_int v @ '' '';
          out = serializeHelper l out
      in serializeHelper r out)"

definition ascii_serialize :: "TreeNode \<Rightarrow> string" where
  "ascii_serialize root = serializeHelper root []"

partial_function (option) deserializeHelper :: "string \<Rightarrow> (stoi_error + TreeNode \<times> string) option" where
  "deserializeHelper s =
     (let (str, s) = next_token s in
      if str = ''#'' then Some (Inr (Leaf, s))
      else case stoi str of
        Inl e \<Rightarrow> Some (Inl e)
      | Inr v \<Rightarrow> do {
          left_result \<leftarrow> deserializeHelper s;
          case left_result of
            Inl e \<Rightarrow> Some (Inl e)
          | Inr ls \<Rightarrow> do {
              right_result \<leftarrow> deserializeHelper (snd ls);
              case right_result of
                Inl e \<Rightarrow> Some (Inl e)
              | Inr rs \<Rightarrow> Some (Inr (Node (fst ls) v (fst rs), snd rs)) } })"

definition ascii_deserialize :: "string \<Rightarrow> (stoi_error + TreeNode) option" where
  "ascii_deserialize data = do {
     result \<leftarrow> deserializeHelper data;
     Some (case result of Inl e \<Rightarrow> Inl e | Inr ts \<Rightarrow> Inr (fst ts)) }"

subsection \<open>The class \<open>Binary\<close>\<close>

definition ROOT :: "8 word" where "ROOT = 1"
definition LEFT :: "8 word" where "LEFT = 2"
definition RIGHT :: "8 word" where "RIGHT = 4"

definition status_of :: "TreeNode \<Rightarrow> 8 word" where
  "status_of node = (case node of
     Leaf \<Rightarrow> 0
   | Node l v r \<Rightarrow>
       let status = 0 OR ROOT;
           status = (if l \<noteq> Leaf then status OR LEFT else status)
       in if r \<noteq> Leaf then status OR RIGHT else status)"

definition int_bytes :: "int \<Rightarrow> 8 word list" where
  "int_bytes v = map (\<lambda>k. word_of_int (v div 256 ^ k)) [0..<4]"

definition bytes_int :: "8 word list \<Rightarrow> int" where
  "bytes_int bs = to_int32 (\<Sum>k = 0..<4. uint (bs ! k) * 256 ^ k)"

fun binary_helper :: "TreeNode \<Rightarrow> 8 word list \<Rightarrow> 8 word list" where
  "binary_helper Leaf out = out @ [status_of Leaf]"
| "binary_helper (Node l v r) out =
     (let status = status_of (Node l v r);
          out = out @ [status];
          out = out @ int_bytes v;
          out = (if status AND LEFT \<noteq> 0 then binary_helper l out else out)
      in if status AND RIGHT \<noteq> 0 then binary_helper r out else out)"

definition binary_serialize :: "TreeNode \<Rightarrow> 8 word list" where
  "binary_serialize root = binary_helper root []"

partial_function (option) binary_read :: "8 word list \<Rightarrow> (TreeNode \<times> 8 word list) option" where
  "binary_read s = (case s of
     [] \<Rightarrow> None
   | status # s \<Rightarrow>
       if status AND ROOT = 0 then Some (Leaf, s)
       else do {
         let v = bytes_int (take 4 s @ replicate (4 - length s) 0);
         let s = drop 4 s;
         (l, s) \<leftarrow> (if status AND LEFT \<noteq> 0 then binary_read s else Some (Leaf, s));
         (r, s) \<leftarrow> (if status AND RIGHT \<noteq> 0 then binary_read s else Some (Leaf, s));
         Some (Node l v r, s) })"

definition binary_deserialize :: "8 word list \<Rightarrow> TreeNode option" where
  "binary_deserialize data = do { (root, _) \<leftarrow> binary_read data; Some root }"

subsection \<open>Round trips\<close>

lemma digit_ok: "d < 10 \<Longrightarrow> digit_value (digit d) = d \<and> is_digit (digit d) \<and> \<not> is_space (digit d) \<and> digit d \<noteq> CHR ''#'' \<and>
    digit d \<noteq> CHR ''-'' \<and> digit d \<noteq> CHR ''+''"
proof -
  assume d: "d < 10"
  then have o: "(of_char (digit d) :: nat) = 48 + d" by (simp add: digit_def)
  have n: "digit d \<noteq> c" if "of_char c < (48 :: nat)" for c using o that by auto
  show ?thesis using o d n [of "CHR ''#''"] n [of "CHR ''-''"] n [of "CHR ''+''"]
    by (simp add: digit_value_def is_digit_def is_space_def)
qed

lemma show_nat_ok:
  "show_nat n \<noteq> [] \<and> (\<forall>c \<in> set (show_nat n). is_digit c \<and> \<not> is_space c \<and> c \<noteq> CHR ''#'' \<and> c \<noteq> CHR ''-'' \<and> c \<noteq> CHR ''+'') \<and>
   read_nat (show_nat n) = n"
proof (induction n rule: show_nat.induct)
  case (1 n)
  show ?case
  proof (cases "n < 10")
    case True
    then show ?thesis using digit_ok [of n] by (subst (1 2 3) show_nat.simps) (simp add: read_nat_def)
  next
    case False
    have "read_nat (show_nat (n div 10) @ [digit (n mod 10)]) = 10 * (n div 10) + n mod 10"
      using 1 [OF False] digit_ok [of "n mod 10"] by (simp add: read_nat_def)
    then show ?thesis using False 1 [OF False] digit_ok [of "n mod 10"]
      by (subst (1 2 3) show_nat.simps) auto
  qed
qed

lemma length_show_nat: "n < 10 ^ k \<Longrightarrow> 0 < k \<Longrightarrow> length (show_nat n) \<le> k"
proof (induction n arbitrary: k rule: show_nat.induct)
  case (1 n)
  show ?case
  proof (cases "n < 10")
    case True
    then show ?thesis using 1(3) by (subst show_nat.simps) simp
  next
    case False
    then have "k \<noteq> 1" using 1(2) by auto
    then obtain j where k: "k = Suc (Suc j)" using 1(3) by (cases k; cases "k - 1") auto
    have "n div 10 < 10 ^ Suc j" using 1(2) k by (simp add: div_less_iff_less_mult mult.commute)
    then have "length (show_nat (n div 10)) \<le> Suc j" using 1(1) [OF False] by simp
    then show ?thesis using False k by (subst show_nat.simps) simp
  qed
qed

lemma show_int_token:
  "show_int i \<noteq> [] \<and> (\<forall>c \<in> set (show_int i). \<not> is_space c \<and> c \<noteq> CHR ''#'')"
  using show_nat_ok [of "nat i"] show_nat_ok [of "nat (- i)"]
  by (auto simp: show_int_def is_space_def)

lemma takeWhile_all: "\<forall>x \<in> set xs. P x \<Longrightarrow> takeWhile P xs = xs"
  by (simp add: takeWhile_eq_all_conv)

lemma stoi_digits:
  assumes "show_nat n = c # cs"
  shows "dropWhile is_space (c # cs) = c # cs" "takeWhile is_digit (c # cs) = c # cs" "read_nat (c # cs) = n"
    "c \<noteq> CHR ''-''" "c \<noteq> CHR ''+''"
  using show_nat_ok [of n] unfolding assms by (auto simp: takeWhile_all)

lemma stoi_show:
  assumes "- (2 ^ 31) \<le> i" and "i < 2 ^ 31"
  shows "stoi (show_int i) = Inr i"
proof (cases "i < 0")
  case True
  obtain c cs where s: "show_nat (nat (- i)) = c # cs" using show_nat_ok [of "nat (- i)"] by (cases "show_nat (nat (- i))") auto
  have "\<not> is_space (CHR ''-'')" by (simp add: is_space_def)
  then show ?thesis using True assms stoi_digits [OF s] by (simp add: stoi_def show_int_def s Let_def)
next
  case False
  obtain c cs where s: "show_nat (nat i) = c # cs" using show_nat_ok [of "nat i"] by (cases "show_nat (nat i)") auto
  then show ?thesis using False assms stoi_digits [OF s] by (simp add: stoi_def show_int_def s Let_def)
qed

lemma next_token_ok:
  assumes "\<forall>c \<in> set sp. is_space c" and "tok \<noteq> []" and "\<forall>c \<in> set tok. \<not> is_space c"
  shows "next_token (sp @ tok @ '' '' @ rest) = (tok, '' '' @ rest)"
proof -
  have "dropWhile is_space (sp @ tok @ '' '' @ rest) = tok @ '' '' @ rest"
    using assms by (cases tok) (simp_all add: dropWhile_append2)
  moreover have "is_space (CHR '' '')" by (simp add: is_space_def)
  ultimately show ?thesis using assms(3) by (simp add: next_token_def Let_def)
qed

lemma serializeHelper_append: "serializeHelper t out = out @ serializeHelper t []"
proof (induction t arbitrary: out)
  case (Node l v r)
  show ?case
    using Node(1) [of "out @ show_int v @ '' ''"] Node(1) [of "show_int v @ '' ''"]
      Node(2) [of "serializeHelper l (out @ show_int v @ '' '')"] Node(2) [of "serializeHelper l (show_int v @ '' '')"]
    by (simp add: Let_def)
qed simp

lemma serializeHelper_Node:
  "serializeHelper (Node l v r) [] = show_int v @ '' '' @ serializeHelper l [] @ serializeHelper r []"
  using serializeHelper_append [of l "show_int v @ '' ''"]
    serializeHelper_append [of r "serializeHelper l (show_int v @ '' '')"] by (simp add: Let_def)

definition int_tree :: "TreeNode \<Rightarrow> bool" where
  "int_tree t \<longleftrightarrow> (\<forall>v \<in> set_tree t. - (2 ^ 31) \<le> v \<and> v < 2 ^ 31)"

lemma int_tree_Node [simp]:
  "int_tree (Node l v r) \<longleftrightarrow> (- (2 ^ 31) \<le> v \<and> v < 2 ^ 31) \<and> int_tree l \<and> int_tree r"
  by (auto simp: int_tree_def)

lemma deserializeHelper_ok:
  "int_tree t \<Longrightarrow> \<forall>c \<in> set sp. is_space c \<Longrightarrow>
   deserializeHelper (sp @ serializeHelper t [] @ rest) = Some (Inr (t, '' '' @ rest))"
proof (induction t arbitrary: sp rest)
  case Leaf
  have "next_token (sp @ ''#'' @ '' '' @ rest) = (''#'', '' '' @ rest)"
    using Leaf by (intro next_token_ok) (auto simp: is_space_def)
  then show ?case by (subst deserializeHelper.simps) simp
next
  case (Node l v r)
  have tok: "next_token (sp @ show_int v @ '' '' @ serializeHelper l [] @ serializeHelper r [] @ rest) =
      (show_int v, '' '' @ serializeHelper l [] @ serializeHelper r [] @ rest)"
    using Node(4) show_int_token by (intro next_token_ok) auto
  have "show_int v \<noteq> ''#''"
  proof
    assume "show_int v = ''#''"
    with show_int_token [of v] show False by simp
  qed
  moreover have "stoi (show_int v) = Inr v" using Node(3) by (intro stoi_show) auto
  moreover have "\<forall>c \<in> set '' ''. is_space c" by (simp add: is_space_def)
  ultimately show ?case
    using Node(1) [of "'' ''" "serializeHelper r [] @ rest"] Node(2) [of "'' ''" rest] Node(3) tok
    unfolding serializeHelper_Node append_assoc by (subst deserializeHelper.simps) simp
qed

lemma status_bits:
  "status_of (Node l v r) AND ROOT \<noteq> 0" "status_of (Node l v r) AND LEFT \<noteq> 0 \<longleftrightarrow> l \<noteq> Leaf"
  "status_of (Node l v r) AND RIGHT \<noteq> 0 \<longleftrightarrow> r \<noteq> Leaf" "status_of Leaf AND ROOT = 0"
  by (simp_all add: status_of_def ROOT_def LEFT_def RIGHT_def Let_def)

lemma base256: "(\<Sum>k = 0..<4. (v div 256 ^ k mod 256) * 256 ^ k) = v mod 2 ^ 32" for v :: int
proof -
  have step: "v mod (256 ^ Suc n) = (v div 256 ^ n mod 256) * 256 ^ n + v mod 256 ^ n" for n
    using zmod_zmult2_eq [of 256 v "256 ^ n"] by (simp add: mult.commute)
  have "(\<Sum>k = 0..<n. (v div 256 ^ k mod 256) * 256 ^ k) = v mod 256 ^ n" for n
  proof (induction n)
    case (Suc n)
    show ?case unfolding sum.atLeast0_lessThan_Suc Suc step by (rule add.commute)
  qed simp
  from this [of 4] show ?thesis by simp
qed

lemma bytes_int_bytes:
  assumes "- (2 ^ 31) \<le> v" and "v < 2 ^ 31"
  shows "bytes_int (int_bytes v) = v"
proof -
  have "(\<Sum>k = 0..<4. uint (int_bytes v ! k) * 256 ^ k) = (\<Sum>k = 0..<4. (v div 256 ^ k mod 256) * 256 ^ k)"
    by (rule sum.cong) (simp_all add: int_bytes_def uint_word_of_int)
  then have "bytes_int (int_bytes v) = to_int32 (v mod 2 ^ 32)" by (simp add: bytes_int_def base256)
  also have "\<dots> = to_int32 v" by (simp add: to_int32_def mod_add_left_eq)
  finally show ?thesis using assms by simp
qed

lemma binary_helper_append: "binary_helper t out = out @ binary_helper t []"
proof (induction t arbitrary: out)
  case (Node l v r)
  let ?s = "status_of (Node l v r)"
  have l: "binary_helper l (o1 @ o2) = o1 @ binary_helper l o2" for o1 o2
    using Node(1) [of "o1 @ o2"] Node(1) [of o2] by simp
  have r: "binary_helper r (o1 @ o2) = o1 @ binary_helper r o2" for o1 o2
    using Node(2) [of "o1 @ o2"] Node(2) [of o2] by simp
  show ?case using l [of out] r [of out] by (simp add: Let_def)
qed simp

lemma binary_helper_Node:
  "binary_helper (Node l v r) [] = status_of (Node l v r) # int_bytes v @
     (if l \<noteq> Leaf then binary_helper l [] else []) @ (if r \<noteq> Leaf then binary_helper r [] else [])"
proof -
  have "binary_helper t (w # int_bytes v) = w # int_bytes v @ binary_helper t []"
    and "binary_helper t (w # int_bytes v @ out) = w # int_bytes v @ out @ binary_helper t []" for t w out
    using binary_helper_append [of t "w # int_bytes v"] binary_helper_append [of t "w # int_bytes v @ out"] by simp_all
  then show ?thesis by (simp add: Let_def status_bits)
qed

lemma binary_read_ok: "int_tree t \<Longrightarrow> binary_read (binary_helper t [] @ rest) = Some (t, rest)"
proof (induction t arbitrary: rest)
  case Leaf
  then show ?case by (subst binary_read.simps) (simp add: status_bits)
next
  case (Node l v r)
  have len: "length (int_bytes v) = 4" by (simp add: int_bytes_def)
  have v: "bytes_int (int_bytes v) = v" using Node(3) by (intro bytes_int_bytes) auto
  have l: "binary_read (binary_helper l [] @ s) = Some (l, s)" for s using Node(1,3) by simp
  have r: "binary_read (binary_helper r [] @ s) = Some (r, s)" for s using Node(2,3) by simp
  show ?case unfolding binary_helper_Node
    by (subst binary_read.simps) (simp add: status_bits len v l r Let_def del: bind_eq_Some)
qed

text \<open>
  C15: both formats are lossless: reading back what \<open>serialize\<close> wrote for a tree of
  \<open>int\<close>s gives the tree, without an exception and without reading uninitialised memory.
\<close>

theorem serialize_roundtrip:
  assumes "int_tree t"
  shows "ascii_deserialize (ascii_serialize t) = Some (Inr t) \<and> binary_deserialize (binary_serialize t) = Some t"
  using deserializeHelper_ok [OF assms, of "[]" "[]"] binary_read_ok [OF assms, of "[]"]
  by (simp add: ascii_deserialize_def ascii_serialize_def binary_deserialize_def binary_serialize_def)

theorem serialize_roundtrip_witness:
  "ascii_deserialize (ascii_serialize (Node Leaf 7 Leaf)) = Some (Inr (Node Leaf 7 Leaf))"
  using serialize_roundtrip [of "Node Leaf 7 Leaf"] by (simp add: int_tree_def)

text \<open>A truncated text ends in an exception, not in a tree.\<close>

lemma ascii_deserialize_empty: "ascii_deserialize [] = Some (Inl invalid_argument)"
  by (simp add: ascii_deserialize_def deserializeHelper.simps next_token_def stoi_def Let_def)

end
