(* ===== verification/TreeStore.thy ===== *)
theory TreeStore
  imports Trees
begin

section \<open>Trees in memory (leetcode/tree)\<close>

text \<open>
  The functions that build a tree, change its pointers for a while or compare node addresses:
  the store maps addresses to nodes. \<open>seg s p t q\<close> says that the pointer \<open>p\<close> leads to
  the tree \<open>t\<close> of address-value pairs, with \<open>q\<close> in place of the last null pointer on the
  right; a whole tree is the case \<open>q = None\<close>.
\<close>

record tnode =
  tval :: int
  tleft :: ptr
  tright :: ptr

type_synonym tstore = "addr \<Rightarrow> tnode option"

subsection \<open>\<open>initTreeNode\<close>\<close>

record heap_state =
  hstore :: tstore
  hnext :: addr

definition new_node :: "int \<Rightarrow> heap_state \<Rightarrow> addr \<times> heap_state" where
  "new_node x s = (hnext s, s\<lparr>hstore := (hstore s)(hnext s \<mapsto> \<lparr>tval = x, tleft = None, tright = None\<rparr>), hnext := hnext s + 1\<rparr>)"

definition set_left :: "heap_state \<Rightarrow> addr \<Rightarrow> addr \<Rightarrow> heap_state option" where
  "set_left s p a = do { n \<leftarrow> hstore s p; Some (s\<lparr>hstore := (hstore s)(p \<mapsto> n\<lparr>tleft := Some a\<rparr>)\<rparr>) }"

definition set_right :: "heap_state \<Rightarrow> addr \<Rightarrow> addr \<Rightarrow> heap_state option" where
  "set_right s p a = do { n \<leftarrow> hstore s p; Some (s\<lparr>hstore := (hstore s)(p \<mapsto> n\<lparr>tright := Some a\<rparr>)\<rparr>) }"

definition attach :: "(heap_state \<Rightarrow> addr \<Rightarrow> addr \<Rightarrow> heap_state option) \<Rightarrow> int \<Rightarrow> addr \<Rightarrow> heap_state \<Rightarrow> addr list \<Rightarrow>
    (heap_state \<times> addr list) option" where
  "attach set_child x cur s q =
     (if x \<noteq> 0 then let (a, s) = new_node x s in do { s \<leftarrow> set_child s cur a; Some (s, q @ [a]) }
      else Some (s, q))"

function init_loop :: "int list \<Rightarrow> nat \<Rightarrow> addr \<Rightarrow> addr list \<Rightarrow> heap_state \<Rightarrow> heap_state option" where
  "init_loop values i cur q s =
     (if i < length values
      then do {
        (s, q) \<leftarrow> attach set_left (values ! i) cur s q;
        if i + 1 = length values then Some s
        else do {
          (s, q) \<leftarrow> attach set_right (values ! (i + 1)) cur s q;
          cur \<leftarrow> hd_opt q;
          init_loop values (i + 2) cur (tl q) s } }
      else Some s)"
  by pat_completeness auto
termination by (relation "measure (\<lambda>(values, i, _). length values - i)") auto

declare init_loop.simps [simp del]

definition initTreeNode :: "int list \<Rightarrow> (tstore \<times> addr) option" where
  "initTreeNode values = do {
     x \<leftarrow> vget values 0;
     let (root, s) = new_node x \<lparr>hstore = Map.empty, hnext = 0\<rparr>;
     s \<leftarrow> init_loop values 1 root [] s;
     Some (hstore s, root) }"

fun seg :: "tstore \<Rightarrow> ptr \<Rightarrow> (addr \<times> int) tree \<Rightarrow> ptr \<Rightarrow> bool" where
  "seg s p Leaf q \<longleftrightarrow> p = q"
| "seg s p (Node l (a, v) r) q \<longleftrightarrow>
     p = Some a \<and> (\<exists>pl pr. s a = Some \<lparr>tval = v, tleft = pl, tright = pr\<rparr> \<and> seg s pl l None \<and> seg s pr r q)"

text \<open>The tree that the \<open>main\<close> functions build, and a reading of the front of the empty queue.\<close>

lemma initTreeNode_example:
  "\<exists>s. initTreeNode [1, 2, 3, 0, 0, 4, 5] = Some (s, 0) \<and>
     seg s (Some 0) (Node (Node Leaf (1, 2) Leaf) (0, 1) (Node (Node Leaf (3, 4) Leaf) (2, 3) (Node Leaf (4, 5) Leaf))) None"
  by (simp add: initTreeNode_def init_loop.simps attach_def new_node_def set_left_def set_right_def vget_def Let_def)

lemma initTreeNode_empty_queue: "initTreeNode [1, 0, 0] = None"
  by (simp add: initTreeNode_def init_loop.simps attach_def new_node_def vget_def Let_def)

subsection \<open>Morris traversal\<close>

text \<open>
  \<open>inorderTraversal_morris\<close> needs no stack: it lets the last node of a left subtree point
  back to the root of the tree while the subtree is visited.
\<close>

partial_function (option) morris_find :: "tstore \<Rightarrow> addr \<Rightarrow> addr \<Rightarrow> addr option" where
  "morris_find s prev root = do {
     n \<leftarrow> s prev;
     case tright n of
       None \<Rightarrow> Some prev
     | Some nxt \<Rightarrow> if nxt \<noteq> root then morris_find s nxt root else Some prev }"

partial_function (option) morris_loop :: "tstore \<Rightarrow> ptr \<Rightarrow> int list \<Rightarrow> (tstore \<times> int list) option" where
  "morris_loop s p nodes = (case p of
     None \<Rightarrow> Some (s, nodes)
   | Some root \<Rightarrow> do {
       n \<leftarrow> s root;
       case tleft n of
         Some lc \<Rightarrow> do {
           prev \<leftarrow> morris_find s lc root;
           m \<leftarrow> s prev;
           if tright m = None
           then morris_loop (s(prev \<mapsto> m\<lparr>tright := Some root\<rparr>)) (tleft n) nodes
           else morris_loop (s(prev \<mapsto> m\<lparr>tright := None\<rparr>)) (tright n) (nodes @ [tval n]) }
       | None \<Rightarrow> morris_loop s (tright n) (nodes @ [tval n]) })"

definition inorderTraversal_morris :: "tstore \<Rightarrow> ptr \<Rightarrow> (tstore \<times> int list) option" where
  "inorderTraversal_morris s root = morris_loop s root []"

definition addrs :: "(addr \<times> int) tree \<Rightarrow> addr set" where
  "addrs t = fst ` set_tree t"

lemma addrs_simps [simp]: "addrs Leaf = {}" "addrs (Node l av r) = insert (fst av) (addrs l \<union> addrs r)"
  by (auto simp: addrs_def)

fun apart_tree :: "(addr \<times> int) tree \<Rightarrow> bool" where
  "apart_tree Leaf = True"
| "apart_tree (Node l (a, v) r) \<longleftrightarrow>
     a \<notin> addrs l \<and> a \<notin> addrs r \<and> addrs l \<inter> addrs r = {} \<and> apart_tree l \<and> apart_tree r"

text \<open>The last node on the right.\<close>

fun last_addr :: "(addr \<times> int) tree \<Rightarrow> addr" where
  "last_addr Leaf = 0"
| "last_addr (Node l (a, v) r) = (if r = Leaf then a else last_addr r)"

lemma last_addr_in: "t \<noteq> Leaf \<Longrightarrow> last_addr t \<in> addrs t"
  by (induction t rule: last_addr.induct) auto

lemma seg_upd [simp]: "m \<notin> addrs t \<Longrightarrow> seg (s(m := x)) p t q = seg s p t q"
  by (induction t arbitrary: p q) auto

lemma seg_ptr: "seg s p t q \<Longrightarrow> t \<noteq> Leaf \<Longrightarrow> \<exists>a \<in> addrs t. p = Some a"
  by (cases t) auto

lemma seg_last:
  "seg s p t q \<Longrightarrow> t \<noteq> Leaf \<Longrightarrow> apart_tree t \<Longrightarrow>
   \<exists>n. s (last_addr t) = Some n \<and> tright n = q \<and>
     (\<forall>q'. seg (s(last_addr t \<mapsto> n\<lparr>tright := q'\<rparr>)) p t q')"
proof (induction t arbitrary: p)
  case (Node l av r)
  obtain a v where av: "av = (a, v)" by fastforce
  obtain pl pr where n: "p = Some a" "s a = Some \<lparr>tval = v, tleft = pl, tright = pr\<rparr>" "seg s pl l None" "seg s pr r q"
    using Node(3) av by auto
  show ?case
  proof (cases "r = Leaf")
    case True
    then show ?thesis using n Node(5) av by (auto simp: fun_upd_same simp del: fun_upd_apply)
  next
    case False
    have "apart_tree r" using Node(5) av by simp
    from Node(2) [OF n(4) False this] obtain m where m: "s (last_addr r) = Some m" "tright m = q"
      "\<forall>q'. seg (s(last_addr r \<mapsto> m\<lparr>tright := q'\<rparr>)) pr r q'" by blast
    have "last_addr r \<in> addrs r" using False by (rule last_addr_in)
    then have "a \<noteq> last_addr r" "last_addr r \<notin> addrs l" using Node(5) av by auto
    then show ?thesis using False m n av by (simp add: fun_upd_other del: fun_upd_apply)
  qed
qed simp

lemma morris_find_ok:
  "seg s (Some p) t q \<Longrightarrow> t \<noteq> Leaf \<Longrightarrow> root \<notin> addrs t \<Longrightarrow> q = None \<or> q = Some root \<Longrightarrow>
   morris_find s p root = Some (last_addr t)"
proof (induction t arbitrary: p)
  case (Node l av r)
  obtain a v where av: "av = (a, v)" by fastforce
  obtain pl pr where n: "p = a" "s a = Some \<lparr>tval = v, tleft = pl, tright = pr\<rparr>" "seg s pr r q"
    using Node(3) av by auto
  show ?case
  proof (cases "r = Leaf")
    case True
    then show ?thesis using n Node(6) av by (subst morris_find.simps) auto
  next
    case False
    obtain b where b: "pr = Some b" "b \<in> addrs r" using seg_ptr [OF n(3) False] by auto
    have "morris_find s b root = Some (last_addr r)"
      using Node(2) [of b] n(3) b False Node(5,6) by simp
    then show ?thesis using n b False Node(5) av by (subst morris_find.simps) auto
  qed
qed simp

lemma morris_loop_ok:
  "seg s p t q \<Longrightarrow> apart_tree t \<Longrightarrow> morris_loop s p nodes = morris_loop s q (nodes @ map snd (inorder t))"
proof (induction t arbitrary: s p q nodes)
  case (Node l av r)
  obtain a v where av: "av = (a, v)" by fastforce
  obtain pl pr where n: "p = Some a" "s a = Some \<lparr>tval = v, tleft = pl, tright = pr\<rparr>" "seg s pl l None" "seg s pr r q"
    using Node(3) av by auto
  have ap: "a \<notin> addrs l" "apart_tree l" "apart_tree r" using Node(4) av by auto
  have rest: "morris_loop s pr (nodes' @ [v]) = morris_loop s q (nodes' @ [v] @ map snd (inorder r))" for nodes'
    using Node(2) [OF n(4) ap(3)] by simp
  show ?case
  proof (cases "l = Leaf")
    case True
    then have "morris_loop s p nodes = morris_loop s pr (nodes @ [v])"
      using n by (subst morris_loop.simps) simp
    then show ?thesis using rest True av by simp
  next
    case False
    let ?m = "last_addr l"
    obtain c where c: "pl = Some c" using seg_ptr [OF n(3) False] by auto
    obtain m where m: "s ?m = Some m" "tright m = None" "\<forall>q'. seg (s(?m \<mapsto> m\<lparr>tright := q'\<rparr>)) pl l q'"
      using seg_last [OF n(3) False ap(2)] by blast
    define s' where "s' = s(?m \<mapsto> m\<lparr>tright := Some a\<rparr>)"
    have ne: "?m \<noteq> a" using last_addr_in [OF False] ap(1) by auto
    have seg': "seg s' pl l (Some a)" using m(3) by (simp add: s'_def)
    have "morris_find s c a = Some ?m" using morris_find_ok [of s c l None a] n(3) c False ap(1) by simp
    then have "morris_loop s p nodes = morris_loop s' pl nodes"
      using n(1,2) c m(1,2) by (subst morris_loop.simps) (simp add: s'_def)
    also have "\<dots> = morris_loop s' (Some a) (nodes @ map snd (inorder l))" by (rule Node(1) [OF seg' ap(2)])
    also have "\<dots> = morris_loop s pr ((nodes @ map snd (inorder l)) @ [v])"
    proof -
      have "morris_find s' c a = Some ?m" using morris_find_ok [of s' c l "Some a" a] seg' c False ap(1) by simp
      moreover have "s' a = s a" "s' ?m = Some (m\<lparr>tright := Some a\<rparr>)" using ne by (simp_all add: s'_def)
      moreover have "s'(?m \<mapsto> m\<lparr>tright := None\<rparr>) = s"
        using m(1,2) by (auto simp: s'_def fun_eq_iff)
      ultimately show ?thesis using n(2) c by (subst morris_loop.simps) (simp del: fun_upd_apply)
    qed
    finally show ?thesis using rest [of "nodes @ map snd (inorder l)"] av by simp
  qed
qed simp

text \<open>
  C11: on a tree in memory the Morris traversal returns, lists the values in order, follows no
  invalid pointer and leaves every pointer of the tree as it was.
\<close>

theorem inorderTraversal_morris_correct:
  assumes "seg s p t None" and "apart_tree t"
  shows "inorderTraversal_morris s p = Some (s, map snd (inorder t))"
proof -
  have "inorderTraversal_morris s p = morris_loop s None (map snd (inorder t))"
    using morris_loop_ok [OF assms, of "[]"] by (simp add: inorderTraversal_morris_def)
  then show ?thesis by (simp add: morris_loop.simps)
qed

theorem inorderTraversal_morris_correct_witness:
  "\<exists>s. initTreeNode [1, 2, 3, 0, 0, 4, 5] = Some (s, 0) \<and> inorderTraversal_morris s (Some 0) = Some (s, [2, 1, 4, 3, 5])"
proof -
  obtain s where s: "initTreeNode [1, 2, 3, 0, 0, 4, 5] = Some (s, 0)"
    "seg s (Some 0) (Node (Node Leaf (1, 2) Leaf) (0, 1) (Node (Node Leaf (3, 4) Leaf) (2, 3) (Node Leaf (4, 5) Leaf))) None"
    using initTreeNode_example by blast
  show ?thesis using s(1) inorderTraversal_morris_correct [OF s(2)] by simp
qed

subsection \<open>Lowest common ancestor\<close>

text \<open>Nodes are compared by address; the tree is read only.\<close>

fun lowestCommonAncestor :: "(addr \<times> int) tree \<Rightarrow> addr \<Rightarrow> addr \<Rightarrow> ptr" where
  "lowestCommonAncestor Leaf p q = None"
| "lowestCommonAncestor (Node left_child (root, v) right_child) p q =
     (if root = p \<or> root = q then Some root
      else let l = lowestCommonAncestor left_child p q;
               r = lowestCommonAncestor right_child p q
           in if l \<noteq> None \<and> r \<noteq> None then Some root else if l \<noteq> None then l else r)"

text \<open>\<open>c\<close> is the root of the smallest subtree that holds both nodes.\<close>

definition is_LCA :: "(addr \<times> int) tree \<Rightarrow> addr \<Rightarrow> addr \<Rightarrow> addr \<Rightarrow> bool" where
  "is_LCA t p q c \<longleftrightarrow> (\<exists>l v r. Node l (c, v) r \<in> subtrees t \<and> {p, q} \<subseteq> addrs (Node l (c, v) r) \<and>
     (\<forall>u \<in> subtrees (Node l (c, v) r). {p, q} \<subseteq> addrs u \<longrightarrow> u = Node l (c, v) r))"

lemma subtrees_addrs: "u \<in> subtrees t \<Longrightarrow> addrs u \<subseteq> addrs t"
  by (induction t) auto

lemma lca_none: "lowestCommonAncestor t p q = None \<longleftrightarrow> p \<notin> addrs t \<and> q \<notin> addrs t"
  by (induction t p q rule: lowestCommonAncestor.induct) (auto simp: Let_def)

lemma lca_one:
  "apart_tree t \<Longrightarrow> p \<in> addrs t \<Longrightarrow> q \<notin> addrs t \<Longrightarrow> lowestCommonAncestor t p q = Some p \<and> lowestCommonAncestor t q p = Some p"
proof (induction t)
  case (Node l av r)
  then show ?case using lca_none [of l p q] lca_none [of r p q] lca_none [of l q p] lca_none [of r q p]
    by (cases av) (auto simp: Let_def)
qed simp

lemma lca_ok:
  "apart_tree t \<Longrightarrow> p \<in> addrs t \<Longrightarrow> q \<in> addrs t \<Longrightarrow> \<exists>c. lowestCommonAncestor t p q = Some c \<and> is_LCA t p q c"
proof (induction t)
  case (Node l av r)
  obtain a v where av: "av = (a, v)" by fastforce
  let ?t = "Node l (a, v) r"
  have ap: "apart_tree l" "apart_tree r" "a \<notin> addrs l" "a \<notin> addrs r" "addrs l \<inter> addrs r = {}" using Node(3) av by auto
  have whole: "is_LCA ?t p q a" if split: "\<not> {p, q} \<subseteq> addrs l" "\<not> {p, q} \<subseteq> addrs r"
  proof -
    have "u = ?t" if u: "u \<in> subtrees ?t" "{p, q} \<subseteq> addrs u" for u
    proof -
      have "u \<notin> subtrees l" "u \<notin> subtrees r" using subtrees_addrs [of u l] subtrees_addrs [of u r] u(2) split by auto
      then show ?thesis using u(1) by simp
    qed
    moreover have "{p, q} \<subseteq> addrs ?t" using Node(4,5) av by simp
    moreover have "?t \<in> subtrees ?t" by simp
    ultimately show ?thesis unfolding is_LCA_def by blast
  qed
  have sub: "is_LCA ?t p q c" if "is_LCA l p q c \<or> is_LCA r p q c" for c
    using that unfolding is_LCA_def by fastforce
  consider "a = p \<or> a = q" | "a \<noteq> p" "a \<noteq> q" "p \<in> addrs l" "q \<in> addrs l" | "a \<noteq> p" "a \<noteq> q" "p \<in> addrs r" "q \<in> addrs r"
    | "a \<noteq> p" "a \<noteq> q" "(p \<in> addrs l \<and> q \<in> addrs r) \<or> (p \<in> addrs r \<and> q \<in> addrs l)" using Node(4,5) av by auto
  then show ?case
  proof cases
    case 1
    then show ?thesis using whole ap(3,4) av by auto
  next
    case 2
    then obtain c where "lowestCommonAncestor l p q = Some c" "is_LCA l p q c" using Node(1) ap(1) by blast
    moreover have "lowestCommonAncestor r p q = None" using 2 ap(5) by (auto simp: lca_none)
    ultimately show ?thesis using 2 sub av by (simp add: Let_def)
  next
    case 3
    then obtain c where "lowestCommonAncestor r p q = Some c" "is_LCA r p q c" using Node(2) ap(2) by blast
    moreover have "lowestCommonAncestor l p q = None" using 3 ap(5) by (auto simp: lca_none)
    ultimately show ?thesis using 3 sub av by (simp add: Let_def)
  next
    case 4
    then have "lowestCommonAncestor l p q \<noteq> None" "lowestCommonAncestor r p q \<noteq> None" by (auto simp: lca_none)
    moreover have "is_LCA ?t p q a" using 4 ap(5) by (intro whole) auto
    ultimately show ?thesis using 4 av by (simp add: Let_def)
  qed
qed simp

end
