(* ===== verification/BlockingQueue.thy ===== *)
theory BlockingQueue
  imports Prelude
begin

section \<open>The blocking queue (misc/include/blocking_queue.h)\<close>

text \<open>
  Threads interleave between the calls of the semaphore functions, so an operation is a sequence
  of steps and a thread has a program counter that names the next one. \<open>sem_wait\<close> on a
  semaphore with value 0 blocks. \<open>front\<close> or \<open>pop_front\<close> of the empty deque is
  undefined. \<open>log\<close> and \<open>taken\<close> record the values put and taken; the code does not
  have them.
\<close>

datatype 'a pc =
    Idle
  | PutLock 'a | PutPush 'a | PutUnlock | PutPost
  | TakeItem | TakeLock | TakeFront | TakeUnlock 'a | TakeReturn 'a
  | TryLock | TryRead | TryUnlock bool | TryBranch bool | TryReturn bool
  | SizeLock | SizeRead | SizeUnlock nat | SizeReturn nat

record 'a bq =
  mutex :: nat
  items :: nat
  queue :: "'a list"
  pcs :: "'a pc list"
  log :: "'a list"
  taken :: "'a list"

datatype 'a outcome = Blocked | Undefined | Next "'a bq"

definition BlockingQueue :: "nat \<Rightarrow> 'a bq" where
  "BlockingQueue threads = \<lparr>mutex = 1, items = 0, queue = [], pcs = replicate threads Idle, log = [], taken = []\<rparr>"

definition goto :: "'a bq \<Rightarrow> nat \<Rightarrow> 'a pc \<Rightarrow> 'a bq" where
  "goto s i pc = s\<lparr>pcs := (pcs s)[i := pc]\<rparr>"

definition sem_wait_mutex :: "'a bq \<Rightarrow> nat \<Rightarrow> 'a pc \<Rightarrow> 'a outcome" where
  "sem_wait_mutex s i pc = (if mutex s = 0 then Blocked else Next (goto (s\<lparr>mutex := mutex s - 1\<rparr>) i pc))"

definition sem_post_mutex :: "'a bq \<Rightarrow> nat \<Rightarrow> 'a pc \<Rightarrow> 'a outcome" where
  "sem_post_mutex s i pc = Next (goto (s\<lparr>mutex := mutex s + 1\<rparr>) i pc)"

text \<open>\<open>put\<close>, \<open>take()\<close>, \<open>take(T &)\<close> and \<open>size\<close>, one step each.\<close>

fun put_step :: "'a pc \<Rightarrow> 'a bq \<Rightarrow> nat \<Rightarrow> 'a outcome" where
  "put_step (PutLock t) s i = sem_wait_mutex s i (PutPush t)"
| "put_step (PutPush t) s i = Next (goto (s\<lparr>queue := queue s @ [t], log := log s @ [t]\<rparr>) i PutUnlock)"
| "put_step PutUnlock s i = sem_post_mutex s i PutPost"
| "put_step PutPost s i = Next (goto (s\<lparr>items := items s + 1\<rparr>) i Idle)"
| "put_step _ s i = Blocked"

fun take_step :: "'a pc \<Rightarrow> 'a bq \<Rightarrow> nat \<Rightarrow> 'a outcome" where
  "take_step TakeItem s i = (if items s = 0 then Blocked else Next (goto (s\<lparr>items := items s - 1\<rparr>) i TakeLock))"
| "take_step TakeLock s i = sem_wait_mutex s i TakeFront"
| "take_step TakeFront s i = (case queue s of
     [] \<Rightarrow> Undefined
   | ret # q \<Rightarrow> Next (goto (s\<lparr>queue := q, taken := taken s @ [ret]\<rparr>) i (TakeUnlock ret)))"
| "take_step (TakeUnlock ret) s i = sem_post_mutex s i (TakeReturn ret)"
| "take_step (TakeReturn ret) s i = Next (goto s i Idle)"
| "take_step _ s i = Blocked"

fun try_take_step :: "'a pc \<Rightarrow> 'a bq \<Rightarrow> nat \<Rightarrow> 'a outcome" where
  "try_take_step TryLock s i = sem_wait_mutex s i TryRead"
| "try_take_step TryRead s i = Next (goto s i (TryUnlock (length (queue s) > 0)))"
| "try_take_step (TryUnlock ret) s i = sem_post_mutex s i (TryBranch ret)"
| "try_take_step (TryBranch ret) s i = Next (goto s i (if ret then TakeItem else TryReturn False))"
| "try_take_step (TryReturn ret) s i = Next (goto s i Idle)"
| "try_take_step _ s i = Blocked"

fun size_step :: "'a pc \<Rightarrow> 'a bq \<Rightarrow> nat \<Rightarrow> 'a outcome" where
  "size_step SizeLock s i = sem_wait_mutex s i SizeRead"
| "size_step SizeRead s i = Next (goto s i (SizeUnlock (length (queue s))))"
| "size_step (SizeUnlock ret) s i = sem_post_mutex s i (SizeReturn ret)"
| "size_step (SizeReturn ret) s i = Next (goto s i Idle)"
| "size_step _ s i = Blocked"

fun in_put :: "'a pc \<Rightarrow> bool" where
  "in_put (PutLock _) = True"
| "in_put (PutPush _) = True"
| "in_put PutUnlock = True"
| "in_put PutPost = True"
| "in_put _ = False"

fun in_take :: "'a pc \<Rightarrow> bool" where
  "in_take TakeItem = True"
| "in_take TakeLock = True"
| "in_take TakeFront = True"
| "in_take (TakeUnlock _) = True"
| "in_take (TakeReturn _) = True"
| "in_take _ = False"

fun in_try :: "'a pc \<Rightarrow> bool" where
  "in_try TryLock = True"
| "in_try TryRead = True"
| "in_try (TryUnlock _) = True"
| "in_try (TryBranch _) = True"
| "in_try (TryReturn _) = True"
| "in_try _ = False"

definition thread_step :: "'a bq \<Rightarrow> nat \<Rightarrow> 'a outcome" where
  "thread_step s i =
     (if i < length (pcs s)
      then let pc = pcs s ! i in
        if in_put pc then put_step pc s i
        else if in_take pc then take_step pc s i
        else if in_try pc then try_take_step pc s i
        else size_step pc s i
      else Blocked)"

text \<open>An idle thread may call any operation; any thread that is not blocked may make its next step.\<close>

definition entry :: "'a pc \<Rightarrow> bool" where
  "entry pc \<longleftrightarrow> (\<exists>t. pc = PutLock t) \<or> pc = TakeItem \<or> pc = TryLock \<or> pc = SizeLock"

inductive reach :: "nat \<Rightarrow> 'a bq \<Rightarrow> bool" for n where
  reach_init: "reach n (BlockingQueue n)"
| reach_call: "reach n s \<Longrightarrow> i < n \<Longrightarrow> pcs s ! i = Idle \<Longrightarrow> entry pc \<Longrightarrow> reach n (goto s i pc)"
| reach_step: "reach n s \<Longrightarrow> thread_step s i = Next s' \<Longrightarrow> reach n s'"

subsection \<open>Invariant\<close>

definition occupied :: "('b \<Rightarrow> bool) \<Rightarrow> 'b list \<Rightarrow> nat" where
  "occupied P xs = length (filter P xs)"

lemma occupied_update:
  "i < length xs \<Longrightarrow> occupied P (xs[i := x]) + (if P (xs ! i) then 1 else 0) = occupied P xs + (if P x then 1 else 0)"
proof (induction xs arbitrary: i)
  case (Cons y ys)
  show ?case
  proof (cases i)
    case (Suc j)
    then show ?thesis using Cons(1) [of j] Cons(2) by (auto simp: occupied_def split: if_splits)
  qed (simp add: occupied_def)
qed simp

lemma occupied_pos: "i < length xs \<Longrightarrow> P (xs ! i) \<Longrightarrow> 0 < occupied P xs"
  by (auto simp: occupied_def filter_empty_conv intro!: nth_mem)

text \<open>The threads that hold the mutex, that hold an item not yet removed, and that put one not yet posted.\<close>

definition holds_mutex :: "'a pc \<Rightarrow> bool" where
  "holds_mutex pc = (case pc of PutPush _ \<Rightarrow> True | PutUnlock \<Rightarrow> True | TakeFront \<Rightarrow> True | TakeUnlock _ \<Rightarrow> True
     | TryRead \<Rightarrow> True | TryUnlock _ \<Rightarrow> True | SizeRead \<Rightarrow> True | SizeUnlock _ \<Rightarrow> True | _ \<Rightarrow> False)"

definition holds_item :: "'a pc \<Rightarrow> bool" where
  "holds_item pc = (case pc of TakeLock \<Rightarrow> True | TakeFront \<Rightarrow> True | _ \<Rightarrow> False)"

definition owes_item :: "'a pc \<Rightarrow> bool" where
  "owes_item pc = (case pc of PutUnlock \<Rightarrow> True | PutPost \<Rightarrow> True | _ \<Rightarrow> False)"

definition bq_inv :: "nat \<Rightarrow> 'a bq \<Rightarrow> bool" where
  "bq_inv n s \<longleftrightarrow> length (pcs s) = n \<and>
     mutex s + occupied holds_mutex (pcs s) = 1 \<and>
     items s + occupied holds_item (pcs s) + occupied owes_item (pcs s) = length (queue s) \<and>
     log s = taken s @ queue s"

lemmas pc_roles = holds_mutex_def holds_item_def owes_item_def

lemma bq_inv_init: "bq_inv n (BlockingQueue n)"
  by (simp add: bq_inv_def BlockingQueue_def occupied_def pc_roles)

lemma bq_inv_goto:
  assumes "bq_inv n s" and "i < n"
    and "pcs s' = (pcs s)[i := pc]"
    and "mutex s' + (if holds_mutex pc then 1 else 0) = mutex s + (if holds_mutex (pcs s ! i) then 1 else 0)"
    and "length (queue s') + items s + (if holds_item (pcs s ! i) then 1 else 0) + (if owes_item (pcs s ! i) then 1 else 0) =
      length (queue s) + items s' + (if holds_item pc then 1 else 0) + (if owes_item pc then 1 else 0)"
    and "log s' = taken s' @ queue s'"
  shows "bq_inv n s'"
proof -
  have l: "i < length (pcs s)" using assms(1,2) by (simp add: bq_inv_def)
  have "occupied P (pcs s') + (if P (pcs s ! i) then 1 else 0) = occupied P (pcs s) + (if P pc then 1 else 0)" for P
    unfolding assms(3) by (rule occupied_update [OF l])
  from this [of holds_mutex] this [of holds_item] this [of owes_item]
  show ?thesis using assms unfolding bq_inv_def by (simp split: if_splits)
qed

lemma bq_inv_step:
  assumes "bq_inv n s" and "thread_step s i = Next s'"
  shows "bq_inv n s'"
proof -
  have l: "i < n" using assms by (auto simp: thread_step_def bq_inv_def split: if_splits)
  have inv: "log s = taken s @ queue s" and len: "length (pcs s) = n" using assms(1) by (simp_all add: bq_inv_def)
  have held: "mutex s \<noteq> 0 \<Longrightarrow> mutex s - 1 + 1 = mutex s" "items s \<noteq> 0 \<Longrightarrow> items s - 1 + 1 = items s" by simp_all
  note rules = thread_step_def Let_def sem_wait_mutex_def sem_post_mutex_def goto_def
  show ?thesis
    by (cases "pcs s ! i"; rule bq_inv_goto [OF assms(1) l, where pc = "pcs s' ! i"])
      (use assms(2) l len inv held in
        \<open>auto simp: rules pc_roles split: if_splits list.splits\<close>)
qed

lemma reach_inv: "reach n s \<Longrightarrow> bq_inv n s"
proof (induction rule: reach.induct)
  case (reach_call s i pc)
  have "bq_inv n (goto s i pc)"
    by (rule bq_inv_goto [OF reach_call.IH reach_call.hyps(2), where pc = pc])
      (use reach_call in \<open>auto simp: goto_def entry_def pc_roles bq_inv_def\<close>)
  then show ?case .
qed (auto intro: bq_inv_init bq_inv_step)

text \<open>
  C7: whatever the number of threads and however they interleave, the queue is never read when
  it is empty, at most one thread is inside the critical section, values leave in the order in
  which they came, and no more items are promised than there are.
\<close>

theorem BlockingQueue_safe:
  assumes "reach n s"
  shows "thread_step s i \<noteq> Undefined \<and> occupied holds_mutex (pcs s) \<le> 1 \<and> items s \<le> length (queue s) \<and>
    log s = taken s @ queue s"
proof -
  have inv: "bq_inv n s" using assms by (rule reach_inv)
  have "thread_step s i \<noteq> Undefined"
  proof
    assume u: "thread_step s i = Undefined"
    then have i: "i < length (pcs s)" by (auto simp: thread_step_def split: if_splits)
    have "pcs s ! i = TakeFront \<and> queue s = []"
      using u i by (cases "pcs s ! i") (auto simp: thread_step_def Let_def sem_wait_mutex_def sem_post_mutex_def split: if_splits list.splits)
    moreover from this have "0 < occupied holds_item (pcs s)"
      using i by (intro occupied_pos) (auto simp: holds_item_def)
    ultimately show False using inv by (simp add: bq_inv_def)
  qed
  then show ?thesis using inv by (auto simp: bq_inv_def)
qed

theorem BlockingQueue_safe_witness:
  "thread_step (goto (BlockingQueue 2 :: nat bq) 0 TakeItem) 0 \<noteq> Undefined"
proof -
  have "reach 2 (goto (BlockingQueue 2 :: nat bq) 0 TakeItem)"
    by (rule reach_call [OF reach_init]) (simp_all add: BlockingQueue_def entry_def)
  from BlockingQueue_safe [OF this, of 0] show ?thesis by blast
qed

text \<open>
  \<open>bool take(T &)\<close> releases the mutex between its test and \<open>take()\<close>. With two
  consumers and one item it waits although it is meant to return \<open>false\<close>: both see the item, one
  takes it, the other blocks on \<open>items_\<close>.
\<close>

fun run :: "nat list \<Rightarrow> 'a bq \<Rightarrow> 'a bq" where
  "run [] s = s"
| "run (i # is) s = (case thread_step s i of Next s' \<Rightarrow> run is s' | _ \<Rightarrow> s)"

lemma run_reach: "reach n s \<Longrightarrow> reach n (run is s)"
  by (induction "is" arbitrary: s) (auto split: outcome.split intro: reach_step)

lemma try_take_blocks:
  "\<exists>s. reach 2 (s :: nat bq) \<and> pcs s ! 1 = TakeItem \<and> queue s = [] \<and> thread_step s 1 = Blocked \<and> taken s = [7]"
proof -
  have 1: "reach 2 (goto (BlockingQueue 2 :: nat bq) 0 (PutLock 7))"
    by (rule reach_call [OF reach_init]) (simp_all add: BlockingQueue_def entry_def)
  define s1 where "s1 = run [0, 0, 0, 0] (goto (BlockingQueue 2 :: nat bq) 0 (PutLock 7))"
  have r1: "reach 2 s1" unfolding s1_def by (rule run_reach [OF 1])
  have s1: "s1 = \<lparr>mutex = 1, items = 1, queue = [7], pcs = [Idle, Idle], log = [7], taken = []\<rparr>"
    by (simp add: s1_def goto_def BlockingQueue_def thread_step_def Let_def sem_wait_mutex_def sem_post_mutex_def numeral_2_eq_2)
  have r2: "reach 2 (goto s1 0 TryLock)" by (rule reach_call [OF r1]) (simp_all add: s1 entry_def)
  have r3: "reach 2 (goto (goto s1 0 TryLock) 1 TryLock)"
    by (rule reach_call [OF r2]) (simp_all add: s1 goto_def entry_def)
  let ?s = "run [0, 0, 0, 1, 1, 1, 0, 1, 0, 0, 0, 0, 0] (goto (goto s1 0 TryLock) 1 TryLock)"
  have "reach 2 ?s" by (rule run_reach [OF r3])
  moreover have "pcs ?s ! 1 = TakeItem \<and> queue ?s = [] \<and> thread_step ?s 1 = Blocked \<and> taken ?s = [7]"
    by (simp add: s1 goto_def thread_step_def Let_def sem_wait_mutex_def sem_post_mutex_def)
  ultimately show ?thesis by blast
qed

end
