(* ===== verification/Reactor.thy ===== *)
theory Reactor
  imports BlockingQueue
begin

unbundle bit_operations_syntax

section \<open>The reactor (misc/reactor)\<close>

text \<open>
  One thread per reactor waits for events of its \<open>epoll\<close> instance and serves them; the
  main thread accepts connections and hands them to the reactors in turn. The results of the
  system calls are inputs. The queues of a connection are lists of messages; \<open>take\<close> of an
  empty one waits, which is the outcome \<open>Waits\<close>. Both builds are modelled, with level-triggered
  events and, with \<open>_EPOLL_ET_MODE_\<close>, edge-triggered ones.
\<close>

definition EPOLLIN :: "32 word" where "EPOLLIN = 0x001"
definition EPOLLPRI :: "32 word" where "EPOLLPRI = 0x002"
definition EPOLLOUT :: "32 word" where "EPOLLOUT = 0x004"
definition EPOLLERR :: "32 word" where "EPOLLERR = 0x008"
definition EPOLLHUP :: "32 word" where "EPOLLHUP = 0x010"
definition EPOLLRDHUP :: "32 word" where "EPOLLRDHUP = 0x2000"
definition EPOLLET :: "32 word" where "EPOLLET = 0x80000000"

lemmas epoll_bits = EPOLLIN_def EPOLLPRI_def EPOLLOUT_def EPOLLERR_def EPOLLHUP_def EPOLLRDHUP_def EPOLLET_def

definition READ_LENGTH :: nat where "READ_LENGTH = 1024"
definition NUM_REACTORS :: nat where "NUM_REACTORS = 4"

definition EPOLL_TRIGGER_MODE :: "bool \<Rightarrow> 32 word" where
  "EPOLL_TRIGGER_MODE et = (if et then EPOLLET else 0)"

datatype errno = EAGAIN | EWOULDBLOCK | EINTR | EMFILE | OTHER

text \<open>What a \<open>read\<close> or a \<open>write\<close> does: the bytes or their number, or -1 and \<open>errno\<close>.\<close>

datatype io_result = Got "8 word list" | Fails errno
datatype write_result = Wrote nat | Write_fails errno

type_synonym message = "8 word list"

record rstate =
  closed :: "int list"
  interest :: "int \<rightharpoonup> 32 word"
  read_queues :: "int \<rightharpoonup> message list"
  write_queues :: "int \<rightharpoonup> message list"
  written :: "(int \<times> message) list"
  n_events :: nat

datatype rresult = Served rstate | Waits | Corrupt

subsection \<open>Serving an event\<close>

definition close_fd :: "int \<Rightarrow> rstate \<Rightarrow> rstate" where
  "close_fd f s = s\<lparr>closed := closed s @ [f], interest := (interest s)(f := None)\<rparr>"

definition queue_put :: "int \<Rightarrow> message \<Rightarrow> (int \<rightharpoonup> message list) \<Rightarrow> (int \<rightharpoonup> message list)" where
  "queue_put f m qs = qs(f \<mapsto> (case qs f of None \<Rightarrow> [] | Some q \<Rightarrow> q) @ [m])"

text \<open>
  \<open>|\<close> binds stronger than \<open>&&\<close>: the test of line 59 is not the one its layout suggests.
\<close>

definition read_failed :: "int \<Rightarrow> errno \<Rightarrow> bool" where
  "read_failed nread err \<longleftrightarrow> nread = - 1 \<and> err \<noteq> EAGAIN \<and> ((err \<noteq> EWOULDBLOCK) \<or> nread = 0)"

definition put_bytes :: "nat \<Rightarrow> 8 word list \<Rightarrow> message \<Rightarrow> message option" where
  "put_bytes n bs msg = (if n + length bs \<le> length msg then Some (take n msg @ bs @ drop (n + length bs) msg) else None)"

text \<open>
  \<open>while (nread = read(fd, &msg[n], READ_LENGTH - 1) > 0) n += nread\<close>: \<open>nread\<close> is the
  value of the comparison. The results of the successive calls are a list; its end is a call
  that returns 0.
\<close>

fun read_et :: "io_result list \<Rightarrow> nat \<Rightarrow> message \<Rightarrow> (message \<times> int) option" where
  "read_et [] n msg = Some (msg, 0)"
| "read_et (Got bs # rs) n msg =
     (let bs = take (READ_LENGTH - 1) bs in
      if bs = [] then Some (msg, 0)
      else do { msg \<leftarrow> put_bytes n bs msg; read_et rs (n + 1) msg })"
| "read_et (Fails e # rs) n msg = Some (msg, 0)"

definition read_lt :: "io_result list \<Rightarrow> message \<Rightarrow> (message \<times> int) option" where
  "read_lt rs msg = (case rs of
     [] \<Rightarrow> Some (msg, 0)
   | Got bs # _ \<Rightarrow> let bs = take (READ_LENGTH - 1) bs in do { msg \<leftarrow> put_bytes 0 bs msg; Some (msg, int (length bs)) }
   | Fails e # _ \<Rightarrow> Some (msg, - 1))"

definition read_errno :: "io_result list \<Rightarrow> errno" where
  "read_errno rs = (case rs of Fails e # _ \<Rightarrow> e | _ \<Rightarrow> OTHER)"

definition serve_read :: "bool \<Rightarrow> int \<Rightarrow> io_result list \<Rightarrow> rstate \<Rightarrow> (bool \<times> rstate) option" where
  "serve_read et f rs s = do {
     let msg = replicate READ_LENGTH 0;
     (msg, nread) \<leftarrow> (if et then read_et rs 0 msg else read_lt rs msg);
     if read_failed nread (read_errno rs) then Some (True, close_fd f s)
     else Some (False, s\<lparr>read_queues := queue_put f msg (read_queues s)\<rparr>) }"

text \<open>The edge-triggered writer sends the rest as long as \<open>write\<close> accepts some of it.\<close>

fun write_et :: "write_result list \<Rightarrow> message \<Rightarrow> nat \<Rightarrow> message \<Rightarrow> message \<times> bool" where
  "write_et rs msg n sent =
     (if n = 0 then (sent, False)
      else case rs of
        [] \<Rightarrow> (sent, True)
      | Write_fails e # rs \<Rightarrow> (sent, True)
      | Wrote k # rs \<Rightarrow> write_et rs msg (n - min k n) (sent @ take (min k n) (drop (length msg - n) msg)))"

definition write_lt :: "write_result list \<Rightarrow> message \<Rightarrow> message \<times> bool" where
  "write_lt rs msg = (case rs of
     Wrote k # _ \<Rightarrow> (take k msg, False)
   | _ \<Rightarrow> ([], True))"

text \<open>
  For an empty message the edge-triggered build tests \<open>nwrite\<close> before it has a value.
\<close>

definition serve_write :: "bool \<Rightarrow> int \<Rightarrow> 32 word \<Rightarrow> write_result list \<Rightarrow> rstate \<Rightarrow> rresult" where
  "serve_write et f events ws s = (case write_queues s f of
     None \<Rightarrow> Served s
   | Some [] \<Rightarrow> Waits
   | Some (msg_write # q) \<Rightarrow>
       if et \<and> msg_write = [] then Corrupt else
       let s = s\<lparr>write_queues := (write_queues s)(f \<mapsto> q)\<rparr>;
           (sent, failed) = (if et then write_et ws msg_write (length msg_write) [] else write_lt ws msg_write);
           s = s\<lparr>written := written s @ [(f, sent)]\<rparr>;
           s = (if failed then s\<lparr>write_queues := queue_put f msg_write (write_queues s)\<rparr> else s)
       in Served (s\<lparr>interest := (interest s)(f \<mapsto> events AND NOT EPOLLOUT)\<rparr>))"

definition serve_event :: "bool \<Rightarrow> int \<times> 32 word \<Rightarrow> io_result list \<Rightarrow> write_result list \<Rightarrow> rstate \<Rightarrow> rresult" where
  "serve_event et ee rs ws s =
     (let (f, events) = ee in
      if events AND (EPOLLHUP OR EPOLLRDHUP OR EPOLLERR) \<noteq> 0 then Served (close_fd f s)
      else
        case (if events AND (EPOLLIN OR EPOLLPRI) \<noteq> 0 then serve_read et f rs s else Some (False, s)) of
          None \<Rightarrow> Corrupt
        | Some (stop, s) \<Rightarrow>
            if stop then Served s
            else if events AND EPOLLOUT \<noteq> 0 then serve_write et f events ws s
            else Served s)"

text \<open>One round of the thread function: \<open>epoll_wait\<close> reports the events, or fails.\<close>

fun serve_events :: "bool \<Rightarrow> ((int \<times> 32 word) \<times> io_result list \<times> write_result list) list \<Rightarrow> rstate \<Rightarrow> rresult" where
  "serve_events et [] s = Served s"
| "serve_events et ((ee, rs, ws) # es) s = (case serve_event et ee rs ws s of
     Served s \<Rightarrow> serve_events et es s
   | r \<Rightarrow> r)"

datatype wait_result = Ready "((int \<times> 32 word) \<times> io_result list \<times> write_result list) list" | Wait_fails errno
datatype thread_result = Continue rstate | Exit | Stuck | Crash

definition reactor_round :: "bool \<Rightarrow> wait_result \<Rightarrow> rstate \<Rightarrow> thread_result" where
  "reactor_round et w s = (case w of
     Wait_fails e \<Rightarrow> if e = EINTR then Continue s else Exit
   | Ready es \<Rightarrow>
       if es = [] then Continue s
       else
         let s = (if length es = n_events s then s\<lparr>n_events := n_events s * 2\<rparr> else s) in
         case serve_events et es s of Served s \<Rightarrow> Continue s | Waits \<Rightarrow> Stuck | Corrupt \<Rightarrow> Crash)"

text \<open>The loop \<open>while (1)\<close> of the thread over what the calls of \<open>epoll_wait\<close> report.\<close>

fun reactor_rounds :: "bool \<Rightarrow> wait_result list \<Rightarrow> rstate \<Rightarrow> thread_result" where
  "reactor_rounds et [] s = Continue s"
| "reactor_rounds et (w # ws) s = (case reactor_round et w s of
     Continue s \<Rightarrow> reactor_rounds et ws s
   | r \<Rightarrow> r)"

definition Reactor :: rstate where
  "Reactor = \<lparr>closed = [], interest = Map.empty, read_queues = Map.empty, write_queues = Map.empty, written = [], n_events = 32\<rparr>"

subsection \<open>The acceptor\<close>

text \<open>
  \<open>conns\<close> are the descriptors added to each reactor's \<open>epoll\<close> instance, with the
  events asked for; \<open>listenfd\<close> is the listening socket.
\<close>

record server =
  reactor_index :: int
  conns :: "(int \<times> 32 word) list list"
  s_events :: nat
  listening :: bool

datatype accept_result = Accepted int | Accept_fails errno

definition NetServer :: server where
  "NetServer = \<lparr>reactor_index = - 1, conns = replicate NUM_REACTORS [], s_events = 32, listening = False\<rparr>"

definition ListenPort :: "bool \<Rightarrow> server \<Rightarrow> server" where
  "ListenPort listen_ok v = (if \<not> listen_ok then v else v\<lparr>listening := True\<rparr>)"

text \<open>
  An event of the acceptor: whether it is on the listening socket, and what \<open>accept4\<close>
  returns. Every failure ends the process (\<open>None\<close>), also \<open>EMFILE\<close>, for which the code
  first drops the connection with the help of the idle descriptor. 
\<close>

fun accept_events :: "bool \<Rightarrow> (bool \<times> accept_result) list \<Rightarrow> server \<Rightarrow> server option" where
  "accept_events et [] v = Some v"
| "accept_events et ((on_listenfd, res) # es) v =
     (if on_listenfd
      then case res of
          Accept_fails e \<Rightarrow> None
        | Accepted connfd \<Rightarrow> do {
            ix \<leftarrow> crem (reactor_index v + 1) (int NUM_REACTORS);
            cs \<leftarrow> (if 0 \<le> ix then vget (conns v) (nat ix) else None);
            cs \<leftarrow> vset (conns v) (nat ix) (cs @ [(connfd, EPOLLIN OR EPOLL_TRIGGER_MODE et)]);
            accept_events et es (v\<lparr>reactor_index := ix, conns := cs\<rparr>) }
      else accept_events et es v)"

definition server_round :: "bool \<Rightarrow> (bool \<times> accept_result) list \<Rightarrow> server \<Rightarrow> server option" where
  "server_round et es v =
     (if es = [] then Some v
      else accept_events et es (if length es = s_events v then v\<lparr>s_events := s_events v * 2\<rparr> else v))"

subsection \<open>Reading\<close>

lemma read_failed_iff: "read_failed nread e \<longleftrightarrow> nread = - 1 \<and> e \<noteq> EAGAIN \<and> e \<noteq> EWOULDBLOCK"
  by (auto simp: read_failed_def)

lemma length_put_bytes: "put_bytes n bs msg = Some m \<Longrightarrow> length m = length msg"
  by (auto simp: put_bytes_def split: if_splits)

text \<open>The message that is queued has the size of the buffer, whatever was read.\<close>

lemma serve_read_level:
  "serve_read False f rs s = (case rs of
     Got bs # _ \<Rightarrow> Some (False, s\<lparr>read_queues := queue_put f
       (take 1023 bs @ replicate (1024 - length (take 1023 bs)) 0) (read_queues s)\<rparr>)
   | Fails e # _ \<Rightarrow> if e = EAGAIN \<or> e = EWOULDBLOCK
       then Some (False, s\<lparr>read_queues := queue_put f (replicate 1024 0) (read_queues s)\<rparr>)
       else Some (True, close_fd f s)
   | [] \<Rightarrow> Some (False, s\<lparr>read_queues := queue_put f (replicate 1024 0) (read_queues s)\<rparr>))"
proof (cases rs)
  case (Cons r rest)
  show ?thesis
  proof (cases r)
    case (Got bs)
    have "put_bytes 0 (take 1023 bs) (replicate 1024 0) =
        Some (take 1023 bs @ replicate (1024 - length (take 1023 bs)) 0)"
      by (simp add: put_bytes_def drop_replicate)
    then show ?thesis using Cons Got
      by (simp add: serve_read_def read_lt_def READ_LENGTH_def read_failed_def Let_def)
  qed (auto simp: Cons serve_read_def read_lt_def READ_LENGTH_def read_failed_def Let_def read_errno_def)
qed (simp add: serve_read_def read_lt_def READ_LENGTH_def read_failed_def Let_def)

subsection \<open>When the level-triggered reactor closes a connection\<close>

type_synonym served_event = "(int \<times> 32 word) \<times> io_result list \<times> write_result list"

text \<open>A hangup or an error is reported, or a reported input cannot be read.\<close>

definition closing :: "32 word \<Rightarrow> io_result list \<Rightarrow> bool" where
  "closing events rs \<longleftrightarrow> events AND (EPOLLHUP OR EPOLLRDHUP OR EPOLLERR) \<noteq> 0 \<or>
     events AND (EPOLLIN OR EPOLLPRI) \<noteq> 0 \<and> (\<exists>e rs'. rs = Fails e # rs' \<and> e \<noteq> EAGAIN \<and> e \<noteq> EWOULDBLOCK)"

text \<open>The message that an event adds to the read queue: the bytes read, filled up with zeros.\<close>

definition padded :: "io_result list \<Rightarrow> message" where
  "padded rs = (case rs of Got bs # _ \<Rightarrow> take 1023 bs @ replicate (1024 - length (take 1023 bs)) 0 | _ \<Rightarrow> replicate 1024 0)"

definition received :: "int \<Rightarrow> served_event \<Rightarrow> message list" where
  "received f = (\<lambda>((g, events), rs, ws).
     if g = f \<and> \<not> closing events rs \<and> events AND (EPOLLIN OR EPOLLPRI) \<noteq> 0 then [padded rs] else [])"

definition closed_by :: "int \<Rightarrow> served_event \<Rightarrow> bool" where
  "closed_by f = (\<lambda>((g, events), rs, ws). g = f \<and> closing events rs)"

fun reported :: "wait_result \<Rightarrow> served_event list" where
  "reported (Ready es) = es"
| "reported (Wait_fails e) = []"

definition read_queue :: "rstate \<Rightarrow> int \<Rightarrow> message list" where
  "read_queue s f = (case read_queues s f of None \<Rightarrow> [] | Some q \<Rightarrow> q)"

lemma read_queue_put: "(case queue_put g m qs f of None \<Rightarrow> [] | Some q \<Rightarrow> q) =
    (case qs f of None \<Rightarrow> [] | Some q \<Rightarrow> q) @ (if f = g then [m] else [])"
  by (auto simp: queue_put_def split: option.split)

lemma serve_write_frame:
  "serve_write et f events ws s = Served s' \<Longrightarrow> closed s' = closed s \<and> read_queues s' = read_queues s"
  by (auto simp: serve_write_def Let_def split: option.splits list.splits if_splits prod.splits)

lemma serve_event_level:
  assumes "serve_event False (g, events) rs ws s = Served s'"
  shows "closed s' = closed s @ (if closing events rs then [g] else []) \<and>
    read_queue s' f = read_queue s f @ received f ((g, events), rs, ws)"
proof -
  consider (hup) "events AND (EPOLLHUP OR EPOLLRDHUP OR EPOLLERR) \<noteq> 0"
    | (fail) "events AND (EPOLLHUP OR EPOLLRDHUP OR EPOLLERR) = 0" "closing events rs"
    | (quiet) "\<not> closing events rs" "events AND (EPOLLHUP OR EPOLLRDHUP OR EPOLLERR) = 0" "events AND (EPOLLIN OR EPOLLPRI) = 0"
    | (read) "\<not> closing events rs" "events AND (EPOLLHUP OR EPOLLRDHUP OR EPOLLERR) = 0" "events AND (EPOLLIN OR EPOLLPRI) \<noteq> 0"
    by (auto simp: closing_def)
  then show ?thesis
  proof cases
    case hup
    then have "closing events rs" by (simp add: closing_def)
    then show ?thesis using hup assms by (auto simp: serve_event_def close_fd_def received_def read_queue_def)
  next
    case fail
    then obtain e rs' where e: "rs = Fails e # rs'" "e \<noteq> EAGAIN" "e \<noteq> EWOULDBLOCK" "events AND (EPOLLIN OR EPOLLPRI) \<noteq> 0"
      by (auto simp: closing_def)
    then show ?thesis using fail assms by (auto simp: serve_event_def serve_read_level close_fd_def received_def read_queue_def)
  next
    case quiet
    then have "s' = s \<or> serve_write False g events ws s = Served s'"
      using assms by (auto simp: serve_event_def split: if_splits)
    then show ?thesis using quiet serve_write_frame by (auto simp: received_def read_queue_def)
  next
    case read
    let ?s = "s\<lparr>read_queues := queue_put g (padded rs) (read_queues s)\<rparr>"
    have "serve_read False g rs s = Some (False, ?s)"
      using read(1,3) by (auto simp: serve_read_level closing_def padded_def split: list.split io_result.split)
    then have "s' = ?s \<or> serve_write False g events ws ?s = Served s'"
      using read assms by (auto simp: serve_event_def split: if_splits)
    moreover have "closed ?s = closed s" "read_queue ?s f = read_queue s f @ received f ((g, events), rs, ws)"
      using read by (auto simp: read_queue_def read_queue_put received_def)
    ultimately show ?thesis using read(1) serve_write_frame [of False g events ws ?s s'] by (auto simp: read_queue_def)
  qed
qed

lemma serve_events_level:
  "serve_events False es s = Served s' \<Longrightarrow>
    (f \<in> set (closed s') \<longleftrightarrow> f \<in> set (closed s) \<or> (\<exists>e \<in> set es. closed_by f e)) \<and>
    read_queue s' f = read_queue s f @ concat (map (received f) es)"
proof (induction es arbitrary: s)
  case (Cons e es)
  obtain g events rs ws where e: "e = ((g, events), rs, ws)" by (metis prod.collapse)
  obtain s1 where s1: "serve_event False (g, events) rs ws s = Served s1" "serve_events False es s1 = Served s'"
    using Cons(2) e by (auto split: rresult.splits)
  show ?case using serve_event_level [OF s1(1), of f] Cons(1) [OF s1(2)] e by (auto simp: closed_by_def)
qed simp

lemma reactor_round_level:
  assumes "reactor_round False w s = Continue s'"
  shows "(f \<in> set (closed s') \<longleftrightarrow> f \<in> set (closed s) \<or> (\<exists>e \<in> set (reported w). closed_by f e)) \<and>
    read_queue s' f = read_queue s f @ concat (map (received f) (reported w))"
proof (cases w)
  case (Ready es)
  show ?thesis
  proof (cases "es = []")
    case True
    then show ?thesis using Ready assms by (simp add: reactor_round_def)
  next
    case False
    let ?s = "if length es = n_events s then s\<lparr>n_events := n_events s * 2\<rparr> else s"
    have "serve_events False es ?s = Served s'"
      using assms Ready False by (auto simp: reactor_round_def Let_def split: rresult.splits if_split)
    from serve_events_level [OF this, of f] show ?thesis using Ready by (simp add: read_queue_def)
  qed
qed (use assms in \<open>simp add: reactor_round_def split: if_splits\<close>)

lemma eof_round:
  assumes "events AND (EPOLLHUP OR EPOLLRDHUP OR EPOLLERR OR EPOLLOUT) = 0"
  shows "\<exists>s'. reactor_round False (Ready [((f, events), [Got []], [])]) s = Continue s'"
proof -
  have "events AND (EPOLLHUP OR EPOLLRDHUP OR EPOLLERR) = 0 \<and> events AND EPOLLOUT = 0"
    using assms by (auto simp: bit_eq_iff bit_and_iff bit_or_iff)
  then show ?thesis by (auto simp: reactor_round_def serve_event_def serve_read_level Let_def)
qed

text \<open>
  C29: what closes a connection in the level-triggered reactor, over any number of rounds that
  the thread survives. A descriptor is closed exactly when one of its events reports a hangup
  or an error, or reports input whose \<open>read\<close> fails with another error than EAGAIN and
  EWOULDBLOCK; every other event with input appends one message of 1024 bytes to the queue of
  its descriptor, what was read and zeros after it. So end of file closes nothing: for
  precedence the test of line 59 fails when \<open>read\<close> returns 0, and however often the readable
  descriptor is reported (without a hangup or output event), the thread goes on, keeps the
  connection, and queues a message of zeros each time.
\<close>

theorem reactor_eof_not_closed:
  "(\<forall>rounds s s'. reactor_rounds False rounds s = Continue s' \<longrightarrow> (\<forall>f.
      (f \<in> set (closed s') \<longleftrightarrow> f \<in> set (closed s) \<or> (\<exists>e \<in> set (concat (map reported rounds)). closed_by f e)) \<and>
      read_queue s' f = read_queue s f @ concat (map (received f) (concat (map reported rounds))))) \<and>
   (\<forall>f events n s. events AND (EPOLLHUP OR EPOLLRDHUP OR EPOLLERR OR EPOLLOUT) = 0 \<and> events AND EPOLLIN \<noteq> 0 \<longrightarrow>
      (\<exists>s'. reactor_rounds False (replicate n (Ready [((f, events), [Got []], [])])) s = Continue s' \<and>
         set (closed s') = set (closed s) \<and> read_queue s' f = read_queue s f @ replicate n (replicate 1024 0)))"
proof (intro conjI allI impI)
  have run: "(f \<in> set (closed s') \<longleftrightarrow> f \<in> set (closed s) \<or> (\<exists>e \<in> set (concat (map reported rounds)). closed_by f e)) \<and>
      read_queue s' f = read_queue s f @ concat (map (received f) (concat (map reported rounds)))"
    if "reactor_rounds False rounds s = Continue s'" for rounds s s' f
    using that
  proof (induction rounds arbitrary: s)
    case (Cons w ws)
    then obtain s1 where s1: "reactor_round False w s = Continue s1" "reactor_rounds False ws s1 = Continue s'"
      by (auto split: thread_result.splits)
    show ?case using reactor_round_level [OF s1(1), of f] Cons(1) [OF s1(2)] by auto
  qed simp
  show "f \<in> set (closed s') \<longleftrightarrow> f \<in> set (closed s) \<or> (\<exists>e \<in> set (concat (map reported rounds)). closed_by f e)"
    "read_queue s' f = read_queue s f @ concat (map (received f) (concat (map reported rounds)))"
    if "reactor_rounds False rounds s = Continue s'" for rounds s s' f
    using run [OF that] by simp_all
  fix f :: int and events :: "32 word" and n s
  assume ev: "events AND (EPOLLHUP OR EPOLLRDHUP OR EPOLLERR OR EPOLLOUT) = 0 \<and> events AND EPOLLIN \<noteq> 0"
  let ?w = "Ready [((f, events), [Got []], [])]"
  have bits: "events AND (EPOLLHUP OR EPOLLRDHUP OR EPOLLERR) = 0" "events AND (EPOLLIN OR EPOLLPRI) \<noteq> 0"
    using ev by (auto simp: bit_eq_iff bit_and_iff bit_or_iff)
  then have e: "\<not> closed_by g ((f, events), [Got []], [])" "received f ((f, events), [Got []], []) = [replicate 1024 0]" for g
    by (simp_all add: closed_by_def closing_def received_def padded_def)
  have "\<exists>s'. reactor_rounds False (replicate n ?w) s = Continue s'" for s
  proof (induction n arbitrary: s)
    case (Suc n)
    obtain s1 where "reactor_round False ?w s = Continue s1" using eof_round ev by blast
    then show ?case using Suc [of s1] by simp
  qed simp
  then obtain s' where s': "reactor_rounds False (replicate n ?w) s = Continue s'" by blast
  have "concat (map reported (replicate n ?w)) = replicate n ((f, events), [Got []], [])"
    by (induction n) simp_all
  then have "set (closed s') = set (closed s)" "read_queue s' f = read_queue s f @ replicate n (replicate 1024 0)"
    using run [OF s'] e(1) e(2) by (auto simp: set_eq_iff concat_replicate_trivial map_replicate)
  then show "\<exists>s'. reactor_rounds False (replicate n ?w) s = Continue s' \<and>
      set (closed s') = set (closed s) \<and> read_queue s' f = read_queue s f @ replicate n (replicate 1024 0)"
    using s' by blast
qed

theorem reactor_eof_not_closed_witness:
  "\<exists>s'. reactor_rounds False (replicate 3 (Ready [((7, EPOLLIN), [Got []], [])])) Reactor = Continue s' \<and>
     7 \<notin> set (closed s') \<and> read_queue s' 7 = replicate 3 (replicate 1024 0)"
proof -
  have "EPOLLIN AND (EPOLLHUP OR EPOLLRDHUP OR EPOLLERR OR EPOLLOUT) = 0 \<and> EPOLLIN AND EPOLLIN \<noteq> 0"
    by (simp add: epoll_bits)
  then obtain s' where "reactor_rounds False (replicate 3 (Ready [((7, EPOLLIN), [Got []], [])])) Reactor = Continue s'"
      "set (closed s') = set (closed Reactor)" "read_queue s' 7 = read_queue Reactor 7 @ replicate 3 (replicate 1024 0)"
    using reactor_eof_not_closed [THEN conjunct2] by blast
  then show ?thesis by (auto simp: Reactor_def read_queue_def)
qed

text \<open>
  The edge-triggered build never closes a connection after a read, writes every chunk one byte
  after the start of the one before, and the third full chunk runs over the end of the buffer.
\<close>

lemma read_et_zero: "read_et rs n msg = Some (m, k) \<Longrightarrow> k = 0"
  by (induction rs n msg rule: read_et.induct) (auto simp: Let_def split: if_splits)

lemma serve_read_edge: "serve_read True f rs s = Some (stop, s') \<Longrightarrow> \<not> stop"
  by (auto simp: serve_read_def Let_def read_failed_def dest: read_et_zero)

lemma read_et_overflow:
  assumes "length a = 1023" "length b = 1023" "length c = 1023"
  shows "read_et [Got a, Got b, Got c] 0 (replicate READ_LENGTH 0) = None"
  using assms by (auto simp: READ_LENGTH_def put_bytes_def Let_def)

lemma read_et_overwrites:
  "map_option fst (read_et [Got [1, 2, 3], Got [4, 5]] 0 (replicate 5 0)) = Some [1, 4, 5, 0, 0]"
  by (simp add: put_bytes_def READ_LENGTH_def Let_def numeral_eq_Suc)

subsection \<open>Writing\<close>

text \<open>A short write loses the rest of the message.\<close>

lemma short_write_loses:
  assumes "write_queues s f = Some (m # q)"
  shows "\<exists>s'. serve_write False f ev [Wrote k] s = Served s' \<and> write_queues s' f = Some q \<and>
    written s' = written s @ [(f, take k m)]"
  using assms by (simp add: serve_write_def write_lt_def Let_def)

text \<open>
  After a write the descriptor is registered for the events just reported, not for those asked
  for: if only \<open>EPOLLOUT\<close> was reported, nothing is left and no input is ever reported again.
\<close>

lemma write_drops_interest:
  assumes "write_queues s f = Some (m # q)"
  shows "\<exists>s'. serve_event False (f, EPOLLOUT) rs [Wrote k] s = Served s' \<and> interest s' f = Some 0"
  using assms by (simp add: serve_event_def epoll_bits serve_write_def write_lt_def Let_def)

text \<open>The reactor thread stops serving all its connections when it takes from an empty queue.\<close>

lemma empty_write_queue_waits:
  "write_queues s f = Some [] \<Longrightarrow> serve_event et (f, EPOLLOUT) rs ws s = Waits"
  by (simp add: serve_event_def epoll_bits serve_write_def)

lemma write_et_all:
  "sum_list ks = length m \<Longrightarrow> \<forall>k \<in> set ks. 0 < k \<Longrightarrow> write_et (map Wrote ks) m (length m) [] = (m, False)"
proof -
  have "sum_list ks = n \<Longrightarrow> \<forall>k \<in> set ks. 0 < k \<Longrightarrow> n \<le> length m \<Longrightarrow>
      write_et (map Wrote ks) m n sent = (sent @ drop (length m - n) m, False)" for n sent
  proof (induction ks arbitrary: n sent)
    case (Cons k ks)
    then have k: "0 < n" "k \<le> n" "sum_list ks = n - k" by auto
    have "take k (drop (length m - n) m) @ drop (length m - (n - k)) m = drop (length m - n) m"
    proof -
      have "length m - (n - k) = k + (length m - n)" using k Cons(4) by simp
      then show ?thesis by (metis append_take_drop_id drop_drop)
    qed
    then show ?case using k Cons(1) [OF k(3)] Cons(3,4) by (subst write_et.simps) simp
  qed (simp add: write_et.simps)
  from this [of "length m" "[]"] show "sum_list ks = length m \<Longrightarrow> \<forall>k \<in> set ks. 0 < k \<Longrightarrow>
      write_et (map Wrote ks) m (length m) [] = (m, False)" by simp
qed

subsection \<open>Round robin\<close>

definition accepted_fds :: "(bool \<times> accept_result) list \<Rightarrow> int list" where
  "accepted_fds es = concat (map (\<lambda>(on_listenfd, res). case res of Accepted f \<Rightarrow> if on_listenfd then [f] else [] | _ \<Rightarrow> []) es)"

text \<open>After \<open>k\<close> connections, whose descriptors are \<open>fds\<close>.\<close>

definition server_inv :: "int list \<Rightarrow> server \<Rightarrow> bool" where
  "server_inv fds v \<longleftrightarrow> length (conns v) = 4 \<and>
     reactor_index v = (if fds = [] then - 1 else int ((length fds - 1) mod 4)) \<and>
     (\<forall>j < 4. map fst (conns v ! j) = map ((!) fds) (filter (\<lambda>i. i mod 4 = j) [0..<length fds]))"

lemma accept_events_ok:
  "server_inv fds v \<Longrightarrow> accept_events et es v = Some v' \<Longrightarrow> server_inv (fds @ accepted_fds es) v'"
proof (induction et es v arbitrary: fds rule: accept_events.induct)
  case (2 et on res es v)
  show ?case
  proof (cases "on \<and> (\<exists>f. res = Accepted f)")
    case True
    then obtain f where f: "on" "res = Accepted f" by blast
    let ?ix = "length fds mod 4" and ?c = "(f, EPOLLIN OR EPOLL_TRIGGER_MODE et)"
    have ix: "crem (reactor_index v + 1) (int NUM_REACTORS) = Some (int ?ix)"
    proof (cases "fds = []")
      case True
      then show ?thesis using 2(3) by (simp add: server_inv_def NUM_REACTORS_def crem_def)
    next
      case False
      then have "length fds = Suc (length fds - 1)" by simp
      then have "(int ((length fds - 1) mod 4) + 1) mod 4 = int ?ix"
        by (metis mod_Suc_eq of_nat_Suc of_nat_mod of_nat_numeral add.commute mod_add_right_eq)
      then show ?thesis using False 2(3) by (simp add: server_inv_def NUM_REACTORS_def)
    qed
    have l: "?ix < length (conns v)" using 2(3) by (simp add: server_inv_def)
    let ?v = "v\<lparr>reactor_index := int ?ix, conns := (conns v)[?ix := conns v ! ?ix @ [?c]]\<rparr>"
    have run: "accept_events et es ?v = Some v'" using 2(4) f ix l by (simp add: ub_simps)
    have "server_inv (fds @ [f]) ?v"
      unfolding server_inv_def
    proof (intro conjI allI impI)
      fix j :: nat assume j: "j < 4"
      have same: "map ((!) (fds @ [f])) (filter (\<lambda>i. i mod 4 = j) [0..<length fds]) =
          map ((!) fds) (filter (\<lambda>i. i mod 4 = j) [0..<length fds])" by (simp add: nth_append)
      have old: "map fst (conns v ! j) = map ((!) fds) (filter (\<lambda>i. i mod 4 = j) [0..<length fds])"
        using 2(3) j by (simp add: server_inv_def)
      show "map fst (conns ?v ! j) = map ((!) (fds @ [f])) (filter (\<lambda>i. i mod 4 = j) [0..<length (fds @ [f])])"
        using old same l by (cases "?ix = j") (simp_all add: nth_list_update)
    qed (use 2(3) in \<open>simp_all add: server_inv_def\<close>)
    from 2(1) [OF _ _ _ _ _ this] have "server_inv ((fds @ [f]) @ accepted_fds es) v'"
      using f ix l run 2(3) by (auto simp: server_inv_def)
    then show ?thesis using f by (simp add: accepted_fds_def)
  next
    case False
    then have "on = False" using 2(4) by (auto split: accept_result.splits)
    then show ?thesis using 2(2) [of fds] 2(3,4) by (auto simp: accepted_fds_def split: accept_result.split)
  qed
qed (simp add: accepted_fds_def)

fun server_rounds :: "bool \<Rightarrow> (bool \<times> accept_result) list list \<Rightarrow> server \<Rightarrow> server option" where
  "server_rounds et [] v = Some v"
| "server_rounds et (es # ess) v = do { v \<leftarrow> server_round et es v; server_rounds et ess v }"

text \<open>The \<open>i\<close>-th connection goes to the reactor \<open>i mod 4\<close>.\<close>

lemma server_rounds_ok:
  "server_inv fds v \<Longrightarrow> server_rounds et ess v = Some v' \<Longrightarrow> server_inv (fds @ concat (map accepted_fds ess)) v'"
proof (induction ess arbitrary: fds v)
  case (Cons es ess)
  obtain w where w: "server_round et es v = Some w" "server_rounds et ess w = Some v'" using Cons(3) by auto
  have "server_inv (fds @ accepted_fds es) w"
  proof (cases "es = []")
    case True
    then show ?thesis using w(1) Cons(2) by (simp add: server_round_def accepted_fds_def)
  next
    case False
    let ?v = "if length es = s_events v then v\<lparr>s_events := s_events v * 2\<rparr> else v"
    have "server_inv fds (v\<lparr>s_events := k\<rparr>) = server_inv fds v" for k by (simp add: server_inv_def)
    then have "server_inv fds ?v" using Cons(2) by (cases "length es = s_events v") simp_all
    moreover have "accept_events et es ?v = Some w" using w(1) False by (simp add: server_round_def)
    ultimately show ?thesis by (rule accept_events_ok)
  qed
  then show ?case using Cons(1) w(2) by fastforce
qed simp

lemma round_robin:
  assumes "server_rounds et ess NetServer = Some v" and "j < 4"
  shows "map fst (conns v ! j) = map ((!) (concat (map accepted_fds ess)))
    (filter (\<lambda>i. i mod 4 = j) [0..<length (concat (map accepted_fds ess))])"
proof -
  have "server_inv [] NetServer" by (simp add: server_inv_def NetServer_def NUM_REACTORS_def)
  from server_rounds_ok [OF this assms(1)] show ?thesis using assms(2) by (simp add: server_inv_def)
qed

end
