(* ===== verification/Urcu.thy ===== *)
theory Urcu
  imports Prelude
begin

unbundle bit_operations_syntax

section \<open>User-space read-copy-update (misc/urcu)\<close>

text \<open>
  Readers bracket their critical sections with \<open>rcu_read_lock\<close> and
  \<open>rcu_read_unlock\<close>; \<open>synchronize_rcu\<close> is meant to return only after all readers
  that were inside have left. The registry of readers is a doubly linked ring. A thread's own
  reader is found by its number; the memory barriers order accesses and have no effect on the
  state. While the writer walks the registry the readers go on: the counters it sees are an
  input that may change at every step.
\<close>

definition RCU_GP_CTR_PHASE :: "64 word" where "RCU_GP_CTR_PHASE = 2 ^ 32"
definition RCU_GP_CTR_NEST_MASK :: "64 word" where "RCU_GP_CTR_NEST_MASK = RCU_GP_CTR_PHASE - 1"
definition RCU_QS_ACTIVE_ATTEMPTS :: nat where "RCU_QS_ACTIVE_ATTEMPTS = 100"

datatype rcu_reader_state = RCU_READER_ACTIVE_CURRENT | RCU_READER_ACTIVE_OLD | RCU_READER_INACTIVE

record reader_node =
  rnext :: addr
  rprev :: addr
  rnode :: "nat option"   \<comment> \<open>the reader, by its thread\<close>

type_synonym lists = "addr \<Rightarrow> reader_node option"

record rcu_reader =
  ctr :: "64 word"
  registered :: bool
  rlist :: ptr

record rcu =
  gp_ctr :: "64 word"
  gp_futex :: int
  store :: lists
  readers :: "nat \<Rightarrow> rcu_reader"
  fresh :: addr

abbreviation registry :: addr where "registry \<equiv> 0"

definition rcu_init :: rcu where
  "rcu_init = \<lparr>gp_ctr = 1, gp_futex = 0, store = [registry \<mapsto> \<lparr>rnext = registry, rprev = registry, rnode = None\<rparr>],
     readers = (\<lambda>_. \<lparr>ctr = 0, registered = False, rlist = None\<rparr>), fresh = 1\<rparr>"

subsection \<open>Rings\<close>

definition get_next :: "lists \<Rightarrow> addr \<Rightarrow> addr option" where
  "get_next s a = map_option rnext (s a)"

definition get_prev :: "lists \<Rightarrow> addr \<Rightarrow> addr option" where
  "get_prev s a = map_option rprev (s a)"

definition set_next :: "addr \<Rightarrow> addr \<Rightarrow> lists \<Rightarrow> lists option" where
  "set_next a v s = do { n \<leftarrow> s a; Some (s(a \<mapsto> n\<lparr>rnext := v\<rparr>)) }"

definition set_prev :: "addr \<Rightarrow> addr \<Rightarrow> lists \<Rightarrow> lists option" where
  "set_prev a v s = do { n \<leftarrow> s a; Some (s(a \<mapsto> n\<lparr>rprev := v\<rparr>)) }"

definition reader_add :: "addr \<Rightarrow> nat \<Rightarrow> addr \<Rightarrow> lists \<Rightarrow> lists option" where
  "reader_add tmp reader list s = do {
     let s = s(tmp \<mapsto> \<lparr>rnext = 0, rprev = 0, rnode = Some reader\<rparr>);
     nx \<leftarrow> get_next s list;
     s \<leftarrow> set_prev nx tmp s;
     nx \<leftarrow> get_next s list;
     s \<leftarrow> set_next tmp nx s;
     s \<leftarrow> set_prev tmp list s;
     set_next list tmp s }"

definition reader_unlink :: "addr \<Rightarrow> lists \<Rightarrow> lists option" where
  "reader_unlink src s = do {
     nx \<leftarrow> get_next s src; pv \<leftarrow> get_prev s src;
     s \<leftarrow> set_prev nx pv s;
     pv \<leftarrow> get_prev s src; nx \<leftarrow> get_next s src;
     set_next pv nx s }"

definition reader_move :: "addr \<Rightarrow> addr \<Rightarrow> lists \<Rightarrow> lists option" where
  "reader_move src dst s = do {
     s \<leftarrow> reader_unlink src s;
     dp \<leftarrow> get_prev s dst;
     s \<leftarrow> set_next dp src s;
     dn \<leftarrow> get_next s dst;
     s \<leftarrow> set_next src dn s;
     s \<leftarrow> set_prev src dst s;
     set_next dst src s }"

definition reader_splice :: "addr \<Rightarrow> addr \<Rightarrow> lists \<Rightarrow> lists option" where
  "reader_splice src dst s = do {
     sn \<leftarrow> get_next s src;
     s \<leftarrow> set_prev sn dst s;
     sp \<leftarrow> get_prev s src; dn \<leftarrow> get_next s dst;
     s \<leftarrow> set_next sp dn s;
     dn \<leftarrow> get_next s dst; sp \<leftarrow> get_prev s src;
     s \<leftarrow> set_prev dn sp s;
     sn \<leftarrow> get_next s src;
     set_next dst sn s }"

definition reader_del :: "nat \<Rightarrow> rcu \<Rightarrow> rcu option" where
  "reader_del t g = (case rlist (readers g t) of
     None \<Rightarrow> Some g
   | Some a \<Rightarrow> do {
       s \<leftarrow> reader_unlink a (store g);
       Some (g\<lparr>store := s(a := None), readers := (readers g)(t := (readers g t)\<lparr>rlist := None\<rparr>)\<rparr>) })"

subsection \<open>Readers\<close>

definition reader_state :: "64 word \<Rightarrow> 64 word \<Rightarrow> rcu_reader_state" where
  "reader_state gp v =
     (if v AND RCU_GP_CTR_NEST_MASK = 0 then RCU_READER_INACTIVE
      else if (v XOR gp) AND RCU_GP_CTR_PHASE = 0 then RCU_READER_ACTIVE_CURRENT
      else RCU_READER_ACTIVE_OLD)"

definition set_ctr :: "nat \<Rightarrow> 64 word \<Rightarrow> rcu \<Rightarrow> rcu" where
  "set_ctr t v g = g\<lparr>readers := (readers g)(t := (readers g t)\<lparr>ctr := v\<rparr>)\<rparr>"

definition rcu_read_lock :: "nat \<Rightarrow> rcu \<Rightarrow> rcu" where
  "rcu_read_lock t g =
     (let tmp = ctr (readers g t) in
      if tmp AND RCU_GP_CTR_NEST_MASK = 0 then set_ctr t (gp_ctr g) g else set_ctr t (tmp + 1) g)"

definition wake_up_gp :: "rcu \<Rightarrow> rcu" where
  "wake_up_gp g = (if gp_futex g = - 1 then g\<lparr>gp_futex := 0\<rparr> else g)"

definition rcu_read_unlock :: "nat \<Rightarrow> rcu \<Rightarrow> rcu" where
  "rcu_read_unlock t g =
     (let tmp = ctr (readers g t) in
      if tmp AND RCU_GP_CTR_NEST_MASK = 1 then wake_up_gp (set_ctr t (tmp - 1) g) else set_ctr t (tmp - 1) g)"

definition rcu_read_ongoing :: "nat \<Rightarrow> rcu \<Rightarrow> bool" where
  "rcu_read_ongoing t g \<longleftrightarrow> ctr (readers g t) AND RCU_GP_CTR_NEST_MASK \<noteq> 0"

definition rcu_register_thread :: "nat \<Rightarrow> rcu \<Rightarrow> rcu option" where
  "rcu_register_thread t g = do {
     s \<leftarrow> reader_add (fresh g) t registry (store g);
     Some (g\<lparr>store := s, fresh := fresh g + 1,
       readers := (readers g)(t := (readers g t)\<lparr>registered := True, rlist := Some (fresh g)\<rparr>)\<rparr>) }"

definition rcu_unregister_thread :: "nat \<Rightarrow> rcu \<Rightarrow> rcu option" where
  "rcu_unregister_thread t g =
     reader_del t (g\<lparr>readers := (readers g)(t := (readers g t)\<lparr>registered := False\<rparr>)\<rparr>)"

subsection \<open>The writer\<close>

text \<open>
  The writer's loops run on fuel. \<open>seen k t\<close> is the counter of reader \<open>t\<close> when the
  walk makes its \<open>k\<close>-th step.
\<close>

datatype 'a run = Done 'a | Out_of_fuel | Invalid

definition walk_step :: "64 word \<Rightarrow> (nat \<Rightarrow> 64 word) \<Rightarrow> addr option \<Rightarrow> addr \<Rightarrow> addr \<Rightarrow> lists \<Rightarrow> (addr \<times> lists) option" where
  "walk_step gp now cur_snap_readers qs_readers it s = do {
     n \<leftarrow> s it;
     s \<leftarrow> (case rnode n of
         None \<Rightarrow> Some s
       | Some t \<Rightarrow> (case reader_state gp (now t) of
             RCU_READER_ACTIVE_CURRENT \<Rightarrow> (case cur_snap_readers of
                 Some c \<Rightarrow> reader_move it c s
               | None \<Rightarrow> reader_move it qs_readers s)
           | RCU_READER_INACTIVE \<Rightarrow> reader_move it qs_readers s
           | RCU_READER_ACTIVE_OLD \<Rightarrow> Some s));
     it \<leftarrow> get_next s it;
     Some (it, s) }"

fun walk_readers :: "nat \<Rightarrow> 64 word \<Rightarrow> (nat \<Rightarrow> nat \<Rightarrow> 64 word) \<Rightarrow> nat \<Rightarrow> addr \<Rightarrow> addr option \<Rightarrow> addr \<Rightarrow> addr \<Rightarrow> lists \<Rightarrow> lists run" where
  "walk_readers 0 gp seen k input_readers cur_snap_readers qs_readers it s = Out_of_fuel"
| "walk_readers (Suc fuel) gp seen k input_readers cur_snap_readers qs_readers it s =
     (case walk_step gp (seen k) cur_snap_readers qs_readers it s of
        None \<Rightarrow> Invalid
      | Some (it, s) \<Rightarrow>
          if it = input_readers then Done s
          else walk_readers fuel gp seen (k + 1) input_readers cur_snap_readers qs_readers it s)"

text \<open>
  \<open>if (input_readers->next = input_readers)\<close> assigns: the condition is the address of the
  list head, which is not null, so the loop ends after its first round.
\<close>

fun wait_for_readers :: "nat \<Rightarrow> nat \<Rightarrow> (nat \<Rightarrow> nat \<Rightarrow> 64 word) \<Rightarrow> addr \<Rightarrow> addr option \<Rightarrow> addr \<Rightarrow> rcu \<Rightarrow> rcu run" where
  "wait_for_readers 0 wait_loops seen input_readers cur_snap_readers qs_readers g = Out_of_fuel"
| "wait_for_readers (Suc fuel) wait_loops seen input_readers cur_snap_readers qs_readers g =
     (let wait_loops = wait_loops + 1;
          g = (if wait_loops \<ge> RCU_QS_ACTIVE_ATTEMPTS then g\<lparr>gp_futex := gp_futex g - 1\<rparr> else g)
      in case walk_readers fuel (gp_ctr g) seen 0 input_readers cur_snap_readers qs_readers input_readers (store g) of
           Out_of_fuel \<Rightarrow> Out_of_fuel
         | Invalid \<Rightarrow> Invalid
         | Done s \<Rightarrow> (case set_next input_readers input_readers s of
               None \<Rightarrow> Invalid
             | Some s \<Rightarrow>
                 let g = g\<lparr>store := s\<rparr>; assigned = Some input_readers in
                 if assigned \<noteq> None
                 then Done (if wait_loops \<ge> RCU_QS_ACTIVE_ATTEMPTS then g\<lparr>gp_futex := 0\<rparr> else g)
                 else wait_for_readers fuel wait_loops seen input_readers cur_snap_readers qs_readers g))"

text \<open>
  \<open>synchronize_rcu\<close> called while no other writer waits: \<open>cur\<close> and \<open>qs\<close> are the
  addresses of the local list heads, \<open>seen1\<close> and \<open>seen2\<close> what the two walks see.
\<close>

definition synchronize_rcu :: "nat \<Rightarrow> (nat \<Rightarrow> nat \<Rightarrow> 64 word) \<Rightarrow> (nat \<Rightarrow> nat \<Rightarrow> 64 word) \<Rightarrow> rcu \<Rightarrow> rcu run" where
  "synchronize_rcu fuel seen1 seen2 g =
     (let cur = fresh g; qs = fresh g + 1;
          g = g\<lparr>store := (store g)(cur \<mapsto> \<lparr>rnext = cur, rprev = cur, rnode = None\<rparr>, qs \<mapsto> \<lparr>rnext = qs, rprev = qs, rnode = None\<rparr>),
                fresh := fresh g + 2\<rparr>
      in if get_next (store g) registry = Some registry then Done g
         else case wait_for_readers fuel 0 seen1 registry (Some cur) qs g of
           Done g \<Rightarrow>
             (let g = g\<lparr>gp_ctr := gp_ctr g XOR RCU_GP_CTR_PHASE\<rparr> in
              case wait_for_readers fuel 0 seen2 cur None qs g of
                Done g \<Rightarrow>
                  if get_next (store g) qs \<noteq> Some qs
                  then (case reader_splice qs registry (store g) of
                      None \<Rightarrow> Invalid
                    | Some s \<Rightarrow> Done (g\<lparr>store := s\<rparr>))
                  else Done g
              | r \<Rightarrow> r)
         | r \<Rightarrow> r)"

subsection \<open>Waiting writers\<close>

text \<open>The flags of a waiting writer, and the queue that the first one empties.\<close>

record wait_node =
  wnext :: ptr
  wstate :: "32 word"

definition RCU_WAIT_WAKEUP :: "32 word" where "RCU_WAIT_WAKEUP = 1"
definition RCU_WAIT_RUNNING :: "32 word" where "RCU_WAIT_RUNNING = 2"
definition RCU_WAIT_TEARDOWN :: "32 word" where "RCU_WAIT_TEARDOWN = 4"

type_synonym wait_store = "addr \<Rightarrow> wait_node option"

definition wait_queue_push :: "addr \<Rightarrow> ptr \<Rightarrow> wait_store \<Rightarrow> (bool \<times> ptr \<times> wait_store) option" where
  "wait_queue_push node head_ptr w = do {
     n \<leftarrow> w node;
     Some (head_ptr \<noteq> None, Some node, w(node \<mapsto> n\<lparr>wnext := head_ptr\<rparr>)) }"

definition wait_queue_move :: "ptr \<Rightarrow> ptr \<times> ptr" where
  "wait_queue_move src = (None, src)"

definition adaptative_wake_up :: "addr \<Rightarrow> wait_store \<Rightarrow> wait_store option" where
  "adaptative_wake_up node w = do {
     n \<leftarrow> w node;
     let st = RCU_WAIT_WAKEUP;
     Some (w(node \<mapsto> n\<lparr>wstate := st OR RCU_WAIT_TEARDOWN\<rparr>)) }"

partial_function (option) wake_waiters :: "ptr \<Rightarrow> wait_store \<Rightarrow> wait_store option" where
  "wake_waiters p w = (case p of
     None \<Rightarrow> Some w
   | Some it \<Rightarrow> do {
       n \<leftarrow> w it;
       w \<leftarrow> (if wstate n AND RCU_WAIT_RUNNING = 0 then adaptative_wake_up it w else Some w);
       n \<leftarrow> w it;
       wake_waiters (wnext n) w })"

fun wait_list :: "wait_store \<Rightarrow> ptr \<Rightarrow> addr list \<Rightarrow> bool" where
  "wait_list w p [] \<longleftrightarrow> p = None"
| "wait_list w p (a # as) \<longleftrightarrow> p = Some a \<and> (\<exists>n. w a = Some n \<and> wait_list w (wnext n) as)"

lemma wait_list_upd [simp]: "a \<notin> set as \<Longrightarrow> wait_list (w(a := x)) p as = wait_list w p as"
  by (induction as arbitrary: p) auto

lemma wait_queue_push_ok:
  "wait_list w p as \<Longrightarrow> a \<notin> set as \<Longrightarrow> w a = Some n \<Longrightarrow>
   \<exists>w'. wait_queue_push a p w = Some (as \<noteq> [], Some a, w') \<and> wait_list w' (Some a) (a # as)"
  by (cases as) (auto simp: wait_queue_push_def)

text \<open>The leader tears down every waiter but those that run, itself among them.\<close>

lemma wake_waiters_ok:
  "wait_list w p as \<Longrightarrow> distinct as \<Longrightarrow>
   \<exists>w'. wake_waiters p w = Some w' \<and> (\<forall>a. a \<notin> set as \<longrightarrow> w' a = w a) \<and>
     (\<forall>a \<in> set as. \<exists>n. w a = Some n \<and> w' a = Some (if wstate n AND RCU_WAIT_RUNNING = 0
        then n\<lparr>wstate := RCU_WAIT_WAKEUP OR RCU_WAIT_TEARDOWN\<rparr> else n))"
proof (induction as arbitrary: p w)
  case Nil
  then show ?case by (simp add: wake_waiters.simps)
next
  case (Cons a as)
  obtain n where n: "p = Some a" "w a = Some n" "wait_list w (wnext n) as" using Cons(2) by auto
  let ?n = "if wstate n AND RCU_WAIT_RUNNING = 0 then n\<lparr>wstate := RCU_WAIT_WAKEUP OR RCU_WAIT_TEARDOWN\<rparr> else n"
  have "wait_list (w(a \<mapsto> ?n)) (wnext n) as" using n(3) Cons(3) by simp
  moreover have "distinct as" using Cons(3) by simp
  ultimately obtain w' where w': "wake_waiters (wnext n) (w(a \<mapsto> ?n)) = Some w'"
    "\<forall>b. b \<notin> set as \<longrightarrow> w' b = (w(a \<mapsto> ?n)) b"
    "\<forall>b \<in> set as. \<exists>m. (w(a \<mapsto> ?n)) b = Some m \<and> w' b = Some (if wstate m AND RCU_WAIT_RUNNING = 0
        then m\<lparr>wstate := RCU_WAIT_WAKEUP OR RCU_WAIT_TEARDOWN\<rparr> else m)" using Cons(1) by blast
  have "w(a \<mapsto> n) = w" using n(2) by (simp add: fun_upd_idem)
  then have "wake_waiters p w = wake_waiters (wnext n) (w(a \<mapsto> ?n))"
    using n by (subst wake_waiters.simps) (simp add: adaptative_wake_up_def fun_upd_same del: fun_upd_apply)
  moreover have "\<exists>m. w b = Some m \<and> w' b = Some (if wstate m AND RCU_WAIT_RUNNING = 0
        then m\<lparr>wstate := RCU_WAIT_WAKEUP OR RCU_WAIT_TEARDOWN\<rparr> else m)" if "b \<in> set (a # as)" for b
  proof (cases "b = a")
    case True
    then show ?thesis using n(2) w'(2) Cons(3) by simp
  next
    case False
    then have "b \<in> set as" using that by simp
    then obtain m where "(w(a \<mapsto> ?n)) b = Some m" "w' b = Some (if wstate m AND RCU_WAIT_RUNNING = 0
        then m\<lparr>wstate := RCU_WAIT_WAKEUP OR RCU_WAIT_TEARDOWN\<rparr> else m)" using w'(3) by blast
    then show ?thesis using False by (intro exI [of _ m]) simp
  qed
  ultimately show ?case using w'(1,2) by auto
qed

subsection \<open>Nesting and phases\<close>

lemma nest_mask: "RCU_GP_CTR_NEST_MASK = mask 32"
  by (simp add: RCU_GP_CTR_NEST_MASK_def RCU_GP_CTR_PHASE_def mask_eq_exp_minus_1)

lemma unat_nest: "unat (v AND RCU_GP_CTR_NEST_MASK) = unat v mod 2 ^ 32"
  by (simp only: nest_mask take_bit_eq_mask [symmetric] unsigned_take_bit_eq) (simp only: take_bit_eq_mod)

lemma nest_eq: "v AND RCU_GP_CTR_NEST_MASK = w \<longleftrightarrow> unat v mod 2 ^ 32 = unat w"
  by (metis unat_nest word_unat_eq_iff)

lemma phase_bit: "v AND RCU_GP_CTR_PHASE = 0 \<longleftrightarrow> \<not> bit v 32" for v :: "64 word"
  unfolding RCU_GP_CTR_PHASE_def by (rule and_exp_eq_0_iff_not_bit)

lemma lock_current:
  assumes "gp_ctr g AND RCU_GP_CTR_NEST_MASK = 1" and "\<not> rcu_read_ongoing t g"
  shows "reader_state (gp_ctr g) (ctr (readers (rcu_read_lock t g) t)) = RCU_READER_ACTIVE_CURRENT"
  using assms by (simp add: rcu_read_lock_def rcu_read_ongoing_def reader_state_def set_ctr_def Let_def)

lemma phase_flip:
  "reader_state (gp XOR RCU_GP_CTR_PHASE) v = (case reader_state gp v of
     RCU_READER_ACTIVE_CURRENT \<Rightarrow> RCU_READER_ACTIVE_OLD
   | RCU_READER_ACTIVE_OLD \<Rightarrow> RCU_READER_ACTIVE_CURRENT
   | RCU_READER_INACTIVE \<Rightarrow> RCU_READER_INACTIVE)"
proof -
  have "bit RCU_GP_CTR_PHASE 32" unfolding RCU_GP_CTR_PHASE_def bit_exp_iff by simp
  then show ?thesis by (simp add: reader_state_def phase_bit bit_xor_iff)
qed

lemma unat_plus_one: "unat v mod 2 ^ 32 < 2 ^ 32 - 1 \<Longrightarrow> unat (v + 1) mod 2 ^ 32 = unat v mod 2 ^ 32 + 1" for v :: "64 word"
proof -
  assume a: "unat v mod 2 ^ 32 < 2 ^ 32 - 1"
  have "unat (v + 1) mod 2 ^ 32 = (unat v + 1) mod 2 ^ 32"
  proof -
    have "unat (v + 1) = (unat v + 1) mod 2 ^ 64" by (simp add: unat_word_ariths)
    moreover have "(2 ^ 32 :: nat) dvd 2 ^ 64" by (simp add: le_imp_power_dvd)
    ultimately show ?thesis by (simp add: mod_mod_cancel)
  qed
  also have "\<dots> = unat v mod 2 ^ 32 + 1" using a by (simp add: mod_Suc)
  finally show ?thesis .
qed

text \<open>
  A nested section leaves the reader as it was; the outermost one makes it inactive again. The
  nesting depth must stay below \<open>2 ^ 32 - 1\<close>, or it runs into the phase bit.
\<close>

lemma lock_unlock_nested:
  assumes "rcu_read_ongoing t g" and "unat (ctr (readers g t)) mod 2 ^ 32 < 2 ^ 32 - 1"
  shows "rcu_read_unlock t (rcu_read_lock t g) = g"
proof -
  have "(ctr (readers g t) + 1) AND RCU_GP_CTR_NEST_MASK \<noteq> 1"
    using assms unat_plus_one [OF assms(2)] unfolding rcu_read_ongoing_def nest_eq by simp
  moreover have "g\<lparr>readers := (readers g)(t := readers g t)\<rparr> = g" by simp
  ultimately show ?thesis using assms(1)
    by (simp add: rcu_read_unlock_def rcu_read_lock_def rcu_read_ongoing_def set_ctr_def Let_def)
qed

lemma lock_unlock_outer:
  assumes "gp_ctr g AND RCU_GP_CTR_NEST_MASK = 1" and "\<not> rcu_read_ongoing t g"
  shows "rcu_read_ongoing t (rcu_read_lock t g) \<and> \<not> rcu_read_ongoing t (rcu_read_unlock t (rcu_read_lock t g))"
proof -
  have m: "unat (gp_ctr g) mod 2 ^ 32 = 1" using assms(1) by (simp add: nest_eq)
  then have "unat (gp_ctr g) \<noteq> 0" by auto
  then have "unat (gp_ctr g - 1) = unat (gp_ctr g) - 1" by (simp add: unat_minus_one unat_eq_zero)
  moreover have "(unat (gp_ctr g) - 1) mod 2 ^ 32 = 0" using m 
  proof -
    have "unat (gp_ctr g) = 2 ^ 32 * (unat (gp_ctr g) div 2 ^ 32) + 1" using m by (metis mult_div_mod_eq)
    then have "unat (gp_ctr g) - 1 = 2 ^ 32 * (unat (gp_ctr g) div 2 ^ 32)" by linarith
    then show ?thesis by (simp only: mod_mult_self1_is_0)
  qed
  ultimately have "(gp_ctr g - 1) AND RCU_GP_CTR_NEST_MASK = 0" by (simp add: nest_eq)
  then show ?thesis using assms
    by (simp add: rcu_read_unlock_def rcu_read_lock_def rcu_read_ongoing_def set_ctr_def wake_up_gp_def Let_def)
qed

subsection \<open>The registry\<close>

text \<open>\<open>rseg s a xs b\<close>: from \<open>a\<close> the links lead through \<open>xs\<close> to \<open>b\<close>, and back.\<close>

fun rseg :: "lists \<Rightarrow> addr \<Rightarrow> addr list \<Rightarrow> addr \<Rightarrow> bool" where
  "rseg s a [] b \<longleftrightarrow> get_next s a = Some b \<and> get_prev s b = Some a"
| "rseg s a (x # xs) b \<longleftrightarrow> get_next s a = Some x \<and> get_prev s x = Some a \<and> rseg s x xs b"

definition ring :: "lists \<Rightarrow> addr \<Rightarrow> addr list \<Rightarrow> bool" where
  "ring s h xs \<longleftrightarrow> distinct (h # xs) \<and> rseg s h xs h"

lemma rseg_append: "rseg s a (xs @ x # ys) b \<longleftrightarrow> rseg s a xs x \<and> rseg s x ys b"
  by (induction xs arbitrary: a) auto

lemma rseg_cong:
  "(\<And>c. c \<in> set (a # xs) \<Longrightarrow> get_next s' c = get_next s c) \<Longrightarrow>
   (\<And>c. c \<in> set (b # xs) \<Longrightarrow> get_prev s' c = get_prev s c) \<Longrightarrow> rseg s' a xs b = rseg s a xs b"
  by (induction xs arbitrary: a) auto

lemma set_next_ok: "get_next s a \<noteq> None \<Longrightarrow> \<exists>s'. set_next a v s = Some s' \<and>
    get_next s' = (get_next s)(a := Some v) \<and> get_prev s' = get_prev s \<and> (\<forall>c. map_option rnode (s' c) = map_option rnode (s c))"
proof -
  assume "get_next s a \<noteq> None"
  then obtain n where "s a = Some n" by (auto simp: get_next_def)
  then show ?thesis
    by (intro exI [of _ "s(a \<mapsto> n\<lparr>rnext := v\<rparr>)"]) (simp add: set_next_def get_next_def get_prev_def fun_eq_iff)
qed

lemma set_prev_ok: "get_prev s a \<noteq> None \<Longrightarrow> \<exists>s'. set_prev a v s = Some s' \<and>
    get_prev s' = (get_prev s)(a := Some v) \<and> get_next s' = get_next s \<and> (\<forall>c. map_option rnode (s' c) = map_option rnode (s c))"
proof -
  assume "get_prev s a \<noteq> None"
  then obtain n where "s a = Some n" by (auto simp: get_prev_def)
  then show ?thesis
    by (intro exI [of _ "s(a \<mapsto> n\<lparr>rprev := v\<rparr>)"]) (simp add: set_prev_def get_next_def get_prev_def fun_eq_iff)
qed

lemma prev_next: "get_prev s a = None \<longleftrightarrow> get_next s a = None"
  by (simp add: get_prev_def get_next_def)

lemma rseg_ends: "rseg s a xs b \<Longrightarrow> get_next s a = Some (hd (xs @ [b])) \<and> get_prev s b = Some (last (a # xs))"
  by (induction xs arbitrary: a) auto

lemma ring_alloc: "ring s h xs \<Longrightarrow> c \<in> set (h # xs) \<Longrightarrow> get_next s c \<noteq> None \<and> get_prev s c \<noteq> None"
proof -
  have "rseg s a xs b \<Longrightarrow> \<forall>c \<in> set (a # xs). get_next s c \<noteq> None" for a xs b
    by (induction xs arbitrary: a) auto
  then show "ring s h xs \<Longrightarrow> c \<in> set (h # xs) \<Longrightarrow> get_next s c \<noteq> None \<and> get_prev s c \<noteq> None"
    unfolding prev_next ring_def by blast
qed

lemma reader_add_ok:
  assumes "ring s h xs" and "s a = None"
  shows "\<exists>s'. reader_add a t h s = Some s' \<and> ring s' h (a # xs) \<and> map_option rnode (s' a) = Some (Some t) \<and>
    (\<forall>c. c \<noteq> a \<longrightarrow> map_option rnode (s' c) = map_option rnode (s c))"
proof -
  define s0 where "s0 = s(a \<mapsto> \<lparr>rnext = 0, rprev = 0, rnode = Some t\<rparr>)"
  have ends: "get_next s h = Some (hd (xs @ [h]))" "get_prev s h \<noteq> None"
    using assms(1) rseg_ends by (auto simp: ring_def prev_next)
  define b where "b = hd (xs @ [h])"
  have b: "get_next s h = Some b" "get_prev s b = Some h"
    using assms(1) ends by (cases xs; simp add: ring_def b_def)+
  have na: "a \<notin> set (h # xs)" using ring_alloc [OF assms(1), of a] assms(2) by (auto simp: get_next_def)
  have ab: "a \<noteq> b" "a \<noteq> h" using b(1,2) na assms(2) by (auto simp: get_prev_def)
  have 0: "get_next s0 = (get_next s)(a := Some 0)" "get_prev s0 = (get_prev s)(a := Some 0)"
    by (auto simp: s0_def get_next_def get_prev_def)
  obtain s1 where 1: "set_prev b a s0 = Some s1" "get_prev s1 = (get_prev s0)(b := Some a)" "get_next s1 = get_next s0"
    "\<forall>c. map_option rnode (s1 c) = map_option rnode (s0 c)" using set_prev_ok [of s0 b a] b(2) ab 0 by auto
  obtain s2 where 2: "set_next a b s1 = Some s2" "get_next s2 = (get_next s1)(a := Some b)" "get_prev s2 = get_prev s1"
    "\<forall>c. map_option rnode (s2 c) = map_option rnode (s1 c)" using set_next_ok [of s1 a b] 1 0 by auto
  obtain s3 where 3: "set_prev a h s2 = Some s3" "get_prev s3 = (get_prev s2)(a := Some h)" "get_next s3 = get_next s2"
    "\<forall>c. map_option rnode (s3 c) = map_option rnode (s2 c)" using set_prev_ok [of s2 a h] 2 1 0 ab by auto
  obtain s4 where 4: "set_next h a s3 = Some s4" "get_next s4 = (get_next s3)(h := Some a)" "get_prev s4 = get_prev s3"
    "\<forall>c. map_option rnode (s4 c) = map_option rnode (s3 c)" using set_next_ok [of s3 h a] 3 2 1 0 ab b by auto
  have run: "reader_add a t h s = Some s4"
    using 1(1) 2(1) 3(1) 4(1) b(1) ab 0 1(3)
    by (simp add: reader_add_def s0_def [symmetric] Let_def)
  have nx: "get_next s4 = (get_next s)(a := Some b, h := Some a)"
    and pv: "get_prev s4 = (get_prev s)(b := Some a, a := Some h)"
    using 0 1 2 3 4 ab by (auto simp: fun_eq_iff)
  have "ring s4 h (a # xs)"
  proof (cases xs)
    case Nil
    then have "b = h" by (simp add: b_def)
    then show ?thesis using Nil ab nx pv by (simp add: ring_def)
  next
    case (Cons x ys)
    then have bx: "b = x" by (simp add: b_def)
    have d: "distinct (h # x # ys)" "rseg s x ys h" using assms(1) Cons by (simp_all add: ring_def)
    have "rseg s4 x ys h = rseg s x ys h"
      by (rule rseg_cong) (use na d(1) Cons bx nx pv in auto)
    then show ?thesis using Cons ab nx pv na d bx by (simp add: ring_def)
  qed
  moreover have "map_option rnode (s4 c) = map_option rnode (s0 c)" for c using 1(4) 2(4) 3(4) 4(4) by simp
  then have "map_option rnode (s4 a) = Some (Some t)" "\<forall>c. c \<noteq> a \<longrightarrow> map_option rnode (s4 c) = map_option rnode (s c)"
    by (simp_all add: s0_def)
  ultimately show ?thesis using run by blast
qed

text \<open>Leaving out \<open>a\<close>.\<close>

lemma rseg_retarget:
  assumes "rseg s h xs a" and "distinct (h # xs)" and "c \<notin> set xs"
    and "get_next s' = (get_next s)(last (h # xs) := Some c)" and "get_prev s' = (get_prev s)(c := Some (last (h # xs)))"
  shows "rseg s' h xs c"
proof (cases xs rule: rev_cases)
  case (snoc zs p)
  have "rseg s h zs p" using assms(1) snoc by (simp add: rseg_append)
  moreover have "rseg s' h zs p = rseg s h zs p"
    by (rule rseg_cong) (use assms snoc in auto)
  ultimately show ?thesis using assms(4,5) snoc by (simp add: rseg_append)
qed (use assms in simp)

lemma rseg_join:
  assumes "rseg s h xs a" and "rseg s a ys b"
    and "get_next s' = (get_next s)(last (h # xs) := Some (hd (ys @ [b])))"
    and "get_prev s' = (get_prev s)(hd (ys @ [b]) := Some (last (h # xs)))"
    and "distinct (h # xs @ ys)" and "b \<notin> set xs" and "b \<notin> set ys"
  shows "rseg s' h (xs @ ys) b"
proof (cases ys)
  case Nil
  then show ?thesis using rseg_retarget [OF assms(1)] assms by simp
next
  case (Cons y zs)
  have "rseg s' h xs y" using rseg_retarget [OF assms(1), of y s'] assms Cons by simp
  moreover have "rseg s y zs b" using assms(2) Cons by simp
  moreover have "last (h # xs) \<in> set (h # xs)" by (rule last_in_set) simp
  then have "rseg s' y zs b = rseg s y zs b"
    by (intro rseg_cong) (use assms(3-7) Cons in \<open>auto simp del: last.simps\<close>)
  ultimately show ?thesis by (simp add: rseg_append Cons)
qed

lemma reader_unlink_ok:
  assumes "ring s h (xs @ a # ys)"
  shows "\<exists>s'. reader_unlink a s = Some s' \<and> ring s' h (xs @ ys) \<and> (\<forall>c. map_option rnode (s' c) = map_option rnode (s c))"
proof -
  let ?p = "last (h # xs)" and ?n = "hd (ys @ [h])"
  have d: "distinct (h # xs @ a # ys)" and seg: "rseg s h xs a" "rseg s a ys h"
    using assms by (simp_all add: ring_def rseg_append)
  have pn: "get_prev s a = Some ?p" "get_next s a = Some ?n" using rseg_ends seg by auto
  have mem: "?p \<in> set (h # xs)" "?n \<in> set (h # ys)" by (rule last_in_set) (simp, cases ys, simp_all)
  then have ne: "?p \<noteq> a" "?n \<noteq> a" using d by auto
  have al: "get_prev s ?n \<noteq> None" "get_next s ?p \<noteq> None" using ring_alloc [OF assms] mem by auto
  obtain s1 where 1: "set_prev ?n ?p s = Some s1" "get_prev s1 = (get_prev s)(?n := Some ?p)" "get_next s1 = get_next s"
    "\<forall>c. map_option rnode (s1 c) = map_option rnode (s c)" using set_prev_ok [OF al(1)] by blast
  obtain s2 where 2: "set_next ?p ?n s1 = Some s2" "get_next s2 = (get_next s1)(?p := Some ?n)" "get_prev s2 = get_prev s1"
    "\<forall>c. map_option rnode (s2 c) = map_option rnode (s1 c)" using set_next_ok [of s1 ?p] al(2) 1(3) by auto
  have run: "reader_unlink a s = Some s2"
    using pn 1 2(1) ne by (simp add: reader_unlink_def)
  have nx: "get_next s2 = (get_next s)(?p := Some ?n)" and pv: "get_prev s2 = (get_prev s)(?n := Some ?p)"
    using 1 2 by simp_all
  have "rseg s2 h (xs @ ys) h"
    by (rule rseg_join [OF seg nx pv]) (use d in auto)
  then show ?thesis using run d 1(4) 2(4) by (auto simp: ring_def)
qed

lemma ring_free:
  assumes "ring s h xs" and "a \<notin> set (h # xs)"
  shows "ring (s(a := None)) h xs"
proof -
  have "rseg (s(a := None)) h xs h = rseg s h xs h"
    by (rule rseg_cong) (use assms(2) in \<open>auto simp: get_next_def get_prev_def\<close>)
  then show ?thesis using assms(1) by (simp add: ring_def)
qed

lemma rcu_register_ok:
  assumes "ring (store g) registry xs" and "store g (fresh g) = None"
  shows "\<exists>g'. rcu_register_thread t g = Some g' \<and> ring (store g') registry (fresh g # xs) \<and>
    rlist (readers g' t) = Some (fresh g) \<and> map_option rnode (store g' (fresh g)) = Some (Some t)"
  using reader_add_ok [OF assms, of t] by (auto simp: rcu_register_thread_def)

lemma rcu_unregister_ok:
  assumes "ring (store g) registry (xs @ a # ys)" and "rlist (readers g t) = Some a"
  shows "\<exists>g'. rcu_unregister_thread t g = Some g' \<and> ring (store g') registry (xs @ ys) \<and>
    rlist (readers g' t) = None \<and> \<not> registered (readers g' t)"
proof -
  obtain s where s: "reader_unlink a (store g) = Some s" "ring s registry (xs @ ys)"
    using reader_unlink_ok [OF assms(1)] by blast
  have "ring (s(a := None)) registry (xs @ ys)"
    using s(2) by (rule ring_free) (use assms(1) in \<open>auto simp: ring_def\<close>)
  then show ?thesis using s(1) assms(2) by (simp add: rcu_unregister_thread_def reader_del_def)
qed

text \<open>
  \<open>reader_splice\<close> is right: it puts a ring that is not empty at the front of another one.
\<close>

lemma reader_splice_ok:
  assumes "ring s src xs" and "ring s dst ys" and "xs \<noteq> []" and "set (src # xs) \<inter> set (dst # ys) = {}"
  shows "\<exists>s'. reader_splice src dst s = Some s' \<and> ring s' dst (xs @ ys)"
proof -
  let ?f = "hd xs" and ?l = "last xs" and ?n = "hd (ys @ [dst])"
  have f: "?f \<in> set xs" "?l \<in> set xs" "?n \<in> set (dst # ys)" using assms(3) by (simp, simp, cases ys, simp_all)
  have e: "get_next s src = Some ?f" "get_prev s src = Some ?l" "get_next s dst = Some ?n"
    using rseg_ends [of s src xs src] rseg_ends [of s dst ys dst] assms by (auto simp: ring_def)
  have ne: "?f \<noteq> dst" "?l \<noteq> dst" "?n \<noteq> src" "?f \<noteq> ?n" "?l \<noteq> ?n" "?l \<noteq> src" "?f \<noteq> src" "src \<noteq> dst"
    using f assms(1,4) by (auto simp: ring_def)
  have al: "get_prev s ?f \<noteq> None" "get_next s ?l \<noteq> None" "get_prev s ?n \<noteq> None"
    using ring_alloc [OF assms(1), of ?f] ring_alloc [OF assms(1), of ?l] ring_alloc [OF assms(2), of ?n] f by auto
  obtain s1 where 1: "set_prev ?f dst s = Some s1" "get_prev s1 = (get_prev s)(?f := Some dst)" "get_next s1 = get_next s"
    using set_prev_ok [OF al(1)] by blast
  obtain s2 where 2: "set_next ?l ?n s1 = Some s2" "get_next s2 = (get_next s1)(?l := Some ?n)" "get_prev s2 = get_prev s1"
    using set_next_ok [of s1 ?l] al(2) 1(3) by auto
  obtain s3 where 3: "set_prev ?n ?l s2 = Some s3" "get_prev s3 = (get_prev s2)(?n := Some ?l)" "get_next s3 = get_next s2"
    using set_prev_ok [of s2 ?n] al(3) 1 2 ne by auto
  obtain s4 where 4: "set_next dst ?f s3 = Some s4" "get_next s4 = (get_next s3)(dst := Some ?f)" "get_prev s4 = get_prev s3"
    using set_next_ok [of s3 dst] 1 2 3 ne e by auto
  have run: "reader_splice src dst s = Some s4"
    using 1 2 3 4(1) e ne by (simp add: reader_splice_def)
  have nx: "get_next s4 = (get_next s)(?l := Some ?n, dst := Some ?f)" and pv: "get_prev s4 = (get_prev s)(?f := Some dst, ?n := Some ?l)"
    using 1 2 3 4 by simp_all
  obtain x zs where xs: "xs = x # zs" using assms(3) by (cases xs) auto
  have d: "distinct (src # x # zs)" "distinct (dst # ys)" using assms(1,2) xs by (simp_all add: ring_def)
  have seg: "rseg s x zs src" "rseg s dst ys dst" using assms(1,2) xs by (simp_all add: ring_def)
  have disj: "set (x # zs) \<inter> set (dst # ys) = {}" using assms(4) xs by auto
  have A: "rseg s4 x zs ?n"
  proof (cases zs rule: rev_cases)
    case Nil
    then show ?thesis using nx pv ne xs by simp
  next
    case (snoc ws q)
    have "rseg s x ws q" using seg(1) snoc by (simp add: rseg_append)
    moreover have "rseg s4 x ws q = rseg s x ws q"
      by (rule rseg_cong) (use nx pv xs snoc d(1) disj f(3) in auto)
    ultimately show ?thesis using nx pv ne xs snoc by (simp add: rseg_append)
  qed
  have x: "get_next s4 dst = Some x" "get_prev s4 x = Some dst" using nx pv ne xs by simp_all
  have "rseg s4 dst (xs @ ys) dst"
  proof (cases ys)
    case Nil
    then show ?thesis using A x xs by simp
  next
    case (Cons y us)
    have "rseg s4 y us dst = rseg s y us dst"
      by (rule rseg_cong) (use nx pv xs Cons d(2) disj f(2) in auto)
    then have "rseg s4 y us dst" using seg(2) Cons by simp
    then have "rseg s4 x (zs @ y # us) dst" using A Cons by (simp add: rseg_append)
    then show ?thesis using x xs Cons by simp
  qed
  then have "ring s4 dst (xs @ ys)" using d disj xs by (auto simp: ring_def)
  then show ?thesis using run by blast
qed

subsection \<open>The writer never returns\<close>

text \<open>
  \<open>reader_move\<close> writes \<open>dst->prev->next\<close> where it should write
  \<open>dst->next->prev\<close>: moved to an empty ring, a node becomes its own successor.
\<close>

definition stuck :: "addr \<Rightarrow> addr \<Rightarrow> addr \<Rightarrow> nat \<Rightarrow> lists \<Rightarrow> bool" where
  "stuck cur qs a t s \<longleftrightarrow> (\<exists>p. s a = Some \<lparr>rnext = a, rprev = p, rnode = Some t\<rparr> \<and> (p = cur \<or> p = qs)) \<and>
     get_prev s cur = Some cur \<and> get_prev s qs = Some qs \<and> a \<noteq> cur \<and> a \<noteq> qs \<and> cur \<noteq> qs"

lemma reader_move_stuck:
  assumes "stuck cur qs a t s" and "dst = cur \<or> dst = qs"
  shows "\<exists>s'. reader_move a dst s = Some s' \<and> stuck cur qs a t s'"
proof -
  obtain p where p: "s a = Some \<lparr>rnext = a, rprev = p, rnode = Some t\<rparr>" "p = cur \<or> p = qs"
    and h: "a \<noteq> cur" "a \<noteq> qs" "cur \<noteq> qs" using assms(1) by (auto simp: stuck_def)
  obtain c where c: "s cur = Some c" "rprev c = cur" using assms(1) by (auto simp: stuck_def get_prev_def)
  obtain q where q: "s qs = Some q" "rprev q = qs" using assms(1) by (auto simp: stuck_def get_prev_def)
  show ?thesis using p h c q assms(2)
    by (elim disjE) (simp_all add: reader_move_def reader_unlink_def set_next_def set_prev_def get_next_def get_prev_def stuck_def)
qed

lemma reader_move_first:
  assumes "ring s h (a # xs)" and "map_option rnode (s a) = Some (Some t)" and "dst = cur \<or> dst = qs"
    and "s cur = Some \<lparr>rnext = cur, rprev = cur, rnode = None\<rparr>" and "s qs = Some \<lparr>rnext = qs, rprev = qs, rnode = None\<rparr>"
    and "cur \<notin> set (h # a # xs)" and "qs \<notin> set (h # a # xs)" and "cur \<noteq> qs"
  shows "\<exists>s'. reader_move a dst s = Some s' \<and> stuck cur qs a t s'"
proof -
  have "ring s h ([] @ a # xs)" using assms(1) by simp
  from reader_unlink_ok [OF this] obtain s1 where 1: "reader_unlink a s = Some s1" "ring s1 h xs"
    "\<forall>c. map_option rnode (s1 c) = map_option rnode (s c)" by auto
  have nn: "get_next s a = Some (hd (xs @ [h]))" "get_prev s a = Some h" "hd (xs @ [h]) \<in> set (h # xs)"
    using assms(1) rseg_ends [of s a xs h] by (auto simp: ring_def, cases xs, auto)
  have same: "s1 c = s c" if "c \<notin> set (h # xs)" for c
    using 1(1) that nn by (auto simp: reader_unlink_def set_next_def set_prev_def get_next_def get_prev_def split: if_splits)
  have "a \<notin> set (h # xs)" using assms(1) by (auto simp: ring_def)
  then obtain n where n: "s1 a = Some n" "rnode n = Some t" using same assms(2) by (cases "s a") auto
  have c: "s1 cur = Some \<lparr>rnext = cur, rprev = cur, rnode = None\<rparr>" "s1 qs = Some \<lparr>rnext = qs, rprev = qs, rnode = None\<rparr>"
    using same assms(4-7) by auto
  have ne: "a \<noteq> cur" "a \<noteq> qs" using assms(6,7) by auto
  show ?thesis using assms(3,8) c n ne
    by (cases n; elim disjE) (auto simp: reader_move_def 1(1) set_next_def set_prev_def get_next_def get_prev_def stuck_def)
qed

lemma walk_stuck: "stuck cur qs a t s \<Longrightarrow> a \<noteq> h \<Longrightarrow> walk_readers fuel gp seen k h (Some cur) qs a s = Out_of_fuel"
proof (induction fuel arbitrary: k s)
  case (Suc fuel)
  have "\<exists>s'. walk_step gp (seen k) (Some cur) qs a s = Some (a, s') \<and> stuck cur qs a t s'"
  proof -
    obtain n where n: "s a = Some n" "rnext n = a" "rnode n = Some t" using Suc(2) by (auto simp: stuck_def)
    have nx: "get_next s' a = Some a" if "stuck cur qs a t s'" for s' using that by (auto simp: stuck_def get_next_def)
    show ?thesis
      using n nx [OF Suc(2)] Suc(2) reader_move_stuck [OF Suc(2), of cur] reader_move_stuck [OF Suc(2), of qs] nx
      by (cases "reader_state gp (seen k t)") (auto simp: walk_step_def)
  qed
  then show ?case using Suc by auto
qed simp

text \<open>
  C19: once a thread is registered, \<open>synchronize_rcu\<close> does not return if the first reader it
  meets is not still in a section of the previous phase, whatever the readers do meanwhile: it
  keeps moving that reader, without undefined behaviour, for ever.
\<close>

theorem synchronize_rcu_hangs:
  assumes "ring (store g) registry (a # xs)" and "map_option rnode (store g a) = Some (Some t)"
    and "reader_state (gp_ctr g) (seen1 1 t) \<noteq> RCU_READER_ACTIVE_OLD"
    and "rnode (the (store g registry)) = None"
    and "\<forall>c \<in> set (registry # a # xs). c < fresh g"
  shows "synchronize_rcu fuel seen1 seen2 g = Out_of_fuel"
proof -
  let ?cur = "fresh g" and ?qs = "fresh g + 1"
  let ?s = "(store g)(?cur \<mapsto> \<lparr>rnext = ?cur, rprev = ?cur, rnode = None\<rparr>, ?qs \<mapsto> \<lparr>rnext = ?qs, rprev = ?qs, rnode = None\<rparr>)"
  have out: "?cur \<notin> set (registry # a # xs)" "?qs \<notin> set (registry # a # xs)" using assms(5) by fastforce+
  have keep: "?s c = store g c" if "c \<in> set (registry # a # xs)" for c using that out by auto
  have ring: "ring ?s registry (a # xs)"
  proof -
    have "rseg ?s registry (a # xs) registry = rseg (store g) registry (a # xs) registry"
      by (rule rseg_cong) (use keep in \<open>auto simp: get_next_def get_prev_def simp del: fun_upd_apply\<close>)
    then show ?thesis using assms(1) by (simp only: ring_def)
  qed
  have node: "map_option rnode (?s a) = Some (Some t)" using assms(2) keep by (simp del: fun_upd_apply)
  obtain r where r: "?s registry = Some r" "rnext r = a" "rnode r = None"
    using ring assms(4) keep [of registry] by (auto simp: ring_def get_next_def simp del: fun_upd_apply)
  have ar: "a \<noteq> registry" using assms(1) by (auto simp: ring_def)
  have walk_readers: "walk_readers fuel (gp_ctr g) seen1 0 registry (Some ?cur) ?qs registry ?s = Out_of_fuel" for fuel
  proof (cases fuel)
    case (Suc f)
    have first: "walk_step (gp_ctr g) (seen1 0) (Some ?cur) ?qs registry ?s = Some (a, ?s)"
      using r by (simp add: walk_step_def get_next_def del: fun_upd_apply)
    have "walk_readers f (gp_ctr g) seen1 1 registry (Some ?cur) ?qs a ?s = Out_of_fuel"
    proof (cases f)
      case (Suc f')
      have mv: "\<exists>s'. reader_move a dst ?s = Some s' \<and> stuck ?cur ?qs a t s'" if "dst = ?cur \<or> dst = ?qs" for dst
        by (rule reader_move_first [OF ring node that]) (use out in simp_all)
      obtain n where n: "?s a = Some n" "rnode n = Some t" using node by auto
      have nx: "get_next s' a = Some a" if "stuck ?cur ?qs a t s'" for s' using that by (auto simp: stuck_def get_next_def)
      have "\<exists>s'. walk_step (gp_ctr g) (seen1 1) (Some ?cur) ?qs a ?s = Some (a, s') \<and> stuck ?cur ?qs a t s'"
        using n assms(3) mv [of ?cur] mv [of ?qs] nx
        by (cases "reader_state (gp_ctr g) (seen1 1 t)") (auto simp: walk_step_def simp del: fun_upd_apply)
      then show ?thesis using Suc walk_stuck ar by (auto simp del: fun_upd_apply)
    qed simp
    then show ?thesis using Suc first ar by (simp del: fun_upd_apply)
  qed simp
  have "get_next ?s registry \<noteq> Some registry" using r ar by (simp add: get_next_def del: fun_upd_apply)
  then show ?thesis
    using walk_readers by (cases fuel) (simp_all add: synchronize_rcu_def Let_def RCU_QS_ACTIVE_ATTEMPTS_def del: fun_upd_apply walk_readers.simps)
qed

theorem synchronize_rcu_hangs_witness:
  "\<exists>g. rcu_register_thread 7 rcu_init = Some g \<and> (\<forall>fuel seen2. synchronize_rcu fuel (\<lambda>k t. ctr (readers g t)) seen2 g = Out_of_fuel)"
proof -
  have r0: "ring (store rcu_init) registry []" by (simp add: ring_def rcu_init_def get_next_def get_prev_def)
  have f0: "store rcu_init (fresh rcu_init) = None" by (simp add: rcu_init_def)
  from rcu_register_ok [OF r0 f0, of 7] obtain g where g: "rcu_register_thread 7 rcu_init = Some g"
    "ring (store g) registry [1]" "map_option rnode (store g 1) = Some (Some 7)" by (auto simp: rcu_init_def)
  have more: "gp_ctr g = 1" "readers g 7 = \<lparr>ctr = 0, registered = True, rlist = Some 1\<rparr>" "fresh g = 2" "rnode (the (store g registry)) = None"
    using g(1) by (auto simp: rcu_register_thread_def rcu_init_def reader_add_def set_next_def set_prev_def get_next_def Let_def)
  have "synchronize_rcu fuel (\<lambda>k t. ctr (readers g t)) seen2 g = Out_of_fuel" for fuel seen2
    by (rule synchronize_rcu_hangs [OF g(2,3)]) (use more in \<open>simp_all add: reader_state_def\<close>)
  then show ?thesis using g(1) by blast
qed

end
