(* ===== verification/Voting.thy ===== *)
theory Voting
  imports Prelude
begin

unbundle bit_operations_syntax

section \<open>Majority element (leetcode/divideANDconquer/majorityElement.cc)\<close>

text \<open>
  Eight ways to find the element that makes up more than half of a vector. The random indices
  of the third are an input.
\<close>

definition majority_of :: "'a list \<Rightarrow> 'a \<Rightarrow> bool" where
  "majority_of nums x \<longleftrightarrow> count_list nums x > length nums div 2"

text \<open>The \<open>unordered_map\<close> and the \<open>map\<close> version differ in the container only.\<close>

fun count_until :: "int list \<Rightarrow> nat \<Rightarrow> (int \<Rightarrow> nat) \<Rightarrow> int" where
  "count_until [] n mp = - 1"
| "count_until (i # is) n mp = (let mp = mp(i := mp i + 1) in if mp i > n div 2 then i else count_until is n mp)"

definition majorityElement1 :: "int list \<Rightarrow> int" where
  "majorityElement1 nums = count_until nums (length nums) (\<lambda>_. 0)"

definition majorityElement2 :: "int list \<Rightarrow> int" where
  "majorityElement2 nums = count_until nums (length nums) (\<lambda>_. 0)"

fun count_value :: "int list \<Rightarrow> nat \<Rightarrow> int \<Rightarrow> nat \<Rightarrow> int option" where
  "count_value [] n majority cnt = None"
| "count_value (num # nums) n majority cnt =
     (if num = majority
      then let cnt = cnt + 1 in if cnt > n div 2 then Some num else count_value nums n majority cnt
      else count_value nums n majority cnt)"

datatype 'a search = Found 'a | Searching | Out_of_range

fun majorityElement3 :: "nat \<Rightarrow> (nat \<Rightarrow> nat) \<Rightarrow> int list \<Rightarrow> int search" where
  "majorityElement3 0 rand nums = Searching"
| "majorityElement3 (Suc fuel) rand nums =
     (if nums = [] then Out_of_range
      else let index = rand 0 mod length nums; majority = nums ! index in
        case count_value nums (length nums) majority 0 of
          Some num \<Rightarrow> Found num
        | None \<Rightarrow> majorityElement3 fuel (\<lambda>k. rand (k + 1)) nums)"

fun count_bit :: "32 word list \<Rightarrow> nat \<Rightarrow> 32 word \<Rightarrow> nat \<Rightarrow> bool" where
  "count_bit [] n msk cnt = False"
| "count_bit (num # nums) n msk cnt =
     (if num AND msk \<noteq> 0
      then let cnt = cnt + 1 in if cnt > n div 2 then True else count_bit nums n msk cnt
      else count_bit nums n msk cnt)"

fun vote_bits :: "32 word list \<Rightarrow> nat list \<Rightarrow> 32 word \<Rightarrow> 32 word" where
  "vote_bits nums [] majority = majority"
| "vote_bits nums (i # is) majority =
     (let msk = push_bit i 1 in
      vote_bits nums is (if count_bit nums (length nums) msk 0 then majority OR msk else majority))"

definition majorityElement4 :: "32 word list \<Rightarrow> 32 word" where
  "majorityElement4 nums = vote_bits nums [0..<32] 0"

fun boyer_moore :: "int list \<Rightarrow> int \<Rightarrow> int \<Rightarrow> int" where
  "boyer_moore [] majority cnt = majority"
| "boyer_moore (num # nums) majority cnt =
     (if num = majority then boyer_moore nums majority (cnt + 1)
      else let cnt = cnt - 1 in
        if cnt = 0 then boyer_moore nums num 1 else boyer_moore nums majority cnt)"

definition majorityElement5 :: "int list \<Rightarrow> int option" where
  "majorityElement5 nums = do { majority \<leftarrow> hd_opt nums; Some (boyer_moore nums majority 0) }"

definition majorityElement6 :: "int list \<Rightarrow> int option" where
  "majorityElement6 nums = (let nums = sort nums in vget nums (length nums div 2))"

text \<open>\<open>std::nth_element\<close> puts the element there that sorting would put there.\<close>

definition majorityElement7 :: "int list \<Rightarrow> int option" where
  "majorityElement7 nums = vget (sort nums) (length nums div 2)"

partial_function (option) majorityHelper :: "int list \<Rightarrow> int \<Rightarrow> int \<Rightarrow> (int \<times> nat) option" where
  "majorityHelper nums l r =
     (if l = r then do { x \<leftarrow> (if 0 \<le> l then vget nums (nat l) else None); Some (x, 1) }
      else do {
        let mid = l + (if r < l then - ((l - r) div 2) else (r - l) div 2);
        ml \<leftarrow> majorityHelper nums l mid;
        mr \<leftarrow> majorityHelper nums (mid + 1) r;
        if fst ml = fst mr then Some (fst ml, snd ml + snd mr)
        else if snd ml > snd mr
          then Some (fst ml, snd ml + count_list (take (nat (r - mid)) (drop (nat (mid + 1)) nums)) (fst ml))
          else Some (fst mr, snd mr + count_list (take (nat (mid + 1 - l)) (drop (nat l) nums)) (fst mr)) })"

definition majorityElement8 :: "int list \<Rightarrow> int option" where
  "majorityElement8 nums = map_option fst (majorityHelper nums 0 (int (length nums) - 1))"

subsection \<open>Correctness\<close>

lemma count_list_split: "count_list xs x + count_list xs y \<le> length xs" if "x \<noteq> y"
  using that by (induction xs) auto

lemma majority_unique: "majority_of nums x \<Longrightarrow> majority_of nums y \<Longrightarrow> x = y"
  using count_list_split [of x y nums] by (cases "x = y") (auto simp: majority_of_def)

lemma count_until_ok:
  "(\<forall>x. mp x = count_list pre x) \<Longrightarrow> (\<forall>x. count_list pre x \<le> n div 2) \<Longrightarrow>
   ((\<nexists>x. count_list (pre @ nums) x > n div 2) \<longrightarrow> count_until nums n mp = - 1) \<and>
   ((\<exists>x. count_list (pre @ nums) x > n div 2) \<longrightarrow> count_list (pre @ nums) (count_until nums n mp) > n div 2)"
proof (induction nums arbitrary: mp pre)
  case (Cons i nums)
  show ?case
  proof (cases "mp i + 1 > n div 2")
    case True
    then show ?thesis using Cons(2) by (auto simp: Let_def)
  next
    case False
    have "\<forall>x. (mp(i := mp i + 1)) x = count_list (pre @ [i]) x" "\<forall>x. count_list (pre @ [i]) x \<le> n div 2"
      using Cons(2,3) False by auto
    from Cons(1) [OF this] show ?thesis using False by (simp add: Let_def fun_upd_same del: fun_upd_apply)
  qed
qed (auto simp: not_less [symmetric])

lemma majorityElement1_ok: "majorityElement1 nums = (if \<exists>x. majority_of nums x then THE x. majority_of nums x else - 1)"
proof (cases "\<exists>x. majority_of nums x")
  case True
  then obtain x where x: "majority_of nums x" by blast
  have "majority_of nums (majorityElement1 nums)"
    using count_until_ok [of "\<lambda>_. 0" "[]" "length nums" nums] x by (auto simp: majority_of_def majorityElement1_def)
  then show ?thesis using True majority_unique by (metis the_equality)
next
  case False
  then show ?thesis
    using count_until_ok [of "\<lambda>_. 0" "[]" "length nums" nums] by (auto simp: majority_of_def majorityElement1_def)
qed

lemma count_value_ok:
  "cnt \<le> n div 2 \<Longrightarrow> count_value nums n v cnt = (if cnt + count_list nums v > n div 2 then Some v else None)"
  by (induction nums arbitrary: cnt) (auto simp: Let_def)

lemma majorityElement3_found: "majorityElement3 fuel rand nums = Found x \<Longrightarrow> majority_of nums x"
  by (induction fuel rand nums rule: majorityElement3.induct)
    (auto simp: count_value_ok majority_of_def Let_def split: if_splits option.splits)

text \<open>
  It ends as soon as an index of the majority element comes up; without a majority element it
  never does.
\<close>

lemma majorityElement3_ends:
  "majority_of nums (nums ! (rand k mod length nums)) \<Longrightarrow> k < fuel \<Longrightarrow> \<exists>x. majorityElement3 fuel rand nums = Found x"
proof (induction k arbitrary: fuel rand)
  case 0
  then have "nums \<noteq> []" by (auto simp: majority_of_def)
  then show ?case using 0 by (cases fuel) (auto simp: count_value_ok majority_of_def Let_def)
next
  case (Suc k)
  then obtain f where f: "fuel = Suc f" by (cases fuel) auto
  have "nums \<noteq> []" using Suc(2) by (auto simp: majority_of_def)
  then show ?case using Suc(1) [of "\<lambda>j. rand (j + 1)" f] Suc(2,3) f by (auto simp: count_value_ok Let_def)
qed

lemma majorityElement3_searches:
  "nums \<noteq> [] \<Longrightarrow> \<nexists>x. majority_of nums x \<Longrightarrow> majorityElement3 fuel rand nums = Searching"
  by (induction fuel rand nums rule: majorityElement3.induct) (auto simp: count_value_ok majority_of_def Let_def)

lemma and_mask_bit: "num AND 2 ^ i = 0 \<longleftrightarrow> \<not> bit num i" for num :: "32 word"
  by (rule and_exp_eq_0_iff_not_bit)

lemma count_bit_ok:
  "cnt \<le> n div 2 \<Longrightarrow> count_bit nums n (2 ^ i) cnt \<longleftrightarrow> cnt + length (filter (\<lambda>w. bit w i) nums) > n div 2"
  by (induction nums arbitrary: cnt) (auto simp: Let_def and_mask_bit)

lemma vote_bits_ok:
  "set is \<subseteq> {..<32} \<Longrightarrow> bit (vote_bits nums is m) j \<longleftrightarrow>
     bit m j \<or> (j \<in> set is \<and> length (filter (\<lambda>w. bit w j) nums) > length nums div 2)"
  by (induction "is" arbitrary: m) (auto simp: Let_def count_bit_ok bit_or_iff bit_exp_iff)

lemma count_filter_le: "\<not> P x \<Longrightarrow> count_list xs x + length (filter P xs) \<le> length xs"
  by (induction xs) auto

lemma count_filter_ge: "P x \<Longrightarrow> count_list xs x \<le> length (filter P xs)"
  by (induction xs) auto

lemma majorityElement4_ok:
  assumes "majority_of nums x"
  shows "majorityElement4 nums = x"
proof (rule bit_word_eqI)
  fix j assume "j < LENGTH(32)"
  then have "bit (majorityElement4 nums) j \<longleftrightarrow> length (filter (\<lambda>w. bit w j) nums) > length nums div 2"
    unfolding majorityElement4_def by (subst vote_bits_ok) auto
  also have "\<dots> \<longleftrightarrow> bit x j"
    using assms count_filter_le [of "\<lambda>w. bit w j" x nums] count_filter_ge [of "\<lambda>w. bit w j" x nums]
    by (cases "bit x j") (auto simp: majority_of_def)
  finally show "bit (majorityElement4 nums) j \<longleftrightarrow> bit x j" .
qed

text \<open>
  The vote: with \<open>cnt\<close> votes for the candidate, the candidate leads by at most
  \<open>cnt\<close> in what was read, every other value by at most \<open>1 - cnt\<close>.
\<close>

definition lead :: "int list \<Rightarrow> int \<Rightarrow> int" where
  "lead xs x = 2 * int (count_list xs x) - int (length xs)"

lemma lead_snoc: "lead (xs @ [y]) x = (if y = x then lead xs x + 1 else lead xs x - 1)"
  by (simp add: lead_def)

lemma boyer_moore_ok:
  "1 \<le> cnt \<Longrightarrow> \<forall>x. lead pre x \<le> (if x = m then cnt else 1 - cnt) \<Longrightarrow> lead (pre @ nums) x > 0 \<Longrightarrow> boyer_moore nums m cnt = x"
proof (induction nums arbitrary: pre m cnt)
  case Nil
  then have "lead pre x \<le> (if x = m then cnt else 1 - cnt)" by blast
  then show ?case using Nil(1,3) by (cases "x = m") auto
next
  case (Cons y nums)
  have l: "lead ((pre @ [y]) @ nums) x > 0" using Cons(4) by simp
  consider "y = m" | "y \<noteq> m" "cnt = 1" | "y \<noteq> m" "cnt \<noteq> 1" by blast
  then show ?case
  proof cases
    case 1
    have "\<forall>x. lead (pre @ [y]) x \<le> (if x = m then cnt + 1 else 1 - (cnt + 1))"
    proof
      fix x
      have "lead pre x \<le> (if x = m then cnt else 1 - cnt)" using Cons(3) by blast
      then show "lead (pre @ [y]) x \<le> (if x = m then cnt + 1 else 1 - (cnt + 1))"
        using 1 by (auto simp: lead_snoc split: if_splits)
    qed
    then have "boyer_moore nums m (cnt + 1) = x" using Cons(1) [of "cnt + 1" "pre @ [y]" m] Cons(2) l by simp
    then show ?thesis using 1 by simp
  next
    case 2
    have "\<forall>x. lead (pre @ [y]) x \<le> (if x = y then 1 else 1 - 1)"
    proof
      fix x
      have "lead pre x \<le> (if x = m then cnt else 1 - cnt)" using Cons(3) by blast
      then show "lead (pre @ [y]) x \<le> (if x = y then 1 else 1 - 1)" using 2 by (auto simp: lead_snoc split: if_splits)
    qed
    then have "boyer_moore nums y 1 = x" using Cons(1) [of 1 "pre @ [y]" y] l by simp
    then show ?thesis using 2 by (simp add: Let_def)
  next
    case 3
    have "\<forall>x. lead (pre @ [y]) x \<le> (if x = m then cnt - 1 else 1 - (cnt - 1))"
    proof
      fix x
      have "lead pre x \<le> (if x = m then cnt else 1 - cnt)" using Cons(3) by blast
      then show "lead (pre @ [y]) x \<le> (if x = m then cnt - 1 else 1 - (cnt - 1))"
        using 3 by (auto simp: lead_snoc split: if_splits)
    qed
    then have "boyer_moore nums m (cnt - 1) = x" using Cons(1) [of "cnt - 1" "pre @ [y]" m] Cons(2) 3 l by simp
    then show ?thesis using 3 by (simp add: Let_def)
  qed
qed

lemma majorityElement5_ok:
  assumes "majority_of nums x"
  shows "majorityElement5 nums = Some x"
proof -
  obtain y ys where n: "nums = y # ys" using assms by (cases nums) (auto simp: majority_of_def)
  have "lead ([y] @ ys) x > 0" using assms n by (simp add: lead_def majority_of_def split: if_splits)
  moreover have "\<forall>x. lead [y] x \<le> (if x = y then 1 else 1 - 1)" by (simp add: lead_def)
  ultimately have "boyer_moore ys y 1 = x" by (intro boyer_moore_ok [of 1 "[y]"]) simp_all
  then show ?thesis by (simp add: majorityElement5_def n)
qed

lemma majority_sort: "majority_of nums x \<Longrightarrow> length nums div 2 < length nums \<and> sort nums ! (length nums div 2) = x"
proof -
  assume m: "majority_of nums x"
  let ?s = "sort nums" and ?h = "length nums div 2"
  have n: "0 < length nums" using m by (cases nums) (auto simp: majority_of_def)
  have c: "count_list ?s x > ?h" using m by (simp add: majority_of_def count_mset [symmetric])
  have cl: "count_list ?s x = count_list (take k ?s) x + count_list (drop k ?s) x" for k
    by (metis append_take_drop_id count_list_append)
  have "\<not> ?s ! ?h < x"
  proof
    assume lt: "?s ! ?h < x"
    have "y \<noteq> x" if y: "y \<in> set (take (Suc ?h) ?s)" for y
    proof -
      obtain j where "j < Suc ?h" "j < length ?s" "y = ?s ! j" using y by (auto simp: in_set_conv_nth)
      then have "y \<le> ?s ! ?h" using n by (simp add: sorted_nth_mono)
      then show ?thesis using lt by simp
    qed
    then have "count_list (take (Suc ?h) ?s) x = 0" by (auto simp: count_list_0_iff)
    moreover have "count_list (drop (Suc ?h) ?s) x \<le> length nums - Suc ?h" using count_le_length [of "drop (Suc ?h) ?s" x] by simp
    ultimately show False using c cl [of "Suc ?h"] n by simp
  qed
  moreover have "\<not> x < ?s ! ?h"
  proof
    assume lt: "x < ?s ! ?h"
    have "y \<noteq> x" if y: "y \<in> set (drop ?h ?s)" for y
    proof -
      obtain j where "j < length (drop ?h ?s)" "y = drop ?h ?s ! j" using y by (auto simp: in_set_conv_nth)
      then have "?s ! ?h \<le> y" by (simp add: sorted_nth_mono)
      then show ?thesis using lt by simp
    qed
    then have "count_list (drop ?h ?s) x = 0" by (auto simp: count_list_0_iff)
    moreover have "count_list (take ?h ?s) x \<le> ?h" using count_le_length [of "take ?h ?s" x] by simp
    ultimately show False using c cl [of ?h] by simp
  qed
  ultimately show ?thesis using n by simp
qed

text \<open>The range from \<open>l\<close> to \<open>r\<close>.\<close>

definition span :: "int list \<Rightarrow> int \<Rightarrow> int \<Rightarrow> int list" where
  "span nums l r = take (nat (r + 1 - l)) (drop (nat l) nums)"

lemma length_span: "0 \<le> l \<Longrightarrow> r < int (length nums) \<Longrightarrow> l \<le> r + 1 \<Longrightarrow> length (span nums l r) = nat (r + 1 - l)"
  by (simp add: span_def)

lemma span_split:
  assumes "0 \<le> l" and "l \<le> m" and "m < r"
  shows "span nums l r = span nums l m @ span nums (m + 1) r"
proof -
  have "nat (r + 1 - l) = nat (m + 1 - l) + nat (r - m)" "nat (m + 1) = nat l + nat (m + 1 - l)" using assms by auto
  moreover have "nat (r + 1 - (m + 1)) = nat (r - m)" by simp
  ultimately show ?thesis unfolding span_def by (simp only: take_add drop_drop add.commute [of "nat l"])
qed

lemma majorityHelper_ok:
  "0 \<le> l \<Longrightarrow> l \<le> r \<Longrightarrow> r < int (length nums) \<Longrightarrow>
   \<exists>w. majorityHelper nums l r = Some (w, count_list (span nums l r) w) \<and> (\<forall>x. majority_of (span nums l r) x \<longrightarrow> w = x)"
proof (induction "nat (r - l)" arbitrary: l r rule: less_induct)
  case less
  show ?case
  proof (cases "l = r")
    case True
    have s: "span nums l r = [nums ! nat l]"
      using less(2-4) True by (simp add: span_def take_Suc_conv_app_nth [of 0, simplified] nat_less_iff hd_drop_conv_nth take_Suc)
    have "majorityHelper nums l r = Some (nums ! nat l, 1)"
      using less(2-4) True by (subst majorityHelper.simps) (simp add: ub_simps nat_less_iff)
    then show ?thesis unfolding s by (auto simp: majority_of_def split: if_splits)
  next
    case False
    define m where "m = l + (r - l) div 2"
    have m: "l \<le> m" "m < r" "m + 1 \<le> r" "nat (m - l) < nat (r - l)" "nat (r - (m + 1)) < nat (r - l)"
      unfolding m_def using less(3) False by linarith+
    let ?L = "span nums l m" and ?R = "span nums (m + 1) r"
    obtain a where a: "majorityHelper nums l m = Some (a, count_list ?L a)" "\<forall>x. majority_of ?L x \<longrightarrow> a = x"
      using less(1) [OF m(4) less(2) m(1)] m(2) less(4) by auto
    obtain b where b: "majorityHelper nums (m + 1) r = Some (b, count_list ?R b)" "\<forall>x. majority_of ?R x \<longrightarrow> b = x"
      using less(1) [OF m(5) _ m(3) less(4)] m(1) less(2) by auto
    have s: "span nums l r = ?L @ ?R" using less(2) m(1,2) by (rule span_split)
    have len: "length ?L = nat (m + 1 - l)" "length ?R = nat (r - m)"
      using length_span [of l m nums] length_span [of "m + 1" r nums] less(2,4) m(1-3) by simp_all
    have half: "length ?R \<le> length ?L" "length ?L \<le> length ?R + 1" using less(3) unfolding len unfolding m_def by linarith+
    have c: "count_list (take (nat (r - m)) (drop (nat (m + 1)) nums)) x = count_list ?R x"
      "count_list (take (nat (m + 1 - l)) (drop (nat l) nums)) x = count_list ?L x" for x
      by (simp_all add: span_def)
    let ?w = "if a = b \<or> count_list ?L a > count_list ?R b then a else b"
    have "majorityHelper nums l r = Some (?w, count_list (span nums l r) ?w)"
      using False less(3) a(1) b(1) unfolding s
      by (subst majorityHelper.simps) (simp add: Let_def m_def [symmetric] c del: bind_eq_Some)
    moreover have "?w = x" if x: "majority_of (span nums l r) x" for x
    proof (rule ccontr)
      assume w: "?w \<noteq> x"
      have tot: "count_list ?L x + count_list ?R x > (length ?L + length ?R) div 2"
        using x unfolding s by (simp add: majority_of_def)
      have le: "count_list ?L x \<le> length ?L" "count_list ?R x \<le> length ?R" by (simp_all add: count_le_length)
      show False
      proof (cases "a = x")
        case True
        then have ab: "a \<noteq> b" "count_list ?L a \<le> count_list ?R b" using w by (auto split: if_splits)
        then have "count_list ?R x + count_list ?R b \<le> length ?R" using True by (intro count_list_split) simp
        moreover have "count_list (span nums l m) x \<le> count_list (span nums (m + 1) r) b" using ab(2) True by simp
        ultimately show False using tot half by linarith
      next
        case a: False
        have nl: "\<not> majority_of ?L x" using a \<open>\<forall>x. majority_of ?L x \<longrightarrow> a = x\<close> by blast
        show False
        proof (cases "b = x")
          case True
          then have ab: "count_list ?L a > count_list ?R b" using w a by (auto split: if_splits)
          have "count_list ?L x + count_list ?L a \<le> length ?L" using a by (intro count_list_split) simp
          moreover have "count_list (span nums l m) a > count_list (span nums (m + 1) r) x" using ab True by simp
          ultimately show False using tot half by linarith
        next
          case False
          then have "\<not> majority_of ?R x" using b(2) by blast
          then show False using nl tot unfolding majority_of_def by linarith
        qed
      qed
    qed
    ultimately show ?thesis by blast
  qed
qed

lemma majorityElement8_ok: "majority_of nums x \<Longrightarrow> majorityElement8 nums = Some x"
proof -
  assume m: "majority_of nums x"
  then have n: "nums \<noteq> []" by (auto simp: majority_of_def)
  have s: "span nums 0 (int (length nums) - 1) = nums" by (simp add: span_def)
  show ?thesis using majorityHelper_ok [of 0 "int (length nums) - 1" nums] n m
    by (auto simp: majorityElement8_def s Suc_leI)
qed

text \<open>
  Whenever one element makes up more than half of the vector, the deterministic versions
  return it, and so does the random one as soon as it draws the element.
\<close>

theorem majority_versions_agree:
  assumes "majority_of nums x"
  shows "majorityElement1 nums = x \<and> majorityElement2 nums = x \<and> majorityElement5 nums = Some x \<and>
    majorityElement6 nums = Some x \<and> majorityElement7 nums = Some x \<and> majorityElement8 nums = Some x \<and>
    (nums ! (rand k mod length nums) = x \<longrightarrow> k < fuel \<longrightarrow> majorityElement3 fuel rand nums = Found x)"
proof (intro conjI impI)
  show 1: "majorityElement1 nums = x"
  proof -
    have "(THE x. majority_of nums x) = x" using assms by (rule the_equality) (rule majority_unique [OF _ assms])
    then show ?thesis using assms by (auto simp: majorityElement1_ok)
  qed
  then show "majorityElement2 nums = x" by (simp add: majorityElement2_def majorityElement1_def)
  show "majorityElement5 nums = Some x" using assms by (rule majorityElement5_ok)
  show "majorityElement6 nums = Some x" "majorityElement7 nums = Some x"
    using majority_sort [OF assms] by (simp_all add: majorityElement6_def majorityElement7_def Let_def ub_simps)
  show "majorityElement8 nums = Some x" using assms by (rule majorityElement8_ok)
  assume k: "nums ! (rand k mod length nums) = x" "k < fuel"
  then obtain y where y: "majorityElement3 fuel rand nums = Found y"
    using majorityElement3_ends [of nums rand k fuel] assms by auto
  then show "majorityElement3 fuel rand nums = Found x"
    using majority_unique [OF majorityElement3_found [OF y] assms] by simp
qed

theorem majority_versions_agree_witness: "majorityElement5 [1, 2, 1, 3, 1] = Some 1"
  using majority_versions_agree [of "[1, 2, 1, 3, 1]" 1] by (simp add: majority_of_def)

end
