(* ===== verification/TreeClass.thy ===== *)
theory TreeClass
  imports TreeStore
begin

section \<open>The class Tree (misc/struct/tree.h, misc/struct/tree.cpp)\<close>

text \<open>
  The root is a member of the class and so always there: it is the node at address
  \<open>0\<close>. Stacks hold node addresses. The traversals are proved against the tree that the
  pointers represent.
\<close>

abbreviation root_addr :: addr where "root_addr \<equiv> 0"

definition Tree :: heap_state where
  "Tree = \<lparr>hstore = [root_addr \<mapsto> \<lparr>tval = 0, tleft = None, tright = None\<rparr>], hnext = 1\<rparr>"

definition Init :: "int list \<Rightarrow> heap_state \<Rightarrow> heap_state option" where
  "Init values s = do {
     x \<leftarrow> vget values 0;
     n \<leftarrow> hstore s root_addr;
     init_loop values 1 root_addr [] (s\<lparr>hstore := (hstore s)(root_addr \<mapsto> n\<lparr>tval := x\<rparr>)\<rparr>) }"

partial_function (option) push_lefts :: "tstore \<Rightarrow> ptr \<Rightarrow> addr list \<Rightarrow> addr list option" where
  "push_lefts s node stk = (case node of
     None \<Rightarrow> Some stk
   | Some a \<Rightarrow> do { n \<leftarrow> s a; push_lefts s (tleft n) (a # stk) })"

partial_function (option) InorderTraversal_loop :: "tstore \<Rightarrow> ptr \<Rightarrow> addr list \<Rightarrow> int list \<Rightarrow> int list option" where
  "InorderTraversal_loop s node stk ret = do {
     stk \<leftarrow> push_lefts s node stk;
     case stk of
       [] \<Rightarrow> Some ret
     | a # stk \<Rightarrow> do { n \<leftarrow> s a; InorderTraversal_loop s (tright n) stk (ret @ [tval n]) } }"

definition InorderTraversal :: "tstore \<Rightarrow> int list option" where
  "InorderTraversal s = InorderTraversal_loop s (Some root_addr) [] []"

definition InorderTraversalMorris :: "tstore \<Rightarrow> (tstore \<times> int list) option" where
  "InorderTraversalMorris s = morris_loop s (Some root_addr) []"

definition push_ptr :: "ptr \<Rightarrow> addr list \<Rightarrow> addr list" where
  "push_ptr p stk = (case p of None \<Rightarrow> stk | Some a \<Rightarrow> a # stk)"

partial_function (option) PreorderTraversal_loop :: "tstore \<Rightarrow> addr list \<Rightarrow> int list \<Rightarrow> int list option" where
  "PreorderTraversal_loop s stk ret = (case stk of
     [] \<Rightarrow> Some ret
   | a # stk \<Rightarrow> do {
       n \<leftarrow> s a;
       PreorderTraversal_loop s (push_ptr (tleft n) (push_ptr (tright n) stk)) (ret @ [tval n]) })"

definition PreorderTraversal :: "tstore \<Rightarrow> int list option" where
  "PreorderTraversal s = PreorderTraversal_loop s [root_addr] []"

partial_function (option) PostorderTraversal_loop :: "tstore \<Rightarrow> addr list \<Rightarrow> int list \<Rightarrow> int list option" where
  "PostorderTraversal_loop s stk ret = (case stk of
     [] \<Rightarrow> Some ret
   | a # stk \<Rightarrow> do {
       n \<leftarrow> s a;
       PostorderTraversal_loop s (push_ptr (tright n) (push_ptr (tleft n) stk)) (ret @ [tval n]) })"

definition PostorderTraversal :: "tstore \<Rightarrow> int list option" where
  "PostorderTraversal s = do { ret \<leftarrow> PostorderTraversal_loop s [root_addr] []; Some (rev ret) }"

definition IsBinarySearchTree :: "tstore \<Rightarrow> (tstore \<times> bool) option" where
  "IsBinarySearchTree s = do { (s, inorder_list) \<leftarrow> InorderTraversalMorris s; Some (s, sorted inorder_list) }"

subsection \<open>Correctness\<close>

lemma InorderTraversal_loop_ok:
  "seg s p t None \<Longrightarrow>
   InorderTraversal_loop s p stk ret = InorderTraversal_loop s None stk (ret @ map snd (inorder t))"
proof (induction t arbitrary: p stk ret)
  case (Node l av r)
  obtain a v where av: "av = (a, v)" by fastforce
  obtain pl pr where n: "p = Some a" "s a = Some \<lparr>tval = v, tleft = pl, tright = pr\<rparr>" "seg s pl l None" "seg s pr r None"
    using Node(3) av by auto
  have "InorderTraversal_loop s p stk ret = InorderTraversal_loop s pl (a # stk) ret"
    using n(1,2) by (subst (1 2) InorderTraversal_loop.simps, subst push_lefts.simps) simp
  also have "\<dots> = InorderTraversal_loop s None (a # stk) (ret @ map snd (inorder l))" by (rule Node(1) [OF n(3)])
  also have "\<dots> = InorderTraversal_loop s pr stk ((ret @ map snd (inorder l)) @ [v])"
    using n(2) by (subst InorderTraversal_loop.simps, subst push_lefts.simps) simp
  also have "\<dots> = InorderTraversal_loop s None stk (((ret @ map snd (inorder l)) @ [v]) @ map snd (inorder r))"
    by (rule Node(2) [OF n(4)])
  finally show ?case using av by simp
qed simp

text \<open>A stack of addresses and the trees that hang there.\<close>

definition stack_trees :: "tstore \<Rightarrow> addr list \<Rightarrow> (addr \<times> int) tree list \<Rightarrow> bool" where
  "stack_trees s stk ts \<longleftrightarrow> list_all2 (\<lambda>a t. t \<noteq> Leaf \<and> seg s (Some a) t None) stk ts"

lemma stack_trees_push: "stack_trees s stk ts \<Longrightarrow> seg s p t None \<Longrightarrow>
    stack_trees s (push_ptr p stk) (if t = Leaf then ts else t # ts)"
  using seg_ptr [of s p t None] by (cases p) (auto simp: stack_trees_def push_ptr_def)

lemma stack_trees_Cons:
  assumes "stack_trees s (a # stk) ts"
  obtains l v r ts' pl pr where "ts = Node l (a, v) r # ts'" "s a = Some \<lparr>tval = v, tleft = pl, tright = pr\<rparr>"
    "seg s pl l None" "seg s pr r None" "stack_trees s stk ts'"
proof -
  obtain t ts' where t: "ts = t # ts'" "t \<noteq> Leaf" "seg s (Some a) t None" "stack_trees s stk ts'"
    using assms by (auto simp: stack_trees_def list_all2_Cons1)
  then obtain l b v r where "t = Node l (b, v) r" by (cases t) auto
  then show thesis using t that by auto
qed

definition trees_size :: "(addr \<times> int) tree list \<Rightarrow> nat" where
  "trees_size ts = sum_list (map size ts)"

lemma trees_size_push: "trees_size (if t = Leaf then ts else t # ts) = size t + trees_size ts"
  by (simp add: trees_size_def)

lemma concat_push_tree: "f Leaf = [] \<Longrightarrow> concat (map f (if t = Leaf then ts else t # ts)) = f t @ concat (map f ts)"
  by simp

lemma PreorderTraversal_loop_ok:
  "stack_trees s stk ts \<Longrightarrow>
   PreorderTraversal_loop s stk ret = Some (ret @ concat (map (\<lambda>t. map snd (preorder t)) ts))"
proof (induction "trees_size ts" arbitrary: stk ts ret rule: less_induct)
  case less
  show ?case
  proof (cases stk)
    case Nil
    then show ?thesis using less(2) by (subst PreorderTraversal_loop.simps) (simp add: stack_trees_def)
  next
    case (Cons a rest)
    obtain l v r ts' pl pr where t: "ts = Node l (a, v) r # ts'" "s a = Some \<lparr>tval = v, tleft = pl, tright = pr\<rparr>"
      "seg s pl l None" "seg s pr r None" "stack_trees s rest ts'" using less(2) Cons by (auto elim: stack_trees_Cons)
    let ?R = "if r = Leaf then ts' else r # ts'"
    let ?T = "if l = Leaf then ?R else l # ?R"
    have st: "stack_trees s (push_ptr pl (push_ptr pr rest)) ?T"
      using t(3-5) by (intro stack_trees_push)
    have "trees_size ?T < trees_size ts" unfolding trees_size_push t(1) by (simp add: trees_size_def)
    from less(1) [OF this st, of "ret @ [v]"]
    have "PreorderTraversal_loop s (push_ptr pl (push_ptr pr rest)) (ret @ [v]) =
        Some ((ret @ [v]) @ concat (map (\<lambda>t. map snd (preorder t)) ?T))" .
    then show ?thesis using Cons t(1,2) by (subst PreorderTraversal_loop.simps) simp
  qed
qed

lemma PostorderTraversal_loop_ok:
  "stack_trees s stk ts \<Longrightarrow>
   PostorderTraversal_loop s stk ret = Some (ret @ concat (map (\<lambda>t. rev (map snd (postorder t))) ts))"
proof (induction "trees_size ts" arbitrary: stk ts ret rule: less_induct)
  case less
  show ?case
  proof (cases stk)
    case Nil
    then show ?thesis using less(2) by (subst PostorderTraversal_loop.simps) (simp add: stack_trees_def)
  next
    case (Cons a rest)
    obtain l v r ts' pl pr where t: "ts = Node l (a, v) r # ts'" "s a = Some \<lparr>tval = v, tleft = pl, tright = pr\<rparr>"
      "seg s pl l None" "seg s pr r None" "stack_trees s rest ts'" using less(2) Cons by (auto elim: stack_trees_Cons)
    let ?L = "if l = Leaf then ts' else l # ts'"
    let ?T = "if r = Leaf then ?L else r # ?L"
    have st: "stack_trees s (push_ptr pr (push_ptr pl rest)) ?T"
      using t(3-5) by (intro stack_trees_push)
    have "trees_size ?T < trees_size ts" unfolding trees_size_push t(1) by (simp add: trees_size_def)
    from less(1) [OF this st, of "ret @ [v]"]
    have "PostorderTraversal_loop s (push_ptr pr (push_ptr pl rest)) (ret @ [v]) =
        Some ((ret @ [v]) @ concat (map (\<lambda>t. rev (map snd (postorder t))) ?T))" .
    then show ?thesis using Cons t(1,2) by (subst PostorderTraversal_loop.simps) simp
  qed
qed

text \<open>
  The four traversals of a tree in memory return, list the values in the order of the reference
  definitions and leave the store as it was.
\<close>

lemma Tree_traversals:
  assumes "seg s (Some root_addr) t None" and "apart_tree t"
  shows "InorderTraversal s = Some (map snd (inorder t))" and "InorderTraversalMorris s = Some (s, map snd (inorder t))"
    and "PreorderTraversal s = Some (map snd (preorder t))" and "PostorderTraversal s = Some (map snd (postorder t))"
    and "IsBinarySearchTree s = Some (s, sorted (map snd (inorder t)))"
proof -
  have nL: "t \<noteq> Leaf" using assms(1) by auto
  then have st: "stack_trees s [root_addr] [t]" using assms(1) by (simp add: stack_trees_def)
  have "InorderTraversal_loop s None [] ret = Some ret" for ret
    by (subst InorderTraversal_loop.simps, subst push_lefts.simps) simp
  then show "InorderTraversal s = Some (map snd (inorder t))"
    using InorderTraversal_loop_ok [OF assms(1), of "[]" "[]"] by (simp add: InorderTraversal_def)
  show m: "InorderTraversalMorris s = Some (s, map snd (inorder t))"
    using morris_loop_ok [OF assms, of "[]"] by (simp add: InorderTraversalMorris_def morris_loop.simps)
  show "PreorderTraversal s = Some (map snd (preorder t))"
    using PreorderTraversal_loop_ok [OF st] by (simp add: PreorderTraversal_def)
  show "PostorderTraversal s = Some (map snd (postorder t))"
    using PostorderTraversal_loop_ok [OF st] by (simp add: PostorderTraversal_def)
  show "IsBinarySearchTree s = Some (s, sorted (map snd (inorder t)))" using m by (simp add: IsBinarySearchTree_def)
qed

lemma Init_example:
  "\<exists>s. Init [1, 2, 3, 0, 0, 4, 5] Tree = Some s \<and>
     seg (hstore s) (Some root_addr) (Node (Node Leaf (1, 2) Leaf) (0, 1) (Node (Node Leaf (3, 4) Leaf) (2, 3) (Node Leaf (4, 5) Leaf))) None"
  by (simp add: Init_def Tree_def init_loop.simps attach_def new_node_def set_left_def set_right_def vget_def Let_def)

end
