(* ===== verification/ArraySearch.thy ===== *)
theory ArraySearch
  imports Complex_Main Prelude
begin

section \<open>Rotated arrays (leetcode/divideANDconquer: searchRotatedArray.cc, minRotatedArray.cc)\<close>

text \<open>
  Indices are of type \<open>int\<close>, as in the code; a negative one or one behind the end is undefined.
\<close>

definition iget :: "'a list \<Rightarrow> int \<Rightarrow> 'a option" where
  "iget xs i = (if 0 \<le> i then vget xs (nat i) else None)"

lemma iget_ok: "0 \<le> i \<Longrightarrow> i < int (length xs) \<Longrightarrow> iget xs i = Some (xs ! nat i)"
  by (simp add: iget_def vget_def nat_less_iff)

partial_function (option) search_loop :: "int list \<Rightarrow> int \<Rightarrow> int \<Rightarrow> int \<Rightarrow> int option" where
  "search_loop nums target left right =
     (if left \<le> right then do {
        let mid = cdiv (left + right) 2;
        m \<leftarrow> iget nums mid;
        if m = target then Some mid
        else do {
          r \<leftarrow> iget nums right;
          l \<leftarrow> iget nums left;
          if m > r then
            (if target \<ge> l \<and> target < m then search_loop nums target left (mid - 1) else search_loop nums target (mid + 1) right)
          else if m < l then
            (if target > m \<and> target \<le> r then search_loop nums target (mid + 1) right else search_loop nums target left (mid - 1))
          else if target < m then search_loop nums target left (mid - 1)
          else search_loop nums target (mid + 1) right } }
      else Some (-1))"

definition search_rotated :: "int list \<Rightarrow> int \<Rightarrow> int option" where
  "search_rotated nums target = search_loop nums target 0 (int (length nums) - 1)"

partial_function (option) find_min :: "int list \<Rightarrow> int \<Rightarrow> int \<Rightarrow> int option" where
  "find_min nums l r = do {
     a \<leftarrow> iget nums l;
     b \<leftarrow> iget nums r;
     if l + 1 \<ge> r then Some (min a b)
     else if a < b then Some a
     else do {
       let mid = l + cdiv (r - l) 2;
       x \<leftarrow> find_min nums l (mid - 1);
       y \<leftarrow> find_min nums mid r;
       Some (min x y) } }"

definition findMin :: "int list \<Rightarrow> int option" where
  "findMin nums = find_min nums 0 (int (length nums) - 1)"

subsection \<open>Windows of a rotated array\<close>

text \<open>Between \<open>l\<close> and \<open>r\<close> the elements ascend up to \<open>p\<close>, and again from \<open>p\<close> on below the first part.\<close>

definition rotated :: "int list \<Rightarrow> int \<Rightarrow> int \<Rightarrow> int \<Rightarrow> bool" where
  "rotated xs l r p \<longleftrightarrow> 0 \<le> l \<and> r < int (length xs) \<and>
     (\<forall>i j. l \<le> i \<and> i < j \<and> j < p \<and> j \<le> r \<longrightarrow> xs ! nat i < xs ! nat j) \<and>
     (\<forall>i j. p \<le> i \<and> l \<le> i \<and> i < j \<and> j \<le> r \<longrightarrow> xs ! nat i < xs ! nat j) \<and>
     (\<forall>i j. l \<le> i \<and> i < p \<and> p \<le> j \<and> j \<le> r \<longrightarrow> xs ! nat j < xs ! nat i)"

definition window :: "int list \<Rightarrow> int \<Rightarrow> int \<Rightarrow> int set" where
  "window xs l r = (\<lambda>i. xs ! nat i) ` {l..r}"

lemma rotated_sub: "rotated xs l r p \<Longrightarrow> l \<le> l' \<Longrightarrow> r' \<le> r \<Longrightarrow> rotated xs l' r' p"
  unfolding rotated_def by auto

lemma rotated_rotate:
  assumes "sorted_wrt (<) xs" and "k \<le> length xs"
  shows "rotated (drop k xs @ take k xs) 0 (int (length xs) - 1) (int (length xs - k))"
proof -
  let ?ys = "drop k xs @ take k xs"
  have n: "?ys ! nat i = (if i < int (length xs - k) then xs ! (k + nat i) else xs ! (nat i - (length xs - k)))"
    if "0 \<le> i" "i < int (length xs)" for i
    using that assms(2) by (auto simp: nth_append nat_less_iff less_diff_conv)
  have lt: "xs ! a < xs ! b" if "a < b" "b < length xs" for a b
    using that assms(1) by (simp add: sorted_wrt_nth_less)
  show ?thesis unfolding rotated_def
  proof (intro conjI allI impI)
    fix i j :: int assume "0 \<le> i \<and> i < j \<and> j < int (length xs - k) \<and> j \<le> int (length xs) - 1"
    then show "?ys ! nat i < ?ys ! nat j" using n [of i] n [of j] lt [of "k + nat i" "k + nat j"] by auto
  next
    fix i j :: int assume "int (length xs - k) \<le> i \<and> 0 \<le> i \<and> i < j \<and> j \<le> int (length xs) - 1"
    then show "?ys ! nat i < ?ys ! nat j"
      using n [of i] n [of j] lt [of "nat i - (length xs - k)" "nat j - (length xs - k)"]
      by (simp add: diff_less_mono nat_less_eq_zless) linarith
  next
    fix i j :: int assume "0 \<le> i \<and> i < int (length xs - k) \<and> int (length xs - k) \<le> j \<and> j \<le> int (length xs) - 1"
    then show "?ys ! nat j < ?ys ! nat i"
      using n [of i] n [of j] lt [of "nat j - (length xs - k)" "k + nat i"] assms(2) by auto
  qed simp_all
qed

lemma window_all: "window xs 0 (int (length xs) - 1) = set xs"
proof -
  have "set xs = (\<lambda>i. xs ! i) ` {0..<length xs}" by (auto simp: set_conv_nth)
  also have "{0..<length xs} = nat ` {0..int (length xs) - 1}"
    by (auto simp: image_iff intro!: bexI [of _ "int _"])
  finally show ?thesis by (simp add: window_def image_image)
qed

lemma window_cut_high:
  assumes "\<And>i. m \<le> i \<Longrightarrow> i \<le> r \<Longrightarrow> xs ! nat i \<noteq> t" and "m \<le> r" and "l \<le> m"
  shows "t \<in> window xs l (m - 1) \<longleftrightarrow> t \<in> window xs l r"
proof -
  have "{l..r} = {l..m - 1} \<union> {m..r}" using assms(2,3) by auto
  moreover have "t \<notin> (\<lambda>i. xs ! nat i) ` {m..r}"
  proof
    assume "t \<in> (\<lambda>i. xs ! nat i) ` {m..r}"
    then obtain i where "t = xs ! nat i" "m \<le> i" "i \<le> r" by auto
    then show False using assms(1) [of i] by simp
  qed
  ultimately show ?thesis by (simp add: window_def image_Un)
qed

lemma window_cut_low:
  assumes "\<And>i. l \<le> i \<Longrightarrow> i \<le> m \<Longrightarrow> xs ! nat i \<noteq> t" and "m \<le> r" and "l \<le> m"
  shows "t \<in> window xs (m + 1) r \<longleftrightarrow> t \<in> window xs l r"
proof -
  have "{l..r} = {l..m} \<union> {m + 1..r}" using assms(2,3) by auto
  moreover have "t \<notin> (\<lambda>i. xs ! nat i) ` {l..m}"
  proof
    assume "t \<in> (\<lambda>i. xs ! nat i) ` {l..m}"
    then obtain i where "t = xs ! nat i" "l \<le> i" "i \<le> m" by auto
    then show False using assms(1) [of i] by simp
  qed
  ultimately show ?thesis by (simp add: window_def image_Un)
qed

lemma mid_bounds: "l \<le> r \<Longrightarrow> 0 \<le> l \<Longrightarrow> cdiv (l + r) 2 = (l + r) div 2 \<and> l \<le> (l + r) div 2 \<and> (l + r) div 2 \<le> r"
  unfolding cdiv_nonneg [of "l + r" 2] by (simp add: cdiv_nonneg) linarith

text \<open>Every round keeps the target in the window if it was there.\<close>

lemma search_loop_ok:
  "rotated xs l r p \<Longrightarrow> \<exists>i. search_loop xs t l r = Some i \<and>
     (if t \<in> window xs l r then l \<le> i \<and> i \<le> r \<and> xs ! nat i = t else i = -1)"
proof (induction "nat (r + 1 - l)" arbitrary: l r rule: less_induct)
  case less
  show ?case
  proof (cases "l \<le> r")
    case False
    then show ?thesis by (subst search_loop.simps) (simp add: window_def)
  next
    case True
    have b: "0 \<le> l" "r < int (length xs)" using less(2) by (auto simp: rotated_def)
    define m where "m = (l + r) div 2"
    have m: "cdiv (l + r) 2 = m" "l \<le> m" "m \<le> r" using mid_bounds [OF True b(1)] by (auto simp: m_def)
    let ?a = "\<lambda>i. xs ! nat i"
    have get: "iget xs m = Some (?a m)" "iget xs l = Some (?a l)" "iget xs r = Some (?a r)"
      using b m True by (auto intro!: iget_ok)
    have mono1: "?a i < ?a j" if "l \<le> i" "i < j" "j < p" "j \<le> r" for i j using less(2) that by (auto simp: rotated_def)
    have mono2: "?a i < ?a j" if "p \<le> i" "l \<le> i" "i < j" "j \<le> r" for i j using less(2) that by (auto simp: rotated_def)
    have fall: "?a j < ?a i" if "l \<le> i" "i < p" "p \<le> j" "j \<le> r" for i j using less(2) that by (auto simp: rotated_def)
    have w: "t \<in> window xs x y \<longleftrightarrow> (\<exists>i. x \<le> i \<and> i \<le> y \<and> ?a i = t)" for x y by (auto simp: window_def)
    have low: "\<exists>i. search_loop xs t l (m - 1) = Some i \<and>
        (if t \<in> window xs l r then l \<le> i \<and> i \<le> r \<and> ?a i = t else i = -1)"
      if "\<And>i. m \<le> i \<Longrightarrow> i \<le> r \<Longrightarrow> ?a i \<noteq> t"
    proof -
      have "rotated xs l (m - 1) p" using less(2) m by (auto intro: rotated_sub)
      moreover have "t \<in> window xs l (m - 1) \<longleftrightarrow> t \<in> window xs l r" using window_cut_high [OF that m(3,2)] .
      ultimately show ?thesis using less(1) [of "m - 1" l] m(2,3) True by (fastforce split: if_splits)
    qed
    have high: "\<exists>i. search_loop xs t (m + 1) r = Some i \<and>
        (if t \<in> window xs l r then l \<le> i \<and> i \<le> r \<and> ?a i = t else i = -1)"
      if "\<And>i. l \<le> i \<Longrightarrow> i \<le> m \<Longrightarrow> ?a i \<noteq> t"
    proof -
      have "rotated xs (m + 1) r p" using less(2) m by (auto intro: rotated_sub)
      moreover have "t \<in> window xs (m + 1) r \<longleftrightarrow> t \<in> window xs l r" using window_cut_low [OF that m(3,2)] .
      ultimately show ?thesis using less(1) [of r "m + 1"] m(2,3) True by (fastforce split: if_splits)
    qed
    show ?thesis
    proof (cases "?a m = t")
      case True
      then have "search_loop xs t l r = Some m" using \<open>l \<le> r\<close> m(1) get(1) by (subst search_loop.simps) (simp add: Let_def)
      then show ?thesis using True m w by auto
    next
      case ne: False
      note step = search_loop.simps [of xs t l r]
      consider (right) "?a r < ?a m" | (left) "?a m \<le> ?a r" "?a m < ?a l" | (none) "?a m \<le> ?a r" "?a l \<le> ?a m" by linarith
      then show ?thesis
      proof cases
        case right
        then have mr: "m < r" using m(3) by (cases "m = r") auto
        have p: "m < p" "p \<le> r" using mono2 [of m r] mono1 [of m r] right m mr by (simp_all add: not_le [symmetric]) force+
        show ?thesis
        proof (cases "t \<ge> ?a l \<and> t < ?a m")
          case c: True
          have "?a i \<noteq> t" if i: "m \<le> i" "i \<le> r" for i
          proof (cases "i < p")
            case True
            then show ?thesis using mono1 [of m i] i m c by (cases "m = i") auto
          next
            case False
            then show ?thesis using fall [of l i] i m p c by auto
          qed
          from low [OF this] show ?thesis using step True m(1) get ne right c by (simp add: Let_def)
        next
          case c: False
          have "?a i \<noteq> t" if i: "l \<le> i" "i \<le> m" for i
            using mono1 [of l i] mono1 [of i m] i m p c ne by (cases "i = m"; cases "i = l") auto
          from high [OF this] show ?thesis using step True m(1) get ne right c by (simp add: Let_def)
        qed
      next
        case left
        then have lm: "l < m" using m(2) by (cases "l = m") auto
        have p: "p \<le> m" "l < p" using mono1 [of l m] mono2 [of l m] left m lm by (simp_all add: not_le [symmetric]) force+
        show ?thesis
        proof (cases "t > ?a m \<and> t \<le> ?a r")
          case c: True
          have "?a i \<noteq> t" if i: "l \<le> i" "i \<le> m" for i
          proof (cases "i < p")
            case True
            then show ?thesis using fall [of i r] i m p c by auto
          next
            case False
            then show ?thesis using mono2 [of i m] i m c by (cases "i = m") auto
          qed
          from high [OF this] show ?thesis using step True m(1) get ne left c by (simp add: Let_def)
        next
          case c: False
          have "?a i \<noteq> t" if i: "m \<le> i" "i \<le> r" for i
            using mono2 [of m i] mono2 [of i r] i m p c ne by (cases "i = m"; cases "i = r") auto
          from low [OF this] show ?thesis using step True m(1) get ne left c by (simp add: Let_def)
        qed
      next
        case none
        have flat: "p \<le> l \<or> r < p"
        proof (rule ccontr)
          assume "\<not> (p \<le> l \<or> r < p)"
          then show False using fall [of m r] fall [of l m] none m by (cases "m < p") auto
        qed
        have up: "?a i < ?a j" if "l \<le> i" "i < j" "j \<le> r" for i j
          using flat mono1 [of i j] mono2 [of i j] that by auto
        show ?thesis
        proof (cases "t < ?a m")
          case c: True
          have "?a i \<noteq> t" if "m \<le> i" "i \<le> r" for i using up [of m i] that m c by (cases "m = i") auto
          from low [OF this] show ?thesis using step True m(1) get ne none c by (simp add: Let_def)
        next
          case c: False
          have "?a i \<noteq> t" if "l \<le> i" "i \<le> m" for i using up [of i m] that m c ne by (cases "m = i") auto
          from high [OF this] show ?thesis using step True m(1) get ne none c by (simp add: Let_def)
        qed
      qed
    qed
  qed
qed

lemma find_min_ok: "rotated xs l r p \<Longrightarrow> l \<le> r \<Longrightarrow> find_min xs l r = Some (Min (window xs l r))"
proof (induction "nat (r - l)" arbitrary: l r rule: less_induct)
  case less
  let ?a = "\<lambda>i. xs ! nat i"
  have b: "0 \<le> l" "r < int (length xs)" using less(2) by (auto simp: rotated_def)
  then have get: "iget xs l = Some (?a l)" "iget xs r = Some (?a r)" using less(3) by (auto intro!: iget_ok)
  have fin: "finite (window xs x y)" for x y by (simp add: window_def)
  consider (short) "l + 1 \<ge> r" | (asc) "l + 1 < r" "?a l < ?a r" | (split) "l + 1 < r" "?a r \<le> ?a l" by linarith
  then show ?case
  proof cases
    case short
    then have "{l..r} = {l, r}" using less(3) by auto
    then have "window xs l r = {?a l, ?a r}" by (simp add: window_def)
    then show ?thesis using short get by (subst find_min.simps) simp
  next
    case asc
    have flat: "p \<le> l \<or> r < p" using less(2) asc unfolding rotated_def by (metis less_asym linorder_not_less order_refl less.prems(2))
    have "?a l \<le> ?a i" if "l \<le> i" "i \<le> r" for i
      using flat less(2) that unfolding rotated_def by (cases "i = l") (force simp: less_imp_le)+
    then have "Min (window xs l r) = ?a l" using fin less(3) by (intro Min_eqI) (auto simp: window_def)
    then show ?thesis using asc get by (subst find_min.simps) simp
  next
    case split
    define m where "m = l + (r - l) div 2"
    have m: "l + cdiv (r - l) 2 = m" "l \<le> m - 1" "m \<le> r" "m - 1 < r" "l < m" using split(1) by (auto simp: m_def cdiv_nonneg)
    have "find_min xs l (m - 1) = Some (Min (window xs l (m - 1)))" "find_min xs m r = Some (Min (window xs m r))"
      using less(1) [OF _ rotated_sub [OF less(2)]] m by auto
    moreover have "{l..r} = {l..m - 1} \<union> {m..r}" using m by auto
    then have "Min (window xs l r) = min (Min (window xs l (m - 1))) (Min (window xs m r))"
      using Min_Un [of "window xs l (m - 1)" "window xs m r"] m fin by (simp add: window_def image_Un)
    ultimately show ?thesis using split get m(1) by (subst find_min.simps) (simp add: Let_def)
  qed
qed

text \<open>
  In an ascending array without duplicates that was rotated by \<open>k\<close>, the search finds the target, or
  returns -1 if there is none, and \<open>findMin\<close> returns the least element. The empty array is undefined
  for \<open>findMin\<close>.
\<close>

theorem rotated_search_correct:
  assumes "sorted_wrt (<) xs" and "k \<le> length xs" and "nums = drop k xs @ take k xs"
  shows "\<exists>i. search_rotated nums target = Some i \<and>
    (if target \<in> set nums then 0 \<le> i \<and> i < int (length nums) \<and> nums ! nat i = target else i = -1)"
  using search_loop_ok [OF rotated_rotate [OF assms(1,2)], of target] assms(2) window_all [of nums]
  unfolding search_rotated_def assms(3) by (auto simp: window_def split: if_splits)

theorem findMin_correct:
  assumes "sorted_wrt (<) xs" and "k \<le> length xs" and "xs \<noteq> []"
  shows "findMin (drop k xs @ take k xs) = Some (Min (set xs))"
proof -
  have "set (drop k xs @ take k xs) = set xs" by (metis append_take_drop_id set_append Un_commute)
  moreover have "0 \<le> int (length xs) - 1" using assms(3) by (cases xs) auto
  moreover have "length (drop k xs @ take k xs) = length xs" using assms(2) by simp
  ultimately show ?thesis using find_min_ok [OF rotated_rotate [OF assms(1,2)]] window_all [of "drop k xs @ take k xs"]
    unfolding findMin_def by metis
qed

theorem findMin_empty: "findMin [] = None"
  unfolding findMin_def by (subst find_min.simps) (simp add: iget_def vget_def)

section \<open>Bounds in a sorted array (leetcode/other/firstAndLastPosition.cc)\<close>

text \<open>The library functions, on a range that is partitioned by the comparison.\<close>

definition lower_bound :: "int list \<Rightarrow> int \<Rightarrow> nat" where
  "lower_bound nums t = length (takeWhile (\<lambda>x. x < t) nums)"

definition upper_bound :: "int list \<Rightarrow> int \<Rightarrow> nat" where
  "upper_bound nums t = length (takeWhile (\<lambda>x. \<not> t < x) nums)"

definition searchRange :: "int list \<Rightarrow> int \<Rightarrow> int \<times> int" where
  "searchRange nums target = (let first = lower_bound nums target; last = upper_bound nums target in (int first, int last - 1))"

lemma takeWhile_sorted:
  "sorted xs \<Longrightarrow> (\<And>x y. P y \<Longrightarrow> x \<le> y \<Longrightarrow> P x) \<Longrightarrow> i < length xs \<Longrightarrow> i < length (takeWhile P xs) \<longleftrightarrow> P (xs ! i)"
proof (induction xs arbitrary: i)
  case (Cons x xs)
  then show ?case by (cases i) (auto intro: Cons(3) nth_mem)
qed simp

theorem searchRange_correct:
  assumes "sorted nums" and "i < length nums" and "searchRange nums target = (f, l)"
  shows "nums ! i = target \<longleftrightarrow> f \<le> int i \<and> int i \<le> l"
proof -
  have "i < lower_bound nums target \<longleftrightarrow> nums ! i < target" "i < upper_bound nums target \<longleftrightarrow> \<not> target < nums ! i"
    unfolding lower_bound_def upper_bound_def
    using takeWhile_sorted [of nums "\<lambda>x. x < target" i] takeWhile_sorted [of nums "\<lambda>x. \<not> target < x" i] assms(1,2)
    by auto
  then show ?thesis using assms(3) by (auto simp: searchRange_def Let_def)
qed

section \<open>Median of two sorted arrays (leetcode/other/medianTwoSortedArrays.cc)\<close>

text \<open>
  \<open>l\<close> and \<open>r\<close> are integers, \<open>k\<close>, \<open>m1\<close>, \<open>m2\<close> unsigned. The extreme values of \<open>int\<close> stand for missing
  neighbours. A \<open>double\<close> that halves a sum of two \<open>int\<close>s is exact: the result is a rational.
\<close>

abbreviation INT_MIN :: int where "INT_MIN \<equiv> - 2147483648"
abbreviation INT_MAX :: int where "INT_MAX \<equiv> 2147483647"

partial_function (option) median_loop :: "int list \<Rightarrow> int list \<Rightarrow> nat \<Rightarrow> nat \<Rightarrow> nat \<Rightarrow> nat option" where
  "median_loop nums1 nums2 k l r =
     (if l < r then do {
        let m1 = l + (r - l) div 2;
        let m2 = k - m1;
        a \<leftarrow> vget nums1 m1;
        b \<leftarrow> vget nums2 (m2 - 1);
        if a < b then median_loop nums1 nums2 k (m1 + 1) r else median_loop nums1 nums2 k l m1 }
      else Some l)"

definition median_of :: "int list \<Rightarrow> int list \<Rightarrow> rat option" where
  "median_of nums1 nums2 = do {
     let n1 = length nums1;
     let n2 = length nums2;
     let k = (n1 + n2 + 1) div 2;
     l \<leftarrow> median_loop nums1 nums2 k 0 n1;
     let m1 = l;
     let m2 = k - l;
     a1 \<leftarrow> (if m1 = 0 then Some INT_MIN else vget nums1 (m1 - 1));
     a2 \<leftarrow> (if m2 = 0 then Some INT_MIN else vget nums2 (m2 - 1));
     let c1 = max a1 a2;
     if (n1 + n2) mod 2 = 1 then Some (of_int c1)
     else do {
       b1 \<leftarrow> (if m1 \<ge> n1 then Some INT_MAX else vget nums1 m1);
       b2 \<leftarrow> (if m2 \<ge> n2 then Some INT_MAX else vget nums2 m2);
       let c2 = min b1 b2;
       Some (of_int (c1 + c2) / 2) } }"

definition findMedian :: "int list \<Rightarrow> int list \<Rightarrow> rat option" where
  "findMedian nums1 nums2 = (if length nums1 > length nums2 then median_of nums2 nums1 else median_of nums1 nums2)"

lemma median_loop_ok:
  assumes "length xs \<le> length ys" and k: "k = (length xs + length ys + 1) div 2"
  shows "l \<le> r \<Longrightarrow> r \<le> length xs \<Longrightarrow> (\<forall>i < l. xs ! i < ys ! (k - 1 - i)) \<Longrightarrow> (\<forall>i. r \<le> i \<and> i < length xs \<longrightarrow> ys ! (k - 1 - i) \<le> xs ! i) \<Longrightarrow>
    sorted xs \<Longrightarrow> sorted ys \<Longrightarrow>
    \<exists>m \<le> length xs. median_loop xs ys k l r = Some m \<and> (\<forall>i < m. xs ! i < ys ! (k - 1 - i)) \<and>
      (\<forall>i. m \<le> i \<and> i < length xs \<longrightarrow> ys ! (k - 1 - i) \<le> xs ! i)"
proof (induction "r - l" arbitrary: l r rule: less_induct)
  case less
  show ?case
  proof (cases "l < r")
    case False
    then have "l = r" using less(2) by simp
    then show ?thesis using less(3,4,5) by (subst median_loop.simps) auto
  next
    case True
    define m where "m = l + (r - l) div 2"
    have m: "l \<le> m" "m < r" "m < length xs" using True less(3) by (auto simp: m_def)
    have kb: "k \<le> length ys" "length xs \<le> k" using assms by auto
    have get: "vget xs m = Some (xs ! m)" "vget ys (k - m - 1) = Some (ys ! (k - 1 - m))"
      using m kb by (auto simp: vget_def)
    show ?thesis
    proof (cases "xs ! m < ys ! (k - 1 - m)")
      case c: True
      have "xs ! i < ys ! (k - 1 - i)" if "i < m + 1" for i
      proof -
        have "xs ! i \<le> xs ! m" using that m less(6) by (simp add: sorted_nth_mono)
        moreover have "ys ! (k - 1 - m) \<le> ys ! (k - 1 - i)" using that m kb less(7) by (intro sorted_nth_mono) auto
        ultimately show ?thesis using c by linarith
      qed
      then have "\<exists>m' \<le> length xs. median_loop xs ys k (m + 1) r = Some m' \<and> (\<forall>i < m'. xs ! i < ys ! (k - 1 - i)) \<and>
          (\<forall>i. m' \<le> i \<and> i < length xs \<longrightarrow> ys ! (k - 1 - i) \<le> xs ! i)"
        using less(1) [of r "m + 1"] less(3,5,6,7) m by auto
      then show ?thesis using True get c by (subst median_loop.simps) (simp add: m_def [symmetric] Let_def)
    next
      case c: False
      have "ys ! (k - 1 - i) \<le> xs ! i" if "m \<le> i" "i < length xs" for i
      proof -
        have "xs ! m \<le> xs ! i" using that less(6) by (simp add: sorted_nth_mono)
        moreover have "ys ! (k - 1 - i) \<le> ys ! (k - 1 - m)" using that m kb less(7) by (intro sorted_nth_mono) auto
        ultimately show ?thesis using c by linarith
      qed
      then have "\<exists>m' \<le> length xs. median_loop xs ys k l m = Some m' \<and> (\<forall>i < m'. xs ! i < ys ! (k - 1 - i)) \<and>
          (\<forall>i. m' \<le> i \<and> i < length xs \<longrightarrow> ys ! (k - 1 - i) \<le> xs ! i)"
        using less(1) [of m l] less(4,6,7) m by auto
      then show ?thesis using True get c by (subst median_loop.simps) (simp add: m_def [symmetric] Let_def)
    qed
  qed
qed

lemma sorted_last_Max: "sorted xs \<Longrightarrow> xs \<noteq> [] \<Longrightarrow> xs ! (length xs - 1) = Max (set xs)"
  by (intro Max_eqI [symmetric]) (auto simp: in_set_conv_nth intro: sorted_nth_mono exI [of _ "length xs - 1"])

lemma sorted_hd_Min: "sorted xs \<Longrightarrow> xs \<noteq> [] \<Longrightarrow> xs ! 0 = Min (set xs)"
  by (intro Min_eqI [symmetric]) (auto simp: in_set_conv_nth intro: sorted_nth_mono)

lemma sort_split: "(\<And>x y. x \<in> set L \<Longrightarrow> y \<in> set R \<Longrightarrow> x \<le> y) \<Longrightarrow> mset zs = mset L + mset R \<Longrightarrow> sort zs = sort L @ sort R"
  by (intro properties_for_sort) (auto simp: sorted_append)

lemma sorted_parts_nth:
  "sorted A \<Longrightarrow> A \<noteq> [] \<Longrightarrow> (A @ B) ! (length A - 1) = Max (set A)" "sorted B \<Longrightarrow> B \<noteq> [] \<Longrightarrow> (A @ B) ! length A = Min (set B)"
  using sorted_last_Max [of A] sorted_hd_Min [of B] by (simp_all add: nth_append)

lemma sort_nonempty: "xs \<noteq> [] \<Longrightarrow> sort xs \<noteq> []"
  by (metis set_empty set_sort)

text \<open>The parts left of the two cuts are below the parts right of them.\<close>

definition cut_ok :: "int list \<Rightarrow> int list \<Rightarrow> nat \<Rightarrow> nat \<Rightarrow> bool" where
  "cut_ok xs ys m1 m2 \<longleftrightarrow> m1 \<le> length xs \<and> m2 \<le> length ys \<and>
     (\<forall>x \<in> set (take m1 xs @ take m2 ys). \<forall>y \<in> set (drop m1 xs @ drop m2 ys). x \<le> y)"

lemma sorted_take_drop: "sorted xs \<Longrightarrow> x \<in> set (take m xs) \<Longrightarrow> y \<in> set (drop m xs) \<Longrightarrow> x \<le> y"
  by (metis append_take_drop_id sorted_append)

lemma cut_okI:
  assumes s: "sorted xs" "sorted ys" and m: "m1 \<le> length xs" "m2 \<le> length ys"
    and x: "0 < m1 \<Longrightarrow> m2 < length ys \<Longrightarrow> xs ! (m1 - 1) \<le> ys ! m2" and y: "0 < m2 \<Longrightarrow> m1 < length xs \<Longrightarrow> ys ! (m2 - 1) \<le> xs ! m1"
  shows "cut_ok xs ys m1 m2"
proof -
  have cross: "a \<le> b" if "sorted us" "sorted vs" "i \<le> length us" "0 < i \<Longrightarrow> j < length vs \<Longrightarrow> us ! (i - 1) \<le> vs ! j"
      "a \<in> set (take i us)" "b \<in> set (drop j vs)" for us vs :: "int list" and i j a b
  proof -
    note t = that
    obtain p where p: "p < i" "a = us ! p" using t(3,5) by (auto simp: in_set_conv_nth)
    obtain q where "q < length (drop j vs)" "drop j vs ! q = b" using t(6) by (metis in_set_conv_nth)
    then have q: "j + q < length vs" "b = vs ! (j + q)" by (auto simp: less_diff_conv add.commute)
    have "a \<le> us ! (i - 1)" using p t(1,3) by (auto intro: sorted_nth_mono)
    also have "\<dots> \<le> vs ! j" using t(4) p q by simp
    also have "\<dots> \<le> b" using q t(2) by (auto intro: sorted_nth_mono)
    finally show ?thesis .
  qed
  show ?thesis unfolding cut_ok_def
    using m sorted_take_drop [OF s(1)] sorted_take_drop [OF s(2)] cross [OF s m(1) x] cross [OF s(2,1) m(2) y] by auto
qed

lemma left_max:
  assumes "sorted xs" "sorted ys" "m1 \<le> length xs" "m2 \<le> length ys" "0 < m1 + m2" "\<forall>x \<in> set xs \<union> set ys. INT_MIN \<le> x"
  shows "max (if m1 = 0 then INT_MIN else xs ! (m1 - 1)) (if m2 = 0 then INT_MIN else ys ! (m2 - 1)) = Max (set (take m1 xs @ take m2 ys))"
proof -
  have m: "Max (set (take m zs)) = zs ! (m - 1)" if "sorted zs" "0 < m" "m \<le> length zs" for zs :: "int list" and m
    using sorted_last_Max [OF sorted_wrt_take [OF that(1)], of m] that(2,3) by (cases "zs = []") (auto simp: min_absorb2)
  have "INT_MIN \<le> xs ! (m1 - 1)" if "0 < m1" using that assms(3,6) by auto
  moreover have "INT_MIN \<le> ys ! (m2 - 1)" if "0 < m2" using that assms(4,6) by auto
  moreover have "xs \<noteq> []" if "0 < m1" using that assms(3) by auto
  moreover have "ys \<noteq> []" if "0 < m2" using that assms(4) by auto
  ultimately show ?thesis using assms(1-5) m [of xs m1] m [of ys m2]
    by (cases "m1 = 0"; cases "m2 = 0") (auto simp: Max_Un)
qed

lemma right_min:
  assumes "sorted xs" "sorted ys" "m1 < length xs \<or> m2 < length ys" "\<forall>x \<in> set xs \<union> set ys. x \<le> INT_MAX"
  shows "min (if m1 \<ge> length xs then INT_MAX else xs ! m1) (if m2 \<ge> length ys then INT_MAX else ys ! m2) = Min (set (drop m1 xs @ drop m2 ys))"
proof -
  have m: "Min (set (drop m zs)) = zs ! m" if "sorted zs" "m < length zs" for zs :: "int list" and m
    using sorted_hd_Min [OF sorted_wrt_drop [OF that(1)], of m] that(2) by auto
  have "xs ! m1 \<le> INT_MAX" if "m1 < length xs" using that assms(4) by auto
  moreover have "ys ! m2 \<le> INT_MAX" if "m2 < length ys" using that assms(4) by auto
  ultimately show ?thesis using assms(1-3) m [of xs m1] m [of ys m2]
    by (cases "m1 < length xs"; cases "m2 < length ys") (auto simp: Min_Un)
qed

definition median :: "int list \<Rightarrow> rat" where
  "median s = (if length s mod 2 = 1 then of_int (s ! (length s div 2)) else of_int (s ! (length s div 2 - 1) + s ! (length s div 2)) / 2)"

lemma median_of_ok:
  assumes s: "sorted xs" "sorted ys" and len: "length xs \<le> length ys" "xs @ ys \<noteq> []"
    and rng: "\<forall>x \<in> set xs \<union> set ys. INT_MIN \<le> x \<and> x \<le> INT_MAX"
  shows "median_of xs ys = Some (median (sort (xs @ ys)))"
proof -
  define k where "k = (length xs + length ys + 1) div 2"
  obtain m where m: "m \<le> length xs" "median_loop xs ys k 0 (length xs) = Some m" "\<forall>i < m. xs ! i < ys ! (k - 1 - i)"
    "\<forall>i. m \<le> i \<and> i < length xs \<longrightarrow> ys ! (k - 1 - i) \<le> xs ! i"
    using median_loop_ok [OF len(1) k_def, of 0 "length xs"] s by auto
  define m2 where "m2 = k - m"
  have kb: "k \<le> length ys" "length xs \<le> k" "0 < k" using len by (auto simp: k_def)
  have m2: "m2 \<le> length ys" "m + m2 = k" using kb m(1) by (auto simp: m2_def)
  let ?L = "take m xs @ take m2 ys" and ?R = "drop m xs @ drop m2 ys"
  have "cut_ok xs ys m m2"
  proof (rule cut_okI [OF s m(1) m2(1)])
    assume "0 < m" "m2 < length ys"
    then show "xs ! (m - 1) \<le> ys ! m2" using m(3) [rule_format, of "m - 1"] m2 by (simp add: m2_def)
  next
    assume "0 < m2" "m < length xs"
    then show "ys ! (m2 - 1) \<le> xs ! m" using m(4) [rule_format, of m] by (simp add: m2_def diff_commute)
  qed
  moreover have "mset xs = mset (take m xs) + mset (drop m xs)" "mset ys = mset (take m2 ys) + mset (drop m2 ys)"
    by (simp_all flip: mset_append)
  then have ms: "mset (xs @ ys) = mset ?L + mset ?R" by simp
  ultimately have "sort (xs @ ys) = sort ?L @ sort ?R"
    using ms by (intro sort_split) (auto simp: cut_ok_def)
  moreover have lenL: "length ?L = k" using m(1) m2 by simp
  moreover have "sort ?L \<noteq> []" using lenL kb(3) by (metis length_sort length_0_conv less_irrefl)
  ultimately have nth: "sort (xs @ ys) ! (k - 1) = Max (set ?L)" "?R \<noteq> [] \<Longrightarrow> sort (xs @ ys) ! k = Min (set ?R)"
    using sorted_parts_nth(1) [of "sort ?L" "sort ?R"] sorted_parts_nth(2) [of "sort ?R" "sort ?L"] sort_nonempty [of ?R]
    by (simp_all only: length_sort set_sort sorted_sort simp_thms not_False_eq_True True_implies_equals)
  have c1: "max (if m = 0 then INT_MIN else xs ! (m - 1)) (if m2 = 0 then INT_MIN else ys ! (m2 - 1)) = sort (xs @ ys) ! (k - 1)"
    unfolding nth(1) using left_max [OF s m(1) m2(1)] m2 kb rng by simp
  have a1: "(if m = 0 then Some INT_MIN else vget xs (m - 1)) = Some (if m = 0 then INT_MIN else xs ! (m - 1))"
    "(if m2 = 0 then Some INT_MIN else vget ys (m2 - 1)) = Some (if m2 = 0 then INT_MIN else ys ! (m2 - 1))"
    using m(1) m2(1) by (auto simp: vget_def)
  have b1: "(if m \<ge> length xs then Some INT_MAX else vget xs m) = Some (if m \<ge> length xs then INT_MAX else xs ! m)"
    "(if m2 \<ge> length ys then Some INT_MAX else vget ys m2) = Some (if m2 \<ge> length ys then INT_MAX else ys ! m2)"
    by (auto simp: vget_def)
  show ?thesis
  proof (cases "(length xs + length ys) mod 2 = 1")
    case True
    then have "(length xs + length ys) div 2 = k - 1" unfolding k_def by presburger
    then show ?thesis using True
      by (simp only: median_of_def Let_def k_def [symmetric] m2_def [symmetric] median_def m(2) Option.bind_lunit a1 c1 refl if_True length_sort length_append)
  next
    case False
    then have kk: "(length xs + length ys) div 2 = k" unfolding k_def by presburger
    then have "k < length xs + length ys" using kb(3) by linarith
    then have right: "m < length xs \<or> m2 < length ys" "?R \<noteq> []" using m2(2) by auto
    have "min (if m \<ge> length xs then INT_MAX else xs ! m) (if m2 \<ge> length ys then INT_MAX else ys ! m2) = sort (xs @ ys) ! k"
      unfolding nth(2) [OF right(2)] using right_min [OF s right(1)] rng by simp
    then show ?thesis using False
      by (simp only: median_of_def Let_def k_def [symmetric] m2_def [symmetric] median_def m(2) Option.bind_lunit a1 b1 c1 kk refl if_False length_sort length_append)
  qed
qed

text \<open>The median of two sorted arrays of \<open>int\<close>s that are not both empty is that of their merge.\<close>

theorem findMedian_correct:
  assumes "sorted nums1" and "sorted nums2" and "nums1 @ nums2 \<noteq> []" and "\<forall>x \<in> set nums1 \<union> set nums2. INT_MIN \<le> x \<and> x \<le> INT_MAX"
  shows "findMedian nums1 nums2 = Some (median (sort (nums1 @ nums2)))"
proof -
  have "sort (nums2 @ nums1) = sort (nums1 @ nums2)" by (intro properties_for_sort) simp_all
  moreover have "\<forall>x \<in> set nums2 \<union> set nums1. INT_MIN \<le> x \<and> x \<le> INT_MAX" using assms(4) by blast
  ultimately show ?thesis using median_of_ok [of nums1 nums2] median_of_ok [of nums2 nums1] assms by (auto simp: findMedian_def)
qed

text \<open>Two empty arrays have the median of the two sentinels.\<close>

theorem findMedian_empty: "findMedian [] [] = Some (- 1 / 2)"
  by (simp add: findMedian_def median_of_def median_loop.simps)

theorem ArraySearch_witness:
  "(\<exists>i. search_rotated [4, 5, 6, 7, 0, 1, 2] 0 = Some i \<and> [4, 5, 6, 7, 0, 1, 2 :: int] ! nat i = 0) \<and>
   findMin [4, 5, 6, 7, 0, 1, 2] = Some 0 \<and> findMedian [2, 3, 7] [1, 2, 4, 11, 110] = Some (7 / 2)"
proof (intro conjI)
  show "\<exists>i. search_rotated [4, 5, 6, 7, 0, 1, 2] 0 = Some i \<and> [4, 5, 6, 7, 0, 1, 2 :: int] ! nat i = 0"
    using rotated_search_correct [of "[0, 1, 2, 4, 5, 6, 7]" 3 "[4, 5, 6, 7, 0, 1, 2]" 0] by auto
  show "findMin [4, 5, 6, 7, 0, 1, 2] = Some 0" using findMin_correct [of "[0, 1, 2, 4, 5, 6, 7]" 3] by simp
  show "findMedian [2, 3, 7] [1, 2, 4, 11, 110] = Some (7 / 2)"
    using findMedian_correct [of "[2, 3, 7]" "[1, 2, 4, 11, 110]"] by (simp add: median_def)
qed

end
