(* ===== verification/Rio.thy ===== *)
theory Rio
  imports Prelude
begin

section \<open>Robust input and output (tiny/csapp.c, the Rio package)\<close>

text \<open>
  The reads and writes of one descriptor. A \<open>net\<close> holds what the kernel will answer: for every
  \<open>read\<close> a chunk that has arrived, an interruption or a failure (no more answers mean that the
  peer has closed), and for every \<open>write\<close> how many bytes it takes. The theorems say that
  the Rio routines hide how the bytes were cut into chunks and where a signal interrupted: a
  reader sees one sequence of bytes, \<open>pending\<close>.
\<close>

subsection \<open>The kernel's side\<close>

datatype rd = Chunk "char list" | Intr | Fail
datatype wr = Wrote nat | WIntr | WFail

record net =
  wire :: "rd list"
  room :: "wr list"
  sent :: "char list"
  errno :: int

definition EINTR :: int where "EINTR = 4"
definition EIO :: int where "EIO = 5"

text \<open>\<open>read\<close> and \<open>write\<close>; \<open>None\<close> is the result -1.\<close>

definition sys_read :: "nat \<Rightarrow> net \<Rightarrow> char list option \<times> net" where
  "sys_read k w = (case wire w of
     [] \<Rightarrow> (Some [], w)
   | Chunk bs # r \<Rightarrow> (Some (take k bs), w\<lparr>wire := (if length bs \<le> k then r else Chunk (drop k bs) # r)\<rparr>)
   | Intr # r \<Rightarrow> (None, w\<lparr>wire := r, errno := EINTR\<rparr>)
   | Fail # r \<Rightarrow> (None, w\<lparr>wire := r, errno := EIO\<rparr>))"

definition sys_write :: "char list \<Rightarrow> net \<Rightarrow> nat option \<times> net" where
  "sys_write bs w = (case room w of
     [] \<Rightarrow> (Some (length bs), w\<lparr>sent := sent w @ bs\<rparr>)
   | Wrote m # r \<Rightarrow> (Some (min m (length bs)), w\<lparr>room := r, sent := sent w @ take m bs\<rparr>)
   | WIntr # r \<Rightarrow> (None, w\<lparr>room := r, errno := EINTR\<rparr>)
   | WFail # r \<Rightarrow> (None, w\<lparr>room := r, errno := EIO\<rparr>))"

lemma sys_read_shrinks:
  "(x, w') = sys_read k w \<Longrightarrow> length (wire w') \<le> length (wire w)"
  "(None, w') = sys_read k w \<Longrightarrow> length (wire w') < length (wire w)"
  by (auto simp: sys_read_def split: list.splits rd.splits if_splits)

lemma sys_write_shrinks:
  "(x, w') = sys_write bs w \<Longrightarrow> length (room w') \<le> length (room w)"
  "(None, w') = sys_write bs w \<Longrightarrow> length (room w') < length (room w)"
  "(Some 0, w') = sys_write bs w \<Longrightarrow> bs \<noteq> [] \<Longrightarrow> length (room w') < length (room w)"
  by (auto simp: sys_write_def split: list.splits wr.splits)

lemma read_measure:
  assumes "(x, w') = sys_read k w" and "x = Some bs" and "bs \<noteq> []" and "k \<noteq> 0"
  shows "k - length bs + length (wire w') < k + length (wire w)"
proof -
  have "0 < length bs" using assms(3) by simp
  then have "k - length bs < k" using assms(4) by linarith
  then show ?thesis using sys_read_shrinks(1) [OF assms(1)] by linarith
qed

lemma write_measure:
  assumes "(x, w') = sys_write bs w" and "bs \<noteq> []"
  shows "length bs - Suc m + length (room w') < length bs + length (room w)"
proof -
  have "length bs - Suc m < length bs" using assms(2) by (cases bs) auto
  then show ?thesis using sys_write_shrinks(1) [OF assms(1)] by linarith
qed

text \<open>Bytes stored at an offset of an array.\<close>

definition blit :: "'a list \<Rightarrow> nat \<Rightarrow> 'a list \<Rightarrow> 'a list option" where
  "blit buf off bs = (if off + length bs \<le> length buf then Some (take off buf @ bs @ drop (off + length bs) buf) else None)"

subsection \<open>Unbuffered\<close>

function rio_readn_loop :: "nat \<Rightarrow> char list \<Rightarrow> nat \<Rightarrow> nat \<Rightarrow> net \<Rightarrow> (int \<times> char list \<times> net) option" where
  "rio_readn_loop n buf bufp nleft w = (
     if nleft = 0 then Some (int (n - nleft), buf, w)
     else case sys_read nleft w of
       (None, w') \<Rightarrow> if errno w' = EINTR then rio_readn_loop n buf bufp nleft w' else Some (-1, buf, w')
     | (Some bs, w') \<Rightarrow>
         if bs = [] then Some (int (n - nleft), buf, w')
         else (case blit buf bufp bs of
             None \<Rightarrow> None
           | Some buf' \<Rightarrow> rio_readn_loop n buf' (bufp + length bs) (nleft - length bs) w'))"
  by pat_completeness auto
termination
  by (relation "measure (\<lambda>(n, buf, bufp, nleft, w). nleft + length (wire w))")
    (auto dest: sys_read_shrinks(2) simp: read_measure)

definition rio_readn :: "char list \<Rightarrow> nat \<Rightarrow> net \<Rightarrow> (int \<times> char list \<times> net) option" where
  "rio_readn usrbuf n w = rio_readn_loop n usrbuf 0 n w"

text \<open>A write that takes no byte leaves \<open>errno\<close> as it was, and the loop looks at it.\<close>

function rio_writen_loop :: "nat \<Rightarrow> char list \<Rightarrow> net \<Rightarrow> int \<times> net" where
  "rio_writen_loop n rest w = (
     if rest = [] then (int n, w)
     else case sys_write rest w of
       (None, w') \<Rightarrow> if errno w' = EINTR then rio_writen_loop n rest w' else (-1, w')
     | (Some 0, w') \<Rightarrow> if errno w' = EINTR then rio_writen_loop n rest w' else (-1, w')
     | (Some (Suc m), w') \<Rightarrow> rio_writen_loop n (drop (Suc m) rest) w')"
  by pat_completeness auto
termination
  by (relation "measure (\<lambda>(n, rest, w). length rest + length (room w))")
    (auto dest: sys_write_shrinks(2,3) simp: write_measure)

definition rio_writen :: "char list \<Rightarrow> net \<Rightarrow> int \<times> net" where
  "rio_writen usrbuf w = rio_writen_loop (length usrbuf) usrbuf w"

declare rio_readn_loop.simps [simp del] rio_writen_loop.simps [simp del]

subsection \<open>Buffered\<close>

definition RIO_BUFSIZE :: nat where "RIO_BUFSIZE = 8192"

record rio_t =
  rio_fd :: int
  rio_cnt :: int
  rio_bufptr :: nat
  rio_buf :: "char list"

definition rio_readinitb :: "rio_t \<Rightarrow> int \<Rightarrow> rio_t" where
  "rio_readinitb rp f = rp\<lparr>rio_fd := f, rio_cnt := 0, rio_bufptr := 0\<rparr>"

text \<open>The loop of \<open>rio_read\<close>: 1 when bytes are there, 0 at the end, -1 on an error.\<close>

function rio_refill :: "rio_t \<Rightarrow> net \<Rightarrow> int \<times> rio_t \<times> net" where
  "rio_refill rp w = (
     if rio_cnt rp \<le> 0 then (case sys_read RIO_BUFSIZE w of
         (None, w') \<Rightarrow>
           if errno w' \<noteq> EINTR then (-1, rp\<lparr>rio_cnt := -1\<rparr>, w') else rio_refill (rp\<lparr>rio_cnt := -1\<rparr>) w'
       | (Some bs, w') \<Rightarrow>
           if bs = [] then (0, rp\<lparr>rio_cnt := 0\<rparr>, w')
           else rio_refill (rp\<lparr>rio_cnt := int (length bs), rio_buf := bs @ drop (length bs) (rio_buf rp), rio_bufptr := 0\<rparr>) w')
     else (1, rp, w))"
  by pat_completeness auto
termination
  by (relation "measure (\<lambda>(rp, w). if rio_cnt rp \<le> 0 then Suc (length (wire w)) else 0)")
    (auto dest: sys_read_shrinks(2))

declare rio_refill.simps [simp del]

definition rio_read :: "rio_t \<Rightarrow> nat \<Rightarrow> net \<Rightarrow> (int \<times> char list \<times> rio_t \<times> net) option" where
  "rio_read rp n w = (case rio_refill rp w of (c, rp, w) \<Rightarrow>
     if c < 1 then Some (c, [], rp, w)
     else let cnt = (if rio_cnt rp < int n then nat (rio_cnt rp) else n) in
       if rio_bufptr rp + cnt \<le> length (rio_buf rp)
       then Some (int cnt, take cnt (drop (rio_bufptr rp) (rio_buf rp)),
         rp\<lparr>rio_bufptr := rio_bufptr rp + cnt, rio_cnt := rio_cnt rp - int cnt\<rparr>, w)
       else None)"

function rio_readnb_loop :: "nat \<Rightarrow> rio_t \<Rightarrow> char list \<Rightarrow> nat \<Rightarrow> nat \<Rightarrow> net \<Rightarrow> (int \<times> char list \<times> rio_t \<times> net) option" where
  "rio_readnb_loop n rp buf bufp nleft w = (
     if nleft = 0 then Some (int (n - nleft), buf, rp, w)
     else case rio_read rp nleft w of
       None \<Rightarrow> None
     | Some (nread, bs, rp', w') \<Rightarrow>
         if nread < 0 then Some (-1, buf, rp', w')
         else if nread = 0 then Some (int (n - nleft), buf, rp', w')
         else (case blit buf bufp bs of
             None \<Rightarrow> None
           | Some buf' \<Rightarrow> rio_readnb_loop n rp' buf' (bufp + nat nread) (nleft - nat nread) w'))"
  by pat_completeness auto
termination
  by (relation "measure (\<lambda>(n, rp, buf, bufp, nleft, w). nleft)") auto

declare rio_readnb_loop.simps [simp del]

definition rio_readnb :: "rio_t \<Rightarrow> char list \<Rightarrow> nat \<Rightarrow> net \<Rightarrow> (int \<times> char list \<times> rio_t \<times> net) option" where
  "rio_readnb rp usrbuf n w = rio_readnb_loop n rp usrbuf 0 n w"

definition LF :: char where "LF = CHR 0x0A"
definition NUL :: char where "NUL = CHR 0x00"

definition end_line :: "nat \<Rightarrow> rio_t \<Rightarrow> char list \<Rightarrow> nat \<Rightarrow> net \<Rightarrow> (int \<times> char list \<times> rio_t \<times> net) option" where
  "end_line n rp buf bufp w = do { buf \<leftarrow> vset buf bufp NUL; Some (int n - 1, buf, rp, w) }"

function rio_readlineb_loop :: "nat \<Rightarrow> rio_t \<Rightarrow> char list \<Rightarrow> nat \<Rightarrow> nat \<Rightarrow> net \<Rightarrow> (int \<times> char list \<times> rio_t \<times> net) option" where
  "rio_readlineb_loop maxlen rp buf bufp n w = (
     if n < maxlen then (case rio_read rp 1 w of
         None \<Rightarrow> None
       | Some (rc, bs, rp', w') \<Rightarrow>
           if rc = 1 then (case vset buf bufp (hd bs) of
               None \<Rightarrow> None
             | Some buf' \<Rightarrow>
                 if hd bs = LF then end_line (n + 1) rp' buf' (bufp + 1) w'
                 else rio_readlineb_loop maxlen rp' buf' (bufp + 1) (n + 1) w')
           else if rc = 0 then (if n = 1 then Some (0, buf, rp', w') else end_line n rp' buf bufp w')
           else Some (-1, buf, rp', w'))
     else end_line n rp buf bufp w)"
  by pat_completeness auto
termination
  by (relation "measure (\<lambda>(maxlen, rp, buf, bufp, n, w). maxlen - n)") auto

declare rio_readlineb_loop.simps [simp del]

definition rio_readlineb :: "rio_t \<Rightarrow> char list \<Rightarrow> nat \<Rightarrow> net \<Rightarrow> (int \<times> char list \<times> rio_t \<times> net) option" where
  "rio_readlineb rp usrbuf maxlen w = rio_readlineb_loop maxlen rp usrbuf 0 1 w"

subsection \<open>The sequence of bytes\<close>

text \<open>
  A wire without failures is a sequence of bytes: \<open>pending\<close> are those a reader has not been
  given yet, in its buffer and on the wire.
\<close>

fun chunk :: "rd \<Rightarrow> char list" where
  "chunk (Chunk bs) = bs"
| "chunk Intr = []"
| "chunk Fail = []"

definition bytes :: "net \<Rightarrow> char list" where
  "bytes w = concat (map chunk (wire w))"

definition smooth :: "net \<Rightarrow> bool" where
  "smooth w \<longleftrightarrow> (\<forall>e \<in> set (wire w). e \<noteq> Fail \<and> e \<noteq> Chunk [])"

definition rio_ok :: "rio_t \<Rightarrow> bool" where
  "rio_ok rp \<longleftrightarrow> length (rio_buf rp) = RIO_BUFSIZE \<and> rio_bufptr rp + nat (rio_cnt rp) \<le> RIO_BUFSIZE"

definition pending :: "rio_t \<Rightarrow> net \<Rightarrow> char list" where
  "pending rp w = take (nat (rio_cnt rp)) (drop (rio_bufptr rp) (rio_buf rp)) @ bytes w"

text \<open>\<open>bs\<close> has been taken off the input and the output is as it was.\<close>

definition took :: "net \<Rightarrow> char list \<Rightarrow> net \<Rightarrow> bool" where
  "took w bs w' \<longleftrightarrow> smooth w' \<and> bytes w = bs @ bytes w' \<and> sent w' = sent w \<and> room w' = room w"

definition served :: "rio_t \<Rightarrow> net \<Rightarrow> char list \<Rightarrow> rio_t \<Rightarrow> net \<Rightarrow> bool" where
  "served rp w bs rp' w' \<longleftrightarrow> rio_ok rp' \<and> smooth w' \<and> pending rp w = bs @ pending rp' w' \<and> sent w' = sent w \<and> room w' = room w"

lemma took_trans: "took w as w1 \<Longrightarrow> took w1 bs w2 \<Longrightarrow> took w (as @ bs) w2"
  by (simp add: took_def)

lemma served_trans: "served rp w as rp1 w1 \<Longrightarrow> served rp1 w1 bs rp2 w2 \<Longrightarrow> served rp w (as @ bs) rp2 w2"
  by (simp add: served_def)

lemma sys_read_took:
  assumes "smooth w" and "0 < k" and "sys_read k w = (x, w')"
  shows "case x of None \<Rightarrow> errno w' = EINTR \<and> took w [] w'
    | Some bs \<Rightarrow> took w bs w' \<and> length bs \<le> k \<and> (bs = [] \<longleftrightarrow> bytes w = [])"
proof (cases "wire w")
  case (Cons e r)
  show ?thesis
  proof (cases e)
    case (Chunk bs)
    have ne: "bs \<noteq> []" using assms(1) Cons Chunk by (auto simp: smooth_def)
    have r: "\<forall>e \<in> set r. e \<noteq> Fail \<and> e \<noteq> Chunk []" using assms(1) Cons by (auto simp: smooth_def)
    have w': "x = Some (take k bs)" "w' = w\<lparr>wire := (if length bs \<le> k then r else Chunk (drop k bs) # r)\<rparr>"
      using assms(3) Cons Chunk by (auto simp: sys_read_def)
    show ?thesis using w' r ne Cons Chunk assms(2) by (auto simp: took_def smooth_def bytes_def)
  qed (use assms Cons in \<open>auto simp: sys_read_def took_def smooth_def bytes_def\<close>)
qed (use assms in \<open>auto simp: sys_read_def took_def smooth_def bytes_def\<close>)

lemma blit_in: "off + length bs \<le> length buf \<Longrightarrow> blit buf off bs = Some (take off buf @ bs @ drop (off + length bs) buf)"
  by (simp add: blit_def)

subsection \<open>Unbuffered reads and writes\<close>

lemma rio_readn_loop_ok:
  assumes "smooth w" and "bufp + nleft \<le> length buf" and "nleft \<le> n"
  shows "\<exists>w'. let bs = take nleft (bytes w) in
    rio_readn_loop n buf bufp nleft w = Some (int (n - nleft + length bs), take bufp buf @ bs @ drop (bufp + length bs) buf, w') \<and> took w bs w'"
  using assms
proof (induction n buf bufp nleft w rule: rio_readn_loop.induct)
  case (1 n buf bufp nleft w)
  show ?case
  proof (cases "nleft = 0")
    case True
    then show ?thesis using 1(3) by (subst rio_readn_loop.simps) (simp add: took_def)
  next
    case False
    obtain x w1 where s: "sys_read nleft w = (x, w1)" by force
    note t = sys_read_took [OF 1(3) _ s]
    show ?thesis
    proof (cases x)
      case None
      then have t: "errno w1 = EINTR" "took w [] w1" using t False by auto
      then have b: "bytes w1 = bytes w" "smooth w1" by (auto simp: took_def)
      show ?thesis using 1(1) [OF False s [symmetric] None t(1) b(2) 1(4,5)] s None t False b(1)
        by (subst rio_readn_loop.simps) (auto simp: Let_def took_def)
    next
      case (Some bs)
      then have t: "took w bs w1" "length bs \<le> nleft" "bs = [] \<longleftrightarrow> bytes w = []" using t False by auto
      show ?thesis
      proof (cases "bs = []")
        case True
        then show ?thesis using s Some t False by (subst rio_readn_loop.simps) (auto simp: took_def)
      next
        case ne: False
        let ?buf = "take bufp buf @ bs @ drop (bufp + length bs) buf"
        have bl: "blit buf bufp bs = Some ?buf" using 1(4) t(2) by (intro blit_in) simp
        have sm: "smooth w1" using t(1) by (simp add: took_def)
        have fits: "bufp + length bs + (nleft - length bs) \<le> length ?buf" "nleft - length bs \<le> n"
          using 1(4,5) t(2) by simp_all
        obtain w2 where w2: "rio_readn_loop n ?buf (bufp + length bs) (nleft - length bs) w1 =
              Some (int (n - (nleft - length bs) + length (take (nleft - length bs) (bytes w1))),
                take (bufp + length bs) ?buf @ take (nleft - length bs) (bytes w1) @
                  drop (bufp + length bs + length (take (nleft - length bs) (bytes w1))) ?buf, w2)"
            "took w1 (take (nleft - length bs) (bytes w1)) w2"
          using 1(2) [OF False s [symmetric] Some ne bl sm fits] unfolding Let_def by blast
        have cut: "take nleft (bytes w) = bs @ take (nleft - length bs) (bytes w1)" using t(1,2) by (simp add: took_def)
        have "take (bufp + length bs) ?buf = take bufp buf @ bs" using 1(4) t(2) by simp
        moreover have "drop (bufp + length bs + k) ?buf = drop (bufp + length bs + k) buf" for k
          using 1(4) t(2) by (simp add: add.commute add.left_commute)
        moreover have "n - (nleft - length bs) = n - nleft + length bs" using 1(5) t(2) by simp
        ultimately show ?thesis using s Some ne bl False w2 took_trans [OF t(1) w2(2)] cut
          by (subst rio_readn_loop.simps) (simp add: Let_def add.assoc)
      qed
    qed
  qed
qed

lemma rio_readn_ok:
  assumes "smooth w" and "n \<le> length buf"
  shows "\<exists>w'. let bs = take n (bytes w) in
    rio_readn buf n w = Some (int (length bs), bs @ drop (length bs) buf, w') \<and> took w bs w'"
  using rio_readn_loop_ok [OF assms(1), of 0 n buf n] assms(2) by (simp add: rio_readn_def Let_def)

text \<open>A peer that takes the bytes: no failure, and a write that takes none is one that was interrupted.\<close>

definition open_room :: "net \<Rightarrow> bool" where
  "open_room w \<longleftrightarrow> (\<forall>e \<in> set (room w). e \<noteq> WFail \<and> e \<noteq> Wrote 0)"

definition delivered :: "char list \<Rightarrow> net \<Rightarrow> net \<Rightarrow> bool" where
  "delivered bs w w' \<longleftrightarrow> open_room w' \<and> sent w' = sent w @ bs \<and> wire w' = wire w"

lemma delivered_trans: "delivered as w w1 \<Longrightarrow> delivered bs w1 w2 \<Longrightarrow> delivered (as @ bs) w w2"
  by (simp add: delivered_def)

lemma rio_writen_loop_ok:
  assumes "open_room w"
  shows "\<exists>w'. rio_writen_loop n rest w = (int n, w') \<and> delivered rest w w'"
  using assms
proof (induction n rest w rule: rio_writen_loop.induct)
  case (1 n rest w)
  show ?case
  proof (cases "rest = []")
    case True
    then show ?thesis using 1(4) by (subst rio_writen_loop.simps) (simp add: delivered_def)
  next
    case ne: False
    obtain x w1 where s: "sys_write rest w = (x, w1)" by force
    have o: "open_room w1" using s 1(4) by (auto simp: sys_write_def open_room_def split: list.splits wr.splits)
    show ?thesis
    proof (cases x)
      case None
      then have e: "errno w1 = EINTR" "delivered [] w w1"
        using s 1(4) o by (auto simp: sys_write_def open_room_def delivered_def split: list.splits wr.splits)
      show ?thesis using 1(1) [OF ne s [symmetric] None e(1) o] e s None ne delivered_trans [of "[]" w w1 rest]
        by (subst rio_writen_loop.simps) auto
    next
      case (Some k)
      then obtain m where k: "k = Suc m" "delivered (take (Suc m) rest) w w1"
        using s 1(4) ne o by (cases k) (auto simp: sys_write_def open_room_def delivered_def min_def split: list.splits wr.splits if_splits)
      have "\<exists>w2. rio_writen_loop n (drop (Suc m) rest) w1 = (int n, w2) \<and> delivered (drop (Suc m) rest) w1 w2"
        by (rule 1(3) [OF ne s [symmetric] Some k(1) o])
      then obtain w2 where w2: "rio_writen_loop n (drop (Suc m) rest) w1 = (int n, w2)" "delivered (drop (Suc m) rest) w1 w2" by blast
      moreover have "delivered rest w w2" using delivered_trans [OF k(2) w2(2)] by simp
      ultimately show ?thesis using s Some k(1) ne by (subst rio_writen_loop.simps) simp
    qed
  qed
qed

lemma rio_writen_ok: "open_room w \<Longrightarrow> \<exists>w'. rio_writen bs w = (int (length bs), w') \<and> delivered bs w w'"
  using rio_writen_loop_ok by (simp add: rio_writen_def)

text \<open>The other case: \<open>errno\<close> of an earlier call decides what a write of no bytes means.\<close>

lemma rio_writen_stale_errno:
  "rio_writen ''a'' \<lparr>wire = [], room = [Wrote 0], sent = [], errno = EINTR\<rparr> = (1, \<lparr>wire = [], room = [], sent = ''a'', errno = EINTR\<rparr>)"
  "rio_writen ''a'' \<lparr>wire = [], room = [Wrote 0], sent = [], errno = 0\<rparr> = (- 1, \<lparr>wire = [], room = [], sent = [], errno = 0\<rparr>)"
  by (simp_all add: rio_writen_def rio_writen_loop.simps sys_write_def EINTR_def)

subsection \<open>Buffered reads\<close>

lemma rio_readinitb_ok: "length (rio_buf rp) = RIO_BUFSIZE \<Longrightarrow> rio_ok (rio_readinitb rp f) \<and> pending (rio_readinitb rp f) w = bytes w"
  by (simp add: rio_ok_def rio_readinitb_def pending_def)

lemma rio_refill_ok:
  assumes "rio_ok rp" and "smooth w"
  shows "\<exists>c rp' w'. rio_refill rp w = (c, rp', w') \<and> served rp w [] rp' w' \<and>
    (if pending rp w = [] then c = 0 else c = 1 \<and> 0 < rio_cnt rp')"
  using assms
proof (induction rp w rule: rio_refill.induct)
  case (1 rp w)
  show ?case
  proof (cases "rio_cnt rp \<le> 0")
    case False
    then have "take (nat (rio_cnt rp)) (drop (rio_bufptr rp) (rio_buf rp)) \<noteq> []"
      using 1(3) by (auto simp: rio_ok_def)
    then show ?thesis using False 1(3,4) by (subst rio_refill.simps) (simp add: served_def pending_def)
  next
    case True
    obtain x w1 where s: "sys_read RIO_BUFSIZE w = (x, w1)" by force
    have p: "pending rp w = bytes w" using True by (simp add: pending_def)
    have t: "case x of None \<Rightarrow> errno w1 = EINTR \<and> took w [] w1
      | Some bs \<Rightarrow> took w bs w1 \<and> length bs \<le> RIO_BUFSIZE \<and> (bs = [] \<longleftrightarrow> bytes w = [])"
      by (rule sys_read_took [OF 1(4) _ s]) (simp add: RIO_BUFSIZE_def)
    show ?thesis
    proof (cases x)
      case None
      let ?rp = "rp\<lparr>rio_cnt := -1\<rparr>"
      have t: "errno w1 = EINTR" "took w [] w1" using t None by auto
      have ok: "rio_ok ?rp" using 1(3) by (simp add: rio_ok_def)
      have e: "served rp w [] ?rp w1" using t(2) p ok by (simp add: took_def served_def) (simp add: pending_def)
      have "\<exists>c rp' w'. rio_refill ?rp w1 = (c, rp', w') \<and> served ?rp w1 [] rp' w' \<and> (if pending ?rp w1 = [] then c = 0 else c = 1 \<and> 0 < rio_cnt rp')"
        using 1(1) [OF True s [symmetric] None _ ok] t by (simp add: took_def)
      then show ?thesis using True s None t(1) e served_trans [OF e]
        by (subst rio_refill.simps) (fastforce simp: served_def)
    next
      case (Some bs)
      then have t: "took w bs w1" "length bs \<le> RIO_BUFSIZE" "bs = [] \<longleftrightarrow> bytes w = []" using t by auto
      show ?thesis
      proof (cases "bs = []")
        case ne: True
        then show ?thesis using True s Some t p 1(3)
          by (subst rio_refill.simps) (simp add: served_def took_def rio_ok_def pending_def)
      next
        case ne: False
        let ?rp = "rp\<lparr>rio_cnt := int (length bs), rio_buf := bs @ drop (length bs) (rio_buf rp), rio_bufptr := 0\<rparr>"
        have "rio_ok ?rp" using 1(3) t(2) by (simp add: rio_ok_def)
        moreover have "pending ?rp w1 = bytes w" using t(1) by (simp add: pending_def took_def)
        ultimately have "served rp w [] ?rp w1" using p t(1) by (simp add: served_def took_def)
        moreover have "rio_refill ?rp w1 = (1, ?rp, w1)" using ne by (subst rio_refill.simps) simp
        ultimately show ?thesis using True s Some ne p t(3) by (subst rio_refill.simps) simp
      qed
    qed
  qed
qed

lemma rio_read_ok:
  assumes "rio_ok rp" and "smooth w" and "0 < n"
  shows "\<exists>bs rp' w'. rio_read rp n w = Some (int (length bs), bs, rp', w') \<and> served rp w bs rp' w' \<and>
    length bs \<le> n \<and> (bs = [] \<longleftrightarrow> pending rp w = [])"
proof -
  obtain c rp1 w1 where r: "rio_refill rp w = (c, rp1, w1)" "served rp w [] rp1 w1"
      "if pending rp w = [] then c = 0 else c = 1 \<and> 0 < rio_cnt rp1"
    using rio_refill_ok [OF assms(1,2)] by blast
  show ?thesis
  proof (cases "pending rp w = []")
    case True
    then show ?thesis using r by (simp add: rio_read_def)
  next
    case False
    then have c: "c = 1" "0 < rio_cnt rp1" using r(3) by auto
    define k where "k = (if rio_cnt rp1 < int n then nat (rio_cnt rp1) else n)"
    have k: "0 < k" "k \<le> n" "k \<le> nat (rio_cnt rp1)" using c(2) assms(3) by (auto simp: k_def)
    have ok: "rio_ok rp1" "smooth w1" and p: "pending rp w = pending rp1 w1" using r(2) by (auto simp: served_def)
    let ?bs = "take k (drop (rio_bufptr rp1) (rio_buf rp1))"
    let ?rp = "rp1\<lparr>rio_bufptr := rio_bufptr rp1 + k, rio_cnt := rio_cnt rp1 - int k\<rparr>"
    have "k \<le> RIO_BUFSIZE - rio_bufptr rp1" using ok(1) k(3) unfolding rio_ok_def by linarith
    then have len: "length ?bs = k" using ok(1) by (simp add: rio_ok_def min_absorb2)
    have "rio_read rp n w = Some (int k, ?bs, ?rp, w1)"
      using r(1) c(1) ok(1) k(3) by (simp add: rio_read_def Let_def rio_ok_def flip: k_def)
    moreover have "pending rp1 w1 = ?bs @ pending ?rp w1"
    proof -
      have "nat (rio_cnt rp1) = k + nat (rio_cnt rp1 - int k)" using k(3) by simp
      then have "take (nat (rio_cnt rp1)) (drop (rio_bufptr rp1) (rio_buf rp1)) =
          ?bs @ take (nat (rio_cnt rp1 - int k)) (drop k (drop (rio_bufptr rp1) (rio_buf rp1)))"
        by (metis take_add)
      then show ?thesis by (simp add: pending_def add.commute)
    qed
    moreover have "rio_ok ?rp"
    proof -
      have "k + nat (rio_cnt rp1 - int k) = nat (rio_cnt rp1)" using k(3) by simp
      then show ?thesis using ok(1) by (simp add: rio_ok_def)
    qed
    ultimately show ?thesis using r(2) ok(2) p k False len
      by (intro exI [of _ ?bs] exI [of _ ?rp] exI [of _ w1]) (auto simp: served_def)
  qed
qed

lemma rio_readnb_loop_ok:
  assumes "rio_ok rp" and "smooth w" and "bufp + nleft \<le> length buf" and "nleft \<le> n"
  shows "\<exists>rp' w'. let bs = take nleft (pending rp w) in
    rio_readnb_loop n rp buf bufp nleft w =
      Some (int (n - nleft + length bs), take bufp buf @ bs @ drop (bufp + length bs) buf, rp', w') \<and> served rp w bs rp' w'"
  using assms
proof (induction nleft arbitrary: rp buf bufp w rule: less_induct)
  case (less nleft)
  show ?case
  proof (cases "nleft = 0")
    case True
    then show ?thesis using less(2,3) by (subst rio_readnb_loop.simps) (simp add: served_def)
  next
    case False
    then obtain bs rp1 w1 where r: "rio_read rp nleft w = Some (int (length bs), bs, rp1, w1)" "served rp w bs rp1 w1"
        "length bs \<le> nleft" "bs = [] \<longleftrightarrow> pending rp w = []"
      using rio_read_ok [OF less(2,3), of nleft] by blast
    show ?thesis
    proof (cases "bs = []")
      case True
      then show ?thesis using r False by (subst rio_readnb_loop.simps) simp
    next
      case ne: False
      let ?buf = "take bufp buf @ bs @ drop (bufp + length bs) buf"
      let ?n = "nleft - length bs"
      let ?rest = "take ?n (pending rp1 w1)"
      have bl: "blit buf bufp bs = Some ?buf" using less(4) r(3) by (intro blit_in) simp
      have smaller: "?n < nleft" using ne False by (cases bs) auto
      have ok: "rio_ok rp1" "smooth w1" using r(2) by (auto simp: served_def)
      have fits: "bufp + length bs + ?n \<le> length ?buf" "?n \<le> n" using less(4,5) r(3) by simp_all
      obtain rp2 w2 where w2: "rio_readnb_loop n rp1 ?buf (bufp + length bs) ?n w1 =
          Some (int (n - ?n + length ?rest), take (bufp + length bs) ?buf @ ?rest @ drop (bufp + length bs + length ?rest) ?buf, rp2, w2)"
          "served rp1 w1 ?rest rp2 w2"
        using less(1) [OF smaller ok fits] unfolding Let_def by blast
      have cut: "take nleft (pending rp w) = bs @ ?rest" using r(2,3) by (simp add: served_def)
      have "take (bufp + length bs) ?buf = take bufp buf @ bs" using less(4) r(3) by simp
      moreover have "drop (bufp + length bs + k) ?buf = drop (bufp + length bs + k) buf" for k
        using less(4) r(3) by (simp add: add.commute add.left_commute)
      moreover have "n - ?n = n - nleft + length bs" using less(5) r(3) by simp
      ultimately show ?thesis using r(1) ne bl False w2 served_trans [OF r(2) w2(2)] cut
        by (subst rio_readnb_loop.simps) (simp add: Let_def add.assoc)
    qed
  qed
qed

lemma rio_readnb_ok:
  assumes "rio_ok rp" and "smooth w" and "n \<le> length buf"
  shows "\<exists>rp' w'. let bs = take n (pending rp w) in
    rio_readnb rp buf n w = Some (int (length bs), bs @ drop (length bs) buf, rp', w') \<and> served rp w bs rp' w'"
  using rio_readnb_loop_ok [OF assms(1,2), of 0 n buf n] assms(3) by (simp add: rio_readnb_def Let_def)

text \<open>The first line of a sequence, its newline included, cut after \<open>k\<close> bytes.\<close>

definition first_line :: "nat \<Rightarrow> char list \<Rightarrow> char list" where
  "first_line k s = take k (takeWhile (\<lambda>c. c \<noteq> LF) s @ (if LF \<in> set s then [LF] else []))"

lemma first_line_rec:
  "first_line 0 s = []" "first_line k [] = []"
  "first_line (Suc k) (c # s) = (if c = LF then [c] else c # first_line k s)"
  by (auto simp: first_line_def)

lemma end_line_ok: "bufp < length buf \<Longrightarrow> end_line n rp buf bufp w = Some (int n - 1, take bufp buf @ NUL # drop (Suc bufp) buf, rp, w)"
  by (simp add: end_line_def ub_simps upd_conv_take_nth_drop)

lemma rio_readlineb_loop_ok:
  assumes "rio_ok rp" and "smooth w" and "0 < n" and "n \<le> maxlen" and "maxlen \<le> length buf" and "bufp = n - 1"
    and "n = 1 \<Longrightarrow> 1 < maxlen \<Longrightarrow> pending rp w \<noteq> []"
  shows "\<exists>rp' w'. let line = first_line (maxlen - n) (pending rp w) in
    rio_readlineb_loop maxlen rp buf bufp n w =
      Some (int (bufp + length line), take bufp buf @ line @ NUL # drop (Suc (bufp + length line)) buf, rp', w') \<and> served rp w line rp' w'"
  using assms
proof (induction "maxlen - n" arbitrary: rp buf bufp n w)
  case 0
  then show ?case by (subst rio_readlineb_loop.simps) (simp add: first_line_rec end_line_ok served_def of_nat_diff)
next
  case (Suc k)
  obtain bs rp1 w1 where r: "rio_read rp 1 w = Some (int (length bs), bs, rp1, w1)" "served rp w bs rp1 w1"
      "length bs \<le> 1" "bs = [] \<longleftrightarrow> pending rp w = []"
    using rio_read_ok [OF Suc(3,4), of 1] by auto
  have lt: "n < maxlen" using Suc(2) by simp
  show ?case
  proof (cases bs)
    case Nil
    then have "n \<noteq> 1" using r(4) Suc(9) lt by auto
    then show ?thesis using Nil r lt Suc(3-8)
      by (subst rio_readlineb_loop.simps) (simp add: first_line_rec end_line_ok of_nat_diff)
  next
    case (Cons c cs)
    then have bs: "bs = [c]" using r(3) by simp
    have p: "pending rp w = c # pending rp1 w1" and ok: "rio_ok rp1" "smooth w1" using r(2) bs by (auto simp: served_def)
    have st: "bufp < length buf" using Suc(5-8) lt by simp
    show ?thesis
    proof (cases "c = LF")
      case True
      have "rio_readlineb_loop maxlen rp buf bufp n w = end_line (n + 1) rp1 (buf[bufp := c]) (bufp + 1) w1"
        using r(1) bs lt st True by (subst rio_readlineb_loop.simps) (simp add: ub_simps)
      moreover have "take (bufp + 1) (buf[bufp := c]) = take bufp buf @ [c]"
        using Suc(6-8) lt by (simp add: take_Suc_conv_app_nth)
      moreover have "bufp + 1 < length (buf[bufp := c])" using Suc(5-8) lt by simp
      moreover have "first_line (maxlen - n) (pending rp w) = [c]" using p True Suc(2) by (metis first_line_rec(3))
      ultimately show ?thesis using r(2) bs Suc(5,8) by (simp add: end_line_ok)
    next
      case False
      let ?buf = "buf[bufp := c]"
      let ?line = "first_line k (pending rp1 w1)"
      have kk: "maxlen - (n + 1) = k" using Suc(2) by simp
      have IH: "\<exists>rp' w'. let line = first_line (maxlen - (n + 1)) (pending rp1 w1) in
          rio_readlineb_loop maxlen rp1 ?buf (bufp + 1) (n + 1) w1 =
            Some (int (bufp + 1 + length line), take (bufp + 1) ?buf @ line @ NUL # drop (Suc (bufp + 1 + length line)) ?buf, rp', w') \<and>
          served rp1 w1 line rp' w'"
        using Suc(2,5-8) lt ok by (intro Suc(1)) auto
      then obtain rp2 w2 where w2: "rio_readlineb_loop maxlen rp1 ?buf (bufp + 1) (n + 1) w1 =
            Some (int (bufp + 1 + length ?line), take (bufp + 1) ?buf @ ?line @ NUL # drop (Suc (bufp + 1 + length ?line)) ?buf, rp2, w2)"
          "served rp1 w1 ?line rp2 w2"
        unfolding Let_def kk by blast
      have cut: "first_line (maxlen - n) (pending rp w) = c # ?line" using p False Suc(2) by (metis first_line_rec(3))
      have "take (bufp + 1) ?buf = take bufp buf @ [c]" using Suc(6-8) lt by (simp add: take_Suc_conv_app_nth)
      moreover have "rio_readlineb_loop maxlen rp buf bufp n w = rio_readlineb_loop maxlen rp1 ?buf (bufp + 1) (n + 1) w1"
        using r(1) bs lt st False by (subst rio_readlineb_loop.simps) (simp add: ub_simps)
      moreover have "drop (Suc (bufp + 1 + m)) ?buf = drop (Suc (bufp + 1 + m)) buf" for m by simp
      moreover have "served rp w (c # ?line) rp2 w2" using served_trans [OF r(2) w2(2)] bs by simp
      ultimately show ?thesis using w2(1) cut by (auto simp: Let_def)
    qed
  qed
qed

lemma rio_readlineb_ok:
  assumes "rio_ok rp" and "smooth w" and "0 < maxlen" and "maxlen \<le> length buf"
  shows "\<exists>rp' w'. let line = first_line (maxlen - 1) (pending rp w) in
    rio_readlineb rp buf maxlen w =
      Some (int (length line), if pending rp w = [] \<and> 1 < maxlen then buf else line @ NUL # drop (Suc (length line)) buf, rp', w') \<and>
    served rp w line rp' w'"
proof (cases "pending rp w = [] \<and> 1 < maxlen")
  case True
  obtain bs rp1 w1 where "rio_read rp 1 w = Some (int (length bs), bs, rp1, w1)" "served rp w bs rp1 w1" "bs = []"
    using rio_read_ok [OF assms(1,2), of 1] True by auto
  then show ?thesis using True by (simp add: rio_readlineb_def rio_readlineb_loop.simps [of maxlen] first_line_rec)
next
  case False
  then show ?thesis using rio_readlineb_loop_ok [OF assms(1,2), of 1 maxlen buf 0] assms(3,4)
    by (auto simp: rio_readlineb_def Let_def)
qed

text \<open>An error other than an interruption ends a read with -1; the next call asks the kernel again.\<close>

lemma rio_read_error:
  assumes "wire w = Fail # r" and "rio_cnt rp \<le> 0"
  shows "rio_read rp n w = Some (-1, [], rp\<lparr>rio_cnt := -1\<rparr>, w\<lparr>wire := r, errno := EIO\<rparr>)"
  using assms by (simp add: rio_read_def rio_refill.simps sys_read_def EINTR_def EIO_def)

lemma rio_readlineb_error:
  assumes "wire w = Fail # r" and "rio_cnt rp \<le> 0" and "1 < maxlen"
  shows "rio_readlineb rp buf maxlen w = Some (-1, buf, rp\<lparr>rio_cnt := -1\<rparr>, w\<lparr>wire := r, errno := EIO\<rparr>)"
  using assms by (simp add: rio_readlineb_def rio_readlineb_loop.simps [of maxlen] rio_read_error)

text \<open>
  C26: the buffered readers see one sequence of bytes, however it was cut into chunks and wherever
  a signal interrupted. \<open>rio_readlineb\<close> hands out the next line, its newline included and
  cut after \<open>maxlen - 1\<close> bytes, with a zero byte behind it (at the end of the input it returns 0 and
  leaves the array as it was); \<open>rio_readnb\<close> hands out the next \<open>n\<close> bytes, or what is left.
  Both keep the rest for the next call.
\<close>

theorem rio_buffered_correct:
  assumes "rio_ok rp" and "smooth w" and "0 < maxlen" and "maxlen \<le> length buf" and "n \<le> length buf"
  shows "(\<exists>rp' w'. let line = first_line (maxlen - 1) (pending rp w) in
      rio_readlineb rp buf maxlen w =
        Some (int (length line), if pending rp w = [] \<and> 1 < maxlen then buf else line @ NUL # drop (Suc (length line)) buf, rp', w') \<and>
      served rp w line rp' w') \<and>
    (\<exists>rp' w'. let bs = take n (pending rp w) in
      rio_readnb rp buf n w = Some (int (length bs), bs @ drop (length bs) buf, rp', w') \<and> served rp w bs rp' w')"
  using rio_readlineb_ok [OF assms(1-4)] rio_readnb_ok [OF assms(1,2,5)] by blast

theorem rio_buffered_correct_witness:
  "\<exists>rp' w'. rio_readlineb \<lparr>rio_fd = 3, rio_cnt = 0, rio_bufptr = 0, rio_buf = replicate RIO_BUFSIZE NUL\<rparr> (replicate 8 NUL) 8
     \<lparr>wire = [Chunk ''a'', Intr, Chunk ''b'', Chunk (LF # ''c'')], room = [], sent = [], errno = 0\<rparr> =
       Some (3, [CHR ''a'', CHR ''b'', LF] @ replicate 5 NUL, rp', w') \<and> pending rp' w' = ''c''"
proof -
  let ?rp = "\<lparr>rio_fd = 3, rio_cnt = 0, rio_bufptr = 0, rio_buf = replicate RIO_BUFSIZE NUL\<rparr>"
  let ?w = "\<lparr>wire = [Chunk ''a'', Intr, Chunk ''b'', Chunk (LF # ''c'')], room = [], sent = [], errno = 0\<rparr>"
  let ?buf = "replicate 8 NUL"
  have ok: "rio_ok ?rp" "smooth ?w" "0 < (8 :: nat)" "8 \<le> length ?buf" by (simp_all add: rio_ok_def smooth_def)
  have p: "pending ?rp ?w = [CHR ''a'', CHR ''b'', LF, CHR ''c'']" by (simp add: pending_def bytes_def)
  have l: "first_line (8 - 1) [CHR ''a'', CHR ''b'', LF, CHR ''c''] = [CHR ''a'', CHR ''b'', LF]" by (simp add: first_line_def LF_def)
  obtain rp' w' where r: "rio_readlineb ?rp ?buf 8 ?w =
        Some (int (length (first_line (8 - 1) (pending ?rp ?w))),
          if pending ?rp ?w = [] \<and> 1 < (8 :: nat) then ?buf
          else first_line (8 - 1) (pending ?rp ?w) @ NUL # drop (Suc (length (first_line (8 - 1) (pending ?rp ?w)))) ?buf, rp', w')"
      "served ?rp ?w (first_line (8 - 1) (pending ?rp ?w)) rp' w'"
    using conjunct1 [OF rio_buffered_correct [OF ok le0]] unfolding Let_def by blast
  have "pending rp' w' = ''c''" using r(2) unfolding served_def p l by simp
  moreover have "NUL # drop (Suc 3) ?buf = replicate 5 NUL" by (simp add: numeral_eq_Suc)
  ultimately show ?thesis using r(1) unfolding p l by (intro exI [of _ rp'] exI [of _ w']) simp
qed

text \<open>
  The routines without a buffer: \<open>rio_readn\<close> collects \<open>n\<close> bytes or all there are,
  \<open>rio_writen\<close> sends all its bytes, in as many writes as it takes.
\<close>

theorem rio_unbuffered_correct:
  assumes "smooth w" and "open_room w" and "n \<le> length buf"
  shows "(\<exists>w'. let bs = take n (bytes w) in rio_readn buf n w = Some (int (length bs), bs @ drop (length bs) buf, w') \<and> took w bs w') \<and>
    (\<exists>w'. rio_writen msg w = (int (length msg), w') \<and> sent w' = sent w @ msg \<and> wire w' = wire w)"
  using rio_readn_ok [OF assms(1,3)] rio_writen_ok [OF assms(2), of msg] by (auto simp: delivered_def)

end
