(* ===== verification/Csapp.thy ===== *)
theory Csapp
  imports Rio Serialize
begin

section \<open>Signal-safe output (tiny/csapp.c, the Sio package)\<close>

text \<open>
  A decimal converter that writes the digits backwards into an array, appends the sign and
  reverses the text in place.
\<close>

definition sio_strlen :: "string \<Rightarrow> nat option" where
  "sio_strlen s = (if NUL \<in> set s then Some (length (takeWhile (\<lambda>c. c \<noteq> NUL) s)) else None)"

function sio_swap_loop :: "string \<Rightarrow> int \<Rightarrow> int \<Rightarrow> string option" where
  "sio_swap_loop s i j = (
     if i < j then do {
       c \<leftarrow> vget s (nat i);
       d \<leftarrow> vget s (nat j);
       s \<leftarrow> vset s (nat i) d;
       s \<leftarrow> vset s (nat j) c;
       sio_swap_loop s (i + 1) (j - 1) }
     else Some s)"
  by pat_completeness auto
termination
  by (relation "measure (\<lambda>(s, i, j). nat (j - i))") auto

declare sio_swap_loop.simps [simp del]

definition sio_reverse :: "string \<Rightarrow> string option" where
  "sio_reverse s = do { n \<leftarrow> sio_strlen s; sio_swap_loop s 0 (int n - 1) }"

definition ltoa_digit :: "nat \<Rightarrow> char" where
  "ltoa_digit c = (if c < 10 then char_of (c + 48) else char_of (c - 10 + 97))"

text \<open>A base below 2 divides by zero or never ends and runs over the array.\<close>

function ltoa_loop :: "nat \<Rightarrow> string \<Rightarrow> nat \<Rightarrow> nat \<Rightarrow> (string \<times> nat) option" where
  "ltoa_loop v s i b = (
     if b < 2 then None
     else case vset s i (ltoa_digit (v mod b)) of
       None \<Rightarrow> None
     | Some s' \<Rightarrow> if 0 < v div b then ltoa_loop (v div b) s' (i + 1) b else Some (s', i + 1))"
  by pat_completeness auto
termination
proof (relation "measure (\<lambda>(v, s, i, b). v)")
  fix v b :: nat and s i s'
  assume "\<not> b < 2" and "0 < v div b"
  then have "v div b < v" by (intro div_less_dividend) (auto intro: gr0I)
  then show "((v div b, s', i + 1, b), v, s, i, b) \<in> measure (\<lambda>(v, s, i, b). v)" by simp
qed simp

declare ltoa_loop.simps [simp del]

text \<open>The least \<open>long\<close> has no positive counterpart.\<close>

definition sio_ltoa :: "int \<Rightarrow> string \<Rightarrow> nat \<Rightarrow> string option" where
  "sio_ltoa v s b = (
     if v = - (2 ^ 63) then None
     else do {
       (s, i) \<leftarrow> ltoa_loop (nat \<bar>v\<bar>) s 0 b;
       (s, i) \<leftarrow> (if v < 0 then do { s \<leftarrow> vset s i (CHR ''-''); Some (s, i + 1) } else Some (s, i));
       s \<leftarrow> vset s i NUL;
       sio_reverse s })"

definition sio_puts :: "string \<Rightarrow> net \<Rightarrow> (nat option \<times> net) option" where
  "sio_puts s w = do { n \<leftarrow> sio_strlen s; Some (sys_write (take n s) w) }"

definition sio_putl :: "int \<Rightarrow> net \<Rightarrow> (nat option \<times> net) option" where
  "sio_putl v w = do { s \<leftarrow> sio_ltoa v (replicate 128 NUL) 10; sio_puts s w }"

subsection \<open>The text is the number\<close>

lemma sio_strlen_cat: "NUL \<notin> set cs \<Longrightarrow> sio_strlen (cs @ NUL # r) = Some (length cs)"
proof -
  assume "NUL \<notin> set cs"
  then have "takeWhile (\<lambda>c. c \<noteq> NUL) (cs @ NUL # r) = cs" by (induction cs) auto
  then show ?thesis by (simp add: sio_strlen_def)
qed

lemma sio_swap_loop_middle:
  "sio_swap_loop (as @ cs @ bs) (int (length as)) (int (length as + length cs) - 1) = Some (as @ rev cs @ bs)"
proof (induction "length cs" arbitrary: as bs cs rule: less_induct)
  case less
  show ?case
  proof (cases "length cs < 2")
    case True
    then have "rev cs = cs" by (cases cs; cases "tl cs") auto
    then show ?thesis using True by (subst sio_swap_loop.simps) simp
  next
    case False
    then obtain c ms d where cs: "cs = c # ms @ [d]" by (cases cs; cases "tl cs" rule: rev_cases) auto
    have swap: "sio_swap_loop (as @ cs @ bs) (int (length as)) (int (length as + length cs) - 1) =
        sio_swap_loop ((as @ [d]) @ ms @ (c # bs)) (int (length (as @ [d]))) (int (length (as @ [d]) + length ms) - 1)"
    proof -
      have j: "nat (int (length as + length cs) - 1) = length as + Suc (length ms)" using cs by simp
      have g: "vget (as @ cs @ bs) (length as) = Some c" "vget (as @ cs @ bs) (length as + Suc (length ms)) = Some d"
        by (simp_all add: cs vget_def nth_append)
      have s: "vset (as @ cs @ bs) (length as) d = Some (as @ d # ms @ d # bs)"
        "vset (as @ d # ms @ d # bs) (length as + Suc (length ms)) c = Some (as @ d # ms @ c # bs)"
        by (simp_all add: cs vset_def list_update_append)
      show ?thesis unfolding sio_swap_loop.simps [of "as @ cs @ bs"] j nat_int g s Option.bind.bind_lunit using cs by (simp add: add.commute)
    qed
    have "sio_swap_loop ((as @ [d]) @ ms @ (c # bs)) (int (length (as @ [d]))) (int (length (as @ [d]) + length ms) - 1) =
        Some ((as @ [d]) @ rev ms @ (c # bs))"
      using cs by (intro less) simp
    then show ?thesis using swap cs by simp
  qed
qed

lemma sio_reverse_ok: "NUL \<notin> set cs \<Longrightarrow> sio_reverse (cs @ NUL # r) = Some (rev cs @ NUL # r)"
  using sio_swap_loop_middle [of "[]" cs "NUL # r"] by (simp add: sio_reverse_def sio_strlen_cat)

lemma ltoa_loop_ok:
  assumes "length (show_nat v) \<le> length r"
  shows "ltoa_loop v (as @ r) (length as) 10 = Some (as @ rev (show_nat v) @ drop (length (show_nat v)) r, length as + length (show_nat v))"
  using assms
proof (induction v arbitrary: as r rule: show_nat.induct)
  case (1 v)
  have d: "ltoa_digit (v mod 10) = digit (v mod 10)" by (simp add: ltoa_digit_def digit_def add.commute)
  have st: "vset (as @ r) (length as) c = Some (as @ c # drop 1 r)" if "r \<noteq> []" for c
    using that by (cases r) (auto simp: vset_def)
  have ne: "r \<noteq> []" using 1(2) by (subst (asm) show_nat.simps) (auto split: if_splits)
  show ?case
  proof (cases "v < 10")
    case True
    then have "v div 10 = 0" by simp
    then show ?thesis using True d st [OF ne]
      by (subst ltoa_loop.simps, subst (1 2 3) show_nat.simps) (simp del: vset_eq_Some)
  next
    case False
    then have pos: "0 < v div 10" by auto
    have sh: "show_nat v = show_nat (v div 10) @ [digit (v mod 10)]" using False by (subst show_nat.simps) simp
    have "ltoa_loop (v div 10) ((as @ [digit (v mod 10)]) @ drop 1 r) (length (as @ [digit (v mod 10)])) 10 =
        Some ((as @ [digit (v mod 10)]) @ rev (show_nat (v div 10)) @ drop (length (show_nat (v div 10))) (drop 1 r),
          length (as @ [digit (v mod 10)]) + length (show_nat (v div 10)))"
      using 1(2) sh by (intro 1(1) [OF False]) simp
    then show ?thesis using st [OF ne] pos d sh by (subst ltoa_loop.simps) (simp del: vset_eq_Some)
  qed
qed

lemma show_nat_no_NUL: "NUL \<notin> set (show_nat v)"
proof (induction v rule: show_nat.induct)
  case (1 v)
  have "NUL \<noteq> digit k" if "k < 10" for k
  proof
    assume "NUL = digit k"
    then have "of_char (digit k) = (of_char NUL :: nat)" by simp
    then show False using that by (simp add: digit_def NUL_def)
  qed
  then show ?case using 1 by (subst show_nat.simps) auto
qed

lemma sio_ltoa_ok:
  assumes "- (2 ^ 63) < v" and "v < 2 ^ 63" and "22 \<le> length s"
  shows "\<exists>r. sio_ltoa v s 10 = Some (show_int v @ NUL # r)"
proof -
  let ?ds = "show_nat (nat \<bar>v\<bar>)"
  have "nat \<bar>v\<bar> < 10 ^ 19" using assms(1,2) by auto
  then have len: "length ?ds \<le> 19" by (rule length_show_nat) simp
  define t where "t = rev ?ds @ (if v < 0 then ''-'' else [])"
  have loop: "ltoa_loop (nat \<bar>v\<bar>) s 0 10 = Some (rev ?ds @ drop (length ?ds) s, length ?ds)"
    using ltoa_loop_ok [of "nat \<bar>v\<bar>" s "[]"] len assms(3) by simp
  have put: "vset (as @ drop m s) (length as) c = Some (as @ c # drop (Suc m) s)" if "m < length s" for as m and c :: char
    using that by (simp add: vset_def list_update_append flip: Cons_nth_drop_Suc)
  have "sio_ltoa v s 10 = sio_reverse (t @ NUL # drop (Suc (length t)) s)"
  proof (cases "v < 0")
    case True
    have "vset (rev ?ds @ drop (length ?ds) s) (length ?ds) (CHR ''-'') = Some (t @ drop (length t) s)"
      using put [of "length ?ds" "rev ?ds"] len assms(3) True by (simp add: t_def del: vset_eq_Some)
    moreover have "vset (t @ drop (length t) s) (length t) NUL = Some (t @ NUL # drop (Suc (length t)) s)"
      using put [of "length t" t] len assms(3) True by (simp add: t_def del: vset_eq_Some)
    moreover have "length t = length ?ds + 1" using True by (simp add: t_def)
    ultimately show ?thesis using loop assms(1) True by (simp add: sio_ltoa_def del: vset_eq_Some)
  next
    case False
    then have t: "t = rev ?ds" by (simp add: t_def)
    have "vset (rev ?ds @ drop (length ?ds) s) (length ?ds) NUL = Some (rev ?ds @ NUL # drop (Suc (length ?ds)) s)"
      using put [of "length ?ds" "rev ?ds"] len assms(3) by (simp del: vset_eq_Some)
    then show ?thesis using loop assms(1) False t by (simp add: sio_ltoa_def del: vset_eq_Some)
  qed
  moreover have "NUL \<notin> set t" using show_nat_no_NUL by (auto simp: t_def NUL_def)
  moreover have "rev t = show_int v" by (auto simp: t_def show_int_def)
  ultimately show ?thesis using sio_reverse_ok by auto
qed

text \<open>
  Every \<open>long\<close> but the least is printed in decimal, and the decimal reads back; the least
  one is undefined (its negation overflows).
\<close>

theorem sio_putl_correct:
  assumes "- (2 ^ 63) < v" and "v < 2 ^ 63" and "room w = []"
  shows "sio_putl v w = Some (Some (length (show_int v)), w\<lparr>sent := sent w @ show_int v\<rparr>)"
proof -
  obtain r where r: "sio_ltoa v (replicate 128 NUL) 10 = Some (show_int v @ NUL # r)"
    using sio_ltoa_ok [OF assms(1,2), of "replicate 128 NUL"] by auto
  have "NUL \<notin> set (show_int v)" using show_nat_no_NUL by (auto simp: show_int_def NUL_def)
  then have "sio_strlen (show_int v @ NUL # r) = Some (length (show_int v))" by (rule sio_strlen_cat)
  then show ?thesis using r assms(3) by (simp add: sio_putl_def sio_puts_def sys_write_def)
qed

lemma sio_putl_least: "sio_putl (- (2 ^ 63)) w = None"
  by (simp add: sio_putl_def sio_ltoa_def)

section \<open>Opening a socket (tiny/csapp.c)\<close>

text \<open>
  \<open>getaddrinfo\<close> lists addresses; for each of them the result of \<open>socket\<close>, of
  \<open>connect\<close> or \<open>bind\<close>, and of \<open>close\<close> is an input. The descriptors that are open and
  whether the list has been freed are the state.
\<close>

record address =
  a_socket :: int
  a_join :: int
  a_close :: int

record sockets =
  fds :: "int list"
  leaked :: bool

datatype walk = Ended | Broke int | Failed

fun walk_clientfd :: "address list \<Rightarrow> sockets \<Rightarrow> walk \<times> sockets" where
  "walk_clientfd [] k = (Ended, k)"
| "walk_clientfd (p # ps) k = (
     if a_socket p < 0 then walk_clientfd ps k
     else let k = k\<lparr>fds := a_socket p # fds k\<rparr> in
       if a_join p \<noteq> -1 then (Broke (a_socket p), k)
       else if a_close p < 0 then (Failed, k)
       else walk_clientfd ps (k\<lparr>fds := remove1 (a_socket p) (fds k)\<rparr>))"

fun walk_listenfd :: "address list \<Rightarrow> sockets \<Rightarrow> walk \<times> sockets" where
  "walk_listenfd [] k = (Ended, k)"
| "walk_listenfd (p # ps) k = (
     if a_socket p < 0 then walk_listenfd ps k
     else let k = k\<lparr>fds := a_socket p # fds k\<rparr> in
       if a_join p = 0 then (Broke (a_socket p), k)
       else if a_close p < 0 then (Failed, k)
       else walk_listenfd ps (k\<lparr>fds := remove1 (a_socket p) (fds k)\<rparr>))"

text \<open>A failing \<open>close\<close> returns past \<open>freeaddrinfo\<close>.\<close>

definition open_clientfd :: "int \<Rightarrow> address list \<Rightarrow> sockets \<Rightarrow> int \<times> sockets" where
  "open_clientfd rc listp k = (
     if rc \<noteq> 0 then (-2, k)
     else case walk_clientfd listp k of
       (Failed, k) \<Rightarrow> (-1, k\<lparr>leaked := True\<rparr>)
     | (Ended, k) \<Rightarrow> (-1, k)
     | (Broke clientfd, k) \<Rightarrow> (clientfd, k))"

definition open_listenfd :: "int \<Rightarrow> address list \<Rightarrow> int \<Rightarrow> sockets \<Rightarrow> int \<times> sockets" where
  "open_listenfd rc listp listening k = (
     if rc \<noteq> 0 then (-2, k)
     else case walk_listenfd listp k of
       (Failed, k) \<Rightarrow> (-1, k\<lparr>leaked := True\<rparr>)
     | (Ended, k) \<Rightarrow> (-1, k)
     | (Broke listenfd, k) \<Rightarrow>
         if listening < 0 then (-1, k\<lparr>fds := remove1 listenfd (fds k)\<rparr>) else (listenfd, k))"

lemma walk_clientfd_first:
  assumes "\<forall>p \<in> set listp. 0 \<le> a_close p"
  shows "walk_clientfd listp k = (case find (\<lambda>p. 0 \<le> a_socket p \<and> a_join p \<noteq> -1) listp of
    None \<Rightarrow> (Ended, k) | Some p \<Rightarrow> (Broke (a_socket p), k\<lparr>fds := a_socket p # fds k\<rparr>))"
  using assms by (induction listp) (auto simp: Let_def)

lemma walk_listenfd_first:
  assumes "\<forall>p \<in> set listp. 0 \<le> a_close p"
  shows "walk_listenfd listp k = (case find (\<lambda>p. 0 \<le> a_socket p \<and> a_join p = 0) listp of
    None \<Rightarrow> (Ended, k) | Some p \<Rightarrow> (Broke (a_socket p), k\<lparr>fds := a_socket p # fds k\<rparr>))"
  using assms by (induction listp) (auto simp: Let_def)

text \<open>
  While \<open>close\<close> works, both return the descriptor of the first address that accepts them, which is
  then the only one that has been opened, or -1 with every descriptor closed again.
\<close>

theorem open_fd_leaks_nothing:
  assumes "\<forall>p \<in> set listp. 0 \<le> a_close p"
  shows "open_clientfd 0 listp k = (case find (\<lambda>p. 0 \<le> a_socket p \<and> a_join p \<noteq> -1) listp of
      None \<Rightarrow> (-1, k) | Some p \<Rightarrow> (a_socket p, k\<lparr>fds := a_socket p # fds k\<rparr>))"
    and "open_listenfd 0 listp listening k = (case find (\<lambda>p. 0 \<le> a_socket p \<and> a_join p = 0) listp of
      None \<Rightarrow> (-1, k) | Some p \<Rightarrow> if listening < 0 then (-1, k) else (a_socket p, k\<lparr>fds := a_socket p # fds k\<rparr>))"
  by (simp_all add: open_clientfd_def open_listenfd_def walk_clientfd_first [OF assms] walk_listenfd_first [OF assms]
      split: option.split)

lemma open_clientfd_leak:
  "open_clientfd 0 [\<lparr>a_socket = 3, a_join = -1, a_close = -1\<rparr>] \<lparr>fds = [], leaked = False\<rparr> = (-1, \<lparr>fds = [3], leaked = True\<rparr>)"
  by (simp add: open_clientfd_def)

end
