(* ===== verification/EchoServers.thy ===== *)
theory EchoServers
  imports Prelude
begin

unbundle bit_operations_syntax

section \<open>The echo servers (network/echo)\<close>

text \<open>
  One turn of the loop of echoPollServer.cc and echoEpollServer.cc. What the system calls answer in
  this turn is a \<open>turn\<close>; the servers' state is the table of descriptors they watch, the
  descriptor they hold in reserve, the texts they have written and the descriptors they have closed.
\<close>

datatype accept_result = Accepted int | Emfile | Accept_error

text \<open>\<open>Bytes []\<close> is the end of the input.\<close>

datatype read_result = Bytes string | Read_error

record turn =
  t_ready :: int                       \<comment> \<open>result of \<open>poll\<close> or \<open>epoll_wait\<close>\<close>
  t_eintr :: bool
  t_revents :: "16 word list"
  t_accept :: accept_result
  t_spare :: int                       \<comment> \<open>the connection taken with the reserve\<close>
  t_reopen :: int                      \<comment> \<open>result of opening the reserve again\<close>
  t_read :: "int \<Rightarrow> read_result"

record echo =
  pollfds :: "pollfd list"
  idlefd :: int
  written :: "(int \<times> string) list"
  closed :: "int list"

datatype 's outcome = Next 's | Exits | Undefined

definition POLLIN16 :: "16 word" where "POLLIN16 = 1"

definition wants_read :: "pollfd \<Rightarrow> bool" where
  "wants_read p \<longleftrightarrow> revents p AND POLLIN16 \<noteq> 0"

text \<open>
  What \<open>strlen\<close> sees of 1024 zero bytes that \<open>bs\<close> was read into: without a zero byte it runs
  over the array.
\<close>

definition echo_text :: "string \<Rightarrow> string option" where
  "echo_text bs = (
     let buf = bs @ replicate (1024 - length bs) (CHR 0x00) in
     if CHR 0x00 \<in> set buf then Some (takeWhile (\<lambda>c. c \<noteq> CHR 0x00) buf) else None)"

subsection \<open>The server with poll\<close>

text \<open>
  The loop over the connections. After \<open>erase\<close> the iterator stands on the next element; the
  decrement and the increment of the loop cancel.
\<close>

function serve_ready :: "turn \<Rightarrow> nat \<Rightarrow> int \<Rightarrow> echo \<Rightarrow> echo outcome" where
  "serve_ready t it nready s = (
     if it < length (pollfds s) \<and> 0 < nready then
       (let p = pollfds s ! it in
        if wants_read p then
          (case t_read t (fd p) of
             Read_error \<Rightarrow> Exits
           | Bytes bs \<Rightarrow>
               if bs = [] then
                 serve_ready t it (nready - 1)
                   (s\<lparr>pollfds := take it (pollfds s) @ drop (Suc it) (pollfds s), closed := closed s @ [fd p]\<rparr>)
               else (case echo_text bs of
                   None \<Rightarrow> Undefined
                 | Some txt \<Rightarrow> serve_ready t (Suc it) (nready - 1) (s\<lparr>written := written s @ [(fd p, txt)]\<rparr>)))
        else serve_ready t (Suc it) nready s)
     else Next s)"
  by pat_completeness auto
termination
  by (relation "measure (\<lambda>(t, it, nready, s). length (pollfds s) - it)") auto

declare serve_ready.simps [simp del]

definition poll_turn :: "turn \<Rightarrow> echo \<Rightarrow> echo outcome" where
  "poll_turn t s = (
     if t_ready t = -1 then (if t_eintr t then Next s else Exits)
     else
       let s = s\<lparr>pollfds := map2 (\<lambda>p r. p\<lparr>revents := r\<rparr>) (pollfds s) (t_revents t)\<rparr> in
       if t_ready t = 0 then Next s
       else if pollfds s = [] then Undefined
       else if wants_read (pollfds s ! 0) then
         (case t_accept t of
            Accept_error \<Rightarrow> Exits
          | Emfile \<Rightarrow> Next (s\<lparr>closed := closed s @ [idlefd s, t_spare t], idlefd := t_reopen t\<rparr>)
          | Accepted connfd \<Rightarrow>
              let s = s\<lparr>pollfds := pollfds s @ [\<lparr>fd = connfd, pevents = POLLIN16, revents = 0\<rparr>]\<rparr> in
              if t_ready t - 1 = 0 then Next s else serve_ready t 1 (t_ready t - 1) s)
       else serve_ready t 1 (t_ready t) s)"

subsection \<open>What one turn does\<close>

text \<open>The connections that hang up, and what the others are sent.\<close>

definition hangs_up :: "turn \<Rightarrow> pollfd \<Rightarrow> bool" where
  "hangs_up t p \<longleftrightarrow> wants_read p \<and> t_read t (fd p) = Bytes []"

definition reply :: "turn \<Rightarrow> pollfd \<Rightarrow> (int \<times> string) list" where
  "reply t p = (if wants_read p then (case t_read t (fd p) of
       Bytes (b # bs) \<Rightarrow> [(fd p, takeWhile (\<lambda>c. c \<noteq> CHR 0x00) (b # bs))] | _ \<Rightarrow> []) else [])"

definition fine :: "turn \<Rightarrow> pollfd \<Rightarrow> bool" where
  "fine t p \<longleftrightarrow> (wants_read p \<longrightarrow> (\<exists>bs. t_read t (fd p) = Bytes bs \<and> length bs < 1024))"

lemma echo_text_short: "length bs < 1024 \<Longrightarrow> echo_text bs = Some (takeWhile (\<lambda>c. c \<noteq> CHR 0x00) bs)"
proof -
  assume l: "length bs < 1024"
  have "takeWhile (\<lambda>c. c \<noteq> CHR 0x00) (bs @ replicate k (CHR 0x00)) = takeWhile (\<lambda>c. c \<noteq> CHR 0x00) bs" for k
    by (induction bs) (cases k; auto)+
  then show ?thesis using l by (simp add: echo_text_def Let_def)
qed

lemma echo_text_full: "length bs = 1024 \<Longrightarrow> CHR 0x00 \<notin> set bs \<Longrightarrow> echo_text bs = None"
  by (simp add: echo_text_def)

lemma serve_ready_ok:
  assumes "pollfds s = ds @ ps" and "it = length ds" and "\<forall>p \<in> set ps. fine t p"
    and "int (length (filter wants_read ps)) \<le> nready"
  shows "serve_ready t it nready s = Next (s\<lparr>pollfds := ds @ filter (\<lambda>p. \<not> hangs_up t p) ps,
    written := written s @ concat (map (reply t) ps), closed := closed s @ map fd (filter (hangs_up t) ps)\<rparr>)"
  using assms
proof (induction ps arbitrary: s ds it nready)
  case Nil
  then show ?case by (subst serve_ready.simps) simp
next
  case (Cons p ps)
  have idx: "it < length (pollfds s)" "pollfds s ! it = p" using Cons(2,3) by simp_all
  have later: "\<forall>p \<in> set ps. fine t p" using Cons(4) by simp
  show ?case
  proof (cases "wants_read p")
    case False
    have q: "\<not> hangs_up t p" "reply t p = []" using False by (auto simp: hangs_up_def reply_def)
    show ?thesis
    proof (cases "0 < nready")
      case True
      have "serve_ready t (Suc it) nready s = Next (s\<lparr>pollfds := (ds @ [p]) @ filter (\<lambda>p. \<not> hangs_up t p) ps,
          written := written s @ concat (map (reply t) ps), closed := closed s @ map fd (filter (hangs_up t) ps)\<rparr>)"
        using Cons(2-5) False by (intro Cons(1)) auto
      then show ?thesis using idx True False q by (subst serve_ready.simps) simp
    next
      case stop: False
      have "int (length (filter wants_read ps)) \<le> nready" using Cons(5) False by simp
      then have "length (filter wants_read ps) = 0" using stop by linarith
      then have "filter wants_read ps = []" by simp
      then have quiet: "\<not> wants_read x" if "x \<in> set ps" for x using that by (metis filter_empty_conv)
      then have "filter (\<lambda>p. \<not> hangs_up t p) ps = ps" "filter (hangs_up t) ps = []" "concat (map (reply t) ps) = []"
        by (auto simp: filter_empty_conv filter_id_conv hangs_up_def reply_def)
      then show ?thesis using stop q Cons(2) by (subst serve_ready.simps) simp
    qed
  next
    case w: True
    have pos: "0 < nready" and n: "int (length (filter wants_read ps)) \<le> nready - 1" using Cons(5) w by simp_all
    obtain bs where bs: "t_read t (fd p) = Bytes bs" "length bs < 1024" using Cons(4) w by (auto simp: fine_def)
    show ?thesis
    proof (cases "bs = []")
      case True
      have h: "hangs_up t p" "reply t p = []" using w bs(1) True by (auto simp: hangs_up_def reply_def)
      let ?s = "s\<lparr>pollfds := ds @ ps, closed := closed s @ [fd p]\<rparr>"
      have "serve_ready t it (nready - 1) ?s = Next (?s\<lparr>pollfds := ds @ filter (\<lambda>p. \<not> hangs_up t p) ps,
          written := written ?s @ concat (map (reply t) ps), closed := closed ?s @ map fd (filter (hangs_up t) ps)\<rparr>)"
        using Cons(3) later n by (intro Cons(1)) auto
      moreover have "take it (pollfds s) @ drop (Suc it) (pollfds s) = ds @ ps" using Cons(2,3) by simp
      ultimately show ?thesis using idx pos w bs(1) True h by (subst serve_ready.simps) (simp add: Let_def)
    next
      case False
      have r: "\<not> hangs_up t p" "reply t p = [(fd p, takeWhile (\<lambda>c. c \<noteq> CHR 0x00) bs)]"
        using w bs(1) False by (auto simp: hangs_up_def reply_def neq_Nil_conv split: list.splits)
      let ?s = "s\<lparr>written := written s @ [(fd p, takeWhile (\<lambda>c. c \<noteq> CHR 0x00) bs)]\<rparr>"
      have "serve_ready t (Suc it) (nready - 1) ?s = Next (?s\<lparr>pollfds := (ds @ [p]) @ filter (\<lambda>p. \<not> hangs_up t p) ps,
          written := written ?s @ concat (map (reply t) ps), closed := closed ?s @ map fd (filter (hangs_up t) ps)\<rparr>)"
        using Cons(2,3) later n by (intro Cons(1)) auto
      then show ?thesis using idx pos w bs False r echo_text_short [OF bs(2)] by (subst serve_ready.simps) (simp add: Let_def)
    qed
  qed
qed

text \<open>The table as \<open>poll\<close> leaves it.\<close>

definition polled :: "turn \<Rightarrow> pollfd list \<Rightarrow> pollfd list" where
  "polled t ps = map2 (\<lambda>p r. p\<lparr>revents := r\<rparr>) ps (t_revents t)"

text \<open>\<open>poll\<close> says how many entries have an event, and every read of this turn is short and works.\<close>

definition good_turn :: "turn \<Rightarrow> echo \<Rightarrow> bool" where
  "good_turn t s \<longleftrightarrow> length (t_revents t) = length (pollfds s) \<and> 0 < t_ready t \<and>
     t_ready t = int (length (filter (\<lambda>p. revents p \<noteq> 0) (polled t (pollfds s)))) \<and> (\<forall>p \<in> set (tl (polled t (pollfds s))). fine t p)"

lemma wants_read_event: "wants_read p \<Longrightarrow> revents p \<noteq> 0"
  by (auto simp: wants_read_def)

lemma ready_enough: "int (length (filter wants_read ps)) \<le> int (length (filter (\<lambda>p. revents p \<noteq> 0) ps))"
  by (induction ps) (auto dest: wants_read_event)

lemma poll_turn_ok:
  assumes "good_turn t s" and "polled t (pollfds s) = l # ps" and "\<not> wants_read l"
  shows "poll_turn t s = Next (s\<lparr>pollfds := l # filter (\<lambda>p. \<not> hangs_up t p) ps,
    written := written s @ concat (map (reply t) ps), closed := closed s @ map fd (filter (hangs_up t) ps)\<rparr>)"
proof -
  have n: "int (length (filter wants_read ps)) \<le> t_ready t" "t_ready t \<noteq> -1" "t_ready t \<noteq> 0"
    using assms(1,2) ready_enough [of ps] by (auto simp: good_turn_def split: if_splits)
  have "serve_ready t 1 (t_ready t) (s\<lparr>pollfds := l # ps\<rparr>) = Next ((s\<lparr>pollfds := l # ps\<rparr>)\<lparr>pollfds := [l] @ filter (\<lambda>p. \<not> hangs_up t p) ps,
      written := written (s\<lparr>pollfds := l # ps\<rparr>) @ concat (map (reply t) ps), closed := closed (s\<lparr>pollfds := l # ps\<rparr>) @ map fd (filter (hangs_up t) ps)\<rparr>)"
    using assms(1,2) n(1) by (intro serve_ready_ok) (auto simp: good_turn_def)
  then show ?thesis using assms(2,3) n(2,3) by (simp add: poll_turn_def Let_def polled_def)
qed

lemma poll_turn_accepts:
  assumes "good_turn t s" and "polled t (pollfds s) = l # ps" and "wants_read l" and "t_accept t = Accepted c"
  shows "poll_turn t s = Next (s\<lparr>pollfds := l # filter (\<lambda>p. \<not> hangs_up t p) ps @ [\<lparr>fd = c, pevents = POLLIN16, revents = 0\<rparr>],
    written := written s @ concat (map (reply t) ps), closed := closed s @ map fd (filter (hangs_up t) ps)\<rparr>)"
proof -
  let ?p = "\<lparr>fd = c, pevents = POLLIN16, revents = 0\<rparr>"
  have quiet: "\<not> wants_read ?p" "\<not> hangs_up t ?p" "reply t ?p = []" by (auto simp: wants_read_def hangs_up_def reply_def)
  have nz: "revents l \<noteq> 0" using assms(3) by (rule wants_read_event)
  have n: "int (length (filter wants_read (ps @ [?p]))) \<le> t_ready t - 1" "t_ready t \<noteq> -1" "t_ready t \<noteq> 0"
    using assms(1,2) ready_enough [of ps] quiet(1) nz by (auto simp: good_turn_def)
  let ?s = "s\<lparr>pollfds := l # ps @ [?p]\<rparr>"
  have go: "serve_ready t 1 (t_ready t - 1) ?s = Next (?s\<lparr>pollfds := [l] @ filter (\<lambda>p. \<not> hangs_up t p) (ps @ [?p]),
      written := written ?s @ concat (map (reply t) (ps @ [?p])), closed := closed ?s @ map fd (filter (hangs_up t) (ps @ [?p]))\<rparr>)"
    using assms(1,2) n(1) quiet by (intro serve_ready_ok) (auto simp: good_turn_def fine_def)
  show ?thesis
  proof (cases "t_ready t - 1 = 0")
    case False
    then show ?thesis using assms(2-4) n(2,3) go quiet by (simp add: poll_turn_def Let_def polled_def)
  next
    case True
    have "serve_ready t 1 (t_ready t - 1) ?s = Next ?s" using True by (subst serve_ready.simps) simp
    then show ?thesis using assms(2-4) n(2,3) go quiet True by (simp add: poll_turn_def Let_def polled_def)
  qed
qed

text \<open>
  With no descriptor left the server takes and drops one connection, if its reserve was open, and
  then starts the next turn without looking at the connections it has.
\<close>

lemma poll_turn_emfile:
  assumes "polled t (pollfds s) = l # ps" and "t_ready t \<noteq> -1" and "t_ready t \<noteq> 0" and "wants_read l" and "t_accept t = Emfile"
  shows "poll_turn t s = Next (s\<lparr>pollfds := l # ps, closed := closed s @ [idlefd s, t_spare t], idlefd := t_reopen t\<rparr>)"
  using assms by (simp add: poll_turn_def Let_def polled_def)

fun poll_run :: "turn list \<Rightarrow> echo \<Rightarrow> echo outcome" where
  "poll_run [] s = Next s"
| "poll_run (t # ts) s = (case poll_turn t s of Next s \<Rightarrow> poll_run ts s | r \<Rightarrow> r)"

text \<open>A turn in which the listening socket is ready and the process has no descriptor left.\<close>

definition starved :: "turn \<Rightarrow> nat \<Rightarrow> bool" where
  "starved t n \<longleftrightarrow> length (t_revents t) = n \<and> t_ready t \<noteq> -1 \<and> t_ready t \<noteq> 0 \<and> t_accept t = Emfile \<and>
     hd (t_revents t) AND POLLIN16 \<noteq> 0"

lemma polled_fds: "length (t_revents t) = length ps \<Longrightarrow> map fd (polled t ps) = map fd ps"
proof -
  have "length rs = length ps \<Longrightarrow> map fd (map2 (\<lambda>p r. p\<lparr>revents := r\<rparr>) ps rs) = map fd ps" for rs
    by (induction rs ps rule: list_induct2) auto
  then show "length (t_revents t) = length ps \<Longrightarrow> map fd (polled t ps) = map fd ps" by (simp add: polled_def)
qed

lemma poll_run_starves:
  assumes "pollfds s \<noteq> []" and "\<forall>t \<in> set ts. starved t (length (pollfds s))"
  shows "\<exists>s'. poll_run ts s = Next s' \<and> written s' = written s \<and> map fd (pollfds s') = map fd (pollfds s)"
  using assms
proof (induction ts arbitrary: s)
  case (Cons t ts)
  then have st: "starved t (length (pollfds s))" by simp
  obtain p ps r rs where d: "pollfds s = p # ps" "t_revents t = r # rs" "length rs = length ps"
    using Cons(2) st by (cases "pollfds s"; cases "t_revents t") (auto simp: starved_def)
  have w: "polled t (pollfds s) = p\<lparr>revents := r\<rparr> # polled (t\<lparr>t_revents := rs\<rparr>) ps" using d by (simp add: polled_def)
  have "poll_turn t s = Next (s\<lparr>pollfds := polled t (pollfds s), closed := closed s @ [idlefd s, t_spare t], idlefd := t_reopen t\<rparr>)"
    unfolding w using st d(2) w by (intro poll_turn_emfile) (auto simp: starved_def wants_read_def)
  then have run: "poll_run (t # ts) s = poll_run ts (s\<lparr>pollfds := polled t (pollfds s), closed := closed s @ [idlefd s, t_spare t], idlefd := t_reopen t\<rparr>)"
    (is "_ = poll_run ts ?s") by simp
  have len: "length (t_revents t) = length (pollfds s)" using st by (simp add: starved_def)
  have same: "map fd (pollfds ?s) = map fd (pollfds s)" "length (pollfds ?s) = length (pollfds s)" "written ?s = written s"
    using polled_fds [OF len] len by (simp_all add: polled_def)
  have "\<exists>s'. poll_run ts ?s = Next s' \<and> written s' = written ?s \<and> map fd (pollfds s') = map fd (pollfds ?s)"
    using Cons(2,3) same(2) by (intro Cons(1)) auto
  then show ?case unfolding run using same by simp
qed simp

subsection \<open>The server with epoll\<close>

record epoll_echo =
  watched :: "int list"                \<comment> \<open>the descriptors registered with the epoll instance\<close>
  clients :: "int list"
  events_size :: nat
  e_idlefd :: int
  e_written :: "(int \<times> string) list"
  e_closed :: "int list"

definition EPOLLIN32 :: "32 word" where "EPOLLIN32 = 1"

text \<open>The loop over the events. Closing a descriptor takes it off the epoll instance.\<close>

fun echo_events :: "turn \<Rightarrow> int \<Rightarrow> (int \<times> 32 word) list \<Rightarrow> epoll_echo \<Rightarrow> epoll_echo outcome" where
  "echo_events t listenfd [] s = Next s"
| "echo_events t listenfd ((x, ev) # es) s = (
     if x = listenfd then
       (case t_accept t of
          Emfile \<Rightarrow> echo_events t listenfd es (s\<lparr>e_closed := e_closed s @ [e_idlefd s, t_spare t], e_idlefd := t_reopen t\<rparr>)
        | Accept_error \<Rightarrow> Exits
        | Accepted connfd \<Rightarrow> echo_events t listenfd es (s\<lparr>clients := clients s @ [connfd], watched := watched s @ [connfd]\<rparr>))
     else if ev AND EPOLLIN32 \<noteq> 0 then
       if x < 0 then echo_events t listenfd es s
       else (case t_read t x of
          Read_error \<Rightarrow> Exits
        | Bytes bs \<Rightarrow>
            if bs = [] then echo_events t listenfd es
              (s\<lparr>e_closed := e_closed s @ [x], watched := filter (\<lambda>y. y \<noteq> x) (watched s), clients := filter (\<lambda>y. y \<noteq> x) (clients s)\<rparr>)
            else (case echo_text bs of
                None \<Rightarrow> Undefined
              | Some txt \<Rightarrow> echo_events t listenfd es (s\<lparr>e_written := e_written s @ [(x, txt)]\<rparr>)))
     else echo_events t listenfd es s)"

definition epoll_turn :: "turn \<Rightarrow> int \<Rightarrow> (int \<times> 32 word) list \<Rightarrow> epoll_echo \<Rightarrow> epoll_echo outcome" where
  "epoll_turn t listenfd evs s = (
     if t_ready t = -1 then (if t_eintr t then Next s else Exits)
     else if t_ready t = 0 then Next s
     else
       let s = (if nat (t_ready t) = events_size s then s\<lparr>events_size := events_size s * 2\<rparr> else s) in
       echo_events t listenfd (take (nat (t_ready t)) evs) s)"

text \<open>The events that \<open>epoll_wait\<close> reports for the same descriptors as \<open>poll\<close>.\<close>

definition events_of :: "pollfd list \<Rightarrow> (int \<times> 32 word) list" where
  "events_of ps = map (\<lambda>p. (fd p, ucast (revents p))) (filter (\<lambda>p. revents p \<noteq> 0) ps)"

lemma low_bit: "(x :: 'a::len word) AND 1 = 0 \<longleftrightarrow> \<not> bit x 0"
  by (simp add: and_one_eq bit_0 odd_iff_mod_2_eq_one)

lemma EPOLLIN_of_POLLIN: "(ucast (revents p) :: 32 word) AND EPOLLIN32 \<noteq> 0 \<longleftrightarrow> wants_read p"
proof -
  have "bit (ucast (revents p) :: 32 word) 0 \<longleftrightarrow> bit (revents p) 0" by (simp add: bit_unsigned_iff)
  then show ?thesis by (simp add: wants_read_def EPOLLIN32_def POLLIN16_def low_bit)
qed

text \<open>The events of the connections, none of them the listening socket.\<close>

lemma echo_events_ok:
  assumes "\<forall>p \<in> set ps. fine t p \<and> 0 \<le> fd p \<and> fd p \<noteq> listenfd"
  shows "echo_events t listenfd (events_of ps) s = Next (s\<lparr>
    clients := filter (\<lambda>x. x \<notin> fd ` set (filter (hangs_up t) ps)) (clients s),
    watched := filter (\<lambda>x. x \<notin> fd ` set (filter (hangs_up t) ps)) (watched s),
    e_written := e_written s @ concat (map (reply t) ps), e_closed := e_closed s @ map fd (filter (hangs_up t) ps)\<rparr>)"
  using assms
proof (induction ps arbitrary: s)
  case (Cons p ps)
  show ?case
  proof (cases "wants_read p")
    case False
    then have "hangs_up t p = False" "reply t p = []" by (auto simp: hangs_up_def reply_def)
    then show ?thesis using Cons False EPOLLIN_of_POLLIN [of p] by (auto simp: events_of_def)
  next
    case True
    then have ev: "revents p \<noteq> 0" "(ucast (revents p) :: 32 word) AND EPOLLIN32 \<noteq> 0"
      using EPOLLIN_of_POLLIN [of p] wants_read_event by auto
    obtain bs where bs: "t_read t (fd p) = Bytes bs" "length bs < 1024" using Cons(2) True by (auto simp: fine_def)
    show ?thesis
    proof (cases "bs = []")
      case e: True
      then have h: "hangs_up t p" "reply t p = []" using True bs(1) by (auto simp: hangs_up_def reply_def)
      let ?gone = "fd ` set (filter (hangs_up t) ps)"
      have "fd ` set (filter (hangs_up t) (p # ps)) = insert (fd p) ?gone" using h(1) by auto
      then have "filter (\<lambda>x. x \<notin> fd ` set (filter (hangs_up t) (p # ps))) xs = filter (\<lambda>x. x \<notin> ?gone) (filter (\<lambda>y. y \<noteq> fd p) xs)" for xs
        by (induction xs) auto
      then show ?thesis using Cons ev bs(1) e h by (simp add: events_of_def)
    next
      case False
      then have r: "\<not> hangs_up t p" "reply t p = [(fd p, takeWhile (\<lambda>c. c \<noteq> CHR 0x00) bs)]"
        using True bs(1) by (auto simp: hangs_up_def reply_def neq_Nil_conv split: list.splits)
      then show ?thesis using Cons ev bs False r echo_text_short [OF bs(2)] by (simp add: events_of_def)
    qed
  qed
qed (simp add: events_of_def)

text \<open>
  C32: on the same answers of the kernel, in a turn without a new connection, the two servers write
  the same texts to the same connections, each of them what was read up to a zero byte, close the
  same ones, and go on with the same connections, in the same order.
\<close>

theorem echo_servers_agree:
  assumes "good_turn t s" and "polled t (pollfds s) = l # ps" and "\<not> wants_read l" and "revents l = 0"
    and "clients e = map fd ps" and "distinct (map fd (l # ps))" and "\<forall>p \<in> set ps. 0 \<le> fd p"
  shows "\<exists>s' e'. poll_turn t s = Next s' \<and> epoll_turn t (fd l) (events_of ps) e = Next e' \<and>
    written s' = written s @ concat (map (reply t) ps) \<and> e_written e' = e_written e @ concat (map (reply t) ps) \<and>
    closed s' = closed s @ map fd (filter (hangs_up t) ps) \<and> e_closed e' = e_closed e @ map fd (filter (hangs_up t) ps) \<and>
    map fd (tl (pollfds s')) = clients e' \<and> clients e' = map fd (filter (\<lambda>p. \<not> hangs_up t p) ps)"
proof -
  have ready: "nat (t_ready t) = length (events_of ps)" "t_ready t \<noteq> -1" "t_ready t \<noteq> 0"
    using assms(1,2,4) by (auto simp: good_turn_def events_of_def)
  have ok: "\<forall>p \<in> set ps. fine t p \<and> 0 \<le> fd p \<and> fd p \<noteq> fd l"
  proof
    fix p assume p: "p \<in> set ps"
    have "fd l \<notin> fd ` set ps" using assms(6) by simp
    then have "fd p \<noteq> fd l" using imageI [OF p, of fd] by metis
    then show "fine t p \<and> 0 \<le> fd p \<and> fd p \<noteq> fd l" using assms(1,2,7) p by (simp add: good_turn_def)
  qed
  let ?gone = "fd ` set (filter (hangs_up t) ps)"
  have kept: "filter (\<lambda>x. x \<notin> ?gone) (map fd ps) = map fd (filter (\<lambda>p. \<not> hangs_up t p) ps)"
  proof -
    have "inj_on fd (set ps)" using assms(6) by (simp add: distinct_map)
    then have "fd p \<in> ?gone \<longleftrightarrow> hangs_up t p" if "p \<in> set ps" for p using that by (auto dest: inj_onD)
    then show ?thesis unfolding filter_map comp_def by (intro arg_cong [of _ _ "map fd"] filter_cong) auto
  qed
  show ?thesis
    using poll_turn_ok [OF assms(1-3)] echo_events_ok [OF ok] ready assms(5) kept
    by (simp add: epoll_turn_def Let_def)
qed

theorem echo_servers_agree_witness:
  "\<exists>s'. poll_turn \<lparr>t_ready = 1, t_eintr = False, t_revents = [0, 1], t_accept = Emfile, t_spare = -1, t_reopen = -1, t_read = (\<lambda>x. Bytes ''hi'')\<rparr>
      \<lparr>pollfds = [\<lparr>fd = 3, pevents = 1, revents = 0\<rparr>, \<lparr>fd = 5, pevents = 1, revents = 0\<rparr>], idlefd = -1, written = [], closed = []\<rparr> = Next s' \<and>
    written s' = [(5, ''hi'')]"
proof -
  let ?t = "\<lparr>t_ready = 1, t_eintr = False, t_revents = [0, 1], t_accept = Emfile, t_spare = -1, t_reopen = -1, t_read = (\<lambda>x. Bytes ''hi'')\<rparr>"
  let ?s = "\<lparr>pollfds = [\<lparr>fd = 3, pevents = 1, revents = 0\<rparr>, \<lparr>fd = 5, pevents = 1, revents = 0\<rparr>], idlefd = -1, written = [], closed = []\<rparr>"
  let ?e = "\<lparr>watched = [3, 5], clients = [5], events_size = 16, e_idlefd = 4, e_written = [], e_closed = []\<rparr>"
  let ?l = "\<lparr>fd = 3, pevents = 1, revents = 0\<rparr>" and ?p = "\<lparr>fd = 5, pevents = 1, revents = 1\<rparr>"
  have p: "polled ?t (pollfds ?s) = ?l # [?p]" by (simp add: polled_def)
  have g: "good_turn ?t ?s" unfolding good_turn_def p by (simp add: fine_def)
  have l: "\<not> wants_read ?l" "revents ?l = 0" by (simp_all add: wants_read_def)
  have c: "clients ?e = map fd [?p]" "distinct (map fd (?l # [?p]))" "\<forall>p \<in> set [?p]. 0 \<le> fd p" by simp_all
  have r: "reply ?t ?p = [(5, ''hi'')]" by (simp add: reply_def wants_read_def POLLIN16_def)
  show ?thesis using echo_servers_agree [OF g p l c] r by auto
qed

end
