(* ===== verification/EdgeRemoval.thy ===== *)
theory EdgeRemoval
  imports Graph
begin

section \<open>Removing edges (leetcode/graph/removeEdgesKeepFullyTraversable.cc)\<close>

text \<open>
  Two people walk a graph: edges of type 3 are for both, the others for one of them. The
  program counts the edges that both can do without. Its class \<open>DSU\<close> is, statement for
  statement, the one of struct/DisjointSetUnion.cc, so the model uses the operations of
  UnionFind. An edge is a vector \<open>{type, x, y}\<close>; a node is read from it as an index.

  The result is compared with every set of edges that keeps the graph traversable: the
  number of classes of a relation (\<open>classes\<close>) says how many edges any such set needs.
\<close>

subsection \<open>The program\<close>

definition merge_edge :: "dsu \<Rightarrow> int list \<Rightarrow> (int \<times> dsu) option" where
  "merge_edge d e = do {
     x \<leftarrow> vget e 1;
     y \<leftarrow> vget e 2;
     if x < 0 \<or> y < 0 then None else dsu_merge d (nat x) (nat y) }"

fun shared_edges :: "int list list \<Rightarrow> dsu \<Rightarrow> int \<Rightarrow> (int \<times> dsu) option" where
  "shared_edges [] A res = Some (res, A)"
| "shared_edges (e # es) A res = do {
     t \<leftarrow> vget e 0;
     if t \<noteq> 3 then shared_edges es A res
     else do { (k, A) \<leftarrow> merge_edge A e; shared_edges es A (res + k) } }"

fun own_edges :: "int list list \<Rightarrow> dsu \<Rightarrow> dsu \<Rightarrow> int \<Rightarrow> (int \<times> dsu \<times> dsu) option" where
  "own_edges [] A B res = Some (res, A, B)"
| "own_edges (e # es) A B res = do {
     t \<leftarrow> vget e 0;
     if t = 3 then own_edges es A B res
     else if t = 1 then do { (k, A) \<leftarrow> merge_edge A e; own_edges es A B (res + k) }
     else do { (k, B) \<leftarrow> merge_edge B e; own_edges es A B (res + k) } }"

definition maxNumEdgesToRemove :: "nat \<Rightarrow> int list list \<Rightarrow> int option" where
  "maxNumEdgesToRemove n es = do {
     (res, A) \<leftarrow> shared_edges es (DSU n) 0;
     let B = A;
     (res, A, B) \<leftarrow> own_edges es A B res;
     Some (if dsu_edges A = int n - 1 \<and> dsu_edges B = int n - 1 then res else - 1) }"

subsection \<open>Counting classes\<close>

definition classes :: "(nat \<Rightarrow> nat \<Rightarrow> bool) \<Rightarrow> nat \<Rightarrow> nat" where
  "classes R n = card ((\<lambda>x. {y. y \<le> n \<and> R x y}) ` {..n})"

lemma classes_anti:
  assumes R: "equivp R" and S: "equivp S" and le: "\<And>x y. R x y \<Longrightarrow> S x y"
  shows "classes S n \<le> classes R n"
proof -
  let ?h = "\<lambda>C. {y. y \<le> n \<and> (\<exists>z \<in> C. S z y)}"
  have "{y. y \<le> n \<and> S x y} = ?h {y. y \<le> n \<and> R x y}" if "x \<le> n" for x
    using that equivp_reflp [OF R, of x] le equivp_symp [OF S] equivp_transp [OF S] by blast
  then have "(\<lambda>x. {y. y \<le> n \<and> S x y}) ` {..n} = ?h ` (\<lambda>x. {y. y \<le> n \<and> R x y}) ` {..n}"
    by (auto simp: image_image)
  then show ?thesis unfolding classes_def by (simp add: card_image_le)
qed

lemma classes_kernel: "classes (\<lambda>x y. f x = f y) n = card (f ` {..n})"
proof -
  let ?h = "\<lambda>c. {y. y \<le> n \<and> c = f y}"
  have "(\<lambda>x. {y. y \<le> n \<and> f x = f y}) ` {..n} = ?h ` f ` {..n}" by (auto simp: image_image)
  moreover have "inj_on ?h (f ` {..n})" by (rule inj_onI) blast
  ultimately show ?thesis unfolding classes_def by (simp add: card_image)
qed

lemma image_redirect:
  assumes "a \<in> A" and "b \<in> A" and "f b \<noteq> f a" and "finite A"
  shows "card (f ` A) = card ((\<lambda>x. if f x = f a then f b else f x) ` A) + 1"
proof -
  have "(\<lambda>x. if f x = f a then f b else f x) ` A = f ` A - {f a}"
    using assms(2,3) by (auto simp: image_iff)
  moreover have "f a \<in> f ` A" using assms(1) by blast
  ultimately show ?thesis using card.remove [of "f ` A" "f a"] assms(4) by simp
qed

lemma classes_join:
  assumes "equivp R" and "a \<le> n" and "b \<le> n" and "\<not> R a b"
  shows "classes R n = classes (join R a b) n + 1"
proof -
  obtain f :: "nat \<Rightarrow> nat \<Rightarrow> bool" where R: "R = (\<lambda>x y. f x = f y)" using equivp_classes [OF assms(1)] .
  have ne: "f b \<noteq> f a" using assms(4) unfolding R by metis
  have j: "join R a b = (\<lambda>x y. (if f x = f a then f b else f x) = (if f y = f a then f b else f y))"
    unfolding R by (rule join_kernel)
  have "card (f ` {..n}) = card ((\<lambda>x. if f x = f a then f b else f x) ` {..n}) + 1"
    by (rule image_redirect) (use assms(2,3) ne in \<open>simp_all only: atMost_iff finite_atMost not_False_eq_True\<close>)
  then show ?thesis unfolding j unfolding R
    unfolding classes_kernel [of f] classes_kernel [of "\<lambda>x. if f x = f a then f b else f x"] .
qed

lemma classes_join_le:
  assumes "equivp R" and "a \<le> n" and "b \<le> n"
  shows "classes R n \<le> classes (join R a b) n + 1"
  using classes_join [OF assms] join_absorb [OF assms(1)] by (cases "R a b") auto

definition within :: "nat \<Rightarrow> edge list \<Rightarrow> bool" where
  "within n es \<longleftrightarrow> (\<forall>(u, v, w) \<in> set es. u \<in> {1..n} \<and> v \<in> {1..n})"

lemma classes_conn:
  assumes "equivp R" and "within n es"
  shows "classes R n \<le> classes (conn R es) n + length es"
  using assms
proof (induction R es rule: conn.induct)
  case (2 R u v w es)
  then have "classes R n \<le> classes (join R u v) n + 1"
    by (intro classes_join_le) (auto simp: within_def)
  moreover have "classes (join R u v) n \<le> classes (conn (join R u v) es) n + length es"
    using 2 by (intro 2(1)) (auto simp: within_def intro: join_equivp)
  ultimately show ?case by simp
qed simp

text \<open>The first edges that join two classes, which the program does not count.\<close>

fun joining :: "(nat \<Rightarrow> nat \<Rightarrow> bool) \<Rightarrow> edge list \<Rightarrow> edge list" where
  "joining R [] = []"
| "joining R ((u, v, w) # es) = (if R u v then joining R es else (u, v, w) # joining (join R u v) es)"

lemma joining_conn: "equivp R \<Longrightarrow> conn R (joining R es) = conn R es"
proof (induction R es rule: joining.induct)
  case (2 R u v w es)
  then show ?case using join_absorb [OF 2(3)] join_equivp [OF 2(3)] by auto
qed simp

lemma joining_sub: "mset (joining R es) \<subseteq># mset es"
  by (induction R es rule: joining.induct) (auto intro: subset_mset.order_trans)

lemma joining_length:
  assumes "equivp R" and "within n es"
  shows "classes R n = classes (conn R es) n + length (joining R es)"
  using assms
proof (induction R es rule: joining.induct)
  case (2 R u v w es)
  have w: "within n es" "u \<le> n" "v \<le> n" using 2(4) by (auto simp: within_def)
  show ?case
  proof (cases "R u v")
    case True
    then show ?thesis using 2(1) [OF True 2(3) w(1)] join_absorb [OF 2(3)] by simp
  next
    case False
    then show ?thesis
      using 2(2) [OF False join_equivp [OF 2(3)] w(1)] classes_join [OF 2(3) w(2,3) False] by simp
  qed
qed simp

lemma classes_eq: "classes (=) n = n + 1"
  using classes_kernel [of "\<lambda>x. x" n] by simp

subsection \<open>What the loops compute\<close>

definition edge_of :: "int list \<Rightarrow> edge" where
  "edge_of e = (nat (e ! 1), nat (e ! 2), e ! 0)"

definition good_edge :: "nat \<Rightarrow> int list \<Rightarrow> bool" where
  "good_edge n e \<longleftrightarrow> 3 \<le> length e \<and> e ! 0 \<in> {1, 2, 3} \<and> e ! 1 \<in> {1..int n} \<and> e ! 2 \<in> {1..int n}"

definition typed :: "int \<Rightarrow> edge list \<Rightarrow> edge list" where
  "typed t es = filter (\<lambda>(u, v, w). w = t) es"

text \<open>The state stands for a relation and has counted the classes that were joined.\<close>

definition dsu_for :: "nat \<Rightarrow> (nat \<Rightarrow> nat \<Rightarrow> bool) \<Rightarrow> dsu \<Rightarrow> bool" where
  "dsu_for n R d \<longleftrightarrow> forest (dsu_nodes d) \<and> length (dsu_nodes d) = n + 1 \<and> same (dsu_nodes d) = R \<and>
     dsu_edges d = int n + 1 - int (classes R n)"

lemma dsu_for_equivp: "dsu_for n R d \<Longrightarrow> equivp R"
  using same_equivp unfolding dsu_for_def by blast

lemma dsu_for_DSU: "dsu_for n (=) (DSU n)"
  using forest_upt [of "n + 1"] same_upt [of "n + 1"] by (simp add: dsu_for_def DSU_def classes_eq del: upt_Suc)

lemma good_edge_within: "\<forall>e \<in> set es. good_edge n e \<Longrightarrow> within n (map edge_of es)"
  by (fastforce simp: within_def edge_of_def good_edge_def)

lemma typed_within: "within n es \<Longrightarrow> within n (typed t es)"
  by (auto simp: within_def typed_def)

lemma typed_simps [simp]:
  "typed t [] = []"
  "typed t (e # es) = (if snd (snd e) = t then e # typed t es else typed t es)"
  "typed t (es @ fs) = typed t es @ typed t fs"
  by (auto simp: typed_def split: prod.splits)

text \<open>The edges that join nothing, which the program counts.\<close>

definition spare :: "(nat \<Rightarrow> nat \<Rightarrow> bool) \<Rightarrow> edge list \<Rightarrow> int" where
  "spare R es = int (length es) - int (length (joining R es))"

lemma spare_Nil [simp]: "spare R [] = 0"
  by (simp add: spare_def)

lemma conn_Cons: "conn R (e # es) = conn (conn R [e]) es"
  by (cases e) simp

lemma spare_Cons: "equivp R \<Longrightarrow> spare R (e # es) = spare R [e] + spare (conn R [e]) es"
  using join_absorb [of R "fst e" "fst (snd e)"] by (cases e) (auto simp: spare_def)

lemma merge_edge_ok:
  assumes "dsu_for n R d" and "good_edge n e"
  shows "\<exists>d'. merge_edge d e = Some (spare R [edge_of e], d') \<and>
     dsu_for n (conn R [edge_of e]) d'"
proof -
  define x y where "x = nat (e ! 1)" and "y = nat (e ! 2)"
  have b: "x \<le> n" "y \<le> n" "1 < length e" "2 < length e" "0 \<le> e ! 1" "0 \<le> e ! 2"
    using assms(2) by (auto simp: good_edge_def x_def y_def)
  have f: "forest (dsu_nodes d)" "x < length (dsu_nodes d)" "y < length (dsu_nodes d)" "same (dsu_nodes d) = R"
    "dsu_edges d = int n + 1 - int (classes R n)"
    using assms(1) b by (auto simp: dsu_for_def)
  obtain d' where d': "dsu_merge d x y = Some (if R x y then 1 else 0, d')" "forest (dsu_nodes d')"
      "length (dsu_nodes d') = n + 1" "same (dsu_nodes d') = join R x y"
      "dsu_edges d' = (if R x y then dsu_edges d else dsu_edges d + 1)"
    using dsu_merge_ok [OF f(1-3)] f(4) assms(1) by (auto simp: dsu_for_def)
  have "merge_edge d e = dsu_merge d x y" using b by (simp add: merge_edge_def vget_in x_def y_def)
  moreover have "dsu_for n (join R x y) d'"
  proof (cases "R x y")
    case True
    then show ?thesis using d' f(5) join_absorb [OF dsu_for_equivp [OF assms(1)] True] by (simp add: dsu_for_def)
  next
    case False
    then show ?thesis
      using d' f(5) classes_join [OF dsu_for_equivp [OF assms(1)] b(1,2) False] by (simp add: dsu_for_def)
  qed
  moreover have "edge_of e = (x, y, e ! 0)" by (simp add: edge_of_def x_def y_def)
  ultimately show ?thesis using d'(1) by (auto simp: spare_def)
qed

lemma shared_edges_ok:
  assumes "dsu_for n R A" and "\<forall>e \<in> set es. good_edge n e"
  shows "\<exists>A'. shared_edges es A res =
       Some (res + spare R (typed 3 (map edge_of es)), A') \<and>
     dsu_for n (conn R (typed 3 (map edge_of es))) A'"
  using assms
proof (induction es arbitrary: R A res)
  case (Cons e es)
  have e: "good_edge n e" "\<forall>e \<in> set es. good_edge n e" "0 < length e" using Cons(3) by (auto simp: good_edge_def)
  have w: "snd (snd (edge_of e)) = e ! 0" by (simp add: edge_of_def)
  show ?case
  proof (cases "e ! 0 = 3")
    case False
    then show ?thesis using Cons(1) [OF Cons(2) e(2)] e(3) w by (simp add: vget_in)
  next
    case True
    obtain A' where A': "merge_edge A e = Some (spare R [edge_of e], A')"
        "dsu_for n (conn R [edge_of e]) A'"
      using merge_edge_ok [OF Cons(2) e(1)] by blast
    show ?thesis
      using Cons(1) [OF A'(2) e(2), of "res + spare R [edge_of e]"]
        A'(1) True e(3) w
        spare_Cons [OF dsu_for_equivp [OF Cons(2)], of "edge_of e" "typed 3 (map edge_of es)"] conn_Cons [of R "edge_of e" "typed 3 (map edge_of es)"]
      by (simp add: vget_in ac_simps)
  qed
qed simp

lemma own_edges_ok:
  assumes "dsu_for n R A" and "dsu_for n S B" and "\<forall>e \<in> set es. good_edge n e"
  defines "E \<equiv> map edge_of es"
  shows "\<exists>A' B'. own_edges es A B res = Some (res + spare R (typed 1 E) + spare S (typed 2 E), A', B') \<and>
     dsu_for n (conn R (typed 1 E)) A' \<and> dsu_for n (conn S (typed 2 E)) B'"
  using assms(1-3) unfolding E_def
proof (induction es arbitrary: R S A B res)
  case (Cons e es)
  have e: "good_edge n e" "\<forall>e \<in> set es. good_edge n e" "0 < length e" using Cons(4) by (auto simp: good_edge_def)
  have w: "snd (snd (edge_of e)) = e ! 0" by (simp add: edge_of_def)
  consider "e ! 0 = 3" | "e ! 0 = 1" | "e ! 0 = 2" using e(1) by (auto simp: good_edge_def)
  then show ?case
  proof cases
    case 1
    then show ?thesis using Cons(1) [OF Cons(2,3) e(2)] e(3) w by (simp add: vget_in)
  next
    case 2
    obtain A' where A': "merge_edge A e = Some (spare R [edge_of e], A')"
        "dsu_for n (conn R [edge_of e]) A'"
      using merge_edge_ok [OF Cons(2) e(1)] by blast
    show ?thesis
      using Cons(1) [OF A'(2) Cons(3) e(2), of "res + spare R [edge_of e]"]
        A'(1) 2 e(3) w
        spare_Cons [OF dsu_for_equivp [OF Cons(2)], of "edge_of e" "typed 1 (map edge_of es)"] conn_Cons [of R "edge_of e" "typed 1 (map edge_of es)"]
      by (simp add: vget_in ac_simps)
  next
    case 3
    obtain B' where B': "merge_edge B e = Some (spare S [edge_of e], B')"
        "dsu_for n (conn S [edge_of e]) B'"
      using merge_edge_ok [OF Cons(3) e(1)] by blast
    show ?thesis
      using Cons(1) [OF Cons(2) B'(2) e(2), of "res + spare S [edge_of e]"]
        B'(1) 3 e(3) w
        spare_Cons [OF dsu_for_equivp [OF Cons(3)], of "edge_of e" "typed 2 (map edge_of es)"] conn_Cons [of S "edge_of e" "typed 2 (map edge_of es)"]
      by (simp add: vget_in ac_simps)
  qed
qed simp

subsection \<open>The answer\<close>

text \<open>Every node reaches every node over the edges of two types.\<close>

definition traversable :: "nat \<Rightarrow> int \<Rightarrow> edge list \<Rightarrow> bool" where
  "traversable n t es \<longleftrightarrow> (\<forall>x \<in> {1..n}. \<forall>y \<in> {1..n}. (linked (typed 3 es @ typed t es))\<^sup>*\<^sup>* x y)"

lemma conn_append: "conn R (es @ fs) = conn (conn R es) fs"
  by (induction R es rule: conn.induct) simp_all

lemma conn_zero:
  assumes "within n es"
  shows "conn (=) es x y \<Longrightarrow> x = 0 \<longleftrightarrow> y = 0"
proof (rule conn_least [of "\<lambda>x y. x = 0 \<longleftrightarrow> y = 0"])
  show "equivp (\<lambda>x y. x = (0::nat) \<longleftrightarrow> y = 0)" by (rule equivp_kernel)
qed (use assms in \<open>auto simp: within_def\<close>)

text \<open>Node 0 is not used and stays alone, so two classes are a connected graph.\<close>

lemma connected_classes:
  assumes "within n es" and "0 < n"
  shows "(\<forall>x \<in> {1..n}. \<forall>y \<in> {1..n}. conn (=) es x y) \<longleftrightarrow> classes (conn (=) es) n = 2"
proof -
  let ?R = "conn (=) es"
  let ?c = "\<lambda>x. {y. y \<le> n \<and> ?R x y}"
  have E: "equivp ?R" by (rule conn_equivp) (rule identity_equivp)
  have eq: "?c x = ?c y \<longleftrightarrow> ?R x y" if "x \<le> n" "y \<le> n" for x y
    using that equivp_reflp [OF E, of y] equivp_symp [OF E] equivp_transp [OF E] by blast
  have z: "?c 0 \<noteq> ?c x" if "x \<in> {1..n}" for x
    using eq [of 0 x] conn_zero [OF assms(1), of 0 x] that by auto
  have "{..n} = insert 0 {1..n}" by auto
  then have "?c ` {..n} = insert (?c 0) (?c ` {1..n})" by (simp only: image_insert)
  moreover have "?c 0 \<notin> ?c ` {1..n}" using z by (simp only: image_iff) blast
  ultimately have n: "classes ?R n = card (?c ` {1..n}) + 1" unfolding classes_def by simp
  have one: "?c 1 \<in> ?c ` {1..n}" using assms(2) by (intro imageI) simp
  show ?thesis
  proof
    assume a: "\<forall>x \<in> {1..n}. \<forall>y \<in> {1..n}. ?R x y"
    then have "?c x = ?c 1" if "x \<in> {1..n}" for x
      using eq [of x 1] a that assms(2) by simp
    then have "?c ` {1..n} = {?c 1}" using one by blast
    then show "classes ?R n = 2" using n by simp
  next
    assume "classes ?R n = 2"
    then obtain c where c: "?c ` {1..n} = {c}" using n by (auto simp: card_1_singleton_iff)
    have "?R x y" if "x \<in> {1..n}" "y \<in> {1..n}" for x y
    proof -
      have "?c x = c" "?c y = c" using c that by (blast dest: equalityD1)+
      then show ?thesis using eq [of x y] that by simp
    qed
    then show "\<forall>x \<in> {1..n}. \<forall>y \<in> {1..n}. ?R x y" by blast
  qed
qed

lemma traversable_classes:
  assumes "within n es" and "0 < n"
  shows "traversable n t es \<longleftrightarrow> classes (conn (conn (=) (typed 3 es)) (typed t es)) n = 2"
  using connected_classes [of n "typed 3 es @ typed t es"] assms typed_within [OF assms(1)]
  by (simp add: traversable_def conn_reach conn_append within_def ball_Un flip: conn_reach)

lemma dsu_for_edges: "dsu_for n R d \<Longrightarrow> dsu_edges d = int n - 1 \<longleftrightarrow> classes R n = 2"
  by (auto simp: dsu_for_def)

lemma maxNumEdgesToRemove_value:
  assumes "0 < n" and "\<forall>e \<in> set es. good_edge n e"
  defines "E \<equiv> map edge_of es" and "R \<equiv> conn (=) (typed 3 (map edge_of es))"
  shows "maxNumEdgesToRemove n es = Some (if traversable n 1 E \<and> traversable n 2 E
     then spare (=) (typed 3 E) + spare R (typed 1 E) + spare R (typed 2 E) else - 1)"
proof -
  obtain A where A: "shared_edges es (DSU n) 0 = Some (0 + spare (=) (typed 3 E), A)" "dsu_for n R A"
    using shared_edges_ok [OF dsu_for_DSU assms(2), of 0] unfolding E_def R_def by blast
  obtain A' B' where B: "own_edges es A A (0 + spare (=) (typed 3 E)) =
      Some (0 + spare (=) (typed 3 E) + spare R (typed 1 E) + spare R (typed 2 E), A', B')"
      "dsu_for n (conn R (typed 1 E)) A'" "dsu_for n (conn R (typed 2 E)) B'"
    using own_edges_ok [OF A(2) A(2) assms(2)] unfolding E_def by blast
  have w: "within n E" unfolding E_def by (rule good_edge_within [OF assms(2)])
  have "traversable n t E \<longleftrightarrow> classes (conn R (typed t E)) n = 2" for t
    using traversable_classes [OF w assms(1)] unfolding R_def E_def by blast
  then show ?thesis
    using A(1) B(1) dsu_for_edges [OF B(2)] dsu_for_edges [OF B(3)] by (simp add: maxNumEdgesToRemove_def)
qed

lemma typed_partition:
  assumes "\<forall>e \<in> set E. snd (snd e) \<in> {1, 2, 3}"
  shows "mset E = mset (typed 3 E) + mset (typed 1 E) + mset (typed 2 E)"
  using assms by (induction E) auto

lemma typed_joining: "typed t (joining R (typed u E)) = (if t = u then joining R (typed u E) else [])"
proof -
  have "set (joining R (typed u E)) \<subseteq> set (typed u E)" using joining_sub set_mset_mono by fastforce
  then have "\<forall>e \<in> set (joining R (typed u E)). snd (snd e) = u" by (fastforce simp: typed_def)
  then show ?thesis by (auto simp: typed_def filter_empty_conv intro!: filter_True)
qed

lemma typed_mset: "mset K \<subseteq># mset E \<Longrightarrow> mset (typed t K) \<subseteq># mset (typed t E)"
  unfolding typed_def by (simp only: mset_filter) (rule multiset_filter_mono)

text \<open>Every traversable choice of edges has at least as many edges as the program keeps.\<close>

lemma edges_needed:
  assumes "within n E" and "\<forall>e \<in> set E. snd (snd e) \<in> {1, 2, 3}" and "mset K \<subseteq># mset E" and "0 < n"
    and "traversable n 1 K" and "traversable n 2 K"
  shows "n + classes (conn (=) (typed 3 E)) n \<le> length K + 3"
proof -
  have sub: "set K \<subseteq> set E" using assms(3) set_mset_mono by fastforce
  have w: "within n K" using assms(1) sub by (auto simp: within_def)
  let ?S = "conn (=) (typed 3 K)"
  have S: "equivp ?S" and R: "equivp (conn (=) (typed 3 E))" by (rule conn_equivp, rule identity_equivp)+
  have "mset K = mset (typed 3 K) + mset (typed 1 K) + mset (typed 2 K)"
    using sub assms(2) by (intro typed_partition) blast
  then have "size (mset K) = size (mset (typed 3 K) + mset (typed 1 K) + mset (typed 2 K))" by (rule arg_cong)
  then have len: "length K = length (typed 3 K) + length (typed 1 K) + length (typed 2 K)" by simp
  have three: "n + 1 \<le> classes ?S n + length (typed 3 K)"
    using classes_conn [OF identity_equivp typed_within [OF w]] by (simp add: classes_eq)
  have own: "classes ?S n \<le> 2 + length (typed t K)" if "traversable n t K" for t
    using classes_conn [OF S typed_within [OF w], of t] that traversable_classes [OF w assms(4)] by simp
  have "classes (conn (=) (typed 3 E)) n \<le> classes ?S n"
  proof (rule classes_anti [OF S R])
    show "conn (=) (typed 3 E) x y" if "?S x y" for x y
    proof (rule conn_least [OF R _ _ that])
      show "conn (=) (typed 3 E) a b" if "a = b" for a b using that equivp_reflp [OF R] by simp
      show "conn (=) (typed 3 E) u v" if "(u, v, w) \<in> set (typed 3 K)" for u v w
        using that sub by (intro conn_edge [OF identity_equivp]) (auto simp: typed_def)
    qed
  qed
  then show ?thesis using len three own [OF assms(5)] own [OF assms(6)] by linarith
qed

text \<open>
  The answer of the program. If one of the two cannot walk the whole graph the answer is -1;
  otherwise some choice of the remaining edges lets both walk the whole graph, and no such
  choice has fewer edges.
\<close>

theorem maxNumEdgesToRemove_correct:
  assumes "0 < n" and "\<forall>e \<in> set es. good_edge n e"
  defines "E \<equiv> map edge_of es"
  shows "traversable n 1 E \<and> traversable n 2 E \<Longrightarrow>
     \<exists>K. mset K \<subseteq># mset E \<and> traversable n 1 K \<and> traversable n 2 K \<and>
       maxNumEdgesToRemove n es = Some (int (length E) - int (length K)) \<and>
       (\<forall>K'. mset K' \<subseteq># mset E \<and> traversable n 1 K' \<and> traversable n 2 K' \<longrightarrow> length K \<le> length K')"
    and "\<not> (traversable n 1 E \<and> traversable n 2 E) \<Longrightarrow> maxNumEdgesToRemove n es = Some (- 1)"
proof -
  let ?R = "conn (=) (typed 3 E)"
  let ?J3 = "joining (=) (typed 3 E)" and ?J = "\<lambda>t. joining ?R (typed t E)"
  let ?K = "?J3 @ ?J 1 @ ?J 2"
  have w: "within n E" unfolding E_def by (rule good_edge_within [OF assms(2)])
  have types: "\<forall>e \<in> set E. snd (snd e) \<in> {1, 2, 3}"
    using assms(2) by (auto simp: E_def edge_of_def good_edge_def)
  have R: "equivp ?R" by (rule conn_equivp) (rule identity_equivp)
  note answer = maxNumEdgesToRemove_value [OF assms(1,2), folded E_def]
  show "maxNumEdgesToRemove n es = Some (- 1)" if "\<not> (traversable n 1 E \<and> traversable n 2 E)"
    using answer that by auto
  assume trav: "traversable n 1 E \<and> traversable n 2 E"
  have part: "mset E = mset (typed 3 E) + mset (typed 1 E) + mset (typed 2 E)" by (rule typed_partition [OF types])
  then have "size (mset E) = size (mset (typed 3 E) + mset (typed 1 E) + mset (typed 2 E))" by (rule arg_cong)
  then have len: "length E = length (typed 3 E) + length (typed 1 E) + length (typed 2 E)" by simp
  have sub: "mset ?K \<subseteq># mset E"
    unfolding part using joining_sub by (simp add: subset_mset.add_mono add.assoc)
  have wK: "within n ?K" using w set_mset_mono [OF sub] by (auto simp: within_def)
  have same_conn: "conn (conn (=) (typed 3 ?K)) (typed t ?K) = conn ?R (typed t E)" if "t \<in> {1, 2}" for t
    using that joining_conn [OF identity_equivp] joining_conn [OF R] by (auto simp: typed_joining)
  have two: "classes (conn ?R (typed t E)) n = 2" if "t \<in> {1, 2}" for t
    using trav that traversable_classes [OF w assms(1)] by auto
  have tK: "traversable n t ?K" if "t \<in> {1, 2}" for t
    using traversable_classes [OF wK assms(1), of t] same_conn [OF that] two [OF that] by simp
  have l3: "n + 1 = classes ?R n + length ?J3"
    using joining_length [OF identity_equivp typed_within [OF w]] by (simp add: classes_eq)
  have lt: "classes ?R n = 2 + length (?J t)" if "t \<in> {1, 2}" for t
    using joining_length [OF R typed_within [OF w, of t]] two [OF that] by simp
  have "length ?K + 3 = n + classes ?R n" using l3 lt [of 1] lt [of 2] by simp
  moreover have "maxNumEdgesToRemove n es = Some (int (length E) - int (length ?K))"
    using answer trav len by (simp add: spare_def)
  ultimately show "\<exists>K. mset K \<subseteq># mset E \<and> traversable n 1 K \<and> traversable n 2 K \<and>
       maxNumEdgesToRemove n es = Some (int (length E) - int (length K)) \<and>
       (\<forall>K'. mset K' \<subseteq># mset E \<and> traversable n 1 K' \<and> traversable n 2 K' \<longrightarrow> length K \<le> length K')"
    using edges_needed [OF w types _ assms(1)] sub tK [of 1] tK [of 2]
    by (intro exI [of _ ?K]) fastforce
qed

lemma maxNumEdgesToRemove_correct_witness:
  "maxNumEdgesToRemove 2 [[3, 1, 2], [1, 1, 2]] = Some 1"
proof -
  let ?es = "[[3, 1, 2], [1, 1, 2]] :: int list list"
  let ?E = "[(1, 2, 3), (1, 2, 1)] :: edge list"
  have g: "\<forall>e \<in> set ?es. good_edge 2 e" by (simp add: good_edge_def)
  have E: "map edge_of ?es = ?E" by (simp add: edge_of_def)
  have j: "join (=) (Suc 0) 2 x y" if "x \<in> {1..2}" "y \<in> {1..2}" for x y :: nat
    using that by (auto simp: join_def le_Suc_eq numeral_2_eq_2)
  have t: "traversable 2 t K" if "(1, 2, 3) \<in> set K" for t K
    unfolding traversable_def conn_reach [symmetric]
  proof (intro ballI)
    fix x y :: nat assume xy: "x \<in> {1..2}" "y \<in> {1..2}"
    show "conn (=) (typed 3 K @ typed t K) x y"
      by (rule join_least [OF conn_equivp [OF identity_equivp] _ _ j [OF xy]])
        (use that conn_edge [OF identity_equivp, of 1 2 3] in \<open>auto simp: typed_def intro: conn_upper\<close>)
  qed
  have "\<exists>K. mset K \<subseteq># mset ?E \<and> traversable 2 1 K \<and> traversable 2 2 K \<and>
      maxNumEdgesToRemove 2 ?es = Some (int (length ?E) - int (length K)) \<and>
      (\<forall>K'. mset K' \<subseteq># mset ?E \<and> traversable 2 1 K' \<and> traversable 2 2 K' \<longrightarrow> length K \<le> length K')"
    using maxNumEdgesToRemove_correct(1) [OF _ g] t [of ?E] unfolding E by simp
  then obtain K where K: "mset K \<subseteq># mset ?E" "traversable 2 1 K" "traversable 2 2 K"
      "maxNumEdgesToRemove 2 ?es = Some (2 - int (length K))"
      "\<forall>K'. mset K' \<subseteq># mset ?E \<and> traversable 2 1 K' \<and> traversable 2 2 K' \<longrightarrow> length K \<le> length K'"
    by auto
  have "length K \<le> 1" using K(5) t [of "[(1, 2, 3)]"] by (auto dest: spec [of _ "[(1, 2, 3)]"])
  moreover have "K \<noteq> []"
  proof
    assume "K = []"
    then have "\<forall>x \<in> {1..2::nat}. \<forall>y \<in> {1..2}. x = y"
      using K(2) unfolding traversable_def conn_reach [symmetric] by simp
    then have "\<forall>y \<in> {1..2::nat}. 1 = y" by (rule bspec) simp
    then have "(1::nat) = 2" by (rule bspec) simp
    then show False by simp
  qed
  ultimately have "length K = 1" by (cases K) auto
  then show ?thesis using K(4) by simp
qed

end
