(* ===== verification/Tables.thy ===== *)
theory Tables
  imports Prelude
begin

section \<open>Counting loops and tables\<close>

text \<open>
  The dynamic programming exercises fill a vector, or a vector of vectors, in counting loops.
  Here are the loop, its rule (an invariant that every round takes from \<open>i\<close> to
  \<open>i + 1\<close>), checked access to a table, and the predicate \<open>filled\<close>: the entries at the places
  \<open>P\<close> are those of a function.
\<close>

subsection \<open>Loops\<close>

fun for_each :: "'x list \<Rightarrow> ('x \<Rightarrow> 's \<Rightarrow> 's option) \<Rightarrow> 's \<Rightarrow> 's option" where
  "for_each [] body s = Some s"
| "for_each (x # xs) body s = do { s \<leftarrow> body x s; for_each xs body s }"

lemma for_each_append: "for_each (xs @ ys) body s = do { s \<leftarrow> for_each xs body s; for_each ys body s }"
proof (induction xs arbitrary: s)
  case (Cons x xs)
  then show ?case by (cases "body x s") simp_all
qed simp

lemma for_each_map: "for_each (map f xs) body s = for_each xs (\<lambda>i. body (f i)) s"
proof (induction xs arbitrary: s)
  case (Cons x xs)
  then show ?case by (cases "body (f x) s") simp_all
qed simp

lemma for_upt:
  assumes "a \<le> b" and "I a s"
    and step: "\<And>i s. a \<le> i \<Longrightarrow> i < b \<Longrightarrow> I i s \<Longrightarrow> \<exists>s'. body i s = Some s' \<and> I (Suc i) s'"
  shows "\<exists>s'. for_each [a..<b] body s = Some s' \<and> I b s'"
  using assms(1)
proof (induction b rule: dec_induct)
  case base
  then show ?case using assms(2) by simp
next
  case (step n)
  then obtain s1 where s1: "for_each [a..<n] body s = Some s1" "I n s1" by blast
  obtain s2 where "body n s1 = Some s2" "I (Suc n) s2" using assms(3) [OF _ _ s1(2)] step(1,2) by blast
  then show ?case using step(1) s1(1) by (simp add: for_each_append)
qed

text \<open>A loop that counts down.\<close>

lemma for_down:
  assumes "I b s" and step: "\<And>i s. i < b \<Longrightarrow> I (Suc i) s \<Longrightarrow> \<exists>s'. body i s = Some s' \<and> I i s'"
  shows "\<exists>s'. for_each (rev [0..<b]) body s = Some s' \<and> I 0 s'"
  using assms
proof (induction b arbitrary: s)
  case (Suc b)
  obtain s1 where s1: "body b s = Some s1" "I b s1" using Suc(2,3) by blast
  have "\<exists>s'. for_each (rev [0..<b]) body s1 = Some s' \<and> I 0 s'" using Suc(3) by (intro Suc(1) [OF s1(2)]) auto
  then show ?case using s1 by simp
qed simp

subsection \<open>Tables\<close>

definition tget :: "'a list list \<Rightarrow> nat \<Rightarrow> nat \<Rightarrow> 'a option" where
  "tget t i j = do { row \<leftarrow> vget t i; vget row j }"

definition tset :: "'a list list \<Rightarrow> nat \<Rightarrow> nat \<Rightarrow> 'a \<Rightarrow> 'a list list option" where
  "tset t i j v = do { row \<leftarrow> vget t i; row \<leftarrow> vset row j v; vset t i row }"

definition filled :: "'a list list \<Rightarrow> nat \<Rightarrow> nat \<Rightarrow> (nat \<Rightarrow> nat \<Rightarrow> 'a) \<Rightarrow> (nat \<Rightarrow> nat \<Rightarrow> bool) \<Rightarrow> bool" where
  "filled t m n g P \<longleftrightarrow> length t = m \<and> (\<forall>i < m. length (t ! i) = n) \<and> (\<forall>i < m. \<forall>j < n. P i j \<longrightarrow> t ! i ! j = g i j)"

lemma filled_tget: "filled t m n g P \<Longrightarrow> P i j \<Longrightarrow> i < m \<Longrightarrow> j < n \<Longrightarrow> tget t i j = Some (g i j)"
  by (simp add: filled_def tget_def)

lemma filled_tset:
  assumes "filled t m n g P" and "i < m" and "j < n" and "v = g i j"
    and "\<And>a b. a < m \<Longrightarrow> b < n \<Longrightarrow> Q a b \<Longrightarrow> P a b \<or> a = i \<and> b = j"
  shows "\<exists>t'. tset t i j v = Some t' \<and> filled t' m n g Q"
proof -
  have "t[i := (t ! i)[j := v]] ! a ! b = g a b" if "a < m" "b < n" "Q a b" for a b
    using assms(1-4) assms(5) [OF that] that by (auto simp: filled_def nth_list_update)
  then show ?thesis using assms(1-3) by (auto simp: filled_def tset_def nth_list_update)
qed

lemma filled_replicate: "(\<And>i j. i < m \<Longrightarrow> j < n \<Longrightarrow> P i j \<Longrightarrow> g i j = x) \<Longrightarrow> filled (replicate m (replicate n x)) m n g P"
  by (auto simp: filled_def)

lemma filled_mono: "filled t m n g P \<Longrightarrow> (\<And>i j. i < m \<Longrightarrow> j < n \<Longrightarrow> Q i j \<Longrightarrow> P i j) \<Longrightarrow> filled t m n g Q"
  by (auto simp: filled_def)

text \<open>The places before \<open>(i, j)\<close> in row-major order, besides the first row and column.\<close>

definition upto_cell :: "nat \<Rightarrow> nat \<Rightarrow> nat \<Rightarrow> nat \<Rightarrow> bool" where
  "upto_cell i j a b \<longleftrightarrow> a = 0 \<or> b = 0 \<or> a < i \<or> a = i \<and> b < j"

text \<open>
  Two nested loops from 1 that write every cell: if each round, given the cells before it, writes
  the right value, then the table is filled.
\<close>

lemma fill_rows:
  assumes "filled t m n g (\<lambda>a b. a = 0 \<or> b = 0)" and "0 < m" and "0 < n"
    and cell: "\<And>i j t. 0 < i \<Longrightarrow> i < m \<Longrightarrow> 0 < j \<Longrightarrow> j < n \<Longrightarrow> filled t m n g (upto_cell i j) \<Longrightarrow> body i j t = tset t i j (g i j)"
  shows "\<exists>t'. for_each [1..<m] (\<lambda>i. for_each [1..<n] (body i)) t = Some t' \<and> filled t' m n g (\<lambda>_ _. True)"
proof -
  have "\<exists>t'. for_each [1..<m] (\<lambda>i. for_each [1..<n] (body i)) t = Some t' \<and> filled t' m n g (upto_cell m 1)"
  proof (rule for_upt [where I = "\<lambda>i t. filled t m n g (upto_cell i 1)"])
    show "filled t m n g (upto_cell 1 1)" using assms(1) by (rule filled_mono) (auto simp: upto_cell_def)
    fix i t assume i: "1 \<le> i" "i < m" and t: "filled t m n g (upto_cell i 1)"
    have "\<exists>t'. for_each [1..<n] (body i) t = Some t' \<and> filled t' m n g (upto_cell i n)"
    proof (rule for_upt [where I = "\<lambda>j t. filled t m n g (upto_cell i j)"])
      fix j t assume j: "1 \<le> j" "j < n" and t: "filled t m n g (upto_cell i j)"
      show "\<exists>t'. body i j t = Some t' \<and> filled t' m n g (upto_cell i (Suc j))"
        using i j t by (subst cell) (auto intro!: filled_tset simp: upto_cell_def less_Suc_eq)
    qed (use assms(3) t in auto)
    then show "\<exists>t'. for_each [1..<n] (body i) t = Some t' \<and> filled t' m n g (upto_cell (Suc i) 1)"
      by (auto simp: upto_cell_def less_Suc_eq elim!: filled_mono)
  qed (use assms(2) in auto)
  then show ?thesis by (auto simp: upto_cell_def elim!: filled_mono)
qed

end
