(* ===== verification/GridDP.thy ===== *)
theory GridDP
  imports Tables
begin

section \<open>Walks through a grid (leetcode/DP: uniquePaths.cc, uniquePaths2.cc, minPathSum.cc, dungeonGame.cc)\<close>

text \<open>
  A walk starts in the upper left corner and goes right or down. The programs count the walks to
  the lower right corner, count those that avoid obstacles, find the cheapest one, and
  find the health with which some walk can be survived. All but one keep a single row that
  is swept from left to right, or from right to left.
\<close>

subsection \<open>Sweeping a row\<close>

lemma sweep:
  assumes "length cur = n" and "0 < n" and "cur ! 0 = h 0"
    and step: "\<And>j c. 0 < j \<Longrightarrow> j < n \<Longrightarrow> length c = n \<Longrightarrow> c ! (j - 1) = h (j - 1) \<Longrightarrow> c ! j = cur ! j \<Longrightarrow> body j c = Some (c[j := h j])"
  shows "for_each [1..<n] body cur = Some (map h [0..<n])"
proof -
  have "\<exists>c. for_each [1..<n] body cur = Some c \<and> length c = n \<and> (\<forall>k < n. c ! k = h k) \<and> (\<forall>k. n \<le> k \<and> k < n \<longrightarrow> c ! k = cur ! k)"
  proof (rule for_upt [where I = "\<lambda>j c. length c = n \<and> (\<forall>k < j. c ! k = h k) \<and> (\<forall>k. j \<le> k \<and> k < n \<longrightarrow> c ! k = cur ! k)"])
    fix j c assume j: "1 \<le> j" "j < n" and I: "length c = n \<and> (\<forall>k < j. c ! k = h k) \<and> (\<forall>k. j \<le> k \<and> k < n \<longrightarrow> c ! k = cur ! k)"
    then have "body j c = Some (c[j := h j])" by (intro step) auto
    then show "\<exists>c'. body j c = Some c' \<and> length c' = n \<and> (\<forall>k < Suc j. c' ! k = h k) \<and> (\<forall>k. Suc j \<le> k \<and> k < n \<longrightarrow> c' ! k = cur ! k)"
      using j I by (auto simp: nth_list_update less_Suc_eq)
  qed (use assms in auto)
  then obtain c where c: "for_each [1..<n] body cur = Some c" "length c = n" "\<forall>k < n. c ! k = h k" by auto
  then have "c = map h [0..<n]" by (intro nth_equalityI) auto
  then show ?thesis using c(1) by simp
qed

lemma sweep_down:
  assumes "length cur = n" and "0 < n" and "cur ! (n - 1) = h (n - 1)"
    and step: "\<And>j c. Suc j < n \<Longrightarrow> length c = n \<Longrightarrow> c ! Suc j = h (Suc j) \<Longrightarrow> c ! j = cur ! j \<Longrightarrow> body j c = Some (c[j := h j])"
  shows "for_each (rev [0..<n - 1]) body cur = Some (map h [0..<n])"
proof -
  let ?I = "\<lambda>j c. length c = n \<and> (\<forall>k. j \<le> k \<and> k < n \<longrightarrow> c ! k = h k) \<and> (\<forall>k < j. c ! k = cur ! k)"
  have "\<exists>c. for_each (rev [0..<n - 1]) body cur = Some c \<and> ?I 0 c"
  proof (rule for_down [where I = ?I])
    have "k = n - 1" if "n - 1 \<le> k" "k < n" for k using that by linarith
    then show "?I (n - 1) cur" using assms(1,3) by blast
    fix j c assume j: "j < n - 1" and I: "?I (Suc j) c"
    then have "body j c = Some (c[j := h j])" by (intro step) auto
    then show "\<exists>c'. body j c = Some c' \<and> ?I j c'"
      using j I by (auto simp: nth_list_update Suc_le_eq)
  qed
  then obtain c where c: "for_each (rev [0..<n - 1]) body cur = Some c" "length c = n" "\<forall>k < n. c ! k = h k" by auto
  then have "c = map h [0..<n]" by (intro nth_equalityI) auto
  then show ?thesis using c(1) by simp
qed

text \<open>A grid of \<open>m\<close> rows and \<open>n\<close> columns.\<close>

definition grid_of :: "'a list list \<Rightarrow> nat \<Rightarrow> nat \<Rightarrow> bool" where
  "grid_of g m n \<longleftrightarrow> length g = m \<and> (\<forall>row \<in> set g. length row = n) \<and> 0 < m \<and> 0 < n"

lemma grid_tget: "grid_of g m n \<Longrightarrow> i < m \<Longrightarrow> j < n \<Longrightarrow> tget g i j = Some (g ! i ! j)"
  by (auto simp: grid_of_def tget_def vget_def)

subsection \<open>The cheapest walk\<close>

definition first_sum :: "int list list \<Rightarrow> nat \<Rightarrow> int list \<Rightarrow> int list option" where
  "first_sum grid j cur = do { a \<leftarrow> vget cur (j - 1); x \<leftarrow> tget grid 0 j; vset cur j (a + x) }"

definition sum_cell :: "int list list \<Rightarrow> nat \<Rightarrow> nat \<Rightarrow> int list \<Rightarrow> int list option" where
  "sum_cell grid i j cur = do { a \<leftarrow> vget cur (j - 1); b \<leftarrow> vget cur j; x \<leftarrow> tget grid i j; vset cur j (min a b + x) }"

definition sum_row :: "int list list \<Rightarrow> nat \<Rightarrow> nat \<Rightarrow> int list \<Rightarrow> int list option" where
  "sum_row grid n i cur = do {
     a \<leftarrow> vget cur 0;
     x \<leftarrow> tget grid i 0;
     cur \<leftarrow> vset cur 0 (a + x);
     for_each [1..<n] (sum_cell grid i) cur }"

definition minPathSum :: "int list list \<Rightarrow> int option" where
  "minPathSum grid = do {
     cur \<leftarrow> vget grid 0;
     let n = length cur;
     cur \<leftarrow> for_each [1..<n] (first_sum grid) cur;
     cur \<leftarrow> for_each [1..<length grid] (sum_row grid n) cur;
     if n = 0 then None else vget cur (n - 1) }"

inductive walk_sum :: "int list list \<Rightarrow> nat \<Rightarrow> nat \<Rightarrow> int \<Rightarrow> bool" for grid where
  start: "walk_sum grid 0 0 (grid ! 0 ! 0)"
| right: "walk_sum grid i j s \<Longrightarrow> walk_sum grid i (Suc j) (s + grid ! i ! Suc j)"
| down: "walk_sum grid i j s \<Longrightarrow> walk_sum grid (Suc i) j (s + grid ! Suc i ! j)"

fun cheapest :: "int list list \<Rightarrow> nat \<Rightarrow> nat \<Rightarrow> int" where
  "cheapest grid 0 0 = grid ! 0 ! 0"
| "cheapest grid 0 (Suc j) = cheapest grid 0 j + grid ! 0 ! Suc j"
| "cheapest grid (Suc i) 0 = cheapest grid i 0 + grid ! Suc i ! 0"
| "cheapest grid (Suc i) (Suc j) = min (cheapest grid (Suc i) j) (cheapest grid i (Suc j)) + grid ! Suc i ! Suc j"

lemma cheapest_walk: "walk_sum grid i j (cheapest grid i j)"
  by (induction grid i j rule: cheapest.induct) (auto simp: min_def intro: walk_sum.intros)

lemma cheapest_least: "walk_sum grid i j s \<Longrightarrow> cheapest grid i j \<le> s"
proof (induction rule: walk_sum.induct)
  case (right i j s)
  then show ?case by (cases i) auto
next
  case (down i j s)
  then show ?case by (cases j) auto
qed simp

lemma minPathSum_ok:
  assumes g: "grid_of grid m n"
  shows "minPathSum grid = Some (cheapest grid (m - 1) (n - 1))"
proof -
  have row0: "vget grid 0 = Some (grid ! 0)" "length (grid ! 0) = n" "0 < n" "length grid = m" "0 < m"
    using g by (auto simp: grid_of_def vget_def)
  have first: "for_each [1..<n] (first_sum grid) (grid ! 0) = Some (map (cheapest grid 0) [0..<n])"
  proof (rule sweep)
    fix j c assume j: "0 < j" "j < n" "length c = n" "c ! (j - 1) = cheapest grid 0 (j - 1)"
    then have "cheapest grid 0 j = cheapest grid 0 (j - 1) + grid ! 0 ! j" by (cases j) auto
    then show "first_sum grid j c = Some (c[j := cheapest grid 0 j])"
      using j grid_tget [OF g row0(5) j(2)] by (simp add: first_sum_def ub_simps)
  qed (use row0 in auto)
  have row: "sum_row grid n i (map (cheapest grid (i - 1)) [0..<n]) = Some (map (cheapest grid i) [0..<n])" if i: "1 \<le> i" "i < m" for i
  proof -
    let ?cur = "(map (cheapest grid (i - 1)) [0..<n])[0 := cheapest grid i 0]"
    have "for_each [1..<n] (sum_cell grid i) ?cur = Some (map (cheapest grid i) [0..<n])"
    proof (rule sweep)
      fix j c assume j: "0 < j" "j < n" "length c = n" "c ! (j - 1) = cheapest grid i (j - 1)" "c ! j = ?cur ! j"
      then have "cheapest grid i j = min (c ! (j - 1)) (c ! j) + grid ! i ! j" using i by (cases i; cases j) auto
      then show "sum_cell grid i j c = Some (c[j := cheapest grid i j])"
        using j(1-3) grid_tget [OF g i(2) j(2)] by (simp add: sum_cell_def ub_simps)
    qed (use row0 in auto)
    moreover have "cheapest grid i 0 = cheapest grid (i - 1) 0 + grid ! i ! 0" using i by (cases i) auto
    ultimately show ?thesis using row0(3) grid_tget [OF g i(2) row0(3)] by (simp add: sum_row_def ub_simps)
  qed
  have "\<exists>c. for_each [1..<m] (sum_row grid n) (map (cheapest grid 0) [0..<n]) = Some c \<and> c = map (cheapest grid (m - 1)) [0..<n]"
    using row row0(5) by (intro for_upt [where I = "\<lambda>i c. c = map (cheapest grid (i - 1)) [0..<n]"]) auto
  moreover have "grid ! 0 \<noteq> []" using row0(2,3) by auto
  ultimately show ?thesis using row0 first by (simp add: minPathSum_def ub_simps)
qed

subsection \<open>Counting the walks\<close>

text \<open>
  The table of \<open>uniquePaths\<close> is an array on the stack: \<open>None\<close> is an entry that has not been
  written, and the corner is never written.
\<close>

definition set_one :: "(nat \<Rightarrow> nat \<times> nat) \<Rightarrow> nat \<Rightarrow> int option list list \<Rightarrow> int option list list option" where
  "set_one place k f = tset f (fst (place k)) (snd (place k)) (Some 1)"

definition paths_cell :: "nat \<Rightarrow> nat \<Rightarrow> int option list list \<Rightarrow> int option list list option" where
  "paths_cell i j f = do {
     a \<leftarrow> tget f (i - 1) j; x \<leftarrow> a;
     b \<leftarrow> tget f i (j - 1); y \<leftarrow> b;
     tset f i j (Some (x + y)) }"

definition uniquePaths :: "nat \<Rightarrow> nat \<Rightarrow> int option" where
  "uniquePaths m n = (
     if m = 0 \<or> n = 0 then None
     else do {
       f \<leftarrow> for_each [1..<m] (set_one (\<lambda>k. (k, 0))) (replicate m (replicate n None));
       f \<leftarrow> for_each [1..<n] (set_one (\<lambda>k. (0, k))) f;
       f \<leftarrow> for_each [1..<m] (\<lambda>i. for_each [1..<n] (paths_cell i)) f;
       r \<leftarrow> tget f (m - 1) (n - 1);
       r })"

definition add_left :: "nat \<Rightarrow> int list \<Rightarrow> int list option" where
  "add_left j cur = do { a \<leftarrow> vget cur j; b \<leftarrow> vget cur (j - 1); vset cur j (a + b) }"

definition uniquePathsSimpler :: "nat \<Rightarrow> nat \<Rightarrow> int option" where
  "uniquePathsSimpler m n = do {
     cur \<leftarrow> for_each [1..<m] (\<lambda>i. for_each [1..<n] add_left) (replicate n 1);
     if n = 0 then None else vget cur (n - 1) }"

definition paths :: "nat \<Rightarrow> nat \<Rightarrow> int" where
  "paths i j = int ((i + j) choose i)"

lemma paths_rec: "paths 0 j = 1" "paths i 0 = 1" "0 < i \<Longrightarrow> 0 < j \<Longrightarrow> paths i j = paths (i - 1) j + paths i (j - 1)"
  by (cases i; cases j; simp add: paths_def)+

lemma uniquePaths_ok:
  assumes "1 < m \<or> 1 < n" and "0 < m" and "0 < n"
  shows "uniquePaths m n = Some (paths (m - 1) (n - 1))"
proof -
  let ?g = "\<lambda>i j. if i = 0 \<and> j = 0 then None else Some (paths i j)"
  have "\<exists>f. for_each [1..<m] (set_one (\<lambda>k. (k, 0))) (replicate m (replicate n None)) = Some f \<and>
      filled f m n ?g (\<lambda>a b. b = 0 \<and> a < m)"
  proof (rule for_upt [where I = "\<lambda>k f. filled f m n ?g (\<lambda>a b. b = 0 \<and> a < k)"])
    show "filled (replicate m (replicate n None)) m n ?g (\<lambda>a b. b = 0 \<and> a < 1)" by (rule filled_replicate) auto
    fix k f assume "1 \<le> k" "k < m" "filled f m n ?g (\<lambda>a b. b = 0 \<and> a < k)"
    then show "\<exists>f'. set_one (\<lambda>k. (k, 0)) k f = Some f' \<and> filled f' m n ?g (\<lambda>a b. b = 0 \<and> a < Suc k)"
      using assms(3) unfolding set_one_def by (simp, intro filled_tset) (auto simp: paths_rec)
  qed (use assms in auto)
  then obtain f1 where f1: "for_each [1..<m] (set_one (\<lambda>k. (k, 0))) (replicate m (replicate n None)) = Some f1"
      "filled f1 m n ?g (\<lambda>a b. b = 0 \<and> a < m)" by blast
  have "\<exists>f. for_each [1..<n] (set_one (\<lambda>k. (0, k))) f1 = Some f \<and> filled f m n ?g (\<lambda>a b. b = 0 \<or> a = 0 \<and> b < n)"
  proof (rule for_upt [where I = "\<lambda>k f. filled f m n ?g (\<lambda>a b. b = 0 \<or> a = 0 \<and> b < k)"])
    show "filled f1 m n ?g (\<lambda>a b. b = 0 \<or> a = 0 \<and> b < 1)" using f1(2) by (rule filled_mono) auto
    fix k f assume "1 \<le> k" "k < n" "filled f m n ?g (\<lambda>a b. b = 0 \<or> a = 0 \<and> b < k)"
    then show "\<exists>f'. set_one (\<lambda>k. (0, k)) k f = Some f' \<and> filled f' m n ?g (\<lambda>a b. b = 0 \<or> a = 0 \<and> b < Suc k)"
      using assms(2) unfolding set_one_def by (simp, intro filled_tset) (auto simp: paths_rec)
  qed (use assms in auto)
  then obtain f2 where f2: "for_each [1..<n] (set_one (\<lambda>k. (0, k))) f1 = Some f2" "filled f2 m n ?g (\<lambda>a b. b = 0 \<or> a = 0 \<and> b < n)"
    by blast
  have "\<exists>f. for_each [1..<m] (\<lambda>i. for_each [1..<n] (paths_cell i)) f2 = Some f \<and> filled f m n ?g (\<lambda>_ _. True)"
  proof (rule fill_rows)
    show "filled f2 m n ?g (\<lambda>a b. a = 0 \<or> b = 0)" using f2(2) by (rule filled_mono) auto
    fix i j t assume c: "0 < i" "i < m" "0 < j" "j < n" "filled t m n ?g (upto_cell i j)"
    have "tget t (i - 1) j = Some (Some (paths (i - 1) j))" "tget t i (j - 1) = Some (Some (paths i (j - 1)))"
      using c filled_tget [OF c(5), of "i - 1" j] filled_tget [OF c(5), of i "j - 1"] by (auto simp: upto_cell_def)
    then show "paths_cell i j t = tset t i j (?g i j)" using c paths_rec(3) [of i j] by (simp add: paths_cell_def)
  qed (use assms in auto)
  then obtain f3 where f3: "for_each [1..<m] (\<lambda>i. for_each [1..<n] (paths_cell i)) f2 = Some f3" "filled f3 m n ?g (\<lambda>_ _. True)"
    by blast
  have "tget f3 (m - 1) (n - 1) = Some (?g (m - 1) (n - 1))" using assms by (intro filled_tget [OF f3(2)]) auto
  then have "tget f3 (m - 1) (n - 1) = Some (Some (paths (m - 1) (n - 1)))" using assms(1) by auto
  then show ?thesis using f1(1) f2(1) f3(1) assms(2,3) by (simp add: uniquePaths_def)
qed

lemma uniquePathsSimpler_ok:
  assumes "0 < m" and "0 < n"
  shows "uniquePathsSimpler m n = Some (paths (m - 1) (n - 1))"
proof -
  have row: "for_each [1..<n] add_left (map (paths (i - 1)) [0..<n]) = Some (map (paths i) [0..<n])" if i: "1 \<le> i" for i
  proof (rule sweep)
    fix j c assume j: "0 < j" "j < n" "length c = n" "c ! (j - 1) = paths i (j - 1)" "c ! j = map (paths (i - 1)) [0..<n] ! j"
    then have "paths i j = c ! j + c ! (j - 1)" using i paths_rec(3) [of i j] by simp
    then show "add_left j c = Some (c[j := paths i j])" using j(1-3) by (simp add: add_left_def ub_simps)
  qed (use assms in \<open>auto simp: paths_rec\<close>)
  have "\<exists>c. for_each [1..<m] (\<lambda>i. for_each [1..<n] add_left) (replicate n 1) = Some c \<and> c = map (paths (m - 1)) [0..<n]"
  proof (rule for_upt [where I = "\<lambda>i c. c = map (paths (i - 1)) [0..<n]"])
    show "replicate n 1 = map (paths (1 - 1)) [0..<n]" by (intro nth_equalityI) (auto simp: paths_rec)
  qed (use assms row in auto)
  then show ?thesis using assms(2) by (simp add: uniquePathsSimpler_def ub_simps)
qed

text \<open>A grid of one cell has one walk, but the table never writes its only entry.\<close>

lemma uniquePaths_single: "uniquePaths 1 1 = None" "uniquePathsSimpler 1 1 = Some 1"
  by (simp_all add: uniquePaths_def uniquePathsSimpler_def tget_def vget_def)

subsection \<open>Obstacles\<close>

definition zero_from :: "nat \<Rightarrow> nat \<Rightarrow> int list \<Rightarrow> int list option" where
  "zero_from n j cur = for_each [j..<n] (\<lambda>k cur. vset cur k 0) cur"

text \<open>The first obstacle of the first row ends the loop.\<close>

fun first_obstacle :: "int list list \<Rightarrow> nat \<Rightarrow> nat list \<Rightarrow> int list \<Rightarrow> int list option" where
  "first_obstacle grid n [] cur = Some cur"
| "first_obstacle grid n (j # js) cur = do {
     x \<leftarrow> tget grid 0 j;
     if x = 1 then zero_from n j cur else first_obstacle grid n js cur }"

definition obstacle_cell :: "int list list \<Rightarrow> nat \<Rightarrow> nat \<Rightarrow> int list \<Rightarrow> int list option" where
  "obstacle_cell grid i j cur = do {
     x \<leftarrow> tget grid i j;
     if x = 1 then vset cur j 0 else add_left j cur }"

definition obstacle_row :: "int list list \<Rightarrow> nat \<Rightarrow> nat \<Rightarrow> int list \<Rightarrow> int list option" where
  "obstacle_row grid n i cur = do {
     x \<leftarrow> tget grid i 0;
     cur \<leftarrow> (if x = 1 then vset cur 0 0 else Some cur);
     for_each [1..<n] (obstacle_cell grid i) cur }"

definition uniquePathsWithObstacles :: "int list list \<Rightarrow> int option" where
  "uniquePathsWithObstacles grid = do {
     row \<leftarrow> vget grid 0;
     let n = length row;
     cur \<leftarrow> first_obstacle grid n [1..<n] (replicate n 1);
     cur \<leftarrow> for_each [1..<length grid] (obstacle_row grid n) cur;
     if n = 0 then None else vget cur (n - 1) }"

text \<open>A route is the list of its steps (\<open>True\<close> is down), the last one first.\<close>

inductive route :: "int list list \<Rightarrow> bool list \<Rightarrow> nat \<Rightarrow> nat \<Rightarrow> bool" for grid where
  here: "route grid [] 0 0"
| right: "route grid p i j \<Longrightarrow> grid ! i ! Suc j \<noteq> 1 \<Longrightarrow> route grid (False # p) i (Suc j)"
| down: "route grid p i j \<Longrightarrow> grid ! Suc i ! j \<noteq> 1 \<Longrightarrow> route grid (True # p) (Suc i) j"

inductive_cases route_NilE: "route grid [] i j"
inductive_cases route_rightE: "route grid (False # p) i j"
inductive_cases route_downE: "route grid (True # p) i j"

fun ways :: "int list list \<Rightarrow> nat \<Rightarrow> nat \<Rightarrow> int" where
  "ways grid 0 0 = 1"
| "ways grid 0 (Suc j) = (if grid ! 0 ! Suc j = 1 then 0 else ways grid 0 j)"
| "ways grid (Suc i) 0 = (if grid ! Suc i ! 0 = 1 then 0 else ways grid i 0)"
| "ways grid (Suc i) (Suc j) = (if grid ! Suc i ! Suc j = 1 then 0 else ways grid i (Suc j) + ways grid (Suc i) j)"

lemma routes_of:
  "{p. route grid p 0 0} = {[]}"
  "{p. route grid p 0 (Suc j)} = (if grid ! 0 ! Suc j = 1 then {} else (#) False ` {p. route grid p 0 j})"
  "{p. route grid p (Suc i) 0} = (if grid ! Suc i ! 0 = 1 then {} else (#) True ` {p. route grid p i 0})"
  "{p. route grid p (Suc i) (Suc j)} = (if grid ! Suc i ! Suc j = 1 then {}
     else (#) True ` {p. route grid p i (Suc j)} \<union> (#) False ` {p. route grid p (Suc i) j})"
  by (auto intro: route.intros elim: route.cases)

lemma ways_count: "finite {p. route grid p i j} \<and> ways grid i j = int (card {p. route grid p i j})"
proof (induction grid i j rule: ways.induct)
  case (4 grid i j)
  have "(#) True ` {p. route grid p i (Suc j)} \<inter> (#) False ` {p. route grid p (Suc i) j} = {}" by auto
  then show ?case using 4 by (simp add: routes_of card_image card_Un_disjoint)
qed (auto simp: routes_of card_image)

lemma zero_from_ok: "j \<le> length cur \<Longrightarrow> zero_from (length cur) j cur = Some (take j cur @ replicate (length cur - j) 0)"
proof -
  assume j: "j \<le> length cur"
  have "\<exists>c. for_each [j..<length cur] (\<lambda>k cur. vset cur k 0) cur = Some c \<and> length c = length cur \<and>
      take (length cur) c = take j cur @ replicate (length cur - j) 0"
  proof (rule for_upt [where I = "\<lambda>k c. length c = length cur \<and> take k c = take j cur @ replicate (k - j) 0"])
    fix k c assume k: "j \<le> k" "k < length cur" and I: "length c = length cur \<and> take k c = take j cur @ replicate (k - j) 0"
    then show "\<exists>c'. vset c k 0 = Some c' \<and> length c' = length cur \<and> take (Suc k) c' = take j cur @ replicate (Suc k - j) 0"
      by (auto simp: take_Suc_conv_app_nth Suc_diff_le replicate_append_same)
  qed (use j in auto)
  then show ?thesis by (auto simp: zero_from_def)
qed

lemma first_obstacle_ok:
  assumes "grid_of grid m n" and "a \<le> n" and "0 < a" and "\<forall>k < a. ways grid 0 k = 1"
  shows "first_obstacle grid n [a..<n] (replicate n 1) = Some (map (ways grid 0) [0..<n])"
  using assms(2-4)
proof (induction "n - a" arbitrary: a)
  case 0
  then have "map (ways grid 0) [0..<n] = map (\<lambda>_. 1) [0..<n]" by (intro map_cong) auto
  then show ?case using 0 by (simp add: map_replicate_const)
next
  case (Suc d)
  have a: "a < n" using Suc(2) by simp
  have g: "tget grid 0 a = Some (grid ! 0 ! a)" using grid_tget [OF assms(1) _ a] assms(1) by (auto simp: grid_of_def)
  have step: "ways grid 0 a = (if grid ! 0 ! a = 1 then 0 else 1)" using Suc(4,5) by (cases a) auto
  show ?case
  proof (cases "grid ! 0 ! a = 1")
    case False
    have "first_obstacle grid n [Suc a..<n] (replicate n 1) = Some (map (ways grid 0) [0..<n])"
      using Suc(2,5) step False a by (intro Suc(1)) (auto simp: less_Suc_eq)
    then show ?thesis using g False a by (simp add: upt_conv_Cons)
  next
    case True
    have zero: "ways grid 0 k = 0" if "a \<le> k" for k
      using that by (induction k rule: dec_induct) (use step True in auto)
    have "take a (replicate n (1::int)) @ replicate (n - a) 0 = map (ways grid 0) [0..<n]"
      using Suc(5) zero a by (intro nth_equalityI) (auto simp: nth_append)
    then show ?thesis using g True a zero_from_ok [of a "replicate n 1"] by (simp add: upt_conv_Cons)
  qed
qed

lemma uniquePathsWithObstacles_ok:
  assumes g: "grid_of grid m n"
  shows "uniquePathsWithObstacles grid = Some (int (card {p. route grid p (m - 1) (n - 1)}))"
proof -
  have row0: "vget grid 0 = Some (grid ! 0)" "length (grid ! 0) = n" "0 < n" "length grid = m" "0 < m"
    using g by (auto simp: grid_of_def vget_def)
  have row: "obstacle_row grid n i (map (ways grid (i - 1)) [0..<n]) = Some (map (ways grid i) [0..<n])" if i: "1 \<le> i" "i < m" for i
  proof -
    let ?cur = "(map (ways grid (i - 1)) [0..<n])[0 := ways grid i 0]"
    have "for_each [1..<n] (obstacle_cell grid i) ?cur = Some (map (ways grid i) [0..<n])"
    proof (rule sweep)
      fix j c assume j: "0 < j" "j < n" "length c = n" "c ! (j - 1) = ways grid i (j - 1)" "c ! j = ?cur ! j"
      then have "ways grid i j = (if grid ! i ! j = 1 then 0 else c ! j + c ! (j - 1))" using i by (cases i; cases j) auto
      then show "obstacle_cell grid i j c = Some (c[j := ways grid i j])"
        using j(1-3) grid_tget [OF g i(2) j(2)] by (simp add: obstacle_cell_def add_left_def ub_simps)
    qed (use row0 in auto)
    moreover have "ways grid i 0 = (if grid ! i ! 0 = 1 then 0 else ways grid (i - 1) 0)" using i by (cases i) auto
    moreover have "map (ways grid (i - 1)) [0..<n] = (map (ways grid (i - 1)) [0..<n])[0 := ways grid (i - 1) 0]"
      by (intro nth_equalityI) (auto simp: nth_list_update)
    ultimately show ?thesis using row0(3) grid_tget [OF g i(2) row0(3)] by (auto simp: obstacle_row_def ub_simps)
  qed
  have first: "first_obstacle grid n [1..<n] (replicate n 1) = Some (map (ways grid 0) [0..<n])"
    using row0 by (intro first_obstacle_ok [OF g]) auto
  have "\<exists>c. for_each [1..<m] (obstacle_row grid n) (map (ways grid 0) [0..<n]) = Some c \<and> c = map (ways grid (m - 1)) [0..<n]"
    using row row0(5) by (intro for_upt [where I = "\<lambda>i c. c = map (ways grid (i - 1)) [0..<n]"]) auto
  moreover have "grid ! 0 \<noteq> []" using row0(2,3) by auto
  moreover have "ways grid (m - 1) (n - 1) = int (card {p. route grid p (m - 1) (n - 1)})" using ways_count by blast
  ultimately show ?thesis using row0 first by (simp add: uniquePathsWithObstacles_def ub_simps)
qed

text \<open>An obstacle on the first cell is not looked at.\<close>

lemma uniquePathsWithObstacles_start: "uniquePathsWithObstacles [[1, 0]] = Some 1"
  by (simp add: uniquePathsWithObstacles_def tget_def vget_def upt_conv_Cons)

subsection \<open>The dungeon\<close>

definition need :: "int \<Rightarrow> int" where
  "need i = (if 0 \<le> i then 0 else - i)"

definition last_room :: "nat \<Rightarrow> int list \<Rightarrow> int list option" where
  "last_room j cur = do { a \<leftarrow> vget cur j; b \<leftarrow> vget cur (j + 1); vset cur j (need (a - b)) }"

definition room_cell :: "int list list \<Rightarrow> nat \<Rightarrow> nat \<Rightarrow> int list \<Rightarrow> int list option" where
  "room_cell dungeon i j cur = do {
     x \<leftarrow> tget dungeon i j; a \<leftarrow> vget cur j; b \<leftarrow> vget cur (j + 1);
     vset cur j (need (x - min a b)) }"

definition room_row :: "int list list \<Rightarrow> nat \<Rightarrow> nat \<Rightarrow> int list \<Rightarrow> int list option" where
  "room_row dungeon n i cur = do {
     x \<leftarrow> tget dungeon i (n - 1);
     a \<leftarrow> vget cur (n - 1);
     cur \<leftarrow> vset cur (n - 1) (need (x - a));
     for_each (rev [0..<n - 1]) (room_cell dungeon i) cur }"

definition calculateMinimumHP :: "int list list \<Rightarrow> int option" where
  "calculateMinimumHP dungeon = (
     if dungeon = [] then None
     else do {
       let n = length (dungeon ! 0);
       cur \<leftarrow> vget dungeon (length dungeon - 1);
       if n = 0 then None
       else do {
         a \<leftarrow> vget cur (n - 1);
         cur \<leftarrow> vset cur (n - 1) (need a);
         cur \<leftarrow> for_each (rev [0..<n - 1]) last_room cur;
         cur \<leftarrow> for_each (rev [0..<length dungeon - 1]) (room_row dungeon n) cur;
         a \<leftarrow> vget cur 0;
         Some (a + 1) } })"

text \<open>A knight of health \<open>h\<close> in the rooms of a walk: it stays above 0 throughout.\<close>

fun survives :: "int \<Rightarrow> int list \<Rightarrow> bool" where
  "survives h [] \<longleftrightarrow> 0 < h"
| "survives h (v # vs) \<longleftrightarrow> 0 < h \<and> survives (h + v) vs"

text \<open>The rooms of a walk from \<open>(i, j)\<close> to the lower right corner.\<close>

inductive walk_from :: "int list list \<Rightarrow> nat \<Rightarrow> nat \<Rightarrow> nat \<Rightarrow> nat \<Rightarrow> int list \<Rightarrow> bool" for d m n where
  goal: "walk_from d m n (m - 1) (n - 1) [d ! (m - 1) ! (n - 1)]"
| right: "walk_from d m n i (Suc j) vs \<Longrightarrow> Suc j < n \<Longrightarrow> walk_from d m n i j (d ! i ! j # vs)"
| down: "walk_from d m n (Suc i) j vs \<Longrightarrow> Suc i < m \<Longrightarrow> walk_from d m n i j (d ! i ! j # vs)"

fun needed :: "int list \<Rightarrow> int" where
  "needed [] = 0"
| "needed (v # vs) = need (v - needed vs)"

lemma needed_nonneg: "0 \<le> needed vs"
  by (cases vs) (auto simp: need_def)

lemma survives_needed: "survives h vs \<longleftrightarrow> needed vs < h"
proof (induction vs arbitrary: h)
  case (Cons v vs)
  have "survives h (v # vs) \<longleftrightarrow> 0 < h \<and> needed vs < h + v" by (simp add: Cons)
  also have "\<dots> \<longleftrightarrow> need (v - needed vs) < h" using needed_nonneg [of vs] by (cases "0 \<le> v - needed vs") (simp_all only: need_def if_True if_False, linarith+)
  finally show ?case by simp
qed simp

lemma need_mono: "a \<le> b \<Longrightarrow> need (x - a) \<le> need (x - b)"
  by (auto simp: need_def)

text \<open>What must be left over from room \<open>(i, j)\<close> on.\<close>

function least_need :: "int list list \<Rightarrow> nat \<Rightarrow> nat \<Rightarrow> nat \<Rightarrow> nat \<Rightarrow> int" where
  "least_need d m n i j = (
     if Suc i < m then
       if Suc j < n then need (d ! i ! j - min (least_need d m n (Suc i) j) (least_need d m n i (Suc j)))
       else need (d ! i ! j - least_need d m n (Suc i) j)
     else if Suc j < n then need (d ! i ! j - least_need d m n i (Suc j))
     else need (d ! i ! j))"
  by pat_completeness auto
termination
proof (relation "measure (\<lambda>(d, m, n, i, j). (m - i) + (n - j))")
qed (simp_all add: diff_less_mono2 Suc_diff_Suc)

declare least_need.simps [simp del]

lemma least_need_walk:
  "i < m \<Longrightarrow> j < n \<Longrightarrow> \<exists>vs. walk_from d m n i j vs \<and> needed vs = least_need d m n i j"
proof (induction d m n i j rule: least_need.induct)
  case (1 d m n i j)
  note prems = 1(5,6)
  have IH: "Suc i < m \<Longrightarrow> \<exists>vs. walk_from d m n (Suc i) j vs \<and> needed vs = least_need d m n (Suc i) j"
    "Suc j < n \<Longrightarrow> \<exists>vs. walk_from d m n i (Suc j) vs \<and> needed vs = least_need d m n i (Suc j)"
    using 1 by (cases "Suc i < m"; cases "Suc j < n"; simp)+
  consider "\<not> Suc i < m" "\<not> Suc j < n"
    | "Suc i < m" "least_need d m n i j = need (d ! i ! j - least_need d m n (Suc i) j)"
    | "Suc j < n" "least_need d m n i j = need (d ! i ! j - least_need d m n i (Suc j))"
    using least_need.simps [of d m n i j] by (auto simp: min_def split: if_splits)
  then show ?case
  proof cases
    case 1
    then have "i = m - 1" "j = n - 1" using prems by linarith+
    moreover have "least_need d m n i j = need (d ! i ! j)" using 1 by (subst least_need.simps) simp
    ultimately show ?thesis using walk_from.goal [of d m n] by (intro exI [of _ "[d ! i ! j]"]) simp
  next
    case 2
    then obtain vs where "walk_from d m n (Suc i) j vs" "needed vs = least_need d m n (Suc i) j" using IH prems by blast
    then show ?thesis using 2 by (intro exI [of _ "d ! i ! j # vs"]) (auto intro: walk_from.down)
  next
    case 3
    then obtain vs where "walk_from d m n i (Suc j) vs" "needed vs = least_need d m n i (Suc j)" using IH prems by blast
    then show ?thesis using 3 by (intro exI [of _ "d ! i ! j # vs"]) (auto intro: walk_from.right)
  qed
qed

lemma least_need_least: "walk_from d m n i j vs \<Longrightarrow> i < m \<Longrightarrow> j < n \<Longrightarrow> least_need d m n i j \<le> needed vs"
proof (induction rule: walk_from.induct)
  case goal
  then show ?case by (subst least_need.simps) auto
next
  case (right i j vs)
  then have "least_need d m n i (Suc j) \<le> needed vs" by simp
  then have "need (d ! i ! j - min (least_need d m n (Suc i) j) (least_need d m n i (Suc j))) \<le> needed (d ! i ! j # vs)"
    and "need (d ! i ! j - least_need d m n i (Suc j)) \<le> needed (d ! i ! j # vs)" by (auto intro!: need_mono)
  then show ?case using right(2) by (subst least_need.simps) auto
next
  case (down i j vs)
  then have "least_need d m n (Suc i) j \<le> needed vs" by simp
  then have "need (d ! i ! j - min (least_need d m n (Suc i) j) (least_need d m n i (Suc j))) \<le> needed (d ! i ! j # vs)"
    and "need (d ! i ! j - least_need d m n (Suc i) j) \<le> needed (d ! i ! j # vs)" by (auto intro!: need_mono)
  then show ?case using down(2) by (subst least_need.simps) auto
qed

lemma calculateMinimumHP_need:
  assumes g: "grid_of d m n"
  shows "calculateMinimumHP d = Some (least_need d m n 0 0 + 1)"
proof -
  let ?h = "least_need d m n"
  have b: "0 < n" "0 < m" "length d = m" "d \<noteq> []" "length (d ! 0) = n" "length (d ! (m - 1)) = n"
    using g by (auto simp: grid_of_def)
  have first: "for_each (rev [0..<n - 1]) last_room ((d ! (m - 1))[n - 1 := need (d ! (m - 1) ! (n - 1))]) = Some (map (?h (m - 1)) [0..<n])"
  proof (rule sweep_down)
    show "(d ! (m - 1))[n - 1 := need (d ! (m - 1) ! (n - 1))] ! (n - 1) = ?h (m - 1) (n - 1)"
      using b by (subst least_need.simps) auto
    fix j c assume j: "Suc j < n" "length c = n" "c ! Suc j = ?h (m - 1) (Suc j)"
      "c ! j = (d ! (m - 1))[n - 1 := need (d ! (m - 1) ! (n - 1))] ! j"
    then have "?h (m - 1) j = need (c ! j - c ! Suc j)" using b by (subst least_need.simps) auto
    then show "last_room j c = Some (c[j := ?h (m - 1) j])" using j(1,2) by (simp add: last_room_def ub_simps)
  qed (use b in auto)
  have row: "room_row d n i (map (?h (Suc i)) [0..<n]) = Some (map (?h i) [0..<n])" if i: "Suc i < m" for i
  proof -
    let ?cur = "(map (?h (Suc i)) [0..<n])[n - 1 := ?h i (n - 1)]"
    have "for_each (rev [0..<n - 1]) (room_cell d i) ?cur = Some (map (?h i) [0..<n])"
    proof (rule sweep_down)
      fix j c assume j: "Suc j < n" "length c = n" "c ! Suc j = ?h i (Suc j)" "c ! j = ?cur ! j"
      then have "?h i j = need (d ! i ! j - min (c ! j) (c ! Suc j))" using i by (subst least_need.simps) auto
      then show "room_cell d i j c = Some (c[j := ?h i j])"
        using j(1,2) grid_tget [OF g, of i j] i by (simp add: room_cell_def ub_simps)
    qed (use b in auto)
    moreover have "?h i (n - 1) = need (d ! i ! (n - 1) - ?h (Suc i) (n - 1))" using i b(1) by (subst least_need.simps) auto
    ultimately show ?thesis using b(1) grid_tget [OF g, of i "n - 1"] i by (simp add: room_row_def ub_simps)
  qed
  have "\<exists>c. for_each (rev [0..<m - 1]) (room_row d n) (map (?h (m - 1)) [0..<n]) = Some c \<and> c = map (?h 0) [0..<n]"
  proof (rule for_down [where I = "\<lambda>i c. c = map (?h i) [0..<n]"])
    fix i c assume "i < m - 1" "c = map (?h (Suc i)) [0..<n]"
    then show "\<exists>c'. room_row d n i c = Some c' \<and> c' = map (?h i) [0..<n]" using row [of i] by simp
  qed simp
  moreover have "d ! 0 \<noteq> []" using b(1,5) by auto
  ultimately show ?thesis using b first by (simp add: calculateMinimumHP_def Let_def ub_simps)
qed

text \<open>
  The health that \<open>calculateMinimumHP\<close> returns is the least with which some walk through
  the dungeon is survived.
\<close>

theorem calculateMinimumHP_least:
  assumes "grid_of d m n"
  shows "\<exists>r. calculateMinimumHP d = Some r \<and> (\<exists>vs. walk_from d m n 0 0 vs \<and> survives r vs) \<and>
    (\<forall>h vs. walk_from d m n 0 0 vs \<and> survives h vs \<longrightarrow> r \<le> h)"
proof -
  have b: "0 < m" "0 < n" using assms by (auto simp: grid_of_def)
  obtain vs where "walk_from d m n 0 0 vs" "needed vs = least_need d m n 0 0" using least_need_walk [OF b] by blast
  moreover have "least_need d m n 0 0 + 1 \<le> h" if "walk_from d m n 0 0 vs" "survives h vs" for h vs
    using least_need_least [OF that(1) b] that(2) by (simp add: survives_needed)
  ultimately show ?thesis using calculateMinimumHP_need [OF assms] by (auto simp: survives_needed)
qed

theorem calculateMinimumHP_least_witness:
  "\<exists>r. calculateMinimumHP [[-2, -3, 3], [-5, -10, 1], [10, 30, -5]] = Some r \<and>
    (\<exists>vs. walk_from [[-2, -3, 3], [-5, -10, 1], [10, 30, -5]] 3 3 0 0 vs \<and> survives r vs)"
  using calculateMinimumHP_least [of "[[-2, -3, 3], [-5, -10, 1], [10, 30, -5]]" 3 3] by (auto simp: grid_of_def)

text \<open>
  The grid programs together: the cheapest walk, the number of walks, and the number of walks
  without obstacles.
\<close>

theorem grid_programs_correct:
  assumes "grid_of grid m n"
  shows "\<exists>c. minPathSum grid = Some c \<and> walk_sum grid (m - 1) (n - 1) c \<and> (\<forall>s. walk_sum grid (m - 1) (n - 1) s \<longrightarrow> c \<le> s)"
    and "uniquePathsWithObstacles grid = Some (int (card {p. route grid p (m - 1) (n - 1)}))"
    and "uniquePathsSimpler m n = Some (int ((m - 1 + (n - 1)) choose (m - 1)))"
    and "1 < m \<or> 1 < n \<Longrightarrow> uniquePaths m n = uniquePathsSimpler m n"
proof -
  have b: "0 < m" "0 < n" using assms by (auto simp: grid_of_def)
  show "\<exists>c. minPathSum grid = Some c \<and> walk_sum grid (m - 1) (n - 1) c \<and> (\<forall>s. walk_sum grid (m - 1) (n - 1) s \<longrightarrow> c \<le> s)"
    using minPathSum_ok [OF assms] cheapest_walk cheapest_least by blast
  show "uniquePathsWithObstacles grid = Some (int (card {p. route grid p (m - 1) (n - 1)}))"
    by (rule uniquePathsWithObstacles_ok [OF assms])
  show "uniquePathsSimpler m n = Some (int ((m - 1 + (n - 1)) choose (m - 1)))"
    using uniquePathsSimpler_ok [OF b] by (simp add: paths_def)
  show "1 < m \<or> 1 < n \<Longrightarrow> uniquePaths m n = uniquePathsSimpler m n"
    using uniquePaths_ok [OF _ b] uniquePathsSimpler_ok [OF b] by simp
qed

end
