(* ===== verification/IncSubseq.thy ===== *)
theory IncSubseq
  imports Tables "HOL-Library.Sublist" 
begin

section \<open>Longest increasing subsequence (leetcode/DP/longestIncSubseq.cc)\<close>

text \<open>
  The quadratic table and patience sorting. \<open>max_element\<close> of an empty vector is the end
  iterator, which the first version dereferences.
\<close>

definition lis_step :: "int list \<Rightarrow> nat \<Rightarrow> nat \<Rightarrow> nat list \<Rightarrow> nat list option" where
  "lis_step nums i j dp = do {
     x \<leftarrow> vget nums j;
     y \<leftarrow> vget nums i;
     if x < y then do { a \<leftarrow> vget dp i; b \<leftarrow> vget dp j; vset dp i (max a (b + 1)) } else Some dp }"

definition lengthOfLIS :: "int list \<Rightarrow> nat option" where
  "lengthOfLIS nums = do {
     let n = length nums;
     dp \<leftarrow> for_each [1..<n] (\<lambda>i. for_each [0..<i] (lis_step nums i)) (replicate n 1);
     if dp = [] then None else Some (Max (set dp)) }"

definition patience_step :: "int list \<Rightarrow> nat \<Rightarrow> int list \<Rightarrow> int list option" where
  "patience_step nums i dp = do {
     x \<leftarrow> vget nums i;
     let it = length (takeWhile (\<lambda>y. y < x) dp);
     if it = length dp then Some (dp @ [x]) else vset dp it x }"

definition lengthOfLIS2 :: "int list \<Rightarrow> nat option" where
  "lengthOfLIS2 nums = do { dp \<leftarrow> for_each [0..<length nums] (patience_step nums) []; Some (length dp) }"

text \<open>An increasing subsequence of the first \<open>i\<close> elements; of those the ones that end with \<open>x\<close>.\<close>

definition inc_sub :: "int list \<Rightarrow> int list \<Rightarrow> bool" where
  "inc_sub nums ys \<longleftrightarrow> subseq ys nums \<and> sorted_wrt (<) ys"

lemma inc_sub_snoc:
  "inc_sub (nums @ [x]) ys \<longleftrightarrow> inc_sub nums ys \<or> (\<exists>zs. ys = zs @ [x] \<and> inc_sub nums zs \<and> (zs \<noteq> [] \<longrightarrow> last zs < x))"
proof -
  have s: "subseq ys (nums @ [x]) \<longleftrightarrow> subseq ys nums \<or> (\<exists>zs. ys = zs @ [x] \<and> subseq zs nums)"
  proof -
    have one: "subseq vs [x] \<longleftrightarrow> vs = [] \<or> vs = [x]" for vs by (cases vs) auto
    show ?thesis unfolding subseq_append_iff one by auto
  qed
  have w: "sorted_wrt (<) (zs @ [x]) \<longleftrightarrow> sorted_wrt (<) zs \<and> (zs \<noteq> [] \<longrightarrow> last zs < x)" for zs :: "int list"
    by (cases zs rule: rev_cases) (auto simp: sorted_wrt_append)
  show ?thesis unfolding inc_sub_def s using w by auto
qed

lemma inc_sub_Nil [simp]: "inc_sub nums []" "inc_sub [] ys \<longleftrightarrow> ys = []"
  by (auto simp: inc_sub_def)

subsection \<open>Patience sorting\<close>

definition piles :: "int list \<Rightarrow> int list \<Rightarrow> bool" where
  "piles nums dp \<longleftrightarrow> sorted_wrt (<) dp \<and>
     (\<forall>k < length dp. \<exists>ys. inc_sub nums ys \<and> length ys = k + 1 \<and> last ys = dp ! k) \<and>
     (\<forall>ys. inc_sub nums ys \<and> ys \<noteq> [] \<longrightarrow> length ys \<le> length dp \<and> dp ! (length ys - 1) \<le> last ys)"

lemma piles_step:
  assumes p: "piles nums dp" and it: "it = length (takeWhile (\<lambda>y. y < x) dp)"
  shows "piles (nums @ [x]) (if it = length dp then dp @ [x] else dp[it := x])"
proof -
  let ?d = "if it = length dp then dp @ [x] else dp[it := x]"
  have le: "it \<le> length dp" unfolding it by (rule length_takeWhile_le)
  have small: "dp ! k < x" if "k < it" for k
    using that nth_mem [of k "takeWhile (\<lambda>y. y < x) dp"] set_takeWhileD takeWhile_nth [of k "\<lambda>y. y < x" dp] unfolding it by fastforce
  have big: "x \<le> dp ! k" if "it \<le> k" "k < length dp" for k
  proof -
    have "\<not> dp ! it < x" using that unfolding it by (intro nth_length_takeWhile) simp
    moreover have "dp ! it \<le> dp ! k"
      using p that by (cases "it = k") (auto simp: piles_def sorted_wrt_iff_nth_less intro: less_imp_le)
    ultimately show ?thesis by simp
  qed
  have nth: "?d ! k = (if k = it then x else dp ! k)" if "k < length ?d" for k
    using that le by (auto simp: nth_append nth_list_update)
  have len: "length ?d = max (length dp) (it + 1)" using le by auto
  have srt: "sorted_wrt (<) ?d"
    unfolding sorted_wrt_iff_nth_less
  proof (intro allI impI)
    fix i j assume ij: "i < j" "j < length ?d"
    have d: "dp ! i < dp ! j" if "j < length dp" using p ij(1) that by (simp add: piles_def sorted_wrt_iff_nth_less)
    show "?d ! i < ?d ! j"
      using ij len nth [of i] nth [of j] small [of i] big [of it] d le by (cases "j = it"; cases "i = it") (auto split: if_splits)
  qed
  have have_all: "\<exists>ys. inc_sub (nums @ [x]) ys \<and> length ys = k + 1 \<and> last ys = ?d ! k" if k: "k < length ?d" for k
  proof (cases "k = it")
    case True
    show ?thesis
    proof (cases it)
      case 0
      then show ?thesis using True nth [OF k] by (intro exI [of _ "[x]"]) (auto simp: inc_sub_snoc)
    next
      case (Suc i)
      then obtain ys where ys: "inc_sub nums ys" "length ys = it" "last ys = dp ! i"
      proof -
        have "i < length dp" using Suc le by simp
        then have "\<exists>ys. inc_sub nums ys \<and> length ys = i + 1 \<and> last ys = dp ! i" using p unfolding piles_def by blast
        then show ?thesis using that Suc by auto
      qed
      then have "inc_sub (nums @ [x]) (ys @ [x])" using small [of i] Suc by (auto simp: inc_sub_snoc)
      then show ?thesis using True nth [OF k] ys(2) by (intro exI [of _ "ys @ [x]"]) simp
    qed
  next
    case False
    then have "k < length dp" using k len le by auto
    then obtain ys where "inc_sub nums ys" "length ys = k + 1" "last ys = dp ! k" using p by (auto simp: piles_def)
    then show ?thesis using nth [OF k] False by (auto simp: inc_sub_snoc)
  qed
  have bnd: "length ys \<le> length ?d \<and> ?d ! (length ys - 1) \<le> last ys" if ys: "inc_sub (nums @ [x]) ys" "ys \<noteq> []" for ys
  proof -
    consider "inc_sub nums ys" | zs where "ys = zs @ [x]" "inc_sub nums zs" "zs \<noteq> [] \<longrightarrow> last zs < x"
      using ys(1) by (auto simp: inc_sub_snoc)
    then show ?thesis
    proof cases
      case 1
      then have l: "length ys \<le> length dp" "dp ! (length ys - 1) \<le> last ys" using p ys(2) by (auto simp: piles_def)
      then have "length ys - 1 < length ?d" using ys(2) len by (cases ys) auto
      moreover have "x \<le> dp ! (length ys - 1)" if "length ys - 1 = it" using big [of it] that l(1) ys(2) by (cases ys) auto
      ultimately show ?thesis using l nth [of "length ys - 1"] len by fastforce
    next
      case (2 zs)
      have "length zs \<le> it"
      proof (cases "zs = []")
        case False
        then have "length zs \<le> length dp" "dp ! (length zs - 1) < x" using p 2 by (fastforce simp: piles_def)+
        then show ?thesis using big [of "length zs - 1"] False by (cases zs) force+
      qed simp
      moreover from this have "?d ! length zs \<le> x"
        using nth [of "length zs"] small [of "length zs"] len by (cases "length zs = it") auto
      ultimately show ?thesis using 2(1) len by simp
    qed
  qed
  show ?thesis unfolding piles_def using srt have_all bnd by blast
qed

definition longest :: "int list \<Rightarrow> nat \<Rightarrow> bool" where
  "longest nums k \<longleftrightarrow> (\<exists>ys. inc_sub nums ys \<and> length ys = k) \<and> (\<forall>ys. inc_sub nums ys \<longrightarrow> length ys \<le> k)"

lemma lengthOfLIS2_ok: "\<exists>k. lengthOfLIS2 nums = Some k \<and> longest nums k"
proof -
  have "\<exists>dp. for_each [0..<length nums] (patience_step nums) [] = Some dp \<and> piles (take (length nums) nums) dp"
  proof (rule for_upt [where I = "\<lambda>i dp. piles (take i nums) dp"])
    show "piles (take 0 nums) []" by (simp add: piles_def)
    fix i dp assume i: "i < length nums" and p: "piles (take i nums) dp"
    let ?it = "length (takeWhile (\<lambda>y. y < nums ! i) dp)"
    have "patience_step nums i dp = Some (if ?it = length dp then dp @ [nums ! i] else dp[?it := nums ! i])"
      using i length_takeWhile_le [of "\<lambda>y. y < nums ! i" dp] by (simp add: patience_step_def Let_def ub_simps)
    then show "\<exists>dp'. patience_step nums i dp = Some dp' \<and> piles (take (Suc i) nums) dp'"
      using piles_step [OF p refl, of "nums ! i"] i by (simp add: take_Suc_conv_app_nth)
  qed simp
  then obtain dp where dp: "lengthOfLIS2 nums = Some (length dp)" "piles nums dp" by (auto simp: lengthOfLIS2_def)
  have "\<exists>ys. inc_sub nums ys \<and> length ys = length dp"
  proof (cases "dp = []")
    case False
    then have "length dp - 1 < length dp" by simp
    then have "\<exists>ys. inc_sub nums ys \<and> length ys = length dp - 1 + 1" using dp(2) unfolding piles_def by blast
    then show ?thesis using False by simp
  qed (auto intro: exI [of _ "[]"])
  moreover have "length ys \<le> length dp" if "inc_sub nums ys" for ys
    using dp(2) that unfolding piles_def by (cases "ys = []") auto
  ultimately show ?thesis using dp(1) unfolding longest_def by blast
qed

subsection \<open>The quadratic table\<close>

text \<open>
  \<open>longest_below nums j x k\<close>: \<open>k\<close> is the length of the longest increasing subsequence made of
  elements before \<open>j\<close> and of \<open>x\<close> behind them.
\<close>

definition below_sub :: "int list \<Rightarrow> nat \<Rightarrow> int \<Rightarrow> int list \<Rightarrow> bool" where
  "below_sub nums j x zs \<longleftrightarrow> inc_sub (take j nums) zs \<and> (zs \<noteq> [] \<longrightarrow> last zs < x)"

definition longest_below :: "int list \<Rightarrow> nat \<Rightarrow> int \<Rightarrow> nat \<Rightarrow> bool" where
  "longest_below nums j x k \<longleftrightarrow> (\<exists>zs. below_sub nums j x zs \<and> length zs + 1 = k) \<and> (\<forall>zs. below_sub nums j x zs \<longrightarrow> length zs + 1 \<le> k)"

lemma longest_below_0: "longest_below nums 0 x 1"
  by (simp add: longest_below_def below_sub_def)

lemma below_sub_Suc: "j < length nums \<Longrightarrow>
    below_sub nums (Suc j) x zs \<longleftrightarrow> below_sub nums j x zs \<or> (\<exists>ws. zs = ws @ [nums ! j] \<and> below_sub nums j (nums ! j) ws \<and> nums ! j < x)"
  by (auto simp: below_sub_def take_Suc_conv_app_nth inc_sub_snoc)

lemma longest_below_Suc:
  assumes j: "j < length nums" and k: "longest_below nums j x k" and m: "longest_below nums j (nums ! j) m"
  shows "longest_below nums (Suc j) x (if nums ! j < x then max k (m + 1) else k)"
proof -
  obtain zs where zs: "below_sub nums j x zs" "length zs + 1 = k" using k by (auto simp: longest_below_def)
  obtain ws where ws: "below_sub nums j (nums ! j) ws" "length ws + 1 = m" using m by (auto simp: longest_below_def)
  have "\<exists>ys. below_sub nums (Suc j) x ys \<and> length ys + 1 = (if nums ! j < x then max k (m + 1) else k)"
  proof (cases "nums ! j < x \<and> k < m + 1")
    case True
    then show ?thesis using ws by (intro exI [of _ "ws @ [nums ! j]"]) (auto simp: below_sub_Suc [OF j])
  next
    case False
    then show ?thesis using zs by (intro exI [of _ zs]) (auto simp: below_sub_Suc [OF j])
  qed
  moreover have "length ys + 1 \<le> (if nums ! j < x then max k (m + 1) else k)" if "below_sub nums (Suc j) x ys" for ys
    using that k m unfolding below_sub_Suc [OF j] longest_below_def by fastforce
  ultimately show ?thesis unfolding longest_below_def by blast
qed

lemma lis_inner:
  assumes i: "0 < i" "i < length nums" and dp: "length dp = length nums" "dp ! i = 1"
    and before: "\<forall>h < i. longest_below nums h (nums ! h) (dp ! h)"
  shows "\<exists>k. for_each [0..<i] (lis_step nums i) dp = Some (dp[i := k]) \<and> longest_below nums i (nums ! i) k"
proof -
  have "\<exists>s. for_each [0..<i] (lis_step nums i) dp = Some s \<and> (\<exists>k. s = dp[i := k] \<and> longest_below nums i (nums ! i) k)"
  proof (rule for_upt [where I = "\<lambda>j s. \<exists>k. s = dp[i := k] \<and> longest_below nums j (nums ! i) k"])
    have "dp[i := 1] = dp" using dp by (metis list_update_id)
    then show "\<exists>k. dp = dp[i := k] \<and> longest_below nums 0 (nums ! i) k" using longest_below_0 by metis
    fix j s assume j: "j < i" and "\<exists>k. s = dp[i := k] \<and> longest_below nums j (nums ! i) k"
    then obtain k where s: "s = dp[i := k]" "longest_below nums j (nums ! i) k" by blast
    let ?k = "if nums ! j < nums ! i then max k (dp ! j + 1) else k"
    have "longest_below nums (Suc j) (nums ! i) ?k" using i j s(2) before by (intro longest_below_Suc) auto
    moreover have "lis_step nums i j s = Some (dp[i := ?k])"
      using i j dp s(1) by (simp add: lis_step_def ub_simps)
    ultimately show "\<exists>s'. lis_step nums i j s = Some s' \<and> (\<exists>k. s' = dp[i := k] \<and> longest_below nums (Suc j) (nums ! i) k)"
      by blast
  qed simp
  then show ?thesis by blast
qed

lemma lengthOfLIS_ok:
  assumes "nums \<noteq> []"
  shows "\<exists>k. lengthOfLIS nums = Some k \<and> longest nums k"
proof -
  let ?n = "length nums"
  let ?I = "\<lambda>i dp. length dp = ?n \<and> (\<forall>h < i. longest_below nums h (nums ! h) (dp ! h)) \<and> (\<forall>h. i \<le> h \<and> h < ?n \<longrightarrow> dp ! h = 1)"
  have "\<exists>dp. for_each [1..<?n] (\<lambda>i. for_each [0..<i] (lis_step nums i)) (replicate ?n 1) = Some dp \<and> ?I ?n dp"
  proof (rule for_upt [where I = ?I])
    show "?I 1 (replicate ?n 1)" using assms longest_below_0 by simp
    fix i dp assume i: "1 \<le> i" "i < ?n" and I: "?I i dp"
    then obtain k where k: "for_each [0..<i] (lis_step nums i) dp = Some (dp[i := k])" "longest_below nums i (nums ! i) k"
      using lis_inner [of i nums dp] by auto
    then show "\<exists>dp'. for_each [0..<i] (lis_step nums i) dp = Some dp' \<and> ?I (Suc i) dp'"
      using i I by (intro exI [of _ "dp[i := k]"]) (auto simp: nth_list_update less_Suc_eq)
  qed (use assms in \<open>auto simp: Suc_le_eq\<close>)
  then obtain dp where dp: "for_each [1..<?n] (\<lambda>i. for_each [0..<i] (lis_step nums i)) (replicate ?n 1) = Some dp"
    "length dp = ?n" "\<forall>h < ?n. longest_below nums h (nums ! h) (dp ! h)" by auto
  have dne: "dp \<noteq> []" using dp(2) assms by auto
  then have "Max (set dp) \<in> set dp" by (intro Max_in) auto
  then obtain h where h: "h < ?n" "dp ! h = Max (set dp)" using dp(2) by (auto simp: in_set_conv_nth)
  have upto: "\<exists>h < m. \<exists>zs. ys = zs @ [nums ! h] \<and> below_sub nums h (nums ! h) zs"
    if "m \<le> ?n" "inc_sub (take m nums) ys" "ys \<noteq> []" for ys m
    using that
  proof (induction m)
    case (Suc m)
    then show ?case by (auto simp: take_Suc_conv_app_nth inc_sub_snoc below_sub_def less_Suc_eq)
  qed simp
  have from_below: "inc_sub nums (zs @ [nums ! h])" if "below_sub nums h (nums ! h) zs" "h < ?n" for h zs
  proof -
    have "inc_sub (take (Suc h) nums) (zs @ [nums ! h])"
      using that by (auto simp: below_sub_def take_Suc_conv_app_nth inc_sub_snoc)
    then have "inc_sub (take (Suc h) nums @ drop (Suc h) nums) (zs @ [nums ! h])"
      unfolding inc_sub_def by (blast intro: list_emb_prefix)
    then show ?thesis by simp
  qed
  have "longest nums (Max (set dp))"
    unfolding longest_def
  proof (intro conjI allI impI)
    obtain zs where zs: "below_sub nums h (nums ! h) zs" "length zs + 1 = dp ! h"
      using dp(3) h(1) unfolding longest_below_def by blast
    then show "\<exists>ys. inc_sub nums ys \<and> length ys = Max (set dp)"
      using from_below [OF zs(1) h(1)] h(2) by (intro exI [of _ "zs @ [nums ! h]"]) simp
    fix ys assume ys: "inc_sub nums ys"
    show "length ys \<le> Max (set dp)"
    proof (cases "ys = []")
      case False
      then obtain g zs where g: "g < ?n" "ys = zs @ [nums ! g]" "below_sub nums g (nums ! g) zs"
        using upto [of ?n ys] ys by auto
      then have "length ys \<le> dp ! g" using dp(3) unfolding longest_below_def by fastforce
      also have "dp ! g \<le> Max (set dp)" using g(1) dp(2) by (intro Max_ge) auto
      finally show ?thesis .
    qed simp
  qed
  then show ?thesis using dp(1) dne by (auto simp: lengthOfLIS_def Let_def)
qed

lemma longest_unique: "longest nums j \<Longrightarrow> longest nums k \<Longrightarrow> j = k"
  unfolding longest_def by (metis order_antisym)

lemma lengthOfLIS_empty: "lengthOfLIS [] = None" "lengthOfLIS2 [] = Some 0"
  by (simp_all add: lengthOfLIS_def lengthOfLIS2_def)

text \<open>
  On a vector that is not empty the quadratic table and patience sorting return the same number, the
  length of the longest strictly increasing subsequence.
\<close>

theorem LIS_agree:
  assumes "nums \<noteq> []"
  shows "\<exists>k. lengthOfLIS nums = Some k \<and> lengthOfLIS2 nums = Some k \<and> longest nums k"
  using lengthOfLIS_ok [OF assms] lengthOfLIS2_ok [of nums] longest_unique by blast

theorem LIS_agree_witness: "lengthOfLIS2 [10, 9, 2, 5, 3, 7, 101, 18] = lengthOfLIS [10, 9, 2, 5, 3, 7, 101, 18]"
  using LIS_agree [of "[10, 9, 2, 5, 3, 7, 101, 18]"] by auto

end
