(* ===== verification/Islands.thy ===== *)
theory Islands
  imports Prelude
begin

section \<open>Disconnecting an island (leetcode/graph/disconnectIsland.cc)\<close>

text \<open>
  A grid of land (not 0) and water (0). \<open>minDays\<close> counts the days needed, changing one cell
  of land into water a day, until the land is not exactly one island. It searches depth first
  with a vector \<open>seen\<close> of counters, whose index of the cell in column \<open>x\<close> and row \<open>y\<close> is
  \<open>y * m + x\<close>. The recursion of \<open>dfs\<close> has fuel: every call that goes on marks a cell, so as
  much fuel as there are cells, and one, is enough (\<open>dfs_ok\<close>).

  The theorem compares the answer with every set of cells that could be removed, the claim of
  the program's comment that two days always suffice included.
\<close>

subsection \<open>The program\<close>

abbreviation rows :: "int list list \<Rightarrow> int" where
  "rows g \<equiv> int (length g)"

abbreviation cols :: "int list list \<Rightarrow> int" where
  "cols g \<equiv> int (length (hd g))"

definition cell :: "int list list \<Rightarrow> int \<Rightarrow> int \<Rightarrow> int option" where
  "cell g x y = do { row \<leftarrow> vget g (nat y); vget row (nat x) }"

definition index :: "int list list \<Rightarrow> int \<Rightarrow> int \<Rightarrow> nat" where
  "index g x y = nat (y * cols g + x)"

text \<open>The four calls are the rounds of the loop over \<open>dirs\<close>, which is 0, 1, 0, -1, 0.\<close>

fun dfs :: "nat \<Rightarrow> int list list \<Rightarrow> int list \<Rightarrow> int \<Rightarrow> int \<Rightarrow> int list option" where
  "dfs 0 g seen x y = None"
| "dfs (Suc k) g seen x y = (
     if x < 0 \<or> y < 0 \<or> cols g \<le> x \<or> rows g \<le> y then Some seen
     else do {
       c \<leftarrow> cell g x y;
       if c = 0 then Some seen
       else do {
         s \<leftarrow> vget seen (index g x y);
         seen \<leftarrow> vset seen (index g x y) (s + 1);
         if s \<noteq> 0 then Some seen
         else do {
           seen \<leftarrow> dfs k g seen (x + 0) (y + 1);
           seen \<leftarrow> dfs k g seen (x + 1) (y + 0);
           seen \<leftarrow> dfs k g seen (x + 0) (y + - 1);
           dfs k g seen (x + - 1) (y + 0) } } })"

text \<open>The cells in the order of the two loops.\<close>

definition grid_cells :: "int list list \<Rightarrow> (int \<times> int) list" where
  "grid_cells g = [(x, y). y \<leftarrow> [0..rows g - 1], x \<leftarrow> [0..cols g - 1]]"

fun count_islands :: "int list list \<Rightarrow> (int \<times> int) list \<Rightarrow> int list \<Rightarrow> nat \<Rightarrow> bool option" where
  "count_islands g [] seen num = Some (num = 0)"
| "count_islands g ((x, y) # cs) seen num = do {
     c \<leftarrow> cell g x y;
     s \<leftarrow> vget seen (index g x y);
     if c \<noteq> 0 \<and> s = 0
     then do {
       seen \<leftarrow> dfs (length seen + 1) g seen x y;
       if num + 1 > 1 then Some True else count_islands g cs seen (num + 1) }
     else count_islands g cs seen num }"

definition disconnected :: "int list list \<Rightarrow> bool option" where
  "disconnected g = count_islands g (grid_cells g) (replicate (nat (rows g * cols g)) 0) 0"

definition set_cell :: "int list list \<Rightarrow> int \<Rightarrow> int \<Rightarrow> int \<Rightarrow> int list list option" where
  "set_cell g x y v = do {
     row \<leftarrow> vget g (nat y);
     row \<leftarrow> vset row (nat x) v;
     vset g (nat y) row }"

text \<open>The result and the grid of the caller.\<close>

fun try_cells :: "int list list \<Rightarrow> (int \<times> int) list \<Rightarrow> (nat \<times> int list list) option" where
  "try_cells g [] = Some (2, g)"
| "try_cells g ((x, y) # cs) = do {
     c \<leftarrow> cell g x y;
     if c = 0 then try_cells g cs
     else do {
       g \<leftarrow> set_cell g x y 0;
       b \<leftarrow> disconnected g;
       if b then Some (1, g)
       else do { g \<leftarrow> set_cell g x y 1; try_cells g cs } } }"

definition minDays :: "int list list \<Rightarrow> (nat \<times> int list list) option" where
  "minDays g = do {
     row0 \<leftarrow> vget g 0;
     b \<leftarrow> disconnected g;
     if b then Some (0, g) else try_cells g (grid_cells g) }"

subsection \<open>Islands\<close>

definition beside :: "int \<times> int \<Rightarrow> int \<times> int \<Rightarrow> bool" where
  "beside c d \<longleftrightarrow> \<bar>fst c - fst d\<bar> + \<bar>snd c - snd d\<bar> = 1"

definition walk :: "(int \<times> int) set \<Rightarrow> int \<times> int \<Rightarrow> int \<times> int \<Rightarrow> bool" where
  "walk S = (\<lambda>c d. c \<in> S \<and> d \<in> S \<and> beside c d)\<^sup>*\<^sup>*"

text \<open>The cells are exactly one island.\<close>

definition one_island :: "(int \<times> int) set \<Rightarrow> bool" where
  "one_island S \<longleftrightarrow> (\<exists>c \<in> S. \<forall>d \<in> S. walk S c d)"

definition land :: "int list list \<Rightarrow> (int \<times> int) set" where
  "land g = {(x, y). 0 \<le> x \<and> x < cols g \<and> 0 \<le> y \<and> y < rows g \<and> g ! nat y ! nat x \<noteq> 0}"

definition rectangular :: "int list list \<Rightarrow> bool" where
  "rectangular g \<longleftrightarrow> (\<forall>row \<in> set g. length row = length (hd g))"

lemma walk_refl [simp]: "walk S c c"
  by (simp add: walk_def)

lemma walk_step: "walk S c d \<Longrightarrow> d \<in> S \<Longrightarrow> e \<in> S \<Longrightarrow> beside d e \<Longrightarrow> walk S c e"
  unfolding walk_def by (rule rtranclp.rtrancl_into_rtrancl) auto

lemma walk_front: "c \<in> S \<Longrightarrow> d \<in> S \<Longrightarrow> beside c d \<Longrightarrow> walk S d e \<Longrightarrow> walk S c e"
  unfolding walk_def by (rule converse_rtranclp_into_rtranclp) auto

lemma beside_sym: "beside c d = beside d c"
  by (auto simp: beside_def)

lemma walk_sym: "walk S c d \<Longrightarrow> walk S d c"
  unfolding walk_def by (rule sympD [OF symp_rtranclp]) (auto simp: symp_def beside_sym)

lemma walk_trans: "walk S c d \<Longrightarrow> walk S d e \<Longrightarrow> walk S c e"
  unfolding walk_def by (rule rtranclp_trans)

lemma one_island_any: "one_island S \<Longrightarrow> c \<in> S \<Longrightarrow> d \<in> S \<Longrightarrow> walk S c d"
  unfolding one_island_def using walk_sym walk_trans by blast

lemma beside_iff:
  "beside (x, y) d \<longleftrightarrow> d = (x, y + 1) \<or> d = (x + 1, y) \<or> d = (x, y - 1) \<or> d = (x - 1, y)"
  by (cases d) (auto simp: beside_def abs_if split: if_splits)

subsection \<open>The search\<close>

text \<open>
  What a search from \<open>c\<close> adds to the visited cells \<open>V\<close>: cells that \<open>c\<close> reaches, and with
  every new cell its neighbours.
\<close>

definition grows :: "(int \<times> int) set \<Rightarrow> int \<times> int \<Rightarrow> (int \<times> int) set \<Rightarrow> (int \<times> int) set \<Rightarrow> bool" where
  "grows S c V W \<longleftrightarrow> V \<subseteq> W \<and> (\<forall>d \<in> W - V. c \<in> S \<and> d \<in> S \<and> walk S c d \<and> (\<forall>e \<in> S. beside d e \<longrightarrow> e \<in> W))"

definition spreads :: "(int \<times> int) set \<Rightarrow> int \<times> int \<Rightarrow> (int \<times> int) set \<Rightarrow> (int \<times> int) set \<Rightarrow> bool" where
  "spreads S c V W \<longleftrightarrow> grows S c V W \<and> (c \<in> S \<longrightarrow> c \<in> W)"

lemma grows_sub: "grows S c V W \<Longrightarrow> V \<subseteq> W"
  unfolding grows_def by (rule conjunct1)

lemma grows_new:
  "grows S c V W \<Longrightarrow> d \<in> W \<Longrightarrow> d \<notin> V \<Longrightarrow> c \<in> S \<and> d \<in> S \<and> walk S c d \<and> (\<forall>e \<in> S. beside d e \<longrightarrow> e \<in> W)"
  unfolding grows_def by blast

lemma growsI:
  "V \<subseteq> W \<Longrightarrow> (\<And>d. d \<in> W \<Longrightarrow> d \<notin> V \<Longrightarrow> c \<in> S \<and> d \<in> S \<and> walk S c d \<and> (\<forall>e \<in> S. beside d e \<longrightarrow> e \<in> W)) \<Longrightarrow>
     grows S c V W"
  unfolding grows_def by blast

lemma grows_trans: "grows S c U V \<Longrightarrow> grows S c V W \<Longrightarrow> grows S c U W"
  unfolding grows_def by blast

lemma grows_from: "grows S d V W \<Longrightarrow> c \<in> S \<Longrightarrow> beside c d \<Longrightarrow> grows S c V W"
  unfolding grows_def using walk_front by blast

lemma spreads_sub: "spreads S c V W \<Longrightarrow> V \<subseteq> W"
  unfolding spreads_def using grows_sub by blast

lemma spreads_four:
  assumes c: "(x, y) \<in> S" and "spreads S (x, y + 1) (insert (x, y) V) A" and "spreads S (x + 1, y) A B"
    and "spreads S (x, y - 1) B C" and "spreads S (x - 1, y) C D"
  shows "spreads S (x, y) V D"
proof -
  have g: "grows S (x, y) (insert (x, y) V) A" "grows S (x, y) A B" "grows S (x, y) B C" "grows S (x, y) C D"
    using assms(2-5) unfolding spreads_def by (auto intro!: grows_from [OF _ c] simp: beside_def)
  then have gD: "grows S (x, y) (insert (x, y) V) D" using grows_trans by metis
  have mem: "(x, y + 1) \<in> S \<Longrightarrow> (x, y + 1) \<in> A" "(x + 1, y) \<in> S \<Longrightarrow> (x + 1, y) \<in> B"
    "(x, y - 1) \<in> S \<Longrightarrow> (x, y - 1) \<in> C" "(x - 1, y) \<in> S \<Longrightarrow> (x - 1, y) \<in> D"
    using assms(2-5) by (simp_all add: spreads_def)
  have sub: "A \<subseteq> B" "B \<subseteq> C" "C \<subseteq> D" using g(2-4) by (simp_all add: grows_sub)
  have nb: "e \<in> D" if "e \<in> S" "beside (x, y) e" for e
    using that(2) that(1) mem sub unfolding beside_iff by (elim disjE) blast+
  have here: "(x, y) \<in> D" using grows_sub [OF gD] by simp
  have "grows S (x, y) V D"
  proof (rule growsI)
    show "V \<subseteq> D" using grows_sub [OF gD] by simp
    fix d assume d: "d \<in> D" "d \<notin> V"
    show "(x, y) \<in> S \<and> d \<in> S \<and> walk S (x, y) d \<and> (\<forall>e \<in> S. beside d e \<longrightarrow> e \<in> D)"
    proof (cases "d = (x, y)")
      case True
      then show ?thesis using c nb by simp
    next
      case False
      then show ?thesis using grows_new [OF gD d(1)] d(2) by simp
    qed
  qed
  then show ?thesis using here unfolding spreads_def by simp
qed

definition inside :: "int list list \<Rightarrow> int \<Rightarrow> int \<Rightarrow> bool" where
  "inside g x y \<longleftrightarrow> 0 \<le> x \<and> x < cols g \<and> 0 \<le> y \<and> y < rows g"

definition visited :: "int list list \<Rightarrow> int list \<Rightarrow> (int \<times> int) set" where
  "visited g seen = {(x, y). inside g x y \<and> seen ! index g x y \<noteq> 0}"

definition seen_ok :: "int list list \<Rightarrow> int list \<Rightarrow> bool" where
  "seen_ok g seen \<longleftrightarrow> length seen = nat (rows g * cols g) \<and> (\<forall>s \<in> set seen. 0 \<le> s)"

lemma land_inside: "land g = {(x, y). inside g x y \<and> g ! nat y ! nat x \<noteq> 0}"
  by (auto simp: land_def inside_def)

lemma index_bound:
  assumes "inside g x y"
  shows "0 \<le> y * cols g + x" and "y * cols g + x < rows g * cols g"
proof -
  have "y * cols g + x < y * cols g + 1 * cols g" using assms by (simp add: inside_def)
  also have "\<dots> = (y + 1) * cols g" by (simp only: distrib_right)
  also have "\<dots> \<le> rows g * cols g" using assms by (intro mult_right_mono) (auto simp: inside_def)
  finally show "y * cols g + x < rows g * cols g" .
  show "0 \<le> y * cols g + x" using assms by (simp add: inside_def)
qed

lemma index_less: "inside g x y \<Longrightarrow> seen_ok g seen \<Longrightarrow> index g x y < length seen"
  using index_bound [of g x y] by (simp add: index_def seen_ok_def)

lemma index_inj:
  assumes "inside g x y" and "inside g u v" and "index g x y = index g u v"
  shows "u = x \<and> v = y"
proof -
  have e: "y * cols g + x = v * cols g + u"
    using assms(3) index_bound(1) [OF assms(1)] index_bound(1) [OF assms(2)] by (simp add: index_def)
  have p: "0 \<le> x" "x < cols g" "0 \<le> u" "u < cols g" using assms(1,2) by (auto simp: inside_def)
  have dv: "(a * c + b) div c = a" if "0 \<le> b" "b < c" for a b c :: int
    using that div_mult_self3 [of c a b] div_pos_pos_trivial [of b c] by simp
  have "y = (y * cols g + x) div cols g" using dv [OF p(1,2)] by simp
  also have "\<dots> = v" unfolding e using dv [OF p(3,4)] by simp
  finally show ?thesis using e by simp
qed

lemma cell_in:
  assumes "rectangular g" and "inside g x y"
  shows "cell g x y = Some (g ! nat y ! nat x)"
proof -
  have y: "nat y < length g" using assms(2) by (auto simp: inside_def)
  then have "length (g ! nat y) = length (hd g)" using assms(1) by (simp add: rectangular_def)
  then show ?thesis using y assms(2) by (auto simp: cell_def vget_in inside_def)
qed

lemma seen_ok_mark:
  assumes "seen_ok g seen" and "inside g x y"
  shows "seen_ok g (seen[index g x y := seen ! index g x y + 1])"
    and "visited g (seen[index g x y := seen ! index g x y + 1]) = insert (x, y) (visited g seen)"
proof -
  have l: "index g x y < length seen" using index_less [OF assms(2,1)] .
  then have s: "0 \<le> seen ! index g x y" using assms(1) by (auto simp: seen_ok_def)
  show "seen_ok g (seen[index g x y := seen ! index g x y + 1])"
    using assms(1) s set_update_subset_insert [of seen] by (fastforce simp: seen_ok_def)
  have "seen[index g x y := seen ! index g x y + 1] ! index g u v \<noteq> 0 \<longleftrightarrow>
      (u = x \<and> v = y) \<or> seen ! index g u v \<noteq> 0" if "inside g u v" for u v
  proof (cases "index g x y = index g u v")
    case True
    then show ?thesis using index_inj [OF assms(2) that True] l s by simp
  next
    case False
    then show ?thesis by auto
  qed
  then show "visited g (seen[index g x y := seen ! index g x y + 1]) = insert (x, y) (visited g seen)"
    using assms(2) by (auto simp: visited_def)
qed

lemma finite_land [simp]: "finite (land g)"
proof -
  have "land g \<subseteq> {0..cols g} \<times> {0..rows g}" by (auto simp: land_def)
  then show ?thesis by (rule finite_subset) simp
qed

lemma spreads_skip: "c \<notin> S \<or> c \<in> V \<Longrightarrow> spreads S c V V"
  by (auto simp: spreads_def grows_def)

text \<open>The search returns when its fuel exceeds the number of cells of land not visited yet.\<close>

lemma dfs_ok:
  assumes "rectangular g" and "seen_ok g seen" and "card (land g - visited g seen) < k"
  shows "\<exists>seen'. dfs k g seen x y = Some seen' \<and> seen_ok g seen' \<and>
     spreads (land g) (x, y) (visited g seen) (visited g seen')"
  using assms(2,3)
proof (induction k arbitrary: seen x y)
  case (Suc k)
  show ?case
  proof (cases "inside g x y")
    case False
    then have "(x, y) \<notin> land g" by (auto simp: land_inside)
    then show ?thesis using False Suc(2) spreads_skip by (auto simp: inside_def)
  next
    case True
    then have in_range: "\<not> (x < 0 \<or> y < 0 \<or> cols g \<le> x \<or> rows g \<le> y)" by (auto simp: inside_def)
    let ?i = "index g x y"
    have i: "?i < length seen" using index_less [OF True Suc(2)] .
    have L: "(x, y) \<in> land g \<longleftrightarrow> g ! nat y ! nat x \<noteq> 0" using True by (simp add: land_inside)
    have V: "(x, y) \<in> visited g seen \<longleftrightarrow> seen ! ?i \<noteq> 0" using True by (simp add: visited_def)
    let ?s = "seen[?i := seen ! ?i + 1]"
    note mark = seen_ok_mark [OF Suc(2) True]
    show ?thesis
    proof (cases "g ! nat y ! nat x \<noteq> 0 \<and> seen ! ?i = 0")
      case False
      show ?thesis
      proof (cases "g ! nat y ! nat x = 0")
        case True
        then show ?thesis using in_range L Suc(2) spreads_skip cell_in [OF assms(1) \<open>inside g x y\<close>] by simp
      next
        case nz: False
        then have v: "seen ! ?i \<noteq> 0" using False by simp
        then have "dfs (Suc k) g seen x y = Some ?s"
          using in_range nz i cell_in [OF assms(1) True] by (simp add: ub_simps)
        moreover have "visited g ?s = visited g seen" using mark(2) V v by (simp add: insert_absorb)
        ultimately show ?thesis using mark(1) spreads_skip V v by auto
      qed
    next
      case go: True
      have new: "(x, y) \<in> land g" "(x, y) \<notin> visited g seen" using L V go by simp_all
      have "land g - visited g ?s = (land g - visited g seen) - {(x, y)}" using mark(2) by auto
      then have "card (land g - visited g ?s) < card (land g - visited g seen)"
        using new by (metis Diff_iff card_Diff1_less finite_Diff finite_land)
      then have fuel: "card (land g - visited g ?s) < k" using Suc(3) by simp
      have less: "card (land g - W) < k" if "visited g ?s \<subseteq> W" for W
        using card_mono [of "land g - visited g ?s" "land g - W"] that fuel by (auto intro: le_less_trans)
      obtain A where A: "dfs k g ?s x (y + 1) = Some A" "seen_ok g A"
          "spreads (land g) (x, y + 1) (visited g ?s) (visited g A)"
        using Suc(1) [OF mark(1) fuel] by blast
      have sA: "visited g ?s \<subseteq> visited g A" by (rule spreads_sub [OF A(3)])
      obtain B where B: "dfs k g A (x + 1) y = Some B" "seen_ok g B"
          "spreads (land g) (x + 1, y) (visited g A) (visited g B)"
        using Suc(1) [OF A(2) less [OF sA]] by blast
      have sB: "visited g ?s \<subseteq> visited g B" using sA spreads_sub [OF B(3)] by (rule subset_trans)
      obtain C where C: "dfs k g B x (y - 1) = Some C" "seen_ok g C"
          "spreads (land g) (x, y - 1) (visited g B) (visited g C)"
        using Suc(1) [OF B(2) less [OF sB]] by blast
      have sC: "visited g ?s \<subseteq> visited g C" using sB spreads_sub [OF C(3)] by (rule subset_trans)
      obtain D where D: "dfs k g C (x - 1) y = Some D" "seen_ok g D"
          "spreads (land g) (x - 1, y) (visited g C) (visited g D)"
        using Suc(1) [OF C(2) less [OF sC]] by blast
      have "dfs (Suc k) g seen x y = Some D"
        using in_range go i cell_in [OF assms(1) True] A(1) B(1) C(1) D(1) by (simp add: ub_simps)
      moreover have "spreads (land g) (x, y) (visited g seen) (visited g D)"
        using spreads_four [OF new(1) _ B(3) C(3) D(3)] A(3) mark(2) by simp
      ultimately show ?thesis using D(2) by blast
    qed
  qed
qed simp

declare dfs.simps [simp del]

subsection \<open>Counting\<close>

lemma spreads_empty:
  assumes "spreads S c {} W" and "c \<in> S"
  shows "d \<in> W \<longleftrightarrow> d \<in> S \<and> walk S c d"
proof
  show "d \<in> S \<and> walk S c d" if "d \<in> W" using assms(1) that by (auto simp: spreads_def dest: grows_new)
  have "walk S c d \<Longrightarrow> d \<in> W" unfolding walk_def
  proof (induction rule: rtranclp_induct)
    case base
    show ?case using assms by (simp add: spreads_def)
  next
    case (step d e)
    then show ?case using assms(1) by (auto simp: spreads_def dest!: grows_new [of S c "{}" W d])
  qed
  then show "d \<in> W" if "d \<in> S \<and> walk S c d" using that by blast
qed

lemma card_land: "card (land g) \<le> nat (rows g * cols g)"
proof -
  have "land g \<subseteq> {0..<cols g} \<times> {0..<rows g}" by (auto simp: land_def)
  then have "card (land g) \<le> card ({0..<cols g} \<times> {0..<rows g})" by (rule card_mono [rotated]) simp
  also have "\<dots> = nat (rows g * cols g)" by (simp add: card_cartesian_product nat_mult_distrib mult.commute)
  finally show ?thesis .
qed

lemma dfs_enough:
  assumes "rectangular g" and "seen_ok g seen"
  shows "\<exists>seen'. dfs (length seen + 1) g seen x y = Some seen' \<and> seen_ok g seen' \<and>
     spreads (land g) (x, y) (visited g seen) (visited g seen')"
proof (rule dfs_ok [OF assms])
  have "card (land g - visited g seen) \<le> card (land g)" by (rule card_mono) auto
  then show "card (land g - visited g seen) < length seen + 1"
    using card_land [of g] assms(2) by (simp add: seen_ok_def)
qed

lemma cell_simps:
  assumes "rectangular g" and "seen_ok g seen" and "inside g x y"
  shows "cell g x y = Some (g ! nat y ! nat x)" and "vget seen (index g x y) = Some (seen ! index g x y)"
    and "g ! nat y ! nat x \<noteq> 0 \<longleftrightarrow> (x, y) \<in> land g"
    and "seen ! index g x y = 0 \<longleftrightarrow> (x, y) \<notin> visited g seen"
  using cell_in [OF assms(1,3)] index_less [OF assms(3,2)] assms(3)
  by (simp_all add: vget_in land_inside visited_def)

lemma count_second:
  assumes "rectangular g" and "seen_ok g seen" and "\<forall>(x, y) \<in> set cs. inside g x y"
  shows "count_islands g cs seen 1 = Some (\<exists>d \<in> set cs. d \<in> land g \<and> d \<notin> visited g seen)"
  using assms(3)
proof (induction cs)
  case (Cons c cs)
  obtain x y where c: "c = (x, y)" by (cases c)
  have i: "inside g x y" using Cons(2) c by simp
  show ?case
  proof (cases "(x, y) \<in> land g \<and> (x, y) \<notin> visited g seen")
    case True
    obtain seen' where "dfs (length seen + 1) g seen x y = Some seen'" using dfs_enough [OF assms(1,2)] by blast
    then show ?thesis using c True by (auto simp: cell_simps [OF assms(1,2) i])
  next
    case False
    then show ?thesis using c Cons by (auto simp: cell_simps [OF assms(1,2) i])
  qed
qed simp

lemma count_first:
  assumes "rectangular g" and "seen_ok g seen" and "visited g seen = {}"
    and "\<forall>(x, y) \<in> set cs. inside g x y" and "land g \<subseteq> set cs"
  shows "count_islands g cs seen 0 = Some (\<not> one_island (land g))"
  using assms(4,5)
proof (induction cs)
  case (Cons c cs)
  obtain x y where c: "c = (x, y)" by (cases c)
  have i: "inside g x y" using Cons(2) c by simp
  show ?case
  proof (cases "(x, y) \<in> land g")
    case True
    obtain seen' where s: "dfs (length seen + 1) g seen x y = Some seen'" "seen_ok g seen'"
        "spreads (land g) (x, y) {} (visited g seen')"
      using dfs_enough [OF assms(1,2), of x y] assms(3) by auto
    have W: "d \<in> visited g seen' \<longleftrightarrow> d \<in> land g \<and> walk (land g) (x, y) d" for d
      by (rule spreads_empty [OF s(3) True])
    have "count_islands g (c # cs) seen 0 = count_islands g cs seen' 1"
      using c True s(1) assms(3) by (simp add: cell_simps [OF assms(1,2) i])
    also have "\<dots> = Some (\<exists>d \<in> set cs. d \<in> land g \<and> d \<notin> visited g seen')"
      using Cons(2) by (intro count_second [OF assms(1) s(2)]) simp
    also have "(\<exists>d \<in> set cs. d \<in> land g \<and> d \<notin> visited g seen') \<longleftrightarrow> \<not> one_island (land g)"
    proof
      assume "\<exists>d \<in> set cs. d \<in> land g \<and> d \<notin> visited g seen'"
      then obtain d where "d \<in> land g" "\<not> walk (land g) (x, y) d" using W by blast
      then show "\<not> one_island (land g)" using one_island_any True by blast
    next
      assume "\<not> one_island (land g)"
      then obtain d where d: "d \<in> land g" "\<not> walk (land g) (x, y) d" using True unfolding one_island_def by blast
      then have "d \<noteq> (x, y)" by auto
      then have "d \<in> set cs" using d(1) Cons(3) c by auto
      then show "\<exists>d \<in> set cs. d \<in> land g \<and> d \<notin> visited g seen'" using d W by blast
    qed
    finally show ?thesis .
  next
    case False
    then show ?thesis using c Cons by (auto simp: cell_simps [OF assms(1,2) i] subset_iff)
  qed
qed (simp add: one_island_def)

lemma grid_cells_set: "(x, y) \<in> set (grid_cells g) \<longleftrightarrow> inside g x y"
proof
  show "(x, y) \<in> set (grid_cells g) \<Longrightarrow> inside g x y" by (auto simp: grid_cells_def inside_def)
  assume "inside g x y"
  then have "y \<in> {0..rows g - 1}" "x \<in> {0..cols g - 1}" by (auto simp: inside_def)
  then have "\<exists>v \<in> {0..rows g - 1}. (x, y) \<in> (\<lambda>u. (u, v)) ` {0..cols g - 1}"
    by (intro bexI [of _ y]) (rule imageI)
  then show "(x, y) \<in> set (grid_cells g)" by (simp add: grid_cells_def)
qed

text \<open>\<open>disconnected\<close> decides whether the land is not exactly one island.\<close>

lemma disconnected_ok:
  assumes "rectangular g"
  shows "disconnected g = Some (\<not> one_island (land g))"
  unfolding disconnected_def
proof (rule count_first [OF assms])
  let ?z = "replicate (nat (rows g * cols g)) (0 :: int)"
  show z: "seen_ok g ?z" by (simp add: seen_ok_def)
  show "visited g ?z = {}" using index_less [OF _ z] by (auto simp: visited_def)
  show "\<forall>(x, y) \<in> set (grid_cells g). inside g x y" by (auto simp: grid_cells_set)
  show "land g \<subseteq> set (grid_cells g)" by (auto simp: grid_cells_set land_inside)
qed

subsection \<open>Two days are enough\<close>

lemma isolated:
  assumes "c \<in> T" and "e \<in> T" and "e \<noteq> c" and "\<forall>d \<in> T. \<not> beside c d"
  shows "\<not> one_island T"
proof
  assume "one_island T"
  then have "walk T c e" using assms(1,2) by (rule one_island_any)
  then show False unfolding walk_def
    by (cases rule: converse_rtranclpE) (use assms in auto)
qed

lemma two_days:
  assumes "finite S" and "one_island S"
  shows "\<exists>C \<subseteq> S. card C \<le> 2 \<and> \<not> one_island (S - C)"
proof -
  have ne: "S \<noteq> {}" using assms(2) by (auto simp: one_island_def)
  define y where "y = Min (snd ` S)"
  define x where "x = Min {x. (x, y) \<in> S}"
  have "y \<in> snd ` S" unfolding y_def using assms(1) ne by (intro Min_in) auto
  then have row: "{x. (x, y) \<in> S} \<noteq> {}" by auto
  have "{x. (x, y) \<in> S} \<subseteq> fst ` S" by force
  then have fin: "finite {x. (x, y) \<in> S}" using assms(1) by (auto intro: finite_subset)
  have c: "(x, y) \<in> S" using Min_in [OF fin row] by (simp add: x_def)
  have up: "(u, y - 1) \<notin> S" for u
  proof
    assume "(u, y - 1) \<in> S"
    then have "y - 1 \<in> snd ` S" by force
    then have "y \<le> y - 1" unfolding y_def using assms(1) by (intro Min_le) auto
    then show False by simp
  qed
  have left: "(x - 1, y) \<notin> S"
  proof
    assume "(x - 1, y) \<in> S"
    then have "x \<le> x - 1" unfolding x_def using fin by (intro Min_le) auto
    then show False by simp
  qed
  have nb: "d = (x, y + 1) \<or> d = (x + 1, y)" if "d \<in> S" "beside (x, y) d" for d
    using that up left unfolding beside_iff by blast
  let ?N = "{(x, y + 1), (x + 1, y)} \<inter> S"
  have cN: "card ?N \<le> 2"
    using card_mono [of "{(x, y + 1), (x + 1, y)}" ?N] by simp
  show ?thesis
  proof (cases "\<exists>e \<in> S - ?N. e \<noteq> (x, y)")
    case True
    then obtain e where "e \<in> S - ?N" "e \<noteq> (x, y)" by blast
    then have "\<not> one_island (S - ?N)" using c nb by (intro isolated [of "(x, y)" _ e]) auto
    then show ?thesis using cN by (intro exI [of _ ?N]) simp
  next
    case False
    then have sub: "S \<subseteq> {(x, y), (x, y + 1), (x + 1, y)}" by blast
    show ?thesis
    proof (cases "(x, y + 1) \<in> S \<and> (x + 1, y) \<in> S")
      case True
      have "\<not> one_island (S - {(x, y)})"
      proof (rule isolated)
        show "(x, y + 1) \<in> S - {(x, y)}" "(x + 1, y) \<in> S - {(x, y)}" "(x + 1, y) \<noteq> (x, y + 1)" using True by simp_all
        have "S - {(x, y)} \<subseteq> {(x, y + 1), (x + 1, y)}" using sub by blast
        moreover have "\<forall>d \<in> {(x, y + 1), (x + 1, y)}. \<not> beside (x, y + 1) d" by (simp add: beside_def)
        ultimately show "\<forall>d \<in> S - {(x, y)}. \<not> beside (x, y + 1) d" by blast
      qed
      then show ?thesis using c by (intro exI [of _ "{(x, y)}"]) simp
    next
      case False
      then have "S \<subseteq> {(x, y), (x, y + 1)} \<or> S \<subseteq> {(x, y), (x + 1, y)}" using sub by blast
      then have "card S \<le> 2" using card_mono [of "{(x, y), (x, y + 1)}" S] card_mono [of "{(x, y), (x + 1, y)}" S] by auto
      then show ?thesis by (intro exI [of _ S]) (simp add: one_island_def)
    qed
  qed
qed

subsection \<open>The answer\<close>

definition binary :: "int list list \<Rightarrow> bool" where
  "binary g \<longleftrightarrow> (\<forall>row \<in> set g. set row \<subseteq> {0, 1})"

lemma hd_update: "i < length g \<Longrightarrow> length row = length (hd g) \<Longrightarrow> length (hd (g[i := row])) = length (hd g)"
  by (cases g; cases i) auto

lemma clear_cell:
  assumes "rectangular g" and "inside g x y"
  shows "\<exists>g'. set_cell g x y 0 = Some g' \<and> rectangular g' \<and> length g' = length g \<and>
     length (hd g') = length (hd g) \<and> land g' = land g - {(x, y)} \<and> set_cell g' x y v = Some (g[nat y := (g ! nat y)[nat x := v]])"
proof -
  have i: "nat y < length g" "nat x < length (hd g)" using assms(2) by (auto simp: inside_def)
  have row: "length (g ! nat y) = length (hd g)" using assms(1) i(1) by (simp add: rectangular_def)
  let ?g = "g[nat y := (g ! nat y)[nat x := 0]]"
  have h: "length (hd ?g) = length (hd g)" by (rule hd_update) (use i row in simp_all)
  have "set_cell g x y 0 = Some ?g" using i row by (simp add: set_cell_def ub_simps)
  moreover have "rectangular ?g"
    using assms(1) row h set_update_subset_insert [of g] unfolding rectangular_def by fastforce
  moreover have "land ?g = land g - {(x, y)}"
  proof -
    have "?g ! nat v ! nat u \<noteq> 0 \<longleftrightarrow> g ! nat v ! nat u \<noteq> 0 \<and> (u, v) \<noteq> (x, y)"
      if "inside g u v" for u v
      using that assms(2) i row by (auto simp: inside_def nth_list_update split: if_split_asm)
    moreover have "inside ?g u v \<longleftrightarrow> inside g u v" for u v using h by (simp add: inside_def)
    ultimately show ?thesis by (auto simp: land_inside)
  qed
  moreover have "set_cell ?g x y v = Some (g[nat y := (g ! nat y)[nat x := v]])"
    using i row by (simp add: set_cell_def ub_simps)
  ultimately show ?thesis using h by auto
qed

lemma binary_one:
  assumes "binary g" and "rectangular g" and "(x, y) \<in> land g"
  shows "g[nat y := (g ! nat y)[nat x := 1]] = g"
proof -
  have i: "nat y < length g" "nat x < length (hd g)" "g ! nat y ! nat x \<noteq> 0" using assms(3) by (auto simp: land_def)
  have "length (g ! nat y) = length (hd g)" using assms(2) i(1) by (simp add: rectangular_def)
  then have "g ! nat y ! nat x \<in> set (g ! nat y)" "set (g ! nat y) \<subseteq> {0, 1}"
    using assms(1) i by (simp_all add: binary_def)
  then have "g ! nat y ! nat x \<in> {0, 1}" by blast
  then have "g ! nat y ! nat x = 1" using i(3) by simp
  then show ?thesis using list_update_id [of "g ! nat y" "nat x"] by simp
qed

lemma try_cells_ok:
  assumes "rectangular g" and "binary g" and "\<forall>(x, y) \<in> set cs. inside g x y"
  shows "if \<exists>c \<in> set cs. c \<in> land g \<and> \<not> one_island (land g - {c})
     then \<exists>g' c. try_cells g cs = Some (1, g') \<and> c \<in> land g \<and> land g' = land g - {c} \<and> \<not> one_island (land g')
     else try_cells g cs = Some (2, g)"
  using assms(3)
proof (induction cs)
  case (Cons c cs)
  obtain x y where c: "c = (x, y)" by (cases c)
  have i: "inside g x y" using Cons(2) c by simp
  have IH: "if \<exists>c \<in> set cs. c \<in> land g \<and> \<not> one_island (land g - {c})
     then \<exists>g' c. try_cells g cs = Some (1, g') \<and> c \<in> land g \<and> land g' = land g - {c} \<and> \<not> one_island (land g')
     else try_cells g cs = Some (2, g)"
    using Cons by simp
  have L: "g ! nat y ! nat x \<noteq> 0 \<longleftrightarrow> (x, y) \<in> land g" using i by (simp add: land_inside)
  show ?case
  proof (cases "(x, y) \<in> land g")
    case False
    then have "try_cells g (c # cs) = try_cells g cs" using c L by (simp add: cell_in [OF assms(1) i])
    moreover have "(\<exists>d \<in> set (c # cs). d \<in> land g \<and> \<not> one_island (land g - {d})) \<longleftrightarrow>
        (\<exists>d \<in> set cs. d \<in> land g \<and> \<not> one_island (land g - {d}))" using False c by auto
    ultimately show ?thesis using IH by (simp only:)
  next
    case True
    obtain g' where g': "set_cell g x y 0 = Some g'" "rectangular g'" "land g' = land g - {(x, y)}"
        "set_cell g' x y 1 = Some (g[nat y := (g ! nat y)[nat x := 1]])"
      using clear_cell [OF assms(1) i] by blast
    have restored: "set_cell g' x y 1 = Some g" using g'(4) binary_one [OF assms(2,1) True] by simp
    have t: "try_cells g (c # cs) = (if \<not> one_island (land g - {(x, y)}) then Some (1, g') else try_cells g cs)"
      using c True L restored disconnected_ok [OF g'(2)] g'(1,3) by (simp add: cell_in [OF assms(1) i])
    show ?thesis
    proof (cases "one_island (land g - {(x, y)})")
      case False
      then have "try_cells g (c # cs) = Some (1, g')" using t by simp
      moreover have "\<exists>c \<in> set (c # cs). c \<in> land g \<and> \<not> one_island (land g - {c})" using False True c by auto
      ultimately show ?thesis using True g'(3) False by auto
    next
      case one: True
      then have "try_cells g (c # cs) = try_cells g cs" using t by simp
      moreover have "(\<exists>d \<in> set (c # cs). d \<in> land g \<and> \<not> one_island (land g - {d})) \<longleftrightarrow>
          (\<exists>d \<in> set cs. d \<in> land g \<and> \<not> one_island (land g - {d}))" using one c by auto
      ultimately show ?thesis using IH by (simp only:)
    qed
  qed
qed simp

text \<open>
  \<open>minDays\<close> returns the least number of cells of land whose removal leaves no land or more
  than one island. When it is 1 the caller's grid has lost that cell.
\<close>

theorem minDays_correct:
  assumes "g \<noteq> []" and "rectangular g" and "binary g"
  shows "\<exists>r g'. minDays g = Some (r, g') \<and> (r \<noteq> 1 \<longrightarrow> g' = g) \<and>
     (\<exists>C \<subseteq> land g. card C = r \<and> \<not> one_island (land g - C)) \<and>
     (\<forall>C \<subseteq> land g. \<not> one_island (land g - C) \<longrightarrow> r \<le> card C)"
proof -
  have v: "vget g 0 = Some (g ! 0)" using assms(1) by (simp add: vget_in)
  note d = disconnected_ok [OF assms(2)]
  have cs: "\<forall>(x, y) \<in> set (grid_cells g). inside g x y" by (auto simp: grid_cells_set)
  have cells: "c \<in> set (grid_cells g)" if "c \<in> land g" for c
    using that by (cases c) (simp add: grid_cells_set land_inside)
  show ?thesis
  proof (cases "one_island (land g)")
    case False
    then have "minDays g = Some (0, g)" by (simp add: minDays_def v d)
    moreover have "\<exists>C \<subseteq> land g. card C = 0 \<and> \<not> one_island (land g - C)"
      using False by (intro exI [of _ "{}"]) simp
    ultimately show ?thesis by (intro exI [of _ 0] exI [of _ g]) simp
  next
    case one: True
    then have m: "minDays g = try_cells g (grid_cells g)" by (simp add: minDays_def v d)
    have pos: "1 \<le> card C" if "C \<subseteq> land g" "\<not> one_island (land g - C)" for C
    proof -
      have "C \<noteq> {}" using that(2) one by auto
      then show ?thesis using finite_subset [OF that(1)] by (simp add: Suc_le_eq card_gt_0_iff)
    qed
    show ?thesis
    proof (cases "\<exists>c \<in> land g. \<not> one_island (land g - {c})")
      case True
      then have "\<exists>c \<in> set (grid_cells g). c \<in> land g \<and> \<not> one_island (land g - {c})" using cells by blast
      then have "\<exists>g' c. try_cells g (grid_cells g) = Some (1, g') \<and> c \<in> land g \<and> land g' = land g - {c} \<and>
          \<not> one_island (land g')"
        using try_cells_ok [OF assms(2,3) cs] by (simp only: if_True)
      then obtain g' c where g': "try_cells g (grid_cells g) = Some (1, g')" "c \<in> land g"
          "land g' = land g - {c}" "\<not> one_island (land g')"
        by (elim exE conjE)
      have "\<exists>C \<subseteq> land g. card C = 1 \<and> \<not> one_island (land g - C)"
        using g'(2-4) by (intro exI [of _ "{c}"]) simp
      then show ?thesis using m g'(1) pos by (intro exI [of _ 1] exI [of _ g']) simp
    next
      case False
      then have "\<not> (\<exists>c \<in> set (grid_cells g). c \<in> land g \<and> \<not> one_island (land g - {c}))" by blast
      then have t: "try_cells g (grid_cells g) = Some (2, g)"
        using try_cells_ok [OF assms(2,3) cs] by (simp only: if_False)
      have two: "2 \<le> card C" if "C \<subseteq> land g" "\<not> one_island (land g - C)" for C
      proof -
        have "card C \<noteq> 1"
        proof
          assume "card C = 1"
          then obtain c where "C = {c}" by (auto simp: card_1_singleton_iff)
          then show False using False that by auto
        qed
        then show ?thesis using pos [OF that] by simp
      qed
      obtain C where C: "C \<subseteq> land g" "card C \<le> 2" "\<not> one_island (land g - C)"
        using two_days [OF finite_land one] by blast
      then have "card C = 2" using two by (simp add: le_antisym)
      then show ?thesis using m t C two by (intro exI [of _ 2] exI [of _ g]) auto
    qed
  qed
qed

end
