(* ===== verification/LinearDP.thy ===== *)
theory LinearDP
  imports Tables
begin

section \<open>Robbing houses (leetcode/DP/houseRobber.cc, houseRobber2.cc, deleteAndEarn.cc)\<close>

text \<open>
  A plan is a set of houses without two neighbours. The three programs compute the best loot
  of a plan, for houses in a row, in a circle, and for the numbers of a vector where
  taking a number forbids those one less and one more.
\<close>

definition rob_step :: "int list \<Rightarrow> nat \<Rightarrow> int list \<Rightarrow> int list option" where
  "rob_step nums i dp = do {
     a \<leftarrow> vget dp (i - 1);
     b \<leftarrow> vget dp (i - 2);
     x \<leftarrow> vget nums i;
     vset dp i (max a (b + x)) }"

definition rob_row :: "int list \<Rightarrow> int option" where
  "rob_row nums = (
     if nums = [] then Some 0
     else let n = length nums in
       if n = 1 then vget nums 0
       else do {
         x \<leftarrow> vget nums 0;
         y \<leftarrow> vget nums 1;
         dp \<leftarrow> vset (replicate n 0) 0 x;
         dp \<leftarrow> vset dp 1 (max x y);
         dp \<leftarrow> for_each [2..<n] (rob_step nums) dp;
         vget dp (n - 1) })"

definition helper_step :: "int list \<Rightarrow> nat \<Rightarrow> int \<times> int \<Rightarrow> (int \<times> int) option" where
  "helper_step nums i = (\<lambda>(prev, cur). do {
     x \<leftarrow> vget nums i;
     let tmp = max cur (prev + x);
     Some (cur, tmp) })"

definition rob_helper :: "int list \<Rightarrow> int \<Rightarrow> int \<Rightarrow> int option" where
  "rob_helper nums l r = do { (prev, cur) \<leftarrow> for_each [nat l..<nat r] (helper_step nums) (0, 0); Some cur }"

definition rob_circle :: "int list \<Rightarrow> int option" where
  "rob_circle nums = do {
     a \<leftarrow> rob_helper nums 0 (int (length nums) - 1);
     b \<leftarrow> rob_helper nums 1 (int (length nums));
     Some (max a b) }"

definition count_step :: "int \<Rightarrow> int list \<Rightarrow> int list option" where
  "count_step i cnt = (if i < 0 then None else do { c \<leftarrow> vget cnt (nat i); vset cnt (nat i) (c + 1) })"

definition weigh_step :: "nat \<Rightarrow> int list \<Rightarrow> int list option" where
  "weigh_step i cnt = do { c \<leftarrow> vget cnt i; vset cnt i (c * int i) }"

definition rob_counts :: "int list \<Rightarrow> int option" where
  "rob_counts cnt = (
     if length cnt = 1 then Some 0
     else do {
       prev \<leftarrow> vget cnt 0;
       cur \<leftarrow> vget cnt 1;
       (prev, cur) \<leftarrow> for_each [2..<length cnt] (helper_step cnt) (prev, cur);
       Some cur })"

definition deleteAndEarn :: "int list \<Rightarrow> int option" where
  "deleteAndEarn nums = (
     if nums = [] then None
     else if Max (set nums) + 1 < 0 then None
     else do {
       cnt \<leftarrow> for_each nums count_step (replicate (nat (Max (set nums) + 1)) 0);
       cnt \<leftarrow> for_each [0..<length cnt] weigh_step cnt;
       rob_counts cnt })"

subsection \<open>The best plan\<close>

definition plan :: "nat \<Rightarrow> nat set \<Rightarrow> bool" where
  "plan n S \<longleftrightarrow> S \<subseteq> {..<n} \<and> (\<forall>i. i \<in> S \<longrightarrow> Suc i \<notin> S)"

definition best_of :: "('s \<Rightarrow> bool) \<Rightarrow> ('s \<Rightarrow> int) \<Rightarrow> int \<Rightarrow> bool" where
  "best_of P f b \<longleftrightarrow> (\<exists>s. P s \<and> f s = b) \<and> (\<forall>s. P s \<longrightarrow> f s \<le> b)"

fun loot :: "(nat \<Rightarrow> int) \<Rightarrow> nat \<Rightarrow> int" where
  "loot x 0 = 0"
| "loot x (Suc 0) = max 0 (x 0)"
| "loot x (Suc (Suc i)) = max (loot x (Suc i)) (loot x i + x (Suc i))"

lemma plan_finite: "plan n S \<Longrightarrow> finite S"
  by (auto simp: plan_def intro: finite_subset)

lemma plan_less: "plan (Suc n) S \<Longrightarrow> n \<notin> S \<Longrightarrow> plan n S"
  by (auto simp: plan_def less_Suc_eq)

lemma plan_remove: "plan (Suc (Suc n)) S \<Longrightarrow> Suc n \<in> S \<Longrightarrow> plan n (S - {Suc n})"
proof -
  assume S: "plan (Suc (Suc n)) S" "Suc n \<in> S"
  then have "n \<notin> S" by (auto simp: plan_def)
  then show ?thesis using S by (auto simp: plan_def less_Suc_eq)
qed

lemma plan_insert: "plan n S \<Longrightarrow> plan (Suc (Suc n)) (insert (Suc n) S)"
  by (auto simp: plan_def)

lemma plan_mono: "plan n S \<Longrightarrow> n \<le> m \<Longrightarrow> plan m S"
  by (auto simp: plan_def)

lemma loot_best: "best_of (plan n) (sum x) (loot x n)"
proof (induction x n rule: loot.induct)
  case (1 x)
  then show ?case by (auto simp: best_of_def plan_def)
next
  case (2 x)
  have "plan (Suc 0) S \<longleftrightarrow> S = {} \<or> S = {0}" for S by (auto simp: plan_def)
  then have "best_of (plan (Suc 0)) (sum x) (max (sum x {}) (sum x {0}))"
    unfolding best_of_def by (metis max.cobounded1 max.cobounded2 max_def)
  then show ?case by simp
next
  case (3 x i)
  show ?case unfolding best_of_def
  proof (intro conjI allI impI)
    obtain S where S: "plan (Suc i) S" "sum x S = loot x (Suc i)" using 3(1) by (auto simp: best_of_def)
    obtain T where T: "plan i T" "sum x T = loot x i" using 3(2) by (auto simp: best_of_def)
    have "Suc i \<notin> T" using T(1) by (auto simp: plan_def)
    then have "sum x (insert (Suc i) T) = loot x i + x (Suc i)" using T plan_finite [OF T(1)] by simp
    then show "\<exists>S. plan (Suc (Suc i)) S \<and> sum x S = loot x (Suc (Suc i))"
      using S plan_insert [OF T(1)] plan_mono [OF S(1), of "Suc (Suc i)"] by (auto simp: max_def)
    fix S assume P: "plan (Suc (Suc i)) S"
    show "sum x S \<le> loot x (Suc (Suc i))"
    proof (cases "Suc i \<in> S")
      case True
      have "sum x (S - {Suc i}) \<le> loot x i" using plan_remove [OF P True] 3(2) by (auto simp: best_of_def)
      then show ?thesis using sum.remove [OF plan_finite [OF P] True, of x] by simp
    next
      case False
      then have "sum x S \<le> loot x (Suc i)" using plan_less [OF P] 3(1) by (auto simp: best_of_def)
      then show ?thesis by simp
    qed
  qed
qed

lemma best_of_unique: "best_of P f a \<Longrightarrow> best_of P f b \<Longrightarrow> a = b"
  unfolding best_of_def by (metis order_antisym)

text \<open>The helper walks the same recursion over a part of the vector.\<close>

lemma helper_ok:
  assumes "l \<le> r" and "r \<le> length nums"
  shows "for_each [l..<r] (helper_step nums) (0, 0) =
    Some (if r = l then 0 else loot (\<lambda>k. nums ! (l + k)) (r - l - 1), loot (\<lambda>k. nums ! (l + k)) (r - l))"
proof -
  let ?x = "\<lambda>k. nums ! (l + k)"
  let ?v = "\<lambda>i. (if i = l then 0 else loot ?x (i - l - 1), loot ?x (i - l))"
  have "\<exists>s. for_each [l..<r] (helper_step nums) (0, 0) = Some s \<and> s = ?v r"
  proof (rule for_upt [where I = "\<lambda>i s. s = ?v i"])
    fix i and s :: "int \<times> int" assume i: "l \<le> i" "i < r" and s: "s = ?v i"
    obtain d where d: "i = l + d" using i(1) le_Suc_ex by blast
    show "\<exists>s'. helper_step nums i s = Some s' \<and> s' = ?v (Suc i)"
      using i s assms d by (cases d) (simp_all add: helper_step_def ub_simps)
  qed (use assms in auto)
  then show ?thesis by simp
qed

lemma rob_helper_ok:
  assumes "l \<le> r" and "r \<le> length nums"
  shows "rob_helper nums (int l) (int r) = Some (loot (\<lambda>k. nums ! (l + k)) (r - l))"
  using helper_ok [OF assms] by (simp add: rob_helper_def)

lemma rob_row_loot:
  assumes pos: "\<forall>x \<in> set nums. 0 \<le> x"
  shows "rob_row nums = Some (loot (\<lambda>k. nums ! k) (length nums))"
proof (cases "length nums < 2")
  case True
  then show ?thesis using pos by (cases nums) (auto simp: rob_row_def ub_simps less_Suc_eq)
next
  case False
  let ?n = "length nums" and ?x = "\<lambda>k. nums ! k"
  let ?I = "\<lambda>i dp. length dp = ?n \<and> (\<forall>k < i. dp ! k = loot ?x (Suc k))"
  define dp0 where "dp0 = (replicate ?n (0::int))[0 := nums ! 0, 1 := max (nums ! 0) (nums ! 1)]"
  have "nums ! 0 \<in> set nums" using False by (intro nth_mem) auto
  then have x0: "0 \<le> nums ! 0" using pos by blast
  have "\<exists>dp. for_each [2..<?n] (rob_step nums) dp0 = Some dp \<and> ?I ?n dp"
  proof (rule for_upt [where I = ?I])
    have "loot ?x 2 = max (nums ! 0) (nums ! 1)" using x0 by (simp add: numeral_2_eq_2 max.commute)
    moreover have "0 < ?n" "1 < ?n" using False by auto
    then have "dp0 ! 0 = nums ! 0" "dp0 ! 1 = max (nums ! 0) (nums ! 1)" "length dp0 = ?n"
      by (simp_all add: dp0_def)
    ultimately show "?I 2 dp0" using x0 by (auto simp: less_Suc_eq numeral_2_eq_2)
    fix i dp assume i: "2 \<le> i" "i < ?n" and I: "?I i dp"
    obtain k where k: "i = Suc (Suc k)" using i(1) by (metis add_2_eq_Suc le_Suc_ex)
    have "rob_step nums i dp = Some (dp[i := loot ?x (Suc i)])"
      using i I k by (simp add: rob_step_def ub_simps)
    then show "\<exists>dp'. rob_step nums i dp = Some dp' \<and> ?I (Suc i) dp'"
      using i I by (auto simp: less_Suc_eq nth_list_update)
  qed (use False in auto)
  then obtain dp where dp: "for_each [2..<?n] (rob_step nums) dp0 = Some dp" "?I ?n dp" by blast
  have "nums \<noteq> []" "?n \<noteq> 1" using False by auto
  then show ?thesis using dp False
    by (simp add: rob_row_def Let_def ub_simps dp0_def [unfolded One_nat_def] del: bind_eq_Some)
qed

text \<open>Houses in a circle: the first and the last are neighbours.\<close>

definition circle_plan :: "nat \<Rightarrow> nat set \<Rightarrow> bool" where
  "circle_plan n S \<longleftrightarrow> plan n S \<and> \<not> (0 \<in> S \<and> n - 1 \<in> S)"

lemma circle_best:
  assumes n: "2 \<le> n"
  shows "best_of (circle_plan n) (sum x) (max (loot x (n - 1)) (loot (\<lambda>k. x (1 + k)) (n - 1)))"
proof -
  obtain m where m: "n = Suc m" "1 \<le> m" using n by (cases n) auto
  let ?y = "\<lambda>k. x (1 + k)"
  have a: "best_of (plan m) (sum x) (loot x m)" and b: "best_of (plan m) (sum ?y) (loot ?y m)" by (rule loot_best)+
  have shift: "sum x (Suc ` T) = sum ?y T" for T by (simp add: sum.reindex)
  show ?thesis unfolding best_of_def
  proof (intro conjI allI impI)
    obtain S where S: "plan m S" "sum x S = loot x m" using a by (auto simp: best_of_def)
    obtain T where T: "plan m T" "sum ?y T = loot ?y m" using b by (auto simp: best_of_def)
    have "circle_plan n S" using S(1) m by (auto simp: circle_plan_def plan_def)
    moreover have "circle_plan n (Suc ` T)" using T(1) m by (auto simp: circle_plan_def plan_def)
    ultimately show "\<exists>s. circle_plan n s \<and> sum x s = max (loot x (n - 1)) (loot ?y (n - 1))"
      using S T shift [of T] m by (auto simp: max_def)
    fix S assume P: "circle_plan n S"
    show "sum x S \<le> max (loot x (n - 1)) (loot ?y (n - 1))"
    proof (cases "n - 1 \<in> S")
      case False
      then have "plan m S" using P m by (auto simp: circle_plan_def intro: plan_less)
      then show ?thesis using a m by (auto simp: best_of_def)
    next
      case True
      then have "0 \<notin> S" using P by (auto simp: circle_plan_def)
      define T where "T = (\<lambda>i. i - 1) ` S"
      have "Suc ` T = (\<lambda>i. Suc (i - 1)) ` S" by (simp add: T_def image_image)
      also have "\<dots> = (\<lambda>i. i) ` S"
      proof (rule image_cong [OF refl])
        show "Suc (i - 1) = i" if "i \<in> S" for i using that \<open>0 \<notin> S\<close> by (cases i) auto
      qed
      finally have ST: "S = Suc ` T" by simp
      have "plan n (Suc ` T)" using P ST by (simp add: circle_plan_def)
      then have "plan m T" using m by (auto simp: plan_def)
      then have "sum x S \<le> loot ?y m" using b shift [of T] ST by (auto simp: best_of_def)
      then show ?thesis using m by simp
    qed
  qed
qed

lemma rob_circle_ok:
  assumes "2 \<le> length nums"
  shows "\<exists>b. rob_circle nums = Some b \<and> best_of (circle_plan (length nums)) (\<lambda>S. sum (\<lambda>k. nums ! k) S) b"
proof -
  let ?n = "length nums"
  have e: "int ?n - 1 = int (?n - 1)" using assms by simp
  have "rob_helper nums (int 0) (int (?n - 1)) = Some (loot (\<lambda>k. nums ! (0 + k)) (?n - 1 - 0))"
    by (rule rob_helper_ok) simp_all
  then have "rob_helper nums 0 (int ?n - 1) = Some (loot (\<lambda>k. nums ! k) (?n - 1))"
    unfolding e by simp
  moreover have "rob_helper nums (int 1) (int ?n) = Some (loot (\<lambda>k. nums ! (1 + k)) (?n - 1))"
    by (rule rob_helper_ok) (use assms in linarith, simp)
  ultimately have "rob_circle nums = Some (max (loot (\<lambda>k. nums ! k) (?n - 1)) (loot (\<lambda>k. nums ! (1 + k)) (?n - 1)))"
    by (simp only: rob_circle_def of_nat_1 Option.bind_lunit)
  then show ?thesis using circle_best [OF assms, of "\<lambda>k. nums ! k"] by blast
qed

text \<open>A single house is not robbed.\<close>

lemma rob_circle_single: "rob_circle [x] = Some 0"
  by (simp add: rob_circle_def rob_helper_def)

lemma count_ok:
  assumes "\<forall>v \<in> set nums. 0 \<le> v \<and> v < int m" and "length cnt = m"
  shows "\<exists>cnt'. for_each nums count_step cnt = Some cnt' \<and> length cnt' = m \<and> (\<forall>k < m. cnt' ! k = cnt ! k + int (count_list nums (int k)))"
  using assms
proof (induction nums arbitrary: cnt)
  case (Cons v nums)
  let ?c = "cnt[nat v := cnt ! nat v + 1]"
  have v: "0 \<le> v" "nat v < m" using Cons(2) by auto
  then have "count_step v cnt = Some ?c" using Cons(3) by (simp add: count_step_def ub_simps)
  moreover obtain cnt' where "for_each nums count_step ?c = Some cnt'" "length cnt' = m"
    "\<forall>k < m. cnt' ! k = ?c ! k + int (count_list nums (int k))"
    using Cons(1) [of ?c] Cons(2,3) by auto
  ultimately show ?case using v Cons(3) by (auto simp: nth_list_update)
qed simp

lemma weigh_ok: "\<exists>cnt'. for_each [0..<length cnt] weigh_step cnt = Some cnt' \<and> length cnt' = length cnt \<and> (\<forall>k < length cnt. cnt' ! k = cnt ! k * int k)"
proof -
  let ?I = "\<lambda>i c. length c = length cnt \<and> (\<forall>k < length cnt. c ! k = (if k < i then cnt ! k * int k else cnt ! k))"
  have "\<exists>c. for_each [0..<length cnt] weigh_step cnt = Some c \<and> ?I (length cnt) c"
  proof (rule for_upt [where I = ?I])
    fix i c assume "i < length cnt" "?I i c"
    then show "\<exists>c'. weigh_step i c = Some c' \<and> ?I (Suc i) c'"
      by (intro exI [of _ "c[i := c ! i * int i]"]) (auto simp: weigh_step_def ub_simps nth_list_update)
  qed auto
  then show ?thesis by auto
qed

lemma rob_counts_loot:
  assumes "cnt \<noteq> []" and "cnt ! 0 = 0" and "\<forall>k < length cnt. 0 \<le> cnt ! k"
  shows "rob_counts cnt = Some (loot (\<lambda>k. cnt ! k) (length cnt))"
proof (cases "length cnt = 1")
  case True
  then show ?thesis using assms by (simp add: rob_counts_def)
next
  case False
  let ?x = "\<lambda>k. cnt ! k"
  have n: "0 < length cnt" "1 < length cnt" using assms(1) False by (cases cnt; auto)+
  have "\<exists>s. for_each [2..<length cnt] (helper_step cnt) (cnt ! 0, cnt ! 1) = Some s \<and> s = (loot ?x (length cnt - 1), loot ?x (length cnt))"
  proof (rule for_upt [where I = "\<lambda>i s. s = (loot ?x (i - 1), loot ?x i)"])
    show "(cnt ! 0, cnt ! 1) = (loot ?x (2 - 1), loot ?x 2)" using assms(2,3) n by (simp add: numeral_2_eq_2 max_def)
    fix i and s :: "int \<times> int" assume i: "2 \<le> i" "i < length cnt" and s: "s = (loot ?x (i - 1), loot ?x i)"
    obtain k where "i = Suc (Suc k)" using i(1) by (metis add_2_eq_Suc le_Suc_ex)
    then show "\<exists>s'. helper_step cnt i s = Some s' \<and> s' = (loot ?x (Suc i - 1), loot ?x (Suc i))"
      using i s by (simp add: helper_step_def ub_simps)
  qed (use n in auto)
  then have "for_each [2..<length cnt] (helper_step cnt) (cnt ! 0, cnt ! 1) = Some (loot ?x (length cnt - 1), loot ?x (length cnt))" by simp
  then show ?thesis using False n by (simp add: rob_counts_def ub_simps del: loot.simps)
qed

text \<open>What the values in \<open>S\<close> earn: each as often as it occurs.\<close>

definition earned :: "int list \<Rightarrow> nat set \<Rightarrow> int" where
  "earned nums S = (\<Sum>v \<in> S. int v * int (count_list nums (int v)))"

lemma deleteAndEarn_ok:
  assumes "nums \<noteq> []" and pos: "\<forall>v \<in> set nums. 0 \<le> v"
  shows "\<exists>b. deleteAndEarn nums = Some b \<and> best_of (plan (nat (Max (set nums) + 1))) (earned nums) b"
proof -
  let ?m = "nat (Max (set nums) + 1)"
  have mx: "Max (set nums) \<in> set nums" using assms(1) by (intro Max_in) auto
  then have m0: "0 \<le> Max (set nums)" using pos by blast
  have bnd: "\<forall>v \<in> set nums. 0 \<le> v \<and> v < int ?m" using pos m0 by (auto intro: le_less_trans [OF Max_ge])
  obtain c1 where c1: "for_each nums count_step (replicate ?m 0) = Some c1" "length c1 = ?m"
    "\<forall>k < ?m. c1 ! k = int (count_list nums (int k))"
    using count_ok [OF bnd, of "replicate ?m 0"] by auto
  obtain c2 where c2: "for_each [0..<length c1] weigh_step c1 = Some c2" "length c2 = ?m" "\<forall>k < ?m. c2 ! k = c1 ! k * int k"
    using weigh_ok [of c1] c1(2) by auto
  have c2k: "\<forall>k < ?m. c2 ! k = int k * int (count_list nums (int k))" using c1(3) c2(3) by simp
  have "rob_counts c2 = Some (loot (\<lambda>k. c2 ! k) ?m)"
  proof -
    have "c2 \<noteq> []" "c2 ! 0 = 0" using c2(2) c2k m0 by auto
    then show ?thesis using rob_counts_loot [of c2] c2(2) c2k by simp
  qed
  then have "deleteAndEarn nums = Some (loot (\<lambda>k. c2 ! k) ?m)"
    using assms(1) m0 c1(1) c2(1) by (simp add: deleteAndEarn_def)
  moreover have "best_of (plan ?m) (earned nums) (loot (\<lambda>k. c2 ! k) ?m)"
  proof -
    have "sum (\<lambda>k. c2 ! k) S = earned nums S" if "plan ?m S" for S
      unfolding earned_def using that c2k by (intro sum.cong) (auto simp: plan_def)
    then show ?thesis using loot_best [of ?m "\<lambda>k. c2 ! k"] unfolding best_of_def by metis
  qed
  ultimately show ?thesis by blast
qed

text \<open>
  The robbers' programs return the greatest loot of a set of houses without neighbours: in a
  row, in a circle of at least two houses, and over the values of a vector.
\<close>

theorem robbers_optimal:
  assumes "\<forall>x \<in> set nums. 0 \<le> x" and "2 \<le> length nums"
  shows "(\<exists>b. rob_row nums = Some b \<and> best_of (plan (length nums)) (sum (\<lambda>k. nums ! k)) b) \<and>
    (\<exists>b. rob_circle nums = Some b \<and> best_of (circle_plan (length nums)) (sum (\<lambda>k. nums ! k)) b) \<and>
    (\<exists>b. deleteAndEarn nums = Some b \<and> best_of (plan (nat (Max (set nums) + 1))) (earned nums) b)"
proof (intro conjI)
  have "nums \<noteq> []" using assms(2) by auto
  then show "\<exists>b. deleteAndEarn nums = Some b \<and> best_of (plan (nat (Max (set nums) + 1))) (earned nums) b"
    using deleteAndEarn_ok assms(1) by blast
qed (use rob_row_loot [OF assms(1)] loot_best rob_circle_ok [OF assms(2)] in auto)

theorem robbers_optimal_witness:
  "\<exists>b. rob_row [2, 7, 9, 3, 1] = Some b \<and> best_of (plan (length [2, 7, 9, 3, 1 :: int])) (sum (\<lambda>k. [2, 7, 9, 3, 1] ! k)) b"
proof -
  have "\<forall>x \<in> set [2, 7, 9, 3, 1 :: int]. 0 \<le> x" "2 \<le> length [2, 7, 9, 3, 1 :: int]" by simp_all
  from robbers_optimal [OF this] show ?thesis by blast
qed

end
