(* ===== verification/ListMerges.thy ===== *)
theory ListMerges
  imports LeetLists
begin

section \<open>Top-down merge sort (leetcode/list/sortList.cc)\<close>

text \<open>
  The lambda \<open>merge\<close> is \<open>mergeTwoList\<close>, statement by statement. C++ leaves the order of the two
  recursive calls open; the model sorts the left half first.
\<close>

partial_function (option) mergeSortTopDown :: "store \<Rightarrow> ptr \<Rightarrow> (store \<times> ptr) option" where
  "mergeSortTopDown h head = do {
     short \<leftarrow> (if head = None then Some True else do { q \<leftarrow> load_next h head; Some (q = None) });
     if short then Some (h, head)
     else do {
       fast \<leftarrow> load_next h head;
       slow \<leftarrow> find_mid h head fast;
       mid \<leftarrow> load_next h slow;
       h \<leftarrow> set_next h slow None;
       (h, l1) \<leftarrow> mergeSortTopDown h head;
       (h, l2) \<leftarrow> mergeSortTopDown h mid;
       mergeTwoList h l1 l2 } }"

text \<open>It does what the sort of misc/struct/list.h does, whose merge also looks for the tail.\<close>

lemma Merge_lists_two: "Merge_lists h l r = Some (h', m, t) \<Longrightarrow> mergeTwoList h l r = Some (h', m)"
  by (fastforce simp: Merge_lists_def mergeTwoList_def split: if_splits)

lemma mergeSortTopDown_eq:
  assumes "sort_top_down h p = Some r"
  shows "mergeSortTopDown h p = Some r"
proof (rule sort_top_down.raw_induct [where P = "\<lambda>h p r. mergeSortTopDown h p = Some r", OF _ assms])
  fix f :: "store \<Rightarrow> ptr \<Rightarrow> (store \<times> ptr) option" and h p r
  assume IH: "\<And>h p r. f h p = Some r \<Longrightarrow> mergeSortTopDown h p = Some r"
    and body: "do {
     short \<leftarrow> (if p = None then Some True else do { q \<leftarrow> load_next h p; Some (q = None) });
     if short then Some (h, p)
     else do {
       fast \<leftarrow> load_next h p;
       slow \<leftarrow> find_mid h p fast;
       mid \<leftarrow> load_next h slow;
       h \<leftarrow> set_next h slow None;
       (h, l) \<leftarrow> f h p;
       (h, r) \<leftarrow> f h mid;
       (h, m, t) \<leftarrow> Merge_lists h l r;
       Some (h, m) } } = Some r"
  show "mergeSortTopDown h p = Some r"
  proof (cases "p = None \<or> load_next h p = Some None")
    case True
    then show ?thesis using body by (subst mergeSortTopDown.simps) (cases p; auto simp del: bind_eq_Some)
  next
    case False
    then obtain fast slow mid h1 h2 l1 h3 l2 h4 m t where s: "load_next h p = Some fast" "fast \<noteq> None" "find_mid h p fast = Some slow"
      "load_next h slow = Some mid" "set_next h slow None = Some h1" "f h1 p = Some (h2, l1)" "f h2 mid = Some (h3, l2)"
      "Merge_lists h3 l1 l2 = Some (h4, m, t)" "r = (h4, m)"
      using body by (cases "load_next h p") auto
    have "mergeSortTopDown h1 p = Some (h2, l1)" "mergeSortTopDown h2 mid = Some (h3, l2)"
      using IH s(6,7) by blast+
    moreover have "p \<noteq> None" using False by simp
    ultimately show ?thesis using s(1-5,9) Merge_lists_two [OF s(8)]
      by (subst mergeSortTopDown.simps) (simp del: bind_eq_Some not_None_eq)
  qed
qed

lemma mergeSortTopDown_ok:
  assumes "is_list h p as"
  shows "\<exists>h' p' bs. mergeSortTopDown h p = Some (h', p') \<and> sorted_list h' p' bs \<and> mset bs = mset as \<and> relinked (set as) h h'"
  using sort_top_down_ok [OF assms] mergeSortTopDown_eq by blast

section \<open>Sums of decimal numbers (leetcode/list/addTwoNums.cc)\<close>

text \<open>
  A list holds the digits of a number, the least significant first. \<open>new\<close> takes the address
  \<open>fresh\<close> and the ones after it. The recursive version shares the end of the longer list.
\<close>

partial_function (option) addTwoNums :: "store \<Rightarrow> addr \<Rightarrow> ptr \<Rightarrow> ptr \<Rightarrow> (store \<times> addr \<times> ptr) option" where
  "addTwoNums h fresh l1 l2 =
     (if l1 = None then Some (h, fresh, l2)
      else if l2 = None then Some (h, fresh, l1)
      else do {
        n1 \<leftarrow> load h l1; n2 \<leftarrow> load h l2;
        let a = val n1 + val n2;
        r \<leftarrow> crem a 10;
        let p = fresh;
        (h, fresh, q) \<leftarrow> addTwoNums (h(p \<mapsto> \<lparr>val = r, nxt = None\<rparr>)) (fresh + 1) (nxt n1) (nxt n2);
        h \<leftarrow> set_next h (Some p) q;
        if a \<ge> 10 then do {
          q \<leftarrow> load_next h (Some p);
          (h, fresh, q) \<leftarrow> addTwoNums (h(fresh \<mapsto> \<lparr>val = 1, nxt = None\<rparr>)) (fresh + 1) q (Some fresh);
          h \<leftarrow> set_next h (Some p) q;
          Some (h, fresh, Some p) }
        else Some (h, fresh, Some p) })"

text \<open>A null list counts as the digit 0.\<close>

definition digit_of :: "store \<Rightarrow> ptr \<Rightarrow> (int \<times> ptr) option" where
  "digit_of h l = (if l = None then Some (0, None) else do { n \<leftarrow> load h l; Some (val n, nxt n) })"

partial_function (option) addTwoNums2_loop ::
    "store \<Rightarrow> addr \<Rightarrow> ptr \<Rightarrow> addr option \<Rightarrow> int \<Rightarrow> ptr \<Rightarrow> ptr \<Rightarrow> (store \<times> addr \<times> ptr) option" where
  "addTwoNums2_loop h fresh d tail carry l1 l2 =
     (if l1 = None \<and> l2 = None \<and> carry = 0 then Some (h, fresh, d)
      else do {
        (x, l1) \<leftarrow> digit_of h l1;
        (y, l2) \<leftarrow> digit_of h l2;
        let carry = carry + x + y;
        r \<leftarrow> crem carry 10;
        (h, d) \<leftarrow> place_set (h(fresh \<mapsto> \<lparr>val = r, nxt = None\<rparr>)) d tail (Some fresh);
        addTwoNums2_loop h (fresh + 1) d (Some fresh) (cdiv carry 10) l1 l2 })"

definition addTwoNums2 :: "store \<Rightarrow> addr \<Rightarrow> ptr \<Rightarrow> ptr \<Rightarrow> (store \<times> addr \<times> ptr) option" where
  "addTwoNums2 h fresh l1 l2 = addTwoNums2_loop h fresh None None 0 l1 l2"

subsection \<open>The digits of a sum\<close>

abbreviation digits :: "int list \<Rightarrow> bool" where
  "digits xs \<equiv> \<forall>x \<in> set xs. 0 \<le> x \<and> x < 10"

fun number :: "int list \<Rightarrow> int" where
  "number [] = 0"
| "number (x # xs) = x + 10 * number xs"

fun add_digits :: "int \<Rightarrow> int list \<Rightarrow> int list \<Rightarrow> int list" where
  "add_digits c [] [] = (if c = 0 then [] else [c])"
| "add_digits c (x # xs) [] = ((c + x) mod 10) # add_digits ((c + x) div 10) xs []"
| "add_digits c [] (y # ys) = ((c + y) mod 10) # add_digits ((c + y) div 10) [] ys"
| "add_digits c (x # xs) (y # ys) = ((c + x + y) mod 10) # add_digits ((c + x + y) div 10) xs ys"

lemma div_10_carry: "0 \<le> (x :: int) \<Longrightarrow> x < 20 \<Longrightarrow> x div 10 = (if x < 10 then 0 else 1)"
  by auto

lemma add_digits_number: "number (add_digits c xs ys) = c + number xs + number ys"
  by (induction c xs ys rule: add_digits.induct) auto

lemma tens: "10 \<le> (s :: int) \<Longrightarrow> s < 20 \<Longrightarrow> s div 10 = 1 \<and> s mod 10 = s - 10"
  by presburger

lemma units: "0 \<le> (s :: int) \<Longrightarrow> s < 10 \<Longrightarrow> s div 10 = 0 \<and> s mod 10 = s"
  by simp

lemma carry_bounds: "0 \<le> x \<Longrightarrow> x < 20 \<Longrightarrow> 0 \<le> x div 10 \<and> x div 10 \<le> (1 :: int)"
  by presburger

lemma digits_Cons: "digits zs \<Longrightarrow> digits ((x mod 10) # zs)"
  by simp

lemma add_digits_digits: "digits xs \<Longrightarrow> digits ys \<Longrightarrow> 0 \<le> c \<Longrightarrow> c \<le> 1 \<Longrightarrow> digits (add_digits c xs ys)"
proof (induction c xs ys rule: add_digits.induct)
  case (2 c x xs)
  have "0 \<le> x \<and> x < 10" using 2(2,3) by simp
  then have "0 \<le> (c + x) div 10 \<and> (c + x) div 10 \<le> 1" using 2(4,5) by (intro carry_bounds) linarith+
  then show ?case unfolding add_digits.simps using 2(2,3) by (intro digits_Cons 2(1)) auto
next
  case (3 c y ys)
  have "0 \<le> y \<and> y < 10" using 3(2,3) by simp
  then have "0 \<le> (c + y) div 10 \<and> (c + y) div 10 \<le> 1" using 3(4,5) by (intro carry_bounds) linarith+
  then show ?case unfolding add_digits.simps using 3(2,3) by (intro digits_Cons 3(1)) auto
next
  case (4 c x xs y ys)
  have "0 \<le> x \<and> x < 10 \<and> 0 \<le> y \<and> y < 10" using 4(2,3) by simp
  then have "0 \<le> (c + x + y) div 10 \<and> (c + x + y) div 10 \<le> 1" using 4(4,5) by (intro carry_bounds) linarith+
  then show ?case unfolding add_digits.simps using 4(2,3) by (intro digits_Cons 4(1)) auto
qed simp

lemma add_digits_swap: "add_digits c xs ys = add_digits c ys xs"
  by (induction c xs ys rule: add_digits.induct) (simp_all add: ac_simps)

lemma add_digits_zero: "digits xs \<Longrightarrow> add_digits 0 xs [] = xs" "digits xs \<Longrightarrow> add_digits 0 [] xs = xs"
  by (induction xs) auto

lemma add_digits_one: "add_digits 1 xs [] = add_digits 0 xs [1]"
  by (cases xs) (auto simp: add.commute)

text \<open>Adding a carry at the end is adding it at the start.\<close>

lemma add_digits_carry: "digits xs \<Longrightarrow> digits ys \<Longrightarrow> add_digits 0 (add_digits 0 xs ys) [1] = add_digits 1 xs ys"
proof (induction xs arbitrary: ys)
  case Nil
  then show ?case by (simp add: add_digits_zero add_digits_one [symmetric] add_digits_swap [of 1 "[]"])
next
  case (Cons x xs)
  show ?case
  proof (cases ys)
    case Nil
    then show ?thesis using Cons(2) by (simp add: add_digits_zero add.commute)
  next
    case (Cons y zs)
    have b: "0 \<le> x" "x < 10" "0 \<le> y" "y < 10" "digits zs" "digits xs" using Cons.prems \<open>ys = y # zs\<close> by auto
    have z: "digits (add_digits 0 zs' xs')" "add_digits 0 (add_digits 1 zs' xs') [] = add_digits 1 zs' xs'"
        "add_digits 0 (add_digits 0 zs' xs') [] = add_digits 0 zs' xs'" if "digits zs'" "digits xs'" for zs' xs'
      using that add_digits_digits [OF that, of 0] add_digits_digits [OF that, of 1] add_digits_zero by auto
    have step: "add_digits 0 (add_digits 0 (x # xs) ys) [1] = ((x + y) mod 10 + 1) mod 10 #
        add_digits (((x + y) mod 10 + 1) div 10) (add_digits ((x + y) div 10) xs zs) []"
      "add_digits 1 (x # xs) ys = (x + y + 1) mod 10 # add_digits ((x + y + 1) div 10) xs zs"
      unfolding Cons add_digits.simps by (simp_all only: add_0 add.commute [of 1] add.commute [of "x + y" 1] add.assoc)
    consider "x + y < 9" | "x + y = 9" | "10 \<le> x + y" by linarith
    then show ?thesis
    proof cases
      case 1
      then show ?thesis unfolding step using z(3) [OF b(6,5)] units [of "x + y"] units [of "x + y + 1"] b(1-4) by simp
    next
      case 2
      then show ?thesis unfolding step using Cons.IH [OF b(6,5)] by (simp add: add_digits_one)
    next
      case 3
      then show ?thesis unfolding step using z(2) [OF b(6,5)] tens [of "x + y"] tens [of "x + y + 1"] units [of "x + y - 9"] b(1-4)
        by simp
    qed
  qed
qed

subsection \<open>The lists of a number\<close>

text \<open>\<open>p\<close> heads a list of the digits \<open>xs\<close> whose nodes lie in \<open>A\<close>.\<close>

definition num_list :: "store \<Rightarrow> addr set \<Rightarrow> ptr \<Rightarrow> int list \<Rightarrow> bool" where
  "num_list h A p xs \<longleftrightarrow> (\<exists>as. is_list h p as \<and> set as \<subseteq> A \<and> vals h as = xs \<and> digits xs)"

lemma num_list_frame:
  assumes "num_list h A p xs" and "A \<subseteq> B" and "\<And>a. a \<in> A \<Longrightarrow> h' a = h a"
  shows "num_list h' B p xs"
proof -
  obtain as where as: "is_list h p as" "set as \<subseteq> A" "vals h as = xs" "digits xs" using assms(1) by (auto simp: num_list_def)
  have eq: "h' a = h a" if "a \<in> set as" for a using that as(2) assms(3) by auto
  have "is_list h' p as" using as(1) lseg_cong [of as h' h, OF eq] by simp
  moreover have "vals h' as = xs" using as(3) eq by (auto simp: vals_def)
  ultimately show ?thesis unfolding num_list_def using as(2,4) assms(2) by blast
qed

lemma num_list_Nil [simp]: "num_list h A p [] \<longleftrightarrow> p = None"
  by (auto simp: num_list_def vals_def intro!: exI [of _ "[]"])

lemma num_list_Cons [simp]: "num_list h A p (x # xs) \<longleftrightarrow>
    (\<exists>a nd. p = Some a \<and> a \<in> A \<and> h a = Some nd \<and> val nd = x \<and> 0 \<le> x \<and> x < 10 \<and> num_list h A (nxt nd) xs)"
  (is "?l = ?r")
proof
  assume ?l
  then obtain as where as: "is_list h p as" "set as \<subseteq> A" "vals h as = x # xs" "digits (x # xs)" by (auto simp: num_list_def)
  then obtain a bs where "as = a # bs" by (cases as) (auto simp: vals_def)
  then show ?r using as by (auto simp: num_list_def vals_def)
next
  assume ?r
  then obtain a nd as where "p = Some a" "a \<in> A" "h a = Some nd" "val nd = x" "0 \<le> x" "x < 10" "is_list h (nxt nd) as"
    "set as \<subseteq> A" "vals h as = xs" "digits xs" by (auto simp: num_list_def)
  then show ?l unfolding num_list_def by (intro exI [of _ "a # as"]) (auto simp: vals_def)
qed

lemma num_list_digits: "num_list h A p xs \<Longrightarrow> digits xs"
  by (auto simp: num_list_def)

subsection \<open>The recursive version\<close>

text \<open>A sum changes no node that exists; its nodes are old ones in \<open>A\<close> or new ones.\<close>

definition sums_to :: "store \<Rightarrow> addr set \<Rightarrow> addr \<Rightarrow> ptr \<Rightarrow> ptr \<Rightarrow> int list \<Rightarrow> bool" where
  "sums_to h A n l1 l2 xs \<longleftrightarrow> (\<exists>h' n' p. addTwoNums h n l1 l2 = Some (h', n', p) \<and> n \<le> n' \<and>
     (\<forall>a < n. h' a = h a) \<and> num_list h' (A \<union> {n..<n'}) p xs)"

lemma addTwoNums_null:
  "addTwoNums h fresh None l2 = Some (h, fresh, l2)" "addTwoNums h fresh l1 None = Some (h, fresh, l1)"
  by (subst addTwoNums.simps; cases l1; simp)+

lemma sums_to_empty:
  "num_list h A p xs \<Longrightarrow> num_list h A q ys \<Longrightarrow> xs = [] \<or> ys = [] \<Longrightarrow> sums_to h A n p q (add_digits 0 xs ys)"
  using add_digits_zero num_list_digits [of h A p xs] num_list_digits [of h A q ys]
  by (auto simp: sums_to_def addTwoNums_null)

definition adds :: "int list \<Rightarrow> int list \<Rightarrow> bool" where
  "adds xs ys \<longleftrightarrow> (\<forall>h A n p q. A \<subseteq> {..<n} \<longrightarrow> num_list h A p xs \<longrightarrow> num_list h A q ys \<longrightarrow> sums_to h A n p q (add_digits 0 xs ys))"

lemma addsD: "adds xs ys \<Longrightarrow> A \<subseteq> {..<n} \<Longrightarrow> num_list h A p xs \<Longrightarrow> num_list h A q ys \<Longrightarrow> sums_to h A n p q (add_digits 0 xs ys)"
  by (auto simp: adds_def)

lemma adds_step:
  assumes rec1: "adds xs ys" and rec2: "adds (add_digits 0 xs ys) [1]" and dg: "digits xs" "digits ys"
  shows "adds (x # xs) (y # ys)"
  unfolding adds_def
proof (intro allI impI)
  fix h A n l1 l2
  assume A: "A \<subseteq> {..<n}" and l: "num_list h A l1 (x # xs)" "num_list h A l2 (y # ys)"
  obtain a na b nb where ab: "l1 = Some a" "h a = Some na" "val na = x" "num_list h A (nxt na) xs"
    "l2 = Some b" "h b = Some nb" "val nb = y" "num_list h A (nxt nb) ys" and xy: "0 \<le> x" "x < 10" "0 \<le> y" "y < 10"
    using l by auto
  let ?r = "(x + y) mod 10"
  let ?h = "h(n \<mapsto> \<lparr>val = ?r, nxt = None\<rparr>)"
  have r: "crem (x + y) 10 = Some ?r" "0 \<le> ?r" "?r < 10" using xy by auto
  have nA: "n \<notin> A" "A \<subseteq> {..<n + 1}" using A by auto
  have "num_list ?h A (nxt na) xs" "num_list ?h A (nxt nb) ys"
    using nA by (intro num_list_frame [OF ab(4) subset_refl] num_list_frame [OF ab(8) subset_refl]; auto)+
  from addsD [OF rec1 nA(2) this] obtain h1 n1 q1 where q1: "addTwoNums ?h (n + 1) (nxt na) (nxt nb) = Some (h1, n1, q1)"
    "n + 1 \<le> n1" "\<forall>a < n + 1. h1 a = ?h a" "num_list h1 (A \<union> {n + 1..<n1}) q1 (add_digits 0 xs ys)" by (auto simp: sums_to_def)
  let ?h1 = "h1(n \<mapsto> \<lparr>val = ?r, nxt = q1\<rparr>)"
  have h1: "set_next h1 (Some n) q1 = Some ?h1" using q1(3) by simp
  have q1': "num_list ?h1 (A \<union> {n + 1..<n1}) q1 (add_digits 0 xs ys)"
    using nA(1) by (intro num_list_frame [OF q1(4) subset_refl]) auto
  show "sums_to h A n l1 l2 (add_digits 0 (x # xs) (y # ys))"
  proof (cases "x + y \<ge> 10")
    case False
    then have e: "addTwoNums h n l1 l2 = Some (?h1, n1, Some n)"
      using ab r(1) q1(1) h1 by (subst addTwoNums.simps) (simp del: bind_eq_Some add: Let_def)
    have "num_list ?h1 (A \<union> {n..<n1}) q1 (add_digits 0 xs ys)" by (rule num_list_frame [OF q1']) auto
    moreover have "(x + y) div 10 = 0" using False xy units [of "x + y"] by simp
    ultimately have "num_list ?h1 (A \<union> {n..<n1}) (Some n) (add_digits 0 (x # xs) (y # ys))" using q1(2) r by simp
    moreover have "\<forall>a < n. ?h1 a = h a" using q1(3) by simp
    ultimately show ?thesis unfolding sums_to_def e using q1(2) by (intro exI [of _ ?h1] exI [of _ n1] exI [of _ "Some n"]) auto
  next
    case True
    let ?B = "A \<union> {n + 1..<n1 + 1}"
    let ?h2 = "?h1(n1 \<mapsto> \<lparr>val = 1, nxt = None\<rparr>)"
    have "num_list ?h2 ?B q1 (add_digits 0 xs ys)" using A q1(2) by (intro num_list_frame [OF q1']) auto
    moreover have "num_list ?h2 ?B (Some n1) [1]" using q1(2) by simp
    moreover have "?B \<subseteq> {..<n1 + 1}" using A q1(2) by auto
    ultimately obtain h3 n3 q3 where q3: "addTwoNums ?h2 (n1 + 1) q1 (Some n1) = Some (h3, n3, q3)" "n1 + 1 \<le> n3"
      "\<forall>a < n1 + 1. h3 a = ?h2 a" "num_list h3 (?B \<union> {n1 + 1..<n3}) q3 (add_digits 0 (add_digits 0 xs ys) [1])"
      using addsD [OF rec2, of ?B "n1 + 1" ?h2 q1 "Some n1"] by (auto simp: sums_to_def)
    let ?h3 = "h3(n \<mapsto> \<lparr>val = ?r, nxt = q3\<rparr>)"
    have "h3 n = Some \<lparr>val = ?r, nxt = q1\<rparr>" using q3(3) q1(2) by simp
    then have "set_next h3 (Some n) q3 = Some ?h3" by simp
    then have e: "addTwoNums h n l1 l2 = Some (?h3, n3, Some n)"
      using True ab r(1) q1(1) h1 q3(1) by (subst addTwoNums.simps) (simp del: bind_eq_Some add: Let_def)
    have "num_list ?h3 (A \<union> {n..<n3}) q3 (add_digits 0 (add_digits 0 xs ys) [1])"
      using A q1(2) q3(2) by (intro num_list_frame [OF q3(4)]) auto
    moreover have "(x + y) div 10 = 1" using True xy tens [of "x + y"] by simp
    ultimately have "num_list ?h3 (A \<union> {n..<n3}) (Some n) (add_digits 0 (x # xs) (y # ys))"
      using q1(2) q3(2) r by (simp add: add_digits_carry [OF dg])
    moreover have "\<forall>a < n. ?h3 a = h a" using q1(2,3) q3(3) by simp
    ultimately show ?thesis unfolding sums_to_def e using q1(2) q3(2)
      by (intro exI [of _ ?h3] exI [of _ n3] exI [of _ "Some n"]) auto
  qed
qed

lemma adds_empty: "adds [] ys" "adds xs []"
  by (auto simp: adds_def intro!: sums_to_empty simp del: num_list_Nil)

lemma adds_digits: "(digits xs \<Longrightarrow> digits ys \<Longrightarrow> adds xs ys) \<Longrightarrow> adds xs ys"
  by (meson adds_def num_list_digits)

lemma adds_digit: "adds xs [y]"
proof (induction xs arbitrary: y)
  case (Cons x xs)
  show ?case
  proof (rule adds_digits)
    assume "digits (x # xs)"
    then show ?thesis using Cons by (intro adds_step adds_empty) (simp_all add: add_digits_zero)
  qed
qed (rule adds_empty)

lemma adds_all: "adds xs ys"
proof (induction xs arbitrary: ys)
  case (Cons x xs)
  show ?case
  proof (rule adds_digits)
    assume d: "digits (x # xs)" "digits ys"
    then show ?thesis using Cons by (cases ys) (auto intro!: adds_step adds_empty adds_digit)
  qed
qed (rule adds_empty)

subsection \<open>The loop\<close>

definition first_digit :: "int list \<Rightarrow> int" where
  "first_digit xs = (if xs = [] then 0 else hd xs)"

lemma first_digit_simps [simp]: "first_digit [] = 0" "first_digit (x # xs) = x"
  by (simp_all add: first_digit_def)

lemma digit_of_ok: "num_list h A l xs \<Longrightarrow> \<exists>l'. digit_of h l = Some (first_digit xs, l') \<and> num_list h A l' (tl xs)"
  by (cases xs) (auto simp: digit_of_def)

lemma add_digits_step:
  "\<not> (xs = [] \<and> ys = [] \<and> c = 0) \<Longrightarrow> 0 \<le> c \<Longrightarrow> c < 10 \<Longrightarrow>
   add_digits c xs ys = ((c + first_digit xs + first_digit ys) mod 10) #
     add_digits ((c + first_digit xs + first_digit ys) div 10) (tl xs) (tl ys)"
  by (cases xs; cases ys) auto

lemma first_digit_bounds: "digits xs \<Longrightarrow> 0 \<le> first_digit xs \<and> first_digit xs < 10"
  by (cases xs) auto

text \<open>
  \<open>tail\<close> is the last place of the sum so far, whose next pointer is null; the loop appends the
  digits that are left. It writes only to that place and to new nodes.
\<close>

lemma addTwoNums2_loop_ok:
  "num_list h A l1 xs \<Longrightarrow> num_list h A l2 ys \<Longrightarrow> 0 \<le> c \<Longrightarrow> c \<le> 1 \<Longrightarrow> A \<subseteq> {..<n} \<Longrightarrow>
   place_addr p \<subseteq> dom h \<inter> {..<n} - A \<Longrightarrow> place_next h d p = Some None \<Longrightarrow>
   \<exists>h' n' d' cs. addTwoNums2_loop h n d p c l1 l2 = Some (h', n', d') \<and> (\<forall>a. a < n \<and> a \<notin> place_addr p \<longrightarrow> h' a = h a) \<and>
     (\<forall>a \<in> place_addr p. node_val h' a = node_val h a \<and> a \<in> dom h') \<and>
     place_list h' d' p cs \<and> set cs \<subseteq> {n..} \<and> vals h' cs = add_digits c xs ys \<and> (p \<noteq> None \<longrightarrow> d' = d)"
proof (induction "2 * (length xs + length ys) + nat c" arbitrary: h A l1 xs l2 ys c n p d rule: less_induct)
  case less
  show ?case
  proof (cases "xs = [] \<and> ys = [] \<and> c = 0")
    case True
    then have "addTwoNums2_loop h n d p c l1 l2 = Some (h, n, d)" using less(2,3) by (subst addTwoNums2_loop.simps) simp
    then show ?thesis using True less(7,8)
      by (intro exI [of _ h] exI [of _ n] exI [of _ d] exI [of _ "[]"]) (auto simp: place_list_def vals_def)
  next
    case False
    note dg = num_list_digits [OF less(2)] num_list_digits [OF less(3)]
    note fd = first_digit_bounds [OF dg(1)] first_digit_bounds [OF dg(2)]
    obtain k1 k2 where k: "digit_of h l1 = Some (first_digit xs, k1)" "num_list h A k1 (tl xs)"
      "digit_of h l2 = Some (first_digit ys, k2)" "num_list h A k2 (tl ys)"
      using digit_of_ok less(2,3) by meson
    let ?s = "c + first_digit xs + first_digit ys"
    have s: "0 \<le> ?s" "?s < 20" "crem ?s 10 = Some (?s mod 10)" "cdiv ?s 10 = ?s div 10"
      using fd less(4,5) by (auto simp: cdiv_nonneg)
    let ?h = "h(n \<mapsto> \<lparr>val = ?s mod 10, nxt = None\<rparr>)"
    have "place_addr p \<subseteq> dom ?h" using less(7) by auto
    then obtain h1 d1 where p1: "place_set ?h d p (Some n) = Some (h1, d1)" "place_next h1 d1 p = Some (Some n)"
      "relinked (place_addr p) ?h h1" "p \<noteq> None \<longrightarrow> d1 = d" using place_set_ok by blast
    have np: "n \<notin> place_addr p" using less(7) by auto
    then have hn: "h1 n = Some \<lparr>val = ?s mod 10, nxt = None\<rparr>" using relinked_outside [OF p1(3), of n] by simp
    have fr: "h1 a = h a" if "a < n" "a \<notin> place_addr p" for a using relinked_outside [OF p1(3) that(2)] that(1) by simp
    have l: "num_list h1 A k1 (tl xs)" "num_list h1 A k2 (tl ys)"
      using less(6,7) fr by (intro num_list_frame [OF k(2) subset_refl] num_list_frame [OF k(4) subset_refl]; auto)+
    have nonnull: "(l1 = None \<and> l2 = None \<and> c = 0) = False" using False less(2,3) by (cases xs; cases ys) auto
    have step: "addTwoNums2_loop h n d p c l1 l2 = addTwoNums2_loop h1 (n + 1) d1 (Some n) (?s div 10) k1 k2"
      using nonnull k(1,3) p1(1) s(3,4) by (subst addTwoNums2_loop.simps) (simp only: if_False, simp del: bind_eq_Some add: Let_def)
    have cb: "0 \<le> ?s div 10" "?s div 10 \<le> 1" using carry_bounds [OF s(1,2)] by auto
    have m: "2 * (length (tl xs) + length (tl ys)) + nat (?s div 10) < 2 * (length xs + length ys) + nat c"
      using False cb less(4,5) by (cases xs; cases ys) auto
    have A: "A \<subseteq> {..<n + 1}" "n \<notin> A" using less(6) by auto
    have pl: "place_addr (Some n) \<subseteq> dom h1 \<inter> {..<n + 1} - A" "place_next h1 d1 (Some n) = Some None"
      using hn A(2) by (auto simp: place_addr_def load_next_def load_def)
    have pa: "place_addr (Some n) = {n}" by (simp add: place_addr_def)
    obtain h' n' d' cs where R: "addTwoNums2_loop h1 (n + 1) d1 (Some n) (?s div 10) k1 k2 = Some (h', n', d')"
      "\<forall>a. a < n + 1 \<and> a \<notin> {n} \<longrightarrow> h' a = h1 a" "\<forall>a \<in> {n}. node_val h' a = node_val h1 a \<and> a \<in> dom h'"
      "place_list h' d' (Some n) cs" "set cs \<subseteq> {n + 1..}" "vals h' cs = add_digits (?s div 10) (tl xs) (tl ys)" "Some n \<noteq> None \<longrightarrow> d' = d1"
      using less(1) [OF m l cb A(1) pl] unfolding pa by blast
    obtain q where q: "load_next h' (Some n) = Some q" "is_list h' q cs" using R(4) by (auto simp: place_list_def)
    then have nl: "is_list h' (Some n) (n # cs)" by (auto simp: load_next_def load_def)
    have pn: "place_next h' d' p = Some (Some n)"
    proof (cases p)
      case None
      then show ?thesis using p1(2) R(7) by simp
    next
      case (Some t)
      then have "t < n" using less(7) by (auto simp: place_addr_def)
      then have "h' t = h1 t" using R(2) by simp
      then show ?thesis using p1(2) Some by (auto simp: load_next_def load_def)
    qed
    have v: "vals h' (n # cs) = add_digits c xs ys"
      using R(3,6) hn add_digits_step [OF False] less(4,5) by (simp add: node_val_def)
    have keep: "node_val h' a = node_val h a \<and> a \<in> dom h'" if "a \<in> place_addr p" for a
    proof -
      have a: "a < n" "a \<in> dom h" using that less(7) by auto
      then have "h' a = h1 a" using R(2) by simp
      moreover have "node_val h1 a = node_val ?h a" using relinked_node_val [OF p1(3)] by simp
      moreover have "a \<in> dom h1" using relinked_dom [OF p1(3)] a by auto
      ultimately show ?thesis using a(1) by (auto simp: node_val_def)
    qed
    have "place_list h' d' p (n # cs)" using pn nl by (auto simp: place_list_def)
    moreover have "\<forall>a. a < n \<and> a \<notin> place_addr p \<longrightarrow> h' a = h a" using R(2) fr by auto
    moreover have "set (n # cs) \<subseteq> {n..}" using R(5) by auto
    ultimately show ?thesis unfolding step R(1) using v keep p1(4) R(7) by blast
  qed
qed

text \<open>
  For two numbers, both versions return the list of the digits of the sum; neither changes a node
  that existed before.
\<close>

theorem addTwoNums_correct:
  assumes "num_list h A l1 xs" and "num_list h A l2 ys" and "A \<subseteq> {..<n}"
  shows "\<exists>zs h1 n1 p1 B h2 n2 p2 C. digits zs \<and> number zs = number xs + number ys \<and>
     addTwoNums h n l1 l2 = Some (h1, n1, p1) \<and> num_list h1 B p1 zs \<and> (\<forall>a < n. h1 a = h a) \<and>
     addTwoNums2 h n l1 l2 = Some (h2, n2, p2) \<and> num_list h2 C p2 zs \<and> (\<forall>a < n. h2 a = h a)"
proof -
  let ?zs = "add_digits 0 xs ys"
  have d: "digits ?zs" using num_list_digits [OF assms(1)] num_list_digits [OF assms(2)] by (intro add_digits_digits) simp_all
  obtain h1 n1 p1 where 1: "addTwoNums h n l1 l2 = Some (h1, n1, p1)" "\<forall>a < n. h1 a = h a" "num_list h1 (A \<union> {n..<n1}) p1 ?zs"
    using addsD [OF adds_all assms(3,1,2)] by (auto simp: sums_to_def)
  obtain h2 n2 p2 cs where 2: "addTwoNums2_loop h n None None 0 l1 l2 = Some (h2, n2, p2)" "\<forall>a < n. h2 a = h a"
      "is_list h2 p2 cs" "vals h2 cs = ?zs"
    using addTwoNums2_loop_ok [OF assms(1,2) _ _ assms(3), of 0 None None] by (auto simp: place_addr_def place_list_def)
  have "num_list h2 (set cs) p2 ?zs" using 2(3,4) d by (auto simp: num_list_def)
  then show ?thesis using 1 2(1,2) d add_digits_number [of 0 xs ys] unfolding addTwoNums2_def by force
qed

text \<open>The example of \<open>main\<close>: 243 and 564.\<close>

definition two_numbers :: store where
  "two_numbers = [1 \<mapsto> \<lparr>val = 3, nxt = Some 2\<rparr>, 2 \<mapsto> \<lparr>val = 4, nxt = Some 3\<rparr>, 3 \<mapsto> \<lparr>val = 2, nxt = None\<rparr>,
     4 \<mapsto> \<lparr>val = 4, nxt = Some 5\<rparr>, 5 \<mapsto> \<lparr>val = 6, nxt = Some 6\<rparr>, 6 \<mapsto> \<lparr>val = 5, nxt = None\<rparr>]"

theorem addTwoNums_correct_witness:
  "\<exists>zs h1 n1 p1 B. digits zs \<and> number zs = 807 \<and> addTwoNums two_numbers 7 (Some 4) (Some 1) = Some (h1, n1, p1) \<and> num_list h1 B p1 zs"
proof -
  have l: "num_list two_numbers {1..6} (Some 4) [4, 6, 5]" "num_list two_numbers {1..6} (Some 1) [3, 4, 2]"
    by (simp_all add: two_numbers_def)
  have "{1..6} \<subseteq> {..<7 :: nat}" by auto
  from addTwoNums_correct [OF l this] show ?thesis by force
qed

section \<open>Merging many lists (leetcode/list/mergeLists.cc)\<close>

text \<open>
  \<open>mergeListsMap\<close>. A \<open>multimap\<close> is the list of its entries in iteration order; \<open>emplace\<close> puts an
  entry behind those with the same key. An empty list among the arguments is a null pointer, whose
  value is read: undefined.
\<close>

type_synonym multimap = "(int \<times> ptr) list"

fun mm_emplace :: "int \<times> ptr \<Rightarrow> multimap \<Rightarrow> multimap" where
  "mm_emplace e [] = [e]"
| "mm_emplace e (f # m) = (if fst e < fst f then e # f # m else f # mm_emplace e m)"

fun mm_fill :: "store \<Rightarrow> ptr list \<Rightarrow> multimap \<Rightarrow> multimap option" where
  "mm_fill h [] m = Some m"
| "mm_fill h (l # ls) m = do { n \<leftarrow> load h l; mm_fill h ls (mm_emplace (val n, l) m) }"

partial_function (option) mm_loop :: "store \<Rightarrow> ptr \<Rightarrow> addr option \<Rightarrow> multimap \<Rightarrow> (store \<times> ptr) option" where
  "mm_loop h d tail m = (case m of
     [] \<Rightarrow> Some (h, d)
   | it # _ \<Rightarrow> do {
       (h, d) \<leftarrow> place_set h d tail (snd it);
       q \<leftarrow> load_next h (snd it);
       m \<leftarrow> (if q = None then Some m else do { n \<leftarrow> load h q; Some (mm_emplace (val n, q) m) });
       mm_loop h d (snd it) (remove1 it m) })"

definition mergeListsMap :: "store \<Rightarrow> ptr list \<Rightarrow> (store \<times> ptr) option" where
  "mergeListsMap h ls = do { m \<leftarrow> mm_fill h ls []; mm_loop h None None m }"

text \<open>The entries stand for the lists that are left, each by its first node.\<close>

definition mm_entry :: "(addr \<Rightarrow> int) \<Rightarrow> addr list \<Rightarrow> int \<times> ptr" where
  "mm_entry v as = (v (hd as), Some (hd as))"

fun mm_put :: "(addr \<Rightarrow> int) \<Rightarrow> addr list \<Rightarrow> addr list list \<Rightarrow> addr list list" where
  "mm_put v as [] = [as]"
| "mm_put v as (bs # L) = (if v (hd as) < v (hd bs) then as # bs # L else bs # mm_put v as L)"

lemma mm_emplace_put: "mm_emplace (mm_entry v as) (map (mm_entry v) L) = map (mm_entry v) (mm_put v as L)"
  by (induction L) (auto simp: mm_entry_def)

lemma mset_mm_put [simp]: "mset (mm_put v as L) = add_mset as (mset L)"
  by (induction L) auto

lemma set_mm_put [simp]: "set (mm_put v as L) = insert as (set L)"
  by (induction L) auto

abbreviation heads_sorted :: "(addr \<Rightarrow> int) \<Rightarrow> addr list list \<Rightarrow> bool" where
  "heads_sorted v L \<equiv> sorted (map (\<lambda>as. v (hd as)) L)"

lemma heads_sorted_put: "heads_sorted v L \<Longrightarrow> heads_sorted v (mm_put v as L)"
  by (induction L) (auto intro: order_trans)

lemma remove1_map: "inj_on f (set (x # xs)) \<Longrightarrow> remove1 (f x) (map f xs) = map f (remove1 x xs)"
  by (induction xs) (auto simp: inj_on_def)

definition lists_ok :: "(addr \<Rightarrow> int) \<Rightarrow> store \<Rightarrow> addr list list \<Rightarrow> bool" where
  "lists_ok v h L \<longleftrightarrow> distinct (concat L) \<and> (\<forall>as \<in> set L. as \<noteq> [] \<and> is_list h (Some (hd as)) as \<and> sorted (map v as))"

lemma mset_concat_cong: "mset L = mset M \<Longrightarrow> mset (concat L) = mset (concat M)"
  by (metis mset_concat sum_mset_sum_list mset_map)

lemma lists_ok_mset: "mset L = mset M \<Longrightarrow> lists_ok v h L = lists_ok v h M"
proof -
  assume m: "mset L = mset M"
  then have "set L = set M" by (rule mset_eq_setD)
  moreover have "mset (concat L) = mset (concat M)" using m by (rule mset_concat_cong)
  then have "distinct (concat L) = distinct (concat M)" by (rule mset_eq_imp_distinct_iff)
  ultimately show ?thesis by (simp add: lists_ok_def)
qed

lemma lists_ok_frame:
  assumes "lists_ok v h L" and "relinked A h h'" and "A \<inter> set (concat L) = {}"
  shows "lists_ok v h' L"
proof -
  have "is_list h' (Some (hd as)) as" if "as \<in> set L" for as
    using relinked_lseg [OF assms(2), of as "Some (hd as)" None] assms(1,3) that by (auto simp: lists_ok_def)
  then show ?thesis using assms(1) by (auto simp: lists_ok_def)
qed

lemma entry_inj:
  assumes "distinct (concat L)" and "\<forall>as \<in> set L. as \<noteq> []"
  shows "inj_on (mm_entry v) (set L)"
proof (rule inj_onI)
  fix as bs assume ab: "as \<in> set L" "bs \<in> set L" "mm_entry v as = mm_entry v bs"
  then have "hd as \<in> set as \<inter> set bs" using assms(2) by (auto simp: mm_entry_def) (metis list.set_sel(1))
  then show "as = bs" using ab(1,2) assms(1) by (auto simp: distinct_concat_iff)
qed

text \<open>One round: the first node of the first list moves to the result, the rest of that list goes back.\<close>

lemma lists_ok_Cons:
  assumes "lists_ok v h ((a # as) # L)"
  obtains q where "load_next h (Some a) = Some q" "is_list h q as" "sorted (map v as)" "a \<notin> set as \<union> set (concat L)"
    "lists_ok v h L" "as \<noteq> [] \<longrightarrow> lists_ok v h (as # L) \<and> q = Some (hd as) \<and> h (hd as) \<noteq> None"
proof -
  have l: "is_list h (Some a) (a # as)" "sorted (map v (a # as))" "distinct (concat ((a # as) # L))" "lists_ok v h L"
    using assms by (auto simp: lists_ok_def)
  then obtain n where n: "h a = Some n" "is_list h (nxt n) as" by auto
  have q: "as \<noteq> [] \<longrightarrow> nxt n = Some (hd as) \<and> h (hd as) \<noteq> None" using n(2) by (cases as) auto
  then have "as \<noteq> [] \<longrightarrow> lists_ok v h (as # L)" using l n(2) by (auto simp: lists_ok_def)
  then show thesis using that [of "nxt n"] n l q by simp
qed

definition mm_next :: "(addr \<Rightarrow> int) \<Rightarrow> addr list \<Rightarrow> addr list list \<Rightarrow> addr list list" where
  "mm_next v as L = (if tl as = [] then L else remove1 as (mm_put v (tl as) (as # L)))"

lemma mset_mm_next: "mset (mm_next v as L) = mset (if tl as = [] then L else tl as # L)"
proof (cases "tl as = as")
  case True
  then have "as = []" by (cases as) auto
  then show ?thesis by (simp add: mm_next_def)
qed (auto simp: mm_next_def)

lemma heads_sorted_next: "heads_sorted v (as # L) \<Longrightarrow> heads_sorted v (mm_next v as L)"
proof (cases "tl as = []")
  case False
  assume "heads_sorted v (as # L)"
  then have "heads_sorted v (mm_put v (tl as) (as # L))" by (rule heads_sorted_put)
  then show ?thesis using False by (simp add: mm_next_def sorted_map_remove1)
qed (simp add: mm_next_def)

lemma mm_remove:
  assumes ok: "lists_ok v h (as # L)" and t: "tl as \<noteq> []"
  shows "remove1 (mm_entry v as) (mm_emplace (mm_entry v (tl as)) (map (mm_entry v) (as # L))) = map (mm_entry v) (mm_next v as L)"
proof -
  have ne: "\<forall>bs \<in> set (as # L). bs \<noteq> []" and d: "distinct (concat (as # L))" using ok by (auto simp: lists_ok_def)
  have "mm_entry v (tl as) \<noteq> mm_entry v as" using d t by (cases as) (auto simp: mm_entry_def dest: hd_in_set)
  moreover have "mm_entry v (tl as) \<noteq> mm_entry v bs" if "bs \<in> set L" for bs
  proof
    assume e: "mm_entry v (tl as) = mm_entry v bs"
    then have "hd (tl as) \<in> set bs" using ne that by (auto simp: mm_entry_def)
    moreover have "hd (tl as) \<in> set as" using t by (metis list.set_sel(1,2) tl_Nil)
    ultimately show False using d that by auto
  qed
  ultimately have "inj_on (mm_entry v) (set (as # mm_put v (tl as) (as # L)))"
    using entry_inj [OF d ne, of v] by (auto simp: inj_on_insert)
  from remove1_map [OF this] show ?thesis using t by (simp only: mm_emplace_put mm_next_def if_False)
qed

lemma mm_loop_ok:
  "lists_ok v h L \<Longrightarrow> heads_sorted v L \<Longrightarrow> v = node_val h \<Longrightarrow> place_addr p \<subseteq> dom h - set (concat L) \<Longrightarrow>
   (L = [] \<longrightarrow> place_next h d p = Some None) \<Longrightarrow>
   \<exists>h' d' cs. mm_loop h d p (map (mm_entry v) L) = Some (h', d') \<and> place_list h' d' p cs \<and> mset cs = mset (concat L) \<and>
     sorted (map v cs) \<and> relinked (place_addr p \<union> set (concat L)) h h' \<and> (p \<noteq> None \<longrightarrow> d' = d)"
proof (induction "length (concat L)" arbitrary: L h p d rule: less_induct)
  case less
  show ?case
  proof (cases L)
    case Nil
    then have "mm_loop h d p (map (mm_entry v) L) = Some (h, d)" by (subst mm_loop.simps) simp
    then show ?thesis using Nil less(6) by (intro exI [of _ h] exI [of _ d] exI [of _ "[]"]) (auto simp: place_list_def)
  next
    case (Cons l M)
    then obtain a as where L: "L = (a # as) # M" using less(2) by (cases l) (auto simp: lists_ok_def)
    have "place_addr p \<subseteq> dom h" using less(5) by auto
    then obtain h1 d1 where p1: "place_set h d p (Some a) = Some (h1, d1)" "place_next h1 d1 p = Some (Some a)"
      "relinked (place_addr p) h h1" "p \<noteq> None \<longrightarrow> d1 = d" using place_set_ok by blast
    have nv: "v = node_val h1" using less(4) relinked_node_val [OF p1(3)] by simp
    have ok1: "lists_ok v h1 L" by (rule lists_ok_frame [OF less(2) p1(3)]) (use less(5) in auto)
    then obtain q where q: "load_next h1 (Some a) = Some q" "is_list h1 q as" "sorted (map v as)" "a \<notin> set as \<union> set (concat M)"
      "lists_ok v h1 M" "as \<noteq> [] \<longrightarrow> lists_ok v h1 (as # M) \<and> q = Some (hd as) \<and> h1 (hd as) \<noteq> None"
      unfolding L by (rule lists_ok_Cons)
    let ?N = "mm_next v (a # as) M"
    have step: "mm_loop h d p (map (mm_entry v) L) = mm_loop h1 d1 (Some a) (map (mm_entry v) ?N)"
    proof (cases "as = []")
      case True
      then have "q = None" using q(2) by simp
      then show ?thesis using L True p1(1) q(1)
        by (subst mm_loop.simps) (simp del: bind_eq_Some add: mm_entry_def mm_next_def)
    next
      case False
      then obtain n where n: "q = Some (hd as)" "h1 (hd as) = Some n" "val n = v (hd as)" using q(6) nv by (auto simp: node_val_def)
      have "(val n, q) = mm_entry v as" using n by (simp add: mm_entry_def)
      moreover note mm_remove [OF ok1 [unfolded L]]
      ultimately show ?thesis using L False p1(1) q(1) n
        by (subst mm_loop.simps) (simp del: bind_eq_Some mm_emplace.simps add: mm_entry_def [of v "a # as"])
    qed
    have ms: "mset ?N = mset (if as = [] then M else as # M)" using mset_mm_next [of v "a # as" M] by simp
    have okN: "lists_ok v h1 ?N" unfolding lists_ok_mset [OF ms] using q(5,6) by simp
    have sN: "heads_sorted v ?N" using heads_sorted_next less(3) unfolding L by blast
    have cN: "mset (concat ?N) = mset as + mset (concat M)" using mset_concat_cong [OF ms] by (cases "as = []") simp_all
    then have setN: "set (concat ?N) = set as \<union> set (concat M)" by (metis set_mset_mset set_mset_union)
    have lenN: "length (concat ?N) < length (concat L)" using cN L by (metis add.commute add_Suc concat.simps(2) length_append length_Cons lessI size_mset size_union)
    have an: "a \<in> dom h1" using q(1) by (cases "h1 a") (auto simp: load_next_def load_def)
    have pn: "place_addr (Some a) \<subseteq> dom h1 - set (concat ?N)" using an q(4) setN by (auto simp: place_addr_def)
    have em: "?N = [] \<longrightarrow> place_next h1 d1 (Some a) = Some None"
    proof
      assume "?N = []"
      then have "as = []" using ms by (cases "as = []") auto
      then show "place_next h1 d1 (Some a) = Some None" using q(1,2) by simp
    qed
    from less(1) [OF lenN okN sN nv pn em]
    obtain h' d' cs where R: "mm_loop h1 d1 (Some a) (map (mm_entry v) ?N) = Some (h', d')" "place_list h' d' (Some a) cs"
      "mset cs = mset (concat ?N)" "sorted (map v cs)" "relinked (place_addr (Some a) \<union> set (concat ?N)) h1 h'" "d' = d1"
      by auto
    have rl: "relinked (place_addr p \<union> set (concat L)) h h'"
      by (rule relinked_trans [OF relinked_mono [OF p1(3)] relinked_mono [OF R(5)]]) (use setN in \<open>auto simp: L place_addr_def simp del: set_concat\<close>)
    have pp: "place_next h' d' p = Some (Some a)"
    proof (cases p)
      case None
      then show ?thesis using p1(2) R(6) by simp
    next
      case (Some t)
      then have "t \<notin> set (concat L)" using less(5) by (auto simp: place_addr_def)
      then have "t \<notin> place_addr (Some a) \<union> set (concat ?N)" unfolding setN by (auto simp: L place_addr_def)
      then have "h' t = h1 t" by (rule relinked_outside [OF R(5)])
      then show ?thesis using p1(2) Some by (auto simp: load_next_def load_def)
    qed
    obtain r where "load_next h' (Some a) = Some r" "is_list h' r cs" using R(2) by (auto simp: place_list_def)
    then have "is_list h' (Some a) (a # cs)" by (auto simp: load_next_def load_def)
    then have "place_list h' d' p (a # cs)" using pp by (auto simp: place_list_def)
    moreover have "mset (a # cs) = mset (concat L)" using R(3) cN L by simp
    moreover have "v a \<le> v c" if c: "c \<in> set cs" for c
    proof -
      have "c \<in> set as \<or> (\<exists>bs \<in> set M. c \<in> set bs)" using c R(3) setN mset_eq_setD [OF R(3)] by auto
      then show ?thesis
      proof
        assume "c \<in> set as"
        then show ?thesis using less(2) by (auto simp: L lists_ok_def)
      next
        assume "\<exists>bs \<in> set M. c \<in> set bs"
        then obtain bs where bs: "bs \<in> set M" "c \<in> set bs" by blast
        then have "v a \<le> v (hd bs)" using less(3) by (auto simp: L)
        also have "sorted (map v bs)" using bs(1) less(2) by (simp add: L lists_ok_def)
        then have "v (hd bs) \<le> v c" using bs(2) by (cases bs) auto
        finally show ?thesis .
      qed
    qed
    then have "sorted (map v (a # cs))" using R(4) by simp
    ultimately show ?thesis unfolding step R(1) using rl p1(4) R(6) by blast
  qed
qed

lemma mm_fill_ok:
  "(\<forall>as \<in> set L. as \<noteq> [] \<and> h (hd as) \<noteq> None) \<Longrightarrow> v = node_val h \<Longrightarrow> heads_sorted v M \<Longrightarrow>
   \<exists>N. mm_fill h (map (\<lambda>as. Some (hd as)) L) (map (mm_entry v) M) = Some (map (mm_entry v) N) \<and>
     mset N = mset L + mset M \<and> heads_sorted v N"
proof (induction L arbitrary: M)
  case (Cons as L)
  then obtain n where n: "h (hd as) = Some n" by auto
  have "(val n, Some (hd as)) = mm_entry v as" using n Cons(3) by (simp add: mm_entry_def node_val_def)
  then have "mm_fill h (map (\<lambda>as. Some (hd as)) (as # L)) (map (mm_entry v) M) =
      mm_fill h (map (\<lambda>as. Some (hd as)) L) (map (mm_entry v) (mm_put v as M))"
    using n by (simp del: bind_eq_Some add: mm_emplace_put)
  then show ?case using Cons(1) [OF _ Cons(3) heads_sorted_put [OF Cons(4)]] Cons(2) by auto
next
  case (Nil M)
  then show ?case by (intro exI [of _ M]) simp
qed

text \<open>Non-empty ascending lists become one ascending list of the same nodes.\<close>

theorem mergeListsMap_correct:
  assumes "lists_ok (node_val h) h L"
  shows "\<exists>h' d cs. mergeListsMap h (map (\<lambda>as. Some (hd as)) L) = Some (h', d) \<and> sorted_list h' d cs \<and>
     mset cs = mset (concat L) \<and> relinked (set (concat L)) h h'"
proof -
  have "\<forall>as \<in> set L. as \<noteq> [] \<and> h (hd as) \<noteq> None"
  proof
    fix as assume as: "as \<in> set L"
    then have "as \<noteq> []" "is_list h (Some (hd as)) as" using assms by (auto simp: lists_ok_def)
    then show "as \<noteq> [] \<and> h (hd as) \<noteq> None" by (cases as) auto
  qed
  from mm_fill_ok [OF this refl, of "[]"] obtain N where N: "mm_fill h (map (\<lambda>as. Some (hd as)) L) [] = Some (map (mm_entry (node_val h)) N)"
    "mset N = mset L" "heads_sorted (node_val h) N" by auto
  have "lists_ok (node_val h) h N" using assms lists_ok_mset [OF N(2)] by blast
  from mm_loop_ok [OF this N(3) refl, of None None]
  obtain h' d cs where R: "mm_loop h None None (map (mm_entry (node_val h)) N) = Some (h', d)" "place_list h' d None cs"
    "mset cs = mset (concat N)" "sorted (map (node_val h) cs)" "relinked (set (concat N)) h h'"
    by (auto simp: place_addr_def)
  have "mset (concat N) = mset (concat L)" using N(2) by (rule mset_concat_cong)
  moreover from this have "set (concat N) = set (concat L)" by (rule mset_eq_setD)
  moreover have "sorted (vals h' cs)" using R(4) relinked_node_val [OF R(5)] by (simp add: vals_node_val)
  ultimately show ?thesis using R N(1) by (auto simp: mergeListsMap_def sorted_list_def place_list_def simp del: set_concat)
qed

theorem mergeListsMap_null: "mergeListsMap h [None] = None"
  by (simp add: mergeListsMap_def)

text \<open>The lists 2, 6 and 3.\<close>

theorem mergeListsMap_correct_witness:
  "\<exists>h' d cs. mergeListsMap [1 \<mapsto> \<lparr>val = 2, nxt = Some 2\<rparr>, 2 \<mapsto> \<lparr>val = 6, nxt = None\<rparr>, 3 \<mapsto> \<lparr>val = 3, nxt = None\<rparr>]
     [Some 1, Some 3] = Some (h', d) \<and> sorted_list h' d cs \<and> mset cs = {#1, 2, 3#}"
proof -
  let ?h = "[1 \<mapsto> \<lparr>val = 2, nxt = Some 2\<rparr>, 2 \<mapsto> \<lparr>val = 6, nxt = None\<rparr>, 3 \<mapsto> \<lparr>val = 3, nxt = None\<rparr>] :: store"
  have "lists_ok (node_val ?h) ?h [[1, 2], [3]]" by (simp add: lists_ok_def node_val_def)
  from mergeListsMap_correct [OF this] show ?thesis by auto
qed

end
