(* ===== verification/SetSpec.thy ===== *)
theory SetSpec
  imports Prelude
begin

section \<open>A contract for sets\<close>

text \<open>
  What a client of a set relies on: a request to insert an admissible element adds it, and the
  membership test answers for the elements. A request may hold more than the element, its
  \<open>key\<close>: what else the operation depends on in that call. The client builds a set from a list
  of requests.
\<close>

fun insert_each :: "('r \<Rightarrow> 's \<Rightarrow> 's option) \<Rightarrow> 'r list \<Rightarrow> 's \<Rightarrow> 's option" where
  "insert_each ins [] s = Some s"
| "insert_each ins (x # xs) s = do { s \<leftarrow> ins x s; insert_each ins xs s }"

locale insert_set =
  fixes new :: "'s" and ins :: "'r \<Rightarrow> 's \<Rightarrow> 's option" and key :: "'r \<Rightarrow> 'a" and isin :: "'s \<Rightarrow> 'a \<Rightarrow> bool option"
    and elems :: "'s \<Rightarrow> 'a set" and inv :: "'s \<Rightarrow> bool" and adm :: "'a \<Rightarrow> bool"
  assumes new_ok: "inv new" "elems new = {}"
    and ins_ok: "inv s \<Longrightarrow> adm (key r) \<Longrightarrow> \<exists>s'. ins r s = Some s' \<and> inv s' \<and> elems s' = Set.insert (key r) (elems s)"
    and isin_ok: "inv s \<Longrightarrow> adm x \<Longrightarrow> isin s x = Some (x \<in> elems s)"
begin

lemma insert_each_from:
  "inv s \<Longrightarrow> (\<forall>x \<in> set xs. adm (key x)) \<Longrightarrow>
   \<exists>s'. insert_each ins xs s = Some s' \<and> inv s' \<and> elems s' = key ` set xs \<union> elems s"
proof (induction xs arbitrary: s)
  case (Cons x xs)
  obtain s1 where s1: "ins x s = Some s1" "inv s1" "elems s1 = Set.insert (key x) (elems s)"
    using ins_ok [OF Cons(2), of x] Cons(3) by auto
  then show ?case using Cons(1) [OF s1(2)] Cons(3) by auto
qed simp

lemma insert_each_ok:
  assumes "\<forall>x \<in> set xs. adm (key x)"
  shows "\<exists>s. insert_each ins xs new = Some s \<and> inv s \<and> elems s = key ` set xs \<and>
    (\<forall>y. adm y \<longrightarrow> isin s y = Some (y \<in> key ` set xs))"
  using insert_each_from [OF new_ok(1) assms] new_ok(2) isin_ok by auto

end

end
