(* ===== verification/Singleton.thy ===== *)
theory Singleton
  imports Prelude
begin

section \<open>Lazy initialisation with double-checked locking (utils/singleton.cc)\<close>

text \<open>
  \<open>getSingleton1Instance\<close> run by any number of threads. Every access to the atomic pointer
  \<open>instance_\<close> is sequentially consistent, so a step is one access, one operation on the mutex
  or the construction of an object. Objects are numbered in the order of their construction.
  A program counter names the next step of a thread; \<open>Returned\<close> carries the result of the call.
\<close>

datatype sg_pc = Load_first | Lock | Load_again | New | Store addr | Unlock | Load_result | Returned ptr

record Singleton1 =
  instance_ptr :: ptr
  mutex :: "nat option"
  made :: nat
  pc_of :: "nat \<Rightarrow> sg_pc"

definition sg_init :: Singleton1 where
  "sg_init = \<lparr>instance_ptr = None, mutex = None, made = 0, pc_of = (\<lambda>_. Load_first)\<rparr>"

definition jump :: "nat \<Rightarrow> sg_pc \<Rightarrow> Singleton1 \<Rightarrow> Singleton1" where
  "jump t p s = s\<lparr>pc_of := (pc_of s)(t := p)\<rparr>"

text \<open>The next step of thread \<open>t\<close>; \<open>None\<close> while it waits for the mutex and after it returned.\<close>

definition getSingleton1Instance :: "nat \<Rightarrow> Singleton1 \<Rightarrow> Singleton1 option" where
  "getSingleton1Instance t s = (case pc_of s t of
     Load_first \<Rightarrow> Some (jump t (if instance_ptr s = None then Lock else Load_result) s)
   | Lock \<Rightarrow> (case mutex s of None \<Rightarrow> Some (jump t Load_again (s\<lparr>mutex := Some t\<rparr>)) | Some _ \<Rightarrow> None)
   | Load_again \<Rightarrow> Some (jump t (if instance_ptr s = None then New else Unlock) s)
   | New \<Rightarrow> Some (jump t (Store (made s)) (s\<lparr>made := made s + 1\<rparr>))
   | Store p \<Rightarrow> Some (jump t Unlock (s\<lparr>instance_ptr := Some p\<rparr>))
   | Unlock \<Rightarrow> Some (jump t Load_result (s\<lparr>mutex := None\<rparr>))
   | Load_result \<Rightarrow> Some (jump t (Returned (instance_ptr s)) s)
   | Returned p \<Rightarrow> None)"

inductive sg_reachable :: "Singleton1 \<Rightarrow> bool" where
  init: "sg_reachable sg_init"
| step: "sg_reachable s \<Longrightarrow> getSingleton1Instance t s = Some s' \<Longrightarrow> sg_reachable s'"

text \<open>The states in which a thread holds the mutex.\<close>

fun holds :: "sg_pc \<Rightarrow> bool" where
  "holds Load_again = True" | "holds New = True" | "holds (Store p) = True" | "holds Unlock = True" | "holds _ = False"

fun pc_inv :: "ptr \<Rightarrow> nat \<Rightarrow> sg_pc \<Rightarrow> bool" where
  "pc_inv i m New \<longleftrightarrow> i = None \<and> m = 0"
| "pc_inv i m (Store p) \<longleftrightarrow> i = None \<and> m = 1 \<and> p = 0"
| "pc_inv i m Unlock \<longleftrightarrow> i = Some 0"
| "pc_inv i m Load_result \<longleftrightarrow> i = Some 0"
| "pc_inv i m (Returned r) \<longleftrightarrow> i = Some 0 \<and> r = Some 0"
| "pc_inv i m _ \<longleftrightarrow> True"

definition sg_inv :: "Singleton1 \<Rightarrow> bool" where
  "sg_inv s \<longleftrightarrow> (\<forall>t. holds (pc_of s t) \<longleftrightarrow> mutex s = Some t) \<and>
     (\<forall>t. pc_inv (instance_ptr s) (made s) (pc_of s t)) \<and>
     (instance_ptr s = None \<and> (made s = 0 \<or> (\<exists>t. mutex s = Some t \<and> pc_of s t = Store 0 \<and> made s = 1)) \<or>
      instance_ptr s = Some 0 \<and> made s = 1)"

lemma jump_simps [simp]:
  "instance_ptr (jump t p s) = instance_ptr s" "mutex (jump t p s) = mutex s" "made (jump t p s) = made s"
  "pc_of (jump t p s) = (pc_of s)(t := p)"
  by (simp_all add: jump_def)

lemma pc_inv_free: "\<not> holds p \<Longrightarrow> pc_inv None m p \<Longrightarrow> pc_inv i m' p"
  by (cases p) auto

lemma sg_inv_holds: "sg_inv s \<Longrightarrow> holds (pc_of s t) \<longleftrightarrow> mutex s = Some t"
  unfolding sg_inv_def by blast

lemma sg_inv_pc: "sg_inv s \<Longrightarrow> pc_of s t = p \<Longrightarrow> pc_inv (instance_ptr s) (made s) p"
  unfolding sg_inv_def by blast

text \<open>A step that changes no shared variable.\<close>

lemma sg_inv_jump:
  assumes inv: "sg_inv s" and p: "holds p = holds (pc_of s t)" "pc_inv (instance_ptr s) (made s) p" "pc_of s t \<noteq> Store 0"
  shows "sg_inv (jump t p s)"
proof -
  have "holds (((pc_of s)(t := p)) u) \<longleftrightarrow> mutex s = Some u" for u using p(1) sg_inv_holds [OF inv] by auto
  moreover have "pc_inv (instance_ptr s) (made s) (((pc_of s)(t := p)) u)" for u
    using p(2) sg_inv_pc [OF inv refl, of u] by simp
  ultimately show ?thesis using inv p(3) by (auto simp: sg_inv_def)
qed

lemma sg_inv_step:
  assumes inv: "sg_inv s" and st: "getSingleton1Instance t s = Some s'"
  shows "sg_inv s'"
proof (cases "pc_of s t")
  case (Store p)
  have "pc_inv (instance_ptr s) (made s) (Store p)" by (rule sg_inv_pc [OF inv Store])
  then have s: "instance_ptr s = None" "made s = 1" "p = 0" by simp_all
  have "holds (pc_of s t)" using Store by simp
  then have m: "mutex s = Some t" using sg_inv_holds [OF inv] by blast
  have hu: "holds (pc_of s u) \<longleftrightarrow> u = t" for u unfolding sg_inv_holds [OF inv] m by auto
  have pn: "pc_inv None 1 (pc_of s u)" for u using sg_inv_pc [OF inv refl, of u] s(1,2) by simp
  have "pc_inv (Some 0) 1 (pc_of s u)" if "u \<noteq> t" for u
    by (rule pc_inv_free [OF _ pn]) (simp add: hu that)
  moreover have "s' = jump t Unlock (s\<lparr>instance_ptr := Some 0\<rparr>)" using st Store s(3) by (simp add: getSingleton1Instance_def)
  ultimately show ?thesis using s m hu by (simp add: sg_inv_def)
next
  case New
  have "pc_inv (instance_ptr s) (made s) New" by (rule sg_inv_pc [OF inv New])
  then have s: "instance_ptr s = None" "made s = 0" by simp_all
  have "holds (pc_of s t)" using New by simp
  then have m: "mutex s = Some t" using sg_inv_holds [OF inv] by blast
  have hu: "holds (pc_of s u) \<longleftrightarrow> u = t" for u unfolding sg_inv_holds [OF inv] m by auto
  have pn: "pc_inv None 0 (pc_of s u)" for u using sg_inv_pc [OF inv refl, of u] s by simp
  have "pc_inv None 1 (pc_of s u)" if "u \<noteq> t" for u
    by (rule pc_inv_free [OF _ pn]) (simp add: hu that)
  moreover have "s' = jump t (Store 0) (s\<lparr>made := 1\<rparr>)" using st New s by (simp add: getSingleton1Instance_def)
  ultimately show ?thesis using s m hu by (simp add: sg_inv_def)
next
  case Load_again
  have "holds (pc_of s t)" using Load_again by simp
  then have m: "mutex s = Some t" using sg_inv_holds [OF inv] by blast
  have "instance_ptr s = None \<and> made s = 0 \<or> instance_ptr s = Some 0" using inv m Load_again by (auto simp: sg_inv_def)
  then show ?thesis using st Load_again by (auto simp: getSingleton1Instance_def intro!: sg_inv_jump [OF inv])
next
  case Unlock
  have "holds (pc_of s t)" using Unlock by simp
  then have m: "mutex s = Some t" using sg_inv_holds [OF inv] by blast
  have "pc_inv (instance_ptr s) (made s) Unlock" by (rule sg_inv_pc [OF inv Unlock])
  then show ?thesis using st Unlock inv m by (auto simp: getSingleton1Instance_def sg_inv_def split: if_splits)
next
  case Lock
  then show ?thesis using st inv by (auto simp: getSingleton1Instance_def sg_inv_def split: option.splits if_splits)
next
  case Load_first
  have "instance_ptr s = None \<or> instance_ptr s = Some 0" using inv by (auto simp: sg_inv_def)
  then show ?thesis using st Load_first by (auto simp: getSingleton1Instance_def intro!: sg_inv_jump [OF inv])
next
  case Load_result
  have "pc_inv (instance_ptr s) (made s) Load_result" by (rule sg_inv_pc [OF inv Load_result])
  then show ?thesis using st Load_result by (auto simp: getSingleton1Instance_def intro!: sg_inv_jump [OF inv])
next
  case (Returned p)
  then show ?thesis using st by (simp add: getSingleton1Instance_def)
qed

lemma reachable_inv: "sg_reachable s \<Longrightarrow> sg_inv s"
proof (induction rule: sg_reachable.induct)
  case init
  then show ?case by (simp add: sg_inv_def sg_init_def)
next
  case (step s t s')
  then show ?case using sg_inv_step by blast
qed

text \<open>
  C16: under every interleaving at most one object is constructed, every call returns it and
  never the null pointer, and while some call has not returned some thread can go on.
\<close>

theorem Singleton_once:
  assumes "sg_reachable s"
  shows "made s \<le> 1 \<and> (\<forall>t r. pc_of s t = Returned r \<longrightarrow> r = Some 0 \<and> made s = 1) \<and>
    (\<forall>t. (\<forall>r. pc_of s t \<noteq> Returned r) \<longrightarrow> (\<exists>t' s'. getSingleton1Instance t' s = Some s'))"
proof (intro conjI allI impI)
  note inv = reachable_inv [OF assms]
  show "made s \<le> 1" using inv by (auto simp: sg_inv_def)
  fix t r assume r: "pc_of s t = Returned r"
  have "pc_inv (instance_ptr s) (made s) (Returned r)" by (rule sg_inv_pc [OF inv r])
  then show "r = Some 0" "made s = 1" using inv by (auto simp: sg_inv_def)
next
  note inv = reachable_inv [OF assms]
  fix t assume t: "\<forall>r. pc_of s t \<noteq> Returned r"
  show "\<exists>t' s'. getSingleton1Instance t' s = Some s'"
  proof (cases "mutex s")
    case None
    then show ?thesis using t by (intro exI [of _ t]) (cases "pc_of s t"; simp add: getSingleton1Instance_def)
  next
    case (Some u)
    then have "holds (pc_of s u)" using sg_inv_holds [OF inv] by simp
    then show ?thesis by (intro exI [of _ u]) (cases "pc_of s u"; simp add: getSingleton1Instance_def)
  qed
qed

text \<open>Two threads meet at the mutex: both return object 0.\<close>

fun run_threads :: "nat list \<Rightarrow> Singleton1 \<Rightarrow> Singleton1 option" where
  "run_threads [] s = Some s"
| "run_threads (t # ts) s = do { s \<leftarrow> getSingleton1Instance t s; run_threads ts s }"

lemma run_threads_reachable: "sg_reachable s \<Longrightarrow> run_threads ts s = Some s' \<Longrightarrow> sg_reachable s'"
  by (induction ts arbitrary: s) (auto intro: sg_reachable.step)

theorem Singleton_once_witness:
  "\<exists>s. run_threads [0, 1, 1, 1, 1, 1, 1, 1, 0, 0, 0, 0] sg_init = Some s \<and> pc_of s 0 = Returned (Some 0) \<and> made s \<le> 1"
proof -
  obtain s where s: "run_threads [0, 1, 1, 1, 1, 1, 1, 1, 0, 0, 0, 0] sg_init = Some s" "pc_of s 0 = Returned (Some 0)"
    by (simp add: sg_init_def getSingleton1Instance_def jump_def)
  have "sg_reachable s" by (rule run_threads_reachable [OF sg_reachable.init s(1)])
  from Singleton_once [OF this] show ?thesis using s by blast
qed

end
