(* ===== verification/SkipList.thy ===== *)
theory SkipList
  imports Tables SetSpec
begin

section \<open>Skip list (misc/struct/skip_list.h, misc/struct/skip_list.cpp)\<close>

text \<open>
  The nodes live in a store; \<open>head_\<close> and \<open>tail_\<close>, which are members of the list, are the nodes
  at the addresses 0 and 1. A node of level \<open>l\<close> has the forward pointers 0 to \<open>l\<close>. The random bits
  are an input.
\<close>

definition MAX_LEVEL :: nat where "MAX_LEVEL = 8"
definition INT_MIN :: int where "INT_MIN = - (2 ^ 31)"
definition INT_MAX :: int where "INT_MAX = 2 ^ 31 - 1"

record SkipNode =
  node_value :: int
  node_level :: nat
  forward :: "ptr list"

type_synonym sstore = "addr \<rightharpoonup> SkipNode"

record SkipList =
  nodes :: sstore
  fresh :: addr
  cur_max_level :: nat

definition head_addr :: addr where "head_addr = 0"
definition tail_addr :: addr where "tail_addr = 1"

definition new_SkipNode :: "int \<Rightarrow> nat \<Rightarrow> SkipNode" where
  "new_SkipNode value level = \<lparr>node_value = value, node_level = level, forward = replicate (level + 1) None\<rparr>"

definition init_SkipList :: SkipList where
  "init_SkipList = \<lparr>
     nodes = [head_addr \<mapsto> (new_SkipNode INT_MIN MAX_LEVEL)\<lparr>forward := replicate (MAX_LEVEL + 1) (Some tail_addr)\<rparr>,
              tail_addr \<mapsto> new_SkipNode INT_MAX MAX_LEVEL],
     fresh = 2, cur_max_level = 0\<rparr>"

function random_level :: "(nat \<Rightarrow> bool) \<Rightarrow> nat \<Rightarrow> nat" where
  "random_level rnd ret = (if ret < MAX_LEVEL \<and> rnd ret then random_level rnd (ret + 1) else ret)"
  by pat_completeness auto
termination by (relation "measure (\<lambda>(_, ret). MAX_LEVEL - ret)") auto

declare random_level.simps [simp del]

definition GetRandomLevel :: "(nat \<Rightarrow> bool) \<Rightarrow> nat" where
  "GetRandomLevel rnd = random_level rnd 0"

partial_function (option) go_right :: "sstore \<Rightarrow> nat \<Rightarrow> int \<Rightarrow> addr \<Rightarrow> addr option" where
  "go_right s i value node = do {
     n \<leftarrow> s node;
     p \<leftarrow> vget (forward n) i;
     case p of
       None \<Rightarrow> Some node
     | Some q \<Rightarrow> do { m \<leftarrow> s q; if node_value m < value then go_right s i value q else Some node } }"

definition lower_level :: "sstore \<Rightarrow> int \<Rightarrow> nat \<Rightarrow> addr \<times> addr list \<Rightarrow> (addr \<times> addr list) option" where
  "lower_level s value i = (\<lambda>(node, ret). do { node \<leftarrow> go_right s i value node; Some (node, ret @ [node]) })"

definition AbsLowerBound :: "SkipList \<Rightarrow> int \<Rightarrow> addr list option" where
  "AbsLowerBound l value = do {
     (node, ret) \<leftarrow> for_each (rev [0..<cur_max_level l + 1]) (lower_level (nodes l) value) (head_addr, []);
     Some (rev ret) }"

text \<open>\<open>prev && prev->forward_[0] && prev->forward_[0]->value_ == value\<close>, with the node if it holds\<close>

definition found_at :: "sstore \<Rightarrow> addr \<Rightarrow> int \<Rightarrow> ptr option" where
  "found_at s prev value = do {
     n \<leftarrow> s prev;
     p \<leftarrow> vget (forward n) 0;
     case p of
       None \<Rightarrow> Some None
     | Some q \<Rightarrow> do { m \<leftarrow> s q; Some (if node_value m = value then Some q else None) } }"

definition SkipList_Find :: "SkipList \<Rightarrow> int \<Rightarrow> ptr option" where
  "SkipList_Find l value = do { lb \<leftarrow> AbsLowerBound l value; prev \<leftarrow> hd_opt lb; found_at (nodes l) prev value }"

definition get_fwd :: "addr \<Rightarrow> nat \<Rightarrow> sstore \<Rightarrow> ptr option" where
  "get_fwd a i s = do { n \<leftarrow> s a; vget (forward n) i }"

definition set_fwd :: "addr \<Rightarrow> nat \<Rightarrow> ptr \<Rightarrow> sstore \<Rightarrow> sstore option" where
  "set_fwd a i p s = do { n \<leftarrow> s a; f \<leftarrow> vset (forward n) i p; Some (s(a \<mapsto> n\<lparr>forward := f\<rparr>)) }"

definition link_level :: "addr list \<Rightarrow> addr \<Rightarrow> nat \<Rightarrow> sstore \<Rightarrow> sstore option" where
  "link_level lower_bound new_node i s = do {
     prev \<leftarrow> vget lower_bound i;
     p \<leftarrow> get_fwd prev i s;
     s \<leftarrow> set_fwd new_node i p s;
     set_fwd prev i (Some new_node) s }"

definition link_new_level :: "addr \<Rightarrow> nat \<Rightarrow> sstore \<Rightarrow> sstore option" where
  "link_new_level new_node i s = do {
     s \<leftarrow> set_fwd head_addr i (Some new_node) s;
     set_fwd new_node i (Some tail_addr) s }"

definition SkipList_Insert :: "(nat \<Rightarrow> bool) \<Rightarrow> int \<Rightarrow> SkipList \<Rightarrow> (addr \<times> SkipList) option" where
  "SkipList_Insert rnd value l = do {
     lower_bound \<leftarrow> AbsLowerBound l value;
     prev \<leftarrow> hd_opt lower_bound;
     there \<leftarrow> found_at (nodes l) prev value;
     case there of
       Some q \<Rightarrow> Some (q, l)
     | None \<Rightarrow> do {
         let new_level = GetRandomLevel rnd;
         let new_node = fresh l;
         s \<leftarrow> for_each [0..<min new_level (cur_max_level l) + 1] (link_level lower_bound new_node)
           ((nodes l)(new_node \<mapsto> new_SkipNode value new_level));
         if new_level > cur_max_level l
         then do {
           s \<leftarrow> for_each (rev [cur_max_level l + 1..<new_level + 1]) (link_new_level new_node) s;
           Some (new_node, \<lparr>nodes = s, fresh = new_node + 1, cur_max_level = new_level\<rparr>) }
         else Some (new_node, \<lparr>nodes = s, fresh = new_node + 1, cur_max_level = cur_max_level l\<rparr>) } }"

subsection \<open>The representation\<close>

text \<open>
  Level \<open>i\<close> is a chain of the nodes whose level is at least \<open>i\<close>. A skip list represents a list of
  node addresses in ascending order of their values.
\<close>

fun chain :: "sstore \<Rightarrow> nat \<Rightarrow> addr list \<Rightarrow> bool" where
  "chain s i (a # b # as) \<longleftrightarrow> get_fwd a i s = Some (Some b) \<and> chain s i (b # as)"
| "chain s i as \<longleftrightarrow> True"

definition val_at :: "sstore \<Rightarrow> addr \<Rightarrow> int" where "val_at s a = node_value (the (s a))"
definition lev_of :: "sstore \<Rightarrow> addr \<Rightarrow> nat" where "lev_of s a = node_level (the (s a))"

definition tall :: "sstore \<Rightarrow> nat \<Rightarrow> addr list \<Rightarrow> addr list" where
  "tall s i as = [a \<leftarrow> as. i \<le> lev_of s a]"

definition node_ok :: "sstore \<Rightarrow> addr \<Rightarrow> bool" where
  "node_ok s a \<longleftrightarrow> (\<exists>n. s a = Some n \<and> length (forward n) = node_level n + 1)"

definition skip_ok :: "SkipList \<Rightarrow> addr list \<Rightarrow> bool" where
  "skip_ok l as \<longleftrightarrow>
     distinct (head_addr # as @ [tail_addr]) \<and>
     (\<forall>a \<in> set (head_addr # as @ [tail_addr]). node_ok (nodes l) a) \<and>
     sorted_wrt (<) (map (val_at (nodes l)) (as @ [tail_addr])) \<and>
     val_at (nodes l) tail_addr = INT_MAX \<and>
     lev_of (nodes l) head_addr = MAX_LEVEL \<and>
     cur_max_level l \<le> MAX_LEVEL \<and> (\<forall>a \<in> set as. lev_of (nodes l) a \<le> cur_max_level l) \<and>
     (\<forall>i \<le> MAX_LEVEL. chain (nodes l) i (head_addr # tall (nodes l) i as @ [tail_addr])) \<and>
     dom (nodes l) = set (head_addr # as @ [tail_addr]) \<and> (\<forall>a \<ge> fresh l. nodes l a = None)"

lemma chain_append: "chain s i (as @ a # bs) \<longleftrightarrow> chain s i (as @ [a]) \<and> chain s i (a # bs)"
  by (induction s i as rule: chain.induct) auto

lemma go_right_step:
  assumes "get_fwd a i s = Some (Some q)" and "s q \<noteq> None"
  shows "go_right s i value a = (if val_at s q < value then go_right s i value q else Some a)"
proof -
  obtain n m where "s a = Some n" "vget (forward n) i = Some (Some q)" "s q = Some m"
    using assms unfolding get_fwd_def bind_eq_Some by blast
  then show ?thesis by (subst go_right.simps) (simp add: val_at_def del: vget_eq_Some)
qed

lemma go_right_ok:
  assumes "chain s i (a # as @ [b])" and "\<forall>c \<in> set as. s c \<noteq> None \<and> val_at s c < value"
    and "s b \<noteq> None" and "\<not> val_at s b < value"
  shows "go_right s i value a = Some (last (a # as))"
  using assms(1,2)
proof (induction as arbitrary: a)
  case Nil
  then show ?case using assms(3,4) by (simp add: go_right_step)
next
  case (Cons c as)
  have "go_right s i value c = Some (last (c # as))" using Cons(2,3) by (intro Cons(1)) simp_all
  then show ?case using Cons(2,3) by (simp add: go_right_step)
qed

text \<open>The last node of level \<open>i\<close> whose value is below the bound.\<close>

definition pred_at :: "sstore \<Rightarrow> addr list \<Rightarrow> nat \<Rightarrow> addr" where
  "pred_at s lo i = last (head_addr # tall s i lo)"

lemma pred_at_in: "pred_at s lo i \<in> set (head_addr # tall s i lo)"
  unfolding pred_at_def by (rule last_in_set) simp

definition split_at :: "SkipList \<Rightarrow> addr list \<Rightarrow> int \<Rightarrow> addr list \<Rightarrow> addr list \<Rightarrow> bool" where
  "split_at l as value lo hi \<longleftrightarrow> skip_ok l as \<and> as = lo @ hi \<and> value \<le> INT_MAX \<and>
     (\<forall>a \<in> set lo. val_at (nodes l) a < value) \<and> (\<forall>a \<in> set hi. value \<le> val_at (nodes l) a)"

lemma split_atI:
  assumes "skip_ok l as" and "value \<le> INT_MAX"
  obtains lo hi where "split_at l as value lo hi"
proof
  let ?f = "\<lambda>a. val_at (nodes l) a < value"
  have s: "sorted_wrt (<) (map (val_at (nodes l)) as)" using assms(1) by (simp add: skip_ok_def sorted_wrt_append)
  have "value \<le> val_at (nodes l) a" if "a \<in> set (dropWhile ?f as)" for a
  proof -
    have "sorted_wrt (<) (map (val_at (nodes l)) (dropWhile ?f as))"
      using s by (metis map_append sorted_wrt_append takeWhile_dropWhile_id)
    moreover have "dropWhile ?f as \<noteq> []" using that by (cases "dropWhile ?f as") auto
    moreover from this have "\<not> ?f (hd (dropWhile ?f as))" by (rule hd_dropWhile)
    ultimately show ?thesis using that by (cases "dropWhile ?f as") force+
  qed
  then show "split_at l as value (takeWhile ?f as) (dropWhile ?f as)"
    using assms set_takeWhileD [of _ ?f as] unfolding split_at_def by auto
qed

lemma tall_append [simp]: "tall s i (as @ bs) = tall s i as @ tall s i bs"
  by (simp add: tall_def)

lemma go_right_pred:
  assumes sp: "split_at l as value lo hi" and i: "i \<le> MAX_LEVEL" and a: "a \<in> set (head_addr # tall (nodes l) i lo)"
  shows "go_right (nodes l) i value a = Some (pred_at (nodes l) lo i)"
proof -
  let ?s = "nodes l"
  have ok: "skip_ok l as" and as: "as = lo @ hi" and small: "\<forall>a \<in> set lo. val_at ?s a < value"
    and big: "\<forall>a \<in> set hi. value \<le> val_at ?s a" "value \<le> val_at ?s tail_addr"
    using sp by (auto simp: split_at_def skip_ok_def)
  have there: "?s c \<noteq> None" if "c \<in> set (as @ [tail_addr])" for c
    using ok that by (force simp: skip_ok_def node_ok_def)
  obtain A B where AB: "head_addr # tall ?s i lo = A @ a # B" using a by (metis split_list)
  obtain c C where C: "tall ?s i hi @ [tail_addr] = c # C" by (cases "tall ?s i hi") auto
  have "c \<in> set (tall ?s i hi @ [tail_addr])" unfolding C by simp
  then have c: "c \<in> set (hi @ [tail_addr])" by (auto simp: tall_def)
  have "chain ?s i (head_addr # tall ?s i lo @ tall ?s i hi @ [tail_addr])"
    using ok i as by (simp add: skip_ok_def)
  then have "chain ?s i (A @ a # B @ c # C)" using AB C by (metis append.assoc append_Cons)
  then have "chain ?s i (a # B @ [c])"
    using chain_append [of ?s i A a "B @ c # C"] chain_append [of ?s i "a # B" c C] by simp
  moreover have "set B \<subseteq> set lo"
  proof -
    have "set B \<subseteq> set (tall ?s i lo)" using AB by (cases A) auto
    then show ?thesis by (auto simp: tall_def)
  qed
  ultimately have "go_right ?s i value a = Some (last (a # B))"
    using small big there c as by (intro go_right_ok) auto
  then show ?thesis unfolding pred_at_def AB by simp
qed

lemma tall_mono: "i \<le> j \<Longrightarrow> set (tall s j as) \<subseteq> set (tall s i as)"
  by (auto simp: tall_def)

lemma AbsLowerBound_ok:
  assumes sp: "split_at l as value lo hi"
  shows "AbsLowerBound l value = Some (map (pred_at (nodes l) lo) [0..<cur_max_level l + 1])"
proof -
  let ?s = "nodes l" and ?n = "cur_max_level l + 1"
  have n: "?n \<le> MAX_LEVEL + 1" using sp by (simp add: split_at_def skip_ok_def)
  let ?I = "\<lambda>i (node, ret). ret = map (pred_at ?s lo) (rev [i..<?n]) \<and> node \<in> set (head_addr # tall ?s i lo)"
  have "\<exists>st. for_each (rev [0..<?n]) (lower_level ?s value) (head_addr, []) = Some st \<and> ?I 0 st"
  proof (rule for_down [where I = ?I])
    fix i st assume i: "i < ?n" and st: "?I (Suc i) st"
    obtain node ret where [simp]: "st = (node, ret)" by fastforce
    have "node \<in> set (head_addr # tall ?s i lo)" using st tall_mono [of i "Suc i" ?s lo] by auto
    then have "go_right ?s i value node = Some (pred_at ?s lo i)" using i n by (intro go_right_pred [OF sp]) auto
    moreover have "rev [i..<?n] = rev [Suc i..<?n] @ [i]" using i by (simp add: upt_conv_Cons)
    ultimately show "\<exists>st'. lower_level ?s value i st = Some st' \<and> ?I i st'"
      using st pred_at_in [of ?s lo i] by (auto simp: lower_level_def)
  qed simp
  then show ?thesis by (auto simp: AbsLowerBound_def rev_map [symmetric])
qed

lemma tall_0 [simp]: "tall s 0 as = as"
  by (simp add: tall_def)

lemma found_at_ok:
  assumes sp: "split_at l as value lo hi"
  shows "found_at (nodes l) (pred_at (nodes l) lo 0) value =
    Some (if val_at (nodes l) (hd (hi @ [tail_addr])) = value then Some (hd (hi @ [tail_addr])) else None)"
proof -
  let ?s = "nodes l"
  have ok: "skip_ok l as" and as: "as = lo @ hi" using sp by (auto simp: split_at_def)
  obtain c C where C: "hi @ [tail_addr] = c # C" by (cases hi) auto
  have "chain ?s 0 (head_addr # tall ?s 0 as @ [tail_addr])" using ok unfolding skip_ok_def by blast
  then have "chain ?s 0 (head_addr # lo @ c # C)" using as C by simp
  then have ch: "chain ?s 0 ((head_addr # lo) @ c # C)" by simp
  have "butlast (head_addr # lo) @ [pred_at ?s lo 0] = head_addr # lo"
    unfolding pred_at_def tall_0 by (rule append_butlast_last_id) simp
  then obtain D where D: "D @ [pred_at ?s lo 0] = head_addr # lo" ..
  have "chain ?s 0 ((D @ [pred_at ?s lo 0]) @ c # C)" using ch unfolding D .
  then have "chain ?s 0 (D @ pred_at ?s lo 0 # c # C)" by simp
  then have "get_fwd (pred_at ?s lo 0) 0 ?s = Some (Some c)" using chain_append [of ?s 0 D "pred_at ?s lo 0" "c # C"] by simp
  moreover have "c \<in> set (hi @ [tail_addr])" unfolding C by simp
  then have "c \<in> set (as @ [tail_addr])" using as by auto
  then obtain m where "?s c = Some m" using ok by (force simp: skip_ok_def node_ok_def)
  moreover from calculation obtain n where "?s (pred_at ?s lo 0) = Some n" "vget (forward n) 0 = Some (Some c)"
    unfolding get_fwd_def bind_eq_Some by blast
  ultimately show ?thesis by (simp add: found_at_def C val_at_def del: vget_eq_Some)
qed

subsection \<open>Linking a node\<close>

definition shape :: "sstore \<Rightarrow> addr \<Rightarrow> (int \<times> nat \<times> nat) option" where
  "shape s a = map_option (\<lambda>n. (node_value n, node_level n, length (forward n))) (s a)"

lemma shape_val_at: "shape s' = shape s \<Longrightarrow> val_at s' a = val_at s a"
  unfolding shape_def val_at_def fun_eq_iff by (drule spec [of _ a]) (cases "s a"; cases "s' a"; simp)

lemma shape_lev_of: "shape s' = shape s \<Longrightarrow> lev_of s' a = lev_of s a"
  unfolding shape_def lev_of_def fun_eq_iff by (drule spec [of _ a]) (cases "s a"; cases "s' a"; simp)

lemma shape_node_ok: "node_ok s a \<longleftrightarrow> (\<exists>v l. shape s a = Some (v, l, l + 1))"
  by (auto simp: node_ok_def shape_def)

lemma shape_None: "s a = None \<longleftrightarrow> shape s a = None"
  by (simp add: shape_def)

lemma set_fwd_ok:
  assumes "node_ok s a" and "i \<le> lev_of s a"
  obtains s' where "set_fwd a i q s = Some s'" "shape s' = shape s"
    "\<And>b j. get_fwd b j s' = (if b = a \<and> j = i then Some q else get_fwd b j s)"
proof -
  obtain n where n: "s a = Some n" "length (forward n) = node_level n + 1" using assms(1) by (auto simp: node_ok_def)
  then have i: "i < length (forward n)" using assms(2) by (simp add: lev_of_def)
  let ?s = "s(a \<mapsto> n\<lparr>forward := (forward n)[i := q]\<rparr>)"
  show thesis
  proof (rule that [of ?s])
    show "set_fwd a i q s = Some ?s" using n i by (simp add: set_fwd_def ub_simps)
    show "shape ?s = shape s" using n by (auto simp: shape_def)
    show "get_fwd b j ?s = (if b = a \<and> j = i then Some q else get_fwd b j s)" for b j
      using n i by (simp add: get_fwd_def vget_def)
  qed
qed

lemma chain_cong: "(\<And>a. a \<in> set as \<Longrightarrow> get_fwd a i s' = get_fwd a i s) \<Longrightarrow> chain s' i as \<longleftrightarrow> chain s i as"
  by (induction s i as rule: chain.induct) auto

lemma chain_cong_butlast: "(\<And>a. a \<in> set as \<Longrightarrow> get_fwd a i s' = get_fwd a i s) \<Longrightarrow> chain s' i (as @ [b]) \<longleftrightarrow> chain s i (as @ [b])"
proof (induction as)
  case (Cons a as)
  then show ?case by (cases as) auto
qed simp

lemma chain_splice:
  assumes "chain s i (A @ p # c # C)" and "distinct (A @ p # c # C)" and "n \<notin> set (A @ p # c # C)"
    and "get_fwd p i s' = Some (Some n)" and "get_fwd n i s' = Some (Some c)"
    and same: "\<And>a. a \<noteq> p \<Longrightarrow> a \<noteq> n \<Longrightarrow> get_fwd a i s' = get_fwd a i s"
  shows "chain s' i (A @ p # n # c # C)"
proof -
  have "chain s i (A @ [p])" "chain s i (c # C)"
    using assms(1) chain_append [of s i A p "c # C"] by auto
  moreover have "chain s' i (A @ [p]) = chain s i (A @ [p])" using assms(2,3) by (intro chain_cong_butlast same) auto
  moreover have "chain s' i (c # C) = chain s i (c # C)" using assms(2,3) by (intro chain_cong same) auto
  ultimately show ?thesis using assms(4,5) chain_append [of s' i A p "n # c # C"] by simp
qed

text \<open>
  While a node \<open>n\<close> is linked between \<open>lo\<close> and \<open>hi\<close>, it is on the levels \<open>D\<close> already.
\<close>

definition linkable :: "sstore \<Rightarrow> addr list \<Rightarrow> addr list \<Rightarrow> addr \<Rightarrow> bool" where
  "linkable s lo hi n \<longleftrightarrow> distinct (n # head_addr # lo @ hi @ [tail_addr]) \<and>
     (\<forall>a \<in> set (n # head_addr # lo @ hi @ [tail_addr]). node_ok s a) \<and> lev_of s head_addr = MAX_LEVEL"

definition linked :: "sstore \<Rightarrow> addr list \<Rightarrow> addr list \<Rightarrow> addr \<Rightarrow> nat set \<Rightarrow> sstore \<Rightarrow> bool" where
  "linked s0 lo hi n D s \<longleftrightarrow> shape s = shape s0 \<and>
     (\<forall>i \<le> MAX_LEVEL. chain s i (head_addr # tall s0 i lo @ (if i \<in> D then [n] else []) @ tall s0 i hi @ [tail_addr]))"

lemma linkedD: "linked s0 lo hi n D s \<Longrightarrow> i \<le> MAX_LEVEL \<Longrightarrow>
    chain s i (head_addr # tall s0 i lo @ (if i \<in> D then [n] else []) @ tall s0 i hi @ [tail_addr])"
  unfolding linked_def by blast

lemma tall_subset: "set (tall s i as) \<subseteq> set as"
  by (auto simp: tall_def)

lemma tall_distinct: "distinct as \<Longrightarrow> distinct (tall s i as)"
  by (simp add: tall_def)

lemma linked_step:
  assumes lk: "linkable s0 lo hi n" and J: "linked s0 lo hi n D s" and i: "i \<le> MAX_LEVEL" "i \<notin> D"
    and p: "p = pred_at s0 lo i" and c: "c = hd (tall s0 i hi @ [tail_addr])"
  shows "get_fwd p i s = Some (Some c)" and "i \<le> lev_of s p" and "node_ok s p" and "node_ok s n" and "p \<noteq> n"
    and "shape s' = shape s \<Longrightarrow> (\<And>b j. get_fwd b j s' =
        (if b = p \<and> j = i then Some (Some n) else if b = n \<and> j = i then Some (Some c) else get_fwd b j s)) \<Longrightarrow>
      linked s0 lo hi n (Set.insert i D) s'"
proof -
  let ?xs = "head_addr # tall s0 i lo @ tall s0 i hi @ [tail_addr]"
  have sh: "shape s = shape s0" using J by (simp add: linked_def)
  have pin: "p \<in> set (head_addr # tall s0 i lo)" unfolding p by (rule pred_at_in)
  then have p2: "p \<in> set (head_addr # lo)" using tall_subset [of s0 i lo] by auto
  show "p \<noteq> n" using lk p2 by (auto simp: linkable_def)
  show "node_ok s p" "node_ok s n" using lk p2 sh by (auto simp: linkable_def shape_node_ok)
  show "i \<le> lev_of s p" using pin lk i(1) shape_lev_of [OF sh] by (auto simp: tall_def linkable_def)
  have "butlast (head_addr # tall s0 i lo) @ [p] = head_addr # tall s0 i lo"
    unfolding p pred_at_def by (rule append_butlast_last_id) simp
  then obtain A where A: "A @ [p] = head_addr # tall s0 i lo" ..
  obtain C where C: "tall s0 i hi @ [tail_addr] = c # C" unfolding c by (cases "tall s0 i hi") auto
  have xs: "?xs = A @ p # c # C" using C arg_cong [OF A, of "\<lambda>ys. ys @ tall s0 i hi @ [tail_addr]"] by simp
  have "chain s i ?xs" using linkedD [OF J i(1)] i(2) by simp
  then have ch: "chain s i (A @ p # c # C)" unfolding xs .
  then show "get_fwd p i s = Some (Some c)" using chain_append [of s i A p "c # C"] by simp
  have "distinct ?xs" "n \<notin> set ?xs"
    using lk tall_subset [of s0 i lo] tall_subset [of s0 i hi] by (auto simp: linkable_def tall_distinct)
  then have d: "distinct (A @ p # c # C)" "n \<notin> set (A @ p # c # C)" unfolding xs by - assumption+
  show "linked s0 lo hi n (Set.insert i D) s'" if sh': "shape s' = shape s" and
    get: "\<And>b j. get_fwd b j s' = (if b = p \<and> j = i then Some (Some n) else if b = n \<and> j = i then Some (Some c) else get_fwd b j s)"
    unfolding linked_def
  proof (intro conjI allI impI)
    show "shape s' = shape s0" using sh' sh by simp
    fix j assume j: "j \<le> MAX_LEVEL"
    show "chain s' j (head_addr # tall s0 j lo @ (if j \<in> Set.insert i D then [n] else []) @ tall s0 j hi @ [tail_addr])"
    proof (cases "j = i")
      case True
      have "chain s' i (A @ p # n # c # C)" using ch d get \<open>p \<noteq> n\<close> by (intro chain_splice) auto
      moreover have "head_addr # tall s0 i lo @ [n] @ tall s0 i hi @ [tail_addr] = A @ p # n # c # C"
        using C arg_cong [OF A, of "\<lambda>ys. ys @ [n] @ tall s0 i hi @ [tail_addr]"] by simp
      ultimately show ?thesis using True by simp
    next
      case False
      then have "chain s' j ys = chain s j ys" for ys by (intro chain_cong) (simp add: get)
      then show ?thesis using linkedD [OF J j] False by simp
    qed
  qed
qed

lemma linked_lev: "linked s0 lo hi n D s \<Longrightarrow> lev_of s a = lev_of s0 a"
  by (rule shape_lev_of) (simp add: linked_def)

lemma link_level_ok:
  assumes lk: "linkable s0 lo hi n" and J: "linked s0 lo hi n D s" and i: "i \<le> MAX_LEVEL" "i \<notin> D" "i \<le> lev_of s0 n"
    and lb: "i < length lb" "lb ! i = pred_at s0 lo i"
  shows "\<exists>s'. link_level lb n i s = Some s' \<and> linked s0 lo hi n (Set.insert i D) s'"
proof -
  define p c where p: "p = pred_at s0 lo i" and c: "c = hd (tall s0 i hi @ [tail_addr])"
  note st = linked_step [OF lk J i(1,2) p c]
  obtain s1 where 1: "set_fwd n i (Some c) s = Some s1" "shape s1 = shape s"
    "\<And>b j. get_fwd b j s1 = (if b = n \<and> j = i then Some (Some c) else get_fwd b j s)"
    using set_fwd_ok [OF st(4)] i(3) linked_lev [OF J] by metis
  have "node_ok s1 p" "i \<le> lev_of s1 p" using st(2,3) 1(2) shape_lev_of [OF 1(2)] by (simp_all add: shape_node_ok)
  then obtain s2 where 2: "set_fwd p i (Some n) s1 = Some s2" "shape s2 = shape s1"
    "\<And>b j. get_fwd b j s2 = (if b = p \<and> j = i then Some (Some n) else get_fwd b j s1)"
    using set_fwd_ok by metis
  have "linked s0 lo hi n (Set.insert i D) s2" by (rule st(6)) (simp_all add: 1 2)
  moreover have "link_level lb n i s = Some s2"
    using lb 1(1) 2(1) st(1) by (simp add: link_level_def ub_simps p [symmetric])
  ultimately show ?thesis by blast
qed

lemma link_new_level_ok:
  assumes lk: "linkable s0 lo hi n" and J: "linked s0 lo hi n D s" and i: "i \<le> MAX_LEVEL" "i \<notin> D" "i \<le> lev_of s0 n"
    and top: "tall s0 i lo = []" "tall s0 i hi = []"
  shows "\<exists>s'. link_new_level n i s = Some s' \<and> linked s0 lo hi n (Set.insert i D) s'"
proof -
  have p: "head_addr = pred_at s0 lo i" and c: "tail_addr = hd (tall s0 i hi @ [tail_addr])"
    using top by (simp_all add: pred_at_def)
  note st = linked_step [OF lk J i(1,2) p c]
  obtain s1 where 1: "set_fwd head_addr i (Some n) s = Some s1" "shape s1 = shape s"
    "\<And>b j. get_fwd b j s1 = (if b = head_addr \<and> j = i then Some (Some n) else get_fwd b j s)"
    using set_fwd_ok [OF st(3) st(2)] by metis
  have "node_ok s1 n" "i \<le> lev_of s1 n"
    using st(4) i(3) linked_lev [OF J] 1(2) shape_lev_of [OF 1(2)] by (simp_all add: shape_node_ok)
  then obtain s2 where 2: "set_fwd n i (Some tail_addr) s1 = Some s2" "shape s2 = shape s1"
    "\<And>b j. get_fwd b j s2 = (if b = n \<and> j = i then Some (Some tail_addr) else get_fwd b j s1)"
    using set_fwd_ok by metis
  have "linked s0 lo hi n (Set.insert i D) s2" using st(5) by (intro st(6)) (simp_all add: 1 2)
  then show ?thesis using 1(1) 2(1) by (simp add: link_new_level_def)
qed

subsection \<open>Insertion\<close>

lemma random_level_le: "ret \<le> MAX_LEVEL \<Longrightarrow> random_level rnd ret \<le> MAX_LEVEL"
  by (induction rnd ret rule: random_level.induct) (subst random_level.simps, auto)

lemma GetRandomLevel_le: "GetRandomLevel rnd \<le> MAX_LEVEL"
  unfolding GetRandomLevel_def by (rule random_level_le) simp

lemma link_all:
  assumes lk: "linkable s0 lo hi n" and J: "linked s0 lo hi n {} s0" and lv: "lev_of s0 n = lv" "lv \<le> MAX_LEVEL"
    and cur: "cur \<le> MAX_LEVEL" "\<forall>a \<in> set lo \<union> set hi. lev_of s0 a \<le> cur"
    and lb: "lb = map (pred_at s0 lo) [0..<cur + 1]"
  shows "\<exists>s1. for_each [0..<min lv cur + 1] (link_level lb n) s0 = Some s1 \<and>
    (\<exists>s2. (if lv > cur then for_each (rev [cur + 1..<lv + 1]) (link_new_level n) s1 else Some s1) = Some s2 \<and>
      linked s0 lo hi n {..lv} s2)"
proof -
  have "\<exists>s1. for_each [0..<min lv cur + 1] (link_level lb n) s0 = Some s1 \<and> linked s0 lo hi n {..<min lv cur + 1} s1"
  proof (rule for_upt [where I = "\<lambda>i s. linked s0 lo hi n {..<i} s"])
    fix i s assume i: "i < min lv cur + 1" and s: "linked s0 lo hi n {..<i} s"
    have "\<exists>s'. link_level lb n i s = Some s' \<and> linked s0 lo hi n (Set.insert i {..<i}) s'"
      using i lv cur lb by (intro link_level_ok [OF lk s]) (auto simp del: upt_Suc)
    then show "\<exists>s'. link_level lb n i s = Some s' \<and> linked s0 lo hi n {..<Suc i} s'"
      by (simp add: lessThan_Suc)
  qed (use J in auto)
  then obtain s1 where 1: "for_each [0..<min lv cur + 1] (link_level lb n) s0 = Some s1" "linked s0 lo hi n {..<min lv cur + 1} s1"
    by blast
  have "\<exists>s2. (if lv > cur then for_each (rev [cur + 1..<lv + 1]) (link_new_level n) s1 else Some s1) = Some s2 \<and>
      linked s0 lo hi n {..lv} s2"
  proof (cases "lv > cur")
    case True
    define k where "k = lv - cur"
    have r: "rev [cur + 1..<lv + 1] = map (\<lambda>i. i + (cur + 1)) (rev [0..<k])"
    proof -
      have "map (\<lambda>i. i + (cur + 1)) [0..<k] = [cur + 1..<k + (cur + 1)]" by (rule map_add_upt)
      then show ?thesis using True by (simp add: k_def del: upt_Suc flip: rev_map)
    qed
    have "\<exists>s2. for_each (rev [0..<k]) (\<lambda>i. link_new_level n (i + (cur + 1))) s1 = Some s2 \<and>
        linked s0 lo hi n ({..<cur + 1} \<union> {0 + (cur + 1)..lv}) s2"
    proof (rule for_down [where I = "\<lambda>i s. linked s0 lo hi n ({..<cur + 1} \<union> {i + (cur + 1)..lv}) s"])
      have "min lv cur + 1 = cur + 1" "{k + (cur + 1)..lv} = {}" using True by (auto simp: k_def)
      then show "linked s0 lo hi n ({..<cur + 1} \<union> {k + (cur + 1)..lv}) s1" using 1(2) by simp
      fix i s assume i: "i < k" and s: "linked s0 lo hi n ({..<cur + 1} \<union> {Suc i + (cur + 1)..lv}) s"
      have top: "tall s0 (i + (cur + 1)) lo = []" "tall s0 (i + (cur + 1)) hi = []"
        using cur(2) by (force simp: tall_def filter_empty_conv)+
      have "\<exists>s'. link_new_level n (i + (cur + 1)) s = Some s' \<and>
          linked s0 lo hi n (Set.insert (i + (cur + 1)) ({..<cur + 1} \<union> {Suc i + (cur + 1)..lv})) s'"
        using i lv by (intro link_new_level_ok [OF lk s] top) (auto simp: k_def)
      moreover have "Set.insert (i + (cur + 1)) ({..<cur + 1} \<union> {Suc i + (cur + 1)..lv}) = {..<cur + 1} \<union> {i + (cur + 1)..lv}"
        using i by (auto simp: k_def)
      ultimately show "\<exists>s'. link_new_level n (i + (cur + 1)) s = Some s' \<and> linked s0 lo hi n ({..<cur + 1} \<union> {i + (cur + 1)..lv}) s'"
        by simp
    qed
    moreover have "{..<cur + 1} \<union> {0 + (cur + 1)..lv} = {..lv}" using True by auto
    ultimately show ?thesis using True unfolding r for_each_map by simp
  next
    case False
    then have "{..<min lv cur + 1} = {..lv}" by auto
    then show ?thesis using 1(2) False by simp
  qed
  then show ?thesis using 1(1) by blast
qed

text \<open>The elements of a skip list: the values of its nodes other than head and tail.\<close>

definition skip_elems :: "SkipList \<Rightarrow> int set" where
  "skip_elems l = val_at (nodes l) ` (dom (nodes l) - {head_addr, tail_addr})"

lemma skip_elems_eq: "skip_ok l as \<Longrightarrow> skip_elems l = val_at (nodes l) ` set as"
  unfolding skip_elems_def skip_ok_def by (intro arg_cong [of _ _ "\<lambda>A. val_at (nodes l) ` A"]) auto

lemma split_at_found:
  assumes sp: "split_at l as value lo hi" and v: "value < INT_MAX"
  shows "val_at (nodes l) (hd (hi @ [tail_addr])) = value \<longleftrightarrow> value \<in> skip_elems l"
    and "val_at (nodes l) (hd (hi @ [tail_addr])) = value \<Longrightarrow> hd (hi @ [tail_addr]) \<in> set as"
proof -
  have ok: "skip_ok l as" and as: "as = lo @ hi" using sp by (auto simp: split_at_def)
  have tl: "val_at (nodes l) tail_addr = INT_MAX" using ok by (simp add: skip_ok_def)
  have srt: "sorted_wrt (<) (map (val_at (nodes l)) hi)" using ok as by (simp add: skip_ok_def sorted_wrt_append)
  have lohi: "\<forall>a \<in> set hi. value \<le> val_at (nodes l) a" "\<forall>a \<in> set lo. val_at (nodes l) a < value"
    using sp by (auto simp: split_at_def)
  show "val_at (nodes l) (hd (hi @ [tail_addr])) = value \<longleftrightarrow> value \<in> skip_elems l"
    unfolding skip_elems_eq [OF ok] as
  proof (cases hi)
    case Nil
    then show "val_at (nodes l) (hd (hi @ [tail_addr])) = value \<longleftrightarrow> value \<in> val_at (nodes l) ` set (lo @ hi)"
      using tl v lohi(2) by auto
  next
    case (Cons a r)
    have "value \<noteq> val_at (nodes l) b" if "b \<in> set r" for b using srt lohi(1) that unfolding Cons by force
    moreover have "value \<noteq> val_at (nodes l) b" if "b \<in> set lo" for b using lohi(2) that by force
    ultimately have "value \<notin> val_at (nodes l) ` set r" "value \<notin> val_at (nodes l) ` set lo" by blast+
    then show "val_at (nodes l) (hd (hi @ [tail_addr])) = value \<longleftrightarrow> value \<in> val_at (nodes l) ` set (lo @ hi)"
      unfolding Cons by (auto simp: image_Un)
  qed
  show "val_at (nodes l) (hd (hi @ [tail_addr])) = value \<Longrightarrow> hd (hi @ [tail_addr]) \<in> set as"
    unfolding as using tl v by (cases hi) simp_all
qed

lemma hd_opt_map_upt: "hd_opt (map f [0..<k + 1]) = Some (f 0)"
  by (simp add: upt_conv_Cons del: upt_Suc)

lemma SkipList_Find_ok:
  assumes "skip_ok l as" and "value < INT_MAX"
  shows "\<exists>p. SkipList_Find l value = Some p \<and> (p = None \<longleftrightarrow> value \<notin> skip_elems l) \<and>
    (\<forall>a. p = Some a \<longrightarrow> a \<in> set as \<and> val_at (nodes l) a = value)"
proof -
  obtain lo hi where sp: "split_at l as value lo hi" by (rule split_atI [OF assms(1) less_imp_le [OF assms(2)]])
  have "SkipList_Find l value = Some (if val_at (nodes l) (hd (hi @ [tail_addr])) = value then Some (hd (hi @ [tail_addr])) else None)"
    unfolding SkipList_Find_def AbsLowerBound_ok [OF sp] Option.bind_lunit hd_opt_map_upt by (rule found_at_ok [OF sp])
  then show ?thesis using split_at_found [OF sp assms(2)] by simp
qed

lemma linkable_new:
  assumes sp: "split_at l as value lo hi" and n: "n = fresh l" and s0: "s0 = (nodes l)(n \<mapsto> new_SkipNode value lv)"
  shows "linkable s0 lo hi n" and "linked s0 lo hi n {} s0"
    and "\<And>a. a \<noteq> n \<Longrightarrow> lev_of s0 a = lev_of (nodes l) a \<and> val_at s0 a = val_at (nodes l) a"
    and "lev_of s0 n = lv" and "val_at s0 n = value"
proof -
  have ok: "skip_ok l as" and as: "as = lo @ hi" using sp by (auto simp: split_at_def)
  have nn: "nodes l n = None" using ok n by (auto simp: skip_ok_def)
  have "n \<notin> dom (nodes l)" using nn by auto
  moreover have "dom (nodes l) = set (head_addr # as @ [tail_addr])" using ok unfolding skip_ok_def by blast
  ultimately have nin: "n \<notin> set (head_addr # as @ [tail_addr])" by simp
  show lev: "\<And>a. a \<noteq> n \<Longrightarrow> lev_of s0 a = lev_of (nodes l) a \<and> val_at s0 a = val_at (nodes l) a"
    by (simp add: s0 lev_of_def val_at_def)
  show "lev_of s0 n = lv" "val_at s0 n = value" by (simp_all add: s0 lev_of_def val_at_def new_SkipNode_def)
  have ok': "\<forall>a \<in> set (head_addr # as @ [tail_addr]). node_ok s0 a" "distinct (head_addr # as @ [tail_addr])"
    "lev_of s0 head_addr = MAX_LEVEL" "node_ok s0 n"
    using ok nin lev [of head_addr] by (auto simp: skip_ok_def node_ok_def s0 new_SkipNode_def)
  then show "linkable s0 lo hi n" using nin as unfolding linkable_def by auto
  have tl: "tall s0 i lo = tall (nodes l) i lo" "tall s0 i hi = tall (nodes l) i hi" for i
  proof -
    have "lev_of s0 a = lev_of (nodes l) a" if "a \<in> set lo \<union> set hi" for a using lev [of a] nin as that by auto
    then show "tall s0 i lo = tall (nodes l) i lo" "tall s0 i hi = tall (nodes l) i hi"
      unfolding tall_def by (auto intro: filter_cong)
  qed
  have "chain s0 i (head_addr # tall (nodes l) i as @ [tail_addr])" if "i \<le> MAX_LEVEL" for i
  proof -
    have "chain (nodes l) i (head_addr # tall (nodes l) i as @ [tail_addr])" using ok that unfolding skip_ok_def by blast
    moreover have "chain s0 i (head_addr # tall (nodes l) i as @ [tail_addr]) = chain (nodes l) i (head_addr # tall (nodes l) i as @ [tail_addr])"
      using nin tall_subset [of "nodes l" i as] by (intro chain_cong) (auto simp: get_fwd_def s0)
    ultimately show ?thesis by simp
  qed
  then show "linked s0 lo hi n {} s0" unfolding linked_def tl as by simp
qed

lemma skip_ok_linked:
  assumes sp: "split_at l as value lo hi" and v: "value < INT_MAX" "value \<notin> skip_elems l"
    and n: "n = fresh l" and s0: "s0 = (nodes l)(n \<mapsto> new_SkipNode value lv)" and lv: "lv \<le> MAX_LEVEL"
    and J: "linked s0 lo hi n {..lv} s" and cur: "cur = max lv (cur_max_level l)"
  shows "skip_ok \<lparr>nodes = s, fresh = n + 1, cur_max_level = cur\<rparr> (lo @ n # hi)"
proof -
  note new = linkable_new [OF sp n s0]
  have ok: "skip_ok l as" and as: "as = lo @ hi" using sp by (auto simp: split_at_def)
  have lohi: "\<forall>a \<in> set lo. val_at (nodes l) a < value" "\<forall>a \<in> set hi. value < val_at (nodes l) a"
    using sp v(2) skip_elems_eq [OF ok] as by (force simp: split_at_def)+
  have sh: "shape s = shape s0" using J by (simp add: linked_def)
  have nin: "n \<notin> set (head_addr # as @ [tail_addr])" using new(1) as by (auto simp: linkable_def)
  have va: "val_at s a = val_at (nodes l) a" "lev_of s a = lev_of (nodes l) a" if "a \<noteq> n" for a
    using new(3) [OF that] shape_val_at [OF sh] shape_lev_of [OF sh] by simp_all
  have vn: "val_at s n = value" "lev_of s n = lv" using new(4,5) shape_val_at [OF sh] shape_lev_of [OF sh] by simp_all
  have ne: "a \<noteq> n" if "a \<in> set (head_addr # lo @ hi @ [tail_addr])" for a using nin as that by auto
  have 0: "val_at s tail_addr = INT_MAX" "lev_of s head_addr = MAX_LEVEL"
    using va ne ok by (simp_all add: skip_ok_def)
  have "map (val_at s) ((lo @ n # hi) @ [tail_addr]) = map (val_at (nodes l)) lo @ value # map (val_at (nodes l)) hi @ [INT_MAX]"
    using va(1) ne vn(1) 0(1) by simp
  moreover have "sorted_wrt (<) (map (val_at (nodes l)) (lo @ hi) @ [INT_MAX])" using ok as by (auto simp: skip_ok_def)
  then have "sorted_wrt (<) (map (val_at (nodes l)) lo @ value # map (val_at (nodes l)) hi @ [INT_MAX])"
    using lohi v(1) by (simp add: sorted_wrt_append)
  ultimately have 1: "sorted_wrt (<) (map (val_at s) ((lo @ n # hi) @ [tail_addr]))" by (simp only:)
  have 2: "distinct (head_addr # (lo @ n # hi) @ [tail_addr])" using new(1) by (auto simp: linkable_def)
  have 3: "\<forall>a \<in> set (head_addr # (lo @ n # hi) @ [tail_addr]). node_ok s a"
    using new(1) sh by (auto simp: linkable_def shape_node_ok)
  have 4: "cur \<le> MAX_LEVEL" "\<forall>a \<in> set (lo @ n # hi). lev_of s a \<le> cur"
  proof -
    show "cur \<le> MAX_LEVEL" using ok lv cur by (simp add: skip_ok_def)
    have "\<forall>a \<in> set as. lev_of (nodes l) a \<le> cur_max_level l" using ok unfolding skip_ok_def by blast
    then have "lev_of s a \<le> cur" if "a \<in> set lo \<union> set hi" for a
      using va(2) [of a] ne [of a] that as cur by (auto simp: le_max_iff_disj)
    then show "\<forall>a \<in> set (lo @ n # hi). lev_of s a \<le> cur" using vn(2) cur by auto
  qed
  have 5: "chain s i (head_addr # tall s i (lo @ n # hi) @ [tail_addr])" if i: "i \<le> MAX_LEVEL" for i
  proof -
    have "tall s i xs = tall s0 i xs" for xs unfolding tall_def using linked_lev [OF J] by simp
    moreover have "tall s i (n # hi) = (if i \<in> {..lv} then [n] else []) @ tall s i hi" using vn(2) by (simp add: tall_def)
    ultimately show ?thesis using linkedD [OF J i] by simp
  qed
  have 6: "dom s = set (head_addr # (lo @ n # hi) @ [tail_addr])"
  proof -
    have "dom s = dom s0" using shape_None [of s] shape_None [of s0] sh by (auto simp: dom_def)
    moreover have "dom (nodes l) = set (head_addr # as @ [tail_addr])" using ok unfolding skip_ok_def by blast
    ultimately show ?thesis using as by (auto simp: s0)
  qed
  have 7: "s a = None" if "n + 1 \<le> a" for a
  proof -
    have "nodes l a = None" using ok n that by (simp add: skip_ok_def)
    then have "s0 a = None" using that by (simp add: s0)
    then show ?thesis using shape_None [of s a] shape_None [of s0 a] sh by simp
  qed
  show ?thesis unfolding skip_ok_def using 0 1 2 3 4 5 6 7 by (simp only: SkipList.select_convs) blast
qed

lemma SkipList_Insert_ok:
  assumes ok: "skip_ok l as" and v: "value < INT_MAX"
  shows "\<exists>a l' as'. SkipList_Insert rnd value l = Some (a, l') \<and> skip_ok l' as' \<and> a \<in> set as' \<and> val_at (nodes l') a = value \<and>
    skip_elems l' = Set.insert value (skip_elems l) \<and> (value \<in> skip_elems l \<longrightarrow> l' = l)"
proof -
  obtain lo hi where sp: "split_at l as value lo hi" by (rule split_atI [OF ok less_imp_le [OF v]])
  let ?s = "nodes l" and ?c = "hd (hi @ [tail_addr])"
  let ?lb = "map (pred_at ?s lo) [0..<cur_max_level l + 1]"
  have bounds: "AbsLowerBound l value = Some ?lb" "hd_opt ?lb = Some (pred_at ?s lo 0)"
    by (rule AbsLowerBound_ok [OF sp]) (rule hd_opt_map_upt)
  note found = split_at_found [OF sp v]
  show ?thesis
  proof (cases "value \<in> skip_elems l")
    case True
    then have c: "val_at ?s ?c = value" "?c \<in> set as" using found by auto
    have "SkipList_Insert rnd value l = Some (?c, l)"
      unfolding SkipList_Insert_def bounds Option.bind_lunit found_at_ok [OF sp] using c(1) by simp
    then show ?thesis using ok c True by blast
  next
    case False
    define n lv s0 where n: "n = fresh l" and lv: "lv = GetRandomLevel rnd" and s0: "s0 = ?s(n \<mapsto> new_SkipNode value lv)"
    note new = linkable_new [OF sp n s0]
    have as: "as = lo @ hi" using sp by (simp add: split_at_def)
    have l8: "lv \<le> MAX_LEVEL" unfolding lv by (rule GetRandomLevel_le)
    have cur: "cur_max_level l \<le> MAX_LEVEL" "\<forall>a \<in> set as. lev_of ?s a \<le> cur_max_level l"
      using ok unfolding skip_ok_def by blast+
    have nin: "n \<notin> set lo \<union> set hi" using new(1) by (auto simp: linkable_def)
    have cur': "\<forall>a \<in> set lo \<union> set hi. lev_of s0 a \<le> cur_max_level l" using cur(2) new(3) nin as by fastforce
    have "tall s0 i lo = tall ?s i lo" for i
    proof -
      have "lev_of s0 a = lev_of ?s a" if "a \<in> set lo" for a using new(3) [of a] nin that by auto
      then show ?thesis unfolding tall_def by (auto intro: filter_cong)
    qed
    then have lb: "?lb = map (pred_at s0 lo) [0..<cur_max_level l + 1]" by (simp add: pred_at_def)
    obtain s1 s2 where 1: "for_each [0..<min lv (cur_max_level l) + 1] (link_level ?lb n) s0 = Some s1"
      "(if lv > cur_max_level l then for_each (rev [cur_max_level l + 1..<lv + 1]) (link_new_level n) s1 else Some s1) = Some s2"
      "linked s0 lo hi n {..lv} s2"
      using link_all [OF new(1,2,4) l8 cur(1) cur' lb] by blast
    let ?l = "\<lparr>nodes = s2, fresh = n + 1, cur_max_level = max lv (cur_max_level l)\<rparr>"
    have ok': "skip_ok ?l (lo @ n # hi)" by (rule skip_ok_linked [OF sp v False n s0 l8 1(3) refl])
    have "val_at ?s ?c \<noteq> value" using found(1) False by simp
    then have ins: "SkipList_Insert rnd value l = Some (n, ?l)"
      unfolding SkipList_Insert_def bounds Option.bind_lunit found_at_ok [OF sp] Let_def n [symmetric] lv [symmetric] s0 [symmetric] 
      using 1(1,2) by (cases "lv > cur_max_level l") (simp_all add: max_def del: bind_eq_Some upt_Suc)
    have sh: "shape s2 = shape s0" using 1(3) by (simp add: linked_def)
    have va: "val_at s2 n = value" "a \<noteq> n \<Longrightarrow> val_at s2 a = val_at ?s a" for a
      using new(3,5) shape_val_at [OF sh] by simp_all
    have "skip_elems ?l = Set.insert value (skip_elems l)"
    proof -
      have "val_at s2 ` (set lo \<union> set hi) = val_at ?s ` (set lo \<union> set hi)" 
      proof (rule image_cong [OF refl])
        show "val_at s2 a = val_at ?s a" if "a \<in> set lo \<union> set hi" for a using va(2) [of a] nin that by auto
      qed
      then show ?thesis unfolding skip_elems_eq [OF ok'] skip_elems_eq [OF ok] as using va(1) by (simp add: image_Un)
    qed
    then show ?thesis using ins ok' va(1) False by fastforce
  qed
qed

subsection \<open>The skip list is a set\<close>

lemma skip_ok_init: "skip_ok init_SkipList []"
proof -
  have "get_fwd head_addr i (nodes init_SkipList) = Some (Some tail_addr)" if "i \<le> MAX_LEVEL" for i
    using that by (simp add: get_fwd_def init_SkipList_def head_addr_def tail_addr_def new_SkipNode_def vget_def del: replicate_Suc)
  then show ?thesis
    by (auto simp: skip_ok_def init_SkipList_def head_addr_def tail_addr_def new_SkipNode_def node_ok_def
        val_at_def lev_of_def tall_def)
qed

definition skip_inv :: "SkipList \<Rightarrow> bool" where
  "skip_inv l \<longleftrightarrow> (\<exists>as. skip_ok l as)"

text \<open>A call of \<open>Insert\<close>: the random bits it draws and its argument.\<close>

type_synonym insertion = "(nat \<Rightarrow> bool) \<times> int"

definition skip_insert :: "insertion \<Rightarrow> SkipList \<Rightarrow> SkipList option" where
  "skip_insert = (\<lambda>(rnd, value) l. map_option snd (SkipList_Insert rnd value l))"

definition skip_member :: "SkipList \<Rightarrow> int \<Rightarrow> bool option" where
  "skip_member l value = map_option (\<lambda>p. p \<noteq> None) (SkipList_Find l value)"

interpretation sl: insert_set init_SkipList skip_insert snd skip_member skip_elems skip_inv "\<lambda>v. v < INT_MAX"
proof unfold_locales
  show "skip_inv init_SkipList" "skip_elems init_SkipList = {}"
    using skip_ok_init skip_elems_eq [OF skip_ok_init] by (auto simp: skip_inv_def)
next
  fix l and r :: insertion assume l: "skip_inv l" and v: "snd r < INT_MAX"
  then obtain as where as: "skip_ok l as" by (auto simp: skip_inv_def)
  show "\<exists>l'. skip_insert r l = Some l' \<and> skip_inv l' \<and> skip_elems l' = Set.insert (snd r) (skip_elems l)"
    using SkipList_Insert_ok [OF as v, of "fst r"] by (fastforce simp: skip_insert_def skip_inv_def split_beta)
next
  fix l v assume "skip_inv l" and v: "v < INT_MAX"
  then obtain as where as: "skip_ok l as" by (auto simp: skip_inv_def)
  show "skip_member l v = Some (v \<in> skip_elems l)"
    using SkipList_Find_ok [OF as v] by (fastforce simp: skip_member_def)
qed

text \<open>
  The value of the tail is found although it was never inserted, and cannot be inserted.
\<close>

lemma Find_INT_MAX:
  assumes "skip_ok l as"
  shows "SkipList_Find l INT_MAX = Some (Some tail_addr)" and "SkipList_Insert rnd INT_MAX l = Some (tail_addr, l)"
proof -
  obtain lo hi where sp: "split_at l as INT_MAX lo hi" by (rule split_atI [OF assms order_refl])
  have "hi = []"
  proof (rule ccontr)
    assume "hi \<noteq> []"
    then obtain a where a: "a \<in> set hi" by (cases hi) auto
    have "val_at (nodes l) a < INT_MAX" using assms a sp by (auto simp: skip_ok_def split_at_def sorted_wrt_append)
    then show False using sp a by (auto simp: split_at_def)
  qed
  then have f: "found_at (nodes l) (pred_at (nodes l) lo 0) INT_MAX = Some (Some tail_addr)"
    using found_at_ok [OF sp] assms by (simp add: skip_ok_def)
  then show "SkipList_Find l INT_MAX = Some (Some tail_addr)"
    unfolding SkipList_Find_def AbsLowerBound_ok [OF sp] Option.bind_lunit hd_opt_map_upt .
  show "SkipList_Insert rnd INT_MAX l = Some (tail_addr, l)"
    unfolding SkipList_Insert_def AbsLowerBound_ok [OF sp] Option.bind_lunit hd_opt_map_upt f by simp
qed

text \<open>
  C14: whatever random bits each call of Insert draws, so for every mix of node levels, inserting
  values below \<open>INT_MAX\<close> one after the other into a new list stays within the nodes and their
  forward pointers, keeps the list well formed and makes exactly those values findable.
\<close>

theorem SkipList_set:
  assumes "\<forall>(rnd, v) \<in> set calls. v < INT_MAX"
  shows "\<exists>l. insert_each skip_insert calls init_SkipList = Some l \<and> skip_inv l \<and> skip_elems l = snd ` set calls \<and>
    (\<forall>v. v < INT_MAX \<longrightarrow> skip_member l v = Some (v \<in> snd ` set calls))"
  by (rule sl.insert_each_ok) (use assms in auto)

theorem SkipList_set_witness:
  "\<exists>l. insert_each skip_insert [(\<lambda>i. i < 2, 5), (\<lambda>i. False, 3), (\<lambda>i. True, 4), (\<lambda>i. i < 1, 5)] init_SkipList = Some l \<and>
    skip_member l 3 = Some True \<and> skip_member l 4 = Some True \<and> skip_member l 6 = Some False"
proof -
  let ?calls = "[(\<lambda>i. i < 2, 5), (\<lambda>i. False, 3), (\<lambda>i. True, 4), (\<lambda>i. i < 1, 5)] :: insertion list"
  have "\<forall>(rnd, v) \<in> set ?calls. v < INT_MAX" by (simp add: INT_MAX_def)
  from SkipList_set [OF this] show ?thesis by (force simp: INT_MAX_def)
qed

end
