(* ===== verification/SlidingWindow.thy ===== *)
theory SlidingWindow
  imports Tables
begin

section \<open>Sliding window maximum (leetcode/other/slidingWindowMaximum.cc)\<close>

text \<open>
  The maxima of the windows of \<open>k\<close> elements in four ways: by looking at each window, with a
  multiset, and with two queues that keep only the elements (or their indices) that can still
  become a maximum. Such a queue is the list \<open>survivors\<close> of the window, for a relation that says
  which later element an element survives.
\<close>

definition maxSlidingWindow :: "int list \<Rightarrow> nat \<Rightarrow> int list option" where
  "maxSlidingWindow nums k = for_each (if k = 0 then [] else [k - 1..<length nums])
     (\<lambda>i res. Some (res @ [Max (set (take k (drop (i + 1 - k) nums)))])) []"

definition window_step :: "int list \<Rightarrow> nat \<Rightarrow> nat \<Rightarrow> int multiset \<times> int list \<Rightarrow> (int multiset \<times> int list) option" where
  "window_step nums k i = (\<lambda>(window, res). do {
     x \<leftarrow> vget nums i;
     let window = add_mset x window;
     let res = res @ [Max_mset window];
     y \<leftarrow> vget nums (i + 1 - k);
     if y \<in># window then Some (window - {#y#}, res) else None })"

definition maxSlidingWindow2 :: "int list \<Rightarrow> nat \<Rightarrow> int list option" where
  "maxSlidingWindow2 nums k = (
     if nums = [] then Some []
     else if k = 0 \<or> length nums < k - 1 then None
     else do {
       (window, res) \<leftarrow> for_each [k - 1..<length nums] (window_step nums k) (mset (take (k - 1) nums), []);
       Some res })"

text \<open>The class \<open>MonotonicQueue\<close>: its deque, the front first.\<close>

function mq_push_loop :: "int \<Rightarrow> int list \<Rightarrow> int list" where
  "mq_push_loop e data = (if data \<noteq> [] \<and> last data < e then mq_push_loop e (butlast data) else data)"
  by pat_completeness auto
termination
  by (relation "measure (\<lambda>(e, data). length data)") auto

declare mq_push_loop.simps [simp del]

definition mq_push :: "int \<Rightarrow> int list \<Rightarrow> int list" where
  "mq_push e data = mq_push_loop e data @ [e]"

definition mq_pop :: "int list \<Rightarrow> int list option" where
  "mq_pop data = (if data = [] then None else Some (tl data))"

definition mq_max :: "int list \<Rightarrow> int option" where
  "mq_max data = hd_opt data"

definition queue_step :: "int list \<Rightarrow> nat \<Rightarrow> nat \<Rightarrow> int list \<times> int list \<Rightarrow> (int list \<times> int list) option" where
  "queue_step nums k i = (\<lambda>(q, res). do {
     x \<leftarrow> vget nums i;
     let q = mq_push x q;
     if k \<le> i + 1 then do {
       m \<leftarrow> mq_max q;
       y \<leftarrow> vget nums (i + 1 - k);
       q' \<leftarrow> (if y = m then mq_pop q else Some q);
       Some (q', res @ [m]) }
     else Some (q, res) })"

definition maxSlidingWindow3 :: "int list \<Rightarrow> nat \<Rightarrow> int list option" where
  "maxSlidingWindow3 nums k = do { (q, res) \<leftarrow> for_each [0..<length nums] (queue_step nums k) ([], []); Some res }"

function index_pop_loop :: "int list \<Rightarrow> int \<Rightarrow> nat list \<Rightarrow> nat list option" where
  "index_pop_loop nums x index = (
     if index = [] then Some index
     else case vget nums (last index) of
       None \<Rightarrow> None
     | Some y \<Rightarrow> if y \<le> x then index_pop_loop nums x (butlast index) else Some index)"
  by pat_completeness auto
termination
  by (relation "measure (\<lambda>(nums, x, index). length index)") auto

declare index_pop_loop.simps [simp del]

definition index_step :: "int list \<Rightarrow> nat \<Rightarrow> nat \<Rightarrow> nat list \<times> int list \<Rightarrow> (nat list \<times> int list) option" where
  "index_step nums k i = (\<lambda>(index, res). do {
     x \<leftarrow> vget nums i;
     index \<leftarrow> index_pop_loop nums x index;
     let index = index @ [i];
     front \<leftarrow> hd_opt index;
     res \<leftarrow> (if k \<le> i + 1 then do { y \<leftarrow> vget nums front; Some (res @ [y]) } else Some res);
     if k + front \<le> i + 1 then Some (tl index, res) else Some (index, res) })"

definition maxSlidingWindow4 :: "int list \<Rightarrow> nat \<Rightarrow> int list option" where
  "maxSlidingWindow4 nums k = do { (index, res) \<leftarrow> for_each [0..<length nums] (index_step nums k) ([], []); Some res }"

subsection \<open>The survivors of a window\<close>

text \<open>\<open>P y x\<close>: the element \<open>x\<close> survives a later \<open>y\<close>.\<close>

fun survivors :: "('a \<Rightarrow> 'a \<Rightarrow> bool) \<Rightarrow> 'a list \<Rightarrow> 'a list" where
  "survivors P [] = []"
| "survivors P (x # xs) = (if \<forall>y \<in> set xs. P y x then x # survivors P xs else survivors P xs)"

lemma survivors_subset: "set (survivors P xs) \<subseteq> set xs"
  by (induction xs) auto

lemma survivors_snoc: "survivors P (xs @ [e]) = filter (P e) (survivors P xs) @ [e]"
  by (induction xs) auto

lemma survivors_chain: "sorted_wrt (\<lambda>x y. P y x) (survivors P xs)"
  using survivors_subset by (induction xs) fastforce+

text \<open>Popping from the back removes exactly those that do not survive the new element.\<close>

lemma chain_drop:
  assumes "sorted_wrt (\<lambda>x y. P y x) ds" and "\<And>x y z. P x y \<Longrightarrow> P y z \<Longrightarrow> P x z"
  shows "rev (dropWhile (\<lambda>x. \<not> P e x) (rev ds)) = filter (P e) ds"
  using assms(1)
proof (induction ds rule: rev_induct)
  case (snoc x ds)
  show ?case
  proof (cases "P e x")
    case True
    have "P e z" if "z \<in> set ds" for z using snoc(2) that True assms(2) by (auto simp: sorted_wrt_append)
    then have "filter (P e) ds = ds" by (simp add: filter_id_conv)
    then show ?thesis using True by simp
  next
    case False
    then show ?thesis using snoc by (simp add: sorted_wrt_append)
  qed
qed simp

lemma mq_push_loop_drop: "mq_push_loop e ds = rev (dropWhile (\<lambda>x. \<not> e \<le> x) (rev ds))"
proof (induction ds rule: rev_induct)
  case Nil
  then show ?case by (subst mq_push_loop.simps) simp
next
  case (snoc x ds)
  then show ?case by (subst mq_push_loop.simps) auto
qed

lemma mq_push_survivors: "mq_push e (survivors (\<le>) xs) = survivors (\<le>) (xs @ [e])"
  using chain_drop [OF survivors_chain, of "(\<le>)" e xs] by (simp add: mq_push_def mq_push_loop_drop survivors_snoc)

lemma index_pop_loop_drop:
  "\<forall>j \<in> set ds. j < length nums \<Longrightarrow> index_pop_loop nums x ds = Some (rev (dropWhile (\<lambda>j. \<not> x < nums ! j) (rev ds)))"
proof (induction ds rule: rev_induct)
  case Nil
  then show ?case by (subst index_pop_loop.simps) simp
next
  case (snoc j ds)
  then show ?case by (subst index_pop_loop.simps) (auto simp: ub_simps)
qed

lemma Max_insert_le: "finite A \<Longrightarrow> A \<noteq> {} \<Longrightarrow> x \<le> Max A \<Longrightarrow> Max (insert x A) = Max A" for x :: int
  by (simp add: Max_insert max.absorb2)

text \<open>The first survivor of the values is the maximum, and leaves when it is the oldest.\<close>

lemma survivors_hd: "xs \<noteq> [] \<Longrightarrow> hd_opt (survivors (\<le>) xs) = Some (Max (set xs))" for xs :: "int list"
proof (induction xs)
  case (Cons x xs)
  show ?case
  proof (cases "\<forall>y \<in> set xs. y \<le> x")
    case True
    then have "Max (set (x # xs)) = x" by (intro Max_eqI) auto
    then show ?thesis using True by simp
  next
    case False
    then obtain z where z: "z \<in> set xs" "x < z" by force
    have "z \<le> Max (set xs)" using z(1) by (intro Max_ge) auto
    then have "x < Max (set xs)" using z(2) by linarith
    then have "Max (set (x # xs)) = Max (set xs)" using z(1) unfolding list.set by (intro Max_insert_le) auto
    moreover have "hd_opt (survivors (\<le>) xs) = Some (Max (set xs))" using z by (intro Cons(1)) auto
    ultimately show ?thesis unfolding survivors.simps if_not_P [OF False] by simp
  qed
qed simp

lemma survivors_tl:
  "survivors (\<le>) xs = (if x = Max (set (x # xs)) then tl (survivors (\<le>) (x # xs)) else survivors (\<le>) (x # xs))" for xs :: "int list"
proof -
  have "x = Max (set (x # xs)) \<longleftrightarrow> (\<forall>y \<in> set xs. y \<le> x)"
  proof
    assume x: "x = Max (set (x # xs))"
    show "\<forall>y \<in> set xs. y \<le> x"
    proof
      fix y assume "y \<in> set xs"
      then have "y \<le> Max (set (x # xs))" by (intro Max_ge) auto
      then show "y \<le> x" using x by metis
    qed
  qed (auto intro: Max_eqI [symmetric] simp del: Max_insert)
  then show ?thesis by simp
qed

subsection \<open>The four versions\<close>

text \<open>The window that ends before \<open>i\<close>, without its oldest element when it is full.\<close>

definition window :: "int list \<Rightarrow> nat \<Rightarrow> nat \<Rightarrow> int list" where
  "window nums k i = drop (i + 1 - k) (take i nums)"

definition maxima :: "int list \<Rightarrow> nat \<Rightarrow> nat \<Rightarrow> int list" where
  "maxima nums k i = map (\<lambda>i. Max (set (take k (drop (i + 1 - k) nums)))) [k - 1..<i]"

lemma full_window:
  assumes "i < length nums"
  shows "drop (i + 1 - k) (take (Suc i) nums) = (if k = 0 then [] else window nums k i @ [nums ! i])"
  using assms by (auto simp: window_def take_Suc_conv_app_nth)

lemma window_take: "0 < k \<Longrightarrow> k \<le> i + 1 \<Longrightarrow> take k (drop (i + 1 - k) nums) = drop (i + 1 - k) (take (Suc i) nums)"
  by (simp add: drop_take)

lemma window_Suc:
  assumes "i < length nums" and "0 < k"
  shows "window nums k i @ [nums ! i] = (if k \<le> i + 1 then nums ! (i + 1 - k) # window nums k (Suc i) else window nums k (Suc i))"
proof (cases "k \<le> i + 1")
  case True
  have "drop (i + 1 - k) (take (Suc i) nums) = take (Suc i) nums ! (i + 1 - k) # drop (Suc (i + 1 - k)) (take (Suc i) nums)"
    using assms True by (intro Cons_nth_drop_Suc [symmetric]) simp
  then show ?thesis using full_window [OF assms(1), of k] assms True by (simp add: window_def Suc_diff_le)
next
  case False
  then show ?thesis using full_window [OF assms(1), of k] assms by (simp add: window_def)
qed

lemma maxima_Suc:
  assumes "i < length nums" and "0 < k"
  shows "maxima nums k (Suc i) = (if k \<le> i + 1 then maxima nums k i @ [Max (set (window nums k i @ [nums ! i]))] else maxima nums k i)"
proof (cases "k \<le> i + 1")
  case True
  then show ?thesis using assms window_take [of k i nums] full_window [OF assms(1), of k] by (simp add: maxima_def)
next
  case False
  then show ?thesis by (simp add: maxima_def)
qed

lemma maxSlidingWindow_ok:
  assumes "0 < k"
  shows "maxSlidingWindow nums k = Some (maxima nums k (length nums))"
proof (cases "k - 1 \<le> length nums")
  case True
  have "\<exists>r. for_each [k - 1..<length nums] (\<lambda>i res. Some (res @ [Max (set (take k (drop (i + 1 - k) nums)))])) [] = Some r \<and>
      r = maxima nums k (length nums)"
    using True by (intro for_upt [where I = "\<lambda>i r. r = maxima nums k i"]) (auto simp: maxima_def)
  then show ?thesis using assms by (simp add: maxSlidingWindow_def)
next
  case False
  then show ?thesis using assms by (simp add: maxSlidingWindow_def maxima_def)
qed

lemma maxSlidingWindow2_ok:
  assumes "0 < k" and "k - 1 \<le> length nums" and "nums \<noteq> []"
  shows "maxSlidingWindow2 nums k = Some (maxima nums k (length nums))"
proof -
  have "\<exists>s. for_each [k - 1..<length nums] (window_step nums k) (mset (take (k - 1) nums), []) = Some s \<and>
      s = (mset (window nums k (length nums)), maxima nums k (length nums))"
  proof (rule for_upt [where I = "\<lambda>i s. s = (mset (window nums k i), maxima nums k i)"])
    show "(mset (take (k - 1) nums), []) = (mset (window nums k (k - 1)), maxima nums k (k - 1))"
      using assms(1) by (simp add: window_def maxima_def)
    fix i s assume i: "k - 1 \<le> i" "i < length nums" and s: "s = (mset (window nums k i), maxima nums k i)"
    have ki: "k \<le> i + 1" using i(1) by simp
    let ?w = "window nums k i @ [nums ! i]"
    have w: "?w = nums ! (i + 1 - k) # window nums k (Suc i)" using window_Suc [OF i(2) assms(1)] ki by simp
    have m: "add_mset (nums ! i) (mset (window nums k i)) = mset ?w" by simp
    have old: "nums ! (i + 1 - k) \<in># mset ?w" "mset ?w - {#nums ! (i + 1 - k)#} = mset (window nums k (Suc i))" unfolding w by simp_all
    have idx: "i + 1 - k < length nums" using i assms(1) by simp
    have new: "Max_mset (add_mset (nums ! i) (mset (window nums k i))) = Max (set ?w)"
      "nums ! (i + 1 - k) \<in># add_mset (nums ! i) (mset (window nums k i))"
      "add_mset (nums ! i) (mset (window nums k i)) - {#nums ! (i + 1 - k)#} = mset (window nums k (Suc i))"
      using old unfolding m by simp_all
    have "window_step nums k i s = Some (mset (window nums k (Suc i)), maxima nums k i @ [Max (set ?w)])"
      unfolding window_step_def s prod.case Let_def vget_in [OF i(2)] vget_in [OF idx] Option.bind.bind_lunit new using new(2) by simp
    then show "\<exists>s'. window_step nums k i s = Some s' \<and> s' = (mset (window nums k (Suc i)), maxima nums k (Suc i))"
      using maxima_Suc [OF i(2) assms(1)] ki by simp
  qed (use assms in auto)
  then show ?thesis using assms by (auto simp: maxSlidingWindow2_def)
qed

lemma maxSlidingWindow3_ok:
  assumes "0 < k"
  shows "maxSlidingWindow3 nums k = Some (maxima nums k (length nums))"
proof -
  have "\<exists>s. for_each [0..<length nums] (queue_step nums k) ([], []) = Some s \<and>
      s = (survivors (\<le>) (window nums k (length nums)), maxima nums k (length nums))"
  proof (rule for_upt [where I = "\<lambda>i s. s = (survivors (\<le>) (window nums k i), maxima nums k i)"])
    show "([], []) = (survivors (\<le>) (window nums k 0), maxima nums k 0)" by (simp add: window_def maxima_def)
    fix i s assume i: "0 \<le> i" "i < length nums" and s: "s = (survivors (\<le>) (window nums k i), maxima nums k i)"
    let ?w = "window nums k i @ [nums ! i]"
    have push: "mq_push (nums ! i) (survivors (\<le>) (window nums k i)) = survivors (\<le>) ?w" by (rule mq_push_survivors)
    show "\<exists>s'. queue_step nums k i s = Some s' \<and> s' = (survivors (\<le>) (window nums k (Suc i)), maxima nums k (Suc i))"
    proof (cases "k \<le> i + 1")
      case False
      then show ?thesis using i s push window_Suc [OF i(2) assms] maxima_Suc [OF i(2) assms]
        by (simp add: queue_step_def ub_simps)
    next
      case True
      have w: "?w = nums ! (i + 1 - k) # window nums k (Suc i)" using window_Suc [OF i(2) assms] True by simp
      have hd: "hd_opt (survivors (\<le>) ?w) = Some (Max (set ?w))" by (rule survivors_hd) simp
      then have ne: "survivors (\<le>) ?w \<noteq> []" by auto
      have idx: "i + 1 - k < length nums" using i assms by simp
      have t: "survivors (\<le>) (window nums k (Suc i)) =
          (if nums ! (i + 1 - k) = Max (set ?w) then tl (survivors (\<le>) ?w) else survivors (\<le>) ?w)"
        unfolding w by (rule survivors_tl)
      have "queue_step nums k i s = Some (survivors (\<le>) (window nums k (Suc i)), maxima nums k i @ [Max (set ?w)])"
        unfolding queue_step_def s prod.case Let_def vget_in [OF i(2)] vget_in [OF idx] Option.bind.bind_lunit push mq_max_def hd t
        using True ne by (simp add: mq_pop_def)
      then show ?thesis using maxima_Suc [OF i(2) assms] True by simp
    qed
  qed simp
  then show ?thesis by (auto simp: maxSlidingWindow3_def)
qed

text \<open>The indices of a window, oldest first.\<close>

definition indices :: "nat \<Rightarrow> nat \<Rightarrow> nat list" where
  "indices k i = [i + 1 - k..<i]"

definition keeps :: "int list \<Rightarrow> nat \<Rightarrow> nat \<Rightarrow> bool" where
  "keeps nums b a \<longleftrightarrow> nums ! b < nums ! a"

lemma survivors_index_hd:
  "xs \<noteq> [] \<Longrightarrow> \<exists>a. hd_opt (survivors (keeps nums) xs) = Some a \<and> a \<in> set xs \<and> nums ! a = Max ((!) nums ` set xs)"
proof (induction xs)
  case (Cons x xs)
  show ?case
  proof (cases "\<forall>y \<in> set xs. keeps nums y x")
    case True
    then have "Max ((!) nums ` set (x # xs)) = nums ! x" by (intro Max_eqI) (auto simp: keeps_def)
    then show ?thesis using True by simp
  next
    case False
    then obtain y where y: "y \<in> set xs" "nums ! x \<le> nums ! y" by (auto simp: keeps_def)
    then obtain a where a: "hd_opt (survivors (keeps nums) xs) = Some a" "a \<in> set xs" "nums ! a = Max ((!) nums ` set xs)"
      using Cons(1) by force
    have "nums ! y \<le> Max ((!) nums ` set xs)" using y(1) by (intro Max_ge) auto
    then have "Max (insert (nums ! x) ((!) nums ` set xs)) = Max ((!) nums ` set xs)"
      using y order_trans [OF y(2)] by (intro Max_insert_le) auto
    then have "Max ((!) nums ` set (x # xs)) = Max ((!) nums ` set xs)" by simp
    then show ?thesis using a False by (intro exI [of _ a]) auto
  qed
qed simp

lemma index_pop_survivors:
  assumes "\<forall>j \<in> set xs. j < length nums"
  shows "index_pop_loop nums (nums ! e) (survivors (keeps nums) xs) = Some (filter (keeps nums e) (survivors (keeps nums) xs))"
proof -
  have "\<forall>j \<in> set (survivors (keeps nums) xs). j < length nums" using assms survivors_subset [of "keeps nums" xs] by blast
  moreover have "rev (dropWhile (\<lambda>j. \<not> keeps nums e j) (rev (survivors (keeps nums) xs))) = filter (keeps nums e) (survivors (keeps nums) xs)"
  proof (rule chain_drop [of "keeps nums" "survivors (keeps nums) xs" e])
    show "keeps nums a c" if "keeps nums a b" "keeps nums b c" for a b c using that by (simp add: keeps_def)
  qed (rule survivors_chain)
  ultimately show ?thesis using index_pop_loop_drop [of "survivors (keeps nums) xs" nums "nums ! e"] unfolding keeps_def by simp
qed

lemma index_values:
  assumes "i < length nums"
  shows "(!) nums ` set (indices k i @ [i]) = set (window nums k i @ [nums ! i])"
proof -
  have "window nums k i = map ((!) nums) (indices k i)"
    using assms by (intro nth_equalityI) (auto simp: window_def indices_def)
  then show ?thesis by simp
qed

lemma maxSlidingWindow4_ok:
  assumes "0 < k"
  shows "maxSlidingWindow4 nums k = Some (maxima nums k (length nums))"
proof -
  have "\<exists>s. for_each [0..<length nums] (index_step nums k) ([], []) = Some s \<and>
      s = (survivors (keeps nums) (indices k (length nums)), maxima nums k (length nums))"
  proof (rule for_upt [where I = "\<lambda>i s. s = (survivors (keeps nums) (indices k i), maxima nums k i)"])
    show "([], []) = (survivors (keeps nums) (indices k 0), maxima nums k 0)" by (simp add: indices_def maxima_def)
    fix i s assume i: "0 \<le> i" "i < length nums" and s: "s = (survivors (keeps nums) (indices k i), maxima nums k i)"
    let ?w = "indices k i @ [i]"
    have pop: "index_pop_loop nums (nums ! i) (survivors (keeps nums) (indices k i)) = Some (filter (keeps nums i) (survivors (keeps nums) (indices k i)))"
      using i(2) by (intro index_pop_survivors) (auto simp: indices_def)
    have push: "filter (keeps nums i) (survivors (keeps nums) (indices k i)) @ [i] = survivors (keeps nums) ?w"
      by (simp add: survivors_snoc)
    obtain a where a: "hd_opt (survivors (keeps nums) ?w) = Some a" "a \<in> set ?w" "nums ! a = Max (set (window nums k i @ [nums ! i]))"
      using survivors_index_hd [of ?w nums] index_values [OF i(2), of k] by auto
    then have al: "a < length nums" using i(2) by (auto simp: indices_def)
    have w: "?w = (if k \<le> i + 1 then (i + 1 - k) # indices k (Suc i) else indices k (Suc i))"
      using assms by (auto simp: indices_def upt_conv_Cons Suc_diff_le)
    have pop2: "(if k + a \<le> i + 1 then tl (survivors (keeps nums) ?w) else survivors (keeps nums) ?w) = survivors (keeps nums) (indices k (Suc i))"
    proof (cases "k \<le> i + 1")
      case True
      let ?o = "i + 1 - k"
      have w: "?w = ?o # indices k (Suc i)" using w True by simp
      have sub: "set (survivors (keeps nums) (indices k (Suc i))) \<subseteq> {?o<..}"
        using survivors_subset [of "keeps nums" "indices k (Suc i)"] True by (auto simp: indices_def)
      show ?thesis
      proof (cases "\<forall>y \<in> set (indices k (Suc i)). keeps nums y ?o")
        case keep: True
        then have "survivors (keeps nums) ?w = ?o # survivors (keeps nums) (indices k (Suc i))" unfolding w by simp
        moreover from this have "a = ?o" using a(1) by simp
        ultimately show ?thesis using True by simp
      next
        case False
        then have e: "survivors (keeps nums) ?w = survivors (keeps nums) (indices k (Suc i))" unfolding w by simp
        then have "a \<in> set (survivors (keeps nums) (indices k (Suc i)))" using a(1) hd_opt_in_set by metis
        then have "?o < a" using sub by blast
        then have "\<not> k + a \<le> i + 1" using True by linarith
        then show ?thesis using e True by simp
      qed
    next
      case False
      then show ?thesis using w by simp
    qed
    have "index_step nums k i s = Some (if k + a \<le> i + 1 then tl (survivors (keeps nums) ?w) else survivors (keeps nums) ?w,
        if k \<le> i + 1 then maxima nums k i @ [nums ! a] else maxima nums k i)"
      unfolding index_step_def s prod.case Let_def vget_in [OF i(2)] Option.bind.bind_lunit pop push a(1) vget_in [OF al] by simp
    then show "\<exists>s'. index_step nums k i s = Some s' \<and> s' = (survivors (keeps nums) (indices k (Suc i)), maxima nums k (Suc i))"
      using maxima_Suc [OF i(2) assms] a(3) pop2 by simp
  qed simp
  then show ?thesis by (auto simp: maxSlidingWindow4_def)
qed

text \<open>
  C35: for a window of 1 to \<open>length nums\<close> elements the four versions return the same vector, the
  maximum of each window in turn, and none of them reads outside its containers.
\<close>

theorem sliding_windows_agree:
  assumes "0 < k" and "k \<le> length nums"
  shows "\<exists>res. maxSlidingWindow nums k = Some res \<and> maxSlidingWindow2 nums k = Some res \<and>
    maxSlidingWindow3 nums k = Some res \<and> maxSlidingWindow4 nums k = Some res \<and>
    length res = length nums + 1 - k \<and> (\<forall>j < length res. res ! j = Max (set (take k (drop j nums))))"
proof -
  have "nums \<noteq> []" "k - 1 \<le> length nums" using assms by auto
  then show ?thesis
    using maxSlidingWindow_ok [OF assms(1)] maxSlidingWindow2_ok [OF assms(1)] maxSlidingWindow3_ok [OF assms(1)] maxSlidingWindow4_ok [OF assms(1)] assms
    by (intro exI [of _ "maxima nums k (length nums)"]) (auto simp: maxima_def)
qed

theorem sliding_windows_agree_witness:
  "\<exists>res. maxSlidingWindow3 [1, 3, -1, -3, 5, 3, 6, 7] 3 = Some res \<and> maxSlidingWindow4 [1, 3, -1, -3, 5, 3, 6, 7] 3 = Some res \<and> length res = 6"
  using sliding_windows_agree [of 3 "[1, 3, -1, -3, 5, 3, 6, 7]"] by auto

text \<open>A window that is too wide: the second version reads over the end, the others return nothing.\<close>

lemma sliding_window_wide: "length nums + 1 < k \<Longrightarrow> nums \<noteq> [] \<Longrightarrow> maxSlidingWindow2 nums k = None \<and> maxSlidingWindow3 nums k = Some []"
  using maxSlidingWindow3_ok [of k nums] by (auto simp: maxSlidingWindow2_def maxima_def)

end
