(* ===== verification/StackPrograms.thy ===== *)
theory StackPrograms
  imports Tables
begin

section \<open>Balanced brackets (leetcode/other/validParentheses.cc)\<close>

text \<open>
  The map gives the opening bracket of a closing one. Every other character is pushed, as an
  opening bracket is; a letter therefore makes a string invalid.
\<close>

definition mp :: "char \<Rightarrow> char option" where
  "mp = [CHR '']'' \<mapsto> CHR ''['', CHR '')'' \<mapsto> CHR ''('', CHR ''}'' \<mapsto> CHR ''{'']"

fun valid_loop :: "string \<Rightarrow> char list \<Rightarrow> bool" where
  "valid_loop [] stk = (stk = [])"
| "valid_loop (c # s) stk = (case mp c of
     None \<Rightarrow> valid_loop s (c # stk)
   | Some left \<Rightarrow> (case stk of [] \<Rightarrow> False | t # stk' \<Rightarrow> if t \<noteq> left then False else valid_loop s stk'))"

definition isValid :: "string \<Rightarrow> bool" where
  "isValid s = valid_loop s []"

inductive balanced :: "string \<Rightarrow> bool" where
  empty: "balanced []"
| pair: "balanced u \<Longrightarrow> balanced v \<Longrightarrow> mp c = Some a \<Longrightarrow> balanced (a # u @ c # v)"

lemma mp_cases: "mp c = Some a \<Longrightarrow> mp a = None"
  by (auto simp: mp_def split: if_splits)

lemma balanced_skip: "balanced w \<Longrightarrow> valid_loop (w @ s) stk = valid_loop s stk"
proof (induction w arbitrary: s stk rule: balanced.induct)
  case (pair u v c a)
  then show ?case using mp_cases [OF pair(3)] by simp
qed simp

text \<open>The rest of a valid string closes the brackets that are open, innermost first.\<close>

fun closes :: "char list \<Rightarrow> string \<Rightarrow> bool" where
  "closes [] s = balanced s"
| "closes (a # stk) s = (\<exists>u c v. s = u @ c # v \<and> balanced u \<and> mp c = Some a \<and> closes stk v)"

lemma closes_push: "closes (a # stk) s \<Longrightarrow> closes stk (a # s)"
proof (cases stk)
  case Nil
  then show "closes (a # stk) s \<Longrightarrow> ?thesis" by (auto intro: balanced.pair)
next
  case (Cons b stk')
  assume "closes (a # stk) s"
  then obtain u c v where s: "s = u @ c # v" "balanced u" "mp c = Some a" "closes stk v" by auto
  then obtain u' c' v' where v: "v = u' @ c' # v'" "balanced u'" "mp c' = Some b" "closes stk' v'" using Cons by auto
  have "balanced (a # u @ c # u')" using s(2,3) v(2) by (intro balanced.pair)
  then show ?thesis using s(1) v Cons by (auto intro!: exI [of _ "a # u @ c # u'"])
qed

lemma valid_loop_closes: "valid_loop s stk \<Longrightarrow> closes stk s"
proof (induction s arbitrary: stk)
  case Nil
  then show ?case by (simp add: balanced.empty)
next
  case (Cons c s)
  show ?case
  proof (cases "mp c")
    case None
    then show ?thesis using Cons closes_push [of c stk s] by (simp del: closes.simps(2))
  next
    case (Some a)
    then obtain stk' where "stk = a # stk'" "valid_loop s stk'" using Cons(2) by (cases stk) (auto split: if_splits)
    then show ?thesis using Cons(1) [of stk'] Some balanced.empty by (auto intro!: exI [of _ "[]"])
  qed
qed

theorem isValid_correct: "isValid s \<longleftrightarrow> balanced s"
  using valid_loop_closes [of s "[]"] balanced_skip [of s "[]" "[]"] by (auto simp: isValid_def)

section \<open>The largest rectangle in a histogram (leetcode/other/largestRectangleArea.cc)\<close>

text \<open>
  The stack holds indices, the top first. A sentinel of height 0 is appended to the argument, which is
  a reference: the caller sees it.
\<close>

fun pop_higher :: "int list \<Rightarrow> nat \<Rightarrow> nat list \<Rightarrow> int \<Rightarrow> (nat list \<times> int) option" where
  "pop_higher h i [] res = Some ([], res)"
| "pop_higher h i (t # idx) res = do {
     a \<leftarrow> vget h i;
     height \<leftarrow> vget h t;
     if a < height then do {
       let prev = (case idx of [] \<Rightarrow> -1 | p # _ \<Rightarrow> int p);
       pop_higher h i idx (max res (height * (int i - prev - 1))) }
     else Some (t # idx, res) }"

definition largestRectangleArea :: "int list \<Rightarrow> (int list \<times> int) option" where
  "largestRectangleArea h = do {
     let h = h @ [0];
     (idx, res) \<leftarrow> for_each [0..<length h] (\<lambda>i (idx, res). do { (idx, res) \<leftarrow> pop_higher h i idx res; Some (i # idx, res) }) ([], 0);
     Some (h, res) }"

text \<open>The bars from \<open>l\<close> to \<open>r\<close> are at least as high as \<open>x\<close>.\<close>

definition fits :: "int list \<Rightarrow> nat \<Rightarrow> nat \<Rightarrow> int \<Rightarrow> bool" where
  "fits h l r x \<longleftrightarrow> l \<le> r \<and> r < length h \<and> (\<forall>k. l \<le> k \<and> k \<le> r \<longrightarrow> x \<le> h ! k)"

definition rect :: "nat \<Rightarrow> nat \<Rightarrow> int \<Rightarrow> int" where
  "rect l r x = x * (int r - int l + 1)"

text \<open>Under each index of the stack lies the last one before it that is not higher.\<close>

definition prev_ok :: "int list \<Rightarrow> nat \<Rightarrow> nat list \<Rightarrow> bool" where
  "prev_ok h t idx \<longleftrightarrow> (case idx of
     [] \<Rightarrow> \<forall>j < t. h ! t < h ! j
   | p # _ \<Rightarrow> p < t \<and> h ! p \<le> h ! t \<and> (\<forall>j. p < j \<and> j < t \<longrightarrow> h ! t < h ! j))"

fun stack_ok :: "int list \<Rightarrow> nat list \<Rightarrow> bool" where
  "stack_ok h [] \<longleftrightarrow> True"
| "stack_ok h (t # idx) \<longleftrightarrow> prev_ok h t idx \<and> stack_ok h idx"

text \<open>The rectangles whose lowest bar, the first of several, is \<open>j\<close>.\<close>

definition best :: "int list \<Rightarrow> int \<Rightarrow> nat \<Rightarrow> bool" where
  "best h res j \<longleftrightarrow> (\<forall>l r. l \<le> j \<and> j \<le> r \<and> fits h l r (h ! j) \<and> (\<forall>k. l \<le> k \<and> k < j \<longrightarrow> h ! j < h ! k) \<longrightarrow> rect l r (h ! j) \<le> res)"

definition sound :: "int list \<Rightarrow> int \<Rightarrow> bool" where
  "sound h res \<longleftrightarrow> 0 \<le> res \<and> (res = 0 \<or> (\<exists>l r x. fits h l r x \<and> res = rect l r x))"

lemma best_mono: "best h res j \<Longrightarrow> res \<le> res' \<Longrightarrow> best h res' j"
  by (meson best_def order_trans)

text \<open>While popping for \<open>i\<close>, the bars behind the top are at least as high as it and higher than \<open>i\<close>.\<close>

definition pop_inv :: "int list \<Rightarrow> nat \<Rightarrow> nat list \<Rightarrow> int \<Rightarrow> bool" where
  "pop_inv h i idx res \<longleftrightarrow> stack_ok h idx \<and> (\<forall>j < i. j \<in> set idx \<or> best h res j) \<and> sound h res \<and>
     (case idx of
        [] \<Rightarrow> \<forall>j < i. h ! i < h ! j
      | t # _ \<Rightarrow> t < i \<and> (\<forall>j. t < j \<and> j < i \<longrightarrow> h ! t \<le> h ! j \<and> h ! i < h ! j))"

lemma pop_higher_ok:
  "pop_inv h i idx res \<Longrightarrow> i < length h \<Longrightarrow> \<forall>x \<in> set h. 0 \<le> x \<Longrightarrow>
   \<exists>idx' res'. pop_higher h i idx res = Some (idx', res') \<and> prev_ok h i idx' \<and> stack_ok h idx' \<and>
     (\<forall>j < i. j \<in> set idx' \<or> best h res' j) \<and> sound h res'"
proof (induction h i idx res rule: pop_higher.induct)
  case (1 h i res)
  then show ?case by (auto simp: pop_inv_def prev_ok_def)
next
  case (2 h i t idx res)
  have t: "t < i" "stack_ok h idx" "prev_ok h t idx" and b: "\<forall>j < i. j \<in> set (t # idx) \<or> best h res j" "sound h res"
    and top: "\<forall>j. t < j \<and> j < i \<longrightarrow> h ! t \<le> h ! j \<and> h ! i < h ! j"
    using 2(2) by (auto simp: pop_inv_def)
  have get: "vget h i = Some (h ! i)" "vget h t = Some (h ! t)" using 2(3) t(1) by (auto simp: vget_def)
  show ?case
  proof (cases "h ! i < h ! t")
    case False
    then have "prev_ok h i (t # idx)" using t(1) top by (auto simp: prev_ok_def)
    then show ?thesis using False get t b by auto
  next
    case True
    define prev where "prev = (case idx of [] \<Rightarrow> -1 | p # _ \<Rightarrow> int p)"
    let ?res = "max res (h ! t * (int i - prev - 1))"
    have pos: "0 \<le> h ! t" using 2(3,4) t(1) by auto
    have p: "prev < int t" "\<And>j. prev < int j \<Longrightarrow> j < t \<Longrightarrow> h ! t < h ! j" "-1 \<le> prev"
      using t(3) by (auto simp: prev_def prev_ok_def split: list.splits)
    have bt: "best h ?res t"
      unfolding best_def
    proof (intro allI impI)
      fix l r assume a: "l \<le> t \<and> t \<le> r \<and> fits h l r (h ! t) \<and> (\<forall>k. l \<le> k \<and> k < t \<longrightarrow> h ! t < h ! k)"
      have "r < i"
      proof (rule ccontr)
        assume "\<not> r < i"
        then have "h ! t \<le> h ! i" using a t(1) by (auto simp: fits_def)
        then show False using True by simp
      qed
      moreover have "prev < int l"
      proof (cases idx)
        case (Cons q rest)
        then have "q < t" "h ! q \<le> h ! t" "prev = int q" using t(3) by (auto simp: prev_ok_def prev_def)
        then show ?thesis using a by (meson linorder_not_less not_less of_nat_less_iff)
      qed (simp add: prev_def)
      ultimately have "rect l r (h ! t) \<le> h ! t * (int i - prev - 1)"
        unfolding rect_def by (intro mult_left_mono pos) auto
      then show "rect l r (h ! t) \<le> ?res" by simp
    qed
    have snd: "sound h ?res"
    proof (cases "h ! t * (int i - prev - 1) \<le> res")
      case c: False
      have "fits h (nat (prev + 1)) (i - 1) (h ! t)"
        unfolding fits_def
      proof (intro conjI allI impI)
        show "nat (prev + 1) \<le> i - 1" using p(1) t(1) by linarith
        show "i - 1 < length h" using 2(3) by simp
        fix k assume "nat (prev + 1) \<le> k \<and> k \<le> i - 1"
        then show "h ! t \<le> h ! k" using p(2) [of k] top t(1) p(3) by (cases k t rule: linorder_cases) (auto simp: less_imp_le)
      qed
      moreover have "h ! t * (int i - prev - 1) = rect (nat (prev + 1)) (i - 1) (h ! t)" using p(3) t(1) by (simp add: rect_def of_nat_diff)
      ultimately show ?thesis using c b(2) unfolding sound_def by (auto simp: max_def)
    qed (use b(2) in \<open>simp add: max_def\<close>)
    have "pop_inv h i idx ?res"
      unfolding pop_inv_def
    proof (intro conjI)
      show "\<forall>j < i. j \<in> set idx \<or> best h ?res j" using b(1) bt best_mono [of h res _ ?res] by auto
      show "case idx of [] \<Rightarrow> \<forall>j < i. h ! i < h ! j | t # _ \<Rightarrow> t < i \<and> (\<forall>j. t < j \<and> j < i \<longrightarrow> h ! t \<le> h ! j \<and> h ! i < h ! j)"
      proof (cases idx)
        case Nil
        then show ?thesis using p(2) True top by (auto simp: prev_def) (metis less_trans linorder_neqE_nat)
      next
        case (Cons q rest)
        then have q: "q < t" "h ! q \<le> h ! t" "prev = int q" using t(3) by (auto simp: prev_ok_def prev_def)
        have "h ! q \<le> h ! j \<and> h ! i < h ! j" if "q < j" "j < i" for j
          using p(2) [of j] top q True that by (cases j t rule: linorder_cases) force+
        then show ?thesis using Cons q(1) t(1) by auto
      qed
    qed (use t snd in auto)
    from 2(1) [OF get True prev_def this 2(3,4)] show ?thesis using get True by (simp add: prev_def Let_def)
  qed
qed

lemma stack_below: "stack_ok h (t # idx) \<Longrightarrow> p \<in> set idx \<Longrightarrow> h ! p \<le> h ! t"
proof (induction idx arbitrary: t)
  case (Cons q idx)
  have "h ! q \<le> h ! t" using Cons(2) by (simp add: prev_ok_def)
  then show ?case using Cons by (cases "p = q") (auto intro: order_trans)
qed simp

lemma first_lowest:
  assumes "fits h l r x"
  obtains m where "l \<le> m" "m \<le> r" "fits h l r (h ! m)" "\<forall>k. l \<le> k \<and> k < m \<longrightarrow> h ! m < h ! k" "x \<le> h ! m"
proof -
  let ?P = "\<lambda>m. l \<le> m \<and> m \<le> r \<and> (\<forall>k. l \<le> k \<and> k \<le> r \<longrightarrow> h ! m \<le> h ! k)"
  have "Min ((!) h ` {l..r}) \<in> (!) h ` {l..r}" using assms by (intro Min_in) (auto simp: fits_def)
  then obtain m0 where "m0 \<in> {l..r}" "h ! m0 = Min ((!) h ` {l..r})" by auto
  then have "?P m0" by auto
  then have P: "?P (LEAST m. ?P m)" by (rule LeastI)
  let ?m = "LEAST m. ?P m"
  have "h ! ?m < h ! k" if "l \<le> k" "k < ?m" for k
  proof (rule ccontr)
    assume "\<not> h ! ?m < h ! k"
    then have "?P k" using P that by (meson order.trans less_imp_le linorder_not_less)
    then show False using not_less_Least [OF that(2)] by blast
  qed
  then show thesis using that [of ?m] P assms by (auto simp: fits_def)
qed

text \<open>For heights that are not negative: no rectangle under the histogram is larger, and the result is 0 or one of them.\<close>

theorem largestRectangleArea_correct:
  assumes pos: "\<forall>x \<in> set h. 0 \<le> x"
  shows "\<exists>m. largestRectangleArea h = Some (h @ [0], m) \<and> (\<forall>l r x. fits h l r x \<longrightarrow> rect l r x \<le> m) \<and> sound h m"
proof -
  let ?H = "h @ [0]" and ?n = "length h"
  let ?body = "\<lambda>i (idx, res). do { (idx, res) \<leftarrow> pop_higher ?H i idx res; Some (i # idx, res) }"
  define I where "I i s \<longleftrightarrow> (case s of (idx, res) \<Rightarrow> stack_ok ?H idx \<and> (\<forall>j < i. j \<in> set idx \<or> best ?H res j) \<and> sound ?H res \<and>
    (if i = 0 then idx = [] else idx \<noteq> [] \<and> hd idx = i - 1))" for i s
  have "\<exists>s'. for_each [0..<length ?H] ?body ([], 0) = Some s' \<and> I (length ?H) s'"
  proof (rule for_upt)
    show "I 0 ([], 0)" by (simp add: I_def sound_def)
    fix i s assume i: "i < length ?H" "I i s"
    obtain idx res where s: "s = (idx, res)" by force
    have "pop_inv ?H i idx res" using i(2) unfolding s I_def pop_inv_def by (cases idx) (auto split: if_splits)
    then obtain idx' res' where "pop_higher ?H i idx res = Some (idx', res')" "prev_ok ?H i idx'" "stack_ok ?H idx'"
      "\<forall>j < i. j \<in> set idx' \<or> best ?H res' j" "sound ?H res'"
      using pop_higher_ok [of ?H i idx res] i(1) pos by auto
    then show "\<exists>s'. ?body i s = Some s' \<and> I (Suc i) s'" unfolding s I_def by (auto simp: less_Suc_eq)
  qed simp
  then obtain idx res where R: "for_each [0..<length ?H] ?body ([], 0) = Some (idx, res)" "I (length ?H) (idx, res)" by auto
  then obtain rest where idx: "idx = ?n # rest" by (cases idx) (auto simp: I_def)
  have st1: "stack_ok ?H (?n # rest)" "\<forall>j < length ?H. j \<in> set (?n # rest) \<or> best ?H res j" and sd: "sound ?H res"
    using R(2) unfolding I_def idx by simp_all
  have "j \<in> set rest \<or> best ?H res j" if "j < ?n" for j using spec [OF st1(2), of j] that by auto
  then have st: "stack_ok ?H (?n # rest)" "\<forall>j < ?n. j \<in> set rest \<or> best ?H res j" using st1(1) by blast+
  have fit: "fits ?H l r x" if "fits h l r x" for l r x using that by (auto simp: fits_def nth_append)
  have "rect l r x \<le> res" if f: "fits h l r x" for l r x
  proof (cases "x \<le> 0")
    case True
    then have "rect l r x \<le> 0" using f by (auto simp: rect_def fits_def intro!: mult_nonpos_nonneg)
    then show ?thesis using sd by (simp add: sound_def)
  next
    case False
    obtain m where m: "l \<le> m" "m \<le> r" "fits ?H l r (?H ! m)" "\<forall>k. l \<le> k \<and> k < m \<longrightarrow> ?H ! m < ?H ! k" "x \<le> ?H ! m"
      using first_lowest [OF fit [OF f]] by blast
    have "m < ?n" using m(2) f by (simp add: fits_def)
    moreover have "m \<notin> set rest" using stack_below [OF st(1), of m] m(5) False by (auto simp: nth_append)
    ultimately have "rect l r (?H ! m) \<le> res" using st(2) m unfolding best_def by blast
    moreover have "rect l r x \<le> rect l r (?H ! m)" unfolding rect_def using m by (intro mult_right_mono) auto
    ultimately show ?thesis by linarith
  qed
  moreover have "sound h res"
  proof (cases "res = 0")
    case False
    then obtain l r x where f: "fits ?H l r x" "res = rect l r x" "0 < res" using sd by (auto simp: sound_def)
    then have "0 < x" by (auto simp: rect_def fits_def zero_less_mult_iff)
    then have "r < ?n" using f(1) by (auto simp: fits_def nth_append less_Suc_eq split: if_splits)
    then have "fits h l r x" using f(1) by (auto simp: fits_def nth_append)
    then show ?thesis using f by (auto simp: sound_def)
  qed (simp add: sound_def)
  ultimately show ?thesis using R(1) by (auto simp: largestRectangleArea_def)
qed

section \<open>The largest rectangle of ones (leetcode/DP/maximalRectangle.cc)\<close>

text \<open>
  Per row: how many ones lie above each cell, and how far the columns of at least this height
  reach to both sides. Rows are vectors of their own; the code reads as many cells of each as the
  first one has.
\<close>

definition row_heights :: "char list \<Rightarrow> nat \<Rightarrow> int list \<Rightarrow> int list option" where
  "row_heights row n height = for_each [0..<n] (\<lambda>j height. do {
     c \<leftarrow> vget row j; v \<leftarrow> vget height j;
     vset height j (if c = CHR ''1'' then v + 1 else 0) }) height"

definition row_lefts :: "char list \<Rightarrow> nat \<Rightarrow> int list \<Rightarrow> (int list \<times> int) option" where
  "row_lefts row n left = for_each [0..<n] (\<lambda>j (left, curLeft). do {
     c \<leftarrow> vget row j; v \<leftarrow> vget left j;
     if c = CHR ''1'' then do { left \<leftarrow> vset left j (max v curLeft); Some (left, curLeft) }
     else do { left \<leftarrow> vset left j 0; Some (left, int j + 1) } }) (left, 0)"

definition row_rights :: "char list \<Rightarrow> nat \<Rightarrow> int list \<Rightarrow> (int list \<times> int) option" where
  "row_rights row n right = for_each (rev [0..<n]) (\<lambda>j (right, curRight). do {
     c \<leftarrow> vget row j; v \<leftarrow> vget right j;
     if c = CHR ''1'' then do { right \<leftarrow> vset right j (min v curRight); Some (right, curRight) }
     else do { right \<leftarrow> vset right j (int n); Some (right, int j) } }) (right, int n)"

definition row_area :: "nat \<Rightarrow> int list \<Rightarrow> int list \<Rightarrow> int list \<Rightarrow> int \<Rightarrow> int option" where
  "row_area n left right height area = for_each [0..<n] (\<lambda>j area. do {
     h \<leftarrow> vget height j; r \<leftarrow> vget right j; l \<leftarrow> vget left j;
     Some (max area (h * (r - l))) }) area"

definition rectangle_row :: "nat \<Rightarrow> char list \<Rightarrow> int list \<times> int list \<times> int list \<times> int \<Rightarrow> (int list \<times> int list \<times> int list \<times> int) option" where
  "rectangle_row n row = (\<lambda>(left, right, height, area). do {
     height \<leftarrow> row_heights row n height;
     (left, _) \<leftarrow> row_lefts row n left;
     (right, _) \<leftarrow> row_rights row n right;
     area \<leftarrow> row_area n left right height area;
     Some (left, right, height, area) })"

definition maximalRectangle :: "char list list \<Rightarrow> int option" where
  "maximalRectangle matrix = do {
     row0 \<leftarrow> vget matrix 0;
     let n = length row0;
     (left, right, height, area) \<leftarrow> for_each matrix (rectangle_row n) (replicate n 0, replicate n (int n), replicate n 0, 0);
     Some area }"

text \<open>The borders of the columns that are at least as high as column \<open>j\<close>.\<close>

definition lefts_ok :: "int list \<Rightarrow> int list \<Rightarrow> bool" where
  "lefts_ok h left \<longleftrightarrow> length left = length h \<and> (\<forall>j < length h. 0 \<le> left ! j \<and> left ! j \<le> int j \<and>
     (\<forall>k. left ! j \<le> int k \<and> k \<le> j \<longrightarrow> h ! j \<le> h ! k) \<and> (left ! j \<noteq> 0 \<longrightarrow> h ! nat (left ! j - 1) < h ! j))"

definition rights_ok :: "int list \<Rightarrow> int list \<Rightarrow> bool" where
  "rights_ok h right \<longleftrightarrow> length right = length h \<and> (\<forall>j < length h. int j < right ! j \<and> right ! j \<le> int (length h) \<and>
     (\<forall>k. j \<le> k \<and> int k < right ! j \<longrightarrow> h ! j \<le> h ! k) \<and> (right ! j \<noteq> int (length h) \<longrightarrow> h ! nat (right ! j) < h ! j))"

definition next_height :: "char list \<Rightarrow> int list \<Rightarrow> int list" where
  "next_height row h = map2 (\<lambda>c v. if c = CHR ''1'' then v + 1 else 0) row h"

lemma row_heights_ok:
  assumes "length row = n" and "length h = n"
  shows "row_heights row n h = Some (next_height row h)"
proof -
  let ?g = "\<lambda>j. if row ! j = CHR ''1'' then h ! j + 1 else 0"
  have "\<exists>h'. row_heights row n h = Some h' \<and> (length h' = n \<and> (\<forall>k < n. h' ! k = (if k < n then ?g k else h ! k)))"
    unfolding row_heights_def
  proof (rule for_upt [where I = "\<lambda>i h'. length h' = n \<and> (\<forall>k < n. h' ! k = (if k < i then ?g k else h ! k))"])
    fix i h' assume "i < n" "length h' = n \<and> (\<forall>k < n. h' ! k = (if k < i then ?g k else h ! k))"
    then show "\<exists>s'. do { c \<leftarrow> vget row i; v \<leftarrow> vget h' i; vset h' i (if c = CHR ''1'' then v + 1 else 0) } = Some s' \<and>
        length s' = n \<and> (\<forall>k < n. s' ! k = (if k < Suc i then ?g k else h ! k))"
      using assms(1) by (auto simp: vget_def vset_def nth_list_update less_Suc_eq)
  qed (use assms in auto)
  then obtain h' where "row_heights row n h = Some h'" "length h' = n" "\<forall>k < n. h' ! k = ?g k" by auto
  moreover have "next_height row h = h'"
    using calculation(2,3) assms by (intro nth_equalityI) (auto simp: next_height_def)
  ultimately show ?thesis by simp
qed

lemma next_height_nth: "length row = n \<Longrightarrow> length h = n \<Longrightarrow> k < n \<Longrightarrow> next_height row h ! k = (if row ! k = CHR ''1'' then h ! k + 1 else 0)"
  by (simp add: next_height_def)

lemma row_lefts_ok:
  assumes len: "length row = n" "length h = n" and pos: "\<forall>x \<in> set h. 0 \<le> x" and ok: "lefts_ok h left"
  shows "\<exists>left' c. row_lefts row n left = Some (left', c) \<and> lefts_ok (next_height row h) left'"
proof -
  let ?h = "next_height row h"
  note nh = next_height_nth [OF len]
  let ?P = "\<lambda>left j. 0 \<le> left ! j \<and> left ! j \<le> int j \<and> (\<forall>k. left ! j \<le> int k \<and> k \<le> j \<longrightarrow> ?h ! j \<le> ?h ! k) \<and>
     (left ! j \<noteq> 0 \<longrightarrow> ?h ! nat (left ! j - 1) < ?h ! j)"
  define I where "I i s \<longleftrightarrow> (case s of (ls, c) \<Rightarrow> length ls = n \<and> 0 \<le> c \<and> c \<le> int i \<and> (\<forall>k. c \<le> int k \<and> k < i \<longrightarrow> row ! k = CHR ''1'') \<and>
     (c \<noteq> 0 \<longrightarrow> row ! nat (c - 1) \<noteq> CHR ''1'') \<and> (\<forall>j < n. if j < i then ?P ls j else ls ! j = left ! j))" for i s
  have "\<exists>s. row_lefts row n left = Some s \<and> I n s"
    unfolding row_lefts_def
  proof (rule for_upt)
    show "I 0 (left, 0)" using ok len by (simp add: I_def lefts_ok_def)
    fix i s assume i: "i < n" "I i s"
    obtain ls c where s: "s = (ls, c)" by force
    have I: "length ls = n" "0 \<le> c" "c \<le> int i" "\<forall>k. c \<le> int k \<and> k < i \<longrightarrow> row ! k = CHR ''1''"
      "c \<noteq> 0 \<longrightarrow> row ! nat (c - 1) \<noteq> CHR ''1''" "\<forall>j < n. if j < i then ?P ls j else ls ! j = left ! j"
      using i(2) unfolding s I_def by simp_all
    have li: "ls ! i = left ! i" using I(6) i(1) by auto
    show "\<exists>s'. (case s of (left, curLeft) \<Rightarrow> do { c \<leftarrow> vget row i; v \<leftarrow> vget left i;
        if c = CHR ''1'' then do { left \<leftarrow> vset left i (max v curLeft); Some (left, curLeft) }
        else do { left \<leftarrow> vset left i 0; Some (left, int i + 1) } }) = Some s' \<and> I (Suc i) s'"
    proof (cases "row ! i = CHR ''1''")
      case False
      have z: "?h ! i = 0" using nh [OF i(1)] False by simp
      have nn: "0 \<le> ?h ! k" if "k < n" for k using nh [OF that] pos len that by (auto simp: le_add_same_cancel2 intro: order_trans [of _ "h ! k"])
      have "?P (ls[i := 0]) i" using z nn i(1) I(1) by auto
      then show ?thesis unfolding s using False i(1) I len by (auto simp: I_def vget_def vset_def less_Suc_eq)
    next
      case True
      let ?m = "max (left ! i) c"
      have l: "0 \<le> left ! i" "left ! i \<le> int i" "\<forall>k. left ! i \<le> int k \<and> k \<le> i \<longrightarrow> h ! i \<le> h ! k" "left ! i \<noteq> 0 \<longrightarrow> h ! nat (left ! i - 1) < h ! i"
        using ok i(1) len by (auto simp: lefts_ok_def)
      have hi: "?h ! i = h ! i + 1" using nh [OF i(1)] True by simp
      have "?h ! i \<le> ?h ! k" if "?m \<le> int k" "k \<le> i" for k
      proof -
        have "row ! k = CHR ''1''" using I(4) True that by (cases "k = i") auto
        then show ?thesis using hi nh [of k] l(3) that i(1) by auto
      qed
      moreover have "?h ! nat (?m - 1) < ?h ! i" if "?m \<noteq> 0"
      proof (cases "left ! i \<le> c")
        case c: True
        then have "c \<noteq> 0" using that l(1) by auto
        then have "row ! nat (c - 1) \<noteq> CHR ''1''" "nat (c - 1) < n" using I(3,5) i(1) I(2) by auto
        then show ?thesis using c hi nh [of "nat (c - 1)"] pos i(1) len by (auto simp: max_def add_nonneg_pos)
      next
        case c: False
        then have "h ! nat (left ! i - 1) < h ! i" "nat (left ! i - 1) < n" using l(1,2,4) I(2) i(1) by auto
        moreover have "row ! nat (left ! i - 1) = CHR ''1''" using I(2,4) c l(2) by auto
        ultimately show ?thesis using c hi nh [of "nat (left ! i - 1)"] by (auto simp: max_def)
      qed
      ultimately have "?P (ls[i := ?m]) i" using l(1,2) I(1,2,3) i(1) by auto
      then show ?thesis unfolding s using True i(1) I li len by (auto simp: I_def vget_def vset_def less_Suc_eq)
    qed
  qed simp
  then obtain ls c where "row_lefts row n left = Some (ls, c)" "I n (ls, c)" by auto
  then show ?thesis using len by (auto simp: I_def lefts_ok_def next_height_def)
qed

lemma row_rights_ok:
  assumes len: "length row = n" "length h = n" and pos: "\<forall>x \<in> set h. 0 \<le> x" and ok: "rights_ok h right"
  shows "\<exists>right' c. row_rights row n right = Some (right', c) \<and> rights_ok (next_height row h) right'"
proof -
  let ?h = "next_height row h"
  note nh = next_height_nth [OF len]
  let ?P = "\<lambda>right j. int j < right ! j \<and> right ! j \<le> int n \<and> (\<forall>k. j \<le> k \<and> int k < right ! j \<longrightarrow> ?h ! j \<le> ?h ! k) \<and>
     (right ! j \<noteq> int n \<longrightarrow> ?h ! nat (right ! j) < ?h ! j)"
  define I where "I i s \<longleftrightarrow> (case s of (rs, c) \<Rightarrow> length rs = n \<and> c \<le> int n \<and> int i \<le> c \<and> (\<forall>k. i \<le> k \<and> int k < c \<longrightarrow> row ! k = CHR ''1'') \<and>
     (c \<noteq> int n \<longrightarrow> row ! nat c \<noteq> CHR ''1'') \<and> (\<forall>j < n. if i \<le> j then ?P rs j else rs ! j = right ! j))" for i s
  have "\<exists>s. row_rights row n right = Some s \<and> I 0 s"
    unfolding row_rights_def
  proof (rule for_down)
    show "I n (right, int n)" using ok len by (auto simp: I_def rights_ok_def)
    fix i s assume i: "i < n" "I (Suc i) s"
    obtain rs c where s: "s = (rs, c)" by force
    have I: "length rs = n" "c \<le> int n" "int i < c" "\<forall>k. Suc i \<le> k \<and> int k < c \<longrightarrow> row ! k = CHR ''1''"
      "c \<noteq> int n \<longrightarrow> row ! nat c \<noteq> CHR ''1''" "\<forall>j < n. if Suc i \<le> j then ?P rs j else rs ! j = right ! j"
      using i(2) unfolding s I_def by simp_all
    have ri: "rs ! i = right ! i" using I(6) i(1) by auto
    have all: "\<forall>j < n. if i \<le> j then ?P (rs[i := x]) j else rs[i := x] ! j = right ! j" if x: "?P (rs[i := x]) i" for x
    proof (intro allI impI)
      fix j assume j: "j < n"
      show "if i \<le> j then ?P (rs[i := x]) j else rs[i := x] ! j = right ! j"
      proof (cases "j = i")
        case True
        then show ?thesis using x by simp
      next
        case False
        have "if Suc i \<le> j then ?P rs j else rs ! j = right ! j" using I(6) j by blast
        moreover have "Suc i \<le> j \<longleftrightarrow> i \<le> j" "rs[i := x] ! j = rs ! j" using False by auto
        ultimately show ?thesis by (simp only:)
      qed
    qed
    show "\<exists>s'. (case s of (right, curRight) \<Rightarrow> do { c \<leftarrow> vget row i; v \<leftarrow> vget right i;
        if c = CHR ''1'' then do { right \<leftarrow> vset right i (min v curRight); Some (right, curRight) }
        else do { right \<leftarrow> vset right i (int n); Some (right, int i) } }) = Some s' \<and> I i s'"
    proof (cases "row ! i = CHR ''1''")
      case False
      have z: "?h ! i = 0" using nh [OF i(1)] False by simp
      have nn: "0 \<le> ?h ! k" if "k < n" for k using nh [OF that] pos len that by (auto simp: le_add_same_cancel2 intro: order_trans [of _ "h ! k"])
      have "?P (rs[i := int n]) i" using z nn i(1) I(1) by auto
      then have "\<forall>j < n. if i \<le> j then ?P (rs[i := int n]) j else rs[i := int n] ! j = right ! j" by (rule all)
      then show ?thesis unfolding s using False i(1) I len by (auto simp: I_def vget_def vset_def)
    next
      case True
      let ?m = "min (right ! i) c"
      have l: "int i < right ! i" "right ! i \<le> int n" "\<forall>k. i \<le> k \<and> int k < right ! i \<longrightarrow> h ! i \<le> h ! k" "right ! i \<noteq> int n \<longrightarrow> h ! nat (right ! i) < h ! i"
        using ok i(1) len by (auto simp: rights_ok_def)
      have hi: "?h ! i = h ! i + 1" using nh [OF i(1)] True by simp
      have "?h ! i \<le> ?h ! k" if "i \<le> k" "int k < ?m" for k
      proof -
        have "row ! k = CHR ''1''" using I(4) True that by (cases "k = i") auto
        then show ?thesis using hi nh [of k] l(2,3) that i(1) by auto
      qed
      moreover have "?h ! nat ?m < ?h ! i" if "?m \<noteq> int n"
      proof (cases "c \<le> right ! i")
        case c: True
        then have "c \<noteq> int n" using that l(2) by auto
        then have "row ! nat c \<noteq> CHR ''1''" "nat c < n" using I(2,3,5) i(1) by auto
        then show ?thesis using c hi nh [of "nat c"] pos i(1) len by (auto simp: min_def add_nonneg_pos)
      next
        case c: False
        then have "h ! nat (right ! i) < h ! i" "nat (right ! i) < n" using l(1,2,4) I(2) i(1) by auto
        moreover have "row ! nat (right ! i) = CHR ''1''" using I(4) c l(1) by auto
        ultimately show ?thesis using c hi nh [of "nat (right ! i)"] by (auto simp: min_def)
      qed
      ultimately have "?P (rs[i := ?m]) i" using l(1,2) I(1,2,3) i(1) by auto
      then have upd: "\<forall>j < n. if i \<le> j then ?P (rs[i := ?m]) j else rs[i := ?m] ! j = right ! j" by (rule all)
      have "row ! k = CHR ''1''" if "i \<le> k" "int k < c" for k using I(4) True that by (cases "k = i") auto
      then show ?thesis unfolding s using True i(1) I ri len upd by (auto simp: I_def vget_def vset_def)
    qed
  qed
  then obtain rs c where "row_rights row n right = Some (rs, c)" "I 0 (rs, c)" by auto
  then show ?thesis using len by (auto simp: I_def rights_ok_def next_height_def)
qed

text \<open>With correct borders, the areas of a row are those of the largest rectangles in its histogram.\<close>

lemma row_area_ok:
  assumes "lefts_ok h left" and "rights_ok h right" and "length h = n"
  shows "\<exists>a. row_area n left right h area = Some a \<and> area \<le> a \<and> (\<forall>l r x. fits h l r x \<and> 0 \<le> x \<longrightarrow> rect l r x \<le> a) \<and>
    (a = area \<or> (\<exists>l r x. fits h l r x \<and> a = rect l r x))"
proof -
  let ?v = "\<lambda>j. h ! j * (right ! j - left ! j)"
  have len: "length left = n" "length right = n" using assms by (auto simp: lefts_ok_def rights_ok_def)
  have fit: "fits h (nat (left ! j)) (nat (right ! j) - 1) (h ! j)" and rct: "?v j = rect (nat (left ! j)) (nat (right ! j) - 1) (h ! j)" if "j < n" for j
  proof -
    have l: "0 \<le> left ! j" "left ! j \<le> int j" "\<And>k. left ! j \<le> int k \<Longrightarrow> k \<le> j \<Longrightarrow> h ! j \<le> h ! k"
      using assms(1,3) that by (auto simp: lefts_ok_def)
    have r: "int j < right ! j" "right ! j \<le> int n" "\<And>k. j \<le> k \<Longrightarrow> int k < right ! j \<Longrightarrow> h ! j \<le> h ! k"
      using assms(2,3) that by (auto simp: rights_ok_def)
    have "h ! j \<le> h ! k" if "nat (left ! j) \<le> k" "k \<le> nat (right ! j) - 1" for k
      using l(1) l(3) [of k] r(1) r(3) [of k] that by (cases "k \<le> j") auto
    then show "fits h (nat (left ! j)) (nat (right ! j) - 1) (h ! j)"
      using l(1,2) r(1,2) assms(3) unfolding fits_def by auto
    show "?v j = rect (nat (left ! j)) (nat (right ! j) - 1) (h ! j)"
      using l(1) r(1) by (simp add: rect_def of_nat_diff)
  qed
  let ?I = "\<lambda>i a. area \<le> a \<and> (\<forall>j < i. ?v j \<le> a) \<and> (a = area \<or> (\<exists>j < n. a = ?v j))"
  have "\<exists>a. row_area n left right h area = Some a \<and> ?I n a"
    unfolding row_area_def
  proof (rule for_upt [where I = ?I])
    fix i a assume i: "i < n" "?I i a"
    then show "\<exists>s'. do { h \<leftarrow> vget h i; r \<leftarrow> vget right i; l \<leftarrow> vget left i; Some (max a (h * (r - l))) } = Some s' \<and> ?I (Suc i) s'"
      using len assms(3) by (auto simp: vget_def max_def less_Suc_eq intro: order_trans)
  qed simp_all
  then obtain a where a: "row_area n left right h area = Some a" "?I n a" by blast
  have "rect l r x \<le> a" if f: "fits h l r x" "0 \<le> x" for l r x
  proof -
    obtain m where m: "l \<le> m" "m \<le> r" "fits h l r (h ! m)" "x \<le> h ! m" using first_lowest [OF f(1)] by blast
    have mn: "m < n" using m(2) f(1) assms(3) by (simp add: fits_def)
    have "left ! m \<le> int l"
    proof (rule ccontr)
      assume c: "\<not> left ! m \<le> int l"
      then have "h ! nat (left ! m - 1) < h ! m" "left ! m \<le> int m" using assms(1,3) mn by (auto simp: lefts_ok_def)
      moreover have "l \<le> nat (left ! m - 1) \<and> nat (left ! m - 1) \<le> r" using m(2) c calculation(2) by auto
      then have "h ! m \<le> h ! nat (left ! m - 1)" using m(3) unfolding fits_def by blast
      ultimately show False by simp
    qed
    moreover have "int r < right ! m"
    proof (rule ccontr)
      assume c: "\<not> int r < right ! m"
      then have "h ! nat (right ! m) < h ! m" "int m < right ! m" using assms(2,3) mn f(1) by (auto simp: rights_ok_def fits_def)
      moreover have "l \<le> nat (right ! m) \<and> nat (right ! m) \<le> r" using m(1) c calculation(2) by auto
      then have "h ! m \<le> h ! nat (right ! m)" using m(3) unfolding fits_def by blast
      ultimately show False by simp
    qed
    ultimately have "rect l r x \<le> ?v m" unfolding rect_def using m f(2) by (intro mult_mono) auto
    then show ?thesis using a(2) mn by force
  qed
  then show ?thesis using a fit rct by (intro exI [of _ a]) blast
qed

text \<open>A rectangle of ones: the rows from \<open>t\<close> to \<open>b\<close>, the columns from \<open>l\<close> to \<open>r\<close>.\<close>

definition ones :: "char list list \<Rightarrow> nat \<Rightarrow> nat \<Rightarrow> nat \<Rightarrow> nat \<Rightarrow> bool" where
  "ones m t b l r \<longleftrightarrow> t \<le> b \<and> b < length m \<and> l \<le> r \<and> r < length (hd m) \<and>
     (\<forall>i j. t \<le> i \<and> i \<le> b \<and> l \<le> j \<and> j \<le> r \<longrightarrow> m ! i ! j = CHR ''1'')"

fun heights :: "nat \<Rightarrow> char list list \<Rightarrow> int list" where
  "heights n [] = replicate n 0"
| "heights n (row # rows) = next_height row (heights n rows)"

lemma heights_length [simp]: "\<forall>row \<in> set rows. length row = n \<Longrightarrow> length (heights n rows) = n"
  by (induction rows) (auto simp: next_height_def)

text \<open>A height counts the ones at the end of its column.\<close>

lemma heights_ge:
  "\<forall>row \<in> set rows. length row = n \<Longrightarrow> j < n \<Longrightarrow> int x \<le> heights n rows ! j \<longleftrightarrow> (\<forall>k < x. k < length rows \<and> rows ! k ! j = CHR ''1'')"
proof (induction rows arbitrary: x)
  case Nil
  then show ?case by auto
next
  case (Cons row rows)
  have nh: "heights n (row # rows) ! j = (if row ! j = CHR ''1'' then heights n rows ! j + 1 else 0)"
    using Cons(2,3) by (simp add: next_height_nth [of row n "heights n rows"])
  show ?case
  proof (cases x)
    case 0
    have "0 \<le> heights n rows ! j" using Cons(1) [of 0] Cons(2,3) by simp
    then show ?thesis using nh 0 by auto
  next
    case (Suc y)
    have "int y \<le> heights n rows ! j \<longleftrightarrow> (\<forall>k < y. k < length rows \<and> rows ! k ! j = CHR ''1'')" using Cons by simp
    then show ?thesis unfolding nh Suc by (auto simp: All_less_Suc2)
  qed
qed

lemma heights_nonneg: "\<forall>row \<in> set rows. length row = n \<Longrightarrow> \<forall>x \<in> set (heights n rows). 0 \<le> x"
  using heights_ge [of rows n _ 0] by (auto simp: in_set_conv_nth)

text \<open>The rectangles whose last row is the current one.\<close>

lemma ones_fits:
  assumes rows: "\<forall>row \<in> set m. length row = n" and i: "i < length m" and x: "0 < x" "x \<le> Suc i"
  shows "fits (heights n (rev (take (Suc i) m))) l r (int x) \<longleftrightarrow> ones m (Suc i - x) i l r"
proof -
  let ?p = "rev (take (Suc i) m)"
  have p: "\<forall>row \<in> set ?p. length row = n" using rows by (auto dest: in_set_takeD)
  have n: "length (hd m) = n" using rows i by (cases m) auto
  have nth: "?p ! k = m ! (i - k)" if "k \<le> i" for k using that i by (simp add: rev_nth)
  have "int x \<le> heights n ?p ! j \<longleftrightarrow> (\<forall>q. Suc i - x \<le> q \<and> q \<le> i \<longrightarrow> m ! q ! j = CHR ''1'')" if j: "j < n" for j
  proof
    assume "int x \<le> heights n ?p ! j"
    then have h: "\<forall>k < x. ?p ! k ! j = CHR ''1''" using heights_ge [OF p j] by blast
    show "\<forall>q. Suc i - x \<le> q \<and> q \<le> i \<longrightarrow> m ! q ! j = CHR ''1''"
    proof (intro allI impI)
      fix q assume q: "Suc i - x \<le> q \<and> q \<le> i"
      then have "i - q < x" using x by linarith
      then have "?p ! (i - q) ! j = CHR ''1''" using h by blast
      then show "m ! q ! j = CHR ''1''" using nth [of "i - q"] q by simp
    qed
  next
    assume h: "\<forall>q. Suc i - x \<le> q \<and> q \<le> i \<longrightarrow> m ! q ! j = CHR ''1''"
    have "k < length ?p \<and> ?p ! k ! j = CHR ''1''" if "k < x" for k
      using h [rule_format, of "i - k"] nth [of k] that x i by auto
    then show "int x \<le> heights n ?p ! j" using heights_ge [OF p j] by blast
  qed
  then show ?thesis unfolding fits_def ones_def n heights_length [OF p] using i x by (auto simp: le_less_trans)
qed

definition ones_area :: "nat \<Rightarrow> nat \<Rightarrow> nat \<Rightarrow> nat \<Rightarrow> int" where
  "ones_area t b l r = (int b - int t + 1) * (int r - int l + 1)"

text \<open>The result is the area of the largest rectangle of ones of a matrix, 0 if it has no ones.\<close>

theorem maximalRectangle_correct:
  assumes rows: "\<forall>row \<in> set matrix. length row = length (hd matrix)" and ne: "matrix \<noteq> []"
  shows "\<exists>a. maximalRectangle matrix = Some a \<and> (\<forall>t b l r. ones matrix t b l r \<longrightarrow> ones_area t b l r \<le> a) \<and>
    (a = 0 \<or> (\<exists>t b l r. ones matrix t b l r \<and> a = ones_area t b l r))"
proof -
  define n where "n = length (hd matrix)"
  have rows': "\<forall>row \<in> set matrix. length row = n" using rows by (simp add: n_def)
  let ?hs = "\<lambda>i. heights n (rev (take i matrix))"
  have pre: "\<forall>row \<in> set (rev (take i matrix)). length row = n" for i using rows' by (auto dest: in_set_takeD)
  define I where "I i s \<longleftrightarrow> (case s of (left, right, height, area) \<Rightarrow> height = ?hs i \<and> lefts_ok (?hs i) left \<and> rights_ok (?hs i) right \<and>
     0 \<le> area \<and> (\<forall>t b l r. b < i \<and> ones matrix t b l r \<longrightarrow> ones_area t b l r \<le> area) \<and>
     (area = 0 \<or> (\<exists>t b l r. ones matrix t b l r \<and> area = ones_area t b l r)))" for i s
  have "\<exists>s. for_each [0..<length matrix] (\<lambda>i. rectangle_row n (matrix ! i)) (replicate n 0, replicate n (int n), replicate n 0, 0) = Some s \<and>
      I (length matrix) s"
  proof (rule for_upt)
    show "I 0 (replicate n 0, replicate n (int n), replicate n 0, 0)" by (simp add: I_def lefts_ok_def rights_ok_def)
    fix i s assume i: "i < length matrix" "I i s"
    obtain left right height area where s: "s = (left, right, height, area)" using prod_cases4 by blast
    have I: "height = ?hs i" "lefts_ok (?hs i) left" "rights_ok (?hs i) right" "0 \<le> area"
      "\<forall>t b l r. b < i \<and> ones matrix t b l r \<longrightarrow> ones_area t b l r \<le> area"
      "area = 0 \<or> (\<exists>t b l r. ones matrix t b l r \<and> area = ones_area t b l r)" using i(2) unfolding s I_def by simp_all
    have row: "length (matrix ! i) = n" using rows' i(1) by simp
    have hl: "length (?hs i) = n" using pre by simp
    have hp: "\<forall>x \<in> set (?hs i). 0 \<le> x" by (rule heights_nonneg [OF pre])
    have step: "next_height (matrix ! i) (?hs i) = ?hs (Suc i)" using i(1) by (simp add: take_Suc_conv_app_nth)
    obtain left' c where l': "row_lefts (matrix ! i) n left = Some (left', c)" "lefts_ok (?hs (Suc i)) left'"
      using row_lefts_ok [OF row hl hp I(2)] unfolding step by blast
    obtain right' c' where r': "row_rights (matrix ! i) n right = Some (right', c')" "rights_ok (?hs (Suc i)) right'"
      using row_rights_ok [OF row hl hp I(3)] unfolding step by blast
    obtain a where a: "row_area n left' right' (?hs (Suc i)) area = Some a" "area \<le> a"
      "\<forall>l r x. fits (?hs (Suc i)) l r x \<and> 0 \<le> x \<longrightarrow> rect l r x \<le> a" "a = area \<or> (\<exists>l r x. fits (?hs (Suc i)) l r x \<and> a = rect l r x)"
      using row_area_ok [OF l'(2) r'(2), of n area] pre by auto
    have conv: "rect l r (int (Suc i) - int t) = ones_area t i l r" for t l r by (simp add: rect_def ones_area_def)
    have "ones_area t b l r \<le> a" if b: "b < Suc i" "ones matrix t b l r" for t b l r
    proof (cases "b = i")
      case True
      then have t: "t \<le> i" using b(2) by (simp add: ones_def)
      have "fits (?hs (Suc i)) l r (int (Suc i - t))" using ones_fits [OF rows' i(1), of "Suc i - t" l r] t b(2) True by simp
      then have "rect l r (int (Suc i - t)) \<le> a" using a(3) by simp
      then show ?thesis using conv [of l r t] t True by (simp add: of_nat_diff)
    next
      case False
      then show ?thesis using I(5) a(2) b by (meson less_SucE order_trans)
    qed
    moreover have "a = 0 \<or> (\<exists>t b l r. ones matrix t b l r \<and> a = ones_area t b l r)"
    proof (cases "a = area \<or> a = 0")
      case False
      then obtain l r x where f: "fits (?hs (Suc i)) l r x" "a = rect l r x" "0 < a" using a(2,4) I(4) by auto
      then have "0 < x" by (auto simp: rect_def fits_def zero_less_mult_iff)
      then obtain y where y: "x = int y" "0 < y" by (metis zero_less_imp_eq_int)
      have "r < n" "int y \<le> ?hs (Suc i) ! r" using f(1) y pre by (auto simp: fits_def)
      then have "\<forall>k < y. k < length (rev (take (Suc i) matrix))" using heights_ge [OF pre] by blast
      then have "y \<le> Suc i" using y(2) by (auto dest: spec [of _ "y - 1"])
      then have "ones matrix (Suc i - y) i l r" using ones_fits [OF rows' i(1) y(2)] f(1) y(1) by blast
      moreover have "a = ones_area (Suc i - y) i l r" using f(2) y(1) \<open>y \<le> Suc i\<close> by (simp add: rect_def ones_area_def of_nat_diff)
      ultimately show ?thesis by blast
    qed (use I(6) in auto)
    moreover have "rectangle_row n (matrix ! i) s = Some (left', right', ?hs (Suc i), a)"
      unfolding rectangle_row_def s I(1) using row_heights_ok [OF row hl] l'(1) r'(1) a(1) step by (simp del: bind_eq_Some)
    ultimately show "\<exists>s'. rectangle_row n (matrix ! i) s = Some s' \<and> I (Suc i) s'"
      using l'(2) r'(2) a(2) I(4) by (intro exI [of _ "(left', right', ?hs (Suc i), a)"]) (simp add: I_def)
  qed simp
  then obtain left right height a where R: "for_each matrix (rectangle_row n) (replicate n 0, replicate n (int n), replicate n 0, 0) = Some (left, right, height, a)"
    "I (length matrix) (left, right, height, a)"
    using for_each_map [of "(!) matrix" "[0..<length matrix]" "rectangle_row n"] by (auto simp: map_nth)
  have "vget matrix 0 = Some (hd matrix)" using ne by (cases matrix) (auto simp: vget_def)
  then have "maximalRectangle matrix = Some a" using R(1) by (simp add: maximalRectangle_def n_def Let_def)
  moreover have "b < length matrix" if "ones matrix t b l r" for t b l r using that by (simp add: ones_def)
  ultimately show ?thesis using R(2) unfolding I_def by blast
qed

text \<open>An empty matrix is undefined.\<close>

theorem maximalRectangle_empty: "maximalRectangle [] = None"
  by (simp add: maximalRectangle_def vget_def)

end
