(* ===== verification/StringDP.thy ===== *)
theory StringDP
  imports Tables
begin

section \<open>Edit distance (leetcode/DP/minStringDistance.cc)\<close>

text \<open>
  The table \<open>dp\<close> holds at \<open>(i, j)\<close> the distance of the prefixes of lengths \<open>i\<close> and
  \<open>j\<close>. The result is compared with the least number of single edits that lead from one string
  to the other.
\<close>

definition distance_cell :: "string \<Rightarrow> string \<Rightarrow> nat \<Rightarrow> nat \<Rightarrow> nat list list \<Rightarrow> nat list list option" where
  "distance_cell word1 word2 i j dp = do {
     x \<leftarrow> vget word1 (i - 1);
     y \<leftarrow> vget word2 (j - 1);
     if x = y then do { d \<leftarrow> tget dp (i - 1) (j - 1); tset dp i j d }
     else do {
       d1 \<leftarrow> tget dp (i - 1) (j - 1);
       d2 \<leftarrow> tget dp (i - 1) j;
       d3 \<leftarrow> tget dp i (j - 1);
       tset dp i j (min d1 (min d2 d3) + 1) } }"

definition minDistance :: "string \<Rightarrow> string \<Rightarrow> nat option" where
  "minDistance word1 word2 = do {
     let m = length word1;
     let n = length word2;
     let dp = replicate (m + 1) (replicate (n + 1) 0);
     dp \<leftarrow> for_each [0..<m + 1] (\<lambda>i dp. tset dp i 0 i) dp;
     dp \<leftarrow> for_each [0..<n + 1] (\<lambda>j dp. tset dp 0 j j) dp;
     dp \<leftarrow> for_each [1..<m + 1] (\<lambda>i. for_each [1..<n + 1] (distance_cell word1 word2 i)) dp;
     tget dp m n }"

subsection \<open>What it computes\<close>

text \<open>One edit replaces, inserts or deletes one character.\<close>

inductive edit_step :: "'a list \<Rightarrow> 'a list \<Rightarrow> bool" where
  replace: "edit_step (u @ x # v) (u @ y # v)"
| insert: "edit_step (u @ v) (u @ y # v)"
| delete: "edit_step (u @ x # v) (u @ v)"

text \<open>An alignment of two words and its cost.\<close>

inductive aligned :: "'a list \<Rightarrow> 'a list \<Rightarrow> nat \<Rightarrow> bool" where
  al_Nil: "aligned [] [] 0"
| al_same: "aligned u v k \<Longrightarrow> aligned (x # u) (x # v) k"
| al_replace: "aligned u v k \<Longrightarrow> aligned (x # u) (y # v) (Suc k)"
| al_delete: "aligned u v k \<Longrightarrow> aligned (x # u) v (Suc k)"
| al_insert: "aligned u v k \<Longrightarrow> aligned u (y # v) (Suc k)"

inductive_cases aligned_ConsE: "aligned (x # u) v k"

lemma aligned_refl: "aligned u u 0"
  by (induction u) (auto intro: aligned.intros)

lemma aligned_insert_all: "aligned [] v (length v)"
  by (induction v) (auto intro: aligned.intros)

lemma aligned_delete_all: "aligned u [] (length u)"
  by (induction u) (auto intro: aligned.intros)

lemma aligned_append: "aligned u v k \<Longrightarrow> aligned u' v' k' \<Longrightarrow> aligned (u @ u') (v @ v') (k + k')"
  by (induction rule: aligned.induct) (auto intro: aligned.intros)

lemma aligned_Nil_iff: "aligned [] v k \<longleftrightarrow> k = length v"
proof
  show "aligned [] v k \<Longrightarrow> k = length v" by (induction "[] :: 'a list" v k rule: aligned.induct) simp_all
qed (simp add: aligned_insert_all)

lemma aligned_length: "aligned u v k \<Longrightarrow> length v \<le> k + length u \<and> length u \<le> k + length v"
  by (induction rule: aligned.induct) auto

lemma aligned_split:
  "aligned (a @ b) w k \<Longrightarrow> \<exists>w1 w2 k1 k2. w = w1 @ w2 \<and> k = k1 + k2 \<and> aligned a w1 k1 \<and> aligned b w2 k2"
proof (induction "a @ b" w k arbitrary: a b rule: aligned.induct)
  case al_Nil
  then show ?case by (auto intro: aligned.intros)
next
  case (al_same u v k x)
  show ?case
  proof (cases a)
    case Nil
    then show ?thesis using al_same.hyps by (metis aligned.al_Nil aligned.al_same append_Nil add_0)
  next
    case (Cons y a')
    then have "u = a' @ b" "y = x" using al_same.hyps(3) by auto
    then obtain w1 w2 k1 k2 where "v = w1 @ w2" "k = k1 + k2" "aligned a' w1 k1" "aligned b w2 k2"
      using al_same.hyps(2) by blast
    then show ?thesis unfolding Cons \<open>y = x\<close> by (metis aligned.al_same append_Cons)
  qed
next
  case (al_replace u v k x y)
  show ?case
  proof (cases a)
    case Nil
    then show ?thesis using al_replace.hyps by (metis aligned.al_Nil aligned.al_replace append_Nil add_0)
  next
    case (Cons z a')
    then have "u = a' @ b" "z = x" using al_replace.hyps(3) by auto
    then obtain w1 w2 k1 k2 where "v = w1 @ w2" "k = k1 + k2" "aligned a' w1 k1" "aligned b w2 k2"
      using al_replace.hyps(2) by blast
    then show ?thesis unfolding Cons \<open>z = x\<close> by (metis aligned.al_replace append_Cons add_Suc)
  qed
next
  case (al_delete u v k x)
  show ?case
  proof (cases a)
    case Nil
    then show ?thesis using al_delete.hyps by (metis aligned.al_Nil aligned.al_delete append_Nil add_0)
  next
    case (Cons z a')
    then have "u = a' @ b" "z = x" using al_delete.hyps(3) by auto
    then obtain w1 w2 k1 k2 where "v = w1 @ w2" "k = k1 + k2" "aligned a' w1 k1" "aligned b w2 k2"
      using al_delete.hyps(2) by blast
    then show ?thesis unfolding Cons \<open>z = x\<close> by (metis aligned.al_delete add_Suc)
  qed
next
  case (al_insert v k y)
  then obtain w1 w2 k1 k2 where "v = w1 @ w2" "k = k1 + k2" "aligned a w1 k1" "aligned b w2 k2" by blast
  then show ?case by (metis aligned.al_insert append_Cons add_Suc)
qed

text \<open>Changing one side by at most one character costs at most one more.\<close>

lemma aligned_to_one: "w \<noteq> [] \<Longrightarrow> aligned [x] w (length w)"
  by (cases w) (auto intro: aligned.intros aligned_insert_all)

lemma aligned_edit_step:
  assumes "edit_step u v" and "aligned v w k"
  shows "\<exists>k'. aligned u w k' \<and> k' \<le> Suc k"
proof -
  obtain a c d b where cd: "u = a @ c @ b" "v = a @ d @ b" "length c \<le> 1" "length d \<le> 1" "c \<noteq> [] \<or> d \<noteq> []"
    using assms(1)
  proof cases
    case (replace u x v y)
    then show ?thesis using that [of u "[x]" v "[y]"] by simp
  next
    case (insert u v y)
    then show ?thesis using that [of u "[]" v "[y]"] by simp
  next
    case (delete u x v)
    then show ?thesis using that [of u "[x]" v "[]"] by simp
  qed
  obtain w1 w2 k1 k2 where 1: "w = w1 @ w2" "k = k1 + k2" "aligned a w1 k1" "aligned (d @ b) w2 k2"
    using aligned_split [of a "d @ b"] assms(2) cd(2) by blast
  obtain w3 w4 k3 k4 where 2: "w2 = w3 @ w4" "k2 = k3 + k4" "aligned d w3 k3" "aligned b w4 k4"
    using aligned_split [OF 1(4)] by blast
  have "\<exists>k'. aligned c w3 k' \<and> k' \<le> Suc k3"
  proof (cases c)
    case Nil
    then obtain y where "d = [y]" using cd(4,5) by (cases d) auto
    then have "length w3 \<le> Suc k3" using aligned_length [OF 2(3)] by simp
    then show ?thesis using Nil aligned_insert_all by blast
  next
    case (Cons x c')
    then have c: "c = [x]" using cd(3) by simp
    have "length w3 \<le> Suc k3" using aligned_length [OF 2(3)] cd(4) by simp
    then show ?thesis using c aligned_to_one [of w3 x] aligned_delete_all [of c] by (cases "w3 = []") auto
  qed
  then obtain k' where "aligned c w3 k'" "k' \<le> Suc k3" by blast
  then show ?thesis
    using aligned_append [OF 1(3) aligned_append [OF _ 2(4)]] 1(1,2) 2(1,2) cd(1) by fastforce
qed

lemma edits_aligned: "(edit_step ^^ k) u v \<Longrightarrow> \<exists>k' \<le> k. aligned u v k'"
proof (induction k arbitrary: u)
  case 0
  then show ?case using aligned_refl by auto
next
  case (Suc k)
  then obtain u' where "edit_step u u'" "(edit_step ^^ k) u' v" by (meson relpowp_Suc_E2)
  then show ?case using Suc(1) aligned_edit_step by (meson Suc_le_mono le_trans)
qed

lemma edit_step_Cons: "edit_step u v \<Longrightarrow> edit_step (x # u) (x # v)"
  by (induction rule: edit_step.induct) (metis edit_step.intros append_Cons)+

lemma edits_Cons: "(edit_step ^^ k) u v \<Longrightarrow> (edit_step ^^ k) (x # u) (x # v)"
  by (induction k arbitrary: v) (auto intro: edit_step_Cons)

lemma aligned_edits: "aligned u v k \<Longrightarrow> (edit_step ^^ k) u v"
proof (induction rule: aligned.induct)
  case (al_replace u v k x y)
  have "edit_step (x # v) (y # v)" using edit_step.replace [of "[]"] by simp
  then show ?case using edits_Cons [OF al_replace.IH, of x] by auto
next
  case (al_delete u v k x)
  have "edit_step (x # u) u" using edit_step.delete [of "[]"] by simp
  then show ?case using al_delete.IH by (rule relpowp_Suc_I2)
next
  case (al_insert u v k y)
  have "edit_step v (y # v)" using edit_step.insert [of "[]"] by simp
  then show ?case using al_insert.IH by auto
qed (auto intro: edits_Cons)

fun lev :: "'a list \<Rightarrow> 'a list \<Rightarrow> nat" where
  "lev [] v = length v"
| "lev u [] = length u"
| "lev (x # u) (y # v) = (if x = y then lev u v else Suc (min (lev u v) (min (lev u (y # v)) (lev (x # u) v))))"

lemma lev_Nil [simp]: "lev u [] = length u"
  by (cases u) simp_all

lemma lev_aligned: "aligned u v (lev u v)"
proof (induction u v rule: lev.induct)
  case (3 x u y v)
  then show ?case
    by (cases "x = y") (auto simp: min_def intro: aligned.intros)
next
  case (2 x u)
  show ?case using aligned_delete_all [of "x # u"] by simp
qed (auto intro: aligned_insert_all)

lemma aligned_sym: "aligned u v k \<Longrightarrow> aligned v u k"
  by (induction rule: aligned.induct) (auto intro: aligned.intros)

lemma aligned_drop_same:
  assumes "aligned (x # u) (x # v) k"
  shows "\<exists>k' \<le> k. aligned u v k'"
  using assms
proof (cases rule: aligned.cases)
  case (al_delete k')
  then obtain k'' where "aligned v u k''" "k'' \<le> Suc k'"
    using aligned_edit_step [OF edit_step.insert [of "[]" v x, simplified] aligned_sym] by auto
  then show ?thesis using al_delete aligned_sym by auto
next
  case (al_insert k')
  then obtain k'' where "aligned u v k''" "k'' \<le> Suc k'"
    using aligned_edit_step [OF edit_step.insert [of "[]" u x, simplified]] by auto
  then show ?thesis using al_insert by auto
next
  case (al_replace k')
  then show ?thesis by (intro exI [of _ k']) simp
qed auto

lemma lev_le: "aligned u v k \<Longrightarrow> lev u v \<le> k"
proof (induction u v arbitrary: k rule: lev.induct)
  case (3 x u y v)
  show ?case
  proof (cases "x = y")
    case True
    then show ?thesis using 3(1) 3(5) aligned_drop_same [of x u v k] by fastforce
  next
    case False
    from 3(5) show ?thesis
    proof (cases rule: aligned.cases)
      case (al_replace k')
      then show ?thesis using 3(2) [OF False, of k'] False by simp
    next
      case (al_delete k')
      then show ?thesis using 3(3) [OF False, of k'] False by simp
    next
      case (al_insert k')
      then show ?thesis using 3(4) [OF False, of k'] False by simp
    qed (use False in auto)
  qed
next
  case (1 v)
  show ?case using aligned_length [OF 1] by simp
next
  case (2 x u)
  show ?case using aligned_length [OF 2] by simp
qed

lemma lev_least: "(LEAST k. (edit_step ^^ k) u v) = lev u v"
proof (rule Least_equality)
  show "(edit_step ^^ lev u v) u v" by (rule aligned_edits) (rule lev_aligned)
  show "lev u v \<le> k" if "(edit_step ^^ k) u v" for k
    using edits_aligned [OF that] lev_le by (meson le_trans)
qed

lemma lev_rev: "lev (rev u) (rev v) = lev u v"
proof -
  have *: "aligned (rev u) (rev v) k" if "aligned u v k" for u v :: "'a list" and k
    using that
  proof (induction rule: aligned.induct)
    case (al_same u v k x)
    then show ?case using aligned_append [OF al_same.IH, of "[x]" "[x]" 0] by (simp add: aligned_refl)
  next
    case (al_replace u v k x y)
    then show ?case
      using aligned_append [OF al_replace.IH, of "[x]" "[y]" 1] by (simp add: aligned.intros aligned.al_replace [OF al_Nil])
  next
    case (al_delete u v k x)
    then show ?case using aligned_append [OF al_delete.IH aligned_delete_all [of "[x]"]] by simp
  next
    case (al_insert u v k y)
    then show ?case using aligned_append [OF al_insert.IH aligned_insert_all [of "[y]"]] by simp
  qed (auto intro: aligned.intros)
  show ?thesis
    using lev_le [OF * [OF lev_aligned [of u v]]] lev_le [OF * [OF lev_aligned [of "rev u" "rev v"]]] by simp
qed

subsection \<open>The table\<close>

definition lev_at :: "string \<Rightarrow> string \<Rightarrow> nat \<Rightarrow> nat \<Rightarrow> nat" where
  "lev_at u v i j = lev (rev (take i u)) (rev (take j v))"

lemma lev_at_0 [simp]: "j \<le> length v \<Longrightarrow> lev_at u v 0 j = j" "i \<le> length u \<Longrightarrow> lev_at u v i 0 = i"
  by (simp_all add: lev_at_def)

lemma lev_at_Suc: "i < length u \<Longrightarrow> j < length v \<Longrightarrow> lev_at u v (Suc i) (Suc j) =
    (if u ! i = v ! j then lev_at u v i j
     else Suc (min (lev_at u v i j) (min (lev_at u v i (Suc j)) (lev_at u v (Suc i) j))))"
  by (simp add: lev_at_def take_Suc_conv_app_nth)

lemma distance_cell_ok:
  assumes "0 < i" and "i \<le> length u" and "0 < j" and "j \<le> length v"
    and t: "filled t (length u + 1) (length v + 1) (lev_at u v) (upto_cell i j)"
  shows "distance_cell u v i j t = tset t i j (lev_at u v i j)"
proof -
  obtain a b where [simp]: "i = Suc a" "j = Suc b" using assms(1,3) by (metis gr0_conv_Suc)
  have "tget t a b = Some (lev_at u v a b)" "tget t a (Suc b) = Some (lev_at u v a (Suc b))"
    "tget t (Suc a) b = Some (lev_at u v (Suc a) b)"
    using assms by (auto intro!: filled_tget [OF t] simp: upto_cell_def)
  then show ?thesis
    using assms lev_at_Suc [of a u b v] by (simp add: distance_cell_def ub_simps)
qed

lemma minDistance_table:
  "minDistance u v = Some (lev u v)"
proof -
  let ?m = "length u + 1" and ?n = "length v + 1"
  let ?g = "lev_at u v"
  define dp0 :: "nat list list" where "dp0 = replicate ?m (replicate ?n 0)"
  have "filled dp0 ?m ?n ?g (\<lambda>i j. j = 0 \<and> i < 0)" unfolding dp0_def by (rule filled_replicate) simp
  then have "\<exists>t. for_each [0..<?m] (\<lambda>i dp. tset dp i 0 i) dp0 = Some t \<and> filled t ?m ?n ?g (\<lambda>i j. j = 0 \<and> i < ?m)"
    by (intro for_upt [where I = "\<lambda>k t. filled t ?m ?n ?g (\<lambda>i j. j = 0 \<and> i < k)"]) (auto intro!: filled_tset)
  then obtain dp1 where 1: "for_each [0..<?m] (\<lambda>i dp. tset dp i 0 i) dp0 = Some dp1" "filled dp1 ?m ?n ?g (\<lambda>i j. j = 0 \<and> i < ?m)" by blast
  have "filled dp1 ?m ?n ?g (\<lambda>i j. j = 0 \<or> i = 0 \<and> j < 0)" using 1(2) by (rule filled_mono) auto
  then have "\<exists>t. for_each [0..<?n] (\<lambda>j dp. tset dp 0 j j) dp1 = Some t \<and> filled t ?m ?n ?g (\<lambda>i j. j = 0 \<or> i = 0 \<and> j < ?n)"
    by (intro for_upt [where I = "\<lambda>k t. filled t ?m ?n ?g (\<lambda>i j. j = 0 \<or> i = 0 \<and> j < k)"]) (auto intro!: filled_tset)
  then obtain dp2 where 2: "for_each [0..<?n] (\<lambda>j dp. tset dp 0 j j) dp1 = Some dp2"
    "filled dp2 ?m ?n ?g (\<lambda>i j. j = 0 \<or> i = 0 \<and> j < ?n)" by blast
  have "filled dp2 ?m ?n ?g (\<lambda>i j. i = 0 \<or> j = 0)" using 2(2) by (rule filled_mono) auto
  then have "\<exists>t. for_each [1..<?m] (\<lambda>i. for_each [1..<?n] (distance_cell u v i)) dp2 = Some t \<and> filled t ?m ?n ?g (\<lambda>_ _. True)"
    by (rule fill_rows) (auto intro: distance_cell_ok)
  then obtain dp3 where 3: "for_each [1..<?m] (\<lambda>i. for_each [1..<?n] (distance_cell u v i)) dp2 = Some dp3"
    "filled dp3 ?m ?n ?g (\<lambda>_ _. True)" by blast
  have "tget dp3 (length u) (length v) = Some (lev u v)"
    using filled_tget [OF 3(2), of "length u" "length v"] by (simp add: lev_at_def lev_rev)
  then show ?thesis using 1(1) 2(1) 3(1) unfolding minDistance_def Let_def dp0_def by simp
qed

text \<open>
  C36: the result is the least number of replacements, insertions and deletions that lead from
  the first word to the second; no access leaves the table or the words.
\<close>

theorem minDistance_least: "minDistance word1 word2 = Some (LEAST k. (edit_step ^^ k) word1 word2)"
  by (simp add: minDistance_table lev_least)

section \<open>Regular expressions (leetcode/DP/regularExpressionMatch.cc)\<close>

text \<open>
  Patterns of characters, each perhaps followed by \<open>*\<close>; \<open>.\<close> stands for every character.
  Two matchers, a table and a recursion. \<open>p[1]\<close> of a string of length 1 is the null
  character. The operators \<open>&&\<close> and \<open>||\<close> do not evaluate their second operand when
  the first one decides.
\<close>

definition and_then :: "bool \<Rightarrow> bool option \<Rightarrow> bool option" where
  "and_then a b = (if a then b else Some False)"

definition or_else :: "bool \<Rightarrow> bool option \<Rightarrow> bool option" where
  "or_else a b = (if a then Some True else b)"

definition same_char :: "char \<Rightarrow> char \<Rightarrow> bool" where
  "same_char c x \<longleftrightarrow> x = c \<or> c = CHR ''.''"

definition star_prefix :: "string \<Rightarrow> nat \<Rightarrow> bool list list \<Rightarrow> bool list list option" where
  "star_prefix p j dp = do {
     b \<leftarrow> and_then (j > 1) (do {
       c \<leftarrow> vget p (j - 1);
       and_then (c = CHR ''*'') (tget dp 0 (j - 2)) });
     tset dp 0 j b }"

definition match_cell :: "string \<Rightarrow> string \<Rightarrow> nat \<Rightarrow> nat \<Rightarrow> bool list list \<Rightarrow> bool list list option" where
  "match_cell s p i j dp = do {
     c \<leftarrow> vget p (j - 1);
     b \<leftarrow> (if c \<noteq> CHR ''*''
       then do {
         d \<leftarrow> tget dp (i - 1) (j - 1);
         and_then d (do { x \<leftarrow> vget s (i - 1); Some (same_char c x) }) }
       else if j < 2 then None
       else do {
         d \<leftarrow> tget dp i (j - 2);
         or_else d (do {
           d' \<leftarrow> tget dp (i - 1) j;
           and_then d' (do { x \<leftarrow> vget s (i - 1); c \<leftarrow> vget p (j - 2); Some (same_char c x) }) }) });
     tset dp i j b }"

definition isMatch_DP :: "string \<Rightarrow> string \<Rightarrow> bool option" where
  "isMatch_DP s p = do {
     let m = length s;
     let n = length p;
     dp \<leftarrow> tset (replicate (m + 1) (replicate (n + 1) False)) 0 0 True;
     dp \<leftarrow> for_each [1..<n + 1] (star_prefix p) dp;
     dp \<leftarrow> for_each [1..<m + 1] (\<lambda>i. for_each [1..<n + 1] (match_cell s p i)) dp;
     tget dp m n }"

function isMatch_recursive :: "string \<Rightarrow> string \<Rightarrow> bool" where
  "isMatch_recursive s p = (case p of
     [] \<Rightarrow> s = []
   | c # p' \<Rightarrow>
       if p' \<noteq> [] \<and> hd p' = CHR ''*''
       then isMatch_recursive s (tl p') \<or>
         (if s \<noteq> [] \<and> same_char c (hd s) then isMatch_recursive (tl s) p else False)
       else if s \<noteq> [] \<and> same_char c (hd s) then isMatch_recursive (tl s) p' else False)"
  by pat_completeness auto
termination
  by (relation "measure (\<lambda>(s, p). length s + length p)") (auto simp: neq_Nil_conv)

declare isMatch_recursive.simps [simp del]

subsection \<open>The language of a pattern\<close>

fun parse :: "string \<Rightarrow> (char \<times> bool) list" where
  "parse [] = []"
| "parse [c] = [(c, False)]"
| "parse (c # d # p) = (if d = CHR ''*'' then (c, True) # parse p else (c, False) # parse (d # p))"

fun lang :: "(char \<times> bool) list \<Rightarrow> string set" where
  "lang [] = {[]}"
| "lang ((c, False) # r) = {x # s | x s. same_char c x \<and> s \<in> lang r}"
| "lang ((c, True) # r) = {u @ s | u s. (\<forall>x \<in> set u. same_char c x) \<and> s \<in> lang r}"

lemma lang_single [simp]: "s \<in> lang ((c, False) # r) \<longleftrightarrow> s \<noteq> [] \<and> same_char c (hd s) \<and> tl s \<in> lang r"
  by (cases s) auto

lemma lang_starI: "\<forall>x \<in> set u. same_char c x \<Longrightarrow> v \<in> lang r \<Longrightarrow> u @ v \<in> lang ((c, True) # r)"
  by auto

lemma lang_starE:
  assumes "s \<in> lang ((c, True) # r)"
  obtains u v where "s = u @ v" "\<forall>x \<in> set u. same_char c x" "v \<in> lang r"
  using assms by auto

declare lang.simps (2,3) [simp del]

lemma lang_star: "s \<in> lang ((c, True) # r) \<longleftrightarrow> s \<in> lang r \<or> s \<noteq> [] \<and> same_char c (hd s) \<and> tl s \<in> lang ((c, True) # r)"
  (is "_ \<longleftrightarrow> ?R")
proof
  assume "s \<in> lang ((c, True) # r)"
  then obtain u v where s: "s = u @ v" "\<forall>x \<in> set u. same_char c x" "v \<in> lang r" by (rule lang_starE)
  then show ?R by (cases u) (auto intro: lang_starI)
next
  assume s: ?R
  show "s \<in> lang ((c, True) # r)"
  proof (cases "s \<in> lang r")
    case True
    then show ?thesis using lang_starI [of "[]" c s r] by simp
  next
    case False
    then have ne: "s \<noteq> []" "same_char c (hd s)" "tl s \<in> lang ((c, True) # r)" using s by auto
    from ne(3) obtain u v where "tl s = u @ v" "\<forall>x \<in> set u. same_char c x" "v \<in> lang r" by (rule lang_starE)
    then show ?thesis using lang_starI [of "hd s # u" c v r] ne(1,2) by (cases s) auto
  qed
qed

lemma isMatch_recursive_lang: "isMatch_recursive s p \<longleftrightarrow> s \<in> lang (parse p)"
proof (induction s p rule: isMatch_recursive.induct)
  case (1 s p)
  show ?case
  proof (cases p)
    case Nil
    then show ?thesis by (simp add: isMatch_recursive.simps)
  next
    case (Cons c p')
    show ?thesis
    proof (cases "p' \<noteq> [] \<and> hd p' = CHR ''*''")
      case True
      then obtain p'' where p': "p' = CHR ''*'' # p''" by (cases p') auto
      have "isMatch_recursive s p \<longleftrightarrow> isMatch_recursive s p'' \<or> s \<noteq> [] \<and> same_char c (hd s) \<and> isMatch_recursive (tl s) p"
        using Cons p' by (subst isMatch_recursive.simps) simp
      also have "\<dots> \<longleftrightarrow> s \<in> lang (parse p)"
        using 1(1) [OF Cons True] 1(2) [OF Cons True] Cons p' by (auto simp: lang_star [of s])
      finally show ?thesis .
    next
      case False
      have "isMatch_recursive s p \<longleftrightarrow> s \<noteq> [] \<and> same_char c (hd s) \<and> isMatch_recursive (tl s) p'"
        using Cons False by (subst isMatch_recursive.simps) (simp only: list.case if_False, simp)
      moreover have "parse p = (c, False) # parse p'" using Cons False by (cases p') auto
      ultimately show ?thesis using 1(3) [OF Cons False] by auto
    qed
  qed
qed

lemma parse_append: "r = [] \<or> hd r \<noteq> CHR ''*'' \<Longrightarrow> parse (q @ r) = parse q @ parse r"
proof (induction q rule: parse.induct)
  case (2 c)
  then show ?case by (cases r) auto
qed auto

lemma lang_append: "s \<in> lang (a @ b) \<longleftrightarrow> (\<exists>u v. s = u @ v \<and> u \<in> lang a \<and> v \<in> lang b)"
proof (induction a arbitrary: s)
  case (Cons cb a)
  obtain c st where cb: "cb = (c, st)" by fastforce
  show ?case
  proof (cases st)
    case True
    show ?thesis
    proof
      assume "s \<in> lang ((cb # a) @ b)"
      then have "s \<in> lang ((c, True) # a @ b)" using True by (simp add: cb)
      then obtain u v where 1: "s = u @ v" "\<forall>x \<in> set u. same_char c x" "v \<in> lang (a @ b)" by (rule lang_starE)
      then obtain w z where 2: "v = w @ z" "w \<in> lang a" "z \<in> lang b" using Cons by blast
      have "u @ w \<in> lang (cb # a)" using lang_starI [OF 1(2) 2(2)] True by (simp add: cb)
      then show "\<exists>u v. s = u @ v \<and> u \<in> lang (cb # a) \<and> v \<in> lang b"
        using 1(1) 2 by (intro exI [of _ "u @ w"] exI [of _ z]) simp
    next
      assume "\<exists>u v. s = u @ v \<and> u \<in> lang (cb # a) \<and> v \<in> lang b"
      then obtain y z where 1: "s = y @ z" "y \<in> lang ((c, True) # a)" "z \<in> lang b" using True by (auto simp: cb)
      obtain u w where 2: "y = u @ w" "\<forall>x \<in> set u. same_char c x" "w \<in> lang a" using 1(2) by (rule lang_starE)
      have "w @ z \<in> lang (a @ b)" using Cons 2(3) 1(3) by blast
      then show "s \<in> lang ((cb # a) @ b)" using lang_starI [OF 2(2), of "w @ z" "a @ b"] 1(1) 2(1) True by (simp add: cb)
    qed
  next
    case False
    show ?thesis
    proof
      assume "s \<in> lang ((cb # a) @ b)"
      then have s: "s \<noteq> []" "same_char c (hd s)" "tl s \<in> lang (a @ b)" using False by (simp_all add: cb)
      then obtain u v where "tl s = u @ v" "u \<in> lang a" "v \<in> lang b" using Cons by blast
      then show "\<exists>u v. s = u @ v \<and> u \<in> lang (cb # a) \<and> v \<in> lang b"
        using s(1,2) False by (intro exI [of _ "hd s # u"] exI [of _ v]) (cases s, simp_all add: cb)
    next
      assume "\<exists>u v. s = u @ v \<and> u \<in> lang (cb # a) \<and> v \<in> lang b"
      then obtain u v where "s = u @ v" "u \<in> lang (cb # a)" "v \<in> lang b" by blast
      then show "s \<in> lang ((cb # a) @ b)" using False Cons [of "tl s"] by (cases u) (auto simp: cb)
    qed
  qed
qed simp

lemma lang_snoc: "s \<in> lang (a @ [(c, False)]) \<longleftrightarrow> s \<noteq> [] \<and> same_char c (last s) \<and> butlast s \<in> lang a"
proof -
  have one: "v \<in> lang [(c, False)] \<longleftrightarrow> (\<exists>x. v = [x] \<and> same_char c x)" for v by (cases v) auto
  show ?thesis unfolding lang_append one by (cases s rule: rev_cases) auto
qed

lemma lang_stars: "v \<in> lang [(c, True)] \<longleftrightarrow> (\<forall>x \<in> set v. same_char c x)"
  by (simp add: lang.simps)

lemma lang_snoc_star: "s \<in> lang (a @ [(c, True)]) \<longleftrightarrow>
    s \<in> lang a \<or> s \<noteq> [] \<and> same_char c (last s) \<and> butlast s \<in> lang (a @ [(c, True)])" (is "_ \<longleftrightarrow> ?R")
proof
  assume "s \<in> lang (a @ [(c, True)])"
  then obtain u v where s: "s = u @ v" "u \<in> lang a" "\<forall>x \<in> set v. same_char c x"
    unfolding lang_append lang_stars by blast
  show ?R
  proof (cases v rule: rev_cases)
    case (snoc v' x)
    then have "butlast s \<in> lang (a @ [(c, True)])" using s unfolding lang_append lang_stars by (auto simp: butlast_append)
    then show ?thesis using s snoc by simp
  qed (use s in simp)
next
  assume r: ?R
  show "s \<in> lang (a @ [(c, True)])"
  proof (cases "s \<in> lang a")
    case True
    then show ?thesis unfolding lang_append lang_stars by (intro exI [of _ s] exI [of _ "[]"]) simp
  next
    case False
    then have ne: "s \<noteq> []" "same_char c (last s)" "butlast s \<in> lang (a @ [(c, True)])" using r by auto
    then obtain u v where u: "butlast s = u @ v" "u \<in> lang a" "\<forall>x \<in> set v. same_char c x"
      unfolding lang_append lang_stars by blast
    then have "s = u @ v @ [last s]" using ne(1) by (metis append.assoc append_butlast_last_id)
    then show ?thesis using u(2,3) ne(2) unfolding lang_append lang_stars
      by (intro exI [of _ u] exI [of _ "v @ [last s]"]) auto
  qed
qed

subsection \<open>The table\<close>

definition well_formed :: "string \<Rightarrow> bool" where
  "well_formed p \<longleftrightarrow> (\<forall>j < length p. p ! j = CHR ''*'' \<longrightarrow> 0 < j \<and> p ! (j - 1) \<noteq> CHR ''*'')"

definition matches_at :: "string \<Rightarrow> string \<Rightarrow> nat \<Rightarrow> nat \<Rightarrow> bool" where
  "matches_at s p i j \<longleftrightarrow> take i s \<in> lang (parse (take j p))"

lemma matches_at_char:
  assumes "j < length p" and "p ! j \<noteq> CHR ''*''"
  shows "matches_at s p 0 (Suc j) \<longleftrightarrow> False"
    and "i < length s \<Longrightarrow> matches_at s p (Suc i) (Suc j) \<longleftrightarrow> same_char (p ! j) (s ! i) \<and> matches_at s p i j"
proof -
  have "parse (take (Suc j) p) = parse (take j p) @ [(p ! j, False)]"
    using assms parse_append [of "[p ! j]" "take j p"] by (simp add: take_Suc_conv_app_nth)
  then show "matches_at s p 0 (Suc j) \<longleftrightarrow> False"
    and "i < length s \<Longrightarrow> matches_at s p (Suc i) (Suc j) \<longleftrightarrow> same_char (p ! j) (s ! i) \<and> matches_at s p i j"
    by (auto simp: matches_at_def lang_snoc take_Suc_conv_app_nth)
qed

lemma matches_at_star:
  assumes "Suc j < length p" and "p ! Suc j = CHR ''*''" and "p ! j \<noteq> CHR ''*''"
  shows "matches_at s p 0 (Suc (Suc j)) \<longleftrightarrow> matches_at s p 0 j"
    and "i < length s \<Longrightarrow> matches_at s p (Suc i) (Suc (Suc j)) \<longleftrightarrow>
      matches_at s p (Suc i) j \<or> same_char (p ! j) (s ! i) \<and> matches_at s p i (Suc (Suc j))"
proof -
  have "take (Suc (Suc j)) p = take j p @ [p ! j, CHR ''*'']" using assms by (simp add: take_Suc_conv_app_nth)
  then have pa: "parse (take (Suc (Suc j)) p) = parse (take j p) @ [(p ! j, True)]"
    using assms parse_append [of "[p ! j, CHR ''*'']" "take j p"] by simp
  show "matches_at s p 0 (Suc (Suc j)) \<longleftrightarrow> matches_at s p 0 j"
    unfolding matches_at_def pa by (subst lang_snoc_star) simp
  show "i < length s \<Longrightarrow> matches_at s p (Suc i) (Suc (Suc j)) \<longleftrightarrow>
      matches_at s p (Suc i) j \<or> same_char (p ! j) (s ! i) \<and> matches_at s p i (Suc (Suc j))"
    unfolding matches_at_def pa by (subst lang_snoc_star) (simp add: take_Suc_conv_app_nth)
qed

lemma matches_at_0 [simp]: "matches_at s p i 0 \<longleftrightarrow> i = 0 \<or> s = []"
  by (simp add: matches_at_def)

lemma well_formed_star:
  assumes "well_formed p" and "j < length p" and "p ! j = CHR ''*''"
  obtains k where "j = Suc k" "p ! k \<noteq> CHR ''*''"
  using assms by (cases j) (auto simp: well_formed_def)

lemma star_prefix_ok:
  assumes "well_formed p" and "0 < j" and "j \<le> length p"
    and t: "filled t (length s + 1) (length p + 1) (matches_at s p) (\<lambda>a b. b = 0 \<or> a = 0 \<and> b < j)"
  shows "star_prefix p j t = tset t 0 j (matches_at s p 0 j)"
proof -
  obtain k where j: "j = Suc k" using assms(2) by (cases j) auto
  have get: "tget t 0 b = Some (matches_at s p 0 b)" if "b < j" for b
    using that assms(3) by (intro filled_tget [OF t]) auto
  show ?thesis
  proof (cases "p ! k = CHR ''*''")
    case True
    then obtain l where l: "k = Suc l" "p ! l \<noteq> CHR ''*''" using assms(1,3) j by (auto elim: well_formed_star [of p k])
    then show ?thesis
      using True assms(3) j get [of l] matches_at_star(1) [of l p s] by (simp add: star_prefix_def ub_simps and_then_def)
  next
    case False
    then show ?thesis
      using assms(3) j matches_at_char(1) [of k p s] by (simp add: star_prefix_def ub_simps and_then_def)
  qed
qed

lemma match_cell_ok:
  assumes "well_formed p" and "0 < i" and "i \<le> length s" and "0 < j" and "j \<le> length p"
    and t: "filled t (length s + 1) (length p + 1) (matches_at s p) (upto_cell i j)"
  shows "match_cell s p i j t = tset t i j (matches_at s p i j)"
proof -
  obtain h where i: "i = Suc h" using assms(2) by (cases i) auto
  obtain k where j: "j = Suc k" using assms(4) by (cases j) auto
  have get: "tget t a b = Some (matches_at s p a b)" if "a < i \<or> a = i \<and> b < j" "b \<le> length p" for a b
    using that assms by (intro filled_tget [OF t]) (auto simp: upto_cell_def)
  show ?thesis
  proof (cases "p ! k = CHR ''*''")
    case True
    then obtain l where l: "k = Suc l" "p ! l \<noteq> CHR ''*''" using assms(1,5) j by (auto elim: well_formed_star [of p k])
    have "tget t i l = Some (matches_at s p i l)" "tget t h j = Some (matches_at s p h j)"
      using assms(5) i j l by (simp_all add: get)
    then show ?thesis
      using True assms(3,5) i j l matches_at_star(2) [of l p h s]
      by (simp add: match_cell_def ub_simps and_then_def or_else_def)
  next
    case False
    have "tget t h k = Some (matches_at s p h k)" using assms(5) i j by (simp add: get)
    then show ?thesis
      using False assms(3,5) i j matches_at_char(2) [of k p h s] by (simp add: match_cell_def ub_simps and_then_def)
  qed
qed

lemma isMatch_DP_lang:
  assumes wf: "well_formed p"
  shows "isMatch_DP s p = Some (s \<in> lang (parse p))"
proof -
  let ?m = "length s + 1" and ?n = "length p + 1" and ?g = "matches_at s p"
  have "filled (replicate ?m (replicate ?n False)) ?m ?n ?g (\<lambda>i j. j = 0 \<and> 0 < i)"
    by (rule filled_replicate) auto
  then have "\<exists>t. tset (replicate ?m (replicate ?n False)) 0 0 True = Some t \<and> filled t ?m ?n ?g (\<lambda>i j. j = 0 \<or> i = 0 \<and> j < 1)"
    by (rule filled_tset) auto
  then obtain dp1 where 1: "tset (replicate ?m (replicate ?n False)) 0 0 True = Some dp1"
    "filled dp1 ?m ?n ?g (\<lambda>i j. j = 0 \<or> i = 0 \<and> j < 1)" by blast
  have "\<exists>t. for_each [1..<?n] (star_prefix p) dp1 = Some t \<and> filled t ?m ?n ?g (\<lambda>i j. j = 0 \<or> i = 0 \<and> j < ?n)"
  proof (rule for_upt [where I = "\<lambda>k t. filled t ?m ?n ?g (\<lambda>i j. j = 0 \<or> i = 0 \<and> j < k)"])
    fix j t assume j: "1 \<le> j" "j < ?n" and t: "filled t ?m ?n ?g (\<lambda>a b. b = 0 \<or> a = 0 \<and> b < j)"
    show "\<exists>t'. star_prefix p j t = Some t' \<and> filled t' ?m ?n ?g (\<lambda>a b. b = 0 \<or> a = 0 \<and> b < Suc j)"
    proof -
      have "star_prefix p j t = tset t 0 j (?g 0 j)" using j by (intro star_prefix_ok [OF wf _ _ t]) auto
      then show ?thesis using j by (simp only:) (rule filled_tset [OF t], auto)
    qed
  qed (use 1 in auto)
  then obtain dp2 where 2: "for_each [1..<?n] (star_prefix p) dp1 = Some dp2"
    "filled dp2 ?m ?n ?g (\<lambda>i j. j = 0 \<or> i = 0 \<and> j < ?n)" by blast
  have "filled dp2 ?m ?n ?g (\<lambda>i j. i = 0 \<or> j = 0)" using 2(2) by (rule filled_mono) auto
  then have "\<exists>t. for_each [1..<?m] (\<lambda>i. for_each [1..<?n] (match_cell s p i)) dp2 = Some t \<and> filled t ?m ?n ?g (\<lambda>_ _. True)"
    by (rule fill_rows) (auto intro: match_cell_ok [OF wf])
  then obtain dp3 where 3: "for_each [1..<?m] (\<lambda>i. for_each [1..<?n] (match_cell s p i)) dp2 = Some dp3"
    "filled dp3 ?m ?n ?g (\<lambda>_ _. True)" by blast
  have "tget dp3 (length s) (length p) = Some (s \<in> lang (parse p))"
    using filled_tget [OF 3(2), of "length s" "length p"] by (simp add: matches_at_def)
  then show ?thesis using 1(1) 2(1) 3(1) unfolding isMatch_DP_def Let_def by simp
qed

text \<open>A leading star makes the table read column -1, and after two stars the matchers disagree.\<close>

lemma isMatch_DP_leading_star: "isMatch_DP ''a'' ''*'' = None"
  by (simp add: isMatch_DP_def star_prefix_def match_cell_def tset_def tget_def vget_def vset_def and_then_def)

lemma isMatch_two_stars: "isMatch_DP ''a'' ''.**'' = Some True" "isMatch_recursive ''a'' ''.**'' = False"
  by (simp_all add: isMatch_DP_def star_prefix_def match_cell_def tset_def tget_def vget_def vset_def
      and_then_def or_else_def same_char_def upt_rec isMatch_recursive.simps)

text \<open>
  C37: on every pattern in which no star is first or follows a star, the table stays within
  its bounds and both matchers decide membership in the language of the pattern.
\<close>

theorem isMatch_agree:
  assumes "well_formed p"
  shows "isMatch_DP s p = Some (s \<in> lang (parse p)) \<and> isMatch_recursive s p = (s \<in> lang (parse p))"
  using isMatch_DP_lang [OF assms] isMatch_recursive_lang by simp

theorem isMatch_agree_witness: "isMatch_DP ''aab'' ''c*a*b*'' = Some (isMatch_recursive ''aab'' ''c*a*b*'')"
proof -
  have "well_formed ''c*a*b*''" by (simp add: well_formed_def nth_Cons' less_Suc_eq)
  then show ?thesis using isMatch_agree [of "''c*a*b*''" "''aab''"] by simp
qed

end
