(* ===== verification/Sync.thy ===== *)
theory Sync
  imports Prelude
begin

section \<open>A counter behind a semaphore (sync/goodcnt.c)\<close>

text \<open>
  Two threads run the loop of \<open>thread\<close>. \<open>cnt\<close> is volatile, not atomic, so \<open>cnt++\<close> is a load
  and a store. A program counter names the next step of a thread; the argument of a step says
  whether a signal interrupts \<open>sem_wait\<close>, whose failure \<open>P\<close> prints and then ignores.
\<close>

datatype cnt_pc = At_test int | At_P int | At_load int | At_store int int | At_V int | At_end

record Counter =
  cnt :: int
  semv :: nat
  cnt_pc_of :: "nat \<Rightarrow> cnt_pc"

abbreviation SEM_VALUE_MAX :: nat where
  "SEM_VALUE_MAX \<equiv> 2147483647"

definition cnt_init :: Counter where
  "cnt_init = \<lparr>cnt = 0, semv = 1, cnt_pc_of = (\<lambda>_. At_test 0)\<rparr>"

definition cnt_goto :: "nat \<Rightarrow> cnt_pc \<Rightarrow> Counter \<Rightarrow> Counter" where
  "cnt_goto t p s = s\<lparr>cnt_pc_of := (cnt_pc_of s)(t := p)\<rparr>"

definition sem_P :: "bool \<Rightarrow> Counter \<Rightarrow> Counter option" where
  "sem_P interrupted s =
     (if interrupted then Some s else if semv s = 0 then None else Some (s\<lparr>semv := semv s - 1\<rparr>))"

definition sem_V :: "Counter \<Rightarrow> Counter" where
  "sem_V s = (if semv s = SEM_VALUE_MAX then s else s\<lparr>semv := semv s + 1\<rparr>)"

text \<open>The next step of thread \<open>t\<close>; \<open>None\<close> while it waits for the semaphore and after it returned.\<close>

definition cnt_thread :: "int \<Rightarrow> nat \<Rightarrow> bool \<Rightarrow> Counter \<Rightarrow> Counter option" where
  "cnt_thread niters t interrupted s = (case cnt_pc_of s t of
     At_test i \<Rightarrow> Some (cnt_goto t (if i < niters then At_P i else At_end) s)
   | At_P i \<Rightarrow> do { s \<leftarrow> sem_P interrupted s; Some (cnt_goto t (At_load i) s) }
   | At_load i \<Rightarrow> Some (cnt_goto t (At_store i (cnt s)) s)
   | At_store i v \<Rightarrow> Some (cnt_goto t (At_V i) (s\<lparr>cnt := v + 1\<rparr>))
   | At_V i \<Rightarrow> Some (cnt_goto t (At_test (i + 1)) (sem_V s))
   | At_end \<Rightarrow> None)"

text \<open>What \<open>main\<close> prints after both joins: the word and the counter.\<close>

datatype verdict = BOOM int | OK int

definition cnt_verdict :: "int \<Rightarrow> Counter \<Rightarrow> verdict" where
  "cnt_verdict niters s = (if cnt s \<noteq> 2 * niters then BOOM (cnt s) else OK (cnt s))"

text \<open>A schedule is a list of threads, each with the fate of its \<open>sem_wait\<close>.\<close>

fun cnt_run :: "int \<Rightarrow> (nat \<times> bool) list \<Rightarrow> Counter \<Rightarrow> Counter option" where
  "cnt_run niters [] s = Some s"
| "cnt_run niters ((t, intr) # sch) s =
     (if t < 2 then do { s \<leftarrow> cnt_thread niters t intr s; cnt_run niters sch s } else None)"

definition cnt_joined :: "Counter \<Rightarrow> bool" where
  "cnt_joined s \<longleftrightarrow> (\<forall>t < 2. cnt_pc_of s t = At_end)"

subsection \<open>The invariant\<close>

fun in_crit :: "cnt_pc \<Rightarrow> nat" where
  "in_crit (At_load i) = 1" | "in_crit (At_store i v) = 1" | "in_crit (At_V i) = 1" | "in_crit _ = 0"

fun added :: "int \<Rightarrow> cnt_pc \<Rightarrow> int" where
  "added n (At_test i) = i" | "added n (At_P i) = i" | "added n (At_load i) = i"
| "added n (At_store i v) = i" | "added n (At_V i) = i + 1" | "added n At_end = n"

fun cnt_pc_ok :: "int \<Rightarrow> int \<Rightarrow> cnt_pc \<Rightarrow> bool" where
  "cnt_pc_ok n c (At_test i) \<longleftrightarrow> i \<le> n" | "cnt_pc_ok n c (At_P i) \<longleftrightarrow> i < n" | "cnt_pc_ok n c (At_load i) \<longleftrightarrow> i < n"
| "cnt_pc_ok n c (At_store i v) \<longleftrightarrow> i < n \<and> v = c" | "cnt_pc_ok n c (At_V i) \<longleftrightarrow> i < n" | "cnt_pc_ok n c At_end \<longleftrightarrow> True"

fun steps_left :: "int \<Rightarrow> cnt_pc \<Rightarrow> int" where
  "steps_left n (At_test i) = 5 * (n - i) + 1" | "steps_left n (At_P i) = 5 * (n - i)" | "steps_left n (At_load i) = 5 * (n - i) - 1"
| "steps_left n (At_store i v) = 5 * (n - i) - 2" | "steps_left n (At_V i) = 5 * (n - i) - 3" | "steps_left n At_end = 0"

definition cnt_inv :: "int \<Rightarrow> Counter \<Rightarrow> bool" where
  "cnt_inv n s \<longleftrightarrow> semv s + in_crit (cnt_pc_of s 0) + in_crit (cnt_pc_of s 1) = 1 \<and>
     cnt s = added n (cnt_pc_of s 0) + added n (cnt_pc_of s 1) \<and>
     cnt_pc_ok n (cnt s) (cnt_pc_of s 0) \<and> cnt_pc_ok n (cnt s) (cnt_pc_of s 1)"

definition cnt_left :: "int \<Rightarrow> Counter \<Rightarrow> int" where
  "cnt_left n s = steps_left n (cnt_pc_of s 0) + steps_left n (cnt_pc_of s 1)"

lemma cnt_init_inv: "0 \<le> n \<Longrightarrow> cnt_inv n cnt_init \<and> cnt_left n cnt_init = 10 * n + 2"
  by (simp add: cnt_inv_def cnt_init_def cnt_left_def)

lemma not_crit_ok: "in_crit p = 0 \<Longrightarrow> cnt_pc_ok n c p \<Longrightarrow> cnt_pc_ok n c' p"
  by (cases p) auto

lemmas cnt_step_defs = cnt_thread_def cnt_goto_def sem_P_def sem_V_def cnt_inv_def cnt_left_def

lemma cnt_inv_step:
  assumes "cnt_inv n s" "t < 2" "cnt_thread n t False s = Some s'"
  shows "cnt_inv n s' \<and> cnt_left n s' = cnt_left n s - 1"
proof -
  consider "t = 0" | "t = 1" using assms(2) by linarith
  then show ?thesis
  proof cases
    case 1
    then show ?thesis using assms(1,3) not_crit_ok [of "cnt_pc_of s 1" n "cnt s" "cnt s'"]
      by (cases "cnt_pc_of s 0") (auto simp: cnt_step_defs split: if_splits)
  next
    case 2
    then show ?thesis using assms(1,3) not_crit_ok [of "cnt_pc_of s 0" n "cnt s" "cnt s'"]
      by (cases "cnt_pc_of s 1") (auto simp: cnt_step_defs split: if_splits)
  qed
qed

lemma steps_left_pos: "cnt_pc_ok n c p \<Longrightarrow> 0 \<le> steps_left n p \<and> (steps_left n p = 0 \<longleftrightarrow> p = At_end)"
  by (cases p) auto

lemma cnt_progress:
  assumes "cnt_inv n s" "\<not> cnt_joined s"
  shows "\<exists>t < 2. \<exists>s'. cnt_thread n t False s = Some s'"
proof (rule ccontr)
  assume "\<not> ?thesis"
  then have stuck: "cnt_thread n 0 False s = None" "cnt_thread n 1 False s = None" by auto
  have w: "in_crit (cnt_pc_of s t) = 0 \<and> (cnt_pc_of s t \<noteq> At_end \<longrightarrow> semv s = 0)" if "cnt_thread n t False s = None" for t
    using that by (cases "cnt_pc_of s t") (auto simp: cnt_thread_def sem_P_def split: if_splits)
  have "cnt_pc_of s 0 \<noteq> At_end \<or> cnt_pc_of s 1 \<noteq> At_end"
    using assms(2) by (auto simp: cnt_joined_def less_2_cases_iff)
  then show False using w [OF stuck(1)] w [OF stuck(2)] assms(1) by (auto simp: cnt_inv_def)
qed

lemma cnt_run_append: "cnt_run n (xs @ ys) s = do { s \<leftarrow> cnt_run n xs s; cnt_run n ys s }"
  by (induction n xs s rule: cnt_run.induct) (simp_all split: Option.bind_split)

lemma cnt_run_inv:
  "cnt_inv n s \<Longrightarrow> cnt_run n sch s = Some s' \<Longrightarrow> (\<forall>x \<in> set sch. \<not> snd x) \<Longrightarrow>
   cnt_inv n s' \<and> cnt_left n s' = cnt_left n s - int (length sch)"
proof (induction sch arbitrary: s)
  case (Cons x sch)
  obtain t where x: "x = (t, False)" using Cons(4) by (cases x) auto
  obtain s1 where s1: "t < 2" "cnt_thread n t False s = Some s1" "cnt_run n sch s1 = Some s'"
    using Cons(3) x by (auto split: if_splits bind_splits)
  from cnt_inv_step [OF Cons(2) s1(1,2)] Cons(1) [OF _ s1(3)] Cons(4) show ?case by auto
qed simp

text \<open>
  If no \<open>sem_wait\<close> is interrupted, then every interleaving of the two threads can be
  continued until both have returned, no interleaving has more than 10 \<open>niters\<close> + 2 steps, and
  in the end the counter is right.
\<close>

theorem goodcnt_ok:
  assumes n: "0 \<le> niters" and run: "cnt_run niters sch cnt_init = Some s" and "\<forall>x \<in> set sch. \<not> snd x"
  shows "(\<not> cnt_joined s \<longrightarrow> (\<exists>t. \<exists>s'. cnt_run niters (sch @ [(t, False)]) cnt_init = Some s')) \<and>
    int (length sch) \<le> 10 * niters + 2 \<and>
    (int (length sch) = 10 * niters + 2 \<longleftrightarrow> cnt_joined s) \<and>
    (cnt_joined s \<longrightarrow> cnt_verdict niters s = OK (2 * niters))"
proof (intro conjI impI)
  note inv = cnt_run_inv [OF _ run assms(3)] cnt_init_inv [OF n]
  then have i: "cnt_inv niters s" "cnt_left niters s = 10 * niters + 2 - int (length sch)" by auto
  have p: "cnt_pc_ok niters (cnt s) (cnt_pc_of s 0)" "cnt_pc_ok niters (cnt s) (cnt_pc_of s 1)" using i(1) by (auto simp: cnt_inv_def)
  note sl = steps_left_pos [OF p(1)] steps_left_pos [OF p(2)]
  show "int (length sch) \<le> 10 * niters + 2" using sl i(2) by (simp add: cnt_left_def)
  have "cnt_joined s \<longleftrightarrow> cnt_left niters s = 0" using sl by (auto simp: cnt_joined_def cnt_left_def less_2_cases_iff)
  then show "int (length sch) = 10 * niters + 2 \<longleftrightarrow> cnt_joined s" using i(2) by auto
  show "cnt_verdict niters s = OK (2 * niters)" if "cnt_joined s"
    using that i(1) by (simp add: cnt_joined_def cnt_verdict_def cnt_inv_def less_2_cases_iff)
  show "\<exists>t s'. cnt_run niters (sch @ [(t, False)]) cnt_init = Some s'" if nj: "\<not> cnt_joined s"
  proof -
    obtain t s' where t: "t < 2" "cnt_thread niters t False s = Some s'" using cnt_progress [OF i(1) nj] by auto
    then show ?thesis using run by (auto simp: cnt_run_append)
  qed
qed

text \<open>One interrupted wait lets both threads into the critical section, and an increment is lost.\<close>

theorem goodcnt_interrupted:
  "\<exists>s. cnt_run 1 [(0, False), (0, False), (0, False), (1, False), (1, True), (1, False), (1, False), (0, False),
      (0, False), (1, False), (0, False), (1, False)] cnt_init = Some s \<and> cnt_joined s \<and> cnt_verdict 1 s = BOOM 1"
  by (simp add: cnt_init_def cnt_thread_def cnt_goto_def sem_P_def sem_V_def cnt_joined_def cnt_verdict_def less_2_cases_iff)

section \<open>Transfers between accounts (sync/deadlock.cc)\<close>

text \<open>
  Any number of threads, each one call of \<open>transfer\<close>. \<open>std::lock\<close> takes both mutexes or
  waits holding neither, so it is one step; reading and writing a balance are two. The guards unlock in
  the reverse order of their construction. Accounts are numbered.
\<close>

datatype tr_pc = Tr_lock | Tr_load_from | Tr_store_from int | Tr_load_to | Tr_store_to int | Tr_unlock_to | Tr_unlock_from | Tr_end

record transfer_args =
  from_acc :: nat
  to_acc :: nat
  amount :: int

record bank =
  balance :: "nat \<Rightarrow> int"
  owner :: "nat \<Rightarrow> nat option"
  tr_pc_of :: "nat \<Rightarrow> tr_pc"

definition bank_init :: "(nat \<Rightarrow> int) \<Rightarrow> bank" where
  "bank_init b = \<lparr>balance = b, owner = (\<lambda>_. None), tr_pc_of = (\<lambda>_. Tr_lock)\<rparr>"

definition tr_goto :: "nat \<Rightarrow> tr_pc \<Rightarrow> bank \<Rightarrow> bank" where
  "tr_goto t p s = s\<lparr>tr_pc_of := (tr_pc_of s)(t := p)\<rparr>"

definition transfer :: "transfer_args \<Rightarrow> nat \<Rightarrow> bank \<Rightarrow> bank option" where
  "transfer a t s = (case tr_pc_of s t of
     Tr_lock \<Rightarrow>
       if owner s (from_acc a) = None \<and> owner s (to_acc a) = None
       then Some (tr_goto t Tr_load_from (s\<lparr>owner := (owner s)(from_acc a := Some t, to_acc a := Some t)\<rparr>)) else None
   | Tr_load_from \<Rightarrow> Some (tr_goto t (Tr_store_from (balance s (from_acc a))) s)
   | Tr_store_from v \<Rightarrow> Some (tr_goto t Tr_load_to (s\<lparr>balance := (balance s)(from_acc a := v - amount a)\<rparr>))
   | Tr_load_to \<Rightarrow> Some (tr_goto t (Tr_store_to (balance s (to_acc a))) s)
   | Tr_store_to v \<Rightarrow> Some (tr_goto t Tr_unlock_to (s\<lparr>balance := (balance s)(to_acc a := v + amount a)\<rparr>))
   | Tr_unlock_to \<Rightarrow> Some (tr_goto t Tr_unlock_from (s\<lparr>owner := (owner s)(to_acc a := None)\<rparr>))
   | Tr_unlock_from \<Rightarrow> Some (tr_goto t Tr_end (s\<lparr>owner := (owner s)(from_acc a := None)\<rparr>))
   | Tr_end \<Rightarrow> None)"

inductive bank_reachable :: "transfer_args list \<Rightarrow> (nat \<Rightarrow> int) \<Rightarrow> bank \<Rightarrow> bool" for js b where
  init: "bank_reachable js b (bank_init b)"
| step: "bank_reachable js b s \<Longrightarrow> t < length js \<Longrightarrow> transfer (js ! t) t s = Some s' \<Longrightarrow> bank_reachable js b s'"

subsection \<open>The invariant\<close>

fun tr_holds :: "transfer_args \<Rightarrow> tr_pc \<Rightarrow> nat set" where
  "tr_holds a Tr_lock = {}" | "tr_holds a Tr_end = {}" | "tr_holds a Tr_unlock_from = {from_acc a}" | "tr_holds a _ = {from_acc a, to_acc a}"

fun tr_effect :: "transfer_args \<Rightarrow> tr_pc \<Rightarrow> nat \<Rightarrow> int" where
  "tr_effect a Tr_lock = (\<lambda>_. 0)" | "tr_effect a Tr_load_from = (\<lambda>_. 0)" | "tr_effect a (Tr_store_from v) = (\<lambda>_. 0)"
| "tr_effect a Tr_load_to = (\<lambda>_. 0)(from_acc a := - amount a)"
| "tr_effect a (Tr_store_to v) = (\<lambda>_. 0)(from_acc a := - amount a)"
| "tr_effect a _ = (\<lambda>_. 0)(from_acc a := - amount a, to_acc a := amount a)"

fun tr_read :: "transfer_args \<Rightarrow> (nat \<Rightarrow> int) \<Rightarrow> tr_pc \<Rightarrow> bool" where
  "tr_read a b (Tr_store_from v) \<longleftrightarrow> v = b (from_acc a)" | "tr_read a b (Tr_store_to v) \<longleftrightarrow> v = b (to_acc a)" | "tr_read a b _ \<longleftrightarrow> True"

definition bank_inv :: "transfer_args list \<Rightarrow> (nat \<Rightarrow> int) \<Rightarrow> bank \<Rightarrow> bool" where
  "bank_inv js b s \<longleftrightarrow> (\<forall>x t. owner s x = Some t \<longleftrightarrow> t < length js \<and> x \<in> tr_holds (js ! t) (tr_pc_of s t)) \<and>
     (\<forall>x. balance s x = b x + (\<Sum>t < length js. tr_effect (js ! t) (tr_pc_of s t) x)) \<and>
     (\<forall>t < length js. tr_read (js ! t) (balance s) (tr_pc_of s t))"

lemma sum_effect_step:
  fixes f g :: "nat \<Rightarrow> int"
  assumes "t < n" "\<And>u. u < n \<Longrightarrow> u \<noteq> t \<Longrightarrow> g u = f u"
  shows "(\<Sum>u < n. g u) = (\<Sum>u < n. f u) + (g t - f t)"
proof -
  have "(\<Sum>u \<in> {..<n} - {t}. g u) = (\<Sum>u \<in> {..<n} - {t}. f u)" using assms(2) by (intro sum.cong) auto
  then show ?thesis using assms(1) by (simp add: sum.remove [of _ t])
qed

text \<open>Two threads that hold the same account are the same.\<close>

lemma bank_inv_exclusive:
  "bank_inv js b s \<Longrightarrow> t < length js \<Longrightarrow> u < length js \<Longrightarrow> x \<in> tr_holds (js ! t) (tr_pc_of s t) \<Longrightarrow>
   x \<in> tr_holds (js ! u) (tr_pc_of s u) \<Longrightarrow> u = t"
  unfolding bank_inv_def by (metis option.inject)

text \<open>A thread reads only balances of accounts it holds.\<close>

lemma tr_read_frame: "tr_read a b p \<Longrightarrow> (\<And>x. x \<in> tr_holds a p \<Longrightarrow> b' x = b x) \<Longrightarrow> tr_read a b' p"
  by (cases p) auto

lemma bank_inv_goto:
  assumes inv: "bank_inv js b s" and t: "t < length js"
    and own: "\<And>x u. owner s' x = Some u \<longleftrightarrow> (if u = t then x \<in> tr_holds (js ! t) p else owner s x = Some u)"
    and bal: "\<And>x. balance s' x = balance s x + tr_effect (js ! t) p x - tr_effect (js ! t) (tr_pc_of s t) x"
    and frame: "\<And>x. x \<notin> tr_holds (js ! t) (tr_pc_of s t) \<Longrightarrow> balance s' x = balance s x"
    and pcs: "tr_pc_of s' = (tr_pc_of s)(t := p)" and rd: "tr_read (js ! t) (balance s') p"
  shows "bank_inv js b s'"
  unfolding bank_inv_def
proof (intro conjI allI impI)
  fix x u
  show "owner s' x = Some u \<longleftrightarrow> u < length js \<and> x \<in> tr_holds (js ! u) (tr_pc_of s' u)"
    using inv t unfolding own pcs by (auto simp: bank_inv_def)
  show "balance s' x = b x + (\<Sum>t < length js. tr_effect (js ! t) (tr_pc_of s' t) x)"
    using inv sum_effect_step [OF t, of "\<lambda>u. tr_effect (js ! u) (tr_pc_of s' u) x" "\<lambda>u. tr_effect (js ! u) (tr_pc_of s u) x"]
    unfolding bal pcs by (simp add: bank_inv_def)
next
  fix u assume u: "u < length js"
  show "tr_read (js ! u) (balance s') (tr_pc_of s' u)"
  proof (cases "u = t")
    case False
    have "tr_read (js ! u) (balance s) (tr_pc_of s u)" using inv u by (simp add: bank_inv_def)
    then have "tr_read (js ! u) (balance s') (tr_pc_of s u)"
      using tr_read_frame frame bank_inv_exclusive [OF inv t u] False by metis
    then show ?thesis using False pcs by simp
  qed (simp add: pcs rd)
qed

lemma bank_inv_step:
  assumes inv: "bank_inv js b s" and t: "t < length js" and ne: "from_acc (js ! t) \<noteq> to_acc (js ! t)"
    and st: "transfer (js ! t) t s = Some s'"
  shows "bank_inv js b s'"
proof -
  have h: "owner s x = Some t \<longleftrightarrow> x \<in> tr_holds (js ! t) (tr_pc_of s t)" for x using inv t by (simp add: bank_inv_def)
  have rd: "tr_read (js ! t) (balance s) (tr_pc_of s t)" using inv t by (simp add: bank_inv_def)
  have hn: "x \<in> tr_holds (js ! t) (tr_pc_of s t) \<Longrightarrow> owner s x = Some u \<longleftrightarrow> u = t" for x u using h [of x] by auto
  note step = bank_inv_goto [OF inv t]
  show ?thesis
  proof (cases "tr_pc_of s t")
    case Tr_lock
    then have "s' = tr_goto t Tr_load_from (s\<lparr>owner := (owner s)(from_acc (js ! t) := Some t, to_acc (js ! t) := Some t)\<rparr>)"
      "owner s (from_acc (js ! t)) = None" "owner s (to_acc (js ! t)) = None" "owner s x \<noteq> Some t" for x
      using st h [of x] by (auto simp: transfer_def split: if_splits)
    then show ?thesis using Tr_lock by (intro step [where p = Tr_load_from]) (auto simp: tr_goto_def)
  next
    case Tr_load_from
    then have "s' = tr_goto t (Tr_store_from (balance s (from_acc (js ! t)))) s" using st by (simp add: transfer_def)
    then show ?thesis using Tr_load_from hn h
      by (intro step [where p = "Tr_store_from (balance s (from_acc (js ! t)))"]) (auto simp: tr_goto_def)
  next
    case (Tr_store_from v)
    then have "s' = tr_goto t Tr_load_to (s\<lparr>balance := (balance s)(from_acc (js ! t) := v - amount (js ! t))\<rparr>)"
      using st by (simp add: transfer_def)
    then show ?thesis using Tr_store_from hn h rd ne by (intro step [where p = Tr_load_to]) (auto simp: tr_goto_def)
  next
    case Tr_load_to
    then have "s' = tr_goto t (Tr_store_to (balance s (to_acc (js ! t)))) s" using st by (simp add: transfer_def)
    then show ?thesis using Tr_load_to hn h
      by (intro step [where p = "Tr_store_to (balance s (to_acc (js ! t)))"]) (auto simp: tr_goto_def)
  next
    case (Tr_store_to v)
    then have "s' = tr_goto t Tr_unlock_to (s\<lparr>balance := (balance s)(to_acc (js ! t) := v + amount (js ! t))\<rparr>)"
      using st by (simp add: transfer_def)
    then show ?thesis using Tr_store_to hn h rd ne by (intro step [where p = Tr_unlock_to]) (auto simp: tr_goto_def)
  next
    case Tr_unlock_to
    then have "s' = tr_goto t Tr_unlock_from (s\<lparr>owner := (owner s)(to_acc (js ! t) := None)\<rparr>)"
      using st by (simp add: transfer_def)
    then show ?thesis using Tr_unlock_to hn h ne by (intro step [where p = Tr_unlock_from]) (auto simp: tr_goto_def)
  next
    case Tr_unlock_from
    then have "s' = tr_goto t Tr_end (s\<lparr>owner := (owner s)(from_acc (js ! t) := None)\<rparr>)"
      using st by (simp add: transfer_def)
    then show ?thesis using Tr_unlock_from hn h ne by (intro step [where p = Tr_end]) (auto simp: tr_goto_def)
  next
    case Tr_end
    then show ?thesis using st by (simp add: transfer_def)
  qed
qed

lemma bank_reachable_inv:
  "bank_reachable js b s \<Longrightarrow> (\<forall>a \<in> set js. from_acc a \<noteq> to_acc a) \<Longrightarrow> bank_inv js b s"
proof (induction rule: bank_reachable.induct)
  case init
  then show ?case by (simp add: bank_inv_def bank_init_def)
next
  case (step s t s')
  then show ?case using bank_inv_step [of js b s t s'] by simp
qed

text \<open>A thread that holds its mutexes is never held up; if none holds one, every lock succeeds.\<close>

lemma bank_progress:
  assumes inv: "bank_inv js b s" and t: "t < length js" "tr_pc_of s t \<noteq> Tr_end"
  shows "\<exists>u < length js. \<exists>s'. transfer (js ! u) u s = Some s'"
proof (cases "\<exists>x u. owner s x = Some u")
  case True
  then obtain x u where "u < length js" "x \<in> tr_holds (js ! u) (tr_pc_of s u)" using inv by (auto simp: bank_inv_def)
  then show ?thesis by (intro exI [of _ u]) (cases "tr_pc_of s u"; simp add: transfer_def)
next
  case False
  then have free: "owner s x = None" for x by (cases "owner s x") auto
  then show ?thesis using t by (intro exI [of _ t]) (cases "tr_pc_of s t"; simp add: transfer_def)
qed

text \<open>
  Under every interleaving of transfers between different accounts, no deadlock occurs, and
  when all have returned every account has what it had, plus what was paid in, less what was paid out.
\<close>

theorem transfers_ok:
  assumes "bank_reachable js b s" and "\<forall>a \<in> set js. from_acc a \<noteq> to_acc a"
  shows "((\<exists>t < length js. tr_pc_of s t \<noteq> Tr_end) \<longrightarrow> (\<exists>t < length js. \<exists>s'. transfer (js ! t) t s = Some s')) \<and>
    ((\<forall>t < length js. tr_pc_of s t = Tr_end) \<longrightarrow>
      (\<forall>x. balance s x = b x + sum_list (map amount (filter (\<lambda>a. to_acc a = x) js))
                             - sum_list (map amount (filter (\<lambda>a. from_acc a = x) js))))"
proof (intro conjI impI allI)
  note inv = bank_reachable_inv [OF assms]
  show "\<exists>t < length js. \<exists>s'. transfer (js ! t) t s = Some s'" if "\<exists>t < length js. tr_pc_of s t \<noteq> Tr_end"
    using that bank_progress [OF inv] by auto
  fix x assume fin: "\<forall>t < length js. tr_pc_of s t = Tr_end"
  have filt: "sum_list (map amount (filter P js)) = (\<Sum>t < length js. if P (js ! t) then amount (js ! t) else 0)" for P
    by (simp only: sum_list_map_filter') (simp add: sum_list_sum_nth atLeast0LessThan)
  have "balance s x = b x + (\<Sum>t < length js. tr_effect (js ! t) (tr_pc_of s t) x)" using inv by (simp add: bank_inv_def)
  also have "(\<Sum>t < length js. tr_effect (js ! t) (tr_pc_of s t) x) =
      (\<Sum>t < length js. (if to_acc (js ! t) = x then amount (js ! t) else 0) - (if from_acc (js ! t) = x then amount (js ! t) else 0))"
    using fin assms(2) by (intro sum.cong) auto
  finally show "balance s x = b x + sum_list (map amount (filter (\<lambda>a. to_acc a = x) js))
      - sum_list (map amount (filter (\<lambda>a. from_acc a = x) js))"
    by (simp add: filt sum_subtractf)
qed

text \<open>The two threads of \<open>main\<close>, the second waiting for the first.\<close>

fun bank_run :: "transfer_args list \<Rightarrow> nat list \<Rightarrow> bank \<Rightarrow> bank option" where
  "bank_run js [] s = Some s"
| "bank_run js (t # ts) s = (if t < length js then do { s \<leftarrow> transfer (js ! t) t s; bank_run js ts s } else None)"

lemma bank_run_reachable: "bank_reachable js b s \<Longrightarrow> bank_run js ts s = Some s' \<Longrightarrow> bank_reachable js b s'"
  by (induction ts arbitrary: s) (auto intro: bank_reachable.step split: if_splits bind_splits)

definition bank_main :: "transfer_args list" where
  "bank_main = [\<lparr>from_acc = 0, to_acc = 1, amount = 10\<rparr>, \<lparr>from_acc = 1, to_acc = 0, amount = 5\<rparr>]"

theorem transfers_ok_witness:
  "\<exists>s. bank_run bank_main [0, 0, 0, 0, 0, 0, 0, 1, 1, 1, 1, 1, 1, 1] (bank_init (\<lambda>x. if x = 0 then 100 else 50)) = Some s \<and>
       balance s 0 = 95 \<and> balance s 1 = 55"
proof -
  let ?b = "\<lambda>x. if x = 0 then 100 else (50 :: int)"
  obtain s where s: "bank_run bank_main [0, 0, 0, 0, 0, 0, 0, 1, 1, 1, 1, 1, 1, 1] (bank_init ?b) = Some s"
      "\<forall>t < length bank_main. tr_pc_of s t = Tr_end"
    by (simp add: bank_init_def bank_main_def transfer_def tr_goto_def less_Suc_eq)
  have "bank_reachable bank_main ?b s" by (rule bank_run_reachable [OF bank_reachable.init s(1)])
  from transfers_ok [OF this] s show ?thesis by (auto simp: bank_main_def)
qed

end

