(* ===== verification/TextTools.thy ===== *)
theory TextTools
  imports Prelude
begin

section \<open>Fields of a line\<close>

text \<open>
  Reference definitions for the two splitters of the repository: cutting a string at a
  character, and joining the pieces again.
\<close>

fun join_with :: "'a \<Rightarrow> 'a list list \<Rightarrow> 'a list" where
  "join_with c [] = []"
| "join_with c [f] = f"
| "join_with c (f # fs) = f @ c # join_with c fs"

fun cut_at :: "'a \<Rightarrow> 'a list \<Rightarrow> 'a list list" where
  "cut_at c [] = [[]]"
| "cut_at c (x # xs) = (if x = c then [] # cut_at c xs else (x # hd (cut_at c xs)) # tl (cut_at c xs))"

lemma cut_at_not_Nil [simp]: "cut_at c xs \<noteq> []"
  by (cases xs) auto

lemma cut_at_free: "c \<notin> set f \<Longrightarrow> cut_at c f = [f]"
  by (induction f) auto

lemma cut_at_append: "c \<notin> set f \<Longrightarrow> cut_at c (f @ c # xs) = f # cut_at c xs"
  by (induction f) auto

lemma cut_at_join: "fs \<noteq> [] \<Longrightarrow> (\<forall>f \<in> set fs. c \<notin> set f) \<Longrightarrow> cut_at c (join_with c fs) = fs"
  by (induction c fs rule: join_with.induct) (auto simp: cut_at_free cut_at_append)

text \<open>Cutting finds the next separator.\<close>

definition find_char :: "'a \<Rightarrow> 'a list \<Rightarrow> nat \<Rightarrow> nat option" where
  "find_char c s pos = (let k = length (takeWhile (\<lambda>x. x \<noteq> c) (drop pos s)) in
     if pos + k < length s then Some (pos + k) else None)"

lemma find_char_bounds: "find_char c s pos = Some i \<Longrightarrow> pos \<le> i \<and> i < length s"
  by (auto simp: find_char_def Let_def split: if_splits)

lemma find_char_Some:
  assumes "find_char c s pos = Some i"
  shows "cut_at c (drop pos s) = take (i - pos) (drop pos s) # cut_at c (drop (i + 1) s)"
proof -
  let ?k = "length (takeWhile (\<lambda>x. x \<noteq> c) (drop pos s))"
  have i: "i = pos + ?k" "i < length s" using assms by (auto simp: find_char_def Let_def split: if_splits)
  then have "?k < length (drop pos s)" by simp
  then have "drop pos s ! ?k = c" by (metis (mono_tags) nth_length_takeWhile)
  then have "drop ?k (drop pos s) = c # drop (Suc ?k) (drop pos s)"
    using i Cons_nth_drop_Suc [of ?k "drop pos s"] by simp
  then have d: "drop pos s = takeWhile (\<lambda>x. x \<noteq> c) (drop pos s) @ c # drop (i + 1) s"
    using i(1) append_take_drop_id [of ?k "drop pos s"] by (simp add: takeWhile_eq_take [symmetric] ac_simps)
  have "c \<notin> set (takeWhile (\<lambda>x. x \<noteq> c) (drop pos s))" using set_takeWhileD by fastforce
  moreover have "take (i - pos) (drop pos s) = takeWhile (\<lambda>x. x \<noteq> c) (drop pos s)" using i(1) by (simp add: takeWhile_eq_take [symmetric])
  ultimately show ?thesis by (subst d) (simp add: cut_at_append)
qed

lemma find_char_None:
  assumes "find_char c s pos = None" and "pos \<le> length s"
  shows "cut_at c (drop pos s) = [drop pos s]"
proof -
  have "length (takeWhile (\<lambda>x. x \<noteq> c) (drop pos s)) = length (drop pos s)"
    using assms length_takeWhile_le [of "\<lambda>x. x \<noteq> c" "drop pos s"] by (simp add: find_char_def Let_def split: if_splits)
  then have "takeWhile (\<lambda>x. x \<noteq> c) (drop pos s) = drop pos s" by (metis takeWhile_eq_take take_all order_refl)
  then show ?thesis by (intro cut_at_free) (metis (mono_tags, lifting) set_takeWhileD)
qed

section \<open>CSV reader (utils/csvParser.cc)\<close>

text \<open>
  An input stream holds the characters left to read and its state bits. \<open>std::getline\<close>
  takes the characters up to a newline, which it removes; it sets \<open>eof\<close> when the input ends
  first, and \<open>fail\<close> when it gets no character at all or the stream is not good. A
  \<open>CSVRow\<close> keeps the line and the positions of its commas, with -1 in front and the
  length at the end.
\<close>

record istream =
  input :: string
  eof :: bool
  fail :: bool

definition good :: "istream \<Rightarrow> bool" where
  "good str \<longleftrightarrow> \<not> eof str \<and> \<not> fail str"

definition getline :: "istream \<Rightarrow> string \<Rightarrow> istream \<times> string" where
  "getline str line = (
     if good str
     then let line = takeWhile (\<lambda>x. x \<noteq> CHR 0x0A) (input str) in
       case dropWhile (\<lambda>x. x \<noteq> CHR 0x0A) (input str) of
         [] \<Rightarrow> (str\<lparr>input := [], eof := True, fail := (line = [])\<rparr>, line)
       | _ # rest \<Rightarrow> (str\<lparr>input := rest\<rparr>, line)
     else (str\<lparr>fail := True\<rparr>, line))"

record CSVRow =
  m_line :: string
  m_data :: "int list"

definition empty_CSVRow :: CSVRow where
  "empty_CSVRow = \<lparr>m_line = [], m_data = []\<rparr>"

definition CSVRow_at :: "CSVRow \<Rightarrow> nat \<Rightarrow> string option" where
  "CSVRow_at row index = do {
     a \<leftarrow> vget (m_data row) index;
     b \<leftarrow> vget (m_data row) (index + 1);
     if 0 \<le> a + 1 \<and> a + 1 \<le> b \<and> b \<le> int (length (m_line row))
     then Some (take (nat (b - (a + 1))) (drop (nat (a + 1)) (m_line row))) else None }"

definition CSVRow_size :: "CSVRow \<Rightarrow> nat" where
  "CSVRow_size row = nat (to_u64 (int (length (m_data row)) - 1))"

function commas :: "string \<Rightarrow> nat \<Rightarrow> int list \<Rightarrow> int list" where
  "commas line pos data = (case find_char (CHR '','') line pos of
     None \<Rightarrow> data
   | Some pos \<Rightarrow> commas line (pos + 1) (data @ [to_int32 (int pos)]))"
  by pat_completeness auto
termination
  by (relation "measure (\<lambda>(line, pos, _). length line - pos)") (auto dest!: find_char_bounds)

declare commas.simps [simp del]

definition readNextRow :: "CSVRow \<Rightarrow> istream \<Rightarrow> istream \<times> CSVRow" where
  "readNextRow row str = (
     let (str, line) = getline str (m_line row);
         data = commas line 0 [-1];
         pos = length line
     in (str, row\<lparr>m_line := line, m_data := data @ [to_int32 (int pos)]\<rparr>))"

text \<open>The iterator: whether its pointer to the stream is set, and its row.\<close>

record CSVIterator =
  m_str :: bool
  m_row :: CSVRow

definition CSVIterator_next :: "CSVIterator \<Rightarrow> istream \<Rightarrow> CSVIterator \<times> istream" where
  "CSVIterator_next it str = (
     if m_str it
     then let (str, row) = readNextRow (m_row it) str in
       (it\<lparr>m_row := row, m_str := \<not> fail str\<rparr>, str)
     else (it, str))"

definition CSVIterator_post :: "CSVIterator \<Rightarrow> istream \<Rightarrow> CSVIterator \<times> CSVIterator \<times> istream" where
  "CSVIterator_post it str = (let tmp = it; (it, str) = CSVIterator_next it str in (tmp, it, str))"

definition csv_begin :: "istream \<Rightarrow> CSVIterator \<times> istream" where
  "csv_begin str = CSVIterator_next \<lparr>m_str = good str, m_row = empty_CSVRow\<rparr> str"

definition csv_end :: CSVIterator where
  "csv_end = \<lparr>m_str = False, m_row = empty_CSVRow\<rparr>"

definition CSVIterator_eq :: "bool \<Rightarrow> CSVIterator \<Rightarrow> CSVIterator \<Rightarrow> bool" where
  "CSVIterator_eq same_object it rhs \<longleftrightarrow> same_object \<or> \<not> m_str it \<and> \<not> m_str rhs"

text \<open>\<open>for (auto &row : CSVRange(file))\<close>, collecting the rows\<close>

partial_function (option) csv_loop :: "CSVIterator \<Rightarrow> istream \<Rightarrow> CSVRow list \<Rightarrow> CSVRow list option" where
  "csv_loop it str rows = (
     if CSVIterator_eq False it csv_end then Some rows
     else case CSVIterator_next it str of (it', str) \<Rightarrow> csv_loop it' str (rows @ [m_row it]))"

definition csv_rows :: "string \<Rightarrow> CSVRow list option" where
  "csv_rows text = (case csv_begin \<lparr>input = text, eof = False, fail = False\<rparr> of (it, str) \<Rightarrow> csv_loop it str [])"

definition row_fields :: "CSVRow \<Rightarrow> string list option" where
  "row_fields row = those (map (CSVRow_at row) [0..<CSVRow_size row])"

subsection \<open>A row holds the fields of its line\<close>

definition row_of :: "string \<Rightarrow> CSVRow" where
  "row_of line = \<lparr>m_line = line, m_data = commas line 0 [-1] @ [to_int32 (int (length line))]\<rparr>"

lemma readNextRow_line: "readNextRow row str = (fst (getline str (m_line row)), row_of (snd (getline str (m_line row))))"
  by (simp add: readNextRow_def row_of_def Let_def split: prod.split)

text \<open>Splitting a line at the given positions, from a start on.\<close>

fun pieces :: "'a list \<Rightarrow> int list \<Rightarrow> 'a list list" where
  "pieces line (a # b # ps) = take (nat (b - (a + 1))) (drop (nat (a + 1)) line) # pieces line (b # ps)"
| "pieces line ps = []"

lemma length_pieces: "length (pieces line ps) = length ps - 1"
  by (induction line ps rule: pieces.induct) auto

lemma pieces_nth: "Suc i < length ps \<Longrightarrow> pieces line ps ! i = take (nat (ps ! Suc i - (ps ! i + 1))) (drop (nat (ps ! i + 1)) line)"
proof (induction line ps arbitrary: i rule: pieces.induct)
  case (1 line a b ps)
  then show ?case by (cases i) auto
qed auto

lemma commas_pieces:
  assumes "length line < 2 ^ 31" and "pos \<le> length line"
  shows "\<exists>ps. commas line pos data = data @ ps \<and>
     pieces line ((int pos - 1) # ps @ [int (length line)]) = cut_at (CHR '','') (drop pos line) \<and>
     sorted_wrt (<) ((int pos - 1) # ps @ [int (length line)])"
  using assms
proof (induction line pos data rule: commas.induct)
  case (1 line pos data)
  show ?case
  proof (cases "find_char (CHR '','') line pos")
    case None
    have "commas line pos data = data" using None by (subst commas.simps) simp
    moreover have "pieces line [int pos - 1, int (length line)] = [drop pos line]" by (simp add: nat_diff_distrib)
    ultimately show ?thesis using find_char_None [OF None 1(3)] 1(3) by (intro exI [of _ "[]"]) simp
  next
    case (Some i)
    note b = find_char_bounds [OF Some]
    obtain ps where ps: "commas line (i + 1) (data @ [to_int32 (int i)]) = (data @ [to_int32 (int i)]) @ ps"
      "pieces line ((int (i + 1) - 1) # ps @ [int (length line)]) = cut_at (CHR '','') (drop (i + 1) line)"
      "sorted_wrt (<) ((int (i + 1) - 1) # ps @ [int (length line)])"
      using 1(1) [OF Some 1(2)] b by auto
    have i: "to_int32 (int i) = int i" using b 1(2) by simp
    have "commas line pos data = data @ int i # ps" using Some ps(1) i by (subst commas.simps) simp
    moreover have "pieces line ((int pos - 1) # int i # ps @ [int (length line)]) = cut_at (CHR '','') (drop pos line)"
      using ps(2) b unfolding find_char_Some [OF Some] by (simp add: nat_diff_distrib)
    ultimately show ?thesis using ps(3) b by (intro exI [of _ "int i # ps"]) auto
  qed
qed

lemma those_map_Some: "(\<And>x. x \<in> set xs \<Longrightarrow> f x = Some (g x)) \<Longrightarrow> those (map f xs) = Some (map g xs)"
  by (induction xs) auto

lemma length_cut_at: "length (cut_at c xs) \<le> length xs + 1"
  by (induction xs) auto

lemma row_fields_ok:
  assumes "length line < 2 ^ 31"
  shows "row_fields (row_of line) = Some (cut_at (CHR '','') line)" and "CSVRow_size (row_of line) = length (cut_at (CHR '','') line)"
proof -
  let ?r = "row_of line" and ?n = "length (cut_at (CHR '','') line)"
  obtain ps where ps: "commas line 0 [-1] = [-1] @ ps" "pieces line (-1 # ps @ [int (length line)]) = cut_at (CHR '','') line"
    "sorted_wrt (<) (-1 # ps @ [int (length line)])"
    using commas_pieces [OF assms, of 0 "[-1]"] by auto
  let ?d = "-1 # ps @ [int (length line)]"
  have d: "m_data ?r = ?d" "m_line ?r = line" using ps(1) assms by (simp_all add: row_of_def)
  have len: "length ?d = ?n + 1" using length_pieces [of line ?d] ps(2) by simp
  show sz: "CSVRow_size ?r = ?n"
    using len length_cut_at [of "CHR '',''" line] assms by (simp add: CSVRow_size_def d)
  have "CSVRow_at ?r i = Some (cut_at (CHR '','') line ! i)" if "i < ?n" for i
  proof -
    have i: "Suc i < length ?d" using that len by simp
    have "?d ! i < ?d ! Suc i" using ps(3) i by (simp only: sorted_wrt_nth_less)
    moreover have "-1 \<le> ?d ! i"
    proof (cases i)
      case (Suc j)
      then have "?d ! 0 < ?d ! i" using ps(3) i by (intro sorted_wrt_nth_less [of "(<)"]) auto
      then show ?thesis by simp
    qed simp
    moreover have "?d ! Suc i \<le> int (length line)"
    proof (cases "Suc i = length ?d - 1")
      case False
      then have "?d ! Suc i < ?d ! (length ?d - 1)" using ps(3) i by (intro sorted_wrt_nth_less [of "(<)"]) auto
      then show ?thesis by (simp add: nth_append)
    qed (simp add: nth_append)
    ultimately show ?thesis
      using i pieces_nth [OF i, of line] by (simp add: CSVRow_at_def d ub_simps ps(2) del: nth_Cons_Suc length_Cons)
  qed
  then show "row_fields ?r = Some (cut_at (CHR '','') line)"
    unfolding row_fields_def sz by (subst those_map_Some) (auto simp: map_nth)
qed

subsection \<open>Reading a table back\<close>

abbreviation newline :: char where "newline \<equiv> CHR 0x0A"

definition text_of :: "string list \<Rightarrow> string" where
  "text_of ls = concat (map (\<lambda>l. l @ [newline]) ls)"

definition at_text :: "string list \<Rightarrow> istream" where
  "at_text ls = \<lparr>input = text_of ls, eof = False, fail = False\<rparr>"

lemma getline_text:
  "newline \<notin> set l \<Longrightarrow> getline (at_text (l # ls)) old = (at_text ls, l)"
  "getline (at_text []) old = (\<lparr>input = [], eof = True, fail = True\<rparr>, [])"
proof -
  assume "newline \<notin> set l"
  then have "takeWhile (\<lambda>x. x \<noteq> newline) (l @ newline # r) = l" "dropWhile (\<lambda>x. x \<noteq> newline) (l @ newline # r) = newline # r" for r
    by (induction l) auto
  then show "getline (at_text (l # ls)) old = (at_text ls, l)"
    by (simp add: getline_def at_text_def text_of_def good_def)
qed (simp add: getline_def at_text_def text_of_def good_def)

lemma csv_next:
  "newline \<notin> set l \<Longrightarrow> CSVIterator_next \<lparr>m_str = True, m_row = row\<rparr> (at_text (l # ls)) = (\<lparr>m_str = True, m_row = row_of l\<rparr>, at_text ls)"
  "CSVIterator_next \<lparr>m_str = True, m_row = row\<rparr> (at_text []) = (\<lparr>m_str = False, m_row = row_of []\<rparr>, \<lparr>input = [], eof = True, fail = True\<rparr>)"
  by (simp_all add: CSVIterator_next_def readNextRow_line getline_text) (simp add: at_text_def)

lemma csv_loop_text:
  "(\<forall>l \<in> set ls. newline \<notin> set l) \<Longrightarrow>
   csv_loop \<lparr>m_str = True, m_row = row\<rparr> (at_text ls) rows = Some (rows @ row # map row_of ls)"
proof (induction ls arbitrary: row rows)
  case Nil
  have "csv_loop \<lparr>m_str = False, m_row = r\<rparr> str rows' = Some rows'" for r str rows'
    by (subst csv_loop.simps) (simp add: CSVIterator_eq_def csv_end_def)
  then show ?case by (subst csv_loop.simps) (simp add: CSVIterator_eq_def csv_end_def csv_next)
next
  case (Cons l ls)
  then show ?case by (subst csv_loop.simps) (simp add: CSVIterator_eq_def csv_end_def csv_next)
qed

lemma csv_rows_text:
  assumes "\<forall>l \<in> set ls. newline \<notin> set l"
  shows "csv_rows (text_of ls) = Some (map row_of ls)"
proof (cases ls)
  case Nil
  then show ?thesis
    using csv_next(2) by (simp add: csv_rows_def csv_begin_def good_def csv_loop.simps CSVIterator_eq_def csv_end_def at_text_def)
next
  case (Cons l ls')
  then have "csv_begin (at_text ls) = (\<lparr>m_str = True, m_row = row_of l\<rparr>, at_text ls')"
    using assms csv_next(1) [of l empty_CSVRow ls'] by (simp add: csv_begin_def good_def at_text_def)
  then show ?thesis using Cons assms csv_loop_text [of ls' "row_of l" "[]"] by (simp add: csv_rows_def at_text_def)
qed

lemma newline_join: "newline \<in> set (join_with (CHR '','') fs) \<longleftrightarrow> (\<exists>f \<in> set fs. newline \<in> set f)"
  by (induction "CHR '',''" fs rule: join_with.induct) auto

text \<open>
  C33: writing the rows of a table, their fields separated by commas and each row ended by a
  newline, and iterating over the text gives back the rows field by field. A field may be
  empty but holds no comma and no newline, and a line is shorter than \<open>2 ^ 31\<close>.
\<close>

theorem csv_roundtrip:
  assumes "\<forall>fs \<in> set table. fs \<noteq> [] \<and> (\<forall>f \<in> set fs. CHR '','' \<notin> set f \<and> newline \<notin> set f) \<and> length (join_with (CHR '','') fs) < 2 ^ 31"
  shows "\<exists>rows. csv_rows (text_of (map (join_with (CHR '','')) table)) = Some rows \<and> map row_fields rows = map Some table"
proof -
  have "csv_rows (text_of (map (join_with (CHR '','')) table)) = Some (map row_of (map (join_with (CHR '','')) table))"
    using assms by (intro csv_rows_text) (auto simp: newline_join)
  moreover have "row_fields (row_of (join_with (CHR '','') fs)) = Some fs" if "fs \<in> set table" for fs
    using assms that row_fields_ok(1) [of "join_with (CHR '','') fs"] by (simp add: cut_at_join)
  ultimately show ?thesis by simp
qed

theorem csv_roundtrip_witness:
  "\<exists>rows. csv_rows (text_of (map (join_with (CHR '','')) [[''a'', [], ''bc''], [''d'']])) = Some rows \<and>
    map row_fields rows = [Some [''a'', [], ''bc''], Some [''d'']]"
  using csv_roundtrip [of "[[''a'', [], ''bc''], [''d'']]"] by simp

text \<open>A default-constructed row claims to have \<open>2 ^ 64 - 1\<close> fields.\<close>

lemma empty_row_size: "CSVRow_size empty_CSVRow = 2 ^ 64 - 1"
  by (simp add: CSVRow_size_def empty_CSVRow_def to_u64_def)

section \<open>Splitting at a separator (misc/include/split_string.h)\<close>

text \<open>
  Positions are \<open>size_t\<close>, \<open>npos\<close> is \<open>2 ^ 64 - 1\<close>. \<open>substr\<close> throws when the start lies behind
  the end of the string. The loop starts with \<open>next = -1\<close>, so that the first
  piece begins at \<open>sep.size() - 1\<close>.
\<close>

datatype split_error = Out_of_range_thrown

definition npos :: nat where "npos = 2 ^ 64 - 1"

definition find_sep :: "string \<Rightarrow> string \<Rightarrow> nat \<Rightarrow> nat" where
  "find_sep s sep cur = (case filter (\<lambda>i. take (length sep) (drop i s) = sep) [cur..<length s + 1 - length sep] of
     [] \<Rightarrow> npos | i # _ \<Rightarrow> i)"

definition substr :: "string \<Rightarrow> nat \<Rightarrow> nat \<Rightarrow> split_error + string" where
  "substr s pos n = (if pos > length s then Inl Out_of_range_thrown else Inr (take n (drop pos s)))"

partial_function (option) split_string_loop :: "string list \<Rightarrow> string \<Rightarrow> string \<Rightarrow> nat \<Rightarrow> (split_error + string list) option" where
  "split_string_loop res inp sep nxt = (
     let cur = (nxt + length sep) mod 2 ^ 64;
         nxt = find_sep inp sep cur
     in case substr inp cur ((nxt + 2 ^ 64 - cur) mod 2 ^ 64) of
          Inl e \<Rightarrow> Some (Inl e)
        | Inr piece \<Rightarrow> if nxt \<noteq> npos then split_string_loop (res @ [piece]) inp sep nxt else Some (Inr (res @ [piece])))"

definition SplitString :: "string list \<Rightarrow> string \<Rightarrow> string \<Rightarrow> (split_error + string list) option" where
  "SplitString res inp sep = split_string_loop res inp sep npos"

lemma SplitString_loses: "SplitString [] ''ab--cd'' ''--'' = Some (Inr [''b'', ''cd''])"
  by (simp add: SplitString_def split_string_loop.simps find_sep_def substr_def npos_def upt_rec)

lemma SplitString_empty_sep: "length inp < npos \<Longrightarrow> SplitString res inp [] = Some (Inl Out_of_range_thrown)"
  by (simp add: SplitString_def split_string_loop.simps substr_def npos_def)

lemma filter_upt_first: "a \<le> i \<Longrightarrow> i < b \<Longrightarrow> P i \<Longrightarrow> (\<And>j. a \<le> j \<Longrightarrow> j < i \<Longrightarrow> \<not> P j) \<Longrightarrow> \<exists>r. filter P [a..<b] = i # r"
proof -
  assume a: "a \<le> i" "i < b" and P: "P i" "\<And>j. a \<le> j \<Longrightarrow> j < i \<Longrightarrow> \<not> P j"
  have "[a..<b] = [a..<i] @ i # [Suc i..<b]" using a upt_add_eq_append [of a i "b - i"] by (simp add: upt_conv_Cons)
  moreover have "filter P [a..<i] = []" using P(2) by (auto simp: filter_empty_conv)
  ultimately show ?thesis using P(1) by simp
qed

lemma take_one: "i < length s \<Longrightarrow> take (Suc 0) (drop i s) = [s ! i]"
  by (simp add: take_Suc hd_drop_conv_nth)

lemma find_sep_char: "find_sep s [c] cur = (case find_char c s cur of None \<Rightarrow> npos | Some i \<Rightarrow> i)"
proof -
  let ?k = "length (takeWhile (\<lambda>x. x \<noteq> c) (drop cur s))"
  let ?P = "\<lambda>i. take (length [c]) (drop i s) = [c]"
  have before: "s ! j \<noteq> c" if "cur \<le> j" "j < cur + ?k" "j < length s" for j
  proof -
    have "j - cur < ?k" using that by simp
    then have "takeWhile (\<lambda>x. x \<noteq> c) (drop cur s) ! (j - cur) \<noteq> c" by (metis (mono_tags, lifting) nth_mem set_takeWhileD)
    moreover have "takeWhile (\<lambda>x. x \<noteq> c) (drop cur s) ! (j - cur) = drop cur s ! (j - cur)"
      using \<open>j - cur < ?k\<close> by (rule takeWhile_nth)
    ultimately show ?thesis using that by simp
  qed
  show ?thesis
  proof (cases "find_char c s cur")
    case None
    then have "length s \<le> cur + ?k" by (auto simp: find_char_def Let_def split: if_splits)
    then have "filter ?P [cur..<length s + 1 - length [c]] = []"
      using before by (auto simp: filter_empty_conv take_one)
    then show ?thesis using None by (simp add: find_sep_def)
  next
    case (Some i)
    then have i: "i = cur + ?k" "i < length s" by (auto simp: find_char_def Let_def split: if_splits)
    then have "?k < length (drop cur s)" by simp
    then have "drop cur s ! ?k = c" by (metis (mono_tags) nth_length_takeWhile)
    then have "s ! i = c" using i by simp
    then have "\<exists>r. filter ?P [cur..<length s + 1 - length [c]] = i # r"
      using i before by (intro filter_upt_first) (auto simp: take_one)
    then show ?thesis using Some by (auto simp: find_sep_def)
  qed
qed

lemma split_string_loop_ok:
  assumes "length inp < 2 ^ 63"
  shows "(nxt + 1) mod 2 ^ 64 = cur \<Longrightarrow> cur \<le> length inp \<Longrightarrow> split_string_loop res inp [c] nxt = Some (Inr (res @ cut_at c (drop cur inp)))"
proof (induction "length inp - cur" arbitrary: nxt cur res rule: less_induct)
  case less
  show ?case
  proof (cases "find_char c inp cur")
    case None
    then have f: "find_sep inp [c] cur = npos" by (simp add: find_sep_char)
    have "(npos + 2 ^ 64 - cur) mod 2 ^ 64 = npos - cur" using less(3) assms by (simp add: npos_def mod_if)
    moreover have "length inp - cur \<le> npos - cur" using assms by (simp add: npos_def)
    ultimately have "substr inp cur ((npos + 2 ^ 64 - cur) mod 2 ^ 64) = Inr (drop cur inp)"
      using less(3) by (simp add: substr_def)
    then show ?thesis
      using f less(2) find_char_None [OF None less(3)] by (subst split_string_loop.simps) (simp add: Let_def)
  next
    case (Some i)
    note b = find_char_bounds [OF Some]
    have f: "find_sep inp [c] cur = i" using Some by (simp add: find_sep_char)
    have "(i + 2 ^ 64 - cur) mod 2 ^ 64 = i - cur"
    proof -
      have e: "i + 2 ^ 64 - cur = (i - cur) + 2 ^ 64" using b by simp
      have "i < 2 ^ 64" using b assms by simp
      then have l: "i - cur < 2 ^ 64" by (rule le_less_trans [OF diff_le_self])
      show ?thesis unfolding e by (simp only: mod_add_self2 mod_less [OF l])
    qed
    then have p: "substr inp cur ((i + 2 ^ 64 - cur) mod 2 ^ 64) = Inr (take (i - cur) (drop cur inp))"
      using less(3) by (simp add: substr_def)
    have ni: "i \<noteq> npos" "(i + 1) mod 2 ^ 64 = i + 1" using b assms by (simp_all add: npos_def)
    have "split_string_loop (res @ [take (i - cur) (drop cur inp)]) inp [c] i =
        Some (Inr ((res @ [take (i - cur) (drop cur inp)]) @ cut_at c (drop (i + 1) inp)))"
      using b ni(2) by (intro less(1)) auto
    then show ?thesis
      using f p ni(1) less(2) find_char_Some [OF Some] by (subst split_string_loop.simps) (simp add: Let_def)
  qed
qed

lemma SplitString_ok: "length inp < 2 ^ 63 \<Longrightarrow> SplitString res inp [c] = Some (Inr (res @ cut_at c inp))"
  using split_string_loop_ok [of inp npos 0 res c] by (simp add: SplitString_def npos_def)

text \<open>
  With a separator of one character, splitting returns and gives back the joined pieces, the
  empty ones included, after what the result held before.
\<close>

theorem SplitString_join:
  assumes "fs \<noteq> []" and "\<forall>f \<in> set fs. c \<notin> set f" and "length (join_with c fs) < 2 ^ 63"
  shows "SplitString res (join_with c fs) [c] = Some (Inr (res @ fs))"
  using SplitString_ok [OF assms(3)] assms(1,2) by (simp add: cut_at_join)

theorem SplitString_join_witness: "SplitString [''x''] ''ab,,c'' '','' = Some (Inr [''x'', ''ab'', [], ''c''])"
  using SplitString_join [of "[''ab'', [], ''c'']" "CHR '',''" "[''x'']"] by simp

section \<open>Runs of spaces (utils/removeContinousSpaces.cc)\<close>

text \<open>\<open>std::unique\<close> keeps an element unless the predicate relates it to the last one kept.\<close>

definition AreBothSpaces :: "char \<Rightarrow> char \<Rightarrow> bool" where
  "AreBothSpaces x y \<longleftrightarrow> x = CHR '' '' \<and> y = CHR '' ''"

fun unique_from :: "('a \<Rightarrow> 'a \<Rightarrow> bool) \<Rightarrow> 'a \<Rightarrow> 'a list \<Rightarrow> 'a list" where
  "unique_from p x [] = []"
| "unique_from p x (y # ys) = (if p x y then unique_from p x ys else y # unique_from p y ys)"

fun unique :: "('a \<Rightarrow> 'a \<Rightarrow> bool) \<Rightarrow> 'a list \<Rightarrow> 'a list" where
  "unique p [] = []"
| "unique p (x # xs) = x # unique_from p x xs"

definition squeeze_spaces :: "string \<Rightarrow> string" where
  "squeeze_spaces str = unique AreBothSpaces str"

lemma unique_from_ok:
  "successively (\<lambda>a b. \<not> (a = CHR '' '' \<and> b = CHR '' '')) (x # unique_from AreBothSpaces x ys) \<and>
   filter (\<lambda>a. a \<noteq> CHR '' '') (unique_from AreBothSpaces x ys) = filter (\<lambda>a. a \<noteq> CHR '' '') ys"
  by (induction ys arbitrary: x) (auto simp: AreBothSpaces_def)

lemma squeeze_spaces_ok:
  "successively (\<lambda>a b. \<not> (a = CHR '' '' \<and> b = CHR '' '')) (squeeze_spaces str)"
  "filter (\<lambda>a. a \<noteq> CHR '' '') (squeeze_spaces str) = filter (\<lambda>a. a \<noteq> CHR '' '') str"
  using unique_from_ok by (cases str; simp add: squeeze_spaces_def)+

lemma squeeze_spaces_main: "squeeze_spaces ''aaaaa   aaa aa aa   aaa.'' = ''aaaaa aaa aa aa aaa.''"
  by (simp add: squeeze_spaces_def AreBothSpaces_def)

end
