(* ===== verification/TinyServer.thy ===== *)
theory TinyServer
  imports Rio Serialize
begin

section \<open>A small web server (tiny/tiny.c)\<close>

text \<open>
  One connection at a time: read the request with Rio, look the file up, answer. The files, their
  permissions and the output of a CGI program are parameters. A function returns \<open>Ret\<close>, or
  \<open>Exit\<close> when a csapp wrapper ends the process (with the connection as it left it), or
  \<open>Undef\<close> for undefined behaviour; reading the headers need not end, so it is a partial
  function and \<open>None\<close> means that it does not.
\<close>

datatype 'a run = Ret 'a | Exit net | Undef

fun run_bind :: "'a run \<Rightarrow> ('a \<Rightarrow> 'b run) \<Rightarrow> 'b run" where
  "run_bind (Ret x) f = f x"
| "run_bind (Exit w) f = Exit w"
| "run_bind Undef f = Undef"

record file_info =
  regular :: bool
  irusr :: bool
  ixusr :: bool
  st_size :: int

text \<open>
  \<open>stat\<close>, \<open>open\<close> (the content of the file), and what a CGI program writes when it runs with
  its \<open>QUERY_STRING\<close> (\<open>None\<close> when \<open>fork\<close> fails).
\<close>

record site =
  stat_of :: "string \<Rightarrow> file_info option"
  content_of :: "string \<Rightarrow> string option"
  cgi_of :: "string \<Rightarrow> string \<Rightarrow> string option"

subsection \<open>Strings in C arrays\<close>

definition MAXLINE :: nat where "MAXLINE = 8192"
definition MAXBUF :: nat where "MAXBUF = 8192"
definition CR :: char where "CR = CHR 0x0D"
definition CRLF :: string where "CRLF = [CR, LF]"

definition cstr :: "string \<Rightarrow> string" where
  "cstr buf = takeWhile (\<lambda>c. c \<noteq> NUL) buf"

fun strstr :: "string \<Rightarrow> string \<Rightarrow> bool" where
  "strstr [] pat = (pat = [])"
| "strstr (c # s) pat = (take (length pat) (c # s) = pat \<or> strstr s pat)"

text \<open>One \<open>%s\<close> of \<open>sscanf\<close>: the word and what follows it.\<close>

definition scan_word :: "string \<Rightarrow> (string \<times> string) option" where
  "scan_word s = (let s = dropWhile is_space s in
     if s = [] then None else Some (takeWhile (\<lambda>c. \<not> is_space c) s, dropWhile (\<lambda>c. \<not> is_space c) s))"

definition tolower :: "char \<Rightarrow> char" where
  "tolower c = (if of_char c \<in> {65 .. 90 :: nat} then char_of (of_char c + 32 :: nat) else c)"

definition strcasecmp_eq :: "string \<Rightarrow> string \<Rightarrow> bool" where
  "strcasecmp_eq s t \<longleftrightarrow> map tolower s = map tolower t"

subsection \<open>The csapp wrappers\<close>

definition Rio_writen :: "string \<Rightarrow> net \<Rightarrow> net run" where
  "Rio_writen usrbuf w = (case rio_writen usrbuf w of (n, w) \<Rightarrow> if n \<noteq> int (length usrbuf) then Exit w else Ret w)"

definition Rio_readlineb :: "rio_t \<Rightarrow> string \<Rightarrow> nat \<Rightarrow> net \<Rightarrow> (int \<times> string \<times> rio_t \<times> net) run" where
  "Rio_readlineb rp usrbuf maxlen w = (case rio_readlineb rp usrbuf maxlen w of
     None \<Rightarrow> Undef
   | Some (rc, buf, rp, w) \<Rightarrow> if rc < 0 then Exit w else Ret (rc, buf, rp, w))"

text \<open>\<open>sprintf\<close> into an array of \<open>cap\<close> bytes, and the bytes to the client; several of them.\<close>

definition say :: "nat \<Rightarrow> string \<Rightarrow> net \<Rightarrow> net run" where
  "say cap line w = (if length line < cap then Rio_writen line w else Undef)"

fun say_all :: "nat \<Rightarrow> string list \<Rightarrow> net \<Rightarrow> net run" where
  "say_all cap [] w = Ret w"
| "say_all cap (line # ls) w = run_bind (say cap line w) (say_all cap ls)"

subsection \<open>The server\<close>

definition clienterror :: "string \<Rightarrow> string \<Rightarrow> string \<Rightarrow> string \<Rightarrow> net \<Rightarrow> net run" where
  "clienterror cause errnum shortmsg longmsg w = say_all MAXLINE
     [''HTTP/1.0 '' @ errnum @ '' '' @ shortmsg @ CRLF,
      ''Content-type: text/html'' @ CRLF @ CRLF,
      ''<html><title>Tiny Error</title>'',
      ''<body bgcolor=ffffff>'' @ CRLF,
      errnum @ '': '' @ shortmsg @ CRLF,
      ''<p>'' @ longmsg @ '': '' @ cause @ CRLF,
      ''<hr><em>The Tiny Web server</em>'' @ CRLF] w"

definition get_filetype :: "string \<Rightarrow> string" where
  "get_filetype filename = (
     if strstr filename ''.html'' then ''text/html''
     else if strstr filename ''.gif'' then ''image/gif''
     else if strstr filename ''.png'' then ''image/png''
     else if strstr filename ''.jpg'' then ''image/jpeg''
     else ''text/plain'')"

text \<open>\<open>mmap\<close> refuses an empty range; a file that shrank after \<open>stat\<close> faults when it is read.\<close>

definition serve_static :: "site \<Rightarrow> string \<Rightarrow> int \<Rightarrow> net \<Rightarrow> net run" where
  "serve_static fs filename filesize w =
     run_bind (say_all MAXBUF
       [''HTTP/1.0 200 OK'' @ CRLF,
        ''Server: Tiny Web Server'' @ CRLF,
        ''Content-length: '' @ show_int filesize @ CRLF,
        ''Content-type: '' @ get_filetype filename @ CRLF @ CRLF] w)
     (\<lambda>w. case content_of fs filename of
         None \<Rightarrow> Exit w
       | Some srcp \<Rightarrow>
           if filesize \<le> 0 then Exit w
           else if int (length srcp) < filesize then Undef
           else Rio_writen (take (nat filesize) srcp) w)"

definition serve_dynamic :: "site \<Rightarrow> string \<Rightarrow> string \<Rightarrow> net \<Rightarrow> net run" where
  "serve_dynamic fs filename cgiargs w =
     run_bind (say_all MAXLINE [''HTTP/1.0 200 OK'' @ CRLF, ''Server: Tiny Web Server'' @ CRLF] w)
     (\<lambda>w. case cgi_of fs filename cgiargs of
         None \<Rightarrow> Exit w
       | Some out \<Rightarrow> Ret (w\<lparr>sent := sent w @ out\<rparr>))"

text \<open>Static (1) or dynamic (0), the file name and the arguments; \<open>None\<close> when an array overflows.\<close>

definition parse_uri :: "string \<Rightarrow> (int \<times> string \<times> string) option" where
  "parse_uri uri = (
     if uri = [] then None
     else if \<not> strstr uri ''cgi-bin'' then
       (let filename = ''.'' @ uri in
        let filename = (if last uri = CHR ''/'' then filename @ ''home.html'' else filename) in
        if length filename < MAXLINE then Some (1, filename, '''') else None)
     else
       (let cgiargs = (if CHR ''?'' \<in> set uri then tl (dropWhile (\<lambda>c. c \<noteq> CHR ''?'') uri) else '''') in
        let filename = ''.'' @ takeWhile (\<lambda>c. c \<noteq> CHR ''?'') uri in
        if length filename < MAXLINE then Some (0, filename, cgiargs) else None))"

partial_function (option) hdr_loop :: "string \<Rightarrow> rio_t \<Rightarrow> net \<Rightarrow> (rio_t \<times> net) run option" where
  "hdr_loop buf rp w = (
     if cstr buf = CRLF then Some (Ret (rp, w))
     else case Rio_readlineb rp buf MAXLINE w of
         Ret x \<Rightarrow> hdr_loop (fst (snd x)) (fst (snd (snd x))) (snd (snd (snd x)))
       | Exit w \<Rightarrow> Some (Exit w)
       | Undef \<Rightarrow> Some Undef)"

text \<open>A line that could not be read leaves the array uninitialised.\<close>

definition read_requesthdrs :: "rio_t \<Rightarrow> net \<Rightarrow> (rio_t \<times> net) run option" where
  "read_requesthdrs rp w = (case Rio_readlineb rp (replicate MAXLINE NUL) MAXLINE w of
     Ret (rc, buf, rp, w) \<Rightarrow> if rc = 0 then Some Undef else hdr_loop buf rp w
   | Exit w \<Rightarrow> Some (Exit w)
   | Undef \<Rightarrow> Some Undef)"

text \<open>The part of \<open>doit\<close> behind the headers.\<close>

definition answer :: "site \<Rightarrow> string \<Rightarrow> net \<Rightarrow> net run" where
  "answer fs uri w = (case parse_uri uri of
     None \<Rightarrow> Undef
   | Some (is_static, filename, cgiargs) \<Rightarrow>
       (case stat_of fs filename of
          None \<Rightarrow> clienterror filename ''404'' ''Not found'' ''Tiny couldn't find this file'' w
        | Some sbuf \<Rightarrow>
            if is_static = 1 then
              if \<not> regular sbuf \<or> \<not> irusr sbuf
              then clienterror filename ''403'' ''Forbidden'' ''Tiny couldn't read the file'' w
              else serve_static fs filename (to_int32 (st_size sbuf)) w
            else
              if \<not> regular sbuf \<or> \<not> ixusr sbuf
              then clienterror filename ''403'' ''Forbidden'' ''Tiny couldn't run the CGI program'' w
              else serve_dynamic fs filename cgiargs w))"

definition doit :: "site \<Rightarrow> int \<Rightarrow> net \<Rightarrow> net run option" where
  "doit fs f w =
     (let rio = rio_readinitb \<lparr>rio_fd = 0, rio_cnt = 0, rio_bufptr = 0, rio_buf = replicate RIO_BUFSIZE NUL\<rparr> f in
      case Rio_readlineb rio (replicate MAXLINE NUL) MAXLINE w of
        Exit w \<Rightarrow> Some (Exit w)
      | Undef \<Rightarrow> Some Undef
      | Ret (rc, buf, rio, w) \<Rightarrow>
          if rc = 0 then Some (Ret w)
          else (case scan_word (cstr buf) of
              None \<Rightarrow> Some Undef
            | Some (meth, rest) \<Rightarrow>
                if \<not> strcasecmp_eq meth ''GET''
                then Some (clienterror meth ''501'' ''Not Implemented'' ''Tiny does not implement this method'' w)
                else (case read_requesthdrs rio w of
                    None \<Rightarrow> None
                  | Some (Exit w) \<Rightarrow> Some (Exit w)
                  | Some Undef \<Rightarrow> Some Undef
                  | Some (Ret (rio, w)) \<Rightarrow>
                      (case scan_word rest of
                         None \<Rightarrow> Some Undef
                       | Some (uri, _) \<Rightarrow> Some (answer fs uri w)))))"

text \<open>The loop of \<open>main\<close> over the connections that arrive: the first that does not return is the last.\<close>

fun tiny_main :: "site \<Rightarrow> (int \<times> net) list \<Rightarrow> net run option list" where
  "tiny_main fs [] = []"
| "tiny_main fs ((f, w) # conns) = (case doit fs f w of
     Some (Ret w) \<Rightarrow> Some (Ret w) # tiny_main fs conns
   | r \<Rightarrow> [r])"

subsection \<open>Writing\<close>

lemma say_ok: "open_room w \<Longrightarrow> length line < cap \<Longrightarrow> \<exists>w'. say cap line w = Ret w' \<and> delivered line w w'"
  using rio_writen_ok [of w line] by (auto simp: say_def Rio_writen_def)

lemma say_all_ok:
  assumes "open_room w" and "\<forall>l \<in> set ls. length l < cap"
  shows "\<exists>w'. say_all cap ls w = Ret w' \<and> delivered (concat ls) w w'"
  using assms
proof (induction ls arbitrary: w)
  case (Cons l ls)
  then obtain w1 where w1: "say cap l w = Ret w1" "delivered l w w1" using say_ok [of w l cap] by auto
  then obtain w2 where "say_all cap ls w1 = Ret w2" "delivered (concat ls) w1 w2"
    using Cons(1) [of w1] Cons(3) by (auto simp: delivered_def)
  then show ?case using w1 delivered_trans [OF w1(2)] by auto
qed (simp add: delivered_def)

definition error_page :: "string \<Rightarrow> string \<Rightarrow> string \<Rightarrow> string \<Rightarrow> string" where
  "error_page cause errnum shortmsg longmsg =
     ''HTTP/1.0 '' @ errnum @ '' '' @ shortmsg @ CRLF @ ''Content-type: text/html'' @ CRLF @ CRLF @
     ''<html><title>Tiny Error</title><body bgcolor=ffffff>'' @ CRLF @ errnum @ '': '' @ shortmsg @ CRLF @
     ''<p>'' @ longmsg @ '': '' @ cause @ CRLF @ ''<hr><em>The Tiny Web server</em>'' @ CRLF"

lemma clienterror_ok:
  assumes "open_room w" and "length errnum + length shortmsg < 8000" and "length longmsg + length cause < 8150"
  shows "\<exists>w'. clienterror cause errnum shortmsg longmsg w = Ret w' \<and> delivered (error_page cause errnum shortmsg longmsg) w w'"
proof -
  let ?ls = "[''HTTP/1.0 '' @ errnum @ '' '' @ shortmsg @ CRLF,
      ''Content-type: text/html'' @ CRLF @ CRLF,
      ''<html><title>Tiny Error</title>'',
      ''<body bgcolor=ffffff>'' @ CRLF,
      errnum @ '': '' @ shortmsg @ CRLF,
      ''<p>'' @ longmsg @ '': '' @ cause @ CRLF,
      ''<hr><em>The Tiny Web server</em>'' @ CRLF]"
  have "\<forall>l \<in> set ?ls. length l < MAXLINE" using assms(2,3) by (simp add: MAXLINE_def CRLF_def)
  from say_all_ok [OF assms(1) this] show ?thesis by (simp add: clienterror_def error_page_def)
qed

text \<open>A cause that does not fit runs over the array: \<open>clienterror\<close> puts it behind 40 bytes of text.\<close>

lemma clienterror_overflow:
  assumes "open_room w" and "8160 \<le> length cause"
  shows "clienterror cause ''404'' ''Not found'' ''Tiny couldn't find this file'' w = Undef"
proof -
  let ?ls = "[''HTTP/1.0 '' @ ''404'' @ '' '' @ ''Not found'' @ CRLF,
      ''Content-type: text/html'' @ CRLF @ CRLF,
      ''<html><title>Tiny Error</title>'',
      ''<body bgcolor=ffffff>'' @ CRLF,
      ''404'' @ '': '' @ ''Not found'' @ CRLF]"
  have app: "say_all MAXLINE (as @ bs) v = run_bind (say_all MAXLINE as v) (say_all MAXLINE bs)" for as bs v
  proof (induction as arbitrary: v)
    case (Cons a as)
    then show ?case by (cases "say MAXLINE a v") auto
  qed simp
  obtain w' where "say_all MAXLINE ?ls w = Ret w'" using say_all_ok [OF assms(1), of ?ls MAXLINE] by (auto simp: MAXLINE_def CRLF_def)
  moreover have "say_all MAXLINE [''<p>'' @ ''Tiny couldn't find this file'' @ '': '' @ cause @ CRLF, ''<hr><em>The Tiny Web server</em>'' @ CRLF] w' = Undef"
    using assms(2) by (simp add: say_def MAXLINE_def CRLF_def)
  ultimately show ?thesis
    using app [of ?ls "[''<p>'' @ ''Tiny couldn't find this file'' @ '': '' @ cause @ CRLF, ''<hr><em>The Tiny Web server</em>'' @ CRLF]" w]
    by (simp add: clienterror_def)
qed

subsection \<open>Reading the request\<close>

definition is_line :: "string \<Rightarrow> bool" where
  "is_line l \<longleftrightarrow> l \<noteq> [] \<and> last l = LF \<and> LF \<notin> set (butlast l) \<and> length l < MAXLINE"

lemma first_line_is_line: "is_line l \<Longrightarrow> first_line (MAXLINE - 1) (l @ s) = l"
proof -
  assume l: "is_line l"
  then obtain m where m: "l = m @ [LF]" "LF \<notin> set m" by (metis append_butlast_last_id is_line_def)
  then have "takeWhile (\<lambda>c. c \<noteq> LF) (l @ s) = m" by (induction m arbitrary: l) auto
  moreover have "LF \<in> set (l @ s)" using m(1) by simp
  ultimately have "first_line (MAXLINE - 1) (l @ s) = take (MAXLINE - 1) l" unfolding first_line_def using m(1) by (simp only: if_True)
  moreover have "length l \<le> MAXLINE - 1" using l by (auto simp: is_line_def MAXLINE_def)
  ultimately show ?thesis by simp
qed

lemma Rio_readlineb_line:
  assumes "rio_ok rp" and "smooth w" and "length buf = MAXLINE" and "pending rp w = l @ s" and "is_line l"
  shows "\<exists>rp' w'. Rio_readlineb rp buf MAXLINE w = Ret (int (length l), l @ NUL # drop (Suc (length l)) buf, rp', w') \<and>
    served rp w l rp' w' \<and> pending rp' w' = s"
proof -
  have ne: "pending rp w \<noteq> []" using assms(4,5) by (auto simp: is_line_def)
  have "first_line (MAXLINE - 1) (pending rp w) = l" using assms(4,5) first_line_is_line by simp
  then obtain rp' w' where r: "rio_readlineb rp buf MAXLINE w = Some (int (length l), l @ NUL # drop (Suc (length l)) buf, rp', w')"
      "served rp w l rp' w'"
    using rio_readlineb_ok [OF assms(1,2), of MAXLINE buf] assms(3) ne by (auto simp: Let_def MAXLINE_def)
  then have "pending rp' w' = s" using assms(4) by (simp add: served_def)
  then show ?thesis using r by (auto simp: Rio_readlineb_def)
qed

lemma Rio_readlineb_eof:
  assumes "rio_ok rp" and "smooth w" and "length buf = MAXLINE" and "pending rp w = []"
  shows "\<exists>rp' w'. Rio_readlineb rp buf MAXLINE w = Ret (0, buf, rp', w') \<and> served rp w [] rp' w'"
  using rio_readlineb_ok [OF assms(1,2), of MAXLINE buf] assms(3,4) by (auto simp: Rio_readlineb_def Let_def first_line_rec MAXLINE_def)

lemma takeWhile_stop: "\<not> P x \<Longrightarrow> takeWhile P (l @ x # xs) = takeWhile P l"
  by (induction l) auto

lemma cstr_line:
  assumes "is_line l"
  shows "cstr (l @ NUL # xs) = CRLF \<longleftrightarrow> l = CRLF"
proof
  have c: "cstr (l @ NUL # xs) = takeWhile (\<lambda>c. c \<noteq> NUL) l"
    unfolding cstr_def by (rule takeWhile_stop) simp
  assume "cstr (l @ NUL # xs) = CRLF"
  then have "takeWhile (\<lambda>c. c \<noteq> NUL) l = CRLF" using c by simp
  then have l: "l = CRLF @ dropWhile (\<lambda>c. c \<noteq> NUL) l" by (metis takeWhile_dropWhile_id)
  have "dropWhile (\<lambda>c. c \<noteq> NUL) l = []"
  proof (rule ccontr)
    assume ne: "dropWhile (\<lambda>c. c \<noteq> NUL) l \<noteq> []"
    have "LF \<in> set (butlast (CRLF @ d))" if "d \<noteq> []" for d using that by (simp add: butlast_append CRLF_def)
    then have "LF \<in> set (butlast (CRLF @ dropWhile (\<lambda>c. c \<noteq> NUL) l))" using ne by blast
    then show False using l assms unfolding is_line_def by metis
  qed
  then show "l = CRLF" using l by (metis append_Nil2)
qed (simp add: cstr_def CRLF_def CR_def LF_def NUL_def)

lemma CRLF_is_line: "is_line CRLF"
  by (simp add: is_line_def CRLF_def CR_def LF_def MAXLINE_def)

text \<open>The headers are read up to the blank line.\<close>

lemma hdr_loop_ok:
  assumes "rio_ok rp" and "smooth w" and "length buf = MAXLINE" and "cstr buf \<noteq> CRLF"
    and "pending rp w = concat hdrs @ CRLF @ body" and "\<forall>h \<in> set hdrs. is_line h \<and> h \<noteq> CRLF"
  shows "\<exists>rp' w'. hdr_loop buf rp w = Some (Ret (rp', w')) \<and> served rp w (concat hdrs @ CRLF) rp' w'"
  using assms
proof (induction hdrs arbitrary: rp w buf)
  case Nil
  then obtain rp1 w1 where r: "Rio_readlineb rp buf MAXLINE w = Ret (int (length CRLF), CRLF @ NUL # drop (Suc (length CRLF)) buf, rp1, w1)"
      "served rp w CRLF rp1 w1"
    using Rio_readlineb_line [OF Nil(1-3), of CRLF body] CRLF_is_line by auto
  have "hdr_loop (CRLF @ NUL # drop (Suc (length CRLF)) buf) rp1 w1 = Some (Ret (rp1, w1))"
    using cstr_line [OF CRLF_is_line] by (subst hdr_loop.simps) simp
  then show ?case using r Nil(4) by (subst hdr_loop.simps) simp
next
  case (Cons h hdrs)
  then obtain rp1 w1 where r: "Rio_readlineb rp buf MAXLINE w = Ret (int (length h), h @ NUL # drop (Suc (length h)) buf, rp1, w1)"
      "served rp w h rp1 w1" "pending rp1 w1 = concat hdrs @ CRLF @ body"
    using Rio_readlineb_line [OF Cons(2-4), of h "concat hdrs @ CRLF @ body"] by auto
  let ?buf = "h @ NUL # drop (Suc (length h)) buf"
  have len: "length ?buf = MAXLINE" using Cons(4,7) by (auto simp: is_line_def)
  have "\<exists>rp' w'. hdr_loop ?buf rp1 w1 = Some (Ret (rp', w')) \<and> served rp1 w1 (concat hdrs @ CRLF) rp' w'"
    using r(2,3) len Cons(7) cstr_line [of h] by (intro Cons(1)) (auto simp: served_def)
  then show ?case using r(1) Cons(5) served_trans [OF r(2)] by (subst hdr_loop.simps) auto
qed

text \<open>
  At the end of the input \<open>Rio_readlineb\<close> leaves the array alone, so the loop compares the same
  line for ever.
\<close>

lemma hdr_loop_returns_from:
  "hdr_loop buf rp w = Some r \<Longrightarrow> rio_ok rp \<and> smooth w \<and> length buf = MAXLINE \<and> cstr buf \<noteq> CRLF \<longrightarrow> pending rp w \<noteq> []"
proof (rule hdr_loop.raw_induct [where P = "\<lambda>buf rp w r. rio_ok rp \<and> smooth w \<and> length buf = MAXLINE \<and> cstr buf \<noteq> CRLF \<longrightarrow> pending rp w \<noteq> []"])
  fix f :: "string \<Rightarrow> rio_t \<Rightarrow> net \<Rightarrow> (rio_t \<times> net) run option" and buf rp w r
  assume IH: "\<And>buf rp w r. f buf rp w = Some r \<Longrightarrow> rio_ok rp \<and> smooth w \<and> length buf = MAXLINE \<and> cstr buf \<noteq> CRLF \<longrightarrow> pending rp w \<noteq> []"
    and eq: "(if cstr buf = CRLF then Some (Ret (rp, w))
     else case Rio_readlineb rp buf MAXLINE w of
         Ret x \<Rightarrow> f (fst (snd x)) (fst (snd (snd x))) (snd (snd (snd x)))
       | Exit w \<Rightarrow> Some (Exit w)
       | Undef \<Rightarrow> Some Undef) = Some r"
  show "rio_ok rp \<and> smooth w \<and> length buf = MAXLINE \<and> cstr buf \<noteq> CRLF \<longrightarrow> pending rp w \<noteq> []"
  proof (intro impI notI)
    assume a: "rio_ok rp \<and> smooth w \<and> length buf = MAXLINE \<and> cstr buf \<noteq> CRLF" and e: "pending rp w = []"
    obtain rp1 w1 where s: "Rio_readlineb rp buf MAXLINE w = Ret (0, buf, rp1, w1)" "served rp w [] rp1 w1"
      using Rio_readlineb_eof [of rp w buf] a e by blast
    then have "f buf rp1 w1 = Some r" using eq a by simp
    from IH [OF this] show False using a e s(2) by (simp add: served_def)
  qed
qed

lemma hdr_loop_eof:
  assumes "rio_ok rp" and "smooth w" and "length buf = MAXLINE" and "cstr buf \<noteq> CRLF" and "pending rp w = []"
  shows "hdr_loop buf rp w = None"
  using hdr_loop_returns_from [of buf rp w] assms by (cases "hdr_loop buf rp w") auto

lemma read_requesthdrs_ok:
  assumes "rio_ok rp" and "smooth w" and "pending rp w = concat hdrs @ CRLF @ body" and "\<forall>h \<in> set hdrs. is_line h \<and> h \<noteq> CRLF"
  shows "\<exists>rp' w'. read_requesthdrs rp w = Some (Ret (rp', w')) \<and> served rp w (concat hdrs @ CRLF) rp' w'"
proof (cases hdrs)
  case Nil
  have p: "pending rp w = CRLF @ body" using assms(3) Nil by simp
  obtain rp1 w1 where r: "Rio_readlineb rp (replicate MAXLINE NUL) MAXLINE w =
        Ret (int (length CRLF), CRLF @ NUL # drop (Suc (length CRLF)) (replicate MAXLINE NUL), rp1, w1)" "served rp w CRLF rp1 w1"
    using Rio_readlineb_line [OF assms(1,2) length_replicate p CRLF_is_line] by blast
  have "hdr_loop (CRLF @ NUL # drop (Suc (length CRLF)) (replicate MAXLINE NUL)) rp1 w1 = Some (Ret (rp1, w1))"
    using cstr_line [OF CRLF_is_line] by (subst hdr_loop.simps) simp
  then show ?thesis using r Nil by (simp add: read_requesthdrs_def CRLF_def)
next
  case (Cons h hs)
  then have h: "is_line h" "h \<noteq> CRLF" using assms(4) by auto
  let ?buf = "h @ NUL # drop (Suc (length h)) (replicate MAXLINE NUL)"
  obtain rp1 w1 where r: "Rio_readlineb rp (replicate MAXLINE NUL) MAXLINE w = Ret (int (length h), ?buf, rp1, w1)"
      "served rp w h rp1 w1" "pending rp1 w1 = concat hs @ CRLF @ body"
    using Rio_readlineb_line [OF assms(1,2), of "replicate MAXLINE NUL" h "concat hs @ CRLF @ body"] h assms(3) Cons by auto
  have "length ?buf = MAXLINE" using h by (auto simp: is_line_def)
  then obtain rp2 w2 where "hdr_loop ?buf rp1 w1 = Some (Ret (rp2, w2))" "served rp1 w1 (concat hs @ CRLF) rp2 w2"
    using hdr_loop_ok [of rp1 w1 ?buf hs body] r(2,3) cstr_line [OF h(1)] h(2) assms(4) Cons by (auto simp: served_def)
  moreover have "int (length h) \<noteq> 0" using h(1) by (auto simp: is_line_def)
  ultimately show ?thesis using r(1) served_trans [OF r(2)] Cons by (auto simp: read_requesthdrs_def)
qed

text \<open>A request line: three words, one blank between them.\<close>

definition word :: "string \<Rightarrow> bool" where
  "word m \<longleftrightarrow> m \<noteq> [] \<and> (\<forall>c \<in> set m. \<not> is_space c \<and> c \<noteq> NUL)"

definition request_line :: "string \<Rightarrow> string \<Rightarrow> string \<Rightarrow> string" where
  "request_line meth uri version = meth @ '' '' @ uri @ '' '' @ version @ CRLF"

lemma scan_word_word: "word m \<Longrightarrow> scan_word (m @ CHR '' '' # s) = Some (m, CHR '' '' # s)"
  and scan_word_blank: "word m \<Longrightarrow> scan_word (CHR '' '' # m @ CHR '' '' # s) = Some (m, CHR '' '' # s)"
proof -
  assume w: "word m"
  have sp: "is_space (CHR '' '')" by (simp add: is_space_def)
  have d: "dropWhile is_space (m @ CHR '' '' # s) = m @ CHR '' '' # s" using w by (cases m) (auto simp: word_def)
  have "takeWhile (\<lambda>c. \<not> is_space c) (m @ CHR '' '' # s) = m" "dropWhile (\<lambda>c. \<not> is_space c) (m @ CHR '' '' # s) = CHR '' '' # s"
    using w sp unfolding word_def by (induction m) auto
  then show "scan_word (m @ CHR '' '' # s) = Some (m, CHR '' '' # s)"
    and "scan_word (CHR '' '' # m @ CHR '' '' # s) = Some (m, CHR '' '' # s)"
    using d sp by (simp_all add: scan_word_def Let_def)
qed

lemma request_line_is_line:
  assumes "word m" and "word u" and "word v" and "length (request_line m u v) < MAXLINE"
  shows "is_line (request_line m u v)" "cstr (request_line m u v @ NUL # xs) = request_line m u v"
proof -
  have no: "LF \<notin> set m" "LF \<notin> set u" "LF \<notin> set v" using assms(1-3) by (auto simp: word_def is_space_def LF_def)
  have "request_line m u v = (m @ '' '' @ u @ '' '' @ v @ [CR]) @ [LF]" by (simp add: request_line_def CRLF_def)
  moreover have "LF \<notin> set (m @ '' '' @ u @ '' '' @ v @ [CR])" using no by (auto simp: LF_def CR_def)
  ultimately show "is_line (request_line m u v)" using assms(4) unfolding is_line_def by (metis butlast_snoc last_snoc snoc_eq_iff_butlast)
  have "NUL \<notin> set (request_line m u v)"
    using assms(1-3) by (auto simp: word_def request_line_def CRLF_def CR_def LF_def NUL_def)
  then have "takeWhile (\<lambda>c. c \<noteq> NUL) (request_line m u v) = request_line m u v" by (auto simp: takeWhile_eq_all_conv)
  then show "cstr (request_line m u v @ NUL # xs) = request_line m u v" unfolding cstr_def by (simp add: takeWhile_stop)
qed

lemma doit_reads:
  assumes "smooth w" and "word meth" and "word uri" and "word version" and "length (request_line meth uri version) < MAXLINE"
    and "bytes w = request_line meth uri version @ rest"
  shows "\<exists>rp w'. rio_ok rp \<and> smooth w' \<and> sent w' = sent w \<and> room w' = room w \<and> pending rp w' = rest \<and>
    doit fs f w =
      (if \<not> strcasecmp_eq meth ''GET''
       then Some (clienterror meth ''501'' ''Not Implemented'' ''Tiny does not implement this method'' w')
       else (case read_requesthdrs rp w' of
           None \<Rightarrow> None
         | Some (Exit w) \<Rightarrow> Some (Exit w)
         | Some Undef \<Rightarrow> Some Undef
         | Some (Ret (rio, w)) \<Rightarrow> Some (answer fs uri w)))"
proof -
  let ?rp = "rio_readinitb \<lparr>rio_fd = 0, rio_cnt = 0, rio_bufptr = 0, rio_buf = replicate RIO_BUFSIZE NUL\<rparr> f"
  let ?l = "request_line meth uri version"
  have ok: "rio_ok ?rp" "pending ?rp w = ?l @ rest" using rio_readinitb_ok assms(6) by auto
  note line = request_line_is_line [OF assms(2-5)]
  obtain rp1 w1 where r: "Rio_readlineb ?rp (replicate MAXLINE NUL) MAXLINE w =
        Ret (int (length ?l), ?l @ NUL # drop (Suc (length ?l)) (replicate MAXLINE NUL), rp1, w1)"
      "served ?rp w ?l rp1 w1" "pending rp1 w1 = rest"
    using Rio_readlineb_line [OF ok(1) assms(1) length_replicate ok(2) line(1)] by blast
  have ne: "int (length ?l) \<noteq> 0" using line(1) by (auto simp: is_line_def)
  have s1: "scan_word ?l = Some (meth, CHR '' '' # uri @ CHR '' '' # version @ CRLF)"
    using scan_word_word [OF assms(2)] by (simp add: request_line_def)
  have s2: "scan_word (CHR '' '' # uri @ CHR '' '' # version @ CRLF) = Some (uri, CHR '' '' # version @ CRLF)"
    by (rule scan_word_blank [OF assms(3)])
  have "doit fs f w =
      (if \<not> strcasecmp_eq meth ''GET''
       then Some (clienterror meth ''501'' ''Not Implemented'' ''Tiny does not implement this method'' w1)
       else (case read_requesthdrs rp1 w1 of
           None \<Rightarrow> None
         | Some (Exit w) \<Rightarrow> Some (Exit w)
         | Some Undef \<Rightarrow> Some Undef
         | Some (Ret (rio, w)) \<Rightarrow> Some (answer fs uri w)))"
    unfolding doit_def Let_def r(1) run.case prod.case line(2) s1 s2 option.case using ne
    by (auto split: option.splits run.splits)
  then show ?thesis using r(2,3) by (intro exI [of _ rp1] exI [of _ w1]) (simp add: served_def)
qed

lemma hdr_loop_cut:
  assumes "rio_ok rp" and "smooth w" and "length buf = MAXLINE" and "cstr buf \<noteq> CRLF"
    and "pending rp w = concat hdrs" and "\<forall>h \<in> set hdrs. is_line h \<and> h \<noteq> CRLF"
  shows "hdr_loop buf rp w = None"
  using assms
proof (induction hdrs arbitrary: rp w buf)
  case Nil
  then show ?case using hdr_loop_eof by simp
next
  case (Cons h hdrs)
  have p: "pending rp w = h @ concat hdrs" and h: "is_line h" "h \<noteq> CRLF" using Cons(6,7) by simp_all
  obtain rp1 w1 where r: "Rio_readlineb rp buf MAXLINE w = Ret (int (length h), h @ NUL # drop (Suc (length h)) buf, rp1, w1)"
      "served rp w h rp1 w1" "pending rp1 w1 = concat hdrs"
    using Rio_readlineb_line [OF Cons(2-4) p h(1)] by blast
  let ?buf = "h @ NUL # drop (Suc (length h)) buf"
  have len: "length ?buf = MAXLINE" using Cons(4) h(1) by (simp add: is_line_def)
  have "hdr_loop ?buf rp1 w1 = None"
    using r(2,3) len Cons(7) cstr_line [OF h(1)] h(2) by (intro Cons(1)) (auto simp: served_def)
  then show ?case using r(1) Cons(5) by (subst hdr_loop.simps) simp
qed

subsection \<open>The answer\<close>

lemma length_show_int32: "length (show_int (to_int32 x)) \<le> 11"
proof -
  have "nat \<bar>to_int32 x\<bar> < 10 ^ 10" using to_int32_range [of x] by auto
  then have "length (show_nat (nat \<bar>to_int32 x\<bar>)) \<le> 10" by (rule length_show_nat) simp
  then show ?thesis by (auto simp: show_int_def)
qed

definition static_page :: "string \<Rightarrow> int \<Rightarrow> string \<Rightarrow> string" where
  "static_page filename sz content = ''HTTP/1.0 200 OK'' @ CRLF @ ''Server: Tiny Web Server'' @ CRLF @
     ''Content-length: '' @ show_int sz @ CRLF @ ''Content-type: '' @ get_filetype filename @ CRLF @ CRLF @ take (nat sz) content"

definition page :: "site \<Rightarrow> int \<times> string \<times> string \<Rightarrow> string option" where
  "page fs target = (case target of (is_static, filename, args) \<Rightarrow>
     (case stat_of fs filename of
        None \<Rightarrow> Some (error_page filename ''404'' ''Not found'' ''Tiny couldn't find this file'')
      | Some info \<Rightarrow>
          if is_static = 1 then
            if regular info \<and> irusr info then
              (case content_of fs filename of
                 None \<Rightarrow> None
               | Some content \<Rightarrow>
                   if 0 < st_size info \<and> st_size info \<le> int (length content) \<and> st_size info < 2 ^ 31
                   then Some (static_page filename (st_size info) content) else None)
            else Some (error_page filename ''403'' ''Forbidden'' ''Tiny couldn't read the file'')
          else
            if regular info \<and> ixusr info then
              map_option (\<lambda>out. ''HTTP/1.0 200 OK'' @ CRLF @ ''Server: Tiny Web Server'' @ CRLF @ out) (cgi_of fs filename args)
            else Some (error_page filename ''403'' ''Forbidden'' ''Tiny couldn't run the CGI program'')))"

lemma serve_static_ok:
  assumes "open_room w" and "content_of fs file = Some content" and "0 < sz" and "sz \<le> int (length content)" and "sz < 2 ^ 31"
  shows "\<exists>w'. serve_static fs file (to_int32 sz) w = Ret w' \<and> delivered (static_page file sz content) w w'"
proof -
  let ?ls = "[''HTTP/1.0 200 OK'' @ CRLF, ''Server: Tiny Web Server'' @ CRLF, ''Content-length: '' @ show_int sz @ CRLF,
    ''Content-type: '' @ get_filetype file @ CRLF @ CRLF]"
  have sz: "to_int32 sz = sz" using assms(3,5) by simp
  have "\<forall>l \<in> set ?ls. length l < MAXBUF"
    using length_show_int32 [of sz] sz by (simp add: MAXBUF_def CRLF_def get_filetype_def)
  then obtain w1 where w1: "say_all MAXBUF ?ls w = Ret w1" "delivered (concat ?ls) w w1" using say_all_ok [OF assms(1)] by blast
  obtain w2 where w2: "rio_writen (take (nat sz) content) w1 = (int (length (take (nat sz) content)), w2)"
      "delivered (take (nat sz) content) w1 w2"
    using rio_writen_ok [of w1] w1(2) unfolding delivered_def by blast
  have "serve_static fs file (to_int32 sz) w = Ret w2"
    unfolding serve_static_def sz w1(1) run_bind.simps assms(2) option.case Rio_writen_def w2(1) using assms(3,4) by simp
  moreover have "delivered (static_page file sz content) w w2"
    using delivered_trans [OF w1(2) w2(2)] by (simp add: static_page_def)
  ultimately show ?thesis by blast
qed

lemma serve_dynamic_ok:
  assumes "open_room w" and "cgi_of fs fname args = Some out"
  shows "\<exists>w'. serve_dynamic fs fname args w = Ret w' \<and>
    delivered (''HTTP/1.0 200 OK'' @ CRLF @ ''Server: Tiny Web Server'' @ CRLF @ out) w w'"
proof -
  let ?ls = "[''HTTP/1.0 200 OK'' @ CRLF, ''Server: Tiny Web Server'' @ CRLF]"
  have "\<forall>l \<in> set ?ls. length l < MAXLINE" by (simp add: MAXLINE_def CRLF_def)
  then obtain w1 where w1: "say_all MAXLINE ?ls w = Ret w1" "delivered (concat ?ls) w w1" using say_all_ok [OF assms(1)] by blast
  then show ?thesis unfolding serve_dynamic_def w1(1) run_bind.simps assms(2) option.case
    by (simp add: delivered_def open_room_def)
qed

lemma parse_uri_total:
  assumes "uri \<noteq> []" and "length uri \<le> 8000"
  shows "\<exists>st fname args. parse_uri uri = Some (st, fname, args) \<and> length fname \<le> 8010"
proof -
  have "length (takeWhile (\<lambda>c. c \<noteq> CHR ''?'') uri) \<le> 8000" using assms(2) length_takeWhile_le order_trans by blast
  then show ?thesis using assms by (simp add: parse_uri_def Let_def MAXLINE_def)
qed

lemma answer_ok:
  assumes "open_room w" and "parse_uri uri = Some t" and "page fs t = Some out" and "uri \<noteq> []" and "length uri \<le> 8000"
  shows "\<exists>w'. answer fs uri w = Ret w' \<and> delivered out w w'"
proof -
  obtain st fname args where t: "t = (st, fname, args)" "length fname \<le> 8010"
    using parse_uri_total [OF assms(4,5)] assms(2) by auto
  have err: "\<exists>w'. clienterror fname errnum shortmsg longmsg w = Ret w' \<and> delivered (error_page fname errnum shortmsg longmsg) w w'"
    if "length errnum + length shortmsg < 8000" "length longmsg < 140" for errnum shortmsg longmsg
    using clienterror_ok [OF assms(1) that(1), of longmsg fname] that(2) t(2) by simp
  show ?thesis
  proof (cases "stat_of fs fname")
    case None
    then show ?thesis using err [of "''404''" "''Not found''" "''Tiny couldn't find this file''"] assms(2,3) t(1)
      by (simp add: answer_def page_def)
  next
    case (Some i)
    show ?thesis
    proof (cases "st = 1")
      case True
      show ?thesis
      proof (cases "regular i \<and> irusr i")
        case ok: True
        then show ?thesis using serve_static_ok [OF assms(1), of fs fname] Some True assms(2,3) t(1)
          by (auto simp: answer_def page_def split: option.splits if_splits)
      next
        case False
        then show ?thesis using err [of "''403''" "''Forbidden''" "''Tiny couldn't read the file''"] Some True assms(2,3) t(1)
          by (auto simp: answer_def page_def)
      qed
    next
      case dyn: False
      show ?thesis
      proof (cases "regular i \<and> ixusr i")
        case ok: True
        then show ?thesis using serve_dynamic_ok [OF assms(1), of fs fname args] Some dyn assms(2,3) t(1)
          by (auto simp: answer_def page_def)
      next
        case False
        then show ?thesis using err [of "''403''" "''Forbidden''" "''Tiny couldn't run the CGI program''"] Some dyn assms(2,3) t(1)
          by (auto simp: answer_def page_def)
      qed
    qed
  qed
qed

lemma doit_get:
  assumes "smooth w" and "open_room w" and "word meth" and "word uri" and "word version"
    and "length (request_line meth uri version) < MAXLINE" and "length uri \<le> 8000" and "strcasecmp_eq meth ''GET''"
    and "bytes w = request_line meth uri version @ concat hdrs @ CRLF @ body" and "\<forall>h \<in> set hdrs. is_line h \<and> h \<noteq> CRLF"
    and "parse_uri uri = Some t" and "page fs t = Some out"
  shows "\<exists>w'. doit fs f w = Some (Ret w') \<and> sent w' = sent w @ out"
proof -
  obtain rp w1 where r: "rio_ok rp" "smooth w1" "sent w1 = sent w" "room w1 = room w" "pending rp w1 = concat hdrs @ CRLF @ body"
    "doit fs f w = (case read_requesthdrs rp w1 of None \<Rightarrow> None | Some (Exit w) \<Rightarrow> Some (Exit w) | Some Undef \<Rightarrow> Some Undef
       | Some (Ret (rio, w)) \<Rightarrow> Some (answer fs uri w))"
    using doit_reads [OF assms(1,3-6,9), of fs f] assms(8) by auto
  obtain rp2 w2 where h: "read_requesthdrs rp w1 = Some (Ret (rp2, w2))" "served rp w1 (concat hdrs @ CRLF) rp2 w2"
    using read_requesthdrs_ok [OF r(1,2,5) assms(10)] by blast
  have o: "open_room w2" using h(2) r(4) assms(2) by (simp add: served_def open_room_def)
  have ne: "uri \<noteq> []" using assms(4) by (simp add: word_def)
  obtain w3 where "answer fs uri w2 = Ret w3" "delivered out w2 w3" using answer_ok [OF o assms(11,12) ne assms(7)] by blast
  then show ?thesis using r(3,6) h by (simp add: delivered_def served_def)
qed

lemma doit_other_method:
  assumes "smooth w" and "open_room w" and "word meth" and "word uri" and "word version"
    and "length (request_line meth uri version) < MAXLINE" and "length meth \<le> 8000" and "\<not> strcasecmp_eq meth ''GET''"
    and "bytes w = request_line meth uri version @ rest"
  shows "\<exists>w'. doit fs f w = Some (Ret w') \<and>
    sent w' = sent w @ error_page meth ''501'' ''Not Implemented'' ''Tiny does not implement this method''"
proof -
  obtain w1 where r: "sent w1 = sent w" "room w1 = room w"
    "doit fs f w = Some (clienterror meth ''501'' ''Not Implemented'' ''Tiny does not implement this method'' w1)"
    using doit_reads [OF assms(1,3-6,9), of fs f] assms(8) by auto
  have o: "open_room w1" using r(2) assms(2) by (simp add: open_room_def)
  obtain w2 where "clienterror meth ''501'' ''Not Implemented'' ''Tiny does not implement this method'' w1 = Ret w2"
      "delivered (error_page meth ''501'' ''Not Implemented'' ''Tiny does not implement this method'') w1 w2"
    using clienterror_ok [OF o, of "''501''" "''Not Implemented''" "''Tiny does not implement this method''" meth] assms(7) by auto
  then show ?thesis using r by (simp add: delivered_def)
qed

text \<open>
  C24: a request whose line and headers fit is answered, however its bytes arrive and however many the
  client takes at a time: a GET with the page of its file (a static file, the output of a
  program, or the error page for a file that is missing or forbidden), another method with the
  page of error 501. Nothing else is sent.
\<close>

theorem doit_answers:
  assumes "smooth w" and "open_room w" and "word meth" and "word uri" and "word version"
    and "length (request_line meth uri version) < MAXLINE" and "length uri \<le> 8000" and "length meth \<le> 8000"
    and "bytes w = request_line meth uri version @ concat hdrs @ CRLF @ body" and "\<forall>h \<in> set hdrs. is_line h \<and> h \<noteq> CRLF"
  shows "\<exists>t. parse_uri uri = Some t \<and>
    (\<forall>out. (if strcasecmp_eq meth ''GET'' then page fs t
            else Some (error_page meth ''501'' ''Not Implemented'' ''Tiny does not implement this method'')) = Some out \<longrightarrow>
      (\<exists>w'. doit fs f w = Some (Ret w') \<and> sent w' = sent w @ out))"
proof -
  obtain t where t: "parse_uri uri = Some t" using parse_uri_total [of uri] assms(4,7) by (auto simp: word_def)
  show ?thesis using t doit_get [OF assms(1-7) _ assms(9,10) t] doit_other_method [OF assms(1-6,8) _ assms(9)]
    by (intro exI [of _ t]) simp
qed

theorem doit_answers_witness:
  "\<exists>w'. doit \<lparr>stat_of = (\<lambda>p. if p = ''./home.html'' then Some \<lparr>regular = True, irusr = True, ixusr = False, st_size = 2\<rparr> else None),
      content_of = (\<lambda>p. Some ''hi''), cgi_of = (\<lambda>p q. None)\<rparr> 4
    \<lparr>wire = [Chunk ''GE'', Intr, Chunk (''T / HTTP/1.0'' @ [CR]), Chunk [LF], Chunk CRLF], room = [Wrote 3, WIntr], sent = [], errno = 0\<rparr> = Some (Ret w') \<and>
    sent w' = static_page ''./home.html'' 2 ''hi''"
proof -
  let ?fs = "\<lparr>stat_of = (\<lambda>p. if p = ''./home.html'' then Some \<lparr>regular = True, irusr = True, ixusr = False, st_size = 2\<rparr> else None),
      content_of = (\<lambda>p. Some ''hi''), cgi_of = (\<lambda>p q. None)\<rparr>"
  let ?w = "\<lparr>wire = [Chunk ''GE'', Intr, Chunk (''T / HTTP/1.0'' @ [CR]), Chunk [LF], Chunk CRLF], room = [Wrote 3, WIntr], sent = [], errno = 0\<rparr>"
  have sm: "smooth ?w" "open_room ?w" by (simp_all add: smooth_def open_room_def CRLF_def)
  have words: "word ''GET''" "word ''/''" "word ''HTTP/1.0''" by (simp_all add: word_def is_space_def NUL_def)
  have len: "length (request_line ''GET'' ''/'' ''HTTP/1.0'') < MAXLINE" "length ''/'' \<le> 8000" "length ''GET'' \<le> 8000"
    by (simp_all add: request_line_def MAXLINE_def CRLF_def)
  have b: "bytes ?w = request_line ''GET'' ''/'' ''HTTP/1.0'' @ concat [] @ CRLF @ []"
    by (simp add: bytes_def request_line_def CRLF_def)
  have none: "\<forall>h \<in> set []. is_line h \<and> h \<noteq> CRLF" by simp
  have p: "parse_uri ''/'' = Some (1, ''./home.html'', '''')" by (simp add: parse_uri_def MAXLINE_def)
  have pg: "page ?fs (1, ''./home.html'', '''') = Some (static_page ''./home.html'' 2 ''hi'')" by (simp add: page_def)
  have "strcasecmp_eq ''GET'' ''GET''" by (simp add: strcasecmp_eq_def)
  then show ?thesis using doit_answers [OF sm words len b none, of ?fs 4] p pg by auto
qed

text \<open>
  C25: a client that sends a request line and some headers and then closes without the blank line
  hangs the server: \<open>doit\<close> does not return, and no later connection is served.
\<close>

theorem tiny_hangs:
  assumes "smooth w" and "word meth" and "word uri" and "word version"
    and "length (request_line meth uri version) < MAXLINE" and "strcasecmp_eq meth ''GET''"
    and "bytes w = request_line meth uri version @ concat hdrs" and "hdrs \<noteq> []" and "\<forall>h \<in> set hdrs. is_line h \<and> h \<noteq> CRLF"
  shows "doit fs f w = None \<and> tiny_main fs ((f, w) # conns) = [None]"
proof -
  obtain h hs where hs: "hdrs = h # hs" using assms(8) by (cases hdrs) auto
  have h: "is_line h" "h \<noteq> CRLF" using assms(9) hs by auto
  obtain rp w1 where r: "rio_ok rp" "smooth w1" "pending rp w1 = h @ concat hs"
    "doit fs f w = (case read_requesthdrs rp w1 of None \<Rightarrow> None | Some (Exit w) \<Rightarrow> Some (Exit w) | Some Undef \<Rightarrow> Some Undef
       | Some (Ret (rio, w)) \<Rightarrow> Some (answer fs uri w))"
    using doit_reads [OF assms(1-5,7), of fs f] assms(6) hs by auto
  let ?buf = "h @ NUL # drop (Suc (length h)) (replicate MAXLINE NUL)"
  obtain rp2 w2 where l: "Rio_readlineb rp (replicate MAXLINE NUL) MAXLINE w1 = Ret (int (length h), ?buf, rp2, w2)"
      "served rp w1 h rp2 w2" "pending rp2 w2 = concat hs"
    using Rio_readlineb_line [OF r(1,2) length_replicate r(3) h(1)] by blast
  have "length ?buf = MAXLINE" using h(1) by (simp add: is_line_def)
  then have "hdr_loop ?buf rp2 w2 = None"
    using hdr_loop_cut [of rp2 w2 ?buf hs] l(2,3) cstr_line [OF h(1)] h(2) assms(9) hs by (auto simp: served_def)
  moreover have "int (length h) \<noteq> 0" using h(1) by (auto simp: is_line_def)
  ultimately have "read_requesthdrs rp w1 = None" using l(1) by (simp add: read_requesthdrs_def)
  then have "doit fs f w = None" using r(4) by simp
  then show ?thesis by simp
qed

theorem tiny_hangs_witness:
  "tiny_main \<lparr>stat_of = (\<lambda>p. None), content_of = (\<lambda>p. None), cgi_of = (\<lambda>p q. None)\<rparr> ((4, \<lparr>wire = [Chunk (''GET / HTTP/1.0'' @ CRLF), Chunk (''a'' @ CRLF)], room = [], sent = [], errno = 0\<rparr>) # []) = [None]"
proof -
  let ?w = "\<lparr>wire = [Chunk (''GET / HTTP/1.0'' @ CRLF), Chunk (''a'' @ CRLF)], room = [], sent = [], errno = 0\<rparr>"
  have sm: "smooth ?w" by (simp add: smooth_def CRLF_def)
  have words: "word ''GET''" "word ''/''" "word ''HTTP/1.0''" by (simp_all add: word_def is_space_def NUL_def)
  have len: "length (request_line ''GET'' ''/'' ''HTTP/1.0'') < MAXLINE" by (simp add: request_line_def MAXLINE_def CRLF_def)
  have get: "strcasecmp_eq ''GET'' ''GET''" by (simp add: strcasecmp_eq_def)
  have b: "bytes ?w = request_line ''GET'' ''/'' ''HTTP/1.0'' @ concat [''a'' @ CRLF]" by (simp add: bytes_def request_line_def CRLF_def)
  have ne: "[''a'' @ CRLF] \<noteq> []" and l: "\<forall>h \<in> set [''a'' @ CRLF]. is_line h \<and> h \<noteq> CRLF"
    by (simp_all add: is_line_def CRLF_def CR_def LF_def MAXLINE_def)
  show ?thesis using tiny_hangs [OF sm words len get b ne l] by blast
qed

subsection \<open>Other ends\<close>

text \<open>
  A file of no bytes cannot be mapped: the wrapper ends the server. A name may leave the
  directory, a query is cut off a dynamic name only, and a long name does not fit.
\<close>

lemma serve_static_empty_file:
  assumes "open_room w" and "content_of fs fname = Some content"
  shows "\<exists>w'. serve_static fs fname 0 w = Exit w'"
proof -
  let ?ls = "[''HTTP/1.0 200 OK'' @ CRLF, ''Server: Tiny Web Server'' @ CRLF, ''Content-length: '' @ show_int 0 @ CRLF,
    ''Content-type: '' @ get_filetype fname @ CRLF @ CRLF]"
  have "\<forall>l \<in> set ?ls. length l < MAXBUF" using length_show_int32 [of 0] by (simp add: MAXBUF_def CRLF_def get_filetype_def)
  then obtain w1 where w1: "say_all MAXBUF ?ls w = Ret w1" using say_all_ok [OF assms(1)] by blast
  show ?thesis unfolding serve_static_def w1 run_bind.simps assms(2) option.case by simp
qed

lemma parse_uri_examples:
  "parse_uri ''/../secret'' = Some (1, ''./../secret'', '''')"
  "parse_uri ''/a.html?x'' = Some (1, ''./a.html?x'', '''')"
  "parse_uri ''/cgi-bin/add?1&2'' = Some (0, ''./cgi-bin/add'', ''1&2'')"
  by (simp_all add: parse_uri_def MAXLINE_def)

lemma parse_uri_overflow: "MAXLINE \<le> length uri + 10 \<Longrightarrow> last uri = CHR ''/'' \<Longrightarrow> \<not> strstr uri ''cgi-bin'' \<Longrightarrow> parse_uri uri = None"
  by (auto simp: parse_uri_def Let_def MAXLINE_def)

end
