(* ===== verification/TrieSet.thy ===== *)
theory TrieSet
  imports SetSpec "HOL-Library.Sublist"
begin

section \<open>A trie (leetcode/other/trie.cc)\<close>

text \<open>
  The class \<open>Trie\<close> over words of the letters a to z. Every node is owned by one pointer, so the
  tree is a value. An index outside the 26 children is undefined. A trie provides the
  contract of SetSpec.
\<close>

datatype trie_node = TrieNode (is_word: bool) (children: "trie_node option list")

definition new_trie_node :: trie_node where
  "new_trie_node = TrieNode False (replicate 26 None)"

definition child_index :: "char \<Rightarrow> nat option" where
  "child_index c = (if 97 \<le> (of_char c :: nat) then Some (of_char c - 97) else None)"

fun trie_insert :: "string \<Rightarrow> trie_node \<Rightarrow> trie_node option" where
  "trie_insert [] (TrieNode w cs) = Some (TrieNode True cs)"
| "trie_insert (c # s) (TrieNode w cs) = do {
     i \<leftarrow> child_index c;
     ch \<leftarrow> vget cs i;
     t \<leftarrow> trie_insert s (case ch of None \<Rightarrow> new_trie_node | Some t \<Rightarrow> t);
     cs \<leftarrow> vset cs i (Some t);
     Some (TrieNode w cs) }"

fun trie_find :: "string \<Rightarrow> trie_node \<Rightarrow> trie_node option option" where
  "trie_find [] t = Some (Some t)"
| "trie_find (c # s) (TrieNode w cs) = do {
     i \<leftarrow> child_index c;
     ch \<leftarrow> vget cs i;
     (case ch of None \<Rightarrow> Some None | Some t \<Rightarrow> trie_find s t) }"

definition trie_search :: "string \<Rightarrow> trie_node \<Rightarrow> bool option" where
  "trie_search word t = do { p \<leftarrow> trie_find word t; Some (case p of None \<Rightarrow> False | Some t \<Rightarrow> is_word t) }"

definition startsWith :: "string \<Rightarrow> trie_node \<Rightarrow> bool option" where
  "startsWith pre t = do { p \<leftarrow> trie_find pre t; Some (p \<noteq> None) }"

subsection \<open>The words of a trie\<close>

definition lower :: "string \<Rightarrow> bool" where
  "lower s \<longleftrightarrow> (\<forall>c \<in> set s. 97 \<le> (of_char c :: nat) \<and> (of_char c :: nat) < 123)"

definition trie_words :: "trie_node \<Rightarrow> string set" where
  "trie_words t = {w. lower w \<and> trie_search w t = Some True}"

text \<open>26 children everywhere, and a word below every node but the root.\<close>

inductive trie_ok :: "trie_node \<Rightarrow> bool" where
  "length cs = 26 \<Longrightarrow> (\<And>t. Some t \<in> set cs \<Longrightarrow> trie_ok t \<and> trie_words t \<noteq> {}) \<Longrightarrow> trie_ok (TrieNode w cs)"

inductive_cases trie_okE: "trie_ok (TrieNode w cs)"

lemma trie_ok_child:
  assumes "trie_ok (TrieNode w cs)" and "lower (c # s)"
  shows "\<exists>i. child_index c = Some i \<and> i < length cs \<and> length cs = 26 \<and> (\<forall>t. cs ! i = Some t \<longrightarrow> trie_ok t \<and> trie_words t \<noteq> {})"
proof -
  have len: "length cs = 26" and ch: "\<And>t. Some t \<in> set cs \<Longrightarrow> trie_ok t \<and> trie_words t \<noteq> {}"
    using assms(1) by (auto elim: trie_okE)
  have i: "of_char c - (97 :: nat) < length cs" "97 \<le> (of_char c :: nat)" using assms(2) len by (auto simp: lower_def)
  have "trie_ok t \<and> trie_words t \<noteq> {}" if "cs ! (of_char c - 97) = Some t" for t using ch [of t] nth_mem [OF i(1)] that by simp
  then show ?thesis using i len by (simp add: child_index_def)
qed

lemma child_index_eq: "child_index c = Some i \<Longrightarrow> child_index d = Some i \<Longrightarrow> c = d"
proof -
  assume "child_index c = Some i" "child_index d = Some i"
  then have "(of_char c :: nat) = i + 97" "(of_char d :: nat) = i + 97" by (auto simp: child_index_def split: if_splits)
  then have "(of_char c :: nat) = of_char d" by simp
  then show "c = d" by simp
qed

lemma new_node_ok: "trie_ok new_trie_node"
  unfolding new_trie_node_def by (rule trie_ok.intros) auto

lemma search_Nil: "trie_search [] (TrieNode w cs) = Some w"
  by (simp add: trie_search_def)

lemma search_Cons:
  "child_index c = Some i \<Longrightarrow> i < length cs \<Longrightarrow>
    trie_search (c # s) (TrieNode w cs) = (case cs ! i of None \<Rightarrow> Some False | Some t \<Rightarrow> trie_search s t)"
  by (simp add: trie_search_def ub_simps split: option.split)

lemma search_total: "trie_ok t \<Longrightarrow> lower s \<Longrightarrow> \<exists>b. trie_search s t = Some b"
proof (induction s arbitrary: t)
  case Nil
  then show ?case by (cases t) (simp add: search_Nil)
next
  case (Cons c s)
  obtain w cs where t: "t = TrieNode w cs" by (cases t)
  have s: "lower s" using Cons(3) by (simp add: lower_def)
  then show ?case using trie_ok_child [of w cs c s] Cons t search_Cons by (auto split: option.split)
qed

lemma search_new: "lower s \<Longrightarrow> trie_search s new_trie_node = Some False"
proof (cases s)
  case (Cons c u)
  assume "lower s"
  then obtain i where "child_index c = Some i" "i < 26"
    using trie_ok_child [OF new_node_ok [unfolded new_trie_node_def], of c u] Cons by auto
  then show ?thesis using Cons search_Cons [of c i "replicate 26 None" u False] by (simp add: new_trie_node_def)
qed (simp add: new_trie_node_def search_Nil)

lemma trie_insert_ok:
  "trie_ok t \<Longrightarrow> lower s \<Longrightarrow> \<exists>t'. trie_insert s t = Some t' \<and> trie_ok t' \<and>
     (\<forall>u. lower u \<longrightarrow> trie_search u t' = (if u = s then Some True else trie_search u t))"
proof (induction s arbitrary: t)
  case Nil
  obtain w cs where t: "t = TrieNode w cs" by (cases t)
  have "trie_ok (TrieNode True cs)" using Nil(1) unfolding t by (cases rule: trie_ok.cases) (auto intro: trie_ok.intros)
  moreover have "trie_search u (TrieNode True cs) = (if u = [] then Some True else trie_search u t)" for u
    using t by (cases u) (simp_all add: trie_search_def)
  ultimately show ?case using t by simp
next
  case (Cons c s)
  obtain w cs where t: "t = TrieNode w cs" by (cases t)
  have s: "lower s" using Cons(3) by (simp add: lower_def)
  obtain i where i: "child_index c = Some i" "i < length cs" "length cs = 26"
      "\<And>t. cs ! i = Some t \<Longrightarrow> trie_ok t \<and> trie_words t \<noteq> {}"
    using trie_ok_child [of w cs c s] Cons(2,3) t by blast
  define sub where "sub = (case cs ! i of None \<Rightarrow> new_trie_node | Some t \<Rightarrow> t)"
  have "trie_ok sub" using i(4) new_node_ok by (auto simp: sub_def split: option.split)
  then obtain sub' where s': "trie_insert s sub = Some sub'" "trie_ok sub'"
      "\<And>u. lower u \<Longrightarrow> trie_search u sub' = (if u = s then Some True else trie_search u sub)"
    using Cons(1) s by blast
  let ?t = "TrieNode w (cs[i := Some sub'])"
  have ins: "trie_insert (c # s) t = Some ?t" using t i s'(1) by (simp add: sub_def ub_simps)
  have "s \<in> trie_words sub'" using s'(3) [OF s] s by (simp add: trie_words_def)
  then have ne: "trie_words sub' \<noteq> {}" by blast
  have ok: "trie_ok ?t"
  proof (rule trie_ok.intros)
    fix x assume "Some x \<in> set (cs[i := Some sub'])"
    then have "Some x = Some sub' \<or> Some x \<in> set cs" using set_update_subset_insert by fast
    then show "trie_ok x \<and> trie_words x \<noteq> {}" using s'(2) ne Cons(2) t by (auto elim: trie_okE)
  qed (simp add: i)
  have "trie_search u ?t = (if u = c # s then Some True else trie_search u t)" if u: "lower u" for u
  proof (cases u)
    case Nil
    then show ?thesis using t by (simp add: search_Nil)
  next
    case (Cons d v)
    have v: "lower v" using u Cons by (simp add: lower_def)
    obtain j where j: "child_index d = Some j" "j < length cs" using trie_ok_child [of w cs d v] \<open>trie_ok t\<close> t u Cons by blast
    show ?thesis
    proof (cases "j = i")
      case True
      then have "d = c" using child_index_eq j(1) i(1) by simp
      moreover have "trie_search v sub = (case cs ! i of None \<Rightarrow> Some False | Some t \<Rightarrow> trie_search v t)"
        using search_new [OF v] by (auto simp: sub_def split: option.split)
      ultimately show ?thesis
        using Cons True t search_Cons [OF i(1), of "cs[i := Some sub']" v w] search_Cons [OF i(1,2), of v w] i(2) s'(3) [OF v] by simp
    next
      case False
      then have "d \<noteq> c" using j(1) i(1) by auto
      then show ?thesis using Cons False t search_Cons [OF j(1), of "cs[i := Some sub']" v w] search_Cons [OF j, of v w] j(2) by simp
    qed
  qed
  then show ?case using ins ok by blast
qed

interpretation trie: insert_set new_trie_node trie_insert "\<lambda>w. w" "\<lambda>t w. trie_search w t" trie_words trie_ok lower
proof unfold_locales
  show "trie_ok new_trie_node" "trie_words new_trie_node = {}" using new_node_ok search_new by (auto simp: trie_words_def)
  fix t w assume t: "trie_ok t" and w: "lower w"
  obtain t' where t': "trie_insert w t = Some t'" "trie_ok t'"
      "\<And>u. lower u \<Longrightarrow> trie_search u t' = (if u = w then Some True else trie_search u t)"
    using trie_insert_ok [OF t w] by blast
  have "trie_words t' = Set.insert w (trie_words t)" using t'(3) w by (auto simp: trie_words_def split: if_splits)
  then show "\<exists>t'. trie_insert w t = Some t' \<and> trie_ok t' \<and> trie_words t' = Set.insert w (trie_words t)" using t' by blast
  show "trie_search w t = Some (w \<in> trie_words t)" using search_total [OF t w] w by (auto simp: trie_words_def)
qed

lemma startsWith_words:
  "trie_ok t \<Longrightarrow> lower p \<Longrightarrow> startsWith p t = Some (p = [] \<or> (\<exists>w \<in> trie_words t. prefix p w))"
proof (induction p arbitrary: t)
  case Nil
  then show ?case by (simp add: startsWith_def)
next
  case (Cons c p)
  obtain w cs where t: "t = TrieNode w cs" by (cases t)
  have p: "lower p" using Cons(3) by (simp add: lower_def)
  obtain i where i: "child_index c = Some i" "i < length cs" "length cs = 26"
      "\<And>t. cs ! i = Some t \<Longrightarrow> trie_ok t \<and> trie_words t \<noteq> {}"
    using trie_ok_child [of w cs c p] Cons(2,3) t by blast
  have low: "lower (c # v) \<longleftrightarrow> lower v" for v using Cons(3) by (simp add: lower_def)
  have words: "(\<exists>u \<in> trie_words t. prefix (c # p) u) \<longleftrightarrow> (\<exists>v. lower (c # v) \<and> trie_search (c # v) t = Some True \<and> prefix p v)"
    by (auto simp: trie_words_def prefix_def)
  show ?case
  proof (cases "cs ! i")
    case None
    then show ?thesis using t i search_Cons [OF i(1,2)] words by (simp add: startsWith_def ub_simps)
  next
    case (Some sub)
    then have sub: "trie_ok sub" "trie_words sub \<noteq> {}" using i(4) by auto
    have "startsWith (c # p) t = startsWith p sub" using t i Some by (simp add: startsWith_def ub_simps)
    also have "\<dots> = Some (\<exists>v \<in> trie_words sub. prefix p v)" using Cons(1) [OF sub(1) p] sub(2) by auto
    also have "(\<exists>v \<in> trie_words sub. prefix p v) \<longleftrightarrow> (\<exists>v. lower (c # v) \<and> trie_search (c # v) t = Some True \<and> prefix p v)"
      using t Some search_Cons [OF i(1,2)] low by (auto simp: trie_words_def)
    finally show ?thesis using words by simp
  qed
qed

text \<open>
  A trie built from words of small letters contains exactly these words, and
  \<open>startsWith\<close> says whether one of them begins with the given letters.
\<close>

theorem Trie_correct:
  assumes "\<forall>w \<in> set ws. lower w"
  shows "\<exists>t. insert_each trie_insert ws new_trie_node = Some t \<and>
    (\<forall>u. lower u \<longrightarrow> trie_search u t = Some (u \<in> set ws) \<and> startsWith u t = Some (u = [] \<or> (\<exists>w \<in> set ws. prefix u w)))"
proof -
  obtain t where t: "insert_each trie_insert ws new_trie_node = Some t" "trie_ok t" "trie_words t = set ws"
      "\<forall>u. lower u \<longrightarrow> trie_search u t = Some (u \<in> set ws)"
    using trie.insert_each_ok [OF assms] by auto
  then show ?thesis using startsWith_words [OF t(2)] by auto
qed

theorem Trie_correct_witness:
  "\<exists>t. insert_each trie_insert [''car'', ''cat''] new_trie_node = Some t \<and> trie_search ''ca'' t = Some False \<and> startsWith ''ca'' t = Some True"
proof -
  have "\<forall>w \<in> set [''car'', ''cat'']. lower w" "lower ''ca''" by (simp_all add: lower_def)
  then show ?thesis using Trie_correct [of "[''car'', ''cat'']"] by force
qed

text \<open>A capital letter indexes before the first child.\<close>

lemma trie_capital: "trie_insert ''A'' new_trie_node = None"
  by (simp add: new_trie_node_def child_index_def)

end
