(* ===== verification/TwoPointers.thy ===== *)
theory TwoPointers
  imports ArraySearch Tables
begin

section \<open>The widest container (leetcode/other/containerMostWater.cc)\<close>

partial_function (option) skip_up :: "int list \<Rightarrow> int \<Rightarrow> int \<Rightarrow> int \<Rightarrow> int option" where
  "skip_up height h l r = do { a \<leftarrow> iget height l; if a \<le> h \<and> l < r then skip_up height h (l + 1) r else Some l }"

partial_function (option) skip_down :: "int list \<Rightarrow> int \<Rightarrow> int \<Rightarrow> int \<Rightarrow> int option" where
  "skip_down height h l r = do { a \<leftarrow> iget height r; if a \<le> h \<and> l < r then skip_down height h l (r - 1) else Some r }"

partial_function (option) max_area_loop :: "int list \<Rightarrow> int \<Rightarrow> int \<Rightarrow> int \<Rightarrow> int option" where
  "max_area_loop height res l r =
     (if l < r then do {
        a \<leftarrow> iget height l;
        b \<leftarrow> iget height r;
        let h = min a b;
        let res = max res ((r - l) * h);
        l \<leftarrow> skip_up height h l r;
        r \<leftarrow> skip_down height h l r;
        max_area_loop height res l r }
      else Some res)"

definition maxArea :: "int list \<Rightarrow> int option" where
  "maxArea height = max_area_loop height 0 0 (int (length height) - 1)"

lemma skip_up_ok:
  "0 \<le> l \<Longrightarrow> l \<le> r \<Longrightarrow> r < int (length xs) \<Longrightarrow>
   \<exists>l'. skip_up xs h l r = Some l' \<and> l \<le> l' \<and> l' \<le> r \<and> (\<forall>i. l \<le> i \<and> i < l' \<longrightarrow> xs ! nat i \<le> h) \<and> (l' = r \<or> h < xs ! nat l')"
proof (induction "nat (r - l)" arbitrary: l rule: less_induct)
  case less
  have g: "iget xs l = Some (xs ! nat l)" using less(2-4) by (intro iget_ok) auto
  show ?case
  proof (cases "xs ! nat l \<le> h \<and> l < r")
    case True
    then obtain l' where "skip_up xs h (l + 1) r = Some l'" "l + 1 \<le> l'" "l' \<le> r"
      "\<forall>i. l + 1 \<le> i \<and> i < l' \<longrightarrow> xs ! nat i \<le> h" "l' = r \<or> h < xs ! nat l'"
      using less(1) [of "l + 1"] less(2-4) by auto
    moreover from this have "xs ! nat i \<le> h" if "l \<le> i" "i < l'" for i using that True by (cases "i = l") auto
    ultimately show ?thesis using True g by (subst skip_up.simps) auto
  next
    case False
    then show ?thesis using g less(2-4) by (subst skip_up.simps) auto
  qed
qed

lemma skip_down_ok:
  "0 \<le> l \<Longrightarrow> l \<le> r \<Longrightarrow> r < int (length xs) \<Longrightarrow>
   \<exists>r'. skip_down xs h l r = Some r' \<and> l \<le> r' \<and> r' \<le> r \<and> (\<forall>i. r' < i \<and> i \<le> r \<longrightarrow> xs ! nat i \<le> h) \<and> (r' = l \<or> h < xs ! nat r')"
proof (induction "nat (r - l)" arbitrary: r rule: less_induct)
  case less
  have g: "iget xs r = Some (xs ! nat r)" using less(2-4) by (intro iget_ok) auto
  show ?case
  proof (cases "xs ! nat r \<le> h \<and> l < r")
    case True
    then obtain r' where "skip_down xs h l (r - 1) = Some r'" "l \<le> r'" "r' \<le> r - 1"
      "\<forall>i. r' < i \<and> i \<le> r - 1 \<longrightarrow> xs ! nat i \<le> h" "r' = l \<or> h < xs ! nat r'"
      using less(1) [of "r - 1"] less(2-4) by auto
    moreover from this have "xs ! nat i \<le> h" if "r' < i" "i \<le> r" for i using that True by (cases "i = r") auto
    ultimately show ?thesis using True g by (subst skip_down.simps) auto
  next
    case False
    then show ?thesis using g less(2-4) by (subst skip_down.simps) auto
  qed
qed

definition area :: "int list \<Rightarrow> int \<Rightarrow> int \<Rightarrow> int" where
  "area xs i j = (j - i) * min (xs ! nat i) (xs ! nat j)"

text \<open>A container with a side among the lines that were skipped is not larger than the one before.\<close>

lemma area_bound:
  assumes "l \<le> i" "i < j" "j \<le> r" and "xs ! nat i \<le> h \<or> xs ! nat j \<le> h"
  shows "area xs i j \<le> max 0 ((r - l) * h)"
proof (cases "0 \<le> min (xs ! nat i) (xs ! nat j)")
  case True
  have "(j - i) * min (xs ! nat i) (xs ! nat j) \<le> (r - l) * h" by (rule mult_mono) (use assms True in auto)
  then show ?thesis by (simp add: area_def)
next
  case False
  then have "(j - i) * min (xs ! nat i) (xs ! nat j) \<le> 0" using assms(2) by (intro mult_nonneg_nonpos) auto
  then show ?thesis by (simp add: area_def)
qed

lemma max_area_loop_ok:
  "0 \<le> l \<Longrightarrow> r < int (length xs) \<Longrightarrow> 0 \<le> res \<Longrightarrow>
   \<exists>m. max_area_loop xs res l r = Some m \<and> res \<le> m \<and> (\<forall>i j. l \<le> i \<and> i < j \<and> j \<le> r \<longrightarrow> area xs i j \<le> m) \<and>
     (m = res \<or> (\<exists>i j. l \<le> i \<and> i < j \<and> j \<le> r \<and> m = area xs i j))"
proof (induction "nat (r - l)" arbitrary: l r res rule: less_induct)
  case less
  show ?case
  proof (cases "l < r")
    case False
    then show ?thesis by (subst max_area_loop.simps) auto
  next
    case True
    let ?a = "xs ! nat l" and ?b = "xs ! nat r"
    let ?h = "min ?a ?b" and ?res = "max res (area xs l r)"
    have g: "iget xs l = Some ?a" "iget xs r = Some ?b" using less(2,3) True by (auto intro!: iget_ok)
    obtain l' where l': "skip_up xs ?h l r = Some l'" "l \<le> l'" "l' \<le> r" "\<forall>i. l \<le> i \<and> i < l' \<longrightarrow> xs ! nat i \<le> ?h"
      "l' = r \<or> ?h < xs ! nat l'" using skip_up_ok [of l r xs ?h] less(2,3) True by auto
    obtain r' where r': "skip_down xs ?h l' r = Some r'" "l' \<le> r'" "r' \<le> r" "\<forall>i. r' < i \<and> i \<le> r \<longrightarrow> xs ! nat i \<le> ?h"
      "r' = l' \<or> ?h < xs ! nat r'" using skip_down_ok [of l' r xs ?h] l' less(2,3) by auto
    have step: "max_area_loop xs res l r = max_area_loop xs ?res l' r'"
      using True g l'(1) r'(1) by (subst max_area_loop.simps) (simp add: Let_def area_def)
    have prog: "nat (r' - l') < nat (r - l)"
    proof (cases "?a \<le> ?b")
      case c: True
      then have "l \<noteq> l'" using l'(5) True by auto
      then show ?thesis using l'(2) r'(3) True by auto
    next
      case c: False
      then have "r \<noteq> r' \<or> l' = r" using r'(5) by auto
      then show ?thesis using l'(2) r'(2,3) True by auto
    qed
    have pre: "0 \<le> l'" "r' < int (length xs)" "0 \<le> ?res" using less(2-4) l'(2) r'(3) by auto
    obtain m where m: "max_area_loop xs ?res l' r' = Some m" "?res \<le> m" "\<forall>i j. l' \<le> i \<and> i < j \<and> j \<le> r' \<longrightarrow> area xs i j \<le> m"
      "m = ?res \<or> (\<exists>i j. l' \<le> i \<and> i < j \<and> j \<le> r' \<and> m = area xs i j)"
      using less(1) [OF prog pre] by blast
    have "area xs i j \<le> m" if ij: "l \<le> i" "i < j" "j \<le> r" for i j
    proof (cases "l' \<le> i \<and> j \<le> r'")
      case True
      then show ?thesis using m(3) ij by simp
    next
      case False
      then have "xs ! nat i \<le> ?h \<or> xs ! nat j \<le> ?h" using l'(4) r'(4) ij by (meson linorder_not_le)
      then have "area xs i j \<le> max 0 (area xs l r)" unfolding area_def [of xs l r] by (rule area_bound [OF ij])
      then show ?thesis using m(2) less(4) by linarith
    qed
    moreover have "m = res \<or> (\<exists>i j. l \<le> i \<and> i < j \<and> j \<le> r \<and> m = area xs i j)"
      using m(4)
    proof
      assume "m = ?res"
      then have "m = res \<or> m = area xs l r" by (simp add: max_def split: if_splits)
      then show ?thesis using True by blast
    next
      assume "\<exists>i j. l' \<le> i \<and> i < j \<and> j \<le> r' \<and> m = area xs i j"
      then obtain i j where "l' \<le> i" "i < j" "j \<le> r'" "m = area xs i j" by blast
      then show ?thesis using l'(2) r'(3) by (intro disjI2 exI [of _ i] exI [of _ j]) auto
    qed
    ultimately show ?thesis unfolding step using m(1,2) by auto
  qed
qed

text \<open>The result is the area of the best pair of lines, or 0 if none is positive.\<close>

theorem maxArea_correct:
  "\<exists>m. maxArea height = Some m \<and> 0 \<le> m \<and> (\<forall>i j. 0 \<le> i \<and> i < j \<and> j < int (length height) \<longrightarrow> area height i j \<le> m) \<and>
     (m = 0 \<or> (\<exists>i j. 0 \<le> i \<and> i < j \<and> j < int (length height) \<and> m = area height i j))"
  using max_area_loop_ok [of 0 "int (length height) - 1" height 0] unfolding maxArea_def by fastforce

section \<open>Rain water (leetcode/other/trappingRainingWater.cc)\<close>

partial_function (option) fill_up :: "int list \<Rightarrow> int \<Rightarrow> int \<Rightarrow> int \<Rightarrow> int \<Rightarrow> (int \<times> int) option" where
  "fill_up height minH water l r =
     (if l < r then do {
        a \<leftarrow> iget height l;
        if a \<le> minH then fill_up height minH (water + (minH - a)) (l + 1) r else Some (water, l) }
      else Some (water, l))"

partial_function (option) fill_down :: "int list \<Rightarrow> int \<Rightarrow> int \<Rightarrow> int \<Rightarrow> int \<Rightarrow> (int \<times> int) option" where
  "fill_down height minH water l r =
     (if l < r then do {
        b \<leftarrow> iget height r;
        if b \<le> minH then fill_down height minH (water + (minH - b)) l (r - 1) else Some (water, r) }
      else Some (water, r))"

partial_function (option) trap_loop :: "int list \<Rightarrow> int \<Rightarrow> int \<Rightarrow> int \<Rightarrow> int \<Rightarrow> int option" where
  "trap_loop height minH water l r =
     (if l < r then do {
        (water, l) \<leftarrow> fill_up height minH water l r;
        (water, r) \<leftarrow> fill_down height minH water l r;
        a \<leftarrow> iget height l;
        b \<leftarrow> iget height r;
        trap_loop height (min a b) water l r }
      else Some water)"

definition trap :: "int list \<Rightarrow> int option" where
  "trap height = trap_loop height 0 0 0 (int (length height) - 1)"

text \<open>The water above a bar: up to the lower one of the highest bars on its two sides.\<close>

definition left_max_of :: "int list \<Rightarrow> int \<Rightarrow> int" where
  "left_max_of xs i = Max ((\<lambda>j. xs ! nat j) ` {0..i})"

definition right_max_of :: "int list \<Rightarrow> int \<Rightarrow> int" where
  "right_max_of xs i = Max ((\<lambda>j. xs ! nat j) ` {i..<int (length xs)})"

definition above :: "int list \<Rightarrow> int \<Rightarrow> int" where
  "above xs i = min (left_max_of xs i) (right_max_of xs i) - xs ! nat i"

lemma left_max_eq:
  "0 \<le> i \<Longrightarrow> (\<And>j. 0 \<le> j \<Longrightarrow> j \<le> i \<Longrightarrow> xs ! nat j \<le> h) \<Longrightarrow> 0 \<le> k \<Longrightarrow> k \<le> i \<Longrightarrow> xs ! nat k = h \<Longrightarrow> left_max_of xs i = h"
  unfolding left_max_of_def by (rule Max_eqI) auto

lemma right_max_eq:
  "i < int (length xs) \<Longrightarrow> (\<And>j. i \<le> j \<Longrightarrow> j < int (length xs) \<Longrightarrow> xs ! nat j \<le> h) \<Longrightarrow> i \<le> k \<Longrightarrow> k < int (length xs) \<Longrightarrow>
   xs ! nat k = h \<Longrightarrow> right_max_of xs i = h"
  unfolding right_max_of_def by (rule Max_eqI) auto

lemma left_max_ge: "0 \<le> j \<Longrightarrow> j \<le> i \<Longrightarrow> xs ! nat j \<le> left_max_of xs i"
  unfolding left_max_of_def by (intro Max_ge) auto

lemma right_max_ge: "i \<le> j \<Longrightarrow> j < int (length xs) \<Longrightarrow> xs ! nat j \<le> right_max_of xs i"
  unfolding right_max_of_def by (intro Max_ge) auto

text \<open>
  While the level is \<open>h\<close>: all bars outside the pointers are at most \<open>h\<close>, the bars at the pointers at
  least \<open>h\<close>.
\<close>

definition basin :: "int list \<Rightarrow> int \<Rightarrow> int \<Rightarrow> int \<Rightarrow> bool" where
  "basin xs h l r \<longleftrightarrow> 0 \<le> l \<and> l \<le> r \<and> r < int (length xs) \<and> (\<forall>i. 0 \<le> i \<and> i < l \<longrightarrow> xs ! nat i \<le> h) \<and>
     (\<forall>i. r < i \<and> i < int (length xs) \<longrightarrow> xs ! nat i \<le> h) \<and> h \<le> xs ! nat l \<and> h \<le> xs ! nat r"

lemma fill_up_ok:
  assumes b: "basin xs h l0 r"
  shows "l0 \<le> l \<Longrightarrow> l \<le> r \<Longrightarrow> (\<forall>i. 0 \<le> i \<and> i < l \<longrightarrow> xs ! nat i \<le> h) \<Longrightarrow>
    \<exists>l'. fill_up xs h w l r = Some (w + (\<Sum>i = l..<l'. above xs i), l') \<and> l \<le> l' \<and> l' \<le> r \<and>
      (\<forall>i. 0 \<le> i \<and> i < l' \<longrightarrow> xs ! nat i \<le> h) \<and> (l' = r \<or> h < xs ! nat l')"
proof (induction "nat (r - l)" arbitrary: l w rule: less_induct)
  case less
  have l: "0 \<le> l" "l < int (length xs)" using less(2,3) b by (auto simp: basin_def)
  show ?case
  proof (cases "l < r \<and> xs ! nat l \<le> h")
    case True
    have "xs ! nat l0 = h" if "l0 < l" using that less(4) b by (auto simp: basin_def intro: order_antisym)
    then have h0: "xs ! nat l0 = h" using True b less(2) by (cases "l0 = l") (auto simp: basin_def)
    have le: "\<forall>i. 0 \<le> i \<and> i < l + 1 \<longrightarrow> xs ! nat i \<le> h" using less(4) True by (metis zless_add1_eq)
    have "left_max_of xs l = h" by (rule left_max_eq [of _ _ _ l0]) (use le l h0 b less(2) in \<open>auto simp: basin_def\<close>)
    moreover have "h \<le> right_max_of xs l" using right_max_ge [of l r xs] b True by (auto simp: basin_def)
    ultimately have "above xs l = h - xs ! nat l" by (simp add: above_def)
    moreover obtain l' where l': "fill_up xs h (w + (h - xs ! nat l)) (l + 1) r = Some (w + (h - xs ! nat l) + (\<Sum>i = l + 1..<l'. above xs i), l')"
      "l + 1 \<le> l'" "l' \<le> r" "\<forall>i. 0 \<le> i \<and> i < l' \<longrightarrow> xs ! nat i \<le> h" "l' = r \<or> h < xs ! nat l'"
      using less(1) [of "l + 1" "w + (h - xs ! nat l)"] less(2,3) le True by auto
    moreover have "{l..<l'} = insert l {l + 1..<l'}" using l'(2) by auto
    ultimately show ?thesis using True l by (subst fill_up.simps) (auto simp: iget_ok)
  next
    case False
    then show ?thesis using l less(3,4) by (subst fill_up.simps) (auto simp: iget_ok)
  qed
qed

lemma fill_down_ok:
  assumes b: "basin xs h l0 r0"
  shows "l0 \<le> l \<Longrightarrow> l \<le> r \<Longrightarrow> r \<le> r0 \<Longrightarrow> (\<forall>i. r < i \<and> i < int (length xs) \<longrightarrow> xs ! nat i \<le> h) \<Longrightarrow>
    \<exists>r'. fill_down xs h w l r = Some (w + (\<Sum>i = r' + 1..<r + 1. above xs i), r') \<and> l \<le> r' \<and> r' \<le> r \<and>
      (\<forall>i. r' < i \<and> i < int (length xs) \<longrightarrow> xs ! nat i \<le> h) \<and> (r' = l \<or> h < xs ! nat r')"
proof (induction "nat (r - l)" arbitrary: r w rule: less_induct)
  case less
  have l: "0 \<le> r" "r < int (length xs)" using less(2-4) b by (auto simp: basin_def)
  show ?case
  proof (cases "l < r \<and> xs ! nat r \<le> h")
    case True
    have "xs ! nat r0 = h" if "r < r0" using that less(5) b by (auto simp: basin_def intro: order_antisym)
    then have h0: "xs ! nat r0 = h" using True b less(4) by (cases "r0 = r") (auto simp: basin_def)
    have le: "\<forall>i. r - 1 < i \<and> i < int (length xs) \<longrightarrow> xs ! nat i \<le> h" using less(5) True by (metis diff_add_cancel linorder_neqE_linordered_idom zless_add1_eq less_diff_eq not_less_iff_gr_or_eq)
    have "right_max_of xs r = h" by (rule right_max_eq [of _ _ _ r0]) (use le l h0 b less(4) in \<open>auto simp: basin_def\<close>)
    moreover have "h \<le> left_max_of xs r" using left_max_ge [of l0 r xs] b True less(2) by (auto simp: basin_def)
    ultimately have "above xs r = h - xs ! nat r" by (simp add: above_def)
    moreover obtain r' where r': "fill_down xs h (w + (h - xs ! nat r)) l (r - 1) = Some (w + (h - xs ! nat r) + (\<Sum>i = r' + 1..<r. above xs i), r')"
      "l \<le> r'" "r' \<le> r - 1" "\<forall>i. r' < i \<and> i < int (length xs) \<longrightarrow> xs ! nat i \<le> h" "r' = l \<or> h < xs ! nat r'"
      using less(1) [of "r - 1" "w + (h - xs ! nat r)"] less(2-4) le True by auto
    moreover have "{r' + 1..<r + 1} = insert r {r' + 1..<r}" using r'(3) by auto
    ultimately show ?thesis using True l by (subst fill_down.simps) (auto simp: iget_ok)
  next
    case False
    then show ?thesis using l less(3,5) by (subst fill_down.simps) (auto simp: iget_ok)
  qed
qed

lemma basin_above_0: "basin xs h l l \<Longrightarrow> above xs l = 0"
proof -
  assume b: "basin xs h l l"
  have le: "xs ! nat j \<le> xs ! nat l" if "0 \<le> j" "j < int (length xs)" for j
    using b that by (cases j l rule: linorder_cases) (auto simp: basin_def intro: order_trans)
  have "left_max_of xs l = xs ! nat l" by (rule left_max_eq [of _ _ _ l]) (use b le in \<open>auto simp: basin_def\<close>)
  moreover have "right_max_of xs l = xs ! nat l" by (rule right_max_eq [of _ _ _ l]) (use b le in \<open>auto simp: basin_def\<close>)
  ultimately show ?thesis by (simp add: above_def)
qed

lemma trap_loop_ok: "basin xs h l r \<Longrightarrow> trap_loop xs h w l r = Some (w + (\<Sum>i = l..r. above xs i))"
proof (induction "2 * nat (r - l) + (if h = min (xs ! nat l) (xs ! nat r) then 0 else 1)" arbitrary: h l r w rule: less_induct)
  case less
  note b = less(2)
  show ?case
  proof (cases "l < r")
    case False
    then have "l = r" using b by (simp add: basin_def)
    then show ?thesis using basin_above_0 b by (subst trap_loop.simps) auto
  next
    case True
    obtain l' where l': "fill_up xs h w l r = Some (w + (\<Sum>i = l..<l'. above xs i), l')" "l \<le> l'" "l' \<le> r"
      "\<forall>i. 0 \<le> i \<and> i < l' \<longrightarrow> xs ! nat i \<le> h" "l' = r \<or> h < xs ! nat l'"
      using fill_up_ok [OF b, of l w] b by (auto simp: basin_def)
    let ?w = "w + (\<Sum>i = l..<l'. above xs i)"
    obtain r' where r': "fill_down xs h ?w l' r = Some (?w + (\<Sum>i = r' + 1..<r + 1. above xs i), r')" "l' \<le> r'" "r' \<le> r"
      "\<forall>i. r' < i \<and> i < int (length xs) \<longrightarrow> xs ! nat i \<le> h" "r' = l' \<or> h < xs ! nat r'"
      using fill_down_ok [OF b l'(2,3) order_refl, of ?w] b by (auto simp: basin_def)
    let ?h = "min (xs ! nat l') (xs ! nat r')"
    have hl: "h \<le> xs ! nat l'" using l'(5) r'(2,3) b by (auto simp: basin_def)
    then have hh: "h \<le> ?h" using r'(5) by auto
    have b': "basin xs ?h l' r'"
      using b l'(2,3,4) r'(2,3,4) order_trans [OF _ hh] unfolding basin_def by auto
    have get: "iget xs l' = Some (xs ! nat l')" "iget xs r' = Some (xs ! nat r')" using b' by (auto simp: basin_def intro!: iget_ok)
    have "2 * nat (r' - l') + (if ?h = ?h then 0 else 1) < 2 * nat (r - l) + (if h = min (xs ! nat l) (xs ! nat r) then 0 else 1 :: nat)"
    proof (cases "l' = l \<and> r' = r")
      case same: True
      then have "h < xs ! nat l" "h < xs ! nat r" using l'(5) r'(5) True by auto
      then show ?thesis using same by auto
    next
      case False
      then have "2 * nat (r' - l') < 2 * nat (r - l)" using l'(2) r'(3) True by linarith
      then show ?thesis by (simp only: refl if_True add_0_right trans_less_add1)
    qed
    from less(1) [OF this b'] have "trap_loop xs h w l r = Some (?w + (\<Sum>i = r' + 1..<r + 1. above xs i) + (\<Sum>i = l'..r'. above xs i))"
      using True l'(1) r'(1) get by (subst trap_loop.simps) (simp del: bind_eq_Some)
    moreover have "{l..r} = {l..<l'} \<union> {l'..r'} \<union> {r' + 1..<r + 1}" using l'(2) r'(2,3) by auto
    then have "(\<Sum>i = l..r. above xs i) = (\<Sum>i = l..<l'. above xs i) + (\<Sum>i = l'..r'. above xs i) + (\<Sum>i = r' + 1..<r + 1. above xs i)"
      using l'(2) r'(2,3) by (simp only: \<open>{l..r} = _\<close>) (subst sum.union_disjoint, auto)+
    ultimately show ?thesis by simp
  qed
qed

text \<open>For heights that are not negative, the result is the sum of the water above all bars.\<close>

theorem trap_correct:
  assumes "\<forall>x \<in> set height. 0 \<le> x"
  shows "trap height = Some (\<Sum>i = 0..int (length height) - 1. above height i)"
proof (cases "height = []")
  case True
  then show ?thesis unfolding trap_def by (subst trap_loop.simps) simp
next
  case False
  then have "basin height 0 0 (int (length height) - 1)" using assms by (cases height) (auto simp: basin_def nth_Cons')
  from trap_loop_ok [OF this] show ?thesis by (simp add: trap_def)
qed

section \<open>Two and three numbers with a given sum (leetcode/other/twoSum.cc, threeSum.cc)\<close>

text \<open>Both sort first; \<open>twoSum\<close> sorts a copy, and the indices it returns are those of the copy.\<close>

partial_function (option) two_sum_loop :: "int list \<Rightarrow> int \<Rightarrow> int \<Rightarrow> int \<Rightarrow> int list option" where
  "two_sum_loop nums target l r =
     (if l < r then do {
        a \<leftarrow> iget nums l;
        b \<leftarrow> iget nums r;
        if a + b < target then two_sum_loop nums target (l + 1) r
        else if a + b > target then two_sum_loop nums target l (r - 1)
        else Some [l, r] }
      else Some [])"

definition twoSum :: "int list \<Rightarrow> int \<Rightarrow> int list option" where
  "twoSum nums target = (let nums = sort nums in two_sum_loop nums target 0 (int (length nums) - 1))"

lemma sorted_iget_mono: "sorted xs \<Longrightarrow> 0 \<le> i \<Longrightarrow> i \<le> j \<Longrightarrow> j < int (length xs) \<Longrightarrow> xs ! nat i \<le> xs ! nat j"
  by (intro sorted_nth_mono) auto

definition pair_found :: "int list \<Rightarrow> int \<Rightarrow> int \<Rightarrow> int \<Rightarrow> int list option \<Rightarrow> bool" where
  "pair_found xs t l r res \<longleftrightarrow>
     (\<exists>i j. res = Some [i, j] \<and> l \<le> i \<and> i < j \<and> j \<le> r \<and> xs ! nat i + xs ! nat j = t) \<or>
     res = Some [] \<and> (\<forall>i j. l \<le> i \<and> i < j \<and> j \<le> r \<longrightarrow> xs ! nat i + xs ! nat j \<noteq> t)"

lemma pair_found_widen:
  assumes "pair_found xs t l' r' res" and "l \<le> l'" and "r' \<le> r"
    and "\<And>i j. l \<le> i \<Longrightarrow> i < j \<Longrightarrow> j \<le> r \<Longrightarrow> i < l' \<or> r' < j \<Longrightarrow> xs ! nat i + xs ! nat j \<noteq> t"
  shows "pair_found xs t l r res"
  using assms(1) unfolding pair_found_def
proof
  assume "\<exists>i j. res = Some [i, j] \<and> l' \<le> i \<and> i < j \<and> j \<le> r' \<and> xs ! nat i + xs ! nat j = t"
  then obtain i j where "res = Some [i, j]" "l' \<le> i" "i < j" "j \<le> r'" "xs ! nat i + xs ! nat j = t" by blast
  moreover from this have "l \<le> i" "j \<le> r" using assms(2,3) by simp_all
  ultimately show "(\<exists>i j. res = Some [i, j] \<and> l \<le> i \<and> i < j \<and> j \<le> r \<and> xs ! nat i + xs ! nat j = t) \<or>
     res = Some [] \<and> (\<forall>i j. l \<le> i \<and> i < j \<and> j \<le> r \<longrightarrow> xs ! nat i + xs ! nat j \<noteq> t)"
    by blast
next
  assume a: "res = Some [] \<and> (\<forall>i j. l' \<le> i \<and> i < j \<and> j \<le> r' \<longrightarrow> xs ! nat i + xs ! nat j \<noteq> t)"
  have "xs ! nat i + xs ! nat j \<noteq> t" if "l \<le> i" "i < j" "j \<le> r" for i j
    using a that assms(4) [OF that] by (cases "i < l' \<or> r' < j") auto
  then show "(\<exists>i j. res = Some [i, j] \<and> l \<le> i \<and> i < j \<and> j \<le> r \<and> xs ! nat i + xs ! nat j = t) \<or>
     res = Some [] \<and> (\<forall>i j. l \<le> i \<and> i < j \<and> j \<le> r \<longrightarrow> xs ! nat i + xs ! nat j \<noteq> t)"
    using a by blast
qed

lemma two_sum_loop_ok:
  "sorted xs \<Longrightarrow> 0 \<le> l \<Longrightarrow> r < int (length xs) \<Longrightarrow> pair_found xs t l r (two_sum_loop xs t l r)"
proof (induction "nat (r - l)" arbitrary: l r rule: less_induct)
  case less
  let ?a = "xs ! nat l" and ?b = "xs ! nat r"
  consider "\<not> l < r" | "l < r" "?a + ?b < t" | "l < r" "t < ?a + ?b" | "l < r" "?a + ?b = t" by linarith
  then show ?case
  proof cases
    case 1
    then have "two_sum_loop xs t l r = Some []" by (subst two_sum_loop.simps) simp
    then show ?thesis using 1 by (auto simp: pair_found_def)
  next
    case 2
    then have e: "two_sum_loop xs t l r = two_sum_loop xs t (l + 1) r" using less(3,4)
      by (subst two_sum_loop.simps) (simp add: iget_ok)
    have "xs ! nat l + xs ! nat j \<noteq> t" if "j \<le> r" "l < j" for j
      using sorted_iget_mono [OF less(2), of j r] that less(3,4) 2 by auto
    then have "xs ! nat i + xs ! nat j \<noteq> t" if "l \<le> i" "i < j" "j \<le> r" "i < l + 1 \<or> r < j" for i j
      using that by (cases "i = l") auto
    then show ?thesis unfolding e
      by (intro pair_found_widen [OF less(1) [of r "l + 1"]]) (use less(2-4) 2 in auto)
  next
    case 3
    then have e: "two_sum_loop xs t l r = two_sum_loop xs t l (r - 1)" using less(3,4)
      by (subst two_sum_loop.simps) (simp add: iget_ok)
    have "xs ! nat i + xs ! nat r \<noteq> t" if "l \<le> i" "i < r" for i
      using sorted_iget_mono [OF less(2), of l i] that less(3,4) 3 by auto
    then have "xs ! nat i + xs ! nat j \<noteq> t" if "l \<le> i" "i < j" "j \<le> r" "i < l \<or> r - 1 < j" for i j
      using that by (cases "j = r") auto
    then show ?thesis unfolding e
      by (intro pair_found_widen [OF less(1) [of "r - 1" l]]) (use less(2-4) 3 in auto)
  next
    case 4
    then have "two_sum_loop xs t l r = Some [l, r]" using less(3,4) by (subst two_sum_loop.simps) (simp add: iget_ok)
    then show ?thesis using 4 by (auto simp: pair_found_def)
  qed
qed

text \<open>
  \<open>twoSum\<close> finds two positions of the sorted array whose elements add up to the target, or
  returns the empty vector when no two elements do.
\<close>

theorem twoSum_correct: "pair_found (sort nums) target 0 (int (length nums) - 1) (twoSum nums target)"
  unfolding twoSum_def Let_def length_sort by (rule two_sum_loop_ok) simp_all

text \<open>They are not positions of the argument.\<close>

theorem twoSum_positions: "twoSum [7, 2, 11] 9 = Some [0, 1] \<and> [7, 2, 11] ! 0 + [7, 2, 11] ! 1 = (9 :: int) \<and>
    twoSum [11, 2, 7] 9 = Some [0, 1] \<and> [11, 2, 7] ! 0 + [11, 2, 7] ! 1 \<noteq> (9 :: int)"
  by (simp add: twoSum_def iget_def vget_def two_sum_loop.simps [of "[2, 7, 11]"] numeral_2_eq_2)

text \<open>\<open>threeSum\<close>: the elements equal to the ones just used are skipped.\<close>

partial_function (option) same_up :: "int list \<Rightarrow> int \<Rightarrow> int \<Rightarrow> int \<Rightarrow> int option" where
  "same_up nums v l r = do { a \<leftarrow> iget nums l; if a = v \<and> l < r then same_up nums v (l + 1) r else Some l }"

partial_function (option) same_down :: "int list \<Rightarrow> int \<Rightarrow> int \<Rightarrow> int \<Rightarrow> int option" where
  "same_down nums v l r = do { a \<leftarrow> iget nums r; if a = v \<and> l < r then same_down nums v l (r - 1) else Some r }"

partial_function (option) three_pairs :: "int list \<Rightarrow> int \<Rightarrow> int \<Rightarrow> int \<Rightarrow> int list list \<Rightarrow> int list list option" where
  "three_pairs nums target l r res =
     (if l < r then do {
        a \<leftarrow> iget nums l;
        b \<leftarrow> iget nums r;
        if a + b < target then three_pairs nums target (l + 1) r res
        else if a + b > target then three_pairs nums target l (r - 1) res
        else do {
          l \<leftarrow> same_up nums a l r;
          r \<leftarrow> same_down nums b l r;
          three_pairs nums target l r (res @ [[- target, a, b]]) } }
      else Some res)"

partial_function (option) three_skip :: "int list \<Rightarrow> int \<Rightarrow> int option" where
  "three_skip nums i =
     (if i \<noteq> int (length nums) - 1 then do {
        a \<leftarrow> iget nums i;
        b \<leftarrow> iget nums (i + 1);
        if a = b then three_skip nums (i + 1) else Some i }
      else Some i)"

partial_function (option) three_loop :: "int list \<Rightarrow> int \<Rightarrow> int list list \<Rightarrow> int list list option" where
  "three_loop nums i res =
     (if i < int (length nums) then do {
        a \<leftarrow> iget nums i;
        let target = - a;
        if target < 0 then Some res
        else do {
          res \<leftarrow> three_pairs nums target (i + 1) (int (length nums) - 1) res;
          i \<leftarrow> three_skip nums i;
          three_loop nums (i + 1) res } }
      else Some res)"

definition threeSum :: "int list \<Rightarrow> int list list option" where
  "threeSum nums = (let nums = sort nums in three_loop nums 0 [])"

lemma same_up_ok:
  "0 \<le> l \<Longrightarrow> l \<le> r \<Longrightarrow> r < int (length xs) \<Longrightarrow>
   \<exists>l'. same_up xs v l r = Some l' \<and> l \<le> l' \<and> l' \<le> r \<and> (\<forall>i. l \<le> i \<and> i < l' \<longrightarrow> xs ! nat i = v) \<and> (l' = r \<or> xs ! nat l' \<noteq> v)"
proof (induction "nat (r - l)" arbitrary: l rule: less_induct)
  case less
  have g: "iget xs l = Some (xs ! nat l)" using less(2-4) by (intro iget_ok) auto
  show ?case
  proof (cases "xs ! nat l = v \<and> l < r")
    case True
    then obtain l' where "same_up xs v (l + 1) r = Some l'" "l + 1 \<le> l'" "l' \<le> r"
      "\<forall>i. l + 1 \<le> i \<and> i < l' \<longrightarrow> xs ! nat i = v" "l' = r \<or> xs ! nat l' \<noteq> v"
      using less(1) [of "l + 1"] less(2-4) by auto
    moreover from this have "xs ! nat i = v" if "l \<le> i" "i < l'" for i using that True by (cases "i = l") auto
    ultimately show ?thesis using True g by (subst same_up.simps) auto
  next
    case False
    then show ?thesis using g less(2-4) by (subst same_up.simps) auto
  qed
qed

lemma same_down_ok:
  "0 \<le> l \<Longrightarrow> l \<le> r \<Longrightarrow> r < int (length xs) \<Longrightarrow>
   \<exists>r'. same_down xs v l r = Some r' \<and> l \<le> r' \<and> r' \<le> r \<and> (\<forall>i. r' < i \<and> i \<le> r \<longrightarrow> xs ! nat i = v) \<and> (r' = l \<or> xs ! nat r' \<noteq> v)"
proof (induction "nat (r - l)" arbitrary: r rule: less_induct)
  case less
  have g: "iget xs r = Some (xs ! nat r)" using less(2-4) by (intro iget_ok) auto
  show ?case
  proof (cases "xs ! nat r = v \<and> l < r")
    case True
    then obtain r' where "same_down xs v l (r - 1) = Some r'" "l \<le> r'" "r' \<le> r - 1"
      "\<forall>i. r' < i \<and> i \<le> r - 1 \<longrightarrow> xs ! nat i = v" "r' = l \<or> xs ! nat r' \<noteq> v"
      using less(1) [of "r - 1"] less(2-4) by auto
    moreover from this have "xs ! nat i = v" if "r' < i" "i \<le> r" for i using that True by (cases "i = r") auto
    ultimately show ?thesis using True g by (subst same_down.simps) auto
  next
    case False
    then show ?thesis using g less(2-4) by (subst same_down.simps) auto
  qed
qed

definition pairs_in :: "int list \<Rightarrow> int \<Rightarrow> int \<Rightarrow> int \<Rightarrow> int list set" where
  "pairs_in xs t l r = {[- t, xs ! nat i, xs ! nat j] | i j. l \<le> i \<and> i < j \<and> j \<le> r \<and> xs ! nat i + xs ! nat j = t}"

lemma pairs_in_shrink:
  assumes "l \<le> l'" and "r' \<le> r"
    and "\<And>i j. l \<le> i \<Longrightarrow> i < j \<Longrightarrow> j \<le> r \<Longrightarrow> i < l' \<or> r' < j \<Longrightarrow> xs ! nat i + xs ! nat j = t \<Longrightarrow> [- t, xs ! nat i, xs ! nat j] \<in> X"
  shows "pairs_in xs t l r \<union> X = pairs_in xs t l' r' \<union> X"
proof -
  have "p \<in> pairs_in xs t l' r' \<union> X" if pp: "p \<in> pairs_in xs t l r" for p
  proof -
    obtain i j where p: "p = [- t, xs ! nat i, xs ! nat j]" "l \<le> i" "i < j" "j \<le> r" "xs ! nat i + xs ! nat j = t"
      using pp by (auto simp: pairs_in_def)
    show ?thesis
    proof (cases "i < l' \<or> r' < j")
      case True
      then show ?thesis using assms(3) [OF p(2-4) True p(5)] p(1) by simp
    next
      case False
      then have "l' \<le> i" "j \<le> r'" by auto
      then show ?thesis using p by (auto simp: pairs_in_def)
    qed
  qed
  moreover have "pairs_in xs t l' r' \<subseteq> pairs_in xs t l r" using assms(1,2) by (fastforce simp: pairs_in_def)
  ultimately show ?thesis by blast
qed

lemma three_pairs_ok:
  "sorted xs \<Longrightarrow> 0 \<le> l \<Longrightarrow> r < int (length xs) \<Longrightarrow>
   \<exists>ps. three_pairs xs t l r res = Some (res @ ps) \<and> distinct ps \<and> set ps = pairs_in xs t l r"
proof (induction "nat (r - l)" arbitrary: l r res rule: less_induct)
  case less
  let ?a = "xs ! nat l" and ?b = "xs ! nat r"
  consider "\<not> l < r" | "l < r" "?a + ?b < t" | "l < r" "t < ?a + ?b" | "l < r" "?a + ?b = t" by linarith
  then show ?case
  proof cases
    case 1
    then have "three_pairs xs t l r res = Some (res @ [])" by (subst three_pairs.simps) simp
    moreover have "pairs_in xs t l r = {}" using 1 by (auto simp: pairs_in_def)
    ultimately show ?thesis by (intro exI [of _ "[]"]) simp
  next
    case 2
    then have e: "three_pairs xs t l r res = three_pairs xs t (l + 1) r res" using less(3,4)
      by (subst three_pairs.simps) (simp add: iget_ok)
    have "xs ! nat i + xs ! nat j \<noteq> t" if "l \<le> i" "i < j" "j \<le> r" "i < l + 1 \<or> r < j" for i j
      using sorted_iget_mono [OF less(2), of j r] that less(3,4) 2 by (cases "i = l") auto
    then have "pairs_in xs t l r \<union> {} = pairs_in xs t (l + 1) r \<union> {}" by (intro pairs_in_shrink) auto
    then show ?thesis unfolding e using less(1) [of r "l + 1" res] less(2-4) 2 by simp
  next
    case 3
    then have e: "three_pairs xs t l r res = three_pairs xs t l (r - 1) res" using less(3,4)
      by (subst three_pairs.simps) (simp add: iget_ok)
    have "xs ! nat i + xs ! nat j \<noteq> t" if "l \<le> i" "i < j" "j \<le> r" "i < l \<or> r - 1 < j" for i j
      using sorted_iget_mono [OF less(2), of l i] that less(3,4) 3 by (cases "j = r") auto
    then have "pairs_in xs t l r \<union> {} = pairs_in xs t l (r - 1) \<union> {}" by (intro pairs_in_shrink) auto
    then show ?thesis unfolding e using less(1) [of "r - 1" l res] less(2-4) 3 by simp
  next
    case 4
    let ?p = "[- t, ?a, ?b]"
    obtain l' where l': "same_up xs ?a l r = Some l'" "l \<le> l'" "l' \<le> r" "\<forall>i. l \<le> i \<and> i < l' \<longrightarrow> xs ! nat i = ?a"
      "l' = r \<or> xs ! nat l' \<noteq> ?a" using same_up_ok [of l r xs ?a] less(3,4) 4 by auto
    obtain r' where r': "same_down xs ?b l' r = Some r'" "l' \<le> r'" "r' \<le> r" "\<forall>i. r' < i \<and> i \<le> r \<longrightarrow> xs ! nat i = ?b"
      "r' = l' \<or> xs ! nat r' \<noteq> ?b" using same_down_ok [of l' r xs ?b] l' less(3,4) by auto
    have ll: "l < l'" using l'(2,5) 4(1) by (cases "l = l'") auto
    have e: "three_pairs xs t l r res = three_pairs xs t l' r' (res @ [?p])"
      using less(3,4) 4 l'(1) r'(1) by (subst three_pairs.simps) (simp add: iget_ok del: bind_eq_Some)
    have "nat (r' - l') < nat (r - l)" "0 \<le> l'" "r' < int (length xs)" using ll l'(3) r'(3) less(3,4) by auto
    from less(1) [OF this(1) less(2) this(2,3)] obtain ps where
      ps: "three_pairs xs t l' r' (res @ [?p]) = Some ((res @ [?p]) @ ps)" "distinct ps" "set ps = pairs_in xs t l' r'" by blast
    have "[- t, xs ! nat i, xs ! nat j] \<in> {?p}" if "l \<le> i" "i < j" "j \<le> r" "i < l' \<or> r' < j" "xs ! nat i + xs ! nat j = t" for i j
    proof (cases "i < l'")
      case True
      then have "xs ! nat i = ?a" using l'(4) that(1) by blast
      then show ?thesis using that(5) 4(2) by simp
    next
      case False
      then have "xs ! nat j = ?b" using r'(4) that(3,4) by blast
      then show ?thesis using that(5) 4(2) by simp
    qed
    then have "pairs_in xs t l r \<union> {?p} = pairs_in xs t l' r' \<union> {?p}" using l'(2) r'(3) by (intro pairs_in_shrink) auto
    moreover have "?p \<in> pairs_in xs t l r" using 4 unfolding pairs_in_def by blast
    ultimately have set: "pairs_in xs t l r = set (?p # ps)"
      using ps(3) by (metis Un_insert_right insert_absorb list.simps(15) sup_bot.right_neutral)
    have "?p \<notin> pairs_in xs t l' r'"
    proof
      assume "?p \<in> pairs_in xs t l' r'"
      then obtain i j where ij: "l' \<le> i" "i < j" "j \<le> r'" "xs ! nat i = ?a" by (auto simp: pairs_in_def)
      then have "xs ! nat l' \<noteq> ?a" using l'(5) r'(3) by auto
      moreover have "?a \<le> xs ! nat l'" using sorted_iget_mono [OF less(2), of l l'] less(3,4) ll l'(3) by auto
      moreover have "xs ! nat l' \<le> xs ! nat i" using sorted_iget_mono [OF less(2), of l' i] less(3,4) ll ij r'(3) by auto
      ultimately show False using ij(4) by linarith
    qed
    then show ?thesis unfolding e ps(1) set using ps(2,3) by (intro exI [of _ "?p # ps"]) simp
  qed
qed

lemma three_skip_ok:
  "0 \<le> i \<Longrightarrow> i < int (length xs) \<Longrightarrow> \<exists>i'. three_skip xs i = Some i' \<and> i \<le> i' \<and> i' < int (length xs) \<and>
     (\<forall>p. i \<le> p \<and> p \<le> i' \<longrightarrow> xs ! nat p = xs ! nat i) \<and> (i' + 1 < int (length xs) \<longrightarrow> xs ! nat (i' + 1) \<noteq> xs ! nat i)"
proof (induction "nat (int (length xs) - i)" arbitrary: i rule: less_induct)
  case less
  show ?case
  proof (cases "i \<noteq> int (length xs) - 1 \<and> xs ! nat i = xs ! nat (i + 1)")
    case True
    then have "nat (int (length xs) - (i + 1)) < nat (int (length xs) - i)" "0 \<le> i + 1" "i + 1 < int (length xs)" using less(2,3) by auto
    from less(1) [OF this] obtain i' where i': "three_skip xs (i + 1) = Some i'" "i + 1 \<le> i'" "i' < int (length xs)"
      "\<forall>p. i + 1 \<le> p \<and> p \<le> i' \<longrightarrow> xs ! nat p = xs ! nat (i + 1)" "i' + 1 < int (length xs) \<longrightarrow> xs ! nat (i' + 1) \<noteq> xs ! nat (i + 1)" by blast
    have "xs ! nat p = xs ! nat i" if "i \<le> p" "p \<le> i'" for p
    proof (cases "p = i")
      case False
      then have "i + 1 \<le> p \<and> p \<le> i'" using that by simp
      then have "xs ! nat p = xs ! nat (i + 1)" using i'(4) by blast
      then show ?thesis using True by simp
    qed simp
    moreover have "three_skip xs i = Some i'" using i'(1) True less(2,3) by (subst three_skip.simps) (simp add: iget_ok)
    moreover have "i' + 1 < int (length xs) \<longrightarrow> xs ! nat (i' + 1) \<noteq> xs ! nat i" using i'(5) True by simp
    moreover have "i \<le> i'" using i'(2) by simp
    ultimately show ?thesis using i'(3) by blast
  next
    case False
    then have "three_skip xs i = Some i" using less(2,3) by (subst three_skip.simps) (auto simp: iget_ok)
    moreover have "xs ! nat p = xs ! nat i" if "i \<le> p \<and> p \<le> i" for p using that by (metis order_antisym)
    moreover have "i + 1 < int (length xs) \<longrightarrow> xs ! nat (i + 1) \<noteq> xs ! nat i" using False by auto
    ultimately show ?thesis using less(3) by blast
  qed
qed

definition triples :: "int list \<Rightarrow> int \<Rightarrow> int list set" where
  "triples xs i = {[xs ! nat p, xs ! nat q, xs ! nat s] | p q s. i \<le> p \<and> p < q \<and> q < s \<and> s < int (length xs) \<and>
     xs ! nat p + xs ! nat q + xs ! nat s = 0}"

lemma three_loop_ok:
  "sorted xs \<Longrightarrow> 0 \<le> i \<Longrightarrow> \<exists>ts. three_loop xs i res = Some (res @ ts) \<and> distinct ts \<and> set ts = triples xs i"
proof (induction "nat (int (length xs) - i)" arbitrary: i res rule: less_induct)
  case less
  let ?n = "int (length xs)" and ?a = "xs ! nat i"
  show ?case
  proof (cases "i < ?n \<and> ?a \<le> 0")
    case False
    then have "three_loop xs i res = Some (res @ [])" using less(3) by (subst three_loop.simps) (auto simp: iget_ok Let_def)
    moreover have "xs ! nat p + xs ! nat q + xs ! nat s \<noteq> 0" if "i \<le> p" "p < q" "q < s" "s < ?n" for p q s
      using sorted_iget_mono [OF less(2), of i p] sorted_iget_mono [OF less(2), of i q] sorted_iget_mono [OF less(2), of i s] that less(3) False
      by auto
    then have "triples xs i = {}" by (auto simp: triples_def)
    ultimately show ?thesis by (intro exI [of _ "[]"]) simp
  next
    case True
    obtain ps where ps: "three_pairs xs (- ?a) (i + 1) (?n - 1) res = Some (res @ ps)" "distinct ps"
      "set ps = pairs_in xs (- ?a) (i + 1) (?n - 1)" using three_pairs_ok [OF less(2), of "i + 1" "?n - 1" "- ?a" res] less(3) by auto
    obtain i' where i': "three_skip xs i = Some i'" "i \<le> i'" "i' < ?n" "\<forall>p. i \<le> p \<and> p \<le> i' \<longrightarrow> xs ! nat p = ?a"
      "i' + 1 < ?n \<longrightarrow> xs ! nat (i' + 1) \<noteq> ?a" using three_skip_ok [OF less(3)] True by blast
    obtain ts where ts: "three_loop xs (i' + 1) (res @ ps) = Some ((res @ ps) @ ts)" "distinct ts" "set ts = triples xs (i' + 1)"
      using less(1) [of "i' + 1" "res @ ps"] less(2,3) i'(2,3) by auto
    have e: "three_loop xs i res = Some (res @ (ps @ ts))"
      using True less(3) ps(1) i'(1) ts(1) by (subst three_loop.simps) (simp add: iget_ok Let_def del: bind_eq_Some)
    have gt: "?a < xs ! nat p" if "i' + 1 \<le> p" "p < ?n" for p
    proof -
      have "?a \<le> xs ! nat (i' + 1)" "xs ! nat (i' + 1) \<le> xs ! nat p" using sorted_iget_mono [OF less(2)] less(3) i'(2) that by auto
      then show ?thesis using i'(5) that by auto
    qed
    have "hd x = ?a" if "x \<in> set ps" for x using that ps(3) by (auto simp: pairs_in_def)
    moreover have "hd x \<noteq> ?a" if "x \<in> set ts" for x using that ts(3) gt by (force simp: triples_def)
    ultimately have "distinct (ps @ ts)" using ps(2) ts(2) by auto
    moreover have "triples xs i = pairs_in xs (- ?a) (i + 1) (?n - 1) \<union> triples xs (i' + 1)"
    proof (intro equalityI subsetI)
      fix x assume "x \<in> triples xs i"
      then obtain p q s where x: "x = [xs ! nat p, xs ! nat q, xs ! nat s]" "i \<le> p" "p < q" "q < s" "s < ?n"
        "xs ! nat p + xs ! nat q + xs ! nat s = 0" by (auto simp: triples_def)
      show "x \<in> pairs_in xs (- ?a) (i + 1) (?n - 1) \<union> triples xs (i' + 1)"
      proof (cases "p \<le> i'")
        case True
        then have pa: "xs ! nat p = ?a" using i'(4) x(2) by blast
        then have "x = [- (- ?a), xs ! nat q, xs ! nat s]" "i + 1 \<le> q" "s \<le> ?n - 1" "xs ! nat q + xs ! nat s = - ?a" using x by auto
        then show ?thesis using x(4) unfolding pairs_in_def by blast
      next
        case False
        then have "i' + 1 \<le> p" by simp
        then show ?thesis using x unfolding triples_def by blast
      qed
    next
      fix x assume "x \<in> pairs_in xs (- ?a) (i + 1) (?n - 1) \<union> triples xs (i' + 1)"
      then show "x \<in> triples xs i"
      proof
        assume "x \<in> pairs_in xs (- ?a) (i + 1) (?n - 1)"
        then obtain q s where "x = [?a, xs ! nat q, xs ! nat s]" "i < q" "q < s" "s < ?n" "?a + xs ! nat q + xs ! nat s = 0"
          by (auto simp: pairs_in_def)
        then show ?thesis unfolding triples_def by blast
      next
        assume "x \<in> triples xs (i' + 1)"
        then show ?thesis using i'(2) unfolding triples_def by force
      qed
    qed
    ultimately show ?thesis using e ps(3) ts(3) by (intro exI [of _ "ps @ ts"]) simp
  qed
qed

text \<open>\<open>threeSum\<close> lists every triple of elements with the sum 0 once.\<close>

theorem threeSum_correct:
  "\<exists>res. threeSum nums = Some res \<and> distinct res \<and> set res = triples (sort nums) 0"
  using three_loop_ok [of "sort nums" 0 "[]"] by (simp add: threeSum_def)

section \<open>The first missing positive number (leetcode/other/firstMissingPositive.cc)\<close>

partial_function (option) place_loop :: "nat \<Rightarrow> int list \<Rightarrow> int list option" where
  "place_loop i nums = do {
     v \<leftarrow> vget nums i;
     if v > 0 \<and> v \<le> int (length nums) then do {
       w \<leftarrow> vget nums (nat (v - 1));
       if v \<noteq> w then place_loop i (nums[i := w, nat (v - 1) := v]) else Some nums }
     else Some nums }"

fun first_gap :: "int list \<Rightarrow> int \<Rightarrow> int" where
  "first_gap [] i = i + 1"
| "first_gap (x # xs) i = (if x \<noteq> i + 1 then i + 1 else first_gap xs (i + 1))"

definition firstMissingPositive :: "int list \<Rightarrow> int option" where
  "firstMissingPositive nums = do { nums \<leftarrow> for_each [0..<length nums] place_loop nums; Some (first_gap nums 0) }"

text \<open>An element is settled if it is out of range or a copy of it is at its place.\<close>

definition settled :: "int list \<Rightarrow> nat \<Rightarrow> bool" where
  "settled xs j \<longleftrightarrow> (0 < xs ! j \<and> xs ! j \<le> int (length xs) \<longrightarrow> xs ! nat (xs ! j - 1) = xs ! j)"

text \<open>Every swap puts one more number at its place.\<close>

definition misplaced :: "int list \<Rightarrow> nat set" where
  "misplaced xs = {j. j < length xs \<and> xs ! j \<noteq> int j + 1}"

lemma place_loop_ok:
  "i < length xs \<Longrightarrow> (\<forall>j < i. settled xs j) \<Longrightarrow>
   \<exists>ys. place_loop i xs = Some ys \<and> mset ys = mset xs \<and> (\<forall>j \<le> i. settled ys j)"
proof (induction "card (misplaced xs)" arbitrary: xs rule: less_induct)
  case less
  let ?v = "xs ! i"
  show ?case
  proof (cases "settled xs i")
    case True
    then have "place_loop i xs = Some xs" using less(2)
      by (subst place_loop.simps) (auto simp: vget_def settled_def nat_less_iff)
    then show ?thesis using True less(3) by (auto simp: le_less)
  next
    case False
    define k where "k = nat (?v - 1)"
    let ?w = "xs ! k"
    have k: "0 < ?v" "k < length xs" "?v = int k + 1" "?w \<noteq> ?v" using False by (auto simp: settled_def k_def)
    then have ik: "i \<noteq> k" by auto
    let ?ys = "xs[i := ?w, k := ?v]"
    have step: "place_loop i xs = place_loop i ?ys"
      using k less(2) by (subst place_loop.simps) (simp add: vget_def k_def [symmetric])
    have nth: "?ys ! j = (if j = k then ?v else if j = i then ?w else xs ! j)" for j
      using k(2) less(2) by (simp add: nth_list_update)
    have "misplaced ?ys \<subset> misplaced xs"
    proof
      show "misplaced ?ys \<subseteq> misplaced xs" using nth k ik less(2) by (auto simp: misplaced_def)
      show "misplaced ?ys \<noteq> misplaced xs" using nth k by (auto simp: misplaced_def set_eq_iff intro!: exI [of _ k])
    qed
    then have "card (misplaced ?ys) < card (misplaced xs)" by (intro psubset_card_mono) (simp_all add: misplaced_def)
    moreover have "settled ?ys j" if j: "j < i" for j
    proof (cases "j = k")
      case True
      then show ?thesis using k nth by (auto simp: settled_def)
    next
      case jk: False
      then have yj: "?ys ! j = xs ! j" using nth j by simp
      show ?thesis unfolding settled_def length_list_update yj
      proof
        assume r: "0 < xs ! j \<and> xs ! j \<le> int (length xs)"
        let ?q = "nat (xs ! j - 1)"
        have h: "xs ! ?q = xs ! j" using less(3) j r by (auto simp: settled_def)
        have "?q \<noteq> k" using k(3,4) h r by auto
        moreover have "?q \<noteq> i" using k(3) ik h r by auto
        ultimately show "?ys ! ?q = xs ! j" using nth h by simp
      qed
    qed
    ultimately obtain ys where "place_loop i ?ys = Some ys" "mset ys = mset ?ys" "\<forall>j \<le> i. settled ys j"
      using less(1) [of ?ys] less(2) by auto
    moreover have "mset ?ys = mset xs" using mset_swap [OF less(2) k(2)] by (simp add: list_update_swap [OF ik])
    ultimately show ?thesis unfolding step by auto
  qed
qed

lemma first_gap_ok:
  "first_gap xs i > i \<and> first_gap xs i \<le> i + int (length xs) + 1 \<and>
   (\<forall>j < length xs. i + int j + 1 < first_gap xs i \<longrightarrow> xs ! j = i + int j + 1) \<and>
   (first_gap xs i \<le> i + int (length xs) \<longrightarrow> xs ! nat (first_gap xs i - i - 1) \<noteq> first_gap xs i)"
proof (induction xs arbitrary: i)
  case (Cons x xs)
  show ?case
  proof (cases "x = i + 1")
    case True
    note IH = Cons [of "i + 1"]
    let ?g = "first_gap xs (i + 1)"
    have "(x # xs) ! j = i + int j + 1" if "j < length (x # xs)" "i + int j + 1 < ?g" for j
      using IH that True by (cases j) auto
    moreover have "(x # xs) ! nat (?g - i - 1) \<noteq> ?g" if "?g \<le> i + int (length (x # xs))"
    proof -
      have "nat (?g - i - 1) = Suc (nat (?g - (i + 1) - 1))" using IH by linarith
      then show ?thesis using IH that by simp
    qed
    ultimately show ?thesis using True IH by auto
  next
    case False
    then show ?thesis by auto
  qed
qed simp

text \<open>The result is the least positive number that does not occur.\<close>

theorem firstMissingPositive_correct:
  "\<exists>m. firstMissingPositive nums = Some m \<and> 0 < m \<and> m \<notin> set nums \<and> (\<forall>k. 0 < k \<and> k < m \<longrightarrow> k \<in> set nums)"
proof -
  let ?I = "\<lambda>i ys. mset ys = mset nums \<and> (\<forall>j < i. settled ys j)"
  have "\<exists>ys. for_each [0..<length nums] place_loop nums = Some ys \<and> ?I (length nums) ys"
  proof (rule for_upt)
    fix i ys assume i: "i < length nums" "?I i ys"
    then have "i < length ys" by (metis size_mset)
    then show "\<exists>zs. place_loop i ys = Some zs \<and> ?I (Suc i) zs" using place_loop_ok [of i ys] i(2) by (auto simp: less_Suc_eq_le)
  qed simp_all
  then obtain ys where ys: "for_each [0..<length nums] place_loop nums = Some ys" "mset ys = mset nums" "\<forall>j < length nums. settled ys j"
    by blast
  have len: "length ys = length nums" and set: "set ys = set nums" using ys(2) by (metis size_mset, metis set_mset_mset)
  let ?m = "first_gap ys 0"
  have g: "0 < ?m" "?m \<le> int (length ys) + 1" "\<And>j. j < length ys \<Longrightarrow> int j + 1 < ?m \<Longrightarrow> ys ! j = int j + 1"
    "?m \<le> int (length ys) \<Longrightarrow> ys ! nat (?m - 1) \<noteq> ?m" using first_gap_ok [of 0 ys] by auto
  have "?m \<notin> set ys"
  proof
    assume "?m \<in> set ys"
    then obtain j where j: "j < length ys" "ys ! j = ?m" by (auto simp: in_set_conv_nth)
    show False
    proof (cases "?m \<le> int (length ys)")
      case True
      then have "ys ! nat (?m - 1) = ?m" using ys(3) len j g(1) by (auto simp: settled_def)
      then show False using g(4) True by simp
    next
      case False
      then have "ys ! j = int j + 1" using g(2,3) j(1) by simp
      then show False using j False by simp
    qed
  qed
  moreover have "k \<in> set ys" if "0 < k" "k < ?m" for k
  proof -
    have "nat (k - 1) < length ys" "ys ! nat (k - 1) = k" using g(3) [of "nat (k - 1)"] g(2) that by auto
    then show ?thesis by (metis nth_mem)
  qed
  ultimately show ?thesis using ys(1) g(1) set by (auto simp: firstMissingPositive_def)
qed

end
