(* ===== verification/Utilities.thy ===== *)
theory Utilities
  imports Tables Complex_Main
begin

unbundle bit_operations_syntax

section \<open>Copying memory (utils/memcpy.cc)\<close>

text \<open>
  Memory is a map from addresses to bytes; reading or writing an address outside its domain is
  undefined. A pointer is an address or null, and \<open>char\<close> pointers step over integers, as
  the last step of the backward loop leaves the buffer.
\<close>

type_synonym bytes = "int \<rightharpoonup> 8 word"

definition read_byte :: "bytes \<Rightarrow> int \<Rightarrow> 8 word option" where
  "read_byte m a = m a"

definition write_byte :: "int \<Rightarrow> 8 word \<Rightarrow> bytes \<Rightarrow> bytes option" where
  "write_byte a b m = (if m a = None then None else Some (m(a \<mapsto> b)))"

fun copy_backward :: "nat \<Rightarrow> int \<Rightarrow> int \<Rightarrow> bytes \<Rightarrow> bytes option" where
  "copy_backward 0 pdest psrc m = Some m"
| "copy_backward (Suc cnt) pdest psrc m = do {
     b \<leftarrow> read_byte m psrc;
     m \<leftarrow> write_byte pdest b m;
     copy_backward cnt (pdest - 1) (psrc - 1) m }"

fun copy_forth :: "nat \<Rightarrow> int \<Rightarrow> int \<Rightarrow> bytes \<Rightarrow> bytes option" where
  "copy_forth 0 pdest psrc m = Some m"
| "copy_forth (Suc cnt) pdest psrc m = do {
     b \<leftarrow> read_byte m psrc;
     m \<leftarrow> write_byte pdest b m;
     copy_forth cnt (pdest + 1) (psrc + 1) m }"

definition memcpy2 :: "int option \<Rightarrow> int option \<Rightarrow> nat \<Rightarrow> bytes \<Rightarrow> (int option \<times> bytes) option" where
  "memcpy2 dest src cnt m = (case (dest, src) of
     (Some d, Some s) \<Rightarrow>
       if s < d \<and> s + int cnt > d
       then do { m \<leftarrow> copy_backward cnt (d + int cnt - 1) (s + int cnt - 1) m; Some (dest, m) }
       else do { m \<leftarrow> copy_forth cnt d s m; Some (dest, m) }
   | _ \<Rightarrow> Some (None, m))"

definition mapped :: "bytes \<Rightarrow> int \<Rightarrow> nat \<Rightarrow> bool" where
  "mapped m a n \<longleftrightarrow> (\<forall>x. a \<le> x \<and> x < a + int n \<longrightarrow> m x \<noteq> None)"

lemma mappedD: "mapped m a n \<Longrightarrow> a \<le> x \<Longrightarrow> x < a + int n \<Longrightarrow> \<exists>y. m x = Some y"
  by (auto simp: mapped_def)

text \<open>The memory after the bytes at \<open>s\<close> have been moved to \<open>d\<close>.\<close>

definition moved :: "int \<Rightarrow> int \<Rightarrow> nat \<Rightarrow> bytes \<Rightarrow> bytes" where
  "moved d s n m = (\<lambda>a. if d \<le> a \<and> a < d + int n then m (s + (a - d)) else m a)"

lemma moved_0 [simp]: "moved d s 0 m = m"
  by (rule ext) (auto simp: moved_def)

lemma copy_backward_ok:
  "s < d \<Longrightarrow> mapped m s n \<Longrightarrow> mapped m d n \<Longrightarrow> copy_backward n (d + int n - 1) (s + int n - 1) m = Some (moved d s n m)"
proof (induction n arbitrary: m)
  case (Suc n)
  let ?a = "d + int (Suc n) - 1" and ?b = "s + int (Suc n) - 1"
  obtain x y where xy: "m ?a = Some x" "m ?b = Some y"
    using mappedD [OF Suc(4), of ?a] mappedD [OF Suc(3), of ?b] by auto
  let ?m = "m(?a \<mapsto> y)"
  have "copy_backward n (d + int n - 1) (s + int n - 1) ?m = Some (moved d s n ?m)"
    using Suc by (intro Suc(1)) (auto simp: mapped_def)
  moreover have "moved d s n ?m = moved d s (Suc n) m"
    using Suc(2) xy by (intro ext) (auto simp: moved_def algebra_simps)
  ultimately show ?case using xy by (simp add: read_byte_def write_byte_def algebra_simps)
qed simp

lemma copy_forth_ok:
  "d \<le> s \<or> s + int n \<le> d \<Longrightarrow> mapped m s n \<Longrightarrow> mapped m d n \<Longrightarrow> copy_forth n d s m = Some (moved d s n m)"
proof (induction n arbitrary: m d s)
  case (Suc n)
  obtain x y where xy: "m d = Some x" "m s = Some y"
    using mappedD [OF Suc(4), of d] mappedD [OF Suc(3), of s] by auto
  let ?m = "m(d \<mapsto> y)"
  have "copy_forth n (d + 1) (s + 1) ?m = Some (moved (d + 1) (s + 1) n ?m)"
    using Suc(2-) by (intro Suc(1)) (auto simp: mapped_def)
  moreover have "moved (d + 1) (s + 1) n ?m = moved d s (Suc n) m"
    using Suc(2) xy by (intro ext) (auto simp: moved_def algebra_simps)
  ultimately show ?case using xy by (simp add: read_byte_def write_byte_def)
qed simp

text \<open>
  Whether or not the two buffers overlap, the destination receives the bytes that the source held
  at the call, nothing else changes, and the destination is returned; a null pointer changes nothing.
\<close>

theorem memcpy2_moves:
  assumes "mapped m s n" and "mapped m d n"
  shows "memcpy2 (Some d) (Some s) n m = Some (Some d, moved d s n m) \<and>
    memcpy2 None src n m = Some (None, m) \<and> memcpy2 dest None n m = Some (None, m)"
  using copy_backward_ok [of s d m n] copy_forth_ok [of d s n m] assms
  by (auto simp: memcpy2_def not_less split: option.split)

theorem memcpy2_moves_witness:
  "map_option (\<lambda>(d, m). (d, map m [0..3])) (memcpy2 (Some 1) (Some 0) 3 (map_of [(0, 10), (1, 11), (2, 12), (3, 13)])) =
    Some (Some 1, [Some 10, Some 10, Some 11, Some 12])"
proof -
  let ?m = "map_of [(0, 10), (1, 11), (2, 12), (3, 13 :: 8 word)] :: bytes"
  have m: "mapped ?m 0 3" "mapped ?m 1 3" by (auto simp: mapped_def)
  show ?thesis using memcpy2_moves [OF m] by (simp add: moved_def upto.simps)
qed

section \<open>Binomial coefficients (utils/numCombination.cc)\<close>

text \<open>
  The product is a \<open>long\<close>: a product that does not fit is undefined, \<open>None\<close>. The result is
  narrowed to \<open>int\<close>.
\<close>

definition mul_long :: "int \<Rightarrow> int \<Rightarrow> int option" where
  "mul_long a b = (if - (2 ^ 63) \<le> a * b \<and> a * b < 2 ^ 63 then Some (a * b) else None)"

definition ncr_step :: "int \<Rightarrow> int \<Rightarrow> int \<Rightarrow> int option" where
  "ncr_step n k res = do { res \<leftarrow> mul_long res (n - k + 1); Some (cdiv res k) }"

function NCR :: "int \<Rightarrow> int \<Rightarrow> int option" where
  "NCR n r = (
     if r = 0 then Some 1
     else if r > cdiv n 2 then NCR n (n - r)
     else do { res \<leftarrow> for_each (map int [1..<nat r + 1]) (ncr_step n) 1; Some (to_int32 res) })"
  by pat_completeness auto
termination
  by (relation "measure (\<lambda>(n, r). if r > cdiv n 2 then 1 else 0)") (auto simp: cdiv_def sgn_if split: if_splits)

declare NCR.simps [simp del]

definition ncr_cell :: "nat \<Rightarrow> nat \<Rightarrow> int list list \<Rightarrow> int list list option" where
  "ncr_cell i j t = do { a \<leftarrow> tget t (i - 1) j; b \<leftarrow> tget t (i - 1) (j - 1); tset t i j (a + b) }"

definition ncr :: "nat \<Rightarrow> int list list option" where
  "ncr n = for_each [1..<n + 1] (\<lambda>i. for_each [1..<i] (ncr_cell i)) (replicate (n + 1) (replicate (n + 1) 1))"

lemma binomial_step: "k < n \<Longrightarrow> (n choose k) * (n - k) = (n choose Suc k) * Suc k"
  by (metis binomial_absorb_comp binomial_absorption mult.commute)

lemma choose_bound:
  assumes "n \<le> 61" and "k < n"
  shows "(n choose k) * (n - k) < 2 ^ 63"
proof -
  obtain m where m: "n = Suc m" using assms(2) by (cases n) auto
  have "(n choose k) * (n - k) = n * (m choose k)"
    using binomial_absorb_comp [of n k] m by (simp add: mult.commute)
  also have "m choose k \<le> 60 choose k" using assms(1) m by (intro binomial_right_mono) simp
  also have "60 choose k \<le> 60 choose (60 div 2)" by (rule binomial_maximum)
  finally have "(n choose k) * (n - k) \<le> 61 * (60 choose 30)" using assms(1) by (auto intro: order_trans mult_le_mono)
  also have "61 * (60 choose 30) < (2 :: nat) ^ 63" by (simp add: binomial_fact' fact_numeral)
  finally show ?thesis .
qed

lemma ncr_loop:
  assumes "n \<le> 61" and "r \<le> n"
  shows "for_each (map int [1..<r + 1]) (ncr_step (int n)) 1 = Some (int (n choose r))"
proof -
  have "\<exists>s. for_each [1..<r + 1] (\<lambda>k. ncr_step (int n) (int k)) 1 = Some s \<and> s = int (n choose (r + 1 - 1))"
  proof (rule for_upt [where I = "\<lambda>k s. s = int (n choose (k - 1))"])
    fix k and s :: int assume k: "1 \<le> k" "k < r + 1" and s: "s = int (n choose (k - 1))"
    obtain j where j: "k = Suc j" using k(1) by (cases k) auto
    have "s * (int n - int k + 1) = int ((n choose j) * (n - j))" using s j k assms(2) by (simp add: of_nat_diff)
    moreover have "(n choose j) * (n - j) < 2 ^ 63" using choose_bound [of n j] j k assms by simp
    ultimately have "mul_long s (int n - int k + 1) = Some (int ((n choose j) * (n - j)))"
    proof -
      let ?c = "(n choose j) * (n - j)"
      have "int ?c < 2 ^ 63" using \<open>?c < 2 ^ 63\<close> of_nat_less_iff [of ?c "2 ^ 63", where 'a = int] by simp
      moreover have "- (2 ^ 63) \<le> int ?c" by (rule order_trans [of _ 0]) simp_all
      ultimately show ?thesis unfolding mul_long_def \<open>s * (int n - int k + 1) = int ?c\<close> by simp
    qed
    moreover have "cdiv (int ((n choose j) * (n - j))) (int k) = int (n choose k)"
    proof -
      have e: "(n choose j) * (n - j) = (n choose k) * k" using binomial_step [of j n] j k assms(2) by simp
      show ?thesis unfolding e of_nat_mult using k(1) by (subst cdiv_nonneg) simp_all
    qed
    ultimately show "\<exists>s'. ncr_step (int n) (int k) s = Some s' \<and> s' = int (n choose (Suc k - 1))"
      by (simp add: ncr_step_def)
  qed auto
  then show ?thesis by (simp add: for_each_map del: upt_Suc)
qed

text \<open>
  For \<open>0 \<le> r \<le> n \<le> 61\<close> no product overflows and the result is the binomial coefficient, narrowed to
  an \<open>int\<close>; 61 is the greatest such bound.
\<close>

theorem NCR_correct:
  assumes "r \<le> n" and "n \<le> 61"
  shows "NCR (int n) (int r) = Some (to_int32 (int (n choose r)))"
proof -
  have small: "NCR (int n) (int k) = Some (to_int32 (int (n choose k)))" if k: "k \<le> n div 2" for k
  proof (cases "k = 0")
    case False
    have "\<not> int k > cdiv (int n) 2" using k by (simp add: cdiv_nonneg flip: zdiv_int)
    then show ?thesis using False k ncr_loop [of n k] assms(2) by (subst NCR.simps) (simp del: upt_Suc)
  qed (simp add: NCR.simps)
  show ?thesis
  proof (cases "r \<le> n div 2")
    case False
    then have "int r > cdiv (int n) 2" "r \<noteq> 0" by (simp_all add: cdiv_nonneg flip: zdiv_int)
    then have "NCR (int n) (int r) = NCR (int n) (int (n - r))" using assms(1) by (subst NCR.simps) (simp add: of_nat_diff)
    also have "\<dots> = Some (to_int32 (int (n choose (n - r))))" using False by (intro small) simp
    finally show ?thesis using binomial_symmetric [OF assms(1)] by simp
  qed (rule small)
qed

theorem NCR_correct_witness: "NCR 7 2 = Some 21"
  using NCR_correct [of 2 7] by (simp add: numeral_eq_Suc)

lemma NCR_limits: "NCR 62 31 = None" "NCR 34 17 = Some (- 1961361076)" "NCR 3 5 = Some 1"
  by (simp_all add: NCR.simps cdiv_def ncr_step_def mul_long_def to_int32_def upt_rec sgn_if)

lemma ncr_table:
  "\<exists>t. ncr n = Some t \<and> filled t (n + 1) (n + 1) (\<lambda>i j. if j \<le> i then int (i choose j) else 1) (\<lambda>_ _. True)"
proof -
  let ?g = "\<lambda>i j. if j \<le> i then int (i choose j) else (1 :: int)"
  let ?P = "\<lambda>i a b :: nat. a < i \<or> b = 0 \<or> a \<le> b"
  have "\<exists>t. for_each [1..<n + 1] (\<lambda>i. for_each [1..<i] (ncr_cell i)) (replicate (n + 1) (replicate (n + 1) 1)) = Some t \<and>
      filled t (n + 1) (n + 1) ?g (?P (n + 1))"
  proof (rule for_upt [where I = "\<lambda>i t. filled t (n + 1) (n + 1) ?g (?P i)"])
    show "filled (replicate (n + 1) (replicate (n + 1) 1)) (n + 1) (n + 1) ?g (?P 1)"
      by (rule filled_replicate) (auto simp: binomial_eq_0)
    fix i t assume i: "1 \<le> i" "i < n + 1" and t: "filled t (n + 1) (n + 1) ?g (?P i)"
    have "\<exists>t'. for_each [1..<i] (ncr_cell i) t = Some t' \<and> filled t' (n + 1) (n + 1) ?g (\<lambda>a b. ?P i a b \<or> a = i \<and> b < i)"
    proof (rule for_upt [where I = "\<lambda>j t. filled t (n + 1) (n + 1) ?g (\<lambda>a b. ?P i a b \<or> a = i \<and> b < j)"])
      show "filled t (n + 1) (n + 1) ?g (\<lambda>a b. ?P i a b \<or> a = i \<and> b < 1)" using t by (rule filled_mono) auto
      fix j t assume j: "1 \<le> j" "j < i" and t: "filled t (n + 1) (n + 1) ?g (\<lambda>a b. ?P i a b \<or> a = i \<and> b < j)"
      obtain h k where hk: "i = Suc h" "j = Suc k" using i(1) j(1) by (cases i; cases j) auto
      have "tget t h j = Some (?g h j)" "tget t h k = Some (?g h k)"
        using i j hk filled_tget [OF t, of h j] filled_tget [OF t, of h k] by simp_all
      moreover have "?g h j + ?g h k = ?g i j" using j hk by auto
      ultimately have "ncr_cell i j t = tset t i j (?g i j)" using hk by (simp add: ncr_cell_def)
      moreover have "\<exists>t'. tset t i j (?g i j) = Some t' \<and> filled t' (n + 1) (n + 1) ?g (\<lambda>a b. ?P i a b \<or> a = i \<and> b < Suc j)"
        using i j by (intro filled_tset [OF t]) auto
      ultimately show "\<exists>t'. ncr_cell i j t = Some t' \<and> filled t' (n + 1) (n + 1) ?g (\<lambda>a b. ?P i a b \<or> a = i \<and> b < Suc j)" by simp
    qed (use i in auto)
    then show "\<exists>t'. for_each [1..<i] (ncr_cell i) t = Some t' \<and> filled t' (n + 1) (n + 1) ?g (?P (Suc i))"
      by (auto elim!: filled_mono)
  qed auto
  then show ?thesis unfolding ncr_def by (auto elim!: filled_mono)
qed

section \<open>Looking up an IP range (network/IPrange.cc)\<close>

text \<open>
  \<open>std::lower_bound\<close> on a sorted vector is the number of elements below the needle. Addresses
  are \<open>uint32_t\<close>; only their order matters.
\<close>

record IPrange =
  startIp :: "32 word"
  endIp :: "32 word"
  ip_value :: int

definition ip_less :: "IPrange \<Rightarrow> IPrange \<Rightarrow> bool" where
  "ip_less x rhs \<longleftrightarrow> startIp x < startIp rhs"

definition ip_eq :: "IPrange \<Rightarrow> IPrange \<Rightarrow> bool" where
  "ip_eq x rhs \<longleftrightarrow> startIp x = startIp rhs"

definition lower_bound_by :: "('a \<Rightarrow> 'a \<Rightarrow> bool) \<Rightarrow> 'a list \<Rightarrow> 'a \<Rightarrow> nat" where
  "lower_bound_by below xs needle = length (takeWhile (\<lambda>x. below x needle) xs)"

definition findIpValue :: "IPrange list \<Rightarrow> 32 word \<Rightarrow> int option" where
  "findIpValue ranges ip = (
     let res = -1 in
     if ranges \<noteq> []
     then do {
       let needle = \<lparr>startIp = ip, endIp = 0, ip_value = 0\<rparr>;
       let it = lower_bound_by ip_less ranges needle;
       let back = it = length ranges \<or> it \<noteq> 0 \<and> startIp (ranges ! it) > ip;
       r \<leftarrow> vget ranges (if back then it - 1 else it);
       Some (if startIp r \<le> ip \<and> endIp r \<ge> ip then ip_value r else res) }
     else Some res)"

text \<open>
  Sorted ranges that do not overlap. The program's \<open>main\<close> asserts the first condition
  only, that no two ranges start at the same address.
\<close>

definition ranges_ok :: "IPrange list \<Rightarrow> bool" where
  "ranges_ok ranges \<longleftrightarrow> sorted_wrt (\<lambda>x y. startIp x < startIp y \<and> endIp x < startIp y) ranges"

text \<open>
  On sorted ranges that do not overlap the result is the value of the range that contains the
  address, and -1 when there is none; no iterator leaves the vector.
\<close>

theorem findIpValue_correct:
  assumes ok: "ranges_ok ranges"
  shows "\<exists>v. findIpValue ranges ip = Some v \<and>
    (\<forall>r \<in> set ranges. startIp r \<le> ip \<and> ip \<le> endIp r \<longrightarrow> v = ip_value r) \<and>
    ((\<nexists>r. r \<in> set ranges \<and> startIp r \<le> ip \<and> ip \<le> endIp r) \<longrightarrow> v = -1)"
proof (cases "ranges = []")
  case False
  let ?lt = "\<lambda>r. startIp r < ip" and ?in = "\<lambda>r. startIp r \<le> ip \<and> ip \<le> endIp r"
  define lo hi where lo: "lo = takeWhile ?lt ranges" and hi: "hi = dropWhile ?lt ranges"
  have r: "ranges = lo @ hi" by (simp add: lo hi)
  have small: "\<forall>r \<in> set lo. startIp r < ip" using set_takeWhileD [of _ ?lt ranges] by (auto simp: lo)
  have big: "hi \<noteq> [] \<Longrightarrow> ip \<le> startIp (hd hi)" using hd_dropWhile [of ?lt ranges] by (auto simp: hi not_less)
  have srt: "sorted_wrt (\<lambda>x y. startIp x < startIp y \<and> endIp x < startIp y) lo"
    "sorted_wrt (\<lambda>x y. startIp x < startIp y \<and> endIp x < startIp y) hi" "\<forall>x \<in> set lo. \<forall>y \<in> set hi. endIp x < startIp y"
    using ok unfolding ranges_ok_def r by (auto simp: sorted_wrt_append)
  have low: "\<not> ?in x" if "x \<in> set lo" "x \<noteq> last lo" for x
  proof -
    have "lo = butlast lo @ [last lo]" using that by (cases lo rule: rev_cases) auto
    then have "x \<in> set (butlast lo)" "endIp x < startIp (last lo)" "last lo \<in> set lo"
      using that srt(1) by (metis (no_types, lifting) Un_iff empty_iff empty_set in_set_butlastD insert_iff list.set(2) set_append sorted_wrt_append)+
    then show ?thesis using small by fastforce
  qed
  have high: "\<not> ?in y" if "y \<in> set hi" "y \<noteq> hd hi" for y
  proof -
    have "startIp (hd hi) < startIp y" using that srt(2) by (cases hi) auto
    moreover have "ip \<le> startIp (hd hi)" using that by (intro big) auto
    ultimately have "ip < startIp y" by (rule le_less_trans [rotated])
    then show ?thesis by (simp add: not_le [symmetric])
  qed
  let ?it = "length lo"
  define b where "b \<longleftrightarrow> ?it = length ranges \<or> ?it \<noteq> 0 \<and> startIp (ranges ! ?it) > ip"
  let ?r = "ranges ! (if b then ?it - 1 else ?it)"
  have inr: "(if b then ?it - 1 else ?it) < length ranges" using False r by (cases lo) (auto simp: b_def)
  have f: "findIpValue ranges ip = Some (if startIp ?r \<le> ip \<and> endIp ?r \<ge> ip then ip_value ?r else - 1)"
  proof -
    have "lower_bound_by ip_less ranges \<lparr>startIp = ip, endIp = 0, ip_value = 0\<rparr> = ?it"
      by (simp add: lower_bound_by_def ip_less_def lo)
    then show ?thesis
      unfolding findIpValue_def Let_def using False by (simp only: b_def [symmetric] vget_in [OF inr]) simp
  qed
  have only: "x = ?r" if "x \<in> set ranges" "?in x" for x
  proof (cases "x \<in> set lo")
    case True
    then have x: "x = last lo" using low that by blast
    have "b"
    proof (cases hi)
      case (Cons y ys)
      have "endIp x < startIp y" using srt(3) True Cons by auto
      then have "ip < startIp y" using that(2) by (blast intro: le_less_trans)
      then have "startIp (ranges ! ?it) > ip" using r Cons by (simp add: nth_append)
      then show ?thesis using True by (auto simp: b_def)
    qed (simp add: b_def r)
    then show ?thesis using True x r by (cases lo rule: rev_cases) (auto simp: nth_append)
  next
    case False
    then have h: "x \<in> set hi" using that(1) r by auto
    then have x: "x = hd hi" using high that by blast
    have hne: "hi \<noteq> []" using h by auto
    then have n: "ranges ! ?it = hd hi" "?it \<noteq> length ranges" unfolding r by (auto simp: nth_append hd_conv_nth)
    have "\<not> ip < startIp (hd hi)" using that(2) x by (simp add: not_less)
    then have "\<not> b" unfolding b_def n(1) using n(2) by simp
    then show ?thesis using n(1) x by simp
  qed
  obtain q where q: "findIpValue ranges ip = Some (if startIp q \<le> ip \<and> endIp q \<ge> ip then ip_value q else - 1)"
    "q \<in> set ranges" "\<And>x. x \<in> set ranges \<Longrightarrow> ?in x \<Longrightarrow> x = q"
    by (rule that [OF f nth_mem [OF inr] only])
  show ?thesis
  proof (cases "?in q")
    case True
    then have "findIpValue ranges ip = Some (ip_value q)" using q(1) by simp
    then show ?thesis using True q(2,3) by blast
  next
    case False
    have "findIpValue ranges ip = Some (- 1)" unfolding q(1) if_not_P [OF False] by (rule refl)
    then show ?thesis using False q(3) by blast
  qed
qed (simp add: findIpValue_def)

theorem findIpValue_correct_witness:
  "findIpValue [\<lparr>startIp = 123, endIp = 234, ip_value = 999\<rparr>, \<lparr>startIp = 1000, endIp = 2000, ip_value = 7777\<rparr>] 1500 = Some 7777"
  using findIpValue_correct [of "[\<lparr>startIp = 123, endIp = 234, ip_value = 999\<rparr>, \<lparr>startIp = 1000, endIp = 2000, ip_value = 7777\<rparr>]" 1500]
  by (auto simp: ranges_ok_def)

text \<open>Distinct starts alone are not enough: an inner range hides the rest of the outer one.\<close>

lemma findIpValue_nested:
  "findIpValue [\<lparr>startIp = 10, endIp = 99, ip_value = 1\<rparr>, \<lparr>startIp = 20, endIp = 30, ip_value = 2\<rparr>] 50 = Some (- 1)"
  by (simp add: findIpValue_def lower_bound_by_def ip_less_def vget_def)

section \<open>A generator by line numbers (misc/include/duff_device.h)\<close>

text \<open>
  The static variables \<open>i\<close> and \<open>state\<close>; a call resumes behind the \<open>return\<close> it left by. When
  the loop has ended, control flows off the end of a function that has to return a value.
\<close>

datatype duff_state = At_start | At_return

definition duff_loop :: "int \<Rightarrow> (int \<times> int \<times> duff_state) option" where
  "duff_loop i = (if i < 10 then Some (i, i, At_return) else None)"

definition duff_device_test_function :: "int \<times> duff_state \<Rightarrow> (int \<times> int \<times> duff_state) option" where
  "duff_device_test_function st = (case st of
     (i, At_start) \<Rightarrow> duff_loop 0
   | (i, At_return) \<Rightarrow> duff_loop (i + 1))"

fun duff_calls :: "nat \<Rightarrow> int \<times> duff_state \<Rightarrow> (int list \<times> int \<times> duff_state) option" where
  "duff_calls 0 st = Some ([], st)"
| "duff_calls (Suc n) st = do {
     (r, st) \<leftarrow> duff_device_test_function st;
     (rs, st) \<leftarrow> duff_calls n st;
     Some (r # rs, st) }"

lemma duff_calls_resumed:
  "i + int n \<le> 9 \<Longrightarrow> duff_calls n (i, At_return) = Some (map (\<lambda>k. i + 1 + int k) [0..<n], i + int n, At_return)"
proof (induction n arbitrary: i)
  case (Suc n)
  have "map (\<lambda>k. i + 1 + int k) [0..<Suc n] = (i + 1) # map (\<lambda>k. i + 1 + 1 + int k) [0..<n]"
    by (simp add: upt_conv_Cons map_Suc_upt [symmetric] del: upt_Suc)
  then show ?case using Suc(1) [of "i + 1"] Suc(2) by (simp add: duff_device_test_function_def duff_loop_def del: upt_Suc)
qed simp

text \<open>The first ten calls return 0 to 9, the eleventh has no result.\<close>

lemma duff_device_ten: "n \<le> 10 \<Longrightarrow> \<exists>st. duff_calls n (i, At_start) = Some (map int [0..<n], st)"
proof (cases n)
  case (Suc m)
  assume "n \<le> 10"
  moreover have "map int [0..<Suc m] = 0 # map (\<lambda>k. 0 + 1 + int k) [0..<m]"
    by (simp add: upt_conv_Cons map_Suc_upt [symmetric] del: upt_Suc)
  ultimately show ?thesis
    using duff_calls_resumed [of 0 m] Suc by (simp add: duff_device_test_function_def duff_loop_def del: upt_Suc)
qed simp

lemma duff_device_eleventh: "duff_calls 11 (i, At_start) = None"
  by (simp add: numeral_eq_Suc duff_device_test_function_def duff_loop_def)

section \<open>Sparse matrix (struct/sparseMatrix.cc, misc/struct/sparse_matrix.h)\<close>

text \<open>
  A dictionary of keys. The hash of an \<open>int\<close> belongs to the standard library and is the parameter
  \<open>hasher\<close>; the map finds a key whatever its hash is.
\<close>

record SparseMatrix =
  hashMap :: "int \<times> int \<rightharpoonup> int"

definition matrix_get :: "SparseMatrix \<Rightarrow> int \<times> int \<Rightarrow> int" where
  "matrix_get m key = (case hashMap m key of None \<Rightarrow> 0 | Some v \<Rightarrow> v)"

definition matrix_update :: "int \<times> int \<Rightarrow> int \<Rightarrow> SparseMatrix \<Rightarrow> bool \<times> SparseMatrix" where
  "matrix_update key v m = (True, m\<lparr>hashMap := (hashMap m)(key \<mapsto> v)\<rparr>)"

definition hash_combine :: "('a \<Rightarrow> 64 word) \<Rightarrow> 64 word \<Rightarrow> 'a \<Rightarrow> 64 word" where
  "hash_combine hasher seed t = seed XOR (hasher t + 0x9e3779b9 + push_bit 6 seed + drop_bit 2 seed)"

definition pair_hash :: "(int \<Rightarrow> 64 word) \<Rightarrow> int \<times> int \<Rightarrow> 64 word" where
  "pair_hash hasher p = (let seed = hasher (fst p) in hash_combine hasher seed (snd p))"

lemma matrix_get_update: "matrix_get (snd (matrix_update key v m)) k = (if k = key then v else matrix_get m k)"
  by (simp add: matrix_get_def matrix_update_def)

text \<open>Keys of one row collide only if the hashes of their columns do.\<close>

lemma xor_cancel_left: "(a :: 64 word) XOR b = a XOR c \<Longrightarrow> b = c"
proof -
  assume "a XOR b = a XOR c"
  then have "a XOR (a XOR b) = a XOR (a XOR c)" by (rule arg_cong)
  then show "b = c" by (simp only: xor.assoc [symmetric] bit.xor_self xor.left_neutral)
qed

lemma pair_hash_row: "pair_hash hasher (i, j) = pair_hash hasher (i, k) \<longleftrightarrow> hasher j = hasher k"
proof
  assume "pair_hash hasher (i, j) = pair_hash hasher (i, k)"
  then show "hasher j = hasher k" unfolding pair_hash_def hash_combine_def Let_def fst_conv snd_conv
    by (drule_tac xor_cancel_left) simp
qed (simp add: pair_hash_def hash_combine_def)

end
