(* ===== verification/Spec2Isabelle.thy ===== *)
theory Spec2Isabelle
  imports Prelude Link Wheel EventLoop Coroutine Hook UnionFind Graph CircularBuffer MinHeap LinkedList LeetLists Fenwick Cache Sorting Trees Serialize TreeStore BlockingQueue Reactor Urcu Voting TreeClass ArraySearch Csapp EchoServers EdgeRemoval GridDP IncSubseq Islands LinearDP ListMerges Rio SetSpec Singleton SkipList SlidingWindow StackPrograms StringDP Sync Tables TextTools TinyServer TrieSet TwoPointers Utilities
begin

text \<open>
  A verification development for the C++ repository \<open>misc-cpp\<close>: a coroutine library
  (src/libco), the building blocks of network servers (src/misc: reactor, blocking queue,
  user-space RCU; src/tiny and src/network: a web server and echo servers), containers
  (src/misc/struct, src/struct, src/utils) and algorithm exercises (src/leetcode). Paths below are relative to src/.

  \<^bold>\<open>Conventions.\<close> The theory Prelude fixes them. A computation that C++ leaves
  undefined (a null or dangling pointer that is dereferenced, an index outside a vector,
  \<open>front\<close> of an empty container, an uninitialised value that is read) is \<open>None\<close>, and
  a function that may do so returns an \<open>option\<close>. Pointers into memory that changes are
  addresses of an explicit store; data that is only read is a HOL value. Unsigned integers and
  bit patterns whose width matters are words or carry their \<open>mod 2 ^ w\<close>, the narrowing of an
  \<open>unsigned long long\<close> to an \<open>int\<close> is written out; the signed arithmetic of the exercises is
  that of \<open>int\<close>, so their theorems speak of runs that do not overflow. A loop whose end depends on
  the data is a partial function, and the theorems say that it returns; fuel is used only where
  the program need not end (the random search of Voting, the waiting loops of Urcu) or where a
  measure is known (the queue of Graph's topological sort), and every theorem says how much is
  enough or that none is.

  \<^bold>\<open>The coroutine library\<close> (libco/co_routine.h, co_routine.cpp, co_hook.cpp).
  \<^item> Link: the intrusive lists \<open>RemoveFromLink\<close>, \<open>TailAdd\<close>, \<open>HeadPop\<close>,
    \<open>LinkAppend\<close> over a store of items and headers. \<open>absl\<close> relates the store to HOL
    lists, the lemmas \<open>*_correct\<close> are a refinement; the contract is the locale
    \<open>intrusive_lists\<close>.
  \<^item> Wheel: the timing wheel (\<open>TimerItemAdd\<close>, \<open>TimeoutLinkAllTake\<close>). Invariant
    \<open>wheel_ok\<close>; a tick moves the items of the slots it passes to the ready list and leaves no
    item that is due on the wheel; after a stall of 2^31 ms or more the index can be negative, and the
    tick then leaves the array.
  \<^item> EventLoop: one iteration of \<open>CoEventloop\<close>, \<open>CoPoll\<close> before and after its
    \<open>CoYield\<close>, condition variables, event masks. It uses the lists through Link and files timers
    through Wheel; the coroutines that it resumes are a parameter.
  \<^item> Coroutine: creation, resume, yield, reset and release of coroutines and \<open>CoSwap\<close> with
    shared stacks, where the frames of a suspended coroutine are copied out and in; which coroutine
    runs after a resume or a yield, on which frames.
  \<^item> Hook: the wrappers of the system calls; the original calls are functions over a world, and
    \<open>poll\<close>, which suspends the coroutine, is a parameter whose behaviour EventLoop proves.
    \<open>while_open\<close> relates the states between the opening and the closing of a descriptor.

  \<^bold>\<open>Servers and concurrency\<close> (misc).
  \<^item> BlockingQueue: misc/include/blocking_queue.h as steps between semaphore calls, interleaved
    by a step relation; invariant by rule induction over reachable states.
  \<^item> Reactor: misc/reactor, both builds, system call results as inputs; its queues behave as
    BlockingQueue shows.
  \<^item> Urcu: misc/urcu, registry ring, readers, writer and the queue of waiting writers; fuel in the
    loops that wait.

  \<^bold>\<open>Containers.\<close>
  \<^item> UnionFind: misc/struct/disjoint_set and struct/DisjointSetUnion.cc, locale \<open>union_find\<close>;
    its client Graph: misc/struct/graph, struct/minmumSpanningTree.cc,
    struct/topologicalSorting.cc. Kruskal's loop is proved minimal once, in the locale.
  \<^item> MinHeap: misc/struct/min_heap.h and struct/minHeap.cc, locale \<open>priority_queue\<close>.
  \<^item> CircularBuffer: utils/CircularBuffer.h, refinement of a bounded list.
  \<^item> LinkedList: misc/struct/list.h over a store of nodes; its client LeetLists: leetcode/list.
  \<^item> Fenwick: misc/struct/fenwick_tree.h, struct/fenwickTree.cc and its use in
    leetcode/other/CreateSortedArrayInstructions.cc.
  \<^item> Cache: leetcode/other/leastRecentlyUsed.cc, refinement of a list of recent keys.
  \<^item> TreeClass: misc/struct/tree.

  \<^bold>\<open>Exercises\<close> (leetcode).
  \<^item> Sorting: divideANDconquer/sortArray.cc. Voting: divideANDconquer/majorityElement.cc.
  \<^item> Trees, Serialize, TreeStore: leetcode/tree and leetcode/BST, functions that read a tree, the
    two serialization formats, and the functions that build or relink a tree.
  \<^item> Tables: counting loops, their invariant rule and checked tables, shared by the dynamic
    programs of leetcode/DP. StringDP: edit distance and regular expressions, compared with
    sequences of edits and with a matching relation. LinearDP: houseRobber, houseRobber2,
    deleteAndEarn. IncSubseq: longestIncSubseq. GridDP: uniquePaths, uniquePaths2, minPathSum,
    dungeonGame, compared with the walks of a grid.
  \<^item> EdgeRemoval: leetcode/graph/removeEdgesKeepFullyTraversable.cc on top of UnionFind: the answer
    is the number of edges that two walkers can spare, and no choice spares more.
  \<^item> Islands: leetcode/graph/disconnectIsland.cc, the depth-first search over counters and the
    number of days, against every set of cells that could be removed.
  \<^item> SlidingWindow: leetcode/other/slidingWindowMaximum.cc, the four versions against the maximum
    of each window.
  \<^item> ListMerges: leetcode/list, the top-down sortList, addTwoNums (both versions) and mergeLists
    through a multimap, each against the multiset, the order or the number of its input. The
    versions of mergeLists with a priority queue and with make_heap are left out: which of two
    equal keys leaves first is the queue's choice.
  \<^item> ArraySearch: leetcode/divideANDconquer (rotated arrays) and leetcode/other
    (firstAndLastPosition, medianTwoSortedArrays): binary searches and what they find.
  \<^item> TwoPointers: containerMostWater, trappingRainingWater, twoSum, threeSum and
    firstMissingPositive, each compared with the quadratic definition of what is asked.
  \<^item> StackPrograms: validParentheses against the grammar of balanced strings,
    largestRectangleArea and DP/maximalRectangle against the greatest rectangle.

  \<^bold>\<open>Sets.\<close>
  \<^item> SetSpec: the locale \<open>insert_set\<close>, what a client of a set relies on, with a client that
    builds a set from a list. SkipList (misc/struct/skip_list.h, skip_list.cpp; nodes in a
    store, forward pointers per level, the random bits an input) and TrieSet
    (leetcode/other/trie.cc) interpret it.

  \<^bold>\<open>Utilities\<close> (utils, misc/include).
  \<^item> Singleton: utils/singleton.cc, double-checked locking as a step relation over any number of
    threads, one step per access to the atomic pointer.
  \<^item> TextTools: utils/csvParser.cc, misc/include/split_string.h, utils/removeContinousSpaces.cc.
  \<^item> Utilities: utils/memcpy.cc, utils/numCombination.cc, network/IPrange.cc, Duff's device and
    struct/sparseMatrix.cc.

  \<^bold>\<open>Network programs\<close> (tiny, network/echo).
  \<^item> Rio and Csapp: tiny/csapp.c, the buffered and unbuffered reads and writes over the answers of
    the kernel, signal-safe output, opening of client and listening sockets.
  \<^item> TinyServer: tiny/tiny.c on top of Rio. A request may never end (the peer closes inside the
    headers), so its answer is a partial function; one theorem says when it returns and one when
    it does not.
  \<^item> EchoServers: one turn of the poll and of the epoll server, and that they serve alike.

  \<^bold>\<open>Concurrency demonstrations\<close> (sync).
  \<^item> Sync (sync/goodcnt.c, sync/deadlock.cc): the counting threads under their semaphore and
    the transfers under two locks, as step relations over every interleaving.

  \<^bold>\<open>Kinds of lemmas.\<close> Each theory states the behaviour of every operation on the branches it
  has, an invariant or a representation relation, and the theorems named C1, C2 and so on, which
  are the properties a reader should check first. Where a reference definition exists in the
  library (\<open>sort\<close>, \<open>inorder\<close>, \<open>Max\<close>, multisets, \<open>distinct\<close>), the code is
  compared with it.

  \<^bold>\<open>Not modelled.\<close> co_ctx_swap.S and co_ctx.cpp (registers and raw stack memory), co_epoll
  (wrappers of one system call); misc/coroutine, a byte-for-byte copy of libco, and utils/csapp.c, a
  copy of tiny/csapp.c, whose one-call wrappers with an error message are left out; utils/coroutine.h
  and its examples (macros and compiler-generated coroutine frames); asio (callbacks of a library that
  is not in the repository); std, the other programs of sync, and the process and
  terminal experiments of utils,
  which demonstrate library or system calls and hold no logic of their own;
  struct/hashBucket.cc, struct/monotonicQueue.cc, struct/prefixSum.cc and libco/example/echo_svr.cpp, which do
  not compile; the exercises of leetcode that no theory above names; the \<open>main\<close> functions,
  tests and printing throughout. The signal handling,
  allocation and thread creation of the modelled programs are left out too, as is the order of
  memory accesses between threads (a thread's step is atomic where the code holds a lock or uses
  an atomic operation).
\<close>

end
